(* ===== verification/Ulpf_Prelude.thy ===== *)
theory Ulpf_Prelude
  imports Main "HOL-Library.Char_ord" "HOL-Library.List_Lexorder" "HOL-Library.Sublist"
begin

text \<open>
  The vocabulary every component shares. A byte of the Rust code (\<open>u8\<close>) is a \<open>char\<close>,
  which in HOL is exactly an 8-bit value, and \<open>&[u8]\<close>, \<open>Vec<u8>\<close> and the UTF-8 text of
  \<open>&str\<close> are lists of them. Unsigned machine integers are \<open>nat\<close>, signed ones \<open>int\<close>;
  the width is written out where the code checks, wraps or truncates (\<open>checked_mul\<close>,
  \<open>saturating_add\<close>, \<open>as u8\<close>, little-endian encoding). The theory also collects the list
  lemmas on slices, byte search and overwriting part of a file that the components use.
\<close>

named_theorems slice_simps "slices of byte strings"
named_theorems width_simps "checked and saturating machine arithmetic"

type_synonym byte = char
type_synonym bytes = "char list"

abbreviation bv :: "byte \<Rightarrow> nat" where
  "bv b \<equiv> of_char b"

subsection \<open>ASCII classes\<close>

definition is_ascii_digit :: "byte \<Rightarrow> bool" where
  "is_ascii_digit b \<longleftrightarrow> 48 \<le> bv b \<and> bv b \<le> 57"

definition is_ascii_upper :: "byte \<Rightarrow> bool" where
  "is_ascii_upper b \<longleftrightarrow> 65 \<le> bv b \<and> bv b \<le> 90"

definition is_ascii_lower :: "byte \<Rightarrow> bool" where
  "is_ascii_lower b \<longleftrightarrow> 97 \<le> bv b \<and> bv b \<le> 122"

definition is_ascii_alphabetic :: "byte \<Rightarrow> bool" where
  "is_ascii_alphabetic b \<longleftrightarrow> is_ascii_upper b \<or> is_ascii_lower b"

definition is_ascii_alphanumeric :: "byte \<Rightarrow> bool" where
  "is_ascii_alphanumeric b \<longleftrightarrow> is_ascii_alphabetic b \<or> is_ascii_digit b"

definition is_ascii_hexdigit :: "byte \<Rightarrow> bool" where
  "is_ascii_hexdigit b \<longleftrightarrow>
     is_ascii_digit b \<or> (65 \<le> bv b \<and> bv b \<le> 70) \<or> (97 \<le> bv b \<and> bv b \<le> 102)"

text \<open>Rust's \<open>is_ascii_whitespace\<close>: space, tab, line feed, form feed, carriage return.\<close>

definition is_ascii_whitespace :: "byte \<Rightarrow> bool" where
  "is_ascii_whitespace b \<longleftrightarrow> bv b \<in> {32, 9, 10, 12, 13}"

definition to_ascii_lowercase :: "byte \<Rightarrow> byte" where
  "to_ascii_lowercase b = (if is_ascii_upper b then char_of (bv b + 32) else b)"

definition eq_ignore_ascii_case :: "bytes \<Rightarrow> bytes \<Rightarrow> bool" where
  "eq_ignore_ascii_case xs ys \<longleftrightarrow> map to_ascii_lowercase xs = map to_ascii_lowercase ys"

definition digit_val :: "byte \<Rightarrow> nat" where
  "digit_val b = bv b - 48"

definition digit_char :: "nat \<Rightarrow> byte" where
  "digit_char d = char_of (48 + d)"

lemma bv_less [simp]: "bv b < 256"
proof -
  have "of_char b mod (256::nat) = of_char b" by (rule of_char_mod_256)
  then show ?thesis by (metis mod_less_divisor zero_less_numeral)
qed

lemma bv_char_of [simp]: "n < 256 \<Longrightarrow> bv (char_of n) = n"
  by (simp add: of_char_of)

lemma digit_char_digit: "d < 10 \<Longrightarrow> is_ascii_digit (digit_char d)"
  by (simp add: is_ascii_digit_def digit_char_def)

lemma digit_val_char [simp]: "d < 10 \<Longrightarrow> digit_val (digit_char d) = d"
  by (simp add: digit_val_def digit_char_def)

lemma digit_val_less: "is_ascii_digit b \<Longrightarrow> digit_val b < 10"
  unfolding is_ascii_digit_def digit_val_def by arith

lemma eq_ignore_ascii_case_refl [simp]: "eq_ignore_ascii_case xs xs"
  by (simp add: eq_ignore_ascii_case_def)

lemma eq_ignore_ascii_case_length: "eq_ignore_ascii_case xs ys \<Longrightarrow> length xs = length ys"
  unfolding eq_ignore_ascii_case_def by (rule map_eq_imp_length_eq)

subsection \<open>Slices and search\<close>

text \<open>\<open>&xs[a..b]\<close>; the callers keep \<open>a \<le> b \<le> length xs\<close>, outside which Rust panics.\<close>

definition slice :: "nat \<Rightarrow> nat \<Rightarrow> 'a list \<Rightarrow> 'a list" where
  "slice a b xs = take (b - a) (drop a xs)"

lemma slice_length [simp]: "length (slice a b xs) = min (b - a) (length xs - a)"
  by (simp add: slice_def min.commute)

lemma slice_empty [slice_simps]: "b \<le> a \<Longrightarrow> slice a b xs = []"
  by (simp add: slice_def)

lemma slice_all [slice_simps]: "length xs \<le> b \<Longrightarrow> slice a b xs = drop a xs"
  by (simp add: slice_def)

lemma slice_0 [slice_simps]: "slice 0 b xs = take b xs"
  by (simp add: slice_def)

lemma slice_append_drop: "a \<le> b \<Longrightarrow> slice a b xs @ drop b xs = drop a xs"
  unfolding slice_def by (metis append_take_drop_id drop_drop le_add_diff_inverse2)

lemma take_slice_append: "a \<le> b \<Longrightarrow> take a xs @ slice a b xs = take b xs"
  unfolding slice_def by (metis le_add_diff_inverse take_add)

lemma slice_prefix [slice_simps]: "slice (length xs) (length xs + n) (xs @ ys) = take n ys"
  by (simp add: slice_def)

lemma slice_append_left: "b \<le> length xs \<Longrightarrow> slice a b (xs @ ys) = slice a b xs"
  by (simp add: slice_def)

lemma slice_append_right:
  "length xs \<le> a \<Longrightarrow> slice a b (xs @ ys) = slice (a - length xs) (b - length xs) ys"
  by (cases "a \<le> b") (simp_all add: slice_def)

lemma slice_drop: "slice a b (drop k xs) = slice (k + a) (k + b) xs"
  by (simp add: slice_def add.commute)

lemma slice_nth: "i < b - a \<Longrightarrow> a + i < length xs \<Longrightarrow> slice a b xs ! i = xs ! (a + i)"
  by (simp add: slice_def)

text \<open>\<open>memchr\<close>: the first index of a byte; \<open>position\<close>: the first index satisfying a test.\<close>

fun position :: "('a \<Rightarrow> bool) \<Rightarrow> 'a list \<Rightarrow> nat option" where
  "position p [] = None"
| "position p (x # xs) = (if p x then Some 0 else map_option Suc (position p xs))"

definition memchr :: "byte \<Rightarrow> bytes \<Rightarrow> nat option" where
  "memchr b xs = position (\<lambda>c. c = b) xs"

lemma position_None: "position p xs = None \<longleftrightarrow> (\<forall>x \<in> set xs. \<not> p x)"
  by (induction xs) auto

lemma position_SomeD:
  "position p xs = Some i \<Longrightarrow> i < length xs \<and> p (xs ! i) \<and> (\<forall>j < i. \<not> p (xs ! j))"
proof (induction xs arbitrary: i)
  case Nil
  then show ?case by simp
next
  case (Cons x xs)
  show ?case
  proof (cases "p x")
    case True
    with Cons.prems show ?thesis by simp
  next
    case False
    with Cons.prems obtain k where k: "position p xs = Some k" "i = Suc k" by auto
    from Cons.IH [OF k(1)] False k(2) show ?thesis by (auto simp: less_Suc_eq_0_disj)
  qed
qed

lemma position_SomeI:
  "i < length xs \<Longrightarrow> p (xs ! i) \<Longrightarrow> (\<And>j. j < i \<Longrightarrow> \<not> p (xs ! j)) \<Longrightarrow> position p xs = Some i"
proof (induction xs arbitrary: i)
  case Nil
  then show ?case by simp
next
  case (Cons x xs)
  show ?case
  proof (cases i)
    case 0
    with Cons.prems show ?thesis by simp
  next
    case (Suc k)
    have "\<not> p x" using Cons.prems(3) [of 0] Suc by simp
    moreover have "position p xs = Some k"
      using Cons.prems Suc by (intro Cons.IH) fastforce+
    ultimately show ?thesis using Suc by simp
  qed
qed

lemma memchr_None: "memchr b xs = None \<longleftrightarrow> b \<notin> set xs"
  by (auto simp: memchr_def position_None)

lemma memchr_SomeD:
  "memchr b xs = Some i \<Longrightarrow> i < length xs \<and> xs ! i = b \<and> (\<forall>j < i. xs ! j \<noteq> b)"
  unfolding memchr_def by (drule position_SomeD) simp

lemma add_0_fun: "(+) (0::nat) = id"
  by (simp add: fun_eq_iff)

lemma memchr_append_notin:
  "b \<notin> set xs \<Longrightarrow> memchr b (xs @ ys) = map_option ((+) (length xs)) (memchr b ys)"
  unfolding memchr_def by (induction xs) (auto simp: option.map_comp comp_def add_0_fun option.map_id intro!: option.map_cong)

lemma memchr_hit: "b \<notin> set xs \<Longrightarrow> memchr b (xs @ b # ys) = Some (length xs)"
  by (simp add: memchr_append_notin) (simp add: memchr_def)

text \<open>\<open>slice::split\<close>: the pieces between occurrences of a byte; there is always at least one.\<close>

fun split_on :: "byte \<Rightarrow> bytes \<Rightarrow> bytes list" where
  "split_on d [] = [[]]"
| "split_on d (b # s) =
     (if b = d then [] # split_on d s
      else case split_on d s of [] \<Rightarrow> [[b]] | p # ps \<Rightarrow> (b # p) # ps)"

lemma split_on_ne [simp]: "split_on d s \<noteq> []"
  by (cases s) (auto split: list.splits)

lemma split_on_no: "d \<notin> set s \<Longrightarrow> split_on d s = [s]"
  by (induction s) auto

lemma split_on_cut: "d \<notin> set p \<Longrightarrow> split_on d (p @ d # s) = p # split_on d s"
  by (induction p) auto

text \<open>\<open>memmem::find\<close>: the first index at which a needle occurs.\<close>

fun memmem :: "bytes \<Rightarrow> bytes \<Rightarrow> nat option" where
  "memmem needle [] = (if needle = [] then Some 0 else None)"
| "memmem needle (x # xs) =
     (if prefix needle (x # xs) then Some 0 else map_option Suc (memmem needle xs))"

lemma memmem_SomeD: "memmem needle xs = Some i \<Longrightarrow> prefix needle (drop i xs) \<and> i \<le> length xs"
  by (induction needle xs arbitrary: i rule: memmem.induct) (auto split: if_splits)

subsection \<open>Machine integers\<close>

definition i64_ok :: "int \<Rightarrow> bool" where
  "i64_ok x \<longleftrightarrow> - (2 ^ 63) \<le> x \<and> x < 2 ^ 63"

definition checked_i64 :: "int \<Rightarrow> int option" where
  "checked_i64 x = (if i64_ok x then Some x else None)"

definition saturating_i64 :: "int \<Rightarrow> int" where
  "saturating_i64 x = max (- (2 ^ 63)) (min (2 ^ 63 - 1) x)"

text \<open>\<open>as u8\<close> of a wider unsigned value keeps the low eight bits.\<close>

definition as_u8 :: "nat \<Rightarrow> nat" where
  "as_u8 n = n mod 256"

lemma checked_i64_Some [width_simps]: "checked_i64 x = Some y \<longleftrightarrow> i64_ok x \<and> y = x"
  by (auto simp: checked_i64_def)

lemma saturating_i64_id [width_simps]: "i64_ok x \<Longrightarrow> saturating_i64 x = x"
  by (simp add: saturating_i64_def i64_ok_def)

lemma saturating_i64_ok: "i64_ok (saturating_i64 x)"
  by (simp add: saturating_i64_def i64_ok_def)

lemma as_u8_id [width_simps]: "n < 256 \<Longrightarrow> as_u8 n = n"
  by (simp add: as_u8_def)

subsection \<open>Little-endian encoding\<close>

text \<open>\<open>to_le_bytes\<close> of a \<open>k\<close>-byte integer (the value taken modulo \<open>256 ^ k\<close>) and its inverse.\<close>

fun le_bytes :: "nat \<Rightarrow> nat \<Rightarrow> bytes" where
  "le_bytes 0 n = []"
| "le_bytes (Suc k) n = char_of (n mod 256) # le_bytes k (n div 256)"

fun le_val :: "bytes \<Rightarrow> nat" where
  "le_val [] = 0"
| "le_val (b # bs) = bv b + 256 * le_val bs"

lemma le_bytes_length [simp]: "length (le_bytes k n) = k"
  by (induction k arbitrary: n) auto

lemma le_val_le_bytes: "le_val (le_bytes k n) = n mod 256 ^ k"
proof (induction k arbitrary: n)
  case 0
  show ?case by simp
next
  case (Suc k)
  have "le_val (le_bytes (Suc k) n) = n mod 256 + 256 * (n div 256 mod 256 ^ k)"
    by (simp add: Suc.IH)
  also have "\<dots> = n mod (256 * 256 ^ k)"
    by (simp add: mod_mult2_eq add.commute)
  finally show ?case by simp
qed

lemma le_val_less: "le_val bs < 256 ^ length bs"
proof (induction bs)
  case Nil
  show ?case by simp
next
  case (Cons b bs)
  have "(of_char b :: nat) \<le> 255" using bv_less [of b] by linarith
  moreover have "le_val bs \<le> 256 ^ length bs - 1" using Cons.IH by linarith
  ultimately have "bv b + 256 * le_val bs \<le> 255 + 256 * (256 ^ length bs - 1)"
    by (intro add_mono mult_left_mono) simp_all
  also have "\<dots> < 256 ^ length (b # bs)"
  proof -
    have "(1::nat) \<le> 256 ^ length bs" by simp
    then show ?thesis by (simp add: diff_mult_distrib2)
  qed
  finally show ?case by simp
qed

lemma le_bytes_le_val: "le_bytes (length bs) (le_val bs) = bs"
proof (induction bs)
  case Nil
  show ?case by simp
next
  case (Cons b bs)
  have "(bv b + 256 * le_val bs) mod 256 = bv b" "(bv b + 256 * le_val bs) div 256 = le_val bs"
    by simp_all
  then show ?case by (simp only: le_val.simps list.size add_Suc_right add_0_right le_bytes.simps char_of_char Cons.IH)
qed

text \<open>A signed 64-bit value goes through its two's complement.\<close>

definition i64_bits :: "int \<Rightarrow> nat" where
  "i64_bits x = nat (x mod 2 ^ 64)"

definition i64_of_bits :: "nat \<Rightarrow> int" where
  "i64_of_bits n = (if n < 2 ^ 63 then int n else int n - 2 ^ 64)"

lemma i64_bits_less: "i64_bits x < 2 ^ 64"
  by (simp add: i64_bits_def nat_less_iff)

lemma i64_of_bits_bits [width_simps]:
  assumes "i64_ok x"
  shows "i64_of_bits (i64_bits x) = x"
proof (cases "0 \<le> x")
  case True
  with assms have "x mod 2 ^ 64 = x" by (intro mod_pos_pos_trivial) (simp_all add: i64_ok_def)
  with True assms show ?thesis by (simp add: i64_of_bits_def i64_bits_def i64_ok_def nat_less_iff)
next
  case False
  have "(x + 2 ^ 64) mod 2 ^ 64 = x + 2 ^ 64"
    using False assms by (intro mod_pos_pos_trivial) (simp_all add: i64_ok_def)
  then have "x mod 2 ^ 64 = x + 2 ^ 64" by simp
  with False assms show ?thesis by (simp add: i64_of_bits_def i64_bits_def i64_ok_def nat_less_iff)
qed

subsection \<open>Hexadecimal text\<close>

definition hex_digit :: "nat \<Rightarrow> byte" where
  "hex_digit d = char_of (if d < 10 then 48 + d else 87 + d)"

text \<open>\<open>write!("{b:02x}")\<close> per byte.\<close>

definition hex :: "bytes \<Rightarrow> bytes" where
  "hex bs = concat (map (\<lambda>b. [hex_digit (bv b div 16), hex_digit (bv b mod 16)]) bs)"

lemma hex_digit_inject: "a < 16 \<Longrightarrow> b < 16 \<Longrightarrow> hex_digit a = hex_digit b \<Longrightarrow> a = b"
proof -
  assume ab: "a < 16" "b < 16" and eq: "hex_digit a = hex_digit b"
  have a: "bv (hex_digit a) = (if a < 10 then 48 + a else 87 + a)"
    unfolding hex_digit_def by (rule bv_char_of) (use ab in simp)
  have b: "bv (hex_digit b) = (if b < 10 then 48 + b else 87 + b)"
    unfolding hex_digit_def by (rule bv_char_of) (use ab in simp)
  have "bv (hex_digit a) = (bv (hex_digit b) :: nat)" unfolding eq ..
  then have "(if a < 10 then 48 + a else 87 + a) = (if b < 10 then 48 + b else 87 + b)"
    unfolding a b .
  then show "a = b" using ab by presburger
qed

lemma hex_inject: "hex xs = hex ys \<Longrightarrow> xs = ys"
proof (induction xs arbitrary: ys)
  case Nil
  then show ?case by (cases ys) (simp_all add: hex_def)
next
  case (Cons x xs)
  then obtain y zs where ys: "ys = y # zs" by (cases ys) (auto simp: hex_def)
  with Cons.prems have h: "hex_digit (bv x div 16) = hex_digit (bv y div 16)"
    and l: "hex_digit (bv x mod 16) = hex_digit (bv y mod 16)" and t: "hex xs = hex zs"
    by (simp_all add: hex_def)
  have "bv x div 16 = bv y div 16" "bv x mod 16 = bv y mod 16"
    using h l by (auto intro!: hex_digit_inject simp: less_mult_imp_div_less)
  then have "bv x = bv y" by (metis div_mult_mod_eq)
  then have "x = y" by simp
  with Cons.IH [OF t] ys show ?case by simp
qed

subsection \<open>Overwriting part of a file\<close>

text \<open>
  \<open>write_at f p bs\<close> is the content of a file after \<open>bs\<close> is written at offset \<open>p\<close>: bytes
  beyond the end extend the file, and a gap is filled with zeros as a sparse write does.
\<close>

definition nul :: byte where
  "nul = char_of (0::nat)"

definition zeros :: "nat \<Rightarrow> bytes" where
  "zeros n = replicate n nul"

definition write_at :: "bytes \<Rightarrow> nat \<Rightarrow> bytes \<Rightarrow> bytes" where
  "write_at f p bs =
     (if bs = [] then f else take p f @ zeros (p - length f) @ bs @ drop (p + length bs) f)"

lemma zeros_length [simp]: "length (zeros n) = n"
  by (simp add: zeros_def)

lemma zeros_0 [simp]: "zeros 0 = []"
  by (simp add: zeros_def)

lemma le_val_zeros [simp]: "le_val (zeros n) = 0"
  by (induction n) (simp_all add: zeros_def nul_def)

lemma take_zeros [simp]: "take n (zeros m) = zeros (min n m)"
  by (simp add: zeros_def)

lemma drop_zeros [simp]: "drop n (zeros m) = zeros (m - n)"
  by (simp add: zeros_def)

lemma zeros_add: "zeros m @ zeros n = zeros (m + n)"
  by (simp add: zeros_def replicate_add)

lemma write_at_Nil [simp]: "write_at f p [] = f"
  by (simp add: write_at_def)

lemma write_at_inside:
  "p \<le> length f \<Longrightarrow> write_at f p bs = take p f @ bs @ drop (p + length bs) f"
  by (simp add: write_at_def)

lemma write_at_append:
  "write_at (xs @ ys) (length xs) bs = xs @ bs @ drop (length bs) ys"
  by (simp add: write_at_inside)

lemma write_at_length: "p \<le> length f \<Longrightarrow> length (write_at f p bs) = max (length f) (p + length bs)"
  by (simp add: write_at_inside)

lemma write_at_write_at:
  assumes "p \<le> length f"
  shows "write_at (write_at f p bs) (p + length bs) cs = write_at f p (bs @ cs)"
proof (cases "bs = []")
  case True
  then show ?thesis by simp
next
  case False
  define l where "l = take p f @ bs"
  have l: "length l = p + length bs" using assms by (simp add: l_def)
  have "write_at f p bs = l @ drop (p + length bs) f"
    using assms by (simp add: write_at_inside l_def)
  then have "write_at (write_at f p bs) (p + length bs) cs = l @ cs @ drop (length cs) (drop (p + length bs) f)"
    using write_at_append [of l "drop (p + length bs) f" cs] l by simp
  then show ?thesis using assms by (simp add: write_at_inside l_def add.commute add.left_commute)
qed

end
