(* ===== verification/Ulpf_Frame.thy ===== *)
theory Ulpf_Frame
  imports Ulpf_Prelude
begin

text \<open>
  Event framing: \<open>src/crates/ulpf-store/src/frame.rs\<close>. The \<open>Framer\<close> is a record of the
  struct's three fields; \<open>line_end\<close> and \<open>framer_next\<close> are its methods, the inner
  \<open>loop\<close> of \<open>next\<close> is \<open>next_loop\<close>, and \<open>frame_all\<close> is a \<open>for\<close> over the iterator. The
  specification \<open>split_events\<close> cuts a byte string after every line feed whose successor does
  not continue the event. The locale \<open>event_splitter\<close> is what the readers of a stream rely
  on: nothing lost, everything consumed at the end of the input, and a framing that can be
  resumed from the remainder when more bytes arrive.
\<close>

definition LF :: byte where "LF = char_of (10::nat)"
definition CR :: byte where "CR = char_of (13::nat)"
definition SP :: byte where "SP = char_of (32::nat)"
definition TAB :: byte where "TAB = char_of (9::nat)"

record framer =
  fr_buf :: bytes
  fr_pos :: nat
  fr_eof :: bool

definition is_continuation :: "byte \<Rightarrow> bool" where
  "is_continuation first \<longleftrightarrow> first = SP \<or> first = TAB \<or> first = CR \<or> first = LF"

definition framer_new :: "bytes \<Rightarrow> bool \<Rightarrow> framer" where
  "framer_new buf eof = \<lparr>fr_buf = buf, fr_pos = 0, fr_eof = eof\<rparr>"

definition remainder :: "framer \<Rightarrow> bytes" where
  "remainder f = drop (fr_pos f) (fr_buf f)"

definition line_end :: "framer \<Rightarrow> nat \<Rightarrow> nat option" where
  "line_end f from =
     (case memchr LF (drop from (fr_buf f)) of
        Some i \<Rightarrow> Some (from + i + 1)
      | None \<Rightarrow> if fr_eof f then Some (length (fr_buf f)) else None)"

lemma line_end_advances:
  "line_end f from = Some e \<Longrightarrow> from < length (fr_buf f) \<Longrightarrow> from < e \<and> e \<le> length (fr_buf f)"
  by (auto simp: line_end_def split: option.splits if_splits dest!: memchr_SomeD)

text \<open>The \<open>loop\<close> of \<open>next\<close>: \<open>None\<close> is a \<open>return None\<close> or a failed \<open>?\<close>.\<close>

function next_loop :: "framer \<Rightarrow> nat \<Rightarrow> nat option" where
  "next_loop f e =
     (if length (fr_buf f) \<le> e then (if fr_eof f then Some e else None)
      else if \<not> is_continuation (fr_buf f ! e) then Some e
      else case line_end f e of
             None \<Rightarrow> None
           | Some e' \<Rightarrow> next_loop f e')"
  by pat_completeness auto
termination
  by (relation "measure (\<lambda>(f, e). length (fr_buf f) - e)")
     (auto dest: line_end_advances)

declare next_loop.simps [simp del]

definition framer_next :: "framer \<Rightarrow> (nat \<times> nat) option \<times> framer" where
  "framer_next f =
     (let start = fr_pos f in
      if length (fr_buf f) \<le> start then (None, f)
      else case line_end f start of
             None \<Rightarrow> (None, f)
           | Some e0 \<Rightarrow>
               (case next_loop f e0 of
                  None \<Rightarrow> (None, f)
                | Some e \<Rightarrow> (Some (start, e), f\<lparr>fr_pos := e\<rparr>)))"

lemma next_loop_ge: "next_loop f e = Some e' \<Longrightarrow> e \<le> e'"
proof (induction f e rule: next_loop.induct)
  case (1 f e)
  show ?case
  proof (cases "length (fr_buf f) \<le> e \<or> \<not> is_continuation (fr_buf f ! e)")
    case True
    with "1.prems" show ?thesis by (subst (asm) next_loop.simps) (auto split: if_splits)
  next
    case False
    with "1.prems" obtain k where k: "line_end f e = Some k" "next_loop f k = Some e'"
      by (subst (asm) next_loop.simps) (auto split: option.splits)
    with "1.IH" False have "k \<le> e'" by auto
    with line_end_advances [OF k(1)] False show ?thesis by simp
  qed
qed

lemma framer_next_advances:
  "framer_next f = (Some r, g) \<Longrightarrow>
     fr_pos f < length (fr_buf f) \<and> fr_pos f < fr_pos g \<and> fr_buf g = fr_buf f \<and> fr_eof g = fr_eof f
     \<and> r = (fr_pos f, fr_pos g)"
  by (auto simp: framer_next_def Let_def split: if_splits option.splits
        dest!: next_loop_ge line_end_advances)

text \<open>\<open>for range in &mut framer\<close>: the ranges yielded and the framer left behind.\<close>

function frame_all :: "framer \<Rightarrow> (nat \<times> nat) list \<times> framer" where
  "frame_all f =
     (case framer_next f of
        (None, g) \<Rightarrow> ([], g)
      | (Some r, g) \<Rightarrow> (let (rs, h) = frame_all g in (r # rs, h)))"
  by pat_completeness auto
termination
  by (relation "measure (\<lambda>f. length (fr_buf f) - fr_pos f)") (auto dest!: framer_next_advances [OF sym])

declare frame_all.simps [simp del]

text \<open>The event bytes and the remainder of one buffer, as every caller uses the framer.\<close>

definition frame :: "bool \<Rightarrow> bytes \<Rightarrow> bytes list \<times> bytes" where
  "frame eof buf =
     (let (rs, f) = frame_all (framer_new buf eof)
      in (map (\<lambda>(a, b). slice a b buf) rs, remainder f))"

subsection \<open>Specification\<close>

fun split_events :: "bytes \<Rightarrow> bytes list" where
  "split_events [] = []"
| "split_events (b # bs) =
     (case split_events bs of
        [] \<Rightarrow> [[b]]
      | e # es \<Rightarrow> if b = LF \<and> \<not> is_continuation (hd bs) then [b] # e # es else (b # e) # es)"

definition boundary :: "bytes \<Rightarrow> nat \<Rightarrow> bool" where
  "boundary s i \<longleftrightarrow> 0 < i \<and> i < length s \<and> s ! (i - 1) = LF \<and> \<not> is_continuation (s ! i)"

lemma split_events_Nil_iff [simp]: "split_events s = [] \<longleftrightarrow> s = []"
  by (cases s) (auto split: list.splits)

lemma split_events_nonempty: "[] \<notin> set (split_events s)"
  by (induction s) (auto split: list.splits if_splits)

lemma concat_split_events: "concat (split_events s) = s"
proof (induction s)
  case Nil
  show ?case by simp
next
  case (Cons b bs)
  then show ?case by (cases "split_events bs") auto
qed

lemma boundary_Cons:
  "boundary (b # bs) (Suc i) \<longleftrightarrow>
     (if i = 0 then bs \<noteq> [] \<and> b = LF \<and> \<not> is_continuation (hd bs) else boundary bs i)"
  by (cases bs) (auto simp: boundary_def nth_Cons' hd_conv_nth)

lemma split_events_no_boundary:
  "s \<noteq> [] \<Longrightarrow> \<forall>i. \<not> boundary s i \<Longrightarrow> split_events s = [s]"
proof (induction s)
  case Nil
  then show ?case by simp
next
  case (Cons b bs)
  show ?case
  proof (cases "bs = []")
    case True
    then show ?thesis by simp
  next
    case False
    have nb: "\<not> boundary bs i" for i
    proof (cases "i = 0")
      case True
      then show ?thesis by (simp add: boundary_def)
    next
      case False
      then show ?thesis using Cons.prems(2) boundary_Cons [of b bs i] by metis
    qed
    have "\<not> (b = LF \<and> \<not> is_continuation (hd bs))"
      using Cons.prems(2) boundary_Cons [of b bs 0] False by auto
    with Cons.IH nb False show ?thesis by auto
  qed
qed

lemma split_events_at:
  "boundary s n \<Longrightarrow> split_events s = split_events (take n s) @ split_events (drop n s)"
proof (induction s arbitrary: n)
  case Nil
  then show ?case by (simp add: boundary_def)
next
  case (Cons b bs)
  then obtain i where n: "n = Suc i" by (cases n) (auto simp: boundary_def)
  show ?case
  proof (cases "i = 0")
    case True
    with Cons.prems n have "bs \<noteq> []" "b = LF" "\<not> is_continuation (hd bs)"
      by (simp_all add: boundary_Cons)
    with True n show ?thesis by (auto split: list.splits)
  next
    case False
    with Cons.prems n have bd: "boundary bs i" by (simp add: boundary_Cons)
    then have ne: "take i bs \<noteq> []" by (auto simp: boundary_def)
    then have hd: "hd (take i bs) = hd bs" using False by (cases bs) auto
    from ne obtain e es where e: "split_events (take i bs) = e # es"
      by (cases "split_events (take i bs)") auto
    with Cons.IH [OF bd] have "split_events bs = e # es @ split_events (drop i bs)" by simp
    with e n hd show ?thesis by simp
  qed
qed

lemma boundary_take: "boundary (take n s) i \<Longrightarrow> boundary s i \<and> i < n"
  by (auto simp: boundary_def)

lemma split_events_first:
  assumes "boundary s n" and "\<forall>j<n. \<not> boundary s j"
  shows "split_events s = take n s # split_events (drop n s)"
proof -
  have "split_events (take n s) = [take n s]"
    using assms by (intro split_events_no_boundary) (auto simp: boundary_def dest: boundary_take)
  with split_events_at [OF assms(1)] show ?thesis by simp
qed

text \<open>Bytes appended to a stream can only extend its last event.\<close>

lemma split_events_append:
  "s \<noteq> [] \<Longrightarrow> split_events (s @ t) = butlast (split_events s) @ split_events (last (split_events s) @ t)"
proof (induction s)
  case Nil
  then show ?case by simp
next
  case (Cons b bs)
  show ?case
  proof (cases "bs = []")
    case True
    then show ?thesis by simp
  next
    case False
    then obtain e es where e: "split_events bs = e # es" by (cases "split_events bs") auto
    have hd: "hd (bs @ t) = hd bs" using False by simp
    have ene: "e \<noteq> []" using split_events_nonempty [of bs] e by auto
    have hde: "hd e = hd bs" using concat_split_events [of bs] e ene by (metis concat.simps(2) hd_append2)
    show ?thesis
    proof (cases "b = LF \<and> \<not> is_continuation (hd bs)")
      case True
      have "bs @ t \<noteq> []" using False by simp
      with True hd Cons.IH [OF False] e show ?thesis by (auto split: list.splits)
    next
      case nb: False
      have s: "split_events (b # bs) = (b # e) # es" using e nb by auto
      show ?thesis
      proof (cases "es = []")
        case True
        with e have "e = bs" using concat_split_events [of bs] by simp
        with True s show ?thesis by simp
      next
        case ne: False
        have "split_events (bs @ t) = e # butlast es @ split_events (last es @ t)"
          using Cons.IH [OF False] e ne by simp
        with nb hd s ne show ?thesis by auto
      qed
    qed
  qed
qed

subsection \<open>The framer computes the specification\<close>

definition after_line :: "bytes \<Rightarrow> nat \<Rightarrow> bool" where
  "after_line s e \<longleftrightarrow> 0 < e \<and> e \<le> length s \<and> (e = length s \<or> s ! (e - 1) = LF)"

lemma line_end_None:
  "line_end f p = None \<Longrightarrow> p < length (fr_buf f) \<Longrightarrow>
     \<not> fr_eof f \<and> (\<forall>i > p. \<not> boundary (fr_buf f) i)"
proof -
  assume n: "line_end f p = None" and p: "p < length (fr_buf f)"
  then have "LF \<notin> set (drop p (fr_buf f))" and e: "\<not> fr_eof f"
    by (auto simp: line_end_def memchr_None split: option.splits if_splits)
  have no: "fr_buf f ! k \<noteq> LF" if k: "p \<le> k" "k < length (fr_buf f)" for k
  proof -
    have "drop p (fr_buf f) ! (k - p) \<in> set (drop p (fr_buf f))"
      using k by (intro nth_mem) simp
    with \<open>LF \<notin> _\<close> k show ?thesis by auto
  qed
  have "\<not> boundary (fr_buf f) i" if "p < i" for i
  proof
    assume "boundary (fr_buf f) i"
    moreover from this that have "fr_buf f ! (i - 1) \<noteq> LF"
      by (intro no) (auto simp: boundary_def)
    ultimately show False by (simp add: boundary_def)
  qed
  with e show ?thesis by blast
qed

lemma line_end_Some:
  assumes "line_end f p = Some e" "p < length (fr_buf f)"
  shows "after_line (fr_buf f) e \<and> p < e \<and> (\<forall>i > p. i < e \<longrightarrow> \<not> boundary (fr_buf f) i)"
proof (cases "memchr LF (drop p (fr_buf f))")
  case None
  with assms have e: "e = length (fr_buf f)" by (auto simp: line_end_def split: if_splits)
  have "line_end (f\<lparr>fr_eof := False\<rparr>) p = None" using None by (simp add: line_end_def)
  from line_end_None [OF this] assms(2) e show ?thesis by (auto simp: after_line_def)
next
  case (Some i)
  with assms(1) have e: "e = p + i + 1" by (simp add: line_end_def)
  from memchr_SomeD [OF Some]
  have i: "i < length (fr_buf f) - p" "fr_buf f ! (p + i) = LF"
    and before: "\<forall>j < i. fr_buf f ! (p + j) \<noteq> LF"
    by (auto simp: add.commute)
  have "\<not> boundary (fr_buf f) k" if k: "p < k" "k < e" for k
  proof -
    have "k - 1 = p + (k - 1 - p)" "k - 1 - p < i" using k e by auto
    with before show ?thesis unfolding boundary_def by metis
  qed
  with e i show ?thesis by (auto simp: after_line_def)
qed

text \<open>\<open>next_loop\<close>, entered after a complete line, finds the next boundary or the end.\<close>

lemma next_loop_spec:
  "after_line (fr_buf f) e \<Longrightarrow>
     (case next_loop f e of
        None \<Rightarrow> \<not> fr_eof f \<and> (\<forall>i \<ge> e. \<not> boundary (fr_buf f) i)
      | Some e' \<Rightarrow> e \<le> e' \<and> (\<forall>i \<ge> e. i < e' \<longrightarrow> \<not> boundary (fr_buf f) i)
                 \<and> (boundary (fr_buf f) e' \<or> fr_eof f \<and> e' = length (fr_buf f)))"
proof (induction f e rule: next_loop.induct)
  case (1 f e)
  let ?s = "fr_buf f"
  consider (stop) "length ?s \<le> e" | (cut) "e < length ?s" "\<not> is_continuation (?s ! e)"
    | (more) "e < length ?s" "is_continuation (?s ! e)" by linarith
  then show ?case
  proof cases
    case stop
    then show ?thesis using "1.prems"
      by (subst next_loop.simps) (auto simp: after_line_def boundary_def)
  next
    case cut
    with "1.prems" show ?thesis
      by (subst next_loop.simps) (auto simp: after_line_def boundary_def)
  next
    case more
    have nb: "\<not> boundary ?s e" using more by (simp add: boundary_def)
    show ?thesis
    proof (cases "line_end f e")
      case None
      with line_end_None [OF None more(1)] more nb show ?thesis
        by (subst next_loop.simps) (auto simp: le_less)
    next
      case (Some k)
      note k = line_end_Some [OF Some more(1)]
      have step: "next_loop f e = next_loop f k"
        using more Some by (subst next_loop.simps) simp
      have IH: "case next_loop f k of
          None \<Rightarrow> \<not> fr_eof f \<and> (\<forall>i \<ge> k. \<not> boundary ?s i)
        | Some e' \<Rightarrow> k \<le> e' \<and> (\<forall>i \<ge> k. i < e' \<longrightarrow> \<not> boundary ?s i)
                 \<and> (boundary ?s e' \<or> fr_eof f \<and> e' = length ?s)"
        using "1.IH" more Some k by auto
      have upto: "\<not> boundary ?s i" if "e \<le> i" "i < k" for i
        using k nb that by (cases "i = e") auto
      show ?thesis
      proof (cases "next_loop f k")
        case None
        with IH upto step show ?thesis by (auto simp: not_less [symmetric])
      next
        case (Some e')
        with IH upto step k show ?thesis by (auto simp: not_less [symmetric])
      qed
    qed
  qed
qed

lemma boundary_drop: "i > 0 \<Longrightarrow> boundary (drop p s) i \<longleftrightarrow> boundary s (p + i)"
  by (cases "p \<le> length s") (auto simp: boundary_def less_diff_conv add.commute)

lemma framer_next_spec:
  assumes "fr_pos f < length (fr_buf f)"
  shows "case fst (framer_next f) of
      None \<Rightarrow> \<not> fr_eof f \<and> (\<forall>i > fr_pos f. \<not> boundary (fr_buf f) i)
    | Some r \<Rightarrow> r = (fr_pos f, snd r) \<and> fr_pos f < snd r
        \<and> (\<forall>i > fr_pos f. i < snd r \<longrightarrow> \<not> boundary (fr_buf f) i)
        \<and> (boundary (fr_buf f) (snd r) \<or> fr_eof f \<and> snd r = length (fr_buf f))"
proof (cases "line_end f (fr_pos f)")
  case None
  with line_end_None [OF None assms] assms show ?thesis by (simp add: framer_next_def)
next
  case (Some e0)
  note e0 = line_end_Some [OF Some assms]
  then have "after_line (fr_buf f) e0" by simp
  note nl = next_loop_spec [OF this]
  show ?thesis
  proof (cases "next_loop f e0")
    case None
    with nl e0 Some assms show ?thesis by (auto simp: framer_next_def not_less [symmetric])
  next
    case (Some e)
    with nl e0 \<open>line_end f (fr_pos f) = Some e0\<close> assms show ?thesis
      by (auto simp: framer_next_def not_less [symmetric])
  qed
qed

lemma framer_next_None_same: "framer_next f = (None, g) \<Longrightarrow> g = f"
  by (auto simp: framer_next_def Let_def split: if_splits option.splits)

text \<open>What a framer at position \<open>p\<close> yields, against the specification of the rest of its buffer.\<close>

lemma frame_all_spec:
  "frame_all f = (rs, g) \<Longrightarrow> fr_pos f \<le> length (fr_buf f) \<Longrightarrow>
     map (\<lambda>(a, b). slice a b (fr_buf f)) rs =
       (let evs = split_events (drop (fr_pos f) (fr_buf f)) in if fr_eof f then evs else butlast evs)
     \<and> remainder g =
       (if fr_eof f \<or> remainder f = [] then [] else last (split_events (remainder f)))"
proof (induction f arbitrary: rs g rule: frame_all.induct)
  case (1 f)
  let ?s = "fr_buf f" and ?p = "fr_pos f"
  show ?case
  proof (cases "?p = length ?s")
    case True
    then have "framer_next f = (None, f)" by (simp add: framer_next_def)
    with "1.prems" True show ?thesis by (subst (asm) frame_all.simps) (auto simp: remainder_def)
  next
    case False
    with "1.prems" have p: "?p < length ?s" by simp
    note spec = framer_next_spec [OF p]
    show ?thesis
    proof (cases "fst (framer_next f)")
      case None
      then have fn: "framer_next f = (None, f)"
        by (metis framer_next_None_same prod.collapse)
      have nb: "\<not> boundary (drop ?p ?s) i" for i
        using None spec boundary_drop [of i ?p ?s] by (cases "i = 0") (auto simp: boundary_def)
      have one: "split_events (drop ?p ?s) = [drop ?p ?s]"
        using p nb by (intro split_events_no_boundary) auto
      from None spec have "\<not> fr_eof f" by simp
      with "1.prems" fn one p show ?thesis
        by (subst (asm) frame_all.simps) (auto simp: remainder_def)
    next
      case (Some r)
      then obtain h where fn: "framer_next f = (Some r, h)" by (metis prod.collapse)
      note h = framer_next_advances [OF fn]
      from Some spec h have upto: "\<forall>i > ?p. i < fr_pos h \<longrightarrow> \<not> boundary ?s i"
        and at: "boundary ?s (fr_pos h) \<or> fr_eof f \<and> fr_pos h = length ?s" by auto
      then have hle: "fr_pos h \<le> length (fr_buf h)" using h by (auto simp: boundary_def)
      obtain rs' g' where rec: "frame_all h = (rs', g')" by fastforce
      have rs: "rs = r # rs'" and g: "g = g'"
        using "1.prems"(1) fn rec by (subst (asm) frame_all.simps, simp)+
      note IH = "1.IH" [OF fn [symmetric] refl rec hle]
      define n where "n = fr_pos h - ?p"
      have dropn: "drop n (drop ?p ?s) = drop (fr_pos h) ?s" using h by (simp add: n_def)
      have sl: "slice ?p (fr_pos h) ?s = take n (drop ?p ?s)" by (simp add: slice_def n_def)
      have evs: "split_events (drop ?p ?s) = take n (drop ?p ?s) # split_events (drop (fr_pos h) ?s)"
      proof (cases "boundary ?s (fr_pos h)")
        case True
        have "boundary (drop ?p ?s) n" using True h by (simp add: boundary_drop n_def)
        moreover have "\<forall>j<n. \<not> boundary (drop ?p ?s) j"
        proof (intro allI impI)
          fix j assume "j < n"
          then show "\<not> boundary (drop ?p ?s) j"
            using upto h boundary_drop [of j ?p ?s] by (cases "j = 0") (auto simp: n_def boundary_def)
        qed
        ultimately show ?thesis using split_events_first dropn by metis
      next
        case F: False
        with at have e: "fr_pos h = length ?s" by simp
        have "\<not> boundary (drop ?p ?s) j" for j
        proof (cases "j = 0 \<or> length ?s \<le> ?p + j")
          case True
          then show ?thesis by (auto simp: boundary_def)
        next
          case False
          then show ?thesis using upto e boundary_drop [of j ?p ?s] by auto
        qed
        then have "split_events (drop ?p ?s) = [drop ?p ?s]"
          using p by (intro split_events_no_boundary) auto
        with e show ?thesis by (simp add: n_def)
      qed
      have rest: "\<not> fr_eof f \<Longrightarrow> drop (fr_pos h) ?s \<noteq> []" using at by (auto simp: boundary_def)
      show ?thesis
      proof (cases "fr_eof f")
        case True
        with IH rs g h sl evs show ?thesis by (auto simp: remainder_def Let_def)
      next
        case False
        with IH rs g h sl evs rest p show ?thesis by (auto simp: remainder_def Let_def)
      qed
    qed
  qed
qed

lemma frame_spec:
  "frame eof buf =
     (if eof then (split_events buf, [])
      else (butlast (split_events buf), if buf = [] then [] else last (split_events buf)))"
proof -
  obtain rs g where fa: "frame_all (framer_new buf eof) = (rs, g)" by fastforce
  from frame_all_spec [OF fa] fa show ?thesis
    by (auto simp: frame_def framer_new_def remainder_def Let_def)
qed

subsection \<open>What a reader of a stream relies on\<close>

text \<open>
  A stream arrives in chunks. A reader frames the bytes it carries plus the new chunk, hands
  the complete events on and carries the remainder: the loop of \<open>syslog.rs\<close>, of the directory
  poll and of the store's own round trip test.
\<close>

fun feed :: "(bool \<Rightarrow> bytes \<Rightarrow> bytes list \<times> bytes) \<Rightarrow> bytes \<Rightarrow> bytes list \<Rightarrow> bytes list \<times> bytes" where
  "feed fr carry [] = ([], carry)"
| "feed fr carry (c # cs) =
     (let (evs, rest) = fr False (carry @ c); (evs', rest') = feed fr rest cs
      in (evs @ evs', rest'))"

locale event_splitter =
  fixes fr :: "bool \<Rightarrow> bytes \<Rightarrow> bytes list \<times> bytes"
  assumes lossless: "fr eof buf = (evs, rest) \<Longrightarrow> concat evs @ rest = buf"
    and drained: "snd (fr True buf) = []"
    and resume: "fr False a = (evs, rest) \<Longrightarrow>
      fr eof (a @ b) = (evs @ fst (fr eof (rest @ b)), snd (fr eof (rest @ b)))"
    and no_empty_event: "[] \<notin> set (fst (fr eof buf))"
begin

lemma feed_lossless: "feed fr carry cs = (evs, rest) \<Longrightarrow> concat evs @ rest = carry @ concat cs"
proof (induction cs arbitrary: carry evs rest)
  case Nil
  then show ?case by simp
next
  case (Cons c cs)
  obtain e1 r1 where f: "fr False (carry @ c) = (e1, r1)" by fastforce
  obtain e2 r2 where g: "feed fr r1 cs = (e2, r2)" by fastforce
  from Cons.prems f g have "evs = e1 @ e2" "rest = r2" by auto
  with lossless [OF f] Cons.IH [of r1 e2] g show ?case by simp
qed

text \<open>However the stream is cut, feeding it and framing what is carried at the end is framing it whole.\<close>

lemma feed_whole:
  "feed fr carry cs = (evs, rest) \<Longrightarrow>
     fr eof (carry @ concat cs) = (evs @ fst (fr eof rest), snd (fr eof rest))"
proof (induction cs arbitrary: carry evs rest)
  case Nil
  then show ?case by simp
next
  case (Cons c cs)
  obtain e1 r1 where f: "fr False (carry @ c) = (e1, r1)" by fastforce
  obtain e2 r2 where g: "feed fr r1 cs = (e2, r2)" by fastforce
  from Cons.prems f g have e: "evs = e1 @ e2" "rest = r2" by auto
  from Cons.IH [OF g] e have
    "fr eof (r1 @ concat cs) = (e2 @ fst (fr eof rest), snd (fr eof rest))" by simp
  with resume [OF f, of eof "concat cs"] e show ?case by simp
qed

lemma feed_rechunk:
  assumes "concat cs = concat ds"
    and "feed fr carry cs = (evs, rest)" "feed fr carry ds = (evs', rest')"
  shows "evs @ fst (fr True rest) = evs' @ fst (fr True rest')"
  using feed_whole [OF assms(2), of True] feed_whole [OF assms(3), of True] assms(1) by simp

end

lemma frame_resume:
  assumes "frame False a = (evs, rest)"
  shows "frame eof (a @ b) = (evs @ fst (frame eof (rest @ b)), snd (frame eof (rest @ b)))"
proof (cases "a = []")
  case True
  with assms show ?thesis by (simp add: frame_spec)
next
  case False
  with assms have er: "evs = butlast (split_events a)" "rest = last (split_events a)"
    by (auto simp: frame_spec)
  have sp: "split_events (a @ b) = evs @ split_events (rest @ b)"
    using split_events_append [OF False] er by simp
  have "rest \<in> set (split_events a)" unfolding er(2) using False by (intro last_in_set) simp
  then have "rest \<noteq> []" using split_events_nonempty by metis
  with False sp show ?thesis by (auto simp: frame_spec butlast_append)
qed

lemma frame_lossless: "frame eof buf = (evs, rest) \<Longrightarrow> concat evs @ rest = buf"
proof -
  assume f: "frame eof buf = (evs, rest)"
  show ?thesis
  proof (cases "eof \<or> buf = []")
    case True
    with f show ?thesis by (auto simp: frame_spec concat_split_events split: if_splits)
  next
    case False
    with f have "evs @ [rest] = split_events buf" by (auto simp: frame_spec)
    then have "concat (evs @ [rest]) = buf" by (simp add: concat_split_events)
    then show ?thesis by simp
  qed
qed

interpretation fr: event_splitter frame
proof
  show "concat evs @ rest = buf" if "frame eof buf = (evs, rest)" for eof buf evs rest
    using that by (rule frame_lossless)
  show "snd (frame True buf) = []" for buf by (simp add: frame_spec)
  show "frame eof (a @ b) = (evs @ fst (frame eof (rest @ b)), snd (frame eof (rest @ b)))"
    if "frame False a = (evs, rest)" for a evs rest eof b
    using that by (rule frame_resume)
  show "[] \<notin> set (fst (frame eof buf))" for eof buf
    using split_events_nonempty [of buf] by (auto simp: frame_spec dest: in_set_butlastD)
qed

text \<open>
  C7. Framing is lossless and exact: over the whole of a buffer the framer yields the events of
  \<open>split_events\<close> (cut after each line feed that no continuation follows) and leaves nothing;
  before the end of the input it withholds exactly the last of them, as its remainder.
\<close>

theorem framer_exact:
  "frame True buf = (split_events buf, []) \<and>
   frame False (b # bs) = (butlast (split_events (b # bs)), last (split_events (b # bs))) \<and>
   concat (fst (frame eof buf)) @ snd (frame eof buf) = buf"
  using frame_lossless [of eof buf] by (cases "frame eof buf") (simp add: frame_spec)

text \<open>
  C38. Framing does not depend on how the bytes arrive: feeding any two cuttings of the same
  stream through the framer, carrying the remainder and draining it at the end, gives the same
  events, those of the stream framed at once.
\<close>

theorem framing_chunk_independent:
  assumes "concat cs = concat ds"
    and "feed frame [] cs = (evs, rest)" and "feed frame [] ds = (evs', rest')"
  shows "evs @ fst (frame True rest) = evs' @ fst (frame True rest') \<and>
         evs @ fst (frame True rest) = split_events (concat cs)"
proof
  show "evs @ fst (frame True rest) = evs' @ fst (frame True rest')"
    using assms by (rule fr.feed_rechunk)
  show "evs @ fst (frame True rest) = split_events (concat cs)"
    using fr.feed_whole [OF assms(2), of True] by (simp add: frame_spec)
qed

theorem framing_chunk_independent_witness:
  "feed frame [] [''a'', ''b'' @ [LF, SP], ''c'' @ [LF], ''d''] = ([''ab'' @ [LF, SP] @ ''c'' @ [LF]], ''d'') \<and>
   [''ab'' @ [LF, SP] @ ''c'' @ [LF]] @ fst (frame True ''d'')
     = split_events (''ab'' @ [LF, SP] @ ''c'' @ [LF] @ ''d'')"
proof
  show a: "feed frame [] [''a'', ''b'' @ [LF, SP], ''c'' @ [LF], ''d''] = ([''ab'' @ [LF, SP] @ ''c'' @ [LF]], ''d'')"
    by code_simp
  show "[''ab'' @ [LF, SP] @ ''c'' @ [LF]] @ fst (frame True ''d'')
     = split_events (''ab'' @ [LF, SP] @ ''c'' @ [LF] @ ''d'')"
    using framing_chunk_independent [OF _ a a] by simp
qed

end
