(* ===== verification/Ulpf_File.thy ===== *)
theory Ulpf_File
  imports Ulpf_Prelude
begin

text \<open>
  The part of \<open>std::fs\<close> and \<open>std::io::BufWriter\<close> the store writes through
  (\<open>src/crates/ulpf-store/src/store.rs\<close>): a file is its content and a cursor, a buffered
  writer adds the bytes not yet handed to the file. A positional read past the end is the
  error \<open>UnexpectedEof\<close>; failures of the device itself are outside the model. The relation
  \<open>bw_repr\<close> says which logical stream a writer holds: the file has a prefix of it followed by
  zeros a recovery left, the buffer has the rest.
\<close>

datatype io_error =
    UnexpectedEof
  | EventTooLong
  | BadSegMagic
  | PreChain
  | DamagedRecord nat
  | PastSegment nat
  | Unreadable nat
  | NoCatalogueRow nat

record fstate =
  f_data :: bytes
  f_pos :: nat

definition file_seek :: "nat \<Rightarrow> fstate \<Rightarrow> fstate" where
  "file_seek p f = f\<lparr>f_pos := p\<rparr>"

definition file_write :: "bytes \<Rightarrow> fstate \<Rightarrow> fstate" where
  "file_write bs f = \<lparr>f_data = write_at (f_data f) (f_pos f) bs, f_pos = f_pos f + length bs\<rparr>"

definition read_exact_at :: "bytes \<Rightarrow> nat \<Rightarrow> nat \<Rightarrow> io_error + bytes" where
  "read_exact_at data off n =
     (if n = 0 \<or> off + n \<le> length data then Inr (slice off (off + n) data) else Inl UnexpectedEof)"

record bufw =
  bw_file :: fstate
  bw_buf :: bytes
  bw_cap :: nat

definition bw_with_capacity :: "nat \<Rightarrow> fstate \<Rightarrow> bufw" where
  "bw_with_capacity cap f = \<lparr>bw_file = f, bw_buf = [], bw_cap = cap\<rparr>"

definition bw_flush :: "bufw \<Rightarrow> bufw" where
  "bw_flush w = w\<lparr>bw_file := file_write (bw_buf w) (bw_file w), bw_buf := []\<rparr>"

text \<open>
  \<open>BufWriter::write_all\<close>: bytes that fit strictly are buffered; otherwise the buffer is flushed
  when they do not fit, and a write as large as the buffer goes straight to the file.
\<close>

definition bw_write :: "bytes \<Rightarrow> bufw \<Rightarrow> bufw" where
  "bw_write bs w =
     (let spare = bw_cap w - length (bw_buf w) in
      if length bs < spare then w\<lparr>bw_buf := bw_buf w @ bs\<rparr>
      else let w' = (if spare < length bs then bw_flush w else w) in
           if bw_cap w' \<le> length bs then w'\<lparr>bw_file := file_write bs (bw_file w')\<rparr>
           else w'\<lparr>bw_buf := bw_buf w' @ bs\<rparr>)"

definition bw_repr :: "bufw \<Rightarrow> bytes \<Rightarrow> bool" where
  "bw_repr w s \<longleftrightarrow>
     0 < bw_cap w \<and> length (bw_buf w) \<le> bw_cap w \<and> f_pos (bw_file w) \<le> length s \<and>
     bw_buf w = drop (f_pos (bw_file w)) s \<and>
     (\<exists>k. f_data (bw_file w) = take (f_pos (bw_file w)) s @ zeros k)"

lemma write_at_zeros: "write_at (s @ zeros k) (length s) bs = s @ bs @ zeros (k - length bs)"
  by (simp add: write_at_append)

lemma file_write_repr:
  assumes "f_data f = s @ zeros k" "f_pos f = length s"
  shows "f_data (file_write bs f) = s @ bs @ zeros (k - length bs)"
    and "f_pos (file_write bs f) = length (s @ bs)"
  using assms by (simp_all add: file_write_def write_at_zeros)

lemma bw_reprE:
  assumes "bw_repr w s"
  obtains p k where "s = p @ bw_buf w" "f_pos (bw_file w) = length p"
    "f_data (bw_file w) = p @ zeros k" "0 < bw_cap w" "length (bw_buf w) \<le> bw_cap w"
proof -
  let ?p = "take (f_pos (bw_file w)) s"
  from assms obtain k where k: "f_data (bw_file w) = ?p @ zeros k" by (auto simp: bw_repr_def)
  from assms have "s = ?p @ bw_buf w" "f_pos (bw_file w) = length ?p"
    "0 < bw_cap w" "length (bw_buf w) \<le> bw_cap w"
    by (auto simp: bw_repr_def)
  with k that show ?thesis by blast
qed

lemma bw_reprI:
  assumes "f_pos (bw_file w) = length p" "f_data (bw_file w) = p @ zeros k"
    "0 < bw_cap w" "length (bw_buf w) \<le> bw_cap w" "s = p @ bw_buf w"
  shows "bw_repr w s"
  using assms by (auto simp: bw_repr_def)

lemma bw_flush_cap [simp]: "bw_cap (bw_flush w) = bw_cap w"
  by (simp add: bw_flush_def)

lemma bw_flush_buf [simp]: "bw_buf (bw_flush w) = []"
  by (simp add: bw_flush_def)

lemma bw_flush_repr:
  assumes "bw_repr w s"
  shows "bw_repr (bw_flush w) s"
    and "f_pos (bw_file (bw_flush w)) = length s"
    and "\<exists>k. f_data (bw_file (bw_flush w)) = s @ zeros k"
proof -
  from assms obtain p k where pk: "s = p @ bw_buf w" "f_pos (bw_file w) = length p"
    "f_data (bw_file w) = p @ zeros k" "0 < bw_cap w" by (rule bw_reprE)
  have d: "f_data (bw_file (bw_flush w)) = s @ zeros (k - length (bw_buf w))"
    and l: "f_pos (bw_file (bw_flush w)) = length s"
    using file_write_repr [OF pk(3,2), of "bw_buf w"] pk(1) by (simp_all add: bw_flush_def)
  from d show "\<exists>k. f_data (bw_file (bw_flush w)) = s @ zeros k" by blast
  show "f_pos (bw_file (bw_flush w)) = length s" by (rule l)
  show "bw_repr (bw_flush w) s" using d l pk(4) by (intro bw_reprI [of _ s]) simp_all
qed

lemma bw_write_repr:
  assumes "bw_repr w s"
  shows "bw_repr (bw_write bs w) (s @ bs)"
proof -
  let ?spare = "bw_cap w - length (bw_buf w)"
  let ?w = "if ?spare < length bs then bw_flush w else w"
  have w': "bw_repr ?w s" using assms bw_flush_repr by simp
  from w' obtain p k where pk: "s = p @ bw_buf ?w" "f_pos (bw_file ?w) = length p"
    "f_data (bw_file ?w) = p @ zeros k" "0 < bw_cap ?w" "length (bw_buf ?w) \<le> bw_cap ?w" by (rule bw_reprE)
  consider (fits) "length bs < ?spare"
    | (direct) "\<not> length bs < ?spare" "bw_cap ?w \<le> length bs"
    | (buffer) "\<not> length bs < ?spare" "\<not> bw_cap ?w \<le> length bs" by blast
  then show ?thesis
  proof cases
    case fits
    then have "?w = w" by simp
    with fits pk show ?thesis
      by (intro bw_reprI [of _ p k]) (auto simp: bw_write_def Let_def)
  next
    case direct
    have "length (bw_buf ?w) = 0"
    proof (cases "?spare < length bs")
      case True
      then show ?thesis by simp
    next
      case False
      with direct(2) pk(4,5) have "bw_cap w \<le> bw_cap w - length (bw_buf w)" "0 < bw_cap w" by auto
      then have "length (bw_buf w) = 0" by arith
      with False show ?thesis by simp
    qed
    then have "bw_buf ?w = []" by simp
    with direct pk show ?thesis
      using file_write_repr [OF pk(3,2), of bs]
      by (intro bw_reprI [of _ "p @ bs" "k - length bs"])
         (auto simp: bw_write_def Let_def file_write_def write_at_zeros)
  next
    case buffer
    have "length (bw_buf ?w @ bs) \<le> bw_cap ?w" using buffer pk by (auto split: if_splits)
    with buffer pk show ?thesis
      by (intro bw_reprI [of _ p k]) (auto simp: bw_write_def Let_def)
  qed
qed

lemma read_exact_at_append:
  "length xs = off \<Longrightarrow> length ys = n \<Longrightarrow> read_exact_at (xs @ ys @ zs) off n = Inr ys"
  by (auto simp: read_exact_at_def slice_def)

lemma read_exact_at_Inr:
  "read_exact_at data off n = Inr bs \<Longrightarrow> length bs = n \<and> bs = slice off (off + n) data"
  by (auto simp: read_exact_at_def slice_def split: if_splits)

end
