(* ===== verification/Ulpf_Store.thy ===== *)
theory Ulpf_Store
  imports Ulpf_File
begin

text \<open>
  The raw event store's writer: \<open>src/crates/ulpf-store/src/store.rs\<close>, the file format,
  \<open>RawStore::append\<close>, \<open>get\<close>, \<open>chain\<close>, \<open>head\<close> and \<open>flush\<close>. SHA-256 is the parameter \<open>H\<close> of
  every definition that hashes; the code relies on nothing but its 32-byte output. The
  catalogue (SQLite) is not part of the state here. The specification is a list of events:
  \<open>seg_stream\<close> and \<open>idx_stream\<close> are the exact contents the two files hold for it, and
  \<open>store_repr\<close> relates a store to the list.
\<close>

definition seg_magic :: bytes where
  "seg_magic = ''ULPFSEG'' @ [char_of (1::nat)]"

definition idx_magic :: bytes where
  "idx_magic = ''ULPFIDX'' @ [char_of (2::nat)]"

definition rec_magic :: nat where "rec_magic = 0x46504C55"
definition header_len :: nat where "header_len = 4 + 8 + 8 + 4 + 4 + 32"
definition idx_header_len :: nat where "idx_header_len = 8 + 16"
definition idx_entry_len :: nat where "idx_entry_len = 8 + 32"
definition checkpoint_every :: nat where "checkpoint_every = 4096"

lemmas store_consts = header_len_def idx_header_len_def idx_entry_len_def

lemma seg_magic_length [simp]: "length seg_magic = 8"
  by (simp add: seg_magic_def)

lemma idx_magic_length [simp]: "length idx_magic = 8"
  by (simp add: idx_magic_def)

definition genesis_of :: "(bytes \<Rightarrow> bytes) \<Rightarrow> bytes \<Rightarrow> bytes" where
  "genesis_of H sid = H (''ULPF chain genesis'' @ sid)"

definition chain_step :: "(bytes \<Rightarrow> bytes) \<Rightarrow> bytes \<Rightarrow> bytes \<Rightarrow> bytes" where
  "chain_step H prev digest = H (prev @ digest)"

record owned_record =
  or_id :: nat
  or_receipt :: int
  or_source :: nat
  or_sha256 :: bytes
  or_bytes :: bytes

record raw_store =
  rs_seg :: bufw
  rs_idx :: bufw
  rs_next_id :: nat
  rs_seg_len :: nat
  rs_store_id :: bytes
  rs_genesis :: bytes
  rs_head :: bytes

text \<open>The 60 bytes \<open>append\<close> writes before an event.\<close>

definition rec_header :: "nat \<Rightarrow> int \<Rightarrow> nat \<Rightarrow> nat \<Rightarrow> bytes \<Rightarrow> bytes" where
  "rec_header rid receipt source len digest =
     le_bytes 4 rec_magic @ le_bytes 8 rid @ le_bytes 8 (i64_bits receipt) @
     le_bytes 4 source @ le_bytes 4 len @ digest"

definition idx_entry :: "nat \<Rightarrow> bytes \<Rightarrow> bytes" where
  "idx_entry off chain = le_bytes 8 off @ chain"

definition append_record ::
  "(bytes \<Rightarrow> bytes) \<Rightarrow> nat \<Rightarrow> int \<Rightarrow> bytes \<Rightarrow> raw_store \<Rightarrow> io_error + (nat \<times> raw_store)" where
  "append_record H source receipt bs st =
     (if 2 ^ 32 \<le> length bs then Inl EventTooLong
      else let digest = H bs;
               rid = rs_next_id st;
               hdr = rec_header rid receipt source (length bs) digest;
               chain = chain_step H (rs_head st) digest;
               entry = idx_entry (rs_seg_len st) chain
           in Inr (rid, st\<lparr>rs_seg := bw_write bs (bw_write hdr (rs_seg st)),
                          rs_idx := bw_write entry (rs_idx st),
                          rs_seg_len := rs_seg_len st + (header_len + length bs),
                          rs_next_id := rs_next_id st + 1,
                          rs_head := chain\<rparr>))"

definition store_flush :: "raw_store \<Rightarrow> raw_store" where
  "store_flush st = st\<lparr>rs_seg := bw_flush (rs_seg st), rs_idx := bw_flush (rs_idx st)\<rparr>"

definition seg_data :: "raw_store \<Rightarrow> bytes" where
  "seg_data st = f_data (bw_file (rs_seg st))"

definition idx_data :: "raw_store \<Rightarrow> bytes" where
  "idx_data st = f_data (bw_file (rs_idx st))"

text \<open>The fields of a record header, as every reader of the segment decodes them.\<close>

definition hdr_magic :: "bytes \<Rightarrow> nat" where "hdr_magic hdr = le_val (slice 0 4 hdr)"
definition hdr_id :: "bytes \<Rightarrow> nat" where "hdr_id hdr = le_val (slice 4 12 hdr)"
definition hdr_receipt :: "bytes \<Rightarrow> int" where "hdr_receipt hdr = i64_of_bits (le_val (slice 12 20 hdr))"
definition hdr_source :: "bytes \<Rightarrow> nat" where "hdr_source hdr = le_val (slice 20 24 hdr)"
definition hdr_len :: "bytes \<Rightarrow> nat" where "hdr_len hdr = le_val (slice 24 28 hdr)"
definition hdr_digest :: "bytes \<Rightarrow> bytes" where "hdr_digest hdr = slice 28 60 hdr"

definition get_record :: "nat \<Rightarrow> raw_store \<Rightarrow> (io_error + owned_record option) \<times> raw_store" where
  "get_record rid st =
     (if rs_next_id st \<le> rid then (Inr None, st)
      else let st' = store_flush st in
        (case read_exact_at (idx_data st') (idx_header_len + rid * idx_entry_len) 8 of
           Inl e \<Rightarrow> Inl e
         | Inr offb \<Rightarrow>
             (let off = le_val offb in
              case read_exact_at (seg_data st') off header_len of
                Inl e \<Rightarrow> Inl e
              | Inr hdr \<Rightarrow>
                  if hdr_magic hdr \<noteq> rec_magic \<or> hdr_id hdr \<noteq> rid then Inl (DamagedRecord rid)
                  else if rs_seg_len st' < off + header_len + hdr_len hdr then Inl (PastSegment rid)
                  else (case read_exact_at (seg_data st') (off + header_len) (hdr_len hdr) of
                          Inl e \<Rightarrow> Inl e
                        | Inr bs \<Rightarrow>
                            Inr (Some \<lparr>or_id = rid, or_receipt = hdr_receipt hdr,
                                       or_source = hdr_source hdr, or_sha256 = hdr_digest hdr,
                                       or_bytes = bs\<rparr>))), st'))"

definition store_chain :: "nat \<Rightarrow> raw_store \<Rightarrow> (io_error + bytes option) \<times> raw_store" where
  "store_chain rid st =
     (if rs_next_id st \<le> rid then (Inr None, st)
      else let st' = store_flush st in
        (case read_exact_at (idx_data st') (idx_header_len + rid * idx_entry_len + 8) 32 of
           Inl e \<Rightarrow> Inl e
         | Inr c \<Rightarrow> Inr (Some c), st'))"

definition store_head :: "raw_store \<Rightarrow> bytes option" where
  "store_head st = (if 0 < rs_next_id st then Some (rs_head st) else None)"

definition store_len :: "raw_store \<Rightarrow> nat" where
  "store_len st = rs_next_id st"

subsection \<open>Decoding a header\<close>

lemma rec_header_length:
  "length digest = 32 \<Longrightarrow> length (rec_header rid receipt source len digest) = header_len"
  by (simp add: rec_header_def header_len_def)

lemma slice_field:
  "length xs = a \<Longrightarrow> length ys = b - a \<Longrightarrow> a \<le> b \<Longrightarrow> slice a b (xs @ ys @ zs) = ys"
  by (simp add: slice_def)

lemma rec_header_fields:
  assumes "length digest = 32" "rid < 2 ^ 64" "source < 2 ^ 32" "len < 2 ^ 32" "i64_ok receipt"
  shows "hdr_magic (rec_header rid receipt source len digest) = rec_magic"
    and "hdr_id (rec_header rid receipt source len digest) = rid"
    and "hdr_receipt (rec_header rid receipt source len digest) = receipt"
    and "hdr_source (rec_header rid receipt source len digest) = source"
    and "hdr_len (rec_header rid receipt source len digest) = len"
    and "hdr_digest (rec_header rid receipt source len digest) = digest"
proof -
  let ?m = "le_bytes 4 rec_magic" and ?i = "le_bytes 8 rid" and ?r = "le_bytes 8 (i64_bits receipt)"
    and ?s = "le_bytes 4 source" and ?l = "le_bytes 4 len"
  have h: "rec_header rid receipt source len digest = ?m @ ?i @ ?r @ ?s @ ?l @ digest"
    by (simp add: rec_header_def)
  have f0: "slice 0 4 (?m @ ?i @ ?r @ ?s @ ?l @ digest) = ?m"
    using slice_field [of "[]" 0 ?m 4] by simp
  have f1: "slice 4 12 (?m @ ?i @ ?r @ ?s @ ?l @ digest) = ?i"
    using slice_field [of ?m 4 ?i 12] by simp
  have f2: "slice 12 20 (?m @ ?i @ ?r @ ?s @ ?l @ digest) = ?r"
    using slice_field [of "?m @ ?i" 12 ?r 20] by simp
  have f3: "slice 20 24 (?m @ ?i @ ?r @ ?s @ ?l @ digest) = ?s"
    using slice_field [of "?m @ ?i @ ?r" 20 ?s 24] by simp
  have f4: "slice 24 28 (?m @ ?i @ ?r @ ?s @ ?l @ digest) = ?l"
    using slice_field [of "?m @ ?i @ ?r @ ?s" 24 ?l 28] by simp
  have f5: "slice 28 60 (?m @ ?i @ ?r @ ?s @ ?l @ digest) = digest"
    using slice_field [of "?m @ ?i @ ?r @ ?s @ ?l" 28 digest 60 "[]"] assms(1) by simp
  have v4: "le_val (le_bytes 4 n) = n" if "n < 2 ^ 32" for n using that by (simp add: le_val_le_bytes)
  have v8: "le_val (le_bytes 8 n) = n" if "n < 2 ^ 64" for n using that by (simp add: le_val_le_bytes)
  show "hdr_magic (rec_header rid receipt source len digest) = rec_magic"
    unfolding h hdr_magic_def f0 by (rule v4) (simp add: rec_magic_def)
  show "hdr_id (rec_header rid receipt source len digest) = rid"
    unfolding h hdr_id_def f1 by (rule v8) (rule assms)
  show "hdr_receipt (rec_header rid receipt source len digest) = receipt"
    unfolding h hdr_receipt_def f2 v8 [OF i64_bits_less] by (rule i64_of_bits_bits) (rule assms)
  show "hdr_source (rec_header rid receipt source len digest) = source"
    unfolding h hdr_source_def f3 by (rule v4) (rule assms)
  show "hdr_len (rec_header rid receipt source len digest) = len"
    unfolding h hdr_len_def f4 by (rule v4) (rule assms)
  show "hdr_digest (rec_header rid receipt source len digest) = digest"
    unfolding h hdr_digest_def f5 ..
qed

subsection \<open>The specification: a list of events and the two streams it makes\<close>

record event =
  ev_source :: nat
  ev_receipt :: int
  ev_bytes :: bytes

definition event_ok :: "event \<Rightarrow> bool" where
  "event_ok e \<longleftrightarrow> ev_source e < 2 ^ 32 \<and> i64_ok (ev_receipt e) \<and> length (ev_bytes e) < 2 ^ 32"

definition hash_ok :: "(bytes \<Rightarrow> bytes) \<Rightarrow> bool" where
  "hash_ok H \<longleftrightarrow> (\<forall>x. length (H x) = 32)"

definition rec_bytes :: "(bytes \<Rightarrow> bytes) \<Rightarrow> nat \<Rightarrow> event \<Rightarrow> bytes" where
  "rec_bytes H i e =
     rec_header i (ev_receipt e) (ev_source e) (length (ev_bytes e)) (H (ev_bytes e)) @ ev_bytes e"

fun seg_recs :: "(bytes \<Rightarrow> bytes) \<Rightarrow> nat \<Rightarrow> event list \<Rightarrow> bytes" where
  "seg_recs H i [] = []"
| "seg_recs H i (e # es) = rec_bytes H i e @ seg_recs H (Suc i) es"

fun chain_of :: "(bytes \<Rightarrow> bytes) \<Rightarrow> bytes \<Rightarrow> event list \<Rightarrow> bytes" where
  "chain_of H h [] = h"
| "chain_of H h (e # es) = chain_of H (chain_step H h (H (ev_bytes e))) es"

fun idx_recs :: "(bytes \<Rightarrow> bytes) \<Rightarrow> nat \<Rightarrow> bytes \<Rightarrow> event list \<Rightarrow> bytes" where
  "idx_recs H off h [] = []"
| "idx_recs H off h (e # es) =
     (let c = chain_step H h (H (ev_bytes e))
      in idx_entry off c @ idx_recs H (off + header_len + length (ev_bytes e)) c es)"

definition seg_stream :: "(bytes \<Rightarrow> bytes) \<Rightarrow> event list \<Rightarrow> bytes" where
  "seg_stream H es = seg_magic @ seg_recs H 0 es"

definition idx_stream :: "(bytes \<Rightarrow> bytes) \<Rightarrow> bytes \<Rightarrow> event list \<Rightarrow> bytes" where
  "idx_stream H sid es = idx_magic @ sid @ idx_recs H 8 (genesis_of H sid) es"

text \<open>Where record \<open>i\<close> starts.\<close>

definition rec_off :: "event list \<Rightarrow> nat \<Rightarrow> nat" where
  "rec_off es i = 8 + sum_list (map (\<lambda>e. header_len + length (ev_bytes e)) (take i es))"

lemma hash_length [simp]: "hash_ok H \<Longrightarrow> length (H x) = 32"
  by (simp add: hash_ok_def)

lemma chain_step_length [simp]: "hash_ok H \<Longrightarrow> length (chain_step H a b) = 32"
  by (simp add: chain_step_def)

lemma genesis_length [simp]: "hash_ok H \<Longrightarrow> length (genesis_of H sid) = 32"
  by (simp add: genesis_of_def)

lemma rec_bytes_length [simp]: "hash_ok H \<Longrightarrow> length (rec_bytes H i e) = header_len + length (ev_bytes e)"
  by (simp add: rec_bytes_def rec_header_length)

lemma seg_recs_append: "seg_recs H i (es @ fs) = seg_recs H i es @ seg_recs H (i + length es) fs"
  by (induction es arbitrary: i) simp_all

lemma chain_of_append: "chain_of H h (es @ fs) = chain_of H (chain_of H h es) fs"
  by (induction es arbitrary: h) simp_all

lemma seg_recs_length:
  "hash_ok H \<Longrightarrow> length (seg_recs H i es) = sum_list (map (\<lambda>e. header_len + length (ev_bytes e)) es)"
  by (induction es arbitrary: i) simp_all

lemma idx_recs_append:
  assumes "hash_ok H"
  shows "idx_recs H off h (es @ fs) =
    idx_recs H off h es @ idx_recs H (off + length (seg_recs H 0 es)) (chain_of H h es) fs"
proof (induction es arbitrary: off h)
  case Nil
  show ?case by simp
next
  case (Cons e es)
  with assms show ?case by (simp add: Let_def seg_recs_length algebra_simps)
qed

lemma idx_recs_length: "hash_ok H \<Longrightarrow> length (idx_recs H off h es) = length es * idx_entry_len"
  by (induction es arbitrary: off h) (simp_all add: Let_def idx_entry_def idx_entry_len_def)

lemma chain_of_length [simp]: "hash_ok H \<Longrightarrow> length h = 32 \<Longrightarrow> length (chain_of H h es) = 32"
  by (induction es arbitrary: h) simp_all

lemma rec_off_length:
  "hash_ok H \<Longrightarrow> rec_off es i = length (seg_stream H (take i es))"
  by (simp add: rec_off_def seg_stream_def seg_recs_length)

lemma idx_stream_length:
  "hash_ok H \<Longrightarrow> length sid = 16 \<Longrightarrow>
     length (idx_stream H sid es) = idx_header_len + length es * idx_entry_len"
  by (simp add: idx_stream_def idx_recs_length idx_header_len_def)

text \<open>The two streams around record \<open>i\<close>.\<close>

lemma seg_stream_nth:
  assumes "i < length es"
  shows "seg_stream H es = seg_stream H (take i es) @ rec_bytes H i (es ! i) @ seg_recs H (Suc i) (drop (Suc i) es)"
proof -
  have "es = take i es @ es ! i # drop (Suc i) es" using assms by (rule id_take_nth_drop)
  then have "seg_recs H 0 es = seg_recs H 0 (take i es @ es ! i # drop (Suc i) es)" by simp
  with assms show ?thesis by (simp add: seg_stream_def seg_recs_append)
qed

lemma idx_stream_nth:
  assumes "hash_ok H" "i < length es"
  shows "idx_stream H sid es =
    idx_stream H sid (take i es) @
    idx_entry (rec_off es i) (chain_of H (genesis_of H sid) (take (Suc i) es)) @
    idx_recs H (rec_off es (Suc i)) (chain_of H (genesis_of H sid) (take (Suc i) es)) (drop (Suc i) es)"
proof -
  have es: "es = take i es @ es ! i # drop (Suc i) es" using assms(2) by (rule id_take_nth_drop)
  have c: "chain_of H g (take (Suc i) es) =
    chain_step H (chain_of H g (take i es)) (H (ev_bytes (es ! i)))" for g
    using assms(2) by (simp add: take_Suc_conv_app_nth chain_of_append)
  have o: "rec_off es (Suc i) = rec_off es i + header_len + length (ev_bytes (es ! i))"
    using assms(2) by (simp add: rec_off_def take_Suc_conv_app_nth)
  have "idx_recs H 8 g es = idx_recs H 8 g (take i es @ es ! i # drop (Suc i) es)" for g
    using es by simp
  then show ?thesis
    using assms by (simp add: idx_stream_def idx_recs_append c o Let_def)
      (simp add: rec_off_def seg_recs_length)
qed

lemma rec_off_less: "i < length es \<Longrightarrow> rec_off es i + header_len + length (ev_bytes (es ! i)) = rec_off es (Suc i)"
  by (simp add: rec_off_def take_Suc_conv_app_nth)

lemma rec_off_mono: "i \<le> j \<Longrightarrow> rec_off es i \<le> rec_off es j"
proof -
  assume "i \<le> j"
  then have "take j es = take i es @ take (j - i) (drop i es)" by (metis le_add_diff_inverse take_add)
  then show ?thesis by (simp add: rec_off_def)
qed

lemma rec_off_all: "length es \<le> i \<Longrightarrow> rec_off es i = rec_off es (length es)"
  by (simp add: rec_off_def)

lemma rec_off_ge8: "8 \<le> rec_off es i"
  by (simp add: rec_off_def)

definition log_ok :: "event list \<Rightarrow> bool" where
  "log_ok es \<longleftrightarrow> list_all event_ok es \<and> rec_off es (length es) < 2 ^ 64"

lemma log_ok_nth: "log_ok es \<Longrightarrow> i < length es \<Longrightarrow> event_ok (es ! i)"
  by (simp add: log_ok_def list_all_length)

lemma log_ok_take: "log_ok es \<Longrightarrow> log_ok (take i es)"
proof -
  assume ok: "log_ok es"
  have "rec_off (take i es) (length (take i es)) = rec_off es i"
    by (cases "i \<le> length es") (auto simp: rec_off_def)
  moreover have "rec_off es i \<le> rec_off es (length es)"
    using rec_off_mono [of i "length es" es] rec_off_all [of es i] by (cases "i \<le> length es") auto
  ultimately show ?thesis using ok by (auto simp: log_ok_def list_all_iff dest: in_set_takeD)
qed

lemma length_le_rec_off: "i \<le> length es \<Longrightarrow> i + 8 \<le> rec_off es i"
proof (induction i)
  case 0
  show ?case by (simp add: rec_off_def)
next
  case (Suc i)
  then show ?case using rec_off_less [of i es] by (simp add: header_len_def)
qed

subsection \<open>A store represents a log\<close>

definition store_repr :: "(bytes \<Rightarrow> bytes) \<Rightarrow> raw_store \<Rightarrow> event list \<Rightarrow> bool" where
  "store_repr H st es \<longleftrightarrow>
     hash_ok H \<and> length (rs_store_id st) = 16 \<and> log_ok es \<and>
     bw_repr (rs_seg st) (seg_stream H es) \<and>
     bw_repr (rs_idx st) (idx_stream H (rs_store_id st) es) \<and>
     rs_next_id st = length es \<and> rs_seg_len st = rec_off es (length es) \<and>
     rs_genesis st = genesis_of H (rs_store_id st) \<and>
     rs_head st = chain_of H (rs_genesis st) es"

lemma append_record_repr:
  assumes r: "store_repr H st es" and ok: "log_ok (es @ [e])"
  shows "\<exists>st'. append_record H (ev_source e) (ev_receipt e) (ev_bytes e) st = Inr (length es, st')
    \<and> store_repr H st' (es @ [e]) \<and> rs_store_id st' = rs_store_id st"
proof -
  let ?g = "genesis_of H (rs_store_id st)"
  have h: "hash_ok H" and e: "event_ok e" using r ok by (auto simp: store_repr_def log_ok_def)
  have len: "\<not> 2 ^ 32 \<le> length (ev_bytes e)" using e by (simp add: event_ok_def)
  have seg: "seg_stream H (es @ [e]) =
      (seg_stream H es @ rec_header (length es) (ev_receipt e) (ev_source e) (length (ev_bytes e)) (H (ev_bytes e)))
      @ ev_bytes e"
    by (simp add: seg_stream_def seg_recs_append rec_bytes_def)
  have idx: "idx_stream H (rs_store_id st) (es @ [e]) = idx_stream H (rs_store_id st) es @
      idx_entry (rec_off es (length es)) (chain_step H (chain_of H ?g es) (H (ev_bytes e)))"
    using h by (simp add: idx_stream_def idx_recs_append Let_def rec_off_def seg_recs_length)
  have off: "rec_off (es @ [e]) (Suc (length es)) = rec_off es (length es) + header_len + length (ev_bytes e)"
    by (simp add: rec_off_def)
  have ws: "bw_repr (bw_write (ev_bytes e)
      (bw_write (rec_header (length es) (ev_receipt e) (ev_source e) (length (ev_bytes e)) (H (ev_bytes e))) (rs_seg st)))
      (seg_stream H (es @ [e]))"
    unfolding seg using r by (intro bw_write_repr) (simp add: store_repr_def)
  have wi: "bw_repr (bw_write (idx_entry (rec_off es (length es)) (chain_step H (chain_of H ?g es) (H (ev_bytes e)))) (rs_idx st))
      (idx_stream H (rs_store_id st) (es @ [e]))"
    unfolding idx using r by (intro bw_write_repr) (simp add: store_repr_def)
  show ?thesis
    using r len ok ws wi unfolding append_record_def
    by (auto simp: Let_def store_repr_def off chain_of_append)
qed

lemma store_flush_repr:
  "store_repr H st es \<Longrightarrow> store_repr H (store_flush st) es"
  by (auto simp: store_repr_def store_flush_def bw_flush_repr)

lemma store_flush_data:
  assumes "store_repr H st es"
  obtains k l where "seg_data (store_flush st) = seg_stream H es @ zeros k"
    and "idx_data (store_flush st) = idx_stream H (rs_store_id st) es @ zeros l"
proof -
  have "bw_repr (rs_seg st) (seg_stream H es)"
    and "bw_repr (rs_idx st) (idx_stream H (rs_store_id st) es)"
    using assms by (simp_all add: store_repr_def)
  from this [THEN bw_flush_repr(3)] obtain k l where
    "f_data (bw_file (bw_flush (rs_seg st))) = seg_stream H es @ zeros k"
    "f_data (bw_file (bw_flush (rs_idx st))) = idx_stream H (rs_store_id st) es @ zeros l" by blast
  then show ?thesis by (intro that) (simp_all add: store_flush_def seg_data_def idx_data_def)
qed

definition record_of :: "(bytes \<Rightarrow> bytes) \<Rightarrow> nat \<Rightarrow> event \<Rightarrow> owned_record" where
  "record_of H i e = \<lparr>or_id = i, or_receipt = ev_receipt e, or_source = ev_source e,
     or_sha256 = H (ev_bytes e), or_bytes = ev_bytes e\<rparr>"

lemma le_val_8: "n < 2 ^ 64 \<Longrightarrow> le_val (le_bytes 8 n) = n"
  by (simp add: le_val_le_bytes)

text \<open>Reading record \<open>i\<close>'s header and body out of a file that starts with the stream.\<close>

lemma seg_read_header:
  assumes "hash_ok H" "i < length es" "data = seg_stream H es @ rest"
  shows "read_exact_at data (rec_off es i) header_len =
      Inr (rec_header i (ev_receipt (es ! i)) (ev_source (es ! i)) (length (ev_bytes (es ! i))) (H (ev_bytes (es ! i))))"
    and "read_exact_at data (rec_off es i + header_len) (length (ev_bytes (es ! i))) = Inr (ev_bytes (es ! i))"
proof -
  let ?h = "rec_header i (ev_receipt (es ! i)) (ev_source (es ! i)) (length (ev_bytes (es ! i))) (H (ev_bytes (es ! i)))"
  let ?t = "seg_recs H (Suc i) (drop (Suc i) es) @ rest"
  have d: "data = seg_stream H (take i es) @ ?h @ ev_bytes (es ! i) @ ?t"
    using assms(2,3) seg_stream_nth [of i es H] by (simp add: rec_bytes_def)
  show "read_exact_at data (rec_off es i) header_len = Inr ?h"
    unfolding d using assms(1)
    by (intro read_exact_at_append) (simp_all add: rec_off_length rec_header_length)
  have "read_exact_at ((seg_stream H (take i es) @ ?h) @ ev_bytes (es ! i) @ ?t)
      (rec_off es i + header_len) (length (ev_bytes (es ! i))) = Inr (ev_bytes (es ! i))"
    using assms(1) by (intro read_exact_at_append) (simp_all add: rec_off_length rec_header_length)
  then show "read_exact_at data (rec_off es i + header_len) (length (ev_bytes (es ! i))) = Inr (ev_bytes (es ! i))"
    using d by simp
qed

lemma idx_read_entry:
  assumes "hash_ok H" "i < length es" "data = idx_stream H sid es @ rest" "length sid = 16"
  shows "read_exact_at data (idx_header_len + i * idx_entry_len) 8 = Inr (le_bytes 8 (rec_off es i))"
    and "read_exact_at data (idx_header_len + i * idx_entry_len + 8) 32 =
      Inr (chain_of H (genesis_of H sid) (take (Suc i) es))"
    and "read_exact_at data (idx_header_len + i * idx_entry_len) idx_entry_len =
      Inr (idx_entry (rec_off es i) (chain_of H (genesis_of H sid) (take (Suc i) es)))"
proof -
  let ?c = "chain_of H (genesis_of H sid) (take (Suc i) es)"
  let ?p = "idx_stream H sid (take i es)"
  let ?t = "idx_recs H (rec_off es (Suc i)) ?c (drop (Suc i) es) @ rest"
  have d: "data = ?p @ le_bytes 8 (rec_off es i) @ ?c @ ?t"
    using assms(3) idx_stream_nth [OF assms(1,2)] by (simp add: idx_entry_def)
  have p: "length ?p = idx_header_len + i * idx_entry_len"
    using assms by (simp add: idx_stream_length)
  show "read_exact_at data (idx_header_len + i * idx_entry_len) 8 = Inr (le_bytes 8 (rec_off es i))"
    unfolding d by (rule read_exact_at_append) (simp_all add: p)
  have "read_exact_at ((?p @ le_bytes 8 (rec_off es i)) @ ?c @ ?t) (idx_header_len + i * idx_entry_len + 8) 32 = Inr ?c"
    using assms(1) by (intro read_exact_at_append) (simp_all add: p)
  then show "read_exact_at data (idx_header_len + i * idx_entry_len + 8) 32 = Inr ?c"
    using d by simp
  have "read_exact_at (?p @ idx_entry (rec_off es i) ?c @ ?t) (idx_header_len + i * idx_entry_len) idx_entry_len
      = Inr (idx_entry (rec_off es i) ?c)"
    using assms(1) by (intro read_exact_at_append) (simp_all add: p idx_entry_def idx_entry_len_def)
  then show "read_exact_at data (idx_header_len + i * idx_entry_len) idx_entry_len = Inr (idx_entry (rec_off es i) ?c)"
    using d by (simp add: idx_entry_def)
qed

lemma log_bounds:
  assumes "log_ok es" "i < length es"
  shows "rec_off es i < 2 ^ 64" "i < 2 ^ 64" "ev_source (es ! i) < 2 ^ 32"
    "length (ev_bytes (es ! i)) < 2 ^ 32" "i64_ok (ev_receipt (es ! i))"
proof -
  have "rec_off es i \<le> rec_off es (length es)" using assms(2) by (intro rec_off_mono) simp
  with assms(1) show o: "rec_off es i < 2 ^ 64" by (simp add: log_ok_def)
  show "i < 2 ^ 64" using length_le_rec_off [of i es] assms(2) o by simp
  show "ev_source (es ! i) < 2 ^ 32" "length (ev_bytes (es ! i)) < 2 ^ 32" "i64_ok (ev_receipt (es ! i))"
    using log_ok_nth [OF assms] by (simp_all add: event_ok_def)
qed

text \<open>The header of record \<open>i\<close> of a log decodes to its fields.\<close>

definition log_header :: "(bytes \<Rightarrow> bytes) \<Rightarrow> event list \<Rightarrow> nat \<Rightarrow> bytes" where
  "log_header H es i = rec_header i (ev_receipt (es ! i)) (ev_source (es ! i))
     (length (ev_bytes (es ! i))) (H (ev_bytes (es ! i)))"

lemma log_header_fields:
  assumes "hash_ok H" "log_ok es" "i < length es"
  shows "hdr_magic (log_header H es i) = rec_magic" "hdr_id (log_header H es i) = i"
    "hdr_receipt (log_header H es i) = ev_receipt (es ! i)"
    "hdr_source (log_header H es i) = ev_source (es ! i)"
    "hdr_len (log_header H es i) = length (ev_bytes (es ! i))"
    "hdr_digest (log_header H es i) = H (ev_bytes (es ! i))"
  using rec_header_fields [OF hash_length [OF assms(1)] log_bounds(2-5) [OF assms(2,3)]]
  by (simp_all add: log_header_def)

lemma get_record_repr:
  assumes r: "store_repr H st es"
  shows "get_record i st =
    (Inr (if i < length es then Some (record_of H i (es ! i)) else None),
     if i < length es then store_flush st else st)"
proof (cases "i < length es")
  case False
  with r show ?thesis by (auto simp: get_record_def store_repr_def)
next
  case True
  from r have h: "hash_ok H" and ok: "log_ok es" and sid: "length (rs_store_id st) = 16"
    and n: "rs_next_id st = length es" and sl: "rs_seg_len st = rec_off es (length es)"
    by (auto simp: store_repr_def)
  obtain k l where seg: "seg_data (store_flush st) = seg_stream H es @ zeros k"
    and idx: "idx_data (store_flush st) = idx_stream H (rs_store_id st) es @ zeros l"
    using store_flush_data [OF r] by blast
  have sl': "rs_seg_len (store_flush st) = rec_off es (length es)" using sl by (simp add: store_flush_def)
  have "rec_off es i + header_len + length (ev_bytes (es ! i)) \<le> rec_off es (length es)"
    using rec_off_less [OF True] rec_off_mono [of "Suc i" "length es" es] True by simp
  with log_header_fields [OF h ok True] seg_read_header [OF h True seg, folded log_header_def]
    idx_read_entry(1) [OF h True idx sid] log_bounds(1) [OF ok True] True n sl'
  show ?thesis by (simp add: get_record_def Let_def le_val_8 record_of_def)
qed

lemma store_chain_repr:
  assumes r: "store_repr H st es"
  shows "fst (store_chain i st) =
    Inr (if i < length es then Some (chain_of H (rs_genesis st) (take (Suc i) es)) else None)"
proof (cases "i < length es")
  case False
  with r show ?thesis by (auto simp: store_chain_def store_repr_def)
next
  case True
  from r have h: "hash_ok H" and sid: "length (rs_store_id st) = 16"
    and n: "rs_next_id st = length es" and g: "rs_genesis st = genesis_of H (rs_store_id st)"
    by (auto simp: store_repr_def)
  obtain l where idx: "idx_data (store_flush st) = idx_stream H (rs_store_id st) es @ zeros l"
    using store_flush_data [OF r] by blast
  from idx_read_entry(2) [OF h True idx sid] True n g show ?thesis
    by (simp add: store_chain_def Let_def)
qed

subsection \<open>The interface: an append-only log\<close>

text \<open>Appending several events in turn, stopping at the first error.\<close>

fun append_all :: "('e \<Rightarrow> 'st \<Rightarrow> 'err + (nat \<times> 'st)) \<Rightarrow> 'e list \<Rightarrow> 'st \<Rightarrow> 'err + (nat list \<times> 'st)" where
  "append_all app [] st = Inr ([], st)"
| "append_all app (e # es) st =
     (case app e st of
        Inl err \<Rightarrow> Inl err
      | Inr (i, st') \<Rightarrow>
          (case append_all app es st' of
             Inl err \<Rightarrow> Inl err
           | Inr (is, st'') \<Rightarrow> Inr (i # is, st'')))"

locale append_log =
  fixes R :: "'st \<Rightarrow> 'e list \<Rightarrow> bool"
    and ok :: "'e list \<Rightarrow> bool"
    and app :: "'e \<Rightarrow> 'st \<Rightarrow> 'err + (nat \<times> 'st)"
    and get :: "nat \<Rightarrow> 'st \<Rightarrow> ('err + 'r option) \<times> 'st"
    and view :: "nat \<Rightarrow> 'e \<Rightarrow> 'r"
  assumes app: "R st es \<Longrightarrow> ok (es @ [e]) \<Longrightarrow> \<exists>st'. app e st = Inr (length es, st') \<and> R st' (es @ [e])"
    and get: "R st es \<Longrightarrow> fst (get i st) = Inr (if i < length es then Some (view i (es ! i)) else None)"
    and get_keeps: "R st es \<Longrightarrow> R (snd (get i st)) es"
    and ok_prefix: "ok (es @ fs) \<Longrightarrow> ok es"
begin

lemma append_all_log:
  "R st es \<Longrightarrow> ok (es @ fs) \<Longrightarrow>
     \<exists>st'. append_all app fs st = Inr ([length es..<length es + length fs], st') \<and> R st' (es @ fs)"
proof (induction fs arbitrary: st es)
  case Nil
  then show ?case by simp
next
  case (Cons f fs)
  have "ok (es @ [f])" using Cons.prems(2) ok_prefix [of "es @ [f]" fs] by simp
  with app [OF Cons.prems(1)] obtain st1 where
    a: "app f st = Inr (length es, st1)" "R st1 (es @ [f])" by blast
  from Cons.IH [OF a(2)] Cons.prems(2) obtain st2 where
    b: "append_all app fs st1 = Inr ([length (es @ [f])..<length (es @ [f]) + length fs], st2)"
      "R st2 ((es @ [f]) @ fs)" by auto
  moreover have "length es # [length (es @ [f])..<length (es @ [f]) + length fs]
      = [length es..<length es + length (f # fs)]"
    using upt_conv_Cons [of "length es" "length es + length (f # fs)"] by (simp del: upt_Suc)
  ultimately show ?case using a by (auto simp del: upt_Suc)
qed

text \<open>A record once appended reads the same after any further appends.\<close>

lemma append_all_stable:
  assumes "R st es" "ok (es @ fs)" "append_all app fs st = Inr (is, st')" "i < length es"
  shows "fst (get i st') = fst (get i st)"
proof -
  from append_all_log [OF assms(1,2)] assms(3) have r: "R st' (es @ fs)" by auto
  show ?thesis using get [OF r, of i] get [OF assms(1), of i] assms(4) by (simp add: nth_append)
qed

end

definition append_event :: "(bytes \<Rightarrow> bytes) \<Rightarrow> event \<Rightarrow> raw_store \<Rightarrow> io_error + (nat \<times> raw_store)" where
  "append_event H e st = append_record H (ev_source e) (ev_receipt e) (ev_bytes e) st"

lemma log_ok_prefix: "log_ok (es @ fs) \<Longrightarrow> log_ok es"
  using log_ok_take [of "es @ fs" "length es"] by simp

interpretation log: append_log "store_repr H" log_ok "append_event H" get_record "record_of H" for H
proof
  show "\<exists>st'. append_event H e st = Inr (length es, st') \<and> store_repr H st' (es @ [e])"
    if "store_repr H st es" "log_ok (es @ [e])" for st es e
    using append_record_repr [OF that] by (auto simp: append_event_def)
  show "fst (get_record i st) = Inr (if i < length es then Some (record_of H i (es ! i)) else None)"
    if "store_repr H st es" for st es i
    using get_record_repr [OF that] by simp
  show "store_repr H (snd (get_record i st)) es" if "store_repr H st es" for st es i
    using get_record_repr [OF that, of i] store_flush_repr [OF that] that by simp
  show "log_ok es" if "log_ok (es @ fs)" for es fs using that by (rule log_ok_prefix)
qed

text \<open>
  C9. Appending to the store: from a store that holds the events \<open>es\<close>, appending the events
  \<open>fs\<close> one by one succeeds, hands out the ids \<open>length es, length es + 1, ...\<close> in order, and
  the store then holds \<open>es @ fs\<close>: every id reads back exactly the source, receipt time and
  bytes that were appended and their digest, and an id never handed out reads \<open>None\<close>.
\<close>

theorem store_append_get:
  assumes "store_repr H st es" and "log_ok (es @ fs)"
  shows "\<exists>st'. append_all (append_event H) fs st = Inr ([length es..<length es + length fs], st') \<and>
    (\<forall>i. fst (get_record i st') =
       Inr (if i < length (es @ fs) then Some (record_of H i ((es @ fs) ! i)) else None))"
  using log.append_all_log [OF assms] log.get by blast

text \<open>
  Records are immutable through the interface: whatever is appended later, reading an id
  already handed out gives the same record, digest and all, before and after.
\<close>

theorem store_records_immutable:
  assumes "store_repr H st es" and "log_ok (es @ fs)"
    and "append_all (append_event H) fs st = Inr (ids, st')" and "i < length es"
  shows "fst (get_record i st') = fst (get_record i st)"
  using assms by (rule log.append_all_stable)

subsection \<open>Concrete instances\<close>

text \<open>A 32-byte function of its input to instantiate the parameter in the examples.\<close>

definition tail_hash :: "bytes \<Rightarrow> bytes" where
  "tail_hash x = take 32 (rev x @ zeros 32)"

lemma tail_hash_ok: "hash_ok tail_hash"
  by (auto simp: hash_ok_def tail_hash_def min_def)

definition sample_id :: bytes where "sample_id = ''0123456789abcdef''"

definition sample_event :: "nat \<Rightarrow> bytes \<Rightarrow> event" where
  "sample_event src bs = \<lparr>ev_source = src, ev_receipt = 1700000000000000000, ev_bytes = bs\<rparr>"

lemma sample_event_bytes: "ev_bytes (sample_event src bs) = bs"
  by (simp add: sample_event_def)

definition fresh_store :: raw_store where
  "fresh_store = \<lparr>
     rs_seg = bw_with_capacity (2 ^ 20) (file_seek 8 \<lparr>f_data = seg_magic, f_pos = 0\<rparr>),
     rs_idx = bw_with_capacity (2 ^ 16) (file_seek 24 \<lparr>f_data = idx_magic @ sample_id, f_pos = 0\<rparr>),
     rs_next_id = 0, rs_seg_len = 8, rs_store_id = sample_id,
     rs_genesis = genesis_of tail_hash sample_id, rs_head = genesis_of tail_hash sample_id\<rparr>"

lemma fresh_store_repr: "store_repr tail_hash fresh_store []"
  by (simp add: store_repr_def tail_hash_ok fresh_store_def sample_id_def log_ok_def rec_off_def
      bw_repr_def bw_with_capacity_def file_seek_def seg_stream_def idx_stream_def)
    (auto intro: exI [of _ 0])

lemma sample_log_ok: "log_ok [sample_event 1 ''first'', sample_event 2 ''second'']"
  by (simp add: log_ok_def event_ok_def sample_event_def i64_ok_def rec_off_def header_len_def)

theorem store_append_get_witness:
  "\<exists>st'. append_all (append_event tail_hash) [sample_event 1 ''first'', sample_event 2 ''second''] fresh_store
       = Inr ([0, 1], st') \<and>
     fst (get_record 1 st') = Inr (Some (record_of tail_hash 1 (sample_event 2 ''second'')))"
proof -
  have "log_ok ([] @ [sample_event 1 ''first'', sample_event 2 ''second''])" using sample_log_ok by simp
  from store_append_get [OF fresh_store_repr this] obtain st' where
    a: "append_all (append_event tail_hash) [sample_event 1 ''first'', sample_event 2 ''second''] fresh_store
      = Inr ([length ([] :: event list)..<length ([] :: event list)
          + length [sample_event 1 ''first'', sample_event 2 ''second'']], st')"
    and b: "\<forall>i. fst (get_record i st') = Inr (if i < length ([] @ [sample_event 1 ''first'', sample_event 2 ''second''])
      then Some (record_of tail_hash i (([] @ [sample_event 1 ''first'', sample_event 2 ''second'']) ! i)) else None)"
    by blast
  have up: "[length ([] :: event list)..<length ([] :: event list)
      + length [sample_event 1 ''first'', sample_event 2 ''second'']] = [0, 1]" by (simp add: upt_rec)
  have "fst (get_record 1 st') = Inr (Some (record_of tail_hash 1 (sample_event 2 ''second'')))"
    using spec [OF b, of 1] by simp
  with a [unfolded up] show ?thesis by (intro exI conjI)
qed

theorem store_records_immutable_witness:
  "\<exists>st1 st2. append_all (append_event tail_hash) [sample_event 1 ''first''] fresh_store = Inr ([0], st1) \<and>
     append_all (append_event tail_hash) [sample_event 2 ''second''] st1 = Inr ([1], st2) \<and>
     fst (get_record 0 st2) = fst (get_record 0 st1)"
proof -
  have ok1: "log_ok ([] @ [sample_event 1 ''first''])"
    and ok2: "log_ok ([sample_event 1 ''first''] @ [sample_event 2 ''second''])"
    using sample_log_ok log_ok_take [OF sample_log_ok, of 1] by simp_all
  from log.append_all_log [OF fresh_store_repr ok1] obtain st1 where
    s1: "append_all (append_event tail_hash) [sample_event 1 ''first''] fresh_store = Inr ([0], st1)"
      "store_repr tail_hash st1 [sample_event 1 ''first'']" by auto
  from log.append_all_log [OF s1(2) ok2] obtain st2 where
    s2: "append_all (append_event tail_hash) [sample_event 2 ''second''] st1 = Inr ([1], st2)" by auto
  from store_records_immutable [OF s1(2) ok2 s2, of 0] s1(1) s2 show ?thesis by auto
qed

end
