(* ===== verification/Ulpf_Recover.thy ===== *)
theory Ulpf_Recover
  imports Ulpf_Store
begin

text \<open>
  Opening a store and crash recovery: \<open>RawStore::open\<close>, \<open>idx_header\<close>, \<open>recover\<close>,
  \<open>read_entry\<close>, \<open>record_end\<close> and \<open>zero_tail\<close> of \<open>src/crates/ulpf-store/src/store.rs\<close>. A crash
  leaves a prefix of each stream on disk, cut at any byte and independently of the other file;
  the main result says what recovery makes of it.
\<close>

definition read_entry :: "bytes \<Rightarrow> nat \<Rightarrow> io_error + bytes" where
  "read_entry idx n = read_exact_at idx (idx_header_len + n * idx_entry_len) idx_entry_len"

text \<open>
  The offset comes from the file, so \<open>off + HEADER_LEN\<close> may wrap in \<open>u64\<close> (the release
  profile does not check); \<open>end\<close> cannot, as a header was read at \<open>off\<close>.
\<close>

definition record_end ::
  "(bytes \<Rightarrow> bytes) \<Rightarrow> bytes \<Rightarrow> nat \<Rightarrow> nat \<Rightarrow> nat \<Rightarrow> bool \<Rightarrow> io_error + (nat \<times> bytes) option" where
  "record_end H seg off rid flen check_digest =
     (if off < 8 \<or> flen < (off + header_len) mod 2 ^ 64 then Inr None
      else case read_exact_at seg off header_len of
             Inl e \<Rightarrow> Inl e
           | Inr hdr \<Rightarrow>
               if hdr_magic hdr \<noteq> rec_magic \<or> hdr_id hdr \<noteq> rid then Inr None
               else let rend = off + header_len + hdr_len hdr in
                 if flen < rend then Inr None
                 else if check_digest then
                   (case read_exact_at seg (off + header_len) (hdr_len hdr) of
                      Inl e \<Rightarrow> Inl e
                    | Inr bs \<Rightarrow> if H bs \<noteq> hdr_digest hdr then Inr None
                               else Inr (Some (rend, hdr_digest hdr)))
                 else Inr (Some (rend, hdr_digest hdr)))"

lemma record_end_bounds:
  "record_end H seg off rid flen chk = Inr (Some (e, d)) \<Longrightarrow> off < e \<and> e \<le> flen"
  by (auto simp: record_end_def Let_def header_len_def split: if_splits sum.splits)

definition entry_off :: "bytes \<Rightarrow> nat" where "entry_off entry = le_val (slice 0 8 entry)"
definition entry_chain :: "bytes \<Rightarrow> bytes" where "entry_chain entry = slice 8 40 entry"

text \<open>The backward loop: the last entry whose record is complete and whose chain value follows.\<close>

primrec recover_back ::
  "(bytes \<Rightarrow> bytes) \<Rightarrow> bytes \<Rightarrow> bytes \<Rightarrow> bytes \<Rightarrow> nat \<Rightarrow> io_error + (nat \<times> nat \<times> bytes)" where
  "recover_back H seg idx genesis 0 = Inr (0, 8, genesis)"
| "recover_back H seg idx genesis (Suc m) =
     (case read_entry idx m of
        Inl e \<Rightarrow> Inl e
      | Inr entry \<Rightarrow>
          (case record_end H seg (entry_off entry) m (length seg) False of
             Inl e \<Rightarrow> Inl e
           | Inr None \<Rightarrow> recover_back H seg idx genesis m
           | Inr (Some (rend, digest)) \<Rightarrow>
               (case (if 1 \<le> m then map_sum (\<lambda>e. e) entry_chain (read_entry idx (m - 1)) else Inr genesis) of
                  Inl e \<Rightarrow> Inl e
                | Inr prev \<Rightarrow>
                    if entry_chain entry = chain_step H prev digest
                    then Inr (Suc m, rend, entry_chain entry)
                    else recover_back H seg idx genesis m)))"

text \<open>The forward loop: complete records the index does not hold are indexed again.\<close>

function recover_fwd ::
  "(bytes \<Rightarrow> bytes) \<Rightarrow> bytes \<Rightarrow> nat \<Rightarrow> bytes \<Rightarrow> nat \<Rightarrow> nat \<Rightarrow> bytes \<Rightarrow> io_error + (bytes \<times> nat \<times> nat \<times> bytes)" where
  "recover_fwd H seg indexed idx n seg_len head =
     (case record_end H seg seg_len n (length seg) (indexed \<le> n) of
        Inl e \<Rightarrow> Inl e
      | Inr None \<Rightarrow> Inr (idx, n, seg_len, head)
      | Inr (Some (rend, digest)) \<Rightarrow>
          (let head' = chain_step H head digest;
               idx' = write_at idx (idx_header_len + n * idx_entry_len) (idx_entry seg_len head')
           in recover_fwd H seg indexed idx' (n + 1) rend head'))"
  by pat_completeness auto
termination
  by (relation "measure (\<lambda>(H, seg, indexed, idx, n, seg_len, head). length seg - seg_len)")
     (auto dest: record_end_bounds)

declare recover_fwd.simps [simp del]

text \<open>\<open>zero_tail\<close> writes zeros in chunks of 64 KiB.\<close>

function zero_loop :: "bytes \<Rightarrow> nat \<Rightarrow> nat \<Rightarrow> bytes" where
  "zero_loop f p left =
     (if left = 0 then f
      else let n = min left 65536 in zero_loop (write_at f p (zeros n)) (p + n) (left - n))"
  by pat_completeness auto
termination by (relation "measure (\<lambda>(f, p, left). left)") auto

declare zero_loop.simps [simp del]

definition zero_tail :: "bytes \<Rightarrow> nat \<Rightarrow> nat \<Rightarrow> bytes" where
  "zero_tail f from to = (if to \<le> from then f else zero_loop f from (to - from))"

record recovered =
  rc_seg :: bytes
  rc_idx :: bytes
  rc_count :: nat
  rc_seg_len :: nat
  rc_head :: bytes

definition recover :: "(bytes \<Rightarrow> bytes) \<Rightarrow> bytes \<Rightarrow> bytes \<Rightarrow> bytes \<Rightarrow> io_error + recovered" where
  "recover H seg idx genesis =
     (let seg_file_len = length seg; idx_file_len = length idx;
          indexed = (idx_file_len - idx_header_len) div idx_entry_len in
      case recover_back H seg idx genesis indexed of
        Inl e \<Rightarrow> Inl e
      | Inr (n0, seg_len0, head0) \<Rightarrow>
          (case recover_fwd H seg indexed idx n0 seg_len0 head0 of
             Inl e \<Rightarrow> Inl e
           | Inr (idx', n, seg_len, head) \<Rightarrow>
               Inr \<lparr>rc_seg = zero_tail seg seg_len seg_file_len,
                    rc_idx = zero_tail idx' (idx_header_len + n * idx_entry_len) idx_file_len,
                    rc_count = n, rc_seg_len = seg_len, rc_head = head\<rparr>))"

text \<open>\<open>idx_header\<close>: the index content afterwards and the store id.\<close>

definition idx_header :: "bytes \<Rightarrow> bytes \<Rightarrow> nat \<Rightarrow> io_error + (bytes \<times> bytes)" where
  "idx_header fresh_id idx seg_file_len =
     (if idx_header_len \<le> length idx then
        if slice 0 8 idx \<noteq> idx_magic then Inl PreChain
        else Inr (idx, slice 8 24 idx)
      else if 8 < seg_file_len then Inl PreChain
      else Inr (idx_magic @ fresh_id, fresh_id))"

text \<open>\<open>fresh_id\<close> stands for the 16 random bytes of \<open>new_store_id\<close>.\<close>

definition open_store :: "(bytes \<Rightarrow> bytes) \<Rightarrow> bytes \<Rightarrow> bytes \<Rightarrow> bytes \<Rightarrow> io_error + raw_store" where
  "open_store H fresh_id seg0 idx0 =
     (case (if length seg0 = 0 then Inr seg_magic
            else case read_exact_at seg0 0 8 of
                   Inl e \<Rightarrow> Inl e
                 | Inr magic \<Rightarrow> if magic \<noteq> seg_magic then Inl BadSegMagic else Inr seg0) of
        Inl e \<Rightarrow> Inl e
      | Inr seg \<Rightarrow>
          (case idx_header fresh_id idx0 (length seg) of
             Inl e \<Rightarrow> Inl e
           | Inr (idx, sid) \<Rightarrow>
               (case recover H seg idx (genesis_of H sid) of
                  Inl e \<Rightarrow> Inl e
                | Inr r \<Rightarrow>
                    Inr \<lparr>rs_seg = bw_with_capacity (2 ^ 20)
                           (file_seek (rc_seg_len r) \<lparr>f_data = rc_seg r, f_pos = 0\<rparr>),
                         rs_idx = bw_with_capacity (2 ^ 16)
                           (file_seek (idx_header_len + rc_count r * idx_entry_len)
                             \<lparr>f_data = rc_idx r, f_pos = 0\<rparr>),
                         rs_next_id = rc_count r, rs_seg_len = rc_seg_len r,
                         rs_store_id = sid, rs_genesis = genesis_of H sid,
                         rs_head = rc_head r\<rparr>)))"

subsection \<open>Zeroing the tail\<close>

lemma zero_loop_eq: "p \<le> length f \<Longrightarrow> zero_loop f p left = write_at f p (zeros left)"
proof (induction f p left rule: zero_loop.induct)
  case (1 f p left)
  show ?case
  proof (cases "left = 0")
    case True
    then show ?thesis by (simp add: zero_loop.simps)
  next
    case False
    let ?n = "min left 65536"
    have "p + ?n \<le> length (write_at f p (zeros ?n))" using "1.prems" by (simp add: write_at_length)
    then have "zero_loop (write_at f p (zeros ?n)) (p + ?n) (left - ?n)
        = write_at (write_at f p (zeros ?n)) (p + ?n) (zeros (left - ?n))"
      using "1.IH" False by (simp add: Let_def)
    also have "\<dots> = write_at f p (zeros ?n @ zeros (left - ?n))"
      using write_at_write_at [OF "1.prems", of "zeros ?n"] by simp
    also have "zeros ?n @ zeros (left - ?n) = zeros left" by (simp add: zeros_add)
    finally show ?thesis using False by (subst zero_loop.simps) (simp add: Let_def)
  qed
qed

lemma zero_tail_end:
  "zero_tail (s @ t) (length s) (length s + length t) = s @ zeros (length t)"
  by (simp add: zero_tail_def zero_loop_eq write_at_append)

lemma zero_tail_noop: "to \<le> from \<Longrightarrow> zero_tail f from to = f"
  by (simp add: zero_tail_def)

subsection \<open>What a crash leaves\<close>

text \<open>How many records lie wholly inside the first \<open>a\<close> bytes of the segment stream.\<close>

fun complete_from :: "nat \<Rightarrow> nat \<Rightarrow> event list \<Rightarrow> nat" where
  "complete_from a off [] = 0"
| "complete_from a off (e # es) =
     (if off + header_len + length (ev_bytes e) \<le> a
      then Suc (complete_from a (off + header_len + length (ev_bytes e)) es) else 0)"

definition complete_records :: "event list \<Rightarrow> nat \<Rightarrow> nat" where
  "complete_records es a = complete_from a 8 es"

definition crash_image ::
  "(bytes \<Rightarrow> bytes) \<Rightarrow> bytes \<Rightarrow> event list \<Rightarrow> nat \<Rightarrow> nat \<Rightarrow> nat \<Rightarrow> nat \<Rightarrow> bytes \<times> bytes" where
  "crash_image H sid es a k b l =
     (take a (seg_stream H es) @ zeros k, take b (idx_stream H sid es) @ zeros l)"

lemma complete_from_spec:
  assumes "off \<le> a"
  shows "complete_from a off es \<le> length es \<and>
    off + sum_list (map (\<lambda>e. header_len + length (ev_bytes e)) (take (complete_from a off es) es)) \<le> a \<and>
    (complete_from a off es < length es \<longrightarrow>
       a < off + sum_list (map (\<lambda>e. header_len + length (ev_bytes e)) (take (Suc (complete_from a off es)) es)))"
  using assms
proof (induction es arbitrary: off)
  case Nil
  then show ?case by simp
next
  case (Cons e es)
  show ?case
  proof (cases "off + header_len + length (ev_bytes e) \<le> a")
    case True
    from Cons.IH [OF this] True show ?thesis by (auto simp: add.assoc)
  next
    case False
    with Cons.prems show ?thesis by simp
  qed
qed

lemma complete_records_spec:
  assumes "8 \<le> a"
  shows "complete_records es a \<le> length es" "rec_off es (complete_records es a) \<le> a"
    "complete_records es a < length es \<Longrightarrow> a < rec_off es (Suc (complete_records es a))"
  using complete_from_spec [OF assms, of es] by (auto simp: complete_records_def rec_off_def)

lemma complete_records_all:
  assumes "rec_off es (length es) \<le> a"
  shows "complete_records es a = length es"
proof (rule ccontr)
  have a8: "8 \<le> a" using assms rec_off_ge8 [of es "length es"] by linarith
  assume "complete_records es a \<noteq> length es"
  with complete_records_spec [OF a8, of es] have l: "complete_records es a < length es"
    and "a < rec_off es (Suc (complete_records es a))" by auto
  moreover have "rec_off es (Suc (complete_records es a)) \<le> rec_off es (length es)"
    using l by (intro rec_off_mono) simp
  ultimately show False using assms by simp
qed

lemma seg_stream_take:
  "i \<le> length es \<Longrightarrow> seg_stream H es = seg_stream H (take i es) @ seg_recs H i (drop i es)"
proof -
  assume i: "i \<le> length es"
  have "seg_recs H 0 es = seg_recs H 0 (take i es @ drop i es)" by simp
  also have "\<dots> = seg_recs H 0 (take i es) @ seg_recs H i (drop i es)"
    unfolding seg_recs_append using i by simp
  finally show ?thesis by (simp add: seg_stream_def)
qed

lemma idx_stream_take:
  assumes "hash_ok H" "i \<le> length es"
  shows "idx_stream H sid es = idx_stream H sid (take i es) @
    idx_recs H (rec_off es i) (chain_of H (genesis_of H sid) (take i es)) (drop i es)"
proof -
  have "idx_recs H 8 g es = idx_recs H 8 g (take i es @ drop i es)" for g by simp
  then show ?thesis
    unfolding idx_stream_def idx_recs_append [OF assms(1)] by (simp add: rec_off_def seg_recs_length assms)
qed

lemma idx_stream_snoc:
  assumes "hash_ok H" "n < length es"
  shows "idx_stream H sid (take (Suc n) es) = idx_stream H sid (take n es) @
    idx_entry (rec_off es n) (chain_of H (genesis_of H sid) (take (Suc n) es))"
  using assms by (simp add: take_Suc_conv_app_nth idx_stream_def idx_recs_append chain_of_append Let_def
      rec_off_def seg_recs_length)

lemma chain_of_Suc:
  "n < length es \<Longrightarrow> chain_of H g (take (Suc n) es) = chain_step H (chain_of H g (take n es)) (H (ev_bytes (es ! n)))"
  by (simp add: take_Suc_conv_app_nth chain_of_append)

definition crash_ok ::
  "(bytes \<Rightarrow> bytes) \<Rightarrow> bytes \<Rightarrow> event list \<Rightarrow> nat \<Rightarrow> nat \<Rightarrow> nat \<Rightarrow> nat \<Rightarrow> bool" where
  "crash_ok H sid es a k b l \<longleftrightarrow>
     hash_ok H \<and> log_ok es \<and> length sid = 16 \<and> rec_off es (length es) + header_len < 2 ^ 64 \<and>
     8 \<le> a \<and> a \<le> length (seg_stream H es) \<and> (a = length (seg_stream H es) \<or> k = 0) \<and>
     idx_header_len \<le> b \<and> b \<le> length (idx_stream H sid es) \<and>
     (b = length (idx_stream H sid es) \<or> l = 0)"

lemma record_end_complete:
  assumes "hash_ok H" "log_ok es" "i < length es" "seg = seg_stream H es @ rest"
    and "rec_off es (length es) + header_len < 2 ^ 64"
  shows "record_end H seg (rec_off es i) i (length seg) chk = Inr (Some (rec_off es (Suc i), H (ev_bytes (es ! i))))"
proof -
  have le: "rec_off es (Suc i) \<le> rec_off es (length es)" using assms(3) by (intro rec_off_mono) simp
  have "rec_off es (length es) \<le> length seg" using assms(1,4) by (simp add: rec_off_length)
  with le rec_off_less [OF assms(3)] assms(5) rec_off_ge8 [of es i]
  have "8 \<le> rec_off es i" "(rec_off es i + header_len) mod 2 ^ 64 \<le> length seg" "rec_off es (Suc i) \<le> length seg"
    by auto
  with log_header_fields [OF assms(1-3)] seg_read_header [OF assms(1,3,4), folded log_header_def]
    rec_off_less [OF assms(3)]
  show ?thesis by (simp add: record_end_def Let_def not_less not_le)
qed

lemma hdr_magic_zeros: "hdr_magic (zeros header_len) \<noteq> rec_magic"
  by (simp add: hdr_magic_def slice_def rec_magic_def)

lemma read_exact_at_take:
  "off + n \<le> a \<Longrightarrow> read_exact_at (take a data) off n = (if a \<le> length data then read_exact_at data off n else read_exact_at (take a data) off n)"
  by (auto simp: read_exact_at_def slice_def drop_take)

text \<open>Past the last complete record there is nothing recovery takes for one.\<close>

lemma record_end_none:
  assumes ok: "crash_ok H sid es a k b l" and i: "complete_records es a \<le> i" "i \<le> length es"
    and seg: "seg = take a (seg_stream H es) @ zeros k"
  shows "record_end H seg (rec_off es i) i (length seg) chk = Inr None"
proof -
  from ok have h: "hash_ok H" and lok: "log_ok es" and bnd: "rec_off es (length es) + header_len < 2 ^ 64"
    and a: "8 \<le> a" "a \<le> length (seg_stream H es)" "a = length (seg_stream H es) \<or> k = 0"
    by (auto simp: crash_ok_def)
  have S: "length (seg_stream H es) = rec_off es (length es)" using h by (simp add: rec_off_length)
  have "rec_off es i \<le> rec_off es (length es)" using i(2) by (rule rec_off_mono)
  with bnd have w: "(rec_off es i + header_len) mod 2 ^ 64 = rec_off es i + header_len" by simp
  show ?thesis
  proof (cases "length seg < rec_off es i + header_len")
    case True
    with w show ?thesis by (simp add: record_end_def)
  next
    case fits: False
    show ?thesis
    proof (cases "a = length (seg_stream H es)")
      case True
      with complete_records_all [of es a] S i have il: "i = length es" by simp
      have sg: "seg = seg_stream H es @ zeros header_len @ zeros (k - header_len)"
        using fits seg True S il by (simp add: zeros_add)
      have "read_exact_at seg (rec_off es i) header_len = Inr (zeros header_len)"
        unfolding sg il by (rule read_exact_at_append) (simp_all add: S)
      with hdr_magic_zeros fits w show ?thesis by (simp add: record_end_def)
    next
      case False
      with a have k: "k = 0" and len: "length seg = a" using seg by auto
      have il: "i < length es"
      proof (rule ccontr)
        assume "\<not> i < length es"
        with i have "i = length es" by simp
        with fits len a(2) S show False by (simp add: header_len_def)
      qed
      have "a < rec_off es (Suc i)"
      proof -
        have "a < rec_off es (Suc (complete_records es a))"
          using complete_records_spec(3) [OF a(1)] i il by simp
        also have "\<dots> \<le> rec_off es (Suc i)" using i by (intro rec_off_mono) simp
        finally show ?thesis .
      qed
      moreover have "read_exact_at seg (rec_off es i) header_len = Inr (log_header H es i)"
        using seg_read_header(1) [OF h il, of "seg_stream H es" "[]"] fits len a(2) seg k
          read_exact_at_take [of "rec_off es i" header_len a "seg_stream H es"]
        by (simp add: log_header_def)
      ultimately show ?thesis
        using log_header_fields [OF h lok il] w fits len rec_off_less [OF il] rec_off_ge8 [of es i]
        by (simp add: record_end_def Let_def)
    qed
  qed
qed

lemma entry_fields:
  "length c = 32 \<Longrightarrow> off < 2 ^ 64 \<Longrightarrow> entry_off (idx_entry off c) = off \<and> entry_chain (idx_entry off c) = c"
  by (simp add: entry_off_def entry_chain_def idx_entry_def slice_def le_val_8)

text \<open>Entry \<open>m\<close> of the index image: the one written, or zeros past the end.\<close>

lemma crash_entry:
  assumes ok: "crash_ok H sid es a k b l" and idx: "idx = take b (idx_stream H sid es) @ zeros l"
    and m: "m < (length idx - idx_header_len) div idx_entry_len"
  shows "(m < length es \<and> read_entry idx m =
           Inr (idx_entry (rec_off es m) (chain_of H (genesis_of H sid) (take (Suc m) es))))
       \<or> (length es \<le> m \<and> read_entry idx m = Inr (zeros idx_entry_len))"
proof -
  from ok have h: "hash_ok H" and sid: "length sid = 16" and b: "b \<le> length (idx_stream H sid es)"
    "b = length (idx_stream H sid es) \<or> l = 0" by (auto simp: crash_ok_def)
  have I: "length (idx_stream H sid es) = idx_header_len + length es * idx_entry_len"
    using h sid by (rule idx_stream_length)
  have "Suc m * idx_entry_len \<le> length idx - idx_header_len"
    using m by (simp add: less_eq_div_iff_mult_less_eq Suc_le_eq [symmetric] idx_entry_len_def)
  then have fit: "idx_header_len + m * idx_entry_len + idx_entry_len \<le> length idx"
    by (simp add: idx_entry_len_def)
  show ?thesis
  proof (cases "m < length es")
    case True
    have "read_entry idx m = Inr (idx_entry (rec_off es m) (chain_of H (genesis_of H sid) (take (Suc m) es)))"
    proof (cases "b = length (idx_stream H sid es)")
      case True
      with idx_read_entry(3) [OF h \<open>m < length es\<close> _ sid, of idx "zeros l"] idx show ?thesis
        by (simp add: read_entry_def)
    next
      case False
      with b have "l = 0" by simp
      with idx b have "idx = take b (idx_stream H sid es)" "length idx = b" by auto
      with idx_read_entry(3) [OF h \<open>m < length es\<close> _ sid, of "idx_stream H sid es" "[]"] fit b
        read_exact_at_take [of "idx_header_len + m * idx_entry_len" idx_entry_len b "idx_stream H sid es"]
      show ?thesis by (simp add: read_entry_def)
    qed
    with True show ?thesis by simp
  next
    case False
    then have "idx_header_len + length es * idx_entry_len \<le> idx_header_len + m * idx_entry_len"
      by (simp add: idx_entry_len_def)
    with fit I b have be: "b = length (idx_stream H sid es)" and big: "idx_header_len + m * idx_entry_len \<ge> b"
      using idx by (auto simp: idx_entry_len_def)
    then have "read_entry idx m = Inr (zeros idx_entry_len)"
      using fit idx by (simp add: read_entry_def read_exact_at_def slice_def)
    with False show ?thesis by simp
  qed
qed

lemma record_end_crash:
  assumes ok: "crash_ok H sid es a k b l" and seg: "seg = take a (seg_stream H es) @ zeros k"
    and i: "i \<le> length es"
  shows "record_end H seg (rec_off es i) i (length seg) chk =
    Inr (if i < complete_records es a then Some (rec_off es (Suc i), H (ev_bytes (es ! i))) else None)"
proof (cases "i < complete_records es a")
  case False
  with record_end_none [OF ok _ i seg] show ?thesis by simp
next
  case True
  let ?c = "complete_records es a"
  from ok have h: "hash_ok H" and lok: "log_ok es" and bnd: "rec_off es (length es) + header_len < 2 ^ 64"
    and a: "8 \<le> a" by (auto simp: crash_ok_def)
  note c = complete_records_spec [OF a, of es]
  have off: "rec_off (take ?c es) j = rec_off es j" if "j \<le> ?c" for j
    using that by (simp add: rec_off_def min_absorb1)
  have "seg_stream H es = seg_stream H (take ?c es) @ seg_recs H ?c (drop ?c es)"
    using c(1) by (rule seg_stream_take)
  moreover have "length (seg_stream H (take ?c es)) \<le> a" using c(2) h by (simp add: rec_off_length)
  ultimately obtain rest where rest: "seg = seg_stream H (take ?c es) @ rest"
    using seg by (metis append.assoc take_all_iff take_append)
  have "rec_off (take ?c es) (length (take ?c es)) + header_len < 2 ^ 64"
    using off [of ?c] c(1) le_less_trans [OF add_right_mono [OF rec_off_mono [OF c(1), of es]] bnd]
    by (simp add: min_absorb2)
  from record_end_complete [OF h log_ok_take [OF lok] _ rest this, of i chk] True c(1) off [of i] off [of "Suc i"]
  show ?thesis by simp
qed

lemma recover_back_crash:
  assumes ok: "crash_ok H sid es a k b l"
    and seg: "seg = take a (seg_stream H es) @ zeros k" and idx: "idx = take b (idx_stream H sid es) @ zeros l"
    and n: "n \<le> (length idx - idx_header_len) div idx_entry_len"
  shows "recover_back H seg idx (genesis_of H sid) n =
    (let m = min n (complete_records es a)
     in Inr (m, rec_off es m, chain_of H (genesis_of H sid) (take m es)))"
  using n
proof (induction n)
  case 0
  show ?case by (simp add: rec_off_def)
next
  case (Suc m)
  let ?c = "complete_records es a" and ?g = "genesis_of H sid"
  from ok have h: "hash_ok H" and lok: "log_ok es" and a: "8 \<le> a" by (auto simp: crash_ok_def)
  note c = complete_records_spec(1) [OF a, of es]
  have IH: "recover_back H seg idx ?g m =
    Inr (min m ?c, rec_off es (min m ?c), chain_of H ?g (take (min m ?c) es))"
    using Suc by (simp add: Let_def)
  have m: "m < (length idx - idx_header_len) div idx_entry_len" using Suc.prems by simp
  show ?case
  proof (cases "m < length es")
    case False
    with crash_entry [OF ok idx m] have e: "read_entry idx m = Inr (zeros idx_entry_len)" by simp
    have "entry_off (zeros idx_entry_len) = 0" by (simp add: entry_off_def slice_def)
    then show ?thesis using e IH False c by (simp add: record_end_def Let_def)
  next
    case True
    let ?e = "idx_entry (rec_off es m) (chain_of H ?g (take (Suc m) es))"
    have e: "read_entry idx m = Inr ?e" using crash_entry [OF ok idx m] True by simp
    have ef: "entry_off ?e = rec_off es m" "entry_chain ?e = chain_of H ?g (take (Suc m) es)"
      using entry_fields log_bounds(1) [OF lok True] h by simp_all
    note re = record_end_crash [OF ok seg, of m False]
    show ?thesis
    proof (cases "m < ?c")
      case False
      with e ef re True IH show ?thesis by (simp add: Let_def)
    next
      case mc: True
      have prev: "(if 1 \<le> m then map_sum (\<lambda>e. e) entry_chain (read_entry idx (m - 1)) else Inr ?g)
          = Inr (chain_of H ?g (take m es))"
      proof (cases m)
        case 0
        then show ?thesis by simp
      next
        case (Suc j)
        have "j < (length idx - idx_header_len) div idx_entry_len" using m Suc by simp
        with crash_entry [OF ok idx this] True Suc
        have "read_entry idx j = Inr (idx_entry (rec_off es j) (chain_of H ?g (take (Suc j) es)))" by simp
        then show ?thesis using Suc entry_fields log_bounds(1) [OF lok, of j] True h by simp
      qed
      show ?thesis
        using e ef re True mc prev chain_of_Suc [OF True, of H ?g] by (simp add: Let_def)
    qed
  qed
qed

lemma recover_fwd_crash:
  assumes ok: "crash_ok H sid es a k b l" and seg: "seg = take a (seg_stream H es) @ zeros k"
  shows "n \<le> complete_records es a \<Longrightarrow> idx = idx_stream H sid (take n es) @ rest \<Longrightarrow>
    recover_fwd H seg indexed idx n (rec_off es n) (chain_of H (genesis_of H sid) (take n es)) =
    (let c = complete_records es a in
     Inr (idx_stream H sid (take c es) @ drop ((c - n) * idx_entry_len) rest, c, rec_off es c,
          chain_of H (genesis_of H sid) (take c es)))"
proof (induction "complete_records es a - n" arbitrary: n idx rest)
  case 0
  from ok have a: "8 \<le> a" by (simp add: crash_ok_def)
  from 0 have "n = complete_records es a" by simp
  with 0 record_end_crash [OF ok seg, of n "indexed \<le> n"] complete_records_spec(1) [OF a, of es]
  show ?case by (subst recover_fwd.simps) (simp add: Let_def)
next
  case (Suc d)
  let ?c = "complete_records es a" and ?g = "genesis_of H sid"
  from ok have h: "hash_ok H" and sid: "length sid = 16" and a: "8 \<le> a" by (auto simp: crash_ok_def)
  from Suc.hyps(2) complete_records_spec(1) [OF a, of es] have nc: "n < ?c" and nl: "n < length es" by auto
  let ?idx = "write_at idx (idx_header_len + n * idx_entry_len)
      (idx_entry (rec_off es n) (chain_of H ?g (take (Suc n) es)))"
  have len: "length (idx_stream H sid (take n es)) = idx_header_len + n * idx_entry_len"
    using h sid nl by (simp add: idx_stream_length)
  have el: "length (idx_entry (rec_off es n) (chain_of H ?g (take (Suc n) es))) = idx_entry_len"
    using h by (simp add: idx_entry_def idx_entry_len_def)
  have idx': "?idx = idx_stream H sid (take (Suc n) es) @ drop idx_entry_len rest"
    unfolding Suc.prems(2) len [symmetric] write_at_append el idx_stream_snoc [OF h nl] by simp
  have step: "recover_fwd H seg indexed idx n (rec_off es n) (chain_of H ?g (take n es)) =
    recover_fwd H seg indexed ?idx (Suc n) (rec_off es (Suc n)) (chain_of H ?g (take (Suc n) es))"
    using record_end_crash [OF ok seg, of n "indexed \<le> n"] nc nl chain_of_Suc [OF nl, of H ?g]
    by (subst recover_fwd.simps) (simp add: Let_def)
  have "(?c - Suc n) * idx_entry_len + idx_entry_len = (?c - n) * idx_entry_len"
    using nc by (metis Suc_diff_Suc mult_Suc add.commute)
  with Suc.hyps(1) [OF _ _ idx'] Suc.hyps(2) nc step show ?case by (simp add: Let_def)
qed

lemma take_stream_prefix:
  assumes "s = p @ q" "length p \<le> n"
  shows "\<exists>r. take n s @ t = p @ r \<and> length r = length (take n s @ t) - length p"
  using assms by (intro exI [of _ "take (n - length p) q @ t"]) simp

text \<open>
  Recovery of a crash image keeps exactly the complete records: it returns their number, the
  end of the last one and the chain value there, and both files become the streams of those
  records followed by zeros, at no shorter a length.
\<close>

lemma recover_crash:
  assumes ok: "crash_ok H sid es a k b l"
    and seg: "seg = take a (seg_stream H es) @ zeros k" and idx: "idx = take b (idx_stream H sid es) @ zeros l"
  defines "c \<equiv> complete_records es a"
  shows "\<exists>i j. recover H seg idx (genesis_of H sid) =
    Inr \<lparr>rc_seg = seg_stream H (take c es) @ zeros i, rc_idx = idx_stream H sid (take c es) @ zeros j,
         rc_count = c, rc_seg_len = rec_off es c, rc_head = chain_of H (genesis_of H sid) (take c es)\<rparr>"
proof -
  let ?g = "genesis_of H sid" and ?ix = "(length idx - idx_header_len) div idx_entry_len"
  let ?n = "min ?ix c"
  from ok have h: "hash_ok H" and sid: "length sid = 16" and a: "8 \<le> a" and b: "idx_header_len \<le> b"
    "b \<le> length (idx_stream H sid es)" "b = length (idx_stream H sid es) \<or> l = 0"
    by (auto simp: crash_ok_def)
  note cs = complete_records_spec [OF a, of es, folded c_def]
  have I: "length (idx_stream H sid (take i es)) = idx_header_len + i * idx_entry_len" if "i \<le> length es" for i
    using that h sid by (simp add: idx_stream_length)
  have nl: "?n \<le> length es" using cs(1) by simp
  have "?n * idx_entry_len \<le> length idx - idx_header_len"
    using div_times_less_eq_dividend [of "length idx - idx_header_len" idx_entry_len]
    by (meson le_trans min.cobounded1 mult_le_mono1)
  then have nidx: "idx_header_len + ?n * idx_entry_len \<le> length idx"
    using idx b by simp
  have nb: "idx_header_len + ?n * idx_entry_len \<le> b"
  proof (cases "l = 0")
    case True
    with nidx idx b show ?thesis by simp
  next
    case False
    with b I [of "length es"] nl show ?thesis by (simp add: idx_entry_len_def)
  qed
  have "length (idx_stream H sid (take ?n es)) \<le> b" unfolding I [OF nl] by (rule nb)
  from take_stream_prefix [OF idx_stream_take [OF h nl, of sid] this, of "zeros l"]
  obtain rest where rest: "idx = idx_stream H sid (take ?n es) @ rest"
    and restl: "length rest = length idx - (idx_header_len + ?n * idx_entry_len)"
    unfolding idx [symmetric] I [OF nl] by blast
  have L: "length idx = idx_header_len + ?n * idx_entry_len + length rest"
    unfolding restl by (rule le_add_diff_inverse [OF nidx, symmetric])
  have bk: "recover_back H seg idx ?g ?ix = Inr (?n, rec_off es ?n, chain_of H ?g (take ?n es))"
    using recover_back_crash [OF ok seg idx order.refl] by (simp add: Let_def c_def)
  define rest' where "rest' = drop ((c - ?n) * idx_entry_len) rest"
  have fwd: "recover_fwd H seg ?ix idx ?n (rec_off es ?n) (chain_of H ?g (take ?n es)) =
    Inr (idx_stream H sid (take c es) @ rest', c, rec_off es c, chain_of H ?g (take c es))"
    using recover_fwd_crash [OF ok seg _ rest, of ?ix] by (simp add: Let_def c_def rest'_def)
  have "(c - ?n) + ?n = c" by simp
  then have cn: "(c - ?n) * idx_entry_len + ?n * idx_entry_len = c * idx_entry_len"
    by (simp only: add_mult_distrib [symmetric])
  have zi: "\<exists>j. zero_tail (idx_stream H sid (take c es) @ rest') (idx_header_len + c * idx_entry_len) (length idx)
      = idx_stream H sid (take c es) @ zeros j"
  proof (cases "length idx \<le> idx_header_len + c * idx_entry_len")
    case True
    then have "length rest \<le> (c - ?n) * idx_entry_len" using restl cn by linarith
    then have "rest' = []" by (simp add: rest'_def)
    with True show ?thesis by (auto simp: zero_tail_noop intro: exI [of _ 0])
  next
    case False
    then have "length idx = (idx_header_len + c * idx_entry_len) + (length rest - (c - ?n) * idx_entry_len)"
    proof -
      have gen: "L = A + z + (r - x)" if "L = A + y + r" "x + y = z" "\<not> L \<le> A + z" for L A x y z r :: nat
        using that by arith
      show ?thesis by (rule gen [OF L cn False])
    qed
    then have "length idx = length (idx_stream H sid (take c es)) + length rest'"
      unfolding I [OF cs(1)] by (simp add: rest'_def)
    with zero_tail_end [of "idx_stream H sid (take c es)" rest'] I [OF cs(1)] show ?thesis by auto
  qed
  have Sc: "length (seg_stream H (take c es)) = rec_off es c" using h by (simp add: rec_off_length)
  have "length (seg_stream H (take c es)) \<le> a" unfolding Sc by (rule cs(2))
  from take_stream_prefix [OF seg_stream_take [OF cs(1), of H] this, of "zeros k"]
  obtain srest where srest: "seg = seg_stream H (take c es) @ srest"
    unfolding seg [symmetric] by blast
  have zs: "zero_tail seg (rec_off es c) (length seg) = seg_stream H (take c es) @ zeros (length srest)"
    using zero_tail_end [of "seg_stream H (take c es)" srest] srest Sc by simp
  from zi obtain j where "zero_tail (idx_stream H sid (take c es) @ rest') (idx_header_len + c * idx_entry_len) (length idx)
      = idx_stream H sid (take c es) @ zeros j" by blast
  with bk fwd zs show ?thesis by (auto simp: recover_def Let_def)
qed

text \<open>Opening what a crash left finds the complete records.\<close>

lemma crash_reopens:
  assumes ok: "crash_ok H sid es a k b l" and img: "crash_image H sid es a k b l = (seg, idx)"
  shows "\<exists>st. open_store H fresh seg idx = Inr st \<and>
    store_repr H st (take (complete_records es a) es) \<and> rs_store_id st = sid"
proof -
  let ?c = "complete_records es a"
  from img have seg: "seg = take a (seg_stream H es) @ zeros k" and idx: "idx = take b (idx_stream H sid es) @ zeros l"
    by (auto simp: crash_image_def)
  from ok have h: "hash_ok H" and lok: "log_ok es" and sid: "length sid = 16" and a: "8 \<le> a"
    and al: "a \<le> length (seg_stream H es)"
    and b: "idx_header_len \<le> b" "b \<le> length (idx_stream H sid es)" by (auto simp: crash_ok_def)
  note cs = complete_records_spec [OF a, of es]
  obtain s' where s': "seg = seg_magic @ s'"
    using take_stream_prefix [of "seg_stream H es" seg_magic "seg_recs H 0 es" a "zeros k"] a seg
    by (auto simp: seg_stream_def)
  then have sm: "seg \<noteq> []" "read_exact_at seg 0 8 = Inr seg_magic"
    using read_exact_at_append [of "[]" 0 seg_magic 8 s'] by (auto simp: seg_magic_def)
  obtain i' where i': "idx = (idx_magic @ sid) @ i'"
    using take_stream_prefix [of "idx_stream H sid es" "idx_magic @ sid" "idx_recs H 8 (genesis_of H sid) es" b "zeros l"]
      b idx sid by (auto simp: idx_stream_def idx_header_len_def)
  then have ih: "idx_header fresh idx (length seg) = Inr (idx, sid)"
    using sid by (simp add: idx_header_def idx_header_len_def slice_def)
  from recover_crash [OF ok seg idx] obtain i j where rc: "recover H seg idx (genesis_of H sid) =
    Inr \<lparr>rc_seg = seg_stream H (take ?c es) @ zeros i, rc_idx = idx_stream H sid (take ?c es) @ zeros j,
         rc_count = ?c, rc_seg_len = rec_off es ?c, rc_head = chain_of H (genesis_of H sid) (take ?c es)\<rparr>" by blast
  have off: "rec_off (take ?c es) (length (take ?c es)) = rec_off es ?c"
    using cs(1) by (simp add: rec_off_def min_absorb1)
  have "length (seg_stream H (take ?c es)) = rec_off es ?c" using h by (simp add: rec_off_length)
  moreover have "length (idx_stream H sid (take ?c es)) = idx_header_len + ?c * idx_entry_len"
    using h sid cs(1) by (simp add: idx_stream_length)
  ultimately show ?thesis
    using sm ih rc log_ok_take [OF lok, of ?c] h sid cs(1) off
    by (auto simp: open_store_def store_repr_def bw_with_capacity_def file_seek_def bw_repr_def intro: exI)
qed

text \<open>
  C8. Crash recovery: if power is lost while the store holds \<open>es\<close>, leaving any prefix of the
  segment (at least its magic) and any prefix of the index (at least its header) on disk, cut
  independently and inside a record or not, then opening the store succeeds and the store then
  represents exactly the records whose bytes are completely in the segment, under their old ids.
  Zeros an earlier recovery left behind a complete stream change nothing.
\<close>

theorem open_after_crash:
  assumes ok: "crash_ok H sid es a k b l" and img: "crash_image H sid es a k b l = (seg, idx)"
  shows "\<exists>st. open_store H fresh seg idx = Inr st \<and>
    store_repr H st (take (complete_records es a) es) \<and> rs_store_id st = sid"
  by (rule crash_reopens [OF assms])

theorem open_after_crash_witness:
  "\<exists>st. open_store tail_hash [] (take 80 (seg_stream tail_hash [sample_event 1 ''first'', sample_event 2 ''second'']))
        (take 70 (idx_stream tail_hash sample_id [sample_event 1 ''first'', sample_event 2 ''second''])) = Inr st \<and>
     store_repr tail_hash st [sample_event 1 ''first''] \<and> rs_store_id st = sample_id"
proof -
  let ?es = "[sample_event 1 ''first'', sample_event 2 ''second'']"
  have ok: "crash_ok tail_hash sample_id ?es 80 0 70 0"
    unfolding crash_ok_def using tail_hash_ok sample_log_ok
    by (simp add: rec_off_length [OF tail_hash_ok, symmetric] idx_stream_length [OF tail_hash_ok] sample_id_def
        rec_off_def seg_stream_def seg_recs_length sample_event_def store_consts)
  have c: "complete_records ?es 80 = 1"
    by (simp add: complete_records_def sample_event_def header_len_def)
  have img: "crash_image tail_hash sample_id ?es 80 0 70 0 =
    (take 80 (seg_stream tail_hash ?es), take 70 (idx_stream tail_hash sample_id ?es))"
    by (simp add: crash_image_def)
  from open_after_crash [OF ok img, of "[]"] c show ?thesis by auto
qed

subsection \<open>Where recovery trusts too much\<close>

text \<open>
  A record no entry ever pointed at can be accepted without its bytes being checked.
  \<open>recover\<close> takes the length of the index file for the number of entries it held, but an
  earlier recovery leaves zeros there; with at least one zeroed slot, a record whose header
  reached the disk and whose body reads as zeros is indexed under a new id, although its bytes
  do not hash to its stored digest.
\<close>

theorem recover_accepts_torn_record:
  assumes "hash_ok H" and "log_ok [e]" and "length sid = 16"
  shows "\<exists>r. recover H
      (seg_magic @ rec_header 0 (ev_receipt e) (ev_source e) (length (ev_bytes e)) (H (ev_bytes e))
         @ zeros (length (ev_bytes e)))
      (idx_magic @ sid @ zeros idx_entry_len) (genesis_of H sid) = Inr r \<and> rc_count r = 1"
proof -
  let ?h = "rec_header 0 (ev_receipt e) (ev_source e) (length (ev_bytes e)) (H (ev_bytes e))"
  let ?n = "length (ev_bytes e)" and ?g = "genesis_of H sid"
  let ?seg = "seg_magic @ ?h @ zeros ?n" and ?idx = "idx_magic @ sid @ zeros idx_entry_len"
  have hl: "length ?h = header_len" using assms(1) by (simp add: rec_header_length)
  have n: "?n < 2 ^ 32" using assms(2) by (simp add: log_ok_def event_ok_def)
  have hdr: "hdr_magic ?h = rec_magic" "hdr_id ?h = 0" "hdr_len ?h = ?n" "hdr_digest ?h = H (ev_bytes e)"
    using rec_header_fields [of "H (ev_bytes e)" 0 "ev_source e" ?n "ev_receipt e"] assms(1,2)
    by (simp_all add: log_ok_def event_ok_def)
  have ix: "(length ?idx - idx_header_len) div idx_entry_len = 1"
    using assms(3) by (simp add: idx_header_len_def idx_entry_len_def)
  have "read_entry ?idx 0 = Inr (zeros idx_entry_len)"
    using read_exact_at_append [of "idx_magic @ sid" idx_header_len "zeros idx_entry_len" idx_entry_len "[]"] assms(3)
    by (simp add: read_entry_def idx_header_len_def)
  moreover have "entry_off (zeros idx_entry_len) = 0" by (simp add: entry_off_def slice_def)
  ultimately have bk: "recover_back H ?seg ?idx ?g 1 = Inr (0, 8, ?g)"
    by (simp add: record_end_def)
  have rd: "read_exact_at ?seg 8 header_len = Inr ?h"
    using read_exact_at_append [of seg_magic 8 ?h header_len "zeros ?n"] hl by simp
  have one: "record_end H ?seg 8 0 (length ?seg) (1 \<le> (0::nat)) = Inr (Some (8 + header_len + ?n, H (ev_bytes e)))"
    using rd hdr hl by (simp add: record_end_def header_len_def)
  have two: "record_end H ?seg (8 + header_len + ?n) 1 (length ?seg) (1 \<le> (1::nat)) = Inr None"
    using n hl by (simp add: record_end_def header_len_def)
  have "\<exists>ix'. recover_fwd H ?seg 1 ?idx 0 8 ?g =
      Inr (ix', 1, 8 + header_len + ?n, chain_step H ?g (H (ev_bytes e)))"
    using one two by (subst recover_fwd.simps, simp add: Let_def, subst recover_fwd.simps) simp
  with ix bk show ?thesis by (auto simp: recover_def Let_def)
qed

theorem recover_accepts_torn_record_witness:
  "\<exists>r. recover tail_hash
      (seg_magic @ rec_header 0 1700000000000000000 1 5 (tail_hash ''first'') @ zeros 5)
      (idx_magic @ sample_id @ zeros idx_entry_len) (genesis_of tail_hash sample_id) = Inr r \<and>
     rc_count r = 1 \<and> tail_hash (zeros 5) \<noteq> tail_hash ''first''"
proof -
  have ok: "log_ok [sample_event 1 ''first'']" using log_ok_take [OF sample_log_ok, of 1] by simp
  have "tail_hash (zeros 5) \<noteq> tail_hash ''first''" by code_simp
  moreover have "length sample_id = 16" by (simp add: sample_id_def)
  note torn = recover_accepts_torn_record [OF tail_hash_ok ok this]
  moreover have "ev_receipt (sample_event 1 ''first'') = 1700000000000000000" "ev_source (sample_event 1 ''first'') = 1"
    "ev_bytes (sample_event 1 ''first'') = ''first''" "length ''first'' = 5"
    by (simp_all add: sample_event_def)
  ultimately show ?thesis by (simp only: simp_thms)
qed

end
