(* ===== verification/Ulpf_Verify.thy ===== *)
theory Ulpf_Verify
  imports Ulpf_Recover
begin

text \<open>
  Reading and proving a store: \<open>RawReader\<close>, \<open>verify\<close>, \<open>verify_against\<close>, \<open>attest\<close> and the
  index header checks of \<open>src/crates/ulpf-store/src/store.rs\<close>. A reader is the two mapped
  files and a record count; nothing is assumed of their bytes, so the tamper evidence holds
  for files an adversary wrote. The attestation carries the fields the checks read (its
  constant descriptive texts and the time of writing are left out).
\<close>

record raw_reader =
  rd_seg :: bytes
  rd_idx :: bytes
  rd_count :: nat
  rd_store_id :: bytes
  rd_genesis :: bytes

definition get_range :: "nat \<Rightarrow> nat \<Rightarrow> bytes \<Rightarrow> bytes option" where
  "get_range a b xs = (if a \<le> b \<and> b \<le> length xs then Some (slice a b xs) else None)"

definition checked_add :: "nat \<Rightarrow> nat \<Rightarrow> nat option" where
  "checked_add a b = (if a + b < 2 ^ 64 then Some (a + b) else None)"

definition reader_offset :: "raw_reader \<Rightarrow> nat \<Rightarrow> nat option" where
  "reader_offset r rid =
     (if rd_count r \<le> rid then None
      else let p = idx_header_len + rid * idx_entry_len
           in map_option le_val (get_range p (p + 8) (rd_idx r)))"

definition reader_chain :: "raw_reader \<Rightarrow> nat \<Rightarrow> bytes option" where
  "reader_chain r rid =
     (if rd_count r \<le> rid then None
      else let p = idx_header_len + rid * idx_entry_len + 8
           in get_range p (p + 32) (rd_idx r))"

definition reader_head :: "raw_reader \<Rightarrow> bytes option" where
  "reader_head r = (if rd_count r = 0 then None else reader_chain r (rd_count r - 1))"

text \<open>The zeros recovery left behind the last entry are not records.\<close>

primrec trim_count :: "raw_reader \<Rightarrow> nat \<Rightarrow> nat" where
  "trim_count r 0 = 0"
| "trim_count r (Suc n) =
     (case reader_offset (r\<lparr>rd_count := Suc n\<rparr>) n of
        Some off \<Rightarrow> if off < 8 then trim_count r n else Suc n
      | None \<Rightarrow> Suc n)"

definition reader_open :: "(bytes \<Rightarrow> bytes) \<Rightarrow> bytes \<Rightarrow> bytes \<Rightarrow> io_error + raw_reader" where
  "reader_open H seg idx =
     (if length seg < 8 \<or> take 8 seg \<noteq> seg_magic then Inl BadSegMagic
      else if length idx < idx_header_len \<or> take 8 idx \<noteq> idx_magic then Inl PreChain
      else let sid = slice 8 24 idx;
               count = (length idx - idx_header_len) div idx_entry_len;
               r = \<lparr>rd_seg = seg, rd_idx = idx, rd_count = count,
                    rd_store_id = sid, rd_genesis = genesis_of H sid\<rparr>
           in Inr (r\<lparr>rd_count := trim_count r count\<rparr>))"

definition reader_get :: "raw_reader \<Rightarrow> nat \<Rightarrow> owned_record option" where
  "reader_get r rid =
     (case reader_offset r rid of None \<Rightarrow> None | Some off \<Rightarrow>
        if off < 8 then None
        else case checked_add off header_len of None \<Rightarrow> None | Some body \<Rightarrow>
          (case get_range off body (rd_seg r) of None \<Rightarrow> None | Some hdr \<Rightarrow>
             if hdr_magic hdr \<noteq> rec_magic then None
             else case checked_add body (hdr_len hdr) of None \<Rightarrow> None | Some rend \<Rightarrow>
               (case get_range body rend (rd_seg r) of None \<Rightarrow> None | Some bs \<Rightarrow>
                  if hdr_id hdr \<noteq> rid then None
                  else Some \<lparr>or_id = rid, or_receipt = hdr_receipt hdr, or_source = hdr_source hdr,
                             or_sha256 = hdr_digest hdr, or_bytes = bs\<rparr>)))"

datatype verify_reason = Digest | Chain

datatype att_problem = WrongStore | StoreShorter | NoCheckpoints | CheckpointPastEnd

record verify_report =
  vr_checked :: nat
  vr_corrupt :: "nat list"
  vr_first_bad :: "(nat \<times> verify_reason) option"
  vr_checkpoints :: nat
  vr_bad_checkpoint :: "nat option"
  vr_problem :: "att_problem option"

definition report_ok :: "verify_report \<Rightarrow> bool" where
  "report_ok rep \<longleftrightarrow> vr_corrupt rep = [] \<and> vr_bad_checkpoint rep = None \<and> vr_problem rep = None"

record attestation =
  at_store_id :: bytes
  at_records :: nat
  at_genesis :: bytes
  at_head :: bytes
  at_checkpoints :: "(nat \<times> bytes) list"

text \<open>What is wrong with record \<open>i\<close>, given the chain value stored before it.\<close>

definition check_reason :: "(bytes \<Rightarrow> bytes) \<Rightarrow> raw_reader \<Rightarrow> nat \<Rightarrow> bytes \<Rightarrow> verify_reason option" where
  "check_reason H r i prev =
     (case reader_get r i of
        None \<Rightarrow> Some Digest
      | Some rec \<Rightarrow>
          if H (or_bytes rec) \<noteq> or_sha256 rec then Some Digest
          else if reader_chain r i \<noteq> Some (chain_step H prev (or_sha256 rec)) then Some Chain
          else None)"

definition check_step ::
  "(bytes \<Rightarrow> bytes) \<Rightarrow> raw_reader \<Rightarrow> nat \<Rightarrow>
   nat list \<times> (nat \<times> verify_reason) option \<times> bytes \<Rightarrow> nat list \<times> (nat \<times> verify_reason) option \<times> bytes" where
  "check_step H r i = (\<lambda>(corrupt, first_bad, prev).
     (let prev' = (case reader_chain r i of Some c \<Rightarrow> c | None \<Rightarrow> prev) in
      case check_reason H r i prev of
        None \<Rightarrow> (corrupt, first_bad, prev')
      | Some reason \<Rightarrow>
          (corrupt @ [i], (case first_bad of None \<Rightarrow> Some (i, reason) | Some fb \<Rightarrow> Some fb), prev')))"

text \<open>The checkpoint loop, with its \<open>break\<close>s.\<close>

fun check_checkpoints :: "raw_reader \<Rightarrow> (nat \<times> bytes) list \<Rightarrow> verify_report \<Rightarrow> verify_report" where
  "check_checkpoints r [] rep = rep"
| "check_checkpoints r ((i, c) # cps) rep =
     (if rd_count r \<le> i then
        rep\<lparr>vr_problem := (case vr_problem rep of None \<Rightarrow> Some CheckpointPastEnd | p \<Rightarrow> p)\<rparr>
      else let rep' = rep\<lparr>vr_checkpoints := vr_checkpoints rep + 1\<rparr> in
        (case reader_chain r i of
           Some ch \<Rightarrow> if eq_ignore_ascii_case (hex ch) c then check_checkpoints r cps rep'
                      else rep'\<lparr>vr_bad_checkpoint := Some i\<rparr>
         | None \<Rightarrow> rep'\<lparr>vr_bad_checkpoint := Some i\<rparr>))"

definition check_attestation :: "raw_reader \<Rightarrow> attestation \<Rightarrow> verify_report \<Rightarrow> verify_report" where
  "check_attestation r att rep0 =
     (if \<not> eq_ignore_ascii_case (at_store_id att) (hex (rd_store_id r)) \<or>
         \<not> eq_ignore_ascii_case (at_genesis att) (hex (rd_genesis r))
      then rep0\<lparr>vr_problem := Some WrongStore\<rparr>
      else
        let rep1 = (if rd_count r < at_records att then rep0\<lparr>vr_problem := Some StoreShorter\<rparr> else rep0);
            rep2 = (if 0 < at_records att \<and> at_records att \<le> rd_count r then
                      (let last = at_records att - 1 in
                       case reader_chain r last of
                         Some ch \<Rightarrow> if eq_ignore_ascii_case (hex ch) (at_head att) then rep1
                                    else rep1\<lparr>vr_bad_checkpoint := Some last\<rparr>
                       | None \<Rightarrow> rep1\<lparr>vr_bad_checkpoint := Some last\<rparr>)
                    else rep1);
            rep3 = (if at_checkpoints att = [] \<and> 0 < at_records att then
                      rep2\<lparr>vr_problem := (case vr_problem rep2 of None \<Rightarrow> Some NoCheckpoints | p \<Rightarrow> p)\<rparr>
                    else rep2)
        in check_checkpoints r (at_checkpoints att) rep3)"

definition check :: "(bytes \<Rightarrow> bytes) \<Rightarrow> raw_reader \<Rightarrow> attestation option \<Rightarrow> verify_report" where
  "check H r att =
     (let (corrupt, first_bad, prev) = fold (check_step H r) [0..<rd_count r] ([], None, rd_genesis r);
          report = \<lparr>vr_checked = rd_count r, vr_corrupt = corrupt, vr_first_bad = first_bad,
                    vr_checkpoints = 0, vr_bad_checkpoint = None, vr_problem = None\<rparr>
      in case att of None \<Rightarrow> report | Some a \<Rightarrow> check_attestation r a report)"

definition verify :: "(bytes \<Rightarrow> bytes) \<Rightarrow> raw_reader \<Rightarrow> verify_report" where
  "verify H r = check H r None"

definition verify_against :: "(bytes \<Rightarrow> bytes) \<Rightarrow> raw_reader \<Rightarrow> attestation \<Rightarrow> verify_report" where
  "verify_against H r att = check H r (Some att)"

definition checkpoint_at :: "raw_reader \<Rightarrow> nat \<Rightarrow> nat \<times> bytes" where
  "checkpoint_at r i = (i, case reader_chain r i of Some c \<Rightarrow> hex c | None \<Rightarrow> [])"

function attest_loop :: "raw_reader \<Rightarrow> nat \<Rightarrow> (nat \<times> bytes) list" where
  "attest_loop r i =
     (if i < rd_count r then checkpoint_at r i # attest_loop r (i + checkpoint_every) else [])"
  by pat_completeness auto
termination by (relation "measure (\<lambda>(r, i). rd_count r - i)") (auto simp: checkpoint_every_def)

declare attest_loop.simps [simp del]

definition attest :: "raw_reader \<Rightarrow> attestation" where
  "attest r =
     (let cps = attest_loop r 0;
          cps' = (if 0 < rd_count r \<and> (cps = [] \<or> fst (last cps) \<noteq> rd_count r - 1)
                  then cps @ [checkpoint_at r (rd_count r - 1)] else cps)
      in \<lparr>at_store_id = hex (rd_store_id r), at_records = rd_count r,
          at_genesis = hex (rd_genesis r),
          at_head = hex (case reader_head r of Some h \<Rightarrow> h | None \<Rightarrow> rd_genesis r),
          at_checkpoints = cps'\<rparr>)"

subsection \<open>Index header checks\<close>

datatype header_problem = HeaderShort | HeaderMagic | HeaderVersion nat | GenesisMismatch
datatype header_note = PartialEntry nat | Unindexed nat

record index_header =
  ih_problems :: "header_problem list"
  ih_notes :: "header_note list"

definition index_header_of :: "bytes \<Rightarrow> index_header" where
  "index_header_of idx =
     (if length idx < idx_header_len then \<lparr>ih_problems = [HeaderShort], ih_notes = []\<rparr>
      else if take 7 idx \<noteq> take 7 idx_magic then \<lparr>ih_problems = [HeaderMagic], ih_notes = []\<rparr>
      else if idx ! 7 \<noteq> idx_magic ! 7 then \<lparr>ih_problems = [HeaderVersion (bv (idx ! 7))], ih_notes = []\<rparr>
      else let trailing = (length idx - idx_header_len) mod idx_entry_len in
        \<lparr>ih_problems = [], ih_notes = (if trailing \<noteq> 0 then [PartialEntry trailing] else [])\<rparr>)"

definition record_at :: "(bytes \<Rightarrow> bytes) \<Rightarrow> bytes \<Rightarrow> nat \<Rightarrow> nat \<Rightarrow> bool" where
  "record_at H seg off rid =
     (case checked_add off header_len of None \<Rightarrow> False | Some e \<Rightarrow>
        (case get_range off e seg of None \<Rightarrow> False | Some hdr \<Rightarrow>
           if hdr_magic hdr \<noteq> rec_magic \<or> hdr_id hdr \<noteq> rid then False
           else case checked_add e (hdr_len hdr) of None \<Rightarrow> False | Some b \<Rightarrow>
             (case get_range e b seg of None \<Rightarrow> False | Some body \<Rightarrow> H body = hdr_digest hdr)))"

definition index_header_against_store :: "(bytes \<Rightarrow> bytes) \<Rightarrow> bool \<Rightarrow> raw_reader \<Rightarrow> index_header" where
  "index_header_against_store H idle r =
     (let problems =
        (case reader_get r 0 of
           Some rec \<Rightarrow>
             (let digest = H (or_bytes rec) in
              if digest = or_sha256 rec \<and> reader_chain r 0 \<noteq> Some (chain_step H (rd_genesis r) digest)
              then [GenesisMismatch] else [])
         | None \<Rightarrow> []);
        count = rd_count r in
      if \<not> idle then \<lparr>ih_problems = problems, ih_notes = []\<rparr>
      else let nxt = (if count = 0 then Some 8
                      else case (reader_offset r (count - 1), reader_get r (count - 1)) of
                             (Some off, Some rec) \<Rightarrow> Some (off + header_len + length (or_bytes rec))
                           | _ \<Rightarrow> None)
        in \<lparr>ih_problems = problems,
            ih_notes = (case nxt of
                          Some n \<Rightarrow> if record_at H (rd_seg r) n count then [Unindexed count] else []
                        | None \<Rightarrow> [])\<rparr>)"

subsection \<open>What the checks compute on any files\<close>

text \<open>The chain value the walk holds before record \<open>n\<close>: what the last readable entry stores.\<close>

fun prev_chain :: "raw_reader \<Rightarrow> nat \<Rightarrow> bytes" where
  "prev_chain r 0 = rd_genesis r"
| "prev_chain r (Suc n) = (case reader_chain r n of Some c \<Rightarrow> c | None \<Rightarrow> prev_chain r n)"

definition bad_at :: "(bytes \<Rightarrow> bytes) \<Rightarrow> raw_reader \<Rightarrow> nat \<Rightarrow> verify_reason option" where
  "bad_at H r i = check_reason H r i (prev_chain r i)"

lemma check_fold:
  "fold (check_step H r) [0..<n] ([], None, rd_genesis r) =
    (let bad = filter (\<lambda>i. bad_at H r i \<noteq> None) [0..<n]
     in (bad, (case bad of [] \<Rightarrow> None | i # _ \<Rightarrow> Some (i, the (bad_at H r i))), prev_chain r n))"
proof (induction n)
  case 0
  show ?case by simp
next
  case (Suc n)
  then show ?case
    by (auto simp: Let_def check_step_def bad_at_def [of H r n] split: option.splits list.splits)
qed

lemma verify_corrupt:
  "vr_corrupt (verify H r) = filter (\<lambda>i. bad_at H r i \<noteq> None) [0..<rd_count r]"
  by (simp add: verify_def check_def check_fold Let_def)

lemma verify_first_bad:
  "vr_first_bad (verify H r) =
     (case vr_corrupt (verify H r) of [] \<Rightarrow> None | i # _ \<Rightarrow> Some (i, the (bad_at H r i)))"
  by (simp add: verify_def check_def check_fold Let_def)

lemma check_checkpoints_corrupt [simp]: "vr_corrupt (check_checkpoints r cps rep) = vr_corrupt rep"
  by (induction r cps rep rule: check_checkpoints.induct) (simp_all add: Let_def split: option.splits)

lemma verify_against_corrupt: "vr_corrupt (verify_against H r att) = vr_corrupt (verify H r)"
  by (simp add: verify_against_def verify_def check_def check_fold Let_def check_attestation_def
      split: option.splits)

lemma check_checkpoints_keeps:
  "vr_bad_checkpoint rep = Some i \<Longrightarrow> vr_bad_checkpoint (check_checkpoints r cps rep) \<noteq> None"
  "vr_problem rep = Some p \<Longrightarrow> vr_problem (check_checkpoints r cps rep) = Some p"
  by (induction r cps rep rule: check_checkpoints.induct) (auto simp: Let_def split: option.splits)

lemma check_checkpoints_bad:
  "vr_bad_checkpoint (check_checkpoints r cps rep) = None \<Longrightarrow> vr_bad_checkpoint rep = None"
  using check_checkpoints_keeps(1) by (cases "vr_bad_checkpoint rep") fastforce+

lemma check_checkpoints_ok:
  "vr_bad_checkpoint (check_checkpoints r cps rep) = None \<Longrightarrow>
   vr_problem (check_checkpoints r cps rep) = None \<Longrightarrow>
   \<forall>(i, c) \<in> set cps. \<exists>ch. reader_chain r i = Some ch \<and> eq_ignore_ascii_case (hex ch) c"
  by (induction r cps rep rule: check_checkpoints.induct)
     (auto simp: Let_def split: option.splits if_splits)

subsection \<open>Hexadecimal comparison is equality\<close>

lemma hex_digit_lower: "d < 16 \<Longrightarrow> to_ascii_lowercase (hex_digit d) = hex_digit d"
  by (simp add: to_ascii_lowercase_def is_ascii_upper_def hex_digit_def)

lemma hex_lower: "map to_ascii_lowercase (hex bs) = hex bs"
  by (induction bs) (simp_all add: hex_def hex_digit_lower less_mult_imp_div_less)

lemma hex_eq_ignore_case: "eq_ignore_ascii_case (hex a) (hex b) \<longleftrightarrow> a = b"
  by (auto simp: eq_ignore_ascii_case_def hex_lower dest: hex_inject)

subsection \<open>A store's own files verify\<close>

definition reader_repr :: "(bytes \<Rightarrow> bytes) \<Rightarrow> raw_reader \<Rightarrow> event list \<Rightarrow> bool" where
  "reader_repr H r es \<longleftrightarrow>
     hash_ok H \<and> log_ok es \<and> length (rd_store_id r) = 16 \<and>
     (\<exists>rest. rd_seg r = seg_stream H es @ rest) \<and>
     (\<exists>rest. rd_idx r = idx_stream H (rd_store_id r) es @ rest) \<and>
     rd_count r = length es \<and> rd_genesis r = genesis_of H (rd_store_id r)"

lemma get_range_read:
  "read_exact_at data a n = Inr ys \<Longrightarrow> 0 < n \<Longrightarrow> get_range a (a + n) data = Some ys"
  by (auto simp: read_exact_at_def get_range_def split: if_splits)

lemma reader_offset_repr:
  assumes "reader_repr H r es" "i < length es"
  shows "reader_offset r i = Some (rec_off es i)"
proof -
  from assms obtain rest where h: "hash_ok H" and lok: "log_ok es" and sid: "length (rd_store_id r) = 16"
    and idx: "rd_idx r = idx_stream H (rd_store_id r) es @ rest" and n: "rd_count r = length es"
    by (auto simp: reader_repr_def)
  from get_range_read [OF idx_read_entry(1) [OF h assms(2) idx sid]] log_bounds(1) [OF lok assms(2)] n assms(2)
  show ?thesis by (simp add: reader_offset_def Let_def le_val_8)
qed

lemma reader_chain_repr:
  assumes "reader_repr H r es"
  shows "reader_chain r i = (if i < length es then Some (chain_of H (rd_genesis r) (take (Suc i) es)) else None)"
proof (cases "i < length es")
  case False
  with assms show ?thesis by (simp add: reader_chain_def reader_repr_def)
next
  case True
  from assms obtain rest where h: "hash_ok H" and sid: "length (rd_store_id r) = 16"
    and idx: "rd_idx r = idx_stream H (rd_store_id r) es @ rest" and n: "rd_count r = length es"
    and g: "rd_genesis r = genesis_of H (rd_store_id r)"
    by (auto simp: reader_repr_def)
  from get_range_read [OF idx_read_entry(2) [OF h True idx sid]] True n g
  show ?thesis by (simp add: reader_chain_def Let_def)
qed

lemma reader_get_repr:
  assumes r: "reader_repr H r es"
  shows "reader_get r i = (if i < length es then Some (record_of H i (es ! i)) else None)"
proof (cases "i < length es")
  case False
  with r show ?thesis by (simp add: reader_get_def reader_offset_def reader_repr_def)
next
  case True
  from r obtain rest where h: "hash_ok H" and lok: "log_ok es" and seg: "rd_seg r = seg_stream H es @ rest"
    by (auto simp: reader_repr_def)
  let ?o = "rec_off es i" and ?b = "ev_bytes (es ! i)"
  have hdr: "get_range ?o (?o + header_len) (rd_seg r) = Some (log_header H es i)"
    using get_range_read [OF seg_read_header(1) [OF h True seg]] by (simp add: log_header_def header_len_def)
  have le: "?o + header_len + length ?b \<le> rec_off es (length es)"
    using rec_off_less [OF True] rec_off_mono [of "Suc i" "length es" es] True by simp
  have "length (rd_seg r) \<ge> rec_off es (length es)" using seg h by (simp add: rec_off_length)
  with le have fits: "?o + header_len + length ?b \<le> length (rd_seg r)" by simp
  have body: "get_range (?o + header_len) (?o + header_len + length ?b) (rd_seg r) = Some ?b"
    using seg_read_header(2) [OF h True seg] fits
    by (auto simp: get_range_def read_exact_at_def slice_def split: if_splits)
  have big: "?o + header_len + length ?b < 2 ^ 64" using le lok by (simp add: log_ok_def)
  show ?thesis
    using reader_offset_repr [OF r True] True hdr body big rec_off_ge8 [of es i] log_header_fields [OF h lok True]
    by (simp add: reader_get_def checked_add_def record_of_def)
qed

lemma prev_chain_repr:
  "reader_repr H r es \<Longrightarrow> n \<le> length es \<Longrightarrow> prev_chain r n = chain_of H (rd_genesis r) (take n es)"
  by (induction n) (simp_all add: reader_chain_repr)

lemma bad_at_repr: "reader_repr H r es \<Longrightarrow> i < length es \<Longrightarrow> bad_at H r i = None"
  using reader_chain_repr [of H r es i] prev_chain_repr [of H r es i]
  by (simp add: bad_at_def check_reason_def reader_get_repr record_of_def chain_of_Suc)

lemma verify_repr: "reader_repr H r es \<Longrightarrow> vr_corrupt (verify H r) = []"
proof -
  assume r: "reader_repr H r es"
  then have "rd_count r = length es" by (simp add: reader_repr_def)
  then show ?thesis using bad_at_repr [OF r] by (auto simp: verify_corrupt filter_empty_conv)
qed

lemma trim_count_repr:
  assumes "hash_ok H" "log_ok es" "length sid = 16"
    and idx: "rd_idx r = idx_stream H sid es @ zeros l"
  shows "length es \<le> n \<Longrightarrow> n \<le> (length (rd_idx r) - idx_header_len) div idx_entry_len \<Longrightarrow>
    trim_count r n = length es"
proof (induction n)
  case 0
  then show ?case by simp
next
  case (Suc n)
  have I: "length (idx_stream H sid es) = idx_header_len + length es * idx_entry_len"
    using assms by (simp add: idx_stream_length)
  let ?p = "idx_header_len + n * idx_entry_len"
  have "Suc n * idx_entry_len \<le> length (rd_idx r) - idx_header_len"
    using Suc.prems(2) by (simp add: less_eq_div_iff_mult_less_eq idx_entry_len_def)
  then have fit: "?p + 8 \<le> length (rd_idx r)" by (simp add: idx_entry_len_def)
  show ?case
  proof (cases "n < length es")
    case True
    with Suc.prems(1) have n: "Suc n = length es" by simp
    have "get_range ?p (?p + 8) (rd_idx r) = Some (le_bytes 8 (rec_off es n))"
      using get_range_read [OF idx_read_entry(1) [OF assms(1) True idx assms(3)]] by simp
    then have "reader_offset (r\<lparr>rd_count := Suc n\<rparr>) n = Some (rec_off es n)"
      using log_bounds(1) [OF assms(2) True] by (simp add: reader_offset_def Let_def le_val_8)
    then have "trim_count r (Suc n) = Suc n"
      using rec_off_ge8 [of es n] by (simp add: not_less)
    with n show ?thesis by simp
  next
    case False
    have "length es * idx_entry_len \<le> n * idx_entry_len" using False by simp
    then have "get_range ?p (?p + 8) (rd_idx r) = Some (zeros 8)"
      using fit I idx by (simp add: get_range_def slice_def)
    then have "reader_offset (r\<lparr>rd_count := Suc n\<rparr>) n = Some 0"
      by (simp add: reader_offset_def Let_def)
    with Suc False show ?thesis by simp
  qed
qed

lemma reader_open_repr:
  assumes "hash_ok H" "log_ok es" "length sid = 16"
  shows "\<exists>r. reader_open H (seg_stream H es @ zeros k) (idx_stream H sid es @ zeros l) = Inr r
    \<and> reader_repr H r es \<and> rd_store_id r = sid"
proof -
  let ?seg = "seg_stream H es @ zeros k" and ?idx = "idx_stream H sid es @ zeros l"
  let ?n = "(length ?idx - idx_header_len) div idx_entry_len"
  let ?r = "\<lparr>rd_seg = ?seg, rd_idx = ?idx, rd_count = ?n, rd_store_id = sid, rd_genesis = genesis_of H sid\<rparr>"
  have n: "length es \<le> ?n"
    using idx_stream_length [OF assms(1,3), of es] by (simp add: less_eq_div_iff_mult_less_eq idx_entry_len_def)
  have "trim_count ?r ?n = length es"
    using trim_count_repr [OF assms, of ?r l ?n] n by simp
  moreover have "slice 8 24 ?idx = sid" using assms(3) by (simp add: idx_stream_def slice_def)
  ultimately have "reader_open H ?seg ?idx = Inr (?r\<lparr>rd_count := length es\<rparr>)"
    using assms idx_stream_length [OF assms(1,3), of es]
    by (simp add: reader_open_def Let_def) (simp add: seg_stream_def idx_stream_def)
  moreover have "reader_repr H (?r\<lparr>rd_count := length es\<rparr>) es"
    using assms by (auto simp: reader_repr_def)
  ultimately show ?thesis by auto
qed

subsection \<open>Attestations\<close>

lemma attest_loop_entries:
  "(i, c) \<in> set (attest_loop r k) \<Longrightarrow> i < rd_count r \<and> (i, c) = checkpoint_at r i"
proof (induction r k rule: attest_loop.induct)
  case (1 r k)
  from "1.prems" show ?case
    by (subst (asm) attest_loop.simps) (auto split: if_splits simp: checkpoint_at_def dest: "1.IH")
qed

lemma attest_checkpoints:
  "(i, c) \<in> set (at_checkpoints (attest r)) \<Longrightarrow> i < rd_count r \<and> (i, c) = checkpoint_at r i"
  by (auto simp: attest_def Let_def checkpoint_at_def dest: attest_loop_entries split: if_splits)

lemma attest_checkpoints_nonempty: "0 < rd_count r \<Longrightarrow> at_checkpoints (attest r) \<noteq> []"
  by (auto simp: attest_def Let_def)

lemma check_checkpoints_pass:
  assumes "\<forall>(i, c) \<in> set cps. i < rd_count r \<and> (\<exists>ch. reader_chain r i = Some ch \<and> eq_ignore_ascii_case (hex ch) c)"
  shows "vr_bad_checkpoint (check_checkpoints r cps rep) = vr_bad_checkpoint rep \<and>
    vr_problem (check_checkpoints r cps rep) = vr_problem rep"
  using assms by (induction r cps rep rule: check_checkpoints.induct) (auto simp: Let_def)

lemma check_attestation_header:
  assumes "at_store_id att = hex (rd_store_id r)" "at_genesis att = hex (rd_genesis r)"
    and "at_records att \<le> rd_count r"
    and "0 < at_records att \<Longrightarrow> \<exists>c. reader_chain r (at_records att - 1) = Some c \<and> at_head att = hex c"
    and "0 < at_records att \<Longrightarrow> at_checkpoints att \<noteq> []"
  shows "check_attestation r att rep = check_checkpoints r (at_checkpoints att) rep"
proof (cases "at_records att = 0")
  case True
  with assms(1,2) show ?thesis by (simp add: check_attestation_def Let_def)
next
  case False
  with assms(4) obtain c where "reader_chain r (at_records att - 1) = Some c" "at_head att = hex c" by auto
  with False assms show ?thesis by (simp add: check_attestation_def Let_def not_less [symmetric])
qed

text \<open>
  An attestation taken of a store passes on any later store that starts with the same event
  bytes: the chain sees nothing else of an event.
\<close>

lemma chain_of_foldl: "chain_of H g es = foldl (\<lambda>h b. chain_step H h (H b)) g (map ev_bytes es)"
  by (induction es arbitrary: g) simp_all

lemma chain_of_bytes:
  "map ev_bytes es = map ev_bytes fs \<Longrightarrow> chain_of H g es = chain_of H g fs"
  unfolding chain_of_foldl by (rule arg_cong)

lemma verify_against_prefix:
  assumes r0: "reader_repr H r0 es" and r: "reader_repr H r fs"
    and sid: "rd_store_id r = rd_store_id r0"
    and len: "length es \<le> length fs" and same: "map ev_bytes (take (length es) fs) = map ev_bytes es"
  shows "report_ok (verify_against H r (attest r0))"
proof -
  from r0 r sid have n0: "rd_count r0 = length es" and n: "rd_count r = length fs"
    and g: "rd_genesis r = rd_genesis r0" by (simp_all add: reader_repr_def)
  have chain: "reader_chain r i = reader_chain r0 i" if "i < length es" for i
  proof -
    have "map ev_bytes (take (Suc i) fs) = take (Suc i) (map ev_bytes (take (length es) fs))"
      using that by (simp add: take_map min_absorb1)
    also have "\<dots> = map ev_bytes (take (Suc i) es)" unfolding same by (simp add: take_map)
    finally have "chain_of H (rd_genesis r) (take (Suc i) fs) = chain_of H (rd_genesis r) (take (Suc i) es)"
      by (rule chain_of_bytes)
    moreover have "i < length fs" using that len by simp
    ultimately show ?thesis
      using that by (simp only: g reader_chain_repr [OF r0] reader_chain_repr [OF r] if_True)
  qed
  have some: "\<exists>c. reader_chain r0 i = Some c" if "i < length es" for i
    using that reader_chain_repr [OF r0] by simp
  have cps: "\<forall>(i, c) \<in> set (at_checkpoints (attest r0)).
      i < rd_count r \<and> (\<exists>ch. reader_chain r i = Some ch \<and> eq_ignore_ascii_case (hex ch) c)"
    using attest_checkpoints [of _ _ r0] n0 n len chain some by (fastforce simp: checkpoint_at_def)
  have hd: "at_store_id (attest r0) = hex (rd_store_id r)" "at_genesis (attest r0) = hex (rd_genesis r)"
    "at_records (attest r0) = length es"
    using sid g n0 by (simp_all add: attest_def Let_def)
  have head: "reader_chain r (length es - 1) = Some c \<and> at_head (attest r0) = hex c"
    if "0 < length es" "reader_head r0 = Some c" for c
    using that n0 chain [of "length es - 1"] by (simp add: reader_head_def attest_def Let_def split: if_splits)
  have "\<exists>c. reader_head r0 = Some c" if "0 < length es"
    using that n0 some [of "length es - 1"] by (auto simp: reader_head_def)
  with head have head': "0 < length es \<Longrightarrow> \<exists>c. reader_chain r (length es - 1) = Some c \<and> at_head (attest r0) = hex c"
    by blast
  have ne: "0 < length es \<Longrightarrow> at_checkpoints (attest r0) \<noteq> []"
    using attest_checkpoints_nonempty n0 by simp
  have c: "vr_corrupt (verify_against H r (attest r0)) = []"
    using verify_repr [OF r] by (simp add: verify_against_corrupt)
  obtain rep where rep: "verify_against H r (attest r0) = check_attestation r (attest r0) rep"
    "vr_bad_checkpoint rep = None" "vr_problem rep = None"
    by (simp add: verify_against_def check_def check_fold Let_def)
  have "check_attestation r (attest r0) rep = check_checkpoints r (at_checkpoints (attest r0)) rep"
    using hd len n head' ne by (intro check_attestation_header) simp_all
  with check_checkpoints_pass [OF cps, of rep] rep c show ?thesis by (simp add: report_ok_def)
qed

subsection \<open>Tamper evidence\<close>

text \<open>The strings a verification of a reader hashes: every body, every chain input.\<close>

definition hash_inputs :: "raw_reader \<Rightarrow> bytes list" where
  "hash_inputs r = concat (map (\<lambda>i. case reader_get r i of
      None \<Rightarrow> []
    | Some rec \<Rightarrow> [or_bytes rec, prev_chain r i @ or_sha256 rec]) [0..<rd_count r])"

definition collision :: "(bytes \<Rightarrow> bytes) \<Rightarrow> raw_reader \<Rightarrow> raw_reader \<Rightarrow> bool" where
  "collision H r s \<longleftrightarrow> (\<exists>x \<in> set (hash_inputs r). \<exists>y \<in> set (hash_inputs s). x \<noteq> y \<and> H x = H y)"

lemma reader_get_id: "reader_get r i = Some rec \<Longrightarrow> or_id rec = i"
  by (auto simp: reader_get_def split: option.splits if_splits)

lemma verified_record:
  assumes "vr_corrupt (verify H r) = []" "i < rd_count r"
  shows "\<exists>rec. reader_get r i = Some rec \<and> or_sha256 rec = H (or_bytes rec) \<and>
    reader_chain r i = Some (H (prev_chain r i @ or_sha256 rec)) \<and>
    or_bytes rec \<in> set (hash_inputs r) \<and> prev_chain r i @ or_sha256 rec \<in> set (hash_inputs r)"
proof -
  from assms have "check_reason H r i (prev_chain r i) = None"
    by (auto simp: verify_corrupt filter_empty_conv bad_at_def)
  then obtain rec where rec: "reader_get r i = Some rec" "or_sha256 rec = H (or_bytes rec)"
    "reader_chain r i = Some (H (prev_chain r i @ or_sha256 rec))"
    by (auto simp: check_reason_def chain_step_def split: option.splits if_splits)
  have "set (case reader_get r i of None \<Rightarrow> [] | Some rec \<Rightarrow> [or_bytes rec, prev_chain r i @ or_sha256 rec])
      \<subseteq> set (hash_inputs r)"
    using assms(2) by (auto simp: hash_inputs_def)
  with rec show ?thesis by auto
qed

lemma no_collisionD:
  "\<not> collision H r s \<Longrightarrow> x \<in> set (hash_inputs r) \<Longrightarrow> y \<in> set (hash_inputs s) \<Longrightarrow> H x = H y \<Longrightarrow> x = y"
  unfolding collision_def by blast

text \<open>Equal chain values at a record make the record's bytes and the value before it equal.\<close>

lemma agree_at:
  assumes h: "hash_ok H" and v: "vr_corrupt (verify H r) = []" and v': "vr_corrupt (verify H s) = []"
    and nc: "\<not> collision H r s"
    and i: "i < rd_count r" "i < rd_count s" and eq: "reader_chain r i = reader_chain s i"
  shows "\<exists>a b. reader_get r i = Some a \<and> reader_get s i = Some b \<and> or_bytes a = or_bytes b \<and>
    prev_chain r i = prev_chain s i"
proof -
  obtain a where a: "reader_get r i = Some a" "or_sha256 a = H (or_bytes a)"
    "reader_chain r i = Some (H (prev_chain r i @ or_sha256 a))"
    "or_bytes a \<in> set (hash_inputs r)" "prev_chain r i @ or_sha256 a \<in> set (hash_inputs r)"
    using verified_record [OF v i(1)] by blast
  obtain b where b: "reader_get s i = Some b" "or_sha256 b = H (or_bytes b)"
    "reader_chain s i = Some (H (prev_chain s i @ or_sha256 b))"
    "or_bytes b \<in> set (hash_inputs s)" "prev_chain s i @ or_sha256 b \<in> set (hash_inputs s)"
    using verified_record [OF v' i(2)] by blast
  have "H (prev_chain r i @ or_sha256 a) = H (prev_chain s i @ or_sha256 b)"
    using eq a(3) b(3) by simp
  then have "prev_chain r i @ or_sha256 a = prev_chain s i @ or_sha256 b"
    by (rule no_collisionD [OF nc a(5) b(5)])
  moreover have "length (or_sha256 a) = length (or_sha256 b)" using a(2) b(2) h by simp
  ultimately have d: "prev_chain r i = prev_chain s i" "or_sha256 a = or_sha256 b" by simp_all
  have "H (or_bytes a) = H (or_bytes b)" using d a(2) b(2) by simp
  then have "or_bytes a = or_bytes b" by (rule no_collisionD [OF nc a(4) b(4)])
  with a(1) b(1) d(1) show ?thesis by blast
qed

lemma agree_below:
  assumes h: "hash_ok H" and v: "vr_corrupt (verify H r) = []" and v': "vr_corrupt (verify H s) = []"
    and nc: "\<not> collision H r s"
  shows "i < rd_count r \<Longrightarrow> i < rd_count s \<Longrightarrow> reader_chain r i = reader_chain s i \<Longrightarrow> j \<le> i \<Longrightarrow>
    \<exists>a b. reader_get r j = Some a \<and> reader_get s j = Some b \<and> or_bytes a = or_bytes b"
proof (induction i)
  case 0
  with agree_at [OF h v v' nc, of 0] show ?case by auto
next
  case (Suc i)
  note at = agree_at [OF h v v' nc Suc.prems(1-3)]
  show ?case
  proof (cases "j = Suc i")
    case True
    with at show ?thesis by auto
  next
    case False
    have i: "i < rd_count r" "i < rd_count s" "j \<le> i" using Suc.prems False by auto
    obtain c d where "reader_chain r i = Some c" "reader_chain s i = Some d"
      using verified_record [OF v i(1)] verified_record [OF v' i(2)] by blast
    with at have "reader_chain r i = reader_chain s i" by auto
    from Suc.IH [OF i(1,2) this i(3)] show ?thesis .
  qed
qed

text \<open>
  C10. Tamper evidence: take an attestation of a store that verifies, and let any files at all
  be presented later as that store, however they were rewritten. If they verify against the
  attestation, then every attested record is still there under its id, with exactly its bytes and with their digest,
  unless the two sets of files themselves exhibit a collision of the hash function. The receipt time and the source of
  a record are in no digest and so are not bound: \<open>attestation_blind_to_header\<close>.
\<close>

theorem attestation_binds_bytes:
  assumes "hash_ok H" and "vr_corrupt (verify H r0) = []"
    and "report_ok (verify_against H r (attest r0))" and "\<not> collision H r0 r" and "i < rd_count r0"
  shows "\<exists>rec0 rec. reader_get r0 i = Some rec0 \<and> reader_get r i = Some rec \<and> or_id rec0 = i \<and> or_id rec = i \<and>
    or_bytes rec = or_bytes rec0 \<and> or_sha256 rec0 = H (or_bytes rec0) \<and> or_sha256 rec = or_sha256 rec0"
proof -
  let ?rep = "verify_against H r (attest r0)"
  have v: "vr_corrupt (verify H r) = []"
    using assms(3) unfolding report_ok_def verify_against_corrupt by blast
  from assms(3) have ok: "vr_bad_checkpoint ?rep = None" "vr_problem ?rep = None"
    by (simp_all add: report_ok_def)
  have le: "rd_count r0 \<le> rd_count r"
  proof (rule ccontr)
    assume "\<not> rd_count r0 \<le> rd_count r"
    then have "\<exists>p. vr_problem ?rep = Some p"
      by (auto simp: verify_against_def check_def check_fold Let_def check_attestation_def attest_def
          check_checkpoints_keeps(2))
    with ok show False by simp
  qed
  have n: "0 < rd_count r0" using assms(5) by simp
  obtain c0 where c0: "reader_chain r0 (rd_count r0 - 1) = Some c0"
    using verified_record [OF assms(2), of "rd_count r0 - 1"] n by auto
  then have hd0: "at_head (attest r0) = hex c0" "at_records (attest r0) = rd_count r0"
    using n by (simp_all add: attest_def Let_def reader_head_def)
  obtain c where c: "reader_chain r (rd_count r0 - 1) = Some c"
  proof -
    have "rd_count r0 - 1 < rd_count r" using n le by linarith
    from verified_record [OF v this] that show ?thesis by blast
  qed
  have "eq_ignore_ascii_case (hex c) (hex c0)"
  proof (rule ccontr)
    assume "\<not> eq_ignore_ascii_case (hex c) (hex c0)"
    then have "vr_problem ?rep \<noteq> None \<or> vr_bad_checkpoint ?rep \<noteq> None"
      using n le c hd0 by (auto simp: verify_against_def check_def check_fold Let_def check_attestation_def
          dest!: check_checkpoints_bad)
    with ok show False by simp
  qed
  then have "reader_chain r0 (rd_count r0 - 1) = reader_chain r (rd_count r0 - 1)"
    using c c0 by (simp add: hex_eq_ignore_case)
  moreover have "rd_count r0 - 1 < rd_count r0" "rd_count r0 - 1 < rd_count r" "i \<le> rd_count r0 - 1"
    using n le assms(5) by linarith+
  ultimately obtain rec0 rec where g: "reader_get r0 i = Some rec0" "reader_get r i = Some rec" "or_bytes rec0 = or_bytes rec"
    using agree_below [OF assms(1,2) v assms(4), of "rd_count r0 - 1" i] by metis
  moreover have "or_sha256 rec0 = H (or_bytes rec0)" using verified_record [OF assms(2,5)] g(1) by auto
  moreover have "or_sha256 rec = H (or_bytes rec)" using verified_record [OF v, of i] assms(5) le g(2) by auto
  ultimately show ?thesis using reader_get_id by metis
qed

definition sample_reader :: "event list \<Rightarrow> raw_reader" where
  "sample_reader es = \<lparr>rd_seg = seg_stream tail_hash es, rd_idx = idx_stream tail_hash sample_id es,
     rd_count = length es, rd_store_id = sample_id, rd_genesis = genesis_of tail_hash sample_id\<rparr>"

lemma sample_reader_simps:
  "rd_count (sample_reader es) = length es" "rd_store_id (sample_reader es) = sample_id"
  "rd_genesis (sample_reader es) = genesis_of tail_hash sample_id"
  by (simp_all add: sample_reader_def)

lemma sample_reader_repr: "log_ok es \<Longrightarrow> reader_repr tail_hash (sample_reader es) es"
  by (simp add: reader_repr_def sample_reader_def tail_hash_ok) (simp add: sample_id_def)

text \<open>
  The writer's files verify: for a store that holds the events \<open>es\<close>, the reader opened on
  its flushed files (with whatever zeros recovery left behind them) finds every record and
  reports no corruption.
\<close>

theorem written_store_verifies:
  assumes "store_repr H st es"
  shows "\<exists>r. reader_open H (seg_data (store_flush st)) (idx_data (store_flush st)) = Inr r \<and>
    report_ok (verify H r) \<and> rd_count r = length es \<and>
    (\<forall>i. reader_get r i = (if i < length es then Some (record_of H i (es ! i)) else None))"
proof -
  obtain k l where d: "seg_data (store_flush st) = seg_stream H es @ zeros k"
    "idx_data (store_flush st) = idx_stream H (rs_store_id st) es @ zeros l"
    using store_flush_data [OF assms] by blast
  from assms have "hash_ok H" "log_ok es" "length (rs_store_id st) = 16" by (auto simp: store_repr_def)
  from reader_open_repr [OF this, of k l] d obtain r where
    r: "reader_open H (seg_data (store_flush st)) (idx_data (store_flush st)) = Inr r" "reader_repr H r es" by auto
  have "rd_count r = length es" using r(2) by (simp add: reader_repr_def)
  moreover have "report_ok (verify H r)"
    using verify_repr [OF r(2)] by (simp add: report_ok_def verify_def check_def Let_def split: prod.splits)
  ultimately show ?thesis using r reader_get_repr [OF r(2)] by auto
qed

theorem written_store_verifies_witness:
  "\<exists>r. reader_open tail_hash (seg_data (store_flush fresh_store)) (idx_data (store_flush fresh_store)) = Inr r \<and>
     report_ok (verify tail_hash r) \<and> rd_count r = 0"
  using written_store_verifies [OF fresh_store_repr] by auto

text \<open>
  An attestation keeps verifying as its store grows: taken when the store held \<open>es\<close>, it
  passes on the same store holding \<open>es @ fs\<close>.
\<close>

theorem attestation_survives_appends:
  assumes "reader_repr H r0 es" and "reader_repr H r (es @ fs)" and "rd_store_id r = rd_store_id r0"
  shows "report_ok (verify_against H r (attest r0))"
  using assms by (rule verify_against_prefix) simp_all

theorem attestation_survives_appends_witness:
  "report_ok (verify_against tail_hash (sample_reader [sample_event 1 ''first'', sample_event 2 ''second''])
     (attest (sample_reader [sample_event 1 ''first''])))"
proof -
  have "log_ok [sample_event 1 ''first'']" using log_ok_take [OF sample_log_ok, of 1] by simp
  from attestation_survives_appends [OF sample_reader_repr [OF this] _ , of "sample_reader [sample_event 1 ''first'', sample_event 2 ''second'']" "[sample_event 2 ''second'']"]
    sample_reader_repr [OF sample_log_ok]
  show ?thesis by (simp add: sample_reader_def)
qed

text \<open>
  What the chain does not cover: rewriting the receipt time or the source of any record,
  in a store of any size, leaves every attestation taken before passing, since the digests and
  the chain see the event bytes only.
\<close>

theorem attestation_blind_to_header:
  assumes "reader_repr H r0 es" and "reader_repr H r fs" and "rd_store_id r = rd_store_id r0"
    and "map ev_bytes fs = map ev_bytes es"
  shows "report_ok (verify_against H r (attest r0))"
proof (rule verify_against_prefix [OF assms(1-3)])
  have "length fs = length es" using assms(4) by (rule map_eq_imp_length_eq)
  then show "length es \<le> length fs" "map ev_bytes (take (length es) fs) = map ev_bytes es"
    using assms(4) by simp_all
qed

theorem attestation_blind_to_header_witness:
  "report_ok (verify_against tail_hash (sample_reader [sample_event 7 ''first''])
     (attest (sample_reader [sample_event 1 ''first'']))) \<and>
   map_option or_source (reader_get (sample_reader [sample_event 7 ''first'']) 0) = Some 7 \<and>
   map_option or_source (reader_get (sample_reader [sample_event 1 ''first'']) 0) = Some 1"
proof -
  have ok: "log_ok [sample_event s ''first'']" if "s < 2 ^ 32" for s
    using that by (simp add: log_ok_def event_ok_def sample_event_def i64_ok_def rec_off_def header_len_def)
  have r1: "reader_repr tail_hash (sample_reader [sample_event 1 ''first'']) [sample_event 1 ''first'']"
    and r7: "reader_repr tail_hash (sample_reader [sample_event 7 ''first'']) [sample_event 7 ''first'']"
    by (rule sample_reader_repr, rule ok, simp)+
  from attestation_blind_to_header [OF r1 r7] reader_get_repr [OF r1, of 0] reader_get_repr [OF r7, of 0]
  show ?thesis by (simp add: sample_reader_def sample_event_def record_of_def)
qed

text \<open>
  \<open>verify\<close> reports exactly the damaged records: the corrupt list is, in order, every id whose
  record is unreadable, does not hash to its digest, or whose chain value does not follow from
  what the record before it stores, and \<open>first_bad\<close> is the lowest of them with its reason.
\<close>

theorem verify_reports_exactly:
  "vr_corrupt (verify H r) = filter (\<lambda>i. check_reason H r i (prev_chain r i) \<noteq> None) [0..<rd_count r] \<and>
   vr_first_bad (verify H r) =
     (case filter (\<lambda>i. check_reason H r i (prev_chain r i) \<noteq> None) [0..<rd_count r] of
        [] \<Rightarrow> None | i # _ \<Rightarrow> Some (i, the (check_reason H r i (prev_chain r i))))"
  unfolding verify_first_bad verify_corrupt bad_at_def by simp

lemma sample_no_collision:
  "\<not> collision tail_hash (sample_reader [sample_event 1 ''first''])
     (sample_reader [sample_event 1 ''first'', sample_event 2 ''second''])"
proof -
  let ?e1 = "sample_event 1 ''first''" and ?e2 = "sample_event 2 ''second''"
  let ?g = "genesis_of tail_hash sample_id"
  have ok: "log_ok [?e1]" using log_ok_take [OF sample_log_ok, of 1] by simp
  note g1 = reader_get_repr [OF sample_reader_repr [OF ok]] and g2 = reader_get_repr [OF sample_reader_repr [OF sample_log_ok]]
  note p1 = prev_chain_repr [OF sample_reader_repr [OF ok]] and p2 = prev_chain_repr [OF sample_reader_repr [OF sample_log_ok]]
  have i1: "hash_inputs (sample_reader [?e1]) = [''first'', ?g @ tail_hash ''first'']"
    using p1 [of 0] by (simp add: hash_inputs_def g1 sample_reader_simps record_of_def sample_event_bytes del: prev_chain.simps One_nat_def)
  have i2: "hash_inputs (sample_reader [?e1, ?e2]) = [''first'', ?g @ tail_hash ''first'', ''second'',
      tail_hash (?g @ tail_hash ''first'') @ tail_hash ''second'']"
    using p2 [of 0] p2 [of "Suc 0"]
    by (simp add: hash_inputs_def g2 sample_reader_simps record_of_def sample_event_bytes chain_step_def
        del: prev_chain.simps One_nat_def)
  show ?thesis unfolding collision_def i1 i2 by code_simp
qed

theorem attestation_binds_bytes_witness:
  "\<exists>rec0 rec. reader_get (sample_reader [sample_event 1 ''first'']) 0 = Some rec0 \<and>
     reader_get (sample_reader [sample_event 1 ''first'', sample_event 2 ''second'']) 0 = Some rec \<and>
     or_id rec = 0 \<and> or_bytes rec = or_bytes rec0 \<and> or_sha256 rec = or_sha256 rec0"
proof -
  have ok: "log_ok [sample_event 1 ''first'']" using log_ok_take [OF sample_log_ok, of 1] by simp
  let ?old = "sample_reader [sample_event 1 ''first'']"
  let ?new = "sample_reader [sample_event 1 ''first'', sample_event 2 ''second'']"
  have "report_ok (verify_against tail_hash ?new (attest ?old))"
    by (rule verify_against_prefix [OF sample_reader_repr [OF ok] sample_reader_repr [OF sample_log_ok]])
       (simp_all add: sample_reader_def)
  note bound = attestation_binds_bytes [OF tail_hash_ok verify_repr [OF sample_reader_repr [OF ok]] this sample_no_collision]
  have "0 < rd_count ?old" by (simp add: sample_reader_def)
  from bound [OF this] show ?thesis by blast
qed

end
