(* ===== verification/Ulpf_Time.thy ===== *)
theory Ulpf_Time
  imports Ulpf_Prelude
begin

text \<open>
  The calendar of \<open>src/crates/ulpf-time/src/lib.rs\<close>: \<open>days_from_civil\<close>, \<open>civil_from_days\<close>,
  \<open>is_leap\<close>, \<open>days_in_month\<close>, \<open>civil_from_epoch\<close>, \<open>epoch_from_civil\<close> and \<open>format_rfc3339\<close>.
  Every integer is an \<open>int\<close>; the additions and products that the code checks against \<open>i64\<close>
  are checked here (\<open>checked_i64\<close>), and the others stay far inside it for the years the code
  meets. \<open>div_euclid\<close> by a positive constant is \<open>div\<close>; the truncating divisions are of
  non-negative numbers, where \<open>div\<close> agrees. The main result is that the two day conversions
  are inverse bijections between the integers and the valid dates.
\<close>

definition nanos_per_sec :: int where "nanos_per_sec = 1000000000"
definition day_secs :: int where "day_secs = 86400"

lemmas time_consts = nanos_per_sec_def day_secs_def

record civil =
  cv_year :: int
  cv_month :: int
  cv_day :: int
  cv_hour :: int
  cv_minute :: int
  cv_second :: int
  cv_nanos :: int

definition days_from_civil :: "int \<Rightarrow> int \<Rightarrow> int \<Rightarrow> int" where
  "days_from_civil y0 m d =
     (let y = y0 - (if m \<le> 2 then 1 else 0);
          era = y div 400;
          yoe = y - era * 400;
          mp = (m + 9) mod 12;
          doy = (153 * mp + 2) div 5 + d - 1;
          doe = yoe * 365 + yoe div 4 - yoe div 100 + doy
      in era * 146097 + doe - 719468)"

definition civil_from_days :: "int \<Rightarrow> int \<times> int \<times> int" where
  "civil_from_days z0 =
     (let z = z0 + 719468;
          era = z div 146097;
          doe = z - era * 146097;
          yoe = (doe - doe div 1460 + doe div 36524 - doe div 146096) div 365;
          doy = doe - (365 * yoe + yoe div 4 - yoe div 100);
          mp = (5 * doy + 2) div 153;
          d = doy - (153 * mp + 2) div 5 + 1;
          m = (if mp < 10 then mp + 3 else mp - 9);
          y = yoe + era * 400 + (if m \<le> 2 then 1 else 0)
      in (y, m, d))"

definition is_leap :: "int \<Rightarrow> bool" where
  "is_leap y \<longleftrightarrow> y mod 4 = 0 \<and> (y mod 100 \<noteq> 0 \<or> y mod 400 = 0)"

definition days_in_month :: "int \<Rightarrow> int \<Rightarrow> int" where
  "days_in_month y m =
     (if m \<in> {1, 3, 5, 7, 8, 10, 12} then 31
      else if m \<in> {4, 6, 9, 11} then 30
      else if m = 2 then 28 + (if is_leap y then 1 else 0)
      else 0)"

definition civil_from_epoch :: "int \<Rightarrow> civil" where
  "civil_from_epoch nanos =
     (let secs = nanos div nanos_per_sec;
          sub = nanos mod nanos_per_sec;
          sod = secs mod day_secs;
          (y, m, d) = civil_from_days (secs div day_secs)
      in \<lparr>cv_year = y, cv_month = m, cv_day = d, cv_hour = sod div 3600,
          cv_minute = sod mod 3600 div 60, cv_second = sod mod 60, cv_nanos = sub\<rparr>)"

definition civil_valid :: "civil \<Rightarrow> bool" where
  "civil_valid c \<longleftrightarrow>
     1970 \<le> cv_year c \<and> cv_year c \<le> 9999 \<and> 1 \<le> cv_month c \<and> cv_month c \<le> 12 \<and>
     1 \<le> cv_day c \<and> cv_day c \<le> days_in_month (cv_year c) (cv_month c) \<and>
     cv_hour c < 24 \<and> cv_minute c < 60 \<and> cv_second c \<le> 60 \<and> cv_nanos c < 1000000000"

definition civil_secs :: "civil \<Rightarrow> int \<Rightarrow> int" where
  "civil_secs c offset_secs =
     days_from_civil (cv_year c) (cv_month c) (cv_day c) * day_secs
       + cv_hour c * 3600 + cv_minute c * 60 + cv_second c - offset_secs"

definition epoch_from_civil :: "civil \<Rightarrow> int \<Rightarrow> int option" where
  "epoch_from_civil c offset_secs =
     (if \<not> civil_valid c then None
      else case checked_i64 (civil_secs c offset_secs * nanos_per_sec) of
             None \<Rightarrow> None
           | Some n \<Rightarrow> checked_i64 (n + cv_nanos c))"

definition epoch_millis :: "int \<Rightarrow> int" where
  "epoch_millis nanos = nanos div 1000000"

subsection \<open>Years and days of a 400-year era\<close>

text \<open>
  A year of an era is \<open>100 c + 4 q + r\<close>; its days start \<open>36524 c + 1461 q + 365 r\<close> days into the
  era, and it has a 366th day only as the fourth of a group of four that is not the last of a
  century, or the last of the era.
\<close>

definition era_day :: "int \<Rightarrow> int \<Rightarrow> int \<Rightarrow> int \<Rightarrow> bool" where
  "era_day c q r doy \<longleftrightarrow>
     0 \<le> c \<and> c \<le> 3 \<and> 0 \<le> q \<and> q \<le> 24 \<and> 0 \<le> r \<and> r \<le> 3 \<and> 0 \<le> doy \<and>
     (doy \<le> 364 \<or> doy = 365 \<and> r = 3 \<and> (q < 24 \<or> c = 3))"

lemma era_day_cases:
  assumes "0 \<le> doe" "doe \<le> 146096"
  shows "\<exists>c q r doy. era_day c q r doy \<and> doe = 36524 * c + 1461 * q + 365 * r + doy"
proof -
  define c where "c = (if doe = 146096 then 3 else doe div 36524)"
  define x where "x = doe - 36524 * c"
  have c: "0 \<le> c" "c \<le> 3" using assms by (auto simp: c_def)
  have x: "0 \<le> x" "x \<le> 36523 \<or> x = 36524 \<and> c = 3" using assms by (auto simp: x_def c_def)
  define q where "q = (if x = 36524 then 24 else x div 1461)"
  define w where "w = x - 1461 * q"
  have q: "0 \<le> q" "q \<le> 24" using x by (auto simp: q_def)
  have w: "0 \<le> w" "w \<le> 1460" using x by (auto simp: w_def q_def)
  have wq: "w = 1460 \<Longrightarrow> q < 24 \<or> c = 3" using x by (auto simp: w_def q_def)
  define r where "r = (if w = 1460 then 3 else w div 365)"
  have r: "0 \<le> r" "r \<le> 3" using w by (auto simp: r_def)
  have d: "0 \<le> w - 365 * r" "w - 365 * r \<le> 364 \<or> w - 365 * r = 365 \<and> w = 1460 \<and> r = 3"
    using w by (auto simp: r_def)
  have "era_day c q r (w - 365 * r)" using c q r d wq by (auto simp: era_day_def)
  moreover have "doe = 36524 * c + 1461 * q + 365 * r + (w - 365 * r)" by (simp add: w_def x_def)
  ultimately show ?thesis by blast
qed

lemma era_year:
  assumes "era_day c q r doy"
  defines "yoe \<equiv> 100 * c + 4 * q + r" and "doe \<equiv> 36524 * c + 1461 * q + 365 * r + doy"
  shows "0 \<le> yoe" "yoe \<le> 399" "0 \<le> doe" "doe \<le> 146096"
    "yoe * 365 + yoe div 4 - yoe div 100 = doe - doy"
    "(doe - doe div 1460 + doe div 36524 - doe div 146096) div 365 = yoe"
proof -
  from assms(1) have b: "0 \<le> c" "c \<le> 3" "0 \<le> q" "q \<le> 24" "0 \<le> r" "r \<le> 3" "0 \<le> doy" "doy \<le> 365"
    and last: "doy = 365 \<Longrightarrow> r = 3 \<and> (q < 24 \<or> c = 3)"
    by (auto simp: era_day_def)
  show "0 \<le> yoe" "yoe \<le> 399" "0 \<le> doe" using b by (auto simp: yoe_def doe_def)
  show le: "doe \<le> 146096" using b by (auto simp: doe_def)
  have y4: "yoe div 4 = 25 * c + q" using b by (intro int_div_pos_eq [of _ _ _ r]) (simp_all add: yoe_def)
  have y100: "yoe div 100 = c" using b by (intro int_div_pos_eq [of _ _ _ "4 * q + r"]) (simp_all add: yoe_def)
  show "yoe * 365 + yoe div 4 - yoe div 100 = doe - doy"
    unfolding y4 y100 by (simp add: yoe_def doe_def)
  define t where "t = 24 * c + q + 365 * r + doy"
  have t: "0 \<le> t" "t < 2920" using b by (auto simp: t_def)
  have "doe = 1460 * (25 * c + q) + t" by (simp add: doe_def t_def)
  then have d1: "doe div 1460 = 25 * c + q + (if 1460 \<le> t then 1 else 0)"
    using t by (intro int_div_pos_eq [of _ _ _ "if 1460 \<le> t then t - 1460 else t"]) auto
  have d2: "doe div 36524 - doe div 146096 = c"
  proof (cases "doe = 146096")
    case True
    then have "c = 3" using b last by (auto simp: doe_def)
    with True show ?thesis by simp
  next
    case False
    then have "doe div 146096 = 0" using le b by (simp add: doe_def)
    moreover have "doe < 36524 * (c + 1)"
    proof (cases "doy = 365")
      case True
      with last False b(4) have "q \<le> 23" by (auto simp: doe_def le_less)
      then show ?thesis unfolding doe_def distrib_left using b(6,8) by linarith
    next
      case False
      with b(8) have "doy \<le> 364" by simp
      then show ?thesis unfolding doe_def distrib_left using b(4,6) by linarith
    qed
    then have "doe div 36524 = c" using b by (auto simp: doe_def)
    ultimately show ?thesis by simp
  qed
  have "doe - doe div 1460 + doe div 36524 - doe div 146096 = 365 * yoe + (doy - (if 1460 \<le> t then 1 else 0))"
    using d2 unfolding d1 by (simp add: doe_def yoe_def)
  moreover have "0 \<le> doy - (if 1460 \<le> t then 1 else 0)"
    using b by (auto simp: t_def)
  moreover have "doy - (if 1460 \<le> t then 1 else 0) \<le> 364"
  proof (cases "doy = 365")
    case True
    then show ?thesis using last b by (simp add: t_def)
  next
    case False
    then show ?thesis using b by simp
  qed
  ultimately show "(doe - doe div 1460 + doe div 36524 - doe div 146096) div 365 = yoe" by auto
qed

subsection \<open>Months\<close>

text \<open>Months are counted from March; \<open>month_start mp\<close> is the day of the year month \<open>mp\<close> starts.\<close>

definition month_start :: "int \<Rightarrow> int" where
  "month_start mp = (153 * mp + 2) div 5"

lemma month_cases:
  assumes "0 \<le> mp" "mp \<le> (11::int)"
  shows "mp \<in> {0, 1, 2, 3, 4, 5, 6, 7, 8, 9, 10, 11}"
  using assms unfolding insert_iff empty_iff by presburger

lemma month_of_day:
  assumes "0 \<le> doy" "doy \<le> 365"
  defines "mp \<equiv> (5 * doy + 2) div 153"
  shows "0 \<le> mp" "mp \<le> 11" "month_start mp \<le> doy" "mp < 11 \<Longrightarrow> doy < month_start (mp + 1)"
proof -
  show mp: "0 \<le> mp" "mp \<le> 11" using assms by (auto simp: mp_def)
  have "153 * mp \<le> 5 * doy + 2" "5 * doy + 2 < 153 * mp + 153"
    unfolding mp_def by linarith+
  then show "month_start mp \<le> doy" "mp < 11 \<Longrightarrow> doy < month_start (mp + 1)"
    using month_cases [OF mp] by (elim insertE; simp add: month_start_def)+
qed

lemma month_of_date:
  assumes "0 \<le> mp" "mp \<le> 11" "1 \<le> d" "mp < 11 \<Longrightarrow> month_start mp + d - 1 < month_start (mp + 1)"
    "mp = 11 \<Longrightarrow> d \<le> 29"
  shows "(5 * (month_start mp + d - 1) + 2) div 153 = mp"
  using month_cases [OF assms(1,2)] assms(3-)
  by (elim insertE) (auto simp: month_start_def intro!: int_div_pos_eq)

text \<open>The length of month \<open>mp\<close> of the year that starts in March of \<open>y\<close>.\<close>

definition march_year :: "int \<Rightarrow> int \<Rightarrow> int" where
  "march_year y m = y - (if m \<le> 2 then 1 else 0)"

definition valid_date :: "int \<Rightarrow> int \<Rightarrow> int \<Rightarrow> bool" where
  "valid_date y m d \<longleftrightarrow> 1 \<le> m \<and> m \<le> 12 \<and> 1 \<le> d \<and> d \<le> days_in_month y m"

lemma valid_month_cases: "1 \<le> m \<Longrightarrow> m \<le> (12::int) \<Longrightarrow> m \<in> {1, 2, 3, 4, 5, 6, 7, 8, 9, 10, 11, 12}"
  unfolding insert_iff empty_iff by presburger

lemma valid_date_march:
  assumes "valid_date y m d"
  defines "mp \<equiv> (m + 9) mod 12"
  shows "0 \<le> mp" "mp \<le> 11" "m = (if mp < 10 then mp + 3 else mp - 9)"
    "mp < 11 \<Longrightarrow> month_start mp + d - 1 < month_start (mp + 1)"
    "mp = 11 \<Longrightarrow> d \<le> 28 + (if is_leap y then 1 else 0)" "mp = 11 \<longleftrightarrow> m = 2" "m \<le> 2 \<longleftrightarrow> 10 \<le> mp"
proof -
  from assms have m: "1 \<le> m" "m \<le> 12" and d: "d \<le> days_in_month y m" by (simp_all add: valid_date_def)
  show "0 \<le> mp" "mp \<le> 11" by (simp_all add: mp_def)
  show "m = (if mp < 10 then mp + 3 else mp - 9)" "mp = 11 \<longleftrightarrow> m = 2" "m \<le> 2 \<longleftrightarrow> 10 \<le> mp"
    using valid_month_cases [OF m] unfolding mp_def by (elim insertE; simp)+
  show "mp < 11 \<Longrightarrow> month_start mp + d - 1 < month_start (mp + 1)"
    using valid_month_cases [OF m] d unfolding mp_def
    by (elim insertE) (simp_all add: days_in_month_def month_start_def)
  show "mp = 11 \<Longrightarrow> d \<le> 28 + (if is_leap y then 1 else 0)"
    using valid_month_cases [OF m] d unfolding mp_def
    by (elim insertE) (simp_all add: days_in_month_def)
qed

text \<open>The year after a March year of an era is leap exactly when that year has a 366th day.\<close>

lemma leap_after:
  assumes "0 \<le> c" "c \<le> 3" "0 \<le> q" "q \<le> 24" "0 \<le> r" "r \<le> (3::int)"
  shows "is_leap (era * 400 + (100 * c + 4 * q + r) + 1) \<longleftrightarrow> r = 3 \<and> (q < 24 \<or> c = 3)"
proof -
  let ?y = "era * 400 + (100 * c + 4 * q + r) + 1"
  have m4: "?y mod 4 = (r + 1) mod 4"
    using mod_mult_self2 [of "r + 1" 4 "era * 100 + 25 * c + q"] by (simp add: algebra_simps)
  have m100: "?y mod 100 = (4 * q + r + 1) mod 100"
    using mod_mult_self2 [of "4 * q + r + 1" 100 "era * 4 + c"] by (simp add: algebra_simps)
  have m400: "?y mod 400 = (100 * c + 4 * q + r + 1) mod 400"
    using mod_mult_self2 [of "100 * c + 4 * q + r + 1" 400 era] by (simp add: algebra_simps)
  have a: "(r + 1) mod 4 = 0 \<longleftrightarrow> r = 3" using assms(5,6) by presburger
  have d: "r = 3 \<Longrightarrow> q < 24 \<Longrightarrow> (4 * q + r + 1) mod 100 \<noteq> 0"
    using assms(3,4) mod_pos_pos_trivial [of "4 * q + 4" 100] by simp
  have b: "r = 3 \<Longrightarrow> (4 * q + r + 1) mod 100 = 0 \<longleftrightarrow> q = 24" using assms(4) d by (cases "q = 24") auto
  have c: "r = 3 \<Longrightarrow> q = 24 \<Longrightarrow> (100 * c + 4 * q + r + 1) mod 400 = 0 \<longleftrightarrow> c = 3"
  proof -
    assume rq: "r = 3" "q = 24"
    from assms(1,2) have "c \<in> {0, 1, 2, 3}" unfolding insert_iff empty_iff by presburger
    then show ?thesis unfolding rq by (elim insertE) simp_all
  qed
  show ?thesis
  proof (cases "r = 3")
    case False
    then show ?thesis unfolding is_leap_def m4 a by simp
  next
    case True
    show ?thesis
    proof (cases "q = 24")
      case q: True
      show ?thesis unfolding is_leap_def m4 m100 m400 a b [OF True] c [OF True q] using True q by simp
    next
      case False
      then have "q < 24" using assms(4) by simp
      then show ?thesis unfolding is_leap_def m4 m100 m400 a b [OF True] using True by simp
    qed
  qed
qed

subsection \<open>The two conversions are inverse\<close>

lemma days_from_civil_alt:
  assumes "era_day c q r doy" "1 \<le> m" "m \<le> 12"
    and "march_year y m = era * 400 + (100 * c + 4 * q + r)"
    and "month_start ((m + 9) mod 12) + d - 1 = doy"
  shows "days_from_civil y m d = era * 146097 + (36524 * c + 1461 * q + 365 * r + doy) - 719468"
proof -
  note ey = era_year [OF assms(1)]
  have "(era * 400 + (100 * c + 4 * q + r)) div 400 = era"
    using ey(1,2) by (intro int_div_pos_eq [of _ _ _ "100 * c + 4 * q + r"]) simp_all
  note e = this
  have yoe: "era * 400 + (100 * c + 4 * q + r) - era * 400 = 100 * c + 4 * q + r" by simp
  show ?thesis
    unfolding days_from_civil_def Let_def march_year_def [symmetric] assms(4) e yoe
      month_start_def [symmetric] assms(5) ey(5)
    by simp
qed

lemma civil_from_days_alt:
  assumes "era_day c q r doy" and "z = era * 146097 + (36524 * c + 1461 * q + 365 * r + doy) - 719468"
  defines "mp \<equiv> (5 * doy + 2) div 153"
  defines "m \<equiv> (if mp < 10 then mp + 3 else mp - 9)"
  shows "civil_from_days z =
    (era * 400 + (100 * c + 4 * q + r) + (if m \<le> 2 then 1 else 0), m, doy - month_start mp + 1)"
proof -
  note ey = era_year [OF assms(1)]
  have e: "(z + 719468) div 146097 = era"
    using ey(3,4) assms(2) by (intro int_div_pos_eq [of _ _ _ "36524 * c + 1461 * q + 365 * r + doy"]) simp_all
  have doe: "z + 719468 - era * 146097 = 36524 * c + 1461 * q + 365 * r + doy" using assms(2) by simp
  have doy: "36524 * c + 1461 * q + 365 * r + doy -
      (365 * (100 * c + 4 * q + r) + (100 * c + 4 * q + r) div 4 - (100 * c + 4 * q + r) div 100) = doy"
    using ey(5) by simp
  show ?thesis
    unfolding civil_from_days_def Let_def e doe ey(6) doy mp_def [symmetric] m_def [symmetric] month_start_def
    by simp
qed

lemma days_of_civil:
  "\<exists>y m d. civil_from_days z = (y, m, d) \<and> valid_date y m d \<and> days_from_civil y m d = z"
proof -
  define era where "era = (z + 719468) div 146097"
  define doe where "doe = z + 719468 - era * 146097"
  have "0 \<le> doe" "doe \<le> 146096" unfolding doe_def era_def by (simp_all add: minus_div_mult_eq_mod [symmetric] del: minus_div_mult_eq_mod) (presburger+)?
  from era_day_cases [OF this] obtain c q r doy where ed: "era_day c q r doy"
    and doe: "doe = 36524 * c + 1461 * q + 365 * r + doy" by blast
  have z: "z = era * 146097 + (36524 * c + 1461 * q + 365 * r + doy) - 719468"
    using doe by (simp add: doe_def)
  define mp where "mp = (5 * doy + 2) div 153"
  define m where "m = (if mp < 10 then mp + 3 else mp - 9)"
  define y where "y = era * 400 + (100 * c + 4 * q + r) + (if m \<le> 2 then 1 else 0)"
  define d where "d = doy - month_start mp + 1"
  have civ: "civil_from_days z = (y, m, d)"
    using civil_from_days_alt [OF ed z] by (simp add: y_def m_def mp_def d_def)
  have db: "0 \<le> doy" "doy \<le> 365" using ed by (auto simp: era_day_def)
  note mo = month_of_day [OF db, folded mp_def]
  have m: "1 \<le> m" "m \<le> 12" using mo(1,2) by (auto simp: m_def)
  have mm: "(m + 9) mod 12 = mp"
    using month_cases [OF mo(1,2)] by (elim insertE) (simp_all add: m_def)
  have m2: "m \<le> 2 \<longleftrightarrow> 10 \<le> mp" using mo(1,2) by (auto simp: m_def)
  have my: "march_year y m = era * 400 + (100 * c + 4 * q + r)" by (simp add: march_year_def y_def)
  have dd: "month_start ((m + 9) mod 12) + d - 1 = doy" by (simp add: mm d_def)
  have inv: "days_from_civil y m d = z"
    using days_from_civil_alt [OF ed m my dd] z by simp
  have leap: "m = 2 \<Longrightarrow> is_leap y \<longleftrightarrow> r = 3 \<and> (q < 24 \<or> c = 3)"
    using leap_after [of c q r era] ed by (auto simp: y_def era_day_def)
  have "1 \<le> d" using mo(3) by (simp add: d_def)
  moreover have "d \<le> days_in_month y m"
  proof (cases "mp = 11")
    case True
    then have m: "m = 2" by (simp add: m_def)
    have "d = doy - 336" using True by (simp add: d_def month_start_def)
    moreover have "doy \<le> 364 \<or> doy = 365 \<and> is_leap y" using ed leap [OF m] by (auto simp: era_day_def)
    ultimately show ?thesis using m by (auto simp: days_in_month_def)
  next
    case False
    with mo have "mp < 11" by simp
    from mo(4) [OF this] have "d < month_start (mp + 1) - month_start mp + 1" by (simp add: d_def)
    with month_cases [OF mo(1,2)] False show ?thesis
      by (elim insertE) (simp_all add: m_def days_in_month_def month_start_def)
  qed
  ultimately have "valid_date y m d" using m by (simp add: valid_date_def)
  with civ inv show ?thesis by blast
qed

lemma civil_of_days:
  assumes v: "valid_date y m d"
  shows "civil_from_days (days_from_civil y m d) = (y, m, d)"
proof -
  define Y where "Y = march_year y m"
  define era where "era = Y div 400"
  define yoe where "yoe = Y mod 400"
  define c where "c = yoe div 100"
  define q where "q = yoe mod 100 div 4"
  define r where "r = yoe mod 4"
  define mp where "mp = (m + 9) mod 12"
  define doy where "doy = month_start mp + d - 1"
  note vm = valid_date_march [OF v, folded mp_def]
  from v have m: "1 \<le> m" "m \<le> 12" and d: "1 \<le> d" by (simp_all add: valid_date_def)
  have yoe: "0 \<le> yoe" "yoe < 400" by (simp_all add: yoe_def)
  have cqr: "0 \<le> c" "c \<le> 3" "0 \<le> q" "q \<le> 24" "0 \<le> r" "r \<le> 3"
    using yoe by (auto simp: c_def q_def r_def)
  have yq: "yoe = 100 * c + 4 * q + r"
  proof -
    have "yoe mod 100 mod 4 = yoe mod 4" by (simp add: mod_mod_cancel)
    then show ?thesis
      using div_mult_mod_eq [of yoe 100] div_mult_mod_eq [of "yoe mod 100" 4]
      unfolding c_def q_def r_def by linarith
  qed
  have Y: "Y = era * 400 + (100 * c + 4 * q + r)"
    unfolding yq [symmetric] by (simp add: era_def yoe_def)
  have doy0: "0 \<le> doy" using d vm(1) by (simp add: doy_def month_start_def)
  have day: "doy \<le> 364 \<or> doy = 365 \<and> r = 3 \<and> (q < 24 \<or> c = 3)"
  proof (cases "mp = 11")
    case False
    with vm(2,4) have "doy < month_start (mp + 1)" by (simp add: doy_def)
    with month_cases [OF vm(1,2)] False show ?thesis by (elim insertE) (simp_all add: month_start_def)
  next
    case True
    with vm(6) have m2: "m = 2" by simp
    then have "y = era * 400 + (100 * c + 4 * q + r) + 1" using Y by (simp add: Y_def march_year_def)
    then have leap: "is_leap y \<longleftrightarrow> r = 3 \<and> (q < 24 \<or> c = 3)" using leap_after [OF cqr] by simp
    have "doy = 336 + d" using True by (simp add: doy_def month_start_def)
    with vm(5) [OF True] leap show ?thesis by (auto split: if_splits)
  qed
  have ed: "era_day c q r doy" using cqr doy0 day by (simp add: era_day_def)
  have my: "march_year y m = era * 400 + (100 * c + 4 * q + r)" using Y by (simp add: Y_def)
  have dd: "month_start ((m + 9) mod 12) + d - 1 = doy" by (simp add: doy_def mp_def)
  have mp: "(5 * doy + 2) div 153 = mp"
    unfolding doy_def
    by (rule month_of_date [OF vm(1,2) d vm(4)]) (use vm(5) in \<open>auto split: if_splits\<close>)
  have yr: "(if m \<le> 2 then 1 else 0) + march_year y m = y" by (simp add: march_year_def)
  show ?thesis
    unfolding days_from_civil_alt [OF ed m my dd] civil_from_days_alt [OF ed refl] mp vm(3) [symmetric]
    using my yr by (simp add: doy_def)
qed

text \<open>
  The calendar: \<open>civil_from_days\<close> and \<open>days_from_civil\<close> are inverse bijections between all
  day numbers and all valid dates of the proleptic Gregorian calendar, with \<open>days_in_month\<close>
  and \<open>is_leap\<close> deciding validity.
\<close>

theorem calendar_bijection:
  "(case civil_from_days z of (y, m, d) \<Rightarrow> valid_date y m d \<and> days_from_civil y m d = z) \<and>
   (valid_date y m d \<longrightarrow> civil_from_days (days_from_civil y m d) = (y, m, d))"
  using days_of_civil [of z] civil_of_days by auto

theorem calendar_bijection_witness:
  "(case civil_from_days 11016 of (y, m, d) \<Rightarrow> valid_date y m d \<and> days_from_civil y m d = 11016) \<and>
   civil_from_days (days_from_civil 2000 2 29) = (2000, 2, 29)"
  using calendar_bijection [of 11016 2000 2 29] by (simp add: valid_date_def days_in_month_def is_leap_def)

subsection \<open>Years in order\<close>

definition leap_days :: "int \<Rightarrow> int" where
  "leap_days y = y div 4 - y div 100 + y div 400"

lemma days_from_civil_linear:
  "days_from_civil y m d =
     365 * march_year y m + leap_days (march_year y m) + month_start ((m + 9) mod 12) + d - 1 - 719468"
proof -
  let ?Y = "march_year y m"
  define era where "era = ?Y div 400"
  define yoe where "yoe = ?Y - era * 400"
  have yoe: "0 \<le> yoe" "yoe < 400" unfolding yoe_def era_def by (simp_all add: minus_div_mult_eq_mod)
  have Y: "?Y = era * 400 + yoe" by (simp add: yoe_def)
  have d4: "?Y div 4 = 100 * era + yoe div 4" unfolding Y by simp
  have d100: "?Y div 100 = 4 * era + yoe div 100" unfolding Y by simp
  have "days_from_civil y m d = era * 146097 + (yoe * 365 + yoe div 4 - yoe div 100 + (month_start ((m + 9) mod 12) + d - 1)) - 719468"
    unfolding days_from_civil_def Let_def march_year_def [symmetric] month_start_def [symmetric]
      era_def [symmetric] yoe_def [symmetric] by simp
  then show ?thesis unfolding leap_days_def d4 d100 era_def [symmetric] using Y by simp
qed

lemma leap_days_step: "leap_days y - 1 \<le> leap_days (y + 1)"
proof -
  have "y div 4 \<le> (y + 1) div 4" "y div 400 \<le> (y + 1) div 400" by (simp_all add: zdiv_mono1)
  moreover have "(y + 1) div 100 \<le> (y + 100) div 100" by (rule zdiv_mono1) simp_all
  then have "(y + 1) div 100 \<le> y div 100 + 1" by simp
  ultimately show ?thesis by (simp add: leap_days_def)
qed

definition year_start :: "int \<Rightarrow> int" where
  "year_start y = days_from_civil y 1 1"

lemma year_start_eq: "year_start y = 365 * (y - 1) + leap_days (y - 1) + 306 - 719468"
  by (simp add: year_start_def days_from_civil_linear march_year_def month_start_def)

lemma year_start_step: "year_start y < year_start (y + 1)"
  using leap_days_step [of "y - 1"] by (simp add: year_start_eq)

lemma year_start_mono: "y \<le> y' \<Longrightarrow> year_start y \<le> year_start y'"
proof (induction y' rule: int_ge_induct)
  case base
  show ?case by simp
next
  case (step i)
  with year_start_step [of i] show ?case by simp
qed

lemma date_in_year:
  assumes "valid_date y m d"
  shows "year_start y \<le> days_from_civil y m d" "days_from_civil y m d < year_start (y + 1)"
proof -
  define mp where "mp = (m + 9) mod 12"
  note vm = valid_date_march [OF assms, folded mp_def]
  have d: "1 \<le> d" using assms by (simp add: valid_date_def)
  note lin = days_from_civil_linear [of y m d, folded mp_def]
  have ms: "306 \<le> month_start mp \<and> month_start mp \<le> 337" if "10 \<le> mp"
    using that vm(1,2) month_cases [OF vm(1,2)] by (elim insertE) (simp_all add: month_start_def)
  have last: "month_start mp + d - 1 \<le> 365"
    using month_cases [OF vm(1,2)] vm(4,5)
    by (elim insertE) (auto simp: month_start_def split: if_splits)
  have early: "month_start mp + d - 1 < 306" if "\<not> 10 \<le> mp"
    using month_cases [OF vm(1,2)] vm(4) that by (elim insertE) (simp_all add: month_start_def)
  have pos: "0 \<le> month_start mp" using vm(1) by (simp add: month_start_def)
  show "year_start y \<le> days_from_civil y m d"
  proof (cases "10 \<le> mp")
    case True
    with ms vm(7) d show ?thesis unfolding lin by (simp add: year_start_eq march_year_def)
  next
    case False
    with vm(7) d pos leap_days_step [of "y - 1"] show ?thesis
      unfolding lin by (simp add: year_start_eq march_year_def)
  qed
  show "days_from_civil y m d < year_start (y + 1)"
  proof (cases "10 \<le> mp")
    case True
    with last vm(7) leap_days_step [of "y - 1"] show ?thesis
      unfolding lin by (simp add: year_start_eq march_year_def)
  next
    case False
    with early vm(7) show ?thesis unfolding lin by (simp add: year_start_eq march_year_def)
  qed
qed

lemma year_of_days:
  assumes "civil_from_days z = (y, m, d)"
  shows "year_start y \<le> z" "z < year_start (y + 1)" "valid_date y m d"
  using days_of_civil [of z] date_in_year [of y m d] assms by auto

lemma year_bounds:
  assumes "civil_from_days z = (y, m, d)" "year_start a \<le> z" "z < year_start b"
  shows "a \<le> y" "y < b"
proof -
  note y = year_of_days [OF assms(1)]
  show "a \<le> y"
  proof (rule ccontr)
    assume "\<not> a \<le> y"
    then have "year_start (y + 1) \<le> year_start a" by (intro year_start_mono) simp
    with y(2) assms(2) show False by simp
  qed
  show "y < b"
  proof (rule ccontr)
    assume "\<not> y < b"
    then have "year_start b \<le> year_start y" by (intro year_start_mono) simp
    with y(1) assms(3) show False by simp
  qed
qed

lemma year_start_1970: "year_start 1970 = 0"
  by (simp add: year_start_eq leap_days_def)

lemma year_start_2263: "year_start 2263 = 107016"
  by (simp add: year_start_eq leap_days_def)

subsection \<open>Instants\<close>

lemma civil_from_epoch_fields:
  fixes n :: int
  defines "c \<equiv> civil_from_epoch n"
  shows "valid_date (cv_year c) (cv_month c) (cv_day c)"
    and "0 \<le> cv_hour c" "cv_hour c < 24" "0 \<le> cv_minute c" "cv_minute c < 60"
    and "0 \<le> cv_second c" "cv_second c < 60" "0 \<le> cv_nanos c" "cv_nanos c < 1000000000"
    and "civil_secs c off = n div nanos_per_sec - off"
    and "cv_nanos c = n mod nanos_per_sec"
    and "civil_from_days (n div nanos_per_sec div day_secs) = (cv_year c, cv_month c, cv_day c)"
proof -
  let ?secs = "n div nanos_per_sec"
  obtain y m d where z: "civil_from_days (?secs div day_secs) = (y, m, d)" "valid_date y m d"
    "days_from_civil y m d = ?secs div day_secs"
    using days_of_civil by blast
  have c: "c = \<lparr>cv_year = y, cv_month = m, cv_day = d, cv_hour = ?secs mod day_secs div 3600,
      cv_minute = ?secs mod day_secs mod 3600 div 60, cv_second = ?secs mod day_secs mod 60,
      cv_nanos = n mod nanos_per_sec\<rparr>"
    using z by (simp add: c_def civil_from_epoch_def Let_def)
  show "valid_date (cv_year c) (cv_month c) (cv_day c)" using z c by simp
  have sod: "0 \<le> ?secs mod day_secs" "?secs mod day_secs < day_secs" by (simp_all add: day_secs_def)
  then show "0 \<le> cv_hour c" "cv_hour c < 24" by (auto simp: c day_secs_def)
  show "0 \<le> cv_minute c" "cv_minute c < 60" "0 \<le> cv_second c" "cv_second c < 60"
    "0 \<le> cv_nanos c" "cv_nanos c < 1000000000"
    by (auto simp: c nanos_per_sec_def)
  show "cv_nanos c = n mod nanos_per_sec" by (simp add: c)
  have "s div 3600 * 3600 + s mod 3600 div 60 * 60 + s mod 60 = s" for s :: int
  proof -
    have "s mod 3600 mod 60 = s mod 60" by (simp add: mod_mod_cancel)
    then show ?thesis using div_mult_mod_eq [of s 3600] div_mult_mod_eq [of "s mod 3600" 60] by linarith
  qed
  from this [of "?secs mod day_secs"] show "civil_secs c off = ?secs - off"
    using z(3) div_mult_mod_eq [of ?secs day_secs] unfolding civil_secs_def c
    by (simp only: civil.simps)
  show "civil_from_days (?secs div day_secs) = (cv_year c, cv_month c, cv_day c)" using z c by simp
qed

text \<open>
  Instants and civil times: breaking a representable instant into the civil time of a zone
  offset and building it again with that offset gives the same instant, for every instant
  whose local time is in 1970 or later.
\<close>

theorem epoch_roundtrip:
  assumes "i64_ok n" "\<bar>off\<bar> \<le> day_secs" "0 \<le> n + off * nanos_per_sec"
  shows "epoch_from_civil (civil_from_epoch (n + off * nanos_per_sec)) off = Some n"
proof -
  define l where "l = n + off * nanos_per_sec"
  let ?c = "civil_from_epoch l"
  note f = civil_from_epoch_fields [of l]
  have secs: "0 \<le> l div nanos_per_sec div day_secs" "l div nanos_per_sec div day_secs < 107016"
    using assms by (auto simp: l_def time_consts i64_ok_def)
  have "1970 \<le> cv_year ?c" "cv_year ?c < 2263"
    using year_bounds [OF f(12), of 1970 2263] secs year_start_1970 year_start_2263 by simp_all
  with f have v: "civil_valid ?c" by (simp add: civil_valid_def valid_date_def)
  have ls: "l div nanos_per_sec - off = n div nanos_per_sec"
    by (simp add: l_def time_consts)
  have m: "l mod nanos_per_sec = n mod nanos_per_sec" by (simp add: l_def)
  have n: "n div nanos_per_sec * nanos_per_sec + n mod nanos_per_sec = n" by simp
  have "i64_ok (n div nanos_per_sec * nanos_per_sec)"
    using assms n by (simp add: i64_ok_def time_consts) (auto simp: abs_le_iff)
  with v f(10) [of off] f(11) ls m n assms(1) show ?thesis
    by (simp add: epoch_from_civil_def checked_i64_def l_def [symmetric])
qed

theorem epoch_roundtrip_witness:
  "epoch_from_civil (civil_from_epoch (1709164799123456789 + 19800 * nanos_per_sec)) 19800 = Some 1709164799123456789"
  by (rule epoch_roundtrip) (simp_all add: i64_ok_def time_consts)

subsection \<open>Decimal text\<close>

text \<open>\<open>write!("{:0k}")\<close> of an unsigned number: its decimal digits, padded with zeros to \<open>k\<close>.\<close>

function dec :: "nat \<Rightarrow> bytes" where
  "dec n = (if n < 10 then [digit_char n] else dec (n div 10) @ [digit_char (n mod 10)])"
  by pat_completeness auto
termination by (relation "measure id") auto

declare dec.simps [simp del]

definition pad_dec :: "nat \<Rightarrow> nat \<Rightarrow> bytes" where
  "pad_dec k n = replicate (k - length (dec n)) (digit_char 0) @ dec n"

primrec fixed_dec :: "nat \<Rightarrow> nat \<Rightarrow> bytes" where
  "fixed_dec 0 n = []"
| "fixed_dec (Suc k) n = fixed_dec k (n div 10) @ [digit_char (n mod 10)]"

lemma fixed_dec_length [simp]: "length (fixed_dec k n) = k"
  by (induction k arbitrary: n) simp_all

lemma fixed_dec_digits: "b \<in> set (fixed_dec k n) \<Longrightarrow> is_ascii_digit b"
  by (induction k arbitrary: n) (auto simp: digit_char_digit)

lemma fixed_dec_0: "fixed_dec k 0 = replicate k (digit_char 0)"
  by (induction k) (simp_all add: replicate_append_same)

lemma pad_dec_fixed: "0 < k \<Longrightarrow> n < 10 ^ k \<Longrightarrow> length (dec n) \<le> k \<and> pad_dec k n = fixed_dec k n"
proof (induction k arbitrary: n)
  case 0
  then show ?case by simp
next
  case (Suc k)
  show ?case
  proof (cases "n < 10")
    case True
    then show ?thesis
      by (simp add: pad_dec_def dec.simps [of n] fixed_dec_0)
  next
    case False
    then have "0 < k" using Suc.prems(2) by (cases k) simp_all
    moreover have "n div 10 < 10 ^ k" using Suc.prems(2) by (simp add: less_mult_imp_div_less mult.commute)
    ultimately have IH: "length (dec (n div 10)) \<le> k" "pad_dec k (n div 10) = fixed_dec k (n div 10)"
      using Suc.IH by blast+
    have "dec n = dec (n div 10) @ [digit_char (n mod 10)]" using False by (subst dec.simps) simp
    with IH show ?thesis by (simp add: pad_dec_def)
  qed
qed

definition format_rfc3339 :: "int \<Rightarrow> bytes" where
  "format_rfc3339 n =
     (let c = civil_from_epoch n in
      pad_dec 4 (nat (cv_year c)) @ ''-'' @ pad_dec 2 (nat (cv_month c)) @ ''-'' @ pad_dec 2 (nat (cv_day c)) @
      ''T'' @ pad_dec 2 (nat (cv_hour c)) @ '':'' @ pad_dec 2 (nat (cv_minute c)) @ '':'' @
      pad_dec 2 (nat (cv_second c)) @ ''.'' @ pad_dec 3 (nat (cv_nanos c div 1000000)) @ ''Z'')"

end
