(* ===== verification/Ulpf_Time_Parse.thy ===== *)
theory Ulpf_Time_Parse
  imports Ulpf_Time
begin

unbundle bit_operations_syntax

text \<open>
  Timestamp parsing: the cursor, the fixed layouts, \<open>strftime\<close>, \<open>auto\<close>, \<open>resolve\<close> and \<open>parse\<close>
  of \<open>src/crates/ulpf-time/src/lib.rs\<close>. A cursor is the bytes it has left (no method looks
  back); a method returns the value or the failure together with the cursor it leaves, because
  a failed \<open>digits\<close> keeps what it consumed. \<open>bindp\<close> is \<open>?\<close>: it stops at the first failure.
\<close>

subsection \<open>Policies, formats and errors\<close>

type_synonym policies = nat

definition pol_none :: policies where "pol_none = 0"
definition year_assumed :: policies where "year_assumed = 1"
definition tz_assumed :: policies where "tz_assumed = 2"
definition zone_name_unknown :: policies where "zone_name_unknown = 4"
definition zone_name_ambiguous :: policies where "zone_name_ambiguous = 8"
definition receipt_fallback :: policies where "receipt_fallback = 16"

definition policy_names :: "(nat \<times> bytes) list" where
  "policy_names = [(1, ''year_assumed''), (2, ''tz_assumed''), (4, ''zone_name_unknown''),
     (8, ''zone_name_ambiguous''), (16, ''receipt_fallback'')]"

definition pol_contains :: "policies \<Rightarrow> policies \<Rightarrow> bool" where
  "pol_contains p other \<longleftrightarrow> p AND other = other"

definition pol_union :: "policies \<Rightarrow> policies \<Rightarrow> policies" where
  "pol_union p other = p OR other"

definition pol_names :: "policies \<Rightarrow> bytes list" where
  "pol_names p = map snd (filter (\<lambda>(bit, _). p AND bit \<noteq> 0) policy_names)"

lemma pol_union_contains: "pol_contains (pol_union p q) p" "pol_contains (pol_union p q) q"
  by (simp_all add: pol_contains_def pol_union_def bit_eq_iff bit_simps) blast+

record timestamp =
  ts_nanos :: int
  ts_policies :: policies

record context_time =
  ctx_receipt :: int
  ctx_offset :: int

datatype time_format =
    Auto | Rfc3339 | Syslog | Ctime | EpochSecs | EpochMillis | EpochMicros | EpochNanos
  | Strftime bytes

datatype time_error = TEmpty | TNoMatch | TOutOfRange

datatype format_error = UnknownSpec bytes | BadDirective byte | DanglingPercent

definition time_reason :: "time_error \<Rightarrow> bytes" where
  "time_reason e = (case e of TEmpty \<Rightarrow> ''empty'' | TNoMatch \<Rightarrow> ''no_match'' | TOutOfRange \<Rightarrow> ''out_of_range'')"

definition directives :: bytes where "directives = ''YymdebBHMSfzZjspIn%''"

fun validate_layout :: "bytes \<Rightarrow> format_error option" where
  "validate_layout [] = None"
| "validate_layout (b # bs) =
     (if b \<noteq> CHR ''%'' then validate_layout bs
      else case bs of
             [] \<Rightarrow> Some DanglingPercent
           | d # ds \<Rightarrow> if d \<in> set directives then validate_layout ds else Some (BadDirective d))"

definition from_spec :: "bytes \<Rightarrow> format_error + time_format" where
  "from_spec spec =
     (if spec = ''auto'' then Inr Auto
      else if spec = ''rfc3339'' then Inr Rfc3339
      else if spec = ''syslog'' then Inr Syslog
      else if spec = ''ctime'' then Inr Ctime
      else if spec = ''epoch'' then Inr EpochSecs
      else if spec = ''epoch_ms'' then Inr EpochMillis
      else if spec = ''epoch_us'' then Inr EpochMicros
      else if spec = ''epoch_ns'' then Inr EpochNanos
      else if CHR ''%'' \<in> set spec then
        (case validate_layout spec of Some e \<Rightarrow> Inl e | None \<Rightarrow> Inr (Strftime spec))
      else Inl (UnknownSpec spec))"

subsection \<open>Tables\<close>

definition months :: "bytes list" where
  "months = [''january'', ''february'', ''march'', ''april'', ''may'', ''june'', ''july'',
     ''august'', ''september'', ''october'', ''november'', ''december'']"

definition weekdays :: "bytes list" where
  "weekdays = [''monday'', ''tuesday'', ''wednesday'', ''thursday'', ''friday'', ''saturday'', ''sunday'']"

definition zones :: "(bytes \<times> int \<times> bool) list" where
  "zones = [
     (''UTC'', 0, False), (''GMT'', 0, False), (''Z'', 0, False), (''UT'', 0, False),
     (''WET'', 0, False), (''WEST'', 3600, False), (''BST'', 3600, True), (''CET'', 3600, False),
     (''CEST'', 7200, False), (''MET'', 3600, False), (''MEST'', 7200, False), (''WAT'', 3600, False),
     (''EET'', 7200, False), (''EEST'', 10800, False), (''SAST'', 7200, False), (''CAT'', 7200, False),
     (''MSK'', 10800, False), (''EAT'', 10800, False), (''GST'', 14400, True), (''PKT'', 18000, False),
     (''IST'', 19800, True), (''ICT'', 25200, False), (''WIB'', 25200, False), (''HKT'', 28800, False),
     (''SGT'', 28800, False), (''MYT'', 28800, False), (''PHT'', 28800, False), (''AWST'', 28800, False),
     (''JST'', 32400, False), (''KST'', 32400, False), (''ACST'', 34200, False), (''ACDT'', 37800, False),
     (''AEST'', 36000, False), (''AEDT'', 39600, False), (''NZST'', 43200, False), (''NZDT'', 46800, False),
     (''BRT'', -10800, False), (''ART'', -10800, False), (''ADT'', -10800, False), (''NST'', -12600, False),
     (''NDT'', -9000, False), (''AST'', -14400, True), (''EST'', -18000, False), (''EDT'', -14400, False),
     (''CST'', -21600, True), (''CDT'', -18000, True), (''MST'', -25200, False), (''MDT'', -21600, False),
     (''PST'', -28800, False), (''PDT'', -25200, False), (''AKST'', -32400, False), (''AKDT'', -28800, False),
     (''HST'', -36000, False)]"

definition auto_layouts :: "bytes list" where
  "auto_layouts = [''%Y/%m/%d %H:%M:%S'', ''%d/%b/%Y:%H:%M:%S %z'', ''%d%b%Y %H:%M:%S'', ''%Y-%m-%d %H:%M:%S %Z'']"

subsection \<open>The cursor\<close>

type_synonym 'a cursor_op = "bytes \<Rightarrow> 'a option \<times> bytes"

definition bindp :: "'a cursor_op \<Rightarrow> ('a \<Rightarrow> 'b cursor_op) \<Rightarrow> 'b cursor_op" where
  "bindp p f c = (case p c of (None, c') \<Rightarrow> (None, c') | (Some a, c') \<Rightarrow> f a c')"

definition returnp :: "'a \<Rightarrow> 'a cursor_op" where
  "returnp a c = (Some a, c)"

definition failp :: "'a cursor_op" where
  "failp c = (None, c)"

definition peek :: "bytes \<Rightarrow> byte option" where
  "peek c = (case c of [] \<Rightarrow> None | b # _ \<Rightarrow> Some b)"

definition lit :: "byte \<Rightarrow> unit cursor_op" where
  "lit b c = (case c of x # r \<Rightarrow> if x = b then (Some (), r) else (None, c) | [] \<Rightarrow> (None, c))"

definition ws :: "unit cursor_op" where
  "ws c = (if takeWhile is_ascii_whitespace c = [] then (None, c)
           else (Some (), dropWhile is_ascii_whitespace c))"

definition skip_ws :: "bytes \<Rightarrow> bytes" where
  "skip_ws c = dropWhile is_ascii_whitespace c"

fun digits_loop :: "nat \<Rightarrow> nat \<Rightarrow> nat \<Rightarrow> bytes \<Rightarrow> nat \<times> nat \<times> bytes" where
  "digits_loop 0 v n c = (v, n, c)"
| "digits_loop (Suc k) v n [] = (v, n, [])"
| "digits_loop (Suc k) v n (b # c) =
     (if is_ascii_digit b then digits_loop k (v * 10 + digit_val b) (n + 1) c else (v, n, b # c))"

definition digits :: "nat \<Rightarrow> nat \<Rightarrow> nat cursor_op" where
  "digits mn mx c = (let (v, n, c') = digits_loop mx 0 0 c in (if mn \<le> n then Some v else None, c'))"

definition fixed :: "nat \<Rightarrow> nat cursor_op" where
  "fixed n = digits n n"

definition digits_val :: "bytes \<Rightarrow> nat" where
  "digits_val ds = foldl (\<lambda>v b. v * 10 + digit_val b) 0 ds"

definition fraction :: "nat cursor_op" where
  "fraction c =
     (let d = takeWhile is_ascii_digit c; c' = dropWhile is_ascii_digit c in
      if d = [] then (None, c')
      else (Some (digits_val (take 9 d) * 10 ^ (9 - length (take 9 d))), c'))"

definition alpha :: "bytes \<Rightarrow> bytes \<times> bytes" where
  "alpha c = (takeWhile is_ascii_alphabetic c, dropWhile is_ascii_alphabetic c)"

definition name_in :: "bytes list \<Rightarrow> nat cursor_op" where
  "name_in table c =
     (let (a, c') = alpha c in
      if 3 \<le> length a then
        (case position (\<lambda>n. length a \<le> length n \<and> eq_ignore_ascii_case (take (length a) n) a) table of
           Some i \<Rightarrow> (Some i, c')
         | None \<Rightarrow> (None, c))
      else (None, c))"

definition month_op :: "nat cursor_op" where
  "month_op = bindp (name_in months) (\<lambda>i. returnp (i + 1))"

definition ampm :: "bool cursor_op" where
  "ampm c =
     (let (a, c') = alpha c in
      if eq_ignore_ascii_case a ''am'' then (Some False, c')
      else if eq_ignore_ascii_case a ''pm'' then (Some True, c')
      else (None, c'))"

definition offset_op :: "int cursor_op" where
  "offset_op c =
     (case c of
        [] \<Rightarrow> (None, c)
      | s # c1 \<Rightarrow>
          if s = CHR ''Z'' \<or> s = CHR ''z'' then (Some 0, c1)
          else if s = CHR ''+'' \<or> s = CHR ''-'' then
            bindp (fixed 2)
              (\<lambda>h. bindp (\<lambda>c2. case lit (CHR '':'') c2 of
                                (Some _, c3) \<Rightarrow> fixed 2 c3
                              | (None, c3) \<Rightarrow> (case fixed 2 c3 of (m, c4) \<Rightarrow> (Some (case m of Some x \<Rightarrow> x | None \<Rightarrow> 0), c4)))
                (\<lambda>m c5. let v = int (h * 3600 + m * 60) in
                   (if h < 24 \<and> m < 60 then Some (if s = CHR ''-'' then - v else v) else None, c5))) c1
          else (None, c))"

definition zone_name :: "bytes cursor_op" where
  "zone_name c = (let (a, c') = alpha c in (if 1 \<le> length a \<and> length a \<le> 5 then Some a else None, c'))"

definition to_i64 :: "bytes \<Rightarrow> int option" where
  "to_i64 ds = foldl (\<lambda>v b. case v of None \<Rightarrow> None | Some v \<Rightarrow>
       (case checked_i64 (v * 10) of None \<Rightarrow> None | Some w \<Rightarrow> checked_i64 (w + int (digit_val b)))) (Some 0) ds"

subsection \<open>Broken-down time\<close>

datatype zone = ZNone | ZOffset int | ZName bytes

record parts =
  pt_year :: "int option"
  pt_month :: nat
  pt_day :: nat
  pt_yday :: "nat option"
  pt_hour :: nat
  pt_minute :: nat
  pt_second :: nat
  pt_nanos :: nat
  pt_pm :: "bool option"
  pt_zone :: zone
  pt_epoch :: "int option"

definition parts_default :: parts where
  "parts_default = \<lparr>pt_year = None, pt_month = 0, pt_day = 0, pt_yday = None, pt_hour = 0,
     pt_minute = 0, pt_second = 0, pt_nanos = 0, pt_pm = None, pt_zone = ZNone, pt_epoch = None\<rparr>"

definition hms :: "parts \<Rightarrow> parts cursor_op" where
  "hms p =
     bindp (digits 1 2) (\<lambda>h. bindp (lit (CHR '':'')) (\<lambda>_.
     bindp (fixed 2) (\<lambda>m. bindp (lit (CHR '':'')) (\<lambda>_.
     bindp (fixed 2) (\<lambda>s c.
       let q = p\<lparr>pt_hour := as_u8 h, pt_minute := as_u8 m, pt_second := as_u8 s\<rparr> in
       (case c of
          b # c' \<Rightarrow> if b = CHR ''.'' \<or> b = CHR '',''
                     then bindp fraction (\<lambda>f. returnp (q\<lparr>pt_nanos := f\<rparr>)) c'
                     else (Some q, c)
        | [] \<Rightarrow> (Some q, c)))))))"

definition eof_then :: "'a option \<times> bytes \<Rightarrow> 'a option" where
  "eof_then r = (case r of (Some a, []) \<Rightarrow> Some a | _ \<Rightarrow> None)"

definition rfc3339 :: "bytes \<Rightarrow> parts option" where
  "rfc3339 s = eof_then (
     bindp (fixed 4) (\<lambda>y. bindp (lit (CHR ''-'')) (\<lambda>_.
     bindp (fixed 2) (\<lambda>mo. bindp (lit (CHR ''-'')) (\<lambda>_.
     bindp (fixed 2) (\<lambda>d c.
       let p = parts_default\<lparr>pt_year := Some (int y), pt_month := as_u8 mo, pt_day := as_u8 d\<rparr> in
       (case c of
          [] \<Rightarrow> (None, c)
        | b # c1 \<Rightarrow>
            if b = CHR ''T'' \<or> b = CHR ''t'' \<or> is_ascii_whitespace b then
              bindp (hms p) (\<lambda>q c2.
                let c3 = skip_ws c2 in
                if c3 = [] then (Some q, c3)
                else bindp offset_op (\<lambda>off. returnp (q\<lparr>pt_zone := ZOffset off\<rparr>)) c3)
                (if b = CHR ''T'' \<or> b = CHR ''t'' then c1 else skip_ws c)
            else (None, c))))))) s)"

text \<open>The trailing part of a syslog timestamp: at most two of a year, an offset, a zone name.\<close>

fun sys_tail :: "nat \<Rightarrow> parts \<Rightarrow> parts cursor_op" where
  "sys_tail 0 p c = (Some p, c)"
| "sys_tail (Suc k) p c =
     (case ws c of
        (None, _) \<Rightarrow> (Some p, c)
      | (Some _, c1) \<Rightarrow>
          (case c1 of
             [] \<Rightarrow> (Some p, c)
           | b # _ \<Rightarrow>
               if is_ascii_digit b \<and> pt_year p = None then
                 bindp (fixed 4) (\<lambda>y. sys_tail k (p\<lparr>pt_year := Some (int y)\<rparr>)) c1
               else if b = CHR ''+'' \<or> b = CHR ''-'' then
                 bindp offset_op (\<lambda>off. sys_tail k (p\<lparr>pt_zone := ZOffset off\<rparr>)) c1
               else if is_ascii_alphabetic b then
                 bindp zone_name (\<lambda>n. sys_tail k (p\<lparr>pt_zone := ZName n\<rparr>)) c1
               else (Some p, c)))"

definition syslog_ts :: "bytes \<Rightarrow> parts option" where
  "syslog_ts s = eof_then (
     bindp month_op (\<lambda>mo. bindp ws (\<lambda>_. bindp (digits 1 2) (\<lambda>d. bindp ws (\<lambda>_ c.
       let p = parts_default\<lparr>pt_month := mo, pt_day := as_u8 d\<rparr> in
       (case bindp (fixed 4) (\<lambda>y. bindp ws (\<lambda>_. returnp y)) c of
          (Some y, c1) \<Rightarrow> bindp (hms (p\<lparr>pt_year := Some (int y)\<rparr>)) (sys_tail 2) c1
        | (None, _) \<Rightarrow> bindp (hms p) (sys_tail 2) c)))))
     (case s of b # r \<Rightarrow> if b = CHR ''*'' \<or> b = CHR ''.'' then r else s | [] \<Rightarrow> s))"

definition ctime_ts :: "bytes \<Rightarrow> parts option" where
  "ctime_ts s =
     (case bindp (name_in weekdays) (\<lambda>_. ws) s of
        (Some _, c) \<Rightarrow> syslog_ts c
      | (None, _) \<Rightarrow> None)"

definition epoch_unit :: "int \<Rightarrow> int" where
  "epoch_unit v =
     (if v < 100000000000 then nanos_per_sec
      else if v < 100000000000000 then 1000000
      else if v < 100000000000000000 then 1000
      else 1)"

fun frac_nanos :: "int \<Rightarrow> int \<Rightarrow> bytes \<Rightarrow> int" where
  "frac_nanos scale sub [] = sub"
| "frac_nanos scale sub (b # bs) =
     (if scale = 1 then sub
      else frac_nanos (scale div 10) (sub + int (digit_val b) * (scale div 10)) bs)"

definition epoch_ts :: "bytes \<Rightarrow> int option \<Rightarrow> time_error + parts" where
  "epoch_ts s unit =
     (let ds = takeWhile is_ascii_digit s; c = dropWhile is_ascii_digit s in
      if ds = [] then Inl TNoMatch
      else
        (case (case c of
                 b # c1 \<Rightarrow>
                   if b = CHR ''.'' then
                     (let f = takeWhile is_ascii_digit c1 in
                      if f = [] then None else Some (f, dropWhile is_ascii_digit c1))
                   else Some ([], c)
               | [] \<Rightarrow> Some ([], c)) of
           None \<Rightarrow> Inl TNoMatch
         | Some (frac, c2) \<Rightarrow>
             if c2 \<noteq> [] then Inl TNoMatch
             else (case to_i64 ds of
                     None \<Rightarrow> Inl TOutOfRange
                   | Some v \<Rightarrow>
                       (let u = (case unit of Some u \<Rightarrow> u | None \<Rightarrow> epoch_unit v);
                            sub = frac_nanos u 0 frac in
                        case checked_i64 (v * u) of
                          None \<Rightarrow> Inl TOutOfRange
                        | Some n \<Rightarrow>
                            (case checked_i64 (n + sub) of
                               None \<Rightarrow> Inl TOutOfRange
                             | Some e \<Rightarrow> Inr (parts_default\<lparr>pt_epoch := Some e\<rparr>))))))"

definition strf_directive :: "byte \<Rightarrow> parts \<Rightarrow> parts cursor_op" where
  "strf_directive d p =
     (if d = CHR ''Y'' then bindp (fixed 4) (\<lambda>y. returnp (p\<lparr>pt_year := Some (int y)\<rparr>))
      else if d = CHR ''y'' then
        bindp (fixed 2) (\<lambda>v. returnp (p\<lparr>pt_year := Some ((if 69 \<le> v then 1900 else 2000) + int v)\<rparr>))
      else if d = CHR ''m'' then bindp (digits 1 2) (\<lambda>v. returnp (p\<lparr>pt_month := as_u8 v\<rparr>))
      else if d = CHR ''d'' then bindp (digits 1 2) (\<lambda>v. returnp (p\<lparr>pt_day := as_u8 v\<rparr>))
      else if d = CHR ''e'' then (\<lambda>c. bindp (digits 1 2) (\<lambda>v. returnp (p\<lparr>pt_day := as_u8 v\<rparr>)) (skip_ws c))
      else if d = CHR ''b'' \<or> d = CHR ''B'' then bindp month_op (\<lambda>v. returnp (p\<lparr>pt_month := v\<rparr>))
      else if d = CHR ''H'' \<or> d = CHR ''I'' then bindp (digits 1 2) (\<lambda>v. returnp (p\<lparr>pt_hour := as_u8 v\<rparr>))
      else if d = CHR ''M'' then bindp (digits 1 2) (\<lambda>v. returnp (p\<lparr>pt_minute := as_u8 v\<rparr>))
      else if d = CHR ''S'' then bindp (digits 1 2) (\<lambda>v. returnp (p\<lparr>pt_second := as_u8 v\<rparr>))
      else if d = CHR ''f'' then bindp fraction (\<lambda>v. returnp (p\<lparr>pt_nanos := v\<rparr>))
      else if d = CHR ''z'' then bindp offset_op (\<lambda>v. returnp (p\<lparr>pt_zone := ZOffset v\<rparr>))
      else if d = CHR ''Z'' then bindp zone_name (\<lambda>v. returnp (p\<lparr>pt_zone := ZName v\<rparr>))
      else if d = CHR ''j'' then bindp (digits 1 3) (\<lambda>v. returnp (p\<lparr>pt_yday := Some v\<rparr>))
      else if d = CHR ''s'' then (\<lambda>c.
        let ds = takeWhile is_ascii_digit c; c' = dropWhile is_ascii_digit c in
        if ds = [] then (None, c')
        else case to_i64 ds of
               None \<Rightarrow> (None, c')
             | Some v \<Rightarrow> (case checked_i64 (v * nanos_per_sec) of
                            None \<Rightarrow> (None, c')
                          | Some n \<Rightarrow> (Some (p\<lparr>pt_epoch := Some n\<rparr>), c')))
      else if d = CHR ''p'' then bindp ampm (\<lambda>v. returnp (p\<lparr>pt_pm := Some v\<rparr>))
      else if d = CHR ''n'' then bindp ws (\<lambda>_. returnp p)
      else if d = CHR ''%'' then bindp (lit (CHR ''%'')) (\<lambda>_. returnp p)
      else failp)"

function strf_loop :: "bytes \<Rightarrow> parts \<Rightarrow> parts cursor_op" where
  "strf_loop [] p c = (Some p, c)"
| "strf_loop (b # l) p c =
     (if b = CHR ''%'' then
        (case l of
           [] \<Rightarrow> (None, c)
         | d # l' \<Rightarrow> bindp (strf_directive d p) (strf_loop l') c)
      else if is_ascii_whitespace b then bindp ws (\<lambda>_. strf_loop (skip_ws l) p) c
      else bindp (lit b) (\<lambda>_. strf_loop l p) c)"
  by pat_completeness auto
termination
  by (relation "measure (\<lambda>(l, p, c). length l)")
     (auto simp: skip_ws_def length_dropWhile_le less_Suc_eq_le)

definition strftime_ts :: "bytes \<Rightarrow> bytes \<Rightarrow> parts option" where
  "strftime_ts layout s = eof_then (strf_loop layout parts_default s)"

definition strip_brackets :: "bytes \<Rightarrow> bytes" where
  "strip_brackets s =
     (if 2 \<le> length s \<and> hd s = CHR ''['' \<and> last s = CHR '']'' then butlast (tl s) else s)"

fun first_some :: "('a \<Rightarrow> 'b option) \<Rightarrow> 'a list \<Rightarrow> 'b option" where
  "first_some f [] = None"
| "first_some f (x # xs) = (case f x of Some y \<Rightarrow> Some y | None \<Rightarrow> first_some f xs)"

definition auto_ts :: "bytes \<Rightarrow> time_error + parts" where
  "auto_ts s0 =
     (let s = strip_brackets s0 in
      if s \<noteq> [] \<and> is_ascii_digit (hd s) \<and> 9 \<le> length s \<and>
         list_all (\<lambda>b. is_ascii_digit b \<or> b = CHR ''.'') s
      then epoch_ts s None
      else case first_some (\<lambda>f. f s)
              ([rfc3339, syslog_ts, ctime_ts] @ map strftime_ts auto_layouts) of
             Some p \<Rightarrow> Inr p
           | None \<Rightarrow> Inl TNoMatch)"

subsection \<open>Resolving to an instant\<close>

definition rollover_slack :: int where
  "rollover_slack = 7 * day_secs * nanos_per_sec"

definition resolve_zone :: "zone \<Rightarrow> int \<Rightarrow> int \<times> policies" where
  "resolve_zone z default_offset =
     (case z of
        ZNone \<Rightarrow> (default_offset, tz_assumed)
      | ZOffset off \<Rightarrow> (off, pol_none)
      | ZName n \<Rightarrow>
          (case find (\<lambda>(name, _, _). eq_ignore_ascii_case name n) zones of
             Some (_, off, False) \<Rightarrow> (off, pol_none)
           | Some (_, off, True) \<Rightarrow> (off, zone_name_ambiguous)
           | None \<Rightarrow> (default_offset, zone_name_unknown)))"

definition resolve_hour :: "parts \<Rightarrow> nat" where
  "resolve_hour p = (case pt_pm p of Some pm \<Rightarrow> pt_hour p mod 12 + (if pm then 12 else 0) | None \<Rightarrow> pt_hour p)"

text \<open>The closure \<open>build\<close>: the instant these parts name in a given year.\<close>

definition build_in_year :: "parts \<Rightarrow> int \<Rightarrow> int \<Rightarrow> int option" where
  "build_in_year p offset year =
     (case (case pt_yday p of
              Some yd \<Rightarrow>
                if yd = 0 \<or> 365 + (if is_leap year then 1 else 0) < int yd then None
                else (case civil_from_days (days_from_civil year 1 1 + int yd - 1) of
                        (_, m, d) \<Rightarrow> Some (m, d))
            | None \<Rightarrow> Some (int (pt_month p), int (pt_day p))) of
        None \<Rightarrow> None
      | Some (month, day) \<Rightarrow>
          epoch_from_civil \<lparr>cv_year = year, cv_month = month, cv_day = day,
            cv_hour = int (resolve_hour p), cv_minute = int (pt_minute p),
            cv_second = int (pt_second p), cv_nanos = int (pt_nanos p)\<rparr> offset)"

definition resolve :: "parts \<Rightarrow> context_time \<Rightarrow> time_error + timestamp" where
  "resolve p ctx =
     (case pt_epoch p of
        Some e \<Rightarrow>
          (case checked_i64 (e + int (pt_nanos p)) of
             Some n \<Rightarrow> Inr \<lparr>ts_nanos = n, ts_policies = pol_none\<rparr>
           | None \<Rightarrow> Inl TOutOfRange)
      | None \<Rightarrow>
          (let (offset, policies) = resolve_zone (pt_zone p) (ctx_offset ctx);
               (nanos, policies') =
                 (case pt_year p of
                    Some y \<Rightarrow> (build_in_year p offset y, policies)
                  | None \<Rightarrow>
                      (let local = saturating_i64 (ctx_receipt ctx + offset * nanos_per_sec);
                           y = cv_year (civil_from_epoch local);
                           latest = saturating_i64 (ctx_receipt ctx + rollover_slack)
                       in ((case build_in_year p offset y of
                              Some e \<Rightarrow> if e \<le> latest then Some e else build_in_year p offset (y - 1)
                            | None \<Rightarrow> build_in_year p offset (y - 1)),
                           pol_union policies year_assumed)))
           in case nanos of
                Some n \<Rightarrow> Inr \<lparr>ts_nanos = n, ts_policies = policies'\<rparr>
              | None \<Rightarrow> Inl TOutOfRange))"

subsection \<open>\<open>parse\<close>\<close>

text \<open>\<open>std::str::from_utf8\<close> accepts exactly the well-formed UTF-8 sequences.\<close>

definition is_cont :: "byte \<Rightarrow> bool" where
  "is_cont b \<longleftrightarrow> 128 \<le> bv b \<and> bv b \<le> 191"

fun utf8_valid :: "bytes \<Rightarrow> bool" where
  "utf8_valid [] = True"
| "utf8_valid (a # r) =
     (if bv a \<le> 127 then utf8_valid r
      else if 194 \<le> bv a \<and> bv a \<le> 223 then
        (case r of b # r1 \<Rightarrow> is_cont b \<and> utf8_valid r1 | _ \<Rightarrow> False)
      else if 224 \<le> bv a \<and> bv a \<le> 239 then
        (case r of b # c # r2 \<Rightarrow>
           is_cont b \<and> is_cont c \<and> (bv a = 224 \<longrightarrow> 160 \<le> bv b) \<and> (bv a = 237 \<longrightarrow> bv b \<le> 159) \<and> utf8_valid r2
         | _ \<Rightarrow> False)
      else if 240 \<le> bv a \<and> bv a \<le> 244 then
        (case r of b # c # d # r3 \<Rightarrow>
           is_cont b \<and> is_cont c \<and> is_cont d \<and> (bv a = 240 \<longrightarrow> 144 \<le> bv b) \<and> (bv a = 244 \<longrightarrow> bv b \<le> 143) \<and> utf8_valid r3
         | _ \<Rightarrow> False)
      else False)"

definition trim_ascii :: "bytes \<Rightarrow> bytes" where
  "trim_ascii s = rev (dropWhile is_ascii_whitespace (rev (dropWhile is_ascii_whitespace s)))"

definition opt_match :: "parts option \<Rightarrow> time_error + parts" where
  "opt_match r = (case r of Some p \<Rightarrow> Inr p | None \<Rightarrow> Inl TNoMatch)"

definition parse_ts :: "bytes \<Rightarrow> time_format \<Rightarrow> context_time \<Rightarrow> time_error + timestamp" where
  "parse_ts input fmt ctx =
     (if \<not> utf8_valid input then Inl TNoMatch
      else let s = trim_ascii input in
        if s = [] then Inl TEmpty
        else case (case fmt of
                     Auto \<Rightarrow> auto_ts s
                   | Rfc3339 \<Rightarrow> opt_match (rfc3339 s)
                   | Syslog \<Rightarrow> opt_match (syslog_ts s)
                   | Ctime \<Rightarrow> opt_match (ctime_ts s)
                   | EpochSecs \<Rightarrow> epoch_ts s (Some nanos_per_sec)
                   | EpochMillis \<Rightarrow> epoch_ts s (Some 1000000)
                   | EpochMicros \<Rightarrow> epoch_ts s (Some 1000)
                   | EpochNanos \<Rightarrow> epoch_ts s (Some 1)
                   | Strftime layout \<Rightarrow> opt_match (strftime_ts layout s)) of
               Inl e \<Rightarrow> Inl e
             | Inr p \<Rightarrow> resolve p ctx)"

subsection \<open>Cursor laws\<close>

lemma digits_loop_digits:
  "(\<And>b. b \<in> set ds \<Longrightarrow> is_ascii_digit b) \<Longrightarrow>
    digits_loop (length ds) v n (ds @ r) = (foldl (\<lambda>v b. v * 10 + digit_val b) v ds, n + length ds, r)"
  by (induction ds arbitrary: v n) simp_all

lemma digits_val_append:
  "foldl (\<lambda>v b. v * 10 + digit_val b) v ds = v * 10 ^ length ds + digits_val ds"
proof (induction ds arbitrary: v)
  case Nil
  then show ?case by (simp add: digits_val_def)
next
  case (Cons d ds)
  show ?case
    using Cons.IH [of "v * 10 + digit_val d"] Cons.IH [of "digit_val d"]
    by (simp add: digits_val_def algebra_simps)
qed

lemma digits_val_fixed: "n < 10 ^ k \<Longrightarrow> digits_val (fixed_dec k n) = n"
proof (induction k arbitrary: n)
  case 0
  then show ?case by (simp add: digits_val_def)
next
  case (Suc k)
  have "n div 10 < 10 ^ k" using Suc.prems by (simp add: less_mult_imp_div_less mult.commute)
  with Suc.IH have "digits_val (fixed_dec k (n div 10)) = n div 10" by simp
  then show ?case by (simp add: digits_val_def)
qed

lemma fixed_parses: "n < 10 ^ k \<Longrightarrow> fixed k (fixed_dec k n @ r) = (Some n, r)"
  using digits_loop_digits [of "fixed_dec k n" 0 0 r] digits_val_append [of 0 "fixed_dec k n"] fixed_dec_digits
  by (simp add: fixed_def digits_def digits_val_fixed)

lemma digits12_parses: "n < 100 \<Longrightarrow> digits (Suc 0) 2 (fixed_dec 2 n @ r) = (Some n, r)"
  using digits_loop_digits [of "fixed_dec 2 n" 0 0 r] digits_val_append [of 0 "fixed_dec 2 n"] fixed_dec_digits
    digits_val_fixed [of n 2]
  by (simp add: digits_def)

lemma takeWhile_digits:
  "(\<And>b. b \<in> set ds \<Longrightarrow> is_ascii_digit b) \<Longrightarrow> \<not> is_ascii_digit x \<Longrightarrow>
    takeWhile is_ascii_digit (ds @ x # r) = ds \<and> dropWhile is_ascii_digit (ds @ x # r) = x # r"
  by (simp add: takeWhile_append2 dropWhile_append2)

lemma fraction_parses:
  "n < 10 ^ k \<Longrightarrow> 0 < k \<Longrightarrow> k \<le> 9 \<Longrightarrow> \<not> is_ascii_digit x \<Longrightarrow>
    fraction (fixed_dec k n @ x # r) = (Some (n * 10 ^ (9 - k)), x # r)"
proof -
  assume n: "n < 10 ^ k" and k: "0 < k" "k \<le> 9" and x: "\<not> is_ascii_digit x"
  have "fixed_dec k n \<noteq> []" using k fixed_dec_length [of k n] by (metis less_irrefl list.size(3))
  moreover have "take 9 (fixed_dec k n) = fixed_dec k n" using k by simp
  ultimately show ?thesis
    using takeWhile_digits [of "fixed_dec k n" x r] fixed_dec_digits [of _ k n] x n
    by (simp add: fraction_def digits_val_fixed)
qed

lemma lit_parses: "lit b (b # r) = (Some (), r)"
  by (simp add: lit_def)

text \<open>Every accepted timestamp fits in \<open>i64\<close> nanoseconds.\<close>

lemma epoch_from_civil_ok: "epoch_from_civil c off = Some e \<Longrightarrow> i64_ok e"
  by (auto simp: epoch_from_civil_def checked_i64_def split: if_splits)

lemma build_in_year_ok: "build_in_year p off y = Some e \<Longrightarrow> i64_ok e"
  by (auto simp: build_in_year_def split: option.splits prod.splits if_splits dest: epoch_from_civil_ok)

lemma resolve_ok: "resolve p ctx = Inr t \<Longrightarrow> i64_ok (ts_nanos t)"
  by (auto simp: resolve_def Let_def checked_i64_def split: option.splits prod.splits if_splits
      dest!: build_in_year_ok)

subsection \<open>The RFC 3339 round trip\<close>

definition civil_parts :: "civil \<Rightarrow> nat \<Rightarrow> parts" where
  "civil_parts c ms = \<lparr>pt_year = Some (cv_year c), pt_month = nat (cv_month c), pt_day = nat (cv_day c),
     pt_yday = None, pt_hour = nat (cv_hour c), pt_minute = nat (cv_minute c),
     pt_second = nat (cv_second c), pt_nanos = ms * 1000000, pt_pm = None, pt_zone = ZOffset 0,
     pt_epoch = None\<rparr>"

definition civil_text :: "civil \<Rightarrow> nat \<Rightarrow> bytes" where
  "civil_text c ms =
     fixed_dec 4 (nat (cv_year c)) @ CHR ''-'' # fixed_dec 2 (nat (cv_month c)) @ CHR ''-'' #
     fixed_dec 2 (nat (cv_day c)) @ CHR ''T'' # fixed_dec 2 (nat (cv_hour c)) @ CHR '':'' #
     fixed_dec 2 (nat (cv_minute c)) @ CHR '':'' # fixed_dec 2 (nat (cv_second c)) @ CHR ''.'' #
     fixed_dec 3 ms @ [CHR ''Z'']"

definition civil_small :: "civil \<Rightarrow> bool" where
  "civil_small c \<longleftrightarrow> 0 \<le> cv_year c \<and> cv_year c < 10000 \<and> 0 \<le> cv_month c \<and> cv_month c < 100 \<and>
     0 \<le> cv_day c \<and> cv_day c < 100 \<and> 0 \<le> cv_hour c \<and> cv_hour c < 100 \<and>
     0 \<le> cv_minute c \<and> cv_minute c < 100 \<and> 0 \<le> cv_second c \<and> cv_second c < 100"

lemma hms_parses:
  assumes "h < 100" "m < 100" "s < 100" "ms < 1000"
  shows "hms p (fixed_dec 2 h @ CHR '':'' # fixed_dec 2 m @ CHR '':'' # fixed_dec 2 s @ CHR ''.'' #
      fixed_dec 3 ms @ [CHR ''Z'']) =
    (Some (p\<lparr>pt_hour := h, pt_minute := m, pt_second := s, pt_nanos := ms * 1000000\<rparr>), [CHR ''Z''])"
proof -
  have z: "\<not> is_ascii_digit (CHR ''Z'')" by code_simp
  show ?thesis
    using assms fraction_parses [of ms 3 "CHR ''Z''" "[]"] z
    by (simp add: hms_def bindp_def returnp_def lit_parses fixed_parses digits12_parses as_u8_id)
qed

lemma rfc3339_civil:
  assumes "civil_small c" "ms < 1000"
  shows "rfc3339 (civil_text c ms) = Some (civil_parts c ms)"
proof -
  have n: "nat (cv_year c) < 10 ^ 4" "nat (cv_month c) < 100" "nat (cv_day c) < 100"
    "nat (cv_hour c) < 100" "nat (cv_minute c) < 100" "nat (cv_second c) < 100"
    and y: "int (nat (cv_year c)) = cv_year c"
    using assms(1) by (auto simp: civil_small_def nat_less_iff)
  have z: "skip_ws [CHR ''Z''] = [CHR ''Z'']" "offset_op [CHR ''Z''] = (Some 0, [])"
    by (simp_all add: skip_ws_def offset_op_def is_ascii_whitespace_def)
  show ?thesis
    unfolding rfc3339_def civil_text_def
    using n y z assms(2)
    by (simp add: bindp_def returnp_def lit_parses fixed_parses as_u8_id hms_parses eof_then_def
        parts_default_def civil_parts_def)
qed

lemma utf8_ascii: "(\<And>b. b \<in> set s \<Longrightarrow> bv b \<le> 127) \<Longrightarrow> utf8_valid s"
  by (induction s rule: utf8_valid.induct) auto

lemma trim_ascii_id:
  assumes "s \<noteq> []" "\<not> is_ascii_whitespace (hd s)" "\<not> is_ascii_whitespace (last s)"
  shows "trim_ascii s = s"
proof -
  from assms have "dropWhile is_ascii_whitespace s = s" by (cases s) auto
  moreover have "dropWhile is_ascii_whitespace (rev s) = rev s"
    using assms by (cases s rule: rev_cases) auto
  ultimately show ?thesis by (simp add: trim_ascii_def)
qed

lemma is_digit_bounds: "is_ascii_digit b \<Longrightarrow> bv b \<le> 127 \<and> \<not> is_ascii_whitespace b"
  by (auto simp: is_ascii_digit_def is_ascii_whitespace_def)

lemma fixed_dec_hd: "0 < k \<Longrightarrow> is_ascii_digit (hd (fixed_dec k n))"
proof -
  assume "0 < k"
  then have "fixed_dec k n \<noteq> []" using fixed_dec_length [of k n] by (metis less_irrefl list.size(3))
  then show ?thesis using fixed_dec_digits hd_in_set by blast
qed

lemma civil_text_shape:
  "civil_text c ms \<noteq> []" "is_ascii_digit (hd (civil_text c ms))" "last (civil_text c ms) = CHR ''Z''"
  "utf8_valid (civil_text c ms)" "CHR ''-'' \<in> set (civil_text c ms)"
proof -
  have ne: "fixed_dec 4 (nat (cv_year c)) \<noteq> []"
    using fixed_dec_length [of 4 "nat (cv_year c)"] by (metis list.size(3) zero_neq_numeral)
  then show "is_ascii_digit (hd (civil_text c ms))"
    using fixed_dec_hd [of 4] by (simp add: civil_text_def)
  show "civil_text c ms \<noteq> []" "last (civil_text c ms) = CHR ''Z''" "CHR ''-'' \<in> set (civil_text c ms)"
    by (simp_all add: civil_text_def)
  show "utf8_valid (civil_text c ms)"
  proof (rule utf8_ascii)
    fix b assume "b \<in> set (civil_text c ms)"
    then consider "is_ascii_digit b" | "b \<in> {CHR ''-'', CHR ''T'', CHR '':'', CHR ''.'', CHR ''Z''}"
      using fixed_dec_digits by (auto simp: civil_text_def)
    then show "bv b \<le> 127" by cases (auto dest: is_digit_bounds)
  qed
qed

lemma rfc3339_or_auto:
  assumes "s \<noteq> []" "is_ascii_digit (hd s)" "CHR ''-'' \<in> set s" "rfc3339 s = Some p"
  shows "auto_ts s = Inr p"
proof -
  have "hd s \<noteq> CHR ''[''" using assms(2) by (auto simp: is_ascii_digit_def)
  then have st: "strip_brackets s = s" by (simp add: strip_brackets_def)
  have "\<not> list_all (\<lambda>b. is_ascii_digit b \<or> b = CHR ''.'') s"
    using assms(3) by (auto simp: list_all_iff is_ascii_digit_def intro!: bexI [of _ "CHR ''-''"])
  with assms(4) show ?thesis unfolding auto_ts_def st Let_def by simp
qed

lemma format_civil_text:
  assumes "i64_ok n" "0 \<le> n"
  shows "civil_small (civil_from_epoch n)" "1970 \<le> cv_year (civil_from_epoch n)"
    and "format_rfc3339 n = civil_text (civil_from_epoch n) (nat (cv_nanos (civil_from_epoch n) div 1000000))"
    and "cv_nanos (civil_from_epoch n) div 1000000 < 1000"
proof -
  let ?c = "civil_from_epoch n"
  note f = civil_from_epoch_fields [of n]
  have secs: "0 \<le> n div nanos_per_sec div day_secs" "n div nanos_per_sec div day_secs < 107016"
    using assms by (auto simp: time_consts i64_ok_def)
  have y: "1970 \<le> cv_year ?c" "cv_year ?c < 2263"
    using year_bounds [OF f(12), of 1970 2263] secs year_start_1970 year_start_2263 by simp_all
  show "1970 \<le> cv_year ?c" by (rule y)
  have d: "cv_day ?c \<le> 31"
    using f(1) by (auto simp: valid_date_def days_in_month_def split: if_splits)
  show small: "civil_small ?c"
    using y f(1-7) d by (auto simp: civil_small_def valid_date_def)
  show ms: "cv_nanos ?c div 1000000 < 1000" using f(8,9) by auto
  have p: "pad_dec 4 (nat (cv_year ?c)) = fixed_dec 4 (nat (cv_year ?c))"
    "pad_dec 2 (nat (cv_month ?c)) = fixed_dec 2 (nat (cv_month ?c))"
    "pad_dec 2 (nat (cv_day ?c)) = fixed_dec 2 (nat (cv_day ?c))"
    "pad_dec 2 (nat (cv_hour ?c)) = fixed_dec 2 (nat (cv_hour ?c))"
    "pad_dec 2 (nat (cv_minute ?c)) = fixed_dec 2 (nat (cv_minute ?c))"
    "pad_dec 2 (nat (cv_second ?c)) = fixed_dec 2 (nat (cv_second ?c))"
    "pad_dec 3 (nat (cv_nanos ?c div 1000000)) = fixed_dec 3 (nat (cv_nanos ?c div 1000000))"
    using pad_dec_fixed [of 4 "nat (cv_year ?c)"] pad_dec_fixed [of 2] pad_dec_fixed [of 3] small ms
    by (simp_all add: civil_small_def nat_less_iff)
  show "format_rfc3339 n = civil_text ?c (nat (cv_nanos ?c div 1000000))"
    unfolding format_rfc3339_def Let_def civil_text_def p by simp
qed

text \<open>
  The timestamp ULPF prints parses back: for every representable instant from 1970 on, the
  string \<open>format_rfc3339\<close> writes is accepted by the \<open>rfc3339\<close> format and by \<open>auto\<close>, with no policy
  flag, as that instant truncated to the millisecond, whatever the receipt time and default zone.
\<close>

theorem rfc3339_roundtrip:
  assumes "i64_ok n" "0 \<le> n" "fmt = Rfc3339 \<or> fmt = Auto"
  shows "parse_ts (format_rfc3339 n) fmt ctx =
    Inr \<lparr>ts_nanos = n - n mod 1000000, ts_policies = pol_none\<rparr>"
proof -
  let ?c = "civil_from_epoch n" and ?ms = "nat (cv_nanos (civil_from_epoch n) div 1000000)"
  note fc = format_civil_text [OF assms(1,2)]
  note f = civil_from_epoch_fields [of n]
  have ms: "?ms < 1000" using fc(4) f(8) by (simp add: nat_less_iff)
  note r = rfc3339_civil [OF fc(1) ms]
  note sh = civil_text_shape [of ?c ?ms]
  have tr: "trim_ascii (civil_text ?c ?ms) = civil_text ?c ?ms"
    using sh(2,3) by (intro trim_ascii_id [OF sh(1)]) (auto dest: is_digit_bounds simp: is_ascii_whitespace_def)
  have p: "parse_ts (format_rfc3339 n) fmt ctx = resolve (civil_parts ?c ?ms) ctx"
    unfolding fc(3) using assms(3) sh tr r rfc3339_or_auto [OF sh(1,2,5) r]
    by (auto simp: parse_ts_def opt_match_def)
  have v: "civil_valid (?c\<lparr>cv_nanos := int ?ms * 1000000\<rparr>)"
    using fc(1,2) f ms by (auto simp: civil_valid_def civil_small_def valid_date_def)
  have s: "civil_secs (?c\<lparr>cv_nanos := int ?ms * 1000000\<rparr>) 0 = n div nanos_per_sec"
    using f(10) [of 0] by (simp add: civil_secs_def)
  have "int ?ms * 1000000 = n mod nanos_per_sec - n mod nanos_per_sec mod 1000000"
    using f(8,11) by (simp add: minus_mod_eq_div_mult [symmetric])
  moreover have "n mod nanos_per_sec mod 1000000 = n mod 1000000"
    by (simp add: nanos_per_sec_def mod_mod_cancel)
  ultimately have sub: "n div nanos_per_sec * nanos_per_sec + int ?ms * 1000000 = n - n mod 1000000"
    using div_mult_mod_eq [of n nanos_per_sec] by linarith
  have "0 \<le> n mod 1000000" "n mod 1000000 \<le> n" using assms(2) by (simp_all add: zmod_le_nonneg_dividend)
  then have ok2: "i64_ok (n - n mod 1000000)" using assms(1,2) by (simp add: i64_ok_def)
  have "0 \<le> n div nanos_per_sec * nanos_per_sec" "n div nanos_per_sec * nanos_per_sec \<le> n"
    using assms(2) by (auto simp: time_consts)
  then have ok1: "i64_ok (n div nanos_per_sec * nanos_per_sec)" using assms(1) by (simp add: i64_ok_def)
  have "epoch_from_civil (?c\<lparr>cv_nanos := int ?ms * 1000000\<rparr>) 0 = Some (n - n mod 1000000)"
    using v s ok1 ok2 sub by (simp add: epoch_from_civil_def checked_i64_def)
  moreover have "build_in_year (civil_parts ?c ?ms) 0 (cv_year ?c) =
      epoch_from_civil (?c\<lparr>cv_nanos := int ?ms * 1000000\<rparr>) 0"
    using fc(1) by (cases ?c) (simp add: build_in_year_def civil_parts_def resolve_hour_def civil_small_def)
  ultimately show ?thesis
    unfolding p by (simp add: resolve_def civil_parts_def resolve_zone_def)
qed

theorem rfc3339_roundtrip_witness:
  "parse_ts (format_rfc3339 1709164799123456789) Auto \<lparr>ctx_receipt = 0, ctx_offset = 19800\<rparr> =
    Inr \<lparr>ts_nanos = 1709164799123000000, ts_policies = pol_none\<rparr>"
  using rfc3339_roundtrip [of 1709164799123456789 Auto] by (simp add: i64_ok_def)

subsection \<open>Timestamps without a year\<close>

lemma build_in_year_before:
  assumes "build_in_year p off y = Some e"
  shows "1970 \<le> y" "e < (year_start (y + 1) * day_secs + 1 - off) * nanos_per_sec"
proof -
  obtain c where c: "epoch_from_civil c off = Some e" "cv_year c = y"
    using assms by (auto simp: build_in_year_def split: option.splits prod.splits if_splits)
  have v: "civil_valid c" and e: "e = civil_secs c off * nanos_per_sec + cv_nanos c"
    using c(1) by (auto simp: epoch_from_civil_def checked_i64_def split: if_splits)
  then show "1970 \<le> y" using c(2) by (simp add: civil_valid_def)
  have "valid_date y (cv_month c) (cv_day c)" using v c(2) by (simp add: civil_valid_def valid_date_def)
  from date_in_year(2) [OF this] v c(2) have
    "civil_secs c off \<le> year_start (y + 1) * day_secs - off"
    by (simp add: civil_secs_def civil_valid_def day_secs_def)
  then have "civil_secs c off * nanos_per_sec \<le> (year_start (y + 1) * day_secs - off) * nanos_per_sec"
    by (rule mult_right_mono) (simp add: nanos_per_sec_def)
  moreover have "cv_nanos c < nanos_per_sec" using v by (simp add: civil_valid_def nanos_per_sec_def)
  ultimately show "e < (year_start (y + 1) * day_secs + 1 - off) * nanos_per_sec"
    unfolding e by (simp add: algebra_simps)
qed

lemma year_of_epoch_start:
  "year_start (cv_year (civil_from_epoch l)) * day_secs * nanos_per_sec \<le> l"
proof -
  have "year_start (cv_year (civil_from_epoch l)) \<le> l div nanos_per_sec div day_secs"
    using year_of_days(1) [OF civil_from_epoch_fields(12)] .
  then have "year_start (cv_year (civil_from_epoch l)) * day_secs \<le> l div nanos_per_sec div day_secs * day_secs"
    by (rule mult_right_mono) (simp add: day_secs_def)
  also have "\<dots> \<le> l div nanos_per_sec" by (simp add: day_secs_def)
  finally have "year_start (cv_year (civil_from_epoch l)) * day_secs * nanos_per_sec \<le> l div nanos_per_sec * nanos_per_sec"
    by (rule mult_right_mono) (simp add: nanos_per_sec_def)
  also have "\<dots> \<le> l" by (simp add: nanos_per_sec_def)
  finally show ?thesis .
qed

text \<open>
  A timestamp without a year never lands in the future: whatever its fields and zone, if it
  resolves at all, the instant is at most seven days after receipt, and the result carries the
  \<open>year_assumed\<close> flag.
\<close>

theorem no_year_never_future:
  assumes "resolve p ctx = Inr t" "pt_epoch p = None" "pt_year p = None" "i64_ok (ctx_receipt ctx)"
  shows "ts_nanos t \<le> ctx_receipt ctx + rollover_slack \<and> pol_contains (ts_policies t) year_assumed"
proof -
  obtain off pol where z: "resolve_zone (pt_zone p) (ctx_offset ctx) = (off, pol)" by fastforce
  define l where "l = saturating_i64 (ctx_receipt ctx + off * nanos_per_sec)"
  define y where "y = cv_year (civil_from_epoch l)"
  define latest where "latest = saturating_i64 (ctx_receipt ctx + rollover_slack)"
  define r where "r = (case build_in_year p off y of
      Some e \<Rightarrow> if e \<le> latest then Some e else build_in_year p off (y - 1)
    | None \<Rightarrow> build_in_year p off (y - 1))"
  have res: "resolve p ctx = (case r of
      Some n \<Rightarrow> Inr \<lparr>ts_nanos = n, ts_policies = pol_union pol year_assumed\<rparr> | None \<Rightarrow> Inl TOutOfRange)"
    unfolding resolve_def Let_def r_def y_def l_def latest_def using assms(2,3) z by simp
  then obtain e where e: "r = Some e" "ts_nanos t = e" "ts_policies t = pol_union pol year_assumed"
    using assms(1) by (auto split: option.splits)
  have latest_le: "latest \<le> ctx_receipt ctx + rollover_slack"
    using assms(4) by (simp add: latest_def saturating_i64_def i64_ok_def rollover_slack_def time_consts)
  have "e \<le> ctx_receipt ctx + rollover_slack"
  proof (cases "\<exists>e'. build_in_year p off y = Some e' \<and> e' \<le> latest")
    case True
    with e(1) latest_le show ?thesis by (auto simp: r_def)
  next
    case False
    with e(1) have b: "build_in_year p off (y - 1) = Some e"
      by (auto simp: r_def split: option.splits if_splits)
    note before = build_in_year_before [OF b]
    have y1970: "1970 \<le> y - 1" using before(1) by linarith
    have ys: "year_start y * day_secs * nanos_per_sec \<le> l" unfolding y_def by (rule year_of_epoch_start)
    have "0 \<le> year_start y" using year_start_mono [of 1970 y] year_start_1970 y1970 by simp
    then have "0 \<le> l" using ys by (simp add: time_consts)
    then have "l \<le> ctx_receipt ctx + off * nanos_per_sec"
      by (auto simp: l_def saturating_i64_def)
    moreover have "e < year_start y * day_secs * nanos_per_sec + nanos_per_sec - off * nanos_per_sec"
      using before(2) by (simp add: algebra_simps)
    ultimately have "e < ctx_receipt ctx + nanos_per_sec" using ys by linarith
    then show ?thesis by (simp add: rollover_slack_def time_consts)
  qed
  with e show ?thesis by (simp add: pol_union_contains)
qed

theorem no_year_never_future_witness:
  "\<exists>t. resolve (parts_default\<lparr>pt_month := 12, pt_day := 31, pt_hour := 23\<rparr>)
       \<lparr>ctx_receipt = 1704067200000000000, ctx_offset = 0\<rparr> = Inr t \<and>
     ts_nanos t = 1704063600000000000 \<and>
     ts_nanos t \<le> 1704067200000000000 + rollover_slack \<and> pol_contains (ts_policies t) year_assumed"
proof -
  let ?p = "parts_default\<lparr>pt_month := 12, pt_day := 31, pt_hour := 23\<rparr>"
  let ?ctx = "\<lparr>ctx_receipt = 1704067200000000000, ctx_offset = 0\<rparr>"
  have r: "resolve ?p ?ctx = Inr \<lparr>ts_nanos = 1704063600000000000, ts_policies = 3\<rparr>"
    by code_simp
  from no_year_never_future [OF r] show ?thesis
    unfolding r by (simp add: parts_default_def i64_ok_def)
qed

subsection \<open>A digit the offset parser drops\<close>

text \<open>
  \<open>offset\<close> accepts a sign, two digits of hours and a single further digit, which it consumes
  and ignores: the documented forms have zero or two minute digits.
\<close>

lemma offset_drops_digit:
  assumes "is_ascii_digit d"
  shows "offset_op (''+05'' @ [d]) = (Some 18000, [])"
proof -
  have five: "fixed 2 (''05'' @ [d]) = (Some 5, [d])"
    by (simp add: fixed_def digits_def numeral_2_eq_2) (simp add: is_ascii_digit_def digit_val_def)
  have "d \<noteq> CHR '':''" using assms by (auto simp: is_ascii_digit_def)
  moreover have "fixed 2 [d] = (None, [])"
    using assms by (simp add: fixed_def digits_def numeral_2_eq_2)
  ultimately show ?thesis using five by (simp add: offset_op_def bindp_def lit_def)
qed

end
