(* ===== verification/Ulpf_Parsed.thy ===== *)
theory Ulpf_Parsed
  imports Ulpf_Time_Parse
begin

text \<open>
  The output of a parse: \<open>Field\<close>, \<open>Parsed\<close> and its methods in
  \<open>src/crates/ulpf-parse/src/lib.rs\<close>, with \<open>ParseFailure\<close> and \<open>SubStatus\<close> of \<open>compile.rs\<close>. A
  \<open>Cow\<close> remembers whether its bytes are a span of the event or owned, because the buffer pool
  and the sub stage depend on it. The locales state what the parser relies on: an extender only
  appends fields, a strategy is an extender that leaves no field behind when it fails.
\<close>

datatype cow = Borrowed bytes | Owned bytes

fun cow_bytes :: "cow \<Rightarrow> bytes" where
  "cow_bytes (Borrowed b) = b"
| "cow_bytes (Owned b) = b"

record field =
  fd_key :: cow
  fd_value :: cow

datatype parse_failure =
  PatternNoMatch | NoPairs | NoColumns | InvalidJson | InvalidCef | InvalidLeef | InvalidXml

definition parse_reason :: "parse_failure \<Rightarrow> bytes" where
  "parse_reason f = (case f of
     PatternNoMatch \<Rightarrow> ''pattern_no_match'' | NoPairs \<Rightarrow> ''no_pairs'' | NoColumns \<Rightarrow> ''no_columns''
   | InvalidJson \<Rightarrow> ''invalid_json'' | InvalidCef \<Rightarrow> ''invalid_cef'' | InvalidLeef \<Rightarrow> ''invalid_leef''
   | InvalidXml \<Rightarrow> ''invalid_xml'')"

datatype sub_status = NotApplicable | SubMatched | SubNoMatch | SubUncovered

record parsed =
  pa_fields :: "field list"
  pa_timestamp :: "timestamp option"
  pa_ts_text :: "cow option"
  pa_ts_error :: "time_error option"
  pa_sub :: sub_status
  pa_spare :: bytes
  pa_keys :: "bytes list"
  pa_pooled :: bool

definition parsed_default :: parsed where
  "parsed_default = \<lparr>pa_fields = [], pa_timestamp = None, pa_ts_text = None, pa_ts_error = None,
     pa_sub = NotApplicable, pa_spare = [], pa_keys = [], pa_pooled = False\<rparr>"

text \<open>The owned keys of a list of fields, in the order \<open>drain\<close> pushes them to the pool.\<close>

definition owned_keys :: "field list \<Rightarrow> bytes list" where
  "owned_keys fs = concat (map (\<lambda>f. case fd_key f of Owned k \<Rightarrow> [k] | Borrowed _ \<Rightarrow> []) fs)"

definition pa_clear :: "parsed \<Rightarrow> parsed" where
  "pa_clear p =
     p\<lparr>pa_keys := (if pa_pooled p then pa_keys p @ owned_keys (pa_fields p) else pa_keys p),
       pa_pooled := False, pa_fields := [], pa_timestamp := None,
       pa_spare := (case pa_ts_text p of Some (Owned v) \<Rightarrow> v | _ \<Rightarrow> pa_spare p),
       pa_ts_text := None, pa_ts_error := None, pa_sub := NotApplicable\<rparr>"

definition take_spare :: "parsed \<Rightarrow> bytes \<times> parsed" where
  "take_spare p = ([], p\<lparr>pa_spare := []\<rparr>)"

definition give_back :: "bytes \<Rightarrow> parsed \<Rightarrow> parsed" where
  "give_back v p = p\<lparr>pa_spare := v\<rparr>"

definition take_key :: "parsed \<Rightarrow> bytes \<times> parsed" where
  "take_key p = ([], p\<lparr>pa_pooled := True, pa_keys := butlast (pa_keys p)\<rparr>)"

definition give_back_key :: "bytes \<Rightarrow> parsed \<Rightarrow> parsed" where
  "give_back_key k p = p\<lparr>pa_keys := pa_keys p @ [k]\<rparr>"

definition rollback :: "nat \<Rightarrow> parsed \<Rightarrow> parsed" where
  "rollback mark p =
     p\<lparr>pa_fields := take mark (pa_fields p),
       pa_keys := pa_keys p @ owned_keys (drop mark (pa_fields p))\<rparr>"

definition push :: "cow \<Rightarrow> cow \<Rightarrow> parsed \<Rightarrow> parsed" where
  "push k v p = p\<lparr>pa_fields := pa_fields p @ [\<lparr>fd_key = k, fd_value = v\<rparr>]\<rparr>"

definition field_of :: "bytes \<Rightarrow> field list \<Rightarrow> cow option" where
  "field_of key fs = map_option fd_value (find (\<lambda>f. cow_bytes (fd_key f) = key) fs)"

definition pa_get :: "bytes \<Rightarrow> parsed \<Rightarrow> cow option" where
  "pa_get key p = field_of key (pa_fields p)"

lemma push_simps [simp]:
  "pa_fields (push k v p) = pa_fields p @ [\<lparr>fd_key = k, fd_value = v\<rparr>]"
  "pa_timestamp (push k v p) = pa_timestamp p" "pa_ts_text (push k v p) = pa_ts_text p"
  "pa_ts_error (push k v p) = pa_ts_error p" "pa_sub (push k v p) = pa_sub p"
  "pa_spare (push k v p) = pa_spare p" "pa_keys (push k v p) = pa_keys p"
  "pa_pooled (push k v p) = pa_pooled p"
  by (simp_all add: push_def)

lemma rollback_simps [simp]:
  "pa_fields (rollback m p) = take m (pa_fields p)"
  "pa_timestamp (rollback m p) = pa_timestamp p" "pa_ts_text (rollback m p) = pa_ts_text p"
  "pa_ts_error (rollback m p) = pa_ts_error p" "pa_sub (rollback m p) = pa_sub p"
  "pa_spare (rollback m p) = pa_spare p" "pa_pooled (rollback m p) = pa_pooled p"
  by (simp_all add: rollback_def)

lemma clear_simps [simp]:
  "pa_fields (pa_clear p) = []" "pa_timestamp (pa_clear p) = None" "pa_ts_text (pa_clear p) = None"
  "pa_ts_error (pa_clear p) = None" "pa_sub (pa_clear p) = NotApplicable"
  by (simp_all add: pa_clear_def)

lemma field_of_append:
  "field_of k (xs @ ys) = (case field_of k xs of None \<Rightarrow> field_of k ys | Some v \<Rightarrow> Some v)"
  by (induction xs) (simp_all add: field_of_def)

subsection \<open>What the parser relies on\<close>

definition extends :: "parsed \<Rightarrow> parsed \<Rightarrow> bool" where
  "extends p q \<longleftrightarrow>
     (\<exists>fs. pa_fields q = pa_fields p @ fs) \<and> pa_timestamp q = pa_timestamp p \<and>
     pa_ts_text q = pa_ts_text p \<and> pa_ts_error q = pa_ts_error p \<and> pa_sub q = pa_sub p \<and>
     pa_spare q = pa_spare p"

lemma extends_refl [simp]: "extends p p"
  by (simp add: extends_def)

lemma extends_trans [trans]: "extends p q \<Longrightarrow> extends q r \<Longrightarrow> extends p r"
  by (auto simp: extends_def)

lemma extends_push [simp]: "extends p (push k v p)"
  by (simp add: extends_def)

lemma extends_push_after: "extends p q \<Longrightarrow> extends p (push k v q)"
  using extends_trans extends_push by blast

lemma extends_rollback: "extends p q \<Longrightarrow> extends p (rollback (length (pa_fields p)) q)"
  by (auto simp: extends_def)

lemma rollback_fields: "extends p q \<Longrightarrow> pa_fields (rollback (length (pa_fields p)) q) = pa_fields p"
  by (auto simp: extends_def)

lemma extends_take: "extends p q \<Longrightarrow> take (length (pa_fields p)) (pa_fields q) = pa_fields p"
  by (auto simp: extends_def)

lemma extends_get: "extends p q \<Longrightarrow> pa_get k p = Some v \<Longrightarrow> pa_get k q = Some v"
  by (auto simp: extends_def pa_get_def field_of_append)

locale extender =
  fixes ext :: "bytes \<Rightarrow> parsed \<Rightarrow> parsed"
  assumes ext_extends: "extends p (ext t p)"
begin

lemma keeps_fields: "take (length (pa_fields p)) (pa_fields (ext t p)) = pa_fields p"
  using ext_extends [of p t] by (auto simp: extends_def)

lemma keeps_field: "pa_get k p = Some v \<Longrightarrow> pa_get k (ext t p) = Some v"
  using ext_extends by (rule extends_get)

lemma keeps_time: "pa_timestamp (ext t p) = pa_timestamp p"
  using ext_extends [of p t] by (simp add: extends_def)

end

locale strategy =
  fixes app :: "bytes \<Rightarrow> parsed \<Rightarrow> parse_failure option \<times> parsed"
  assumes app_extends: "extends p (snd (app t p))"
    and app_clean: "fst (app t p) \<noteq> None \<Longrightarrow> pa_fields (snd (app t p)) = pa_fields p"
begin

lemma app_failed: "app t p = (Some e, q) \<Longrightarrow> pa_fields q = pa_fields p"
  using app_clean [of t p] by simp

end

sublocale strategy \<subseteq> extender "\<lambda>t p. snd (app t p)"
  by unfold_locales (rule app_extends)

subsection \<open>The buffer pool\<close>

text \<open>
  A parse takes key buffers from the pool and a clear or a rollback gives them back: buffers in
  the pool plus owned keys among the fields are conserved.
\<close>

definition pool_size :: "parsed \<Rightarrow> nat" where
  "pool_size p = length (pa_keys p) + length (owned_keys (pa_fields p))"

lemma owned_keys_append: "owned_keys (fs @ gs) = owned_keys fs @ owned_keys gs"
  by (simp add: owned_keys_def)

lemma rollback_pool: "pool_size (rollback m p) = pool_size p"
proof -
  have "owned_keys (pa_fields p) = owned_keys (take m (pa_fields p)) @ owned_keys (drop m (pa_fields p))"
    by (simp add: owned_keys_append [symmetric])
  then show ?thesis by (simp add: pool_size_def rollback_def)
qed

lemma clear_pool: "pa_pooled p \<Longrightarrow> pool_size (pa_clear p) = pool_size p"
  by (simp add: pool_size_def pa_clear_def owned_keys_def)

end
