(* ===== verification/Ulpf_Delim.thy ===== *)
theory Ulpf_Delim
  imports Ulpf_Parsed
begin

text \<open>
  The delimiter strategy, \<open>src/crates/ulpf-parse/src/delimiter.rs\<close>: \<open>DelimConfig::new\<close>, \<open>emit\<close> and
  \<open>apply\<close>. The row index is the suffix of the row it points at. Against the specification
  \<open>split_on\<close>, an unquoted row yields one column per piece between delimiters.
\<close>

record delim_config =
  dc_delimiter :: byte
  dc_quote :: "byte option"
  dc_fields :: "bytes option list"
  dc_rest :: "bytes option"

definition delim_new ::
  "bytes \<Rightarrow> bytes option \<Rightarrow> bytes list \<Rightarrow> bytes option \<Rightarrow> bytes + delim_config" where
  "delim_new delimiter quote names rest =
     (case (if delimiter = [CHR 0x5C, CHR ''t''] \<or> delimiter = ''tab'' then Inr (char_of (9::nat))
            else if length delimiter = 1 then Inr (hd delimiter)
            else Inl ''delimiter must be a single byte or `tab`'') of
        Inl e \<Rightarrow> Inl e
      | Inr d \<Rightarrow>
          (case (case quote of None \<Rightarrow> Inr None
                  | Some q \<Rightarrow> if q = [] then Inr None
                              else if length q = 1 then Inr (Some (hd q))
                              else Inl ''quote must be a single byte'') of
             Inl e \<Rightarrow> Inl e
           | Inr q \<Rightarrow>
               if names = [] then Inl ''delimiter strategy needs a non-empty `fields` list''
               else Inr \<lparr>dc_delimiter = d, dc_quote = q,
                         dc_fields = map (\<lambda>f. if f = ''_'' \<or> f = [] then None else Some f) names,
                         dc_rest = (case rest of None \<Rightarrow> None
                                     | Some r \<Rightarrow> if r = [] \<or> r = ''_'' then None else Some r)\<rparr>))"

definition delim_emit :: "delim_config \<Rightarrow> nat \<Rightarrow> bytes \<Rightarrow> parsed \<Rightarrow> parsed" where
  "delim_emit cfg col value out =
     (if col < length (dc_fields cfg) then
        (case dc_fields cfg ! col of
           Some name \<Rightarrow> push (Borrowed name) (Borrowed value) out
         | None \<Rightarrow> out)
      else case dc_rest cfg of
             Some rest \<Rightarrow>
               if col = length (dc_fields cfg) then
                 (if value \<noteq> [] then push (Borrowed rest) (Borrowed value) out else out)
               else push (Owned (''column_'' @ dec (col + 1))) (Borrowed value) out
           | None \<Rightarrow> push (Owned (''column_'' @ dec (col + 1))) (Borrowed value) out)"

text \<open>One column: its value and what starts at the delimiter after it (or nothing).\<close>

definition delim_column :: "delim_config \<Rightarrow> bytes \<Rightarrow> bytes \<times> bytes" where
  "delim_column cfg s =
     (let plain = (takeWhile (\<lambda>b. b \<noteq> dc_delimiter cfg) s, dropWhile (\<lambda>b. b \<noteq> dc_delimiter cfg) s) in
      case (dc_quote cfg, s) of
        (Some q, b # r) \<Rightarrow>
          if b = q then
            (takeWhile (\<lambda>b. b \<noteq> q) r,
             dropWhile (\<lambda>b. b \<noteq> dc_delimiter cfg) (tl (dropWhile (\<lambda>b. b \<noteq> q) r)))
          else plain
      | _ \<Rightarrow> plain)"

lemma length_tl_dropWhile: "length (dropWhile P (tl (dropWhile Q r))) \<le> length r"
proof -
  have "length (dropWhile P (tl (dropWhile Q r))) \<le> length (tl (dropWhile Q r))"
    by (rule length_dropWhile_le)
  also have "\<dots> \<le> length (dropWhile Q r)" by simp
  also have "\<dots> \<le> length r" by (rule length_dropWhile_le)
  finally show ?thesis .
qed

lemma delim_column_length: "delim_column cfg s = (v, t) \<Longrightarrow> length t \<le> length s"
  by (auto simp: delim_column_def Let_def length_dropWhile_le le_SucI length_tl_dropWhile
      split: option.splits list.splits if_splits)

lemma delim_column_shorter: "(v, t) = delim_column cfg s \<Longrightarrow> t \<noteq> [] \<Longrightarrow> length t - Suc 0 < length s"
  using delim_column_length [of cfg s v t] by (cases t) simp_all

function delim_loop :: "delim_config \<Rightarrow> nat \<Rightarrow> bytes \<Rightarrow> parsed \<Rightarrow> nat \<times> parsed" where
  "delim_loop cfg col s out =
     (if col = length (dc_fields cfg) \<and> dc_rest cfg \<noteq> None then
        (col + 1, if s \<noteq> [] then push (Borrowed (the (dc_rest cfg))) (Borrowed s) out else out)
      else case delim_column cfg s of
             (value, after) \<Rightarrow>
               (let out1 = delim_emit cfg col value out in
                if after = [] then (col + 1, out1)
                else if tl after = [] then (col + 2, delim_emit cfg (col + 1) [] out1)
                else delim_loop cfg (col + 1) (tl after) out1))"
  by pat_completeness auto
termination
  by (relation "measure (\<lambda>(cfg, col, s, out). length s)")
     (simp_all add: delim_column_shorter)

declare delim_loop.simps [simp del]

definition delim_apply :: "delim_config \<Rightarrow> bytes \<Rightarrow> parsed \<Rightarrow> nat \<times> parsed" where
  "delim_apply cfg text out = delim_loop cfg 0 text out"

definition delim_strategy :: "delim_config \<Rightarrow> bytes \<Rightarrow> parsed \<Rightarrow> parse_failure option \<times> parsed" where
  "delim_strategy cfg text out =
     (if text = [] then (Some NoColumns, out)
      else case delim_apply cfg text out of (n, q) \<Rightarrow> (if n = 0 then Some NoColumns else None, q))"

subsection \<open>The strategy contract\<close>

lemma delim_emit_extends [simp]: "extends out (delim_emit cfg col v out)"
  by (auto simp: delim_emit_def split: option.splits)

lemma delim_loop_extends: "delim_loop cfg col s out = (n, q) \<Longrightarrow> extends out q \<and> col < n"
proof (induction cfg col s out arbitrary: n q rule: delim_loop.induct)
  case (1 cfg col s out)
  obtain v t where c: "delim_column cfg s = (v, t)" by fastforce
  let ?out = "delim_emit cfg col v out"
  consider (rest) "col = length (dc_fields cfg) \<and> dc_rest cfg \<noteq> None"
    | (stop) "\<not> (col = length (dc_fields cfg) \<and> dc_rest cfg \<noteq> None)" "t = [] \<or> tl t = []"
    | (more) "\<not> (col = length (dc_fields cfg) \<and> dc_rest cfg \<noteq> None)" "t \<noteq> []" "tl t \<noteq> []" by blast
  then show ?case
  proof cases
    case rest
    with "1.prems" show ?thesis by (subst (asm) delim_loop.simps) auto
  next
    case stop
    have "extends out (delim_emit cfg (Suc col) [] ?out)"
      using extends_trans [OF delim_emit_extends delim_emit_extends] .
    with stop "1.prems" c show ?thesis
      by (subst (asm) delim_loop.simps) (auto simp: Let_def split: if_splits)
  next
    case more
    with "1.prems" c have "delim_loop cfg (col + 1) (tl t) ?out = (n, q)"
      by (subst (asm) delim_loop.simps) (auto simp: Let_def)
    with "1.IH" [OF more(1) c [symmetric] refl more(2,3)] show ?thesis
      using extends_trans [OF delim_emit_extends, of cfg col v out q] by auto
  qed
qed

interpretation delim: strategy "delim_strategy cfg" for cfg
proof
  fix p t
  obtain n q where k: "delim_loop cfg 0 t p = (n, q)" by fastforce
  note e = delim_loop_extends [OF k]
  show "extends p (snd (delim_strategy cfg t p))"
    using e k by (simp add: delim_strategy_def delim_apply_def)
  show "pa_fields (snd (delim_strategy cfg t p)) = pa_fields p" if "fst (delim_strategy cfg t p) \<noteq> None"
    using that e k by (auto simp: delim_strategy_def delim_apply_def split: if_splits)
qed

subsection \<open>Columns of an unquoted row\<close>

fun emit_all :: "delim_config \<Rightarrow> nat \<Rightarrow> bytes list \<Rightarrow> parsed \<Rightarrow> parsed" where
  "emit_all cfg col [] out = out"
| "emit_all cfg col (v # vs) out = emit_all cfg (col + 1) vs (delim_emit cfg col v out)"

lemma delim_loop_split:
  assumes "dc_quote cfg = None" "dc_rest cfg = None"
  shows "delim_loop cfg col s out =
    (col + length (split_on (dc_delimiter cfg) s), emit_all cfg col (split_on (dc_delimiter cfg) s) out)"
proof (induction "length s" arbitrary: s col out rule: less_induct)
  case less
  let ?d = "dc_delimiter cfg"
  have c: "delim_column cfg s = (takeWhile (\<lambda>b. b \<noteq> ?d) s, dropWhile (\<lambda>b. b \<noteq> ?d) s)"
    using assms(1) by (simp add: delim_column_def Let_def)
  show ?case
  proof (cases "?d \<in> set s")
    case False
    then have "takeWhile (\<lambda>b. b \<noteq> ?d) s = s" "dropWhile (\<lambda>b. b \<noteq> ?d) s = []"
      by (auto simp: takeWhile_eq_all_conv)
    with c False assms(2) show ?thesis
      by (subst delim_loop.simps) (simp add: Let_def split_on_no del: dropWhile_eq_Nil_conv)
  next
    case True
    then obtain p r where s: "s = p @ ?d # r" "?d \<notin> set p" by (metis split_list_first)
    then have tw: "takeWhile (\<lambda>b. b \<noteq> ?d) s = p" "dropWhile (\<lambda>b. b \<noteq> ?d) s = ?d # r"
      by (auto simp: takeWhile_append dropWhile_append)
    have sp: "split_on ?d s = p # split_on ?d r" using s split_on_cut by simp
    have IH: "delim_loop cfg (col + 1) r (delim_emit cfg col p out) =
      (col + 1 + length (split_on ?d r), emit_all cfg (col + 1) (split_on ?d r) (delim_emit cfg col p out))"
      using less s(1) by simp
    show ?thesis
    proof (cases "r = []")
      case True
      with c tw sp assms(2) show ?thesis by (subst delim_loop.simps) (simp add: Let_def)
    next
      case False
      with c tw sp IH assms(2) show ?thesis by (subst delim_loop.simps) (simp add: Let_def)
    qed
  qed
qed

text \<open>
  Delimited rows lose nothing: a row without quoting, under a definition without a rest
  column, yields one column for every piece between delimiters, a trailing empty one included,
  each emitted in order under its own name (the declared name, or \<open>column_N\<close> past the last;
  a skipped column emits nothing).
\<close>

theorem delimiter_columns:
  assumes "dc_quote cfg = None" and "dc_rest cfg = None"
  shows "delim_apply cfg text out =
    (length (split_on (dc_delimiter cfg) text), emit_all cfg 0 (split_on (dc_delimiter cfg) text) out)"
  using delim_loop_split [OF assms, of 0] by (simp add: delim_apply_def)

theorem delimiter_columns_witness:
  "\<exists>cfg. delim_new '','' None [''a'', ''_'', ''c''] None = Inr cfg \<and>
     fst (delim_apply cfg ''1,2,,4,'' parsed_default) = 5 \<and>
     map (\<lambda>f. (cow_bytes (fd_key f), cow_bytes (fd_value f))) (pa_fields (snd (delim_apply cfg ''1,2,,4,'' parsed_default)))
       = [(''a'', ''1''), (''c'', []), (''column_4'', ''4''), (''column_5'', [])]"
proof -
  let ?cfg = "\<lparr>dc_delimiter = CHR '','', dc_quote = None, dc_fields = [Some ''a'', None, Some ''c''], dc_rest = None\<rparr>"
  have new: "delim_new '','' None [''a'', ''_'', ''c''] None = Inr ?cfg" by (simp add: delim_new_def)
  have d: "dec (Suc (Suc (Suc (Suc 0)))) = ''4''" "dec (Suc (Suc (Suc (Suc (Suc 0))))) = ''5''"
    by code_simp+
  have "delim_apply ?cfg ''1,2,,4,'' parsed_default =
      (length (split_on (CHR '','') ''1,2,,4,''), emit_all ?cfg 0 (split_on (CHR '','') ''1,2,,4,'') parsed_default)"
    using delimiter_columns [of ?cfg] by simp
  with new show ?thesis
    by (auto simp: delim_emit_def parsed_default_def d)
qed

end
