(* ===== verification/Ulpf_Kv.thy ===== *)
theory Ulpf_Kv
  imports Ulpf_Parsed
begin

text \<open>
  The key/value strategy, \<open>src/crates/ulpf-parse/src/kv.rs\<close>. The scanning indices become the
  suffixes of the text they point at: \<open>kv_scan_key\<close> is the loop over \<open>j\<close>, \<open>kv_quoted\<close> the loop
  over \<open>k\<close> inside quotes, \<open>kv_loop\<close> the outer loop. The round trip property says that what a
  device writes as quoted pairs comes back field for field.
\<close>

record kv_config =
  kv_sep :: bytes
  kv_pair_seps :: "byte \<Rightarrow> bool"
  kv_quotes :: "byte \<Rightarrow> bool"

definition kv_new :: "bytes \<Rightarrow> bytes \<Rightarrow> bytes option \<Rightarrow> bytes + kv_config" where
  "kv_new sep pair_sep quote =
     (if sep = [] then Inl ''key_value_separator must not be empty''
      else Inr \<lparr>kv_sep = sep,
                kv_pair_seps = (\<lambda>b. b \<in> set pair_sep \<or>
                  CHR '' '' \<in> set pair_sep \<and> (bv b = 9 \<or> bv b = 13 \<or> bv b = 10)),
                kv_quotes = (\<lambda>b. b \<in> set (case quote of Some q \<Rightarrow> q | None \<Rightarrow> []))\<rparr>)"

fun unescape :: "bytes \<Rightarrow> bytes" where
  "unescape [] = []"
| "unescape [b] = [b]"
| "unescape (b # c # r) = (if b = CHR 0x5C then c # unescape r else b # unescape (c # r))"

text \<open>The key before the separator (or \<open>None\<close>) and where the scan stopped.\<close>

fun kv_scan_key :: "kv_config \<Rightarrow> bytes \<Rightarrow> bytes option \<times> bytes" where
  "kv_scan_key cfg [] = (None, [])"
| "kv_scan_key cfg (b # r) =
     (if prefix (kv_sep cfg) (b # r) then (Some [], b # r)
      else if kv_pair_seps cfg b then (None, b # r)
      else case kv_scan_key cfg r of
             (Some k, t) \<Rightarrow> (Some (b # k), t)
           | (None, t) \<Rightarrow> (None, t))"

text \<open>Inside quotes: the raw bytes, whether one was escaped, and what starts at the closing quote.\<close>

fun kv_quoted :: "byte \<Rightarrow> bytes \<Rightarrow> bytes \<times> bool \<times> bytes" where
  "kv_quoted q [] = ([], False, [])"
| "kv_quoted q (b # r) =
     (if b = q then ([], False, b # r)
      else if b = CHR 0x5C then
        (case r of
           [] \<Rightarrow> ([b], False, [])
         | c # r' \<Rightarrow> (case kv_quoted q r' of (raw, _, t) \<Rightarrow> (b # c # raw, True, t)))
      else (case kv_quoted q r of (raw, e, t) \<Rightarrow> (b # raw, e, t)))"

definition kv_value :: "kv_config \<Rightarrow> bytes \<Rightarrow> cow \<times> bytes" where
  "kv_value cfg s =
     (case s of
        q # r \<Rightarrow>
          if kv_quotes cfg q then
            (case kv_quoted q r of (raw, escaped, t) \<Rightarrow>
               (if escaped then Owned (unescape raw) else Borrowed raw, tl t))
          else (Borrowed (takeWhile (\<lambda>b. \<not> kv_pair_seps cfg b) s), dropWhile (\<lambda>b. \<not> kv_pair_seps cfg b) s)
      | [] \<Rightarrow> (Borrowed [], []))"

lemma kv_scan_key_length: "kv_scan_key cfg s = (k, t) \<Longrightarrow> length t \<le> length s"
  by (induction cfg s arbitrary: k t rule: kv_scan_key.induct)
     (auto split: if_splits prod.splits option.splits)

lemma kv_scan_bare_shorter:
  "kv_scan_key cfg s = (None, t) \<Longrightarrow> s \<noteq> [] \<Longrightarrow> \<not> kv_pair_seps cfg (hd s) \<Longrightarrow> length t < length s"
  by (cases s) (auto split: if_splits prod.splits option.splits dest: kv_scan_key_length)

lemma kv_quoted_length: "kv_quoted q s = (raw, e, t) \<Longrightarrow> length t \<le> length s"
  by (induction q s arbitrary: raw e t rule: kv_quoted.induct)
     (fastforce split: if_splits prod.splits list.splits)+

lemma kv_value_length: "kv_value cfg s = (v, t) \<Longrightarrow> length t \<le> length s"
  by (auto simp: kv_value_def length_dropWhile_le le_SucI split: list.splits if_splits prod.splits
      dest!: kv_quoted_length)

lemma kv_value_shorter:
  "kv_value cfg s = (v, t) \<Longrightarrow> s \<noteq> [] \<Longrightarrow> \<not> kv_pair_seps cfg (hd s) \<Longrightarrow> length t < length s"
  by (auto simp: kv_value_def length_dropWhile_le le_imp_less_Suc split: list.splits if_splits prod.splits
      dest!: kv_quoted_length)

lemma kv_scan_found:
  "kv_scan_key cfg s = (Some k, t) \<Longrightarrow> s = k @ t \<and> prefix (kv_sep cfg) t \<and> t \<noteq> []"
  by (induction cfg s arbitrary: k t rule: kv_scan_key.induct)
     (auto split: if_splits prod.splits option.splits)

text \<open>A bare token and a pair always consume something.\<close>

lemma kv_bare_shorter:
  assumes "s = dropWhile (kv_pair_seps cfg) s0" "s \<noteq> []" "(None, t) = kv_scan_key cfg s"
  shows "length t < length s0"
proof -
  have "length s \<le> length s0" by (simp add: assms(1) length_dropWhile_le)
  moreover have "\<not> kv_pair_seps cfg (hd s)" using assms(1,2) hd_dropWhile by metis
  ultimately show ?thesis using kv_scan_bare_shorter [OF assms(3) [symmetric] assms(2)] by simp
qed

lemma kv_pair_shorter:
  assumes "s = dropWhile (kv_pair_seps cfg) s0" "s \<noteq> []" "(Some k, t) = kv_scan_key cfg s"
    and "(v, u) = kv_value cfg (drop (length (kv_sep cfg)) t)"
  shows "length u < length s0"
proof -
  have s0: "length s \<le> length s0" by (simp add: assms(1) length_dropWhile_le)
  have hd: "\<not> kv_pair_seps cfg (hd s)" using assms(1,2) hd_dropWhile by metis
  note f = kv_scan_found [OF assms(3) [symmetric]]
  show ?thesis
  proof (cases "k = [] \<and> kv_sep cfg = []")
    case True
    then have "t = s" using f by simp
    with kv_value_shorter [OF assms(4) [symmetric]] True hd assms(2) s0 show ?thesis by auto
  next
    case False
    have "length (kv_sep cfg) \<le> length t" using f prefix_length_le by blast
    have "0 < length k \<or> 0 < length (kv_sep cfg)" "0 < length t" using False f by auto
    moreover have "length s = length k + length t" using f by simp
    ultimately have "length (drop (length (kv_sep cfg)) t) < length s" unfolding length_drop by linarith
    with kv_value_length [OF assms(4) [symmetric]] s0 show ?thesis by simp
  qed
qed

function kv_loop :: "kv_config \<Rightarrow> bytes \<Rightarrow> nat \<Rightarrow> parsed \<Rightarrow> nat \<times> parsed" where
  "kv_loop cfg s0 pairs out =
     (let s = dropWhile (kv_pair_seps cfg) s0 in
      if s = [] then (pairs, out)
      else case kv_scan_key cfg s of
             (None, t) \<Rightarrow> kv_loop cfg t pairs out
           | (Some k, t) \<Rightarrow>
               (case kv_value cfg (drop (length (kv_sep cfg)) t) of
                  (v, u) \<Rightarrow>
                    if k \<noteq> [] then kv_loop cfg u (pairs + 1) (push (Borrowed k) v out)
                    else kv_loop cfg u pairs out))"
  by pat_completeness auto
termination
  by (relation "measure (\<lambda>(cfg, s, pairs, out). length s)")
     (simp_all add: kv_bare_shorter kv_pair_shorter)

declare kv_loop.simps [simp del]

definition kv_apply :: "kv_config \<Rightarrow> bytes \<Rightarrow> parsed \<Rightarrow> nat \<times> parsed" where
  "kv_apply cfg text out = kv_loop cfg text 0 out"

definition kv_strategy :: "kv_config \<Rightarrow> bytes \<Rightarrow> parsed \<Rightarrow> parse_failure option \<times> parsed" where
  "kv_strategy cfg text out =
     (case kv_apply cfg text out of (n, q) \<Rightarrow> (if n = 0 then Some NoPairs else None, q))"

subsection \<open>The strategy contract\<close>

lemma kv_loop_extends:
  "kv_loop cfg s n out = (m, q) \<Longrightarrow> extends out q \<and> length (pa_fields q) + n = length (pa_fields out) + m"
proof (induction cfg s n out arbitrary: m q rule: kv_loop.induct)
  case (1 cfg s0 n out)
  let ?s = "dropWhile (kv_pair_seps cfg) s0"
  obtain k t where sc: "kv_scan_key cfg ?s = (k, t)" by fastforce
  show ?case
  proof (cases "?s = []")
    case True
    with "1.prems" show ?thesis by (subst (asm) kv_loop.simps) simp
  next
    case ne: False
    show ?thesis
    proof (cases k)
      case None
      with "1.prems" ne sc have "kv_loop cfg t n out = (m, q)"
        by (subst (asm) kv_loop.simps) (simp add: Let_def del: dropWhile_eq_Nil_conv)
      with "1.IH"(1) [OF refl ne sc [symmetric] None] show ?thesis by blast
    next
      case (Some key)
      obtain v u where v: "kv_value cfg (drop (length (kv_sep cfg)) t) = (v, u)" by fastforce
      show ?thesis
      proof (cases "key = []")
        case True
        with "1.prems" ne sc Some v have "kv_loop cfg u n out = (m, q)"
          by (subst (asm) kv_loop.simps) (simp add: Let_def del: dropWhile_eq_Nil_conv)
        with "1.IH"(3) [OF refl ne sc [symmetric] Some v [symmetric]] True show ?thesis by blast
      next
        case False
        with "1.prems" ne sc Some v have "kv_loop cfg u (n + 1) (push (Borrowed key) v out) = (m, q)"
          by (subst (asm) kv_loop.simps) (simp add: Let_def del: dropWhile_eq_Nil_conv)
        with "1.IH"(2) [OF refl ne sc [symmetric] Some v [symmetric]] False
        have "extends (push (Borrowed key) v out) q" "length (pa_fields q) = length (pa_fields out) + (m - n)" "n < m + 1"
          by (auto simp: extends_def)
        then show ?thesis using extends_trans [OF extends_push] by (auto simp: extends_def)
      qed
    qed
  qed
qed

interpretation kv: strategy "kv_strategy cfg" for cfg
proof
  fix p t
  obtain n q where k: "kv_loop cfg t 0 p = (n, q)" by fastforce
  note e = kv_loop_extends [OF k]
  show "extends p (snd (kv_strategy cfg t p))"
    using e k by (simp add: kv_strategy_def kv_apply_def)
  show "pa_fields (snd (kv_strategy cfg t p)) = pa_fields p" if "fst (kv_strategy cfg t p) \<noteq> None"
  proof -
    have "n = 0" using that k by (auto simp: kv_strategy_def kv_apply_def split: if_splits)
    with e k show ?thesis by (auto simp: kv_strategy_def kv_apply_def extends_def)
  qed
qed

subsection \<open>Round trip\<close>

definition kv_escape :: "byte \<Rightarrow> bytes \<Rightarrow> bytes" where
  "kv_escape q v = concat (map (\<lambda>b. if b = q \<or> b = CHR 0x5C then [CHR 0x5C, b] else [b]) v)"

definition kv_pair_text :: "byte \<Rightarrow> byte \<Rightarrow> bytes \<times> bytes \<Rightarrow> bytes" where
  "kv_pair_text c q kv = fst kv @ c # q # kv_escape q (snd kv) @ [q]"

text \<open>What a device writes: quoted pairs, each followed by a pair separator.\<close>

definition kv_text :: "byte \<Rightarrow> byte \<Rightarrow> byte \<Rightarrow> (bytes \<times> bytes) list \<Rightarrow> bytes" where
  "kv_text c q p kvs = concat (map (\<lambda>kv. kv_pair_text c q kv @ [p]) kvs)"

definition field_pairs :: "parsed \<Rightarrow> (bytes \<times> bytes) list" where
  "field_pairs out = map (\<lambda>f. (cow_bytes (fd_key f), cow_bytes (fd_value f))) (pa_fields out)"

lemma unescape_plain: "CHR 0x5C \<notin> set v \<Longrightarrow> unescape v = v"
  by (induction v rule: unescape.induct) auto

lemma unescape_Cons: "b \<noteq> CHR 0x5C \<Longrightarrow> unescape (b # s) = b # unescape s"
  by (cases s) simp_all

lemma unescape_escape: "unescape (kv_escape q v) = v"
proof (induction v)
  case Nil
  show ?case by (simp add: kv_escape_def)
next
  case (Cons b v)
  then show ?case
    by (cases "b = q \<or> b = CHR 0x5C") (auto simp: kv_escape_def unescape_Cons)
qed

lemma kv_escape_none: "q \<notin> set v \<Longrightarrow> CHR 0x5C \<notin> set v \<Longrightarrow> kv_escape q v = v"
  by (induction v) (auto simp: kv_escape_def)

lemma kv_quoted_escape:
  assumes "q \<noteq> CHR 0x5C"
  shows "kv_quoted q (kv_escape q v @ q # r) = (kv_escape q v, q \<in> set v \<or> CHR 0x5C \<in> set v, q # r)"
proof (induction v)
  case Nil
  show ?case by (simp add: kv_escape_def)
next
  case (Cons b v)
  then show ?case using assms by (cases "b = q \<or> b = CHR 0x5C") (auto simp: kv_escape_def)
qed

lemma kv_scan_key_text:
  "\<forall>b \<in> set k. b \<noteq> c \<and> \<not> kv_pair_seps cfg b \<Longrightarrow> kv_sep cfg = [c] \<Longrightarrow>
    kv_scan_key cfg (k @ c # r) = (Some k, c # r)"
  by (induction k) (auto split: prod.splits)

lemma kv_loop_sep: "kv_pair_seps cfg p \<Longrightarrow> kv_loop cfg (p # s) n out = kv_loop cfg s n out"
  by (subst (1 2) kv_loop.simps) simp

definition kv_writable :: "kv_config \<Rightarrow> byte \<Rightarrow> byte \<Rightarrow> byte \<Rightarrow> (bytes \<times> bytes) list \<Rightarrow> bool" where
  "kv_writable cfg c q p kvs \<longleftrightarrow>
     kv_sep cfg = [c] \<and> kv_pair_seps cfg p \<and> kv_quotes cfg q \<and> q \<noteq> CHR 0x5C \<and>
     list_all (\<lambda>kv. fst kv \<noteq> [] \<and> list_all (\<lambda>b. b \<noteq> c \<and> \<not> kv_pair_seps cfg b) (fst kv)) kvs"

lemma kv_loop_pair:
  assumes "kv_writable cfg c q p [kv]"
  shows "\<exists>w. cow_bytes w = snd kv \<and>
    kv_loop cfg (kv_pair_text c q kv @ r) n out = kv_loop cfg r (n + 1) (push (Borrowed (fst kv)) w out)"
proof -
  obtain k v where kv: "kv = (k, v)" by (cases kv)
  from assms kv have cfg: "kv_sep cfg = [c]" "kv_quotes cfg q" "q \<noteq> CHR 0x5C" and k: "k \<noteq> []"
    "\<forall>b \<in> set k. b \<noteq> c \<and> \<not> kv_pair_seps cfg b"
    by (auto simp: kv_writable_def list_all_iff)
  let ?s = "kv_pair_text c q kv @ r"
  have s: "?s = k @ c # (q # kv_escape q v @ q # r)" by (simp add: kv_pair_text_def kv)
  have dw: "dropWhile (kv_pair_seps cfg) ?s = ?s" unfolding s using k by (cases k) auto
  define w where "w = (if q \<in> set v \<or> CHR 0x5C \<in> set v then Owned (unescape (kv_escape q v)) else Borrowed (kv_escape q v))"
  have w: "cow_bytes w = v" by (auto simp: w_def unescape_escape kv_escape_none)
  have val: "kv_value cfg (drop (length (kv_sep cfg)) (c # (q # kv_escape q v @ q # r))) = (w, r)"
    using cfg kv_quoted_escape [OF cfg(3), of v r] by (simp add: kv_value_def w_def)
  have "kv_loop cfg ?s n out = kv_loop cfg r (n + 1) (push (Borrowed k) w out)"
    using kv_scan_key_text [OF k(2) cfg(1), of "q # kv_escape q v @ q # r"] val k
    by (subst kv_loop.simps) (simp add: Let_def s dw [unfolded s] del: dropWhile_eq_Nil_conv)
  with w kv show ?thesis by auto
qed

text \<open>
  Key/value round trip: for any separator byte, pair separator and quote, the text a device
  writes for a list of pairs (values of any bytes, quoted, with quotes and backslashes escaped)
  is read back as exactly those pairs, in order, after whatever fields were already there.
\<close>

theorem kv_roundtrip:
  assumes "kv_writable cfg c q p kvs"
  shows "\<exists>out'. kv_apply cfg (kv_text c q p kvs) out = (length kvs, out') \<and>
    field_pairs out' = field_pairs out @ kvs"
proof -
  have "kv_writable cfg c q p kvs \<Longrightarrow>
    \<exists>out'. kv_loop cfg (kv_text c q p kvs) n out = (n + length kvs, out') \<and>
      field_pairs out' = field_pairs out @ kvs" for n
  proof (induction kvs arbitrary: n out)
    case Nil
    show ?case by (subst kv_loop.simps) (simp add: kv_text_def)
  next
    case (Cons kv kvs)
    from Cons.prems have one: "kv_writable cfg c q p [kv]" and rest: "kv_writable cfg c q p kvs"
      and sep: "kv_pair_seps cfg p" by (simp_all add: kv_writable_def)
    obtain w where w: "cow_bytes w = snd kv"
      "kv_loop cfg (kv_pair_text c q kv @ p # kv_text c q p kvs) n out
        = kv_loop cfg (p # kv_text c q p kvs) (n + 1) (push (Borrowed (fst kv)) w out)"
      using kv_loop_pair [OF one] by blast
    obtain out' where out': "kv_loop cfg (kv_text c q p kvs) (n + 1) (push (Borrowed (fst kv)) w out) = (n + 1 + length kvs, out')"
      "field_pairs out' = field_pairs (push (Borrowed (fst kv)) w out) @ kvs"
      using Cons.IH [OF rest] by blast
    have "kv_text c q p (kv # kvs) = kv_pair_text c q kv @ p # kv_text c q p kvs" by (simp add: kv_text_def)
    with w out' sep show ?case by (simp add: kv_loop_sep field_pairs_def)
  qed
  from this [OF assms, of 0] show ?thesis by (simp add: kv_apply_def)
qed

theorem kv_roundtrip_witness:
  "\<exists>cfg out'. kv_new ''='' '' '' (Some [CHR 0x22]) = Inr cfg \<and>
     kv_apply cfg (kv_text (CHR ''='') (CHR 0x22) (CHR '' '')
        [(''msg'', ''say '' @ [CHR 0x22] @ ''hi=there'' @ [CHR 0x22, CHR 0x5C]), (''act'', [])]) parsed_default = (2, out') \<and>
     field_pairs out' = [(''msg'', ''say '' @ [CHR 0x22] @ ''hi=there'' @ [CHR 0x22, CHR 0x5C]), (''act'', [])]"
proof -
  let ?kvs = "[(''msg'', ''say '' @ [CHR 0x22] @ ''hi=there'' @ [CHR 0x22, CHR 0x5C]), (''act'', [])]"
  obtain cfg where cfg: "kv_new ''='' '' '' (Some [CHR 0x22]) = Inr cfg" by (simp add: kv_new_def)
  then have "kv_writable cfg (CHR ''='') (CHR 0x22) (CHR '' '') ?kvs"
    by (auto simp: kv_new_def kv_writable_def)
  from kv_roundtrip [OF this, of parsed_default] cfg show ?thesis
    by (auto simp: field_pairs_def parsed_default_def)
qed

end
