(* ===== verification/Ulpf_Envelope.thy ===== *)
theory Ulpf_Envelope
  imports Ulpf_Kv
begin

text \<open>
  The syslog envelope, \<open>src/crates/ulpf-parse/src/envelope.rs\<close>: \<open>strip_syslog\<close>, \<open>rfc5424\<close>,
  \<open>sd_element_end\<close>, \<open>sd_params\<close> and their helpers. Positions in the event are the suffixes
  they point at. The \<open>regex\<close> crate is outside the repository: the compiled \<open>bsd_timestamp\<close> is
  the parameter \<open>bsd\<close>, the length of its match at the start of the text, if any.
\<close>

definition env_blank :: "byte \<Rightarrow> bool" where
  "env_blank b \<longleftrightarrow> b = CHR '' '' \<or> b = CHR 0x09"

definition skip_spaces :: "bytes \<Rightarrow> bytes" where
  "skip_spaces s = dropWhile env_blank s"

definition env_token :: "bytes \<Rightarrow> bytes" where
  "env_token s = takeWhile (\<lambda>b. \<not> env_blank b) s"

definition env_after :: "bytes \<Rightarrow> bytes" where
  "env_after s = dropWhile (\<lambda>b. \<not> env_blank b) s"

definition bom :: bytes where
  "bom = [CHR 0xEF, CHR 0xBB, CHR 0xBF]"

definition strip_bom :: "bytes \<Rightarrow> bytes" where
  "strip_bom s = (if prefix bom s then drop 3 s else s)"

definition facility_names :: "bytes list" where
  "facility_names = map dec [0..<24]"

definition severity_names :: "bytes list" where
  "severity_names = map dec [0..<8]"

definition is_date :: "bytes \<Rightarrow> bool" where
  "is_date t \<longleftrightarrow> length t = 10 \<and>
     list_all (\<lambda>(k, c). if k = 4 \<or> k = 7 then c = CHR ''-'' else is_ascii_digit c) (List.enumerate (0::nat) t)"

definition is_clock :: "bytes \<Rightarrow> bool" where
  "is_clock t \<longleftrightarrow> 8 \<le> length t \<and>
     list_all (\<lambda>(k, c). if k = 2 \<or> k = 5 then c = CHR '':'' else is_ascii_digit c) (List.enumerate (0::nat) (take 8 t))"

subsection \<open>Structured data\<close>

text \<open>After an opening bracket: the element body and what follows the closing bracket.\<close>

fun sd_element_end :: "bytes \<Rightarrow> (bytes \<times> bytes) option" where
  "sd_element_end [] = None"
| "sd_element_end (b # r) =
     (if b = CHR '']'' then Some ([], r)
      else if b = CHR 0x5C then
        (case r of [] \<Rightarrow> None
         | c # r' \<Rightarrow> map_option (\<lambda>(e, t). (b # c # e, t)) (sd_element_end r'))
      else map_option (\<lambda>(e, t). (b # e, t)) (sd_element_end r))"

definition sd_name_ok :: "bytes \<Rightarrow> bool" where
  "sd_name_ok n \<longleftrightarrow> n \<noteq> [] \<and> length n \<le> 32 \<and>
     list_all (\<lambda>c. 0x21 \<le> bv c \<and> bv c \<le> 0x7E \<and> c \<noteq> CHR ''='' \<and> c \<noteq> CHR '']'' \<and> c \<noteq> CHR 0x22) n"

text \<open>
  One parameter at the start of a non-blank suffix: its name, its value and the rest of the
  element after the closing quote.
\<close>

definition sd_param :: "bytes \<Rightarrow> (bytes \<times> cow \<times> bytes) option" where
  "sd_param s =
     (case memchr (CHR ''='') s of
        None \<Rightarrow> None
      | Some eq \<Rightarrow>
          let name = take eq s; after = drop (eq + 1) s in
          if \<not> sd_name_ok name then None
          else (case after of
                  c # v \<Rightarrow>
                    if c = CHR 0x22 then
                      (case kv_quoted (CHR 0x22) v of
                         (raw, escaped, t) \<Rightarrow>
                           if t = [] then None
                           else Some (name, if escaped then Owned (unescape raw) else Borrowed raw, tl t))
                    else None
                | [] \<Rightarrow> None))"

lemma sd_param_shorter:
  assumes "sd_param s = Some (n, v, t)"
  shows "length t < length s"
proof -
  from assms obtain eq r raw e u where "drop (eq + 1) s = CHR 0x22 # r"
    "kv_quoted (CHR 0x22) r = (raw, e, u)" "t = tl u" "u \<noteq> []"
    by (auto simp: sd_param_def Let_def split: option.splits if_splits list.splits prod.splits)
  moreover from this have "length r < length s" by (metis length_drop length_Cons diff_le_self Suc_le_lessD)
  ultimately show ?thesis using kv_quoted_length [of "CHR 0x22" r raw e u] by simp
qed

lemma sd_params_shorter: "sd_param (skip_spaces s) = Some x \<Longrightarrow> (n, y) = x \<Longrightarrow> (v, t) = y \<Longrightarrow> length t < length s"
  using sd_param_shorter [of "skip_spaces s" n v t] length_dropWhile_le [of env_blank s]
  by (simp add: skip_spaces_def)

function sd_params_loop :: "nat \<Rightarrow> bytes \<Rightarrow> parsed \<Rightarrow> bool \<times> parsed" where
  "sd_params_loop mark s0 out =
     (let s = skip_spaces s0 in
      if s = [] then (True, out)
      else case sd_param s of
             None \<Rightarrow> (False, rollback mark out)
           | Some (name, value, t) \<Rightarrow> sd_params_loop mark t (push (Borrowed name) value out))"
  by pat_completeness auto
termination
  by (relation "measure (\<lambda>(m, s, out). length s)") (simp_all add: sd_params_shorter)

declare sd_params_loop.simps [simp del]

definition sd_params :: "bytes \<Rightarrow> parsed \<Rightarrow> bool \<times> parsed" where
  "sd_params elem out =
     (if \<not> sd_name_ok (env_token elem) then (False, out)
      else sd_params_loop (length (pa_fields out)) (env_after elem) out)"

lemma sd_element_split: "sd_element_end r = Some (body, after) \<Longrightarrow> r = body @ CHR '']'' # after"
  by (induction r arbitrary: body after rule: sd_element_end.induct)
     (auto split: if_splits list.splits)

lemma sd_element_shorter: "Some (body, after) = sd_element_end r \<Longrightarrow> length after < Suc (length r)"
  using sd_element_split [of r body after] by simp

text \<open>The element loop: what is left, the fields pushed, and how many elements were read.\<close>

function sd_elements :: "bytes \<Rightarrow> nat \<Rightarrow> parsed \<Rightarrow> bytes \<times> nat \<times> parsed" where
  "sd_elements s n out =
     (case s of
        [] \<Rightarrow> (s, n, out)
      | c # r \<Rightarrow>
          if c \<noteq> CHR ''['' then (s, n, out)
          else case sd_element_end r of
                 None \<Rightarrow> (s, n, out)
               | Some (body, after) \<Rightarrow>
                   (case sd_params body out of
                      (True, out') \<Rightarrow> sd_elements after (n + 1) out'
                    | (False, out') \<Rightarrow> (s, n, out')))"
  by pat_completeness auto
termination
  by (relation "measure (\<lambda>(s, n, out). length s)") (simp_all add: sd_element_shorter)

declare sd_elements.simps [simp del]

subsection \<open>RFC 5424\<close>

text \<open>The five header names in order; a date is joined with the clock that follows it.\<close>

definition header_names :: "bytes list" where
  "header_names = [''syslog_timestamp'', ''syslog_host'', ''syslog_app'', ''syslog_procid'', ''syslog_msgid'']"

definition header_token :: "bool \<Rightarrow> bytes \<Rightarrow> bytes \<times> bytes" where
  "header_token first s =
     (let t = skip_spaces (env_after s) in
      if first \<and> is_date (env_token s) \<and> is_clock (env_token t)
      then (take (length s - length (env_after t)) s, env_after t)
      else (env_token s, env_after s))"

fun header_loop :: "bool \<Rightarrow> bytes list \<Rightarrow> bytes \<Rightarrow> parsed \<Rightarrow> bytes option \<times> parsed" where
  "header_loop first [] s out = (Some s, out)"
| "header_loop first (name # names) s out =
     (case header_token first s of
        (tok, after) \<Rightarrow>
          if tok = [] then (None, out)
          else header_loop False names (skip_spaces after)
                 (if tok \<noteq> ''-'' then push (Borrowed name) (Borrowed tok) out else out))"

definition rfc5424 :: "bytes \<Rightarrow> parsed \<Rightarrow> bytes option \<times> parsed" where
  "rfc5424 b out =
     (let mark = length (pa_fields out) in
      case header_loop True header_names (drop 2 b) out of
        (None, out') \<Rightarrow> (None, rollback mark out')
      | (Some s, out') \<Rightarrow>
          if prefix ''-'' s then (Some (strip_bom (skip_spaces (drop 1 s))), out')
          else (case sd_elements s 0 out' of
                  (t, n, out'') \<Rightarrow>
                    if 0 < n then
                      (Some (strip_bom (skip_spaces t)),
                       push (Borrowed ''syslog_sd'') (Borrowed (take (length s - length t) s)) out'')
                    else if prefix ''['' t then (Some (strip_bom (skip_spaces t)), out'')
                    else (None, rollback mark out'')))"

subsection \<open>The envelope\<close>

text \<open>The priority: its digits and value and the text after the closing bracket.\<close>

definition syslog_pri :: "bytes \<Rightarrow> (bytes \<times> nat \<times> bytes) option" where
  "syslog_pri event =
     (if prefix ''<'' event then
        (case memchr (CHR ''>'') (take 5 event) of
           None \<Rightarrow> None
         | Some e \<Rightarrow>
             let ds = slice 1 e event;
                 pri = foldl (\<lambda>acc d. acc * 10 + digit_val d) 0 ds in
             if ds \<noteq> [] \<and> list_all is_ascii_digit ds \<and> pri < 192
             then Some (ds, pri, drop (e + 1) event) else None)
      else None)"

text \<open>The priority stripped, its three fields pushed.\<close>

definition syslog_head :: "bytes \<Rightarrow> parsed \<Rightarrow> bytes \<times> parsed" where
  "syslog_head event out =
     (case syslog_pri event of
        None \<Rightarrow> (event, out)
      | Some (ds, pri, after) \<Rightarrow>
          (after,
           push (Borrowed ''syslog_severity'') (Borrowed (severity_names ! (pri mod 8)))
            (push (Borrowed ''syslog_facility'') (Borrowed (facility_names ! (pri div 8)))
              (push (Borrowed ''syslog_pri'') (Borrowed ds) out))))"

definition looks_like_host :: "bytes \<Rightarrow> bool" where
  "looks_like_host tok \<longleftrightarrow>
     tok \<noteq> [] \<and> CHR ''='' \<notin> set tok \<and> CHR ''['' \<notin> set tok \<and> last tok \<noteq> CHR '':'' \<and>
     hd tok \<notin> {CHR ''%'', CHR '':'', CHR ''<''}"

definition rfc3164 :: "(bytes \<Rightarrow> nat option) \<Rightarrow> bytes \<Rightarrow> parsed \<Rightarrow> bytes \<times> parsed" where
  "rfc3164 bsd s out =
     (case bsd s of
        None \<Rightarrow> (s, out)
      | Some m \<Rightarrow>
          let out1 = push (Borrowed ''syslog_timestamp'') (Borrowed (take m s)) out;
              t = skip_spaces (drop m s);
              tok = env_token t in
          if looks_like_host tok then
            let u = skip_spaces (env_after t) in
            (if prefix '': '' u then skip_spaces (drop 1 u) else u,
             push (Borrowed ''syslog_host'') (Borrowed tok) out1)
          else (t, out1))"

definition strip_syslog :: "(bytes \<Rightarrow> nat option) \<Rightarrow> bytes \<Rightarrow> parsed \<Rightarrow> bytes \<times> parsed" where
  "strip_syslog bsd event0 out =
     (case syslog_head (strip_bom event0) out of (s, out1) \<Rightarrow>
      if prefix ''1 '' s \<and> 2 < length s \<and> (is_ascii_digit (s ! 2) \<or> s ! 2 = CHR ''-'') then
        (case rfc5424 s out1 of
           (Some msg, out2) \<Rightarrow> (msg, out2)
         | (None, out2) \<Rightarrow> rfc3164 bsd s out2)
      else rfc3164 bsd s out1)"

subsection \<open>The extender contract\<close>

lemma sd_params_loop_extends:
  "extends base out \<Longrightarrow> length (pa_fields base) = mark \<Longrightarrow> sd_params_loop mark s out = (ok, q) \<Longrightarrow>
    extends base q \<and> (\<not> ok \<longrightarrow> pa_fields q = pa_fields base)"
proof (induction mark s out rule: sd_params_loop.induct)
  case (1 mark s0 out)
  show ?case
  proof (cases "skip_spaces s0 = []")
    case True
    with "1.prems" show ?thesis by (simp add: sd_params_loop.simps [of mark s0])
  next
    case False
    show ?thesis
    proof (cases "sd_param (skip_spaces s0)")
      case None
      with False "1.prems" have "ok = False" "q = rollback mark out"
        by (simp_all add: sd_params_loop.simps [of mark s0])
      with "1.prems" show ?thesis using extends_rollback rollback_fields by blast
    next
      case (Some x)
      obtain n v t where x: "x = (n, v, t)" by (cases x)
      with Some False "1.prems" have "sd_params_loop mark t (push (Borrowed n) v out) = (ok, q)"
        by (simp add: sd_params_loop.simps [of mark s0])
      with "1.IH" [OF refl False Some] x "1.prems" show ?thesis by (simp add: extends_push_after)
    qed
  qed
qed

lemma sd_params_extends:
  "sd_params e out = (ok, q) \<Longrightarrow> extends out q \<and> (\<not> ok \<longrightarrow> pa_fields q = pa_fields out)"
  using sd_params_loop_extends [OF extends_refl refl, of out "env_after e" ok q]
  by (auto simp: sd_params_def split: if_splits)

lemma sd_elements_extends:
  "sd_elements s n out = (t, m, q) \<Longrightarrow> extends out q \<and> suffix t s"
proof (induction s n out rule: sd_elements.induct)
  case (1 s n out)
  show ?case
  proof (cases "\<exists>r body after. s = CHR ''['' # r \<and> sd_element_end r = Some (body, after)")
    case False
    with "1.prems" show ?thesis
      by (subst (asm) sd_elements.simps) (auto split: list.splits if_splits option.splits)
  next
    case True
    then obtain r body after where s: "s = CHR ''['' # r" and e: "sd_element_end r = Some (body, after)" by blast
    obtain ok out' where p: "sd_params body out = (ok, out')" by fastforce
    note ex = sd_params_extends [OF p]
    show ?thesis
    proof (cases ok)
      case False
      with "1.prems" s e p ex show ?thesis by (subst (asm) sd_elements.simps) simp
    next
      case True
      with "1.prems" s e p have "sd_elements after (n + 1) out' = (t, m, q)"
        by (subst (asm) sd_elements.simps) simp
      with "1.IH" s e p True have "extends out' q" "suffix t after" by auto
      moreover have "suffix after s" using s sd_element_split [OF e] by (auto simp: suffix_def)
      ultimately show ?thesis using ex extends_trans by (meson suffix_order.trans)
    qed
  qed
qed

lemma header_loop_extends: "header_loop first names s out = (r, q) \<Longrightarrow> extends out q"
proof (induction first names s out rule: header_loop.induct)
  case (2 first name names s out)
  obtain tok after where h: "header_token first s = (tok, after)" by fastforce
  let ?out = "if tok \<noteq> ''-'' then push (Borrowed name) (Borrowed tok) out else out"
  have "extends out ?out" by simp
  with 2 h show ?case by (cases "tok = []") (auto intro: extends_trans)
qed simp

lemma rfc5424_extends:
  assumes "rfc5424 b out = (r, q)"
  shows "extends out q" and "r = None \<Longrightarrow> pa_fields q = pa_fields out"
proof -
  obtain s q1 where h: "header_loop True header_names (drop 2 b) out = (s, q1)" by fastforce
  note e1 = header_loop_extends [OF h]
  have "extends out q \<and> (r = None \<longrightarrow> pa_fields q = pa_fields out)"
  proof (cases s)
    case None
    with assms h e1 show ?thesis by (auto simp: rfc5424_def Let_def extends_rollback extends_take)
  next
    case (Some u)
    obtain t n q2 where el: "sd_elements u 0 q1 = (t, n, q2)" by (metis prod_cases3)
    have e2: "extends out q2" using sd_elements_extends [OF el] e1 extends_trans by blast
    with assms h e1 el Some show ?thesis
      by (auto simp: rfc5424_def Let_def extends_rollback extends_take extends_push_after split: if_splits)
  qed
  then show "extends out q" and "r = None \<Longrightarrow> pa_fields q = pa_fields out" by blast+
qed

lemma rfc3164_extends: "extends out (snd (rfc3164 bsd s out))"
  by (auto simp: rfc3164_def Let_def extends_push_after split: option.splits)

lemma strip_syslog_extends: "extends out (snd (strip_syslog bsd event out))"
proof -
  obtain s out1 where s: "syslog_head (strip_bom event) out = (s, out1)" by fastforce
  then have e1: "extends out out1"
    by (auto simp: syslog_head_def split: option.splits prod.splits intro!: extends_push_after)
  obtain r out2 where r: "rfc5424 s out1 = (r, out2)" by fastforce
  have e2: "extends out out2" using extends_trans [OF e1 rfc5424_extends(1) [OF r]] .
  show ?thesis
    using e1 e2 r by (auto simp: strip_syslog_def s split: option.splits intro: extends_trans rfc3164_extends)
qed

interpretation syslog: extender "\<lambda>t p. snd (strip_syslog bsd t p)" for bsd
  by unfold_locales (rule strip_syslog_extends)

subsection \<open>What is stripped\<close>

text \<open>
  Every byte in front of the message is in the value of a field the envelope added, or is what the format puts between
  values: blanks, the brackets of the priority, a colon, the version, a nil value, a byte order mark.
\<close>

definition envelope_glue :: "byte \<Rightarrow> bool" where
  "envelope_glue b \<longleftrightarrow> env_blank b \<or> b \<in> set (''<>:1-'' @ bom)"

definition field_values :: "parsed \<Rightarrow> bytes set" where
  "field_values q = (\<lambda>f. cow_bytes (fd_value f)) ` set (pa_fields q)"

definition strips :: "parsed \<Rightarrow> bytes \<Rightarrow> bytes \<Rightarrow> bool" where
  "strips q s t \<longleftrightarrow> (\<exists>ps. s = concat ps @ t \<and> (\<forall>x \<in> set ps. x \<in> field_values q \<or> list_all envelope_glue x))"

lemma strips_refl [simp]: "strips q s s"
  by (auto simp: strips_def intro: exI [of _ "[]"])

lemma strips_trans [trans]: "strips q s t \<Longrightarrow> strips q t u \<Longrightarrow> strips q s u"
proof -
  assume "strips q s t" "strips q t u"
  then obtain ps rs where "s = concat ps @ t" "t = concat rs @ u"
    "\<forall>x \<in> set ps. x \<in> field_values q \<or> list_all envelope_glue x" "\<forall>x \<in> set rs. x \<in> field_values q \<or> list_all envelope_glue x"
    by (auto simp: strips_def)
  then show "strips q s u" unfolding strips_def by (intro exI [of _ "ps @ rs"]) auto
qed

lemma strips_extends: "strips q s t \<Longrightarrow> extends q q' \<Longrightarrow> strips q' s t"
  unfolding strips_def field_values_def extends_def by fastforce

lemma strips_glue: "list_all envelope_glue g \<Longrightarrow> strips q (g @ t) t"
  unfolding strips_def by (rule exI [of _ "[g]"]) simp

lemma strips_field: "x \<in> field_values q \<Longrightarrow> strips q (x @ t) t"
  unfolding strips_def by (rule exI [of _ "[x]"]) simp

lemma strips_pushed: "strips (push k (Borrowed x) q) (x @ t) t"
  by (rule strips_field) (simp add: field_values_def push_def)

lemma strips_skip: "strips q s (skip_spaces s)"
proof -
  have "list_all envelope_glue (takeWhile env_blank s)" by (auto simp: list_all_iff envelope_glue_def dest: set_takeWhileD)
  from strips_glue [OF this, of q "skip_spaces s"] show ?thesis by (simp add: skip_spaces_def)
qed

lemma strips_bom: "strips q s (strip_bom s)"
  using strips_glue [of bom q "strip_bom s"] by (auto simp: strip_bom_def prefix_def envelope_glue_def list_all_iff bom_def)

lemma syslog_pri_split: "syslog_pri s = Some (ds, pri, r) \<Longrightarrow> s = ''<'' @ ds @ ''>'' @ r"
proof -
  assume p: "syslog_pri s = Some (ds, pri, r)"
  then obtain e where e: "prefix ''<'' s" "memchr (CHR ''>'') (take 5 s) = Some e" "ds = slice 1 e s" "r = drop (e + 1) s"
    by (auto simp: syslog_pri_def Let_def split: if_splits option.splits)
  from memchr_SomeD [OF e(2)] have m: "e < length (take 5 s)" "take 5 s ! e = CHR ''>''" by auto
  from e(1) obtain u where u: "s = CHR ''<'' # u" by (auto simp: prefix_def)
  with m obtain k where k: "e = Suc k" "k < length u" "u ! k = CHR ''>''" by (cases e) auto
  then have "u = take k u @ CHR ''>'' # drop (Suc k) u" by (metis id_take_nth_drop)
  then show ?thesis using u k e(3,4) by (simp add: slice_def)
qed

lemma syslog_head_strips: "syslog_head s out = (t, q) \<Longrightarrow> strips q s t"
proof (cases "syslog_pri s")
  case (Some x)
  assume h: "syslog_head s out = (t, q)"
  obtain ds pri r where x: "x = (ds, pri, r)" by (cases x)
  have "ds \<in> field_values q" "t = r" using h Some x by (auto simp: syslog_head_def field_values_def push_def)
  moreover have "list_all envelope_glue ''<''" "list_all envelope_glue ''>''" by (simp_all add: envelope_glue_def)
  ultimately have "strips q (''<'' @ ds @ ''>'' @ r) t"
    using strips_glue [of "''<''" q "ds @ ''>'' @ r"] strips_field [of ds q "''>'' @ r"] strips_glue [of "''>''" q r] strips_trans by meson
  then show ?thesis using syslog_pri_split Some x by simp
qed (simp add: syslog_head_def)

lemma rfc3164_strips: "rfc3164 bsd s out = (t, q) \<Longrightarrow> strips q s t"
proof (cases "bsd s")
  case (Some m)
  assume r: "rfc3164 bsd s out = (t, q)"
  define out1 where "out1 = push (Borrowed ''syslog_timestamp'') (Borrowed (take m s)) out"
  define u where "u = skip_spaces (drop m s)"
  have "strips out1 s (drop m s)" using strips_pushed [of "Borrowed ''syslog_timestamp''" "take m s" out "drop m s"] by (simp add: out1_def)
  from strips_trans [OF this strips_skip] have a: "strips out1 s u" by (simp add: u_def)
  show ?thesis
  proof (cases "looks_like_host (env_token u)")
    case False
    then show ?thesis using r Some a by (simp add: rfc3164_def out1_def u_def Let_def)
  next
    case True
    define w where "w = skip_spaces (env_after u)"
    have q: "q = push (Borrowed ''syslog_host'') (Borrowed (env_token u)) out1" "t = (if prefix '': '' w then skip_spaces (drop 1 w) else w)"
      using r Some True by (auto simp: rfc3164_def out1_def u_def w_def Let_def)
    have "strips q s u" using strips_extends [OF a] q(1) by simp
    also have "strips q (env_token u @ env_after u) (env_after u)" unfolding q(1) by (rule strips_pushed)
    then have "strips q u (env_after u)" by (simp add: env_token_def env_after_def)
    also have "strips q (env_after u) w" unfolding w_def by (rule strips_skip)
    also have "strips q w t"
    proof (cases "prefix '': '' w")
      case True
      then have "w = '':'' @ drop 1 w" by (auto simp: prefix_def)
      with strips_glue [of "'':''" q "drop 1 w"] have "strips q w (drop 1 w)" by (simp add: envelope_glue_def)
      from strips_trans [OF this strips_skip] show ?thesis using q(2) True by simp
    qed (simp add: q(2))
    finally show ?thesis .
  qed
qed (simp add: rfc3164_def)

lemma header_token_split: "header_token first s = (tok, after) \<Longrightarrow> s = tok @ after"
proof -
  assume h: "header_token first s = (tok, after)"
  have a: "suffix (env_after x) x" "suffix (skip_spaces x) x" for x by (simp_all add: env_after_def skip_spaces_def suffix_dropWhile)
  have "suffix (env_after (skip_spaces (env_after s))) s" using a by (meson suffix_order.trans)
  then obtain p where p: "s = p @ env_after (skip_spaces (env_after s))" by (auto simp: suffix_def)
  from arg_cong [OF p, of length] have "take (length s - length (env_after (skip_spaces (env_after s)))) s = p"
    by (subst (2) p) simp
  with p have "take (length s - length (env_after (skip_spaces (env_after s)))) s @ env_after (skip_spaces (env_after s)) = s" by simp
  moreover have "env_token s @ env_after s = s" by (simp add: env_token_def env_after_def)
  ultimately show ?thesis using h by (auto simp: header_token_def Let_def split: if_splits)
qed

lemma sd_elements_none: "sd_elements s k out = (t, n, q) \<Longrightarrow> k \<le> n \<and> (n = k \<longrightarrow> t = s)"
proof (induction s k out rule: sd_elements.induct)
  case (1 s k out)
  show ?case
  proof (cases "\<exists>r body after out'. s = CHR ''['' # r \<and> sd_element_end r = Some (body, after) \<and> sd_params body out = (True, out')")
    case False
    with "1.prems" show ?thesis
      by (subst (asm) sd_elements.simps) (auto split: list.splits if_splits option.splits prod.splits bool.splits)
  next
    case True
    then obtain r body after out' where s: "s = CHR ''['' # r" "sd_element_end r = Some (body, after)" "sd_params body out = (True, out')" by blast
    with "1.prems" have "sd_elements after (k + 1) out' = (t, n, q)" by (subst (asm) sd_elements.simps) simp
    with "1.IH" s have "k + 1 \<le> n" by fastforce
    then show ?thesis by simp
  qed
qed

lemma header_loop_strips: "header_loop first names s out = (Some t, q) \<Longrightarrow> strips q s t"
proof (induction first names s out rule: header_loop.induct)
  case (2 first name names s out)
  obtain tok after where h: "header_token first s = (tok, after)" by fastforce
  let ?out = "if tok \<noteq> ''-'' then push (Borrowed name) (Borrowed tok) out else out"
  from "2.prems" h have n: "tok \<noteq> []" and l: "header_loop False names (skip_spaces after) ?out = (Some t, q)" by (auto split: if_splits)
  have "strips ?out (tok @ after) after"
    using strips_pushed [of "Borrowed name" tok out after] strips_glue [of "''-''" out after] by (simp add: envelope_glue_def)
  then have "strips ?out s (skip_spaces after)" using header_token_split [OF h] strips_trans strips_skip by metis
  from strips_extends [OF this header_loop_extends [OF l]] "2.IH" [OF h [symmetric] n l] show ?case by (rule strips_trans)
qed simp

lemma rfc5424_strips: "prefix ''1 '' b \<Longrightarrow> rfc5424 b out = (Some t, q) \<Longrightarrow> strips q b t"
proof -
  assume b: "prefix ''1 '' b" and r: "rfc5424 b out = (Some t, q)"
  then obtain s q1 where h: "header_loop True header_names (drop 2 b) out = (Some s, q1)"
    by (auto simp: rfc5424_def Let_def split: prod.splits option.splits)
  obtain u n q2 where el: "sd_elements s 0 q1 = (u, n, q2)" by (metis prod_cases3)
  have q: "extends q1 q" using r h el sd_elements_extends [OF el]
    by (auto simp: rfc5424_def Let_def extends_push_after split: if_splits)
  have "b = ''1 '' @ drop 2 b" using b by (auto simp: prefix_def)
  then have "strips q b (drop 2 b)" using strips_glue [of "''1 ''" q "drop 2 b"] by (simp add: envelope_glue_def env_blank_def)
  also have "strips q (drop 2 b) s" using strips_extends [OF header_loop_strips [OF h] q] .
  also have "strips q s t"
  proof -
    have sb: "strips q x (strip_bom (skip_spaces x))" for x using strips_trans [OF strips_skip strips_bom] .
    consider (nil) "prefix ''-'' s" "t = strip_bom (skip_spaces (drop 1 s))"
      | (sd) "t = strip_bom (skip_spaces u)" "q = push (Borrowed ''syslog_sd'') (Borrowed (take (length s - length u) s)) q2"
      | (none) "n = 0" "t = strip_bom (skip_spaces u)"
      using r h el by (auto simp: rfc5424_def Let_def split: if_splits)
    then show ?thesis
    proof cases
      case nil
      then have "s = ''-'' @ drop 1 s" by (auto simp: prefix_def)
      with strips_glue [of "''-''" q "drop 1 s"] have "strips q s (drop 1 s)" by (simp add: envelope_glue_def)
      with sb [of "drop 1 s"] nil(2) strips_trans show ?thesis by blast
    next
      case sd
      from sd_elements_extends [OF el] obtain p where p: "s = p @ u" by (auto simp: suffix_def)
      with strips_pushed [of "Borrowed ''syslog_sd''" p q2 u] sd(2) have "strips q s u" by simp
      with sb [of u] sd(1) strips_trans show ?thesis by blast
    next
      case none
      have "u = s" using sd_elements_none [OF el] none(1) by simp
      with sb none(2) show ?thesis by simp
    qed
  qed
  finally show ?thesis .
qed

lemma strip_syslog_strips: "strip_syslog bsd event out = (t, q) \<Longrightarrow> strips q event t"
proof -
  assume st: "strip_syslog bsd event out = (t, q)"
  obtain s out1 where h: "syslog_head (strip_bom event) out = (s, out1)" by fastforce
  have e: "extends out1 q"
  proof (cases "rfc5424 s out1")
    case (Pair r out2)
    note x = rfc5424_extends(1) [OF Pair]
    show ?thesis
      using st h Pair x rfc3164_extends [of out1 bsd s] extends_trans [OF x rfc3164_extends [of out2 bsd s]]
      by (auto simp: strip_syslog_def split: if_splits option.splits)
  qed
  have "strips q event (strip_bom event)" by (rule strips_bom)
  also have "strips q (strip_bom event) s" using strips_extends [OF syslog_head_strips [OF h] e] .
  also have "strips q s t"
    using st h rfc3164_strips rfc5424_strips
    by (auto simp: strip_syslog_def split: if_splits option.splits prod.splits)
  finally show ?thesis .
qed

subsection \<open>Round trip of an RFC 5424 line\<close>

definition sd_escape :: "bytes \<Rightarrow> bytes" where
  "sd_escape v = concat (map (\<lambda>b. if b = CHR 0x22 \<or> b = CHR 0x5C \<or> b = CHR '']'' then [CHR 0x5C, b] else [b]) v)"

definition sd_param_text :: "bytes \<times> bytes \<Rightarrow> bytes" where
  "sd_param_text kv = CHR '' '' # fst kv @ CHR ''='' # CHR 0x22 # sd_escape (snd kv) @ [CHR 0x22]"

definition sd_body :: "bytes \<times> (bytes \<times> bytes) list \<Rightarrow> bytes" where
  "sd_body e = fst e @ concat (map sd_param_text (snd e))"

definition sd_text :: "(bytes \<times> (bytes \<times> bytes) list) list \<Rightarrow> bytes" where
  "sd_text es = (if es = [] then ''-'' else concat (map (\<lambda>e. CHR ''['' # sd_body e @ '']'') es))"

definition syslog_line :: "nat \<Rightarrow> bytes list \<Rightarrow> (bytes \<times> (bytes \<times> bytes) list) list \<Rightarrow> bytes \<Rightarrow> bytes" where
  "syslog_line pri header es msg =
     ''<'' @ dec pri @ ''>1 '' @ concat (map (\<lambda>t. t @ '' '') header) @ sd_text es @ '' '' @ msg"

definition sd_name_plain :: "bytes \<Rightarrow> bool" where
  "sd_name_plain n \<longleftrightarrow> sd_name_ok n \<and> CHR 0x5C \<notin> set n"

text \<open>What RFC 5424 lets a sender write (a date alone in the first place is Check Point's form).\<close>

definition syslog_writable :: "nat \<Rightarrow> bytes list \<Rightarrow> (bytes \<times> (bytes \<times> bytes) list) list \<Rightarrow> bytes \<Rightarrow> bool" where
  "syslog_writable pri header es msg \<longleftrightarrow>
     pri < 192 \<and> length header = 5 \<and> list_all (\<lambda>t. t \<noteq> [] \<and> list_all (\<lambda>b. \<not> env_blank b) t) header \<and>
     (is_ascii_digit (hd (hd header)) \<or> hd (hd header) = CHR ''-'') \<and> \<not> is_date (hd header) \<and>
     list_all (\<lambda>e. sd_name_plain (fst e) \<and> list_all (\<lambda>kv. sd_name_plain (fst kv)) (snd e)) es \<and>
     (msg = [] \<or> \<not> env_blank (hd msg)) \<and> \<not> prefix bom msg"

definition header_pairs :: "bytes list \<Rightarrow> (bytes \<times> bytes) list" where
  "header_pairs header = filter (\<lambda>kv. snd kv \<noteq> ''-'') (zip header_names header)"

definition sd_pairs :: "(bytes \<times> (bytes \<times> bytes) list) list \<Rightarrow> (bytes \<times> bytes) list" where
  "sd_pairs es = concat (map snd es) @ (if es = [] then [] else [(''syslog_sd'', sd_text es)])"

lemma dec_digits: "b \<in> set (dec n) \<Longrightarrow> is_ascii_digit b"
  by (induction n rule: dec.induct) (subst (asm) (2) dec.simps, auto simp: digit_char_digit split: if_splits)

lemma dec_ne [simp]: "dec n \<noteq> []"
  by (subst dec.simps) simp

lemma dec_val: "foldl (\<lambda>acc d. acc * 10 + digit_val d) 0 (dec n) = n"
  by (induction n rule: dec.induct) (subst dec.simps, simp)

lemma dec_length3: "n < 1000 \<Longrightarrow> length (dec n) \<le> 3"
  using pad_dec_fixed [of 3 n] by simp

lemma syslog_pri_text:
  assumes "pri < 192"
  shows "syslog_pri (''<'' @ dec pri @ ''>'' @ r) = Some (dec pri, pri, r)"
proof -
  have len: "length (dec pri) \<le> 3" using assms by (intro dec_length3) simp
  have gt: "CHR ''>'' \<notin> set (''<'' @ dec pri)"
    using dec_digits [of "CHR ''>''" pri] by (auto simp: is_ascii_digit_def)
  have "take 5 (''<'' @ dec pri @ ''>'' @ r) = (''<'' @ dec pri) @ CHR ''>'' # take (3 - length (dec pri)) r"
    using len by (simp add: numeral_eq_Suc Suc_diff_le)
  then have "memchr (CHR ''>'') (take 5 (''<'' @ dec pri @ ''>'' @ r)) = Some (Suc (length (dec pri)))"
    using memchr_hit [OF gt] by simp
  moreover have "slice 1 (Suc (length (dec pri))) (''<'' @ dec pri @ ''>'' @ r) = dec pri"
    by (simp add: slice_def)
  moreover have "list_all is_ascii_digit (dec pri)" by (auto simp: list_all_iff dec_digits)
  ultimately show ?thesis using assms by (simp add: syslog_pri_def Let_def dec_val)
qed

lemma env_token_text: "list_all (\<lambda>b. \<not> env_blank b) t \<Longrightarrow> env_token (t @ CHR '' '' # r) = t"
  and env_after_text: "list_all (\<lambda>b. \<not> env_blank b) t \<Longrightarrow> env_after (t @ CHR '' '' # r) = CHR '' '' # r"
  by (auto simp: env_token_def env_after_def list_all_iff env_blank_def takeWhile_append dropWhile_append)

lemma skip_space [simp]: "skip_spaces (CHR '' '' # r) = skip_spaces r"
  by (simp add: skip_spaces_def env_blank_def)

lemma skip_none: "r = [] \<or> \<not> env_blank (hd r) \<Longrightarrow> skip_spaces r = r"
  by (cases r) (auto simp: skip_spaces_def)

lemma field_pairs_push [simp]: "field_pairs (push k v p) = field_pairs p @ [(cow_bytes k, cow_bytes v)]"
  by (simp add: field_pairs_def)

lemma header_loop_text:
  assumes "length names = length header" "list_all (\<lambda>t. t \<noteq> [] \<and> list_all (\<lambda>b. \<not> env_blank b) t) header"
    "\<not> first \<or> header = [] \<or> \<not> is_date (hd header)" "r = [] \<or> \<not> env_blank (hd r)"
  shows "\<exists>q. header_loop first names (concat (map (\<lambda>t. t @ '' '') header) @ r) out = (Some r, q) \<and>
    field_pairs q = field_pairs out @ filter (\<lambda>kv. snd kv \<noteq> ''-'') (zip names header)"
  using assms
proof (induction names header arbitrary: first out rule: list_induct2)
  case Nil
  then show ?case by simp
next
  case (Cons name names tok header)
  let ?r = "concat (map (\<lambda>t. t @ '' '') header) @ r"
  let ?out = "if tok \<noteq> ''-'' then push (Borrowed name) (Borrowed tok) out else out"
  have t: "list_all (\<lambda>b. \<not> env_blank b) tok" "tok \<noteq> []" using Cons.prems by auto
  have "header_token first (tok @ CHR '' '' # ?r) = (tok, CHR '' '' # ?r)"
    using Cons.prems t by (auto simp: header_token_def Let_def env_token_text env_after_text)
  moreover have "skip_spaces ?r = ?r"
    using Cons.prems by (intro skip_none) (cases header; auto simp: list_all_iff hd_append)
  moreover obtain q where "header_loop False names ?r ?out = (Some r, q)"
      "field_pairs q = field_pairs ?out @ filter (\<lambda>kv. snd kv \<noteq> ''-'') (zip names header)"
    using Cons.IH [of False ?out] Cons.prems by auto
  ultimately show ?case using t by (auto split: if_splits)
qed

text \<open>Structured data: an element body is found again, and its parameters read back.\<close>

lemma sd_end_plain:
  "CHR '']'' \<notin> set p \<Longrightarrow> CHR 0x5C \<notin> set p \<Longrightarrow>
    sd_element_end (p @ s) = map_option (\<lambda>(e, t). (p @ e, t)) (sd_element_end s)"
  by (induction p) (auto simp: option.map_id0 option.map_comp comp_def case_prod_beta intro!: option.map_cong split: prod.splits)

lemma sd_end_escape:
  "sd_element_end (sd_escape v @ s) = map_option (\<lambda>(e, t). (sd_escape v @ e, t)) (sd_element_end s)"
proof (induction v)
  case Nil
  show ?case by (cases "sd_element_end s") (auto simp: sd_escape_def)
next
  case (Cons b v)
  have "sd_escape (b # v) = (if b = CHR 0x22 \<or> b = CHR 0x5C \<or> b = CHR '']'' then [CHR 0x5C, b] else [b]) @ sd_escape v"
    by (simp add: sd_escape_def)
  with Cons show ?case
    by (cases "b = CHR 0x22 \<or> b = CHR 0x5C \<or> b = CHR '']''")
       (auto simp: option.map_comp comp_def case_prod_beta)
qed

lemma sd_name_plainD:
  "sd_name_plain n \<Longrightarrow> CHR '']'' \<notin> set n \<and> CHR 0x5C \<notin> set n \<and> CHR ''='' \<notin> set n \<and>
    sd_name_ok n \<and> n \<noteq> [] \<and> list_all (\<lambda>b. \<not> env_blank b) n"
proof -
  assume n: "sd_name_plain n"
  then have ok: "sd_name_ok n" "CHR 0x5C \<notin> set n" by (simp_all add: sd_name_plain_def)
  have c: "0x21 \<le> bv c \<and> c \<noteq> CHR ''='' \<and> c \<noteq> CHR '']''" if "c \<in> set n" for c
    using ok(1) that by (simp add: sd_name_ok_def list_all_iff)
  have blank: "\<not> env_blank c" if "c \<in> set n" for c
    using c [OF that] by (auto simp: env_blank_def)
  show ?thesis using ok c blank by (auto simp: list_all_iff sd_name_ok_def)
qed

lemma sd_end_param:
  assumes "sd_name_plain (fst kv)"
  shows "sd_element_end (sd_param_text kv @ s) = map_option (\<lambda>(e, t). (sd_param_text kv @ e, t)) (sd_element_end s)"
proof -
  let ?p = "CHR '' '' # fst kv @ CHR ''='' # [CHR 0x22]"
  have p: "CHR '']'' \<notin> set ?p" "CHR 0x5C \<notin> set ?p" using sd_name_plainD [OF assms] by auto
  have eq: "sd_param_text kv @ s = ?p @ sd_escape (snd kv) @ [CHR 0x22] @ s" by (simp add: sd_param_text_def)
  have q: "CHR '']'' \<notin> set [CHR 0x22]" "CHR 0x5C \<notin> set [CHR 0x22]" by simp_all
  show ?thesis
    unfolding eq sd_end_plain [OF p] sd_end_escape sd_end_plain [OF q]
    by (cases "sd_element_end s") (auto simp: sd_param_text_def)
qed

lemma sd_end_body:
  assumes "sd_name_plain (fst e)" "list_all (\<lambda>kv. sd_name_plain (fst kv)) (snd e)"
  shows "sd_element_end (sd_body e @ CHR '']'' # r) = Some (sd_body e, r)"
proof -
  have "sd_element_end (concat (map sd_param_text ps) @ CHR '']'' # r) = Some (concat (map sd_param_text ps), r)"
    if "list_all (\<lambda>kv. sd_name_plain (fst kv)) ps" for ps
    using that by (induction ps) (simp_all add: sd_end_param)
  then show ?thesis
    using assms sd_name_plainD [OF assms(1)] by (simp add: sd_body_def sd_end_plain)
qed

lemma unescape_sd: "unescape (sd_escape v) = v"
proof (induction v)
  case Nil
  show ?case by (simp add: sd_escape_def)
next
  case (Cons b v)
  then show ?case
    by (cases "b = CHR 0x22 \<or> b = CHR 0x5C \<or> b = CHR '']''") (auto simp: sd_escape_def unescape_Cons)
qed

lemma kv_quoted_sd:
  "\<exists>e. kv_quoted (CHR 0x22) (sd_escape v @ CHR 0x22 # r) = (sd_escape v, e, CHR 0x22 # r) \<and> (\<not> e \<longrightarrow> sd_escape v = v)"
proof (induction v)
  case Nil
  show ?case by (simp add: sd_escape_def exI [of _ False])
next
  case (Cons b v)
  have "sd_escape (b # v) = (if b = CHR 0x22 \<or> b = CHR 0x5C \<or> b = CHR '']'' then [CHR 0x5C, b] else [b]) @ sd_escape v"
    by (simp add: sd_escape_def)
  with Cons show ?case
    by (cases "b = CHR 0x22 \<or> b = CHR 0x5C \<or> b = CHR '']''") auto
qed

lemma sd_param_read:
  assumes "sd_name_plain (fst kv)"
  shows "\<exists>v. sd_param (skip_spaces (sd_param_text kv @ r)) = Some (fst kv, v, r) \<and> cow_bytes v = snd kv"
proof -
  note n = sd_name_plainD [OF assms]
  let ?s = "fst kv @ CHR ''='' # CHR 0x22 # sd_escape (snd kv) @ CHR 0x22 # r"
  have s: "skip_spaces (sd_param_text kv @ r) = ?s"
    using n by (cases "fst kv") (auto simp: sd_param_text_def intro!: skip_none)
  obtain e where e: "kv_quoted (CHR 0x22) (sd_escape (snd kv) @ CHR 0x22 # r) = (sd_escape (snd kv), e, CHR 0x22 # r)"
    "\<not> e \<longrightarrow> sd_escape (snd kv) = snd kv" using kv_quoted_sd by blast
  have m: "memchr (CHR ''='') ?s = Some (length (fst kv))" using memchr_hit n by blast
  show ?thesis unfolding s using n e by (simp add: sd_param_def m unescape_sd)
qed

lemma sd_params_loop_read:
  assumes "list_all (\<lambda>kv. sd_name_plain (fst kv)) ps"
  shows "\<exists>q. sd_params_loop mark (concat (map sd_param_text ps)) out = (True, q) \<and> field_pairs q = field_pairs out @ ps"
  using assms
proof (induction ps arbitrary: out)
  case Nil
  show ?case by (simp add: sd_params_loop.simps [of mark "[]"] skip_spaces_def)
next
  case (Cons kv ps)
  let ?s = "sd_param_text kv @ concat (map sd_param_text ps)"
  from Cons.prems obtain v where v: "sd_param (skip_spaces ?s) = Some (fst kv, v, concat (map sd_param_text ps))"
    "cow_bytes v = snd kv" using sd_param_read by fastforce
  then have ne: "skip_spaces ?s \<noteq> []" by (auto simp: sd_param_def memchr_def)
  obtain q where "sd_params_loop mark (concat (map sd_param_text ps)) (push (Borrowed (fst kv)) v out) = (True, q)"
    "field_pairs q = field_pairs (push (Borrowed (fst kv)) v out) @ ps" using Cons by fastforce
  with v ne show ?case by (auto simp: sd_params_loop.simps [of mark ?s])
qed

lemma sd_params_read:
  assumes "sd_name_plain (fst e)" "list_all (\<lambda>kv. sd_name_plain (fst kv)) (snd e)"
  shows "\<exists>q. sd_params (sd_body e) out = (True, q) \<and> field_pairs q = field_pairs out @ snd e"
proof -
  note n = sd_name_plainD [OF assms(1)]
  have "env_token (sd_body e) = fst e \<and> env_after (sd_body e) = concat (map sd_param_text (snd e))"
  proof (cases "snd e")
    case Nil
    then show ?thesis using n
      by (auto simp: sd_body_def env_token_def env_after_def list_all_iff takeWhile_eq_all_conv)
  next
    case (Cons kv ps)
    then show ?thesis using n env_token_text env_after_text by (simp add: sd_body_def sd_param_text_def)
  qed
  with n sd_params_loop_read [OF assms(2)] show ?thesis by (simp add: sd_params_def)
qed

lemma sd_elements_read:
  assumes "list_all (\<lambda>e. sd_name_plain (fst e) \<and> list_all (\<lambda>kv. sd_name_plain (fst kv)) (snd e)) es"
  shows "\<exists>q. sd_elements (concat (map (\<lambda>e. CHR ''['' # sd_body e @ '']'') es) @ CHR '' '' # r) n out
      = (CHR '' '' # r, n + length es, q) \<and> field_pairs q = field_pairs out @ concat (map snd es)"
  using assms
proof (induction es arbitrary: n out)
  case Nil
  show ?case by (simp add: sd_elements.simps [of "CHR '' '' # r"])
next
  case (Cons e es)
  let ?r = "concat (map (\<lambda>e. CHR ''['' # sd_body e @ '']'') es) @ CHR '' '' # r"
  have el: "sd_element_end (sd_body e @ CHR '']'' # ?r) = Some (sd_body e, ?r)"
    using Cons.prems by (intro sd_end_body) auto
  obtain q where q: "sd_params (sd_body e) out = (True, q)" "field_pairs q = field_pairs out @ snd e"
    using sd_params_read Cons.prems by fastforce
  obtain q' where "sd_elements ?r (n + 1) q = (CHR '' '' # r, n + 1 + length es, q')"
    "field_pairs q' = field_pairs q @ concat (map snd es)" using Cons by fastforce
  with el q show ?case by (auto simp: sd_elements.simps [of "CHR ''['' # sd_body e @ CHR '']'' # ?r"])
qed

lemma hd_concat_tok: "list_all (\<lambda>t. t \<noteq> [] \<and> P t) ts \<Longrightarrow> ts \<noteq> [] \<Longrightarrow>
    hd (concat (map (\<lambda>t. t @ '' '') ts) @ r) = hd (hd ts)"
  by (cases ts) auto

text \<open>Both forms of the structured data field: the nil dash and a run of elements.\<close>

lemma rfc5424_text:
  assumes "syslog_writable pri header es msg"
  shows "\<exists>q. rfc5424 (''1 '' @ concat (map (\<lambda>t. t @ '' '') header) @ sd_text es @ '' '' @ msg) out = (Some msg, q) \<and>
    field_pairs q = field_pairs out @ header_pairs header @ sd_pairs es"
proof -
  let ?sd = "sd_text es @ '' '' @ msg"
  note w = assms [unfolded syslog_writable_def]
  have h5: "length header_names = length header" using w by (simp add: header_names_def)
  have start: "?sd = [] \<or> \<not> env_blank (hd ?sd)"
    by (cases es) (simp_all add: sd_text_def env_blank_def)
  obtain q where q: "header_loop True header_names (concat (map (\<lambda>t. t @ '' '') header) @ ?sd) out = (Some ?sd, q)"
    "field_pairs q = field_pairs out @ header_pairs header"
    using header_loop_text [OF h5 _ _ start, of True] w unfolding header_pairs_def by blast
  have msg: "strip_bom (skip_spaces (CHR '' '' # msg)) = msg"
    using w skip_none [of msg] by (simp add: strip_bom_def)
  show ?thesis
  proof (cases "es = []")
    case True
    with q msg show ?thesis by (simp add: rfc5424_def sd_pairs_def sd_text_def)
  next
    case False
    let ?es = "concat (map (\<lambda>e. CHR ''['' # sd_body e @ '']'') es)"
    obtain q' where q': "sd_elements (?es @ CHR '' '' # msg) 0 q = (CHR '' '' # msg, length es, q')"
      "field_pairs q' = field_pairs q @ concat (map snd es)"
      using sd_elements_read [of es msg 0 q] w by auto
    have nodash: "\<not> prefix ''-'' (?es @ CHR '' '' # msg)" using False by (cases es) auto
    have "sd_text es = ?es" using False by (simp add: sd_text_def)
    with q q' msg False nodash show ?thesis by (simp add: rfc5424_def sd_pairs_def)
  qed
qed

text \<open>
  C40. RFC 5424 round trip: a syslog line with a priority, the five header fields, any structured
  data (parameter values of any bytes, escaped as the RFC says) and a message comes apart
  into its fields in order, the nil ones left out, and the message byte for byte,
  whatever the timestamp regex of the older form does.
\<close>

theorem syslog_roundtrip:
  assumes "syslog_writable pri header es msg"
  shows "\<exists>q. strip_syslog bsd (syslog_line pri header es msg) out = (msg, q) \<and>
    field_pairs q = field_pairs out @
      [(''syslog_pri'', dec pri), (''syslog_facility'', dec (pri div 8)), (''syslog_severity'', dec (pri mod 8))] @
      header_pairs header @ sd_pairs es"
proof -
  note w = assms [unfolded syslog_writable_def]
  let ?rest = "concat (map (\<lambda>t. t @ '' '') header) @ sd_text es @ '' '' @ msg"
  let ?out = "push (Borrowed ''syslog_severity'') (Borrowed (severity_names ! (pri mod 8)))
    (push (Borrowed ''syslog_facility'') (Borrowed (facility_names ! (pri div 8)))
      (push (Borrowed ''syslog_pri'') (Borrowed (dec pri)) out))"
  have line: "syslog_line pri header es msg = ''<'' @ dec pri @ ''>'' @ (''1 '' @ ?rest)"
    by (simp add: syslog_line_def)
  have pri: "syslog_pri (strip_bom (syslog_line pri header es msg)) = Some (dec pri, pri, ''1 '' @ ?rest)"
    using w syslog_pri_text [of pri "''1 '' @ ?rest"] unfolding line by (simp add: strip_bom_def bom_def)
  have "header \<noteq> []" using w by auto
  then have "hd ?rest = hd (hd header)" "?rest \<noteq> []"
    using w hd_concat_tok by blast (use \<open>header \<noteq> []\<close> in \<open>cases header; auto\<close>)
  then have start: "2 < length (''1 '' @ ?rest)" "(''1 '' @ ?rest) ! 2 = hd (hd header)"
    by (simp_all add: hd_conv_nth)
  obtain q where q: "rfc5424 (''1 '' @ ?rest) ?out = (Some msg, q)"
    "field_pairs q = field_pairs ?out @ header_pairs header @ sd_pairs es"
    using rfc5424_text [OF assms] by blast
  have names: "facility_names ! (pri div 8) = dec (pri div 8)" "severity_names ! (pri mod 8) = dec (pri mod 8)"
    using w by (simp_all add: facility_names_def severity_names_def less_mult_imp_div_less)
  have "strip_syslog bsd (syslog_line pri header es msg) out = (msg, q)"
    unfolding strip_syslog_def syslog_head_def pri using start q(1) w by (simp del: append.simps)
  with q(2) names show ?thesis by simp
qed

theorem syslog_roundtrip_witness:
  "\<exists>q. strip_syslog (\<lambda>_. None) (syslog_line 165
        [''2026-03-01T10:00:00Z'', ''fw1'', ''ulpf'', ''-'', ''ID47'']
        [(''ex@1'', [(''k'', ''a]b'')]), (''q'', [])] ''link down'') parsed_default = (''link down'', q) \<and>
     field_pairs q =
       [(''syslog_pri'', ''165''), (''syslog_facility'', ''20''), (''syslog_severity'', ''5''),
        (''syslog_timestamp'', ''2026-03-01T10:00:00Z''), (''syslog_host'', ''fw1''), (''syslog_app'', ''ulpf''),
        (''syslog_msgid'', ''ID47''), (''k'', ''a]b''),
        (''syslog_sd'', ''[ex@1 k='' @ [CHR 0x22] @ ''a'' @ [CHR 0x5C] @ '']b'' @ [CHR 0x22] @ ''][q]'')]"
proof -
  let ?h = "[''2026-03-01T10:00:00Z'', ''fw1'', ''ulpf'', ''-'', ''ID47'']"
  let ?es = "[(''ex@1'', [(''k'', ''a]b'')]), (''q'', [])]"
  have "syslog_writable 165 ?h ?es ''link down''" by code_simp
  from syslog_roundtrip [OF this, of "\<lambda>_. None" parsed_default] obtain q where
    "strip_syslog (\<lambda>_. None) (syslog_line 165 ?h ?es ''link down'') parsed_default = (''link down'', q)"
    "field_pairs q = field_pairs parsed_default @
      [(''syslog_pri'', dec 165), (''syslog_facility'', dec (165 div 8)), (''syslog_severity'', dec (165 mod 8))] @
      header_pairs ?h @ sd_pairs ?es" by blast
  moreover have "field_pairs parsed_default @
      [(''syslog_pri'', dec 165), (''syslog_facility'', dec (165 div 8)), (''syslog_severity'', dec (165 mod 8))] @
      header_pairs ?h @ sd_pairs ?es = [(''syslog_pri'', ''165''), (''syslog_facility'', ''20''), (''syslog_severity'', ''5''),
        (''syslog_timestamp'', ''2026-03-01T10:00:00Z''), (''syslog_host'', ''fw1''), (''syslog_app'', ''ulpf''),
        (''syslog_msgid'', ''ID47''), (''k'', ''a]b''),
        (''syslog_sd'', ''[ex@1 k='' @ [CHR 0x22] @ ''a'' @ [CHR 0x5C] @ '']b'' @ [CHR 0x22] @ ''][q]'')]" by code_simp
  ultimately show ?thesis by metis
qed

subsection \<open>The message is a suffix of the event\<close>

lemma suffix_skip: "suffix (skip_spaces s) s"
  by (simp add: skip_spaces_def suffix_dropWhile)

lemma suffix_after: "suffix (env_after s) s"
  by (simp add: env_after_def suffix_dropWhile)

lemma suffix_bom: "suffix (strip_bom s) s"
  by (simp add: strip_bom_def suffix_drop)

lemmas envelope_suffixes = suffix_skip suffix_after suffix_bom suffix_drop suffix_order.order_refl

lemma header_loop_suffix: "header_loop first names s out = (Some r, q) \<Longrightarrow> suffix r s"
proof (induction first names s out rule: header_loop.induct)
  case (2 first name names s out)
  obtain tok after where h: "header_token first s = (tok, after)" by fastforce
  have "suffix after s"
    using h suffix_order.trans [OF suffix_after suffix_order.trans [OF suffix_skip suffix_after]] suffix_after [of s]
    by (auto simp: header_token_def Let_def split: if_splits)
  with 2 h show ?case
    by (cases "tok = []") (auto intro: suffix_order.trans [OF _ suffix_order.trans [OF suffix_skip]])
qed simp

lemma rfc5424_suffix:
  assumes "rfc5424 b out = (Some msg, q)"
  shows "suffix msg b"
proof -
  obtain s q1 where h: "header_loop True header_names (drop 2 b) out = (s, q1)" by fastforce
  with assms obtain u where s: "s = Some u" by (cases s) (auto simp: rfc5424_def Let_def)
  have u: "suffix u b" using header_loop_suffix h s suffix_drop suffix_order.trans by blast
  obtain t n q2 where el: "sd_elements u 0 q1 = (t, n, q2)" by (metis prod_cases3)
  have t: "suffix t u" using sd_elements_extends [OF el] by blast
  have "\<exists>v. msg = strip_bom (skip_spaces v) \<and> suffix v u"
    using assms h s el t by (auto simp: rfc5424_def Let_def suffix_drop split: if_splits)
  then show ?thesis using u suffix_bom suffix_skip suffix_order.trans by metis
qed

lemma rfc3164_suffix: "suffix (fst (rfc3164 bsd s out)) s"
proof (cases "bsd s")
  case None
  then show ?thesis by (simp add: rfc3164_def)
next
  case (Some m)
  let ?t = "skip_spaces (drop m s)"
  let ?u = "skip_spaces (env_after ?t)"
  have t: "suffix ?t s" using suffix_skip suffix_drop suffix_order.trans by blast
  have u: "suffix ?u s" using t suffix_skip suffix_after suffix_order.trans by blast
  have v: "suffix (skip_spaces (drop 1 ?u)) s" using u suffix_skip suffix_drop suffix_order.trans by blast
  from Some t u v show ?thesis by (auto simp: rfc3164_def Let_def)
qed

lemma syslog_pri_suffix: "syslog_pri e = Some (ds, pri, after) \<Longrightarrow> suffix after e"
  by (auto simp: syslog_pri_def Let_def suffix_drop split: if_splits option.splits)

lemma strip_syslog_suffix: "suffix (fst (strip_syslog bsd event out)) event"
proof -
  obtain s out1 where s: "syslog_head (strip_bom event) out = (s, out1)" by fastforce
  obtain r out2 where r: "rfc5424 s out1 = (r, out2)" by fastforce
  have "suffix s (strip_bom event)"
    using s syslog_pri_suffix by (auto simp: syslog_head_def split: option.splits)
  then have se: "suffix s event" using suffix_bom suffix_order.trans by blast
  have "suffix (fst (strip_syslog bsd event out)) s"
    using r rfc5424_suffix [of s out1 _ out2] rfc3164_suffix
    by (simp add: strip_syslog_def s split: option.splits)
  with se show ?thesis using suffix_order.trans by blast
qed

text \<open>
  The envelope never alters the message: for any bytes at all, what is handed on
  to the strategy is a suffix of the event, the fields found are added after those already
  there, and an RFC 5424 header that turns out malformed leaves no field behind.
\<close>

theorem envelope_keeps_message:
  "suffix (fst (strip_syslog bsd event out)) event \<and> extends out (snd (strip_syslog bsd event out)) \<and>
   (fst (rfc5424 event out) = None \<longrightarrow> pa_fields (snd (rfc5424 event out)) = pa_fields out)"
proof (intro conjI impI)
  show "suffix (fst (strip_syslog bsd event out)) event" by (rule strip_syslog_suffix)
  show "extends out (snd (strip_syslog bsd event out))" by (rule strip_syslog_extends)
  show "pa_fields (snd (rfc5424 event out)) = pa_fields out" if "fst (rfc5424 event out) = None"
    using rfc5424_extends(2) that prod.collapse by metis
qed

theorem envelope_keeps_message_witness:
  "fst (strip_syslog (\<lambda>_. None) ''<13>1 broken'' parsed_default) = ''1 broken''
   \<and> fst (rfc5424 ''1 broken'' parsed_default) = None \<and> pa_fields (snd (rfc5424 ''1 broken'' parsed_default)) = []"
proof -
  have n: "fst (rfc5424 ''1 broken'' parsed_default) = None" by code_simp
  with envelope_keeps_message [of "\<lambda>_. None" "''1 broken''" parsed_default]
  have "pa_fields (snd (rfc5424 ''1 broken'' parsed_default)) = []" by (simp add: parsed_default_def)
  moreover have "fst (strip_syslog (\<lambda>_. None) ''<13>1 broken'' parsed_default) = ''1 broken''" by code_simp
  ultimately show ?thesis using n by simp
qed

end
