(* ===== verification/Ulpf_Cef.thy ===== *)
theory Ulpf_Cef
  imports Ulpf_Kv
begin

text \<open>
  CEF and LEEF, \<open>src/crates/ulpf-parse/src/structured.rs\<close>: \<open>unescape_if_needed\<close>,
  \<open>split_pipes\<close>, \<open>apply_cef\<close>, \<open>extension_pairs\<close>, \<open>delimiter_byte\<close> and \<open>apply_leef\<close>. Pieces are
  the bytes their ranges select; the extension scanner keeps its positions, the bytes before
  the cursor being passed in reverse. The round trip property reads back what a device writes.
\<close>

fun cef_unescape :: "bytes \<Rightarrow> bytes" where
  "cef_unescape [] = []"
| "cef_unescape [b] = [b]"
| "cef_unescape (b # c # r) =
     (if b = CHR 0x5C
      then (if c = CHR ''n'' then CHR 0x0A else if c = CHR ''r'' then CHR 0x0D else c) # cef_unescape r
      else b # cef_unescape (c # r))"

definition unescape_if_needed :: "bytes \<Rightarrow> cow" where
  "unescape_if_needed raw = (if CHR 0x5C \<notin> set raw then Borrowed raw else Owned (cef_unescape raw))"

text \<open>Up to the first unescaped pipe, and what follows it.\<close>

fun pipe_cut :: "bytes \<Rightarrow> (bytes \<times> bytes) option" where
  "pipe_cut [] = None"
| "pipe_cut (b # r) =
     (if b = CHR 0x5C then
        (case r of [] \<Rightarrow> None | c # r' \<Rightarrow> map_option (\<lambda>(p, t). (b # c # p, t)) (pipe_cut r'))
      else if b = CHR ''|'' then Some ([], r)
      else map_option (\<lambda>(p, t). (b # p, t)) (pipe_cut r))"

fun split_pipes :: "nat \<Rightarrow> bytes \<Rightarrow> bytes list" where
  "split_pipes 0 s = [s]"
| "split_pipes (Suc 0) s = [s]"
| "split_pipes (Suc (Suc n)) s =
     (case pipe_cut s of None \<Rightarrow> [s] | Some (p, r) \<Rightarrow> p # split_pipes (Suc n) r)"

definition push_all :: "(bytes \<times> cow) list \<Rightarrow> parsed \<Rightarrow> parsed" where
  "push_all kvs out = foldl (\<lambda>p (k, v). push (Borrowed k) v p) out kvs"

definition cef_header :: "bytes list" where
  "cef_header = [''cef_version'', ''device_vendor'', ''device_product'', ''device_version'',
     ''signature_id'', ''name'', ''cef_severity'']"

subsection \<open>The CEF extension\<close>

definition is_key_byte :: "byte \<Rightarrow> bool" where
  "is_key_byte b \<longleftrightarrow> is_ascii_alphanumeric b \<or> b = CHR ''_'' \<or> b = CHR ''.'' \<or> b = CHR ''-''"

definition blank_byte :: "byte \<Rightarrow> bool" where
  "blank_byte b \<longleftrightarrow> b = CHR '' '' \<or> b = CHR 0x09"

text \<open>Positions of every unescaped equals sign with a key before it; \<open>seen\<close> is reversed.\<close>

fun ext_eqs :: "bytes \<Rightarrow> bytes \<Rightarrow> (nat \<times> nat) list" where
  "ext_eqs seen [] = []"
| "ext_eqs seen (b # r) =
     (if b = CHR 0x5C then (case r of [] \<Rightarrow> [] | c # r' \<Rightarrow> ext_eqs (c # b # seen) r')
      else if b = CHR ''='' then
        (let key = takeWhile is_key_byte seen; before = dropWhile is_key_byte seen in
         (if key \<noteq> [] \<and> (before = [] \<or> blank_byte (hd before))
          then [(length seen - length key, length seen)] else []) @ ext_eqs (b # seen) r)
      else ext_eqs (b # seen) r)"

definition trim_blank_end :: "bytes \<Rightarrow> bytes" where
  "trim_blank_end s = rev (dropWhile blank_byte (rev s))"

fun ext_values :: "bytes \<Rightarrow> (nat \<times> nat) list \<Rightarrow> (bytes \<times> cow) list" where
  "ext_values ext [] = []"
| "ext_values ext [(ks, eq)] = [(slice ks eq ext, unescape_if_needed (drop (eq + 1) ext))]"
| "ext_values ext ((ks, eq) # (ks', eq') # eqs) =
     (slice ks eq ext, unescape_if_needed (trim_blank_end (slice (eq + 1) ks' ext)))
       # ext_values ext ((ks', eq') # eqs)"

definition extension_pairs :: "bytes \<Rightarrow> parsed \<Rightarrow> parsed" where
  "extension_pairs ext out = push_all (ext_values ext (ext_eqs [] ext)) out"

definition apply_cef :: "bytes \<Rightarrow> parsed \<Rightarrow> parse_failure option \<times> parsed" where
  "apply_cef text out =
     (case memmem ''CEF:'' text of
        None \<Rightarrow> (Some InvalidCef, out)
      | Some start \<Rightarrow>
          let parts = split_pipes 8 (drop (start + 4) text) in
          if length parts < 8 then (Some InvalidCef, out)
          else (None, extension_pairs (parts ! 7)
                        (push_all (zip cef_header (map unescape_if_needed parts)) out)))"

subsection \<open>LEEF\<close>

definition leef_header :: "bytes list" where
  "leef_header = [''leef_version'', ''device_vendor'', ''device_product'', ''device_version'', ''event_id'']"

definition hex_val :: "byte \<Rightarrow> nat" where
  "hex_val b = (if is_ascii_digit b then bv b - 48 else if 97 \<le> bv b then bv b - 87 else bv b - 55)"

definition hex_digits_val :: "bytes \<Rightarrow> nat" where
  "hex_digits_val ds = foldl (\<lambda>v b. v * 16 + hex_val b) 0 ds"

definition hex_prefix :: "bytes \<Rightarrow> bytes option" where
  "hex_prefix d =
     (case d of
        a # r \<Rightarrow>
          if a = CHR ''0'' then (case r of x # r' \<Rightarrow> if x = CHR ''x'' \<or> x = CHR ''X'' then Some r' else None | [] \<Rightarrow> None)
          else if a = CHR ''x'' \<or> a = CHR ''X'' then Some r else None
      | [] \<Rightarrow> None)"

definition delimiter_byte :: "bytes \<Rightarrow> parse_failure + byte" where
  "delimiter_byte d =
     (if d = [] then Inr (CHR 0x09)
      else if length d = 1 then Inr (hd d)
      else case hex_prefix d of
             None \<Rightarrow> Inl InvalidLeef
           | Some h \<Rightarrow>
               if (length h = 1 \<or> length h = 2) \<and> list_all is_ascii_hexdigit h
               then Inr (char_of (hex_digits_val h)) else Inl InvalidLeef)"

definition leef_attr :: "bytes \<Rightarrow> (bytes \<times> cow) list" where
  "leef_attr pair =
     (case memchr (CHR ''='') pair of
        None \<Rightarrow> []
      | Some eq \<Rightarrow> if eq = 0 then [] else [(take eq pair, unescape_if_needed (drop (eq + 1) pair))])"

definition apply_leef :: "bytes \<Rightarrow> parsed \<Rightarrow> parse_failure option \<times> parsed" where
  "apply_leef text out =
     (case memmem ''LEEF:'' text of
        None \<Rightarrow> (Some InvalidLeef, out)
      | Some start \<Rightarrow>
          let body = drop (start + 5) text;
              v2 = prefix ''2.'' body;
              parts = split_pipes (if v2 then 7 else 6) body in
          if length parts < 6 then (Some InvalidLeef, out)
          else (case (if v2 \<and> length parts = 7
                      then map_sum id (\<lambda>d. (d, parts ! 6)) (delimiter_byte (parts ! 5))
                      else Inr (CHR 0x09, last parts)) of
                  Inl e \<Rightarrow> (Some e, out)
                | Inr (delim, attrs) \<Rightarrow>
                    (None, push_all (concat (map leef_attr (split_on delim attrs)))
                             (push_all (zip leef_header (map unescape_if_needed parts)) out))))"

subsection \<open>The strategy contract\<close>

lemma push_all_Nil [simp]: "push_all [] out = out"
  and push_all_Cons [simp]: "push_all ((k, v) # kvs) out = push_all kvs (push (Borrowed k) v out)"
  by (simp_all add: push_all_def)

lemma push_all_extends: "extends out (push_all kvs out)"
proof (induction kvs arbitrary: out)
  case (Cons kv kvs)
  obtain k v where kv: "kv = (k, v)" by fastforce
  show ?case unfolding kv push_all_Cons using extends_trans [OF extends_push Cons.IH] .
qed simp

lemma push_all_pairs: "field_pairs (push_all kvs out) = field_pairs out @ map (\<lambda>(k, v). (k, cow_bytes v)) kvs"
  by (induction kvs arbitrary: out) (auto simp: field_pairs_def)

interpretation cef: strategy apply_cef
proof
  fix p t
  show "extends p (snd (apply_cef t p))"
    using extends_trans [OF push_all_extends push_all_extends]
    by (auto simp: apply_cef_def extension_pairs_def Let_def split: option.splits)
  show "pa_fields (snd (apply_cef t p)) = pa_fields p" if "fst (apply_cef t p) \<noteq> None"
    using that by (auto simp: apply_cef_def Let_def split: option.splits if_splits)
qed

interpretation leef: strategy apply_leef
proof
  fix p t
  show "extends p (snd (apply_leef t p))"
    using extends_trans [OF push_all_extends push_all_extends]
    by (auto simp: apply_leef_def Let_def split: option.splits sum.splits)
  show "pa_fields (snd (apply_leef t p)) = pa_fields p" if "fst (apply_leef t p) \<noteq> None"
    using that by (auto simp: apply_leef_def Let_def split: option.splits if_splits sum.splits)
qed

subsection \<open>Round trip of a CEF event\<close>

definition ext_escape :: "bytes \<Rightarrow> bytes" where
  "ext_escape v = concat (map (\<lambda>b.
     if b = CHR 0x0A then [CHR 0x5C, CHR ''n''] else if b = CHR 0x0D then [CHR 0x5C, CHR ''r'']
     else if b = CHR 0x5C \<or> b = CHR ''='' then [CHR 0x5C, b] else [b]) v)"

fun ext_text :: "(bytes \<times> bytes) list \<Rightarrow> bytes" where
  "ext_text [] = []"
| "ext_text [(k, v)] = k @ CHR ''='' # ext_escape v"
| "ext_text ((k, v) # kvs) = k @ CHR ''='' # ext_escape v @ '' '' @ ext_text kvs"

definition cef_text :: "bytes list \<Rightarrow> (bytes \<times> bytes) list \<Rightarrow> bytes" where
  "cef_text header kvs =
     ''CEF:'' @ concat (map (\<lambda>h. kv_escape (CHR ''|'') h @ ''|'') header) @ ext_text kvs"

text \<open>Keys of key bytes; a value that another pair follows does not end in a blank.\<close>

fun ext_writable :: "(bytes \<times> bytes) list \<Rightarrow> bool" where
  "ext_writable [] = True"
| "ext_writable [(k, v)] = (k \<noteq> [] \<and> list_all is_key_byte k)"
| "ext_writable ((k, v) # kvs) =
     (k \<noteq> [] \<and> list_all is_key_byte k \<and> (v = [] \<or> \<not> blank_byte (last v)) \<and> ext_writable kvs)"

lemma cef_unescape_Cons: "b \<noteq> CHR 0x5C \<Longrightarrow> cef_unescape (b # s) = b # cef_unescape s"
  by (cases s) simp_all

lemma ext_escape_Nil [simp]: "ext_escape [] = []"
  and ext_escape_append: "ext_escape (v @ w) = ext_escape v @ ext_escape w"
  by (simp_all add: ext_escape_def)

lemma ext_escape_Cons: "ext_escape (b # v) =
    (if b = CHR 0x0A then [CHR 0x5C, CHR ''n''] else if b = CHR 0x0D then [CHR 0x5C, CHR ''r'']
     else if b = CHR 0x5C \<or> b = CHR ''='' then [CHR 0x5C, b] else [b]) @ ext_escape v"
  by (simp add: ext_escape_def)

lemma cef_unescape_ext: "cef_unescape (ext_escape v) = v"
  by (induction v) (auto simp: ext_escape_Cons cef_unescape_Cons)

lemma ext_escape_plain: "CHR 0x5C \<notin> set (ext_escape v) \<Longrightarrow> ext_escape v = v"
  by (induction v) (auto simp: ext_escape_Cons split: if_splits)

lemma ext_value_read [simp]: "cow_bytes (unescape_if_needed (ext_escape v)) = v"
  by (auto simp: unescape_if_needed_def cef_unescape_ext ext_escape_plain)

lemma cef_unescape_header: "cef_unescape (kv_escape (CHR ''|'') v) = v"
proof (induction v)
  case (Cons b v)
  then show ?case
    by (cases "b = CHR ''|'' \<or> b = CHR 0x5C") (auto simp: kv_escape_def cef_unescape_Cons)
qed (simp add: kv_escape_def)

lemma header_value_read [simp]: "cow_bytes (unescape_if_needed (kv_escape (CHR ''|'') v)) = v"
proof -
  have "CHR 0x5C \<notin> set (kv_escape (CHR ''|'') v) \<Longrightarrow> kv_escape (CHR ''|'') v = v"
    by (induction v) (auto simp: kv_escape_def split: if_splits)
  then show ?thesis by (auto simp: unescape_if_needed_def cef_unescape_header)
qed

lemma pipe_cut_escape: "pipe_cut (kv_escape (CHR ''|'') v @ CHR ''|'' # r) = Some (kv_escape (CHR ''|'') v, r)"
proof (induction v)
  case (Cons b v)
  then show ?case
    by (cases "b = CHR ''|'' \<or> b = CHR 0x5C") (auto simp: kv_escape_def)
qed (simp add: kv_escape_def)

lemma split_pipes_header:
  "split_pipes (Suc (length hs)) (concat (map (\<lambda>h. kv_escape (CHR ''|'') h @ ''|'') hs) @ r)
     = map (kv_escape (CHR ''|'')) hs @ [r]"
  by (induction hs) (simp_all add: pipe_cut_escape)

lemma key_byte_plain: "is_key_byte b \<Longrightarrow> b \<noteq> CHR 0x5C \<and> b \<noteq> CHR ''='' \<and> \<not> blank_byte b"
  by (auto simp: is_key_byte_def blank_byte_def is_ascii_alphanumeric_def is_ascii_alphabetic_def
      is_ascii_upper_def is_ascii_lower_def is_ascii_digit_def)

lemma ext_eqs_key: "list_all is_key_byte k \<Longrightarrow> ext_eqs seen (k @ s) = ext_eqs (rev k @ seen) s"
  by (induction k arbitrary: seen) (auto dest: key_byte_plain)

lemma ext_eqs_escape: "ext_eqs seen (ext_escape v @ s) = ext_eqs (rev (ext_escape v) @ seen) s"
  by (induction v arbitrary: seen) (auto simp: ext_escape_Cons)

lemma ext_eqs_pair:
  assumes "k \<noteq> []" "list_all is_key_byte k" "pre = [] \<or> blank_byte (last pre)"
  shows "ext_eqs (rev pre) (k @ CHR ''='' # ext_escape v @ s)
    = (length pre, length pre + length k) # ext_eqs (rev (pre @ k @ CHR ''='' # ext_escape v)) s"
proof -
  have nk: "pre = [] \<or> \<not> is_key_byte (hd (rev pre))"
    using assms(3) key_byte_plain by (auto simp: hd_rev)
  have "takeWhile is_key_byte (rev k @ rev pre) = rev k" "dropWhile is_key_byte (rev k @ rev pre) = rev pre"
    using assms(2) nk by (cases "rev pre"; auto simp: list_all_iff takeWhile_append dropWhile_append hd_rev)+
  then show ?thesis
    using assms by (simp add: ext_eqs_key ext_eqs_escape Let_def hd_rev)
qed

lemma trim_blank_value:
  assumes "v = [] \<or> \<not> blank_byte (last v)"
  shows "trim_blank_end (ext_escape v @ '' '') = ext_escape v"
proof (cases "v = []")
  case True
  then show ?thesis by (simp add: trim_blank_end_def blank_byte_def)
next
  case False
  then obtain w b where v: "v = w @ [b]" by (metis rev_exhaust)
  with assms have b: "\<not> blank_byte b" by simp
  then have "rev (ext_escape v) \<noteq> [] \<and> \<not> blank_byte (hd (rev (ext_escape v)))"
    using v by (auto simp: ext_escape_append ext_escape_Cons blank_byte_def)
  then show ?thesis
    by (cases "rev (ext_escape v)") (simp_all add: trim_blank_end_def blank_byte_def rev_swap)
qed

lemma ext_values_read:
  assumes "ext_writable kvs" "pre = [] \<or> blank_byte (last pre)"
  shows "map (\<lambda>(k, v). (k, cow_bytes v)) (ext_values (pre @ ext_text kvs) (ext_eqs (rev pre) (ext_text kvs))) = kvs
    \<and> (kvs \<noteq> [] \<longrightarrow> (\<exists>e es. ext_eqs (rev pre) (ext_text kvs) = (length pre, e) # es))"
  using assms
proof (induction kvs arbitrary: pre rule: ext_text.induct)
  case (2 k v)
  have "ext_eqs (rev pre) (k @ CHR ''='' # ext_escape v) = [(length pre, length pre + length k)]"
    using ext_eqs_pair [of k pre v "[]"] 2 by simp
  then show ?case by (simp add: slice_def)
next
  case (3 k v kv kvs)
  let ?t = "ext_text (kv # kvs)"
  let ?pre = "pre @ k @ CHR ''='' # ext_escape v @ '' ''"
  have eqs: "ext_eqs (rev pre) (ext_text ((k, v) # kv # kvs)) = (length pre, length pre + length k) # ext_eqs (rev ?pre) ?t"
    using ext_eqs_pair [of k pre v "CHR '' '' # ?t"] 3 by simp
  have IH: "map (\<lambda>(k, v). (k, cow_bytes v)) (ext_values (?pre @ ?t) (ext_eqs (rev ?pre) ?t)) = kv # kvs"
    "\<exists>e es. ext_eqs (rev ?pre) ?t = (length ?pre, e) # es"
    using "3.IH" [of ?pre] "3.prems" by (auto simp: blank_byte_def)
  then obtain e es where e: "ext_eqs (rev ?pre) ?t = (length ?pre, e) # es" by blast
  have whole: "pre @ ext_text ((k, v) # kv # kvs) = ?pre @ ?t" by simp
  have key: "slice (length pre) (length pre + length k) (?pre @ ?t) = k" by (simp add: slice_def)
  have val: "slice (length pre + length k + 1) (length ?pre) (?pre @ ?t) = ext_escape v @ '' ''"
    by (simp add: slice_def)
  have "ext_values (?pre @ ?t) ((length pre, length pre + length k) # (length ?pre, e) # es)
      = (k, unescape_if_needed (ext_escape v)) # ext_values (?pre @ ?t) ((length ?pre, e) # es)"
    using "3.prems" key val trim_blank_value [of v] by (simp del: append_Cons append_assoc)
  then show ?case using IH(1) unfolding eqs whole e by simp
qed simp

text \<open>
  CEF round trip: for any seven header values and any pairs with keys of key bytes, the
  event a device writes (pipes and backslashes escaped in the header; backslashes, equals
  signs and line ends in values) is read back as exactly those fields, in order.
\<close>

theorem cef_roundtrip:
  assumes "length header = 7" and "ext_writable kvs"
  shows "\<exists>q. apply_cef (cef_text header kvs) out = (None, q) \<and>
    field_pairs q = field_pairs out @ zip cef_header header @ kvs"
proof -
  let ?body = "concat (map (\<lambda>h. kv_escape (CHR ''|'') h @ ''|'') header) @ ext_text kvs"
  have m: "memmem ''CEF:'' (cef_text header kvs) = Some 0" by (simp add: cef_text_def)
  have parts: "split_pipes 8 ?body = map (kv_escape (CHR ''|'')) header @ [ext_text kvs]"
    using split_pipes_header [of header "ext_text kvs"] assms(1) by (simp add: eval_nat_numeral)
  have body: "drop (0 + 4) (cef_text header kvs) = ?body" by (simp add: cef_text_def)
  have len: "length (map (kv_escape (CHR ''|'')) header @ [ext_text kvs]) = 8"
    "(map (kv_escape (CHR ''|'')) header @ [ext_text kvs]) ! 7 = ext_text kvs"
    "length cef_header = 7" using assms(1) by (simp_all add: nth_append cef_header_def)
  have z: "zip cef_header (map unescape_if_needed (map (kv_escape (CHR ''|'')) header @ [ext_text kvs]))
      = zip cef_header (map (unescape_if_needed \<circ> kv_escape (CHR ''|'')) header)"
    using assms(1) len(3) by (simp add: zip_append2)
  have hd: "map (\<lambda>(k, v). (k, cow_bytes v)) (zip cef_header (map (unescape_if_needed \<circ> kv_escape (CHR ''|'')) header))
      = zip cef_header header"
    by (simp add: zip_map2 case_prod_beta comp_def)
  have ext: "map (\<lambda>(k, v). (k, cow_bytes v)) (ext_values (ext_text kvs) (ext_eqs [] (ext_text kvs))) = kvs"
    using ext_values_read [OF assms(2), of "[]"] by simp
  let ?q = "extension_pairs (ext_text kvs) (push_all (zip cef_header (map (unescape_if_needed \<circ> kv_escape (CHR ''|'')) header)) out)"
  have "apply_cef (cef_text header kvs) out = (None, ?q)"
    unfolding apply_cef_def m option.case body Let_def parts z [symmetric] len by simp
  moreover have "field_pairs ?q = field_pairs out @ zip cef_header header @ kvs"
    by (simp add: extension_pairs_def push_all_pairs hd ext)
  ultimately show ?thesis by blast
qed

theorem cef_roundtrip_witness:
  "\<exists>q. apply_cef (cef_text [''0'', ''Acme'', ''a|b'', ''1.0'', ''100'', ''login'', ''5'']
        [(''msg'', ''x=1 y'' @ [CHR 0x0A] @ ''z''), (''act'', []), (''src'', ''10.0.0.1 '')]) parsed_default = (None, q) \<and>
     field_pairs q =
       [(''cef_version'', ''0''), (''device_vendor'', ''Acme''), (''device_product'', ''a|b''),
        (''device_version'', ''1.0''), (''signature_id'', ''100''), (''name'', ''login''), (''cef_severity'', ''5''),
        (''msg'', ''x=1 y'' @ [CHR 0x0A] @ ''z''), (''act'', []), (''src'', ''10.0.0.1 '')]"
proof -
  let ?h = "[''0'', ''Acme'', ''a|b'', ''1.0'', ''100'', ''login'', ''5'']"
  let ?kvs = "[(''msg'', ''x=1 y'' @ [CHR 0x0A] @ ''z''), (''act'', []), (''src'', ''10.0.0.1 '')]"
  have w: "ext_writable ?kvs" by code_simp
  have p: "field_pairs parsed_default = []" by (simp add: field_pairs_def parsed_default_def)
  show ?thesis using cef_roundtrip [of ?h ?kvs parsed_default] w p by (auto simp: cef_header_def)
qed

end
