(* ===== verification/Ulpf_Trees.thy ===== *)
theory Ulpf_Trees
  imports Ulpf_Kv
begin

text \<open>
  JSON and XML, \<open>src/crates/ulpf-parse/src/structured.rs\<close>: \<open>apply_json\<close>, \<open>flatten\<close>,
  \<open>apply_xml\<close>, \<open>push_xml_field\<close>, \<open>push_decimal\<close>, \<open>decode_entities\<close> and \<open>entity\<close>. The
  \<open>serde_json\<close> parser and the \<open>xmlparser\<close> tokenizer are outside the repository and are
  parameters: a function from the text to a value (a number as the text it displays as, the
  members of an object in iteration order) and one from the text to the tokens.
\<close>

subsection \<open>JSON\<close>

datatype json =
  JNull | JBool bool | JNumber bytes | JString bytes | JArray "json list" | JObject "(bytes \<times> json) list"

definition dotted :: "bytes \<Rightarrow> bytes \<Rightarrow> bytes" where
  "dotted pre key = (if pre = [] then key else pre @ ''.'' @ key)"

text \<open>The prefix is pushed before a value and truncated after it, so each call has its own.\<close>

fun flatten :: "bytes \<Rightarrow> bytes \<Rightarrow> json \<Rightarrow> parsed \<Rightarrow> parsed"
  and flatten_members :: "bytes \<Rightarrow> (bytes \<times> json) list \<Rightarrow> parsed \<Rightarrow> parsed"
  and flatten_items :: "bytes \<Rightarrow> nat \<Rightarrow> json list \<Rightarrow> parsed \<Rightarrow> parsed" where
  "flatten pre key (JObject ms) out = flatten_members (dotted pre key) ms out"
| "flatten pre key (JArray items) out = flatten_items (dotted pre key) 0 items out"
| "flatten pre key JNull out = out"
| "flatten pre key (JString s) out = push (Owned (dotted pre key)) (Owned s) out"
| "flatten pre key (JBool b) out = push (Owned (dotted pre key)) (Owned (if b then ''true'' else ''false'')) out"
| "flatten pre key (JNumber t) out = push (Owned (dotted pre key)) (Owned t) out"
| "flatten_members pre [] out = out"
| "flatten_members pre ((k, v) # ms) out = flatten_members pre ms (flatten pre k v out)"
| "flatten_items pre i [] out = out"
| "flatten_items pre i (v # vs) out = flatten_items pre (i + 1) vs (flatten pre (dec i) v out)"

definition apply_json :: "(bytes \<Rightarrow> json option) \<Rightarrow> bytes \<Rightarrow> parsed \<Rightarrow> parse_failure option \<times> parsed" where
  "apply_json serde text out =
     (case serde text of
        Some (JObject ms) \<Rightarrow> (None, flatten_members [] ms out)
      | _ \<Rightarrow> (Some InvalidJson, out))"

lemma flatten_extends:
  "extends p (flatten pre key v p)"
  "extends p (flatten_members pre ms p)"
  "extends p (flatten_items pre i vs p)"
proof (induction pre key v p and pre ms p and pre i vs p rule: flatten_flatten_members_flatten_items.induct)
  case (8 pre k v ms out)
  from extends_trans [OF this] show ?case by simp
next
  case (10 pre i v vs out)
  from extends_trans [OF this] show ?case by simp
qed simp_all

interpretation json: strategy "apply_json serde" for serde
  by unfold_locales (auto simp: apply_json_def flatten_extends split: option.splits json.splits)

subsection \<open>Entities\<close>

definition utf8_encode :: "nat \<Rightarrow> bytes" where
  "utf8_encode c =
     (if c < 0x80 then [char_of c]
      else if c < 0x800 then [char_of (0xC0 + c div 64), char_of (0x80 + c mod 64)]
      else if c < 0x10000 then
        [char_of (0xE0 + c div 4096), char_of (0x80 + c div 64 mod 64), char_of (0x80 + c mod 64)]
      else [char_of (0xF0 + c div 262144), char_of (0x80 + c div 4096 mod 64),
            char_of (0x80 + c div 64 mod 64), char_of (0x80 + c mod 64)])"

definition char_from_u32 :: "nat \<Rightarrow> nat option" where
  "char_from_u32 c = (if c < 0xD800 \<or> 0xDFFF < c \<and> c < 0x110000 then Some c else None)"

definition radix_digit :: "nat \<Rightarrow> byte \<Rightarrow> nat option" where
  "radix_digit r b =
     (let d = (if is_ascii_digit b then bv b - 48
               else if is_ascii_lower b then bv b - 87
               else if is_ascii_upper b then bv b - 55 else 99) in
      if d < r then Some d else None)"

text \<open>\<open>u32::from_str_radix\<close> and \<open>parse::<u32>\<close>: an optional plus sign, digits, an overflow check.\<close>

definition parse_u32 :: "nat \<Rightarrow> bytes \<Rightarrow> nat option" where
  "parse_u32 r s =
     (let ds = (if prefix ''+'' s then tl s else s) in
      if ds = [] then None
      else foldl (\<lambda>acc b. case (acc, radix_digit r b) of
                    (Some v, Some d) \<Rightarrow> if v * r + d < 2 ^ 32 then Some (v * r + d) else None
                  | _ \<Rightarrow> None) (Some 0) ds)"

definition named_entity :: "bytes \<Rightarrow> byte option" where
  "named_entity name =
     (if name = ''amp'' then Some (CHR ''&'') else if name = ''lt'' then Some (CHR ''<'')
      else if name = ''gt'' then Some (CHR ''>'') else if name = ''quot'' then Some (CHR 0x22)
      else if name = ''apos'' then Some (CHR 0x27) else None)"

definition entity :: "bytes \<Rightarrow> bytes option" where
  "entity name =
     (case named_entity name of
        Some b \<Rightarrow> Some [b]
      | None \<Rightarrow>
          if \<not> prefix ''#'' name then None
          else let digits = tl name;
                   code = (if prefix ''x'' digits \<or> prefix ''X'' digits
                           then (if utf8_valid (tl digits) then parse_u32 16 (tl digits) else None)
                           else (if utf8_valid digits then parse_u32 10 digits else None)) in
               map_option utf8_encode (Option.bind code char_from_u32))"

text \<open>A reference at the start: its bytes and what follows the semicolon.\<close>

definition reference_at :: "bytes \<Rightarrow> (bytes \<times> bytes) option" where
  "reference_at s =
     (if prefix ''&'' s then
        (case memchr (CHR '';'') s of
           None \<Rightarrow> None
         | Some semi \<Rightarrow> map_option (\<lambda>bs. (bs, drop (semi + 1) s)) (entity (slice 1 semi s)))
      else None)"

lemma reference_at_shorter:
  assumes "reference_at (b # r) = Some x" "(bs, t) = x"
  shows "length t < Suc (length r)"
proof -
  from assms obtain semi where "memchr (CHR '';'') (b # r) = Some semi" "t = drop (semi + 1) (b # r)"
    by (auto simp: reference_at_def split: if_splits option.splits)
  then show ?thesis by simp
qed

function decode_loop :: "bytes \<Rightarrow> bytes" where
  "decode_loop s =
     (case s of
        [] \<Rightarrow> []
      | b # r \<Rightarrow>
          (case reference_at s of
             Some (bs, t) \<Rightarrow> bs @ decode_loop t
           | None \<Rightarrow> b # decode_loop r))"
  by pat_completeness auto
termination
  by (relation "measure length") (simp_all add: reference_at_shorter)

declare decode_loop.simps [simp del]

definition decode_entities :: "bytes \<Rightarrow> cow" where
  "decode_entities raw = (if CHR ''&'' \<notin> set raw then Borrowed raw else Owned (decode_loop raw))"

subsection \<open>XML\<close>

text \<open>The tokens the code distinguishes, each with the bytes of the spans it reads.\<close>

datatype xml_token =
    XStart bytes                \<comment> \<open>local name\<close>
  | XAttr bytes bytes bytes     \<comment> \<open>prefix, local name, value\<close>
  | XEndOpen                    \<comment> \<open>the end of a start tag\<close>
  | XEndOther                   \<comment> \<open>a closing tag, or the end of an empty element\<close>
  | XText bytes
  | XCdata bytes
  | XOther
  | XErr

record xml_state =
  xs_stack :: "bytes list"
  xs_attrs :: "(bytes \<times> bytes) list"
  xs_elements :: nat
  xs_in_tag :: bool
  xs_pending :: "bytes option"

definition xml_start :: xml_state where
  "xml_start = \<lparr>xs_stack = [], xs_attrs = [], xs_elements = 0, xs_in_tag = False, xs_pending = None\<rparr>"

text \<open>The dotted key of the open elements below the root and an attribute, if any.\<close>

fun join_dots :: "bytes list \<Rightarrow> bytes" where
  "join_dots [] = []"
| "join_dots [x] = x"
| "join_dots (x # y # r) = x @ ''.'' @ join_dots (y # r)"

definition xml_key :: "bytes list \<Rightarrow> bytes option \<Rightarrow> bytes" where
  "xml_key stack leaf =
     (let key = join_dots (tl stack) in
      case leaf of None \<Rightarrow> key | Some l \<Rightarrow> if key = [] then l else key @ ''.'' @ l)"

definition sibling_key :: "bytes \<Rightarrow> nat \<Rightarrow> bytes" where
  "sibling_key base n = (if n = 1 then base else base @ dec n)"

lemma dec_inj: "dec m = dec n \<Longrightarrow> m = n"
proof -
  have "foldl (\<lambda>acc d. acc * 10 + digit_val d) 0 (dec k) = k" for k
    by (induction k rule: dec.induct) (subst dec.simps, simp)
  then show "dec m = dec n \<Longrightarrow> m = n" by metis
qed

lemma sibling_key_inj: "sibling_key base m = sibling_key base n \<Longrightarrow> m = n"
proof -
  have "dec k \<noteq> []" for k by (subst dec.simps) simp
  then show "sibling_key base m = sibling_key base n \<Longrightarrow> m = n"
    by (auto simp: sibling_key_def dec_inj split: if_splits)
qed

lemma fresh_key_measure:
  assumes "sibling_key base n \<in> set used"
  shows "card {m. n + 1 \<le> m \<and> sibling_key base m \<in> set used} < card {m. n \<le> m \<and> sibling_key base m \<in> set used}"
proof (rule psubset_card_mono)
  have "finite (sibling_key base -` set used)"
    by (rule finite_vimageI) (auto intro: injI sibling_key_inj)
  then show "finite {m. n \<le> m \<and> sibling_key base m \<in> set used}"
    by (rule rev_finite_subset) auto
  show "{m. n + 1 \<le> m \<and> sibling_key base m \<in> set used} \<subset> {m. n \<le> m \<and> sibling_key base m \<in> set used}"
    using assms by (auto simp: psubset_eq set_eq_iff intro: exI [of _ n])
qed

text \<open>The counter loop: it ends because an event has finitely many fields.\<close>

function fresh_key :: "bytes list \<Rightarrow> bytes \<Rightarrow> nat \<Rightarrow> bytes" where
  "fresh_key used base n =
     (if sibling_key base n \<in> set used then fresh_key used base (n + 1) else sibling_key base n)"
  by pat_completeness auto
termination
  by (relation "measure (\<lambda>(used, base, n). card {m. n \<le> m \<and> sibling_key base m \<in> set used})")
     (use fresh_key_measure in auto)

declare fresh_key.simps [simp del]

definition field_keys :: "parsed \<Rightarrow> bytes list" where
  "field_keys p = map (\<lambda>f. cow_bytes (fd_key f)) (pa_fields p)"

definition push_xml_field ::
  "bytes list \<Rightarrow> bytes option \<Rightarrow> bytes \<Rightarrow> bool \<Rightarrow> nat \<Rightarrow> parsed \<Rightarrow> parsed" where
  "push_xml_field stack leaf value decode mark out =
     (case take_key out of
        (_, out1) \<Rightarrow>
          let key = xml_key stack leaf in
          if key = [] then give_back_key key out1
          else push (Owned (fresh_key (drop mark (field_keys out1)) key 1))
                    (if decode then decode_entities value else Borrowed value) out1)"

text \<open>The name a pending \<open>Name\<close> attribute gives the element on top of the stack.\<close>

definition name_top :: "xml_state \<Rightarrow> xml_state" where
  "name_top s =
     (case xs_pending s of
        Some n \<Rightarrow> s\<lparr>xs_pending := None,
                    xs_stack := (if xs_stack s = [] then [] else butlast (xs_stack s) @ [n])\<rparr>
      | None \<Rightarrow> s)"

definition push_attrs :: "nat \<Rightarrow> xml_state \<Rightarrow> parsed \<Rightarrow> parsed" where
  "push_attrs mark s out =
     foldl (\<lambda>p (k, v). push_xml_field (xs_stack s) (Some k) v True mark p) out (xs_attrs s)"

fun xml_token_step :: "nat \<Rightarrow> xml_token \<Rightarrow> xml_state \<times> parsed \<Rightarrow> (xml_state \<times> parsed) option" where
  "xml_token_step mark (XStart local) (s, out) =
     Some (s\<lparr>xs_stack := xs_stack s @ [local], xs_attrs := [], xs_pending := None,
             xs_elements := xs_elements s + 1, xs_in_tag := True\<rparr>, out)"
| "xml_token_step mark (XAttr pre local value) (s, out) =
     Some (if pre \<noteq> ''xmlns'' \<and> local \<noteq> ''xmlns'' then s\<lparr>xs_attrs := xs_attrs s @ [(local, value)]\<rparr> else s, out)"
| "xml_token_step mark XEndOpen (s, out) =
     (let s1 = s\<lparr>xs_in_tag := False, xs_attrs := []\<rparr> in
      if length (xs_attrs s) = 1 \<and> fst (hd (xs_attrs s)) = ''Name''
      then Some (s1\<lparr>xs_pending := Some (snd (hd (xs_attrs s)))\<rparr>, out)
      else Some (s1, push_attrs mark s out))"
| "xml_token_step mark XEndOther (s, out) =
     Some (s\<lparr>xs_in_tag := False, xs_attrs := [], xs_stack := butlast (xs_stack s), xs_pending := None\<rparr>,
           push_attrs mark s out)"
| "xml_token_step mark (XText t) (s, out) =
     (if list_all is_ascii_whitespace t then Some (s, out)
      else Some (name_top s, push_xml_field (xs_stack (name_top s)) None t True mark out))"
| "xml_token_step mark (XCdata t) (s, out) =
     Some (name_top s, push_xml_field (xs_stack (name_top s)) None t False mark out)"
| "xml_token_step mark XOther (s, out) = Some (s, out)"
| "xml_token_step mark XErr (s, out) = None"

fun xml_loop :: "nat \<Rightarrow> xml_token list \<Rightarrow> xml_state \<times> parsed \<Rightarrow> bool \<times> xml_state \<times> parsed" where
  "xml_loop mark [] so = (True, so)"
| "xml_loop mark (t # ts) so =
     (case xml_token_step mark t so of
        None \<Rightarrow> (False, so)
      | Some so' \<Rightarrow> xml_loop mark ts so')"

definition apply_xml :: "(bytes \<Rightarrow> xml_token list) \<Rightarrow> bytes \<Rightarrow> parsed \<Rightarrow> parse_failure option \<times> parsed" where
  "apply_xml tokenizer text out =
     (if \<not> utf8_valid text then (Some InvalidXml, out)
      else let mark = length (pa_fields out) in
        case xml_loop mark (tokenizer text) (xml_start, out) of
          (ok, s, q) \<Rightarrow>
            if \<not> ok \<or> xs_elements s = 0 \<or> xs_in_tag s then (Some InvalidXml, rollback mark q)
            else (None, q))"

subsection \<open>What flattening yields\<close>

text \<open>The leaves of a value with the path of member names and item numbers to each.\<close>

fun leaves :: "json \<Rightarrow> (bytes list \<times> bytes) list"
  and leaves_members :: "(bytes \<times> json) list \<Rightarrow> (bytes list \<times> bytes) list"
  and leaves_items :: "nat \<Rightarrow> json list \<Rightarrow> (bytes list \<times> bytes) list" where
  "leaves (JObject ms) = leaves_members ms"
| "leaves (JArray items) = leaves_items 0 items"
| "leaves JNull = []"
| "leaves (JString s) = [([], s)]"
| "leaves (JBool b) = [([], if b then ''true'' else ''false'')]"
| "leaves (JNumber t) = [([], t)]"
| "leaves_members [] = []"
| "leaves_members ((k, v) # ms) = map (\<lambda>(p, t). (k # p, t)) (leaves v) @ leaves_members ms"
| "leaves_items i [] = []"
| "leaves_items i (v # vs) = map (\<lambda>(p, t). (dec i # p, t)) (leaves v) @ leaves_items (i + 1) vs"

definition path_key :: "bytes \<Rightarrow> bytes list \<times> bytes \<Rightarrow> bytes \<times> bytes" where
  "path_key pre pt = (foldl dotted pre (fst pt), snd pt)"

lemma path_key_Cons: "map (path_key pre) (map (\<lambda>(p, t). (k # p, t)) xs) = map (path_key (dotted pre k)) xs"
  by (simp add: path_key_def case_prod_beta)

lemma flatten_leaves:
  "field_pairs (flatten pre key v out) = field_pairs out @ map (path_key (dotted pre key)) (leaves v)"
  "field_pairs (flatten_members pre ms out) = field_pairs out @ map (path_key pre) (leaves_members ms)"
  "field_pairs (flatten_items pre i vs out) = field_pairs out @ map (path_key pre) (leaves_items i vs)"
  by (induction pre key v out and pre ms out and pre i vs out rule: flatten_flatten_members_flatten_items.induct)
     (simp_all add: path_key_Cons del: map_map, simp_all add: field_pairs_def path_key_def)

text \<open>
  JSON flattening is complete and exact: whatever the JSON parser returns, an object yields
  one field for every leaf of the tree that is not null, in order, under the dotted
  path to it, and anything but an object fails with nothing pushed.
\<close>

theorem json_flattens_leaves:
  "(case serde text of
      Some (JObject ms) \<Rightarrow>
        fst (apply_json serde text out) = None \<and>
        field_pairs (snd (apply_json serde text out)) = field_pairs out @ map (path_key []) (leaves (JObject ms))
    | _ \<Rightarrow> apply_json serde text out = (Some InvalidJson, out))"
  by (auto simp: apply_json_def flatten_leaves split: option.splits json.splits)

subsection \<open>Entities decode what an encoder wrote\<close>

definition xml_escape :: "bytes \<Rightarrow> bytes" where
  "xml_escape v = concat (map (\<lambda>b.
     if b = CHR ''&'' then ''&amp;'' else if b = CHR ''<'' then ''&lt;'' else if b = CHR ''>'' then ''&gt;''
     else if b = CHR 0x22 then ''&quot;'' else if b = CHR 0x27 then ''&apos;'' else [b]) v)"

lemma reference_text:
  assumes "CHR '';'' \<notin> set name"
  shows "reference_at (''&'' @ name @ '';'' @ s) = map_option (\<lambda>bs. (bs, s)) (entity name)"
proof -
  have "memchr (CHR '';'') (''&'' @ name @ '';'' @ s) = Some (Suc (length name))"
    using memchr_hit [of "CHR '';''" "''&'' @ name" s] assms by simp
  then show ?thesis by (simp add: reference_at_def slice_def)
qed

lemma named_entities: "named_entity ''amp'' = Some (CHR ''&'')" "named_entity ''lt'' = Some (CHR ''<'')"
  "named_entity ''gt'' = Some (CHR ''>'')" "named_entity ''quot'' = Some (CHR 0x22)"
  "named_entity ''apos'' = Some (CHR 0x27)"
  by (simp_all add: named_entity_def)

lemma entity_named: "named_entity n = Some b \<Longrightarrow> entity n = Some [b]"
  unfolding entity_def by (simp only: option.case)

lemma reference_named: "reference_at (''&amp;'' @ s) = Some (''&'', s)" "reference_at (''&lt;'' @ s) = Some (''<'', s)"
  "reference_at (''&gt;'' @ s) = Some (''>'', s)" "reference_at (''&quot;'' @ s) = Some ([CHR 0x22], s)"
  "reference_at (''&apos;'' @ s) = Some ([CHR 0x27], s)"
  using reference_text [of "''amp''" s] reference_text [of "''lt''" s] reference_text [of "''gt''" s]
    reference_text [of "''quot''" s] reference_text [of "''apos''" s]
  by (simp_all add: entity_named named_entities)

lemma decode_loop_escape: "decode_loop (xml_escape v) = v"
proof (induction v)
  case Nil
  show ?case by (simp add: xml_escape_def decode_loop.simps [of "[]"])
next
  case (Cons b v)
  consider "b = CHR ''&''" | "b = CHR ''<''" | "b = CHR ''>''" | "b = CHR 0x22" | "b = CHR 0x27"
    | "b \<notin> {CHR ''&'', CHR ''<'', CHR ''>'', CHR 0x22, CHR 0x27}" by blast
  then show ?case
  proof cases
    case 6
    then have "xml_escape (b # v) = b # xml_escape v" "reference_at (b # xml_escape v) = None"
      by (auto simp: xml_escape_def reference_at_def)
    with Cons show ?thesis by (simp add: decode_loop.simps [of "b # xml_escape v"])
  qed (use Cons reference_named [of "xml_escape v"] in
        \<open>simp_all add: xml_escape_def decode_loop.simps [of "CHR ''&'' # _"]\<close>)
qed

text \<open>
  Entity references lose nothing: any value, of any bytes, escaped the way XML writers
  do, is decoded back to itself.
\<close>

theorem xml_entities_roundtrip: "cow_bytes (decode_entities (xml_escape v)) = v"
proof (cases "CHR ''&'' \<in> set (xml_escape v)")
  case True
  then show ?thesis by (simp add: decode_entities_def decode_loop_escape)
next
  case False
  then have "xml_escape v = v"
    by (induction v) (auto simp: xml_escape_def split: if_splits)
  with False show ?thesis by (simp add: decode_entities_def)
qed

text \<open>A number with a sign is decoded too, because \<open>parse::<u32>\<close> takes one.\<close>

lemma signed_number: "parse_u32 10 ''+65'' = Some 65" "parse_u32 16 ''+41'' = Some 65"
  by (simp_all add: parse_u32_def radix_digit_def is_ascii_digit_def)

lemma entity_accepts_sign: "entity ''#+65'' = Some ''A''" "entity ''#x+41'' = Some ''A''"
proof -
  have v: "utf8_valid ''+65''" "utf8_valid ''+41''" by (rule utf8_ascii; auto)+
  have u: "utf8_encode 65 = ''A''" by code_simp
  show "entity ''#+65'' = Some ''A''" "entity ''#x+41'' = Some ''A''"
    using signed_number v u by (simp_all add: entity_def named_entity_def char_from_u32_def del: utf8_valid.simps)
qed

subsection \<open>XML keys\<close>

lemma field_keys_push [simp]: "field_keys (push k v p) = field_keys p @ [cow_bytes k]"
  by (simp add: field_keys_def)

lemma fresh_key_fresh: "fresh_key used base n \<notin> set used \<and> (base \<noteq> [] \<longrightarrow> fresh_key used base n \<noteq> [])"
proof (induction used base n rule: fresh_key.induct)
  case (1 used base n)
  then show ?case
    by (subst (1 2) fresh_key.simps) (auto simp: sibling_key_def)
qed

text \<open>The keys an XML event has pushed so far are distinct and none is empty.\<close>

definition keys_ok :: "parsed \<Rightarrow> parsed \<Rightarrow> bool" where
  "keys_ok base p \<longleftrightarrow> extends base p \<and>
     distinct (drop (length (pa_fields base)) (field_keys p)) \<and>
     [] \<notin> set (drop (length (pa_fields base)) (field_keys p))"

lemma push_xml_field_ok:
  assumes "keys_ok base p"
  shows "keys_ok base (push_xml_field stack leaf v d (length (pa_fields base)) p)"
proof -
  have len: "length (pa_fields base) \<le> length (field_keys p)"
    using assms by (auto simp: keys_ok_def extends_def field_keys_def)
  have same: "field_keys (snd (take_key p)) = field_keys p" "field_keys (give_back_key k q) = field_keys q" for k q
    by (simp_all add: take_key_def give_back_key_def field_keys_def)
  have e1: "extends base (snd (take_key p))" "extends base (give_back_key k (snd (take_key p)))" for k
    using assms by (auto simp: keys_ok_def extends_def take_key_def give_back_key_def)
  obtain k0 p1 where t: "take_key p = (k0, p1)" by fastforce
  note fk = fresh_key_fresh [of "drop (length (pa_fields base)) (field_keys p)" "xml_key stack leaf" 1]
  show ?thesis
  proof (cases "xml_key stack leaf = []")
    case True
    with assms same e1 t show ?thesis by (simp add: push_xml_field_def keys_ok_def)
  next
    case False
    with assms same(1) e1(1) t fk len show ?thesis
      by (simp add: push_xml_field_def keys_ok_def Let_def extends_push_after) metis
  qed
qed

lemma push_attrs_ok: "keys_ok base p \<Longrightarrow> keys_ok base (push_attrs (length (pa_fields base)) s p)"
proof -
  have "keys_ok base p \<Longrightarrow>
      keys_ok base (foldl (\<lambda>p (k, v). push_xml_field st (Some k) v True (length (pa_fields base)) p) p kvs)" for st kvs
    by (induction kvs arbitrary: p) (auto simp: push_xml_field_ok)
  then show "keys_ok base p \<Longrightarrow> ?thesis" by (simp add: push_attrs_def)
qed

lemma xml_token_step_ok:
  "xml_token_step (length (pa_fields base)) t (s, p) = Some (s', p') \<Longrightarrow> keys_ok base p \<Longrightarrow> keys_ok base p'"
  by (cases t) (auto simp: push_xml_field_ok push_attrs_ok Let_def split: if_splits)

lemma xml_loop_ok:
  "xml_loop (length (pa_fields base)) ts (s, p) = (ok, s', p') \<Longrightarrow> keys_ok base p \<Longrightarrow> keys_ok base p'"
proof (induction ts arbitrary: s p)
  case (Cons t ts)
  show ?case
  proof (cases "xml_token_step (length (pa_fields base)) t (s, p)")
    case (Some so)
    obtain s1 p1 where so: "so = (s1, p1)" by fastforce
    with Some Cons xml_token_step_ok show ?thesis by (metis (no_types, lifting) option.simps(5) xml_loop.simps(2))
  qed (use Cons in simp)
qed simp

lemma keys_ok_refl: "keys_ok p p"
  by (simp add: keys_ok_def field_keys_def)

lemma apply_xml_cases:
  obtains (failed) f q where "apply_xml tok text out = (Some f, q)" "extends out q" "pa_fields q = pa_fields out"
  | (parsed) q where "apply_xml tok text out = (None, q)" "keys_ok out q"
proof -
  obtain ok s q where l: "xml_loop (length (pa_fields out)) (tok text) (xml_start, out) = (ok, s, q)" by (metis prod_cases3)
  have k: "keys_ok out q" using xml_loop_ok [OF l keys_ok_refl] .
  then have r: "extends out (rollback (length (pa_fields out)) q)" "take (length (pa_fields out)) (pa_fields q) = pa_fields out"
    using extends_rollback extends_take by (auto simp: keys_ok_def)
  show thesis
  proof (cases "utf8_valid text \<and> ok \<and> xs_elements s \<noteq> 0 \<and> \<not> xs_in_tag s")
    case True
    with l k show thesis using that(2) by (simp add: apply_xml_def)
  next
    case False
    show thesis
    proof (cases "utf8_valid text")
      case True
      with False l r show thesis using that(1) by (simp add: apply_xml_def)
    qed (use that(1) in \<open>simp add: apply_xml_def\<close>)
  qed
qed

interpretation xml: strategy "apply_xml tok" for tok
proof
  fix p t
  show "extends p (snd (apply_xml tok t p))"
    by (rule apply_xml_cases [of tok t p]) (simp_all add: keys_ok_def)
  show "pa_fields (snd (apply_xml tok t p)) = pa_fields p" if "fst (apply_xml tok t p) \<noteq> None"
    using that by (auto intro: apply_xml_cases [of tok t p])
qed

text \<open>
  XML keys name one field each: whatever tokens an event has, the fields it adds have
  pairwise distinct, nonempty keys (a repeated sibling gets a counter, and finding one
  always ends), and a document that does not parse adds no field.
\<close>

theorem xml_keys_distinct:
  "(let q = snd (apply_xml tok text out); new = drop (length (pa_fields out)) (field_keys q) in
    extends out q \<and> distinct new \<and> [] \<notin> set new \<and> (new = [] \<or> fst (apply_xml tok text out) = None))"
  by (rule apply_xml_cases [of tok "text" out]) (simp_all add: keys_ok_def field_keys_def Let_def)

lemma xml_example:
  "field_pairs (snd (apply_xml (\<lambda>_. [XStart ''Event'', XEndOpen, XStart ''Data'', XEndOpen, XText ''a'', XEndOther,
      XStart ''Data'', XEndOpen, XText ''&lt;'', XEndOther, XStart ''Data'', XAttr [] ''Name'' ''User'', XEndOpen,
      XText ''bob'', XEndOther, XEndOther]) ''<Event>'' parsed_default))
    = [(''Data'', ''a''), (''Data2'', ''<''), (''User'', ''bob'')]"
  by code_simp

end
