(* ===== verification/Ulpf_Template.thy ===== *)
theory Ulpf_Template
  imports Ulpf_Prelude
begin

text \<open>
  Templates and the pattern syntax, \<open>src/crates/ulpf-parse/src/template.rs\<close>: \<open>SlotKind\<close>,
  \<open>Token\<close>, \<open>parse_tokens\<close>, \<open>Template::from_pattern\<close>, \<open>write_tokens\<close>,
  \<open>Template::to_pattern\<close> and \<open>Template::slots\<close>. Every character the syntax gives a meaning
  to is ASCII, so scanning the UTF-8 bytes of a pattern is scanning its characters. The
  properties say when writing and reading are inverse, and one case where they are not.
\<close>

datatype slot_kind =
  KInt | KFloat | KWord | KText | KRest | KIp | KIpv4 | KIpv6 | KPort | KHex | KMac | KTimestamp | KQuoted

datatype token = Const bytes | Slot bytes slot_kind | Optional "token list"

definition all_kinds :: "slot_kind list" where
  "all_kinds = [KInt, KFloat, KWord, KText, KRest, KIp, KIpv4, KIpv6, KPort, KHex, KMac, KTimestamp, KQuoted]"

definition kind_name :: "slot_kind \<Rightarrow> bytes" where
  "kind_name k = (case k of
     KInt \<Rightarrow> ''int'' | KFloat \<Rightarrow> ''float'' | KWord \<Rightarrow> ''word'' | KText \<Rightarrow> ''text'' | KRest \<Rightarrow> ''rest''
   | KIp \<Rightarrow> ''ip'' | KIpv4 \<Rightarrow> ''ipv4'' | KIpv6 \<Rightarrow> ''ipv6'' | KPort \<Rightarrow> ''port'' | KHex \<Rightarrow> ''hex''
   | KMac \<Rightarrow> ''mac'' | KTimestamp \<Rightarrow> ''timestamp'' | KQuoted \<Rightarrow> ''quoted'')"

definition kind_from_name :: "bytes \<Rightarrow> slot_kind option" where
  "kind_from_name s = find (\<lambda>k. kind_name k = s) all_kinds"

text \<open>\<open>#[derive(PartialOrd, Ord)]\<close>: the order of declaration.\<close>

definition kind_rank :: "slot_kind \<Rightarrow> nat" where
  "kind_rank k = the (position (\<lambda>j. j = k) all_kinds)"

lemma kind_rank_inj: "kind_rank j = kind_rank k \<Longrightarrow> j = k"
  by (cases j; cases k) (simp_all add: kind_rank_def all_kinds_def)

instantiation slot_kind :: linorder
begin

definition less_eq_slot_kind :: "slot_kind \<Rightarrow> slot_kind \<Rightarrow> bool" where
  "less_eq_slot_kind j k \<longleftrightarrow> kind_rank j \<le> kind_rank k"

definition less_slot_kind :: "slot_kind \<Rightarrow> slot_kind \<Rightarrow> bool" where
  "less_slot_kind j k \<longleftrightarrow> kind_rank j < kind_rank k"

instance
  by standard (auto simp: less_eq_slot_kind_def less_slot_kind_def dest: kind_rank_inj)

end

subsection \<open>Reading\<close>

definition flush_const :: "bytes \<Rightarrow> token list" where
  "flush_const constant = (if constant = [] then [] else [Const constant])"

text \<open>The body of a slot up to its closing brace, and what follows it.\<close>

definition slot_body :: "bytes \<Rightarrow> (bytes \<times> bytes) option" where
  "slot_body s =
     (case memchr (CHR 0x7D) s of
        None \<Rightarrow> None
      | Some i \<Rightarrow> Some (take i s, drop (i + 1) s))"

definition slot_name_ok :: "bytes \<Rightarrow> bool" where
  "slot_name_ok name \<longleftrightarrow> name \<noteq> [] \<and> list_all (\<lambda>b. is_ascii_alphanumeric b \<or> b = CHR ''_'') name"

definition read_slot :: "bytes \<Rightarrow> bytes + (bytes \<times> slot_kind)" where
  "read_slot body =
     (case (case memchr (CHR '':'') body of
              Some i \<Rightarrow>
                (case kind_from_name (drop (i + 1) body) of
                   Some k \<Rightarrow> Inr (take i body, k)
                 | None \<Rightarrow> Inl (''slot `'' @ take i body @ ''`: unknown type `'' @ drop (i + 1) body @ ''`''))
            | None \<Rightarrow> Inr (body, KText)) of
        Inl e \<Rightarrow> Inl e
      | Inr (name, k) \<Rightarrow>
          if slot_name_ok name then Inr (name, k)
          else Inl (''slot name `'' @ name @ ''` must be [A-Za-z0-9_]+''))"

lemma slot_body_length: "slot_body s = Some (body, t) \<Longrightarrow> length t < length s"
  by (auto simp: slot_body_def dest: memchr_SomeD split: option.splits)

text \<open>
  The reader with its constant so far and tokens so far; it returns the tokens and the rest,
  which is empty at the top level and follows the closing brace inside a group. A group is
  read by a reader of its own, so the text it leaves has to be shorter: the test that it is
  always succeeds (\<open>parse_tokens_shorter\<close>).
\<close>

lemma slot_body_shorter: "slot_body r = Some x \<Longrightarrow> (b, t) = x \<Longrightarrow> length t < Suc (length r)"
  using slot_body_length [of r b t] by simp

function parse_tokens :: "bool \<Rightarrow> bytes \<Rightarrow> token list \<Rightarrow> bytes \<Rightarrow> bytes + (token list \<times> bytes)" where
  "parse_tokens grp constant tokens s =
     (case s of
        [] \<Rightarrow>
          if grp then Inl ''unterminated optional group `{? ...`''
          else Inr (tokens @ flush_const constant, [])
      | c # r \<Rightarrow>
          if c = CHR 0x7B \<and> prefix [CHR 0x7B] r then parse_tokens grp (constant @ [CHR 0x7B]) tokens (tl r)
          else if c = CHR 0x7D \<and> prefix [CHR 0x7D] r then parse_tokens grp (constant @ [CHR 0x7D]) tokens (tl r)
          else if c = CHR 0x7B \<and> prefix ''?'' r then
            (if grp then Inl ''optional groups `{? ...}` do not nest''
             else case parse_tokens True [] [] (tl r) of
                    Inl e \<Rightarrow> Inl e
                  | Inr (inner, t) \<Rightarrow>
                      if inner = [] then Inl ''empty optional group `{?}`''
                      else if length t < length s
                      then parse_tokens grp [] (tokens @ flush_const constant @ [Optional inner]) t
                      else Inl [])
          else if c = CHR 0x7B then
            (case slot_body r of
               None \<Rightarrow> Inl (''unterminated slot `{'' @ r @ ''`'')
             | Some (body, t) \<Rightarrow>
                 (case read_slot body of
                    Inl e \<Rightarrow> Inl e
                  | Inr (name, k) \<Rightarrow> parse_tokens grp [] (tokens @ flush_const constant @ [Slot name k]) t))
          else if c = CHR 0x7D then
            (if grp then Inr (tokens @ flush_const constant, r)
             else Inl ''stray `}` (write `}}` for a literal brace)'')
          else parse_tokens grp (constant @ [c]) tokens r)"
  by pat_completeness auto
termination
  by (relation "measure (\<lambda>(g, c, ts, s). length s)") (simp_all add: slot_body_shorter)

declare parse_tokens.simps [simp del]

definition from_pattern :: "bytes \<Rightarrow> bytes + token list" where
  "from_pattern pattern = map_sum id fst (parse_tokens False [] [] pattern)"

subsection \<open>Writing\<close>

definition write_const :: "bytes \<Rightarrow> bytes" where
  "write_const s = concat (map (\<lambda>c. if c = CHR 0x7B \<or> c = CHR 0x7D then [c, c] else [c]) s)"

fun write_token :: "token \<Rightarrow> bytes" where
  "write_token (Const s) = write_const s"
| "write_token (Slot name k) = [CHR 0x7B] @ name @ '':'' @ kind_name k @ [CHR 0x7D]"
| "write_token (Optional inner) = [CHR 0x7B, CHR ''?''] @ concat (map write_token inner) @ [CHR 0x7D]"

definition write_tokens :: "token list \<Rightarrow> bytes" where
  "write_tokens ts = concat (map write_token ts)"

definition to_pattern :: "token list \<Rightarrow> bytes" where
  "to_pattern ts = write_tokens ts"

definition template_slots :: "token list \<Rightarrow> (bytes \<times> slot_kind) list" where
  "template_slots ts = concat (map (\<lambda>t. case t of
       Slot n k \<Rightarrow> [(n, k)]
     | Optional inner \<Rightarrow> List.map_filter (\<lambda>u. case u of Slot n k \<Rightarrow> Some (n, k) | _ \<Rightarrow> None) inner
     | Const _ \<Rightarrow> []) ts)"

subsection \<open>Well-formed templates\<close>

fun pair_ok :: "token \<Rightarrow> token \<Rightarrow> bool" where
  "pair_ok (Const _) (Const _) = False"
| "pair_ok (Optional _) (Const s) = (hd s \<noteq> CHR 0x7D)"
| "pair_ok _ _ = True"

fun seq_ok :: "token list \<Rightarrow> bool" where
  "seq_ok (t # u # ts) = (pair_ok t u \<and> seq_ok (u # ts))"
| "seq_ok _ = True"

fun flat_ok :: "token \<Rightarrow> bool" where
  "flat_ok (Const s) = (s \<noteq> [])"
| "flat_ok (Slot n k) = slot_name_ok n"
| "flat_ok (Optional inner) = False"

fun token_ok :: "token \<Rightarrow> bool" where
  "token_ok (Optional inner) = (inner \<noteq> [] \<and> list_all flat_ok inner \<and> seq_ok inner)"
| "token_ok t = flat_ok t"

text \<open>
  Constants are nonempty and not adjacent, groups are nonempty and flat, names are names, and
  no constant that starts with a closing brace follows a group.
\<close>

definition template_wf :: "token list \<Rightarrow> bool" where
  "template_wf ts \<longleftrightarrow> list_all token_ok ts \<and> seq_ok ts"

lemma seq_ok_snoc: "seq_ok (ts @ [t]) \<longleftrightarrow> seq_ok ts \<and> (ts = [] \<or> pair_ok (last ts) t)"
proof (induction ts)
  case (Cons u ts)
  then show ?case by (cases ts) auto
qed simp

lemma seq_ok_tl: "seq_ok (t # ts) \<Longrightarrow> seq_ok ts"
  by (cases ts) auto

subsection \<open>Reading back what was written\<close>

lemma kind_name_read: "kind_from_name (kind_name k) = Some k"
  by (cases k) (simp_all add: kind_from_name_def all_kinds_def kind_name_def)

lemma kind_name_plain: "CHR 0x7D \<notin> set (kind_name k)"
  by (cases k) (simp_all add: kind_name_def)

lemma slot_name_plain: "slot_name_ok n \<Longrightarrow> b \<in> set n \<Longrightarrow> b \<notin> {CHR 0x7B, CHR 0x7D, CHR '':'', CHR ''?''}"
  by (auto simp: slot_name_ok_def list_all_iff is_ascii_alphanumeric_def is_ascii_alphabetic_def
      is_ascii_upper_def is_ascii_lower_def is_ascii_digit_def)

lemma write_const_simps [simp]: "write_const [] = []"
  "write_const (b # s) = (if b = CHR 0x7B \<or> b = CHR 0x7D then [b, b] else [b]) @ write_const s"
  by (simp_all add: write_const_def)

lemma parse_const: "parse_tokens g c acc (write_const s @ r) = parse_tokens g (c @ s) acc r"
  by (induction s arbitrary: c) (auto simp: parse_tokens.simps [of g _ acc "_ # _"])

lemma read_slot_text:
  assumes "slot_name_ok n"
  shows "slot_body (n @ '':'' @ kind_name k @ CHR 0x7D # r) = Some (n @ '':'' @ kind_name k, r)"
    and "read_slot (n @ '':'' @ kind_name k) = Inr (n, k)"
proof -
  have "CHR 0x7D \<notin> set (n @ '':'' @ kind_name k)"
    using slot_name_plain [OF assms, of "CHR 0x7D"] kind_name_plain by auto
  from memchr_hit [OF this, of r]
  show "slot_body (n @ '':'' @ kind_name k @ CHR 0x7D # r) = Some (n @ '':'' @ kind_name k, r)"
    by (simp add: slot_body_def)
  have "CHR '':'' \<notin> set n" using slot_name_plain [OF assms, of "CHR '':''"] by auto
  from memchr_hit [OF this, of "kind_name k"] assms
  show "read_slot (n @ '':'' @ kind_name k) = Inr (n, k)"
    by (simp add: read_slot_def kind_name_read)
qed

lemma parse_slot:
  assumes "slot_name_ok n"
  shows "parse_tokens g c acc (write_token (Slot n k) @ r) = parse_tokens g [] (acc @ flush_const c @ [Slot n k]) r"
proof -
  have hd: "\<not> prefix [CHR 0x7B] (n @ s)" "\<not> prefix ''?'' (n @ s)" for s
    using assms slot_name_plain [OF assms, of "hd n"] by (cases n; auto simp: slot_name_ok_def)+
  show ?thesis
    using read_slot_text(1) [OF assms, of k r] read_slot_text(2) [OF assms, of k] hd
    by (simp add: parse_tokens.simps [of g c acc "CHR 0x7B # _"])
qed

lemma parse_flat:
  assumes "list_all flat_ok ts" "seq_ok ts" "c = [] \<or> ts = [] \<or> (\<forall>s. hd ts \<noteq> Const s)" "\<not> prefix [CHR 0x7D] r"
  shows "parse_tokens True c acc (write_tokens ts @ CHR 0x7D # r) = Inr (acc @ flush_const c @ ts, r)"
  using assms
proof (induction ts arbitrary: c acc)
  case Nil
  then show ?case by (simp add: write_tokens_def parse_tokens.simps [of True c acc "CHR 0x7D # r"])
next
  case (Cons t ts)
  have sq: "seq_ok ts" using Cons.prems seq_ok_tl by blast
  show ?case
  proof (cases t)
    case (Const s)
    then have c: "c = []" "s \<noteq> []" using Cons.prems by auto
    have "ts = [] \<or> (\<forall>u. hd ts \<noteq> Const u)" using Cons.prems(2) Const by (cases ts) auto
    then have "parse_tokens True s acc (write_tokens ts @ CHR 0x7D # r) = Inr (acc @ flush_const s @ ts, r)"
      using Cons sq by (intro Cons.IH) auto
    with Const c show ?thesis by (simp add: write_tokens_def parse_const flush_const_def)
  next
    case (Slot n k)
    have "parse_tokens True [] (acc @ flush_const c @ [Slot n k]) (write_tokens ts @ CHR 0x7D # r)
        = Inr ((acc @ flush_const c @ [Slot n k]) @ flush_const [] @ ts, r)"
      using Cons sq by (intro Cons.IH) auto
    with Slot Cons.prems show ?thesis by (simp add: write_tokens_def parse_slot flush_const_def del: write_token.simps)
  qed (use Cons in simp)
qed

lemma write_start:
  assumes "list_all token_ok ts" "seq_ok (Optional inner # ts)"
  shows "\<not> prefix [CHR 0x7D] (write_tokens ts)"
proof (cases ts)
  case (Cons t us)
  with assms show ?thesis
    by (cases t; cases "case t of Const s \<Rightarrow> s | _ \<Rightarrow> []") (auto simp: write_tokens_def)
qed (simp add: write_tokens_def)

lemma parse_written:
  assumes "list_all token_ok ts" "seq_ok ts" "c = [] \<or> ts = [] \<or> (\<forall>s. hd ts \<noteq> Const s)"
  shows "parse_tokens False c acc (write_tokens ts) = Inr (acc @ flush_const c @ ts, [])"
  using assms
proof (induction ts arbitrary: c acc)
  case Nil
  then show ?case by (simp add: write_tokens_def parse_tokens.simps [of False c acc "[]"])
next
  case (Cons t ts)
  have sq: "seq_ok ts" using Cons.prems seq_ok_tl by blast
  have IH: "parse_tokens False [] acc' (write_tokens ts) = Inr (acc' @ ts, [])" for acc'
    using Cons sq by (simp add: flush_const_def)
  show ?case
  proof (cases t)
    case (Const s)
    then have c: "c = []" "s \<noteq> []" using Cons.prems by auto
    have "ts = [] \<or> (\<forall>u. hd ts \<noteq> Const u)" using Cons.prems(2) Const by (cases ts) auto
    then have "parse_tokens False s acc (write_tokens ts) = Inr (acc @ flush_const s @ ts, [])"
      using Cons sq by (intro Cons.IH) auto
    with Const c show ?thesis by (simp add: write_tokens_def parse_const flush_const_def)
  next
    case (Slot n k)
    with Cons.prems IH show ?thesis
      by (simp add: write_tokens_def parse_slot del: write_token.simps)
  next
    case (Optional inner)
    have start: "\<not> prefix [CHR 0x7D] (write_tokens ts)"
      using write_start [of ts inner] Cons.prems Optional by simp
    have "parse_tokens True [] [] (write_tokens inner @ CHR 0x7D # write_tokens ts) = Inr ([] @ flush_const [] @ inner, write_tokens ts)"
      using Cons.prems Optional start by (intro parse_flat) auto
    then have inner: "parse_tokens True [] [] (write_tokens inner @ CHR 0x7D # write_tokens ts) = Inr (inner, write_tokens ts)"
      by (simp add: flush_const_def)
    have w: "write_tokens (t # ts) = CHR 0x7B # CHR ''?'' # (write_tokens inner @ CHR 0x7D # write_tokens ts)"
      by (simp add: Optional write_tokens_def)
    show ?thesis
      unfolding w using inner IH Optional Cons.prems
      by (simp add: parse_tokens.simps [of False c acc "CHR 0x7B # _"])
  qed
qed

subsection \<open>Everything read is well-formed\<close>

lemma read_slot_name: "read_slot b = Inr (n, k) \<Longrightarrow> slot_name_ok n"
  by (auto simp: read_slot_def split: option.splits if_splits)

text \<open>What holds between two steps of the reader.\<close>

definition reading :: "bool \<Rightarrow> bytes \<Rightarrow> token list \<Rightarrow> bytes \<Rightarrow> bool" where
  "reading g c ts s \<longleftrightarrow>
     list_all (if g then flat_ok else token_ok) ts \<and> seq_ok ts \<and> (ts = [] \<or> (\<forall>u. last ts \<noteq> Const u)) \<and>
     (c \<noteq> [] \<longrightarrow> ts = [] \<or> pair_ok (last ts) (Const c)) \<and>
     (c = [] \<longrightarrow> ts = [] \<or> (\<forall>i. last ts \<noteq> Optional i) \<or> \<not> prefix [CHR 0x7D] s)"

lemma reading_start: "reading g [] [] s"
  by (simp add: reading_def)

lemma flat_token: "flat_ok t \<Longrightarrow> token_ok t"
  by (cases t) auto

lemma reading_char:
  "reading g c ts (b # s) \<Longrightarrow> reading g (c @ [b]) ts s'"
  by (cases "c = []"; cases "ts = []"; cases "last ts") (auto simp: reading_def)

lemma reading_flush:
  assumes "reading g c ts s"
  shows "list_all (if g then flat_ok else token_ok) (ts @ flush_const c)" "seq_ok (ts @ flush_const c)"
  using assms by (auto simp: reading_def flush_const_def seq_ok_snoc)

lemma reading_push:
  assumes "reading g c ts s" "if g then flat_ok t else token_ok t" "\<forall>u. t \<noteq> Const u"
    "(\<forall>i. t \<noteq> Optional i) \<or> \<not> prefix [CHR 0x7D] s'"
  shows "reading g [] (ts @ flush_const c @ [t]) s'"
proof -
  have "pair_ok u t" for u using assms(3) by (cases u; cases t) auto
  then have "seq_ok ((ts @ flush_const c) @ [t])" using reading_flush(2) [OF assms(1)] seq_ok_snoc by blast
  with reading_flush(1) [OF assms(1)] assms show ?thesis by (auto simp: reading_def)
qed

lemma parse_tokens_reading:
  "parse_tokens g c ts s = Inr (x, t) \<Longrightarrow> reading g c ts s \<Longrightarrow>
    list_all (if g then flat_ok else token_ok) x \<and> seq_ok x \<and> (g \<longrightarrow> \<not> prefix [CHR 0x7D] t) \<and> length t \<le> length s"
proof (induction g c ts s arbitrary: x t rule: parse_tokens.induct)
  case (1 g c ts s)
  note eq = parse_tokens.simps [of g c ts s]
  show ?case
  proof (cases s)
    case Nil
    with "1.prems"(1) eq reading_flush [OF "1.prems"(2)] show ?thesis by (auto split: if_splits)
  next
    case s: (Cons b r)
    consider (open2) "b = CHR 0x7B" "prefix [CHR 0x7B] r"
      | (close2) "b = CHR 0x7D" "prefix [CHR 0x7D] r"
      | (group) "b = CHR 0x7B" "\<not> prefix [CHR 0x7B] r" "prefix ''?'' r"
      | (slot) "b = CHR 0x7B" "\<not> prefix [CHR 0x7B] r" "\<not> prefix ''?'' r"
      | (close) "b = CHR 0x7D" "\<not> prefix [CHR 0x7D] r"
      | (other) "b \<noteq> CHR 0x7B" "b \<noteq> CHR 0x7D" by blast
    then show ?thesis
    proof cases
      case open2
      with "1.prems" s eq have "parse_tokens g (c @ [b]) ts (tl r) = Inr (x, t)" by simp
      with "1.IH"(1) [of b r] open2 s reading_char [of g c ts b r] "1.prems" show ?thesis by fastforce
    next
      case close2
      with "1.prems" s eq have "parse_tokens g (c @ [b]) ts (tl r) = Inr (x, t)" by simp
      with "1.IH"(2) [of b r] close2 s reading_char [of g c ts b r] "1.prems" show ?thesis by fastforce
    next
      case group
      from "1.prems" s eq group obtain inner u where u: "\<not> g" "parse_tokens True [] [] (tl r) = Inr (inner, u)" "inner \<noteq> []"
        "length u < length s" "parse_tokens g [] (ts @ flush_const c @ [Optional inner]) u = Inr (x, t)"
        by (auto split: if_splits sum.splits prod.splits)
      have i: "list_all flat_ok inner \<and> seq_ok inner \<and> \<not> prefix [CHR 0x7D] u"
        using "1.IH"(3) [of b r inner u] group s u reading_start by fastforce
      then have "reading g [] (ts @ flush_const c @ [Optional inner]) u"
        using u "1.prems" by (intro reading_push) auto
      with "1.IH"(4) [of b r _ inner u x t] group s u show ?thesis by fastforce
    next
      case slot
      from "1.prems" s eq slot obtain body u n k where u: "slot_body r = Some (body, u)" "read_slot body = Inr (n, k)"
        "parse_tokens g [] (ts @ flush_const c @ [Slot n k]) u = Inr (x, t)"
        by (auto split: if_splits sum.splits prod.splits option.splits)
      then have "reading g [] (ts @ flush_const c @ [Slot n k]) u"
        using "1.prems" read_slot_name by (intro reading_push) auto
      with "1.IH"(5) [of b r _ body u _ n k x t] slot s u slot_body_length [OF u(1)] show ?thesis by fastforce
    next
      case close
      with "1.prems"(1) s eq reading_flush [OF "1.prems"(2)] show ?thesis by (auto split: if_splits)
    next
      case other
      with "1.prems" s eq have "parse_tokens g (c @ [b]) ts r = Inr (x, t)" by simp
      with "1.IH"(6) [of b r] other s reading_char [of g c ts b r] "1.prems" show ?thesis by fastforce
    qed
  qed
qed

lemma parse_tokens_shorter: "parse_tokens True [] [] s = Inr (x, t) \<Longrightarrow> length t \<le> length s"
  using parse_tokens_reading [OF _ reading_start] by blast

lemma from_pattern_wf: "from_pattern p = Inr ts \<Longrightarrow> template_wf ts"
  using parse_tokens_reading [OF _ reading_start, of False] 
  by (cases "parse_tokens False [] [] p") (auto simp: from_pattern_def template_wf_def)

lemma wf_roundtrip: "template_wf ts \<Longrightarrow> from_pattern (to_pattern ts) = Inr ts"
  using parse_written [of ts "[]" "[]"] by (simp add: from_pattern_def to_pattern_def template_wf_def flush_const_def)

text \<open>
  A pattern keeps its meaning when it is written out again: whatever text a pattern was
  read from, writing the template and reading that gives the same template.
\<close>

theorem pattern_reread:
  assumes "from_pattern p = Inr ts"
  shows "from_pattern (to_pattern ts) = Inr ts"
  using wf_roundtrip [OF from_pattern_wf [OF assms]] .

theorem pattern_reread_witness:
  "\<exists>ts. from_pattern ([CHR 0x7B] @ ''src:ip'' @ [CHR 0x7D] @ ''/'' @ [CHR 0x7B] @ ''n'' @ [CHR 0x7D]) = Inr ts \<and>
     to_pattern ts = [CHR 0x7B] @ ''src:ip'' @ [CHR 0x7D] @ ''/'' @ [CHR 0x7B] @ ''n:text'' @ [CHR 0x7D] \<and>
     from_pattern (to_pattern ts) = Inr ts"
proof -
  let ?p = "[CHR 0x7B] @ ''src:ip'' @ [CHR 0x7D] @ ''/'' @ [CHR 0x7B] @ ''n'' @ [CHR 0x7D]"
  have "from_pattern ?p = Inr [Slot ''src'' KIp, Const ''/'', Slot ''n'' KText]" by code_simp
  with pattern_reread [OF this] show ?thesis by (simp add: to_pattern_def write_tokens_def kind_name_def)
qed

text \<open>
  Writing is the inverse of reading exactly on the well-formed templates: the code's
  promise for every template fails for the rest, for example an optional group followed by a
  constant that starts with a closing brace.
\<close>

theorem to_pattern_inverse_iff: "from_pattern (to_pattern ts) = Inr ts \<longleftrightarrow> template_wf ts"
  using wf_roundtrip from_pattern_wf by blast

lemma group_before_brace:
  "from_pattern (to_pattern [Optional [Const ''a''], Const [CHR 0x7D]]) = Inr [Optional [Const [CHR ''a'', CHR 0x7D]]]"
  by code_simp

end
