(* ===== verification/Ulpf_Pattern.thy ===== *)
theory Ulpf_Pattern
  imports Ulpf_Template Ulpf_Kv "HOL-Library.Product_Lexorder"
begin

text \<open>
  The pattern strategy, \<open>src/crates/ulpf-parse/src/pattern.rs\<close>, with the regex fragments of
  \<open>SlotKind::regex\<close> and \<open>timestamp_regex\<close> in \<open>template.rs\<close>. The \<open>regex\<close> crate is outside
  the repository: it is the parameter \<open>regex_engine\<close>, what compiling a text gives (an error
  or the names of its groups, group 0 first), the spans a compiled text captures (group 0
  first), and how a character is escaped.
\<close>

record regex_engine =
  rx_names :: "bytes \<Rightarrow> bytes + bytes option list"
  rx_captures :: "bytes \<Rightarrow> bytes \<Rightarrow> (nat \<times> nat) option list option"
  rx_escape :: "byte \<Rightarrow> bytes"

definition bs :: bytes where
  "bs = [CHR 0x5C]"

definition dq :: bytes where
  "dq = [CHR 0x22]"

fun join_with :: "bytes \<Rightarrow> bytes list \<Rightarrow> bytes" where
  "join_with sep [] = []"
| "join_with sep [x] = x"
| "join_with sep (x # y # r) = x @ sep @ join_with sep (y # r)"

definition zone_names :: "bytes list" where
  "zone_names = sort_key (\<lambda>n. (- int (length n), n)) (map fst zones)"

definition timestamp_regex :: bytes where
  "timestamp_regex =
     ''(?:(?:(?:Mon|Tue|Wed|Thu|Fri|Sat|Sun) +)?[*.]?[A-Z][a-z]{2} +[0-9]{1,2}(?: +[0-9]{4})? +[0-9]{2}:[0-9]{2}:[0-9]{2}(?:'' @ bs @
     ''.[0-9]+)?(?: +[0-9]{4})?(?: +(?:'' @ join_with ''|'' zone_names @
     ''|[+-][0-9]{2}:?[0-9]{2}))?|[0-9]{4}[-/][0-9]{2}[-/][0-9]{2}[T ][0-9]{2}:[0-9]{2}:[0-9]{2}(?:'' @ bs @
     ''.[0-9]+)?(?:Z|[+-][0-9]{2}:?[0-9]{2})?|[0-9]{1,2}/[A-Z][a-z]{2}/[0-9]{4}:[0-9]{2}:[0-9]{2}:[0-9]{2}(?: +[+-][0-9]{4})?|[0-9]{9,19}(?:'' @ bs @
     ''.[0-9]+)?)''"

definition ipv4_regex :: bytes where
  "ipv4_regex = ''(?:[0-9]{1,3}'' @ bs @ ''.){3}[0-9]{1,3}''"

definition ipv6_regex :: bytes where
  "ipv6_regex = ''[0-9A-Fa-f]{0,4}(?::[0-9A-Fa-f]{0,4}){2,7}(?:'' @ bs @ ''.[0-9.]+)?''"

definition kind_regex :: "slot_kind \<Rightarrow> bool \<Rightarrow> bytes" where
  "kind_regex k is_last =
     (case k of
        KInt \<Rightarrow> ''[+-]?[0-9]+''
      | KFloat \<Rightarrow> ''[+-]?[0-9]+(?:'' @ bs @ ''.[0-9]+)?''
      | KWord \<Rightarrow> ''[^ '' @ bs @ ''t'' @ bs @ ''r'' @ bs @ ''n]+''
      | KText \<Rightarrow> if is_last then ''.+'' else ''.+?''
      | KRest \<Rightarrow> ''.*''
      | KIpv4 \<Rightarrow> ipv4_regex
      | KIpv6 \<Rightarrow> ipv6_regex
      | KIp \<Rightarrow> ''(?:'' @ ipv4_regex @ ''|'' @ ipv6_regex @ '')''
      | KPort \<Rightarrow> ''[0-9]{1,5}''
      | KHex \<Rightarrow> ''(?:0[xX])?[0-9A-Fa-f]+''
      | KMac \<Rightarrow> ''(?:[0-9A-Fa-f]{2}[:-]){5}[0-9A-Fa-f]{2}''
      | KTimestamp \<Rightarrow> timestamp_regex
      | KQuoted \<Rightarrow> dq @ ''(?:[^'' @ dq @ bs @ bs @ '']|'' @ bs @ bs @ ''.)*'' @ dq)"

fun emit_token :: "regex_engine \<Rightarrow> bool \<Rightarrow> token \<Rightarrow> bytes" where
  "emit_token E is_last (Const s) =
     concat (map (\<lambda>c. if c = CHR '' '' then ''[ '' @ bs @ ''t]+'' else rx_escape E c) s)"
| "emit_token E is_last (Slot name k) =
     (if name = ''_'' then ''(?:'' @ kind_regex k is_last @ '')''
      else if k = KQuoted
      then dq @ ''(?P<'' @ name @ ''>(?:[^'' @ dq @ bs @ bs @ '']|'' @ bs @ bs @ ''.)*'' @ '')'' @ dq
      else ''(?P<'' @ name @ ''>'' @ kind_regex k is_last @ '')'')"
| "emit_token E is_last (Optional inner) = ''(?:'' @ concat (map (emit_token E False) inner) @ '')?''"

fun emit_tokens :: "regex_engine \<Rightarrow> bool \<Rightarrow> token list \<Rightarrow> bytes" where
  "emit_tokens E is_last [] = []"
| "emit_tokens E is_last [t] = emit_token E is_last t"
| "emit_tokens E is_last (t # u # ts) = emit_token E False t @ emit_tokens E is_last (u # ts)"

datatype anchor = AStart | AFull | ANone

record compiled_pattern =
  cp_regex :: bytes
  cp_names :: "bytes option list"

definition from_regex_str :: "regex_engine \<Rightarrow> bytes \<Rightarrow> bytes + compiled_pattern" where
  "from_regex_str E re =
     (case rx_names E re of
        Inl e \<Rightarrow> Inl (''pattern does not compile: '' @ e)
      | Inr names \<Rightarrow> Inr \<lparr>cp_regex = re, cp_names = names\<rparr>)"

definition from_template :: "regex_engine \<Rightarrow> token list \<Rightarrow> anchor \<Rightarrow> bytes + compiled_pattern" where
  "from_template E t a =
     from_regex_str E (''(?s-u)'' @ (if a \<noteq> ANone then ''^'' else []) @ emit_tokens E True t @
       (if a = AFull then ''$'' else []))"

definition from_raw_regex :: "regex_engine \<Rightarrow> bytes \<Rightarrow> anchor \<Rightarrow> bytes + compiled_pattern" where
  "from_raw_regex E raw a =
     from_regex_str E (''(?s-u)'' @ (if a \<noteq> ANone \<and> \<not> prefix ''^'' raw then ''^'' else []) @ raw @
       (if a = AFull \<and> \<not> suffix ''$'' raw then ''$'' else []))"

text \<open>The fields of a match: every named group that captured something, in group order.\<close>

fun capture_fields :: "bytes \<Rightarrow> bytes option list \<Rightarrow> (nat \<times> nat) option list \<Rightarrow> parsed \<Rightarrow> parsed" where
  "capture_fields s (n # ns) (l # ls) out =
     capture_fields s ns ls
       (case (n, l) of
          (Some name, Some (a, b)) \<Rightarrow> if a < b then push (Borrowed name) (Borrowed (slice a b s)) out else out
        | _ \<Rightarrow> out)"
| "capture_fields s _ _ out = out"

definition pattern_apply :: "regex_engine \<Rightarrow> compiled_pattern \<Rightarrow> bytes \<Rightarrow> parsed \<Rightarrow> bool \<times> parsed" where
  "pattern_apply E p s out =
     (case rx_captures E (cp_regex p) s of
        None \<Rightarrow> (False, out)
      | Some locs \<Rightarrow> (True, capture_fields s (tl (cp_names p)) (tl locs) out))"

fun patterns_strategy :: "regex_engine \<Rightarrow> compiled_pattern list \<Rightarrow> bytes \<Rightarrow> parsed \<Rightarrow> parse_failure option \<times> parsed" where
  "patterns_strategy E [] s out = (Some PatternNoMatch, out)"
| "patterns_strategy E (p # ps) s out =
     (case pattern_apply E p s out of
        (True, q) \<Rightarrow> (None, q)
      | (False, q) \<Rightarrow> patterns_strategy E ps s q)"

subsection \<open>The strategy contract\<close>

lemma capture_fields_extends: "extends out (capture_fields s ns ls out)"
proof (induction s ns ls out rule: capture_fields.induct)
  case (1 s n ns l ls out)
  then show ?case
    by (auto split: option.splits prod.splits intro: extends_trans [OF extends_push])
qed simp_all

lemma pattern_apply_extends:
  "pattern_apply E p s out = (ok, q) \<Longrightarrow> extends out q \<and> (\<not> ok \<longrightarrow> q = out)"
  by (auto simp: pattern_apply_def capture_fields_extends split: option.splits)

lemma patterns_extends:
  "patterns_strategy E ps s out = (r, q) \<Longrightarrow> extends out q \<and> (r \<noteq> None \<longrightarrow> q = out)"
proof (induction ps arbitrary: r q)
  case (Cons p ps)
  obtain ok q1 where p: "pattern_apply E p s out = (ok, q1)" by fastforce
  with Cons pattern_apply_extends [OF p] show ?case by (cases ok) auto
qed simp

interpretation patterns: strategy "patterns_strategy E ps" for E ps
  by unfold_locales (use patterns_extends in \<open>metis prod.collapse\<close>)+

end
