(* ===== verification/Ulpf_Parser.thy ===== *)
theory Ulpf_Parser
  imports Ulpf_Delim Ulpf_Envelope Ulpf_Cef Ulpf_Trees Ulpf_Pattern
begin

text \<open>
  Parsers, \<open>src/crates/ulpf-parse/src/def.rs\<close> and \<open>compile.rs\<close>: the definition of a parser,
  \<open>Strategy::validate\<close>, \<open>CompiledStrategy\<close> with \<open>compile\<close> and \<open>apply\<close>,
  \<open>Parser::from_definition\<close>, \<open>Parser::parse\<close>, \<open>run_subs\<close> and \<open>resolve_timestamp\<close>. The
  libraries the strategies call are one record of parameters. The capture-location cache of
  \<open>Scratch\<close> holds no state a result depends on and is left out; its \<open>sub_state\<close> is a list.
\<close>

record engines =
  en_regex :: regex_engine
  en_serde :: "bytes \<Rightarrow> json option"
  en_xml :: "bytes \<Rightarrow> xml_token list"

subsection \<open>Definitions\<close>

datatype strategy_kind = SKv | SDelimiter | SJson | SCef | SLeef | SPattern | SXml

definition strategy_kind_name :: "strategy_kind \<Rightarrow> bytes" where
  "strategy_kind_name k = (case k of
     SKv \<Rightarrow> ''kv'' | SDelimiter \<Rightarrow> ''delimiter'' | SJson \<Rightarrow> ''json'' | SCef \<Rightarrow> ''cef'' | SLeef \<Rightarrow> ''leef''
   | SPattern \<Rightarrow> ''pattern'' | SXml \<Rightarrow> ''xml'')"

datatype one_or_many = One bytes | Many "bytes list"

fun one_contains :: "one_or_many \<Rightarrow> bytes \<Rightarrow> bool" where
  "one_contains (One s) v = (s = v)"
| "one_contains (Many vs) v = list_ex (\<lambda>s. s = v) vs"

record strategy_def =
  sd_kind :: strategy_kind
  sd_kv_sep :: "bytes option"
  sd_pair_sep :: "bytes option"
  sd_quote :: "bytes option"
  sd_delimiter :: "bytes option"
  sd_fields :: "bytes list"
  sd_rest :: "bytes option"
  sd_pattern :: "bytes option"
  sd_patterns :: "bytes list"
  sd_regex :: "bytes option"
  sd_anchor :: "anchor option"
  sd_field :: "bytes option"
  sd_when :: "(bytes \<times> one_or_many) list"
  sd_constants :: "(bytes \<times> bytes) list"

record matcher_def =
  md_contains :: "bytes list"
  md_starts_with :: "bytes option"
  md_regex :: "bytes option"
  md_priority :: int

record timestamp_spec =
  tp_field :: "bytes option"
  tp_fields :: "bytes list"
  tp_format :: bytes

record parser_def =
  pd_name :: bytes
  pd_vendor :: bytes
  pd_product :: bytes
  pd_version :: nat
  pd_matcher :: matcher_def
  pd_syslog :: bool
  pd_strategy :: strategy_def
  pd_timestamp :: "timestamp_spec list"
  pd_sub :: "strategy_def list"

definition bad_keys :: "strategy_def \<Rightarrow> bool \<Rightarrow> bytes list" where
  "bad_keys s is_sub =
     (let kv = sd_kind s = SKv; delim = sd_kind s = SDelimiter; pat = sd_kind s = SPattern in
      (if \<not> kv \<and> sd_kv_sep s \<noteq> None then [''key_value_separator''] else []) @
      (if \<not> kv \<and> sd_pair_sep s \<noteq> None then [''pair_separator''] else []) @
      (if \<not> kv \<and> \<not> delim \<and> sd_quote s \<noteq> None then [''quote''] else []) @
      (if \<not> delim \<and> sd_delimiter s \<noteq> None then [''delimiter''] else []) @
      (if \<not> delim \<and> sd_fields s \<noteq> [] then [''fields''] else []) @
      (if \<not> delim \<and> sd_rest s \<noteq> None then [''rest''] else []) @
      (if \<not> pat \<and> sd_pattern s \<noteq> None then [''pattern''] else []) @
      (if \<not> pat \<and> sd_patterns s \<noteq> [] then [''patterns''] else []) @
      (if \<not> pat \<and> sd_regex s \<noteq> None then [''regex''] else []) @
      (if \<not> pat \<and> sd_anchor s \<noteq> None then [''anchor''] else []) @
      (if \<not> is_sub \<and> sd_field s \<noteq> None then [''field''] else []) @
      (if \<not> is_sub \<and> sd_when s \<noteq> [] then [''when''] else []) @
      (if \<not> is_sub \<and> sd_constants s \<noteq> [] then [''constants''] else []))"

definition validate_strategy :: "strategy_def \<Rightarrow> bool \<Rightarrow> bytes option" where
  "validate_strategy s is_sub =
     (case bad_keys s is_sub of
        k # _ \<Rightarrow> Some (''key `'' @ k @ ''` does not apply to kind `'' @ strategy_kind_name (sd_kind s) @ ''`'' @
                        (if is_sub then [] else '' at top level''))
      | [] \<Rightarrow> if is_sub \<and> sd_field s = None then Some ''[[sub]] needs `field`'' else None)"

subsection \<open>Compiling a strategy\<close>

datatype compiled_strategy =
  CKv kv_config | CDelimiter delim_config | CJson | CCef | CLeef | CPattern "compiled_pattern list" | CXml

definition or_else :: "'a option \<Rightarrow> 'a \<Rightarrow> 'a" where
  "or_else x d = (case x of None \<Rightarrow> d | Some v \<Rightarrow> v)"

definition map_err :: "(bytes \<Rightarrow> bytes) \<Rightarrow> bytes + 'a \<Rightarrow> bytes + 'a" where
  "map_err f = map_sum f id"

text \<open>A list of fallible steps run in order, stopping at the first error.\<close>

fun collect_results :: "('a \<Rightarrow> bytes + 'b) \<Rightarrow> 'a list \<Rightarrow> bytes + 'b list" where
  "collect_results f [] = Inr []"
| "collect_results f (x # xs) =
     (case f x of
        Inl e \<Rightarrow> Inl e
      | Inr y \<Rightarrow> (case collect_results f xs of Inl e \<Rightarrow> Inl e | Inr ys \<Rightarrow> Inr (y # ys)))"

definition compile_pattern_text :: "regex_engine \<Rightarrow> anchor \<Rightarrow> bytes \<Rightarrow> bytes + compiled_pattern" where
  "compile_pattern_text E a p =
     map_err (\<lambda>e. ''pattern `'' @ p @ ''`: '' @ e)
       (case from_pattern p of Inl e \<Rightarrow> Inl e | Inr t \<Rightarrow> from_template E t a)"

definition compile_patterns :: "regex_engine \<Rightarrow> strategy_def \<Rightarrow> bytes + compiled_pattern list" where
  "compile_patterns E s =
     (let a = or_else (sd_anchor s) AStart in
      case collect_results (compile_pattern_text E a)
             ((case sd_pattern s of Some p \<Rightarrow> [p] | None \<Rightarrow> []) @ sd_patterns s) of
        Inl e \<Rightarrow> Inl e
      | Inr compiled \<Rightarrow>
          (case (case sd_regex s of None \<Rightarrow> Inr [] | Some r \<Rightarrow> map_sum id (\<lambda>c. [c]) (from_raw_regex E r a)) of
             Inl e \<Rightarrow> Inl e
           | Inr raw \<Rightarrow>
               if compiled @ raw = [] then Inl ''pattern strategy needs `pattern`, `patterns` or `regex`''
               else Inr (compiled @ raw)))"

definition compile_strategy :: "regex_engine \<Rightarrow> strategy_def \<Rightarrow> bool \<Rightarrow> bytes + compiled_strategy" where
  "compile_strategy E s is_sub =
     (case validate_strategy s is_sub of
        Some e \<Rightarrow> Inl e
      | None \<Rightarrow>
          (case sd_kind s of
             SKv \<Rightarrow> map_sum id CKv (kv_new (or_else (sd_kv_sep s) ''='') (or_else (sd_pair_sep s) '' '')
                      (Some (or_else (sd_quote s) [CHR 0x22])))
           | SDelimiter \<Rightarrow>
               (case sd_delimiter s of
                  None \<Rightarrow> Inl ''delimiter strategy needs `delimiter`''
                | Some d \<Rightarrow> map_sum id CDelimiter (delim_new d (sd_quote s) (sd_fields s) (sd_rest s)))
           | SJson \<Rightarrow> Inr CJson
           | SCef \<Rightarrow> Inr CCef
           | SLeef \<Rightarrow> Inr CLeef
           | SXml \<Rightarrow> Inr CXml
           | SPattern \<Rightarrow> map_sum id CPattern (compile_patterns E s)))"

definition apply_strategy :: "engines \<Rightarrow> compiled_strategy \<Rightarrow> bytes \<Rightarrow> parsed \<Rightarrow> parse_failure option \<times> parsed" where
  "apply_strategy E cs s out =
     (case cs of
        CKv cfg \<Rightarrow> kv_strategy cfg s out
      | CDelimiter cfg \<Rightarrow> delim_strategy cfg s out
      | CJson \<Rightarrow> apply_json (en_serde E) s out
      | CCef \<Rightarrow> apply_cef s out
      | CLeef \<Rightarrow> apply_leef s out
      | CXml \<Rightarrow> apply_xml (en_xml E) s out
      | CPattern ps \<Rightarrow> patterns_strategy (en_regex E) ps s out)"

text \<open>Every kind keeps the contract, so the parser is proved once for all of them.\<close>

interpretation any: strategy "apply_strategy E cs" for E cs
proof
  fix p t
  show "extends p (snd (apply_strategy E cs t p))"
    by (cases cs) (simp_all add: apply_strategy_def kv.app_extends delim.app_extends json.app_extends
        cef.app_extends leef.app_extends xml.app_extends patterns.app_extends)
  show "pa_fields (snd (apply_strategy E cs t p)) = pa_fields p" if "fst (apply_strategy E cs t p) \<noteq> None"
    using that unfolding apply_strategy_def
    by (cases cs; simp only: compiled_strategy.case; elim kv.app_clean delim.app_clean json.app_clean
        cef.app_clean leef.app_clean xml.app_clean patterns.app_clean)
qed

subsection \<open>Compiling a parser\<close>

record compiled_timestamp =
  ct_field :: "bytes option"
  ct_fields :: "bytes list"
  ct_format :: time_format

record compiled_sub =
  cs_field :: bytes
  cs_group :: nat
  cs_when :: "(bytes \<times> one_or_many) list"
  cs_strategy :: compiled_strategy
  cs_constants :: "(bytes \<times> bytes) list"

record compiled_matcher =
  cm_finders :: "bytes list"
  cm_starts_with :: "bytes option"
  cm_regex :: "bytes option"

record parser =
  pr_def :: parser_def
  pr_matcher :: compiled_matcher
  pr_strategy :: compiled_strategy
  pr_timestamps :: "compiled_timestamp list"
  pr_subs :: "compiled_sub list"

definition compile_matcher :: "regex_engine \<Rightarrow> matcher_def \<Rightarrow> bytes + compiled_matcher" where
  "compile_matcher E m =
     (if md_contains m = [] \<and> md_starts_with m = None \<and> md_regex m = None
      then Inl ''[match] needs at least one of `contains`, `starts_with`, `regex`''
      else case (case md_regex m of
                   None \<Rightarrow> Inr None
                 | Some r \<Rightarrow> (case rx_names E (''(?s-u)'' @ r) of
                                Inl e \<Rightarrow> Inl (''[match] regex: '' @ e)
                              | Inr _ \<Rightarrow> Inr (Some (''(?s-u)'' @ r)))) of
             Inl e \<Rightarrow> Inl e
           | Inr r \<Rightarrow> Inr \<lparr>cm_finders = md_contains m, cm_starts_with = md_starts_with m, cm_regex = r\<rparr>)"

definition format_message :: "bytes \<Rightarrow> format_error \<Rightarrow> bytes" where
  "format_message layout e = (case e of
     UnknownSpec s \<Rightarrow> ''unknown timestamp format spec `'' @ s @ ''`''
   | BadDirective d \<Rightarrow>
       ''unsupported strftime directive `%'' @ utf8_encode (bv d) @ ''` in `'' @ layout @ ''`''
   | DanglingPercent \<Rightarrow> ''dangling `%` at end of `'' @ layout @ ''`'')"

definition compile_timestamp :: "nat \<times> timestamp_spec \<Rightarrow> bytes + compiled_timestamp" where
  "compile_timestamp it =
     (case it of (i, t) \<Rightarrow>
        if tp_field t = None \<and> tp_fields t = []
        then Inl (''[[timestamp]] #'' @ dec (i + 1) @ '': needs `field` or `fields`'')
        else case from_spec (tp_format t) of
               Inl e \<Rightarrow> Inl (''[[timestamp]] #'' @ dec (i + 1) @ '': '' @ format_message (tp_format t) e)
             | Inr f \<Rightarrow> Inr \<lparr>ct_field = tp_field t, ct_fields = tp_fields t, ct_format = f\<rparr>)"

definition compile_sub :: "regex_engine \<Rightarrow> strategy_def \<Rightarrow> nat \<Rightarrow> bytes + compiled_sub" where
  "compile_sub E s grp =
     map_sum id (\<lambda>c. \<lparr>cs_field = or_else (sd_field s) [], cs_group = grp, cs_when = sd_when s,
                        cs_strategy = c, cs_constants = sd_constants s\<rparr>) (compile_strategy E s True)"

text \<open>The index of the first sub on the same field: subs on one field are alternatives.\<close>

definition sub_group :: "strategy_def list \<Rightarrow> nat \<Rightarrow> nat" where
  "sub_group subs i = or_else (position (\<lambda>p. sd_field p = sd_field (subs ! i)) (take i subs)) i"

definition from_definition :: "engines \<Rightarrow> parser_def \<Rightarrow> bytes + parser" where
  "from_definition E d =
     (case compile_matcher (en_regex E) (pd_matcher d) of
        Inl e \<Rightarrow> Inl e
      | Inr m \<Rightarrow>
     (case compile_strategy (en_regex E) (pd_strategy d) False of
        Inl e \<Rightarrow> Inl (''[strategy] '' @ e)
      | Inr st \<Rightarrow>
     (case collect_results compile_timestamp (List.enumerate 0 (pd_timestamp d)) of
        Inl e \<Rightarrow> Inl e
      | Inr ts \<Rightarrow>
     (case collect_results (\<lambda>(i, s). map_err (\<lambda>e. ''[[sub]] #'' @ dec (i + 1) @ '': '' @ e)
                              (compile_sub (en_regex E) s (sub_group (pd_sub d) i)))
             (List.enumerate 0 (pd_sub d)) of
        Inl e \<Rightarrow> Inl e
      | Inr subs \<Rightarrow> Inr \<lparr>pr_def = d, pr_matcher = m, pr_strategy = st, pr_timestamps = ts, pr_subs = subs\<rparr>))))"

subsection \<open>The sub stage\<close>

definition sub_gated :: "compiled_sub \<Rightarrow> parsed \<Rightarrow> bool" where
  "sub_gated sub out \<longleftrightarrow>
     list_all (\<lambda>(k, v). case pa_get k out of None \<Rightarrow> False | Some w \<Rightarrow> one_contains v (cow_bytes w)) (cs_when sub)"

definition push_owned :: "field list \<Rightarrow> parsed \<Rightarrow> parsed" where
  "push_owned fs out = foldl (\<lambda>p f. push (Owned (cow_bytes (fd_key f))) (Owned (cow_bytes (fd_value f))) p) out fs"

text \<open>A span of the event is re-parsed in place; a materialised value in a parse of its own.\<close>

definition apply_sub :: "engines \<Rightarrow> compiled_sub \<Rightarrow> cow \<Rightarrow> parsed \<Rightarrow> bool \<times> parsed" where
  "apply_sub E sub input out =
     (case input of
        Borrowed b \<Rightarrow>
          (case apply_strategy E (cs_strategy sub) b out of
             (None, q) \<Rightarrow> (True, q)
           | (Some _, q) \<Rightarrow> (False, rollback (length (pa_fields out)) q))
      | Owned b \<Rightarrow>
          (case apply_strategy E (cs_strategy sub) b parsed_default of
             (None, tmp) \<Rightarrow> (True, push_owned (pa_fields tmp) out)
           | (Some _, _) \<Rightarrow> (False, out)))"

definition sub_step :: "engines \<Rightarrow> compiled_sub \<Rightarrow> nat list \<times> parsed \<Rightarrow> nat list \<times> parsed" where
  "sub_step E sub so =
     (case so of (state, out) \<Rightarrow>
        if state ! cs_group sub = 3 then (state, out)
        else case pa_get (cs_field sub) out of
               None \<Rightarrow> (state, out)
             | Some input \<Rightarrow>
                 if \<not> sub_gated sub out
                 then (state[cs_group sub := max (state ! cs_group sub) 1], out)
                 else case apply_sub E sub input out of
                        (True, q) \<Rightarrow>
                          (state[cs_group sub := 3],
                           foldl (\<lambda>p (k, v). push (Borrowed k) (Borrowed v) p) q (cs_constants sub))
                      | (False, q) \<Rightarrow> (state[cs_group sub := 2], q))"

definition sub_outcome :: "nat list \<Rightarrow> sub_status" where
  "sub_outcome state =
     (if 2 \<in> set state then SubNoMatch else if 1 \<in> set state then SubUncovered
      else if 3 \<in> set state then SubMatched else NotApplicable)"

definition run_subs :: "engines \<Rightarrow> compiled_sub list \<Rightarrow> parsed \<Rightarrow> sub_status \<times> parsed" where
  "run_subs E subs out =
     (case foldl (\<lambda>so sub. sub_step E sub so) (replicate (length subs) 0, out) subs of
        (state, q) \<Rightarrow> (sub_outcome state, q))"

subsection \<open>The event time\<close>

text \<open>The fields that are present, up to the first that is not, joined; and whether all were.\<close>

definition join_fields :: "bytes list \<Rightarrow> parsed \<Rightarrow> bool \<times> bytes" where
  "join_fields fs out =
     (list_all (\<lambda>f. pa_get f out \<noteq> None) fs,
      join_with '' '' (map (\<lambda>f. cow_bytes (the (pa_get f out))) (takeWhile (\<lambda>f. pa_get f out \<noteq> None) fs)))"

text \<open>One candidate: the time it gives (in the output), or the error it leaves behind.\<close>

definition try_timestamp ::
  "context_time \<Rightarrow> compiled_timestamp \<Rightarrow> parsed \<times> time_error option \<Rightarrow> (parsed, parsed \<times> time_error option) sum" where
  "try_timestamp ctx t oe =
     (case oe of (out, err) \<Rightarrow>
        (case ct_field t of
           Some f \<Rightarrow>
             (case pa_get f out of
                None \<Rightarrow> Inr (out, err)
              | Some val \<Rightarrow>
                  (case parse_ts (cow_bytes val) (ct_format t) ctx of
                     Inr ts \<Rightarrow> Inl (out\<lparr>pa_timestamp := Some ts, pa_ts_text := Some val\<rparr>)
                   | Inl e \<Rightarrow> Inr (out, Some e)))
         | None \<Rightarrow>
             (case take_spare out of (_, out1) \<Rightarrow>
                (case join_fields (ct_fields t) out1 of
                   (False, join) \<Rightarrow> Inr (give_back join out1, err)
                 | (True, join) \<Rightarrow>
                     (case parse_ts join (ct_format t) ctx of
                        Inr ts \<Rightarrow> Inl (out1\<lparr>pa_timestamp := Some ts, pa_ts_text := Some (Owned join)\<rparr>)
                      | Inl e \<Rightarrow> Inr (give_back join out1, Some e))))))"

fun try_timestamps ::
  "context_time \<Rightarrow> compiled_timestamp list \<Rightarrow> parsed \<times> time_error option \<Rightarrow> (parsed, parsed \<times> time_error option) sum" where
  "try_timestamps ctx [] oe = Inr oe"
| "try_timestamps ctx (t # ts) oe =
     (case try_timestamp ctx t oe of Inl out \<Rightarrow> Inl out | Inr oe' \<Rightarrow> try_timestamps ctx ts oe')"

definition resolve_timestamp :: "compiled_timestamp list \<Rightarrow> context_time \<Rightarrow> parsed \<Rightarrow> parsed" where
  "resolve_timestamp ts ctx out =
     (case try_timestamps ctx ts (out, None) of
        Inl q \<Rightarrow> q
      | Inr (q, err) \<Rightarrow>
          (case pa_get ''syslog_timestamp'' q of
             None \<Rightarrow> q\<lparr>pa_ts_error := err\<rparr>
           | Some val \<Rightarrow>
               (case parse_ts (cow_bytes val) Auto ctx of
                  Inr t \<Rightarrow> q\<lparr>pa_timestamp := Some t, pa_ts_text := Some val\<rparr>
                | Inl e \<Rightarrow> q\<lparr>pa_ts_error := Some e\<rparr>)))"

subsection \<open>Parsing an event\<close>

definition trim_line_end :: "bytes \<Rightarrow> bytes" where
  "trim_line_end s = rev (dropWhile (\<lambda>b. b = CHR 0x0A \<or> b = CHR 0x0D) (rev s))"

definition bsd_timestamp_regex :: bytes where
  "bsd_timestamp_regex =
     ''(?-u)^(?:[A-Z][a-z]{2} +[0-9]{1,2}(?: +[0-9]{4})? +[0-9]{2}:[0-9]{2}:[0-9]{2}(?:'' @ bs @
     ''.[0-9]+)?(?: +[0-9]{4})?|[0-9]{4}-[0-9]{2}-[0-9]{2}T[0-9]{2}:[0-9]{2}:[0-9]{2}(?:'' @ bs @
     ''.[0-9]+)?(?:Z|[+-][0-9]{2}:?[0-9]{2})?)''"

definition bsd_timestamp :: "regex_engine \<Rightarrow> bytes \<Rightarrow> nat option" where
  "bsd_timestamp E s =
     (case rx_captures E bsd_timestamp_regex s of
        Some (Some (_, e) # _) \<Rightarrow> Some e
      | _ \<Rightarrow> None)"

text \<open>What the strategy is given: the event without its line end and, if asked, its envelope.\<close>

definition parse_start :: "engines \<Rightarrow> parser \<Rightarrow> bytes \<Rightarrow> parsed \<Rightarrow> bytes \<times> parsed" where
  "parse_start E p event out =
     (if pd_syslog (pr_def p)
      then strip_syslog (bsd_timestamp (en_regex E)) (trim_line_end event) (pa_clear out)
      else (trim_line_end event, pa_clear out))"

definition parse_event :: "engines \<Rightarrow> parser \<Rightarrow> bytes \<Rightarrow> context_time \<Rightarrow> parsed \<Rightarrow> parse_failure option \<times> parsed" where
  "parse_event E p event ctx out =
     (case parse_start E p event out of (body, out1) \<Rightarrow>
      case apply_strategy E (pr_strategy p) body out1 of (result, out2) \<Rightarrow>
        let out3 =
          (if result = None \<and> pr_subs p \<noteq> [] then
             (case run_subs E (pr_subs p) out2 of (st, q) \<Rightarrow> q\<lparr>pa_sub := st\<rparr>)
           else out2)
        in (result, resolve_timestamp (pr_timestamps p) ctx out3))"

subsection \<open>The event time is the first that parses\<close>

definition candidate_of :: "compiled_timestamp \<Rightarrow> bytes list \<times> time_format" where
  "candidate_of t = (case ct_field t of Some f \<Rightarrow> [f] | None \<Rightarrow> ct_fields t, ct_format t)"

definition candidates :: "compiled_timestamp list \<Rightarrow> (bytes list \<times> time_format) list" where
  "candidates ts =
     map candidate_of ts @
     [([''syslog_timestamp''], Auto)]"

definition candidate_value :: "parsed \<Rightarrow> bytes list \<Rightarrow> bytes option" where
  "candidate_value out fs = (case join_fields fs out of (True, v) \<Rightarrow> Some v | _ \<Rightarrow> None)"

definition candidate_time ::
  "context_time \<Rightarrow> parsed \<Rightarrow> bytes list \<times> time_format \<Rightarrow> (timestamp \<times> bytes) option" where
  "candidate_time ctx out c =
     (case candidate_value out (fst c) of
        None \<Rightarrow> None
      | Some v \<Rightarrow> (case parse_ts v (snd c) ctx of Inr t \<Rightarrow> Some (t, v) | Inl _ \<Rightarrow> None))"

definition candidate_error :: "context_time \<Rightarrow> parsed \<Rightarrow> bytes list \<times> time_format \<Rightarrow> time_error option" where
  "candidate_error ctx out c =
     (case candidate_value out (fst c) of
        None \<Rightarrow> None
      | Some v \<Rightarrow> (case parse_ts v (snd c) ctx of Inr _ \<Rightarrow> None | Inl e \<Rightarrow> Some e))"

definition last_error :: "time_error option \<Rightarrow> context_time \<Rightarrow> parsed \<Rightarrow> (bytes list \<times> time_format) list \<Rightarrow> time_error option" where
  "last_error err ctx out cs = foldl (\<lambda>e c. case candidate_error ctx out c of None \<Rightarrow> e | Some e' \<Rightarrow> Some e') err cs"

text \<open>Outputs that differ only in the event time and the join buffer.\<close>

definition same_parse :: "parsed \<Rightarrow> parsed \<Rightarrow> bool" where
  "same_parse p q \<longleftrightarrow> pa_fields q = pa_fields p \<and> pa_sub q = pa_sub p"

lemma same_parse_get: "same_parse p q \<Longrightarrow> pa_get k q = pa_get k p"
  by (simp add: same_parse_def pa_get_def)

lemma same_parse_join: "same_parse p q \<Longrightarrow> join_fields fs q = join_fields fs p"
  by (simp add: join_fields_def same_parse_get)

lemma candidate_single:
  "candidate_value out [f] = map_option cow_bytes (pa_get f out)"
  by (cases "pa_get f out") (simp_all add: candidate_value_def join_fields_def)

lemma same_parse_candidate:
  assumes "same_parse p q"
  shows "candidate_time ctx q c = candidate_time ctx p c" "candidate_error ctx q c = candidate_error ctx p c"
  by (simp_all add: candidate_time_def candidate_error_def candidate_value_def same_parse_join [OF assms])

lemma try_timestamp_spec:
  assumes "same_parse base out" "pa_timestamp out = pa_timestamp base" "pa_ts_error out = pa_ts_error base"
  shows "case candidate_time ctx base (candidate_of t) of
      Some (ts, v) \<Rightarrow> \<exists>q. try_timestamp ctx t (out, err) = Inl q \<and> same_parse base q \<and>
        pa_timestamp q = Some ts \<and> map_option cow_bytes (pa_ts_text q) = Some v \<and> pa_ts_error q = pa_ts_error base
    | None \<Rightarrow> \<exists>q. try_timestamp ctx t (out, err) = Inr (q, last_error err ctx base [candidate_of t]) \<and> same_parse base q \<and>
        pa_timestamp q = pa_timestamp base \<and> pa_ts_error q = pa_ts_error base"
proof (cases "ct_field t")
  case (Some f)
  then have c: "candidate_value base (fst (candidate_of t)) = map_option cow_bytes (pa_get f out)"
    using same_parse_get [OF assms(1), of f] by (simp add: candidate_of_def candidate_single)
  show ?thesis
    using assms Some c by (auto simp: try_timestamp_def candidate_time_def candidate_error_def last_error_def
        same_parse_def candidate_of_def split: option.splits sum.splits)
next
  case None
  obtain out1 where o: "take_spare out = ([], out1)" "same_parse out out1" "pa_timestamp out1 = pa_timestamp out"
    "pa_ts_error out1 = pa_ts_error out" by (simp add: take_spare_def same_parse_def)
  then have sp: "same_parse base out1" using assms(1) by (simp add: same_parse_def)
  obtain ok v where j: "join_fields (ct_fields t) out1 = (ok, v)" by fastforce
  then have c: "candidate_value base (fst (candidate_of t)) = (if ok then Some v else None)"
    using None same_parse_join [OF sp, of "ct_fields t"] by (simp add: candidate_of_def candidate_value_def)
  show ?thesis
  proof (cases ok)
    case True
    with None c o sp j assms show ?thesis
      by (cases "parse_ts v (ct_format t) ctx")
         (simp_all add: try_timestamp_def candidate_time_def candidate_error_def last_error_def same_parse_def
           candidate_of_def give_back_def)
  next
    case False
    with None c o sp j assms show ?thesis
      by (simp add: try_timestamp_def candidate_time_def candidate_error_def last_error_def same_parse_def candidate_of_def give_back_def)
  qed
qed

lemma last_error_Cons: "last_error err ctx out (c # cs) = last_error (last_error err ctx out [c]) ctx out cs"
  by (simp add: last_error_def)

lemma last_error_append: "last_error err ctx out (cs @ ds) = last_error (last_error err ctx out cs) ctx out ds"
  by (simp add: last_error_def)

lemma try_timestamps_spec:
  assumes "same_parse base out" "pa_timestamp out = pa_timestamp base" "pa_ts_error out = pa_ts_error base"
  shows "case first_some (candidate_time ctx base) (map candidate_of ts) of
      Some (t, v) \<Rightarrow> \<exists>q. try_timestamps ctx ts (out, err) = Inl q \<and> same_parse base q \<and>
        pa_timestamp q = Some t \<and> map_option cow_bytes (pa_ts_text q) = Some v \<and> pa_ts_error q = pa_ts_error base
    | None \<Rightarrow> \<exists>q. try_timestamps ctx ts (out, err) = Inr (q, last_error err ctx base (map candidate_of ts)) \<and> same_parse base q \<and>
        pa_timestamp q = pa_timestamp base \<and> pa_ts_error q = pa_ts_error base"
  using assms
proof (induction ts arbitrary: out err)
  case Nil
  then show ?case by (simp add: last_error_def)
next
  case (Cons t ts)
  let ?c = "candidate_of t"
  note s = try_timestamp_spec [OF Cons.prems, of ctx t err]
  show ?case
  proof (cases "candidate_time ctx base ?c")
    case None
    with s obtain q where q: "try_timestamp ctx t (out, err) = Inr (q, last_error err ctx base [?c])" "same_parse base q"
      "pa_timestamp q = pa_timestamp base" "pa_ts_error q = pa_ts_error base" by auto
    have step: "try_timestamps ctx (t # ts) (out, err) = try_timestamps ctx ts (q, last_error err ctx base [?c])"
      using q(1) by simp
    show ?thesis
      using Cons.IH [OF q(2-4), of "last_error err ctx base [?c]"]
      unfolding step list.map first_some.simps(2) None option.case last_error_Cons [of err ctx base ?c "map candidate_of ts"]
      by assumption
  next
    case (Some tv)
    with s show ?thesis by (cases tv) auto
  qed
qed

lemma first_some_append:
  "first_some f (xs @ ys) = (case first_some f xs of Some y \<Rightarrow> Some y | None \<Rightarrow> first_some f ys)"
  by (induction xs) (auto split: option.splits)

lemma resolve_timestamp_spec:
  assumes "pa_ts_error out = None"
  shows "same_parse out (resolve_timestamp ts ctx out) \<and>
    (case first_some (candidate_time ctx out) (candidates ts) of
       Some (t, v) \<Rightarrow> pa_timestamp (resolve_timestamp ts ctx out) = Some t \<and>
         map_option cow_bytes (pa_ts_text (resolve_timestamp ts ctx out)) = Some v \<and>
         pa_ts_error (resolve_timestamp ts ctx out) = None
     | None \<Rightarrow> pa_timestamp (resolve_timestamp ts ctx out) = pa_timestamp out \<and>
         pa_ts_error (resolve_timestamp ts ctx out) = last_error None ctx out (candidates ts))"
proof -
  let ?cs = "map candidate_of ts"
  have self: "same_parse out out" by (simp add: same_parse_def)
  note s = try_timestamps_spec [OF self refl refl, of ctx ts None]
  show ?thesis
  proof (cases "first_some (candidate_time ctx out) ?cs")
    case (Some tv)
    obtain t v where tv: "tv = (t, v)" by fastforce
    with s Some obtain q where "try_timestamps ctx ts (out, None) = Inl q" "same_parse out q"
      "pa_timestamp q = Some t" "map_option cow_bytes (pa_ts_text q) = Some v" "pa_ts_error q = pa_ts_error out" by auto
    with Some tv assms show ?thesis
      by (simp add: resolve_timestamp_def candidates_def first_some_append)
  next
    case None
    with s obtain q where q: "try_timestamps ctx ts (out, None) = Inr (q, last_error None ctx out ?cs)" "same_parse out q"
      "pa_timestamp q = pa_timestamp out" "pa_ts_error q = pa_ts_error out" by auto
    have g: "pa_get ''syslog_timestamp'' q = pa_get ''syslog_timestamp'' out" using same_parse_get [OF q(2)] .
    have c: "candidate_value out [''syslog_timestamp''] = map_option cow_bytes (pa_get ''syslog_timestamp'' out)"
      by (rule candidate_single)
    show ?thesis
    proof (cases "pa_get ''syslog_timestamp'' out")
      case None
      with \<open>first_some _ _ = None\<close> q g c assms show ?thesis
        by (simp add: resolve_timestamp_def candidates_def first_some_append last_error_append candidate_time_def
            candidate_error_def last_error_def same_parse_def)
    next
      case (Some val)
      with None q g c assms show ?thesis
        by (cases "parse_ts (cow_bytes val) Auto ctx")
           (simp_all add: resolve_timestamp_def candidates_def first_some_append last_error_append candidate_time_def
            candidate_error_def last_error_def same_parse_def)
    qed
  qed
qed

subsection \<open>The sub stage keeps every field\<close>

lemma push_owned_extends: "extends out (push_owned fs out)"
proof (induction fs arbitrary: out)
  case (Cons f fs)
  let ?p = "push (Owned (cow_bytes (fd_key f))) (Owned (cow_bytes (fd_value f))) out"
  have "push_owned (f # fs) out = push_owned fs ?p" by (simp add: push_owned_def)
  with extends_trans [OF extends_push Cons.IH] show ?case by simp
qed (simp add: push_owned_def)

lemma push_constants_extends: "extends out (foldl (\<lambda>p (k, v). push (Borrowed k) (Borrowed v) p) out kvs)"
proof (induction kvs arbitrary: out)
  case (Cons kv kvs)
  obtain k v where kv: "kv = (k, v)" by fastforce
  from extends_trans [OF extends_push Cons.IH] show ?case by (simp add: kv)
qed simp

lemma push_constants_pairs:
  "set kvs \<subseteq> set (field_pairs (foldl (\<lambda>p (k, v). push (Borrowed k) (Borrowed v) p) out kvs))"
proof (induction kvs arbitrary: out)
  case (Cons kv kvs)
  obtain k v where kv: "kv = (k, v)" by fastforce
  have "extends (push (Borrowed k) (Borrowed v) out) (foldl (\<lambda>p (k, v). push (Borrowed k) (Borrowed v) p) (push (Borrowed k) (Borrowed v) out) kvs)"
    by (rule push_constants_extends)
  then have "(k, v) \<in> set (field_pairs (foldl (\<lambda>p (k, v). push (Borrowed k) (Borrowed v) p) (push (Borrowed k) (Borrowed v) out) kvs))"
    by (auto simp: extends_def field_pairs_def)
  with Cons.IH [of "push (Borrowed k) (Borrowed v) out"] show ?case by (simp add: kv)
qed simp

lemma apply_sub_extends:
  assumes "apply_sub E sub input out = (ok, q)"
  shows "extends out q"
proof (cases input)
  case (Borrowed b)
  obtain r q1 where r: "apply_strategy E (cs_strategy sub) b out = (r, q1)" by fastforce
  then have "extends out q1" using any.app_extends [of out E "cs_strategy sub" b] by simp
  with assms Borrowed r show ?thesis
    by (auto simp: apply_sub_def extends_rollback split: option.splits)
next
  case (Owned b)
  with assms show ?thesis
    by (auto simp: apply_sub_def push_owned_extends split: option.splits prod.splits)
qed

text \<open>
  What holds after some subs have run: the group states and the fields agree, a matched group
  has added the constants of one of its subs, and an absent field leaves its group at zero.
\<close>

definition has_field :: "bytes \<Rightarrow> parsed \<Rightarrow> bool" where
  "has_field k p \<longleftrightarrow> pa_get k p \<noteq> None"

definition sub_matched :: "compiled_sub list \<Rightarrow> parsed \<Rightarrow> nat \<Rightarrow> bool" where
  "sub_matched subs out g \<longleftrightarrow> (\<exists>s \<in> set subs. cs_group s = g \<and> set (cs_constants s) \<subseteq> set (field_pairs out))"

definition subs_inv :: "nat \<Rightarrow> compiled_sub list \<Rightarrow> parsed \<Rightarrow> nat list \<times> parsed \<Rightarrow> bool" where
  "subs_inv n past base so \<longleftrightarrow>
     length (fst so) = n \<and> extends base (snd so) \<and>
     (\<forall>g < n. fst so ! g = 3 \<longrightarrow> sub_matched past (snd so) g) \<and>
     (\<forall>s \<in> set past. has_field (cs_field s) base \<longrightarrow> 0 < fst so ! cs_group s) \<and>
     (so = (replicate n 0, base) \<or> (\<exists>s \<in> set past. has_field (cs_field s) base)) \<and>
     (\<forall>x \<in> set (fst so). x \<le> 3)"

lemma extends_pairs: "extends p q \<Longrightarrow> set (field_pairs p) \<subseteq> set (field_pairs q)"
  by (auto simp: extends_def field_pairs_def)

lemma sub_matched_more:
  "sub_matched past out g \<Longrightarrow> extends out q \<Longrightarrow> sub_matched (past @ [s]) q g"
  using extends_pairs [of out q] by (fastforce simp: sub_matched_def)

lemma subs_inv_update:
  assumes inv: "subs_inv n past base (state, out)" and g: "cs_group sub < n"
    and found: "has_field (cs_field sub) out" and v: "0 < v" "v \<le> 3" and q: "extends out q"
    and m: "v = 3 \<Longrightarrow> set (cs_constants sub) \<subseteq> set (field_pairs q)"
  shows "subs_inv n (past @ [sub]) base (state[cs_group sub := v], q)"
proof -
  have len: "length state = n" and ext: "extends base out" "extends base q"
    and three: "\<And>g. g < n \<Longrightarrow> state ! g = 3 \<Longrightarrow> sub_matched past out g"
    and pos: "\<And>s. s \<in> set past \<Longrightarrow> has_field (cs_field s) base \<Longrightarrow> 0 < state ! cs_group s"
    and start: "state = replicate n 0 \<and> out = base \<or> (\<exists>s \<in> set past. has_field (cs_field s) base)"
    and le: "\<And>x. x \<in> set state \<Longrightarrow> x \<le> 3"
    using inv extends_trans [OF _ q, of base] by (simp_all add: subs_inv_def)
  have "sub_matched (past @ [sub]) q h" if "h < n" "state[cs_group sub := v] ! h = 3" for h
  proof (cases "h = cs_group sub")
    case True
    with that m g len show ?thesis by (auto simp: sub_matched_def)
  next
    case False
    with that three have "sub_matched past out h" by simp
    with sub_matched_more q show ?thesis by blast
  qed
  moreover have "0 < state[cs_group sub := v] ! cs_group s"
    if "s \<in> set (past @ [sub])" "has_field (cs_field s) base" for s
    using that pos v(1) g len by (cases "cs_group s = cs_group sub") auto
  moreover have "\<exists>s \<in> set (past @ [sub]). has_field (cs_field s) base"
    using start found by auto
  moreover have "x \<le> 3" if "x \<in> set (state[cs_group sub := v])" for x
    using that le v(2) set_update_subset_insert [of state "cs_group sub" v] by auto
  ultimately show ?thesis using len ext by (simp add: subs_inv_def)
qed

lemma subs_inv_skip:
  assumes "subs_inv n past base (state, out)" "cs_group sub < n"
    and "state ! cs_group sub = 3 \<or> \<not> has_field (cs_field sub) out"
  shows "subs_inv n (past @ [sub]) base (state, out)"
proof -
  have "0 < state ! cs_group sub" if "has_field (cs_field sub) base"
    using assms that extends_get [of base out "cs_field sub"] by (auto simp: subs_inv_def has_field_def)
  with assms sub_matched_more [OF _ extends_refl, of past out _ sub] show ?thesis
    by (auto simp: subs_inv_def)
qed

lemma sub_step_inv:
  assumes inv: "subs_inv n past base so" and g: "cs_group sub < n"
  shows "subs_inv n (past @ [sub]) base (sub_step E sub so)"
proof -
  obtain state out where so: "so = (state, out)" by fastforce
  show ?thesis
  proof (cases "state ! cs_group sub = 3 \<or> pa_get (cs_field sub) out = None")
    case True
    then have "sub_step E sub so = so" by (auto simp: sub_step_def so)
    with subs_inv_skip [OF inv [unfolded so] g] True show ?thesis by (simp add: so has_field_def)
  next
    case False
    then obtain input where input: "state ! cs_group sub \<noteq> 3" "pa_get (cs_field sub) out = Some input" by auto
    then have found: "has_field (cs_field sub) out" by (simp add: has_field_def)
    note up = subs_inv_update [OF inv [unfolded so] g found]
    show ?thesis
    proof (cases "sub_gated sub out")
      case False
      have "state ! cs_group sub \<le> 3" using inv g by (simp add: so subs_inv_def)
      then have "subs_inv n (past @ [sub]) base (state[cs_group sub := max (state ! cs_group sub) 1], out)"
        using input(1) by (intro up) auto
      with False input so show ?thesis by (simp add: sub_step_def)
    next
      case True
      obtain ok q where q: "apply_sub E sub input out = (ok, q)" by fastforce
      note e = apply_sub_extends [OF q]
      let ?q = "foldl (\<lambda>p (k, v). push (Borrowed k) (Borrowed v) p) q (cs_constants sub)"
      show ?thesis
      proof (cases ok)
        case ok: True
        have "subs_inv n (past @ [sub]) base (state[cs_group sub := 3], ?q)"
          by (rule up) (use extends_trans [OF e push_constants_extends] push_constants_pairs in simp_all)
        with True ok input q so show ?thesis by (simp add: sub_step_def)
      next
        case False
        have "subs_inv n (past @ [sub]) base (state[cs_group sub := 2], q)"
          by (rule up) (use e in simp_all)
        with True False input q so show ?thesis by (simp add: sub_step_def)
      qed
    qed
  qed
qed

lemma run_subs_inv:
  assumes "\<forall>s \<in> set subs. cs_group s < length subs" "run_subs E subs out = (st, q)"
  obtains state where "subs_inv (length subs) subs out (state, q)" "st = sub_outcome state"
proof -
  have step: "subs_inv n (past @ rest) out (foldl (\<lambda>so sub. sub_step E sub so) so rest)"
    if "subs_inv n past out so" "\<forall>s \<in> set rest. cs_group s < n" for n past so rest
    using that
  proof (induction rest arbitrary: past so)
    case (Cons s rest)
    from Cons.IH [OF sub_step_inv [OF Cons.prems(1)]] Cons.prems show ?case by auto
  qed simp
  have "subs_inv (length subs) [] out (replicate (length subs) 0, out)"
    by (simp add: subs_inv_def)
  from step [OF this assms(1)]
  have inv: "subs_inv (length subs) subs out (foldl (\<lambda>so sub. sub_step E sub so) (replicate (length subs) 0, out) subs)"
    by simp
  obtain state q' where f: "foldl (\<lambda>so sub. sub_step E sub so) (replicate (length subs) 0, out) subs = (state, q')"
    by fastforce
  with assms(2) have "q' = q" "st = sub_outcome state" by (simp_all add: run_subs_def)
  with inv f that show thesis by simp
qed

subsection \<open>Groups of a compiled definition\<close>

lemma collect_results_list_all2:
  "collect_results f xs = Inr ys \<Longrightarrow> list_all2 (\<lambda>x y. f x = Inr y) xs ys"
  by (induction xs arbitrary: ys) (auto split: sum.splits)

lemma compiled_subs:
  assumes "from_definition E d = Inr p"
  shows "length (pr_subs p) = length (pd_sub d)"
    and "i < length (pd_sub d) \<Longrightarrow> cs_group (pr_subs p ! i) = sub_group (pd_sub d) i \<and>
      cs_field (pr_subs p ! i) = or_else (sd_field (pd_sub d ! i)) []"
proof -
  from assms have "collect_results (\<lambda>(i, s). map_err (\<lambda>e. ''[[sub]] #'' @ dec (i + 1) @ '': '' @ e)
      (compile_sub (en_regex E) s (sub_group (pd_sub d) i))) (List.enumerate 0 (pd_sub d)) = Inr (pr_subs p)"
    by (auto simp: from_definition_def split: sum.splits)
  then have l: "list_all2 (\<lambda>(i, s) c. map_err (\<lambda>e. ''[[sub]] #'' @ dec (i + 1) @ '': '' @ e)
      (compile_sub (en_regex E) s (sub_group (pd_sub d) i)) = Inr c) (List.enumerate 0 (pd_sub d)) (pr_subs p)"
    using collect_results_list_all2 by (fastforce elim: list_all2_mono)
  then show len: "length (pr_subs p) = length (pd_sub d)" by (auto dest: list_all2_lengthD)
  show "cs_group (pr_subs p ! i) = sub_group (pd_sub d) i \<and>
      cs_field (pr_subs p ! i) = or_else (sd_field (pd_sub d ! i)) []" if "i < length (pd_sub d)"
    using list_all2_nthD [OF l, of i] that len
    by (cases "compile_strategy (en_regex E) (pd_sub d ! i) True"; cases "pr_subs p ! i")
       (auto simp: nth_enumerate_eq map_err_def compile_sub_def)
qed

lemma sub_group_bound: "sub_group subs i \<le> i"
  by (cases "position (\<lambda>p. sd_field p = sd_field (subs ! i)) (take i subs)")
     (auto simp: sub_group_def or_else_def dest: position_SomeD)

lemma sub_group_field: "i < length subs \<Longrightarrow> sd_field (subs ! sub_group subs i) = sd_field (subs ! i)"
  by (cases "position (\<lambda>p. sd_field p = sd_field (subs ! i)) (take i subs)")
     (auto simp: sub_group_def or_else_def dest: position_SomeD)

lemma compiled_groups:
  assumes "from_definition E d = Inr p"
  shows "\<forall>s \<in> set (pr_subs p). cs_group s < length (pr_subs p)"
    and "\<forall>s \<in> set (pr_subs p). \<forall>s' \<in> set (pr_subs p). cs_group s = cs_group s' \<longrightarrow> cs_field s = cs_field s'"
proof -
  note c = compiled_subs [OF assms]
  show "\<forall>s \<in> set (pr_subs p). cs_group s < length (pr_subs p)"
    using c sub_group_bound [of "pd_sub d"] by (auto simp: in_set_conv_nth) (metis le_less_trans)
  show "\<forall>s \<in> set (pr_subs p). \<forall>s' \<in> set (pr_subs p). cs_group s = cs_group s' \<longrightarrow> cs_field s = cs_field s'"
    using c sub_group_field [of _ "pd_sub d"] by (auto simp: in_set_conv_nth) metis
qed

text \<open>
  The sub stage reports what it did, for every parser that compiles: it only adds fields;
  it says not applicable exactly when no field it re-parses is present; and when it says matched,
  every such field was matched by an alternative for it whose constants are in the output.
\<close>

theorem sub_status_sound:
  assumes "from_definition E d = Inr p" and "run_subs E (pr_subs p) out = (st, q)"
  shows "extends out q \<and>
    (st = NotApplicable \<longleftrightarrow> (\<forall>s \<in> set (pr_subs p). pa_get (cs_field s) out = None)) \<and>
    (st = SubMatched \<longrightarrow> (\<forall>s \<in> set (pr_subs p). pa_get (cs_field s) out \<noteq> None \<longrightarrow>
      (\<exists>s' \<in> set (pr_subs p). cs_field s' = cs_field s \<and> set (cs_constants s') \<subseteq> set (field_pairs q))))"
proof (intro conjI impI ballI)
  note g = compiled_groups [OF assms(1)]
  obtain state where inv: "subs_inv (length (pr_subs p)) (pr_subs p) out (state, q)" and st: "st = sub_outcome state"
    using run_subs_inv [OF g(1) assms(2)] by blast
  then have len: "length state = length (pr_subs p)"
    and three: "\<And>g. g < length (pr_subs p) \<Longrightarrow> state ! g = 3 \<Longrightarrow> sub_matched (pr_subs p) q g"
    and pos: "\<And>s. s \<in> set (pr_subs p) \<Longrightarrow> has_field (cs_field s) out \<Longrightarrow> 0 < state ! cs_group s"
    and start: "state = replicate (length (pr_subs p)) 0 \<or> (\<exists>s \<in> set (pr_subs p). has_field (cs_field s) out)"
    and le: "\<And>x. x \<in> set state \<Longrightarrow> x \<le> 3"
    by (auto simp: subs_inv_def)
  have mem: "state ! cs_group s \<in> set state" if "s \<in> set (pr_subs p)" for s
    using that g(1) len by simp
  show "extends out q" using inv by (simp add: subs_inv_def)
  show "st = NotApplicable \<longleftrightarrow> (\<forall>s \<in> set (pr_subs p). pa_get (cs_field s) out = None)"
  proof
    assume "st = NotApplicable"
    then have "x = 0" if "x \<in> set state" for x
      using le [OF that] that by (auto simp: st sub_outcome_def le_Suc_eq numeral_eq_Suc split: if_splits)
    with mem pos show "\<forall>s \<in> set (pr_subs p). pa_get (cs_field s) out = None"
      by (metis has_field_def less_irrefl)
  next
    assume "\<forall>s \<in> set (pr_subs p). pa_get (cs_field s) out = None"
    with start have "state = replicate (length (pr_subs p)) 0" by (auto simp: has_field_def)
    then show "st = NotApplicable" by (auto simp: st sub_outcome_def)
  qed
  show "\<exists>s' \<in> set (pr_subs p). cs_field s' = cs_field s \<and> set (cs_constants s') \<subseteq> set (field_pairs q)"
    if "st = SubMatched" "s \<in> set (pr_subs p)" "pa_get (cs_field s) out \<noteq> None" for s
  proof -
    have "0 < state ! cs_group s" "state ! cs_group s \<le> 3"
      using that(2,3) pos le mem by (auto simp: has_field_def)
    moreover have "1 \<notin> set state" "2 \<notin> set state"
      using that(1) by (auto simp: st sub_outcome_def split: if_splits)
    then have "state ! cs_group s \<noteq> 1" "state ! cs_group s \<noteq> 2" using mem [OF that(2)] by metis+
    ultimately have "state ! cs_group s = 3" by linarith
    with three g that(2) obtain s' where "s' \<in> set (pr_subs p)" "cs_group s' = cs_group s"
      "set (cs_constants s') \<subseteq> set (field_pairs q)" unfolding sub_matched_def by blast
    with g(2) that(2) show ?thesis by metis
  qed
qed

subsection \<open>A concrete parser\<close>

text \<open>
  A key/value definition with an envelope, a timestamp and a sub, over engines that match
  nothing: what the example evaluations below run on.
\<close>

definition no_engines :: engines where
  "no_engines = \<lparr>en_regex = \<lparr>rx_names = (\<lambda>_. Inr [None]), rx_captures = (\<lambda>_ _. None), rx_escape = (\<lambda>b. [b])\<rparr>,
     en_serde = (\<lambda>_. None), en_xml = (\<lambda>_. [])\<rparr>"

definition plain_strategy :: "strategy_kind \<Rightarrow> strategy_def" where
  "plain_strategy k = \<lparr>sd_kind = k, sd_kv_sep = None, sd_pair_sep = None, sd_quote = None, sd_delimiter = None,
     sd_fields = [], sd_rest = None, sd_pattern = None, sd_patterns = [], sd_regex = None, sd_anchor = None,
     sd_field = None, sd_when = [], sd_constants = []\<rparr>"

definition sample_def :: parser_def where
  "sample_def = \<lparr>pd_name = ''sample'', pd_vendor = ''v'', pd_product = ''p'', pd_version = 1,
     pd_matcher = \<lparr>md_contains = [''type=''], md_starts_with = None, md_regex = None, md_priority = 0\<rparr>,
     pd_syslog = True, pd_strategy = plain_strategy SKv,
     pd_timestamp = [\<lparr>tp_field = None, tp_fields = [''date'', ''time''], tp_format = ''auto''\<rparr>],
     pd_sub = [(plain_strategy SDelimiter)\<lparr>sd_field := Some ''cols'', sd_delimiter := Some '','',
                 sd_fields := [''a'', ''b''], sd_when := [(''type'', One ''x'')], sd_constants := [(''layout'', ''x'')]\<rparr>]\<rparr>"

definition sample_parser :: parser where
  "sample_parser = projr (from_definition no_engines sample_def)"

lemma sample_compiles: "from_definition no_engines sample_def = Inr sample_parser"
proof -
  have "\<not> isl (from_definition no_engines sample_def)" by code_simp
  then show ?thesis by (simp add: sample_parser_def)
qed

theorem sub_status_sound_witness:
  "\<exists>q. run_subs no_engines (pr_subs sample_parser)
        (push (Borrowed ''cols'') (Borrowed ''1,2'') (push (Borrowed ''type'') (Borrowed ''x'') parsed_default)) = (SubMatched, q) \<and>
      (\<exists>s' \<in> set (pr_subs sample_parser). cs_field s' = ''cols'' \<and> set (cs_constants s') \<subseteq> set (field_pairs q)) \<and>
      field_pairs q = [(''type'', ''x''), (''cols'', ''1,2''), (''a'', ''1''), (''b'', ''2''), (''layout'', ''x'')]"
proof -
  let ?out = "push (Borrowed ''cols'') (Borrowed ''1,2'') (push (Borrowed ''type'') (Borrowed ''x'') parsed_default)"
  obtain st q where r: "run_subs no_engines (pr_subs sample_parser) ?out = (st, q)" by fastforce
  have "fst (run_subs no_engines (pr_subs sample_parser) ?out) = SubMatched" by code_simp
  then have st: "st = SubMatched" using r by simp
  have "field_pairs (snd (run_subs no_engines (pr_subs sample_parser) ?out))
    = [(''type'', ''x''), (''cols'', ''1,2''), (''a'', ''1''), (''b'', ''2''), (''layout'', ''x'')]" by code_simp
  then have q: "field_pairs q = [(''type'', ''x''), (''cols'', ''1,2''), (''a'', ''1''), (''b'', ''2''), (''layout'', ''x'')]"
    using r by simp
  have one: "length (pr_subs sample_parser) = 1" "cs_field (hd (pr_subs sample_parser)) = ''cols''" by code_simp+
  then have mem: "hd (pr_subs sample_parser) \<in> set (pr_subs sample_parser)" by (cases "pr_subs sample_parser") auto
  have "pa_get ''cols'' ?out \<noteq> None" by (simp add: pa_get_def field_of_def parsed_default_def)
  with sub_status_sound [OF sample_compiles r] st mem one(2)
  have "\<exists>s' \<in> set (pr_subs sample_parser). cs_field s' = ''cols'' \<and> set (cs_constants s') \<subseteq> set (field_pairs q)"
    by fastforce
  with r st q show ?thesis by blast
qed

subsection \<open>Parsing an event\<close>

lemma trim_line_end_split: "\<exists>post. s = trim_line_end s @ post \<and> set post \<subseteq> {CHR 0x0A, CHR 0x0D}"
proof (intro exI conjI)
  let ?P = "\<lambda>b. b = CHR 0x0A \<or> b = CHR 0x0D"
  show "s = trim_line_end s @ rev (takeWhile ?P (rev s))"
    unfolding trim_line_end_def by (metis rev_append rev_rev_ident takeWhile_dropWhile_id)
  show "set (rev (takeWhile ?P (rev s))) \<subseteq> {CHR 0x0A, CHR 0x0D}"
    using set_takeWhileD by fastforce
qed

lemma parse_start_clear:
  "pa_timestamp (snd (parse_start E p event out)) = None" "pa_ts_error (snd (parse_start E p event out)) = None"
  "pa_sub (snd (parse_start E p event out)) = NotApplicable"
  using strip_syslog_extends [of "pa_clear out"] by (simp_all add: parse_start_def extends_def)

text \<open>The output before the event time is resolved.\<close>

lemma parse_event_stages:
  obtains out3 r where "parse_event E p event ctx out = (r, resolve_timestamp (pr_timestamps p) ctx out3)"
    "\<exists>fs. pa_fields out3 = pa_fields (snd (parse_start E p event out)) @ fs"
    "pa_timestamp out3 = None" "pa_ts_error out3 = None"
    "r \<noteq> None \<Longrightarrow> pa_fields out3 = pa_fields (snd (parse_start E p event out)) \<and> pa_sub out3 = NotApplicable"
proof -
  obtain body out1 where s: "parse_start E p event out = (body, out1)" by fastforce
  note c = parse_start_clear [of E p event out, unfolded s, simplified]
  obtain r out2 where a: "apply_strategy E (pr_strategy p) body out1 = (r, out2)" by fastforce
  have e: "extends out1 out2" "r \<noteq> None \<Longrightarrow> pa_fields out2 = pa_fields out1"
    using any.app_extends [of out1 E "pr_strategy p" body] any.app_clean [of E "pr_strategy p" body out1] a by auto
  show thesis
  proof (cases "r = None \<and> pr_subs p \<noteq> []")
    case True
    obtain st q where q: "run_subs E (pr_subs p) out2 = (st, q)" by fastforce
    have "extends out2 q"
    proof -
      have "extends o1 (snd (foldl (\<lambda>so sub. sub_step E sub so) (state, o1) subs))" for state o1 subs
      proof (induction subs arbitrary: state o1)
        case (Cons sub subs)
        obtain state' o2 where st: "sub_step E sub (state, o1) = (state', o2)" by fastforce
        have "extends o1 o2"
          using st by (auto simp: sub_step_def dest!: apply_sub_extends
              intro: extends_trans [OF _ push_constants_extends] split: if_splits option.splits prod.splits bool.splits)
        with Cons.IH [of o2 state'] st extends_trans show ?case by fastforce
      qed simp
      from this [of out2 "replicate (length (pr_subs p)) 0" "pr_subs p"] q show ?thesis
        by (simp add: run_subs_def split: prod.splits)
    qed
    with e(1) have "extends out1 q" by (rule extends_trans)
    then have x: "\<exists>fs. pa_fields q = pa_fields out1 @ fs" "pa_timestamp q = None" "pa_ts_error q = None"
      using c by (auto simp: extends_def)
    show thesis
      by (rule that [of r "q\<lparr>pa_sub := st\<rparr>"]) (use True s a q x in \<open>simp_all add: parse_event_def Let_def\<close>)
  next
    case False
    then show thesis
      by (intro that [of r out2]) (use s a e c in \<open>auto simp: parse_event_def Let_def extends_def\<close>)
  qed
qed

text \<open>
  C14. A parse never loses any of the event. Without the envelope option the strategy is given the event less its line
  end, whole, and no field is there before it. With it the strategy is given what is behind the envelope, and
  every byte in front of that is in the value of a field the envelope added, or is one that only separates values
  (\<open>envelope_glue\<close>). The envelope's fields stay in front of whatever the strategy adds; and when the strategy fails
  nothing but them is there, whatever a reused output held before.
\<close>

theorem parse_keeps_event:
  assumes "parse_start E p event out = (body, out1)" and "parse_event E p event ctx out = (r, q)"
  shows "(\<exists>post. event = trim_line_end event @ post \<and> set post \<subseteq> {CHR 0x0A, CHR 0x0D}) \<and>
    (if pd_syslog (pr_def p) then strips out1 (trim_line_end event) body else body = trim_line_end event \<and> pa_fields out1 = []) \<and>
    (\<exists>fs. pa_fields q = pa_fields out1 @ fs) \<and>
    (r \<noteq> None \<longrightarrow> pa_fields q = pa_fields out1 \<and> pa_sub q = NotApplicable)"
proof -
  obtain out3 r' where o: "parse_event E p event ctx out = (r', resolve_timestamp (pr_timestamps p) ctx out3)"
    "\<exists>fs. pa_fields out3 = pa_fields (snd (parse_start E p event out)) @ fs" "pa_ts_error out3 = None"
    "r' \<noteq> None \<Longrightarrow> pa_fields out3 = pa_fields (snd (parse_start E p event out)) \<and> pa_sub out3 = NotApplicable"
    by (rule parse_event_stages [of E p event ctx out]) blast
  have "same_parse out3 q" using resolve_timestamp_spec [OF o(3)] o(1) assms(2) by auto
  moreover have "if pd_syslog (pr_def p) then strips out1 (trim_line_end event) body else body = trim_line_end event \<and> pa_fields out1 = []"
    using assms(1) strip_syslog_strips by (auto simp: parse_start_def pa_clear_def split: if_splits)
  ultimately show ?thesis using o assms trim_line_end_split [of event] by (auto simp: same_parse_def)
qed

theorem parse_keeps_event_witness:
  "\<exists>q. parse_event no_engines sample_parser ''<13>nothing here'' \<lparr>ctx_receipt = 0, ctx_offset = 0\<rparr>
        (push (Borrowed ''stale'') (Borrowed ''1'') parsed_default) = (Some NoPairs, q) \<and>
      field_pairs q = [(''syslog_pri'', ''13''), (''syslog_facility'', ''1''), (''syslog_severity'', ''5'')]"
proof -
  let ?ctx = "\<lparr>ctx_receipt = 0, ctx_offset = 0\<rparr>"
  let ?out = "push (Borrowed ''stale'') (Borrowed ''1'') parsed_default"
  obtain body out1 where s: "parse_start no_engines sample_parser ''<13>nothing here'' ?out = (body, out1)" by fastforce
  obtain r q where r: "parse_event no_engines sample_parser ''<13>nothing here'' ?ctx ?out = (r, q)" by fastforce
  have "fst (parse_event no_engines sample_parser ''<13>nothing here'' ?ctx ?out) = Some NoPairs" by code_simp
  with r have f: "r = Some NoPairs" by simp
  have "field_pairs (snd (parse_start no_engines sample_parser ''<13>nothing here'' ?out))
    = [(''syslog_pri'', ''13''), (''syslog_facility'', ''1''), (''syslog_severity'', ''5'')]" by code_simp
  with s have "field_pairs out1 = [(''syslog_pri'', ''13''), (''syslog_facility'', ''1''), (''syslog_severity'', ''5'')]" by simp
  moreover have "pa_fields q = pa_fields out1" using parse_keeps_event [OF s r] f by simp
  ultimately show ?thesis using r f by (simp add: field_pairs_def)
qed

text \<open>
  The event time is the first candidate that parses: of the definition's candidates in
  order and then the syslog header's, the first whose fields are all present and whose text
  parses gives the time and its text; if none does there is no time, and the error is that of
  the last candidate that was present.
\<close>

theorem event_time_first_candidate:
  "(let q = snd (parse_event E p event ctx out) in
    case first_some (candidate_time ctx q) (candidates (pr_timestamps p)) of
      Some (t, v) \<Rightarrow> pa_timestamp q = Some t \<and> map_option cow_bytes (pa_ts_text q) = Some v \<and> pa_ts_error q = None
    | None \<Rightarrow> pa_timestamp q = None \<and> pa_ts_error q = last_error None ctx q (candidates (pr_timestamps p)))"
proof -
  obtain out3 r where o: "parse_event E p event ctx out = (r, resolve_timestamp (pr_timestamps p) ctx out3)"
    "pa_timestamp out3 = None" "pa_ts_error out3 = None" by (rule parse_event_stages [of E p event ctx out])
  let ?q = "resolve_timestamp (pr_timestamps p) ctx out3"
  note s = resolve_timestamp_spec [OF o(3), of "pr_timestamps p" ctx]
  then have "candidate_time ctx ?q = candidate_time ctx out3" "candidate_error ctx ?q = candidate_error ctx out3"
    using same_parse_candidate by blast+
  moreover from this(2) have "last_error None ctx ?q cs = last_error None ctx out3 cs" for cs
    by (simp add: last_error_def)
  ultimately show ?thesis using s o by (simp add: Let_def split: option.splits prod.splits)
qed

lemma parse_example:
  "field_pairs (snd (parse_event no_engines sample_parser (''type=x date=2026-03-01 time=10:00:00 cols=1,2'' @ [CHR 0x0A])
      \<lparr>ctx_receipt = 0, ctx_offset = 0\<rparr> parsed_default))
    = [(''type'', ''x''), (''date'', ''2026-03-01''), (''time'', ''10:00:00''), (''cols'', ''1,2''),
       (''a'', ''1''), (''b'', ''2''), (''layout'', ''x'')]"
  by code_simp

end
