(* ===== verification/Ulpf_Detect.thy ===== *)
theory Ulpf_Detect
  imports Ulpf_Parser
begin

text \<open>
  Signature detection and loading, \<open>src/crates/ulpf-parse/src/detect.rs\<close> and \<open>load.rs\<close>:
  \<open>CompiledMatcher::matches\<close>, \<open>Registry::new\<close>, \<open>Registry::detect\<close>, \<open>load_str\<close> and
  \<open>load_dir\<close>. Reading a directory or a file and the \<open>toml\<close> crate are parameters.
\<close>

definition matcher_matches :: "regex_engine \<Rightarrow> compiled_matcher \<Rightarrow> bytes \<Rightarrow> bool" where
  "matcher_matches E m event \<longleftrightarrow>
     (case cm_starts_with m of Some p \<Rightarrow> prefix p event | None \<Rightarrow> True) \<and>
     list_all (\<lambda>f. memmem f event \<noteq> None) (cm_finders m) \<and>
     (case cm_regex m of None \<Rightarrow> True | Some r \<Rightarrow> rx_captures E r event \<noteq> None)"

definition parser_matches :: "regex_engine \<Rightarrow> parser \<Rightarrow> bytes \<Rightarrow> bool" where
  "parser_matches E p event = matcher_matches E (pr_matcher p) event"

definition parser_name :: "parser \<Rightarrow> bytes" where
  "parser_name p = pd_name (pr_def p)"

definition parser_priority :: "parser \<Rightarrow> int" where
  "parser_priority p = md_priority (pd_matcher (pr_def p))"

record registry =
  rg_parsers :: "parser list"
  rg_order :: "nat list"
  rg_top :: int

text \<open>\<open>sort_by\<close> is stable, as is \<open>sort_key\<close>: higher priority first, then by name.\<close>

definition registry_new :: "parser list \<Rightarrow> registry" where
  "registry_new ps =
     \<lparr>rg_parsers = ps,
      rg_order = sort_key (\<lambda>i. (- parser_priority (ps ! i), parser_name (ps ! i))) [0..<length ps],
      rg_top = (if ps = [] then 0 else Max (set (map parser_priority ps)))\<rparr>"

definition hint_taken :: "regex_engine \<Rightarrow> registry \<Rightarrow> bytes \<Rightarrow> nat \<Rightarrow> bool" where
  "hint_taken E reg event h \<longleftrightarrow>
     h < length (rg_parsers reg) \<and> parser_priority (rg_parsers reg ! h) = rg_top reg \<and>
     parser_matches E (rg_parsers reg ! h) event"

definition detect :: "regex_engine \<Rightarrow> registry \<Rightarrow> bytes \<Rightarrow> nat option \<Rightarrow> nat option" where
  "detect E reg event hint =
     (if (case hint of Some h \<Rightarrow> hint_taken E reg event h | None \<Rightarrow> False) then hint
      else find (\<lambda>i. parser_matches E (rg_parsers reg ! i) event) (rg_order reg))"

subsection \<open>Loading\<close>

record load_error =
  le_path :: bytes
  le_line :: "nat option"
  le_message :: bytes

record load_report =
  lr_parsers :: "parser list"
  lr_errors :: "load_error list"

text \<open>
  The \<open>toml\<close> crate: a definition, or an error with the start of its span, if any, and its
  message. The line is one more than the line ends before the span.
\<close>

type_synonym toml_reader = "bytes \<Rightarrow> (nat option \<times> bytes) + parser_def"

definition load_str :: "engines \<Rightarrow> toml_reader \<Rightarrow> bytes \<Rightarrow> bytes \<Rightarrow> load_error + parser" where
  "load_str E toml path content =
     (case toml content of
        Inl (start, message) \<Rightarrow>
          Inl \<lparr>le_path = path,
               le_line = map_option (\<lambda>s. length (filter (\<lambda>b. b = CHR 0x0A) (take (min s (length content)) content)) + 1) start,
               le_message = message\<rparr>
      | Inr d \<Rightarrow>
          (case from_definition E d of
             Inl message \<Rightarrow> Inl \<lparr>le_path = path, le_line = None, le_message = message\<rparr>
           | Inr p \<Rightarrow> Inr p))"

definition is_toml :: "bytes \<Rightarrow> bool" where
  "is_toml name \<longleftrightarrow> suffix ''.toml'' name \<and> 5 < length name"

text \<open>One file: at most one parser or one error is added.\<close>

definition load_file ::
  "engines \<Rightarrow> toml_reader \<Rightarrow> (bytes \<Rightarrow> bytes + bytes) \<Rightarrow> load_report \<Rightarrow> bytes \<Rightarrow> load_report" where
  "load_file E toml read report path =
     (case read path of
        Inl e \<Rightarrow> report\<lparr>lr_errors := lr_errors report @
                   [\<lparr>le_path = path, le_line = None, le_message = ''cannot read: '' @ e\<rparr>]\<rparr>
      | Inr content \<Rightarrow>
          (case load_str E toml path content of
             Inr p \<Rightarrow>
               if list_ex (\<lambda>q. parser_name q = parser_name p) (lr_parsers report)
               then report\<lparr>lr_errors := lr_errors report @
                      [\<lparr>le_path = path, le_line = None,
                        le_message = ''duplicate parser name `'' @ parser_name p @ ''`''\<rparr>]\<rparr>
               else report\<lparr>lr_parsers := lr_parsers report @ [p]\<rparr>
           | Inl e \<Rightarrow> report\<lparr>lr_errors := lr_errors report @ [e]\<rparr>))"

definition load_dir :: "engines \<Rightarrow> toml_reader \<Rightarrow> (bytes \<Rightarrow> bytes + bytes) \<Rightarrow> bytes list \<Rightarrow> load_report" where
  "load_dir E toml read entries =
     foldl (load_file E toml read) \<lparr>lr_parsers = [], lr_errors = []\<rparr> (sort (filter is_toml entries))"

subsection \<open>Detection picks the first match in order\<close>

lemma find_Some_sorted:
  assumes "find P xs = Some x" "sorted (map f xs)" "y \<in> set xs" "P y"
  shows "f x \<le> (f y :: 'b :: linorder)"
  using assms
proof (induction xs)
  case (Cons z xs)
  show ?case
  proof (cases "P z")
    case True
    with Cons.prems show ?thesis by auto
  next
    case False
    with Cons show ?thesis by auto
  qed
qed simp

lemma detect_order:
  assumes "find (\<lambda>i. parser_matches E (ps ! i) event) (rg_order (registry_new ps)) = Some i" "j < length ps"
    "parser_matches E (ps ! j) event"
  shows "parser_priority (ps ! j) < parser_priority (ps ! i) \<or>
    parser_priority (ps ! j) = parser_priority (ps ! i) \<and> parser_name (ps ! i) \<le> parser_name (ps ! j)"
proof -
  let ?f = "\<lambda>i. (- parser_priority (ps ! i), parser_name (ps ! i))"
  have "?f i \<le> ?f j"
    using assms by (intro find_Some_sorted [where P = "\<lambda>i. parser_matches E (ps ! i) event"])
      (auto simp: registry_new_def)
  then show ?thesis by (auto simp: less_eq_prod_def)
qed

lemma registry_parsers: "rg_parsers (registry_new ps) = ps"
  by (simp add: registry_new_def)

text \<open>
  C39. Detection answers every event with a parser that matches it if there is one, and never
  with one of a lower priority than another that matches, whatever hint the engine passes;
  without a hint the first by name is taken among equals.
\<close>

theorem detect_highest_priority:
  "(case detect E (registry_new ps) event hint of
      None \<Rightarrow> \<not> list_ex (\<lambda>p. parser_matches E p event) ps
    | Some i \<Rightarrow> i < length ps \<and> parser_matches E (ps ! i) event \<and>
        list_all (\<lambda>p. \<not> parser_matches E p event \<or> parser_priority p < parser_priority (ps ! i) \<or>
          parser_priority p = parser_priority (ps ! i) \<and> (hint \<noteq> None \<or> parser_name (ps ! i) \<le> parser_name p)) ps)"
proof (cases "case hint of Some h \<Rightarrow> hint_taken E (registry_new ps) event h | None \<Rightarrow> False")
  case True
  then obtain h where h: "hint = Some h" "h < length ps" "parser_priority (ps ! h) = rg_top (registry_new ps)"
    "parser_matches E (ps ! h) event"
    by (auto simp: hint_taken_def registry_new_def split: option.splits)
  have "parser_priority p \<le> parser_priority (ps ! h)" if "p \<in> set ps" for p
    using that h(2,3) by (auto simp: registry_new_def intro!: Max_ge split: if_splits)
  with h True show ?thesis by (auto simp: detect_def list_all_iff order.order_iff_strict)
next
  case False
  let ?P = "\<lambda>i. parser_matches E (ps ! i) event"
  have d: "detect E (registry_new ps) event hint = find ?P (rg_order (registry_new ps))"
    using False by (simp add: detect_def registry_parsers)
  have set: "set (rg_order (registry_new ps)) = {0..<length ps}" by (simp add: registry_new_def)
  show ?thesis
  proof (cases "find ?P (rg_order (registry_new ps))")
    case None
    then have "\<not> ?P i" if "i < length ps" for i
      using that set by (auto simp: find_None_iff)
    then show ?thesis by (auto simp: d None list_ex_iff in_set_conv_nth)
  next
    case (Some i)
    then have "i \<in> set (rg_order (registry_new ps))" "?P i" by (auto simp: find_Some_iff)
    with set detect_order [OF Some] show ?thesis
      by (auto simp: d Some list_all_length)
  qed
qed

definition urgent_parser :: parser where
  "urgent_parser = sample_parser\<lparr>pr_def := sample_def\<lparr>pd_name := ''urgent'', pd_matcher :=
     \<lparr>md_contains = [''type=''], md_starts_with = None, md_regex = None, md_priority = 5\<rparr>\<rparr>\<rparr>"

theorem detect_highest_priority_witness:
  "detect (en_regex no_engines) (registry_new [sample_parser, urgent_parser]) ''type=1'' (Some 0) = Some 1"
proof -
  let ?ps = "[sample_parser, urgent_parser]"
  let ?R = "en_regex no_engines"
  have m: "parser_matches ?R sample_parser ''type=1''" "parser_matches ?R urgent_parser ''type=1''" by code_simp+
  have p: "parser_priority sample_parser = 0" "parser_priority urgent_parser = 5" by code_simp+
  note t = detect_highest_priority [where E = "?R" and ps = "?ps" and event = "''type=1''" and hint = "Some 0"]
  then obtain i where i: "detect ?R (registry_new ?ps) ''type=1'' (Some 0) = Some i" using m
    by (cases "detect ?R (registry_new ?ps) ''type=1'' (Some 0)") auto
  with t m p have "i < 2" "5 \<le> parser_priority (?ps ! i)" by auto
  with p have "i = 1" by (cases i) (auto simp: less_Suc_eq numeral_2_eq_2)
  with i show ?thesis by simp
qed

subsection \<open>Loading accounts for every file\<close>

definition report_ok :: "engines \<Rightarrow> toml_reader \<Rightarrow> (bytes \<Rightarrow> bytes + bytes) \<Rightarrow> bytes list \<Rightarrow> load_report \<Rightarrow> bool" where
  "report_ok E toml read paths r \<longleftrightarrow>
     distinct (map parser_name (lr_parsers r)) \<and>
     length (lr_parsers r) + length (lr_errors r) = length paths \<and>
     (\<forall>p \<in> set (lr_parsers r). \<exists>path \<in> set paths. \<exists>c. read path = Inr c \<and> load_str E toml path c = Inr p) \<and>
     le_path ` set (lr_errors r) \<subseteq> set paths"

lemma load_str_path: "load_str E toml path c = Inl e \<Longrightarrow> le_path e = path"
  by (auto simp: load_str_def split: sum.splits)

lemma load_file_ok:
  "report_ok E toml read paths r \<Longrightarrow> report_ok E toml read (paths @ [path]) (load_file E toml read r path)"
  by (auto simp: report_ok_def load_file_def list_ex_iff dest: load_str_path split: sum.splits)

lemma load_fold_ok:
  "report_ok E toml read past r \<Longrightarrow> report_ok E toml read (past @ paths) (foldl (load_file E toml read) r paths)"
proof (induction paths arbitrary: past r)
  case (Cons path paths)
  from Cons.IH [OF load_file_ok [OF Cons.prems]] show ?case by simp
qed simp

text \<open>
  Loading a directory accounts for every definition file: each gives exactly one parser
  or one reported error, a bad file keeps no other from loading, every parser came from a
  file that compiled, and no two parsers share a name.
\<close>

theorem load_accounts_for_files:
  "(let r = load_dir E toml read entries; files = filter is_toml entries in
    length (lr_parsers r) + length (lr_errors r) = length files \<and>
    distinct (map parser_name (lr_parsers r)) \<and>
    list_all (\<lambda>e. le_path e \<in> set files) (lr_errors r) \<and>
    list_all (\<lambda>p. \<exists>path c. path \<in> set files \<and> read path = Inr c \<and> load_str E toml path c = Inr p) (lr_parsers r))"
proof -
  have "report_ok E toml read [] \<lparr>lr_parsers = [], lr_errors = []\<rparr>" by (simp add: report_ok_def)
  from load_fold_ok [OF this, of "sort (filter is_toml entries)"]
  have "report_ok E toml read (sort (filter is_toml entries)) (load_dir E toml read entries)"
    by (simp add: load_dir_def)
  then show ?thesis by (fastforce simp: report_ok_def Let_def list_all_iff)
qed

end
