(* ===== verification/Ulpf_Value.thy ===== *)
theory Ulpf_Value
  imports Ulpf_Time_Parse
begin

text \<open>
  JSON values as the normaliser builds them, \<open>set_path\<close>, \<open>as_int\<close>, \<open>unmapped_insert\<close>,
  \<open>lossy\<close> and \<open>toml_to_json\<close> of \<open>src/crates/ulpf-normalize/src/mapping.rs\<close>. An object is an
  association list with one entry per key; the order of entries carries no meaning.
  A float keeps the text it prints as. \<open>String::from_utf8_lossy\<close> is the standard library's.
\<close>

datatype jvalue =
  VNull | VBool bool | VInt int | VFloat bytes | VStr bytes | VArr "jvalue list" | VObj "(bytes \<times> jvalue) list"

type_synonym obj = "(bytes \<times> jvalue) list"

fun obj_put :: "bytes \<Rightarrow> jvalue \<Rightarrow> obj \<Rightarrow> obj" where
  "obj_put k v [] = [(k, v)]"
| "obj_put k v ((k', v') # o1) = (if k' = k then (k, v) # o1 else (k', v') # obj_put k v o1)"

definition obj_remove :: "bytes \<Rightarrow> obj \<Rightarrow> obj" where
  "obj_remove k o1 = filter (\<lambda>(k', _). k' \<noteq> k) o1"

lemma obj_put_get [simp]: "map_of (obj_put k v o1) = (map_of o1)(k \<mapsto> v)"
  by (induction o1) (auto simp: fun_eq_iff)

lemma obj_remove_get: "map_of (obj_remove k o1) = (map_of o1)(k := None)"
  by (induction o1) (auto simp: obj_remove_def fun_eq_iff)

lemma obj_put_length: "length (obj_put k v o1) = length o1 + (if map_of o1 k = None then 1 else 0)"
  by (induction o1) auto

subsection \<open>Dotted paths\<close>

definition path_parts :: "bytes \<Rightarrow> bytes list" where
  "path_parts path = split_on (CHR ''.'') path"

definition as_object :: "jvalue option \<Rightarrow> obj" where
  "as_object v = (case v of Some (VObj o1) \<Rightarrow> o1 | _ \<Rightarrow> [])"

text \<open>Intermediate objects are created, and whatever else stands in the way is replaced.\<close>

fun set_at :: "obj \<Rightarrow> bytes list \<Rightarrow> jvalue \<Rightarrow> obj" where
  "set_at o1 [] v = o1"
| "set_at o1 [p] v = obj_put p v o1"
| "set_at o1 (p # q # r) v = obj_put p (VObj (set_at (as_object (map_of o1 p)) (q # r) v)) o1"

definition set_path :: "obj \<Rightarrow> bytes \<Rightarrow> jvalue \<Rightarrow> obj" where
  "set_path o1 path v = set_at o1 (path_parts path) v"

fun get_at :: "obj \<Rightarrow> bytes list \<Rightarrow> jvalue option" where
  "get_at o1 [] = None"
| "get_at o1 [p] = map_of o1 p"
| "get_at o1 (p # q # r) = get_at (as_object (map_of o1 p)) (q # r)"

definition get_path :: "obj \<Rightarrow> bytes \<Rightarrow> jvalue option" where
  "get_path o1 path = get_at o1 (path_parts path)"

text \<open>Neither of two paths runs through the other.\<close>

definition apart :: "bytes list \<Rightarrow> bytes list \<Rightarrow> bool" where
  "apart ps qs \<longleftrightarrow> \<not> prefix ps qs \<and> \<not> prefix qs ps"

lemma as_object_None [simp]: "as_object None = []"
  and as_object_VObj [simp]: "as_object (Some (VObj o1)) = o1"
  by (simp_all add: as_object_def)

lemma get_at_Nil [simp]: "get_at [] ps = None"
  by (induction "[] :: obj" ps rule: get_at.induct) simp_all

lemma get_at_Cons: "r \<noteq> [] \<Longrightarrow> get_at o1 (p # r) = get_at (as_object (map_of o1 p)) r"
  by (cases r) simp_all

lemma path_parts_ne [simp]: "path_parts path \<noteq> []"
  by (simp add: path_parts_def)

lemma get_set_same: "ps \<noteq> [] \<Longrightarrow> get_at (set_at o1 ps v) ps = Some v"
  by (induction o1 ps v rule: set_at.induct) simp_all

lemma get_set_apart: "apart ps qs \<Longrightarrow> get_at (set_at o1 ps v) qs = get_at o1 qs"
proof (induction o1 ps v arbitrary: qs rule: set_at.induct)
  case (2 o1 p v)
  then obtain q r where qs: "qs = q # r" "q \<noteq> p" by (cases qs) (auto simp: apart_def)
  then show ?case by (cases r) simp_all
next
  case (3 o1 p q r v)
  then obtain p' qs' where qs: "qs = p' # qs'" by (cases qs) (auto simp: apart_def)
  show ?case
  proof (cases "p' = p")
    case False
    with qs show ?thesis by (cases qs') simp_all
  next
    case True
    with "3.prems" qs have "apart (q # r) qs'" "qs' \<noteq> []" by (auto simp: apart_def)
    with "3.IH" [of qs'] qs True show ?thesis by (simp add: get_at_Cons)
  qed
qed simp

lemma get_put_other: "qs \<noteq> [] \<Longrightarrow> hd qs \<noteq> k \<Longrightarrow> get_at (obj_put k v o1) qs = get_at o1 qs"
  by (cases qs; cases "tl qs") simp_all

lemma get_remove_other: "qs \<noteq> [] \<Longrightarrow> hd qs \<noteq> k \<Longrightarrow> get_at (obj_remove k o1) qs = get_at o1 qs"
  by (cases qs; cases "tl qs") (simp_all add: obj_remove_get)

lemma get_put_inside: "r \<noteq> [] \<Longrightarrow> get_at (obj_put k (VObj m) o1) (k # r) = get_at m r"
  by (simp add: get_at_Cons)

subsection \<open>Integers\<close>

definition int_digit :: "nat \<Rightarrow> byte \<Rightarrow> nat option" where
  "int_digit r b =
     (let d = (if is_ascii_digit b then bv b - 48
               else if is_ascii_lower b then bv b - 87
               else if is_ascii_upper b then bv b - 55 else 99) in
      if d < r then Some d else None)"

text \<open>\<open>i64::from_str_radix\<close>: an optional sign, at least one digit, checked for overflow.\<close>

definition parse_i64 :: "nat \<Rightarrow> bytes \<Rightarrow> int option" where
  "parse_i64 r s =
     (let neg = prefix ''-'' s; ds = (if neg \<or> prefix ''+'' s then tl s else s) in
      if ds = [] then None
      else foldl (\<lambda>acc b. case (acc, int_digit r b) of
                    (Some v, Some d) \<Rightarrow>
                      (case checked_i64 (v * int r) of
                         None \<Rightarrow> None
                       | Some w \<Rightarrow> checked_i64 (if neg then w - int d else w + int d))
                  | _ \<Rightarrow> None) (Some 0) ds)"

definition as_int :: "bytes \<Rightarrow> jvalue" where
  "as_int s =
     (case (if prefix ''0x'' s \<or> prefix ''0X'' s then parse_i64 16 (drop 2 s) else parse_i64 10 s) of
        Some n \<Rightarrow> VInt n
      | None \<Rightarrow> VStr s)"

text \<open>A sign after the hexadecimal prefix is read as part of the number.\<close>

lemma as_int_signed_hex: "as_int ''0x-1F'' = VInt (- 31)" "as_int ''0x+5'' = VInt 5"
  by (simp_all add: as_int_def parse_i64_def int_digit_def is_ascii_digit_def is_ascii_lower_def
      is_ascii_upper_def checked_i64_def i64_ok_def)

subsection \<open>Lossy UTF-8\<close>

definition in_range :: "nat \<Rightarrow> nat \<Rightarrow> byte \<Rightarrow> bool" where
  "in_range lo hi b \<longleftrightarrow> lo \<le> bv b \<and> bv b \<le> hi"

text \<open>
  The sequence at the front: whether it is a character, and its length, which for a malformed
  one is that of the longest start of a character (at least one byte).
\<close>

definition utf8_head :: "byte \<Rightarrow> bytes \<Rightarrow> bool \<times> nat" where
  "utf8_head a r =
     (if bv a \<le> 127 then (True, 1)
      else if in_range 194 223 a then
        (case r of b # _ \<Rightarrow> if is_cont b then (True, 2) else (False, 1) | [] \<Rightarrow> (False, 1))
      else if in_range 224 239 a then
        (case r of
           b # r1 \<Rightarrow>
             if is_cont b \<and> (bv a = 224 \<longrightarrow> 160 \<le> bv b) \<and> (bv a = 237 \<longrightarrow> bv b \<le> 159) then
               (case r1 of c # _ \<Rightarrow> if is_cont c then (True, 3) else (False, 2) | [] \<Rightarrow> (False, 2))
             else (False, 1)
         | [] \<Rightarrow> (False, 1))
      else if in_range 240 244 a then
        (case r of
           b # r1 \<Rightarrow>
             if is_cont b \<and> (bv a = 240 \<longrightarrow> 144 \<le> bv b) \<and> (bv a = 244 \<longrightarrow> bv b \<le> 143) then
               (case r1 of
                  c # r2 \<Rightarrow>
                    if is_cont c then
                      (case r2 of d # _ \<Rightarrow> if is_cont d then (True, 4) else (False, 3) | [] \<Rightarrow> (False, 3))
                    else (False, 2)
                | [] \<Rightarrow> (False, 2))
             else (False, 1)
         | [] \<Rightarrow> (False, 1))
      else (False, 1))"

lemma utf8_head_pos: "0 < snd (utf8_head a r)"
  by (auto simp: utf8_head_def split: list.splits if_splits)

function utf8_lossy :: "bytes \<Rightarrow> bytes" where
  "utf8_lossy [] = []"
| "utf8_lossy (a # r) =
     (case utf8_head a r of
        (ok, n) \<Rightarrow> (if ok then take n (a # r) else [CHR 0xEF, CHR 0xBF, CHR 0xBD]) @ utf8_lossy (drop (n - 1) r))"
  by pat_completeness auto
termination
  by (relation "measure length") auto

lemma utf8_lossy_valid: "utf8_valid s \<Longrightarrow> utf8_lossy s = s"
proof (induction "length s" arbitrary: s rule: less_induct)
  case less
  show ?case
  proof (cases s)
    case (Cons a r)
    from less.prems Cons have "\<exists>n. utf8_head a r = (True, n) \<and> utf8_valid (drop (n - 1) r) \<and> 0 < n"
      by (auto simp: utf8_head_def in_range_def split: if_splits list.splits)
    then obtain n where n: "utf8_head a r = (True, n)" "utf8_valid (drop (n - 1) r)" "0 < n" by blast
    have "utf8_lossy (drop (n - 1) r) = drop (n - 1) r" using less.hyps [OF _ n(2)] Cons by simp
    with n Cons show ?thesis by (cases n) simp_all
  qed simp
qed

subsection \<open>Repeated names under \<open>unmapped\<close>\<close>

definition repeat_key :: "bytes \<Rightarrow> nat \<Rightarrow> bytes" where
  "repeat_key key n = (if n = 1 then key else key @ ''#'' @ dec n)"

lemma dec_inject: "dec m = dec n \<Longrightarrow> m = n"
proof -
  have "foldl (\<lambda>acc d. acc * 10 + digit_val d) 0 (dec k) = k" for k
    by (induction k rule: dec.induct) (subst dec.simps, simp)
  then show "dec m = dec n \<Longrightarrow> m = n" by metis
qed

lemma repeat_key_inj: "repeat_key key m = repeat_key key n \<Longrightarrow> m = n"
  by (auto simp: repeat_key_def dec_inject split: if_splits)

lemma repeat_key_measure:
  assumes "map_of m (repeat_key key n) \<noteq> None"
  shows "card {k. n + 1 \<le> k \<and> map_of m (repeat_key key k) \<noteq> None} < card {k. n \<le> k \<and> map_of m (repeat_key key k) \<noteq> None}"
proof (rule psubset_card_mono)
  have "finite (repeat_key key -` dom (map_of m))"
    by (rule finite_vimageI) (auto intro: injI repeat_key_inj finite_dom_map_of)
  then show "finite {k. n \<le> k \<and> map_of m (repeat_key key k) \<noteq> None}"
    by (rule rev_finite_subset) auto
  show "{k. n + 1 \<le> k \<and> map_of m (repeat_key key k) \<noteq> None} \<subset> {k. n \<le> k \<and> map_of m (repeat_key key k) \<noteq> None}"
    using assms by (auto simp: psubset_eq set_eq_iff intro: exI [of _ n])
qed

text \<open>The first of the name itself and its numbered forms from 2 on that is not taken.\<close>

function free_key :: "obj \<Rightarrow> bytes \<Rightarrow> nat \<Rightarrow> bytes" where
  "free_key m key n =
     (if map_of m (repeat_key key n) \<noteq> None then free_key m key (n + 1) else repeat_key key n)"
  by pat_completeness auto
termination
  by (relation "measure (\<lambda>(m, key, n). card {k. n \<le> k \<and> map_of m (repeat_key key k) \<noteq> None})")
     (rule wf_measure, simp only: in_measure prod.case, rule repeat_key_measure)

declare free_key.simps [simp del]

definition unmapped_insert :: "obj \<Rightarrow> bytes \<Rightarrow> jvalue \<Rightarrow> obj" where
  "unmapped_insert m key v = obj_put (free_key m key 1) v m"

lemma free_key_free: "map_of m (free_key m key n) = None \<and> (\<exists>k \<ge> n. free_key m key n = repeat_key key k)"
proof (induction m key n rule: free_key.induct)
  case (1 m key n)
  then show ?case
    by (cases "map_of m (repeat_key key n)") (auto simp: free_key.simps [of m key n] intro: Suc_leD)
qed

lemma unmapped_insert_keeps: "map_of m k = Some w \<Longrightarrow> map_of (unmapped_insert m key v) k = Some w"
  using free_key_free [of m key 1] by (auto simp: unmapped_insert_def)

lemma unmapped_insert_length: "length (unmapped_insert m key v) = length m + 1"
  using free_key_free [of m key 1] by (simp add: unmapped_insert_def obj_put_length)

lemma unmapped_insert_found: "\<exists>n \<ge> 1. map_of (unmapped_insert m key v) (repeat_key key n) = Some v"
proof -
  obtain k where "1 \<le> k" "free_key m key 1 = repeat_key key k" using free_key_free [of m key 1] by blast
  then show ?thesis by (intro exI [of _ k]) (simp add: unmapped_insert_def)
qed

subsection \<open>TOML constants\<close>

datatype toml_value =
    TStr bytes | TInt int
  | TFloat "bytes option"     \<comment> \<open>the text of a finite one\<close>
  | TBool bool | TDatetime bytes | TArr "toml_value list" | TTable "(bytes \<times> toml_value) list"

fun toml_to_json :: "toml_value \<Rightarrow> jvalue" where
  "toml_to_json (TStr s) = VStr s"
| "toml_to_json (TInt i) = VInt i"
| "toml_to_json (TFloat f) = (case f of Some t \<Rightarrow> VFloat t | None \<Rightarrow> VNull)"
| "toml_to_json (TBool b) = VBool b"
| "toml_to_json (TDatetime d) = VStr d"
| "toml_to_json (TArr a) = VArr (map toml_to_json a)"
| "toml_to_json (TTable t) = VObj (map (\<lambda>(k, v). (k, toml_to_json v)) t)"

end
