(* ===== verification/Ulpf_Mapping.thy ===== *)
theory Ulpf_Mapping
  imports Ulpf_Value Ulpf_Parsed
begin

text \<open>
  Mappings, \<open>src/crates/ulpf-normalize/src/def.rs\<close> and \<open>mapping.rs\<close>: the mapping file,
  \<open>Mapping::compile\<close>, \<open>absent\<close>, \<open>select_class\<close>, \<open>choose\<close>, \<open>normalize\<close> and \<open>provenance\<close>.
  A \<open>BTreeMap\<close> of the file is the list of its entries in key order; a \<open>HashMap\<close> is a map.
  Writing the JSON text (\<open>serde_json::to_writer\<close>) is the parameter \<open>to_json\<close>.
\<close>

subsection \<open>The mapping file\<close>

datatype entity_kind = SrcIp | DstIp | User | DstPort | Device

definition all_entities :: "entity_kind list" where
  "all_entities = [SrcIp, DstIp, User, DstPort, Device]"

definition entity_name :: "entity_kind \<Rightarrow> bytes" where
  "entity_name k = (case k of SrcIp \<Rightarrow> ''src_ip'' | DstIp \<Rightarrow> ''dst_ip'' | User \<Rightarrow> ''user''
     | DstPort \<Rightarrow> ''dst_port'' | Device \<Rightarrow> ''device'')"

definition entity_from_name :: "bytes \<Rightarrow> entity_kind option" where
  "entity_from_name s = find (\<lambda>k. entity_name k = s) all_entities"

definition entity_from_index :: "nat \<Rightarrow> entity_kind option" where
  "entity_from_index i = (if i < length all_entities then Some (all_entities ! i) else None)"

record entities =
  en_src_ip :: "bytes option"
  en_dst_ip :: "bytes option"
  en_user :: "bytes option"
  en_dst_port :: "bytes option"
  en_device :: "bytes option"

definition entity_path :: "entities \<Rightarrow> entity_kind \<Rightarrow> bytes option" where
  "entity_path e k = (case k of SrcIp \<Rightarrow> en_src_ip e | DstIp \<Rightarrow> en_dst_ip e | User \<Rightarrow> en_user e
     | DstPort \<Rightarrow> en_dst_port e | Device \<Rightarrow> en_device e)"

record enum_value =
  ev_value :: bytes
  ev_id :: "int option"
  ev_raw :: "bytes list"
  ev_raw_by_field :: "(bytes \<times> bytes list) list"

record enum_spec =
  es_field :: bytes
  es_id_field :: "bytes option"
  es_unknown :: "enum_value option"
  es_other :: "enum_value option"
  es_values :: "enum_value list"

record class_rule =
  cl_uid :: int
  cl_name :: bytes
  cl_category_uid :: int
  cl_category_name :: bytes
  cl_constants :: "(bytes \<times> toml_value) list"
  cl_when :: "(bytes \<times> bytes list) list list"

record mapping_file =
  mf_name :: bytes
  mf_version :: "bytes option"
  mf_fields :: "(bytes \<times> bytes list) list"
  mf_int :: "bytes list"
  mf_absent :: "bytes list"
  mf_enums :: "enum_spec list"
  mf_class :: "class_rule list"
  mf_default_class :: "class_rule option"
  mf_entities :: entities

subsection \<open>Compiling\<close>

type_synonym canonical = "bytes \<times> int option"

record enum_table =
  et_id_field :: "bytes option"
  et_unknown :: "canonical option"
  et_other :: "canonical option"
  et_raw :: "bytes \<rightharpoonup> canonical"
  et_raw_by_field :: "bytes \<Rightarrow> bytes \<rightharpoonup> canonical"

definition enum_lookup :: "enum_table \<Rightarrow> bytes \<Rightarrow> bytes \<Rightarrow> canonical option" where
  "enum_lookup t source_key lower =
     (case et_raw_by_field t source_key lower of Some c \<Rightarrow> Some c | None \<Rightarrow> et_raw t lower)"

record schema_field =
  sf_path :: bytes
  sf_is_int :: bool
  sf_enum :: "nat option"

record mapping =
  mp_file :: mapping_file
  mp_fields :: "schema_field list"
  mp_aliases :: "bytes \<rightharpoonup> nat \<times> nat"
  mp_enums :: "enum_table list"
  mp_default_class :: class_rule
  mp_entity_field :: "nat option list"

definition bad_class :: "mapping_file \<Rightarrow> class_rule option" where
  "bad_class f =
     find (\<lambda>c. \<not> (0 \<le> cl_uid c \<and> cl_uid c \<le> 99999999))
       (mf_class f @ (case mf_default_class f of Some c \<Rightarrow> [c] | None \<Rightarrow> []))"

text \<open>The aliases of one schema path, with their rank: a name listed twice is an error.\<close>

fun add_aliases ::
  "nat \<Rightarrow> nat \<Rightarrow> bytes list \<Rightarrow> (bytes \<rightharpoonup> nat \<times> nat) \<Rightarrow> bytes + (bytes \<rightharpoonup> nat \<times> nat)" where
  "add_aliases idx rank [] m = Inr m"
| "add_aliases idx rank (n # ns) m =
     (if m n \<noteq> None then Inl n else add_aliases idx (rank + 1) ns (m(n \<mapsto> (idx, rank))))"

fun compile_fields ::
  "bytes list \<Rightarrow> (bytes \<times> bytes list) list \<Rightarrow> schema_field list \<times> (bytes \<rightharpoonup> nat \<times> nat) \<Rightarrow>
    bytes + schema_field list \<times> (bytes \<rightharpoonup> nat \<times> nat)" where
  "compile_fields ints [] acc = Inr acc"
| "compile_fields ints ((path, names) # rest) (fs, m) =
     (if path = [] \<or> prefix ''unmapped'' path \<or> prefix ''ulpf'' path
      then Inl (''[fields] `'' @ path @ ''` is reserved'')
      else case add_aliases (length fs) 0 names m of
             Inl n \<Rightarrow> Inl (''[fields] source field `'' @ n @ ''` is listed under both `'' @
                        (case m n of Some (other, _) \<Rightarrow> sf_path (fs ! other) | None \<Rightarrow> path) @
                        ''` and `'' @ path @ ''`'')
           | Inr m' \<Rightarrow>
               compile_fields ints rest
                 (fs @ [\<lparr>sf_path = path, sf_is_int = path \<in> set ints, sf_enum = None\<rparr>], m'))"

definition lower :: "bytes \<Rightarrow> bytes" where
  "lower s = map to_ascii_lowercase s"

definition enum_canonical :: "enum_value \<Rightarrow> canonical" where
  "enum_canonical v = (ev_value v, ev_id v)"

definition raw_table :: "enum_value list \<Rightarrow> bytes \<rightharpoonup> canonical" where
  "raw_table vs = foldl (\<lambda>m v. foldl (\<lambda>m r. m(lower r \<mapsto> enum_canonical v)) m (ev_raw v)) (\<lambda>_. None) vs"

definition raw_field_table :: "enum_value list \<Rightarrow> bytes \<Rightarrow> bytes \<rightharpoonup> canonical" where
  "raw_field_table vs =
     foldl (\<lambda>m v. foldl (\<lambda>m (src, rs). foldl (\<lambda>m r. m(src := (m src)(lower r \<mapsto> enum_canonical v))) m rs)
                    m (ev_raw_by_field v)) (\<lambda>_ _. None) vs"

definition compile_enum :: "enum_spec \<Rightarrow> schema_field list \<times> enum_table list \<Rightarrow> schema_field list \<times> enum_table list" where
  "compile_enum e acc =
     (case acc of (fs, ts) \<Rightarrow>
        let (idx, fs1) =
              (case position (\<lambda>f. sf_path f = es_field e) fs of
                 Some i \<Rightarrow> (i, fs)
               | None \<Rightarrow> (length fs, fs @ [\<lparr>sf_path = es_field e, sf_is_int = False, sf_enum = None\<rparr>])) in
        (fs1[idx := (fs1 ! idx)\<lparr>sf_enum := Some (length ts)\<rparr>],
         ts @ [\<lparr>et_id_field = es_id_field e, et_unknown = map_option enum_canonical (es_unknown e),
                et_other = map_option enum_canonical (es_other e),
                et_raw = raw_table (es_values e), et_raw_by_field = raw_field_table (es_values e)\<rparr>]))"

definition base_class :: class_rule where
  "base_class = \<lparr>cl_uid = 0, cl_name = ''Base Event'', cl_category_uid = 0,
     cl_category_name = ''Uncategorized'', cl_constants = [], cl_when = []\<rparr>"

definition settable :: "mapping_file \<Rightarrow> bytes \<Rightarrow> bool" where
  "settable f path \<longleftrightarrow>
     list_ex (\<lambda>c. path \<in> fst ` set (cl_constants c))
       (mf_class f @ (case mf_default_class f of Some c \<Rightarrow> [c] | None \<Rightarrow> [])) \<or>
     list_ex (\<lambda>e. es_id_field e = Some path) (mf_enums f)"

definition compile_entity :: "mapping_file \<Rightarrow> schema_field list \<Rightarrow> entity_kind \<Rightarrow> bytes + nat option" where
  "compile_entity f fs k =
     (case entity_path (mf_entities f) k of
        None \<Rightarrow> Inr None
      | Some path \<Rightarrow>
          (case position (\<lambda>g. sf_path g = path) fs of
             Some i \<Rightarrow> Inr (Some i)
           | None \<Rightarrow>
               if settable f path then Inr None
               else Inl (''[entities] '' @ entity_name k @ '' = `'' @ path @
                      ''`: no [fields] entry, class constant or enum id_field sets that path'')))"

fun compile_entities ::
  "mapping_file \<Rightarrow> schema_field list \<Rightarrow> entity_kind list \<Rightarrow> bytes + nat option list" where
  "compile_entities f fs [] = Inr []"
| "compile_entities f fs (k # ks) =
     (case compile_entity f fs k of
        Inl e \<Rightarrow> Inl e
      | Inr x \<Rightarrow> (case compile_entities f fs ks of Inl e \<Rightarrow> Inl e | Inr xs \<Rightarrow> Inr (x # xs)))"

definition int_text :: "int \<Rightarrow> bytes" where
  "int_text i = (if i < 0 then ''-'' @ dec (nat (- i)) else dec (nat i))"

definition compile_mapping :: "mapping_file \<Rightarrow> bytes + mapping" where
  "compile_mapping f =
     (case bad_class f of
        Some c \<Rightarrow> Inl (''[[class]] `'' @ cl_name c @ ''`: uid '' @ int_text (cl_uid c) @ '' is outside 0..=99999999'')
      | None \<Rightarrow>
     (case compile_fields (mf_int f) (mf_fields f) ([], \<lambda>_. None) of
        Inl e \<Rightarrow> Inl e
      | Inr (fs, al) \<Rightarrow>
     (case foldl (\<lambda>acc e. compile_enum e acc) (fs, []) (mf_enums f) of
        (fs1, ts) \<Rightarrow>
     (case compile_entities f fs1 all_entities of
        Inl e \<Rightarrow> Inl e
      | Inr ef \<Rightarrow>
          Inr \<lparr>mp_file = f, mp_fields = fs1, mp_aliases = al, mp_enums = ts,
               mp_default_class = (case mf_default_class f of Some c \<Rightarrow> c | None \<Rightarrow> base_class),
               mp_entity_field = ef\<rparr>))))"

subsection \<open>Choosing the source of each schema field\<close>

definition absent :: "mapping \<Rightarrow> bytes \<Rightarrow> bool" where
  "absent m v \<longleftrightarrow> list_ex (\<lambda>a. eq_ignore_ascii_case a v) (mf_absent (mp_file m))"

definition condition_holds :: "mapping \<Rightarrow> parsed \<Rightarrow> bytes \<times> bytes list \<Rightarrow> bool" where
  "condition_holds m p c =
     (case pa_get (fst c) p of
        None \<Rightarrow> False
      | Some v \<Rightarrow> \<not> absent m (cow_bytes v) \<and>
          list_ex (\<lambda>x. x = ''*'' \<or> eq_ignore_ascii_case x (cow_bytes v)) (snd c))"

definition select_class :: "mapping \<Rightarrow> parsed \<Rightarrow> class_rule" where
  "select_class m p =
     (case find (\<lambda>r. list_ex (list_all (condition_holds m p)) (cl_when r)) (mf_class (mp_file m)) of
        Some r \<Rightarrow> r
      | None \<Rightarrow> mp_default_class m)"

datatype fate = Absent | Winner | Unmapped

text \<open>One parsed field at index \<open>i\<close>: it takes the schema field of its alias if none of a rank as low has.\<close>

definition choose_step :: "mapping \<Rightarrow> nat \<times> field \<Rightarrow> (nat \<times> nat) option list \<Rightarrow> (nat \<times> nat) option list" where
  "choose_step m it winners =
     (if absent m (cow_bytes (fd_value (snd it))) then winners
      else case mp_aliases m (cow_bytes (fd_key (snd it))) of
             None \<Rightarrow> winners
           | Some (idx, rank) \<Rightarrow>
               if (case winners ! idx of None \<Rightarrow> True | Some (r, _) \<Rightarrow> rank < r)
               then winners[idx := Some (rank, fst it)] else winners)"

definition choose_winners :: "mapping \<Rightarrow> parsed \<Rightarrow> (nat \<times> nat) option list" where
  "choose_winners m p =
     foldl (\<lambda>w it. choose_step m it w) (replicate (length (mp_fields m)) None) (List.enumerate 0 (pa_fields p))"

definition field_fate :: "mapping \<Rightarrow> parsed \<Rightarrow> (nat \<times> nat) option list \<Rightarrow> nat \<Rightarrow> fate" where
  "field_fate m p winners i =
     (if list_ex (\<lambda>w. case w of Some (_, j) \<Rightarrow> j = i | None \<Rightarrow> False) winners then Winner
      else if absent m (cow_bytes (fd_value (pa_fields p ! i))) then Absent else Unmapped)"

definition choose_fields :: "mapping \<Rightarrow> parsed \<Rightarrow> (nat \<times> nat) option list \<times> fate list" where
  "choose_fields m p =
     (let winners = choose_winners m p in
      (winners, map (field_fate m p winners) [0..<length (pa_fields p)]))"

subsection \<open>Normalising\<close>

record provenance =
  pv_raw_id :: nat
  pv_source :: bytes
  pv_parser :: "bytes option"
  pv_vendor :: "bytes option"
  pv_product :: "bytes option"
  pv_receipt :: int
  pv_parse_status :: bytes
  pv_sub_status :: bytes

record norm_stats =
  st_class_uid :: int
  st_mapped :: nat
  st_unmapped :: nat
  st_enum_other :: nat
  st_time_from_receipt :: bool
  st_utf8_lossy :: bool
  st_time_ms :: int
  st_entities :: "nat option list"

record norm_state =
  ns_root :: obj
  ns_unmapped :: obj
  ns_stats :: norm_stats

definition lossy :: "bytes \<Rightarrow> norm_stats \<Rightarrow> bytes \<times> norm_stats" where
  "lossy b st = (utf8_lossy b, if utf8_valid b then st else st\<lparr>st_utf8_lossy := True\<rparr>)"

definition keep_unmapped :: "field \<Rightarrow> norm_state \<Rightarrow> norm_state" where
  "keep_unmapped f s =
     (case lossy (cow_bytes (fd_key f)) (ns_stats s) of (key, st1) \<Rightarrow>
      case lossy (cow_bytes (fd_value f)) st1 of (txt, st2) \<Rightarrow>
        s\<lparr>ns_unmapped := unmapped_insert (ns_unmapped s) key (VStr txt), ns_stats := st2\<rparr>)"

text \<open>A canonical value at its path, and its id at the id path when both exist.\<close>

definition put_enum :: "bytes \<Rightarrow> bytes option \<Rightarrow> canonical \<Rightarrow> obj \<Rightarrow> obj" where
  "put_enum path id_field c root =
     (let root1 = set_path root path (VStr (fst c)) in
      case (id_field, snd c) of
        (Some idf, Some i) \<Rightarrow> set_path root1 idf (VInt i)
      | _ \<Rightarrow> root1)"

definition norm_winner :: "mapping \<Rightarrow> parsed \<Rightarrow> nat \<times> (nat \<times> nat) option \<Rightarrow> norm_state \<Rightarrow> norm_state" where
  "norm_winner m p it s =
     (let g = mp_fields m ! fst it in
      case snd it of
        None \<Rightarrow>
          (case sf_enum g of
             None \<Rightarrow> s
           | Some ei \<Rightarrow>
               (case et_unknown (mp_enums m ! ei) of
                  None \<Rightarrow> s
                | Some c \<Rightarrow> s\<lparr>ns_root := put_enum (sf_path g) (et_id_field (mp_enums m ! ei)) c (ns_root s)\<rparr>))
      | Some (_, fi) \<Rightarrow>
          let src = pa_fields p ! fi in
          (case lossy (cow_bytes (fd_value src)) (ns_stats s) of (txt, st1) \<Rightarrow>
             let st2 = st1\<lparr>st_mapped := st_mapped st1 + 1\<rparr> in
             (case sf_enum g of
                Some ei \<Rightarrow>
                  let t = mp_enums m ! ei in
                  (case enum_lookup t (cow_bytes (fd_key src)) (lower txt) of
                     Some c \<Rightarrow> s\<lparr>ns_root := put_enum (sf_path g) (et_id_field t) c (ns_root s), ns_stats := st2\<rparr>
                   | None \<Rightarrow>
                       s\<lparr>ns_root := (case et_other t of
                                        Some c \<Rightarrow> put_enum (sf_path g) (et_id_field t) c (ns_root s)
                                      | None \<Rightarrow> ns_root s),
                         ns_unmapped := unmapped_insert (ns_unmapped s) (utf8_lossy (cow_bytes (fd_key src))) (VStr txt),
                         ns_stats := st2\<lparr>st_enum_other := st_enum_other st2 + 1\<rparr>\<rparr>)
              | None \<Rightarrow>
                  s\<lparr>ns_root := set_path (ns_root s) (sf_path g) (if sf_is_int g then as_int txt else VStr txt),
                    ns_stats := st2\<rparr>)))"

text \<open>The class: its identity, its constants, and the type when an activity is known.\<close>

definition put_class :: "class_rule \<Rightarrow> obj \<Rightarrow> obj" where
  "put_class c root =
     (let r1 = obj_put ''category_name'' (VStr (cl_category_name c))
                (obj_put ''category_uid'' (VInt (cl_category_uid c))
                  (obj_put ''class_name'' (VStr (cl_name c)) (obj_put ''class_uid'' (VInt (cl_uid c)) root)));
          r2 = foldl (\<lambda>r (k, v). set_path r k (toml_to_json v)) r1 (cl_constants c) in
      case map_of r2 ''activity_id'' of
        Some (VInt a) \<Rightarrow> obj_put ''type_uid'' (VInt (saturating_i64 (saturating_i64 (cl_uid c * 100) + a))) r2
      | Some (VFloat _) \<Rightarrow> obj_put ''type_uid'' (VInt (saturating_i64 (cl_uid c * 100))) r2
      | _ \<Rightarrow> r2)"

definition put_some :: "bytes \<Rightarrow> bytes option \<Rightarrow> obj \<Rightarrow> obj" where
  "put_some k v m = (case v of Some s \<Rightarrow> obj_put k (VStr s) m | None \<Rightarrow> m)"

definition metadata :: "mapping \<Rightarrow> parsed \<Rightarrow> provenance \<Rightarrow> int \<Rightarrow> obj \<Rightarrow> obj" where
  "metadata m p pv nanos meta0 =
     (let product = put_some ''name'' (pv_product pv) (put_some ''vendor_name'' (pv_vendor pv) []);
          m1 = put_some ''version'' (mf_version (mp_file m)) meta0;
          m2 = (if product \<noteq> [] then obj_put ''product'' (VObj product) m1 else m1);
          m3 = put_some ''original_time'' (map_option (\<lambda>t. utf8_lossy (cow_bytes t)) (pa_ts_text p)) m2 in
      obj_put ''log_name'' (VStr (pv_source pv))
        (obj_put ''event_time_rfc3339'' (VStr (format_rfc3339 nanos))
          (obj_put ''processed_time'' (VInt (epoch_millis (pv_receipt pv))) m3)))"

definition ulpf_object :: "parsed \<Rightarrow> provenance \<Rightarrow> policies \<Rightarrow> bool \<Rightarrow> obj" where
  "ulpf_object p pv pol is_lossy =
     (let u1 = put_some ''parser'' (pv_parser pv) [(''raw_id'', VInt (int (pv_raw_id pv)))];
          u2 = obj_put ''time_policies'' (VArr (map VStr (pol_names pol)))
                 (obj_put ''sub_status'' (VStr (pv_sub_status pv))
                   (obj_put ''parse_status'' (VStr (pv_parse_status pv)) u1));
          u3 = put_some ''time_error'' (map_option time_reason (pa_ts_error p)) u2 in
      if is_lossy then obj_put ''utf8_lossy'' (VBool True) u3 else u3)"

definition event_nanos :: "parsed \<Rightarrow> provenance \<Rightarrow> int \<times> policies" where
  "event_nanos p pv =
     (case pa_timestamp p of Some t \<Rightarrow> (ts_nanos t, ts_policies t) | None \<Rightarrow> (pv_receipt pv, receipt_fallback))"

text \<open>What the fields contribute, before the class and the event's own data.\<close>

definition norm_fields :: "mapping \<Rightarrow> parsed \<Rightarrow> norm_state \<Rightarrow> norm_state" where
  "norm_fields m p s =
     (case choose_fields m p of (winners, fates) \<Rightarrow>
        let s1 = foldl (\<lambda>s (i, f). if fates ! i = Unmapped then keep_unmapped f s else s) s
                   (List.enumerate 0 (pa_fields p)) in
        foldl (\<lambda>s it. norm_winner m p it s) s1 (List.enumerate 0 winners))"

definition norm_start :: "mapping \<Rightarrow> parsed \<Rightarrow> norm_state" where
  "norm_start m p =
     \<lparr>ns_root = [], ns_unmapped = [],
      ns_stats = \<lparr>st_class_uid = cl_uid (select_class m p), st_mapped = 0, st_unmapped = 0, st_enum_other = 0,
        st_time_from_receipt = False, st_utf8_lossy = False, st_time_ms = 0,
        st_entities = map (\<lambda>slot. case slot of
            Some fi \<Rightarrow> map_option snd (choose_winners m p ! fi) | None \<Rightarrow> None) (mp_entity_field m)\<rparr>\<rparr>"

definition normalize_root :: "mapping \<Rightarrow> parsed \<Rightarrow> provenance \<Rightarrow> obj \<times> norm_stats" where
  "normalize_root m p pv =
     (let s = norm_fields m p (norm_start m p);
          r1 = put_class (select_class m p) (ns_root s);
          (nanos, pol) = event_nanos p pv;
          st1 = (ns_stats s)\<lparr>st_time_from_receipt := (pa_timestamp p = None), st_time_ms := epoch_millis nanos,
                              st_unmapped := length (ns_unmapped s)\<rparr>;
          r2 = obj_put ''time'' (VInt (epoch_millis nanos)) r1;
          r3 = obj_put ''metadata'' (VObj (metadata m p pv nanos (as_object (map_of r2 ''metadata'')))) (obj_remove ''metadata'' r2);
          r4 = obj_put ''ulpf'' (VObj (ulpf_object p pv pol (st_utf8_lossy st1))) r3;
          r5 = (if ns_unmapped s \<noteq> [] then obj_put ''unmapped'' (VObj (ns_unmapped s)) r4 else r4) in
      (r5, st1))"

definition normalize :: "(jvalue \<Rightarrow> bytes) \<Rightarrow> mapping \<Rightarrow> parsed \<Rightarrow> provenance \<Rightarrow> bytes \<Rightarrow> bytes \<times> norm_stats" where
  "normalize to_json m p pv out =
     (case normalize_root m p pv of (root, st) \<Rightarrow> (out @ to_json (VObj root) @ [CHR 0x0A], st))"

subsection \<open>Where each value came from\<close>

record field_provenance =
  fp_path :: bytes
  fp_index :: nat
  fp_canonical :: bool
  fp_value :: bytes

text \<open>The text of an emitted scalar.\<close>

definition scalar_text :: "jvalue \<Rightarrow> bytes" where
  "scalar_text v = (case v of VStr s \<Rightarrow> s | VInt i \<Rightarrow> int_text i | _ \<Rightarrow> [])"

definition lookup_or_other :: "enum_table \<Rightarrow> bytes \<Rightarrow> bytes \<Rightarrow> canonical option" where
  "lookup_or_other t key low = (case enum_lookup t key low of Some c \<Rightarrow> Some c | None \<Rightarrow> et_other t)"

definition provenance_of :: "mapping \<Rightarrow> parsed \<Rightarrow> nat \<times> (nat \<times> nat) option \<Rightarrow> field_provenance option" where
  "provenance_of m p it =
     (case snd it of
        None \<Rightarrow> None
      | Some (_, fi) \<Rightarrow>
          let g = mp_fields m ! fst it; src = pa_fields p ! fi; txt = utf8_lossy (cow_bytes (fd_value src)) in
          (case sf_enum g of
             Some ei \<Rightarrow>
               (case lookup_or_other (mp_enums m ! ei) (cow_bytes (fd_key src)) (lower txt) of
                  Some c \<Rightarrow> Some \<lparr>fp_path = sf_path g, fp_index = fi, fp_canonical = True, fp_value = fst c\<rparr>
                | None \<Rightarrow> None)
           | None \<Rightarrow>
               Some \<lparr>fp_path = sf_path g, fp_index = fi, fp_canonical = False,
                     fp_value = (if sf_is_int g then scalar_text (as_int txt) else txt)\<rparr>))"

definition provenance_list :: "mapping \<Rightarrow> parsed \<Rightarrow> field_provenance list" where
  "provenance_list m p =
     List.map_filter (provenance_of m p) (List.enumerate 0 (choose_winners m p))"

subsection \<open>A compiled mapping is well-formed\<close>

definition aliases_ok :: "nat \<Rightarrow> (bytes \<rightharpoonup> nat \<times> nat) \<Rightarrow> bool" where
  "aliases_ok n al \<longleftrightarrow> (\<forall>k idx r. al k = Some (idx, r) \<longrightarrow> idx < n)"

lemma aliases_ok_mono: "aliases_ok n al \<Longrightarrow> n \<le> n' \<Longrightarrow> aliases_ok n' al"
  unfolding aliases_ok_def by (meson order_less_le_trans)

lemma aliases_ok_upd: "aliases_ok n m \<Longrightarrow> idx < n \<Longrightarrow> aliases_ok n (m(k \<mapsto> (idx, r)))"
  unfolding aliases_ok_def by auto

lemma add_aliases_ok:
  "add_aliases idx rank ns m = Inr m' \<Longrightarrow> aliases_ok n m \<Longrightarrow> idx < n \<Longrightarrow> aliases_ok n m'"
proof (induction ns arbitrary: rank m)
  case (Cons k ns)
  note ih = Cons.IH [OF _ aliases_ok_upd [OF Cons.prems(2,3)] Cons.prems(3)]
  from Cons.prems(1) have "add_aliases idx (Suc rank) ns (m(k \<mapsto> (idx, rank))) = Inr m'"
    by (simp split: if_splits option.splits)
  then show ?case by (rule ih)
qed simp

lemma compile_fields_ok:
  "compile_fields ints xs (fs, al) = Inr (fs', al') \<Longrightarrow> aliases_ok (length fs) al \<Longrightarrow> aliases_ok (length fs') al'"
proof (induction xs arbitrary: fs al)
  case (Cons x xs)
  obtain path names where x: "x = (path, names)" by fastforce
  with Cons.prems(1) obtain m' where m': "add_aliases (length fs) 0 names al = Inr m'"
    "compile_fields ints xs (fs @ [\<lparr>sf_path = path, sf_is_int = path \<in> set ints, sf_enum = None\<rparr>], m') = Inr (fs', al')"
    by (auto split: if_splits sum.splits)
  have "aliases_ok (length fs + 1) m'"
    using add_aliases_ok [OF m'(1) aliases_ok_mono [OF Cons.prems(2)]] by simp
  with Cons.IH [OF m'(2)] show ?case by simp
qed simp

lemma compile_enum_length: "length fs \<le> length (fst (compile_enum e (fs, ts)))"
  by (auto simp: compile_enum_def Let_def split: option.splits)

lemma compile_enums_length: "length fs \<le> length (fst (foldl (\<lambda>acc e. compile_enum e acc) (fs, ts) es))"
proof (induction es arbitrary: fs ts)
  case (Cons e es)
  obtain fs1 ts1 where c: "compile_enum e (fs, ts) = (fs1, ts1)" by fastforce
  with compile_enum_length [of fs e ts] Cons.IH [of fs1 ts1] show ?case by simp
qed simp

lemma compiled_aliases: "compile_mapping f = Inr m \<Longrightarrow> aliases_ok (length (mp_fields m)) (mp_aliases m)"
proof -
  assume "compile_mapping f = Inr m"
  then obtain fs al fs1 ts where c: "compile_fields (mf_int f) (mf_fields f) ([], \<lambda>_. None) = Inr (fs, al)"
    "foldl (\<lambda>acc e. compile_enum e acc) (fs, []) (mf_enums f) = (fs1, ts)" "mp_fields m = fs1" "mp_aliases m = al"
    by (auto simp: compile_mapping_def split: option.splits sum.splits prod.splits)
  have "aliases_ok (length fs) al" using compile_fields_ok [OF c(1)] by (simp add: aliases_ok_def)
  moreover have "length fs \<le> length fs1" using compile_enums_length [of fs "[]" "mf_enums f"] c(2) by simp
  ultimately show ?thesis using c(3,4) aliases_ok_mono by blast
qed

subsection \<open>The chosen source is the best\<close>

text \<open>The field may feed schema field \<open>idx\<close>, at rank \<open>r\<close> of its aliases.\<close>

definition feeds :: "mapping \<Rightarrow> field \<Rightarrow> nat \<Rightarrow> nat \<Rightarrow> bool" where
  "feeds m f idx r \<longleftrightarrow> \<not> absent m (cow_bytes (fd_value f)) \<and> mp_aliases m (cow_bytes (fd_key f)) = Some (idx, r)"

definition best_winner :: "mapping \<Rightarrow> field list \<Rightarrow> nat \<Rightarrow> (nat \<times> nat) option \<Rightarrow> bool" where
  "best_winner m fs idx w =
     (case w of
        None \<Rightarrow> \<forall>f \<in> set fs. \<forall>r. \<not> feeds m f idx r
      | Some (r, i) \<Rightarrow> i < length fs \<and> feeds m (fs ! i) idx r \<and>
          (\<forall>j < length fs. \<forall>r'. feeds m (fs ! j) idx r' \<longrightarrow> r < r' \<or> r = r' \<and> i \<le> j))"

definition winners_of :: "mapping \<Rightarrow> field list \<Rightarrow> (nat \<times> nat) option list" where
  "winners_of m fs = foldl (\<lambda>w it. choose_step m it w) (replicate (length (mp_fields m)) None) (List.enumerate 0 fs)"

lemma choose_winners_of: "choose_winners m p = winners_of m (pa_fields p)"
  by (simp add: choose_winners_def winners_of_def)

lemma choose_step_length [simp]: "length (choose_step m it w) = length w"
  by (simp add: choose_step_def split: option.splits)

lemma choose_fold_length: "length (foldl (\<lambda>w it. choose_step m it w) w its) = length w"
  by (induction its arbitrary: w) simp_all

lemma winners_length [simp]: "length (winners_of m fs) = length (mp_fields m)"
  by (simp add: winners_of_def choose_fold_length)

lemma winners_snoc: "winners_of m (fs @ [f]) = choose_step m (length fs, f) (winners_of m fs)"
  by (simp add: winners_of_def enumerate_append_eq)

lemma best_winner_skip:
  assumes "best_winner m fs idx w" "\<And>r. \<not> feeds m f idx r"
  shows "best_winner m (fs @ [f]) idx w"
  using assms by (auto simp: best_winner_def nth_append less_Suc_eq split: option.splits)

lemma best_winner_step:
  assumes "best_winner m fs idx w" "feeds m f idx r"
  shows "best_winner m (fs @ [f]) idx
    (if (case w of None \<Rightarrow> True | Some (r0, _) \<Rightarrow> r < r0) then Some (r, length fs) else w)"
proof (cases w)
  case None
  with assms have "\<And>j r'. j < length fs \<Longrightarrow> \<not> feeds m (fs ! j) idx r'" by (simp add: best_winner_def)
  with None assms(2) show ?thesis
    by (auto simp: best_winner_def nth_append less_Suc_eq feeds_def)
next
  case (Some x)
  obtain r0 i where x: "x = (r0, i)" by fastforce
  have same: "feeds m f idx r' \<Longrightarrow> r' = r" for r' using assms(2) by (simp add: feeds_def)
  have old: "i < length fs" "feeds m (fs ! i) idx r0"
    "\<And>j r'. j < length fs \<Longrightarrow> feeds m (fs ! j) idx r' \<Longrightarrow> r0 < r' \<or> r0 = r' \<and> i \<le> j"
    using assms(1) Some x by (simp_all add: best_winner_def)
  show ?thesis
  proof (cases "r < r0")
    case True
    have "r < r' \<or> r = r' \<and> length fs \<le> j" if "j < Suc (length fs)" "feeds m ((fs @ [f]) ! j) idx r'" for j r'
    proof (cases "j = length fs")
      case True
      with that same show ?thesis by simp
    next
      case False
      with that have "j < length fs" "feeds m (fs ! j) idx r'" by (simp_all add: nth_append)
      with old(3) True show ?thesis by fastforce
    qed
    with True Some x assms(2) show ?thesis by (simp add: best_winner_def)
  next
    case False
    have "r0 < r' \<or> r0 = r' \<and> i \<le> j" if "j < Suc (length fs)" "feeds m ((fs @ [f]) ! j) idx r'" for j r'
    proof (cases "j = length fs")
      case True
      with that same False old(1) show ?thesis by auto
    next
      case False
      with that have "j < length fs" "feeds m (fs ! j) idx r'" by (simp_all add: nth_append)
      with old(3) show ?thesis by blast
    qed
    with False Some x old(1,2) show ?thesis by (simp add: best_winner_def nth_append)
  qed
qed

lemma winners_best:
  assumes "aliases_ok (length (mp_fields m)) (mp_aliases m)" "idx < length (mp_fields m)"
  shows "best_winner m fs idx (winners_of m fs ! idx)"
proof (induction fs rule: rev_induct)
  case Nil
  show ?case using assms(2) by (simp add: winners_of_def best_winner_def)
next
  case (snoc f fs)
  show ?case
  proof (cases "\<exists>r. feeds m f idx r")
    case True
    then obtain r where r: "feeds m f idx r" ..
    then have "winners_of m (fs @ [f]) ! idx =
        (if (case winners_of m fs ! idx of None \<Rightarrow> True | Some (r0, _) \<Rightarrow> r < r0) then Some (r, length fs)
         else winners_of m fs ! idx)"
      using assms(2) by (simp add: winners_snoc choose_step_def feeds_def)
    with best_winner_step [OF snoc r] show ?thesis by simp
  next
    case False
    then have "winners_of m (fs @ [f]) ! idx = winners_of m fs ! idx"
      by (auto simp: winners_snoc choose_step_def feeds_def nth_list_update split: option.splits)
    with best_winner_skip [OF snoc] False show ?thesis by simp
  qed
qed

text \<open>
  C15. Every schema field is fed by the best source: of the parsed fields that carry a value and
  are listed for it, the one of the lowest alias rank, and of those the first; and it is
  fed by none exactly when there is none. Absent values never feed anything.
\<close>

theorem choose_best_source:
  assumes "compile_mapping f = Inr m" and "idx < length (mp_fields m)"
  shows "best_winner m (pa_fields p) idx (fst (choose_fields m p) ! idx)"
  using winners_best [OF compiled_aliases [OF assms(1)] assms(2)]
  by (simp add: choose_fields_def choose_winners_of Let_def)

subsection \<open>A sample mapping\<close>

definition sample_file :: mapping_file where
  "sample_file = \<lparr>mf_name = ''ocsf'', mf_version = Some ''1.5'',
     mf_fields = [(''severity'', [''sev'', ''level'']), (''src.ip'', [''srcip'', ''src'']), (''src.port'', [''srcport''])],
     mf_int = [''src.port''], mf_absent = [''-''],
     mf_enums = [\<lparr>es_field = ''severity'', es_id_field = Some ''severity_id'', es_unknown = None,
        es_other = Some \<lparr>ev_value = ''Other'', ev_id = Some 99, ev_raw = [], ev_raw_by_field = []\<rparr>,
        es_values = [\<lparr>ev_value = ''High'', ev_id = Some 4, ev_raw = [''alert''], ev_raw_by_field = []\<rparr>]\<rparr>],
     mf_class = [], mf_default_class = None,
     mf_entities = \<lparr>en_src_ip = Some ''src.ip'', en_dst_ip = None, en_user = None, en_dst_port = None, en_device = None\<rparr>\<rparr>"

definition sample_mapping :: mapping where
  "sample_mapping = projr (compile_mapping sample_file)"

lemma sample_mapping_compiles: "compile_mapping sample_file = Inr sample_mapping"
proof -
  have "\<not> isl (compile_mapping sample_file)" by code_simp
  then show ?thesis by (simp add: sample_mapping_def)
qed

definition sample_event_fields :: parsed where
  "sample_event_fields =
     push (Borrowed ''srcport'') (Borrowed ''0x1F'') (push (Borrowed ''user'') (Borrowed ''root'')
       (push (Borrowed ''sev'') (Borrowed ''ALERT'') (push (Borrowed ''src'') (Borrowed ''10.0.0.1'')
         (push (Borrowed ''srcip'') (Borrowed ''-'') parsed_default))))"

lemma choose_best_source_witness:
  "best_winner sample_mapping (pa_fields sample_event_fields) 1
     (fst (choose_fields sample_mapping sample_event_fields) ! 1)"
proof -
  have "1 < length (mp_fields sample_mapping)" by code_simp
  with sample_mapping_compiles show ?thesis by (rule choose_best_source)
qed

end
