(* ===== verification/Ulpf_Normalize.thy ===== *)
theory Ulpf_Normalize
  imports Ulpf_Mapping
begin

text \<open>
  What \<open>Mapping::normalize\<close> and \<open>Mapping::provenance\<close> (\<open>src/crates/ulpf-normalize/src/mapping.rs\<close>)
  promise each other: the traced value of a field is the value the emitted line has at that path,
  and nothing of an event is lost between the schema fields and \<open>unmapped\<close>.
\<close>

subsection \<open>The writes of a normalisation\<close>

definition put_all :: "(bytes \<times> jvalue) list \<Rightarrow> obj \<Rightarrow> obj" where
  "put_all xs root = foldl (\<lambda>r (k, v). set_path r k v) root xs"

lemma put_all_Nil [simp]: "put_all [] r = r"
  and put_all_Cons [simp]: "put_all ((k, v) # xs) r = put_all xs (set_path r k v)"
  and put_all_append [simp]: "put_all (xs @ ys) r = put_all ys (put_all xs r)"
  by (simp_all add: put_all_def)

definition enum_writes :: "bytes \<Rightarrow> bytes option \<Rightarrow> canonical \<Rightarrow> (bytes \<times> jvalue) list" where
  "enum_writes path id_field c =
     (path, VStr (fst c)) # (case (id_field, snd c) of (Some idf, Some i) \<Rightarrow> [(idf, VInt i)] | _ \<Rightarrow> [])"

lemma put_enum_writes: "put_enum path idf c root = put_all (enum_writes path idf c) root"
  by (simp add: put_enum_def enum_writes_def split: option.splits)

definition item_writes :: "mapping \<Rightarrow> parsed \<Rightarrow> nat \<times> (nat \<times> nat) option \<Rightarrow> (bytes \<times> jvalue) list" where
  "item_writes m p it =
     (let g = mp_fields m ! fst it in
      case snd it of
        None \<Rightarrow>
          (case sf_enum g of
             None \<Rightarrow> []
           | Some ei \<Rightarrow>
               (case et_unknown (mp_enums m ! ei) of
                  None \<Rightarrow> [] | Some c \<Rightarrow> enum_writes (sf_path g) (et_id_field (mp_enums m ! ei)) c))
      | Some (_, fi) \<Rightarrow>
          let src = pa_fields p ! fi; txt = utf8_lossy (cow_bytes (fd_value src)) in
          (case sf_enum g of
             Some ei \<Rightarrow>
               (case lookup_or_other (mp_enums m ! ei) (cow_bytes (fd_key src)) (lower txt) of
                  Some c \<Rightarrow> enum_writes (sf_path g) (et_id_field (mp_enums m ! ei)) c | None \<Rightarrow> [])
           | None \<Rightarrow> [(sf_path g, if sf_is_int g then as_int txt else VStr txt)]))"

lemma norm_winner_root: "ns_root (norm_winner m p it s) = put_all (item_writes m p it) (ns_root s)"
  by (simp add: norm_winner_def item_writes_def lookup_or_other_def Let_def lossy_def put_enum_writes
      split: option.splits prod.splits)

lemma norm_winners_root:
  "ns_root (foldl (\<lambda>s it. norm_winner m p it s) s its) = put_all (concat (map (item_writes m p) its)) (ns_root s)"
  by (induction its arbitrary: s) (simp_all add: norm_winner_root)

lemma keep_unmapped_root [simp]: "ns_root (keep_unmapped f s) = ns_root s"
  by (simp add: keep_unmapped_def lossy_def)

lemma keep_fold_root:
  "ns_root (foldl (\<lambda>s (i, f). if fates ! i = Unmapped then keep_unmapped f s else s) s its) = ns_root s"
  by (induction its arbitrary: s) (auto simp: split_beta)

lemma norm_fields_root:
  "ns_root (norm_fields m p s) =
     put_all (concat (map (item_writes m p) (List.enumerate 0 (choose_winners m p)))) (ns_root s)"
  by (simp add: norm_fields_def choose_fields_def Let_def norm_winners_root keep_fold_root)

subsection \<open>Writes that do not meet\<close>

lemma put_all_apart:
  "(\<And>k v. (k, v) \<in> set xs \<Longrightarrow> apart (path_parts k) qs) \<Longrightarrow> get_at (put_all xs r) qs = get_at r qs"
proof (induction xs arbitrary: r)
  case (Cons w xs)
  obtain k v where w: "w = (k, v)" by fastforce
  have "get_at (set_path r k v) qs = get_at r qs"
    using Cons.prems [of k v] w by (simp add: set_path_def get_set_apart)
  moreover have "get_at (put_all xs (set_path r k v)) qs = get_at (set_path r k v) qs"
    by (rule Cons.IH) (metis Cons.prems list.set_intros(2))
  ultimately show ?case using w by simp
qed simp

text \<open>
  The paths a mapping may set for an event of class \<open>c\<close> do not run through one another, nor
  through what the normaliser writes itself.
\<close>

definition own_keys :: "bytes list" where
  "own_keys = [''class_uid'', ''class_name'', ''category_uid'', ''category_name'', ''type_uid'', ''time'',
     ''ulpf'', ''unmapped'']"

definition own_metadata :: "bytes list" where
  "own_metadata = [''version'', ''product'', ''original_time'', ''processed_time'', ''event_time_rfc3339'', ''log_name'']"

definition free_path :: "bytes list \<Rightarrow> bool" where
  "free_path ps \<longleftrightarrow> hd ps \<notin> set own_keys \<and>
     (if hd ps = ''metadata'' then tl ps \<noteq> [] \<and> hd (tl ps) \<notin> set own_metadata else True)"

definition field_parts :: "mapping \<Rightarrow> bytes list list" where
  "field_parts m = map (\<lambda>g. path_parts (sf_path g)) (mp_fields m)"

definition id_paths :: "mapping \<Rightarrow> bytes list" where
  "id_paths m = List.map_filter (\<lambda>g. case sf_enum g of None \<Rightarrow> None | Some ei \<Rightarrow> et_id_field (mp_enums m ! ei)) (mp_fields m)"

definition paths_apart :: "mapping \<Rightarrow> class_rule \<Rightarrow> bool" where
  "paths_apart m c \<longleftrightarrow>
     sorted_wrt apart (field_parts m) \<and> list_all free_path (field_parts m) \<and>
     list_all (\<lambda>q. list_all (apart (path_parts q)) (field_parts m)) (id_paths m @ map fst (cl_constants c))"

lemma apart_sym: "apart ps qs \<longleftrightarrow> apart qs ps"
  by (auto simp: apart_def)

lemma field_parts_apart:
  assumes "paths_apart m c" "i < length (mp_fields m)" "j < length (mp_fields m)" "i \<noteq> j"
  shows "apart (path_parts (sf_path (mp_fields m ! i))) (path_parts (sf_path (mp_fields m ! j)))"
proof -
  have s: "sorted_wrt apart (field_parts m)" using assms(1) by (simp add: paths_apart_def)
  have "apart (field_parts m ! i) (field_parts m ! j)"
  proof (cases "i < j")
    case True
    then show ?thesis using sorted_wrt_nth_less [OF s True] assms(3) by (simp add: field_parts_def)
  next
    case False
    then have "j < i" using assms(4) by simp
    from sorted_wrt_nth_less [OF s this] show ?thesis using assms(2) by (simp add: field_parts_def apart_sym)
  qed
  then show ?thesis using assms(2,3) by (simp add: field_parts_def)
qed

lemma id_path_apart:
  assumes "paths_apart m c" "i < length (mp_fields m)" "sf_enum (mp_fields m ! i) = Some ei"
    "et_id_field (mp_enums m ! ei) = Some idf" "j < length (mp_fields m)"
  shows "apart (path_parts idf) (path_parts (sf_path (mp_fields m ! j)))"
proof -
  have "idf \<in> set (id_paths m)"
    using assms(3,4) nth_mem [OF assms(2)] by (auto simp: id_paths_def map_filter_def intro!: rev_image_eqI)
  moreover have "path_parts (sf_path (mp_fields m ! j)) \<in> set (field_parts m)"
    using assms(5) by (simp add: field_parts_def)
  ultimately show ?thesis using assms(1) by (simp add: paths_apart_def list_all_iff)
qed

text \<open>The paths of the writes for one schema field: its own and the id path of its enumeration.\<close>

lemma enum_writes_path: "(k, v) \<in> set (enum_writes path idf c) \<Longrightarrow> k = path \<or> idf = Some k"
  by (auto simp: enum_writes_def split: option.splits)

lemma item_writes_path:
  assumes "(k, v) \<in> set (item_writes m p (i, w))"
  shows "k = sf_path (mp_fields m ! i) \<or>
    (\<exists>ei. sf_enum (mp_fields m ! i) = Some ei \<and> et_id_field (mp_enums m ! ei) = Some k)"
  using assms
  by (cases w; cases "sf_enum (mp_fields m ! i)")
     (auto simp: item_writes_def Let_def dest!: enum_writes_path split: option.splits if_splits)

lemma item_writes_other:
  assumes "paths_apart m c" "i < length (mp_fields m)" "j < length (mp_fields m)" "i \<noteq> j"
    "(k, v) \<in> set (item_writes m p (i, w))"
  shows "apart (path_parts k) (path_parts (sf_path (mp_fields m ! j)))"
  using item_writes_path [OF assms(5)] field_parts_apart [OF assms(1-4)] id_path_apart [OF assms(1,2) _ _ assms(3)]
  by blast

lemma item_writes_traced:
  assumes "provenance_of m p (i, w) = Some pr"
  obtains v xs where "item_writes m p (i, w) = (sf_path (mp_fields m ! i), v) # xs" "scalar_text v = fp_value pr"
    "fp_path pr = sf_path (mp_fields m ! i)"
    "\<And>k u. (k, u) \<in> set xs \<Longrightarrow> \<exists>ei. sf_enum (mp_fields m ! i) = Some ei \<and> et_id_field (mp_enums m ! ei) = Some k"
proof -
  obtain r fi where w: "w = Some (r, fi)" using assms by (auto simp: provenance_of_def split: option.splits)
  show ?thesis
  proof (cases "sf_enum (mp_fields m ! i)")
    case None
    with assms w show ?thesis
      by (intro that) (auto simp: provenance_of_def item_writes_def Let_def scalar_text_def)
  next
    case (Some ei)
    with assms w obtain c where c: "lookup_or_other (mp_enums m ! ei) (cow_bytes (fd_key (pa_fields p ! fi)))
        (lower (utf8_lossy (cow_bytes (fd_value (pa_fields p ! fi))))) = Some c"
      and pr: "pr = \<lparr>fp_path = sf_path (mp_fields m ! i), fp_index = fi, fp_canonical = True, fp_value = fst c\<rparr>"
      by (auto simp: provenance_of_def Let_def split: option.splits)
    have "item_writes m p (i, w) = enum_writes (sf_path (mp_fields m ! i)) (et_id_field (mp_enums m ! ei)) c"
      using w Some c by (simp add: item_writes_def Let_def)
    with pr Some show ?thesis
      by (intro that) (auto simp: enum_writes_def scalar_text_def split: option.splits)
  qed
qed

subsection \<open>Provenance agrees with the emitted line\<close>

lemma put_class_other:
  assumes "ps \<noteq> []" "hd ps \<notin> set own_keys" "\<And>k. k \<in> fst ` set (cl_constants c) \<Longrightarrow> apart (path_parts k) ps"
  shows "get_at (put_class c r) ps = get_at r ps"
proof -
  have h: "hd ps \<noteq> ''class_uid''" "hd ps \<noteq> ''class_name''" "hd ps \<noteq> ''category_uid''" "hd ps \<noteq> ''category_name''"
    "hd ps \<noteq> ''type_uid''"
    using assms(2) by (auto simp: own_keys_def)
  define r1 where "r1 = obj_put ''category_name'' (VStr (cl_category_name c))
                (obj_put ''category_uid'' (VInt (cl_category_uid c))
                  (obj_put ''class_name'' (VStr (cl_name c)) (obj_put ''class_uid'' (VInt (cl_uid c)) r)))"
  define r2 where "r2 = foldl (\<lambda>r (k, v). set_path r k (toml_to_json v)) r1 (cl_constants c)"
  have "foldl (\<lambda>r (k, v). set_path r k (toml_to_json v)) q cs = put_all (map (\<lambda>(k, v). (k, toml_to_json v)) cs) q" for q cs
    by (induction cs arbitrary: q) auto
  then have "get_at r2 ps = get_at r1 ps"
    unfolding r2_def by (simp only:) (rule put_all_apart, use assms(3) in force)
  moreover have "get_at r1 ps = get_at r ps" using assms(1) h by (simp add: r1_def get_put_other)
  moreover have "get_at (put_class c r) ps = get_at r2 ps"
    using assms(1) h(5)
    by (simp add: put_class_def r1_def [symmetric] r2_def [symmetric] get_put_other split: option.split jvalue.split)
  ultimately show ?thesis by simp
qed

lemma put_some_other: "ps \<noteq> [] \<Longrightarrow> hd ps \<noteq> k \<Longrightarrow> get_at (put_some k v o1) ps = get_at o1 ps"
  by (simp add: put_some_def get_put_other split: option.split)

lemma metadata_other:
  assumes "ps \<noteq> []" "hd ps \<notin> set own_metadata"
  shows "get_at (metadata m p pv nanos meta0) ps = get_at meta0 ps"
proof -
  have "hd ps \<noteq> ''version''" "hd ps \<noteq> ''product''" "hd ps \<noteq> ''original_time''" "hd ps \<noteq> ''processed_time''"
    "hd ps \<noteq> ''event_time_rfc3339''" "hd ps \<noteq> ''log_name''"
    using assms(2) by (auto simp: own_metadata_def)
  with assms(1) show ?thesis by (simp add: metadata_def Let_def get_put_other put_some_other)
qed

lemma normalize_root_free:
  assumes "ps \<noteq> []" "free_path ps" "\<And>k. k \<in> fst ` set (cl_constants (select_class m p)) \<Longrightarrow> apart (path_parts k) ps"
    "normalize_root m p pv = (root, st)"
  shows "get_at root ps = get_at (ns_root (norm_fields m p (norm_start m p))) ps"
proof -
  obtain nanos pol where n: "event_nanos p pv = (nanos, pol)" by fastforce
  define s where "s = norm_fields m p (norm_start m p)"
  define r1 where "r1 = put_class (select_class m p) (ns_root s)"
  define r2 where "r2 = obj_put ''time'' (VInt (epoch_millis nanos)) r1"
  define r3 where "r3 = obj_put ''metadata'' (VObj (metadata m p pv nanos (as_object (map_of r2 ''metadata''))))
     (obj_remove ''metadata'' r2)"
  have h: "hd ps \<noteq> ''time''" "hd ps \<noteq> ''ulpf''" "hd ps \<noteq> ''unmapped''"
    using assms(2) by (auto simp: free_path_def own_keys_def)
  have "get_at root ps = get_at r3 ps"
    using assms(1,4) h
    by (auto simp: normalize_root_def n Let_def s_def [symmetric] r1_def [symmetric] r2_def [symmetric]
        r3_def [symmetric] get_put_other split: if_splits)
  also have "\<dots> = get_at r2 ps"
  proof (cases "hd ps = ''metadata''")
    case False
    with assms(1) show ?thesis by (simp add: r3_def get_put_other get_remove_other)
  next
    case True
    with assms(2) have t: "tl ps \<noteq> []" "hd (tl ps) \<notin> set own_metadata" by (auto simp: free_path_def)
    have ps: "ps = ''metadata'' # tl ps" using True assms(1) by (metis list.collapse)
    have "get_at r3 (''metadata'' # tl ps) = get_at (as_object (map_of r2 ''metadata'')) (tl ps)"
      using t by (simp add: r3_def get_put_inside metadata_other)
    also have "\<dots> = get_at r2 (''metadata'' # tl ps)" using t by (simp add: get_at_Cons)
    finally show ?thesis using ps by metis
  qed
  also have "\<dots> = get_at r1 ps" using assms(1) h by (simp add: r2_def get_put_other)
  also have "\<dots> = get_at (ns_root s) ps"
    unfolding r1_def using assms(1-3) by (intro put_class_other) (auto simp: free_path_def)
  finally show ?thesis by (simp add: s_def)
qed

lemma norm_fields_traced:
  assumes ap: "paths_apart m c" and i: "i < length (mp_fields m)"
    and pr: "provenance_of m p (i, choose_winners m p ! i) = Some pr"
  shows "\<exists>v. get_at (ns_root (norm_fields m p (norm_start m p))) (path_parts (fp_path pr)) = Some v \<and>
    scalar_text v = fp_value pr"
proof -
  let ?w = "choose_winners m p" and ?ps = "path_parts (sf_path (mp_fields m ! i))"
  have len: "length ?w = length (mp_fields m)" by (simp add: choose_winners_of)
  obtain v xs where iw: "item_writes m p (i, ?w ! i) = (sf_path (mp_fields m ! i), v) # xs"
    and v: "scalar_text v = fp_value pr" and path: "fp_path pr = sf_path (mp_fields m ! i)"
    and xs: "\<And>k u. (k, u) \<in> set xs \<Longrightarrow>
      \<exists>ei. sf_enum (mp_fields m ! i) = Some ei \<and> et_id_field (mp_enums m ! ei) = Some k"
    using item_writes_traced [OF pr] by metis
  have split: "List.enumerate 0 ?w = take i (List.enumerate 0 ?w) @ (i, ?w ! i) # drop (i + 1) (List.enumerate 0 ?w)"
    using id_take_nth_drop [of i "List.enumerate 0 ?w"] i len by (simp add: nth_enumerate_eq)
  define before where "before = concat (map (item_writes m p) (take i (List.enumerate 0 ?w)))"
  define after where "after = concat (map (item_writes m p) (drop (i + 1) (List.enumerate 0 ?w)))"
  have later: "apart (path_parts k) ?ps" if "(k, u) \<in> set after" for k u
  proof -
    from that obtain j w where jw: "(j, w) \<in> set (drop (i + 1) (List.enumerate 0 ?w))"
      "(k, u) \<in> set (item_writes m p (j, w))"
      by (auto simp: after_def)
    have "i < j" "j < length (mp_fields m)"
      using jw(1) len by (auto simp: in_set_conv_nth nth_enumerate_eq)
    with item_writes_other [OF ap _ i _ jw(2)] show ?thesis by simp
  qed
  have "apart (path_parts k) ?ps" if "(k, u) \<in> set xs" for k u
    using xs [OF that] id_path_apart [OF ap i _ _ i] by blast
  with later have "get_at (put_all (xs @ after) (set_path q (sf_path (mp_fields m ! i)) v)) ?ps = Some v" for q
    by (subst put_all_apart) (auto simp: set_path_def get_set_same)
  moreover have "ns_root (norm_fields m p (norm_start m p)) =
      put_all (xs @ after) (set_path (put_all before []) (sf_path (mp_fields m ! i)) v)"
    unfolding norm_fields_root by (subst split) (simp add: norm_start_def before_def after_def iw)
  ultimately show ?thesis using v path by simp
qed

text \<open>
  C12. What the traceback says of an event is what its line holds: when the paths a mapping
  sets do not run through one another, every entry of \<open>provenance\<close> names a schema path at which the
  normalised object has exactly the value the entry reports.
\<close>

theorem provenance_agrees:
  assumes "paths_apart m (select_class m p)" and "pr \<in> set (provenance_list m p)"
    and "normalize_root m p pv = (root, st)"
  shows "\<exists>v. get_path root (fp_path pr) = Some v \<and> scalar_text v = fp_value pr"
proof -
  from assms(2) obtain i where i: "i < length (mp_fields m)" "provenance_of m p (i, choose_winners m p ! i) = Some pr"
    by (auto simp: provenance_list_def map_filter_def in_set_conv_nth nth_enumerate_eq choose_winners_of)
  then have path: "fp_path pr = sf_path (mp_fields m ! i)" using item_writes_traced by metis
  have "path_parts (fp_path pr) \<in> set (field_parts m)" using i(1) path by (simp add: field_parts_def)
  with assms(1) have "free_path (path_parts (fp_path pr))"
    "\<And>k. k \<in> fst ` set (cl_constants (select_class m p)) \<Longrightarrow> apart (path_parts k) (path_parts (fp_path pr))"
    by (auto simp: paths_apart_def list_all_iff)
  from normalize_root_free [OF path_parts_ne this assms(3)] norm_fields_traced [OF assms(1) i]
  show ?thesis by (simp add: get_path_def)
qed

subsection \<open>Nothing is lost\<close>

text \<open>
  What must land under \<open>unmapped\<close>: the fields that feed nothing, in order, then the values
  an enumeration does not know.
\<close>

definition field_texts :: "field \<Rightarrow> bytes \<times> bytes" where
  "field_texts f = (utf8_lossy (cow_bytes (fd_key f)), utf8_lossy (cow_bytes (fd_value f)))"

definition enum_miss :: "mapping \<Rightarrow> parsed \<Rightarrow> nat \<times> (nat \<times> nat) option \<Rightarrow> (bytes \<times> bytes) list" where
  "enum_miss m p it =
     (case (snd it, sf_enum (mp_fields m ! fst it)) of
        (Some (_, fi), Some ei) \<Rightarrow>
          (case enum_lookup (mp_enums m ! ei) (cow_bytes (fd_key (pa_fields p ! fi)))
                  (lower (snd (field_texts (pa_fields p ! fi)))) of
             None \<Rightarrow> [field_texts (pa_fields p ! fi)] | Some _ \<Rightarrow> [])
      | _ \<Rightarrow> [])"

definition enum_misses :: "mapping \<Rightarrow> parsed \<Rightarrow> (bytes \<times> bytes) list" where
  "enum_misses m p = concat (map (enum_miss m p) (List.enumerate 0 (choose_winners m p)))"

definition fed_nothing :: "mapping \<Rightarrow> parsed \<Rightarrow> (bytes \<times> bytes) list" where
  "fed_nothing m p =
     map (\<lambda>i. field_texts (pa_fields p ! i)) (filter (\<lambda>i. snd (choose_fields m p) ! i = Unmapped) [0..<length (pa_fields p)])"

definition kept_as :: "bytes \<times> jvalue \<Rightarrow> bytes \<times> bytes \<Rightarrow> bool" where
  "kept_as e kt \<longleftrightarrow> snd e = VStr (snd kt) \<and> (\<exists>n \<ge> 1. fst e = repeat_key (fst kt) n)"

definition keeps :: "obj \<Rightarrow> (bytes \<times> bytes) list \<Rightarrow> bool" where
  "keeps um kts \<longleftrightarrow> list_all2 kept_as um kts \<and> distinct (map fst um)"

lemma obj_put_fresh: "map_of o1 k = None \<Longrightarrow> obj_put k v o1 = o1 @ [(k, v)]"
  by (induction o1) (auto split: if_splits)

lemma keeps_insert: "keeps um kts \<Longrightarrow> keeps (unmapped_insert um k (VStr t)) (kts @ [(k, t)])"
proof -
  assume k: "keeps um kts"
  obtain n where n: "1 \<le> n" "free_key um k 1 = repeat_key k n" and fresh: "map_of um (free_key um k 1) = None"
    using free_key_free [of um k 1] by blast
  have "unmapped_insert um k (VStr t) = um @ [(free_key um k 1, VStr t)]"
    using obj_put_fresh [OF fresh] by (simp add: unmapped_insert_def)
  moreover have "kept_as (free_key um k 1, VStr t) (k, t)" using n by (auto simp: kept_as_def)
  ultimately show ?thesis using k fresh by (simp add: keeps_def list_all2_appendI map_of_eq_None_iff)
qed

lemma keep_unmapped_effect:
  "keeps (ns_unmapped s) kts \<Longrightarrow> keeps (ns_unmapped (keep_unmapped f s)) (kts @ [field_texts f])"
  "st_mapped (ns_stats (keep_unmapped f s)) = st_mapped (ns_stats s)"
  "st_enum_other (ns_stats (keep_unmapped f s)) = st_enum_other (ns_stats s)"
  by (simp_all add: keep_unmapped_def lossy_def field_texts_def keeps_insert)

lemma keep_fold_effect:
  fixes fates :: "fate list"
  assumes "keeps (ns_unmapped s) kts"
  defines "r its \<equiv> foldl (\<lambda>s (i, f). if fates ! i = Unmapped then keep_unmapped f s else s) s its"
  shows "keeps (ns_unmapped (r its)) (kts @ map (\<lambda>(i, f). field_texts f) (filter (\<lambda>(i, f). fates ! i = Unmapped) its)) \<and>
    st_mapped (ns_stats (r its)) = st_mapped (ns_stats s) \<and> st_enum_other (ns_stats (r its)) = st_enum_other (ns_stats s)"
proof (induction its rule: rev_induct)
  case Nil
  show ?case using assms(1) by (simp add: r_def)
next
  case (snoc it its)
  then show ?case using keep_unmapped_effect(1) [of "r its" _ "snd it"]
    by (cases it) (simp add: r_def keep_unmapped_effect(2,3) flip: append_assoc)
qed

lemma norm_winner_effect:
  "keeps (ns_unmapped s) kts \<Longrightarrow> keeps (ns_unmapped (norm_winner m p it s)) (kts @ enum_miss m p it)"
  "st_mapped (ns_stats (norm_winner m p it s)) = st_mapped (ns_stats s) + (if snd it = None then 0 else 1)"
  "st_enum_other (ns_stats (norm_winner m p it s)) = st_enum_other (ns_stats s) + length (enum_miss m p it)"
  by (simp_all add: norm_winner_def enum_miss_def Let_def lossy_def field_texts_def keeps_insert
      split: option.split prod.split)

lemma norm_winners_effect:
  fixes m :: mapping and p :: parsed
  assumes "keeps (ns_unmapped s) kts"
  defines "r its \<equiv> foldl (\<lambda>s it. norm_winner m p it s) s its"
  shows "keeps (ns_unmapped (r its)) (kts @ concat (map (enum_miss m p) its)) \<and>
    st_mapped (ns_stats (r its)) = st_mapped (ns_stats s) + length (filter (\<lambda>it. snd it \<noteq> None) its) \<and>
    st_enum_other (ns_stats (r its)) = st_enum_other (ns_stats s) + length (concat (map (enum_miss m p) its))"
proof (induction its rule: rev_induct)
  case Nil
  show ?case using assms(1) by (simp add: r_def)
next
  case (snoc it its)
  then show ?case using norm_winner_effect(1) [of "r its" _ m p it]
    by (simp add: r_def norm_winner_effect(2,3) flip: append_assoc)
qed

lemma nth_update: "xs[a := v] ! k = (if a = k \<and> k < length xs then v else xs ! k)"
  by (cases "a < length xs") (auto simp: nth_list_update list_update_beyond)

lemma winner_feeds:
  "winners_of m fs ! idx = Some (r, i) \<Longrightarrow> idx < length (mp_fields m) \<Longrightarrow> i < length fs \<and> feeds m (fs ! i) idx r"
proof (induction fs arbitrary: r i rule: rev_induct)
  case Nil
  then show ?case by (simp add: winners_of_def)
next
  case (snoc f fs)
  show ?case
  proof (cases "winners_of m (fs @ [f]) ! idx = winners_of m fs ! idx")
    case True
    with snoc have "i < length fs \<and> feeds m (fs ! i) idx r" by simp
    then show ?thesis by (simp add: nth_append)
  next
    case False
    with snoc.prems have "r = r \<and> i = length fs \<and> feeds m f idx r"
      by (auto simp: winners_snoc choose_step_def feeds_def nth_update split: option.splits if_splits)
    then show ?thesis by (simp add: nth_append)
  qed
qed

lemma winner_fates:
  "length (filter (\<lambda>it. snd it \<noteq> None) (List.enumerate 0 (choose_winners m p))) =
   length (filter (\<lambda>i. snd (choose_fields m p) ! i = Winner) [0..<length (pa_fields p)])"
proof -
  let ?w = "choose_winners m p" and ?n = "length (pa_fields p)"
  let ?F = "\<lambda>idx. snd (the (?w ! idx))"
  have wl: "length ?w = length (mp_fields m)" by (simp add: choose_winners_of)
  have fd: "snd (choose_fields m p) ! i = field_fate m p ?w i" if "i < ?n" for i
    using that by (simp add: choose_fields_def Let_def)
  have ok: "i < ?n \<and> feeds m (pa_fields p ! i) idx r" if "?w ! idx = Some (r, i)" "idx < length ?w" for idx r i
    using winner_feeds [of m "pa_fields p" idx r i] that wl by (simp add: choose_winners_of)
  have won: "field_fate m p ?w i = Winner \<longleftrightarrow> (\<exists>idx < length ?w. \<exists>r. ?w ! idx = Some (r, i))" for i
    by (force simp: field_fate_def list_ex_iff in_set_conv_nth split: option.splits)
  have inj: "inj_on ?F {idx. idx < length ?w \<and> ?w ! idx \<noteq> None}"
  proof (rule inj_onI)
    fix a b assume "a \<in> {idx. idx < length ?w \<and> ?w ! idx \<noteq> None}" "b \<in> {idx. idx < length ?w \<and> ?w ! idx \<noteq> None}"
      "?F a = ?F b"
    then obtain r r' i where "?w ! a = Some (r, i)" "?w ! b = Some (r', i)" "a < length ?w" "b < length ?w" by auto
    with ok have "feeds m (pa_fields p ! i) a r" "feeds m (pa_fields p ! i) b r'" by blast+
    then show "a = b" by (simp add: feeds_def)
  qed
  have "?F ` {idx. idx < length ?w \<and> ?w ! idx \<noteq> None} = {i. i < ?n \<and> field_fate m p ?w i = Winner}"
    using ok by (auto simp: won image_iff) (metis option.sel snd_conv option.distinct(1))
  then have "card {idx. idx < length ?w \<and> ?w ! idx \<noteq> None} = card {i. i < ?n \<and> field_fate m p ?w i = Winner}"
    using card_image [OF inj] by simp
  moreover have "{i. i < ?n \<and> field_fate m p ?w i = Winner} = {i. i < ?n \<and> snd (choose_fields m p) ! i = Winner}"
    using fd by auto
  ultimately show ?thesis
    by (simp add: length_filter_conv_card nth_enumerate_eq cong: conj_cong)
qed

definition absent_count :: "mapping \<Rightarrow> parsed \<Rightarrow> nat" where
  "absent_count m p = length (filter (\<lambda>i. snd (choose_fields m p) ! i = Absent) [0..<length (pa_fields p)])"

lemma fates_sum:
  "length (filter (\<lambda>x. f x = Absent) xs) + length (filter (\<lambda>x. f x = Winner) xs) + length (filter (\<lambda>x. f x = Unmapped) xs)
    = length xs"
  by (induction xs) (auto, metis fate.exhaust)

lemma norm_fields_kept:
  defines "s m p \<equiv> norm_fields m p (norm_start m p)"
  shows "keeps (ns_unmapped (s m p)) (fed_nothing m p @ enum_misses m p)"
    and "st_mapped (ns_stats (s m p)) = length (filter (\<lambda>i. snd (choose_fields m p) ! i = Winner) [0..<length (pa_fields p)])"
    and "st_enum_other (ns_stats (s m p)) = length (enum_misses m p)"
proof -
  define fates where "fates = snd (choose_fields m p)"
  define s1 where "s1 = foldl (\<lambda>s (i, f). if fates ! i = Unmapped then keep_unmapped f s else s) (norm_start m p)
    (List.enumerate 0 (pa_fields p))"
  have s: "s m p = foldl (\<lambda>s it. norm_winner m p it s) s1 (List.enumerate 0 (choose_winners m p))"
    by (simp add: s_def norm_fields_def s1_def fates_def choose_fields_def Let_def)
  have fed: "map (\<lambda>(i, f). field_texts f) (filter (\<lambda>(i, f). fates ! i = Unmapped) (List.enumerate 0 (pa_fields p))) = fed_nothing m p"
    unfolding fed_nothing_def fates_def [symmetric] enumerate_eq_zip
    by (simp add: zip_map2 [of "[0..<length (pa_fields p)]" "\<lambda>i. pa_fields p ! i" "[0..<length (pa_fields p)]", unfolded map_nth]
        zip_same_conv_map filter_map o_def split_beta)
  have s1: "keeps (ns_unmapped s1) (fed_nothing m p)" "st_mapped (ns_stats s1) = 0" "st_enum_other (ns_stats s1) = 0"
    using keep_fold_effect [of "norm_start m p" "[]" fates "List.enumerate 0 (pa_fields p)"] fed
    by (simp_all add: s1_def norm_start_def keeps_def)
  note e = norm_winners_effect [OF s1(1), of m p "List.enumerate 0 (choose_winners m p)", unfolded winner_fates]
  show "keeps (ns_unmapped (s m p)) (fed_nothing m p @ enum_misses m p)"
    "st_mapped (ns_stats (s m p)) = length (filter (\<lambda>i. snd (choose_fields m p) ! i = Winner) [0..<length (pa_fields p)])"
    "st_enum_other (ns_stats (s m p)) = length (enum_misses m p)"
    using e s1(2,3) by (simp_all add: s enum_misses_def)
qed

lemma normalize_root_parts:
  fixes m :: mapping and p :: parsed
  assumes "normalize_root m p pv = (root, st)"
  defines "s \<equiv> norm_fields m p (norm_start m p)"
  shows "st_mapped st = st_mapped (ns_stats s)" "st_enum_other st = st_enum_other (ns_stats s)"
    "st_unmapped st = length (ns_unmapped s)"
    "ns_unmapped s \<noteq> [] \<Longrightarrow> map_of root ''unmapped'' = Some (VObj (ns_unmapped s))"
proof -
  obtain nanos pol where n: "event_nanos p pv = (nanos, pol)" by fastforce
  note e = assms(1) [unfolded normalize_root_def n Let_def prod.case s_def [symmetric] prod.inject]
  note st = e [THEN conjunct2, symmetric]
  show "st_mapped st = st_mapped (ns_stats s)" "st_enum_other st = st_enum_other (ns_stats s)"
    "st_unmapped st = length (ns_unmapped s)"
    unfolding st by simp_all
  show "map_of root ''unmapped'' = Some (VObj (ns_unmapped s))" if "ns_unmapped s \<noteq> []"
    unfolding e [THEN conjunct1, symmetric] using that by (simp only: if_True obj_put_get fun_upd_same not_False_eq_True)
qed

text \<open>
  C11. No value of an event is lost. Every parsed field carries an absent value, feeds
  exactly one schema field or lands under \<open>unmapped\<close>, and the counts of the statistics add up to
  that; the \<open>unmapped\<close> object holds, entry for entry and under distinct names that are the field's own
  or a numbered form of it, the text of each field that feeds nothing and of each value its enumeration does not know.
\<close>

theorem normalize_loses_nothing:
  assumes "normalize_root m p pv = (root, st)"
  shows "length (pa_fields p) + st_enum_other st = absent_count m p + st_mapped st + st_unmapped st \<and>
    (fed_nothing m p @ enum_misses m p = [] \<or>
      (\<exists>um. map_of root ''unmapped'' = Some (VObj um) \<and> length um = st_unmapped st \<and>
         keeps um (fed_nothing m p @ enum_misses m p)))"
proof (rule conjI)
  note kept = norm_fields_kept [of m p]
  have len: "length (ns_unmapped (norm_fields m p (norm_start m p))) = length (fed_nothing m p) + length (enum_misses m p)"
    using list_all2_lengthD [of kept_as] kept(1) by (fastforce simp: keeps_def)
  have st: "st_mapped st = st_mapped (ns_stats (norm_fields m p (norm_start m p)))"
    "st_enum_other st = st_enum_other (ns_stats (norm_fields m p (norm_start m p)))"
    "st_unmapped st = length (ns_unmapped (norm_fields m p (norm_start m p)))"
    by (rule normalize_root_parts [OF assms])+
  have "length (fed_nothing m p) = length (filter (\<lambda>i. snd (choose_fields m p) ! i = Unmapped) [0..<length (pa_fields p)])"
    by (simp add: fed_nothing_def)
  with st kept(2,3) len fates_sum [of "\<lambda>i. snd (choose_fields m p) ! i" "[0..<length (pa_fields p)]"]
  show "length (pa_fields p) + st_enum_other st = absent_count m p + st_mapped st + st_unmapped st"
    by (simp add: absent_count_def)
  show "fed_nothing m p @ enum_misses m p = [] \<or>
      (\<exists>um. map_of root ''unmapped'' = Some (VObj um) \<and> length um = st_unmapped st \<and>
         keeps um (fed_nothing m p @ enum_misses m p))"
  proof (cases "ns_unmapped (norm_fields m p (norm_start m p)) = []")
    case True
    with len show ?thesis by simp
  next
    case False
    from normalize_root_parts(4) [OF assms this]
    have um: "map_of root ''unmapped'' = Some (VObj (ns_unmapped (norm_fields m p (norm_start m p))))" .
    show ?thesis by (rule disjI2, rule exI, intro conjI, rule um, rule st(3) [symmetric], rule kept(1))
  qed
qed

subsection \<open>At the sample mapping\<close>

definition sample_provenance :: provenance where
  "sample_provenance = \<lparr>pv_raw_id = 7, pv_source = ''fw'', pv_parser = Some ''sample'', pv_vendor = None,
     pv_product = None, pv_receipt = 0, pv_parse_status = ''parsed'', pv_sub_status = ''not_applicable''\<rparr>"

lemma provenance_agrees_witness:
  "\<exists>root v. get_path root ''src.port'' = Some v \<and> scalar_text v = ''31''"
proof -
  obtain root st where n: "normalize_root sample_mapping sample_event_fields sample_provenance = (root, st)" by fastforce
  let ?pr = "\<lparr>fp_path = ''src.port'', fp_index = 4, fp_canonical = False, fp_value = ''31''\<rparr>"
  have "paths_apart sample_mapping (select_class sample_mapping sample_event_fields)" by code_simp
  moreover have "?pr \<in> set (provenance_list sample_mapping sample_event_fields)" by code_simp
  ultimately have "\<exists>v. get_path root (fp_path ?pr) = Some v \<and> scalar_text v = fp_value ?pr"
    using n by (rule provenance_agrees)
  then show ?thesis by auto
qed

lemma normalize_loses_nothing_witness:
  "\<exists>root um. map_of root ''unmapped'' = Some (VObj um) \<and> keeps um [(''user'', ''root'')]"
proof -
  obtain root st where n: "normalize_root sample_mapping sample_event_fields sample_provenance = (root, st)" by fastforce
  have "fed_nothing sample_mapping sample_event_fields @ enum_misses sample_mapping sample_event_fields = [(''user'', ''root'')]"
    by code_simp
  with normalize_loses_nothing [OF n] show ?thesis by auto
qed

end
