(* ===== verification/Ulpf_Mapping_Load.thy ===== *)
theory Ulpf_Mapping_Load
  imports Ulpf_Mapping Ulpf_Detect "HOL-Library.AList" "HOL-Library.Multiset"
begin

text \<open>
  Loading mappings, \<open>src/crates/ulpf-normalize/src/load.rs\<close>: \<open>parse_file\<close>, \<open>load_files\<close>,
  \<open>load_dir\<close> and \<open>merge\<close>. Files that name one schema are merged in file-name order. A \<open>BTreeMap\<close>
  is the list of its entries in key order; reading a file and the \<open>toml\<close> crate are parameters.
\<close>

subsection \<open>Merging\<close>

text \<open>\<open>BTreeMap::entry\<close>: update the entry of the key, or insert one in key order.\<close>

definition bt_entry :: "bytes \<Rightarrow> ('v option \<Rightarrow> 'v) \<Rightarrow> (bytes \<times> 'v) list \<Rightarrow> (bytes \<times> 'v) list" where
  "bt_entry k f m =
     (case map_of m k of
        Some v \<Rightarrow> AList.update k (f (Some v)) m
      | None \<Rightarrow> insort_key fst (k, f None) m)"

definition or_nil :: "'a list option \<Rightarrow> 'a list" where
  "or_nil x = (case x of Some l \<Rightarrow> l | None \<Rightarrow> [])"

definition or_keep :: "'a option \<Rightarrow> 'a option \<Rightarrow> 'a option" where
  "or_keep a b = (if a = None then b else a)"

definition add_new :: "'a list \<Rightarrow> 'a list \<Rightarrow> 'a list" where
  "add_new xs ys = foldl (\<lambda>l a. if a \<in> set l then l else l @ [a]) xs ys"

text \<open>\<open>iter_mut().find\<close>, then merge into the element found, or push.\<close>

definition merge_into :: "('a \<Rightarrow> bool) \<Rightarrow> ('a \<Rightarrow> 'a) \<Rightarrow> 'a \<Rightarrow> 'a list \<Rightarrow> 'a list" where
  "merge_into same f x xs =
     (case position same xs of Some i \<Rightarrow> xs[i := f (xs ! i)] | None \<Rightarrow> xs @ [x])"

definition merge_fields :: "(bytes \<times> bytes list) list \<Rightarrow> (bytes \<times> bytes list) list \<Rightarrow> (bytes \<times> bytes list) list" where
  "merge_fields base add = foldl (\<lambda>m (path, aliases). bt_entry path (\<lambda>o1. add_new (or_nil o1) aliases) m) base add"

definition merge_value :: "enum_value \<Rightarrow> enum_value \<Rightarrow> enum_value" where
  "merge_value old v =
     old\<lparr>ev_id := or_keep (ev_id old) (ev_id v), ev_raw := ev_raw old @ ev_raw v,
        ev_raw_by_field := foldl (\<lambda>m (k, l). bt_entry k (\<lambda>o1. or_nil o1 @ l) m) (ev_raw_by_field old) (ev_raw_by_field v)\<rparr>"

definition merge_enum :: "enum_spec \<Rightarrow> enum_spec \<Rightarrow> enum_spec" where
  "merge_enum b e =
     b\<lparr>es_id_field := or_keep (es_id_field b) (es_id_field e), es_unknown := or_keep (es_unknown b) (es_unknown e),
       es_other := or_keep (es_other b) (es_other e),
       es_values := foldl (\<lambda>vs v. merge_into (\<lambda>old. ev_value old = ev_value v) (\<lambda>old. merge_value old v) v vs)
         (es_values b) (es_values e)\<rparr>"

definition merge_class :: "class_rule \<Rightarrow> class_rule \<Rightarrow> class_rule" where
  "merge_class b c =
     b\<lparr>cl_when := cl_when b @ cl_when c,
       cl_constants := foldl (\<lambda>m (k, v). bt_entry k (\<lambda>o1. case o1 of Some w \<Rightarrow> w | None \<Rightarrow> v) m)
         (cl_constants b) (cl_constants c)\<rparr>"

definition merge_entities :: "entities \<Rightarrow> entities \<Rightarrow> entities" where
  "merge_entities b a =
     \<lparr>en_src_ip = or_keep (en_src_ip b) (en_src_ip a), en_dst_ip = or_keep (en_dst_ip b) (en_dst_ip a),
      en_user = or_keep (en_user b) (en_user a), en_dst_port = or_keep (en_dst_port b) (en_dst_port a),
      en_device = or_keep (en_device b) (en_device a)\<rparr>"

definition merge_mapping :: "mapping_file \<Rightarrow> mapping_file \<Rightarrow> mapping_file" where
  "merge_mapping base a =
     base\<lparr>mf_version := or_keep (mf_version base) (mf_version a),
        mf_fields := merge_fields (mf_fields base) (mf_fields a),
        mf_int := add_new (mf_int base) (mf_int a),
        mf_absent := add_new (mf_absent base) (mf_absent a),
        mf_enums := foldl (\<lambda>es e. merge_into (\<lambda>b. es_field b = es_field e) (\<lambda>b. merge_enum b e) e es)
          (mf_enums base) (mf_enums a),
        mf_class := foldl (\<lambda>cs c. merge_into (\<lambda>b. cl_uid b = cl_uid c) (\<lambda>b. merge_class b c) c cs)
          (mf_class base) (mf_class a),
        mf_default_class := or_keep (mf_default_class base) (mf_default_class a),
        mf_entities := merge_entities (mf_entities base) (mf_entities a)\<rparr>"

subsection \<open>Loading\<close>

type_synonym mapping_reader = "bytes \<Rightarrow> (nat option \<times> bytes) + mapping_file"

definition parse_file :: "mapping_reader \<Rightarrow> bytes \<Rightarrow> bytes \<Rightarrow> load_error + mapping_file" where
  "parse_file toml path content =
     (case toml content of
        Inl (start, message) \<Rightarrow>
          Inl \<lparr>le_path = path,
               le_line = map_option (\<lambda>s. length (filter (\<lambda>b. b = CHR 0x0A) (take (min s (length content)) content)) + 1) start,
               le_message = message\<rparr>
      | Inr f \<Rightarrow> Inr f)"

definition read_mapping :: "mapping_reader \<Rightarrow> (bytes \<Rightarrow> bytes + bytes) \<Rightarrow> bytes \<Rightarrow> load_error + bytes \<times> mapping_file" where
  "read_mapping toml read path =
     (case read path of
        Inl e \<Rightarrow> Inl \<lparr>le_path = path, le_line = None, le_message = ''cannot read: '' @ e\<rparr>
      | Inr content \<Rightarrow> (case parse_file toml path content of Inl e \<Rightarrow> Inl e | Inr f \<Rightarrow> Inr (path, f)))"

type_synonym merged = "bytes \<times> bytes list \<times> mapping_file"

definition merge_file :: "merged list \<Rightarrow> bytes \<times> mapping_file \<Rightarrow> merged list" where
  "merge_file ms pf =
     (case pf of (path, f) \<Rightarrow>
        merge_into (\<lambda>(n, _, _). n = mf_name f) (\<lambda>(n, paths, base). (n, paths @ [path], merge_mapping base f))
          (mf_name f, [path], f) ms)"

record mapping_report =
  mr_mappings :: "mapping list"
  mr_errors :: "load_error list"

definition load_files :: "mapping_reader \<Rightarrow> (bytes \<Rightarrow> bytes + bytes) \<Rightarrow> bytes list \<Rightarrow> mapping_report" where
  "load_files toml read paths =
     (let rs = map (read_mapping toml read) paths;
          merged = foldl merge_file [] (List.map_filter (\<lambda>r. case r of Inr pf \<Rightarrow> Some pf | Inl _ \<Rightarrow> None) rs);
          compiled = map (\<lambda>(_, paths, f). case compile_mapping f of
              Inr m \<Rightarrow> Inr m
            | Inl message \<Rightarrow> Inl \<lparr>le_path = paths ! 0, le_line = None, le_message = message\<rparr>) merged in
      \<lparr>mr_mappings = List.map_filter (\<lambda>r. case r of Inr m \<Rightarrow> Some m | Inl _ \<Rightarrow> None) compiled,
       mr_errors = List.map_filter (\<lambda>r. case r of Inl e \<Rightarrow> Some e | Inr _ \<Rightarrow> None) rs @
         List.map_filter (\<lambda>r. case r of Inl e \<Rightarrow> Some e | Inr _ \<Rightarrow> None) compiled\<rparr>)"

definition load_mapping_dir :: "mapping_reader \<Rightarrow> (bytes \<Rightarrow> bytes + bytes) \<Rightarrow> bytes list \<Rightarrow> mapping_report" where
  "load_mapping_dir toml read entries = load_files toml read (sort (filter is_toml entries))"

subsection \<open>Merging keeps what was there\<close>

lemma map_of_insort: "map_of m k = None \<Longrightarrow> map_of (insort_key fst (k, v) m) = (map_of m)(k \<mapsto> v)"
  by (induction m) (auto simp: fun_eq_iff)

lemma map_of_bt_entry: "map_of (bt_entry k f m) = (map_of m)(k \<mapsto> f (map_of m k))"
  by (simp add: bt_entry_def map_of_insort update_conv' split: option.split)

lemma bt_entry_keys:
  assumes "sorted (map fst m)" "distinct (map fst m)"
  shows "sorted (map fst (bt_entry k f m)) \<and> distinct (map fst (bt_entry k f m)) \<and>
    set (map fst (bt_entry k f m)) = insert k (set (map fst m))"
proof (cases "map_of m k")
  case None
  then have k: "k \<notin> set (map fst m)" by (simp add: map_of_eq_None_iff)
  have "distinct (map fst (insort_key fst (k, v) m))" for v
  proof -
    have "mset (map fst (insort_key fst (k, v) m)) = mset (k # map fst m)" by (simp add: mset_insort)
    then show ?thesis using assms(2) k by (metis mset_eq_imp_distinct_iff distinct.simps(2))
  qed
  then show ?thesis using None assms(1)
    by (auto simp: bt_entry_def sorted_insort_key set_insort_key)
next
  case (Some v)
  have "map fst (AList.update k w m) = map fst m" for w
    using Some by (induction m) (auto split: if_splits)
  moreover have "k \<in> set (map fst m)" using Some by (force dest: map_of_SomeD)
  ultimately show ?thesis using Some assms unfolding bt_entry_def by (auto simp del: set_map simp: insert_absorb)
qed

lemma bt_entry_in:
  assumes "distinct (map fst m)" "(s, b) \<in> set (bt_entry k f m)" "sorted (map fst m)"
  shows "s = k \<and> b = f (map_of m k) \<or> s \<noteq> k \<and> (s, b) \<in> set m"
proof -
  have "map_of (bt_entry k f m) s = Some b"
    using assms bt_entry_keys [OF assms(3,1), of k f] by (intro map_of_is_SomeI) auto
  then show ?thesis by (auto simp: map_of_bt_entry dest: map_of_SomeD split: if_splits)
qed

lemma add_new_extends: "prefix xs (add_new xs ys) \<and> set (add_new xs ys) = set xs \<union> set ys"
proof -
  have "prefix xs (foldl (\<lambda>l a. if a \<in> set l then l else l @ [a]) xs ys) \<and>
    set (foldl (\<lambda>l a. if a \<in> set l then l else l @ [a]) xs ys) = set xs \<union> set ys"
    by (induction ys rule: rev_induct) (auto simp: prefix_def)
  then show ?thesis by (simp add: add_new_def)
qed

text \<open>Each alias list of \<open>m\<close> is the start of one of \<open>m'\<close>, so every alias keeps its rank.\<close>

definition ranks_kept :: "(bytes \<times> bytes list) list \<Rightarrow> (bytes \<times> bytes list) list \<Rightarrow> bool" where
  "ranks_kept m m' \<longleftrightarrow> list_all (\<lambda>path. case map_of m' path of Some l \<Rightarrow> prefix (the (map_of m path)) l | None \<Rightarrow> False) (map fst m)"

definition aliases_kept :: "(bytes \<times> bytes list) list \<Rightarrow> (bytes \<times> bytes list) list \<Rightarrow> bool" where
  "aliases_kept m m' \<longleftrightarrow> list_all (\<lambda>(path, l). case map_of m' path of Some l' \<Rightarrow> set l \<subseteq> set l' | None \<Rightarrow> False) m"

definition fields_le :: "(bytes \<rightharpoonup> bytes list) \<Rightarrow> (bytes \<rightharpoonup> bytes list) \<Rightarrow> bool" where
  "fields_le m m' \<longleftrightarrow> (\<forall>path l. m path = Some l \<longrightarrow> (\<exists>l'. m' path = Some l' \<and> prefix l l'))"

lemma fields_le_refl [simp]: "fields_le m m"
  by (auto simp: fields_le_def)

lemma fields_le_trans: "fields_le a b \<Longrightarrow> fields_le b c \<Longrightarrow> fields_le a c"
  unfolding fields_le_def by (meson prefix_order.order_trans)

lemma fields_leD: "fields_le m m' \<Longrightarrow> m path = Some l \<Longrightarrow> \<exists>l'. m' path = Some l' \<and> prefix l l'"
  by (simp add: fields_le_def)

lemma fields_le_ranks: "fields_le (map_of m) (map_of m') \<Longrightarrow> ranks_kept m m'"
proof -
  assume le: "fields_le (map_of m) (map_of m')"
  have "case map_of m' path of Some l \<Rightarrow> prefix (the (map_of m path)) l | None \<Rightarrow> False" if mem: "path \<in> fst ` set m" for path
  proof -
    from mem obtain x where "(path, x) \<in> set m" by auto
    from weak_map_of_SomeI [OF this] obtain l where l: "map_of m path = Some l" by blast
    from fields_leD [OF le l] obtain l' where "map_of m' path = Some l'" "prefix l l'" by blast
    with l show ?thesis by simp
  qed
  then show ?thesis by (simp add: ranks_kept_def list_all_iff)
qed

lemma fields_le_aliases:
  assumes "aliases_kept m a" "fields_le (map_of a) (map_of b)"
  shows "aliases_kept m b"
proof -
  have "case map_of b path of Some l' \<Rightarrow> set l \<subseteq> set l' | None \<Rightarrow> False" if "(path, l) \<in> set m" for path l
  proof -
    from that assms(1) obtain k where k: "map_of a path = Some k" "set l \<subseteq> set k"
      by (force simp: aliases_kept_def list_all_iff split: option.splits)
    from fields_leD [OF assms(2) k(1)] obtain k' where "map_of b path = Some k'" "prefix k k'" by blast
    with k(2) show ?thesis using set_mono_prefix [of k k'] by auto
  qed
  then show ?thesis by (auto simp: aliases_kept_def list_all_iff)
qed

lemma fields_le_upd: "fields_le m (m(path \<mapsto> add_new (or_nil (m path)) l))"
  using add_new_extends [of "or_nil (m path)" l] by (auto simp: fields_le_def or_nil_def)

lemma merge_fields_extends: "fields_le (map_of base) (map_of (merge_fields base a)) \<and> aliases_kept a (merge_fields base a)"
  unfolding merge_fields_def
proof (induction a rule: rev_induct)
  case Nil
  show ?case by (simp add: aliases_kept_def)
next
  case (snoc x xs)
  obtain path l where x: "x = (path, l)" by fastforce
  let ?step = "\<lambda>m (path, aliases). bt_entry path (\<lambda>o1. add_new (or_nil o1) aliases) m"
  let ?m = "foldl ?step base xs"
  let ?m' = "foldl ?step base (xs @ [x])"
  have m': "map_of ?m' = (map_of ?m)(path \<mapsto> add_new (or_nil (map_of ?m path)) l)"
    by (simp add: x map_of_bt_entry)
  have le: "fields_le (map_of ?m) (map_of ?m')"
    unfolding m' by (rule fields_le_upd)
  have "aliases_kept [x] ?m'"
    unfolding aliases_kept_def m' using add_new_extends [of "or_nil (map_of ?m path)" l] by (simp add: x)
  moreover have "aliases_kept xs ?m'" using snoc.IH fields_le_aliases [OF _ le] by simp
  ultimately have "aliases_kept (xs @ [x]) ?m'" by (simp add: aliases_kept_def)
  with fields_le_trans [OF _ le] snoc.IH show ?case by blast
qed

subsection \<open>Files of one schema make one mapping\<close>

definition first_seen :: "'a list \<Rightarrow> 'a list" where
  "first_seen xs = rev (remdups (rev xs))"

definition readable :: "mapping_reader \<Rightarrow> (bytes \<Rightarrow> bytes + bytes) \<Rightarrow> bytes list \<Rightarrow> (bytes \<times> mapping_file) list" where
  "readable toml read paths =
     List.map_filter (\<lambda>r. case r of Inr pf \<Rightarrow> Some pf | Inl _ \<Rightarrow> None) (map (read_mapping toml read) paths)"

definition named :: "bytes \<Rightarrow> (bytes \<times> mapping_file) list \<Rightarrow> (bytes \<times> mapping_file) list" where
  "named n fs = filter (\<lambda>pf. mf_name (snd pf) = n) fs"

definition schema_groups :: "(bytes \<times> mapping_file) list \<Rightarrow> (bytes \<times> mapping_file) list list" where
  "schema_groups fs = map (\<lambda>n. named n fs) (first_seen (map (\<lambda>pf. mf_name (snd pf)) fs))"

definition merged_file :: "(bytes \<times> mapping_file) list \<Rightarrow> mapping_file" where
  "merged_file g = foldl merge_mapping (snd (hd g)) (map snd (tl g))"

lemma first_seen_snoc: "first_seen (xs @ [x]) = (if x \<in> set xs then first_seen xs else first_seen xs @ [x])"
  by (simp add: first_seen_def)

lemma first_seen_set [simp]: "set (first_seen xs) = set xs"
  and first_seen_distinct [simp]: "distinct (first_seen xs)"
  by (simp_all add: first_seen_def)

lemma named_snoc: "named n (fs @ [pf]) = (if mf_name (snd pf) = n then named n fs @ [pf] else named n fs)"
  by (simp add: named_def)

lemma named_ne: "n \<in> (\<lambda>pf. mf_name (snd pf)) ` set fs \<longleftrightarrow> named n fs \<noteq> []"
  by (auto simp: named_def filter_empty_conv)

lemma merged_file_snoc: "g \<noteq> [] \<Longrightarrow> merged_file (g @ [pf]) = merge_mapping (merged_file g) (snd pf)"
  by (simp add: merged_file_def)

lemma merge_into_map:
  "distinct ns \<Longrightarrow> (\<And>n. n \<in> set ns \<Longrightarrow> same (h n) \<longleftrightarrow> n = k) \<Longrightarrow>
   merge_into same f x (map h ns) =
     (if k \<in> set ns then map (\<lambda>n. if n = k then f (h n) else h n) ns else map h ns @ [x])"
proof (induction ns)
  case (Cons n ns)
  have ih: "merge_into same f x (map h ns) =
     (if k \<in> set ns then map (\<lambda>n. if n = k then f (h n) else h n) ns else map h ns @ [x])"
    by (rule Cons.IH) (use Cons.prems in simp_all)
  show ?case
  proof (cases "n = k")
    case True
    with Cons.prems show ?thesis by (auto simp: merge_into_def)
  next
    case False
    then have "merge_into same f x (map h (n # ns)) = h n # merge_into same f x (map h ns)"
      using Cons.prems(2) [of n] by (simp add: merge_into_def split: option.split)
    with ih False show ?thesis by auto
  qed
qed (simp add: merge_into_def)

lemma merge_files_groups:
  "foldl merge_file [] fs =
     map (\<lambda>n. (n, map fst (named n fs), merged_file (named n fs))) (first_seen (map (\<lambda>pf. mf_name (snd pf)) fs))"
proof (induction fs rule: rev_induct)
  case Nil
  show ?case by (simp add: first_seen_def)
next
  case (snoc pf fs)
  obtain path f where pf: "pf = (path, f)" by fastforce
  let ?h = "\<lambda>n. (n, map fst (named n fs), merged_file (named n fs))"
  let ?ns = "first_seen (map (\<lambda>pf. mf_name (snd pf)) fs)"
  have "foldl merge_file [] (fs @ [pf]) =
      merge_into (\<lambda>(n, _, _). n = mf_name f) (\<lambda>(n, paths, base). (n, paths @ [path], merge_mapping base f))
        (mf_name f, [path], f) (map ?h ?ns)"
    by (simp add: snoc merge_file_def pf)
  also have "\<dots> = (if mf_name f \<in> set ?ns
      then map (\<lambda>n. if n = mf_name f then (n, map fst (named n fs) @ [path], merge_mapping (merged_file (named n fs)) f) else ?h n) ?ns
      else map ?h ?ns @ [(mf_name f, [path], f)])"
    by (subst merge_into_map [where k = "mf_name f"]) auto
  also have "\<dots> = map (\<lambda>n. (n, map fst (named n (fs @ [pf])), merged_file (named n (fs @ [pf]))))
      (first_seen (map (\<lambda>pf. mf_name (snd pf)) (fs @ [pf])))"
  proof (cases "mf_name f \<in> (\<lambda>pf. mf_name (snd pf)) ` set fs")
    case True
    then have "named (mf_name f) fs \<noteq> []" by (rule named_ne [THEN iffD1])
    with True show ?thesis by (auto simp: pf first_seen_snoc named_snoc merged_file_snoc)
  next
    case False
    then have "named (mf_name f) fs = []" by (metis named_ne)
    with False show ?thesis by (auto simp: pf first_seen_snoc named_snoc merged_file_def)
  qed
  finally show ?case .
qed

lemma merge_mapping_fields: "mf_fields (merge_mapping a b) = merge_fields (mf_fields a) (mf_fields b)"
  by (simp add: merge_mapping_def)

lemma merged_fields:
  "fields_le (map_of (mf_fields f)) (map_of (mf_fields (foldl merge_mapping f fs))) \<and>
   list_all (\<lambda>a. aliases_kept (mf_fields a) (mf_fields (foldl merge_mapping f fs))) fs"
proof (induction fs rule: rev_induct)
  case (snoc x xs)
  let ?m = "foldl merge_mapping f xs"
  have le: "fields_le (map_of (mf_fields ?m)) (map_of (mf_fields (merge_mapping ?m x)))"
    "aliases_kept (mf_fields x) (mf_fields (merge_mapping ?m x))"
    using merge_fields_extends by (simp_all add: merge_mapping_fields)
  have "list_all (\<lambda>a. aliases_kept (mf_fields a) (mf_fields (merge_mapping ?m x))) xs"
    using snoc.IH fields_le_aliases [OF _ le(1)] by (simp add: list_all_iff)
  with le snoc.IH fields_le_trans [OF _ le(1)] show ?case by simp
qed simp

lemma map_filter_sums:
  "length (List.map_filter (\<lambda>r. case r of Inr m \<Rightarrow> Some m | Inl _ \<Rightarrow> None) rs) +
   length (List.map_filter (\<lambda>r. case r of Inl e \<Rightarrow> Some e | Inr _ \<Rightarrow> None) rs) = length rs"
  by (induction rs) (auto simp: map_filter_def split: sum.splits)

text \<open>
  The files that name one schema make one mapping. The mappings loaded are those of
  the schemas in first-seen order, each the merge of its files in order; every schema and every
  unreadable file gives one mapping or one error; and merging keeps every alias of every file, those of
  the first file at their ranks.
\<close>

theorem load_merges_by_schema:
  "(let r = load_files toml read paths; files = readable toml read paths; gs = schema_groups files in
    mr_mappings r = List.map_filter (\<lambda>g. case compile_mapping (merged_file g) of Inr m \<Rightarrow> Some m | Inl _ \<Rightarrow> None) gs \<and>
    length (mr_mappings r) + length (mr_errors r) + length files = length gs + length paths \<and>
    list_all (\<lambda>g. ranks_kept (mf_fields (snd (hd g))) (mf_fields (merged_file g)) \<and>
      list_all (\<lambda>pf. aliases_kept (mf_fields (snd pf)) (mf_fields (merged_file g))) (tl g)) gs)"
proof -
  let ?rs = "map (read_mapping toml read) paths" and ?fs = "readable toml read paths"
  let ?compile = "\<lambda>(_ :: bytes, paths, f). case compile_mapping f of
      Inr m \<Rightarrow> Inr m | Inl message \<Rightarrow> Inl \<lparr>le_path = paths ! 0, le_line = None, le_message = message\<rparr>"
  let ?cs = "map ?compile (foldl merge_file [] ?fs)"
  have r: "load_files toml read paths = \<lparr>mr_mappings = List.map_filter (\<lambda>r. case r of Inr m \<Rightarrow> Some m | Inl _ \<Rightarrow> None) ?cs,
      mr_errors = List.map_filter (\<lambda>r. case r of Inl e \<Rightarrow> Some e | Inr _ \<Rightarrow> None) ?rs @
         List.map_filter (\<lambda>r. case r of Inl e \<Rightarrow> Some e | Inr _ \<Rightarrow> None) ?cs\<rparr>"
    by (simp only: load_files_def Let_def readable_def)
  have "List.map_filter (\<lambda>r. case r of Inr m \<Rightarrow> Some m | Inl _ \<Rightarrow> None) ?cs =
      List.map_filter (\<lambda>g. case compile_mapping (merged_file g) of Inr m \<Rightarrow> Some m | Inl _ \<Rightarrow> None) (schema_groups ?fs)"
    unfolding merge_files_groups schema_groups_def by (auto simp: map_filter_def o_def filter_map split: sum.splits intro!: arg_cong2 [where f = map] filter_cong)
  moreover have "length ?cs = length (schema_groups ?fs)"
    by (simp add: merge_files_groups schema_groups_def)
  moreover note map_filter_sums [of ?cs] map_filter_sums [of ?rs]
  moreover have "ranks_kept (mf_fields (snd (hd g))) (mf_fields (merged_file g)) \<and>
      list_all (\<lambda>pf. aliases_kept (mf_fields (snd pf)) (mf_fields (merged_file g))) (tl g)" for g
    using merged_fields [of "snd (hd g)" "map snd (tl g)"] fields_le_ranks
    by (simp add: merged_file_def list_all_iff)
  ultimately show ?thesis
    unfolding Let_def r by (simp add: list_all_iff readable_def)
qed

end
