(* ===== verification/Ulpf_Ingest.thy ===== *)
theory Ulpf_Ingest
  imports Ulpf_Frame Ulpf_Store
begin

text \<open>
  How bytes become stored records and batches: \<open>Batch\<close> and \<open>ingest_file\<close> of
  \<open>src/crates/ulpf/src/engine.rs\<close>. A batch is stored whole before it leaves: its events are
  appended, flushed and given the next sequence number under one lock. The clock, the
  stop flag and the fate of the queue are functions of the number of batches sent so far; the
  catalogue's rows (SQLite) are outside the model, so the id of the source is given.
\<close>

record batch =
  bt_seq :: nat
  bt_name :: bytes
  bt_names :: "(nat \<times> bytes) list"
  bt_bytes :: bytes
  bt_receipt :: int
  bt_first :: nat
  bt_ranges :: "(nat \<times> nat) list"
  bt_receipts :: "int list"
  bt_sources :: "nat list"

definition batch_receipt :: "batch \<Rightarrow> nat \<Rightarrow> int" where
  "batch_receipt b i = (if i < length (bt_receipts b) then bt_receipts b ! i else bt_receipt b)"

definition batch_source :: "batch \<Rightarrow> nat \<Rightarrow> bytes" where
  "batch_source b i =
     (if i < length (bt_sources b)
      then (case map_of (bt_names b) (bt_sources b ! i) of Some n \<Rightarrow> n | None \<Rightarrow> bt_name b)
      else bt_name b)"

text \<open>The bytes of the events of a batch.\<close>

definition batch_events :: "batch \<Rightarrow> bytes list" where
  "batch_events b = map (\<lambda>(a, z). slice a z (bt_bytes b)) (bt_ranges b)"

datatype ingest_error = StoreFailed io_error | Disconnected

text \<open>The critical section: append every event, flush, and report the first id.\<close>

definition store_batch :: "(bytes \<Rightarrow> bytes) \<Rightarrow> event list \<Rightarrow> raw_store \<Rightarrow> ingest_error + nat \<times> raw_store" where
  "store_batch H evs st =
     (case append_all (append_event H) evs st of
        Inl e \<Rightarrow> Inl (StoreFailed e)
      | Inr (_, st') \<Rightarrow> Inr (store_len st, store_flush st'))"

record ingest =
  ig_store :: raw_store
  ig_seq :: nat
  ig_sent :: "batch list"

record job =
  ij_source :: nat
  ij_name :: bytes
  ij_bytes :: bytes
  ij_start :: nat
  ij_batch :: nat
  ij_now :: "nat \<Rightarrow> int"
  ij_stopped :: "nat \<Rightarrow> bool"
  ij_alive :: "nat \<Rightarrow> bool"

text \<open>\<open>k\<close> batches of the job are sent: store the next one and send it.\<close>

definition send_ranges :: "(bytes \<Rightarrow> bytes) \<Rightarrow> job \<Rightarrow> nat \<Rightarrow> (nat \<times> nat) list \<Rightarrow> ingest \<Rightarrow> ingest_error + ingest" where
  "send_ranges H j k ranges s =
     (case store_batch H (map (\<lambda>(a, z). \<lparr>ev_source = ij_source j, ev_receipt = ij_now j k,
              ev_bytes = slice a z (ij_bytes j)\<rparr>) ranges) (ig_store s) of
        Inl e \<Rightarrow> Inl e
      | Inr (first, st') \<Rightarrow>
          if ij_alive j k then
            Inr (s\<lparr>ig_store := st', ig_seq := ig_seq s + 1,
                   ig_sent := ig_sent s @ [\<lparr>bt_seq = ig_seq s, bt_name = ij_name j, bt_names = [], bt_bytes = ij_bytes j,
                     bt_receipt = ij_now j k, bt_first = first, bt_ranges = ranges, bt_receipts = [], bt_sources = []\<rparr>]\<rparr>)
          else Inl Disconnected)"

text \<open>
  The loop over the framer: collect ranges up to the batch size, send a full batch, and stop
  at a batch boundary when asked to. The result carries the consumed offset.
\<close>

function ingest_loop ::
  "(bytes \<Rightarrow> bytes) \<Rightarrow> job \<Rightarrow> nat \<Rightarrow> framer \<Rightarrow> (nat \<times> nat) list \<Rightarrow> nat \<Rightarrow> ingest \<Rightarrow> ingest_error + nat \<times> ingest" where
  "ingest_loop H j k f ranges consumed s =
     (case framer_next f of
        (Some r, g) \<Rightarrow>
          let rs = ranges @ [(fst r + ij_start j, snd r + ij_start j)]; c = snd r + ij_start j in
          if length rs < ij_batch j then ingest_loop H j k g rs c s
          else (case send_ranges H j k rs s of
                  Inl e \<Rightarrow> Inl e
                | Inr s' \<Rightarrow> if ij_stopped j k then Inr (c, s') else ingest_loop H j (k + 1) g [] c s')
      | (None, _) \<Rightarrow>
          if ranges = [] then Inr (consumed, s)
          else (case send_ranges H j k ranges s of Inl e \<Rightarrow> Inl e | Inr s' \<Rightarrow> Inr (consumed, s')))"
  by pat_completeness auto
termination
  by (relation "measure (\<lambda>(H, j, k, f, rs, c, s). length (fr_buf f) - fr_pos f)")
     (auto dest!: framer_next_advances [OF sym])

declare ingest_loop.simps [simp del]

text \<open>
  \<open>None\<close> content is a file that could not be opened or mapped. The offset the caller resumes at is
  cut to the file's length.
\<close>

definition ingest_file ::
  "(bytes \<Rightarrow> bytes) \<Rightarrow> job \<Rightarrow> bytes option \<Rightarrow> nat \<Rightarrow> bool \<Rightarrow> ingest \<Rightarrow> ingest_error + nat option \<times> ingest" where
  "ingest_file H j content start eof s =
     (case content of
        None \<Rightarrow> Inr (None, s)
      | Some bs \<Rightarrow>
          let st = min start (length bs); j' = j\<lparr>ij_bytes := bs, ij_start := st\<rparr> in
          (case ingest_loop H j' 0 (framer_new (drop st bs) eof) [] st s of
             Inl e \<Rightarrow> Inl e
           | Inr (consumed, s') \<Rightarrow> Inr (Some consumed, s')))"

subsection \<open>Room in the log\<close>

definition fits :: "event list \<Rightarrow> bytes list \<Rightarrow> bool" where
  "fits es bs \<longleftrightarrow> log_ok es \<and> list_all (\<lambda>b. length b < 2 ^ 32) bs \<and>
     rec_off es (length es) + sum_list (map (\<lambda>b. header_len + length b) bs) < 2 ^ 64"

definition stamped :: "event list \<Rightarrow> bool" where
  "stamped evs \<longleftrightarrow> list_all (\<lambda>e. ev_source e < 2 ^ 32 \<and> i64_ok (ev_receipt e)) evs"

lemma rec_off_append:
  "rec_off (es @ evs) (length (es @ evs)) =
     rec_off es (length es) + sum_list (map (\<lambda>b. header_len + length b) (map ev_bytes evs))"
  by (simp add: rec_off_def o_def)

lemma fits_split:
  assumes "fits es (map ev_bytes evs @ bs)" "stamped evs"
  shows "fits (es @ evs) bs" "log_ok (es @ evs)"
proof -
  from assms have "list_all event_ok (es @ evs)"
    by (auto simp: fits_def log_ok_def stamped_def event_ok_def list_all_iff)
  moreover from assms(1) have "rec_off (es @ evs) (length (es @ evs)) + sum_list (map (\<lambda>b. header_len + length b) bs) < 2 ^ 64"
    unfolding rec_off_append by (simp add: fits_def o_def)
  ultimately show "fits (es @ evs) bs" "log_ok (es @ evs)"
    using assms(1) by (simp_all add: fits_def log_ok_def)
qed

lemma store_batch_repr:
  assumes "store_repr H st es" "log_ok (es @ evs)"
  shows "\<exists>st'. store_batch H evs st = Inr (length es, st') \<and> store_repr H st' (es @ evs)"
proof -
  from log.append_all_log [OF assms] obtain st1 where
    "append_all (append_event H) evs st = Inr ([length es..<length es + length evs], st1)" "store_repr H st1 (es @ evs)"
    by blast
  moreover have "store_len st = length es" using assms(1) by (simp add: store_len_def store_repr_def)
  ultimately show ?thesis by (auto simp: store_batch_def intro: store_flush_repr)
qed

subsection \<open>What the loop stores\<close>

text \<open>Where the ranges of a framer point in the file.\<close>

definition shifted :: "nat \<Rightarrow> (nat \<times> nat) list \<Rightarrow> (nat \<times> nat) list" where
  "shifted n rs = map (\<lambda>(a, z). (a + n, z + n)) rs"

definition cut_all :: "bytes \<Rightarrow> (nat \<times> nat) list \<Rightarrow> bytes list" where
  "cut_all bs rs = map (\<lambda>(a, z). slice a z bs) rs"

definition job_ok :: "job \<Rightarrow> bool" where
  "job_ok j \<longleftrightarrow> ij_source j < 2 ^ 32 \<and> (\<forall>k. i64_ok (ij_now j k) \<and> ij_alive j k)"

definition events_of :: "job \<Rightarrow> event list \<Rightarrow> bool" where
  "events_of j evs \<longleftrightarrow> list_all (\<lambda>e. ev_source e = ij_source j) evs \<and> stamped evs"

lemma events_of_append [simp]: "events_of j (a @ b) \<longleftrightarrow> events_of j a \<and> events_of j b"
  by (auto simp: events_of_def stamped_def)

text \<open>The batches sent are the events stored, under consecutive ids and sequence numbers.\<close>

definition batches_match :: "nat \<Rightarrow> nat \<Rightarrow> batch list \<Rightarrow> bytes list \<Rightarrow> bool" where
  "batches_match seq first bts bs \<longleftrightarrow>
     concat (map batch_events bts) = bs \<and>
     map bt_seq bts = [seq..<seq + length bts] \<and>
     map bt_first bts = map (\<lambda>i. first + length (concat (map batch_events (take i bts)))) [0..<length bts]"

lemma send_ranges_repr:
  assumes "job_ok j" "store_repr H (ig_store s) es" "fits es (cut_all (ij_bytes j) rs @ bs)"
  shows "\<exists>evs st' b. send_ranges H j k rs s = Inr (s\<lparr>ig_store := st', ig_seq := ig_seq s + 1, ig_sent := ig_sent s @ [b]\<rparr>) \<and>
    store_repr H st' (es @ evs) \<and> map ev_bytes evs = cut_all (ij_bytes j) rs \<and> events_of j evs \<and> fits (es @ evs) bs \<and>
    bt_seq b = ig_seq s \<and> bt_first b = length es \<and> batch_events b = cut_all (ij_bytes j) rs"
proof -
  let ?evs = "map (\<lambda>(a, z). \<lparr>ev_source = ij_source j, ev_receipt = ij_now j k, ev_bytes = slice a z (ij_bytes j)\<rparr>) rs"
  have bytes: "map ev_bytes ?evs = cut_all (ij_bytes j) rs" by (auto simp: cut_all_def)
  have e: "events_of j ?evs" using assms(1) by (auto simp: events_of_def stamped_def job_ok_def list_all_iff)
  then have "stamped ?evs" by (simp add: events_of_def)
  from fits_split [OF _ this, of es bs] assms(3) bytes have f: "fits (es @ ?evs) bs" "log_ok (es @ ?evs)" by simp_all
  from store_batch_repr [OF assms(2) f(2)] obtain st' where
    "store_batch H ?evs (ig_store s) = Inr (length es, st')" "store_repr H st' (es @ ?evs)" by blast
  moreover have "ij_alive j k" using assms(1) by (simp add: job_ok_def)
  moreover define b where "b = \<lparr>bt_seq = ig_seq s, bt_name = ij_name j, bt_names = [], bt_bytes = ij_bytes j,
    bt_receipt = ij_now j k, bt_first = length es, bt_ranges = rs, bt_receipts = [], bt_sources = []\<rparr>"
  ultimately have "send_ranges H j k rs s = Inr (s\<lparr>ig_store := st', ig_seq := ig_seq s + 1, ig_sent := ig_sent s @ [b]\<rparr>)"
    by (simp add: send_ranges_def)
  moreover have "bt_seq b = ig_seq s" "bt_first b = length es" "batch_events b = cut_all (ij_bytes j) rs"
    by (simp_all add: b_def batch_events_def cut_all_def)
  ultimately show ?thesis using bytes e f \<open>store_repr H st' (es @ ?evs)\<close> by blast
qed

lemma cut_all_append [simp]: "cut_all bs (a @ b) = cut_all bs a @ cut_all bs b"
  and cut_all_Nil [simp]: "cut_all bs [] = []"
  and shifted_Nil [simp]: "shifted n [] = []"
  and shifted_Cons [simp]: "shifted n (r # rs) = (fst r + n, snd r + n) # shifted n rs"
  by (simp_all add: cut_all_def shifted_def split_beta)

lemma cut_all_take: "cut_all bs (take m rs) = take m (cut_all bs rs)"
  by (simp add: cut_all_def take_map)

lemma frame_all_step:
  "framer_next f = (Some r, g) \<Longrightarrow> fst (frame_all f) = r # fst (frame_all g)"
  "framer_next f = (None, g) \<Longrightarrow> fst (frame_all f) = []"
  by (simp_all add: frame_all.simps [of f] split_beta Let_def)

text \<open>
  The outcome of the loop from \<open>s\<close> when the events still to come are cut at \<open>rs\<close>: the first \<open>m\<close> of them are
  stored and sent, all of them unless the stop flag was raised.
\<close>

definition loop_outcome ::
  "(bytes \<Rightarrow> bytes) \<Rightarrow> job \<Rightarrow> event list \<Rightarrow> (nat \<times> nat) list \<Rightarrow> nat \<Rightarrow> ingest \<Rightarrow> ingest_error + nat \<times> ingest \<Rightarrow> bool" where
  "loop_outcome H j es rs c s r \<longleftrightarrow>
     (\<exists>m evs bts st'. r = Inr (if m = 0 then c else snd (rs ! (m - 1)),
          s\<lparr>ig_store := st', ig_seq := ig_seq s + length bts, ig_sent := ig_sent s @ bts\<rparr>) \<and>
        m \<le> length rs \<and> (m = 0 \<longleftrightarrow> rs = []) \<and> store_repr H st' (es @ evs) \<and> events_of j evs \<and>
        map ev_bytes evs = take m (cut_all (ij_bytes j) rs) \<and>
        batches_match (ig_seq s) (length es) bts (map ev_bytes evs) \<and>
        ((\<exists>k. ij_stopped j k) \<or> m = length rs))"

lemma batches_match_Nil [simp]: "batches_match q n [] []"
  by (simp add: batches_match_def)

lemma batches_match_Cons:
  assumes "bt_seq b = q" "bt_first b = n" "batch_events b = bs" "batches_match (q + 1) (n + length bs) bts cs"
  shows "batches_match q n (b # bts) (bs @ cs)"
proof -
  have "map bt_first (b # bts) = map (\<lambda>i. n + length (concat (map batch_events (take i (b # bts))))) [0..<length (b # bts)]"
  proof (rule nth_equalityI)
    fix i assume i: "i < length (map bt_first (b # bts))"
    show "map bt_first (b # bts) ! i = map (\<lambda>i. n + length (concat (map batch_events (take i (b # bts))))) [0..<length (b # bts)] ! i"
    proof (cases i)
      case 0
      then show ?thesis using assms(2) by (simp del: upt_Suc)
    next
      case (Suc k)
      with i have k: "k < length bts" by simp
      from assms(4) have "map bt_first bts ! k = map (\<lambda>i. n + length bs + length (concat (map batch_events (take i bts)))) [0..<length bts] ! k"
        by (simp add: batches_match_def)
      with k Suc assms(3) show ?thesis by (simp del: upt_Suc)
    qed
  qed simp
  with assms show ?thesis by (simp add: batches_match_def upt_conv_Cons del: upt_Suc)
qed

lemma loop_outcome_sent:
  assumes "job_ok j" "store_repr H (ig_store s) es" "fits es (cut_all (ij_bytes j) (rs @ qs))" "rs \<noteq> []"
    and "send_ranges H j k rs s = Inr s'" "(\<exists>k. ij_stopped j k) \<or> qs = []"
  shows "loop_outcome H j es (rs @ qs) c s (Inr (snd (last rs), s'))"
proof -
  from send_ranges_repr [OF assms(1,2), of rs "cut_all (ij_bytes j) qs" k] assms(3) obtain evs st' b where
    x: "send_ranges H j k rs s = Inr (s\<lparr>ig_store := st', ig_seq := ig_seq s + 1, ig_sent := ig_sent s @ [b]\<rparr>)"
    "store_repr H st' (es @ evs)" "map ev_bytes evs = cut_all (ij_bytes j) rs" "events_of j evs"
    "bt_seq b = ig_seq s" "bt_first b = length es" "batch_events b = cut_all (ij_bytes j) rs"
    by auto
  have "batches_match (ig_seq s) (length es) [b] (map ev_bytes evs)"
    using batches_match_Cons [OF x(5,6,7) batches_match_Nil] x(3) by simp
  moreover have "snd (last rs) = snd ((rs @ qs) ! (length rs - 1))" using assms(4) by (simp add: last_conv_nth nth_append)
  moreover have "map ev_bytes evs = take (length rs) (cut_all (ij_bytes j) (rs @ qs))" using x(3) by (simp add: cut_all_def)
  ultimately show ?thesis using x(1,2,4) assms(4-6) unfolding loop_outcome_def
    by (intro exI [of _ "length rs"] exI [of _ evs] exI [of _ "[b]"] exI [of _ st']) simp
qed

lemma loop_outcome_more:
  assumes "job_ok j" "store_repr H (ig_store s) es" "fits es (cut_all (ij_bytes j) (rs @ qs))" "rs \<noteq> []"
    and "send_ranges H j k rs s = Inr s'"
    and "\<And>es'. store_repr H (ig_store s') es' \<Longrightarrow> fits es' (cut_all (ij_bytes j) qs) \<Longrightarrow> loop_outcome H j es' qs (snd (last rs)) s' r"
  shows "loop_outcome H j es (rs @ qs) c s r"
proof -
  from send_ranges_repr [OF assms(1,2), of rs "cut_all (ij_bytes j) qs" k] assms(3) obtain evs st' b where
    x: "send_ranges H j k rs s = Inr (s\<lparr>ig_store := st', ig_seq := ig_seq s + 1, ig_sent := ig_sent s @ [b]\<rparr>)"
    "store_repr H st' (es @ evs)" "map ev_bytes evs = cut_all (ij_bytes j) rs" "events_of j evs"
    "fits (es @ evs) (cut_all (ij_bytes j) qs)"
    "bt_seq b = ig_seq s" "bt_first b = length es" "batch_events b = cut_all (ij_bytes j) rs"
    by auto
  have s': "s' = s\<lparr>ig_store := st', ig_seq := ig_seq s + 1, ig_sent := ig_sent s @ [b]\<rparr>" using x(1) assms(5) by simp
  have "loop_outcome H j (es @ evs) qs (snd (last rs)) s' r" using assms(6) x(2,5) s' by simp
  then obtain m evs2 bts st2 where y: "r = Inr (if m = 0 then snd (last rs) else snd (qs ! (m - 1)),
          s'\<lparr>ig_store := st2, ig_seq := ig_seq s' + length bts, ig_sent := ig_sent s' @ bts\<rparr>)"
        "m \<le> length qs" "m = 0 \<longleftrightarrow> qs = []" "store_repr H st2 ((es @ evs) @ evs2)" "events_of j evs2"
        "map ev_bytes evs2 = take m (cut_all (ij_bytes j) qs)"
        "batches_match (ig_seq s') (length (es @ evs)) bts (map ev_bytes evs2)"
        "(\<exists>k. ij_stopped j k) \<or> m = length qs"
    unfolding loop_outcome_def by blast
  have len: "length evs = length rs" using arg_cong [OF x(3), of length] by (simp add: cut_all_def)
  have "batches_match (ig_seq s) (length es) (b # bts) (map ev_bytes (evs @ evs2))"
  proof -
    have "batches_match (ig_seq s + 1) (length es + length (cut_all (ij_bytes j) rs)) bts (map ev_bytes evs2)"
      using y(7) by (simp add: s' len cut_all_def)
    from batches_match_Cons [OF x(6,7,8) this] show ?thesis unfolding map_append x(3) .
  qed
  moreover have "snd (last rs) = snd ((rs @ qs) ! (length rs + 0 - 1))" using assms(4)
    by (simp add: last_conv_nth nth_append)
  moreover have "m \<noteq> 0 \<Longrightarrow> snd (qs ! (m - 1)) = snd ((rs @ qs) ! (length rs + m - 1))" using assms(4)
    by (cases m) (simp_all add: nth_append)
  moreover have "length rs + m = 0 \<longleftrightarrow> rs @ qs = []" using assms(4) by simp
  moreover have "map ev_bytes (evs @ evs2) = take (length rs + m) (cut_all (ij_bytes j) (rs @ qs))"
    using x(3) y(6) by (simp add: cut_all_def)
  moreover have "r = Inr (if length rs + m = 0 then c else snd ((rs @ qs) ! (length rs + m - 1)),
      s\<lparr>ig_store := st2, ig_seq := ig_seq s + length (b # bts), ig_sent := ig_sent s @ b # bts\<rparr>)"
    using y(1) s' assms(4) calculation(2,3) by (cases "m = 0") simp_all
  ultimately show ?thesis unfolding loop_outcome_def
    using y(2,4,5,8) x(4)
    by (intro exI [of _ "length rs + m"] exI [of _ "evs @ evs2"] exI [of _ "b # bts"] exI [of _ st2]) simp
qed

lemma loop_outcome_any:
  assumes "loop_outcome H j es rs c s r" "rs \<noteq> []"
  shows "loop_outcome H j es rs c' s r"
proof -
  from assms(1) obtain m evs bts st' where y: "r = Inr (if m = 0 then c else snd (rs ! (m - 1)),
          s\<lparr>ig_store := st', ig_seq := ig_seq s + length bts, ig_sent := ig_sent s @ bts\<rparr>)"
        "m \<le> length rs" "m = 0 \<longleftrightarrow> rs = []" "store_repr H st' (es @ evs)" "events_of j evs"
        "map ev_bytes evs = take m (cut_all (ij_bytes j) rs)"
        "batches_match (ig_seq s) (length es) bts (map ev_bytes evs)" "(\<exists>k. ij_stopped j k) \<or> m = length rs"
    unfolding loop_outcome_def by blast
  then have "m \<noteq> 0" using assms(2) by simp
  with y show ?thesis unfolding loop_outcome_def
    by (intro exI [of _ m] exI [of _ evs] exI [of _ bts] exI [of _ st']) simp
qed

lemma ingest_loop_outcome:
  "job_ok j \<Longrightarrow> store_repr H (ig_store s) es \<Longrightarrow>
   fits es (cut_all (ij_bytes j) (ranges @ shifted (ij_start j) (fst (frame_all f)))) \<Longrightarrow>
   (ranges \<noteq> [] \<Longrightarrow> consumed = snd (last ranges)) \<Longrightarrow>
   loop_outcome H j es (ranges @ shifted (ij_start j) (fst (frame_all f))) consumed s (ingest_loop H j k f ranges consumed s)"
proof (induction H j k f ranges consumed s arbitrary: es rule: ingest_loop.induct)
  case (1 H j k f ranges consumed s)
  obtain o1 g where n: "framer_next f = (o1, g)" by fastforce
  show ?case
  proof (cases o1)
    case None
    show ?thesis
    proof (cases "ranges = []")
      case True
      with None n "1.prems" show ?thesis
        by (auto simp: ingest_loop.simps [of H j k f] frame_all_step loop_outcome_def events_of_def stamped_def
            intro!: exI [of _ 0] exI [of _ "[]"] exI [of _ "ig_store s"])
    next
      case False
      from send_ranges_repr [OF "1.prems"(1,2), of ranges "[]" k] "1.prems"(3) frame_all_step(2) [of f g] n None
      obtain s' where s': "send_ranges H j k ranges s = Inr s'" by auto
      from loop_outcome_sent [OF "1.prems"(1,2) _ False s', of "[]" consumed] None n s' False "1.prems"(3,4)
      show ?thesis by (simp add: ingest_loop.simps [of H j k f] frame_all_step)
    qed
  next
    case (Some r)
    define rs where "rs = ranges @ [(fst r + ij_start j, snd r + ij_start j)]"
    define qs where "qs = shifted (ij_start j) (fst (frame_all g))"
    have n: "framer_next f = (Some r, g)" using n Some by simp
    have all: "ranges @ shifted (ij_start j) (fst (frame_all f)) = rs @ qs"
      using frame_all_step(1) [OF n] by (simp add: rs_def qs_def)
    have last: "rs \<noteq> []" "snd (last rs) = snd r + ij_start j" by (simp_all add: rs_def)
    show ?thesis
    proof (cases "length rs < ij_batch j")
      case True
      have "loop_outcome H j es (rs @ qs) (snd r + ij_start j) s (ingest_loop H j k g rs (snd r + ij_start j) s)"
        unfolding qs_def
        by (rule "1.IH"(1) [OF n [symmetric] refl rs_def refl True "1.prems"(1,2)])
           (use "1.prems"(3) all last in \<open>simp_all add: qs_def\<close>)
      with loop_outcome_any [OF this] last(1)
      have "loop_outcome H j es (rs @ qs) consumed s (ingest_loop H j k g rs (snd r + ij_start j) s)" by simp
      with True n show ?thesis unfolding all by (simp add: ingest_loop.simps [of H j k f] rs_def Let_def)
    next
      case False
      note prems = "1.prems"(3) [unfolded all]
      from send_ranges_repr [OF "1.prems"(1,2), of rs "cut_all (ij_bytes j) qs" k] prems obtain s' where
        s': "send_ranges H j k rs s = Inr s'" by auto
      show ?thesis
      proof (cases "ij_stopped j k")
        case True
        then have "(\<exists>k. ij_stopped j k) \<or> qs = []" by blast
        from loop_outcome_sent [OF "1.prems"(1,2) prems last(1) s' this, of consumed] True False s' n last(2)
        show ?thesis unfolding all by (simp add: ingest_loop.simps [of H j k f] rs_def Let_def)
      next
        case go: False
        have "loop_outcome H j es (rs @ qs) consumed s (ingest_loop H j (k + 1) g [] (snd r + ij_start j) s')"
        proof (rule loop_outcome_more [OF "1.prems"(1,2) prems last(1) s'])
          fix es' assume "store_repr H (ig_store s') es'" "fits es' (cut_all (ij_bytes j) qs)"
          then show "loop_outcome H j es' qs (snd (last rs)) s' (ingest_loop H j (k + 1) g [] (snd r + ij_start j) s')"
            using "1.IH"(2) [OF n [symmetric] refl rs_def refl False s' go "1.prems"(1), of es'] last(2)
            by (simp add: qs_def)
        qed
        with False s' go n show ?thesis unfolding all by (simp add: ingest_loop.simps [of H j k f] rs_def Let_def)
      qed
    qed
  qed
qed

end
