(* ===== verification/Ulpf_Pipeline.thy ===== *)
theory Ulpf_Pipeline
  imports Ulpf_Detect Ulpf_Normalize Ulpf_Mapping_Load Ulpf_Ingest
begin

text \<open>
  One event through detection, parsing and normalising, and one batch of them:
  \<open>src/crates/ulpf/src/pipeline.rs\<close>, \<open>process_batch\<close> of \<open>engine.rs\<close>, \<open>LocalCounts\<close> of \<open>metrics.rs\<close> and
  \<open>digest_dir\<close> of \<open>replay.rs\<close>. The regex, JSON and XML crates are the parameter \<open>E\<close>, writing the
  JSON text is \<open>to_json\<close>, SHA-256 is \<open>H\<close>.
\<close>

subsection \<open>Loading\<close>

record pipeline =
  pl_registry :: registry
  pl_mapping :: mapping
  pl_offset :: int
  pl_files :: "(bytes \<times> bytes) list"

definition show_error :: "load_error \<Rightarrow> bytes" where
  "show_error e =
     le_path e @ (case le_line e of Some l \<Rightarrow> '':'' @ dec l | None \<Rightarrow> []) @ '': '' @ le_message e"

definition mapping_name :: "mapping \<Rightarrow> bytes" where
  "mapping_name m = mf_name (mp_file m)"

text \<open>The mapping asked for; without a choice \<open>ocsf\<close>, else the first.\<close>

definition choose_mapping :: "bytes \<Rightarrow> bytes option \<Rightarrow> mapping list \<Rightarrow> bytes + nat" where
  "choose_mapping mdir schema ms =
     (case schema of
        Some name \<Rightarrow>
          (case position (\<lambda>m. mapping_name m = name) ms of
             Some i \<Rightarrow> Inr i | None \<Rightarrow> Inl (''no mapping named `'' @ name @ ''` in '' @ mdir))
      | None \<Rightarrow>
          if ms = [] then Inl (''no usable mapping in '' @ mdir)
          else Inr (case position (\<lambda>m. mapping_name m = ''ocsf'') ms of Some i \<Rightarrow> i | None \<Rightarrow> 0))"

definition digest_dir :: "(bytes \<Rightarrow> bytes) \<Rightarrow> (bytes \<Rightarrow> bytes option) \<Rightarrow> bytes list \<Rightarrow> (bytes \<times> bytes) list" where
  "digest_dir H read entries =
     sort_key fst (List.map_filter (\<lambda>p. if is_toml p then map_option (\<lambda>bs. (p, hex (H bs))) (read p) else None) entries)"

text \<open>The reports of \<open>load_dir\<close> and \<open>load_mapping_dir\<close> and the digests of both directories are given.\<close>

definition pipeline_load ::
  "bytes \<Rightarrow> bytes \<Rightarrow> load_report option \<Rightarrow> mapping_report option \<Rightarrow> (bytes \<times> bytes) list \<Rightarrow> (bytes \<times> bytes) list \<Rightarrow>
    bytes option \<Rightarrow> int \<Rightarrow> bytes + pipeline \<times> bytes list" where
  "pipeline_load pdir mdir parsers maps pdigests mdigests schema offset =
     (case parsers of
        None \<Rightarrow> Inl (''parsers directory '' @ pdir)
      | Some pr \<Rightarrow>
     (case maps of
        None \<Rightarrow> Inl (''mappings directory '' @ mdir)
      | Some mr \<Rightarrow>
     (case choose_mapping mdir schema (mr_mappings mr) of
        Inl e \<Rightarrow> Inl e
      | Inr i \<Rightarrow>
          Inr (\<lparr>pl_registry = registry_new (lr_parsers pr), pl_mapping = mr_mappings mr ! i, pl_offset = offset,
                pl_files = pdigests @ mdigests\<rparr>,
               map (\<lambda>e. ''parser: '' @ show_error e) (lr_errors pr) @
               map (\<lambda>e. ''mapping: '' @ show_error e) (mr_errors mr)))))"

subsection \<open>One event\<close>

record outcome =
  oc_parser :: "nat option"
  oc_parse :: "parse_failure option"
  oc_sub :: sub_status
  oc_time_error :: "time_error option"
  oc_stats :: norm_stats

definition sub_status_name :: "sub_status \<Rightarrow> bytes" where
  "sub_status_name s = (case s of NotApplicable \<Rightarrow> ''not_applicable'' | SubMatched \<Rightarrow> ''matched''
     | SubNoMatch \<Rightarrow> ''no_match'' | SubUncovered \<Rightarrow> ''uncovered'')"

definition process ::
  "engines \<Rightarrow> (jvalue \<Rightarrow> bytes) \<Rightarrow> pipeline \<Rightarrow> bytes \<Rightarrow> nat \<Rightarrow> bytes \<Rightarrow> int \<Rightarrow> nat option \<Rightarrow> parsed \<Rightarrow> bytes \<Rightarrow>
    outcome \<times> nat option \<times> parsed \<times> bytes" where
  "process E to_json pl event raw_id source receipt hint parsed out =
     (let ctx = \<lparr>ctx_receipt = receipt, ctx_offset = pl_offset pl\<rparr>;
          idx = detect (en_regex E) (pl_registry pl) event hint in
      case (case idx of
              Some i \<Rightarrow>
                let p = rg_parsers (pl_registry pl) ! i in
                (case parse_event E p event ctx parsed of
                   (r, q) \<Rightarrow> (r, (case r of None \<Rightarrow> ''parsed'' | Some e \<Rightarrow> parse_reason e),
                             Some (pd_vendor (pr_def p)), Some (pd_product (pr_def p)), Some (parser_name p), q, Some i))
            | None \<Rightarrow>
                (None, ''no_parser'', None, None, None,
                 push (Borrowed ''raw_message'') (Borrowed (trim_line_end event)) (pa_clear parsed), hint)) of
        (r, status, vendor, product, name, q, hint') \<Rightarrow>
          let pv = \<lparr>pv_raw_id = raw_id, pv_source = source, pv_parser = name, pv_vendor = vendor, pv_product = product,
                    pv_receipt = receipt, pv_parse_status = status, pv_sub_status = sub_status_name (pa_sub q)\<rparr> in
          (case normalize to_json (pl_mapping pl) q pv out of
             (out', stats) \<Rightarrow>
               (\<lparr>oc_parser = idx, oc_parse = r, oc_sub = pa_sub q, oc_time_error = pa_ts_error q, oc_stats = stats\<rparr>,
                hint', q, out')))"

subsection \<open>Counters of a batch\<close>

definition all_failures :: "parse_failure list" where
  "all_failures = [PatternNoMatch, NoPairs, NoColumns, InvalidJson, InvalidCef, InvalidLeef, InvalidXml]"

definition time_error_reasons :: "bytes list" where
  "time_error_reasons = [''empty'', ''no_match'', ''out_of_range'']"

record counts =
  lc_detected :: nat
  lc_no_parser :: nat
  lc_parsed :: nat
  lc_parse_failed :: "nat list"
  lc_sub_matched :: nat
  lc_sub_no_match :: nat
  lc_sub_uncovered :: nat
  lc_time_from_receipt :: nat
  lc_time_error :: "nat list"
  lc_normalized :: nat
  lc_class_unknown :: nat
  lc_enum_other :: nat
  lc_unmapped_fields :: nat
  lc_utf8_lossy :: nat

definition counts_zero :: counts where
  "counts_zero = \<lparr>lc_detected = 0, lc_no_parser = 0, lc_parsed = 0, lc_parse_failed = replicate 7 0, lc_sub_matched = 0,
     lc_sub_no_match = 0, lc_sub_uncovered = 0, lc_time_from_receipt = 0, lc_time_error = replicate 3 0, lc_normalized = 0,
     lc_class_unknown = 0, lc_enum_other = 0, lc_unmapped_fields = 0, lc_utf8_lossy = 0\<rparr>"

definition bump :: "nat \<Rightarrow> nat list \<Rightarrow> nat list" where
  "bump i xs = xs[i := xs ! i + 1]"

definition count_parse_failed :: "parse_failure \<Rightarrow> counts \<Rightarrow> counts" where
  "count_parse_failed f c =
     c\<lparr>lc_parse_failed := bump (case position (\<lambda>x. x = f) all_failures of Some i \<Rightarrow> i | None \<Rightarrow> 0) (lc_parse_failed c)\<rparr>"

definition count_time_error :: "bytes \<Rightarrow> counts \<Rightarrow> counts" where
  "count_time_error reason c =
     (case position (\<lambda>r. r = reason) time_error_reasons of
        Some i \<Rightarrow> c\<lparr>lc_time_error := bump i (lc_time_error c)\<rparr> | None \<Rightarrow> c)"

subsection \<open>The entity values of a batch\<close>

definition u32 :: "nat \<Rightarrow> nat" where "u32 n = n mod 2 ^ 32"

record event_entities =
  ee_raw_id :: nat
  ee_time_ms :: int
  ee_class_uid :: int
  ee_source :: "nat \<times> nat"
  ee_line :: "nat \<times> nat"
  ee_parser :: "nat \<times> nat"
  ee_device :: "nat \<times> nat"
  ee_values :: "(nat \<times> nat) list"

record entity_batch =
  eb_arena :: bytes
  eb_events :: "event_entities list"

definition eb_put :: "bytes \<Rightarrow> entity_batch \<Rightarrow> (nat \<times> nat) \<times> entity_batch" where
  "eb_put v eb =
     ((u32 (length (eb_arena eb)), u32 (length (eb_arena eb @ v))), eb\<lparr>eb_arena := eb_arena eb @ v\<rparr>)"

definition eb_slice :: "entity_batch \<Rightarrow> nat \<times> nat \<Rightarrow> bytes" where
  "eb_slice eb r = slice (fst r) (snd r) (eb_arena eb)"

fun put_values :: "parsed \<Rightarrow> nat option list \<Rightarrow> entity_batch \<Rightarrow> (nat \<times> nat) list \<times> entity_batch" where
  "put_values q [] eb = ([], eb)"
| "put_values q (slot # slots) eb =
     (case (case slot of
              Some idx \<Rightarrow>
                if idx < length (pa_fields q) then eb_put (cow_bytes (fd_value (pa_fields q ! idx))) eb else ((0, 0), eb)
            | None \<Rightarrow> ((0, 0), eb)) of
        (r, eb1) \<Rightarrow> (case put_values q slots eb1 of (rs, eb2) \<Rightarrow> (r # rs, eb2)))"

definition collect_entities ::
  "pipeline \<Rightarrow> bytes \<Rightarrow> nat \<Rightarrow> nat \<Rightarrow> bytes \<Rightarrow> outcome \<Rightarrow> parsed \<Rightarrow> entity_batch \<Rightarrow> entity_batch" where
  "collect_entities pl source raw_id line_start out oc q eb =
     (case eb_put source eb of (src, eb1) \<Rightarrow>
      case (case oc_parser oc of
              Some p \<Rightarrow> eb_put (parser_name (rg_parsers (pl_registry pl) ! p)) eb1 | None \<Rightarrow> ((0, 0), eb1)) of (prs, eb2) \<Rightarrow>
      case put_values q (st_entities (oc_stats oc)) eb2 of (vs, eb3) \<Rightarrow>
      let dev = vs ! 4 in
      case (if fst dev = snd dev then eb_put source eb3 else (dev, eb3)) of (device, eb4) \<Rightarrow>
        eb4\<lparr>eb_events := eb_events eb4 @
          [\<lparr>ee_raw_id = raw_id, ee_time_ms = st_time_ms (oc_stats oc), ee_class_uid = st_class_uid (oc_stats oc),
            ee_source = src, ee_line = (u32 line_start, u32 (length out - 1)), ee_parser = prs, ee_device = device,
            ee_values = vs\<rparr>]\<rparr>)"

subsection \<open>One batch\<close>

record worker_state =
  ws_hint :: "nat option"
  ws_parsed :: parsed
  ws_out :: bytes
  ws_counts :: counts
  ws_hits :: "nat list"
  ws_unknown :: "(nat \<times> bytes) list"
  ws_failed :: "(nat \<times> bytes) list"
  ws_entities :: "entity_batch option"

definition count_outcome :: "pipeline \<Rightarrow> nat \<Rightarrow> bytes \<Rightarrow> outcome \<Rightarrow> worker_state \<Rightarrow> worker_state" where
  "count_outcome pl raw_id event oc w =
     (let c = ws_counts w;
          w1 = (case oc_parser oc of
                  Some p \<Rightarrow> w\<lparr>ws_counts := c\<lparr>lc_detected := lc_detected c + 1\<rparr>,
                             ws_hits := (if p < length (ws_hits w) then bump p (ws_hits w) else ws_hits w)\<rparr>
                | None \<Rightarrow> w\<lparr>ws_counts := c\<lparr>lc_no_parser := lc_no_parser c + 1\<rparr>, ws_unknown := ws_unknown w @ [(raw_id, event)]\<rparr>);
          c1 = ws_counts w1;
          w2 = (case oc_parser oc of
                  None \<Rightarrow> w1
                | Some p \<Rightarrow>
                    (case oc_parse oc of
                       None \<Rightarrow> w1\<lparr>ws_counts := c1\<lparr>lc_parsed := lc_parsed c1 + 1\<rparr>\<rparr>
                     | Some f \<Rightarrow>
                         let w' = w1\<lparr>ws_counts := count_parse_failed f c1\<rparr> in
                         if parser_priority (rg_parsers (pl_registry pl) ! p) < 0
                         then w'\<lparr>ws_unknown := ws_unknown w' @ [(raw_id, event)]\<rparr>
                         else w'\<lparr>ws_failed := ws_failed w' @ [(raw_id, event)]\<rparr>));
          c2 = ws_counts w2;
          c3 = (case oc_sub oc of
                  SubMatched \<Rightarrow> c2\<lparr>lc_sub_matched := lc_sub_matched c2 + 1\<rparr>
                | SubNoMatch \<Rightarrow> c2\<lparr>lc_sub_no_match := lc_sub_no_match c2 + 1\<rparr>
                | SubUncovered \<Rightarrow> c2\<lparr>lc_sub_uncovered := lc_sub_uncovered c2 + 1\<rparr>
                | NotApplicable \<Rightarrow> c2);
          c4 = (case oc_time_error oc of Some e \<Rightarrow> count_time_error (time_reason e) c3 | None \<Rightarrow> c3);
          s = oc_stats oc in
      w2\<lparr>ws_counts := c4\<lparr>lc_normalized := lc_normalized c4 + 1,
           lc_time_from_receipt := lc_time_from_receipt c4 + of_bool (st_time_from_receipt s),
           lc_class_unknown := lc_class_unknown c4 + of_bool (st_class_uid s = 0),
           lc_enum_other := lc_enum_other c4 + st_enum_other s,
           lc_unmapped_fields := lc_unmapped_fields c4 + st_unmapped s,
           lc_utf8_lossy := lc_utf8_lossy c4 + of_bool (st_utf8_lossy s)\<rparr>\<rparr>)"

definition process_one :: "engines \<Rightarrow> (jvalue \<Rightarrow> bytes) \<Rightarrow> pipeline \<Rightarrow> batch \<Rightarrow> nat \<Rightarrow> worker_state \<Rightarrow> worker_state" where
  "process_one E to_json pl b i w =
     (let event = batch_events b ! i; raw_id = bt_first b + i in
      case process E to_json pl event raw_id (batch_source b i) (batch_receipt b i) (ws_hint w) (ws_parsed w) (ws_out w) of
        (oc, hint, q, out) \<Rightarrow>
          count_outcome pl raw_id event oc
            (w\<lparr>ws_hint := hint, ws_parsed := q, ws_out := out,
               ws_entities := map_option (collect_entities pl (batch_source b i) raw_id (length (ws_out w)) out oc q) (ws_entities w)\<rparr>))"

definition process_batch :: "engines \<Rightarrow> (jvalue \<Rightarrow> bytes) \<Rightarrow> pipeline \<Rightarrow> batch \<Rightarrow> worker_state \<Rightarrow> worker_state" where
  "process_batch E to_json pl b w =
     foldl (\<lambda>w i. process_one E to_json pl b i w) w [0..<length (bt_ranges b)]"

subsection \<open>One line for each event\<close>

lemma normalize_appends: "fst (normalize to_json m p pv out) = out @ to_json (VObj (fst (normalize_root m p pv))) @ [CHR 0x0A]"
  by (simp add: normalize_def split_beta)

text \<open>What the JSON writer of the engine promises: one line, without a line feed in it.\<close>

definition one_line :: "(jvalue \<Rightarrow> bytes) \<Rightarrow> bool" where
  "one_line to_json \<longleftrightarrow> (\<forall>v. CHR 0x0A \<notin> set (to_json v))"

definition lines_of :: "nat \<Rightarrow> bytes \<Rightarrow> bool" where
  "lines_of n out \<longleftrightarrow> (\<exists>ls. out = concat (map (\<lambda>l. l @ [CHR 0x0A]) ls) \<and> length ls = n \<and> list_all (\<lambda>l. CHR 0x0A \<notin> set l) ls)"

lemma lines_of_Nil: "lines_of 0 []"
  by (simp add: lines_of_def)

lemma lines_of_snoc: "lines_of n out \<Longrightarrow> CHR 0x0A \<notin> set l \<Longrightarrow> lines_of (Suc n) (out @ l @ [CHR 0x0A])"
proof -
  assume "lines_of n out" and l: "CHR 0x0A \<notin> set l"
  then obtain ls where "out = concat (map (\<lambda>l. l @ [CHR 0x0A]) ls)" "length ls = n" "list_all (\<lambda>l. CHR 0x0A \<notin> set l) ls"
    by (auto simp: lines_of_def)
  with l show ?thesis unfolding lines_of_def by (intro exI [of _ "ls @ [l]"]) simp
qed

lemma process_appends:
  "\<exists>v. snd (snd (snd (process E to_json pl event raw_id source receipt hint parsed out))) = out @ to_json v @ [CHR 0x0A]"
  unfolding process_def Let_def using normalize_appends
  by (simp add: split_beta split: option.split) (metis fst_conv)

lemma count_outcome_out [simp]: "ws_out (count_outcome pl raw_id event oc w) = ws_out w"
  by (simp add: count_outcome_def Let_def split: option.split)

lemma process_one_appends: "\<exists>v. ws_out (process_one E to_json pl b i w) = ws_out w @ to_json v @ [CHR 0x0A]"
proof -
  let ?r = "process E to_json pl (batch_events b ! i) (bt_first b + i) (batch_source b i) (batch_receipt b i)
    (ws_hint w) (ws_parsed w) (ws_out w)"
  have "ws_out (process_one E to_json pl b i w) = snd (snd (snd ?r))"
    by (simp add: process_one_def Let_def split_beta)
  then show ?thesis using process_appends by metis
qed

lemma process_batch_lines:
  assumes "one_line to_json" "ws_out w = []"
  shows "lines_of (length (bt_ranges b)) (ws_out (process_batch E to_json pl b w))"
proof -
  have "lines_of n (ws_out (foldl (\<lambda>w i. process_one E to_json pl b i w) w [0..<n]))" for n
  proof (induction n)
    case 0
    show ?case using assms(2) by (simp add: lines_of_Nil)
  next
    case (Suc n)
    let ?w = "foldl (\<lambda>w i. process_one E to_json pl b i w) w [0..<n]"
    obtain v where "ws_out (process_one E to_json pl b n ?w) = ws_out ?w @ to_json v @ [CHR 0x0A]"
      using process_one_appends by metis
    with lines_of_snoc [OF Suc, of "to_json v"] assms(1) show ?case by (simp add: one_line_def)
  qed
  then show ?thesis by (simp add: process_batch_def)
qed

end
