(* ===== verification/Ulpf_Tail.thy ===== *)
theory Ulpf_Tail
  imports Ulpf_Prelude
begin

text \<open>
  The ring of recently emitted lines, \<open>src/crates/ulpf/src/tail.rs\<close>: an entry keeps a byte range
  into the buffer of its batch. The lemmas say that the ring holds consecutive ids, the newest of
  them, and that a reader is told exactly how many lines it missed.
\<close>

record tail_entry =
  te_id :: nat
  te_buf :: bytes
  te_range :: "nat \<times> nat"

record tail =
  tl_entries :: "tail_entry list"
  tl_capacity :: nat

definition te_line :: "tail_entry \<Rightarrow> bytes" where
  "te_line e = slice (fst (te_range e)) (snd (te_range e)) (te_buf e)"

definition tail_new :: "nat \<Rightarrow> tail" where
  "tail_new capacity = \<lparr>tl_entries = [], tl_capacity = max capacity 1\<rparr>"

text \<open>The loop over the bytes: \<open>i\<close> is the position of the next one, \<open>start\<close> where the line began.\<close>

fun line_entries :: "bytes \<Rightarrow> nat \<Rightarrow> nat \<Rightarrow> nat \<Rightarrow> bytes \<Rightarrow> tail_entry list" where
  "line_entries buf i start n [] = []"
| "line_entries buf i start n (b # r) =
     (if b = CHR 0x0A
      then \<lparr>te_id = n, te_buf = buf, te_range = (start, i)\<rparr> # line_entries buf (i + 1) (i + 1) (n + 1) r
      else line_entries buf (i + 1) start n r)"

fun evict :: "nat \<Rightarrow> 'a list \<Rightarrow> 'a list" where
  "evict capacity [] = []"
| "evict capacity (x # xs) = (if capacity < length (x # xs) then evict capacity xs else x # xs)"

definition push_batch :: "nat \<Rightarrow> bytes \<Rightarrow> tail \<Rightarrow> tail" where
  "push_batch first buf t =
     t\<lparr>tl_entries := evict (tl_capacity t) (tl_entries t @ line_entries buf 0 0 first buf)\<rparr>"

record tail_frame =
  tf_events :: "(nat \<times> bytes) list"
  tf_skipped :: nat
  tf_cut :: nat
  tf_latest :: "nat option"

definition tail_latest :: "tail \<Rightarrow> nat option" where
  "tail_latest t = (if tl_entries t = [] then None else Some (te_id (last (tl_entries t))))"

definition saturating_succ :: "nat \<Rightarrow> nat" where
  "saturating_succ a = min (a + 1) (2 ^ 64 - 1)"

definition tail_since :: "nat option \<Rightarrow> nat \<Rightarrow> tail \<Rightarrow> tail_frame" where
  "tail_since after limit t =
     (let es = tl_entries t;
          newer = (case after of Some a \<Rightarrow> filter (\<lambda>e. a < te_id e) es | None \<Rightarrow> es);
          gone = (case after of
                    Some a \<Rightarrow>
                      (case es of
                         e # _ \<Rightarrow> if saturating_succ a < te_id e then te_id e - saturating_succ a else 0
                       | [] \<Rightarrow> 0)
                  | None \<Rightarrow> 0);
          cut = length newer - limit in
      \<lparr>tf_events = map (\<lambda>e. (te_id e, te_line e)) (drop cut newer), tf_skipped = gone + cut, tf_cut = cut,
       tf_latest = tail_latest t\<rparr>)"

definition tail_find :: "nat \<Rightarrow> tail \<Rightarrow> bytes option" where
  "tail_find rid t =
     (case tl_entries t of
        [] \<Rightarrow> None
      | e # _ \<Rightarrow>
          if rid < te_id e then None
          else let idx = rid - te_id e in
               if idx < length (tl_entries t) \<and> te_id (tl_entries t ! idx) = rid
               then Some (te_line (tl_entries t ! idx)) else None)"

subsection \<open>The ring holds the newest lines under consecutive ids\<close>

lemma evict_drop: "evict capacity xs = drop (length xs - capacity) xs"
proof (induction xs)
  case (Cons x xs)
  then show ?case by (cases "capacity < length (x # xs)") (simp_all add: Suc_diff_le)
qed simp

text \<open>The lines of a buffer, each without its terminator.\<close>

fun cut_lines :: "bytes \<Rightarrow> bytes \<Rightarrow> bytes list" where
  "cut_lines acc [] = []"
| "cut_lines acc (b # r) = (if b = CHR 0x0A then acc # cut_lines [] r else cut_lines (acc @ [b]) r)"

lemma cut_lines_joined: "list_all (\<lambda>l. CHR 0x0A \<notin> set l) ls \<Longrightarrow> cut_lines [] (concat (map (\<lambda>l. l @ [CHR 0x0A]) ls)) = ls"
proof (induction ls)
  case (Cons l ls)
  have "CHR 0x0A \<notin> set l \<Longrightarrow> cut_lines acc (l @ CHR 0x0A # r) = (acc @ l) # cut_lines [] r" for acc r
    by (induction l arbitrary: acc) auto
  from this [of "[]"] Cons show ?case by simp
qed simp

lemma line_entries_lines:
  assumes "buf = pre @ acc @ r"
  shows "map te_line (line_entries buf (length pre + length acc) (length pre) n r) = cut_lines acc r \<and>
    map te_id (line_entries buf (length pre + length acc) (length pre) n r) = [n..<n + length (cut_lines acc r)]"
  using assms
proof (induction r arbitrary: pre acc n)
  case (Cons b r)
  show ?case
  proof (cases "b = CHR 0x0A")
    case True
    with Cons.IH [of "pre @ acc @ [b]" "[]" "n + 1"] Cons.prems show ?thesis
      by (simp add: te_line_def slice_def upt_conv_Cons del: upt_Suc)
  next
    case False
    with Cons.IH [of pre "acc @ [b]" n] Cons.prems show ?thesis by simp
  qed
qed simp

definition tail_ok :: "tail \<Rightarrow> nat \<Rightarrow> bytes list \<Rightarrow> bool" where
  "tail_ok t nx ls \<longleftrightarrow>
     map te_line (tl_entries t) = drop (length ls - tl_capacity t) ls \<and>
     map te_id (tl_entries t) = [nx - length (tl_entries t)..<nx] \<and> length (tl_entries t) \<le> nx \<and> 0 < tl_capacity t"

lemma tail_new_ok: "tail_ok (tail_new capacity) n []"
  by (simp add: tail_ok_def tail_new_def)

lemma push_batch_ok:
  assumes "tail_ok t nx ls"
  shows "tail_ok (push_batch nx buf t) (nx + length (cut_lines [] buf)) (ls @ cut_lines [] buf)"
proof -
  let ?n = "line_entries buf 0 0 nx buf" and ?c = "tl_capacity t" and ?new = "cut_lines [] buf"
  have new: "map te_line ?n = ?new" "map te_id ?n = [nx..<nx + length ?new]"
    using line_entries_lines [of buf "[]" "[]" buf nx] by simp_all
  have ln: "length ?n = length ?new" using arg_cong [OF new(1), of length] by simp
  have le: "length (tl_entries t) = length ls - (length ls - ?c)"
    using assms by (metis length_drop length_map tail_ok_def)
  let ?all = "tl_entries t @ ?n"
  have ids: "map te_id ?all = [nx - length (tl_entries t)..<nx + length ?new]"
  proof -
    have "map te_id (tl_entries t) = [nx - length (tl_entries t)..<nx]" using assms unfolding tail_ok_def by blast
    then show ?thesis unfolding map_append new(2)
      using upt_add_eq_append [of "nx - length (tl_entries t)" nx "length ?new"] by simp
  qed
  define k where "k = length ?all - ?c"
  have "map te_line (drop k ?all) = drop k (drop (length ls - ?c) ls @ ?new)"
    using assms unfolding drop_map [symmetric] map_append new(1) tail_ok_def by metis
  also have "\<dots> = drop (length (ls @ ?new) - ?c) (ls @ ?new)"
    using le ln by (cases "length ls \<le> ?c") (simp_all add: k_def add.commute)
  finally have "map te_line (drop k ?all) = drop (length (ls @ ?new) - ?c) (ls @ ?new)" .
  moreover have "map te_id (drop k ?all) = [nx + length ?new - length (drop k ?all)..<nx + length ?new]"
  proof -
    have "map te_id (drop k ?all) = [nx - length (tl_entries t) + k..<nx + length ?new]"
      unfolding drop_map [symmetric] ids drop_upt ..
    moreover have "nx - length (tl_entries t) + k = nx + length ?new - length (drop k ?all)"
    proof -
      have "length (tl_entries t) \<le> nx" using assms by (simp add: tail_ok_def)
      moreover have "k \<le> length (tl_entries t) + length ?new" using ln by (simp add: k_def)
      ultimately show ?thesis using ln by simp
    qed
    ultimately show ?thesis by simp
  qed
  moreover have "length (drop k ?all) \<le> nx + length ?new"
  proof (rule order_trans)
    show "length (drop k ?all) \<le> length ?all" by (simp only: length_drop diff_le_self)
    show "length ?all \<le> nx + length ?new" using assms ln by (simp add: tail_ok_def)
  qed
  moreover have "tl_entries (push_batch nx buf t) = drop k ?all" "tl_capacity (push_batch nx buf t) = ?c"
    unfolding push_batch_def evict_drop k_def by simp_all
  ultimately show ?thesis
    using assms unfolding tail_ok_def by presburger
qed

lemma tail_find_ok:
  assumes "tail_ok t nx ls" "length ls \<le> nx"
  shows "tail_find i t = (if nx - length (tl_entries t) \<le> i \<and> i < nx then Some (ls ! (i - (nx - length ls))) else None)"
proof -
  have ids: "te_id (tl_entries t ! k) = nx - length (tl_entries t) + k" if "k < length (tl_entries t)" for k
    using assms that by (simp add: tail_ok_def list_eq_iff_nth_eq)
  have lines: "te_line (tl_entries t ! k) = ls ! (length ls - length (tl_entries t) + k)" if k: "k < length (tl_entries t)" for k
  proof -
    have lm: "map te_line (tl_entries t) = drop (length ls - tl_capacity t) ls" using assms by (simp add: tail_ok_def)
    from arg_cong [OF lm, of length] have "length (tl_entries t) = length ls - (length ls - tl_capacity t)" by simp
    with k arg_cong [OF lm, of "\<lambda>xs. xs ! k"] show ?thesis by simp
  qed
  have le: "length (tl_entries t) \<le> length ls" using assms by (metis length_drop length_map diff_le_self tail_ok_def)
  show ?thesis
  proof (cases "tl_entries t")
    case Nil
    then show ?thesis by (simp add: tail_find_def)
  next
    case (Cons e es)
    with ids [of 0] have e: "te_id e = nx - length (tl_entries t)" by simp
    have n: "length (tl_entries t) \<le> nx" using assms by (simp add: tail_ok_def)
    show ?thesis
    proof (cases "i < te_id e \<or> nx \<le> i")
      case True
      then show ?thesis using e n Cons by (auto simp: tail_find_def Let_def)
    next
      case False
      then have k: "i - te_id e < length (tl_entries t)" using e n by linarith
      have a: "nx - length (tl_entries t) + (i - te_id e) = i" "length ls - length (tl_entries t) + (i - te_id e) = i - (nx - length ls)"
        using e n le False assms(2) by linarith+
      have "tail_find i t = Some (te_line (tl_entries t ! (i - te_id e)))"
        using False k ids [OF k] a(1) Cons by (simp add: tail_find_def Let_def)
      with lines [OF k] a(2) e False show ?thesis by simp
    qed
  qed
qed

end
