(* ===== verification/Ulpf_Output.thy ===== *)
theory Ulpf_Output
  imports Ulpf_Pipeline Ulpf_Tail "HOL-Library.AList" "HOL-Library.Multiset"
begin

text \<open>
  The output thread of \<open>src/crates/ulpf/src/engine.rs\<close>: it waits for the batch whose sequence number
  comes next, writes its buffer, posts its entity values to the index with their offsets in the
  file, and hands the buffer to the tail. The file is what has been given to the buffered writer;
  when it is flushed, the Parquet sink and an output that fails are outside the model.
\<close>

record emitted =
  em_seq :: nat
  em_buf :: bytes
  em_count :: nat
  em_first :: nat
  em_entities :: entity_batch

record posting =
  po_id :: nat
  po_time :: int
  po_kind :: entity_kind
  po_value :: bytes
  po_device :: bytes
  po_parser :: "bytes option"
  po_offset :: nat
  po_len :: nat

definition text_or_empty :: "bytes \<Rightarrow> bytes" where
  "text_or_empty v = (if utf8_valid v then v else [])"

definition event_postings :: "nat \<Rightarrow> entity_batch \<Rightarrow> event_entities \<Rightarrow> posting list" where
  "event_postings at eb ev =
     (let device = eb_slice eb (ee_device ev);
          prs = (if fst (ee_parser ev) \<noteq> snd (ee_parser ev) then Some (text_or_empty (eb_slice eb (ee_parser ev))) else None) in
      List.map_filter (\<lambda>(k, r).
          if fst r \<noteq> snd r
          then Some \<lparr>po_id = ee_raw_id ev, po_time = ee_time_ms ev, po_kind = all_entities ! k, po_value = eb_slice eb r,
                 po_device = device, po_parser = prs, po_offset = at + fst (ee_line ev),
                 po_len = snd (ee_line ev) - fst (ee_line ev)\<rparr>
          else None)
        (List.enumerate 0 (ee_values ev)))"

definition postings_of :: "nat \<Rightarrow> entity_batch \<Rightarrow> posting list" where
  "postings_of at eb = concat (map (event_postings at eb) (eb_events eb))"

text \<open>
  \<open>ot_pos\<close> is the offset of the next line, unknown before the first write, and \<open>ot_start\<close> the first one; a sink such as stdout or a
  device starts at 0. \<open>ot_indexed\<close> says that the entity index is running.
\<close>

record out_state =
  ot_file :: bytes
  ot_sink :: bool
  ot_pos :: "nat option"
  ot_start :: nat
  ot_indexed :: bool
  ot_pending :: "(nat \<times> emitted) list"
  ot_next :: nat
  ot_tail :: tail
  ot_emitted :: nat
  ot_bytes :: nat
  ot_postings :: "posting list"

definition write_pos :: "out_state \<Rightarrow> nat" where
  "write_pos ot = (case ot_pos ot of Some p \<Rightarrow> p | None \<Rightarrow> if ot_sink ot then 0 else length (ot_file ot))"

definition emit :: "emitted \<Rightarrow> out_state \<Rightarrow> out_state" where
  "emit e ot =
     (let at = write_pos ot in
      ot\<lparr>ot_file := ot_file ot @ em_buf e, ot_emitted := ot_emitted ot + em_count e, ot_bytes := ot_bytes ot + length (em_buf e),
         ot_postings := (if ot_indexed ot then ot_postings ot @ postings_of at (em_entities e) else ot_postings ot),
         ot_start := (if ot_pos ot = None then at else ot_start ot), ot_pos := Some (at + length (em_buf e)), ot_tail := push_batch (em_first e) (em_buf e) (ot_tail ot),
         ot_next := ot_next ot + 1\<rparr>)"

lemma emit_simps [simp]:
  "ot_pending (emit e ot) = ot_pending ot" "ot_next (emit e ot) = ot_next ot + 1" "ot_file (emit e ot) = ot_file ot @ em_buf e"
  "ot_emitted (emit e ot) = ot_emitted ot + em_count e" "ot_tail (emit e ot) = push_batch (em_first e) (em_buf e) (ot_tail ot)"
  by (simp_all add: emit_def Let_def)

text \<open>Write while the next batch is there.\<close>

function drain :: "out_state \<Rightarrow> out_state" where
  "drain ot =
     (case map_of (ot_pending ot) (ot_next ot) of
        None \<Rightarrow> ot
      | Some e \<Rightarrow> drain (emit e (ot\<lparr>ot_pending := AList.delete (ot_next ot) (ot_pending ot)\<rparr>)))"
  by pat_completeness auto
termination
proof (relation "measure (\<lambda>ot. length (ot_pending ot))")
  fix ot :: out_state and e :: emitted
  assume "map_of (ot_pending ot) (ot_next ot) = Some e"
  then have "(ot_next ot, e) \<in> set (ot_pending ot)" by (rule map_of_SomeD)
  then have "length (AList.delete (ot_next ot) (ot_pending ot)) < length (ot_pending ot)"
    unfolding AList.delete_eq by (intro length_filter_less) auto
  then show "(emit e (ot\<lparr>ot_pending := AList.delete (ot_next ot) (ot_pending ot)\<rparr>), ot) \<in> measure (\<lambda>ot. length (ot_pending ot))"
    by simp
qed simp

declare drain.simps [simp del]

definition receive :: "emitted \<Rightarrow> out_state \<Rightarrow> out_state" where
  "receive e ot = drain (ot\<lparr>ot_pending := AList.update (em_seq e) e (ot_pending ot)\<rparr>)"

subsection \<open>The lines of a batch\<close>

definition joined :: "bytes list \<Rightarrow> bytes" where
  "joined ls = concat (map (\<lambda>l. l @ [CHR 0x0A]) ls)"

lemma joined_append [simp]: "joined (a @ b) = joined a @ joined b" "joined [] = []"
  by (simp_all add: joined_def)

text \<open>A line the pipeline writes for an event under a raw id, by some version of the definitions.\<close>

definition line_for :: "engines \<Rightarrow> (jvalue \<Rightarrow> bytes) \<Rightarrow> pipeline set \<Rightarrow> nat \<Rightarrow> bytes \<Rightarrow> bytes \<Rightarrow> bool" where
  "line_for E to_json pls rid ev l \<longleftrightarrow> CHR 0x0A \<notin> set l \<and>
     (\<exists>pl\<in>pls. \<exists>src rc hint parsed. snd (snd (snd (process E to_json pl ev rid src rc hint parsed []))) = l @ [CHR 0x0A])"

definition lines_for :: "engines \<Rightarrow> (jvalue \<Rightarrow> bytes) \<Rightarrow> pipeline set \<Rightarrow> nat \<Rightarrow> bytes list \<Rightarrow> bytes list \<Rightarrow> bool" where
  "lines_for E to_json pls first evs ls \<longleftrightarrow>
     length ls = length evs \<and> (\<forall>i<length evs. line_for E to_json pls (first + i) (evs ! i) (ls ! i))"

lemma line_for_mono: "line_for E to_json pls rid ev l \<Longrightarrow> pls \<subseteq> pls' \<Longrightarrow> line_for E to_json pls' rid ev l"
  unfolding line_for_def by blast

lemma lines_for_mono: "lines_for E to_json pls first evs ls \<Longrightarrow> pls \<subseteq> pls' \<Longrightarrow> lines_for E to_json pls' first evs ls"
  unfolding lines_for_def using line_for_mono by blast

lemma lines_for_Nil [simp]: "lines_for E to_json pls first [] []"
  by (simp add: lines_for_def)

lemma lines_for_append:
  "lines_for E to_json pls first as la \<Longrightarrow> lines_for E to_json pls (first + length as) cs lb \<Longrightarrow>
    lines_for E to_json pls first (as @ cs) (la @ lb)"
  by (auto simp: lines_for_def nth_append) (metis add.assoc add_diff_inverse_nat nat_add_left_cancel_less)

lemma lines_for_clean: "lines_for E to_json pls first evs ls \<Longrightarrow> list_all (\<lambda>l. CHR 0x0A \<notin> set l) ls"
  by (auto simp: lines_for_def line_for_def list_all_length)

lemma lines_for_cut:
  assumes "lines_for E to_json pls first evs ls"
  shows "cut_lines [] (joined ls) = ls"
  using cut_lines_joined [OF lines_for_clean [OF assms]] by (simp add: joined_def)

text \<open>What the buffer held before does not matter for a line.\<close>

lemma process_out:
  "snd (snd (snd (process E to_json pl event rid source receipt hint parsed out))) =
   out @ snd (snd (snd (process E to_json pl event rid source receipt hint parsed [])))"
  unfolding process_def Let_def using normalize_appends
  by (simp add: split_beta split: option.split)

lemma process_batch_each:
  assumes "one_line to_json" "ws_out w = []"
  shows "\<exists>ls. ws_out (process_batch E to_json pl b w) = joined ls \<and> length ls = length (bt_ranges b) \<and>
    (\<forall>i < length ls. CHR 0x0A \<notin> set (ls ! i) \<and>
       (\<exists>hint parsed. snd (snd (snd (process E to_json pl (batch_events b ! i) (bt_first b + i) (batch_source b i)
          (batch_receipt b i) hint parsed []))) = ls ! i @ [CHR 0x0A]))"
proof -
  let ?P = "\<lambda>i l. CHR 0x0A \<notin> set l \<and> (\<exists>hint parsed. snd (snd (snd (process E to_json pl (batch_events b ! i) (bt_first b + i)
    (batch_source b i) (batch_receipt b i) hint parsed []))) = l @ [CHR 0x0A])"
  have one: "\<exists>l. ws_out (process_one E to_json pl b i w) = ws_out w @ l @ [CHR 0x0A] \<and> ?P i l" for i w
  proof -
    let ?p = "\<lambda>out. snd (snd (snd (process E to_json pl (batch_events b ! i) (bt_first b + i) (batch_source b i) (batch_receipt b i)
      (ws_hint w) (ws_parsed w) out)))"
    have out: "ws_out (process_one E to_json pl b i w) = ?p (ws_out w)" by (simp add: process_one_def Let_def split_beta)
    obtain v where v: "?p [] = to_json v @ [CHR 0x0A]" using process_appends by (metis append_Nil)
    moreover have "ws_out (process_one E to_json pl b i w) = ws_out w @ to_json v @ [CHR 0x0A]"
      unfolding out process_out [of E to_json pl _ _ _ _ _ _ "ws_out w"] v ..
    moreover have "CHR 0x0A \<notin> set (to_json v)" using assms(1) by (simp add: one_line_def)
    ultimately show ?thesis by blast
  qed
  have "\<exists>ls. ws_out (foldl (\<lambda>w i. process_one E to_json pl b i w) w [0..<n]) = joined ls \<and> length ls = n \<and> (\<forall>i < n. ?P i (ls ! i))" for n
  proof (induction n)
    case 0
    then show ?case using assms(2) by (intro exI [of _ "[]"]) simp
  next
    case (Suc n)
    let ?w = "foldl (\<lambda>w i. process_one E to_json pl b i w) w [0..<n]"
    from Suc obtain ls where ls: "ws_out ?w = joined ls" "length ls = n" "\<forall>i < n. ?P i (ls ! i)" by blast
    obtain l where l: "ws_out (process_one E to_json pl b n ?w) = ws_out ?w @ l @ [CHR 0x0A]" "?P n l" using one by blast
    have "\<forall>i < Suc n. ?P i ((ls @ [l]) ! i)" using ls(2,3) l(2) by (simp add: nth_append less_Suc_eq)
    then show ?case using l(1) ls(1,2) by (intro exI [of _ "ls @ [l]"]) (simp add: joined_def)
  qed
  from this [of "length (bt_ranges b)"] obtain ls where
    "ws_out (foldl (\<lambda>w i. process_one E to_json pl b i w) w [0..<length (bt_ranges b)]) = joined ls"
    "length ls = length (bt_ranges b)" "\<forall>i < length (bt_ranges b). ?P i (ls ! i)" by blast
  then show ?thesis unfolding process_batch_def by (intro exI [of _ ls]) simp
qed

lemma process_batch_lines_for:
  assumes "one_line to_json" "pl \<in> pls" "ws_out w = []"
  shows "\<exists>ls. ws_out (process_batch E to_json pl b w) = joined ls \<and> lines_for E to_json pls (bt_first b) (batch_events b) ls"
proof -
  from process_batch_each [OF assms(1,3), of E pl b] obtain ls where
    ls: "ws_out (process_batch E to_json pl b w) = joined ls" "length ls = length (bt_ranges b)"
      "\<forall>i < length ls. CHR 0x0A \<notin> set (ls ! i) \<and> (\<exists>hint parsed. snd (snd (snd (process E to_json pl (batch_events b ! i)
         (bt_first b + i) (batch_source b i) (batch_receipt b i) hint parsed []))) = ls ! i @ [CHR 0x0A])" by blast
  have "line_for E to_json pls (bt_first b + i) (batch_events b ! i) (ls ! i)" if "i < length ls" for i
    using ls(3) [rule_format, OF that] assms(2) unfolding line_for_def by blast
  moreover have "length ls = length (batch_events b)" using ls(2) by (simp add: batch_events_def)
  ultimately have "lines_for E to_json pls (bt_first b) (batch_events b) ls" by (simp add: lines_for_def)
  with ls(1) show ?thesis by blast
qed

subsection \<open>What the thread has written\<close>

text \<open>
  \<open>log\<close> is the list of all batches in the order of their sequence numbers. A processed batch carries
  the lines of its events, and the file holds the lines of the batches written so far.
\<close>

definition batch_done :: "engines \<Rightarrow> (jvalue \<Rightarrow> bytes) \<Rightarrow> pipeline set \<Rightarrow> batch list \<Rightarrow> emitted \<Rightarrow> bool" where
  "batch_done E to_json pls log e \<longleftrightarrow>
     em_seq e < length log \<and> em_first e = bt_first (log ! em_seq e) \<and>
     em_count e = length (batch_events (log ! em_seq e)) \<and>
     (\<exists>ls. em_buf e = joined ls \<and> lines_for E to_json pls (em_first e) (batch_events (log ! em_seq e)) ls)"

definition events_upto :: "batch list \<Rightarrow> nat \<Rightarrow> bytes list" where
  "events_upto log n = concat (map batch_events (take n log))"

definition log_ids :: "nat \<Rightarrow> batch list \<Rightarrow> bool" where
  "log_ids n0 log \<longleftrightarrow> (\<forall>i<length log. bt_seq (log ! i) = i \<and> bt_first (log ! i) = n0 + length (events_upto log i))"

definition written ::
  "engines \<Rightarrow> (jvalue \<Rightarrow> bytes) \<Rightarrow> pipeline set \<Rightarrow> batch list \<Rightarrow> nat \<Rightarrow> bytes \<Rightarrow> out_state \<Rightarrow> bool" where
  "written E to_json pls log n0 file0 ot \<longleftrightarrow>
     (\<exists>ls. ot_file ot = file0 @ joined ls \<and> lines_for E to_json pls n0 (events_upto log (ot_next ot)) ls \<and>
        tail_ok (ot_tail ot) (n0 + length ls) ls \<and> ot_emitted ot = length ls)"

lemma batch_done_mono: "batch_done E to_json pls log e \<Longrightarrow> pls \<subseteq> pls' \<Longrightarrow> batch_done E to_json pls' log e"
  unfolding batch_done_def using lines_for_mono by blast

lemma batch_done_snoc: "batch_done E to_json pls log e \<Longrightarrow> batch_done E to_json pls (log @ [b]) e"
  by (auto simp: batch_done_def nth_append)

lemma events_upto_snoc: "n \<le> length log \<Longrightarrow> events_upto (log @ [b]) n = events_upto log n"
  by (simp add: events_upto_def)

lemma events_upto_Suc: "n < length log \<Longrightarrow> events_upto log (Suc n) = events_upto log n @ batch_events (log ! n)"
  by (simp add: events_upto_def take_Suc_conv_app_nth)

lemma written_mono: "written E to_json pls log n0 file0 ot \<Longrightarrow> pls \<subseteq> pls' \<Longrightarrow> written E to_json pls' log n0 file0 ot"
  unfolding written_def using lines_for_mono by blast

lemma emit_written:
  assumes "written E to_json pls log n0 file0 ot" "batch_done E to_json pls log e" "em_seq e = ot_next ot" "log_ids n0 log"
  shows "written E to_json pls log n0 file0 (emit e ot)"
proof -
  let ?n = "ot_next ot"
  from assms(1) obtain ls where ls: "ot_file ot = file0 @ joined ls" "lines_for E to_json pls n0 (events_upto log ?n) ls"
    "tail_ok (ot_tail ot) (n0 + length ls) ls" "ot_emitted ot = length ls" unfolding written_def by blast
  from assms(2,3) obtain ks where n: "?n < length log" "em_first e = bt_first (log ! ?n)"
      "em_count e = length (batch_events (log ! ?n))"
    and ks: "em_buf e = joined ks" "lines_for E to_json pls (em_first e) (batch_events (log ! ?n)) ks"
    unfolding batch_done_def by auto
  have len: "length ls = length (events_upto log ?n)" "length ks = length (batch_events (log ! ?n))"
    using ls(2) ks(2) by (simp_all add: lines_for_def)
  have first: "em_first e = n0 + length ls" using n assms(4) by (simp add: log_ids_def len)
  from lines_for_append [OF ls(2), of "batch_events (log ! ?n)" ks] ks(2)
  have "lines_for E to_json pls n0 (events_upto log (?n + 1)) (ls @ ks)"
    using n(1) by (simp add: first len events_upto_Suc)
  moreover have "tail_ok (ot_tail (emit e ot)) (n0 + length (ls @ ks)) (ls @ ks)"
    using push_batch_ok [OF ls(3), of "em_buf e"] unfolding emit_simps first ks(1) lines_for_cut [OF ks(2)] by (simp add: ac_simps)
  moreover have "ot_file (emit e ot) = file0 @ joined (ls @ ks)" "ot_emitted (emit e ot) = length (ls @ ks)"
    by (simp_all add: ls ks n len)
  ultimately show ?thesis unfolding written_def emit_simps(2) by blast
qed

lemma mset_delete:
  assumes "count (mset (map fst xs)) k = 1"
  shows "add_mset k (mset (map fst (AList.delete k xs))) = mset (map fst xs)"
proof (rule multiset_eqI)
  fix x
  have "mset (map fst (AList.delete k xs)) = filter_mset (\<lambda>y. y \<noteq> k) (mset (map fst xs))"
    by (induction xs) auto
  then show "count (add_mset k (mset (map fst (AList.delete k xs)))) x = count (mset (map fst xs)) x"
    using assms by auto
qed

lemma update_new: "k \<notin> fst ` set xs \<Longrightarrow> AList.update k v xs = xs @ [(k, v)]"
  by (induction xs) auto

text \<open>Where the sequence numbers not yet written are: \<open>rest\<close> of them elsewhere, the others waiting.\<close>

definition waiting :: "engines \<Rightarrow> (jvalue \<Rightarrow> bytes) \<Rightarrow> pipeline set \<Rightarrow> batch list \<Rightarrow> nat multiset \<Rightarrow> out_state \<Rightarrow> bool" where
  "waiting E to_json pls log rest ot \<longleftrightarrow>
     (\<forall>(q, e) \<in> set (ot_pending ot). em_seq e = q \<and> batch_done E to_json pls log e) \<and>
     rest + mset (map fst (ot_pending ot)) = mset [ot_next ot..<length log] \<and> ot_next ot \<le> length log"

lemma drain_written:
  assumes "written E to_json pls log n0 file0 ot" "waiting E to_json pls log rest ot" "log_ids n0 log"
  shows "written E to_json pls log n0 file0 (drain ot) \<and> waiting E to_json pls log rest (drain ot) \<and>
    map_of (ot_pending (drain ot)) (ot_next (drain ot)) = None"
  using assms
proof (induction ot rule: drain.induct)
  case (1 ot)
  let ?n = "ot_next ot" and ?p = "ot_pending ot"
  show ?case
  proof (cases "map_of ?p ?n")
    case None
    then show ?thesis using 1 by (simp add: drain.simps)
  next
    case (Some e)
    let ?ot = "emit e (ot\<lparr>ot_pending := AList.delete ?n ?p\<rparr>)"
    from Some have mem: "(?n, e) \<in> set ?p" by (rule map_of_SomeD)
    with 1(3) have e: "em_seq e = ?n" "batch_done E to_json pls log e" unfolding waiting_def by auto
    then have lt: "?n < length log" by (simp add: batch_done_def)
    have eq: "rest + mset (map fst ?p) = mset [?n..<length log]" using 1(3) by (simp add: waiting_def)
    have "count (rest + mset (map fst ?p)) ?n = 1" unfolding eq using lt by (simp add: count_mset)
    moreover have "?n \<in># mset (map fst ?p)" using mem by force
    then have "count (mset (map fst ?p)) ?n > 0" by simp
    ultimately have "count (mset (map fst ?p)) ?n = 1" unfolding count_union by linarith
    from mset_delete [OF this] eq lt
    have "rest + mset (map fst (AList.delete ?n ?p)) = mset [Suc ?n..<length log]"
      by (simp add: upt_conv_Cons del: upt_Suc) (metis add_mset_add_single add_right_imp_eq union_mset_add_mset_right)
    moreover have "set (AList.delete ?n ?p) \<subseteq> set ?p" by (auto simp: AList.delete_eq)
    ultimately have w: "waiting E to_json pls log rest ?ot" using 1(3) lt unfolding waiting_def by auto
    have "written E to_json pls log n0 file0 (ot\<lparr>ot_pending := AList.delete ?n ?p\<rparr>)" using 1(2) by (simp add: written_def)
    from emit_written [OF this e(2) _ 1(4)] e(1) have "written E to_json pls log n0 file0 ?ot" by simp
    from 1(1) [OF Some this w 1(4)] Some show ?thesis by (simp add: drain.simps [of ot])
  qed
qed

lemma receive_written:
  assumes "written E to_json pls log n0 file0 ot" "waiting E to_json pls log (add_mset (em_seq e) rest) ot"
    and "batch_done E to_json pls log e" "log_ids n0 log"
  shows "written E to_json pls log n0 file0 (receive e ot) \<and> waiting E to_json pls log rest (receive e ot) \<and>
    map_of (ot_pending (receive e ot)) (ot_next (receive e ot)) = None"
proof -
  let ?ot = "ot\<lparr>ot_pending := AList.update (em_seq e) e (ot_pending ot)\<rparr>"
  have eq: "add_mset (em_seq e) rest + mset (map fst (ot_pending ot)) = mset [ot_next ot..<length log]"
    using assms(2) by (simp add: waiting_def)
  have "count (mset [ot_next ot..<length log]) (em_seq e) \<le> 1"
    by (cases "em_seq e \<in> {ot_next ot..<length log}") simp_all
  then have "count (mset (map fst (ot_pending ot))) (em_seq e) = 0"
    unfolding eq [symmetric] count_union count_add_mset by simp
  then have "em_seq e \<notin># mset (map fst (ot_pending ot))" by (simp only: count_eq_zero_iff not_False_eq_True)
  then have new: "em_seq e \<notin> fst ` set (ot_pending ot)" by simp
  then have up: "AList.update (em_seq e) e (ot_pending ot) = ot_pending ot @ [(em_seq e, e)]"
    by (rule update_new)
  have "written E to_json pls log n0 file0 ?ot" using assms(1) by (simp add: written_def)
  moreover have "waiting E to_json pls log rest ?ot"
    using assms(2,3) unfolding waiting_def by (auto simp: up)
  ultimately show ?thesis unfolding receive_def using drain_written assms(4) by blast
qed

end
