(* ===== verification/Ulpf_Engine.thy ===== *)
theory Ulpf_Engine
  imports Ulpf_Output
begin

text \<open>
  The threads of \<open>src/crates/ulpf/src/engine.rs\<close> as a step relation: producers store a batch under the
  store's lock and then block until the bounded queue has room, workers take batches, process them
  and send what they emit into a second bounded queue, and the output thread receives it. A step is
  what one thread does between two points where others can see it. Drift statistics, the inference
  buffers and the latency of a flush are outside the model, as is an output that fails.
\<close>

datatype worker_job = Idle | Working batch | Sending emitted

text \<open>\<open>wk_version\<close> names the pipeline the worker holds by its place in the list of all pipelines.\<close>

record worker =
  wk_version :: nat
  wk_hint :: "nat option"
  wk_job :: worker_job

record setting =
  sg_engines :: engines
  sg_json :: "jvalue \<Rightarrow> bytes"
  sg_hash :: "bytes \<Rightarrow> bytes"
  sg_cap :: nat

text \<open>
  \<open>eg_events\<close> are the events of the store and \<open>eg_log\<close> all batches that have a sequence number: they
  record what happened and decide nothing. \<open>eg_sending\<close> are the stored batches whose producer still
  waits for room in the queue. The pipeline in use is the last one.
\<close>

record engine =
  eg_store :: raw_store
  eg_events :: "event list"
  eg_log :: "batch list"
  eg_sending :: "batch list"
  eg_queue :: "batch list"
  eg_workers :: "worker list"
  eg_out :: "emitted list"
  eg_output :: out_state
  eg_pipelines :: "pipeline list"
  eg_counts :: counts

definition add_counts :: "counts \<Rightarrow> counts \<Rightarrow> counts" where
  "add_counts c t =
     \<lparr>lc_detected = lc_detected t + lc_detected c, lc_no_parser = lc_no_parser t + lc_no_parser c,
      lc_parsed = lc_parsed t + lc_parsed c, lc_parse_failed = map2 (+) (lc_parse_failed t) (lc_parse_failed c),
      lc_sub_matched = lc_sub_matched t + lc_sub_matched c, lc_sub_no_match = lc_sub_no_match t + lc_sub_no_match c,
      lc_sub_uncovered = lc_sub_uncovered t + lc_sub_uncovered c,
      lc_time_from_receipt = lc_time_from_receipt t + lc_time_from_receipt c,
      lc_time_error = map2 (+) (lc_time_error t) (lc_time_error c), lc_normalized = lc_normalized t + lc_normalized c,
      lc_class_unknown = lc_class_unknown t + lc_class_unknown c, lc_enum_other = lc_enum_other t + lc_enum_other c,
      lc_unmapped_fields = lc_unmapped_fields t + lc_unmapped_fields c, lc_utf8_lossy = lc_utf8_lossy t + lc_utf8_lossy c\<rparr>"

definition fresh_worker :: "nat option \<Rightarrow> pipeline \<Rightarrow> worker_state" where
  "fresh_worker hint pl =
     \<lparr>ws_hint = hint, ws_parsed = parsed_default, ws_out = [], ws_counts = counts_zero,
      ws_hits = replicate (length (rg_parsers (pl_registry pl))) 0, ws_unknown = [], ws_failed = [],
      ws_entities = Some \<lparr>eb_arena = [], eb_events = []\<rparr>\<rparr>"

text \<open>One turn of a worker: a reload since the last batch drops the hint with the old registry.\<close>

definition worker_turn :: "setting \<Rightarrow> pipeline list \<Rightarrow> worker \<Rightarrow> batch \<Rightarrow> worker \<times> counts" where
  "worker_turn sg pls w b =
     (let v = length pls - 1; pl = pls ! v;
          hint = (if wk_version w = v then wk_hint w else None);
          r = process_batch (sg_engines sg) (sg_json sg) pl b (fresh_worker hint pl) in
      (\<lparr>wk_version = v, wk_hint = ws_hint r,
         wk_job = Sending \<lparr>em_seq = bt_seq b, em_buf = ws_out r, em_count = length (bt_ranges b), em_first = bt_first b,
           em_entities = the (ws_entities r)\<rparr>\<rparr>, ws_counts r))"

text \<open>
  What the engine does with what it has stored: a producer's batch enters the queue, an idle worker
  takes the head, processes it, sends it on when there is room, and the output thread receives.
\<close>

inductive flow :: "setting \<Rightarrow> engine \<Rightarrow> engine \<Rightarrow> bool" for sg :: setting where
  flow_send: "eg_sending s = xs @ b # ys \<Longrightarrow> length (eg_queue s) < sg_cap sg \<Longrightarrow>
    flow sg s (s\<lparr>eg_sending := xs @ ys, eg_queue := eg_queue s @ [b]\<rparr>)"
| flow_take: "eg_queue s = b # q \<Longrightarrow> i < length (eg_workers s) \<Longrightarrow> wk_job (eg_workers s ! i) = Idle \<Longrightarrow>
    flow sg s (s\<lparr>eg_queue := q, eg_workers := (eg_workers s)[i := (eg_workers s ! i)\<lparr>wk_job := Working b\<rparr>]\<rparr>)"
| flow_process: "i < length (eg_workers s) \<Longrightarrow> wk_job (eg_workers s ! i) = Working b \<Longrightarrow>
    worker_turn sg (eg_pipelines s) (eg_workers s ! i) b = (w, c) \<Longrightarrow>
    flow sg s (s\<lparr>eg_workers := (eg_workers s)[i := w], eg_counts := add_counts c (eg_counts s)\<rparr>)"
| flow_put: "i < length (eg_workers s) \<Longrightarrow> wk_job (eg_workers s ! i) = Sending e \<Longrightarrow> length (eg_out s) < sg_cap sg * 2 \<Longrightarrow>
    flow sg s (s\<lparr>eg_out := eg_out s @ [e], eg_workers := (eg_workers s)[i := (eg_workers s ! i)\<lparr>wk_job := Idle\<rparr>]\<rparr>)"
| flow_write: "eg_out s = e # r \<Longrightarrow> flow sg s (s\<lparr>eg_out := r, eg_output := receive e (eg_output s)\<rparr>)"

text \<open>
  What comes from outside: any producer stores a batch of events, and the definitions are
  reloaded. The guard says that the events fit the widths of a record and the offsets of the store.
\<close>

inductive outside :: "setting \<Rightarrow> engine \<Rightarrow> engine \<Rightarrow> bool" for sg :: setting where
  outside_store: "stamped evs \<Longrightarrow> fits (eg_events s) (map ev_bytes evs) \<Longrightarrow>
    store_batch (sg_hash sg) evs (eg_store s) = Inr (first, st) \<Longrightarrow>
    bt_seq b = length (eg_log s) \<Longrightarrow> bt_first b = first \<Longrightarrow> batch_events b = map ev_bytes evs \<Longrightarrow>
    outside sg s (s\<lparr>eg_store := st, eg_events := eg_events s @ evs, eg_log := eg_log s @ [b], eg_sending := eg_sending s @ [b]\<rparr>)"
| outside_reload: "outside sg s (s\<lparr>eg_pipelines := eg_pipelines s @ [pl]\<rparr>)"

definition output_start :: "bytes \<Rightarrow> bool \<Rightarrow> bool \<Rightarrow> nat \<Rightarrow> out_state" where
  "output_start content sink indexed capacity =
     \<lparr>ot_file = content, ot_sink = sink, ot_pos = None, ot_start = 0, ot_indexed = indexed, ot_pending = [], ot_next = 0,
      ot_tail = tail_new capacity, ot_emitted = 0, ot_bytes = 0, ot_postings = []\<rparr>"

definition engine_start :: "raw_store \<Rightarrow> event list \<Rightarrow> out_state \<Rightarrow> pipeline \<Rightarrow> nat \<Rightarrow> engine" where
  "engine_start st es ot pl threads =
     \<lparr>eg_store = st, eg_events = es, eg_log = [], eg_sending = [], eg_queue = [],
      eg_workers = replicate threads \<lparr>wk_version = 0, wk_hint = None, wk_job = Idle\<rparr>, eg_out = [], eg_output = ot,
      eg_pipelines = [pl], eg_counts = counts_zero\<rparr>"

inductive reachable :: "setting \<Rightarrow> engine \<Rightarrow> engine \<Rightarrow> bool" for sg :: setting and s0 :: engine where
  reach_start: "reachable sg s0 s0"
| reach_flow: "reachable sg s0 s \<Longrightarrow> flow sg s t \<Longrightarrow> reachable sg s0 t"
| reach_outside: "reachable sg s0 s \<Longrightarrow> outside sg s t \<Longrightarrow> reachable sg s0 t"

inductive_cases flowE: "flow sg s t"
inductive_cases outsideE: "outside sg s t"

subsection \<open>Where every sequence number is\<close>

fun job_seqs :: "worker_job \<Rightarrow> nat list" where
  "job_seqs Idle = []"
| "job_seqs (Working b) = [bt_seq b]"
| "job_seqs (Sending e) = [em_seq e]"

fun job_weight :: "worker_job \<Rightarrow> nat" where
  "job_weight Idle = 0"
| "job_weight (Working b) = 3"
| "job_weight (Sending e) = 2"

definition worker_seqs :: "worker list \<Rightarrow> nat multiset" where
  "worker_seqs wl = mset (concat (map (\<lambda>w. job_seqs (wk_job w)) wl))"

definition in_flight :: "engine \<Rightarrow> nat multiset" where
  "in_flight s = mset (map bt_seq (eg_sending s)) + mset (map bt_seq (eg_queue s)) + worker_seqs (eg_workers s) +
     mset (map em_seq (eg_out s))"

definition weight :: "engine \<Rightarrow> nat" where
  "weight s = 5 * length (eg_sending s) + 4 * length (eg_queue s) + sum_list (map (\<lambda>w. job_weight (wk_job w)) (eg_workers s)) +
     length (eg_out s)"

lemma concat_update:
  "i < length wl \<Longrightarrow> mset (concat (map f (wl[i := w]))) + mset (f (wl ! i)) = mset (concat (map f wl)) + mset (f w)"
proof (induction wl arbitrary: i)
  case (Cons v wl)
  then show ?case by (cases i) (simp_all add: add.assoc)
qed simp

lemma worker_seqs_update:
  "i < length wl \<Longrightarrow> worker_seqs (wl[i := w]) + mset (job_seqs (wk_job (wl ! i))) = worker_seqs wl + mset (job_seqs (wk_job w))"
  unfolding worker_seqs_def using concat_update [of i wl "\<lambda>w. job_seqs (wk_job w)" w] by simp

lemma sum_update:
  "i < length wl \<Longrightarrow> sum_list (map g (wl[i := w])) + g (wl ! i) = sum_list (map g wl) + (g w :: nat)"
proof (induction wl arbitrary: i)
  case (Cons v wl)
  then show ?case by (cases i) (simp_all add: add.assoc)
qed simp

lemma flow_weight: "flow sg s t \<Longrightarrow> weight t < weight s"
proof (erule flowE)
  fix b q i
  assume "t = s\<lparr>eg_queue := q, eg_workers := (eg_workers s)[i := (eg_workers s ! i)\<lparr>wk_job := Working b\<rparr>]\<rparr>"
    "eg_queue s = b # q" "i < length (eg_workers s)" "wk_job (eg_workers s ! i) = Idle"
  then show ?thesis using sum_update [of i "eg_workers s" "\<lambda>w. job_weight (wk_job w)" "(eg_workers s ! i)\<lparr>wk_job := Working b\<rparr>"]
    by (simp add: weight_def)
next
  fix i b w c
  assume "t = s\<lparr>eg_workers := (eg_workers s)[i := w], eg_counts := add_counts c (eg_counts s)\<rparr>"
    "i < length (eg_workers s)" "wk_job (eg_workers s ! i) = Working b"
    "worker_turn sg (eg_pipelines s) (eg_workers s ! i) b = (w, c)"
  moreover from this(4) obtain e where "wk_job w = Sending e" by (auto simp: worker_turn_def Let_def)
  ultimately show ?thesis using sum_update [of i "eg_workers s" "\<lambda>w. job_weight (wk_job w)" w]
    by (simp add: weight_def)
next
  fix i e
  assume "t = s\<lparr>eg_out := eg_out s @ [e], eg_workers := (eg_workers s)[i := (eg_workers s ! i)\<lparr>wk_job := Idle\<rparr>]\<rparr>"
    "i < length (eg_workers s)" "wk_job (eg_workers s ! i) = Sending e"
  then show ?thesis using sum_update [of i "eg_workers s" "\<lambda>w. job_weight (wk_job w)" "(eg_workers s ! i)\<lparr>wk_job := Idle\<rparr>"]
    by (simp add: weight_def)
qed (simp_all add: weight_def)

subsection \<open>The invariant\<close>

definition in_log :: "batch list \<Rightarrow> batch \<Rightarrow> bool" where
  "in_log log b \<longleftrightarrow> bt_seq b < length log \<and> log ! bt_seq b = b"

fun job_ok_in :: "setting \<Rightarrow> pipeline set \<Rightarrow> batch list \<Rightarrow> worker_job \<Rightarrow> bool" where
  "job_ok_in sg pls log Idle \<longleftrightarrow> True"
| "job_ok_in sg pls log (Working b) \<longleftrightarrow> in_log log b"
| "job_ok_in sg pls log (Sending e) \<longleftrightarrow> batch_done (sg_engines sg) (sg_json sg) pls log e"

text \<open>Everything on its way is what it should be.\<close>

definition held_ok :: "setting \<Rightarrow> engine \<Rightarrow> bool" where
  "held_ok sg s \<longleftrightarrow>
     (let pls = set (eg_pipelines s); log = eg_log s in
      list_all (in_log log) (eg_sending s) \<and> list_all (in_log log) (eg_queue s) \<and>
      list_all (\<lambda>w. job_ok_in sg pls log (wk_job w)) (eg_workers s) \<and>
      list_all (batch_done (sg_engines sg) (sg_json sg) pls log) (eg_out s))"

definition stored_ok :: "setting \<Rightarrow> event list \<Rightarrow> engine \<Rightarrow> bool" where
  "stored_ok sg es0 s \<longleftrightarrow>
     store_repr (sg_hash sg) (eg_store s) (eg_events s) \<and> eg_pipelines s \<noteq> [] \<and>
     take (length es0) (eg_events s) = es0 \<and>
     map ev_bytes (drop (length es0) (eg_events s)) = events_upto (eg_log s) (length (eg_log s)) \<and>
     log_ids (length es0) (eg_log s)"

definition output_ok :: "setting \<Rightarrow> event list \<Rightarrow> bytes \<Rightarrow> engine \<Rightarrow> bool" where
  "output_ok sg es0 file0 s \<longleftrightarrow>
     (let E = sg_engines sg; tj = sg_json sg; pls = set (eg_pipelines s); ot = eg_output s in
      written E tj pls (eg_log s) (length es0) file0 ot \<and> waiting E tj pls (eg_log s) (in_flight s) ot \<and>
      map_of (ot_pending ot) (ot_next ot) = None)"

lemma waiting_mono:
  assumes "waiting E to_json pls log rest ot" "pls \<subseteq> pls'"
  shows "waiting E to_json pls' log rest ot"
  using assms(1) by (auto simp: waiting_def intro: batch_done_mono [OF _ assms(2)])

lemma job_ok_mono: "job_ok_in sg pls log j \<Longrightarrow> pls \<subseteq> pls' \<Longrightarrow> job_ok_in sg pls' log j"
  by (cases j) (auto intro: batch_done_mono)

lemma in_log_snoc: "in_log log b \<Longrightarrow> in_log (log @ [c]) b"
  by (simp add: in_log_def nth_append)

lemma job_ok_snoc: "job_ok_in sg pls log j \<Longrightarrow> job_ok_in sg pls (log @ [c]) j"
  by (cases j) (auto intro: batch_done_snoc in_log_snoc)

lemma worker_turn_done:
  assumes "worker_turn sg pls w b = (w', c)" "one_line (sg_json sg)" "pls \<noteq> []" "in_log log b"
  shows "\<exists>e. wk_job w' = Sending e \<and> em_seq e = bt_seq b \<and> batch_done (sg_engines sg) (sg_json sg) (set pls) log e"
proof -
  let ?v = "length pls - 1"
  define h where "h = (if wk_version w = ?v then wk_hint w else None)"
  define r where "r = process_batch (sg_engines sg) (sg_json sg) (pls ! ?v) b (fresh_worker h (pls ! ?v))"
  have "pls ! ?v \<in> set pls" using assms(3) by simp
  from process_batch_lines_for [OF assms(2) this, of "fresh_worker h (pls ! ?v)" "sg_engines sg" b]
  obtain ls where "ws_out r = joined ls"
    "lines_for (sg_engines sg) (sg_json sg) (set pls) (bt_first b) (batch_events b) ls"
    by (auto simp: fresh_worker_def r_def)
  moreover have "w' = \<lparr>wk_version = ?v, wk_hint = ws_hint r,
      wk_job = Sending \<lparr>em_seq = bt_seq b, em_buf = ws_out r, em_count = length (bt_ranges b), em_first = bt_first b,
        em_entities = the (ws_entities r)\<rparr>\<rparr>"
    using assms(1) by (simp add: worker_turn_def Let_def r_def h_def)
  moreover have "length (bt_ranges b) = length (batch_events b)" by (simp add: batch_events_def)
  ultimately show ?thesis using assms(4) by (auto simp: batch_done_def in_log_def)
qed

lemma list_all_update: "list_all P xs \<Longrightarrow> P x \<Longrightarrow> list_all P (xs[i := x])"
  by (auto simp: list_all_iff dest: set_update_subset_insert [THEN subsetD])

lemma list_all_at: "list_all P xs \<Longrightarrow> i < length xs \<Longrightarrow> P (xs ! i)"
  by (simp add: list_all_length)

text \<open>A step that only moves batches keeps what is in flight.\<close>

lemma flow_send_ok:
  assumes "held_ok sg s" "eg_sending s = xs @ b # ys"
  defines "t \<equiv> s\<lparr>eg_sending := xs @ ys, eg_queue := eg_queue s @ [b]\<rparr>"
  shows "held_ok sg t \<and> in_flight t = in_flight s"
  using assms by (simp add: held_ok_def in_flight_def Let_def)

lemma flow_take_ok:
  assumes "held_ok sg s" "eg_queue s = b # q" "i < length (eg_workers s)" "wk_job (eg_workers s ! i) = Idle"
  defines "t \<equiv> s\<lparr>eg_queue := q, eg_workers := (eg_workers s)[i := (eg_workers s ! i)\<lparr>wk_job := Working b\<rparr>]\<rparr>"
  shows "held_ok sg t \<and> in_flight t = in_flight s"
proof
  show "held_ok sg t" using assms by (auto simp: held_ok_def Let_def intro: list_all_update)
  have "worker_seqs ((eg_workers s)[i := (eg_workers s ! i)\<lparr>wk_job := Working b\<rparr>]) = add_mset (bt_seq b) (worker_seqs (eg_workers s))"
    using worker_seqs_update [OF assms(3), of "(eg_workers s ! i)\<lparr>wk_job := Working b\<rparr>"] assms(4) by simp
  then show "in_flight t = in_flight s" using assms(2) by (simp add: in_flight_def t_def)
qed

lemma flow_process_ok:
  assumes "held_ok sg s" "i < length (eg_workers s)" "wk_job (eg_workers s ! i) = Working b"
    and "worker_turn sg (eg_pipelines s) (eg_workers s ! i) b = (w, c)" "one_line (sg_json sg)" "eg_pipelines s \<noteq> []"
  defines "t \<equiv> s\<lparr>eg_workers := (eg_workers s)[i := w], eg_counts := add_counts c (eg_counts s)\<rparr>"
  shows "held_ok sg t \<and> in_flight t = in_flight s"
proof
  have "job_ok_in sg (set (eg_pipelines s)) (eg_log s) (wk_job (eg_workers s ! i))"
    using assms(1,2) by (simp add: held_ok_def Let_def list_all_length)
  with assms(3) have "in_log (eg_log s) b" by simp
  from worker_turn_done [OF assms(4-6) this] obtain e where e: "wk_job w = Sending e" "em_seq e = bt_seq b"
    "batch_done (sg_engines sg) (sg_json sg) (set (eg_pipelines s)) (eg_log s) e" by blast
  show "held_ok sg t" using assms(1) e by (auto simp: held_ok_def t_def Let_def intro: list_all_update)
  have "worker_seqs ((eg_workers s)[i := w]) = worker_seqs (eg_workers s)"
    using worker_seqs_update [OF assms(2), of w] assms(3) e by simp
  then show "in_flight t = in_flight s" by (simp add: in_flight_def t_def)
qed

lemma flow_put_ok:
  assumes "held_ok sg s" "i < length (eg_workers s)" "wk_job (eg_workers s ! i) = Sending e"
  defines "t \<equiv> s\<lparr>eg_out := eg_out s @ [e], eg_workers := (eg_workers s)[i := (eg_workers s ! i)\<lparr>wk_job := Idle\<rparr>]\<rparr>"
  shows "held_ok sg t \<and> in_flight t = in_flight s"
proof
  have "job_ok_in sg (set (eg_pipelines s)) (eg_log s) (wk_job (eg_workers s ! i))"
    using assms(1,2) by (simp add: held_ok_def Let_def list_all_length)
  with assms(3) show "held_ok sg t" using assms(1) by (auto simp: held_ok_def t_def Let_def intro: list_all_update)
  have "worker_seqs (eg_workers s) = add_mset (em_seq e) (worker_seqs ((eg_workers s)[i := (eg_workers s ! i)\<lparr>wk_job := Idle\<rparr>]))"
    using worker_seqs_update [OF assms(2), of "(eg_workers s ! i)\<lparr>wk_job := Idle\<rparr>"] assms(3) by simp
  then show "in_flight t = in_flight s" by (simp add: in_flight_def t_def)
qed

definition engine_ok :: "setting \<Rightarrow> event list \<Rightarrow> bytes \<Rightarrow> engine \<Rightarrow> bool" where
  "engine_ok sg es0 file0 s \<longleftrightarrow> stored_ok sg es0 s \<and> held_ok sg s \<and> output_ok sg es0 file0 s"

lemma flow_ok:
  assumes "flow sg s t" "engine_ok sg es0 file0 s" "one_line (sg_json sg)"
  shows "engine_ok sg es0 file0 t"
  using assms(1)
proof cases
  case (flow_send xs b ys)
  with flow_send_ok [of sg s xs b ys] assms(2) show ?thesis by (simp add: engine_ok_def stored_ok_def output_ok_def)
next
  case (flow_take b q i)
  with flow_take_ok [of sg s b q i] assms(2) show ?thesis by (simp add: engine_ok_def stored_ok_def output_ok_def)
next
  case (flow_process i b w c)
  have "eg_pipelines s \<noteq> []" using assms(2) by (simp add: engine_ok_def stored_ok_def)
  with flow_process flow_process_ok [of sg s i b w c] assms(2,3) show ?thesis
    by (simp add: engine_ok_def stored_ok_def output_ok_def)
next
  case (flow_put i e)
  with flow_put_ok [of sg s i e] assms(2) show ?thesis by (simp add: engine_ok_def stored_ok_def output_ok_def)
next
  case (flow_write e r)
  have e: "batch_done (sg_engines sg) (sg_json sg) (set (eg_pipelines s)) (eg_log s) e" "held_ok sg t"
    using assms(2) flow_write by (auto simp: engine_ok_def held_ok_def Let_def)
  have "in_flight s = add_mset (em_seq e) (in_flight t)" using flow_write by (simp add: in_flight_def)
  with assms(2) receive_written [OF _ _ e(1), of "length es0" file0 "eg_output s" "in_flight t"]
  show ?thesis using e(2) flow_write by (simp add: engine_ok_def stored_ok_def output_ok_def Let_def)
qed

lemma log_ids_snoc:
  assumes "log_ids n0 log" "bt_seq b = length log" "bt_first b = n0 + length (events_upto log (length log))"
  shows "log_ids n0 (log @ [b])"
  unfolding log_ids_def
proof (intro allI impI)
  fix i assume i: "i < length (log @ [b])"
  show "bt_seq ((log @ [b]) ! i) = i \<and> bt_first ((log @ [b]) ! i) = n0 + length (events_upto (log @ [b]) i)"
  proof (cases "i < length log")
    case True
    then show ?thesis using assms(1) by (simp add: log_ids_def nth_append events_upto_snoc)
  next
    case False
    then have "i = length log" using i by simp
    then show ?thesis using assms(2,3) by (simp add: events_upto_snoc)
  qed
qed

lemma waiting_snoc:
  assumes "waiting E to_json pls log rest ot"
  shows "waiting E to_json pls (log @ [b]) (add_mset (length log) rest) ot"
  using assms unfolding waiting_def by (auto intro: batch_done_snoc simp del: mset_map)

lemma written_snoc:
  assumes "written E to_json pls log n0 file0 ot" "ot_next ot \<le> length log"
  shows "written E to_json pls (log @ [b]) n0 file0 ot"
  using assms by (simp add: written_def events_upto_snoc)

lemma outside_ok:
  assumes "outside sg s t" "engine_ok sg es0 file0 s"
  shows "engine_ok sg es0 file0 t"
  using assms(1)
proof cases
  case (outside_store evs first st b)
  let ?n = "length es0" and ?log = "eg_log s"
  from assms(2) have s: "store_repr (sg_hash sg) (eg_store s) (eg_events s)" "eg_pipelines s \<noteq> []"
      "take ?n (eg_events s) = es0" "map ev_bytes (drop ?n (eg_events s)) = events_upto ?log (length ?log)"
      "log_ids ?n ?log"
    and h: "held_ok sg s" and o: "written (sg_engines sg) (sg_json sg) (set (eg_pipelines s)) ?log ?n file0 (eg_output s)"
      "waiting (sg_engines sg) (sg_json sg) (set (eg_pipelines s)) ?log (in_flight s) (eg_output s)"
      "map_of (ot_pending (eg_output s)) (ot_next (eg_output s)) = None"
    unfolding engine_ok_def stored_ok_def output_ok_def Let_def by blast+
  have "fits (eg_events s) (map ev_bytes evs @ [])" using outside_store by simp
  from store_batch_repr [OF s(1) fits_split(2) [OF this outside_store(2)]] outside_store(4)
  have st: "first = length (eg_events s)" "store_repr (sg_hash sg) st (eg_events s @ evs)" by auto
  have le: "?n \<le> length (eg_events s)" using arg_cong [OF s(3), of length] by simp
  have first: "bt_first b = ?n + length (events_upto ?log (length ?log))"
    using outside_store(6) st(1) le arg_cong [OF s(4), of length] by simp
  have all: "events_upto (?log @ [b]) (length (?log @ [b])) = events_upto ?log (length ?log) @ batch_events b"
    by (simp add: events_upto_def)
  have "stored_ok sg es0 t"
    using outside_store(1,7) st(2) s le log_ids_snoc [OF s(5) outside_store(5) first] all
    by (simp add: stored_ok_def)
  moreover have "in_log (?log @ [b]) b" using outside_store(5) by (simp add: in_log_def)
  then have "held_ok sg t"
    using h outside_store(1) by (auto simp: held_ok_def Let_def list_all_iff intro: in_log_snoc job_ok_snoc batch_done_snoc)
  moreover have "in_flight t = add_mset (length ?log) (in_flight s)"
    using outside_store(1,5) by (simp add: in_flight_def)
  then have "output_ok sg es0 file0 t"
    using o waiting_snoc [OF o(2), of b] written_snoc [OF o(1), of b] outside_store(1)
    by (simp add: output_ok_def Let_def waiting_def)
  ultimately show ?thesis by (simp add: engine_ok_def)
next
  case (outside_reload pl)
  have sub: "set (eg_pipelines s) \<subseteq> insert pl (set (eg_pipelines s))" by auto
  have "stored_ok sg es0 t" using assms(2) outside_reload by (simp add: engine_ok_def stored_ok_def)
  moreover have "held_ok sg t"
    using assms(2) outside_reload
    by (auto simp: engine_ok_def held_ok_def Let_def list_all_iff intro: batch_done_mono [OF _ sub] job_ok_mono [OF _ sub])
  moreover have "in_flight t = in_flight s" using outside_reload by (simp add: in_flight_def)
  then have "output_ok sg es0 file0 t"
    using assms(2) outside_reload written_mono [OF _ sub] waiting_mono [OF _ sub]
    by (simp add: engine_ok_def output_ok_def Let_def)
  ultimately show ?thesis by (simp add: engine_ok_def)
qed

lemma start_ok:
  assumes "store_repr (sg_hash sg) st es0"
  shows "engine_ok sg es0 content (engine_start st es0 (output_start content sink indexed capacity) pl threads)"
proof -
  have "written (sg_engines sg) (sg_json sg) {pl} [] (length es0) content (output_start content sink indexed capacity)"
    unfolding written_def by (intro exI [of _ "[]"]) (simp add: output_start_def events_upto_def tail_new_ok)
  moreover have "worker_seqs (replicate threads \<lparr>wk_version = 0, wk_hint = None, wk_job = Idle\<rparr>) = {#}"
    by (simp add: worker_seqs_def)
  ultimately show ?thesis
    using assms by (simp add: engine_ok_def stored_ok_def held_ok_def output_ok_def engine_start_def log_ids_def
      events_upto_def in_flight_def waiting_def output_start_def list_all_iff)
qed

lemma reachable_ok:
  assumes "reachable sg (engine_start st es0 (output_start content sink indexed capacity) pl threads) s"
    and "store_repr (sg_hash sg) st es0" "one_line (sg_json sg)"
  shows "engine_ok sg es0 content s"
  using assms
  by (induction rule: reachable.induct) (auto intro: start_ok flow_ok outside_ok)

subsection \<open>What stays the same\<close>

lemma flow_same: "flow sg s t \<Longrightarrow> eg_events t = eg_events s \<and> eg_log t = eg_log s \<and> length (eg_workers t) = length (eg_workers s)"
  by (erule flowE) simp_all

lemma drain_capacity: "tl_capacity (ot_tail (drain ot)) = tl_capacity (ot_tail ot)"
proof (induction ot rule: drain.induct)
  case (1 ot)
  then show ?case
    by (cases "map_of (ot_pending ot) (ot_next ot)") (simp_all add: drain.simps [of ot] push_batch_def)
qed

lemma reachable_fixed:
  assumes "reachable sg (engine_start st es0 (output_start content sink indexed capacity) pl threads) s"
  shows "length (eg_workers s) = threads \<and> tl_capacity (ot_tail (eg_output s)) = max capacity 1"
  using assms
proof (induction rule: reachable.induct)
  case reach_start
  then show ?case by (simp add: engine_start_def output_start_def tail_new_def)
next
  case (reach_flow s t)
  from reach_flow(2) have "tl_capacity (ot_tail (eg_output t)) = tl_capacity (ot_tail (eg_output s))"
    by (rule flowE) (simp_all add: receive_def drain_capacity)
  with flow_same [OF reach_flow(2)] reach_flow(3) show ?case by simp
next
  case (reach_outside s t)
  from reach_outside(2,3) show ?case by (auto elim: outsideE)
qed

end
