(* ===== verification/Ulpf_Order.thy ===== *)
theory Ulpf_Order
  imports Ulpf_Engine
begin

text \<open>
  What the threads of the engine promise together: whatever the interleaving, the output holds
  the lines of the stored events in the order of their ids, and everything stored is
  written after a bounded number of steps.
\<close>

lemma events_upto_take: "n \<le> m \<Longrightarrow> events_upto log n = take (length (events_upto log n)) (events_upto log m)"
proof -
  assume "n \<le> m"
  then have "take m log = take n log @ take (m - n) (drop n log)"
    by (metis le_add_diff_inverse take_add)
  then show ?thesis by (simp add: events_upto_def)
qed

text \<open>
  C3. Output order. At every moment of every interleaving of producers, workers, reloads and the
  output thread, the output file holds its old content followed by one line for each of the first
  \<open>m\<close> events stored since the start, in the order of their raw ids and under them, each written by a
  pipeline that was in use; \<open>emitted\<close> counts them and the tail answers exactly the newest of them, as
  many as its capacity, each with its line.
\<close>

theorem engine_output_ordered:
  assumes "reachable sg (engine_start st es0 (output_start content sink indexed capacity) pl threads) s"
    and "store_repr (sg_hash sg) st es0" and "one_line (sg_json sg)"
  shows "\<exists>m ls. m \<le> length (drop (length es0) (eg_events s)) \<and>
    ot_file (eg_output s) = content @ joined ls \<and>
    lines_for (sg_engines sg) (sg_json sg) (set (eg_pipelines s)) (length es0)
      (map ev_bytes (take m (drop (length es0) (eg_events s)))) ls \<and>
    ot_emitted (eg_output s) = m \<and>
    (\<forall>i. tail_find i (ot_tail (eg_output s)) =
       (if length es0 + m - min m (max capacity 1) \<le> i \<and> i < length es0 + m then Some (ls ! (i - length es0)) else None))"
proof -
  let ?n = "length es0" and ?log = "eg_log s" and ?ot = "eg_output s"
  from reachable_ok [OF assms] have
    new: "map ev_bytes (drop ?n (eg_events s)) = events_upto ?log (length ?log)"
    and "written (sg_engines sg) (sg_json sg) (set (eg_pipelines s)) ?log ?n content ?ot" and le: "ot_next ?ot \<le> length ?log"
    unfolding engine_ok_def stored_ok_def output_ok_def waiting_def Let_def by blast+
  then obtain ls where ls: "ot_file ?ot = content @ joined ls"
    "lines_for (sg_engines sg) (sg_json sg) (set (eg_pipelines s)) ?n (events_upto ?log (ot_next ?ot)) ls"
    "tail_ok (ot_tail ?ot) (?n + length ls) ls" "ot_emitted ?ot = length ls" unfolding written_def by blast
  have cap: "tl_capacity (ot_tail ?ot) = max capacity 1" using reachable_fixed [OF assms(1)] by simp
  have len: "length ls = length (events_upto ?log (ot_next ?ot))" using ls(2) by (simp add: lines_for_def)
  have "map ev_bytes (take (length ls) (drop ?n (eg_events s))) = events_upto ?log (ot_next ?ot)"
    unfolding take_map [symmetric] new len by (rule events_upto_take [OF le, symmetric])
  moreover have "length (events_upto ?log (ot_next ?ot)) \<le> length (events_upto ?log (length ?log))"
    using arg_cong [OF events_upto_take [OF le, of ?log], of length] by (simp add: min_def split: if_splits)
  then have "length ls \<le> length (drop ?n (eg_events s))" using arg_cong [OF new, of length] len by simp
  moreover have "length (tl_entries (ot_tail ?ot)) = min (length ls) (max capacity 1)"
  proof -
    have "map te_line (tl_entries (ot_tail ?ot)) = drop (length ls - max capacity 1) ls" using ls(3) cap by (simp add: tail_ok_def)
    from arg_cong [OF this, of length] show ?thesis by simp
  qed
  then have "\<forall>i. tail_find i (ot_tail ?ot) =
      (if ?n + length ls - min (length ls) (max capacity 1) \<le> i \<and> i < ?n + length ls then Some (ls ! (i - ?n)) else None)"
    using tail_find_ok [OF ls(3)] by simp
  ultimately show ?thesis using ls(1,2,4) by (intro exI [of _ "length ls"] exI [of _ ls]) simp
qed

subsection \<open>Nothing is left behind\<close>

lemma job_weight_seqs: "job_weight j \<le> 5 * length (job_seqs j)"
  by (cases j) simp_all

lemma weight_bound: "weight s \<le> 5 * size (in_flight s)"
proof -
  have "sum_list (map (\<lambda>w. job_weight (wk_job w)) wl) \<le> 5 * size (worker_seqs wl)" for wl
  proof (induction wl)
    case (Cons w wl)
    then show ?case using job_weight_seqs [of "wk_job w"] by (simp add: worker_seqs_def)
  qed simp
  from this [of "eg_workers s"] show ?thesis by (simp add: weight_def in_flight_def)
qed

lemma in_flight_bound:
  assumes "output_ok sg es0 file0 s"
  shows "size (in_flight s) \<le> length (eg_log s)"
proof -
  have "in_flight s + mset (map fst (ot_pending (eg_output s))) = mset [ot_next (eg_output s)..<length (eg_log s)]"
    using assms by (simp add: output_ok_def waiting_def Let_def)
  from arg_cong [OF this, of size] show ?thesis by simp
qed

lemma flow_steps: "(flow sg ^^ n) s t \<Longrightarrow> n + weight t \<le> weight s"
proof (induction n arbitrary: t)
  case (Suc n)
  then obtain u where "(flow sg ^^ n) s u" "flow sg u t" by auto
  with Suc.IH [of u] flow_weight [of sg u t] show ?case by simp
qed simp

definition stuck :: "setting \<Rightarrow> engine \<Rightarrow> bool" where
  "stuck sg s \<longleftrightarrow> (\<nexists>t. flow sg s t)"

lemma flow_ends: "\<exists>t. (flow sg)\<^sup>*\<^sup>* s t \<and> stuck sg t"
proof (induction "weight s" arbitrary: s rule: less_induct)
  case less
  show ?case
  proof (cases "stuck sg s")
    case False
    then obtain u where "flow sg s u" by (auto simp: stuck_def)
    with less [OF flow_weight [OF this]] show ?thesis by (meson converse_rtranclp_into_rtranclp)
  qed blast
qed

lemma flows_reachable: "(flow sg)\<^sup>*\<^sup>* s t \<Longrightarrow> reachable sg s0 s \<Longrightarrow>
    reachable sg s0 t \<and> eg_events t = eg_events s \<and> eg_log t = eg_log s"
  by (induction rule: rtranclp_induct) (auto intro: reach_flow dest: flow_same)

lemma stuck_idle:
  assumes "stuck sg s" "0 < sg_cap sg" "eg_workers s \<noteq> []"
  shows "in_flight s = {#}"
proof -
  have out: "eg_out s = []" using assms(1) flow_write unfolding stuck_def by (metis neq_Nil_conv)
  have idle: "wk_job (eg_workers s ! i) = Idle" if i: "i < length (eg_workers s)" for i
  proof (cases "wk_job (eg_workers s ! i)")
    case (Working b)
    obtain w c where "worker_turn sg (eg_pipelines s) (eg_workers s ! i) b = (w, c)" by fastforce
    from flow_process [OF i Working this] assms(1) show ?thesis by (auto simp: stuck_def)
  next
    case (Sending e)
    from flow_put [OF i Sending] assms(1,2) out show ?thesis by (auto simp: stuck_def)
  qed
  have queue: "eg_queue s = []"
  proof (cases "eg_queue s")
    case (Cons b q)
    from flow_take [OF Cons _ idle, of 0] assms(1,3) show ?thesis by (auto simp: stuck_def)
  qed
  have "eg_sending s = []"
  proof (cases "eg_sending s")
    case (Cons b q)
    then have "eg_sending s = [] @ b # q" by simp
    from flow_send [OF this] assms(1,2) queue show ?thesis by (auto simp: stuck_def)
  qed
  moreover have "worker_seqs (eg_workers s) = {#}" using idle by (auto simp: worker_seqs_def in_set_conv_nth)
  ultimately show ?thesis using out queue by (simp add: in_flight_def)
qed

lemma idle_written:
  assumes "output_ok sg es0 file0 s" "in_flight s = {#}"
  shows "ot_next (eg_output s) = length (eg_log s)"
proof (rule ccontr)
  let ?ot = "eg_output s"
  assume n: "ot_next ?ot \<noteq> length (eg_log s)"
  have m: "mset (map fst (ot_pending ?ot)) = mset [ot_next ?ot..<length (eg_log s)]" "ot_next ?ot \<le> length (eg_log s)"
    "map_of (ot_pending ?ot) (ot_next ?ot) = None"
    using assms by (simp_all add: output_ok_def waiting_def Let_def)
  with n have "ot_next ?ot \<in> set [ot_next ?ot..<length (eg_log s)]" by simp
  then have "ot_next ?ot \<in> fst ` set (ot_pending ?ot)" using mset_eq_setD [OF m(1)] by simp
  with m(3) show False by (simp add: map_of_eq_None_iff)
qed

text \<open>
  C2. Everything stored is written. With at least one worker and a queue that holds something, from
  every reachable state: a run of the engine without new input takes at most five steps
  for each batch stored so far, it can always go on until nothing is left to do, and wherever
  it stops the output holds exactly one line for each event stored since the start, in
  the order of the ids.
\<close>

theorem engine_drains:
  assumes "reachable sg (engine_start st es0 (output_start content sink indexed capacity) pl threads) s"
    and "store_repr (sg_hash sg) st es0" and "one_line (sg_json sg)" and "0 < sg_cap sg" and "0 < threads"
  shows "(\<forall>n t. (flow sg ^^ n) s t \<longrightarrow> n \<le> 5 * length (eg_log s)) \<and>
    (\<exists>t. (flow sg)\<^sup>*\<^sup>* s t \<and> stuck sg t) \<and>
    (\<forall>t. (flow sg)\<^sup>*\<^sup>* s t \<and> stuck sg t \<longrightarrow>
       (\<exists>ls. ot_file (eg_output t) = content @ joined ls \<and>
          lines_for (sg_engines sg) (sg_json sg) (set (eg_pipelines t)) (length es0)
            (map ev_bytes (drop (length es0) (eg_events s))) ls))"
proof (intro conjI allI impI flow_ends)
  fix n t assume "(flow sg ^^ n) s t"
  then have "n \<le> weight s" using flow_steps by fastforce
  also have "\<dots> \<le> 5 * length (eg_log s)"
    using weight_bound [of s] in_flight_bound [of sg es0 content s] reachable_ok [OF assms(1-3)] by (simp add: engine_ok_def)
  finally show "n \<le> 5 * length (eg_log s)" .
next
  fix t assume t: "(flow sg)\<^sup>*\<^sup>* s t \<and> stuck sg t"
  with flows_reachable [OF _ assms(1), of t] have r: "reachable sg (engine_start st es0 (output_start content sink indexed capacity) pl threads) t"
    "eg_events t = eg_events s" by auto
  have ok: "engine_ok sg es0 content t" using reachable_ok [OF r(1) assms(2,3)] .
  have "eg_workers t \<noteq> []" using reachable_fixed [OF r(1)] assms(5) by auto
  then have "in_flight t = {#}" using stuck_idle t assms(4) by blast
  then have n: "ot_next (eg_output t) = length (eg_log t)" using idle_written ok by (auto simp: engine_ok_def)
  from ok have "map ev_bytes (drop (length es0) (eg_events t)) = events_upto (eg_log t) (length (eg_log t))"
    and "written (sg_engines sg) (sg_json sg) (set (eg_pipelines t)) (eg_log t) (length es0) content (eg_output t)"
    unfolding engine_ok_def stored_ok_def output_ok_def Let_def by blast+
  then show "\<exists>ls. ot_file (eg_output t) = content @ joined ls \<and>
      lines_for (sg_engines sg) (sg_json sg) (set (eg_pipelines t)) (length es0) (map ev_bytes (drop (length es0) (eg_events s))) ls"
    unfolding written_def n r(2) [symmetric] by auto
qed

subsection \<open>An engine with one batch\<close>

definition sample_setting :: setting where
  "sample_setting = \<lparr>sg_engines = no_engines, sg_json = (\<lambda>_. ''{}''), sg_hash = tail_hash, sg_cap = 1\<rparr>"

definition sample_pipeline :: pipeline where
  "sample_pipeline = \<lparr>pl_registry = registry_new [sample_parser], pl_mapping = sample_mapping, pl_offset = 0, pl_files = []\<rparr>"

definition sample_batch :: batch where
  "sample_batch = \<lparr>bt_seq = 0, bt_name = ''fw.log'', bt_names = [], bt_bytes = ''type=1'' @ [LF], bt_receipt = 0, bt_first = 0,
     bt_ranges = [(0, 7)], bt_receipts = [], bt_sources = []\<rparr>"

definition sample_start :: engine where
  "sample_start = engine_start fresh_store [] (output_start [] False False 8) sample_pipeline 2"

lemma sample_one_line: "one_line (sg_json sample_setting)"
  by (simp add: one_line_def sample_setting_def)

lemma sample_store_repr: "store_repr (sg_hash sample_setting) fresh_store []"
  using fresh_store_repr by (simp add: sample_setting_def)

lemma sample_stored:
  "\<exists>s. reachable sample_setting sample_start s \<and> eg_events s = [sample_event 1 (''type=1'' @ [LF])] \<and> eg_log s = [sample_batch]"
proof -
  let ?evs = "[sample_event 1 (''type=1'' @ [LF])]"
  have st: "stamped ?evs" by (simp add: stamped_def sample_event_def i64_ok_def)
  moreover have f: "fits (eg_events sample_start) (map ev_bytes ?evs)"
    by (simp add: sample_start_def engine_start_def fits_def log_ok_def rec_off_def header_len_def sample_event_def)
  moreover have "log_ok ([] @ ?evs)"
    using fits_split(2) [of "[]" ?evs "[]"] f st by (simp add: sample_start_def engine_start_def)
  from store_batch_repr [OF sample_store_repr this] obtain st' where
    "store_batch (sg_hash sample_setting) ?evs (eg_store sample_start) = Inr (0, st')"
    by (auto simp: sample_start_def engine_start_def)
  moreover have "bt_seq sample_batch = length (eg_log sample_start)" "bt_first sample_batch = 0"
    "batch_events sample_batch = map ev_bytes ?evs"
    by (simp_all add: sample_start_def engine_start_def sample_batch_def batch_events_def sample_event_def slice_def)
  ultimately have "outside sample_setting sample_start (sample_start\<lparr>eg_store := st', eg_events := eg_events sample_start @ ?evs,
      eg_log := eg_log sample_start @ [sample_batch], eg_sending := eg_sending sample_start @ [sample_batch]\<rparr>)"
    by (rule outside_store)
  from reach_outside [OF reach_start this] show ?thesis
    by (intro exI conjI) (assumption, simp_all add: sample_start_def engine_start_def)
qed

lemma sample_line: "line_for (sg_engines sample_setting) (sg_json sample_setting) pls i ev l \<Longrightarrow> l = ''{}''"
proof -
  assume "line_for (sg_engines sample_setting) (sg_json sample_setting) pls i ev l"
  then obtain pl src rc hint parsed where
    "snd (snd (snd (process (sg_engines sample_setting) (sg_json sample_setting) pl ev i src rc hint parsed []))) = l @ [CHR 0x0A]"
    unfolding line_for_def by blast
  moreover obtain v where
    "snd (snd (snd (process (sg_engines sample_setting) (sg_json sample_setting) pl ev i src rc hint parsed []))) =
      [] @ sg_json sample_setting v @ [CHR 0x0A]" using process_appends by blast
  ultimately show ?thesis by (simp add: sample_setting_def)
qed

theorem engine_output_ordered_witness:
  "\<exists>s m ls. reachable sample_setting sample_start s \<and> eg_events s = [sample_event 1 (''type=1'' @ [LF])] \<and> m \<le> 1 \<and>
     ot_file (eg_output s) = joined ls \<and> ot_emitted (eg_output s) = m"
proof -
  obtain s where s: "reachable sample_setting sample_start s" "eg_events s = [sample_event 1 (''type=1'' @ [LF])]"
    using sample_stored by blast
  from engine_output_ordered [OF s(1) [unfolded sample_start_def] sample_store_repr sample_one_line]
  obtain m ls where "m \<le> length (drop (length ([] :: event list)) (eg_events s))" "ot_file (eg_output s) = [] @ joined ls"
    "ot_emitted (eg_output s) = m" by blast
  with s show ?thesis by (intro exI [of _ s] exI [of _ m] exI [of _ ls]) simp
qed

theorem engine_drains_witness:
  "\<exists>s t. reachable sample_setting sample_start s \<and> eg_events s = [sample_event 1 (''type=1'' @ [LF])] \<and>
     (flow sample_setting)\<^sup>*\<^sup>* s t \<and> stuck sample_setting t \<and> ot_file (eg_output t) = ''{}'' @ [CHR 0x0A]"
proof -
  obtain s where s: "reachable sample_setting sample_start s" "eg_events s = [sample_event 1 (''type=1'' @ [LF])]"
    using sample_stored by blast
  have "0 < sg_cap sample_setting" "(0::nat) < 2" by (simp_all add: sample_setting_def)
  note d = engine_drains [OF s(1) [unfolded sample_start_def] sample_store_repr sample_one_line this]
  then obtain t where t: "(flow sample_setting)\<^sup>*\<^sup>* s t" "stuck sample_setting t" by blast
  with d obtain ls where ls: "ot_file (eg_output t) = [] @ joined ls"
    "lines_for (sg_engines sample_setting) (sg_json sample_setting) (set (eg_pipelines t)) (length ([] :: event list))
      (map ev_bytes (drop (length ([] :: event list)) (eg_events s))) ls" by blast
  then have "length ls = 1" "line_for (sg_engines sample_setting) (sg_json sample_setting) (set (eg_pipelines t)) 0
      (''type=1'' @ [LF]) (ls ! 0)"
    using s(2) by (simp_all add: lines_for_def sample_event_def)
  then have "ls = [''{}'']" using sample_line by (cases ls) auto
  then have "ot_file (eg_output t) = ''{}'' @ [CHR 0x0A]" using ls(1) by (simp add: joined_def)
  with s t show ?thesis by blast
qed

end
