(* ===== verification/Ulpf_Resume.thy ===== *)
theory Ulpf_Resume
  imports Ulpf_Ingest Ulpf_Verify "HOL-Library.AList"
begin

text \<open>
  Where ingest resumes: \<open>RawStore::ingested_bytes\<close> of \<open>src/crates/ulpf-store/src/store.rs\<close> with
  \<open>ingest_file\<close>. The store itself says how much of a file it holds, so a stop, a crash and a
  restart in any order store every event once. \<open>names\<close> are the rows of the catalogue.
\<close>

definition count_record :: "owned_record \<Rightarrow> (nat \<times> nat) list \<Rightarrow> (nat \<times> nat) list" where
  "count_record rec m =
     AList.update (or_source rec) ((case map_of m (or_source rec) of Some n \<Rightarrow> n | None \<Rightarrow> 0) + length (or_bytes rec)) m"

fun count_bytes :: "raw_reader \<Rightarrow> nat list \<Rightarrow> (nat \<times> nat) list \<Rightarrow> bytes + (nat \<times> nat) list" where
  "count_bytes r [] m = Inr m"
| "count_bytes r (i # is) m =
     (case reader_get r i of
        None \<Rightarrow> Inl ''unreadable while reconciling ingest offsets''
      | Some rec \<Rightarrow> count_bytes r is (count_record rec m))"

fun name_bytes :: "(nat \<times> bytes) list \<Rightarrow> (nat \<times> nat) list \<Rightarrow> bytes + (bytes \<times> nat) list" where
  "name_bytes names [] = Inr []"
| "name_bytes names ((src, n) # rest) =
     (case map_of names src of
        None \<Rightarrow> Inl ''records but no catalogue row''
      | Some name \<Rightarrow> (case name_bytes names rest of Inl e \<Rightarrow> Inl e | Inr out \<Rightarrow> Inr ((name, n) # out)))"

definition ingested_bytes :: "raw_reader \<Rightarrow> (nat \<times> bytes) list \<Rightarrow> bytes + (bytes \<times> nat) list" where
  "ingested_bytes r names =
     (case count_bytes r [0..<rd_count r] [] of Inl e \<Rightarrow> Inl e | Inr m \<Rightarrow> name_bytes names m)"

definition resume_offset :: "(bytes \<times> nat) list \<Rightarrow> bytes \<Rightarrow> nat" where
  "resume_offset out name = (case map_of out name of Some n \<Rightarrow> n | None \<Rightarrow> 0)"

subsection \<open>The offset is what the store holds of the source\<close>

definition source_bytes :: "nat \<Rightarrow> event list \<Rightarrow> bytes list" where
  "source_bytes src es = map ev_bytes (filter (\<lambda>e. ev_source e = src) es)"

definition held :: "nat \<Rightarrow> event list \<Rightarrow> nat" where
  "held src es = length (concat (source_bytes src es))"

lemma source_bytes_append [simp]: "source_bytes src (a @ b) = source_bytes src a @ source_bytes src b"
  by (simp add: source_bytes_def)

lemma held_snoc: "held src (es @ [e]) = held src es + (if ev_source e = src then length (ev_bytes e) else 0)"
  by (simp add: held_def source_bytes_def)

lemma held_none: "src \<notin> ev_source ` set es \<Longrightarrow> held src es = 0"
  by (auto simp: held_def source_bytes_def filter_empty_conv)

lemma count_bytes_held:
  assumes "reader_repr H r es"
  shows "i \<le> length es \<Longrightarrow> \<exists>m. count_bytes r [0..<i] [] = Inr m \<and> distinct (map fst m) \<and>
    map_of m = (\<lambda>src. if src \<in> ev_source ` set (take i es) then Some (held src (take i es)) else None)"
proof (induction i)
  case (Suc i)
  have app: "count_bytes r (is @ [i]) m0 = (case count_bytes r is m0 of Inl e \<Rightarrow> Inl e | Inr m \<Rightarrow> count_bytes r [i] m)" for "is" m0
    by (induction "is" arbitrary: m0) (auto split: option.splits)
  from Suc.IH Suc.prems obtain m where m: "count_bytes r [0..<i] [] = Inr m" "distinct (map fst m)"
    "map_of m = (\<lambda>src. if src \<in> ev_source ` set (take i es) then Some (held src (take i es)) else None)"
    by (meson Suc_leD)
  define e where "e = es ! i"
  have g: "reader_get r i = Some (record_of H i e)" using reader_get_repr [OF assms] Suc.prems by (simp add: e_def)
  have tk: "take (Suc i) es = take i es @ [e]" using Suc.prems by (simp add: take_Suc_conv_app_nth e_def)
  let ?m = "count_record (record_of H i e) m"
  have upd: "?m = AList.update (ev_source e) (held (ev_source e) (take (Suc i) es)) m"
    using held_none [of "ev_source e" "take i es"]
    by (cases "ev_source e \<in> ev_source ` set (take i es)") (simp_all add: m(3) count_record_def record_of_def tk held_snoc)
  have other: "src \<noteq> ev_source e \<Longrightarrow> held src (take (Suc i) es) = held src (take i es)" for src
    by (simp add: tk held_snoc)
  have "count_bytes r [0..<Suc i] [] = Inr ?m" by (simp add: app m(1) g)
  moreover have "distinct (map fst ?m)" unfolding upd using m(2) by (rule distinct_update)
  moreover have "map_of ?m = (\<lambda>src. if src \<in> ev_source ` set (take (Suc i) es) then Some (held src (take (Suc i) es)) else None)"
    unfolding upd update_conv' m(3) using other by (auto simp: fun_eq_iff tk)
  ultimately show ?case by blast
qed simp

lemma name_bytes_found:
  "name_bytes names m = Inr out \<Longrightarrow> distinct (map fst m) \<Longrightarrow> distinct (map snd names) \<Longrightarrow> map_of names src = Some name \<Longrightarrow>
    map_of out name = map_of m src"
proof (induction m arbitrary: out)
  case (Cons x rest)
  obtain s n where x: "x = (s, n)" by fastforce
  from Cons.prems(1) x obtain nm out' where o: "map_of names s = Some nm" "name_bytes names rest = Inr out'" "out = (nm, n) # out'"
    by (auto split: option.splits sum.splits)
  show ?case
  proof (cases "s = src")
    case True
    with o Cons.prems(4) x show ?thesis by simp
  next
    case False
    have "nm \<noteq> name"
    proof
      assume "nm = name"
      with o(1) Cons.prems(4) have "(s, name) \<in> set names" "(src, name) \<in> set names" by (auto dest: map_of_SomeD)
      moreover have "inj_on snd (set names)" using Cons.prems(3) by (simp add: distinct_map)
      ultimately have "(s, name) = (src, name)" by (intro inj_onD [of snd "set names"]) simp_all
      with False show False by simp
    qed
    with o x False Cons.IH [OF o(2)] Cons.prems show ?thesis by simp
  qed
qed simp

lemma name_bytes_total: "(\<And>s n. (s, n) \<in> set m \<Longrightarrow> map_of names s \<noteq> None) \<Longrightarrow> \<exists>out. name_bytes names m = Inr out"
proof (induction m)
  case (Cons x rest)
  obtain s n where x: "x = (s, n)" by fastforce
  from Cons.IH Cons.prems obtain out where "name_bytes names rest = Inr out" by (metis list.set_intros(2))
  moreover from Cons.prems [of s n] x obtain nm where "map_of names s = Some nm" by auto
  ultimately show ?case using x by simp
qed simp

definition catalogue_ok :: "(nat \<times> bytes) list \<Rightarrow> event list \<Rightarrow> bool" where
  "catalogue_ok names es \<longleftrightarrow> distinct (map snd names) \<and> list_all (\<lambda>e. map_of names (ev_source e) \<noteq> None) es"

lemma ingested_bytes_held:
  assumes "reader_repr H r es" "catalogue_ok names es" "map_of names src = Some name"
  shows "\<exists>out. ingested_bytes r names = Inr out \<and> resume_offset out name = held src es"
proof -
  have n: "rd_count r = length es" using assms(1) by (simp add: reader_repr_def)
  obtain m where m: "count_bytes r [0..<length es] [] = Inr m" "distinct (map fst m)"
    "map_of m = (\<lambda>src. if src \<in> ev_source ` set es then Some (held src es) else None)"
    using count_bytes_held [OF assms(1) order_refl] unfolding take_all [OF order_refl] by blast
  have "map_of names s \<noteq> None" if "(s, k) \<in> set m" for s k
  proof -
    from weak_map_of_SomeI [OF that] obtain e where "e \<in> set es" "s = ev_source e" by (auto simp: m(3) split: if_splits)
    with assms(2) show ?thesis by (auto simp: catalogue_ok_def list_all_iff)
  qed
  then obtain out where out: "name_bytes names m = Inr out" using name_bytes_total by metis
  have "map_of out name = map_of m src"
    using name_bytes_found [OF out m(2) _ assms(3)] assms(2) by (simp add: catalogue_ok_def)
  with held_none [of src es] have "resume_offset out name = held src es" by (simp add: resume_offset_def m(3))
  with out m(1) n show ?thesis by (simp add: ingested_bytes_def)
qed

subsection \<open>Ingesting the rest of a file\<close>

lemma split_events_tail: "split_events s = e # es \<Longrightarrow> split_events (drop (length e) s) = es"
proof (induction s arbitrary: e es)
  case (Cons b bs)
  then show ?case by (cases "split_events bs") (auto split: if_splits)
qed simp

lemma split_events_drop: "split_events (drop (length (concat (take n (split_events s)))) s) = drop n (split_events s)"
proof (induction n arbitrary: s)
  case (Suc n)
  show ?case
  proof (cases "split_events s")
    case (Cons e es)
    with Suc.IH [of "drop (length e) s"] split_events_tail [OF Cons] show ?thesis by (simp add: add.commute)
  qed simp
qed simp

lemma frame_all_ends:
  "fr_pos f \<le> length (fr_buf f) \<Longrightarrow> fst (frame_all f) = rs \<Longrightarrow> 0 < m \<Longrightarrow> m \<le> length rs \<Longrightarrow>
    snd (rs ! (m - 1)) = fr_pos f + length (concat (take m (cut_all (fr_buf f) rs)))"
proof (induction f arbitrary: rs m rule: frame_all.induct)
  case (1 f)
  obtain o1 g where n: "framer_next f = (o1, g)" by fastforce
  show ?case
  proof (cases o1)
    case None
    with n "1.prems" frame_all_step(2) [of f g] show ?thesis by simp
  next
    case (Some r)
    with n have n: "framer_next f = (Some r, g)" by simp
    note adv = framer_next_advances [OF n]
    have r: "snd r \<le> length (fr_buf f)" "fst r = fr_pos f" "snd r = fr_pos g" "fr_pos f < fr_pos g"
      using framer_next_spec [of f] adv n by (auto simp: boundary_def)
    have rs: "rs = r # fst (frame_all g)" using frame_all_step(1) [OF n] "1.prems"(2) by simp
    have len: "length (slice (fst r) (snd r) (fr_buf f)) = fr_pos g - fr_pos f" using r by simp
    show ?thesis
    proof (cases "m = 1")
      case True
      with rs len r show ?thesis by (simp add: cut_all_def split_beta)
    next
      case False
      with "1.prems"(3,4) obtain k where k: "m = Suc k" "0 < k" by (cases m) auto
      have "snd (fst (frame_all g) ! (k - 1)) = fr_pos g + length (concat (take k (cut_all (fr_buf g) (fst (frame_all g)))))"
        using "1.IH" [OF n [symmetric] refl, of "fst (frame_all g)" k] r adv k "1.prems"(4) rs by simp
      moreover have "rs ! (m - 1) = fst (frame_all g) ! (k - 1)" using k rs by (cases k) auto
      ultimately show ?thesis using k rs len r adv by (simp add: cut_all_def split_beta)
    qed
  qed
qed

lemma cut_all_shifted: "cut_all bs (shifted n rs) = cut_all (drop n bs) rs"
  by (auto simp: cut_all_def shifted_def slice_drop ac_simps)

text \<open>The events an ingest of a file may take: without its end the last one is withheld.\<close>

definition events_in :: "bool \<Rightarrow> bytes \<Rightarrow> bytes list" where
  "events_in eof buf = (if eof then split_events buf else butlast (split_events buf))"

lemma frame_all_events: "cut_all buf (fst (frame_all (framer_new buf eof))) = events_in eof buf"
  using frame_spec [of eof buf] by (simp add: frame_def cut_all_def split_beta Let_def events_in_def split: if_splits)

lemma ingest_takes:
  assumes "job_ok j" "store_repr H (ig_store s) es"
    and "fits es (events_in eof (drop start content))"
  shows "\<exists>m new bts s'. ingest_file H j (Some content) start eof s =
      Inr (Some (min start (length content) + length (concat (take m (events_in eof (drop start content))))), s') \<and>
    store_repr H (ig_store s') (es @ new) \<and> events_of j new \<and> map ev_bytes new = take m (events_in eof (drop start content)) \<and>
    ig_sent s' = ig_sent s @ bts \<and> ig_seq s' = ig_seq s + length bts \<and>
    batches_match (ig_seq s) (length es) bts (map ev_bytes new) \<and>
    ((\<exists>k. ij_stopped j k) \<or> m = length (events_in eof (drop start content)))"
proof -
  define st where "st = min start (length content)"
  have d: "drop start content = drop st content" by (simp add: st_def min_def)
  define E where "E = events_in eof (drop st content)"
  define rs where "rs = fst (frame_all (framer_new (drop st content) eof))"
  define j' where "j' = j\<lparr>ij_bytes := content, ij_start := st\<rparr>"
  have cuts: "cut_all (drop st content) rs = E" by (simp add: rs_def E_def frame_all_events)
  then have cuts': "cut_all content (shifted st rs) = E" by (simp add: cut_all_shifted)
  have "loop_outcome H j' es (shifted st rs) st s (ingest_loop H j' 0 (framer_new (drop st content) eof) [] st s)"
    using ingest_loop_outcome [of j' H s es "[]" "framer_new (drop st content) eof" st 0] assms cuts'
    by (simp add: j'_def rs_def job_ok_def d E_def)
  then obtain m evs bts st' where y: "ingest_loop H j' 0 (framer_new (drop st content) eof) [] st s =
        Inr (if m = 0 then st else snd (shifted st rs ! (m - 1)),
          s\<lparr>ig_store := st', ig_seq := ig_seq s + length bts, ig_sent := ig_sent s @ bts\<rparr>)"
      "m \<le> length (shifted st rs)" "store_repr H st' (es @ evs)" "events_of j' evs"
      "map ev_bytes evs = take m (cut_all (ij_bytes j') (shifted st rs))"
      "batches_match (ig_seq s) (length es) bts (map ev_bytes evs)" "(\<exists>k. ij_stopped j' k) \<or> m = length (shifted st rs)"
    unfolding loop_outcome_def by blast
  have jb: "ij_bytes j' = content" "ij_stopped j' = ij_stopped j" by (simp_all add: j'_def)
  note y = y [unfolded jb cuts']
  have e: "events_of j evs" using y(4) by (simp add: events_of_def j'_def)
  have len: "length (shifted st rs) = length E" "length rs = length E"
    using arg_cong [OF cuts, of length] by (simp_all add: shifted_def cut_all_def)
  have "(if m = 0 then st else snd (shifted st rs ! (m - 1))) = st + length (concat (take m E))"
  proof (cases "m = 0")
    case False
    then have "snd (rs ! (m - 1)) = length (concat (take m E))"
      using frame_all_ends [of "framer_new (drop st content) eof" rs m] y(2) len cuts by (simp add: framer_new_def rs_def)
    with False y(2) len show ?thesis by (simp add: shifted_def split_beta)
  qed simp
  then show ?thesis using y(1,3,5-7) e len unfolding d E_def [symmetric] st_def [symmetric]
    by (intro exI [of _ m] exI [of _ evs] exI [of _ bts] exI [of _ "s\<lparr>ig_store := st', ig_seq := ig_seq s + length bts, ig_sent := ig_sent s @ bts\<rparr>"])
      (simp add: ingest_file_def j'_def Let_def flip: st_def)
qed

subsection \<open>Room for a file\<close>

text \<open>The log has room for \<open>n\<close> more bytes, however they are cut into events.\<close>

definition room :: "event list \<Rightarrow> nat \<Rightarrow> bool" where
  "room es n \<longleftrightarrow> log_ok es \<and> rec_off es (length es) + (header_len + 1) * n < 2 ^ 64"

definition short_events :: "bytes \<Rightarrow> bool" where
  "short_events c \<longleftrightarrow> (\<forall>k. \<forall>e \<in> set (split_events (drop k c)). length e < 2 ^ 32)"

lemma short_events_short: "length c < 2 ^ 32 \<Longrightarrow> short_events c"
proof -
  assume c: "length c < 2 ^ 32"
  have "length e < 2 ^ 32" if e: "e \<in> set (split_events (drop k c))" for k e
  proof -
    have "e \<in> set L \<Longrightarrow> length e \<le> length (concat L)" for L by (induction L) auto
    from this [OF e] show ?thesis using c by (simp add: concat_split_events)
  qed
  then show ?thesis by (simp add: short_events_def)
qed

lemma header_bytes: "\<forall>b \<in> set bs. b \<noteq> [] \<Longrightarrow> sum_list (map (\<lambda>b. header_len + length b) bs) \<le> (header_len + 1) * length (concat bs)"
proof (induction bs)
  case (Cons b bs)
  then have "1 \<le> length b" by (cases b) simp_all
  with Cons show ?case by (simp add: header_len_def)
qed simp

lemma room_fits:
  assumes "room es n" "\<forall>b \<in> set bs. b \<noteq> [] \<and> length b < 2 ^ 32" "length (concat bs) \<le> n"
  shows "fits es bs"
proof -
  have "sum_list (map (\<lambda>b. header_len + length b) bs) \<le> (header_len + 1) * length (concat bs)"
    using header_bytes [of bs] assms(2) by blast
  also have "\<dots> \<le> (header_len + 1) * n" using assms(3) by (rule mult_le_mono2)
  finally show ?thesis using assms(1,2) by (simp add: fits_def room_def list_all_iff)
qed

lemma room_after:
  assumes "room es (n + k)" "stamped new" "\<forall>b \<in> set (map ev_bytes new). b \<noteq> [] \<and> length b < 2 ^ 32"
    and "length (concat (map ev_bytes new)) \<le> k"
  shows "room (es @ new) n"
proof -
  have "fits es (map ev_bytes new @ [])" using room_fits [OF assms(1,3)] assms(4) by simp
  from fits_split(2) [OF this assms(2)] have "log_ok (es @ new)" .
  moreover have "sum_list (map (\<lambda>b. header_len + length b) (map ev_bytes new)) \<le> (header_len + 1) * k"
    using header_bytes [of "map ev_bytes new"] assms(3,4) by (meson le_trans mult_le_mono2)
  then have "rec_off (es @ new) (length (es @ new)) + (header_len + 1) * n \<le> rec_off es (length es) + (header_len + 1) * (n + k)"
    unfolding rec_off_append by (simp add: algebra_simps)
  ultimately show ?thesis using assms(1) by (simp add: room_def)
qed

lemma events_in_prefix: "\<exists>rest. concat (take m (events_in eof buf)) @ rest = buf"
proof -
  have "\<exists>k. take m (events_in eof buf) = take k (split_events buf)"
    by (auto simp: events_in_def butlast_conv_take intro: exI [of _ "min m (length (split_events buf) - 1)"])
  then obtain k where "take m (events_in eof buf) = take k (split_events buf)" by blast
  then show ?thesis using concat_split_events [of buf] by (metis append_take_drop_id concat_append)
qed

lemma events_in_short:
  "short_events c \<Longrightarrow> \<forall>b \<in> set (events_in eof (drop k c)). b \<noteq> [] \<and> length b < 2 ^ 32"
  using split_events_nonempty [of "drop k c"] by (auto simp: events_in_def short_events_def dest: in_set_butlastD)

subsection \<open>A history of a file\<close>

text \<open>The engine starts and ingests the file from where the store says, to its end or up to its last complete line.\<close>

definition resume_ingest ::
  "(bytes \<Rightarrow> bytes) \<Rightarrow> (nat \<times> bytes) list \<Rightarrow> job \<Rightarrow> bytes \<Rightarrow> bool \<Rightarrow> ingest \<Rightarrow> ((bytes \<times> nat) list \<times> nat \<times> ingest) option"
where
  "resume_ingest H names j content eof s =
     (case reader_open H (seg_data (store_flush (ig_store s))) (idx_data (store_flush (ig_store s))) of
        Inl e \<Rightarrow> None
      | Inr r \<Rightarrow>
          (case ingested_bytes r names of
             Inl e \<Rightarrow> None
           | Inr out \<Rightarrow>
               (case ingest_file H j (Some content) (resume_offset out (ij_name j)) eof s of
                  Inr (Some k, s') \<Rightarrow> Some (out, k, s')
                | _ \<Rightarrow> None)))"

definition resume_ok :: "(nat \<times> bytes) list \<Rightarrow> job \<Rightarrow> bytes \<Rightarrow> event list \<Rightarrow> bool" where
  "resume_ok names j content es \<longleftrightarrow> job_ok j \<and> catalogue_ok names es \<and> map_of names (ij_source j) = Some (ij_name j) \<and>
     short_events content \<and> room es (length content)"

text \<open>
  A file that is only ever appended to and the store, from before the first byte of it was stored: the file grows, a
  run of the engine takes what it takes of it before it is done or told to stop, other sources are stored, and power
  is lost, leaving any beginning of the two files of the store.
\<close>

inductive ingest_history :: "(bytes \<Rightarrow> bytes) \<Rightarrow> nat \<Rightarrow> bytes \<Rightarrow> raw_store \<Rightarrow> bool" for H src where
  begin_file: "store_repr H st es \<Longrightarrow> source_bytes src es = [] \<Longrightarrow> ingest_history H src content st"
| grow: "ingest_history H src content st \<Longrightarrow> ingest_history H src (content @ appended) st"
| run_file: "ingest_history H src content st \<Longrightarrow> store_repr H st es \<Longrightarrow> ij_source j = src \<Longrightarrow> resume_ok names j content es \<Longrightarrow>
    ig_store s = st \<Longrightarrow> resume_ingest H names j content eof s = Some (out, k, s') \<Longrightarrow> ingest_history H src content (ig_store s')"
| others: "ingest_history H src content st \<Longrightarrow> store_repr H st es \<Longrightarrow> store_repr H st' (es @ new) \<Longrightarrow> source_bytes src new = [] \<Longrightarrow>
    ingest_history H src content st'"
| crash: "ingest_history H src content st \<Longrightarrow> store_repr H st es \<Longrightarrow> crash_ok H (rs_store_id st) es a k b l \<Longrightarrow>
    crash_image H (rs_store_id st) es a k b l = (seg, idx) \<Longrightarrow> open_store H fresh seg idx = Inr st' \<Longrightarrow>
    ingest_history H src content st'"

text \<open>A store holds one list of events.\<close>

lemma store_repr_unique: "store_repr H st es \<Longrightarrow> store_repr H st fs \<Longrightarrow> es = fs"
proof (rule nth_equalityI)
  assume r: "store_repr H st es" "store_repr H st fs"
  then show len: "length es = length fs" by (auto simp: store_repr_def)
  show "es ! i = fs ! i" if "i < length es" for i
    using log.get [OF r(1), of i] log.get [OF r(2), of i] that len by (auto simp: record_of_def intro: event.equality)
qed

text \<open>A run resumes where the bytes of the source end and takes the events that are next.\<close>

lemma resume_takes:
  assumes "store_repr H st es" "resume_ok names j content es" "concat (source_bytes (ij_source j) es) @ rest = content"
    and "ig_store s = st"
  shows "\<exists>out k m new bts s'. resume_ingest H names j content eof s = Some (out, k, s') \<and>
    resume_offset out (ij_name j) = held (ij_source j) es \<and> k = held (ij_source j) (es @ new) \<and>
    store_repr H (ig_store s') (es @ new) \<and> events_of j new \<and> map ev_bytes new = take m (events_in eof rest) \<and>
    ig_sent s' = ig_sent s @ bts \<and> ig_seq s' = ig_seq s + length bts \<and>
    batches_match (ig_seq s) (length es) bts (map ev_bytes new) \<and>
    ((\<exists>k. ij_stopped j k) \<or> m = length (events_in eof rest)) \<and>
    (\<exists>rest'. concat (source_bytes (ij_source j) (es @ new)) @ rest' = content)"
proof -
  let ?src = "ij_source j" and ?h = "held (ij_source j) es"
  have ok: "job_ok j" "catalogue_ok names es" "map_of names ?src = Some (ij_name j)" "short_events content" "room es (length content)"
    using assms(2) by (auto simp: resume_ok_def)
  obtain k l where d: "seg_data (store_flush st) = seg_stream H es @ zeros k"
    "idx_data (store_flush st) = idx_stream H (rs_store_id st) es @ zeros l"
    using store_flush_data [OF assms(1)] by blast
  from assms(1) have "hash_ok H" "log_ok es" "length (rs_store_id st) = 16" by (auto simp: store_repr_def)
  from reader_open_repr [OF this, of k l] d obtain r where
    r: "reader_open H (seg_data (store_flush st)) (idx_data (store_flush st)) = Inr r" "reader_repr H r es" by auto
  from ingested_bytes_held [OF r(2) ok(2,3)] obtain out where
    o: "ingested_bytes r names = Inr out" "resume_offset out (ij_name j) = ?h" by blast
  have h: "?h \<le> length content" "drop ?h content = rest"
    using assms(3) by (auto simp: held_def)
  have short: "\<forall>b \<in> set (events_in eof rest). b \<noteq> [] \<and> length b < 2 ^ 32" using events_in_short [OF ok(4), of eof ?h] by (simp add: h)
  have "length (concat (events_in eof rest)) \<le> length content"
    using events_in_prefix [of "length (events_in eof rest)" eof rest] arg_cong [OF assms(3), of length] by (auto dest: arg_cong [of _ _ length])
  then have "fits es (events_in eof rest)" using room_fits [OF ok(5) short] by simp
  note taken = ingest_takes [OF ok(1) assms(1) [folded assms(4)], of eof ?h content, unfolded h(2) min_absorb1 [OF h(1)], OF this]
  obtain m new bts s' where
    y: "ingest_file H j (Some content) ?h eof s = Inr (Some (?h + length (concat (take m (events_in eof rest)))), s')"
      "store_repr H (ig_store s') (es @ new)" "events_of j new" "map ev_bytes new = take m (events_in eof rest)"
      "ig_sent s' = ig_sent s @ bts" "ig_seq s' = ig_seq s + length bts" "batches_match (ig_seq s) (length es) bts (map ev_bytes new)"
      "(\<exists>k. ij_stopped j k) \<or> m = length (events_in eof rest)"
    using taken by blast
  have sb: "source_bytes ?src new = map ev_bytes new" using y(3) by (simp add: source_bytes_def events_of_def list_all_iff)
  have k: "?h + length (concat (take m (events_in eof rest))) = held ?src (es @ new)" using sb y(4) by (simp add: held_def)
  obtain rest' where "concat (take m (events_in eof rest)) @ rest' = rest" using events_in_prefix by blast
  then have "concat (source_bytes ?src (es @ new)) @ rest' = content" using sb y(4) assms(3) by simp
  moreover have "resume_ingest H names j content eof s = Some (out, held ?src (es @ new), s')"
    using r(1) o y(1) k assms(4) by (simp add: resume_ingest_def)
  ultimately show ?thesis using o(2) y(2-8)
    by (intro exI [of _ out] exI [of _ "held ?src (es @ new)"] exI [of _ m] exI [of _ new] exI [of _ bts] exI [of _ s']) blast
qed

lemma source_bytes_take: "\<exists>rest. concat (source_bytes src (take n es)) @ rest = concat (source_bytes src es)"
  by (metis append_take_drop_id concat_append source_bytes_append)

text \<open>What the store holds of the file is at any time a beginning of it.\<close>

lemma history_prefix:
  "ingest_history H src content st \<Longrightarrow> \<exists>es rest. store_repr H st es \<and> concat (source_bytes src es) @ rest = content"
proof (induction rule: ingest_history.induct)
  case (run_file content st es j names s eof out k s')
  from run_file.IH run_file.hyps(2) obtain rest where "concat (source_bytes src es) @ rest = content"
    using store_repr_unique by blast
  from resume_takes [OF run_file.hyps(2,4) _ run_file.hyps(5), of rest eof] this run_file.hyps(3,6) show ?case by auto
next
  case (others content st es st' new)
  then have "concat (source_bytes src (es @ new)) = concat (source_bytes src es)" by simp
  then show ?case using others.IH others.hyps(2,3) store_repr_unique by metis
next
  case (crash content st es a k b l seg idx fresh st')
  from crash.IH crash.hyps(2) obtain rest where "concat (source_bytes src es) @ rest = content"
    using store_repr_unique by blast
  moreover from crash_reopens [OF crash.hyps(3,4), of fresh] crash.hyps(5)
  have "store_repr H st' (take (complete_records es a) es)" by auto
  ultimately show ?case using source_bytes_take [of src "complete_records es a" es] by (metis append.assoc)
qed force+


definition sample_job :: job where
  "sample_job = \<lparr>ij_source = 1, ij_name = ''fw.log'', ij_bytes = [], ij_start = 0, ij_batch = 2,
     ij_now = (\<lambda>_. 0), ij_stopped = (\<lambda>_. False), ij_alive = (\<lambda>_. True)\<rparr>"


end
