(* ===== verification/Ulpf_Syslog.thy ===== *)
theory Ulpf_Syslog
  imports Ulpf_Resume Ulpf_Envelope
begin

text \<open>
  The syslog listeners, \<open>src/crates/ulpf/src/syslog.rs\<close>: the buffer of a peer, octet counting and the
  line rule over what a connection has sent so far, the loop of a connection and of the UDP
  socket. Sockets, threads and metrics are outside the model: a read is a value, and the two
  clocks are a function of how often they are asked during one turn.
\<close>

type_synonym clock = "nat \<Rightarrow> nat \<times> int"

definition flush_events :: nat where "flush_events = 1024"
definition flush_bytes :: nat where "flush_bytes = 2 ^ 20"
definition flush_after :: nat where "flush_after = 50"
definition max_datagram :: nat where "max_datagram = 65536"

record peer_buf =
  pb_buf :: bytes
  pb_ranges :: "(nat \<times> nat) list"
  pb_receipts :: "int list"
  pb_first_at :: nat
  pb_source :: "nat option"
  pb_name :: bytes

definition peer_new :: "nat \<Rightarrow> bytes \<Rightarrow> peer_buf" where
  "peer_new now nm = \<lparr>pb_buf = [], pb_ranges = [], pb_receipts = [], pb_first_at = now, pb_source = None, pb_name = nm\<rparr>"

definition peer_push :: "nat \<times> int \<Rightarrow> bytes \<Rightarrow> peer_buf \<Rightarrow> peer_buf" where
  "peer_push now ev pb =
     pb\<lparr>pb_first_at := (if pb_ranges pb = [] then fst now else pb_first_at pb), pb_buf := pb_buf pb @ ev,
        pb_ranges := pb_ranges pb @ [(length (pb_buf pb), length (pb_buf pb @ ev))],
        pb_receipts := pb_receipts pb @ [snd now]\<rparr>"

definition peer_due :: "nat \<Rightarrow> peer_buf \<Rightarrow> bool" where
  "peer_due now pb \<longleftrightarrow> pb_ranges pb \<noteq> [] \<and>
     (flush_events \<le> length (pb_ranges pb) \<or> flush_bytes \<le> length (pb_buf pb) \<or> flush_after \<le> now - pb_first_at pb)"

text \<open>Append every buffered event under one lock and send one batch, which takes the buffer along.\<close>

definition peer_flush ::
  "(bytes \<Rightarrow> bytes) \<Rightarrow> (bytes \<Rightarrow> nat) \<Rightarrow> bool \<Rightarrow> peer_buf \<Rightarrow> ingest \<Rightarrow> ingest_error + peer_buf \<times> ingest" where
  "peer_flush H source_id alive pb s =
     (if pb_ranges pb = [] then Inr (pb, s)
      else let src = (case pb_source pb of Some i \<Rightarrow> i | None \<Rightarrow> source_id (pb_name pb)) in
        (case store_batch H (map2 (\<lambda>(a, z) rc. \<lparr>ev_source = src, ev_receipt = rc, ev_bytes = slice a z (pb_buf pb)\<rparr>)
                (pb_ranges pb) (pb_receipts pb)) (ig_store s) of
           Inl e \<Rightarrow> Inl e
         | Inr (first, st') \<Rightarrow>
             if alive then
               Inr (pb\<lparr>pb_source := Some src, pb_buf := [], pb_ranges := [], pb_receipts := []\<rparr>,
                    s\<lparr>ig_store := st', ig_seq := ig_seq s + 1,
                      ig_sent := ig_sent s @ [\<lparr>bt_seq = ig_seq s, bt_name = pb_name pb, bt_names = [], bt_bytes = pb_buf pb,
                        bt_receipt = 0, bt_first = first, bt_ranges = pb_ranges pb, bt_receipts = pb_receipts pb,
                        bt_sources = []\<rparr>]\<rparr>)
             else Inl Disconnected))"

fun push_all :: "clock \<Rightarrow> bytes list \<Rightarrow> peer_buf \<Rightarrow> peer_buf" where
  "push_all clk [] pb = pb"
| "push_all clk (e # es) pb = push_all (\<lambda>k. clk (Suc k)) es (peer_push (clk 0) e pb)"

subsection \<open>Framing a connection\<close>

definition looks_octet_counted :: "bytes \<Rightarrow> bool" where
  "looks_octet_counted b =
     (let i = length (takeWhile is_ascii_digit (take 10 b)) in
      0 < i \<and> b ! 0 \<noteq> CHR ''0'' \<and> i < length b \<and> b ! i = SP)"

text \<open>\<open>parse::<usize>\<close>: an optional plus sign and decimal digits below \<open>2 ^ 64\<close>.\<close>

definition parse_usize :: "bytes \<Rightarrow> nat option" where
  "parse_usize s =
     (let ds = (if prefix ''+'' s then tl s else s) in
      if ds = [] \<or> \<not> list_all is_ascii_digit ds \<or> 2 ^ 64 \<le> digits_val ds then None else Some (digits_val ds))"

text \<open>Both give the events pushed, in order, and the number of bytes consumed.\<close>

definition take_lines :: "bytes \<Rightarrow> bytes list \<times> nat" where
  "take_lines b = (let rs = fst (frame_all (framer_new b False)) in (cut_all b rs, if rs = [] then 0 else snd (last rs)))"

function take_octet_counted :: "bytes \<Rightarrow> bytes list \<times> nat" where
  "take_octet_counted b =
     (case position (\<lambda>c. c = SP) (take 11 b) of
        None \<Rightarrow> ([], 0)
      | Some sp \<Rightarrow>
          (case parse_usize (take sp b) of
             None \<Rightarrow> take_lines b
           | Some len \<Rightarrow>
               let start = sp + 1 in
               if length b < start + len then ([], 0)
               else (case take_octet_counted (drop (start + len) b) of
                       (es, n) \<Rightarrow> (slice start (start + len) b # es, start + len + n))))"
  by pat_completeness auto
termination
proof (relation "measure length")
  fix b :: bytes and sp len start
  assume "position (\<lambda>c. c = SP) (take 11 b) = Some sp"
  then have "sp < length b" using position_SomeD by fastforce
  moreover assume "start = sp + 1"
  ultimately show "(drop (start + len) b, b) \<in> measure length" by simp
qed simp

declare take_octet_counted.simps [simp del]

definition take_events :: "bool \<Rightarrow> bytes \<Rightarrow> bytes list \<times> nat" where
  "take_events octets b = (if octets then take_octet_counted b else take_lines b)"

record conn =
  cn_octets :: "bool option"
  cn_pending :: bytes
  cn_peer :: peer_buf

text \<open>A read adds to what is pending; the first one decides the framing.\<close>

definition receive_chunk :: "bytes \<Rightarrow> bool option \<Rightarrow> bytes \<Rightarrow> bytes list \<times> bool option \<times> bytes" where
  "receive_chunk chunk octets pending =
     (let p = pending @ chunk; o1 = (case octets of None \<Rightarrow> looks_octet_counted p | Some x \<Rightarrow> x) in
      (case take_events o1 p of (evs, n) \<Rightarrow> (evs, Some o1, drop n p)))"

text \<open>What is left when the connection is over is final input.\<close>

definition final_events :: "bool option \<Rightarrow> bytes \<Rightarrow> bytes list" where
  "final_events octets pending =
     (if pending = [] then []
      else if octets = Some True then [pending] else cut_all pending (fst (frame_all (framer_new pending True))))"

text \<open>\<open>Quiet\<close> is a read that timed out or was interrupted.\<close>

datatype reading = Got bytes | Quiet

definition flush_if_due ::
  "(bytes \<Rightarrow> bytes) \<Rightarrow> (bytes \<Rightarrow> nat) \<Rightarrow> nat \<Rightarrow> bool \<Rightarrow> peer_buf \<Rightarrow> ingest \<Rightarrow> ingest_error + peer_buf \<times> ingest" where
  "flush_if_due H source_id now alive pb s = (if peer_due now pb then peer_flush H source_id alive pb s else Inr (pb, s))"

text \<open>
  The loop: each turn comes with its clock and whether the queue is alive. The list of
  turns ends when the peer closes, a read fails or the engine is stopped.
\<close>

fun tcp_loop ::
  "(bytes \<Rightarrow> bytes) \<Rightarrow> (bytes \<Rightarrow> nat) \<Rightarrow> (reading \<times> clock \<times> bool) list \<Rightarrow> conn \<Rightarrow> ingest \<Rightarrow> ingest_error + conn \<times> ingest" where
  "tcp_loop H source_id [] c s = Inr (c, s)"
| "tcp_loop H source_id ((rd, clk, alive) # rds) c s =
     (case (case rd of
              Got chunk \<Rightarrow>
                (case receive_chunk chunk (cn_octets c) (cn_pending c) of
                   (evs, o1, p) \<Rightarrow> (\<lparr>cn_octets = o1, cn_pending = p, cn_peer = push_all clk evs (cn_peer c)\<rparr>, length evs))
            | Quiet \<Rightarrow> (c, 0)) of
        (c1, k) \<Rightarrow>
          (case flush_if_due H source_id (fst (clk k)) alive (cn_peer c1) s of
             Inl e \<Rightarrow> Inl e
           | Inr (pb, s1) \<Rightarrow> tcp_loop H source_id rds (c1\<lparr>cn_peer := pb\<rparr>) s1))"

definition tcp_connection ::
  "(bytes \<Rightarrow> bytes) \<Rightarrow> (bytes \<Rightarrow> nat) \<Rightarrow> nat \<Rightarrow> bytes \<Rightarrow> (reading \<times> clock \<times> bool) list \<Rightarrow> clock \<Rightarrow> bool \<Rightarrow> ingest \<Rightarrow>
    ingest_error + ingest" where
  "tcp_connection H source_id now ip rds clk alive s =
     (case tcp_loop H source_id rds \<lparr>cn_octets = None, cn_pending = [], cn_peer = peer_new now (''tcp/'' @ ip)\<rparr> s of
        Inl e \<Rightarrow> Inl e
      | Inr (c, s1) \<Rightarrow>
          (case peer_flush H source_id alive (push_all clk (final_events (cn_octets c) (cn_pending c)) (cn_peer c)) s1 of
             Inl e \<Rightarrow> Inl e | Inr (_, s2) \<Rightarrow> Inr s2))"

subsection \<open>The UDP socket\<close>

text \<open>One datagram is one event of its peer; then every peer that is due is flushed.\<close>

fun flush_peers ::
  "(bytes \<Rightarrow> bytes) \<Rightarrow> (bytes \<Rightarrow> nat) \<Rightarrow> bool \<Rightarrow> (peer_buf \<Rightarrow> bool) \<Rightarrow> (bytes \<times> peer_buf) list \<Rightarrow> ingest \<Rightarrow>
    ingest_error + (bytes \<times> peer_buf) list \<times> ingest" where
  "flush_peers H source_id alive due [] s = Inr ([], s)"
| "flush_peers H source_id alive due ((ip, pb) # ps) s =
     (case (if due pb then peer_flush H source_id alive pb s else Inr (pb, s)) of
        Inl e \<Rightarrow> Inl e
      | Inr (pb1, s1) \<Rightarrow>
          (case flush_peers H source_id alive due ps s1 of Inl e \<Rightarrow> Inl e | Inr (qs, s2) \<Rightarrow> Inr ((ip, pb1) # qs, s2)))"

definition udp_receive ::
  "(bytes \<Rightarrow> bytes) \<Rightarrow> (bytes \<Rightarrow> nat) \<Rightarrow> clock \<Rightarrow> bool \<Rightarrow> bytes \<Rightarrow> bytes \<Rightarrow> (bytes \<times> peer_buf) list \<Rightarrow> ingest \<Rightarrow>
    ingest_error + (bytes \<times> peer_buf) list \<times> ingest" where
  "udp_receive H source_id clk alive ip datagram peers s =
     (let pb = (case map_of peers ip of Some pb \<Rightarrow> pb | None \<Rightarrow> peer_new (fst (clk 0)) (''udp/'' @ ip));
          pb1 = peer_push (clk 1) (take max_datagram datagram) pb in
      (case flush_if_due H source_id (fst (clk 2)) alive pb1 s of
         Inl e \<Rightarrow> Inl e
       | Inr (pb2, s1) \<Rightarrow> Inr (AList.update ip pb2 peers, s1)))"

fun udp_loop ::
  "(bytes \<Rightarrow> bytes) \<Rightarrow> (bytes \<Rightarrow> nat) \<Rightarrow> ((bytes \<times> bytes) option \<times> clock \<times> bool) list \<Rightarrow> (bytes \<times> peer_buf) list \<Rightarrow> ingest \<Rightarrow>
    ingest_error + (bytes \<times> peer_buf) list \<times> ingest" where
  "udp_loop H source_id [] peers s = Inr (peers, s)"
| "udp_loop H source_id ((rd, clk, alive) # rds) peers s =
     (case (case rd of Some (ip, d) \<Rightarrow> udp_receive H source_id clk alive ip d peers s | None \<Rightarrow> Inr (peers, s)) of
        Inl e \<Rightarrow> Inl e
      | Inr (ps1, s1) \<Rightarrow>
          (case flush_peers H source_id alive (peer_due (fst (clk 3))) ps1 s1 of
             Inl e \<Rightarrow> Inl e
           | Inr (ps2, s2) \<Rightarrow>
               udp_loop H source_id rds
                 (filter (\<lambda>(_, pb). pb_ranges pb \<noteq> [] \<or> fst (clk 4) - pb_first_at pb < 60000) ps2) s2))"

definition udp_listener ::
  "(bytes \<Rightarrow> bytes) \<Rightarrow> (bytes \<Rightarrow> nat) \<Rightarrow> ((bytes \<times> bytes) option \<times> clock \<times> bool) list \<Rightarrow> bool \<Rightarrow> ingest \<Rightarrow> ingest_error + ingest" where
  "udp_listener H source_id rds alive s =
     (case udp_loop H source_id rds [] s of
        Inl e \<Rightarrow> Inl e
      | Inr (ps, s1) \<Rightarrow>
          (case flush_peers H source_id alive (\<lambda>_. True) ps s1 of Inl e \<Rightarrow> Inl e | Inr (_, s2) \<Rightarrow> Inr s2))"

end
