(* ===== verification/Ulpf_Octets.thy ===== *)
theory Ulpf_Octets
  imports Ulpf_Syslog
begin

text \<open>
  What the TCP listener does with a stream: however it is cut into reads, the messages of an octet
  counted stream and the events of any other stream reach the store once each, in order and
  byte for byte.
\<close>

subsection \<open>Reading a length\<close>

lemma no_digit: "\<not> is_ascii_digit SP" "\<not> is_ascii_digit (CHR ''+'')"
  by code_simp+

lemma dec_no_space: "SP \<notin> set (dec n)"
  using dec_digits [of SP n] no_digit by blast

lemma parse_usize_dec: "n < 2 ^ 64 \<Longrightarrow> parse_usize (dec n) = Some n"
proof -
  assume n: "n < 2 ^ 64"
  have "\<not> prefix ''+'' (dec n)"
    using dec_digits [of "CHR ''+''" n] no_digit by (cases "dec n") auto
  moreover have "list_all is_ascii_digit (dec n)" using dec_digits by (auto simp: list_all_iff)
  moreover have "digits_val (dec n) = n" using dec_val [of n] by (simp add: digits_val_def)
  ultimately show ?thesis using n by (simp add: parse_usize_def)
qed

lemma dec_head: "0 < n \<Longrightarrow> hd (dec n) \<noteq> CHR ''0''"
proof (induction n rule: dec.induct)
  case (1 n)
  show ?case
  proof (cases "n < 10")
    case True
    then have "dec n = [digit_char n]" by (subst dec.simps) simp
    moreover have "digit_val (digit_char n) = n" "digit_val (CHR ''0'') = 0"
      using True dec_val [of n] \<open>dec n = [digit_char n]\<close> by (simp_all add: digit_val_def)
    ultimately show ?thesis using 1(2) by auto
  next
    case False
    then have "dec n = dec (n div 10) @ [digit_char (n mod 10)]" by (subst dec.simps) simp
    with 1 False show ?thesis by simp
  qed
qed

subsection \<open>Octet counting\<close>

text \<open>A message as a sender frames it.\<close>

definition octet_frame :: "bytes \<Rightarrow> bytes" where
  "octet_frame m = dec (length m) @ SP # m"

definition octet_stream :: "bytes list \<Rightarrow> bytes" where
  "octet_stream msgs = concat (map octet_frame msgs)"

definition sendable :: "bytes \<Rightarrow> bool" where
  "sendable m \<longleftrightarrow> length m < 10 ^ 10"

lemma dec_len10: "sendable m \<Longrightarrow> length (dec (length m)) \<le> 10"
  using pad_dec_fixed [of 10 "length m"] by (simp add: sendable_def)

lemma position_dec: "length h \<le> 10 \<Longrightarrow> SP \<notin> set h \<Longrightarrow> position (\<lambda>c. c = SP) (take 11 (h @ SP # r)) = Some (length h)"
  by (rule position_SomeI) (auto simp: nth_append in_set_conv_nth)

lemma take_octet_frame:
  assumes "sendable m"
  shows "take_octet_counted (octet_frame m @ r) =
    (m # fst (take_octet_counted r), length (octet_frame m) + snd (take_octet_counted r))"
proof -
  let ?h = "dec (length m)"
  have "position (\<lambda>c. c = SP) (take 11 (?h @ SP # m @ r)) = Some (length ?h)"
    by (rule position_dec [OF dec_len10 [OF assms] dec_no_space])
  moreover have "parse_usize ?h = Some (length m)" using assms by (intro parse_usize_dec) (simp add: sendable_def)
  ultimately show ?thesis
    by (subst take_octet_counted.simps) (simp add: octet_frame_def Let_def split_beta slice_def)
qed

lemma take_octet_part:
  assumes "sendable m" "p @ q = octet_frame m @ r" "length p < length (octet_frame m)"
  shows "take_octet_counted p = ([], 0)"
proof -
  let ?h = "dec (length m)"
  from assms(2,3) have p: "p = take (length p) (octet_frame m)" by (simp add: append_eq_append_conv_if)
  show ?thesis
  proof (cases "length p \<le> length ?h")
    case True
    then have "p = take (length p) ?h" using p by (simp add: octet_frame_def)
    then have "SP \<notin> set p" using dec_no_space by (metis in_set_takeD)
    then have "position (\<lambda>c. c = SP) (take 11 p) = None" by (auto simp: position_None dest: in_set_takeD)
    then show ?thesis by (simp add: take_octet_counted.simps [of p])
  next
    case False
    then obtain k where k: "length p = length ?h + Suc k" by (metis add_Suc_right less_imp_Suc_add not_le)
    have pe: "p = ?h @ SP # take k m" using p k by (simp add: octet_frame_def)
    have pos: "position (\<lambda>c. c = SP) (take 11 p) = Some (length ?h)"
      unfolding pe by (rule position_dec [OF dec_len10 [OF assms(1)] dec_no_space])
    have us: "parse_usize (take (length ?h) p) = Some (length m)"
      using assms(1) by (simp add: pe parse_usize_dec sendable_def)
    have "length p < length ?h + 1 + length m" using assms(3) by (simp add: octet_frame_def)
    then show ?thesis using pos us by (subst take_octet_counted.simps) (simp add: Let_def)
  qed
qed

lemma octets_prefix:
  assumes "list_all sendable msgs" "p @ q = octet_stream msgs"
  shows "\<exists>k n. take_octet_counted p = (take k msgs, n) \<and> drop n p @ q = octet_stream (drop k msgs) \<and>
    (q = [] \<longrightarrow> k = length msgs \<and> n = length p)"
  using assms
proof (induction msgs arbitrary: p)
  case Nil
  then show ?case by (auto simp: octet_stream_def take_octet_counted.simps [of "[]"])
next
  case (Cons m ms)
  have eq: "p @ q = octet_frame m @ octet_stream ms" using Cons.prems(2) by (simp add: octet_stream_def)
  have m: "sendable m" using Cons.prems(1) by simp
  show ?case
  proof (cases "length p < length (octet_frame m)")
    case True
    moreover have "q \<noteq> []" using eq True by (metis append_Nil2 length_append linorder_not_less le_add1)
    ultimately show ?thesis using take_octet_part [OF m eq] Cons.prems(2)
      by (intro exI [of _ 0] exI [of _ 0]) simp
  next
    case False
    define r where "r = drop (length (octet_frame m)) p"
    have p: "p = octet_frame m @ r"
      using arg_cong [OF eq, of "take (length (octet_frame m))"] False by (simp add: r_def) (metis append_take_drop_id)
    with eq have "r @ q = octet_stream ms" by simp
    with Cons.IH [of r] Cons.prems(1) obtain k n where
      "take_octet_counted r = (take k ms, n)" "drop n r @ q = octet_stream (drop k ms)"
      "q = [] \<longrightarrow> k = length ms \<and> n = length r" by auto
    then show ?thesis using take_octet_frame [OF m, of r]
      by (intro exI [of _ "Suc k"] exI [of _ "length (octet_frame m) + n"]) (simp add: p)
  qed
qed

text \<open>The first read decides: it is enough that it holds the first length and the space after it.\<close>

lemma looks_octet_stream:
  assumes "sendable m" "m \<noteq> []" "c @ q = octet_stream (m # ms)" "length (dec (length m)) < length c"
  shows "looks_octet_counted c"
proof -
  let ?h = "dec (length m)"
  have "c @ q = ?h @ SP # m @ octet_stream ms" using assms(3) by (simp add: octet_stream_def octet_frame_def)
  then have "c = take (length c) (?h @ SP # m @ octet_stream ms)" by (metis append_eq_conv_conj)
  moreover from assms(4) obtain k where "length c = length ?h + Suc k" using less_iff_Suc_add by auto
  ultimately obtain r where c: "c = ?h @ SP # r" by simp
  have "takeWhile is_ascii_digit (take 10 c) = ?h"
  proof -
    have "take 10 c = ?h @ take (10 - length ?h) (SP # r)" using dec_len10 [OF assms(1)] by (simp add: c)
    moreover have "takeWhile is_ascii_digit (?h @ xs) = ?h @ takeWhile is_ascii_digit xs" for xs
      using dec_digits by (intro takeWhile_append2) auto
    moreover have "takeWhile is_ascii_digit (take k (SP # r)) = []" for k by (cases k) (simp_all add: no_digit)
    ultimately show ?thesis by simp
  qed
  moreover have "c ! 0 = hd ?h" by (simp add: c nth_append hd_conv_nth)
  ultimately show ?thesis using dec_head [of "length m"] assms(2) by (simp add: looks_octet_counted_def c nth_append Let_def)
qed

subsection \<open>The events of a connection\<close>

lemma take_lines_frame: "take_lines b = (evs, n) \<Longrightarrow> frame False b = (evs, drop n b)"
proof -
  assume t: "take_lines b = (evs, n)"
  let ?rs = "fst (frame_all (framer_new b False))"
  have evs: "evs = cut_all b ?rs" and n: "n = (if ?rs = [] then 0 else snd (last ?rs))"
    using t by (auto simp: take_lines_def Let_def)
  have "n = length (concat (cut_all b ?rs))"
    using n frame_all_ends [of "framer_new b False" ?rs "length ?rs"]
    by (cases "?rs = []") (simp_all add: cut_all_def framer_new_def last_conv_nth)
  moreover have f: "frame False b = (evs, snd (frame False b))"
    by (simp add: evs frame_def cut_all_def split_beta Let_def)
  moreover have "concat evs @ snd (frame False b) = b" using fr.lossless [OF f] .
  ultimately have "snd (frame False b) = drop n b" by (metis append_eq_conv_conj evs)
  with f show ?thesis by simp
qed

fun stream_events :: "bool option \<Rightarrow> bytes \<Rightarrow> (reading \<times> clock \<times> bool) list \<Rightarrow> bytes list" where
  "stream_events octets p [] = final_events octets p"
| "stream_events octets p ((Got c, clk, alive) # rds) =
     (case receive_chunk c octets p of (evs, o1, p1) \<Rightarrow> evs @ stream_events o1 p1 rds)"
| "stream_events octets p ((Quiet, clk, alive) # rds) = stream_events octets p rds"

fun chunks_of :: "(reading \<times> clock \<times> bool) list \<Rightarrow> bytes list" where
  "chunks_of [] = []"
| "chunks_of ((Got c, clk, alive) # rds) = c # chunks_of rds"
| "chunks_of ((Quiet, clk, alive) # rds) = chunks_of rds"

lemma octet_stream_Nil: "octet_stream msgs = [] \<Longrightarrow> msgs = []"
  by (cases msgs) (simp_all add: octet_stream_def octet_frame_def)

lemma stream_events_octets:
  assumes "list_all sendable msgs" "p @ concat (chunks_of rds) = octet_stream msgs" "concat (chunks_of rds) = [] \<Longrightarrow> p = []"
  shows "stream_events (Some True) p rds = msgs"
  using assms
proof (induction rds arbitrary: p msgs)
  case Nil
  then show ?case using octet_stream_Nil [of msgs] by (simp add: final_events_def)
next
  case (Cons r rds)
  obtain rd clk alive where r: "r = (rd, clk, alive)" by (cases r)
  show ?case
  proof (cases rd)
    case (Got c)
    then have "(p @ c) @ concat (chunks_of rds) = octet_stream msgs" using Cons.prems(2) r by simp
    from octets_prefix [OF Cons.prems(1) this] obtain k n where
      k: "take_octet_counted (p @ c) = (take k msgs, n)"
        "drop n (p @ c) @ concat (chunks_of rds) = octet_stream (drop k msgs)"
        "concat (chunks_of rds) = [] \<Longrightarrow> n = length (p @ c)" by blast
    have "list_all sendable (drop k msgs)" using Cons.prems(1) by (auto simp: list_all_iff dest: in_set_dropD)
    from Cons.IH [OF this k(2)] k(3) have "stream_events (Some True) (drop n (p @ c)) rds = drop k msgs" by simp
    then show ?thesis using k(1) r Got by (simp add: receive_chunk_def take_events_def)
  next
    case Quiet
    then show ?thesis using Cons r by simp
  qed
qed

lemma final_lines: "octets \<noteq> Some True \<Longrightarrow> final_events octets p = split_events p"
  using frame_spec [of True p] by (simp add: final_events_def frame_def cut_all_def split_beta Let_def)

lemma stream_events_lines: "stream_events (Some False) p rds = split_events (p @ concat (chunks_of rds))"
proof (induction rds arbitrary: p)
  case Nil
  show ?case by (simp add: final_lines)
next
  case (Cons r rds)
  obtain rd clk alive where r: "r = (rd, clk, alive)" by (cases r)
  show ?case
  proof (cases rd)
    case (Got c)
    obtain evs n where t: "take_lines (p @ c) = (evs, n)" by fastforce
    have whole: "fst (frame True b) = split_events b" for b by (simp add: frame_spec)
    from fr.resume [OF take_lines_frame [OF t], of True "concat (chunks_of rds)"]
    have "split_events (p @ c @ concat (chunks_of rds)) = evs @ split_events (drop n (p @ c) @ concat (chunks_of rds))"
      unfolding whole [symmetric] by simp
    then show ?thesis using r Got t Cons.IH by (simp add: receive_chunk_def take_events_def)
  next
    case Quiet
    then show ?thesis using Cons r by simp
  qed
qed

text \<open>
  The events expected of a stream that begins with the read \<open>c\<close>: that read alone decides how it is framed. It looks like
  octet counting whenever it holds the whole first length and the space after it (\<open>looks_octet_stream\<close>).
\<close>

definition stream_of :: "bytes \<Rightarrow> bytes list \<Rightarrow> bytes list \<Rightarrow> bool" where
  "stream_of c cs evs \<longleftrightarrow>
     (if looks_octet_counted c then list_all sendable evs \<and> c @ concat cs = octet_stream evs
      else evs = split_events (c @ concat cs))"

lemma stream_events_of:
  assumes "chunks_of rds = c # cs" "stream_of c cs evs"
  shows "stream_events None [] rds = evs"
  using assms
proof (induction rds)
  case (Cons r rds)
  obtain rd clk alive where r: "r = (rd, clk, alive)" by (cases r)
  show ?case
  proof (cases rd)
    case Quiet
    then show ?thesis using Cons r by simp
  next
    case (Got d)
    then have d: "d = c" "chunks_of rds = cs" using Cons.prems(1) r by auto
    have "receive_chunk c None [] = receive_chunk c (Some (looks_octet_counted c)) []" by (simp add: receive_chunk_def)
    then have eq: "stream_events None [] (r # rds) = stream_events (Some (looks_octet_counted c)) [] (r # rds)"
      using r Got d by simp
    show ?thesis
    proof (cases "looks_octet_counted c")
      case True
      with Cons.prems(2) have x: "list_all sendable evs" "c @ concat cs = octet_stream evs"
        by (auto simp: stream_of_def)
      then have "concat (chunks_of (r # rds)) = octet_stream evs" using r Got d by simp
      with stream_events_octets [OF x(1), of "[]" "r # rds"] True show ?thesis unfolding eq by simp
    next
      case False
      then have "evs = split_events (c @ concat cs)" using Cons.prems(2) by (simp add: stream_of_def)
      then show ?thesis unfolding eq using stream_events_lines [of "[]" "r # rds"] False r Got d by simp
    qed
  qed
qed simp

subsection \<open>What a flush stores\<close>

definition peer_events :: "peer_buf \<Rightarrow> bytes list" where
  "peer_events pb = cut_all (pb_buf pb) (pb_ranges pb)"

definition peer_ok :: "(bytes \<Rightarrow> nat) \<Rightarrow> bytes \<Rightarrow> peer_buf \<Rightarrow> bool" where
  "peer_ok source_id nm pb \<longleftrightarrow> length (pb_receipts pb) = length (pb_ranges pb) \<and>
     list_all (\<lambda>(a, z). z \<le> length (pb_buf pb)) (pb_ranges pb) \<and> list_all i64_ok (pb_receipts pb) \<and> pb_name pb = nm \<and>
     (pb_source pb = None \<or> pb_source pb = Some (source_id nm))"

definition clock_ok :: "clock \<Rightarrow> bool" where
  "clock_ok clk \<longleftrightarrow> (\<forall>k. i64_ok (snd (clk k)))"

lemma peer_push_ok:
  assumes "peer_ok source_id nm pb" "i64_ok (snd now)"
  shows "peer_ok source_id nm (peer_push now ev pb) \<and> peer_events (peer_push now ev pb) = peer_events pb @ [ev]"
proof
  have "list_all (\<lambda>(a, z). z \<le> length (pb_buf pb @ ev)) (pb_ranges pb)"
    using assms(1) by (auto simp: peer_ok_def list_all_iff)
  then show "peer_ok source_id nm (peer_push now ev pb)" using assms by (simp add: peer_ok_def peer_push_def)
  have "cut_all (pb_buf pb @ ev) (pb_ranges pb) = cut_all (pb_buf pb) (pb_ranges pb)"
    using assms(1) by (auto simp: cut_all_def slice_def peer_ok_def list_all_iff)
  then show "peer_events (peer_push now ev pb) = peer_events pb @ [ev]"
    by (simp add: peer_events_def peer_push_def cut_all_def slice_def)
qed

lemma push_all_ok:
  "peer_ok source_id nm pb \<Longrightarrow> clock_ok clk \<Longrightarrow>
    peer_ok source_id nm (push_all clk evs pb) \<and> peer_events (push_all clk evs pb) = peer_events pb @ evs"
proof (induction evs arbitrary: clk pb)
  case (Cons e es)
  have "clock_ok (\<lambda>k. clk (Suc k))" "i64_ok (snd (clk 0))" using Cons.prems(2) by (simp_all add: clock_ok_def)
  with peer_push_ok [OF Cons.prems(1), of "clk 0" e] Cons.IH [of "peer_push (clk 0) e pb" "\<lambda>k. clk (Suc k)"]
  show ?case by simp
qed simp

text \<open>\<open>s1\<close> is \<open>s\<close> with the events \<open>evs\<close> of one source stored and sent in the batches \<open>bts\<close>.\<close>

definition stored_more ::
  "(bytes \<Rightarrow> bytes) \<Rightarrow> nat \<Rightarrow> event list \<Rightarrow> ingest \<Rightarrow> ingest \<Rightarrow> event list \<Rightarrow> batch list \<Rightarrow> bool" where
  "stored_more H src es s s1 evs bts \<longleftrightarrow>
     store_repr H (ig_store s1) (es @ evs) \<and> ig_sent s1 = ig_sent s @ bts \<and> ig_seq s1 = ig_seq s + length bts \<and>
     batches_match (ig_seq s) (length es) bts (map ev_bytes evs) \<and> list_all (\<lambda>e. ev_source e = src) evs \<and> stamped evs"

lemma batches_match_append:
  assumes "batches_match q n as a" "batches_match (q + length as) (n + length a) cs c"
  shows "batches_match q n (as @ cs) (a @ c)"
  using assms
proof (induction as arbitrary: q n a)
  case Nil
  then show ?case by (simp add: batches_match_def)
next
  case (Cons b as)
  let ?bs = "batch_events b"
  have split: "a = ?bs @ concat (map batch_events as)" using Cons.prems(1) by (simp add: batches_match_def)
  have sq: "bt_seq b = q" "map bt_seq as = [q + 1..<q + 1 + length as]"
    using Cons.prems(1) by (simp_all add: batches_match_def upt_conv_Cons del: upt_Suc)
  have "map bt_first (b # as) = map (\<lambda>i. n + length (concat (map batch_events (take i (b # as))))) [0..<Suc (length as)]"
    using Cons.prems(1) by (simp add: batches_match_def)
  also have "[0..<Suc (length as)] = 0 # map Suc [0..<length as]" by (simp add: upt_conv_Cons map_Suc_upt del: upt_Suc)
  finally have "bt_first b = n"
    "map bt_first as = map (\<lambda>i. n + length ?bs + length (concat (map batch_events (take i as)))) [0..<length as]"
    by (simp_all add: o_def)
  then have m: "batches_match (q + 1) (n + length ?bs) as (concat (map batch_events as))"
    using sq by (simp add: batches_match_def)
  have "batches_match (q + 1 + length as) (n + length ?bs + length (concat (map batch_events as))) cs c"
    using Cons.prems(2) by (simp add: split add.assoc)
  from Cons.IH [OF m this]
  have "batches_match (q + 1) (n + length ?bs) (as @ cs) (concat (map batch_events as) @ c)" .
  from batches_match_Cons [OF sq(1) \<open>bt_first b = n\<close> refl this] show ?case by (simp add: split)
qed

lemma stored_more_refl: "store_repr H (ig_store s) es \<Longrightarrow> stored_more H src es s s [] []"
  by (simp add: stored_more_def stamped_def)

lemma stored_more_trans:
  assumes "stored_more H src es s s1 a as" "stored_more H src (es @ a) s1 s2 c cs"
  shows "stored_more H src es s s2 (a @ c) (as @ cs)"
  using assms batches_match_append [of "ig_seq s" "length es" as "map ev_bytes a" cs "map ev_bytes c"]
  by (simp add: stored_more_def stamped_def add.assoc)

lemma peer_flush_stores:
  assumes "peer_ok source_id nm pb" "store_repr H (ig_store s) es" "fits es (peer_events pb @ later)" "source_id nm < 2 ^ 32"
  shows "\<exists>pb1 s1 evs bts. peer_flush H source_id True pb s = Inr (pb1, s1) \<and> stored_more H (source_id nm) es s s1 evs bts \<and>
    map ev_bytes evs = peer_events pb \<and> peer_events pb1 = [] \<and> peer_ok source_id nm pb1"
proof (cases "pb_ranges pb = []")
  case True
  have "peer_flush H source_id True pb s = Inr (pb, s)" using True by (simp add: peer_flush_def)
  moreover have "peer_events pb = []" using True by (simp add: peer_events_def cut_all_def)
  ultimately show ?thesis using stored_more_refl [OF assms(2), of "source_id nm"] assms(1)
    by (intro exI [of _ pb] exI [of _ s] exI [of _ "[]"] exI [of _ "[]"]) simp
next
  case False
  let ?src = "case pb_source pb of Some i \<Rightarrow> i | None \<Rightarrow> source_id (pb_name pb)"
  let ?evs = "map2 (\<lambda>(a, z) rc. \<lparr>ev_source = ?src, ev_receipt = rc, ev_bytes = slice a z (pb_buf pb)\<rparr>) (pb_ranges pb) (pb_receipts pb)"
  define b where "b = \<lparr>bt_seq = ig_seq s, bt_name = pb_name pb, bt_names = [], bt_bytes = pb_buf pb, bt_receipt = 0,
    bt_first = length es, bt_ranges = pb_ranges pb, bt_receipts = pb_receipts pb, bt_sources = []\<rparr>"
  have src: "?src = source_id nm" using assms(1) by (auto simp: peer_ok_def)
  have len: "length (pb_receipts pb) = length (pb_ranges pb)" using assms(1) by (simp add: peer_ok_def)
  have "map ev_bytes (map2 (\<lambda>(a, z) rc. \<lparr>ev_source = k, ev_receipt = rc, ev_bytes = slice a z buf\<rparr>) rs rcs) = cut_all buf rs"
    if "length rcs = length rs" for k buf rs rcs
    using that by (induction rs rcs rule: list_induct2') (auto simp: cut_all_def)
  from this [OF len] have bytes: "map ev_bytes ?evs = peer_events pb" by (simp add: peer_events_def)
  have stamp: "stamped ?evs" "list_all (\<lambda>e. ev_source e = source_id nm) ?evs"
    using assms(1,4) src by (auto simp: stamped_def list_all_iff peer_ok_def dest!: set_zip_rightD)
  from fits_split(2) [of es ?evs later] assms(3) bytes stamp(1) have "log_ok (es @ ?evs)" by simp
  from store_batch_repr [OF assms(2) this] obtain st where
    st: "store_batch H ?evs (ig_store s) = Inr (length es, st)" "store_repr H st (es @ ?evs)" by blast
  let ?pb = "pb\<lparr>pb_source := Some (source_id nm), pb_buf := [], pb_ranges := [], pb_receipts := []\<rparr>"
  let ?s = "s\<lparr>ig_store := st, ig_seq := ig_seq s + 1, ig_sent := ig_sent s @ [b]\<rparr>"
  have "peer_flush H source_id True pb s = Inr (?pb, ?s)"
    using False st(1) unfolding src by (simp add: peer_flush_def b_def src)
  moreover have "batches_match (ig_seq s) (length es) [b] (map ev_bytes ?evs)"
    unfolding bytes by (simp add: batches_match_def b_def batch_events_def peer_events_def cut_all_def)
  then have "stored_more H (source_id nm) es s ?s ?evs [b]" using st(2) stamp by (simp add: stored_more_def)
  moreover have "peer_events ?pb = []" "peer_ok source_id nm ?pb"
    using assms(1) by (simp_all add: peer_events_def cut_all_def peer_ok_def)
  ultimately show ?thesis using bytes by blast
qed

lemma flush_if_due_stores:
  assumes "peer_ok source_id nm pb" "store_repr H (ig_store s) es" "fits es (peer_events pb @ later)" "source_id nm < 2 ^ 32"
  shows "\<exists>pb1 s1 evs bts. flush_if_due H source_id now True pb s = Inr (pb1, s1) \<and> stored_more H (source_id nm) es s s1 evs bts \<and>
    map ev_bytes evs @ peer_events pb1 = peer_events pb \<and> peer_ok source_id nm pb1"
proof (cases "peer_due now pb")
  case True
  then show ?thesis using peer_flush_stores [OF assms] by (fastforce simp: flush_if_due_def)
next
  case False
  then have "flush_if_due H source_id now True pb s = Inr (pb, s)" by (simp add: flush_if_due_def)
  then show ?thesis using stored_more_refl [OF assms(2), of "source_id nm"] assms(1)
    by (intro exI [of _ pb] exI [of _ s] exI [of _ "[]"] exI [of _ "[]"]) simp
qed

definition turn_ok :: "reading \<times> clock \<times> bool \<Rightarrow> bool" where
  "turn_ok r \<longleftrightarrow> clock_ok (fst (snd r)) \<and> snd (snd r)"

lemma stored_more_fits:
  "stored_more H src es s s1 evs bts \<Longrightarrow> fits es (map ev_bytes evs @ later) \<Longrightarrow> fits (es @ evs) later"
  using fits_split(1) by (simp add: stored_more_def)

lemma tcp_loop_stores:
  assumes "peer_ok source_id nm (cn_peer c)" "store_repr H (ig_store s) es" "list_all turn_ok rds" "source_id nm < 2 ^ 32"
    and "fits es (peer_events (cn_peer c) @ stream_events (cn_octets c) (cn_pending c) rds)"
  shows "\<exists>c1 s1 evs bts. tcp_loop H source_id rds c s = Inr (c1, s1) \<and> stored_more H (source_id nm) es s s1 evs bts \<and>
    map ev_bytes evs @ peer_events (cn_peer c1) @ final_events (cn_octets c1) (cn_pending c1) =
      peer_events (cn_peer c) @ stream_events (cn_octets c) (cn_pending c) rds \<and> peer_ok source_id nm (cn_peer c1)"
  using assms(1,2,3,5)
proof (induction rds arbitrary: c s es)
  case Nil
  then show ?case using stored_more_refl [OF Nil(2), of "source_id nm"]
    by (intro exI [of _ c] exI [of _ s] exI [of _ "[]"] exI [of _ "[]"]) simp
next
  case (Cons r rds)
  obtain rd clk alive where r: "r = (rd, clk, alive)" by (cases r)
  have "turn_ok r" and ok3: "list_all turn_ok rds" using Cons.prems(3) by simp_all
  then have ok: "clock_ok clk" "alive" "list_all turn_ok rds" using r by (simp_all add: turn_ok_def)
  define t where "t = (case rd of
      Got chunk \<Rightarrow> (case receive_chunk chunk (cn_octets c) (cn_pending c) of
        (evs, o1, p) \<Rightarrow> (\<lparr>cn_octets = o1, cn_pending = p, cn_peer = push_all clk evs (cn_peer c)\<rparr>, length evs))
    | Quiet \<Rightarrow> (c, 0))"
  obtain c1 k where t1: "t = (c1, k)" by fastforce
  have c1: "peer_ok source_id nm (cn_peer c1)"
    "peer_events (cn_peer c1) @ stream_events (cn_octets c1) (cn_pending c1) rds =
     peer_events (cn_peer c) @ stream_events (cn_octets c) (cn_pending c) (r # rds)"
    using t1 push_all_ok [OF Cons.prems(1) ok(1)] Cons.prems(1)
    by (auto simp: t_def r split: reading.splits prod.splits)
  have "fits es (peer_events (cn_peer c1) @ stream_events (cn_octets c1) (cn_pending c1) rds)"
    using Cons.prems(4) unfolding c1(2) .
  from flush_if_due_stores [OF c1(1) Cons.prems(2) this assms(4), of "fst (clk k)"] obtain pb s1 evs bts where
    f: "flush_if_due H source_id (fst (clk k)) True (cn_peer c1) s = Inr (pb, s1)"
      "stored_more H (source_id nm) es s s1 evs bts" "map ev_bytes evs @ peer_events pb = peer_events (cn_peer c1)"
      "peer_ok source_id nm pb" by blast
  let ?c2 = "c1\<lparr>cn_peer := pb\<rparr>"
  have fit: "fits (es @ evs) (peer_events pb @ stream_events (cn_octets c1) (cn_pending c1) rds)"
    using Cons.prems(4) stored_more_fits [OF f(2)] unfolding c1(2) [symmetric] f(3) [symmetric] by simp
  have st: "store_repr H (ig_store s1) (es @ evs)" using f(2) by (simp add: stored_more_def)
  have pk: "peer_ok source_id nm (cn_peer ?c2)" using f(4) by simp
  have fit2: "fits (es @ evs) (peer_events (cn_peer ?c2) @ stream_events (cn_octets ?c2) (cn_pending ?c2) rds)"
    using fit by simp
  from Cons.IH [OF pk st ok(3) fit2] obtain c3 s3 evs3 bts3 where
    g: "tcp_loop H source_id rds ?c2 s1 = Inr (c3, s3)" "stored_more H (source_id nm) (es @ evs) s1 s3 evs3 bts3"
      "map ev_bytes evs3 @ peer_events (cn_peer c3) @ final_events (cn_octets c3) (cn_pending c3) =
        peer_events pb @ stream_events (cn_octets c1) (cn_pending c1) rds" "peer_ok source_id nm (cn_peer c3)" by auto
  have "tcp_loop H source_id (r # rds) c s = Inr (c3, s3)"
    using t1 f(1) g(1) ok(2) by (simp add: r t_def)
  moreover have "map ev_bytes (evs @ evs3) @ peer_events (cn_peer c3) @ final_events (cn_octets c3) (cn_pending c3) =
      peer_events (cn_peer c) @ stream_events (cn_octets c) (cn_pending c) (r # rds)"
    using g(3) f(3) c1(2) by (metis append.assoc map_append)
  ultimately show ?case using stored_more_trans [OF f(2) g(2)] g(4) by blast
qed

text \<open>
  C13. A syslog connection loses nothing. The first read decides how the stream is framed: by octet counting when it
  begins with a length and the space after it, by the line rule otherwise, also where a length was cut by the end of
  the read (\<open>split_length_decides\<close>). From then on, whatever the reads the rest arrives in, the timeouts between them
  and the flushes they cause: when the connection ends, the messages of an octet counted stream (each shorter than
  \<open>10 ^ 10\<close> bytes), or the events of the whole stream by the line rule, are stored in order, each once and byte for byte,
  under the peer's source, and were sent in batches with consecutive ids and sequence numbers. The events fit the
  store's format (\<open>fits\<close>) and the batches have a receiver (\<open>turn_ok\<close>).
\<close>

theorem tcp_stream_stored:
  assumes "store_repr H (ig_store s) es" and "source_id (''tcp/'' @ ip) < 2 ^ 32"
    and "list_all turn_ok rds" and "clock_ok clk"
    and "chunks_of rds = c # cs" and "stream_of c cs evs" and "fits es evs"
  shows "\<exists>s1 new bts. tcp_connection H source_id now ip rds clk True s = Inr s1 \<and> map ev_bytes new = evs \<and>
    stored_more H (source_id (''tcp/'' @ ip)) es s s1 new bts"
proof -
  let ?nm = "''tcp/'' @ ip"
  let ?c = "\<lparr>cn_octets = None, cn_pending = [], cn_peer = peer_new now ?nm\<rparr>"
  have p: "peer_ok source_id ?nm (cn_peer ?c)" by (simp add: peer_ok_def peer_new_def)
  have e: "peer_events (cn_peer ?c) @ stream_events (cn_octets ?c) (cn_pending ?c) rds = evs"
    using stream_events_of [OF assms(5,6)] by (simp add: peer_events_def peer_new_def cut_all_def)
  from tcp_loop_stores [OF p assms(1,3,2)] assms(7) e obtain c1 s1 a as where
    l: "tcp_loop H source_id rds ?c s = Inr (c1, s1)" "stored_more H (source_id ?nm) es s s1 a as"
      "map ev_bytes a @ peer_events (cn_peer c1) @ final_events (cn_octets c1) (cn_pending c1) = evs"
      "peer_ok source_id ?nm (cn_peer c1)" by auto
  let ?pb = "push_all clk (final_events (cn_octets c1) (cn_pending c1)) (cn_peer c1)"
  from push_all_ok [OF l(4) assms(4)] have pb: "peer_ok source_id ?nm ?pb"
    "peer_events ?pb = peer_events (cn_peer c1) @ final_events (cn_octets c1) (cn_pending c1)" by simp_all
  have "fits es (map ev_bytes a @ peer_events ?pb @ [])" using assms(7) l(3) pb(2) by simp
  from stored_more_fits [OF l(2) this] have fit: "fits (es @ a) (peer_events ?pb @ [])" .
  have "store_repr H (ig_store s1) (es @ a)" using l(2) by (simp add: stored_more_def)
  from peer_flush_stores [OF pb(1) this fit assms(2)] obtain pb2 s2 d ds where
    f: "peer_flush H source_id True ?pb s1 = Inr (pb2, s2)" "stored_more H (source_id ?nm) (es @ a) s1 s2 d ds"
      "map ev_bytes d = peer_events ?pb" by blast
  have "tcp_connection H source_id now ip rds clk True s = Inr s2" using l(1) f(1) by (simp add: tcp_connection_def)
  moreover have "map ev_bytes (a @ d) = evs" using l(3) f(3) pb(2) by simp
  ultimately show ?thesis using stored_more_trans [OF l(2) f(2)] by blast
qed

definition still :: clock where
  "still k = (0, 0)"

theorem tcp_stream_stored_witness:
  "\<exists>s1 new bts. tcp_connection tail_hash (\<lambda>_. 7) 0 ''10.0.0.9''
      [(Got ''5 ab'', still, True), (Quiet, still, True), (Got ''cde2'', still, True), (Got '' '', still, True), (Got ''xy'', still, True)]
      still True \<lparr>ig_store = fresh_store, ig_seq = 0, ig_sent = []\<rparr> = Inr s1 \<and>
    map ev_bytes new = [''abcde'', ''xy''] \<and>
    stored_more tail_hash 7 [] \<lparr>ig_store = fresh_store, ig_seq = 0, ig_sent = []\<rparr> s1 new bts"
proof -
  let ?evs = "[''abcde'', ''xy'']" and ?s = "\<lparr>ig_store = fresh_store, ig_seq = 0, ig_sent = []\<rparr>"
  let ?rds = "[(Got ''5 ab'', still, True), (Quiet, still, True), (Got ''cde2'', still, True), (Got '' '', still, True), (Got ''xy'', still, True)]"
  have ck: "clock_ok still" by (simp add: clock_ok_def still_def i64_ok_def)
  have "stream_of ''5 ab'' [''cde2'', '' '', ''xy''] ?evs"
  proof -
    have "octet_stream ?evs = ''5 ab'' @ concat [''cde2'', '' '', ''xy'']" "looks_octet_counted ''5 ab''"
      by code_simp+
    then show ?thesis by (simp add: stream_of_def sendable_def)
  qed
  moreover have "fits [] ?evs" by (simp add: fits_def log_ok_def rec_off_def header_len_def)
  moreover have "list_all turn_ok ?rds" using ck by (simp add: turn_ok_def)
  moreover have "chunks_of ?rds = ''5 ab'' # [''cde2'', '' '', ''xy'']" by simp
  moreover have "store_repr tail_hash (ig_store ?s) []" using fresh_store_repr by simp
  ultimately show ?thesis
    using tcp_stream_stored [of tail_hash ?s "[]" "\<lambda>_. 7" "''10.0.0.9''" ?rds still "''5 ab''" "[''cde2'', '' '', ''xy'']" ?evs 0] ck
    by simp
qed

subsection \<open>Where the framing goes wrong\<close>

text \<open>
  A first read that ends inside the first length, as \<open>12\<close> of \<open>12 hello world!\<close>, decides for the line rule, and a
  length that no space follows within eleven bytes is never consumed.
\<close>

lemma split_length_decides: "receive_chunk ''12'' None [] = ([], Some False, ''12'')"
  by code_simp

lemma long_length_stalls: "SP \<notin> set (take 11 (p @ c)) \<Longrightarrow> receive_chunk c (Some True) p = ([], Some True, p @ c)"
proof -
  assume "SP \<notin> set (take 11 (p @ c))"
  then have "position (\<lambda>x. x = SP) (take 11 (p @ c)) = None" by (auto simp: position_None)
  then show ?thesis by (simp add: receive_chunk_def take_events_def take_octet_counted.simps [of "p @ c"])
qed

end
