(* ===== verification/Ulpf_Outfile.thy ===== *)
theory Ulpf_Outfile
  imports Ulpf_Time_Parse Ulpf_Frame
begin

text \<open>
  Looking a line up in the output file, \<open>src/crates/ulpf/src/outfile.rs\<close>: the snapshot cut at the last
  terminator, the raw id a line carries, and the binary search over the starts of lines. The
  file is its bytes; a read that fails is outside the model. The writer may append meanwhile, so
  \<open>of_disk\<close> may be longer than the snapshot \<open>of_len\<close>.
\<close>

definition parse_u64 :: "bytes \<Rightarrow> nat option" where
  "parse_u64 ds = (if ds = [] \<or> \<not> list_all is_ascii_digit ds \<or> 2 ^ 64 \<le> digits_val ds then None else Some (digits_val ds))"

definition line_id :: "bytes \<Rightarrow> nat option" where
  "line_id line =
     (case memmem (''\"ulpf\":{'') line of
        None \<Rightarrow> None
      | Some at \<Rightarrow>
          let rest = drop at line in
          (case memmem (''\"raw_id\":'') rest of
             None \<Rightarrow> None
           | Some k \<Rightarrow> parse_u64 (takeWhile is_ascii_digit (drop (k + length (''\"raw_id\":'')) rest))))"

record outfile =
  of_disk :: bytes
  of_len :: nat

text \<open>One past the last line feed, found from the end in pieces of \<open>n\<close> bytes.\<close>

definition memrchr :: "byte \<Rightarrow> bytes \<Rightarrow> nat option" where
  "memrchr b xs = map_option (\<lambda>i. length xs - 1 - i) (memchr b (rev xs))"

function last_terminator :: "nat \<Rightarrow> bytes \<Rightarrow> nat \<Rightarrow> nat" where
  "last_terminator n disk stop =
     (if stop = 0 \<or> n = 0 then 0
      else (case memrchr LF (slice (stop - n) stop disk) of
              Some i \<Rightarrow> stop - n + i + 1
            | None \<Rightarrow> last_terminator n disk (stop - n)))"
  by pat_completeness auto
termination by (relation "measure (\<lambda>(n, disk, stop). stop)") auto

declare last_terminator.simps [simp del]

definition outfile_open :: "bytes \<Rightarrow> outfile" where
  "outfile_open disk = \<lparr>of_disk = disk, of_len = last_terminator (2 ^ 16) disk (length disk)\<rparr>"

text \<open>\<open>read_until\<close>: up to and with the terminator, or to the end.\<close>

definition read_until :: "byte \<Rightarrow> bytes \<Rightarrow> bytes" where
  "read_until b xs = (case memchr b xs of Some i \<Rightarrow> take (i + 1) xs | None \<Rightarrow> xs)"

definition line_at :: "outfile \<Rightarrow> nat \<Rightarrow> bytes option" where
  "line_at f at =
     (if of_len f \<le> at then None
      else let line = read_until LF (drop at (of_disk f)) in
        if line \<noteq> [] \<and> last line = LF \<and> at + length line \<le> of_len f then Some line else None)"

text \<open>The scan for a line feed, in pieces of \<open>n\<close> bytes.\<close>

function scan_line :: "nat \<Rightarrow> bytes \<Rightarrow> nat \<Rightarrow> nat option" where
  "scan_line n xs skipped =
     (if xs = [] \<or> n = 0 then None
      else (case memchr LF (take n xs) of
              Some i \<Rightarrow> Some (skipped + i)
            | None \<Rightarrow> scan_line n (drop n xs) (skipped + length (take n xs))))"
  by pat_completeness auto
termination by (relation "measure (\<lambda>(n, xs, skipped). length xs)") auto

declare scan_line.simps [simp del]

definition next_start :: "outfile \<Rightarrow> nat \<Rightarrow> nat" where
  "next_start f at =
     (if at = 0 then 0
      else if of_len f \<le> at then of_len f
      else (case scan_line (2 ^ 14) (drop (at - 1) (of_disk f)) 0 of
              None \<Rightarrow> of_len f
            | Some i \<Rightarrow> min (at - 1 + i + 1) (of_len f)))"

definition at_least :: "nat \<Rightarrow> bytes \<Rightarrow> bool" where
  "at_least rid line = (case line_id line of Some x \<Rightarrow> rid \<le> x | None \<Rightarrow> False)"

lemma line_at_advances: "line_at f at = Some line \<Longrightarrow> 0 < length line \<and> at < of_len f \<and> at + length line \<le> of_len f"
  by (auto simp: line_at_def Let_def split: if_splits)

function walk :: "outfile \<Rightarrow> nat \<Rightarrow> nat \<Rightarrow> nat \<Rightarrow> nat" where
  "walk f rid at hi =
     (if at < hi then
        (case line_at f at of
           Some line \<Rightarrow> if at_least rid line then at else walk f rid (at + length line) hi
         | None \<Rightarrow> hi)
      else hi)"
  by pat_completeness auto
termination
  by (relation "measure (\<lambda>(f, rid, at, hi). hi - at)") (auto dest!: line_at_advances intro: diff_less_mono2)

declare walk.simps [simp del]

lemma scan_line_memchr:
  assumes "0 < n"
  shows "scan_line n xs skipped = map_option ((+) skipped) (memchr LF xs)"
  using assms
proof (induction n xs skipped rule: scan_line.induct)
  case (1 n xs skipped)
  show ?case
  proof (cases "xs = []")
    case True
    then show ?thesis by (simp add: scan_line.simps [of n] memchr_def)
  next
    case False
    show ?thesis
    proof (cases "memchr LF (take n xs)")
      case (Some i)
      then have i: "i < length (take n xs)" "take n xs ! i = LF" "\<And>j. j < i \<Longrightarrow> take n xs ! j \<noteq> LF"
        by (auto dest: memchr_SomeD)
      then have "memchr LF xs = Some i" unfolding memchr_def by (intro position_SomeI) auto
      then show ?thesis using Some False 1(2) by (simp add: scan_line.simps [of n])
    next
      case None
      then have "LF \<notin> set (take n xs)" by (simp add: memchr_None)
      from memchr_append_notin [OF this, of "drop n xs"]
      have "memchr LF xs = map_option ((+) (length (take n xs))) (memchr LF (drop n xs))" by simp
      moreover have "scan_line n (drop n xs) (skipped + length (take n xs)) =
          map_option ((+) (skipped + length (take n xs))) (memchr LF (drop n xs))"
        using 1 None False by simp
      ultimately show ?thesis using None False 1(2)
        by (simp add: scan_line.simps [of n xs] option.map_comp comp_def add.assoc fun_eq_iff cong: option.map_cong)
    qed
  qed
qed

lemma next_start_ge: "at \<le> next_start f at \<or> next_start f at = of_len f"
  by (auto simp: next_start_def split: option.splits)

lemma upper_shrinks: "\<not> hi \<le> s \<Longrightarrow> lo < hi \<Longrightarrow> s - lo < hi - (lo :: nat)"
  by linarith

text \<open>The search between two starts of lines.\<close>

function bisect :: "outfile \<Rightarrow> nat \<Rightarrow> nat \<Rightarrow> nat \<Rightarrow> nat" where
  "bisect f rid lo hi =
     (if lo < hi then
        let mid = lo + (hi - lo) div 2; s = next_start f mid in
        if hi \<le> s then walk f rid lo hi
        else (case line_at f s of
                Some line \<Rightarrow> if at_least rid line then bisect f rid lo s else bisect f rid (s + length line) hi
              | None \<Rightarrow> bisect f rid lo s)
      else lo)"
  by pat_completeness auto
termination
proof (relation "measure (\<lambda>(f, rid, lo, hi). hi - lo)", goal_cases)
  case (4 f rid lo hi mid s line)
  from 4(5) have l: "s < of_len f" "0 < length line" using line_at_advances by blast+
  then have "mid \<le> s" using next_start_ge [of mid f] 4(3) by auto
  moreover have "lo \<le> mid" using 4(2) by simp
  ultimately have "hi - (s + length line) < hi - lo" using 4(1) l(2) by linarith
  then show ?case by simp
qed (auto intro: upper_shrinks)

declare bisect.simps [simp del]

definition lower_bound :: "outfile \<Rightarrow> nat \<Rightarrow> nat" where
  "lower_bound f rid = bisect f rid 0 (of_len f)"

definition find_line :: "outfile \<Rightarrow> nat \<Rightarrow> bytes option" where
  "find_line f rid =
     (case line_at f (lower_bound f rid) of
        Some line \<Rightarrow> if line_id line = Some rid then Some (butlast line) else None
      | None \<Rightarrow> None)"

subsection \<open>A file of lines\<close>

definition out_lines :: "bytes list \<Rightarrow> bytes" where
  "out_lines ls = concat (map (\<lambda>l. l @ [LF]) ls)"

definition start_of :: "bytes list \<Rightarrow> nat \<Rightarrow> nat" where
  "start_of ls k = length (out_lines (take k ls))"

text \<open>The snapshot holds exactly the lines; more may follow on disk.\<close>

definition snapshot :: "outfile \<Rightarrow> bytes list \<Rightarrow> bool" where
  "snapshot f ls \<longleftrightarrow> prefix (out_lines ls) (of_disk f) \<and> of_len f = length (out_lines ls) \<and> list_all (\<lambda>l. LF \<notin> set l) ls"

lemma out_lines_simps [simp]:
  "out_lines [] = []" "out_lines (l # ls) = l @ LF # out_lines ls" "out_lines (as @ cs) = out_lines as @ out_lines cs"
  by (simp_all add: out_lines_def)

lemma start_of_0 [simp]: "start_of ls 0 = 0"
  by (simp add: start_of_def)

lemma start_of_Suc: "k < length ls \<Longrightarrow> start_of ls (Suc k) = start_of ls k + length (ls ! k) + 1"
  by (simp add: start_of_def take_Suc_conv_app_nth)

lemma start_of_all: "start_of ls (length ls) = length (out_lines ls)"
  by (simp add: start_of_def)

lemma start_of_less: "a < b \<Longrightarrow> b \<le> length ls \<Longrightarrow> start_of ls a < start_of ls b"
proof (induction b)
  case (Suc b)
  then show ?case using start_of_Suc [of b ls] by (cases "a = b") auto
qed simp

lemma start_of_le: "a \<le> b \<Longrightarrow> b \<le> length ls \<Longrightarrow> start_of ls a \<le> start_of ls b"
  using start_of_less [of a b ls] by (cases "a = b") auto

lemma start_of_less_iff: "a \<le> length ls \<Longrightarrow> b \<le> length ls \<Longrightarrow> start_of ls a < start_of ls b \<longleftrightarrow> a < b"
  using start_of_less [of a b ls] start_of_le [of b a ls] by (meson leD leI)

lemma drop_start: "k < length ls \<Longrightarrow> drop (start_of ls k) (out_lines ls @ r) = ls ! k @ LF # out_lines (drop (Suc k) ls) @ r"
proof -
  assume "k < length ls"
  then have "ls = take k ls @ ls ! k # drop (Suc k) ls" by (simp add: id_take_nth_drop)
  then have "out_lines ls = out_lines (take k ls) @ ls ! k @ LF # out_lines (drop (Suc k) ls)"
    by (metis out_lines_simps(2,3))
  then show ?thesis by (simp add: start_of_def)
qed

lemma line_at_start:
  assumes "snapshot f ls" "k < length ls"
  shows "line_at f (start_of ls k) = Some (ls ! k @ [LF])"
proof -
  from assms(1) obtain r where d: "of_disk f = out_lines ls @ r" by (auto simp: snapshot_def prefix_def)
  have "LF \<notin> set (ls ! k)" using assms by (simp add: snapshot_def list_all_length)
  then have "read_until LF (drop (start_of ls k) (of_disk f)) = ls ! k @ [LF]"
    using memchr_hit [of LF "ls ! k" "out_lines (drop (Suc k) ls) @ r"]
    unfolding d drop_start [OF assms(2)] by (simp add: read_until_def)
  moreover have "start_of ls k + length (ls ! k @ [LF]) \<le> length (out_lines ls)"
    using start_of_Suc [OF assms(2)] start_of_le [of "Suc k" "length ls" ls] assms(2) by (simp add: start_of_all)
  ultimately show ?thesis using assms(1) by (simp add: line_at_def snapshot_def)
qed

lemma line_at_end: "snapshot f ls \<Longrightarrow> line_at f (start_of ls (length ls)) = None"
  by (simp add: line_at_def snapshot_def start_of_all)

lemma feed_ends_line:
  "p < length (out_lines ls) \<Longrightarrow> list_all (\<lambda>l. LF \<notin> set l) ls \<Longrightarrow>
    out_lines ls ! p = LF \<longleftrightarrow> (\<exists>k<length ls. p + 1 = start_of ls (Suc k))"
proof (induction ls arbitrary: p)
  case (Cons l ls)
  have st: "start_of (l # ls) (Suc k) = length l + 1 + start_of ls k" for k by (simp add: start_of_def)
  show ?case
  proof (cases "p \<le> length l")
    case True
    then have "out_lines (l # ls) ! p = LF \<longleftrightarrow> p = length l"
      using Cons.prems(2) by (auto simp: nth_append dest: nth_mem)
    moreover have "(\<exists>k<length (l # ls). p + 1 = start_of (l # ls) (Suc k)) \<longleftrightarrow> p = length l"
      unfolding st using True by (auto intro!: exI [of _ 0])
    ultimately show ?thesis by simp
  next
    case False
    define q where "q = p - length l - 1"
    have p: "p = length l + 1 + q" using False by (simp add: q_def)
    have "out_lines (l # ls) ! p = out_lines ls ! q" by (simp add: p nth_append)
    moreover have "(\<exists>k<length (l # ls). p + 1 = start_of (l # ls) (Suc k)) \<longleftrightarrow> (\<exists>k<length ls. q + 1 = start_of ls (Suc k))"
    proof
      assume "\<exists>k<length (l # ls). p + 1 = start_of (l # ls) (Suc k)"
      then obtain k where "k < Suc (length ls)" "q + 1 = start_of ls k" unfolding st p by auto
      then show "\<exists>k<length ls. q + 1 = start_of ls (Suc k)" by (cases k) auto
    next
      assume "\<exists>k<length ls. q + 1 = start_of ls (Suc k)"
      then obtain k where "k < length ls" "q + 1 = start_of ls (Suc k)" by blast
      then show "\<exists>k<length (l # ls). p + 1 = start_of (l # ls) (Suc k)" unfolding st p by (intro exI [of _ "Suc k"]) simp
    qed
    ultimately show ?thesis using Cons.IH [of q] Cons.prems by (simp add: p)
  qed
qed simp

text \<open>Aligning finds the first start at or after a position.\<close>

lemma next_start_spec:
  assumes "snapshot f ls" "at \<le> length (out_lines ls)"
  shows "\<exists>c\<le>length ls. next_start f at = start_of ls c \<and> at \<le> start_of ls c \<and> (\<forall>d<c. start_of ls d < at)"
proof -
  from assms(1) obtain r where d: "of_disk f = out_lines ls @ r" and n: "of_len f = length (out_lines ls)"
    and clean: "list_all (\<lambda>l. LF \<notin> set l) ls" by (auto simp: snapshot_def prefix_def)
  consider "at = 0" | "at = length (out_lines ls)" "at \<noteq> 0" | "0 < at" "at < length (out_lines ls)" using assms(2) by linarith
  then show ?thesis
  proof cases
    case 1
    then show ?thesis by (intro exI [of _ 0]) (simp add: next_start_def)
  next
    case 2
    then show ?thesis using start_of_less [of _ "length ls" ls]
      by (intro exI [of _ "length ls"]) (simp add: next_start_def n start_of_all)
  next
    case 3
    let ?D = "drop (at - 1) (of_disk f)"
    have "LF \<in> set ?D"
    proof -
      have ne: "out_lines ls \<noteq> []" using 3 by auto
      then have "last (out_lines ls) = LF" by (cases ls rule: rev_cases) auto
      moreover have "?D = drop (at - 1) (out_lines ls) @ r" using 3 by (simp add: d)
      moreover have "drop (at - 1) (out_lines ls) \<noteq> []" using 3 by simp
      ultimately show ?thesis using ne by (metis UnCI last_drop last_in_set length_drop length_greater_0_conv set_append zero_less_diff)
    qed
    then obtain i where i: "memchr LF ?D = Some i" using memchr_None [of LF ?D] by (cases "memchr LF ?D") auto
    have le: "at - 1 \<le> length (of_disk f)" using 3 d by simp
    from memchr_SomeD [OF i] have "of_disk f ! (at - 1 + i) = LF" and before: "\<And>j. j < i \<Longrightarrow> of_disk f ! (at - 1 + j) \<noteq> LF"
      unfolding nth_drop [OF le] by auto
    have small: "start_of ls (Suc k) - 1 < length (out_lines ls)" "0 < start_of ls (Suc k)" if "k < length ls" for k
      using start_of_le [of "Suc k" "length ls" ls] start_of_less [of 0 "Suc k" ls] that by (auto simp: start_of_all)
    have disk: "of_disk f ! p = LF \<longleftrightarrow> (\<exists>k<length ls. p + 1 = start_of ls (Suc k))" if "p < length (out_lines ls)" for p
      using feed_ends_line [OF that clean] that by (simp add: d nth_append)
    have first: "at - 1 + i < length (out_lines ls)"
    proof (rule ccontr)
      assume far: "\<not> at - 1 + i < length (out_lines ls)"
      have "of_disk f ! (length (out_lines ls) - 1) = LF"
      proof -
        have "0 < length ls" using 3 by (cases ls) auto
        with small [of "length ls - 1"] disk [of "length (out_lines ls) - 1"] show ?thesis
          using 3 start_of_all [of ls] by (auto intro!: exI [of _ "length ls - 1"])
      qed
      moreover have "length (out_lines ls) - 1 - (at - 1) < i" "at - 1 + (length (out_lines ls) - 1 - (at - 1)) = length (out_lines ls) - 1"
        using far 3 by linarith+
      ultimately show False using before by metis
    qed
    from disk [OF first] \<open>of_disk f ! (at - 1 + i) = LF\<close> obtain k where k: "k < length ls" "at - 1 + i + 1 = start_of ls (Suc k)" by auto
    have "start_of ls c < at" if c: "c < Suc k" for c
    proof (rule ccontr)
      assume "\<not> start_of ls c < at"
      moreover from this 3 obtain j where j: "c = Suc j" by (cases c) auto
      ultimately have "start_of ls (Suc j) - 1 - (at - 1) < i" "at - 1 \<le> start_of ls (Suc j) - 1"
        using k start_of_less [of c "Suc k" ls] c 3 by auto
      moreover have "\<exists>k<length ls. start_of ls (Suc j) - 1 + 1 = start_of ls (Suc k)"
        using small [of j] c k j by (intro exI [of _ j]) simp
      then have "of_disk f ! (start_of ls (Suc j) - 1) = LF"
        using disk [of "start_of ls (Suc j) - 1"] small [of j] c k j by simp
      moreover have "at - 1 + (start_of ls (Suc j) - 1 - (at - 1)) = start_of ls (Suc j) - 1"
        using \<open>at - 1 \<le> start_of ls (Suc j) - 1\<close> by linarith
      ultimately show False using before by metis
    qed
    moreover have "next_start f at = start_of ls (Suc k)"
      using 3 i k first small [OF k(1)] by (simp add: next_start_def n scan_line_memchr)
    ultimately show ?thesis using k 3 by (intro exI [of _ "Suc k"]) auto
  qed
qed

subsection \<open>The search\<close>

text \<open>\<open>c\<close> lines come before the id, and none after them does.\<close>

definition cut_point :: "bytes list \<Rightarrow> nat \<Rightarrow> nat \<Rightarrow> bool" where
  "cut_point ls rid c \<longleftrightarrow> c \<le> length ls \<and> (\<forall>k<length ls. at_least rid (ls ! k @ [LF]) \<longleftrightarrow> c \<le> k)"

lemma walk_finds:
  assumes "snapshot f ls" "cut_point ls rid c" "a \<le> c" "c \<le> b" "b \<le> length ls"
  shows "walk f rid (start_of ls a) (start_of ls b) = start_of ls c"
  using assms(3-5)
proof (induction "b - a" arbitrary: a)
  case 0
  then have "a = b" "c = b" by simp_all
  then show ?case by (simp add: walk.simps [of f rid])
next
  case (Suc d)
  then have ab: "a < b" by simp
  then have lt: "start_of ls a < start_of ls b" "a < length ls" using Suc.prems start_of_less by auto
  note line = line_at_start [OF assms(1) lt(2)]
  show ?case
  proof (cases "a = c")
    case True
    then have "at_least rid (ls ! a @ [LF])" using assms(2) lt(2) by (simp add: cut_point_def)
    then show ?thesis using lt line True by (simp add: walk.simps [of f rid "start_of ls c"])
  next
    case False
    then have "\<not> at_least rid (ls ! a @ [LF])" using assms(2) lt(2) Suc.prems by (simp add: cut_point_def)
    moreover have "walk f rid (start_of ls (Suc a)) (start_of ls b) = start_of ls c"
      using Suc.hyps(1) [of "Suc a"] Suc.hyps(2) Suc.prems False by simp
    ultimately show ?thesis using lt line start_of_Suc [OF lt(2)]
      by (simp add: walk.simps [of f rid "start_of ls a"])
  qed
qed

lemma bisect_finds:
  assumes "snapshot f ls" "cut_point ls rid c" "a \<le> c" "c \<le> b" "b \<le> length ls"
  shows "bisect f rid (start_of ls a) (start_of ls b) = start_of ls c"
  using assms(3-5)
proof (induction "b - a" arbitrary: a b rule: less_induct)
  case less
  show ?case
  proof (cases "a = b")
    case True
    then show ?thesis using less.prems by (simp add: bisect.simps [of f rid])
  next
    case False
    then have lt: "start_of ls a < start_of ls b" using less.prems start_of_less by simp
    define mid where "mid = start_of ls a + (start_of ls b - start_of ls a) div 2"
    have mid: "start_of ls a \<le> mid" "mid < start_of ls b" using lt by (auto simp: mid_def)
    then have "mid \<le> length (out_lines ls)"
      using start_of_le [of b "length ls" ls] less.prems by (simp add: start_of_all)
    from next_start_spec [OF assms(1) this] obtain j where
      j: "j \<le> length ls" "next_start f mid = start_of ls j" "mid \<le> start_of ls j" by blast
    then have aj: "a \<le> j" using mid start_of_less_iff [of j ls a] less.prems by force
    show ?thesis
    proof (cases "start_of ls b \<le> start_of ls j")
      case True
      then show ?thesis using lt j(2) walk_finds [OF assms(1,2) less.prems]
        by (simp add: bisect.simps [of f rid "start_of ls a"] Let_def mid_def)
    next
      case jb: False
      then have jb': "j < b" using start_of_le [of b j ls] j(1) by force
      then have jl: "j < length ls" using less.prems by simp
      note line = line_at_start [OF assms(1) jl]
      have step: "bisect f rid (start_of ls a) (start_of ls b) =
          (if at_least rid (ls ! j @ [LF]) then bisect f rid (start_of ls a) (start_of ls j)
           else bisect f rid (start_of ls (Suc j)) (start_of ls b))"
        using lt jb j(2) line start_of_Suc [OF jl]
        by (simp add: bisect.simps [of f rid "start_of ls a"] Let_def mid_def)
      show ?thesis
      proof (cases "at_least rid (ls ! j @ [LF])")
        case True
        then have "c \<le> j" using assms(2) jl by (simp add: cut_point_def)
        with less.hyps [of j a] jb' aj less.prems True step show ?thesis by simp
      next
        case no: False
        then have "Suc j \<le> c" using assms(2) jl by (auto simp: cut_point_def)
        with less.hyps [of b "Suc j"] jb' aj less.prems no step show ?thesis by simp
      qed
    qed
  qed
qed

text \<open>The ids of the lines, in the order of the file.\<close>

definition numbered :: "bytes list \<Rightarrow> nat list \<Rightarrow> bool" where
  "numbered ls ids \<longleftrightarrow> map (\<lambda>l. line_id (l @ [LF])) ls = map Some ids \<and> sorted ids"

definition ids_before :: "nat \<Rightarrow> nat list \<Rightarrow> nat" where
  "ids_before rid ids = length (takeWhile (\<lambda>i. i < rid) ids)"

lemma numbered_cut:
  assumes "numbered ls ids"
  shows "cut_point ls rid (ids_before rid ids) \<and> length ls = length ids \<and>
    (\<forall>k<length ls. line_id (ls ! k @ [LF]) = Some (ids ! k))"
proof -
  from assms have len: "length ls = length ids" by (metis length_map numbered_def)
  have lid: "line_id (ls ! k @ [LF]) = Some (ids ! k)" if "k < length ls" for k
    using assms that len unfolding numbered_def by (metis nth_map)
  have "rid \<le> ids ! k \<longleftrightarrow> ids_before rid ids \<le> k" if k: "k < length ids" for k
  proof
    assume "rid \<le> ids ! k"
    then show "ids_before rid ids \<le> k"
      unfolding ids_before_def using takeWhile_nth [of k "\<lambda>i. i < rid" ids]
        set_takeWhileD [OF nth_mem, of k "\<lambda>i. i < rid" ids] by (metis leI not_less)
  next
    assume le: "ids_before rid ids \<le> k"
    then have "\<not> ids ! ids_before rid ids < rid"
      using k nth_length_takeWhile [of "\<lambda>i. i < rid" ids] by (simp add: ids_before_def)
    moreover have "ids ! ids_before rid ids \<le> ids ! k"
      using assms le k by (simp add: numbered_def sorted_iff_nth_mono)
    ultimately show "rid \<le> ids ! k" by simp
  qed
  moreover have "ids_before rid ids \<le> length ids" by (simp add: ids_before_def length_takeWhile_le)
  ultimately show ?thesis using lid len by (simp add: cut_point_def at_least_def)
qed

lemma memrchr_None: "memrchr b xs = None \<longleftrightarrow> b \<notin> set xs"
  by (simp add: memrchr_def memchr_None)

lemma memrchr_last: "b \<notin> set c \<Longrightarrow> memrchr b (a @ b # c) = Some (length a)"
  using memchr_hit [of b "rev c" "rev a"] by (simp add: memrchr_def)

lemma last_terminator_cut:
  assumes "0 < n" "LF \<notin> set torn" "stop \<le> length (out_lines ls @ torn)" "length (out_lines ls) \<le> stop"
  shows "last_terminator n (out_lines ls @ torn) stop = length (out_lines ls)"
  using assms
proof (induction n "out_lines ls @ torn" stop rule: last_terminator.induct)
  case (1 n stop)
  let ?d = "out_lines ls @ torn" and ?w = "slice (stop - n) stop (out_lines ls @ torn)"
  show ?case
  proof (cases "stop = 0")
    case True
    then show ?thesis using 1 by (simp add: last_terminator.simps [of n])
  next
    case False
    show ?thesis
    proof (cases "length (out_lines ls) \<le> stop - n")
      case True
      then have "drop (stop - n) ?d = drop (stop - n - length (out_lines ls)) torn" by simp
      then have "LF \<notin> set ?w" using 1(3) unfolding slice_def by (metis in_set_dropD in_set_takeD)
      then have w: "memrchr LF ?w = None" by (simp add: memrchr_None)
      show ?thesis using 1(1) [OF _ w] 1(2-4) False True w by (simp add: last_terminator.simps [of n ?d stop])
    next
      case short: False
      then have "out_lines ls \<noteq> []" by auto
      then obtain l where l: "out_lines ls = l @ [LF]" by (cases ls rule: rev_cases) (auto simp: out_lines_def)
      let ?a = "drop (stop - n) l" and ?t = "take (stop - length (out_lines ls)) torn"
      have "?w = ?a @ LF # ?t" using short 1(4,5) by (simp add: slice_def l take_Cons')
      moreover have "LF \<notin> set ?t" using 1(3) by (auto dest: in_set_takeD)
      ultimately have "memrchr LF ?w = Some (length ?a)" by (simp add: memrchr_last)
      then have "last_terminator n ?d stop = stop - n + length ?a + 1"
        using 1(2) False by (subst last_terminator.simps) simp
      then show ?thesis using short by (simp add: l)
    qed
  qed
qed

text \<open>
  C16. The search ends and finds the line. The file is opened on the lines written so far and a torn line, whatever
  is appended afterwards; the lines carry their raw ids in ascending order. Then for any id the binary
  search, a total function, returns the start of the first line whose id is not smaller (the
  end of the snapshot when there is none), and \<open>find\<close> returns the first line with this
  id without its terminator, or nothing when no line of the snapshot has it.
\<close>

theorem find_line_exact:
  assumes "list_all (\<lambda>l. LF \<notin> set l) ls" and "LF \<notin> set torn" and "numbered ls ids"
    and "f = (outfile_open (out_lines ls @ torn))\<lparr>of_disk := out_lines ls @ torn @ later\<rparr>"
  shows "lower_bound f rid = start_of ls (ids_before rid ids) \<and>
    find_line f rid = (if rid \<in> set ids then Some (ls ! ids_before rid ids) else None)"
proof -
  have snap: "snapshot f ls"
    using assms(1,2,4) last_terminator_cut [of "2 ^ 16" torn "length (out_lines ls @ torn)" ls]
    by (simp add: snapshot_def outfile_open_def)
  let ?c = "ids_before rid ids"
  note cut = numbered_cut [OF assms(3), of rid]
  have c: "?c \<le> length ls" using cut by (simp add: cut_point_def)
  have lb: "lower_bound f rid = start_of ls ?c"
    using bisect_finds [OF snap conjunct1 [OF cut], of 0 "length ls"] c snap
    by (simp add: lower_bound_def snapshot_def start_of_all)
  moreover have "find_line f rid = (if rid \<in> set ids then Some (ls ! ?c) else None)"
  proof (cases "?c = length ls")
    case True
    then have "takeWhile (\<lambda>i. i < rid) ids = ids" using cut unfolding ids_before_def
      by (metis takeWhile_eq_take take_all order_refl)
    then have "rid \<notin> set ids" by (metis less_irrefl set_takeWhileD)
    then show ?thesis using lb line_at_end [OF snap] True by (simp add: find_line_def)
  next
    case False
    then have lt: "?c < length ls" using c by simp
    have "rid \<le> ids ! ?c" using nth_length_takeWhile [of "\<lambda>i. i < rid" ids] lt cut by (simp add: ids_before_def)
    moreover have "ids ! ?c = rid" if mem: "rid \<in> set ids"
    proof -
      obtain k where k: "k < length ids" "ids ! k = rid" using mem by (auto simp: in_set_conv_nth)
      then have "?c \<le> k" using cut by (auto simp: cut_point_def at_least_def)
      then have "ids ! ?c \<le> rid" using k assms(3) by (auto simp: numbered_def sorted_iff_nth_mono)
      with \<open>rid \<le> ids ! ?c\<close> show ?thesis by simp
    qed
    moreover have "ids ! ?c \<in> set ids" using lt cut by simp
    ultimately have "ids ! ?c = rid \<longleftrightarrow> rid \<in> set ids" by auto
    then show ?thesis using lb line_at_start [OF snap lt] cut lt by (simp add: find_line_def)
  qed
  ultimately show ?thesis by simp
qed

definition sample_line_of :: "bytes \<Rightarrow> bytes" where
  "sample_line_of d = ''{\"ulpf\":{\"raw_id\":'' @ d @ ''}}''"

lemma sample_line_ids:
  "line_id (sample_line_of ''3'' @ [LF]) = Some 3" "line_id (sample_line_of ''7'' @ [LF]) = Some 7"
  "line_id (sample_line_of ''12'' @ [LF]) = Some 12"
  by (simp_all add: line_id_def sample_line_of_def parse_u64_def digits_val_def digit_val_def is_ascii_digit_def Let_def)

theorem find_line_exact_witness:
  "find_line ((outfile_open (out_lines [sample_line_of ''3'', sample_line_of ''7'', sample_line_of ''12''] @ ''{x''))
     \<lparr>of_disk := out_lines [sample_line_of ''3'', sample_line_of ''7'', sample_line_of ''12''] @ ''{x'' @ ''y''\<rparr>) 7 =
   Some (sample_line_of ''7'')"
proof -
  define ls where "ls = [sample_line_of ''3'', sample_line_of ''7'', sample_line_of ''12'']"
  have "list_all (\<lambda>l. LF \<notin> set l) ls" "LF \<notin> set ''{x''" unfolding ls_def by code_simp+
  moreover have "numbered ls [3, 7, 12]" by (simp add: numbered_def ls_def sample_line_ids)
  ultimately have "find_line ((outfile_open (out_lines ls @ ''{x''))\<lparr>of_disk := out_lines ls @ ''{x'' @ ''y''\<rparr>) 7 =
      (if (7 :: nat) \<in> set [3, 7, 12] then Some (ls ! ids_before 7 [3, 7, 12]) else None)"
    using find_line_exact [OF _ _ _ refl] by blast
  then have "find_line ((outfile_open (out_lines ls @ ''{x''))\<lparr>of_disk := out_lines ls @ ''{x'' @ ''y''\<rparr>) 7 = Some (sample_line_of ''7'')"
    by (simp add: ids_before_def ls_def)
  then show ?thesis unfolding ls_def .
qed

end
