(* ===== verification/Ulpf_Token.thy ===== *)
theory Ulpf_Token
  imports Ulpf_Pattern
begin

text \<open>
  The tokenizer of the inference engine, \<open>src/crates/ulpf-infer/src/token.rs\<close>. The regex crate is the
  parameter \<open>rx\<close>: where the first match of an anchored pattern ends. A match that consumed nothing would make
  the loop run forever, so the loop is a partial function and returning is part of the theorem.
\<close>

datatype tok_kind = TSpace | TPunct | TWord | TQuoted | TChain | TAtom slot_kind

definition is_variable :: "tok_kind \<Rightarrow> bool" where
  "is_variable k = (case k of TQuoted \<Rightarrow> True | TChain \<Rightarrow> True | TAtom _ \<Rightarrow> True | _ \<Rightarrow> False)"

record tok =
  tk_kind :: tok_kind
  tk_text :: bytes

type_synonym finder = "bytes \<Rightarrow> bytes \<Rightarrow> nat option"

definition atom_order :: "slot_kind list" where
  "atom_order = [KTimestamp, KMac, KIpv6, KIpv4, KHex, KFloat, KInt]"

definition atom_regex :: "slot_kind \<Rightarrow> bytes" where
  "atom_regex k =
     ''(?s-u)^(?:'' @
     (case k of KHex \<Rightarrow> ''0[xX][0-9A-Fa-f]+''
      | KFloat \<Rightarrow> ''[+-]?[0-9]+'' @ [CHR 0x5C] @ ''.[0-9]+''
      | k \<Rightarrow> kind_regex k False) @ '')''"

definition is_word_byte :: "byte \<Rightarrow> bool" where
  "is_word_byte b \<longleftrightarrow> is_ascii_alphanumeric b \<or> b = CHR ''_'' \<or> 128 \<le> bv b"

definition is_blank :: "byte \<Rightarrow> bool" where
  "is_blank b \<longleftrightarrow> b = CHR '' '' \<or> b = CHR 0x09"

definition get :: "bytes \<Rightarrow> nat \<Rightarrow> byte option" where
  "get xs i = (if i < length xs then Some (xs ! i) else None)"

definition none_or :: "(byte \<Rightarrow> bool) \<Rightarrow> byte option \<Rightarrow> bool" where
  "none_or P x = (case x of None \<Rightarrow> True | Some b \<Rightarrow> P b)"

definition some_and :: "(byte \<Rightarrow> bool) \<Rightarrow> byte option \<Rightarrow> bool" where
  "some_and P x = (case x of None \<Rightarrow> False | Some b \<Rightarrow> P b)"

definition strict :: "slot_kind \<Rightarrow> bytes \<Rightarrow> bytes \<Rightarrow> bool" where
  "strict kind t rest =
     (let nx = get rest 0; after = get rest 1;
          boundary = none_or (\<lambda>b. \<not> is_word_byte b) nx;
          continues_id = ((nx = Some (CHR ''.'') \<or> nx = Some (CHR ''-'')) \<and> some_and is_word_byte after) in
      case kind of
        KIpv4 \<Rightarrow> boundary \<and> \<not> (nx = Some (CHR ''.'') \<and> some_and is_ascii_digit after) \<and>
          list_all (\<lambda>p. length p \<le> 3 \<and> foldl (\<lambda>a d. a * 10 + (bv d - 48)) 0 p \<le> 255) (split_on (CHR ''.'') t)
      | KIpv6 \<Rightarrow>
          let colons = length (filter (\<lambda>b. b = CHR '':'') t); hex_digits = length (filter is_ascii_hexdigit t);
              ds = takeWhile is_ascii_digit (drop 1 rest);
              port_follows = (nx = Some (CHR '':'') \<and> some_and is_ascii_digit after \<and> length ds \<le> 5 \<and>
                none_or (\<lambda>b. \<not> is_word_byte b \<and> b \<noteq> CHR '':'') (get rest (1 + length ds))) in
          (boundary \<or> port_follows) \<and> 2 \<le> hex_digits \<and> (memmem ''::'' t \<noteq> None \<or> colons = 7)
      | KMac \<Rightarrow> boundary \<and> nx \<noteq> Some (CHR '':'')
      | KInt \<Rightarrow> boundary \<and> \<not> continues_id
      | KFloat \<Rightarrow> boundary \<and> \<not> continues_id
      | _ \<Rightarrow> boundary)"

text \<open>The end of the chain that starts at \<open>j\<close>, and its number of two-digit groups.\<close>

function chain_loop :: "bytes \<Rightarrow> nat \<Rightarrow> nat \<Rightarrow> nat \<times> nat" where
  "chain_loop body j groups =
     (if j + 2 \<le> length body \<and> is_ascii_hexdigit (body ! j) \<and> is_ascii_hexdigit (body ! (j + 1)) \<and>
         none_or (\<lambda>b. \<not> is_word_byte b) (get body (j + 2))
      then (if get body (j + 2) = Some (CHR '':'') \<and> some_and is_ascii_hexdigit (get body (j + 3))
            then chain_loop body (j + 3) (groups + 1) else (j + 2, groups + 1))
      else (j, groups))"
  by pat_completeness auto
termination by (relation "measure (\<lambda>(body, j, groups). length body - j)") auto

declare chain_loop.simps [simp del]

definition hex_chain :: "bytes \<Rightarrow> nat \<Rightarrow> nat option" where
  "hex_chain body i =
     (if 0 < i \<and> body ! (i - 1) = CHR '':'' then None
      else (case chain_loop body i 0 of (j, groups) \<Rightarrow> if 7 \<le> groups then Some (j - i) else None))"

fun group_loop :: "byte \<Rightarrow> bytes \<Rightarrow> nat \<Rightarrow> bool \<Rightarrow> nat option" where
  "group_loop close [] n letter = None"
| "group_loop close (b # r) n letter =
     (if b = close then (if letter \<and> 0 < n then Some (n + 2) else None)
      else if b = CHR '' '' \<or> b = CHR 0x09 \<or> b = CHR ''('' \<or> b = CHR ''['' \<or> b = CHR 0x22 then None
      else group_loop close r (n + 1) (letter \<or> is_ascii_alphabetic b))"

definition closing :: "byte \<Rightarrow> byte option" where
  "closing b = (if b = CHR ''('' then Some (CHR '')'') else if b = CHR ''['' then Some (CHR '']'') else None)"

definition bracket_group :: "bytes \<Rightarrow> nat \<Rightarrow> nat option" where
  "bracket_group body i =
     (case closing (body ! i) of Some close \<Rightarrow> group_loop close (drop (i + 1) body) 0 False | None \<Rightarrow> None)"

fun first_atom :: "finder \<Rightarrow> bool \<Rightarrow> bytes \<Rightarrow> slot_kind list \<Rightarrow> (slot_kind \<times> nat) option" where
  "first_atom rx after_colon r [] = None"
| "first_atom rx after_colon r (k # ks) =
     (if after_colon \<and> (k = KIpv6 \<or> k = KMac) then first_atom rx after_colon r ks
      else (case rx (atom_regex k) r of
              Some n \<Rightarrow> if strict k (take n r) (drop n r) then Some (k, n) else first_atom rx after_colon r ks
            | None \<Rightarrow> first_atom rx after_colon r ks))"

definition atom_at :: "finder \<Rightarrow> bytes \<Rightarrow> nat \<Rightarrow> (slot_kind \<times> nat) option" where
  "atom_at rx body i =
     (let b = body ! i in
      if is_ascii_alphanumeric b \<or> b = CHR ''+'' \<or> b = CHR ''-'' \<or> b = CHR ''*'' \<or> b = CHR ''.''
      then first_atom rx (0 < i \<and> body ! (i - 1) = CHR '':'') (drop i body) atom_order
      else None)"

text \<open>From the byte after the opening quote: how many bytes up to and with the closing one.\<close>

fun quote_loop :: "bytes \<Rightarrow> nat option" where
  "quote_loop [] = None"
| "quote_loop (b # r) =
     (if b = CHR 0x5C then (case r of [] \<Rightarrow> None | c # r' \<Rightarrow> map_option (\<lambda>n. n + 2) (quote_loop r'))
      else if b = CHR 0x22 then Some 1 else map_option Suc (quote_loop r))"

definition quoted_end :: "bytes \<Rightarrow> nat \<Rightarrow> nat option" where
  "quoted_end body start = map_option (\<lambda>n. start + 1 + n) (quote_loop (drop (start + 1) body))"

text \<open>Word bytes, and a dot or hyphen that a word byte follows.\<close>

fun word_len :: "bytes \<Rightarrow> nat" where
  "word_len [] = 0"
| "word_len (b # r) =
     (if is_word_byte b then Suc (word_len r)
      else if (b = CHR ''.'' \<or> b = CHR ''-'') \<and> some_and is_word_byte (get r 0) then Suc (word_len r)
      else 0)"

definition next_tok :: "finder \<Rightarrow> bytes \<Rightarrow> nat \<Rightarrow> tok \<times> nat" where
  "next_tok rx body i =
     (let b = body ! i; json = (get body 0 = Some (CHR ''{'')) in
      if is_blank b then
        let n = length (takeWhile is_blank (drop i body)) in (\<lparr>tk_kind = TSpace, tk_text = slice i (i + n) body\<rparr>, i + n)
      else (case hex_chain body i of
              Some n \<Rightarrow> (\<lparr>tk_kind = TChain, tk_text = slice i (i + n) body\<rparr>, i + n)
            | None \<Rightarrow>
      (case bracket_group body i of
              Some n \<Rightarrow> (\<lparr>tk_kind = TWord, tk_text = slice i (i + n) body\<rparr>, i + n)
            | None \<Rightarrow>
      (case atom_at rx body i of
              Some (k, n) \<Rightarrow> (\<lparr>tk_kind = TAtom k, tk_text = slice i (i + n) body\<rparr>, i + n)
            | None \<Rightarrow>
      (case (if b = CHR 0x22 then quoted_end body i else None) of
              Some e \<Rightarrow>
                (\<lparr>tk_kind = (if json \<and> get body e = Some (CHR '':'') then TWord else TQuoted), tk_text = slice i e body\<rparr>, e)
            | None \<Rightarrow>
      if is_word_byte b then
        let j = i + 1 + word_len (drop (i + 1) body) in (\<lparr>tk_kind = TWord, tk_text = slice i j body\<rparr>, j)
      else (\<lparr>tk_kind = TPunct, tk_text = slice i (i + 1) body\<rparr>, i + 1))))))"

partial_function (option) tok_loop :: "finder \<Rightarrow> bytes \<Rightarrow> nat \<Rightarrow> tok list \<Rightarrow> tok list option" where
  "tok_loop rx body i out =
     (if i < length body then
        (case next_tok rx body i of (t, j) \<Rightarrow> tok_loop rx body j (out @ [t]))
      else Some out)"

definition tokenize :: "finder \<Rightarrow> bytes \<Rightarrow> tok list option" where
  "tokenize rx body = tok_loop rx body 0 []"

definition ip_like :: "slot_kind \<Rightarrow> bool" where
  "ip_like k \<longleftrightarrow> k = KIp \<or> k = KIpv4 \<or> k = KIpv6"

definition num_like :: "slot_kind \<Rightarrow> bool" where
  "num_like k \<longleftrightarrow> k = KInt \<or> k = KFloat \<or> k = KPort"

definition same_shape :: "tok_kind \<Rightarrow> bytes \<Rightarrow> tok_kind \<Rightarrow> bytes \<Rightarrow> bool" where
  "same_shape a ta b tb =
     (case (a, b) of
        (TSpace, TSpace) \<Rightarrow> True | (TQuoted, TQuoted) \<Rightarrow> True | (TChain, TChain) \<Rightarrow> True
      | (TWord, TWord) \<Rightarrow> ta = tb | (TPunct, TPunct) \<Rightarrow> ta = tb
      | (TAtom x, TAtom y) \<Rightarrow> x = y \<or> (ip_like x \<and> ip_like y) \<or> (num_like x \<and> num_like y)
      | _ \<Rightarrow> False)"

subsection \<open>What a token of each kind is\<close>

definition quoted_text :: "bytes \<Rightarrow> bool" where
  "quoted_text t \<longleftrightarrow> 2 \<le> length t \<and> hd t = CHR 0x22 \<and> last t = CHR 0x22"

definition group_text :: "bytes \<Rightarrow> bool" where
  "group_text t \<longleftrightarrow> (\<exists>close inner. t \<noteq> [] \<and> closing (hd t) = Some close \<and> t = hd t # inner @ [close] \<and>
     list_ex is_ascii_alphabetic inner \<and> list_all (\<lambda>b. b \<noteq> close \<and> \<not> is_blank b) inner)"

definition word_text :: "bytes \<Rightarrow> bytes \<Rightarrow> bool" where
  "word_text t rest \<longleftrightarrow> t \<noteq> [] \<and> is_word_byte (hd t) \<and> is_word_byte (last t) \<and>
     list_all (\<lambda>b. is_word_byte b \<or> b = CHR ''.'' \<or> b = CHR ''-'') t \<and> none_or (\<lambda>b. \<not> is_word_byte b) (get rest 0)"

definition chain_text :: "bytes \<Rightarrow> bool" where
  "chain_text t \<longleftrightarrow> 20 \<le> length t \<and> list_all (\<lambda>b. is_ascii_hexdigit b \<or> b = CHR '':'') t"

text \<open>\<open>rest\<close> is what follows the token in the line.\<close>

definition tok_ok :: "finder \<Rightarrow> bool \<Rightarrow> tok \<Rightarrow> bytes \<Rightarrow> bool" where
  "tok_ok rx json t rest \<longleftrightarrow>
     (case tk_kind t of
        TSpace \<Rightarrow> tk_text t \<noteq> [] \<and> list_all is_blank (tk_text t) \<and> none_or (\<lambda>b. \<not> is_blank b) (get rest 0)
      | TPunct \<Rightarrow> (\<exists>b. tk_text t = [b] \<and> \<not> is_blank b \<and> \<not> is_word_byte b)
      | TWord \<Rightarrow> word_text (tk_text t) rest \<or> group_text (tk_text t) \<or>
          json \<and> quoted_text (tk_text t) \<and> get rest 0 = Some (CHR '':'')
      | TQuoted \<Rightarrow> quoted_text (tk_text t)
      | TChain \<Rightarrow> chain_text (tk_text t)
      | TAtom k \<Rightarrow> k \<in> set atom_order \<and> rx (atom_regex k) (tk_text t @ rest) = Some (length (tk_text t)) \<and>
          strict k (tk_text t) rest)"

fun toks_ok :: "finder \<Rightarrow> bool \<Rightarrow> tok list \<Rightarrow> bool" where
  "toks_ok rx json [] \<longleftrightarrow> True"
| "toks_ok rx json (t # ts) \<longleftrightarrow> tok_ok rx json t (concat (map tk_text ts)) \<and> toks_ok rx json ts"

definition finder_ok :: "finder \<Rightarrow> bool" where
  "finder_ok rx \<longleftrightarrow> (\<forall>k s n. rx (atom_regex k) s = Some n \<longrightarrow> 0 < n \<and> n \<le> length s)"

lemma chain_loop_spec:
  "chain_loop body j g = (j1, g1) \<Longrightarrow> j \<le> length body \<Longrightarrow> j \<le> j1 \<and> j1 \<le> length body \<and> g \<le> g1 \<and>
    3 * (g1 - g) \<le> j1 - j + 1 \<and> (g1 = g \<longrightarrow> j1 = j) \<and>
    (\<forall>k. j \<le> k \<and> k < j1 \<longrightarrow> is_ascii_hexdigit (body ! k) \<or> body ! k = CHR '':'')"
proof (induction body j g rule: chain_loop.induct)
  case (1 body j g)
  show ?case
  proof (cases "j + 2 \<le> length body \<and> is_ascii_hexdigit (body ! j) \<and> is_ascii_hexdigit (body ! (j + 1)) \<and>
      none_or (\<lambda>b. \<not> is_word_byte b) (get body (j + 2))")
    case False
    then show ?thesis using 1(2,3) by (auto simp: chain_loop.simps [of body j])
  next
    case pair: True
    have two: "is_ascii_hexdigit (body ! k)" if "j \<le> k" "k < j + 2" for k
      using pair that by (cases "k = j") (auto simp: less_Suc_eq)
    show ?thesis
    proof (cases "get body (j + 2) = Some (CHR '':'') \<and> some_and is_ascii_hexdigit (get body (j + 3))")
      case True
      then have rec: "chain_loop body (j + 3) (g + 1) = (j1, g1)" using 1(2) pair by (simp add: chain_loop.simps [of body j])
      have len: "j + 3 < length body" "body ! (j + 2) = CHR '':''"
        using True by (auto simp: get_def some_and_def split: if_splits)
      from 1(1) [OF pair True rec] len(1) have ih: "j + 3 \<le> j1" "j1 \<le> length body" "g + 1 \<le> g1" "3 * (g1 - (g + 1)) \<le> j1 - (j + 3) + 1"
        "\<And>k. j + 3 \<le> k \<Longrightarrow> k < j1 \<Longrightarrow> is_ascii_hexdigit (body ! k) \<or> body ! k = CHR '':''" by auto
      have "is_ascii_hexdigit (body ! k) \<or> body ! k = CHR '':''" if "j \<le> k" "k < j1" for k
      proof -
        consider "k < j + 2" | "k = j + 2" | "j + 3 \<le> k" by linarith
        then show ?thesis by cases (use two that len(2) ih(5) in auto)
      qed
      then show ?thesis using ih by auto
    next
      case False
      then have "j1 = j + 2" "g1 = g + 1" using 1(2) pair by (auto simp: chain_loop.simps [of body j])
      then show ?thesis using pair two by auto
    qed
  qed
qed

lemma hex_chain_ok:
  assumes "hex_chain body i = Some n" "i < length body"
  shows "0 < n \<and> i + n \<le> length body \<and> chain_text (slice i (i + n) body)"
proof -
  obtain j g where l: "chain_loop body i 0 = (j, g)" by fastforce
  with assms(1) have g: "7 \<le> g" "n = j - i" by (auto simp: hex_chain_def split: if_splits)
  from chain_loop_spec [OF l] assms(2) g have s: "i \<le> j" "j \<le> length body" "20 \<le> j - i"
    "\<forall>k. i \<le> k \<and> k < j \<longrightarrow> is_ascii_hexdigit (body ! k) \<or> body ! k = CHR '':''" by auto
  then have "chain_text (slice i j body)"
    by (auto simp: chain_text_def list_all_length slice_nth)
  with s g show ?thesis by simp
qed

lemma group_loop_ok:
  "group_loop close r n letter = Some k \<Longrightarrow>
    \<exists>inner. r = inner @ close # drop (length inner + 1) r \<and> k = n + length inner + 2 \<and> 0 < n + length inner \<and>
      (letter \<or> list_ex is_ascii_alphabetic inner) \<and> list_all (\<lambda>b. b \<noteq> close \<and> \<not> is_blank b) inner"
proof (induction close r n letter rule: group_loop.induct)
  case (2 close b r n letter)
  show ?case
  proof (cases "b = close")
    case True
    then show ?thesis using 2(2) by (intro exI [of _ "[]"]) (auto split: if_splits)
  next
    case False
    with 2(2) have c: "\<not> (b = CHR '' '' \<or> b = CHR 0x09 \<or> b = CHR ''('' \<or> b = CHR ''['' \<or> b = CHR 0x22)"
      "group_loop close r (n + 1) (letter \<or> is_ascii_alphabetic b) = Some k" by (auto split: if_splits)
    from 2(1) [OF False c] obtain inner where
      "r = inner @ close # drop (length inner + 1) r" "k = n + 1 + length inner + 2"
      "(letter \<or> is_ascii_alphabetic b) \<or> list_ex is_ascii_alphabetic inner"
      "list_all (\<lambda>b. b \<noteq> close \<and> \<not> is_blank b) inner" by blast
    then show ?thesis using False c(1) by (intro exI [of _ "b # inner"]) (auto simp: is_blank_def)
  qed
qed simp

lemma bracket_group_ok:
  assumes "bracket_group body i = Some n" "i < length body"
  shows "0 < n \<and> i + n \<le> length body \<and> group_text (slice i (i + n) body)"
proof -
  from assms(1) obtain close where c: "closing (body ! i) = Some close" "group_loop close (drop (i + 1) body) 0 False = Some n"
    by (auto simp: bracket_group_def split: option.splits)
  from group_loop_ok [OF c(2)] obtain inner where
    r: "drop (i + 1) body = inner @ close # drop (length inner + 1) (drop (i + 1) body)" "n = length inner + 2"
      "list_ex is_ascii_alphabetic inner" "list_all (\<lambda>b. b \<noteq> close \<and> \<not> is_blank b) inner" by auto
  have "drop i body = body ! i # inner @ close # drop (length inner + 1) (drop (i + 1) body)"
    using r(1) assms(2) by (metis Cons_nth_drop_Suc Suc_eq_plus1)
  then have t: "slice i (i + n) body = body ! i # inner @ [close]" by (simp add: slice_def r(2))
  then have "group_text (slice i (i + n) body)" using c(1) r(3,4) by (auto simp: group_text_def)
  moreover have "i + n \<le> length body" using arg_cong [OF r(1), of length] r(2) assms(2) by simp
  ultimately show ?thesis using r(2) by simp
qed

lemma first_atom_ok:
  "first_atom rx ac r ks = Some (k, n) \<Longrightarrow> k \<in> set ks \<and> rx (atom_regex k) r = Some n \<and> strict k (take n r) (drop n r)"
  by (induction rx ac r ks rule: first_atom.induct) (auto split: if_splits option.splits)

lemma quote_loop_ok: "quote_loop r = Some n \<Longrightarrow> 0 < n \<and> n \<le> length r \<and> r ! (n - 1) = CHR 0x22"
proof (induction r arbitrary: n rule: quote_loop.induct)
  case (2 b r)
  show ?case
  proof (cases "b = CHR 0x5C")
    case True
    with 2(3) obtain c r' m where "r = c # r'" "quote_loop r' = Some m" "n = m + 2" by (auto split: list.splits)
    with 2(1) [OF True, of c r' m] show ?thesis by (cases m) auto
  next
    case no: False
    show ?thesis
    proof (cases "b = CHR 0x22")
      case True
      with 2(3) no show ?thesis by simp
    next
      case False
      with 2(3) no obtain m where "quote_loop r = Some m" "n = Suc m" by auto
      with 2(2) [OF no False] show ?thesis by (cases m) auto
    qed
  qed
qed simp

lemma word_len_ok:
  "word_len r \<le> length r \<and> list_all (\<lambda>b. is_word_byte b \<or> b = CHR ''.'' \<or> b = CHR ''-'') (take (word_len r) r) \<and>
    (0 < word_len r \<longrightarrow> is_word_byte (last (take (word_len r) r))) \<and> none_or (\<lambda>b. \<not> is_word_byte b) (get (drop (word_len r) r) 0)"
proof (induction r)
  case Nil
  show ?case by (simp add: none_or_def get_def)
next
  case (Cons b r)
  have "0 < word_len r" if "some_and is_word_byte (get r 0)"
    using that by (cases r) (auto simp: some_and_def get_def)
  with Cons show ?case
    by (cases "is_word_byte b") (auto simp: none_or_def get_def)
qed

lemma quoted_end_ok:
  assumes "quoted_end body i = Some e" "body ! i = CHR 0x22" "i < length body"
  shows "i < e \<and> e \<le> length body \<and> quoted_text (slice i e body)"
proof -
  from assms(1) obtain n where n: "quote_loop (drop (i + 1) body) = Some n" "e = i + 1 + n" by (auto simp: quoted_end_def)
  from quote_loop_ok [OF n(1)] assms(3) have q: "0 < n" "i + 1 + n \<le> length body" "body ! (i + n) = CHR 0x22"
    by (auto simp: nth_drop)
  let ?t = "slice i e body"
  have len: "length ?t = n + 1" using q n(2) by (simp add: slice_def)
  then have ne: "?t \<noteq> []" by (metis add_is_0 list.size(3) one_neq_zero)
  have "hd ?t = body ! i" "last ?t = body ! (i + n)"
    using q n(2) len ne by (simp_all add: hd_conv_nth last_conv_nth slice_nth)
  then show ?thesis using len q n(2) assms(2) by (simp add: quoted_text_def)
qed

lemma next_tok_ok:
  assumes "finder_ok rx" "i < length body" "next_tok rx body i = (t, j)"
  shows "i < j \<and> j \<le> length body \<and> tk_text t = slice i j body \<and>
    tok_ok rx (get body 0 = Some (CHR ''{'')) t (drop j body)"
proof -
  let ?b = "body ! i" and ?r = "drop i body"
  have r: "?r = ?b # drop (i + 1) body" using assms(2) by (simp add: Cons_nth_drop_Suc)
  show ?thesis
  proof (cases "is_blank ?b")
    case True
    let ?n = "length (takeWhile is_blank ?r)"
    have t: "t = \<lparr>tk_kind = TSpace, tk_text = slice i (i + ?n) body\<rparr>" "j = i + ?n"
      using assms(3) True by (auto simp: next_tok_def Let_def)
    have n: "0 < ?n" using r True by simp
    have le: "?n \<le> length ?r" by (rule length_takeWhile_le)
    have sl: "slice i (i + ?n) body = takeWhile is_blank ?r" by (simp add: slice_def takeWhile_eq_take [symmetric])
    have "none_or (\<lambda>b. \<not> is_blank b) (get (drop j body) 0)"
      using nth_length_takeWhile [of is_blank ?r] by (auto simp: none_or_def get_def t(2))
    moreover have "takeWhile is_blank ?r \<noteq> []" using n by auto
    moreover have "list_all is_blank (takeWhile is_blank ?r)" by (auto simp: list_all_iff dest: set_takeWhileD)
    ultimately show ?thesis using n le assms(2) t sl by (simp add: tok_ok_def)
  next
    case nb: False
    show ?thesis
    proof (cases "hex_chain body i")
      case (Some n)
      then show ?thesis using assms(3) nb hex_chain_ok [OF Some assms(2)] by (auto simp: next_tok_def tok_ok_def)
    next
      case nc: None
      show ?thesis
      proof (cases "bracket_group body i")
        case (Some n)
        then show ?thesis using assms(3) nb nc bracket_group_ok [OF Some assms(2)] by (auto simp: next_tok_def tok_ok_def)
      next
        case ng: None
        show ?thesis
        proof (cases "atom_at rx body i")
          case (Some a)
          obtain k n where a: "a = (k, n)" by fastforce
          from Some a have "first_atom rx (0 < i \<and> body ! (i - 1) = CHR '':'') ?r atom_order = Some (k, n)"
            by (simp add: atom_at_def Let_def split: if_splits)
          from first_atom_ok [OF this]
          have f: "k \<in> set atom_order" "rx (atom_regex k) ?r = Some n" "strict k (take n ?r) (drop n ?r)" by blast+
          from assms(1) f(2) have n: "0 < n" "n \<le> length ?r" unfolding finder_ok_def by blast+
          have t: "t = \<lparr>tk_kind = TAtom k, tk_text = slice i (i + n) body\<rparr>" "j = i + n"
            using assms(3) nb nc ng Some a by (auto simp: next_tok_def Let_def)
          have sl: "slice i (i + n) body = take n ?r" "drop j body = drop n ?r" by (simp_all add: slice_def t(2) add.commute)
          have "rx (atom_regex k) (take n ?r @ drop n ?r) = Some n" using f(2) by (simp only: append_take_drop_id)
          then have "tok_ok rx (get body 0 = Some (CHR ''{'')) \<lparr>tk_kind = TAtom k, tk_text = take n ?r\<rparr> (drop n ?r)"
            using f n by (simp add: tok_ok_def del: drop_drop)
          moreover have "i + n \<le> length body" using n assms(2) by simp
          ultimately show ?thesis using t n sl by (simp del: drop_drop)
        next
          case na: None
          show ?thesis
          proof (cases "if ?b = CHR 0x22 then quoted_end body i else None")
            case (Some e)
            then have q: "?b = CHR 0x22" "quoted_end body i = Some e" by (auto split: if_splits)
            from quoted_end_ok [OF q(2,1) assms(2)] have e: "i < e" "e \<le> length body" "quoted_text (slice i e body)" by auto
            have "t = \<lparr>tk_kind = (if get body 0 = Some (CHR ''{'') \<and> get body e = Some (CHR '':'') then TWord else TQuoted),
                tk_text = slice i e body\<rparr>" "j = e"
              using assms(3) nb nc ng na Some by (auto simp: next_tok_def Let_def)
            moreover have "get (drop e body) 0 = get body e" by (auto simp: get_def)
            ultimately show ?thesis using e by (simp add: tok_ok_def)
          next
            case nq: None
            show ?thesis
            proof (cases "is_word_byte ?b")
              case True
              let ?d = "drop (i + 1) body" and ?w = "word_len (drop (i + 1) body)"
              have t: "t = \<lparr>tk_kind = TWord, tk_text = slice i (i + 1 + ?w) body\<rparr>" "j = i + 1 + ?w"
                using assms(3) nb nc ng na nq True by (auto simp: next_tok_def Let_def)
              have sl: "slice i (i + 1 + ?w) body = ?b # take ?w ?d" using r by (simp add: slice_def)
              note w = word_len_ok [of ?d]
              have "is_word_byte (last (?b # take ?w ?d))" using w True by (cases "?w = 0") auto
              moreover have "drop j body = drop ?w ?d" by (simp add: t(2) add.commute add.left_commute)
              ultimately have "word_text (?b # take ?w ?d) (drop j body)" using w True by (simp add: word_text_def)
              then show ?thesis using t sl w assms(2) by (auto simp: tok_ok_def)
            next
              case False
              have "t = \<lparr>tk_kind = TPunct, tk_text = slice i (i + 1) body\<rparr>" "j = i + 1"
                using assms(3) nb nc ng na nq False by (auto simp: next_tok_def Let_def)
              moreover have "slice i (i + 1) body = [?b]" using r by (simp add: slice_def)
              ultimately show ?thesis using nb False assms(2) by (simp add: tok_ok_def)
            qed
          qed
        qed
      qed
    qed
  qed
qed

lemma toks_ok_text: "concat (map tk_text ts) = r \<Longrightarrow> toks_ok rx json (t # ts) \<longleftrightarrow> tok_ok rx json t r \<and> toks_ok rx json ts"
  by simp

lemma tok_loop_returns:
  assumes "finder_ok rx" "i \<le> length body"
  shows "\<exists>ts. tok_loop rx body i out = Some (out @ ts) \<and> concat (map tk_text ts) = drop i body \<and>
    toks_ok rx (get body 0 = Some (CHR ''{'')) ts"
  using assms(2)
proof (induction "length body - i" arbitrary: i out rule: less_induct)
  case less
  show ?case
  proof (cases "i < length body")
    case False
    then show ?thesis by (intro exI [of _ "[]"]) (simp add: tok_loop.simps [of rx body i])
  next
    case True
    obtain t j where t: "next_tok rx body i = (t, j)" by fastforce
    note n = next_tok_ok [OF assms(1) True t]
    have "length body - j < length body - i" using n True by linarith
    from less(1) [OF this, of "out @ [t]"] n obtain ts where
      ts: "tok_loop rx body j (out @ [t]) = Some ((out @ [t]) @ ts)" "concat (map tk_text ts) = drop j body"
      "toks_ok rx (get body 0 = Some (CHR ''{'')) ts" by blast
    have "slice i j body @ drop j body = drop i body"
      using n by (simp add: slice_def) (metis append_take_drop_id drop_drop le_add_diff_inverse2 less_imp_le)
    then show ?thesis using n ts t True by (intro exI [of _ "t # ts"]) (simp add: tok_loop.simps [of rx body i])
  qed
qed

text \<open>
  C17. Every line has a well-typed tokenization. If no match of an atom's regex is empty or passes the end of the
  line, the tokenizer returns; the texts of its tokens put together are the line, so no byte is lost or
  seen twice, and every token is what its kind says: spaces are maximal runs of blanks, punctuation is one
  byte that is neither blank nor part of a word, a word starts and ends on a word byte at a boundary (or
  is a bracketed group with a letter, or a quoted JSON key before its colon), a quoted string has both its
  quotes, a chain is at least seven groups long, and an atom is exactly what its regex matches there and
  passes the strict test with what follows.
\<close>

theorem tokenize_typed:
  assumes "finder_ok rx"
  shows "\<exists>ts. tokenize rx body = Some ts \<and> concat (map tk_text ts) = body \<and> toks_ok rx (get body 0 = Some (CHR ''{'')) ts"
  using tok_loop_returns [OF assms, of 0 body "[]"] by (simp add: tokenize_def)

text \<open>A finder that knows integers: a run of digits.\<close>

definition int_finder :: finder where
  "int_finder p s =
     (let n = length (takeWhile is_ascii_digit s) in if p = atom_regex KInt \<and> 0 < n then Some n else None)"

theorem tokenize_typed_witness:
  "\<exists>ts. tokenize int_finder ''port 80 [x]'' = Some ts \<and> concat (map tk_text ts) = ''port 80 [x]'' \<and>
     toks_ok int_finder False ts"
proof -
  have "finder_ok int_finder" by (auto simp: finder_ok_def int_finder_def Let_def length_takeWhile_le split: if_splits)
  from tokenize_typed [OF this, of "''port 80 [x]''"] show ?thesis by (simp add: get_def)
qed

end
