(* ===== verification/Ulpf_Filter.thy ===== *)
theory Ulpf_Filter
  imports Ulpf_Prelude "HOL-Library.List_Lexorder" "HOL-Library.Char_ord"
begin

text \<open>
  Which files are ingested, the filter of \<open>src/crates/ulpf/src/engine.rs\<close>: shell patterns, includes and
  excludes, and the walk over a directory. The file system is a tree; a directory that cannot be read
  and a path that is not text are outside the model.
\<close>

abbreviation slash :: byte where
  "slash \<equiv> CHR ''/''"

subsection \<open>Patterns\<close>

function glob_go :: "bytes \<Rightarrow> bytes \<Rightarrow> bool" where
  "glob_go p s =
     (case p of
        [] \<Rightarrow> s = []
      | c # r \<Rightarrow>
          if c = CHR ''*'' then
            (case r of
               d # r2 \<Rightarrow>
                 if d = CHR ''*'' then list_ex (\<lambda>i. glob_go r2 (drop i s)) [0..<length s + 1]
                 else list_ex (\<lambda>i. glob_go r (drop i s)) [0..<(case position (\<lambda>x. x = slash) s of Some n \<Rightarrow> n | None \<Rightarrow> length s) + 1]
             | [] \<Rightarrow> list_ex (\<lambda>i. glob_go r (drop i s)) [0..<(case position (\<lambda>x. x = slash) s of Some n \<Rightarrow> n | None \<Rightarrow> length s) + 1])
          else if c = CHR ''?'' then (case s of [] \<Rightarrow> False | x # t \<Rightarrow> x \<noteq> slash \<and> glob_go r t)
          else (case s of [] \<Rightarrow> False | x # t \<Rightarrow> x = c \<and> glob_go r t))"
  by pat_completeness auto
termination by (relation "measure (\<lambda>(p, s). length p)") auto

declare glob_go.simps [simp del]

text \<open>Where a single star has to stop.\<close>

definition star_limit :: "bytes \<Rightarrow> nat" where
  "star_limit s = (case position (\<lambda>x. x = slash) s of Some n \<Rightarrow> n | None \<Rightarrow> length s)"

lemma glob_go_Nil [simp]: "glob_go [] s \<longleftrightarrow> s = []"
  by (simp add: glob_go.simps [of "[]" s])

lemma upto_ex: "list_ex P [0..<n + 1] \<longleftrightarrow> (\<exists>i\<le>n. P i)"
  by (auto simp: list_ex_iff less_Suc_eq_le simp del: upt_Suc)

lemma glob_go_any: "glob_go (CHR ''*'' # CHR ''*'' # p) s \<longleftrightarrow> (\<exists>i\<le>length s. glob_go p (drop i s))"
  by (simp only: glob_go.simps [of "CHR ''*'' # CHR ''*'' # p" s] list.case if_True upto_ex refl)

lemma glob_go_run:
  assumes "\<not> prefix ''*'' p"
  shows "glob_go (CHR ''*'' # p) s \<longleftrightarrow> (\<exists>i\<le>star_limit s. glob_go p (drop i s))"
proof (cases p)
  case Nil
  show ?thesis by (simp only: glob_go.simps [of "[CHR ''*'']" s] Nil list.case if_True upto_ex star_limit_def refl)
next
  case (Cons d r)
  with assms have "(d = CHR ''*'') = False" by auto
  then show ?thesis by (simp only: glob_go.simps [of "CHR ''*'' # d # r" s] Cons list.case if_True if_False upto_ex star_limit_def refl)
qed

lemma glob_go_one: "glob_go (CHR ''?'' # p) s \<longleftrightarrow> (\<exists>x t. s = x # t \<and> x \<noteq> slash \<and> glob_go p t)"
  by (simp add: glob_go.simps [of "CHR ''?'' # p" s] split: list.split)

lemma glob_go_lit:
  "c \<noteq> CHR ''*'' \<Longrightarrow> c \<noteq> CHR ''?'' \<Longrightarrow> glob_go (c # p) s \<longleftrightarrow> (\<exists>t. s = c # t \<and> glob_go p t)"
  by (auto simp: glob_go.simps [of "c # p" s] split: list.split)

lemmas glob_go_cases = glob_go_any glob_go_run glob_go_one glob_go_lit

definition glob_match :: "bytes \<Rightarrow> bytes \<Rightarrow> bool" where
  "glob_match pattern path = glob_go pattern path"

text \<open>
  What a pattern means, as a relation over the bytes of a path. A \<open>?\<close> stands for one byte that is not a slash, where the
  comment of \<open>glob_match\<close> and the shell have one character.
\<close>

inductive globs :: "bytes \<Rightarrow> bytes \<Rightarrow> bool" where
  globs_end: "globs [] []"
| globs_any: "globs p t \<Longrightarrow> globs (CHR ''*'' # CHR ''*'' # p) (u @ t)"
| globs_run: "globs p t \<Longrightarrow> slash \<notin> set u \<Longrightarrow> \<not> prefix ''*'' p \<Longrightarrow> globs (CHR ''*'' # p) (u @ t)"
| globs_one: "globs p t \<Longrightarrow> x \<noteq> slash \<Longrightarrow> globs (CHR ''?'' # p) (x # t)"
| globs_lit: "globs p t \<Longrightarrow> c \<noteq> CHR ''*'' \<Longrightarrow> c \<noteq> CHR ''?'' \<Longrightarrow> globs (c # p) (c # t)"

lemma globs_go: "globs p s \<Longrightarrow> glob_go p s"
proof (induction rule: globs.induct)
  case globs_end
  show ?case by (simp add: glob_go.simps)
next
  case (globs_any p t u)
  then have "\<exists>i\<le>length (u @ t). glob_go p (drop i (u @ t))" by (intro exI [of _ "length u"]) simp
  then show ?case by (simp add: glob_go_cases)
next
  case (globs_run p t u)
  have "length u \<le> star_limit (u @ t)"
  proof (cases "position (\<lambda>x. x = slash) (u @ t)")
    case (Some n)
    from position_SomeD [OF this] globs_run(2) have "\<not> n < length u" by (metis nth_append nth_mem)
    with Some show ?thesis by (simp add: star_limit_def)
  qed (simp add: star_limit_def)
  then have "\<exists>i\<le>star_limit (u @ t). glob_go p (drop i (u @ t))" using globs_run by (intro exI [of _ "length u"]) simp
  with globs_run(3) show ?case by (simp add: glob_go_cases)
qed (simp_all add: glob_go_cases)

lemma go_globs: "glob_go p s \<Longrightarrow> globs p s"
proof (induction "length p" arbitrary: p s rule: less_induct)
  case less
  have parts: "s = take i s @ drop i s" for i by simp
  show ?case
  proof (cases p)
    case Nil
    with less(2) show ?thesis by (simp add: glob_go_cases globs_end)
  next
    case (Cons c r)
    show ?thesis
    proof (cases "c = CHR ''*''")
      case star: True
      show ?thesis
      proof (cases "\<exists>r2. r = CHR ''*'' # r2")
        case True
        then obtain r2 where r2: "r = CHR ''*'' # r2" by blast
        with less(2) Cons star obtain i where "glob_go r2 (drop i s)" by (auto simp: glob_go_cases)
        with less(1) [of r2 "drop i s"] Cons r2 have "globs r2 (drop i s)" by simp
        from globs_any [OF this, of "take i s"] show ?thesis using Cons star r2 by simp
      next
        case False
        have np: "\<not> prefix ''*'' r" using False by (cases r) auto
        with less(2) Cons star obtain i where i: "i \<le> star_limit s" "glob_go r (drop i s)" by (auto simp: glob_go_cases)
        have "slash \<notin> set (take i s)"
        proof (cases "position (\<lambda>x. x = slash) s")
          case None
          then show ?thesis by (auto simp: position_None dest: in_set_takeD)
        next
          case (Some n)
          from position_SomeD [OF this] i(1) Some show ?thesis by (auto simp: star_limit_def in_set_conv_nth)
        qed
        moreover have "globs r (drop i s)" using less(1) [of r "drop i s"] Cons i(2) by simp
        ultimately show ?thesis using np globs_run [of r "drop i s" "take i s"] Cons star by simp
      qed
    next
      case lit: False
      obtain x t where s: "s = x # t" "glob_go r t" "if c = CHR ''?'' then x \<noteq> slash else x = c"
        using less(2) Cons lit by (cases "c = CHR ''?''") (auto simp: glob_go_cases)
      have "globs r t" using less(1) [of r t] Cons s(2) by simp
      then show ?thesis using s(1,3) Cons lit by (auto intro: globs_one globs_lit split: if_splits)
    qed
  qed
qed

lemma glob_match_iff: "glob_match p s \<longleftrightarrow> globs p s"
  using globs_go go_globs by (auto simp: glob_match_def)

subsection \<open>Includes and excludes\<close>

record filter_rules =
  fl_include :: "bytes list"
  fl_exclude :: "bytes list"

definition default_excludes :: "bytes list" where
  "default_excludes = [''*.md'', ''README*'', ''.*'', ''*.truth.tsv'', ''*.expected.jsonl'']"

definition default_filter :: filter_rules where
  "default_filter = \<lparr>fl_include = [], fl_exclude = default_excludes\<rparr>"

definition matches_path :: "bytes \<Rightarrow> bytes \<Rightarrow> bool" where
  "matches_path pattern rel \<longleftrightarrow> glob_match pattern rel \<or> (slash \<notin> set pattern \<and> glob_match pattern (last (split_on slash rel)))"

definition reject_dir :: "filter_rules \<Rightarrow> bytes \<Rightarrow> bytes option" where
  "reject_dir fl rel = List.find (\<lambda>p. matches_path p rel) (fl_exclude fl)"

definition reject :: "filter_rules \<Rightarrow> bytes \<Rightarrow> bytes option" where
  "reject fl rel =
     (case reject_dir fl rel of
        Some p \<Rightarrow> Some p
      | None \<Rightarrow>
          if fl_include fl = [] \<or> list_ex (\<lambda>p. matches_path p rel) (fl_include fl) then None
          else Some ''no --include match'')"

subsection \<open>The walk\<close>

text \<open>
  A name in a directory holds a file or a directory; a symbolic link counts as a file. A path is the list
  of its components, which is how paths compare and sort; patterns see the components joined by a slash.
\<close>

datatype entry = Plain | Dir "(bytes \<times> entry) list"

fun rel_text :: "bytes list \<Rightarrow> bytes" where
  "rel_text [] = []"
| "rel_text [n] = n"
| "rel_text (n # ns) = n @ slash # rel_text ns"

fun walk_tree :: "bytes list \<Rightarrow> bytes list \<Rightarrow> (bytes \<times> entry) list \<Rightarrow> filter_rules \<Rightarrow> bytes list list \<Rightarrow> (bytes list \<times> bytes) list \<Rightarrow>
    bytes list list \<times> (bytes list \<times> bytes) list"
and walk_entry :: "bytes list \<Rightarrow> bytes list \<Rightarrow> entry \<Rightarrow> filter_rules \<Rightarrow> bytes list list \<Rightarrow> (bytes list \<times> bytes) list \<Rightarrow>
    bytes list list \<times> (bytes list \<times> bytes) list" where
  "walk_tree root rel [] fl out excluded = (out, excluded)"
| "walk_tree root rel ((name, e) # es) fl out excluded =
     (case walk_entry root (rel @ [name]) e fl out excluded of (out1, ex1) \<Rightarrow> walk_tree root rel es fl out1 ex1)"
| "walk_entry root rel (Dir es) fl out excluded =
     (case reject_dir fl (rel_text rel) of
        Some reason \<Rightarrow> (out, excluded @ [(root @ rel, reason)])
      | None \<Rightarrow> walk_tree root rel es fl out excluded)"
| "walk_entry root rel Plain fl out excluded =
     (case reject fl (rel_text rel) of
        Some reason \<Rightarrow> (out, excluded @ [(root @ rel, reason)])
      | None \<Rightarrow> (out @ [root @ rel], excluded))"

text \<open>An input is a path with what is there.\<close>

fun gather :: "filter_rules \<Rightarrow> (bytes list \<times> entry) list \<Rightarrow> bytes list list \<Rightarrow> (bytes list \<times> bytes) list \<Rightarrow>
    bytes list list \<times> (bytes list \<times> bytes) list" where
  "gather fl [] files excluded = (files, excluded)"
| "gather fl ((p, Dir es) # ins) files excluded =
     (case walk_tree p [] es fl files excluded of (files1, ex1) \<Rightarrow> gather fl ins files1 ex1)"
| "gather fl ((p, Plain) # ins) files excluded = gather fl ins (files @ [p]) excluded"

definition collect_inputs :: "(bytes list \<times> entry) list \<Rightarrow> filter_rules \<Rightarrow> bytes list list \<times> (bytes list \<times> bytes) list" where
  "collect_inputs inputs fl =
     (case gather fl inputs [] [] of
        (files, excluded) \<Rightarrow> (remdups_adj (sort files), remdups_adj (sort_key fst (sort_key snd excluded))))"

text \<open>What is meant: every file below a directory with the directories on the way to it.\<close>

fun files_under :: "bytes list \<Rightarrow> (bytes \<times> entry) list \<Rightarrow> (bytes list \<times> bytes list list) list"
and files_of :: "bytes list \<Rightarrow> entry \<Rightarrow> (bytes list \<times> bytes list list) list" where
  "files_under rel [] = []"
| "files_under rel ((name, e) # es) = files_of (rel @ [name]) e @ files_under rel es"
| "files_of rel (Dir es) = map (\<lambda>(p, ds). (p, rel # ds)) (files_under rel es)"
| "files_of rel Plain = [(rel, [])]"

definition taken :: "filter_rules \<Rightarrow> bytes list \<times> bytes list list \<Rightarrow> bool" where
  "taken fl it \<longleftrightarrow> reject fl (rel_text (fst it)) = None \<and> (\<forall>d \<in> set (snd it). reject_dir fl (rel_text d) = None)"

lemma taken_dir: "taken fl (p, rel # ds) \<longleftrightarrow> reject_dir fl (rel_text rel) = None \<and> taken fl (p, ds)"
  by (auto simp: taken_def)

lemma taken_below:
  "filter (taken fl) (map (\<lambda>(p, ds). (p, rel # ds)) fs) =
     (if reject_dir fl (rel_text rel) = None then map (\<lambda>(p, ds). (p, rel # ds)) (filter (taken fl) fs) else [])"
  by (induction fs) (auto simp: taken_dir)

lemma fst_below: "map fst (map (\<lambda>(p, ds). (p, rel # ds)) fs) = map fst fs"
  by (induction fs) auto

text \<open>Exactly the files that are not rejected and lie below no rejected directory are taken.\<close>

lemma walk_takes:
  "fst (walk_tree root rel es fl out ex) = out @ map (\<lambda>it. root @ fst it) (filter (taken fl) (files_under rel es))"
  "fst (walk_entry root rel e fl out ex) = out @ map (\<lambda>it. root @ fst it) (filter (taken fl) (files_of rel e))"
proof (induction root rel es fl out ex and root rel e fl out ex rule: walk_tree_walk_entry.induct)
  case (2 root rel name e es fl out ex)
  then show ?case by (cases "walk_entry root (rel @ [name]) e fl out ex") simp
next
  case (3 root rel es fl out ex)
  have m: "map (\<lambda>it. root @ fst it) (map (\<lambda>(p, ds). (p, rel # ds)) fs) = map (\<lambda>it. root @ fst it) fs" for fs
    by (induction fs) auto
  show ?case
  proof (cases "reject_dir fl (rel_text rel)")
    case None
    with 3 show ?thesis by (simp only: walk_entry.simps files_of.simps taken_below m option.case if_True refl)
  next
    case (Some r)
    then show ?thesis by (simp add: taken_below)
  qed
next
  case (4 root rel fl out ex)
  then show ?case by (simp add: taken_def split: option.split)
qed simp

definition input_files :: "filter_rules \<Rightarrow> bytes list \<times> entry \<Rightarrow> bytes list list" where
  "input_files fl i =
     (case i of
        (p, Plain) \<Rightarrow> [p]
      | (p, Dir es) \<Rightarrow> map (\<lambda>it. p @ fst it) (filter (taken fl) (files_under [] es)))"

lemma gather_files: "fst (gather fl ins files ex) = files @ concat (map (input_files fl) ins)"
proof (induction fl ins files ex rule: gather.induct)
  case (2 fl p es ins files ex)
  then show ?case using walk_takes(1) [of p "[]" es fl files ex]
    by (cases "walk_tree p [] es fl files ex") (simp add: input_files_def)
qed (simp_all add: input_files_def)

lemma sorted_remdups_adj_strict:
  fixes xs :: "'a::linorder list"
  shows "sorted xs \<Longrightarrow> distinct (remdups_adj xs)"
proof (induction xs rule: remdups_adj.induct)
  case (3 x y xs)
  then show ?case by (auto simp: order_antisym)
qed auto

text \<open>
  C37. The files taken are sorted, without repetitions, and are exactly the files named and the files below a
  directory named that no exclude matches, nor any directory above them, and that an include matches when
  there are includes. A pattern matches what the rules \<open>globs\<close> over the bytes of a path say: those of the shell where
  every character is one byte; otherwise \<open>?\<close> stands for one byte of a character, unlike in the shell
  (\<open>question_mark_is_a_byte\<close>).
\<close>

theorem collect_inputs_exact:
  "sorted (fst (collect_inputs ins fl)) \<and> distinct (fst (collect_inputs ins fl)) \<and>
   set (fst (collect_inputs ins fl)) = (\<Union>i \<in> set ins. set (input_files fl i)) \<and>
   (glob_match p s \<longleftrightarrow> globs p s)"
proof -
  obtain files ex where g: "gather fl ins [] [] = (files, ex)" by (cases "gather fl ins [] []")
  have f: "files = concat (map (input_files fl) ins)" using gather_files [of fl ins "[]" "[]"] g by simp
  have c: "fst (collect_inputs ins fl) = remdups_adj (sort files)" by (simp add: collect_inputs_def g)
  show ?thesis unfolding c using sorted_remdups_adj_strict [OF sorted_sort [of files]]
    by (simp add: f sorted_remdups_adj glob_match_iff)
qed

text \<open>What is rejected is rejected for a pattern that matches it.\<close>

lemma reject_reason:
  "reject fl rel = Some r \<Longrightarrow> r \<in> set (fl_exclude fl) \<and> matches_path r rel \<or>
     r = ''no --include match'' \<and> fl_include fl \<noteq> [] \<and> \<not> list_ex (\<lambda>p. matches_path p rel) (fl_include fl)"
  by (auto simp: reject_def reject_dir_def find_Some_iff split: option.splits if_splits)

text \<open>\<open>?\<close> stands for one byte, so a character of two bytes needs two of them.\<close>

lemma question_mark_is_a_byte: "\<not> glob_match ''?.log'' ([CHR 0xC3, CHR 0xA9] @ ''.log'')"
  by (simp add: glob_match_def glob_go_cases)

end
