(* ===== verification/Ulpf_Float.thy ===== *)
theory Ulpf_Float
  imports Complex_Main "HOL-Library.Log_Nat"
begin

text \<open>
  The doubles of the code (\<open>f64\<close>) as the rationals they stand for. The rates and shares the engine and the
  inference compute are quotients, products and sums of counts, far from the largest and the smallest
  double, so a result is the exact one rounded to 53 bits, ties to even: \<open>fl\<close>. Rounding keeps order
  and does not move a count below \<open>2 ^ 53\<close>.
\<close>

definition round_even :: "rat \<Rightarrow> int" where
  "round_even x =
     (let f = \<lfloor>x\<rfloor>; d = x - of_int f in
      if d < 1/2 then f else if 1/2 < d then f + 1 else if even f then f else f + 1)"

text \<open>The exponent of a positive number: \<open>2 ^ f64_exponent x\<close> is at most \<open>x\<close> and its double is above.\<close>

definition f64_exponent :: "rat \<Rightarrow> int" where
  "f64_exponent x =
     (let (p, q) = quotient_of x; k = int (floorlog 2 (nat p)) - int (floorlog 2 (nat q))
      in if 2 powi k \<le> x then k else k - 1)"

definition fl :: "rat \<Rightarrow> rat" where
  "fl x = (if x \<le> 0 then 0 else let u = 2 powi (f64_exponent x - 52) in of_int (round_even (x / u)) * u)"

definition f64_div :: "rat \<Rightarrow> rat \<Rightarrow> rat" where "f64_div a b = fl (a / b)"
definition f64_add :: "rat \<Rightarrow> rat \<Rightarrow> rat" where "f64_add a b = fl (a + b)"
definition f64_mul :: "rat \<Rightarrow> rat \<Rightarrow> rat" where "f64_mul a b = fl (a * b)"
definition f64_of :: "nat \<Rightarrow> rat" where "f64_of n = fl (of_nat n)"

lemma round_even_between: "\<lfloor>x\<rfloor> \<le> round_even x \<and> round_even x \<le> \<lfloor>x\<rfloor> + 1"
  by (simp add: round_even_def Let_def)

lemma round_even_mono: assumes "x \<le> y" shows "round_even x \<le> round_even y"
proof (cases "\<lfloor>x\<rfloor> = \<lfloor>y\<rfloor>")
  case True
  then show ?thesis using assms by (auto simp: round_even_def Let_def)
next
  case False
  then have "\<lfloor>x\<rfloor> + 1 \<le> \<lfloor>y\<rfloor>" using floor_mono [OF assms] by simp
  then show ?thesis using round_even_between [of x] round_even_between [of y] by linarith
qed

lemma round_even_int [simp]: "round_even (of_int n) = n"
  by (simp add: round_even_def)

lemma exponent_bounds:
  assumes "0 < x" shows "2 powi f64_exponent x \<le> x" "x < 2 powi (f64_exponent x + 1)"
proof -
  obtain p q where pq: "quotient_of x = (p, q)" by fastforce
  have q: "0 < q" and x: "x = of_int p / of_int q"
    using quotient_of_denom_pos [OF pq] quotient_of_div [OF pq] by auto
  have p: "0 < p" using assms q unfolding x by (simp add: zero_less_divide_iff)
  define a where "a = floorlog 2 (nat p)"
  define b where "b = floorlog 2 (nat q)"
  have fa: "2 ^ (a - 1) \<le> nat p" "nat p < 2 ^ a" and a: "0 < a"
    using floorlog_bounds [of "nat p" 2] p by (simp_all add: a_def floorlog_def)
  have fb: "2 ^ (b - 1) \<le> nat q" "nat q < 2 ^ b" and b: "0 < b"
    using floorlog_bounds [of "nat q" 2] q by (simp_all add: b_def floorlog_def)
  have toint: "(2::rat) ^ (a - 1) \<le> of_int p" "of_int p < (2::rat) ^ a" "(2::rat) ^ (b - 1) \<le> of_int q" "of_int q < (2::rat) ^ b"
    using fa fb p q
    by (metis of_int_of_nat_eq of_nat_le_iff of_nat_numeral of_nat_power int_nat_eq order_less_imp_le,
        metis of_int_of_nat_eq of_nat_less_iff of_nat_numeral of_nat_power int_nat_eq order_less_imp_le,
        metis of_int_of_nat_eq of_nat_le_iff of_nat_numeral of_nat_power int_nat_eq order_less_imp_le,
        metis of_int_of_nat_eq of_nat_less_iff of_nat_numeral of_nat_power int_nat_eq order_less_imp_le)
  have half: "(2::rat) powi (int a - int b - 1) = 2 ^ (a - 1) / 2 ^ b"
    using a by (simp add: power_int_diff power_diff)
  have dbl: "(2::rat) powi (int a - int b + 1) = 2 ^ a / 2 ^ (b - 1)"
    using b by (simp add: power_int_diff power_int_add power_diff)
  have lo: "(2::rat) powi (int a - int b - 1) \<le> x"
    unfolding half x using toint q p by (intro frac_le) auto
  have hi: "x < (2::rat) powi (int a - int b + 1)"
    unfolding dbl x using toint q p by (intro frac_less) (auto intro: order_less_imp_le)
  show "2 powi f64_exponent x \<le> x" "x < 2 powi (f64_exponent x + 1)"
    using lo hi by (auto simp: f64_exponent_def pq a_def [symmetric] b_def [symmetric] not_le Let_def)
qed

lemma scaled:
  assumes "0 < x"
  shows "2 ^ 52 \<le> x / 2 powi (f64_exponent x - 52)" "x / 2 powi (f64_exponent x - 52) < 2 ^ 53"
  using exponent_bounds [OF assms]
  by (simp_all add: power_int_diff power_int_add field_simps)

lemma fl_bounds:
  assumes "0 < x" shows "2 powi f64_exponent x \<le> fl x" "fl x \<le> 2 powi (f64_exponent x + 1)"
proof -
  define u :: rat where "u = 2 powi (f64_exponent x - 52)"
  have u: "0 < u" by (simp add: u_def)
  have up: "2 ^ 52 * u = 2 powi f64_exponent x" "2 ^ 53 * u = 2 powi (f64_exponent x + 1)"
    by (simp_all add: u_def power_int_diff power_int_add)
  have "round_even (of_int (2 ^ 52)) \<le> round_even (x / u)" "round_even (x / u) \<le> round_even (of_int (2 ^ 53))"
    using scaled [OF assms] by (intro round_even_mono; simp add: u_def)+
  then have "2 ^ 52 \<le> round_even (x / u)" "round_even (x / u) \<le> 2 ^ 53" unfolding round_even_int .
  then have "(2::rat) ^ 52 * u \<le> of_int (round_even (x / u)) * u" "of_int (round_even (x / u)) * u \<le> (2::rat) ^ 53 * u"
    using u by (metis mult_right_mono of_int_le_iff of_int_numeral of_int_power less_imp_le)+
  moreover have "fl x = of_int (round_even (x / u)) * u" using assms by (simp add: fl_def u_def Let_def)
  ultimately show "2 powi f64_exponent x \<le> fl x" "fl x \<le> 2 powi (f64_exponent x + 1)"
    unfolding up by simp_all
qed

lemma fl_nonneg [simp]: "0 \<le> fl x"
  using fl_bounds [of x] by (cases "0 < x") (auto simp: fl_def intro: order_trans [of _ "2 powi f64_exponent x"])

lemma fl_mono: assumes "x \<le> y" shows "fl x \<le> fl y"
proof (cases "0 < x")
  case False
  then show ?thesis by (simp add: fl_def [of x])
next
  case True
  then have y: "0 < y" using assms by simp
  have "2 powi f64_exponent x < (2::rat) powi (f64_exponent y + 1)"
    using exponent_bounds [OF True] exponent_bounds [OF y] assms by linarith
  then have "f64_exponent x \<le> f64_exponent y"
    using power_int_increasing [of "f64_exponent y + 1" "f64_exponent x" "2::rat"] by (cases "f64_exponent y + 1 \<le> f64_exponent x") auto
  then consider "f64_exponent x = f64_exponent y" | "f64_exponent x + 1 \<le> f64_exponent y" by linarith
  then show ?thesis
  proof cases
    case 1
    have "round_even (x / 2 powi (f64_exponent y - 52)) \<le> round_even (y / 2 powi (f64_exponent y - 52))"
      using assms by (intro round_even_mono divide_right_mono) auto
    then show ?thesis using True y 1 by (simp add: fl_def Let_def mult_right_mono)
  next
    case 2
    then have "(2::rat) powi (f64_exponent x + 1) \<le> 2 powi f64_exponent y" by (intro power_int_increasing) auto
    then show ?thesis using fl_bounds [OF True] fl_bounds [OF y] by linarith
  qed
qed

lemma fl_exact:
  assumes "m < 2 ^ 53" shows "fl (of_nat m * 2 powi j) = of_nat m * 2 powi j"
proof (cases "m = 0")
  case False
  let ?x = "of_nat m * 2 powi j :: rat"
  have x: "0 < ?x" using False by simp
  have "(of_nat m :: rat) < 2 ^ 53" using assms by (metis of_nat_less_iff of_nat_numeral of_nat_power)
  then have "?x < 2 powi (53 + j)" by (simp add: power_int_add)
  then have "2 powi f64_exponent ?x < (2::rat) powi (53 + j)" using exponent_bounds(1) [OF x] by linarith
  then have "0 \<le> j + 52 - f64_exponent ?x"
    using power_int_increasing [of "53 + j" "f64_exponent ?x" "2::rat"] by linarith
  then obtain k where k: "j + 52 - f64_exponent ?x = int k" by (metis nonneg_int_cases)
  have e: "f64_exponent ?x - 52 = j - int k" using k by simp
  have "?x / 2 powi (f64_exponent ?x - 52) = of_int (int (m * 2 ^ k))"
    unfolding e by (simp add: power_int_diff field_simps)
  then have "round_even (?x / 2 powi (f64_exponent ?x - 52)) = int (m * 2 ^ k)" by (simp only: round_even_int)
  then show ?thesis using x unfolding fl_def Let_def e by (simp add: power_int_diff field_simps)
qed (simp add: fl_def)

lemma f64_of_exact [simp]: "n < 2 ^ 53 \<Longrightarrow> f64_of n = of_nat n"
  using fl_exact [of n 0] by (simp add: f64_of_def)

lemma fl_zero [simp]: "fl 0 = 0"
  by (simp add: fl_def)

lemma fl_one [simp]: "fl 1 = 1"
  using fl_exact [of 1 0] by simp

lemma fl_quarter [simp]: "fl (1/4) = 1/4"
  using fl_exact [of 1 "- 2"] by (simp add: power_int_minus)

lemma fl_positive: "0 < x \<Longrightarrow> 0 < fl x"
  using fl_bounds(1) [of x] by (meson less_le_trans zero_less_numeral zero_less_power_int)

end
