(* ===== verification/Ulpf_Align.thy ===== *)
theory Ulpf_Align
  imports Ulpf_Prelude "HOL-Library.Word"
begin

text \<open>
  Sequence alignment, \<open>src/crates/ulpf-infer/src/align.rs\<close>: the longest common subsequence with its 16 bit
  table, and the weighted alignment with a gap opening penalty over its four tables. The tables are the
  flat vectors of the code, filled from the last cell to the first; the four tables of the alignment, always
  read and written at one index, are one vector of records. \<open>similarity\<close> is floating point and not here.
\<close>

subsection \<open>Filling a table backwards\<close>

text \<open>
  Cell \<open>(i, j)\<close> is at \<open>i * w + j\<close> with \<open>w = m + 1\<close>; \<open>g\<close> gets the cell's old value and its three neighbours.
\<close>

definition fill_cell :: "nat \<Rightarrow> (nat \<Rightarrow> nat \<Rightarrow> 'a \<Rightarrow> 'a \<Rightarrow> 'a \<Rightarrow> 'a \<Rightarrow> 'a) \<Rightarrow> nat \<Rightarrow> nat \<Rightarrow> 'a list \<Rightarrow> 'a list" where
  "fill_cell w g i j t =
     t[i * w + j := g i j (t ! (i * w + j)) (t ! ((i + 1) * w + j + 1)) (t ! ((i + 1) * w + j)) (t ! (i * w + j + 1))]"

definition fill_row :: "nat \<Rightarrow> (nat \<Rightarrow> nat \<Rightarrow> 'a \<Rightarrow> 'a \<Rightarrow> 'a \<Rightarrow> 'a \<Rightarrow> 'a) \<Rightarrow> nat \<Rightarrow> nat \<Rightarrow> 'a list \<Rightarrow> 'a list" where
  "fill_row w g m i t = fold (fill_cell w g i) (rev [0..<m]) t"

definition fill_table :: "nat \<Rightarrow> (nat \<Rightarrow> nat \<Rightarrow> 'a \<Rightarrow> 'a \<Rightarrow> 'a \<Rightarrow> 'a \<Rightarrow> 'a) \<Rightarrow> nat \<Rightarrow> nat \<Rightarrow> 'a list \<Rightarrow> 'a list" where
  "fill_table w g n m t = fold (fill_row w g m) (rev [0..<n]) t"

lemma fold_down: "fold f (rev [0..<Suc k]) t = fold f (rev [0..<k]) (f k t)"
  by simp

lemma cell_index_inj:
  fixes i j k l w :: nat
  assumes "j < w" "l < w"
  shows "i * w + j = k * w + l \<longleftrightarrow> i = k \<and> j = l"
proof
  assume h: "i * w + j = k * w + l"
  have "i = (i * w + j) div w" "k = (k * w + l) div w" "j = (i * w + j) mod w" "l = (k * w + l) mod w" using assms by auto
  with h show "i = k \<and> j = l" by metis
qed simp

lemma cell_index_less:
  fixes i j n w :: nat
  assumes "i \<le> n" "j < w"
  shows "i * w + j < (n + 1) * w"
proof -
  have "i * w \<le> n * w" "(n + 1) * w = n * w + w" using assms(1) by simp_all
  then show ?thesis using assms(2) by linarith
qed

text \<open>What the table is to hold, as a recursion on the cells.\<close>

function cell_of :: "(nat \<Rightarrow> nat \<Rightarrow> 'a \<Rightarrow> 'a \<Rightarrow> 'a \<Rightarrow> 'a \<Rightarrow> 'a) \<Rightarrow> nat \<Rightarrow> nat \<Rightarrow> (nat \<Rightarrow> nat \<Rightarrow> 'a) \<Rightarrow> nat \<Rightarrow> nat \<Rightarrow> 'a" where
  "cell_of g n m t0 i j =
     (if i < n \<and> j < m
      then g i j (t0 i j) (cell_of g n m t0 (i + 1) (j + 1)) (cell_of g n m t0 (i + 1) j) (cell_of g n m t0 i (j + 1))
      else t0 i j)"
  by pat_completeness auto
termination by (relation "measure (\<lambda>(g, n, m, t0, i, j). (n - i) + (m - j))") auto

declare cell_of.simps [simp del]

lemma cell_of_in:
  "i < n \<Longrightarrow> j < m \<Longrightarrow>
   cell_of g n m t0 i j =
     g i j (t0 i j) (cell_of g n m t0 (i + 1) (j + 1)) (cell_of g n m t0 (i + 1) j) (cell_of g n m t0 i (j + 1))"
  using cell_of.simps [of g n m t0 i j] by simp

lemma cell_of_out: "\<not> (i < n \<and> j < m) \<Longrightarrow> cell_of g n m t0 i j = t0 i j"
  by (subst cell_of.simps) (rule if_not_P)

text \<open>Rows above \<open>i\<close>, and row \<open>i\<close> from column \<open>j\<close>, are done; the rest is as it was.\<close>

definition filled :: "(nat \<Rightarrow> nat \<Rightarrow> 'a) \<Rightarrow> (nat \<Rightarrow> nat \<Rightarrow> 'a) \<Rightarrow> nat \<Rightarrow> nat \<Rightarrow> nat \<Rightarrow> nat \<Rightarrow> 'a list \<Rightarrow> bool" where
  "filled c t0 n m i j t \<longleftrightarrow>
     length t = (n + 1) * (m + 1) \<and>
     (\<forall>k l. k \<le> n \<longrightarrow> l \<le> m \<longrightarrow> t ! (k * (m + 1) + l) = (if i < k \<or> k = i \<and> j \<le> l then c k l else t0 k l))"

lemma filled_len: "filled c t0 n m i j t \<Longrightarrow> length t = (n + 1) * (m + 1)"
  by (simp add: filled_def)

lemma filled_at:
  "filled c t0 n m i j t \<Longrightarrow> k \<le> n \<Longrightarrow> l \<le> m \<Longrightarrow>
   t ! (k * (m + 1) + l) = (if i < k \<or> k = i \<and> j \<le> l then c k l else t0 k l)"
  by (simp add: filled_def)

lemma fill_cell_filled:
  assumes f: "filled (cell_of g n m t0) t0 n m i (Suc j) t" and i: "i < n" and j: "j < m"
  shows "filled (cell_of g n m t0) t0 n m i j (fill_cell (m + 1) g i j t)"
proof -
  let ?c = "cell_of g n m t0"
  have a1: "t ! (i * (m + 1) + j) = t0 i j" using filled_at [OF f, of i j] i j by simp
  have a2: "t ! ((i + 1) * (m + 1) + j + 1) = ?c (i + 1) (j + 1)" using filled_at [OF f, of "i + 1" "j + 1"] i j by simp
  have a3: "t ! ((i + 1) * (m + 1) + j) = ?c (i + 1) j" using filled_at [OF f, of "i + 1" j] i j by simp
  have a4: "t ! (i * (m + 1) + j + 1) = ?c i (j + 1)" using filled_at [OF f, of i "j + 1"] i j by simp
  have new: "fill_cell (m + 1) g i j t = t[i * (m + 1) + j := ?c i j]"
    unfolding fill_cell_def a1 a2 a3 a4 using cell_of.simps [of g n m t0 i j] i j by simp
  have len: "i * (m + 1) + j < length t" using filled_len [OF f] cell_index_less [of i n j "m + 1"] i j by simp
  show ?thesis unfolding new filled_def
  proof (intro conjI allI impI)
    fix k l assume k: "k \<le> n" "l \<le> m"
    show "t[i * (m + 1) + j := ?c i j] ! (k * (m + 1) + l) = (if i < k \<or> k = i \<and> j \<le> l then ?c k l else t0 k l)"
    proof (cases "k = i \<and> l = j")
      case True
      then show ?thesis using len by simp
    next
      case False
      then have "i * (m + 1) + j \<noteq> k * (m + 1) + l" using cell_index_inj [of j "m + 1" l i k] j k by auto
      then have "t[i * (m + 1) + j := ?c i j] ! (k * (m + 1) + l) = t ! (k * (m + 1) + l)" by (rule nth_list_update_neq)
      also have "\<dots> = (if i < k \<or> k = i \<and> Suc j \<le> l then ?c k l else t0 k l)" using filled_at [OF f k] .
      also have "\<dots> = (if i < k \<or> k = i \<and> j \<le> l then ?c k l else t0 k l)" using False by auto
      finally show ?thesis .
    qed
  qed (use filled_len [OF f] in simp)
qed

lemma fill_cols:
  "filled (cell_of g n m t0) t0 n m i k t \<Longrightarrow> i < n \<Longrightarrow> k \<le> m \<Longrightarrow>
   filled (cell_of g n m t0) t0 n m i 0 (fold (fill_cell (m + 1) g i) (rev [0..<k]) t)"
proof (induction k arbitrary: t)
  case (Suc k)
  then show ?case unfolding fold_down using fill_cell_filled [of g n m t0 i k t] by simp
qed simp

lemma filled_next_row:
  assumes "filled (cell_of g n m t0) t0 n m (Suc i) 0 t" "i < n"
  shows "filled (cell_of g n m t0) t0 n m i m t"
proof -
  have "cell_of g n m t0 i m = t0 i m" by (subst cell_of.simps) simp
  then show ?thesis using assms unfolding filled_def by (auto simp: not_less_eq less_Suc_eq)
qed

lemma fill_rows:
  "filled (cell_of g n m t0) t0 n m k 0 t \<Longrightarrow> k \<le> n \<Longrightarrow>
   filled (cell_of g n m t0) t0 n m 0 0 (fold (fill_row (m + 1) g m) (rev [0..<k]) t)"
proof (induction k arbitrary: t)
  case (Suc k)
  have "filled (cell_of g n m t0) t0 n m k 0 (fill_row (m + 1) g m k t)"
    unfolding fill_row_def using Suc.prems by (intro fill_cols filled_next_row) auto
  then show ?case unfolding fold_down using Suc by simp
qed simp

lemma fill_table_cells:
  assumes len: "length t = (n + 1) * (m + 1)"
    and at: "\<And>k l. k \<le> n \<Longrightarrow> l \<le> m \<Longrightarrow> t ! (k * (m + 1) + l) = t0 k l"
    and ij: "i \<le> n" "j \<le> m"
  shows "fill_table (m + 1) g n m t ! (i * (m + 1) + j) = cell_of g n m t0 i j"
proof -
  have last: "cell_of g n m t0 n l = t0 n l" for l by (subst cell_of.simps) simp
  have "filled (cell_of g n m t0) t0 n m n 0 t" unfolding filled_def using len at last by auto
  from fill_rows [OF this] have "filled (cell_of g n m t0) t0 n m 0 0 (fill_table (m + 1) g n m t)" by (simp add: fill_table_def)
  from filled_at [OF this ij] show ?thesis by (cases i) simp_all
qed

subsection \<open>The longest common subsequence\<close>

definition lcs_cell :: "(nat \<Rightarrow> nat \<Rightarrow> bool) \<Rightarrow> nat \<Rightarrow> nat \<Rightarrow> 16 word \<Rightarrow> 16 word \<Rightarrow> 16 word \<Rightarrow> 16 word \<Rightarrow> 16 word" where
  "lcs_cell eq i j old diag down right = (if eq i j then diag + 1 else max down right)"

definition lcs_table :: "nat \<Rightarrow> nat \<Rightarrow> (nat \<Rightarrow> nat \<Rightarrow> bool) \<Rightarrow> 16 word list" where
  "lcs_table n m eq = fill_table (m + 1) (lcs_cell eq) n m (replicate ((n + 1) * (m + 1)) 0)"

function lcs_trace :: "(nat \<Rightarrow> nat \<Rightarrow> bool) \<Rightarrow> 16 word list \<Rightarrow> nat \<Rightarrow> nat \<Rightarrow> nat \<Rightarrow> nat \<Rightarrow> (nat \<times> nat) list" where
  "lcs_trace eq dp n m i j =
     (if i < n \<and> j < m then
        if eq i j then (i, j) # lcs_trace eq dp n m (i + 1) (j + 1)
        else if dp ! ((i + 1) * (m + 1) + j) \<ge> dp ! (i * (m + 1) + j + 1) then lcs_trace eq dp n m (i + 1) j
        else lcs_trace eq dp n m i (j + 1)
      else [])"
  by pat_completeness auto
termination by (relation "measure (\<lambda>(eq, dp, n, m, i, j). (n - i) + (m - j))") auto

declare lcs_trace.simps [simp del]

lemma lcs_trace_out: "\<not> (i < n \<and> j < m) \<Longrightarrow> lcs_trace eq dp n m i j = []"
  by (subst lcs_trace.simps) (rule if_not_P)

definition lcs :: "nat \<Rightarrow> nat \<Rightarrow> (nat \<Rightarrow> nat \<Rightarrow> bool) \<Rightarrow> (nat \<times> nat) list" where
  "lcs n m eq = lcs_trace eq (lcs_table n m eq) n m 0 0"

text \<open>The pairs of a common subsequence: both indices grow, every pair is a match.\<close>

definition common :: "(nat \<Rightarrow> nat \<Rightarrow> bool) \<Rightarrow> nat \<Rightarrow> nat \<Rightarrow> nat \<Rightarrow> nat \<Rightarrow> (nat \<times> nat) list \<Rightarrow> bool" where
  "common eq n m i j ps \<longleftrightarrow>
     sorted_wrt (\<lambda>p q. fst p < fst q \<and> snd p < snd q) ps \<and>
     (\<forall>p \<in> set ps. i \<le> fst p \<and> fst p < n \<and> j \<le> snd p \<and> snd p < m \<and> eq (fst p) (snd p))"

text \<open>The length the table is to hold, over the naturals.\<close>

function lcs_len :: "(nat \<Rightarrow> nat \<Rightarrow> bool) \<Rightarrow> nat \<Rightarrow> nat \<Rightarrow> nat \<Rightarrow> nat \<Rightarrow> nat" where
  "lcs_len eq n m i j =
     (if i < n \<and> j < m
      then if eq i j then Suc (lcs_len eq n m (i + 1) (j + 1)) else max (lcs_len eq n m (i + 1) j) (lcs_len eq n m i (j + 1))
      else 0)"
  by pat_completeness auto
termination by (relation "measure (\<lambda>(eq, n, m, i, j). (n - i) + (m - j))") auto

declare lcs_len.simps [simp del]

lemma lcs_len_match: "i < n \<Longrightarrow> j < m \<Longrightarrow> eq i j \<Longrightarrow> lcs_len eq n m i j = Suc (lcs_len eq n m (i + 1) (j + 1))"
  and lcs_len_skip:
    "i < n \<Longrightarrow> j < m \<Longrightarrow> \<not> eq i j \<Longrightarrow> lcs_len eq n m i j = max (lcs_len eq n m (i + 1) j) (lcs_len eq n m i (j + 1))"
  using lcs_len.simps [of eq n m i j] by simp_all

lemma lcs_len_out: "\<not> (i < n \<and> j < m) \<Longrightarrow> lcs_len eq n m i j = 0"
  by (subst lcs_len.simps) (rule if_not_P)

lemma lcs_len_le: "lcs_len eq n m i j \<le> min (n - i) (m - j)"
proof (induction eq n m i j rule: lcs_len.induct)
  case (1 eq n m i j)
  show ?case
  proof (cases "i < n \<and> j < m")
    case True
    with 1 show ?thesis by (cases "eq i j") (auto simp: lcs_len_match lcs_len_skip)
  next
    case False
    show ?thesis unfolding lcs_len_out [OF False] by simp
  qed
qed

text \<open>No common subsequence is longer.\<close>

lemma common_le: "common eq n m i j ps \<Longrightarrow> length ps \<le> lcs_len eq n m i j"
proof (induction eq n m i j arbitrary: ps rule: lcs_len.induct)
  case (1 eq n m i j)
  show ?case
  proof (cases ps)
    case (Cons p qs)
    obtain a b where p: "p = (a, b)" by (cases p)
    have ab: "i \<le> a" "a < n" "j \<le> b" "b < m" "eq a b" using "1.prems" by (auto simp: common_def Cons p)
    have ij: "i < n \<and> j < m" using ab by simp
    have tail: "common eq n m (Suc a) (Suc b) qs" using "1.prems" by (auto simp: common_def Cons p Suc_le_eq)
    note un = lcs_len.simps [of eq n m i j]
    show ?thesis
    proof (cases "eq i j")
      case True
      have "common eq n m (i + 1) (j + 1) qs" using tail ab by (fastforce simp: common_def)
      from "1.IH"(1) [OF ij True this] show ?thesis using un ij True Cons by simp
    next
      case False
      show ?thesis
      proof (cases "a = i")
        case True
        with False ab have "j < b" using le_neq_implies_less by blast
        then have "common eq n m i (j + 1) ps" using "1.prems" tail ab by (fastforce simp: common_def Cons p)
        from "1.IH"(3) [OF ij False this] show ?thesis using un ij False by simp
      next
        case neq: False
        with ab have "i < a" by simp
        then have "common eq n m (i + 1) j ps" using "1.prems" tail ab by (fastforce simp: common_def Cons p)
        from "1.IH"(2) [OF ij False this] show ?thesis using un ij False by simp
      qed
    qed
  qed simp
qed

lemma le_word16: "a < 65536 \<Longrightarrow> b < 65536 \<Longrightarrow> (of_nat a :: 16 word) \<le> of_nat b \<longleftrightarrow> a \<le> b"
  by (simp add: of_nat_word_less_eq_iff take_bit_nat_eq_self)

lemma max_word16: "a < 65536 \<Longrightarrow> b < 65536 \<Longrightarrow> max (of_nat a) (of_nat b :: 16 word) = of_nat (max a b)"
  using le_word16 [of a b] by (simp add: max_def)

lemma lcs_len_less: "min n m < 65536 \<Longrightarrow> lcs_len eq n m i j < 65536"
  using lcs_len_le [of eq n m i j] by linarith

lemma lcs_cell_of: "min n m < 65536 \<Longrightarrow> cell_of (lcs_cell eq) n m (\<lambda>_ _. 0) i j = of_nat (lcs_len eq n m i j)"
proof (induction eq n m i j rule: lcs_len.induct)
  case (1 eq n m i j)
  note small = lcs_len_less [OF "1.prems"]
  show ?case
  proof (cases "i < n \<and> j < m")
    case True
    show ?thesis
    proof (cases "eq i j")
      case True
      with \<open>i < n \<and> j < m\<close> "1.IH"(1) [OF _ True "1.prems"] show ?thesis
        by (simp add: cell_of_in lcs_len_match) (simp add: lcs_cell_def)
    next
      case False
      with \<open>i < n \<and> j < m\<close> "1.IH"(2,3) [OF _ False "1.prems"] show ?thesis
        by (simp add: cell_of_in lcs_len_skip) (simp add: lcs_cell_def max_word16 [OF small small])
    qed
  next
    case False
    show ?thesis unfolding cell_of_out [OF False] lcs_len_out [OF False] by simp
  qed
qed

lemma lcs_table_cell:
  assumes "min n m < 65536" "i \<le> n" "j \<le> m"
  shows "lcs_table n m eq ! (i * (m + 1) + j) = of_nat (lcs_len eq n m i j)"
  unfolding lcs_table_def
proof (subst fill_table_cells [of _ n m "\<lambda>_ _. 0"])
  show "replicate ((n + 1) * (m + 1)) (0 :: 16 word) ! (k * (m + 1) + l) = 0" if "k \<le> n" "l \<le> m" for k l
    using that by (intro nth_replicate cell_index_less) simp_all
qed (use assms lcs_cell_of [OF assms(1)] in simp_all)

text \<open>The trace is a common subsequence of the length in the table.\<close>

lemma lcs_trace_common:
  "min n m < 65536 \<Longrightarrow> dp = lcs_table n m eq \<Longrightarrow>
   common eq n m i j (lcs_trace eq dp n m i j) \<and> length (lcs_trace eq dp n m i j) = lcs_len eq n m i j"
proof (induction eq dp n m i j rule: lcs_trace.induct)
  case (1 eq dp n m i j)
  note un = lcs_trace.simps [of eq dp n m i j] lcs_len.simps [of eq n m i j]
  show ?case
  proof (cases "i < n \<and> j < m")
    case ij: True
    show ?thesis
    proof (cases "eq i j")
      case True
      have "common eq n m i j ((i, j) # lcs_trace eq dp n m (i + 1) (j + 1))"
        using "1.IH"(1) [OF ij True "1.prems"] ij True by (fastforce simp: common_def)
      then show ?thesis using "1.IH"(1) [OF ij True "1.prems"] ij True by (simp add: un)
    next
      case False
      have down: "dp ! ((i + 1) * (m + 1) + j) = of_nat (lcs_len eq n m (i + 1) j)"
        using lcs_table_cell [OF "1.prems"(1), of "i + 1" j eq] "1.prems"(2) ij by simp
      have right: "dp ! (i * (m + 1) + j + 1) = of_nat (lcs_len eq n m i (j + 1))"
        using lcs_table_cell [OF "1.prems"(1), of i "j + 1" eq] "1.prems"(2) ij by simp
      note cmp = le_word16 [OF lcs_len_less [OF "1.prems"(1)] lcs_len_less [OF "1.prems"(1)]]
      show ?thesis
      proof (cases "lcs_len eq n m i (j + 1) \<le> lcs_len eq n m (i + 1) j")
        case True
        then have step: "lcs_trace eq dp n m i j = lcs_trace eq dp n m (i + 1) j"
          unfolding un down right cmp using ij False by simp
        have "dp ! ((i + 1) * (m + 1) + j) \<ge> dp ! (i * (m + 1) + j + 1)" unfolding down right cmp by (rule True)
        note ih = "1.IH"(2) [OF ij False this "1.prems"]
        have "common eq n m i j (lcs_trace eq dp n m (i + 1) j)" using ih by (auto simp: common_def)
        then show ?thesis using ih ij False True by (simp add: step un(2) max_def)
      next
        case less: False
        then have step: "lcs_trace eq dp n m i j = lcs_trace eq dp n m i (j + 1)"
          unfolding un down right cmp using ij False by simp
        have "\<not> dp ! ((i + 1) * (m + 1) + j) \<ge> dp ! (i * (m + 1) + j + 1)" unfolding down right cmp by (rule less)
        note ih = "1.IH"(3) [OF ij False this "1.prems"]
        have "common eq n m i j (lcs_trace eq dp n m i (j + 1))" using ih by (auto simp: common_def)
        then show ?thesis using ih ij False less by (simp add: step un(2) max_def)
      qed
    qed
  next
    case False
    show ?thesis unfolding lcs_trace_out [OF False] lcs_len_out [OF False] by (simp add: common_def)
  qed
qed

lemma lcs_longest:
  assumes "min n m < 65536"
  shows "common eq n m 0 0 (lcs n m eq)" and "common eq n m 0 0 ps \<Longrightarrow> length ps \<le> length (lcs n m eq)"
  using lcs_trace_common [OF assms refl, of eq 0 0] common_le [of eq n m 0 0 ps] by (simp_all add: lcs_def)

end
