(* ===== verification/Ulpf_Gotoh.thy ===== *)
theory Ulpf_Gotoh
  imports Ulpf_Align
begin

text \<open>
  The weighted alignment of \<open>src/crates/ulpf-infer/src/align.rs\<close>: the tables of \<open>align\<close>, its forward trace,
  and the proof that the pairs it returns are the matches of an alignment of the greatest score. The scores
  are integers; \<open>align_cells_fit\<close> bounds every one of them, so the 32 bits of the code hold them.
\<close>

record cells =
  c_mat :: int
  c_sub :: int
  c_del :: int
  c_ins :: int

datatype move = Mat | Sub | Del | Ins

definition gap_open :: int where "gap_open = 2"
definition sub_cost :: int where "sub_cost = 1"
definition neg :: int where "neg = - 536870912"

definition idx :: "nat \<Rightarrow> nat \<Rightarrow> nat \<Rightarrow> nat" where
  "idx m i j = i * (m + 1) + j"

definition align_init :: "nat \<Rightarrow> nat \<Rightarrow> cells list" where
  "align_init n m =
     (let none = \<lparr>c_mat = neg, c_sub = neg, c_del = neg, c_ins = neg\<rparr>;
          t = (replicate ((n + 1) * (m + 1)) none)[idx m n m := none\<lparr>c_mat := 0\<rparr>];
          t = fold (\<lambda>i t. t[idx m i m := (t ! idx m i m)\<lparr>c_del := - gap_open\<rparr>]) (rev [0..<n]) t
      in fold (\<lambda>j t. t[idx m n j := (t ! idx m n j)\<lparr>c_ins := - gap_open\<rparr>]) (rev [0..<m]) t)"

definition best :: "cells \<Rightarrow> int" where
  "best c = max (max (max (c_mat c) (c_sub c)) (c_del c)) (c_ins c)"

definition align_cell :: "(nat \<Rightarrow> nat \<Rightarrow> 16 word) \<Rightarrow> (nat \<Rightarrow> nat \<Rightarrow> bool) \<Rightarrow> nat \<Rightarrow> nat \<Rightarrow> cells \<Rightarrow> cells \<Rightarrow> cells \<Rightarrow> cells \<Rightarrow> cells" where
  "align_cell weight subst i j old diag down right =
     (let here = weight i j;
          c = (if here > 0 then old\<lparr>c_mat := best diag + uint here\<rparr>
               else if subst i j then old\<lparr>c_sub := best diag - sub_cost\<rparr> else old)
      in c\<lparr>c_del := max (max (max (c_mat down - gap_open) (c_sub down - gap_open)) (c_del down)) (c_ins down - gap_open),
           c_ins := max (max (max (c_mat right - gap_open) (c_sub right - gap_open)) (c_ins right)) (c_del right - gap_open)\<rparr>)"

definition align_table :: "nat \<Rightarrow> nat \<Rightarrow> (nat \<Rightarrow> nat \<Rightarrow> 16 word) \<Rightarrow> (nat \<Rightarrow> nat \<Rightarrow> bool) \<Rightarrow> cells list" where
  "align_table n m weight subst = fill_table (m + 1) (align_cell weight subst) n m (align_init n m)"

definition pick :: "cells \<Rightarrow> move" where
  "pick c =
     (if c_mat c \<ge> c_sub c \<and> c_mat c \<ge> c_del c \<and> c_mat c \<ge> c_ins c then Mat
      else if c_sub c \<ge> c_del c \<and> c_sub c \<ge> c_ins c then Sub
      else if c_del c \<ge> c_ins c then Del else Ins)"

definition next_state :: "cells \<Rightarrow> int \<Rightarrow> move" where
  "next_state c target =
     (if c_mat c = target then Mat else if c_sub c = target then Sub else if c_del c = target then Del else Ins)"

text \<open>One turn of the trace: the new indices, the next state and the pair it emits.\<close>

definition trace_move :: "(nat \<Rightarrow> nat \<Rightarrow> 16 word) \<Rightarrow> cells list \<Rightarrow> nat \<Rightarrow> nat \<Rightarrow> nat \<Rightarrow> move \<Rightarrow> nat \<times> nat \<times> move \<times> (nat \<times> nat) list" where
  "trace_move weight t m i j state =
     (case state of
        Mat \<Rightarrow> (i + 1, j + 1, next_state (t ! idx m (i + 1) (j + 1)) (c_mat (t ! idx m i j) - uint (weight i j)), [(i, j)])
      | Sub \<Rightarrow> (i + 1, j + 1, next_state (t ! idx m (i + 1) (j + 1)) (c_sub (t ! idx m i j) + sub_cost), [])
      | Del \<Rightarrow>
          (let v = c_del (t ! idx m i j); k = t ! idx m (i + 1) j
           in (i + 1, j,
               (if c_del k = v then Del else if c_mat k - gap_open = v then Mat else if c_sub k - gap_open = v then Sub else Ins), []))
      | Ins \<Rightarrow>
          (let v = c_ins (t ! idx m i j); k = t ! idx m i (j + 1)
           in (i, j + 1,
               (if c_ins k = v then Ins else if c_mat k - gap_open = v then Mat else if c_sub k - gap_open = v then Sub else Del), [])))"

text \<open>The loop; every turn advances an index, so \<open>n + m\<close> turns are enough (\<open>trace_loop_returns\<close>).\<close>

fun trace_loop :: "nat \<Rightarrow> (nat \<Rightarrow> nat \<Rightarrow> 16 word) \<Rightarrow> cells list \<Rightarrow> nat \<Rightarrow> nat \<Rightarrow> nat \<Rightarrow> nat \<Rightarrow> move \<Rightarrow> (nat \<times> nat) list \<Rightarrow>
    (nat \<times> nat) list option" where
  "trace_loop fuel weight t n m i j state out =
     (if i < n \<or> j < m then
        (case fuel of
           0 \<Rightarrow> None
         | Suc fuel \<Rightarrow>
             (case trace_move weight t m i j state of
                (i, j, state, emitted) \<Rightarrow>
                  if i = n \<and> j = m then Some (out @ emitted)
                  else trace_loop fuel weight t n m i j (if i = n then Ins else if j = m then Del else state) (out @ emitted)))
      else Some out)"

declare trace_loop.simps [simp del]

definition align :: "nat \<Rightarrow> nat \<Rightarrow> (nat \<Rightarrow> nat \<Rightarrow> 16 word) \<Rightarrow> (nat \<Rightarrow> nat \<Rightarrow> bool) \<Rightarrow> (nat \<times> nat) list option" where
  "align n m weight subst =
     (let t = align_table n m weight subst
      in trace_loop (n + m) weight t n m 0 0 (pick (t ! idx m 0 0)) [])"

subsection \<open>What an alignment is and what it scores\<close>

fun path :: "(nat \<Rightarrow> nat \<Rightarrow> 16 word) \<Rightarrow> (nat \<Rightarrow> nat \<Rightarrow> bool) \<Rightarrow> nat \<Rightarrow> nat \<Rightarrow> nat \<Rightarrow> nat \<Rightarrow> move list \<Rightarrow> bool" where
  "path weight subst n m i j [] \<longleftrightarrow> i = n \<and> j = m"
| "path weight subst n m i j (Mat # os) \<longleftrightarrow> i < n \<and> j < m \<and> weight i j > 0 \<and> path weight subst n m (i + 1) (j + 1) os"
| "path weight subst n m i j (Sub # os) \<longleftrightarrow>
     i < n \<and> j < m \<and> \<not> weight i j > 0 \<and> subst i j \<and> path weight subst n m (i + 1) (j + 1) os"
| "path weight subst n m i j (Del # os) \<longleftrightarrow> i < n \<and> path weight subst n m (i + 1) j os"
| "path weight subst n m i j (Ins # os) \<longleftrightarrow> j < m \<and> path weight subst n m i (j + 1) os"

text \<open>A run of deletions, or of insertions, is paid once.\<close>

fun score :: "(nat \<Rightarrow> nat \<Rightarrow> 16 word) \<Rightarrow> nat \<Rightarrow> nat \<Rightarrow> move list \<Rightarrow> int" where
  "score weight i j [] = 0"
| "score weight i j (Mat # os) = uint (weight i j) + score weight (i + 1) (j + 1) os"
| "score weight i j (Sub # os) = score weight (i + 1) (j + 1) os - sub_cost"
| "score weight i j (Del # os) = score weight (i + 1) j os - (if prefix [Del] os then 0 else gap_open)"
| "score weight i j (Ins # os) = score weight i (j + 1) os - (if prefix [Ins] os then 0 else gap_open)"

fun matches :: "nat \<Rightarrow> nat \<Rightarrow> move list \<Rightarrow> (nat \<times> nat) list" where
  "matches i j [] = []"
| "matches i j (Mat # os) = (i, j) # matches (i + 1) (j + 1) os"
| "matches i j (Sub # os) = matches (i + 1) (j + 1) os"
| "matches i j (Del # os) = matches (i + 1) j os"
| "matches i j (Ins # os) = matches i (j + 1) os"

fun held_for :: "move \<Rightarrow> cells \<Rightarrow> int" where
  "held_for Mat c = c_mat c"
| "held_for Sub c = c_sub c"
| "held_for Del c = c_del c"
| "held_for Ins c = c_ins c"

lemma move_all: "(\<forall>s. P s) \<longleftrightarrow> P Mat \<and> P Sub \<and> P Del \<and> P Ins"
  by (metis move.exhaust)

lemma held_for_best: "held_for s c \<le> best c"
  by (cases s) (auto simp: best_def)

lemma neg_low: "neg < - 8"
  by (simp add: neg_def)

subsection \<open>What the trace needs of the tables\<close>

locale alignment =
  fixes n m :: nat and weight :: "nat \<Rightarrow> nat \<Rightarrow> 16 word" and subst :: "nat \<Rightarrow> nat \<Rightarrow> bool" and t :: "cells list"
  assumes corner: "t ! idx m n m = \<lparr>c_mat = 0, c_sub = neg, c_del = neg, c_ins = neg\<rparr>"
    and right_edge: "i < n \<Longrightarrow> t ! idx m i m = \<lparr>c_mat = neg, c_sub = neg, c_del = - gap_open, c_ins = neg\<rparr>"
    and bottom_edge: "j < m \<Longrightarrow> t ! idx m n j = \<lparr>c_mat = neg, c_sub = neg, c_del = neg, c_ins = - gap_open\<rparr>"
    and inside: "i < n \<Longrightarrow> j < m \<Longrightarrow>
      t ! idx m i j =
        align_cell weight subst i j \<lparr>c_mat = neg, c_sub = neg, c_del = neg, c_ins = neg\<rparr>
          (t ! idx m (i + 1) (j + 1)) (t ! idx m (i + 1) j) (t ! idx m i (j + 1))"
begin

lemma inside_mat: "i < n \<Longrightarrow> j < m \<Longrightarrow>
    c_mat (t ! idx m i j) = (if weight i j > 0 then best (t ! idx m (i + 1) (j + 1)) + uint (weight i j) else neg)"
  and inside_sub: "i < n \<Longrightarrow> j < m \<Longrightarrow>
    c_sub (t ! idx m i j) = (if \<not> weight i j > 0 \<and> subst i j then best (t ! idx m (i + 1) (j + 1)) - sub_cost else neg)"
  and inside_del: "i < n \<Longrightarrow> j < m \<Longrightarrow>
    c_del (t ! idx m i j) =
      (let k = t ! idx m (i + 1) j
       in max (max (max (c_mat k - gap_open) (c_sub k - gap_open)) (c_del k)) (c_ins k - gap_open))"
  and inside_ins: "i < n \<Longrightarrow> j < m \<Longrightarrow>
    c_ins (t ! idx m i j) =
      (let k = t ! idx m i (j + 1)
       in max (max (max (c_mat k - gap_open) (c_sub k - gap_open)) (c_ins k)) (c_del k - gap_open))"
  by (simp_all add: inside [of i j] align_cell_def Let_def)

text \<open>Along an edge only one move is left.\<close>

lemma path_right_edge:
  "path weight subst n m i m os \<Longrightarrow> i < n \<Longrightarrow> prefix [Del] os \<and> score weight i m os = - gap_open"
proof (induction os arbitrary: i)
  case (Cons s os)
  from Cons.prems have s: "s = Del" by (cases s) auto
  show ?case
  proof (cases "i + 1 < n")
    case True
    with Cons s show ?thesis by simp
  next
    case False
    with Cons.prems have n: "Suc i = n" by simp
    from Cons.prems s have "path weight subst n m n m os" unfolding n [symmetric] by simp
    then have "os = []" by (cases os rule: list.exhaust; cases "hd os") auto
    with s show ?thesis by simp
  qed
qed simp

lemma path_bottom_edge:
  "path weight subst n m n j os \<Longrightarrow> j < m \<Longrightarrow> prefix [Ins] os \<and> score weight n j os = - gap_open"
proof (induction os arbitrary: j)
  case (Cons s os)
  from Cons.prems have s: "s = Ins" by (cases s) auto
  show ?case
  proof (cases "j + 1 < m")
    case True
    with Cons s show ?thesis by simp
  next
    case False
    with Cons.prems have m: "Suc j = m" by simp
    from Cons.prems s have "path weight subst n m n m os" unfolding m [symmetric] by simp
    then have "os = []" by (cases os rule: list.exhaust; cases "hd os") auto
    with s show ?thesis by simp
  qed
qed simp

text \<open>No alignment from a cell scores more than the cell holds for its first move.\<close>

lemma path_best:
  assumes "path weight subst n m i j os" "os \<noteq> [] \<Longrightarrow> score weight i j os \<le> held_for (hd os) (t ! idx m i j)"
  shows "score weight i j os \<le> best (t ! idx m i j)"
proof (cases os)
  case Nil
  with assms(1) show ?thesis using corner by (simp add: best_def)
next
  case (Cons s rest)
  with assms(2) have "score weight i j os \<le> held_for s (t ! idx m i j)" by simp
  also have "\<dots> \<le> best (t ! idx m i j)" by (rule held_for_best)
  finally show ?thesis .
qed

lemma held_bound:
  "path weight subst n m i j os \<Longrightarrow> i \<le> n \<Longrightarrow> j \<le> m \<Longrightarrow> os \<noteq> [] \<Longrightarrow> score weight i j os \<le> held_for (hd os) (t ! idx m i j)"
proof (induction os arbitrary: i j)
  case (Cons s os)
  show ?case
  proof (cases s)
    case Mat
    with Cons.prems have ij: "i < n" "j < m" "weight i j > 0" and p: "path weight subst n m (i + 1) (j + 1) os" by simp_all
    have "score weight (i + 1) (j + 1) os \<le> best (t ! idx m (i + 1) (j + 1))" using Cons.IH [OF p] ij by (intro path_best p) simp
    then show ?thesis using Mat ij by (simp add: inside_mat)
  next
    case Sub
    with Cons.prems have ij: "i < n" "j < m" "\<not> weight i j > 0" "subst i j" and p: "path weight subst n m (i + 1) (j + 1) os" by simp_all
    have "score weight (i + 1) (j + 1) os \<le> best (t ! idx m (i + 1) (j + 1))" using Cons.IH [OF p] ij by (intro path_best p) simp
    then show ?thesis using Sub ij by (simp add: inside_sub)
  next
    case Del
    with Cons.prems have i: "i < n" and p: "path weight subst n m (i + 1) j os" by simp_all
    show ?thesis
    proof (cases "j = m")
      case True
      with path_right_edge [of i "s # os"] Cons.prems i Del right_edge [OF i] show ?thesis by simp
    next
      case False
      with Cons.prems have j: "j < m" by simp
      with p obtain s2 rest where os: "os = s2 # rest" by (cases os) auto
      have "score weight (i + 1) j os \<le> held_for s2 (t ! idx m (i + 1) j)" using Cons.IH [OF p] i j os by simp
      then show ?thesis using Del os by (cases s2) (simp_all add: inside_del [OF i j] Let_def)
    qed
  next
    case Ins
    with Cons.prems have j: "j < m" and p: "path weight subst n m i (j + 1) os" by simp_all
    show ?thesis
    proof (cases "i = n")
      case True
      with path_bottom_edge [of j "s # os"] Cons.prems j Ins bottom_edge [OF j] show ?thesis by simp
    next
      case False
      with Cons.prems have i: "i < n" by simp
      with p obtain s2 rest where os: "os = s2 # rest" by (cases os) auto
      have "score weight i (j + 1) os \<le> held_for s2 (t ! idx m i (j + 1))" using Cons.IH [OF p] i j os by simp
      then show ?thesis using Ins os by (cases s2) (simp_all add: inside_ins [OF i j] Let_def)
    qed
  qed
qed simp

lemma best_bound: "path weight subst n m 0 0 os \<Longrightarrow> score weight 0 0 os \<le> best (t ! idx m 0 0)"
  using held_bound [of 0 0 os] by (intro path_best) simp_all

text \<open>Deleting the rest and inserting the rest is always possible, so what is held_for is far above the sentinel.\<close>

lemma del_lower: "i < n \<Longrightarrow> j \<le> m \<Longrightarrow> - 4 \<le> c_del (t ! idx m i j)"
proof (induction "n - i" arbitrary: i)
  case (Suc d)
  show ?case
  proof (cases "j = m")
    case True
    then show ?thesis using right_edge [OF Suc.prems(1)] by (simp add: gap_open_def)
  next
    case False
    with Suc.prems have j: "j < m" by simp
    show ?thesis
    proof (cases "Suc i < n")
      case True
      with Suc j have "- 4 \<le> c_del (t ! idx m (i + 1) j)" by simp
      then show ?thesis using inside_del [OF Suc.prems(1) j] by (simp add: Let_def)
    next
      case False
      with Suc.prems have "i + 1 = n" by simp
      then show ?thesis using inside_del [OF Suc.prems(1) j] bottom_edge [OF j] by (simp add: Let_def gap_open_def)
    qed
  qed
qed simp

lemma ins_lower: "i \<le> n \<Longrightarrow> j < m \<Longrightarrow> - 4 \<le> c_ins (t ! idx m i j)"
proof (induction "m - j" arbitrary: j)
  case (Suc d)
  show ?case
  proof (cases "i = n")
    case True
    then show ?thesis using bottom_edge [OF Suc.prems(2)] by (simp add: gap_open_def)
  next
    case False
    with Suc.prems have i: "i < n" by simp
    show ?thesis
    proof (cases "Suc j < m")
      case True
      with Suc i have "- 4 \<le> c_ins (t ! idx m i (j + 1))" by simp
      then show ?thesis using inside_ins [OF i Suc.prems(2)] by (simp add: Let_def)
    next
      case False
      with Suc.prems have "j + 1 = m" by simp
      then show ?thesis using inside_ins [OF i Suc.prems(2)] right_edge [OF i] by (simp add: Let_def gap_open_def)
    qed
  qed
qed simp

lemma best_lower:
  assumes "i \<le> n" "j \<le> m"
  shows "- 4 \<le> best (t ! idx m i j)"
proof (cases "i < n")
  case True
  then show ?thesis using del_lower [OF True assms(2)] by (simp add: best_def)
next
  case False
  then have i: "i = n" using assms by simp
  then show ?thesis using ins_lower [OF assms(1), of j] corner assms(2) by (cases "j < m") (auto simp: best_def)
qed

text \<open>A move whose score is not the sentinel is possible at its cell.\<close>

lemma live_Mat: "i \<le> n \<Longrightarrow> j \<le> m \<Longrightarrow> \<not> (i = n \<and> j = m) \<Longrightarrow> c_mat (t ! idx m i j) \<noteq> neg \<Longrightarrow> i < n \<and> j < m \<and> weight i j > 0"
  and live_Sub: "i \<le> n \<Longrightarrow> j \<le> m \<Longrightarrow> c_sub (t ! idx m i j) \<noteq> neg \<Longrightarrow> i < n \<and> j < m \<and> \<not> weight i j > 0 \<and> subst i j"
  and live_Del: "i \<le> n \<Longrightarrow> j \<le> m \<Longrightarrow> c_del (t ! idx m i j) \<noteq> neg \<Longrightarrow> i < n"
  and live_Ins: "i \<le> n \<Longrightarrow> j \<le> m \<Longrightarrow> c_ins (t ! idx m i j) \<noteq> neg \<Longrightarrow> j < m"
  using corner right_edge [of i] bottom_edge [of j] inside_mat [of i j] inside_sub [of i j]
  by (cases "i = n"; cases "j = m"; simp split: if_splits)+

lemma next_state_held: "held_for (next_state c (best c)) c = best c"
  by (simp add: next_state_def best_def max_def)

lemma pick_held: "held_for (pick c) c = best c"
  by (simp add: pick_def best_def max_def)

text \<open>One turn: what it leads to can be completed to an alignment that scores what the cell holds.\<close>

definition leads :: "nat \<Rightarrow> nat \<Rightarrow> move \<Rightarrow> nat \<times> nat \<times> move \<times> (nat \<times> nat) list \<Rightarrow> bool" where
  "leads i j s r \<longleftrightarrow>
     (case r of (i1, j1, s1, em) \<Rightarrow>
        i1 \<le> n \<and> j1 \<le> m \<and> (n - i1) + (m - j1) < (n - i) + (m - j) \<and>
        (\<forall>os. path weight subst n m i1 j1 os \<longrightarrow> path weight subst n m i j (s # os)) \<and>
        (\<forall>os. matches i j (s # os) = em @ matches i1 j1 os) \<and>
        (i1 = n \<and> j1 = m \<longrightarrow> score weight i j [s] = held_for s (t ! idx m i j)) \<and>
        (\<not> (i1 = n \<and> j1 = m) \<longrightarrow>
           held_for s1 (t ! idx m i1 j1) \<noteq> neg \<and>
           (\<forall>os. score weight i1 j1 (s1 # os) = held_for s1 (t ! idx m i1 j1) \<longrightarrow>
                 score weight i j (s # s1 # os) = held_for s (t ! idx m i j))))"

lemma leads_diag:
  assumes ij: "i < n" "j < m" and s: "s = Mat \<and> weight i j > 0 \<or> s = Sub \<and> \<not> weight i j > 0 \<and> subst i j"
  shows "leads i j s (trace_move weight t m i j s)"
proof -
  let ?k = "t ! idx m (i + 1) (j + 1)"
  let ?gain = "if s = Mat then uint (weight i j) else - sub_cost"
  have held_for: "held_for s (t ! idx m i j) = best ?k + ?gain" using s ij by (auto simp: inside_mat inside_sub)
  have mv: "trace_move weight t m i j s = (i + 1, j + 1, next_state ?k (best ?k), if s = Mat then [(i, j)] else [])"
    using s ij by (auto simp: trace_move_def inside_mat inside_sub)
  have low: "best ?k \<noteq> neg" using best_lower [of "i + 1" "j + 1"] ij neg_low by auto
  have sc: "score weight i j (s # os) = score weight (i + 1) (j + 1) os + ?gain" for os using s by auto
  have c: "best (t ! idx m n m) = 0" using corner by (simp add: best_def neg_def)
  have p: "path weight subst n m (i + 1) (j + 1) os \<Longrightarrow> path weight subst n m i j (s # os)" for os using s ij by auto
  have e: "matches i j (s # os) = (if s = Mat then [(i, j)] else []) @ matches (i + 1) (j + 1) os" for os using s by auto
  show ?thesis unfolding leads_def mv prod.case sc held_for next_state_held using ij low c p e by auto
qed

lemma leads_del:
  assumes ij: "i < n" "j \<le> m"
  shows "leads i j Del (trace_move weight t m i j Del)"
proof -
  let ?k = "t ! idx m (i + 1) j"
  let ?v = "c_del (t ! idx m i j)"
  define s1 where "s1 = (if c_del ?k = ?v then Del else if c_mat ?k - gap_open = ?v then Mat else if c_sub ?k - gap_open = ?v then Sub else Ins)"
  have mv: "trace_move weight t m i j Del = (i + 1, j, s1, [])" by (simp add: trace_move_def Let_def s1_def)
  have at: "\<not> (i + 1 = n \<and> j = m) \<Longrightarrow> held_for s1 ?k - (if s1 = Del then 0 else gap_open) = ?v"
  proof (cases "j = m")
    case True
    assume "\<not> (i + 1 = n \<and> j = m)"
    with True ij have "i + 1 < n" by simp
    then show ?thesis using True ij right_edge [of i] right_edge [of "i + 1"] by (simp add: s1_def)
  next
    case False
    with ij have "?v = max (max (max (c_mat ?k - gap_open) (c_sub ?k - gap_open)) (c_del ?k)) (c_ins ?k - gap_open)"
      using inside_del [of i j] by (simp add: Let_def)
    then show ?thesis unfolding s1_def by (auto simp: max_def split: if_splits)
  qed
  have low: "- 4 \<le> ?v" using del_lower ij by simp
  have edge: "score weight i j [Del] = ?v" if "i + 1 = n" "j = m" using that right_edge [OF ij(1)] by simp
  have live: "held_for s1 ?k \<noteq> neg" if "\<not> (i + 1 = n \<and> j = m)"
    using at [OF that] low neg_low by (auto simp: gap_open_def split: if_splits)
  show ?thesis unfolding leads_def mv prod.case using ij edge live at by (auto simp: diff_less_mono2)
qed

lemma leads_ins:
  assumes ij: "i \<le> n" "j < m"
  shows "leads i j Ins (trace_move weight t m i j Ins)"
proof -
  let ?k = "t ! idx m i (j + 1)"
  let ?v = "c_ins (t ! idx m i j)"
  define s1 where "s1 = (if c_ins ?k = ?v then Ins else if c_mat ?k - gap_open = ?v then Mat else if c_sub ?k - gap_open = ?v then Sub else Del)"
  have mv: "trace_move weight t m i j Ins = (i, j + 1, s1, [])" by (simp add: trace_move_def Let_def s1_def)
  have at: "\<not> (i = n \<and> j + 1 = m) \<Longrightarrow> held_for s1 ?k - (if s1 = Ins then 0 else gap_open) = ?v"
  proof (cases "i = n")
    case True
    assume "\<not> (i = n \<and> j + 1 = m)"
    with True ij have "j + 1 < m" by simp
    then show ?thesis using True ij bottom_edge [of j] bottom_edge [of "j + 1"] by (simp add: s1_def)
  next
    case False
    with ij have "?v = max (max (max (c_mat ?k - gap_open) (c_sub ?k - gap_open)) (c_ins ?k)) (c_del ?k - gap_open)"
      using inside_ins [of i j] by (simp add: Let_def)
    then show ?thesis unfolding s1_def by (auto simp: max_def split: if_splits)
  qed
  have low: "- 4 \<le> ?v" using ins_lower ij by simp
  have edge: "score weight i j [Ins] = ?v" if "i = n" "j + 1 = m" using that bottom_edge [OF ij(2)] by simp
  have live: "held_for s1 ?k \<noteq> neg" if "\<not> (i = n \<and> j + 1 = m)"
    using at [OF that] low neg_low by (auto simp: gap_open_def split: if_splits)
  show ?thesis unfolding leads_def mv prod.case using ij edge live at by (auto simp: diff_less_mono2)
qed

lemma trace_leads:
  assumes "i \<le> n" "j \<le> m" "\<not> (i = n \<and> j = m)" "held_for s (t ! idx m i j) \<noteq> neg"
  shows "leads i j s (trace_move weight t m i j s)"
proof (cases s)
  case Mat
  then show ?thesis using live_Mat [OF assms(1-3)] assms(4) leads_diag [of i j s] by simp
next
  case Sub
  then show ?thesis using live_Sub [OF assms(1,2)] assms(4) leads_diag [of i j s] by simp
next
  case Del
  then show ?thesis using live_Del [OF assms(1,2)] assms leads_del [of i j] by simp
next
  case Ins
  then show ?thesis using live_Ins [OF assms(1,2)] assms leads_ins [of i j] by simp
qed

text \<open>At an edge the state is the one the code sets.\<close>

lemma edge_state:
  "held_for s (t ! idx m i j) \<noteq> neg \<Longrightarrow> i \<le> n \<Longrightarrow> j \<le> m \<Longrightarrow> \<not> (i = n \<and> j = m) \<Longrightarrow>
   (if i = n then Ins else if j = m then Del else s) = s"
  using right_edge [of i] bottom_edge [of j] by (cases s) (auto split: if_splits)

lemma trace_loop_returns:
  assumes "(n - i) + (m - j) \<le> fuel" "i \<le> n" "j \<le> m" "\<not> (i = n \<and> j = m)" "held_for s (t ! idx m i j) \<noteq> neg"
  shows "\<exists>os. path weight subst n m i j (s # os) \<and> score weight i j (s # os) = held_for s (t ! idx m i j) \<and>
    trace_loop fuel weight t n m i j s out = Some (out @ matches i j (s # os))"
  using assms
proof (induction fuel arbitrary: i j s out)
  case 0
  then show ?case by auto
next
  case (Suc fuel)
  obtain i1 j1 s1 em where mv: "trace_move weight t m i j s = (i1, j1, s1, em)" by (cases "trace_move weight t m i j s")
  from trace_leads [OF Suc.prems(2-5)] have l: "i1 \<le> n" "j1 \<le> m" "(n - i1) + (m - j1) < (n - i) + (m - j)"
      "\<And>os. path weight subst n m i1 j1 os \<Longrightarrow> path weight subst n m i j (s # os)"
      "\<And>os. matches i j (s # os) = em @ matches i1 j1 os"
      "i1 = n \<and> j1 = m \<Longrightarrow> score weight i j [s] = held_for s (t ! idx m i j)"
      "\<not> (i1 = n \<and> j1 = m) \<Longrightarrow> held_for s1 (t ! idx m i1 j1) \<noteq> neg"
      "\<And>os. \<not> (i1 = n \<and> j1 = m) \<Longrightarrow> score weight i1 j1 (s1 # os) = held_for s1 (t ! idx m i1 j1) \<Longrightarrow>
         score weight i j (s # s1 # os) = held_for s (t ! idx m i j)"
    unfolding leads_def mv prod.case by blast+
  have g: "i < n \<or> j < m" using Suc.prems by auto
  show ?case
  proof (cases "i1 = n \<and> j1 = m")
    case True
    have "trace_loop (Suc fuel) weight t n m i j s out = Some (out @ em)"
      using g True by (simp add: trace_loop.simps [of "Suc fuel"] mv)
    moreover have "path weight subst n m i j [s]" using l(4) [of "[]"] True by simp
    ultimately show ?thesis using l(5) [of "[]"] l(6) [OF True] by (intro exI [of _ "[]"]) simp
  next
    case False
    have st: "(if i1 = n then Ins else if j1 = m then Del else s1) = s1" using edge_state [OF l(7) [OF False] l(1,2) False] .
    have run: "trace_loop (Suc fuel) weight t n m i j s out = trace_loop fuel weight t n m i1 j1 s1 (out @ em)"
    proof -
      have "trace_loop (Suc fuel) weight t n m i j s out =
          (if i1 = n \<and> j1 = m then Some (out @ em)
           else trace_loop fuel weight t n m i1 j1 (if i1 = n then Ins else if j1 = m then Del else s1) (out @ em))"
        using g by (simp add: trace_loop.simps [of "Suc fuel"] mv)
      then show ?thesis unfolding if_not_P [OF False] st .
    qed
    have "(n - i1) + (m - j1) \<le> fuel" using l(3) Suc.prems(1) by simp
    from Suc.IH [OF this l(1,2) False l(7) [OF False], of "out @ em"] obtain os where
      os: "path weight subst n m i1 j1 (s1 # os)" "score weight i1 j1 (s1 # os) = held_for s1 (t ! idx m i1 j1)"
        "trace_loop fuel weight t n m i1 j1 s1 (out @ em) = Some ((out @ em) @ matches i1 j1 (s1 # os))" by blast
    show ?thesis using l(4) [OF os(1)] l(8) [OF False os(2)] l(5) [of "s1 # os"] os(3)
      by (intro exI [of _ "s1 # os"]) (simp add: run)
  qed
qed

lemma trace_optimal:
  "\<exists>os. path weight subst n m 0 0 os \<and> score weight 0 0 os = best (t ! idx m 0 0) \<and>
     trace_loop (n + m) weight t n m 0 0 (pick (t ! idx m 0 0)) [] = Some (matches 0 0 os)"
proof (cases "n = 0 \<and> m = 0")
  case True
  then show ?thesis using corner by (intro exI [of _ "[]"]) (simp add: trace_loop.simps best_def neg_def)
next
  case False
  have "held_for (pick (t ! idx m 0 0)) (t ! idx m 0 0) \<noteq> neg" using best_lower [of 0 0] neg_low by (simp add: pick_held)
  from trace_loop_returns [of 0 0 "n + m", OF _ _ _ _ this, of "[]"] False show ?thesis by (auto simp: pick_held)
qed

end

subsection \<open>The tables of the code\<close>

lemma fold_upd_at:
  assumes "distinct xs" "inj_on f (set xs)" "\<forall>x \<in> set xs. f x < length t" "k < length t"
  shows "length (fold (\<lambda>x t. t[f x := h (t ! f x)]) xs t) = length t \<and>
    fold (\<lambda>x t. t[f x := h (t ! f x)]) xs t ! k = (if k \<in> f ` set xs then h (t ! k) else t ! k)"
  using assms
proof (induction xs arbitrary: t)
  case (Cons x xs)
  let ?t = "t[f x := h (t ! f x)]"
  have ih: "length (fold (\<lambda>x t. t[f x := h (t ! f x)]) xs ?t) = length ?t \<and>
    fold (\<lambda>x t. t[f x := h (t ! f x)]) xs ?t ! k = (if k \<in> f ` set xs then h (?t ! k) else ?t ! k)"
    using Cons.prems by (intro Cons.IH) auto
  have "f x \<notin> f ` set xs" using Cons.prems(1,2) by (auto simp: inj_on_def)
  then show ?case using ih Cons.prems by (cases "k = f x") (auto simp: nth_list_update)
qed simp

definition init_at :: "nat \<Rightarrow> nat \<Rightarrow> nat \<Rightarrow> nat \<Rightarrow> cells" where
  "init_at n m i j =
     \<lparr>c_mat = (if i = n \<and> j = m then 0 else neg), c_sub = neg,
      c_del = (if i < n \<and> j = m then - gap_open else neg), c_ins = (if i = n \<and> j < m then - gap_open else neg)\<rparr>"

lemma align_init_at:
  assumes "i \<le> n" "j \<le> m"
  shows "length (align_init n m) = (n + 1) * (m + 1) \<and> align_init n m ! idx m i j = init_at n m i j"
proof -
  define none where "none = \<lparr>c_mat = neg, c_sub = neg, c_del = neg, c_ins = neg\<rparr>"
  define t0 where "t0 = (replicate ((n + 1) * (m + 1)) none)[idx m n m := none\<lparr>c_mat := 0\<rparr>]"
  define t1 where "t1 = fold (\<lambda>i t. t[idx m i m := (t ! idx m i m)\<lparr>c_del := - gap_open\<rparr>]) (rev [0..<n]) t0"
  have less: "idx m k l < (n + 1) * (m + 1)" if "k \<le> n" "l \<le> m" for k l using cell_index_less [of k n l "m + 1"] that by (simp add: idx_def)
  have eq: "idx m k l = idx m p q \<longleftrightarrow> k = p \<and> l = q" if "l \<le> m" "q \<le> m" for k l p q
    using cell_index_inj [of l "m + 1" q k p] that by (simp add: idx_def)
  have l0: "length t0 = (n + 1) * (m + 1)" by (simp only: t0_def length_list_update length_replicate)
  have a0: "t0 ! idx m i j = none\<lparr>c_mat := (if i = n \<and> j = m then 0 else neg)\<rparr>"
    using eq [of m j n i] less [OF assms] assms by (auto simp: t0_def none_def nth_list_update simp del: mult_Suc mult_Suc_right)
  have u1: "length t1 = length t0 \<and> t1 ! idx m i j =
      (if idx m i j \<in> (\<lambda>i. idx m i m) ` set (rev [0..<n]) then (t0 ! idx m i j)\<lparr>c_del := - gap_open\<rparr> else t0 ! idx m i j)"
    using fold_upd_at [of "rev [0..<n]" "\<lambda>i. idx m i m" t0 "idx m i j" "c_del_update (\<lambda>_. - gap_open)"] less assms
    by (auto simp: inj_on_def eq l0 t1_def simp del: mult_Suc mult_Suc_right)
  have u2: "length (align_init n m) = length t1 \<and> align_init n m ! idx m i j =
      (if idx m i j \<in> (\<lambda>j. idx m n j) ` set (rev [0..<m]) then (t1 ! idx m i j)\<lparr>c_ins := - gap_open\<rparr> else t1 ! idx m i j)"
  proof -
    have "align_init n m = fold (\<lambda>j t. t[idx m n j := (t ! idx m n j)\<lparr>c_ins := - gap_open\<rparr>]) (rev [0..<m]) t1"
      unfolding align_init_def t1_def t0_def none_def Let_def ..
    then show ?thesis using fold_upd_at [of "rev [0..<m]" "\<lambda>j. idx m n j" t1 "idx m i j" "c_ins_update (\<lambda>_. - gap_open)"] u1 less assms
      by (auto simp: inj_on_def eq l0 simp del: mult_Suc mult_Suc_right)
  qed
  have m1: "idx m i j \<in> (\<lambda>i. idx m i m) ` set (rev [0..<n]) \<longleftrightarrow> i < n \<and> j = m" using eq assms by auto
  have m2: "idx m i j \<in> (\<lambda>j. idx m n j) ` set (rev [0..<m]) \<longleftrightarrow> i = n \<and> j < m" using eq assms by auto
  show ?thesis using u1 u2 l0 a0 unfolding m1 m2 by (auto simp: init_at_def none_def)
qed

lemma align_table_at:
  assumes "i \<le> n" "j \<le> m"
  shows "align_table n m weight subst ! idx m i j = cell_of (align_cell weight subst) n m (init_at n m) i j"
  unfolding align_table_def idx_def
  using align_init_at [of _ n _ m] assms by (intro fill_table_cells) (simp_all add: idx_def)

interpretation al: alignment n m weight subst "align_table n m weight subst" for n m weight subst
proof
  show "align_table n m weight subst ! idx m n m = \<lparr>c_mat = 0, c_sub = neg, c_del = neg, c_ins = neg\<rparr>"
    by (simp add: align_table_at cell_of_out init_at_def)
  show "align_table n m weight subst ! idx m i m = \<lparr>c_mat = neg, c_sub = neg, c_del = - gap_open, c_ins = neg\<rparr>" if "i < n" for i
    using that by (simp add: align_table_at cell_of_out init_at_def)
  show "align_table n m weight subst ! idx m n j = \<lparr>c_mat = neg, c_sub = neg, c_del = neg, c_ins = - gap_open\<rparr>" if "j < m" for j
    using that by (simp add: align_table_at cell_of_out init_at_def)
  show "align_table n m weight subst ! idx m i j =
      align_cell weight subst i j \<lparr>c_mat = neg, c_sub = neg, c_del = neg, c_ins = neg\<rparr>
        (align_table n m weight subst ! idx m (i + 1) (j + 1)) (align_table n m weight subst ! idx m (i + 1) j)
        (align_table n m weight subst ! idx m i (j + 1))" if "i < n" "j < m" for i j
    using that by (simp add: align_table_at cell_of_in) (simp add: init_at_def)
qed

text \<open>Every score in the tables is between the sentinel and the greatest weight times the length of the shorter sequence.\<close>

definition cell_fits :: "nat \<Rightarrow> cells \<Rightarrow> bool" where
  "cell_fits k c \<longleftrightarrow> (\<forall>s. neg \<le> held_for s c \<and> held_for s c \<le> 65535 * int k)"

lemma cell_fits_alt: "cell_fits k c \<longleftrightarrow> neg \<le> c_mat c \<and> neg \<le> c_sub c \<and> neg \<le> c_del c \<and> neg \<le> c_ins c \<and> best c \<le> 65535 * int k"
  unfolding cell_fits_def best_def by (auto simp: move_all)

lemma run_fits:
  "neg \<le> (c :: int) \<Longrightarrow> max (max (max a b) c) d \<le> B \<Longrightarrow> B \<le> C \<Longrightarrow>
   neg \<le> max (max (max (a - gap_open) (b - gap_open)) c) (d - gap_open) \<and>
   max (max (max (a - gap_open) (b - gap_open)) c) (d - gap_open) \<le> C"
  by (auto simp: gap_open_def le_max_iff_disj)

lemma align_cells_fit:
  "i \<le> n \<Longrightarrow> j \<le> m \<Longrightarrow> cell_fits (min (n - i) (m - j)) (align_table n m weight subst ! idx m i j)"
proof (induction "(n - i) + (m - j)" arbitrary: i j rule: less_induct)
  case less
  let ?c = "\<lambda>i j. align_table n m weight subst ! idx m i j"
  show ?case
  proof (cases "i < n \<and> j < m")
    case True
    then have ij: "i < n" "j < m" by simp_all
    have d: "cell_fits (min (n - (i + 1)) (m - (j + 1))) (?c (i + 1) (j + 1))" using less ij by (intro less.hyps) auto
    have e: "cell_fits (min (n - (i + 1)) (m - j)) (?c (i + 1) j)" using less ij by (intro less.hyps) auto
    have f: "cell_fits (min (n - i) (m - (j + 1))) (?c i (j + 1))" using less ij by (intro less.hyps) auto
    define u where "u = uint (weight i j)"
    have w: "0 \<le> u" "u \<le> 65535" unfolding u_def using uint_lt2p [of "weight i j"] by simp_all
    have k: "int (min (n - i) (m - j)) = int (min (n - (i + 1)) (m - (j + 1))) + 1"
        "int (min (n - (i + 1)) (m - j)) \<le> int (min (n - i) (m - j))" "int (min (n - i) (m - (j + 1))) \<le> int (min (n - i) (m - j))"
      using ij by simp_all
    have low: "- 4 \<le> best (?c (i + 1) (j + 1))" using ij by (intro al.best_lower) simp_all
    have mat: "neg \<le> c_mat (?c i j) \<and> c_mat (?c i j) \<le> 65535 * int (min (n - i) (m - j))"
      using d w low ij neg_low unfolding cell_fits_alt k(1) al.inside_mat [OF ij] u_def [symmetric] by auto
    have sub: "neg \<le> c_sub (?c i j) \<and> c_sub (?c i j) \<le> 65535 * int (min (n - i) (m - j))"
      using d low ij neg_low unfolding cell_fits_alt k(1) al.inside_sub [OF ij] by (auto simp: sub_cost_def)
    have del: "neg \<le> c_del (?c i j) \<and> c_del (?c i j) \<le> 65535 * int (min (n - i) (m - j))"
      unfolding al.inside_del [OF ij] Let_def 
      by (rule run_fits [where B = "65535 * int (min (n - (i + 1)) (m - j))"]) (use e k(2) in \<open>simp_all add: cell_fits_alt best_def\<close>)
    have ins: "neg \<le> c_ins (?c i j) \<and> c_ins (?c i j) \<le> 65535 * int (min (n - i) (m - j))"
      unfolding al.inside_ins [OF ij] Let_def 
      by (rule run_fits [where B = "65535 * int (min (n - i) (m - (j + 1)))"]) (use f k(3) in \<open>simp_all add: cell_fits_alt best_def\<close>)
    show ?thesis unfolding cell_fits_def using mat sub del ins by (simp add: move_all)
  next
    case False
    then show ?thesis using less.prems by (simp add: align_table_at cell_of_out init_at_def cell_fits_alt best_def neg_def gap_open_def)
  qed
qed

subsection \<open>The alignment is optimal\<close>

lemma matches_common:
  "path weight subst n m i j os \<Longrightarrow> common (\<lambda>i j. weight i j > 0) n m i j (matches i j os)"
proof (induction os arbitrary: i j)
  case (Cons s os)
  show ?case
  proof (cases s)
    case Mat
    with Cons have "common (\<lambda>i j. weight i j > 0) n m (i + 1) (j + 1) (matches (i + 1) (j + 1) os)" "i < n" "j < m" "weight i j > 0" by simp_all
    then show ?thesis using Mat by (fastforce simp: common_def)
  next
    case Sub
    with Cons have "common (\<lambda>i j. weight i j > 0) n m (i + 1) (j + 1) (matches (i + 1) (j + 1) os)" by simp
    then show ?thesis using Sub by (auto simp: common_def)
  next
    case Del
    with Cons have "common (\<lambda>i j. weight i j > 0) n m (i + 1) j (matches (i + 1) j os)" by simp
    then show ?thesis using Del by (auto simp: common_def)
  next
    case Ins
    with Cons have "common (\<lambda>i j. weight i j > 0) n m i (j + 1) (matches i (j + 1) os)" by simp
    then show ?thesis using Ins by (auto simp: common_def)
  qed
qed (simp add: common_def)

lemma align_common:
  "\<exists>ps. align n m weight subst = Some ps \<and> common (\<lambda>i j. weight i j > 0) n m 0 0 ps"
  using al.trace_optimal [of weight subst n m] matches_common by (fastforce simp: align_def Let_def)

text \<open>
  C18. The alignment returns, its pairs are matches whose indices both grow, and they are the matches of an
  alignment whose score no other alignment exceeds: a match earns its weight, a substitution costs one, a run
  of deletions or of insertions costs two. And no score of its tables leaves 32 bits while the weights of the
  shorter sequence together do not.
\<close>

theorem align_optimal:
  "(\<exists>os. path weight subst n m 0 0 os \<and> align n m weight subst = Some (matches 0 0 os) \<and>
      common (\<lambda>i j. weight i j > 0) n m 0 0 (matches 0 0 os) \<and>
      (\<forall>os2. path weight subst n m 0 0 os2 \<longrightarrow> score weight 0 0 os2 \<le> score weight 0 0 os)) \<and>
   (i \<le> n \<longrightarrow> j \<le> m \<longrightarrow> 65535 * int (min n m) < 2 ^ 31 \<longrightarrow>
      - (2 ^ 31) + 2 \<le> held_for s (align_table n m weight subst ! idx m i j) \<and>
      held_for s (align_table n m weight subst ! idx m i j) < 2 ^ 31)"
proof
  from al.trace_optimal [of weight subst n m] obtain os where
    os: "path weight subst n m 0 0 os" "score weight 0 0 os = best (align_table n m weight subst ! idx m 0 0)"
      "align n m weight subst = Some (matches 0 0 os)"
    by (auto simp: align_def Let_def)
  show "\<exists>os. path weight subst n m 0 0 os \<and> align n m weight subst = Some (matches 0 0 os) \<and>
      common (\<lambda>i j. weight i j > 0) n m 0 0 (matches 0 0 os) \<and>
      (\<forall>os2. path weight subst n m 0 0 os2 \<longrightarrow> score weight 0 0 os2 \<le> score weight 0 0 os)"
    using os matches_common [OF os(1)] al.best_bound [of weight subst n m] by (intro exI [of _ os]) simp
  show "i \<le> n \<longrightarrow> j \<le> m \<longrightarrow> 65535 * int (min n m) < 2 ^ 31 \<longrightarrow>
      - (2 ^ 31) + 2 \<le> held_for s (align_table n m weight subst ! idx m i j) \<and>
      held_for s (align_table n m weight subst ! idx m i j) < 2 ^ 31"
  proof (intro impI)
    assume h: "i \<le> n" "j \<le> m" "65535 * int (min n m) < 2 ^ 31"
    have pow31: "(2 :: int) ^ 31 = 2147483648" by simp
    have "neg \<le> held_for s (align_table n m weight subst ! idx m i j) \<and>
        held_for s (align_table n m weight subst ! idx m i j) \<le> 65535 * int (min (n - i) (m - j))"
      using align_cells_fit [OF h(1,2)] by (simp add: cell_fits_def)
    moreover have "min (n - i) (m - j) \<le> min n m" by (intro min.mono) simp_all
    then have "int (min (n - i) (m - j)) \<le> int (min n m)" by (simp only: of_nat_le_iff)
    ultimately show "- (2 ^ 31) + 2 \<le> held_for s (align_table n m weight subst ! idx m i j) \<and>
        held_for s (align_table n m weight subst ! idx m i j) < 2 ^ 31"
      using h(3) unfolding neg_def pow31 by (elim conjE) (intro conjI; linarith)
  qed
qed

text \<open>A keyword outweighs a slot: of \<open>user {u} from\<close> against \<open>user from\<close> the two keywords are matched.\<close>

definition keyword_weight :: "nat \<Rightarrow> nat \<Rightarrow> 16 word" where
  "keyword_weight i j = (if i = 0 \<and> j = 0 \<or> i = 2 \<and> j = 1 then 3 else if i = 1 then 1 else 0)"

lemma align_optimal_witness:
  "(\<exists>os. align 3 2 keyword_weight (\<lambda>_ _. True) = Some (matches 0 0 os) \<and> score keyword_weight 0 0 os \<ge> 4) \<and>
   held_for Mat (align_table 3 2 keyword_weight (\<lambda>_ _. True) ! idx 2 0 0) < 2 ^ 31"
proof -
  have p: "path keyword_weight (\<lambda>_ _. True) 3 2 0 0 [Mat, Del, Mat]" "score keyword_weight 0 0 [Mat, Del, Mat] = 4"
    by (simp_all add: keyword_weight_def gap_open_def)
  note o = align_optimal [of keyword_weight "\<lambda>_ _. True" 3 2 0 0 Mat]
  from conjunct1 [OF o] obtain os where
    os: "align 3 2 keyword_weight (\<lambda>_ _. True) = Some (matches 0 0 os)"
      "\<forall>os2. path keyword_weight (\<lambda>_ _. True) 3 2 0 0 os2 \<longrightarrow> score keyword_weight 0 0 os2 \<le> score keyword_weight 0 0 os"
    by blast
  from os(2) p have "4 \<le> score keyword_weight 0 0 os" by metis
  with os(1) conjunct2 [OF o] show ?thesis by auto
qed

end
