(* ===== verification/Ulpf_Columns.thy ===== *)
theory Ulpf_Columns
  imports Ulpf_Gotoh Ulpf_Token Ulpf_Time
begin

text \<open>
  From the lines of one cluster to columns, the first part of \<open>src/crates/ulpf-infer/src/cluster.rs\<close>:
  members are aligned one after the other against the columns found so far, and every column remembers
  which members carry it and what each has there. The products of floating point numbers are parameters.
\<close>

subsection \<open>Columns\<close>

record col =
  cl_kind :: tok_kind
  cl_text :: bytes
  cl_present :: "bool list"
  cl_variable :: bool
  cl_region :: bool
  cl_values :: "(nat \<times> tok_kind \<times> bytes) list"
  cl_optional :: bool

definition from_tok :: "tok \<Rightarrow> nat \<Rightarrow> nat \<Rightarrow> col" where
  "from_tok t member n =
     \<lparr>cl_kind = tk_kind t, cl_text = tk_text t, cl_present = (replicate n False)[member := True], cl_variable = False, cl_region = False,
      cl_values = (if is_variable (tk_kind t) then [(member, tk_kind t, tk_text t)] else []), cl_optional = False\<rparr>"

definition is_slot :: "col \<Rightarrow> bool" where
  "is_slot c \<longleftrightarrow> cl_variable c \<or> cl_region c \<or> is_variable (cl_kind c)"

definition present_count :: "col \<Rightarrow> nat" where
  "present_count c = length (filter id (cl_present c))"

definition here :: "col \<Rightarrow> nat \<Rightarrow> bool" where
  "here c m \<longleftrightarrow> m < length (cl_present c) \<and> cl_present c ! m"

definition value_for :: "col \<Rightarrow> nat \<Rightarrow> bytes option" where
  "value_for c m =
     (if \<not> here c m then None
      else case find (\<lambda>(i, _, _). i = m) (cl_values c) of Some (_, _, t) \<Rightarrow> Some t | None \<Rightarrow> Some (cl_text c))"

definition kind_for :: "col \<Rightarrow> nat \<Rightarrow> tok_kind" where
  "kind_for c m = (case find (\<lambda>(i, _, _). i = m) (cl_values c) of Some (_, k, _) \<Rightarrow> k | None \<Rightarrow> cl_kind c)"

definition col_weight :: "col \<Rightarrow> tok \<Rightarrow> 16 word" where
  "col_weight c t =
     (if cl_region c then 0
      else if cl_variable c then
        (case (cl_kind c, tk_kind t) of
           (_, TSpace) \<Rightarrow> 0 | (TSpace, _) \<Rightarrow> 0
         | (TAtom _, TAtom _) \<Rightarrow> 1 | (TAtom _, _) \<Rightarrow> 0 | (_, TAtom _) \<Rightarrow> 0
         | (TChain, TChain) \<Rightarrow> 1 | (TChain, _) \<Rightarrow> 0 | (_, TChain) \<Rightarrow> 0
         | _ \<Rightarrow> 1)
      else if \<not> same_shape (cl_kind c) (cl_text c) (tk_kind t) (tk_text t) then 0
      else (case cl_kind c of TWord \<Rightarrow> 3 | TPunct \<Rightarrow> 3 | TSpace \<Rightarrow> 1 | _ \<Rightarrow> 2))"

subsection \<open>One member against the columns\<close>

definition toks_text :: "tok list \<Rightarrow> bytes" where
  "toks_text ts = concat (map tk_text ts)"

text \<open>The member has a value of its own in the column.\<close>

definition put_value :: "nat \<Rightarrow> tok_kind \<Rightarrow> bytes \<Rightarrow> col \<Rightarrow> col" where
  "put_value m k t c = c\<lparr>cl_present := (cl_present c)[m := True], cl_values := cl_values c @ [(m, k, t)]\<rparr>"

definition region_value :: "col list \<Rightarrow> nat \<Rightarrow> (nat \<times> tok_kind \<times> bytes) option" where
  "region_value pc i =
     (let parts = filter (\<lambda>c. value_for c i \<noteq> None) pc
      in if parts = [] then None
         else Some (i, if length parts = 1 then kind_for (last parts) i else TWord, concat (map (\<lambda>c. the (value_for c i)) parts)))"

definition collapse :: "col list \<Rightarrow> tok list \<Rightarrow> nat \<Rightarrow> nat \<Rightarrow> col list" where
  "collapse pc mt m n =
     (if length pc = 1 then
        (let first = (case position (\<lambda>t. tk_kind t \<noteq> TSpace) mt of Some i \<Rightarrow> i | None \<Rightarrow> 0); t = mt ! first
         in map (\<lambda>t. from_tok t m n) (take first mt) @
            [put_value m (tk_kind t) (tk_text t) ((hd pc)\<lparr>cl_variable := True\<rparr>)] @
            map (\<lambda>t. from_tok t m n) (drop (first + 1) mt))
      else if length (filter (\<lambda>t. tk_kind t \<noteq> TSpace) mt) = 1 then
        (let t = hd (filter (\<lambda>t. tk_kind t \<noteq> TSpace) mt);
             first = (case position (\<lambda>c. cl_kind c \<noteq> TSpace) pc of Some i \<Rightarrow> i | None \<Rightarrow> 0)
         in pc[first := put_value m (tk_kind t) (tk_text t) ((pc ! first)\<lparr>cl_variable := True\<rparr>)])
      else
        (let vs = List.map_filter (region_value pc) [0..<n]
         in [\<lparr>cl_kind = TWord, cl_text = cl_text (hd pc),
              cl_present = (map (\<lambda>i. region_value pc i \<noteq> None) [0..<n])[m := True], cl_variable = True, cl_region = True,
              cl_values = vs @ [(m, if length mt = 1 then tk_kind (hd mt) else TWord, toks_text mt)], cl_optional = False\<rparr>]))"

definition gap :: "col list \<Rightarrow> tok list \<Rightarrow> nat \<Rightarrow> nat \<Rightarrow> col list" where
  "gap pc mt m n =
     (if pc = [] then map (\<lambda>t. from_tok t m n) mt
      else if mt = [] then pc
      else if length pc = 1 \<and> cl_region (hd pc) then [put_value m TWord (toks_text mt) (hd pc)]
      else if length pc = length mt \<and> list_all2 (\<lambda>c t. cl_kind c \<noteq> TSpace \<and> tk_kind t \<noteq> TSpace) pc mt
      then map2 (\<lambda>c t. put_value m (tk_kind t) (tk_text t) (c\<lparr>cl_variable := True\<rparr>)) pc mt
      else collapse pc mt m n)"

definition take_token :: "nat \<Rightarrow> tok \<Rightarrow> col \<Rightarrow> col" where
  "take_token m t c =
     (if is_slot c then put_value m (tk_kind t) (tk_text t) c else c\<lparr>cl_present := (cl_present c)[m := True]\<rparr>)"

text \<open>The anchors in order, each after the gap before it; the last pair is the two ends.\<close>

fun weave :: "col list \<Rightarrow> tok list \<Rightarrow> nat \<Rightarrow> nat \<Rightarrow> (nat \<times> nat) list \<Rightarrow> nat \<Rightarrow> nat \<Rightarrow> col list" where
  "weave cols ts m n [] p q = []"
| "weave cols ts m n ((i, j) # ps) p q =
     gap (take (i - p) (drop p cols)) (take (j - q) (drop q ts)) m n @
     (if i < length cols then [take_token m (ts ! j) (cols ! i)] else []) @
     weave cols ts m n ps (i + 1) (j + 1)"

text \<open>The alignment always returns (\<open>align_common\<close>).\<close>

definition align_member :: "col list \<Rightarrow> tok list \<Rightarrow> nat \<Rightarrow> nat \<Rightarrow> col list" where
  "align_member cols ts m n =
     (let pairs = (case align (length cols) (length ts) (\<lambda>i j. col_weight (cols ! i) (ts ! j))
                     (\<lambda>i j. cl_kind (cols ! i) \<noteq> TSpace \<and> \<not> cl_region (cols ! i) \<and> tk_kind (ts ! j) \<noteq> TSpace) of
                   Some ps \<Rightarrow> ps | None \<Rightarrow> [])
      in weave cols ts m n (pairs @ [(length cols, length ts)]) 0 0)"

fun align_members :: "nat \<Rightarrow> nat \<Rightarrow> tok list list \<Rightarrow> col list \<Rightarrow> col list" where
  "align_members n m [] cols = cols"
| "align_members n m (ts # tss) cols = align_members n (Suc m) tss (align_member cols ts m n)"

definition consensus :: "tok list list \<Rightarrow> col list" where
  "consensus members = align_members (length members) 1 (tl members) (map (\<lambda>t. from_tok t 0 (length members)) (hd members))"

subsection \<open>What a member has in the columns\<close>

definition col_text :: "nat \<Rightarrow> col \<Rightarrow> bytes" where
  "col_text m c = (case value_for c m of Some v \<Rightarrow> v | None \<Rightarrow> [])"

definition line_text :: "nat \<Rightarrow> col list \<Rightarrow> bytes" where
  "line_text m cols = concat (map (col_text m) cols)"

text \<open>A text without its blanks.\<close>

definition solid :: "bytes \<Rightarrow> bytes" where
  "solid s = filter (\<lambda>b. \<not> is_blank b) s"

lemma solid_append [simp]: "solid (s @ t) = solid s @ solid t"
  by (simp add: solid_def)

lemma solid_Nil [simp]: "solid [] = []"
  by (simp add: solid_def)

lemma solid_blank: "list_all is_blank s \<Longrightarrow> solid s = []"
  by (simp add: solid_def filter_empty_conv list_all_iff)

lemma line_text_simps [simp]:
  "line_text m [] = []" "line_text m (c # cs) = col_text m c @ line_text m cs"
  "line_text m (xs @ ys) = line_text m xs @ line_text m ys"
  by (simp_all add: line_text_def)

lemma toks_text_simps [simp]:
  "toks_text [] = []" "toks_text (t # ts) = tk_text t @ toks_text ts" "toks_text (xs @ ys) = toks_text xs @ toks_text ys"
  by (simp_all add: toks_text_def)

definition blank_ok :: "tok \<Rightarrow> bool" where
  "blank_ok t \<longleftrightarrow> (tk_kind t = TSpace \<longrightarrow> list_all is_blank (tk_text t))"

text \<open>Only the first \<open>k\<close> of \<open>n\<close> members have been seen by the column.\<close>

definition col_ok :: "nat \<Rightarrow> nat \<Rightarrow> col \<Rightarrow> bool" where
  "col_ok n k c \<longleftrightarrow> length (cl_present c) = n \<and> (\<forall>i. k \<le> i \<longrightarrow> \<not> here c i) \<and> (\<forall>v \<in> set (cl_values c). fst v < k) \<and>
     (cl_kind c = TSpace \<longrightarrow> list_all is_blank (cl_text c)) \<and> (cl_region c \<longrightarrow> cl_kind c = TWord)"

lemma find_snoc_other: "fst v \<noteq> m \<Longrightarrow> find (\<lambda>(i, _, _). i = m) (vs @ [v]) = find (\<lambda>(i, _, _). i = m) vs"
  by (induction vs) (auto split: prod.splits)

lemma find_snoc_new: "\<forall>v \<in> set vs. fst v \<noteq> m \<Longrightarrow> find (\<lambda>(i, _, _). i = m) (vs @ [(m, k, t)]) = Some (m, k, t)"
  by (induction vs) auto

lemma here_at: "here (c\<lparr>cl_present := (cl_present c)[m := True]\<rparr>) i \<longleftrightarrow> here c i \<or> (i = m \<and> m < length (cl_present c))"
  by (cases "i = m") (auto simp: here_def)

lemma put_value_here: "here (put_value m k t c) i \<longleftrightarrow> here c i \<or> (i = m \<and> m < length (cl_present c))"
  using here_at [of c m i] by (simp add: put_value_def here_def)

lemma col_text_alt:
  "col_text i c = (if here c i then (case find (\<lambda>(j, _, _). j = i) (cl_values c) of Some v \<Rightarrow> snd (snd v) | None \<Rightarrow> cl_text c) else [])"
  by (simp add: col_text_def value_for_def split: option.split prod.split)

lemma put_value_sel [simp]:
  "cl_values (put_value m k t c) = cl_values c @ [(m, k, t)]" "cl_text (put_value m k t c) = cl_text c"
  "cl_kind (put_value m k t c) = cl_kind c" "cl_region (put_value m k t c) = cl_region c"
  "length (cl_present (put_value m k t c)) = length (cl_present c)"
  by (simp_all add: put_value_def)

lemma put_value_other: "i \<noteq> m \<Longrightarrow> col_text i (put_value m k t c) = col_text i c"
  by (simp add: col_text_alt put_value_here find_snoc_other split: option.split)

lemma put_value_own:
  assumes "col_ok n m c" "m < n"
  shows "col_text m (put_value m k t c) = t"
proof -
  have "find (\<lambda>(i, _, _). i = m) (cl_values c @ [(m, k, t)]) = Some (m, k, t)"
    using assms(1) by (intro find_snoc_new) (auto simp: col_ok_def)
  then show ?thesis using assms by (simp add: col_text_alt put_value_here col_ok_def)
qed

lemma variable_same [simp]:
  "col_text i (c\<lparr>cl_variable := b\<rparr>) = col_text i c" "col_ok n k (c\<lparr>cl_variable := b\<rparr>) = col_ok n k c"
  by (simp_all add: col_text_alt here_def col_ok_def split: option.split)

lemma put_value_ok: "col_ok n m c \<Longrightarrow> m < n \<Longrightarrow> col_ok n (Suc m) (put_value m k t c)"
  by (auto simp: col_ok_def put_value_here less_Suc_eq)

lemma col_ok_Suc: "col_ok n m c \<Longrightarrow> col_ok n (Suc m) c"
  by (fastforce simp: col_ok_def)

lemma absent_text: "col_ok n m c \<Longrightarrow> col_text m c = []"
  by (simp add: col_ok_def col_text_alt)

lemma from_tok_here: "here (from_tok t m n) i \<longleftrightarrow> i = m \<and> m < n"
  by (cases "i = m") (auto simp: here_def from_tok_def)

lemma from_tok_text: "m < n \<Longrightarrow> col_text i (from_tok t m n) = (if i = m then tk_text t else [])"
  by (simp add: col_text_alt from_tok_here) (simp add: from_tok_def)

lemma from_tok_ok: "m < n \<Longrightarrow> blank_ok t \<Longrightarrow> col_ok n (Suc m) (from_tok t m n)"
  by (auto simp: col_ok_def from_tok_here blank_ok_def) (auto simp: from_tok_def split: if_splits)

lemma from_toks:
  assumes "m < n" "list_all blank_ok ts"
  shows "line_text i (map (\<lambda>t. from_tok t m n) ts) = (if i = m then toks_text ts else [])"
    "list_all (col_ok n (Suc m)) (map (\<lambda>t. from_tok t m n) ts)"
  using assms by (induction ts) (auto simp: from_tok_text from_tok_ok)

text \<open>What a gap must do: the earlier members keep their text exactly, the new one gets its own but for blanks.\<close>

definition gap_ok :: "nat \<Rightarrow> nat \<Rightarrow> col list \<Rightarrow> bytes \<Rightarrow> col list \<Rightarrow> bool" where
  "gap_ok n m pc text cs \<longleftrightarrow>
     list_all (col_ok n (Suc m)) cs \<and> (\<forall>i. i \<noteq> m \<longrightarrow> line_text i cs = line_text i pc) \<and> solid (line_text m cs) = solid text"

lemma absent_line: "list_all (col_ok n m) cs \<Longrightarrow> line_text m cs = []"
  by (induction cs) (auto simp: absent_text)

lemma cols_ok_Suc: "list_all (col_ok n m) cs \<Longrightarrow> list_all (col_ok n (Suc m)) cs"
  by (auto simp: list_all_iff intro: col_ok_Suc)

lemma gap_one_for_one:
  "length pc = length mt \<Longrightarrow> list_all (col_ok n m) pc \<Longrightarrow> m < n \<Longrightarrow>
   gap_ok n m pc (toks_text mt) (map2 (\<lambda>c t. put_value m (tk_kind t) (tk_text t) (c\<lparr>cl_variable := True\<rparr>)) pc mt)"
proof (induction pc mt rule: list_induct2)
  case (Cons c pc t mt)
  then have "col_text m (put_value m (tk_kind t) (tk_text t) (c\<lparr>cl_variable := True\<rparr>)) = tk_text t" by (intro put_value_own) simp_all
  then show ?case using Cons by (auto simp: gap_ok_def put_value_other put_value_ok)
qed (simp add: gap_ok_def)

lemma spaces_blank: "list_all blank_ok mt \<Longrightarrow> filter (\<lambda>t. tk_kind t \<noteq> TSpace) mt = [] \<Longrightarrow> solid (toks_text mt) = []"
  by (induction mt) (auto simp: blank_ok_def solid_blank split: if_splits)

lemma one_solid_token:
  "list_all blank_ok mt \<Longrightarrow> length (filter (\<lambda>t. tk_kind t \<noteq> TSpace) mt) = 1 \<Longrightarrow>
   solid (toks_text mt) = solid (tk_text (hd (filter (\<lambda>t. tk_kind t \<noteq> TSpace) mt)))"
proof (induction mt)
  case (Cons t mt)
  then show ?case
  proof (cases "tk_kind t = TSpace")
    case True
    then show ?thesis using Cons by (simp add: blank_ok_def solid_blank)
  next
    case False
    with Cons.prems have "filter (\<lambda>t. tk_kind t \<noteq> TSpace) mt = []" by simp
    then show ?thesis using spaces_blank [of mt] Cons.prems False by simp
  qed
qed simp

lemma nth_split: "i < length xs \<Longrightarrow> xs = take i xs @ [xs ! i] @ drop (i + 1) xs"
  by (simp add: id_take_nth_drop)

lemma collapse_one_column:
  assumes "list_all (col_ok n m) [c]" "m < n" "list_all blank_ok mt" "mt \<noteq> []"
  shows "gap_ok n m [c] (toks_text mt) (collapse [c] mt m n)"
proof -
  define f where "f = (case position (\<lambda>t. tk_kind t \<noteq> TSpace) mt of Some i \<Rightarrow> i | None \<Rightarrow> 0)"
  have f: "f < length mt" using assms(4) by (auto simp: f_def split: option.split dest: position_SomeD)
  have eq: "toks_text mt = toks_text (take f mt) @ tk_text (mt ! f) @ toks_text (drop (f + 1) mt)"
    using arg_cong [OF nth_split [OF f], of toks_text] by simp
  have "col_text m (put_value m (tk_kind (mt ! f)) (tk_text (mt ! f)) (c\<lparr>cl_variable := True\<rparr>)) = tk_text (mt ! f)"
    using assms by (intro put_value_own) simp_all
  moreover have "list_all blank_ok (take f mt)" "list_all blank_ok (drop (f + 1) mt)"
    using assms(3) by (auto simp: list_all_iff dest: in_set_takeD in_set_dropD)
  ultimately show ?thesis using assms(1,2) eq
    by (auto simp: collapse_def Let_def f_def [symmetric] gap_ok_def from_toks put_value_other put_value_ok)
qed

lemma line_text_update:
  "k < length pc \<Longrightarrow> line_text i (pc[k := c]) = line_text i (take k pc) @ col_text i c @ line_text i (drop (k + 1) pc)"
  by (simp add: upd_conv_take_nth_drop)

lemma collapse_one_token:
  assumes "list_all (col_ok n m) pc" "m < n" "list_all blank_ok mt" "pc \<noteq> []" "length pc \<noteq> 1"
    and "length (filter (\<lambda>t. tk_kind t \<noteq> TSpace) mt) = 1"
  shows "gap_ok n m pc (toks_text mt) (collapse pc mt m n)"
proof -
  define f where "f = (case position (\<lambda>c. cl_kind c \<noteq> TSpace) pc of Some i \<Rightarrow> i | None \<Rightarrow> 0)"
  define t where "t = hd (filter (\<lambda>t. tk_kind t \<noteq> TSpace) mt)"
  let ?c = "put_value m (tk_kind t) (tk_text t) ((pc ! f)\<lparr>cl_variable := True\<rparr>)"
  have f: "f < length pc" using assms(4) by (auto simp: f_def split: option.split dest: position_SomeD)
  have run: "collapse pc mt m n = pc[f := ?c]" using assms(5,6) by (simp add: collapse_def Let_def f_def t_def)
  have ok: "col_ok n m (pc ! f)" "list_all (col_ok n m) (take f pc)" "list_all (col_ok n m) (drop (f + 1) pc)"
    using assms(1) f by (auto simp: list_all_iff dest: in_set_takeD in_set_dropD)
  have own: "col_text m ?c = tk_text t" using ok(1) assms(2) by (intro put_value_own) simp_all
  have pc: "line_text i pc = line_text i (take f pc) @ col_text i (pc ! f) @ line_text i (drop (f + 1) pc)" for i
    using arg_cong [OF nth_split [OF f], of "line_text i"] by simp
  have "list_all (col_ok n (Suc m)) (pc[f := ?c])"
    using cols_ok_Suc [OF assms(1)] put_value_ok [of n m "(pc ! f)\<lparr>cl_variable := True\<rparr>"] ok(1) assms(2)
    by (auto simp: list_all_iff dest!: set_update_subset_insert [THEN subsetD])
  moreover have "line_text i (pc[f := ?c]) = line_text i pc" if "i \<noteq> m" for i
    using that f by (simp add: line_text_update pc put_value_other)
  moreover have "solid (line_text m (pc[f := ?c])) = solid (toks_text mt)"
    using f own ok absent_line [OF ok(2)] absent_line [OF ok(3)] one_solid_token [OF assms(3,6)]
    by (simp add: line_text_update t_def)
  ultimately show ?thesis unfolding run gap_ok_def by blast
qed

text \<open>A region holds what its columns held, for every member.\<close>

lemma find_map_filter:
  assumes "\<And>j v. f j = Some v \<Longrightarrow> fst v = j"
  shows "find (\<lambda>(j, _, _). j = i) (List.map_filter f xs) = (if i \<in> set xs then f i else None)"
proof (induction xs)
  case Nil
  show ?case by (simp add: List.map_filter_def)
next
  case (Cons x xs)
  have head: "List.map_filter f (x # xs) = (case f x of Some v \<Rightarrow> v # List.map_filter f xs | None \<Rightarrow> List.map_filter f xs)"
    by (simp add: List.map_filter_def split: option.split)
  show ?case
  proof (cases "f x")
    case None
    then show ?thesis using Cons head by auto
  next
    case (Some v)
    then show ?thesis using Cons head assms [OF Some] by (cases v) auto
  qed
qed

lemma region_value_text:
  "region_value pc i = None \<longleftrightarrow> (\<forall>c \<in> set pc. value_for c i = None)"
  "region_value pc i = Some v \<Longrightarrow> fst v = i \<and> snd (snd v) = line_text i pc"
proof -
  have parts: "concat (map (\<lambda>c. the (value_for c i)) (filter (\<lambda>c. value_for c i \<noteq> None) pc)) = line_text i pc"
    by (induction pc) (auto simp: col_text_def)
  show "region_value pc i = None \<longleftrightarrow> (\<forall>c \<in> set pc. value_for c i = None)"
    by (simp add: region_value_def Let_def filter_empty_conv)
  show "fst v = i \<and> snd (snd v) = line_text i pc" if "region_value pc i = Some v"
    using that parts by (auto simp: region_value_def Let_def split: if_splits)
qed

lemma no_values: "\<forall>c \<in> set pc. value_for c i = None \<Longrightarrow> line_text i pc = []"
  by (induction pc) (auto simp: col_text_def)

lemma value_for_none: "value_for c i = None \<longleftrightarrow> \<not> here c i"
  by (auto simp: value_for_def split: option.splits)

text \<open>A region built from columns over the members below \<open>n\<close>, with the value of one more.\<close>

definition region_col :: "col list \<Rightarrow> nat \<Rightarrow> bool list \<Rightarrow> (nat \<times> tok_kind \<times> bytes) list \<Rightarrow> bytes \<Rightarrow> bool \<Rightarrow> col" where
  "region_col pc n present extra txt opt =
     \<lparr>cl_kind = TWord, cl_text = txt, cl_present = present, cl_variable = True, cl_region = True,
      cl_values = List.map_filter (region_value pc) [0..<n] @ extra, cl_optional = opt\<rparr>"

lemma find_append: "find P (xs @ ys) = (case find P xs of Some x \<Rightarrow> Some x | None \<Rightarrow> find P ys)"
  by (induction xs) auto

lemma region_col_text:
  assumes "i < n" "present ! i \<longleftrightarrow> region_value pc i \<noteq> None" "length present = n"
  shows "col_text i (region_col pc n present extra txt opt) = line_text i pc"
proof -
  have "find (\<lambda>(j, _, _). j = i) (List.map_filter (region_value pc) [0..<n]) = region_value pc i"
    using assms(1) by (subst find_map_filter) (auto dest: region_value_text(2))
  then show ?thesis using assms no_values [of pc i]
    by (cases "region_value pc i")
      (auto simp: col_text_alt here_def region_col_def find_append region_value_text(1) dest: region_value_text(2))
qed

lemma collapse_region:
  assumes ok: "list_all (col_ok n m) pc" and m: "m < n"
    and run: "collapse pc mt m n =
      [region_col pc n ((map (\<lambda>i. region_value pc i \<noteq> None) [0..<n])[m := True]) [(m, k, toks_text mt)] (cl_text (hd pc)) False]"
  shows "gap_ok n m pc (toks_text mt) (collapse pc mt m n)"
proof -
  let ?present = "(map (\<lambda>i. region_value pc i \<noteq> None) [0..<n])[m := True]"
  let ?c = "region_col pc n ?present [(m, k, toks_text mt)] (cl_text (hd pc)) False"
  have gone: "value_for c i = None" if "c \<in> set pc" "m \<le> i" for c i
    using that ok by (auto simp: value_for_none col_ok_def list_all_iff)
  then have above: "region_value pc i = None" if "m \<le> i" for i using that by (simp add: region_value_text(1))
  have outside: "line_text i pc = []" if "m \<le> i" for i using no_values gone that by blast
  have here: "here ?c i \<longleftrightarrow> i = m \<or> i < n \<and> region_value pc i \<noteq> None" for i
    using m by (cases "i = m") (auto simp: here_def region_col_def)
  have own: "col_text m ?c = toks_text mt"
  proof -
    have "find (\<lambda>(j, _, _). j = m) (List.map_filter (region_value pc) [0..<n]) = None"
      using above [of m] by (subst find_map_filter) (auto dest: region_value_text(2))
    then show ?thesis using here [of m] by (simp add: col_text_alt) (simp add: region_col_def find_append)
  qed
  have old: "col_text i ?c = line_text i pc" if "i \<noteq> m" for i
  proof (cases "i < n")
    case True
    then show ?thesis using that by (intro region_col_text) simp_all
  next
    case False
    then show ?thesis using here [of i] that m outside [of i] by (simp add: col_text_alt)
  qed
  have "col_ok n (Suc m) ?c"
    unfolding col_ok_def
  proof (intro conjI allI impI ballI)
    show "length (cl_present ?c) = n" by (simp add: region_col_def)
    show "\<not> here ?c i" if "Suc m \<le> i" for i using here [of i] above [of i] that by simp
    show "fst v < Suc m" if "v \<in> set (cl_values ?c)" for v
    proof -
      from that consider "v = (m, k, toks_text mt)" | i where "i < n" "region_value pc i = Some v"
        by (auto simp: region_col_def List.map_filter_def)
      then show ?thesis
      proof cases
        case 2
        then have "fst v = i" "\<not> m \<le> i" using region_value_text(2) above [of i] by auto
        then show ?thesis by simp
      qed simp
    qed
  qed (simp_all add: region_col_def)
  then show ?thesis using own old unfolding run gap_ok_def by simp
qed

lemma collapse_ok:
  assumes "list_all (col_ok n m) pc" "m < n" "list_all blank_ok mt" "pc \<noteq> []" "mt \<noteq> []"
  shows "gap_ok n m pc (toks_text mt) (collapse pc mt m n)"
proof (cases "length pc = 1")
  case True
  then obtain c where "pc = [c]" by (cases pc) auto
  then show ?thesis using collapse_one_column [of n m c mt] assms by simp
next
  case many: False
  show ?thesis
  proof (cases "length (filter (\<lambda>t. tk_kind t \<noteq> TSpace) mt) = 1")
    case True
    then show ?thesis using collapse_one_token assms many by blast
  next
    case False
    then show ?thesis using many
      by (intro collapse_region [OF assms(1,2)]) (simp add: collapse_def Let_def region_col_def)
  qed
qed

lemma gap_ok_gap:
  assumes "list_all (col_ok n m) pc" "m < n" "list_all blank_ok mt"
  shows "gap_ok n m pc (toks_text mt) (gap pc mt m n)"
proof -
  consider "pc = []" | "pc \<noteq> []" "mt = []" | c where "pc = [c]" "cl_region c" "mt \<noteq> []"
    | "pc \<noteq> []" "mt \<noteq> []" "\<not> (length pc = 1 \<and> cl_region (hd pc))"
    by (cases pc rule: list.exhaust; cases "tl pc"; cases mt) auto
  then show ?thesis
  proof cases
    case 1
    then show ?thesis using from_toks [OF assms(2,3)] by (simp add: gap_def gap_ok_def)
  next
    case 2
    then show ?thesis using assms cols_ok_Suc absent_line by (simp add: gap_def gap_ok_def)
  next
    case (3 c)
    then have "col_text m (put_value m TWord (toks_text mt) c) = toks_text mt" using assms by (intro put_value_own) simp_all
    then show ?thesis using 3 assms by (simp add: gap_def gap_ok_def put_value_other put_value_ok)
  next
    case 4
    then show ?thesis using gap_one_for_one [of pc mt n m] collapse_ok [OF assms] assms by (auto simp: gap_def)
  qed
qed

lemma gap_ok_append:
  "gap_ok n m a x cs \<Longrightarrow> gap_ok n m b y ds \<Longrightarrow> gap_ok n m (a @ b) (x @ y) (cs @ ds)"
  by (simp add: gap_ok_def)

lemma present_own: "col_ok n m c \<Longrightarrow> m < n \<Longrightarrow> col_text m (c\<lparr>cl_present := (cl_present c)[m := True]\<rparr>) = cl_text c"
proof -
  assume c: "col_ok n m c" "m < n"
  then have "find (\<lambda>(i, _, _). i = m) (cl_values c) = None" by (auto simp: find_None_iff col_ok_def)
  then show ?thesis using c by (simp add: col_text_alt here_at col_ok_def)
qed

lemma present_other: "i \<noteq> m \<Longrightarrow> col_text i (c\<lparr>cl_present := (cl_present c)[m := True]\<rparr>) = col_text i c"
  by (simp add: col_text_alt here_at split: option.split)

lemma weight_same_text:
  assumes "col_weight c t > 0" "\<not> is_slot c" "cl_kind c = TSpace \<Longrightarrow> list_all is_blank (cl_text c)" "blank_ok t"
  shows "solid (cl_text c) = solid (tk_text t)"
proof -
  have s: "same_shape (cl_kind c) (cl_text c) (tk_kind t) (tk_text t)" "\<not> is_variable (cl_kind c)"
    using assms(1,2) by (auto simp: col_weight_def is_slot_def split: if_splits)
  then show ?thesis using assms(3,4)
    by (cases "cl_kind c"; cases "tk_kind t") (auto simp: same_shape_def is_variable_def blank_ok_def solid_blank)
qed

lemma take_token_ok:
  assumes "col_ok n m c" "m < n" "blank_ok t" "col_weight c t > 0"
  shows "gap_ok n m [c] (tk_text t) [take_token m t c]"
proof (cases "is_slot c")
  case True
  then show ?thesis using assms put_value_own [OF assms(1,2)] put_value_ok [OF assms(1,2)]
    by (simp add: gap_ok_def take_token_def put_value_other)
next
  case False
  have "col_ok n (Suc m) (c\<lparr>cl_present := (cl_present c)[m := True]\<rparr>)"
    using assms(1,2) by (auto simp: col_ok_def here_at less_Suc_eq)
  moreover have "solid (cl_text c) = solid (tk_text t)" using assms False by (intro weight_same_text) (auto simp: col_ok_def)
  ultimately show ?thesis using False present_own [OF assms(1,2)] by (simp add: gap_ok_def take_token_def present_other)
qed

lemma drop_cut: "p \<le> i \<Longrightarrow> i < length xs \<Longrightarrow> drop p xs = take (i - p) (drop p xs) @ [xs ! i] @ drop (i + 1) xs"
proof -
  assume "p \<le> i" "i < length xs"
  then have "drop p xs = take (i - p) (drop p xs) @ [drop p xs ! (i - p)] @ drop (i - p + 1) (drop p xs)" by (intro nth_split) simp
  then show ?thesis using \<open>p \<le> i\<close> \<open>i < length xs\<close> by simp
qed

lemma toks_ok_part: "list_all blank_ok ts \<Longrightarrow> list_all blank_ok (take k (drop q ts))"
  by (auto simp: list_all_iff dest!: in_set_takeD in_set_dropD)

lemma cols_ok_part: "list_all (col_ok n m) cols \<Longrightarrow> list_all (col_ok n m) (take k (drop q cols))"
  by (auto simp: list_all_iff dest!: in_set_takeD in_set_dropD)

lemma weave_ok:
  assumes "list_all (col_ok n m) cols" "m < n" "list_all blank_ok ts"
  shows "common (\<lambda>i j. col_weight (cols ! i) (ts ! j) > 0) (length cols) (length ts) p q ps \<Longrightarrow>
    p \<le> length cols \<Longrightarrow> q \<le> length ts \<Longrightarrow>
    gap_ok n m (drop p cols) (toks_text (drop q ts)) (weave cols ts m n (ps @ [(length cols, length ts)]) p q)"
proof (induction ps arbitrary: p q)
  case Nil
  then show ?case using gap_ok_gap [of n m "drop p cols" "drop q ts"] cols_ok_part [OF assms(1), of "length cols - p" p]
      toks_ok_part [OF assms(3), of "length ts - q" q] assms(2) by simp
next
  case (Cons ij ps)
  obtain i j where ij: "ij = (i, j)" by (cases ij)
  have b: "p \<le> i" "i < length cols" "q \<le> j" "j < length ts" "col_weight (cols ! i) (ts ! j) > 0"
    using Cons.prems(1) by (auto simp: common_def ij)
  have rest: "common (\<lambda>i j. col_weight (cols ! i) (ts ! j) > 0) (length cols) (length ts) (i + 1) (j + 1) ps"
    using Cons.prems(1) by (auto simp: common_def ij Suc_le_eq)
  have g: "gap_ok n m (take (i - p) (drop p cols)) (toks_text (take (j - q) (drop q ts)))
      (gap (take (i - p) (drop p cols)) (take (j - q) (drop q ts)) m n)"
    using assms by (intro gap_ok_gap cols_ok_part toks_ok_part)
  have a: "gap_ok n m [cols ! i] (tk_text (ts ! j)) [take_token m (ts ! j) (cols ! i)]"
    using assms b by (intro take_token_ok) (simp_all add: list_all_length)
  have r: "gap_ok n m (drop (i + 1) cols) (toks_text (drop (j + 1) ts)) (weave cols ts m n (ps @ [(length cols, length ts)]) (i + 1) (j + 1))"
    using Cons.IH [OF rest] b by simp
  have c: "drop p cols = take (i - p) (drop p cols) @ [cols ! i] @ drop (i + 1) cols" using b by (intro drop_cut)
  have "drop q ts = take (j - q) (drop q ts) @ [ts ! j] @ drop (j + 1) ts" using b by (intro drop_cut)
  then have t: "toks_text (drop q ts) = toks_text (take (j - q) (drop q ts)) @ tk_text (ts ! j) @ toks_text (drop (j + 1) ts)"
    by (metis toks_text_simps append_Nil2)
  have w: "weave cols ts m n ((ij # ps) @ [(length cols, length ts)]) p q =
      gap (take (i - p) (drop p cols)) (take (j - q) (drop q ts)) m n @ [take_token m (ts ! j) (cols ! i)] @
      weave cols ts m n (ps @ [(length cols, length ts)]) (i + 1) (j + 1)"
    using b by (simp add: ij)
  show ?case unfolding w t by (subst c) (intro gap_ok_append g a r)
qed

lemma align_member_ok:
  assumes "list_all (col_ok n m) cols" "m < n" "list_all blank_ok ts"
  shows "gap_ok n m cols (toks_text ts) (align_member cols ts m n)"
proof -
  obtain ps where ps: "align (length cols) (length ts) (\<lambda>i j. col_weight (cols ! i) (ts ! j))
      (\<lambda>i j. cl_kind (cols ! i) \<noteq> TSpace \<and> \<not> cl_region (cols ! i) \<and> tk_kind (ts ! j) \<noteq> TSpace) = Some ps"
    "common (\<lambda>i j. col_weight (cols ! i) (ts ! j) > 0) (length cols) (length ts) 0 0 ps"
    using align_common by blast
  from weave_ok [OF assms ps(2)] show ?thesis by (simp add: align_member_def ps(1))
qed

lemma align_members_ok:
  assumes "length tss + m = n" "list_all (list_all blank_ok) tss" "list_all (col_ok n m) cols"
  shows "list_all (col_ok n n) (align_members n m tss cols) \<and>
    (\<forall>i < m. line_text i (align_members n m tss cols) = line_text i cols) \<and>
    (\<forall>i < length tss. solid (line_text (m + i) (align_members n m tss cols)) = solid (toks_text (tss ! i)))"
  using assms
proof (induction tss arbitrary: m cols)
  case (Cons ts tss)
  let ?cols = "align_member cols ts m n"
  have g: "gap_ok n m cols (toks_text ts) ?cols" using Cons.prems by (intro align_member_ok) auto
  then have ih: "list_all (col_ok n n) (align_members n (Suc m) tss ?cols) \<and>
      (\<forall>i < Suc m. line_text i (align_members n (Suc m) tss ?cols) = line_text i ?cols) \<and>
      (\<forall>i < length tss. solid (line_text (Suc m + i) (align_members n (Suc m) tss ?cols)) = solid (toks_text (tss ! i)))"
    using Cons.prems by (intro Cons.IH) (auto simp: gap_ok_def)
  have "solid (line_text (m + i) (align_members n m (ts # tss) cols)) = solid (toks_text ((ts # tss) ! i))" if "i < length (ts # tss)" for i
    using that ih g by (cases i) (auto simp: gap_ok_def)
  then show ?case using ih g by (auto simp: gap_ok_def)
qed simp

lemma consensus_ok:
  assumes "members \<noteq> []" "list_all (list_all blank_ok) members"
  shows "list_all (col_ok (length members) (length members)) (consensus members) \<and>
    (\<forall>i < length members. solid (line_text i (consensus members)) = solid (toks_text (members ! i)))"
proof -
  obtain ts tss where m: "members = ts # tss" using assms(1) by (cases members) auto
  let ?n = "length members" and ?cols = "map (\<lambda>t. from_tok t 0 (length members)) ts"
  have c: "line_text i ?cols = (if i = 0 then toks_text ts else [])" "list_all (col_ok ?n 1) ?cols" for i
    using from_toks [of 0 ?n ts] assms(2) by (simp_all add: m)
  have a: "list_all (col_ok ?n ?n) (align_members ?n 1 tss ?cols) \<and>
    (\<forall>i < 1. line_text i (align_members ?n 1 tss ?cols) = line_text i ?cols) \<and>
    (\<forall>i < length tss. solid (line_text (1 + i) (align_members ?n 1 tss ?cols)) = solid (toks_text (tss ! i)))"
    using assms(2) c by (intro align_members_ok) (simp_all add: m)
  have "solid (line_text i (consensus members)) = solid (toks_text (members ! i))" if "i < ?n" for i
    using that a c by (cases i) (auto simp: consensus_def m)
  then show ?thesis using a by (simp add: consensus_def m)
qed

end
