(* ===== verification/Ulpf_Cluster.thy ===== *)
theory Ulpf_Cluster
  imports Ulpf_Columns Ulpf_Value "HOL-Library.Multiset" "HOL-Library.Char_ord" "HOL-Library.List_Lexorder"
begin

text \<open>
  What is decided on the columns of a cluster before its template is written, in
  \<open>src/crates/ulpf-infer/src/cluster.rs\<close>: presence, the collapse of free text into one slot, and the split
  of a cluster on a keyword. The index loops run over the rest of the columns here. A product of floating
  point numbers is a field of the parameters; lower case is that of ASCII.
\<close>

record 'f params =
  pm_similarity :: 'f
  pm_min_support :: nat
  pm_enum_max :: nat
  pm_rare_share :: "nat \<Rightarrow> nat"
  pm_max_templates :: nat

text \<open>\<open>pm_rare_share n\<close> is \<open>(n as f64 * rare_share).ceil() as usize\<close>.\<close>

definition rare_count :: "nat \<Rightarrow> 'f params \<Rightarrow> nat" where
  "rare_count n p = max 2 (pm_rare_share p n)"

subsection \<open>Presence\<close>

fun presence_rules :: "col list \<Rightarrow> nat \<Rightarrow> nat \<Rightarrow> col list \<times> bytes list" where
  "presence_rules [] n rare = ([], [])"
| "presence_rules (c # cs) n rare =
     (let p = present_count c; absent = n - p; (out, notes) = presence_rules cs n rare;
          shown = ''`'' @ utf8_lossy (cl_text c) @ ''`''
      in if absent = 0 then (c # out, notes)
         else if p < rare then
           (out, (''dropped '' @ shown @ '': present in '' @ dec p @ ''/'' @ dec n @ '' lines (junk below '' @ dec rare @ '')'') # notes)
         else if absent < rare then
           (c # out, (shown @ '' required although absent in '' @ dec absent @ ''/'' @ dec n @ '' lines (rare absence, damaged lines fail)'') # notes)
         else (c\<lparr>cl_optional := True\<rparr> # out, (shown @ '' optional: present in '' @ dec p @ ''/'' @ dec n @ '' lines'') # notes))"

subsection \<open>Collapsing free text\<close>

definition typed_kind :: "tok_kind \<Rightarrow> bool" where
  "typed_kind k = (case k of TAtom _ \<Rightarrow> True | TQuoted \<Rightarrow> True | TChain \<Rightarrow> True | _ \<Rightarrow> False)"

definition is_wordish_slot :: "col \<Rightarrow> bool" where
  "is_wordish_slot c \<longleftrightarrow> is_slot c \<and> \<not> typed_kind (cl_kind c) \<and> list_all (\<lambda>(_, k, _). \<not> typed_kind k) (cl_values c)"

definition is_anchor :: "col \<Rightarrow> bool" where
  "is_anchor c \<longleftrightarrow> (\<not> is_slot c \<and> \<not> cl_optional c \<and> cl_kind c \<noteq> TSpace) \<or> typed_kind (cl_kind c) \<or>
     list_ex (\<lambda>(_, k, _). typed_kind k) (cl_values c)"

text \<open>The columns of a run become one free text column.\<close>

definition collapsed_run :: "col list \<Rightarrow> nat \<Rightarrow> col" where
  "collapsed_run run n =
     (let present = map (\<lambda>m. region_value run m \<noteq> None) [0..<n]
      in \<lparr>cl_kind = TWord, cl_text = cl_text (hd run), cl_present = present, cl_variable = True, cl_region = True,
          cl_values = map (\<lambda>(m, _, t). (m, TWord, t)) (List.map_filter (region_value run) [0..<n]),
          cl_optional = list_ex Not present\<rparr>)"

definition trims :: "col \<Rightarrow> bool" where
  "trims c \<longleftrightarrow> cl_kind c = TSpace \<and> \<not> cl_optional c \<and> \<not> is_slot c"

text \<open>A stretch between anchors without the required spaces at its ends, and whether it is alignment residue.\<close>

definition stretch_parts :: "col list \<Rightarrow> col list \<times> col list \<times> col list" where
  "stretch_parts run =
     (let lead = takeWhile trims run; rest = dropWhile trims run;
          trail = rev (takeWhile trims (rev rest)); body = rev (dropWhile trims (rev rest))
      in (lead, body, trail))"

definition messy :: "col list \<Rightarrow> bool" where
  "messy body \<longleftrightarrow>
     (let wordish = length (filter is_wordish_slot body);
          optional = length (filter (\<lambda>c. cl_optional c \<and> \<not> is_slot c \<and> cl_kind c = TPunct) body);
          keyword = list_ex (\<lambda>c. cl_optional c \<and> \<not> is_slot c \<and> cl_kind c = TWord) body
      in wordish \<ge> 2 \<or> (wordish \<ge> 1 \<and> optional \<ge> 2 \<and> \<not> keyword))"

definition messy_note :: "col list \<Rightarrow> bytes" where
  "messy_note body =
     dec (length body) @ '' columns ('' @ dec (length (filter is_wordish_slot body)) @ '' free-text slots, '' @
     dec (length (filter (\<lambda>c. cl_optional c \<and> \<not> is_slot c \<and> cl_kind c = TPunct) body)) @
     '' optional) between anchors collapsed into one text slot''"

lemma stretch_parts_join: "stretch_parts run = (lead, body, trail) \<Longrightarrow> run = lead @ body @ trail"
proof -
  assume "stretch_parts run = (lead, body, trail)"
  then have p: "lead = takeWhile trims run" "body = rev (dropWhile trims (rev (dropWhile trims run)))"
      "trail = rev (takeWhile trims (rev (dropWhile trims run)))"
    by (simp_all add: stretch_parts_def Let_def)
  have "body @ trail = dropWhile trims run" unfolding p(2,3) by (metis rev_append rev_rev_ident takeWhile_dropWhile_id)
  then show ?thesis by (simp add: p(1))
qed

lemma messy_not_empty: "messy body \<Longrightarrow> body \<noteq> []"
  by (auto simp: messy_def)

lemma stretch_shorter:
  "(lead, body, trail) = stretch_parts (c # takeWhile P cs) \<Longrightarrow> messy body \<Longrightarrow>
   length trail + length (dropWhile P cs) < Suc (length cs)"
proof -
  assume p: "(lead, body, trail) = stretch_parts (c # takeWhile P cs)" "messy body"
  have "Suc (length (takeWhile P cs)) = length lead + length body + length trail"
    using arg_cong [OF stretch_parts_join [OF p(1) [symmetric]], of length] by simp
  moreover have "length (takeWhile P cs) + length (dropWhile P cs) = length cs" by (metis length_append takeWhile_dropWhile_id)
  ultimately show ?thesis using messy_not_empty [OF p(2)] by (cases body) simp_all
qed

function collapse_messy_runs :: "col list \<Rightarrow> nat \<Rightarrow> col list \<times> bytes list" where
  "collapse_messy_runs cols n =
     (case cols of
        [] \<Rightarrow> ([], [])
      | c # cs \<Rightarrow>
          if is_anchor c then (case collapse_messy_runs cs n of (out, notes) \<Rightarrow> (c # out, notes))
          else
            (let run = takeWhile (\<lambda>c. \<not> is_anchor c) cols; rest = dropWhile (\<lambda>c. \<not> is_anchor c) cols;
                 (lead, body, trail) = stretch_parts run
             in if messy body
                then (case collapse_messy_runs (trail @ rest) n of
                        (out, notes) \<Rightarrow> (lead @ collapsed_run body n # out, messy_note body # notes))
                else (case collapse_messy_runs rest n of (out, notes) \<Rightarrow> (run @ out, notes))))"
  by pat_completeness auto
termination by (relation "measure (\<lambda>(cols, n). length cols)") (auto dest: stretch_shorter simp: le_imp_less_Suc length_dropWhile_le)

declare collapse_messy_runs.simps [simp del]

text \<open>How many columns a run of free text slots with single spaces between them has.\<close>

fun word_run :: "col list \<Rightarrow> nat" where
  "word_run (s # t # cs) =
     (if cl_kind s = TSpace \<and> \<not> is_slot s \<and> is_wordish_slot t then 2 + word_run cs else 0)"
| "word_run _ = 0"

function collapse_word_runs_where :: "col list \<Rightarrow> nat \<Rightarrow> bool \<Rightarrow> col list \<times> bytes list" where
  "collapse_word_runs_where cols n only_variable_length =
     (case cols of
        [] \<Rightarrow> ([], [])
      | c # cs \<Rightarrow>
          (let k = word_run cs; run = c # take k cs
           in if is_wordish_slot c \<and> k \<ge> 2 \<and> (\<not> only_variable_length \<or> list_ex cl_optional run)
              then (case collapse_word_runs_where (drop k cs) n only_variable_length of
                      (out, notes) \<Rightarrow>
                        (collapsed_run run n # out, (dec (k div 2 + 1) @ '' adjacent word slots collapsed into one text slot'') # notes))
              else (case collapse_word_runs_where cs n only_variable_length of (out, notes) \<Rightarrow> (c # out, notes))))"
  by pat_completeness auto
termination by (relation "measure (\<lambda>(cols, n, b). length cols)") auto

declare collapse_word_runs_where.simps [simp del]

definition collapse_word_runs :: "col list \<Rightarrow> nat \<Rightarrow> col list \<times> bytes list" where
  "collapse_word_runs cols n = collapse_word_runs_where cols n False"

definition collapse_variable_word_runs :: "col list \<Rightarrow> nat \<Rightarrow> col list \<times> bytes list" where
  "collapse_variable_word_runs cols n = collapse_word_runs_where cols n True"

text \<open>Collapsing keeps what every member has.\<close>

lemma find_map_kinds: "find (\<lambda>(j, _, _). j = i) (map (\<lambda>(m, _, t). (m, k, t)) vs) =
    map_option (\<lambda>(m, _, t). (m, k, t)) (find (\<lambda>(j, _, _). j = i) vs)"
  by (induction vs) auto

lemma collapsed_run_text: "i < n \<Longrightarrow> col_text i (collapsed_run run n) = line_text i run"
proof -
  assume i: "i < n"
  have "find (\<lambda>(j, _, _). j = i) (List.map_filter (region_value run) [0..<n]) = region_value run i"
    using i by (subst find_map_filter) (auto dest: region_value_text(2))
  then show ?thesis using i no_values [of run i]
    by (cases "region_value run i")
      (auto simp: col_text_alt here_def collapsed_run_def Let_def find_map_kinds region_value_text(1) dest: region_value_text(2) split: prod.splits)
qed

lemma messy_runs_text: "i < n \<Longrightarrow> line_text i (fst (collapse_messy_runs cols n)) = line_text i cols"
proof (induction cols n rule: collapse_messy_runs.induct)
  case (1 cols n)
  show ?case
  proof (cases cols)
    case Nil
    then show ?thesis by (simp add: collapse_messy_runs.simps)
  next
    case (Cons c cs)
    show ?thesis
    proof (cases "is_anchor c")
      case True
      then show ?thesis using "1.IH"(1) [OF Cons True "1.prems"] Cons
        by (auto simp: collapse_messy_runs.simps [of "c # cs"] split: prod.split)
    next
      case False
      define run rest where "run = takeWhile (\<lambda>c. \<not> is_anchor c) cols" and "rest = dropWhile (\<lambda>c. \<not> is_anchor c) cols"
      obtain lead body trail where p: "stretch_parts run = (lead, body, trail)" by (cases "stretch_parts run")
      have cut: "cols = run @ rest" by (simp add: run_def rest_def)
      note un = collapse_messy_runs.simps [of cols, unfolded Let_def, folded run_def rest_def]
      show ?thesis
      proof (cases "messy body")
        case True
        have "line_text i (fst (collapse_messy_runs (trail @ rest) n)) = line_text i (trail @ rest)"
          using "1.IH"(2) [OF Cons False run_def rest_def refl p [symmetric] refl True "1.prems"] .
        moreover have "collapse_messy_runs cols n =
            (case collapse_messy_runs (trail @ rest) n of (out, notes) \<Rightarrow> (lead @ collapsed_run body n # out, messy_note body # notes))"
          unfolding un using Cons False by (simp add: p True)
        ultimately show ?thesis using "1.prems" stretch_parts_join [OF p] arg_cong [OF cut, of "line_text i"]
          by (cases "collapse_messy_runs (trail @ rest) n") (simp add: collapsed_run_text)
      next
        case no: False
        have "line_text i (fst (collapse_messy_runs rest n)) = line_text i rest"
          using "1.IH"(3) [OF Cons False run_def rest_def refl p [symmetric] refl no "1.prems"] .
        moreover have "collapse_messy_runs cols n = (case collapse_messy_runs rest n of (out, notes) \<Rightarrow> (run @ out, notes))"
          unfolding un using Cons False by (simp add: p no)
        ultimately show ?thesis using arg_cong [OF cut, of "line_text i"] by (cases "collapse_messy_runs rest n") simp
      qed
    qed
  qed
qed

lemma word_runs_text: "i < n \<Longrightarrow> line_text i (fst (collapse_word_runs_where cols n b)) = line_text i cols"
proof (induction cols n b rule: collapse_word_runs_where.induct)
  case (1 cols n b)
  show ?case
  proof (cases cols)
    case Nil
    then show ?thesis by (simp add: collapse_word_runs_where.simps)
  next
    case (Cons c cs)
    let ?k = "word_run cs"
    note un = collapse_word_runs_where.simps [of cols, unfolded Let_def]
    show ?thesis
    proof (cases "is_wordish_slot c \<and> ?k \<ge> 2 \<and> (\<not> b \<or> list_ex cl_optional (c # take ?k cs))")
      case True
      have "line_text i (fst (collapse_word_runs_where (drop ?k cs) n b)) = line_text i (drop ?k cs)"
        using "1.IH"(1) [OF Cons refl refl True "1.prems"] .
      moreover have "line_text i cs = line_text i (take ?k cs) @ line_text i (drop ?k cs)" by (metis append_take_drop_id line_text_simps(3))
      ultimately show ?thesis using True Cons "1.prems"
        by (subst un) (auto simp: collapsed_run_text split: prod.splits)
    next
      case False
      have "line_text i (fst (collapse_word_runs_where cs n b)) = line_text i cs"
        using "1.IH"(2) [OF Cons refl refl False "1.prems"] .
      then show ?thesis using False Cons by (subst un) (auto split: prod.splits)
    qed
  qed
qed

subsection \<open>Keywords split a cluster\<close>

definition identity_keys :: "bytes list" where
  "identity_keys = [''user'', ''for'', ''from'', ''to'', ''via'', ''by'', ''host'', ''hostname'', ''name'', ''client'', ''server'',
     ''cn'', ''sni'', ''mac'', ''src-mac'', ''dst-mac'', ''remote'', ''peer'', ''username'', ''login'']"

definition lowercase :: "bytes \<Rightarrow> bytes" where
  "lowercase s = map to_ascii_lowercase s"

text \<open>The columns before the slot from the last to the first.\<close>

fun key_back :: "col list \<Rightarrow> bool \<Rightarrow> bytes option" where
  "key_back [] through_sep = None"
| "key_back (c # cs) through_sep =
     (if cl_kind c = TSpace then key_back cs through_sep
      else if is_slot c then None
      else (case cl_kind c of
              TPunct \<Rightarrow> if (cl_text c = ''='' \<or> cl_text c = '':'') \<and> \<not> through_sep then key_back cs True else None
            | TWord \<Rightarrow> Some (lowercase (utf8_lossy (cl_text c)))
            | _ \<Rightarrow> None))"

definition key_before :: "col list \<Rightarrow> nat \<Rightarrow> bytes option" where
  "key_before cols i = key_back (rev (take i cols)) False"

definition keyword_like :: "bytes \<Rightarrow> bool" where
  "keyword_like v \<longleftrightarrow> v \<noteq> [] \<and> list_all is_ascii_alphabetic v"

definition members_of :: "col \<Rightarrow> nat list" where
  "members_of c = [0..<length (cl_present c)]"

text \<open>Distinct values with their counts, the most common first, then in the order of the bytes.\<close>

definition distinct_values :: "col \<Rightarrow> (bytes \<times> nat) list" where
  "distinct_values c =
     (let vs = List.map_filter (value_for c) (members_of c);
          counts = map (\<lambda>v. (v, length (filter (\<lambda>w. w = v) vs))) (sort (remdups vs))
      in rev (sort_key snd (rev counts)))"

text \<open>The members by value; those without one are the group of the empty value.\<close>

definition groups_by_value :: "col \<Rightarrow> (bytes \<times> nat list) list" where
  "groups_by_value c =
     (let val = (\<lambda>m. case value_for c m of Some v \<Rightarrow> v | None \<Rightarrow> [])
      in map (\<lambda>v. (v, filter (\<lambda>m. val m = v) (members_of c))) (sort (remdups (map val (members_of c)))))"

definition splits_at :: "col list \<Rightarrow> nat \<Rightarrow> nat \<Rightarrow> bool" where
  "splits_at cols enum_max i \<longleftrightarrow>
     (let c = cols ! i; d = distinct_values c in
      is_slot c \<and> \<not> cl_region c \<and> is_wordish_slot c \<and> 2 \<le> length d \<and> length d \<le> enum_max \<and>
      list_all (\<lambda>(v, _). keyword_like v) d \<and>
      (case key_before cols i of Some key \<Rightarrow> key \<notin> set identity_keys | None \<Rightarrow> True) \<and>
      \<not> list_ex (\<lambda>(_, ms). length ms < 2) (groups_by_value c))"

definition enum_split :: "col list \<Rightarrow> nat \<Rightarrow> (nat \<times> (bytes \<times> nat list) list) option" where
  "enum_split cols enum_max =
     (case find (splits_at cols enum_max) [0..<length cols] of
        None \<Rightarrow> None
      | Some i \<Rightarrow> Some (i, rev (sort_key (\<lambda>(_, ms). length ms) (rev (groups_by_value (cols ! i))))))"

text \<open>The groups part the members.\<close>

lemma mset_filter_parts:
  assumes "distinct vs" "\<And>m. m \<in> set ms \<Longrightarrow> f m \<in> set vs"
  shows "mset (concat (map (\<lambda>v. filter (\<lambda>m. f m = v) ms) vs)) = mset ms"
  using assms
proof (induction vs arbitrary: ms)
  case Nil
  then show ?case by (cases ms) auto
next
  case (Cons v vs)
  have "filter (\<lambda>m. f m = u) ms = filter (\<lambda>m. f m = u) (filter (\<lambda>m. f m \<noteq> v) ms)" if "u \<in> set vs" for u
    using that Cons.prems(1) by (auto intro!: filter_cong)
  then have e: "map (\<lambda>u. filter (\<lambda>m. f m = u) ms) vs = map (\<lambda>u. filter (\<lambda>m. f m = u) (filter (\<lambda>m. f m \<noteq> v) ms)) vs"
    by (intro map_cong) simp_all
  have "mset (concat (map (\<lambda>u. filter (\<lambda>m. f m = u) (filter (\<lambda>m. f m \<noteq> v) ms)) vs)) = mset (filter (\<lambda>m. f m \<noteq> v) ms)"
    using Cons.prems by (intro Cons.IH) auto
  moreover have "mset (filter (\<lambda>m. f m = v) ms) + mset (filter (\<lambda>m. f m \<noteq> v) ms) = mset ms" by (induction ms) auto
  ultimately show ?case by (simp only: e list.map concat.simps mset_append)
qed

lemma groups_part: "mset (concat (map snd (groups_by_value c))) = mset (members_of c)"
proof -
  let ?val = "\<lambda>m. case value_for c m of Some v \<Rightarrow> v | None \<Rightarrow> []"
  have "map snd (groups_by_value c) = map (\<lambda>v. filter (\<lambda>m. ?val m = v) (members_of c)) (sort (remdups (map ?val (members_of c))))"
    by (simp add: groups_by_value_def Let_def)
  then show ?thesis using mset_filter_parts [of "sort (remdups (map ?val (members_of c)))" "members_of c" ?val] by simp
qed

lemma mset_concat_snd:
  fixes xs ys :: "('a \<times> 'b list) list"
  assumes "mset xs = mset ys"
  shows "mset (concat (map snd xs)) = mset (concat (map snd ys))"
proof -
  have "mset (concat (map snd zs)) = sum_mset (image_mset (\<lambda>g. mset (snd g)) (mset zs))" for zs :: "('a \<times> 'b list) list"
    by (induction zs) simp_all
  then show ?thesis using assms by simp
qed

lemma enum_split_parts:
  assumes "enum_split cols enum_max = Some (i, groups)"
  shows "i < length cols" "mset (concat (map snd groups)) = mset (members_of (cols ! i))"
    "\<forall>g \<in> set groups. 2 \<le> length (snd g) \<and> (\<forall>m \<in> set (snd g). (case value_for (cols ! i) m of Some v \<Rightarrow> v | None \<Rightarrow> []) = fst g)"
proof -
  from assms obtain j where "find (splits_at cols enum_max) [0..<length cols] = Some j"
    and ij: "i = j" "groups = rev (sort_key (\<lambda>(_, ms). length ms) (rev (groups_by_value (cols ! j))))"
    by (auto simp: enum_split_def split: option.splits)
  then have j: "j < length cols" "splits_at cols enum_max j" by (auto simp: find_Some_iff)
  show "i < length cols" using j ij by simp
  have m: "mset groups = mset (groups_by_value (cols ! i))" by (simp add: ij)
  show "mset (concat (map snd groups)) = mset (members_of (cols ! i))" using mset_concat_snd [OF m] groups_part by simp
  show "\<forall>g \<in> set groups. 2 \<le> length (snd g) \<and> (\<forall>m \<in> set (snd g). (case value_for (cols ! i) m of Some v \<Rightarrow> v | None \<Rightarrow> []) = fst g)"
    using j(2) mset_eq_setD [OF m] ij(1)
    by (fastforce simp: splits_at_def Let_def list_ex_iff groups_by_value_def not_less split: prod.splits)
qed

subsection \<open>What a cluster keeps of its lines\<close>

definition required :: "col \<Rightarrow> col" where
  "required c = c\<lparr>cl_optional := False\<rparr>"

lemma presence_keeps:
  "map required (fst (presence_rules cols n rare)) = map required (filter (\<lambda>c. n \<le> present_count c \<or> rare \<le> present_count c) cols)"
  by (induction cols) (auto simp: Let_def required_def split: prod.splits)

definition merged_columns :: "col list \<Rightarrow> nat \<Rightarrow> col list" where
  "merged_columns cols n = fst (collapse_messy_runs (fst (collapse_word_runs (fst (collapse_variable_word_runs cols n)) n)) n)"

lemma merged_columns_text: "i < n \<Longrightarrow> line_text i (merged_columns cols n) = line_text i cols"
  by (simp add: merged_columns_def collapse_word_runs_def collapse_variable_word_runs_def messy_runs_text word_runs_text)

lemma toks_ok_blank: "toks_ok rx json ts \<Longrightarrow> list_all blank_ok ts"
  by (induction ts) (auto simp: blank_ok_def tok_ok_def)

lemma present_at_most: "present_count c \<le> length (cl_present c)"
  by (simp add: present_count_def)

lemma tokenize_all:
  assumes "finder_ok rx"
  obtains tss where "map (tokenize rx) ls = map Some tss" "list_all (list_all blank_ok) tss" "map toks_text tss = ls"
proof -
  have "\<exists>ts. tokenize rx l = Some ts \<and> list_all blank_ok ts \<and> toks_text ts = l" for l
    using tok_loop_returns [OF assms, of 0 l "[]"]
    by (auto simp: tokenize_def toks_text_def intro: toks_ok_blank)
  then obtain f where f: "\<And>l. tokenize rx l = Some (f l) \<and> list_all blank_ok (f l) \<and> toks_text (f l) = l" by metis
  show ?thesis by (rule that [of "map f ls"]) (use f in \<open>simp_all add: comp_def list.pred_map list.pred_True\<close>)
qed

text \<open>
  Nothing a line holds is lost on the way to a template, blanks apart: every line of a cluster can be
  read off the columns it was aligned into; the presence rules drop exactly the columns that fewer members
  than the limit have; and collapsing runs of free text changes no member's text.
\<close>

theorem clusters_keep_lines:
  assumes "finder_ok rx" "ls \<noteq> []"
  shows "\<exists>tss. map (tokenize rx) ls = map Some tss \<and>
    (let n = length ls; cols = consensus tss; kept = fst (presence_rules cols n rare)
     in (\<forall>i < n. solid (line_text i cols) = solid (ls ! i)) \<and>
        map required kept = map required (filter (\<lambda>c. present_count c = n \<or> rare \<le> present_count c) cols) \<and>
        (\<forall>i < n. line_text i (merged_columns kept n) = line_text i kept))"
proof -
  obtain tss where t: "map (tokenize rx) ls = map Some tss" "list_all (list_all blank_ok) tss" "map toks_text tss = ls"
    by (rule tokenize_all [OF assms(1)])
  let ?cols = "consensus tss"
  have n: "length tss = length ls" "tss \<noteq> []" using t(3) assms(2) by auto
  note c = consensus_ok [OF n(2) t(2), unfolded n(1)]
  have "solid (line_text i ?cols) = solid (ls ! i)" if "i < length ls" for i
  proof -
    have "toks_text (tss ! i) = ls ! i" using that n(1) by (subst t(3) [symmetric]) simp
    then show ?thesis using c that by simp
  qed
  moreover have "length (cl_present x) = length ls" if "x \<in> set ?cols" for x
    using c that by (simp add: list_all_iff col_ok_def)
  then have "filter (\<lambda>c. length ls \<le> present_count c \<or> rare \<le> present_count c) ?cols =
      filter (\<lambda>c. present_count c = length ls \<or> rare \<le> present_count c) ?cols"
    by (intro filter_cong) (metis present_at_most le_antisym)+
  ultimately show ?thesis using t(1) presence_keeps [of ?cols "length ls" rare]
    by (intro exI [of _ tss]) (simp add: Let_def merged_columns_text)
qed

theorem clusters_keep_lines_witness:
  "\<exists>tss. map (tokenize int_finder) [''port 80'', ''port 443'', ''port''] = map Some tss \<and>
    (let n = 3; cols = consensus tss; kept = fst (presence_rules cols n 2)
     in (\<forall>i < n. solid (line_text i cols) = solid ([''port 80'', ''port 443'', ''port''] ! i)) \<and>
        map required kept = map required (filter (\<lambda>c. present_count c = n \<or> 2 \<le> present_count c) cols) \<and>
        (\<forall>i < n. line_text i (merged_columns kept n) = line_text i kept))"
proof -
  have "finder_ok int_finder" by (auto simp: finder_ok_def int_finder_def Let_def length_takeWhile_le split: if_splits)
  from clusters_keep_lines [OF this, of "[''port 80'', ''port 443'', ''port'']" 2] show ?thesis
    by (simp add: eval_nat_numeral)
qed

end
