(* ===== verification/Ulpf_Shape.thy ===== *)
theory Ulpf_Shape
  imports Ulpf_Cluster Ulpf_Envelope
begin

text \<open>
  Columns become a template, in \<open>src/crates/ulpf-infer/src/cluster.rs\<close>: the type of a slot from its
  values, its name from the rules in their order, each with the reason a reviewer reads, and
  \<open>shape\<close>, which writes the tokens. A \<open>String\<close> is its UTF-8 text; lower case is that of ASCII.
\<close>

subsection \<open>The type of a slot\<close>

datatype family = FamAtom slot_kind | FamQuoted | FamWord | FamSpaced

definition family_of :: "tok_kind \<Rightarrow> bytes \<Rightarrow> family" where
  "family_of k v =
     (case k of
        TAtom a \<Rightarrow> FamAtom a
      | TQuoted \<Rightarrow> FamQuoted
      | TChain \<Rightarrow> FamWord
      | _ \<Rightarrow> if list_ex is_blank v then FamSpaced else FamWord)"

text \<open>Their order, which the tie for the dominant family and the listing use.\<close>

definition all_families :: "family list" where
  "all_families = map FamAtom all_kinds @ [FamQuoted, FamWord, FamSpaced]"

fun atom_of :: "family \<Rightarrow> slot_kind option" where
  "atom_of (FamAtom k) = Some k"
| "atom_of _ = None"

definition count_of :: "'a \<Rightarrow> 'a list \<Rightarrow> nat" where
  "count_of x xs = length (filter (\<lambda>y. y = x) xs)"

text \<open>\<open>max_by_key\<close> keeps the last of equal elements.\<close>

fun last_max :: "('a \<Rightarrow> nat) \<Rightarrow> 'a list \<Rightarrow> 'a option" where
  "last_max f [] = None"
| "last_max f (x # xs) = (case last_max f xs of None \<Rightarrow> Some x | Some y \<Rightarrow> if f x \<le> f y then Some y else Some x)"

text \<open>\<open>parse::<u32>\<close> that succeeds with at most 65535.\<close>

definition port_text :: "bytes \<Rightarrow> bool" where
  "port_text v \<longleftrightarrow>
     (let ds = (case v of c # r \<Rightarrow> if c = CHR ''+'' then r else v | [] \<Rightarrow> v)
      in ds \<noteq> [] \<and> list_all is_ascii_digit ds \<and> digits_val ds \<le> 65535)"

definition ends_with :: "bytes \<Rightarrow> bytes \<Rightarrow> bool" where
  "ends_with t s \<longleftrightarrow> suffix t s"

definition atom_ip :: "tok_kind \<Rightarrow> bool" where
  "atom_ip k = (case k of TAtom a \<Rightarrow> ip_like a | _ \<Rightarrow> False)"

definition port_or :: "slot_kind \<Rightarrow> col \<Rightarrow> col list \<Rightarrow> nat \<Rightarrow> slot_kind" where
  "port_or k c cols i =
     (if k \<noteq> KInt then k
      else if \<not> list_all (\<lambda>v. port_text (utf8_lossy v)) (List.map_filter (value_for c) (members_of c)) then k
      else
        (let after_ip_colon = 2 \<le> i \<and> cl_kind (cols ! (i - 1)) = TPunct \<and> cl_text (cols ! (i - 1)) = '':'' \<and>
               atom_ip (cl_kind (cols ! (i - 2)));
             keyed = (case key_before cols i of
                        None \<Rightarrow> False
                      | Some key \<Rightarrow> ends_with ''port'' key \<or> key \<in> {''spt'', ''dpt'', ''sport'', ''dport''})
         in if after_ip_colon \<or> keyed then KPort else k))"

definition slot_kind_of :: "col \<Rightarrow> col list \<Rightarrow> nat \<Rightarrow> nat \<Rightarrow> slot_kind" where
  "slot_kind_of c cols i rare =
     (let fams = List.map_filter (\<lambda>m. map_option (family_of (kind_for c m)) (value_for c m)) (members_of c);
          all = filter (\<lambda>f. f \<in> set fams) all_families;
          atoms = List.map_filter atom_of all;
          only = (length atoms = length all)
      in if only \<and> length atoms = 1 then port_or (hd atoms) c cols i
         else if only \<and> list_all ip_like atoms then KIp
         else if only \<and> list_all num_like atoms then KFloat
         else case last_max (\<lambda>f. count_of f fams) all of
           None \<Rightarrow> KText
         | Some dominant \<Rightarrow>
             (let families = (if length fams - count_of dominant fams < rare then [dominant] else all)
              in if FamSpaced \<in> set families \<or> FamQuoted \<in> set families \<and> length families > 1 then KText
                 else case families of
                   [FamQuoted] \<Rightarrow> KQuoted
                 | [FamAtom k] \<Rightarrow> port_or k c cols i
                 | _ \<Rightarrow> KWord))"

subsection \<open>The vocabulary\<close>

datatype fam = FIp | FMac | FNum | FWord

definition fam_of :: "slot_kind \<Rightarrow> fam" where
  "fam_of k =
     (case k of
        KIp \<Rightarrow> FIp | KIpv4 \<Rightarrow> FIp | KIpv6 \<Rightarrow> FIp
      | KMac \<Rightarrow> FMac
      | KInt \<Rightarrow> FNum | KFloat \<Rightarrow> FNum | KPort \<Rightarrow> FNum
      | _ \<Rightarrow> FWord)"

datatype convention = Convention (cv_key: bytes) (cv_ctx: bytes) (cv_fam: fam) (cv_name: bytes) (cv_source: bytes)

definition vocabulary :: "convention list" where
  "vocabulary =
    [Convention ''from'' ''from {ip}'' FIp ''src_ip'' ''BSD syslog, OpenSSH sshd'',
     Convention ''src'' ''SRC={ip}'' FIp ''src_ip'' ''netfilter LOG target'',
     Convention ''saddr'' ''saddr={ip}'' FIp ''src_ip'' ''netfilter conntrack, nftables'',
     Convention ''source-address'' ''source-address={ip}'' FIp ''src_ip'' ''Juniper SRX RT_FLOW'',
     Convention ''to'' ''to {ip}'' FIp ''dst_ip'' ''BSD syslog, ISC dhcpd'',
     Convention ''dst'' ''DST={ip}'' FIp ''dst_ip'' ''netfilter LOG target'',
     Convention ''daddr'' ''daddr={ip}'' FIp ''dst_ip'' ''netfilter conntrack, nftables'',
     Convention ''destination-address'' ''destination-address={ip}'' FIp ''dst_ip'' ''Juniper SRX RT_FLOW'',
     Convention ''from'' ''from {mac}'' FMac ''src_mac'' ''ISC dhcpd'',
     Convention ''to'' ''to {mac}'' FMac ''dst_mac'' ''ISC dhcpd'',
     Convention ''spt'' ''SPT={port}'' FNum ''src_port'' ''netfilter LOG target'',
     Convention ''sport'' ''sport={port}'' FNum ''src_port'' ''OpenBSD pf, Suricata EVE'',
     Convention ''dpt'' ''DPT={port}'' FNum ''dst_port'' ''netfilter LOG target'',
     Convention ''dport'' ''dport={port}'' FNum ''dst_port'' ''OpenBSD pf, Suricata EVE'',
     Convention ''in'' ''in:{word} / IN={word}'' FWord ''in_interface'' ''MikroTik RouterOS, netfilter LOG'',
     Convention ''out'' ''out:{word} / OUT={word}'' FWord ''out_interface'' ''MikroTik RouterOS, netfilter LOG'',
     Convention ''proto'' ''proto {word}'' FWord ''proto'' ''MikroTik RouterOS, netfilter PROTO='',
     Convention ''protocol'' ''protocol {word}'' FWord ''proto'' ''Cisco ASA, pfSense filterlog'',
     Convention ''len'' ''len {int}'' FNum ''len'' ''MikroTik RouterOS, netfilter LEN='',
     Convention ''length'' ''length {int}'' FNum ''len'' ''Cisco ASA, Squid'',
     Convention ''ttl'' ''TTL={int}'' FNum ''ttl'' ''netfilter LOG target'',
     Convention ''via'' ''via {word}'' FWord ''via'' ''ISC dhcpd, MikroTik login log'',
     Convention ''user'' ''user {word}'' FWord ''user'' ''MikroTik RouterOS account log, OpenSSH sshd'',
     Convention ''username'' ''username={word}'' FWord ''user'' ''Cisco ASA, FortiGate'',
     Convention ''login'' ''login={word}'' FWord ''user'' ''Check Point, SonicWall'']"

definition stopwords :: "bytes list" where
  "stopwords =
    [''for'', ''by'', ''of'', ''the'', ''a'', ''an'', ''and'', ''or'', ''is'', ''was'', ''are'', ''were'', ''at'', ''on'', ''with'',
     ''this'', ''that'', ''not'', ''info'', ''warn'', ''warning'', ''error'', ''debug'', ''notice'', ''tcp'', ''udp'', ''icmp'']"

definition tcp_flags :: "bytes list" where
  "tcp_flags = [''SYN'', ''ACK'', ''FIN'', ''RST'', ''PSH'', ''URG'', ''ECE'', ''CWR'', ''NS'']"

definition vocab :: "bytes \<Rightarrow> slot_kind \<Rightarrow> convention option" where
  "vocab key k = find (\<lambda>c. cv_key c = key \<and> cv_fam c = fam_of k) vocabulary"

definition vocab_reason :: "bytes \<Rightarrow> bytes \<Rightarrow> bytes \<Rightarrow> bytes" where
  "vocab_reason ctx name source = ''vocabulary: `'' @ ctx @ ''` names '' @ name @ '' ('' @ source @ '')''"

definition a_kind :: "slot_kind \<Rightarrow> bytes" where
  "a_kind k = (if hd (kind_name k) \<in> set ''aeiou'' then ''an '' else ''a '') @ kind_name k"

text \<open>One underscore for each character that is not a letter or digit of ASCII, whatever its bytes.\<close>

definition sanitize :: "bytes \<Rightarrow> bytes" where
  "sanitize key =
     (let s = map (\<lambda>c. if is_ascii_alphanumeric c then c else CHR ''_'') (filter (\<lambda>c. \<not> is_cont c) key)
      in if s = [] \<or> is_ascii_digit (hd s) then CHR ''f'' # s else s)"

subsection \<open>The names of slots\<close>

type_synonym placed = "nat \<rightharpoonup> bytes option \<times> bytes"

definition place :: "nat \<Rightarrow> bytes \<Rightarrow> bytes \<Rightarrow> placed \<Rightarrow> placed" where
  "place i name reason out = (if out i = None then out(i \<mapsto> (Some name, reason)) else out)"

definition leave_generic :: "nat \<Rightarrow> bytes \<Rightarrow> placed \<Rightarrow> placed" where
  "leave_generic i reason out = (if out i = None then out(i \<mapsto> (None, reason)) else out)"

definition punct_at :: "col list \<Rightarrow> nat \<Rightarrow> bytes \<Rightarrow> bool" where
  "punct_at cols i t \<longleftrightarrow> i < length cols \<and> \<not> is_slot (cols ! i) \<and> cl_kind (cols ! i) = TPunct \<and> cl_text (cols ! i) = t"

definition is_keyed :: "col list \<Rightarrow> nat \<Rightarrow> bool" where
  "is_keyed cols i \<longleftrightarrow> 2 \<le> i \<and> cl_kind (cols ! (i - 1)) = TPunct \<and> cl_text (cols ! (i - 1)) \<in> {''='', '':''} \<and>
     cl_kind (cols ! (i - 2)) = TWord \<and> \<not> is_slot (cols ! (i - 2))"

definition shown :: "col \<Rightarrow> bytes" where
  "shown c = (if cl_kind c = TSpace then '' '' else utf8_lossy (cl_text c))"

definition const_between :: "col list \<Rightarrow> nat \<Rightarrow> nat \<Rightarrow> bytes" where
  "const_between cols a b = concat (map shown (filter (\<lambda>c. \<not> is_slot c) (take (b - (a + 1)) (drop (a + 1) cols))))"

definition word_after :: "col list \<Rightarrow> nat \<Rightarrow> bytes option" where
  "word_after cols i =
     (case find (\<lambda>c. cl_kind c \<noteq> TSpace) (drop (i + 1) cols) of
        None \<Rightarrow> None
      | Some c \<Rightarrow> if \<not> is_slot c \<and> cl_kind c = TWord then Some (lowercase (utf8_lossy (cl_text c))) else None)"

text \<open>A JSON key before its value or before the first element of its array.\<close>

definition json_step :: "col list \<Rightarrow> slot_kind option list \<Rightarrow> nat \<Rightarrow> nat \<times> placed \<Rightarrow> nat \<times> placed" where
  "json_step cols kinds i s =
     (let depth = fst s + (if punct_at cols i ''{'' then 1 else 0) - (if punct_at cols i ''}'' then 1 else 0);
          element = (1 \<le> i \<and> punct_at cols (i - 1) ''['');
          colon = i - (if element then 1 else 0); k = cols ! (colon - 2); out = snd s
      in if kinds ! i = None then (depth, out)
         else if colon < 2 \<or> \<not> punct_at cols (colon - 1) '':'' then (depth, out)
         else if is_slot k \<or> cl_kind k \<noteq> TWord \<or> length (cl_text k) < 3 \<or> hd (cl_text k) \<noteq> CHR 0x22 \<or> last (cl_text k) \<noteq> CHR 0x22
         then (depth, out)
         else
           (let key = utf8_lossy (butlast (tl (cl_text k))); name = sanitize key
            in (depth, place i name
                  (''json key `'' @ key @ ''`'' @ (if element then '' (first array element)'' else []) @
                   (if depth > 1 then '' (innermost key of a nested object)'' else []) @
                   (if name \<noteq> key then '' (written `'' @ name @ ''`)'' else [])) out)))"

definition json_keys :: "col list \<Rightarrow> slot_kind option list \<Rightarrow> placed \<Rightarrow> placed" where
  "json_keys cols kinds out = snd (fold (json_step cols kinds) [0..<length kinds] (0, out))"

text \<open>A header line names the columns of the lines after it.\<close>

record header =
  hd_sep :: byte
  hd_fields :: "bytes list"

definition header_of :: "bytes \<Rightarrow> header option" where
  "header_of b =
     (if \<not> prefix ''#fields'' b then None
      else case drop 7 b of
        [] \<Rightarrow> None
      | sep # names \<Rightarrow>
          if is_ascii_alphanumeric sep then None
          else (let fs = map utf8_lossy (split_on sep names)
                in if length fs \<ge> 2 then Some \<lparr>hd_sep = sep, hd_fields = fs\<rparr> else None))"

definition headers :: "bytes list \<Rightarrow> header list" where
  "headers bodies =
     fold (\<lambda>b out. case header_of b of Some h \<Rightarrow> if h \<in> set out then out else out @ [h] | None \<Rightarrow> out) bodies []"

definition seps :: "bytes \<Rightarrow> byte \<Rightarrow> nat" where
  "seps t sep = length (filter (\<lambda>b. b = sep) t)"

definition header_for :: "tok list list \<Rightarrow> header list \<Rightarrow> header option" where
  "header_for members hs =
     find (\<lambda>h. list_all (\<lambda>ts. sum_list (map (\<lambda>t. seps (tk_text t) (hd_sep h)) ts) + 1 = length (hd_fields h)) members) hs"

definition header_step :: "col list \<Rightarrow> slot_kind option list \<Rightarrow> header \<Rightarrow> nat \<Rightarrow> nat \<times> placed \<Rightarrow> nat \<times> placed" where
  "header_step cols kinds h i s =
     (let at = fst s; out = snd s;
          own = (case value_for (cols ! i) 0 of Some v \<Rightarrow> seps v (hd_sep h) | None \<Rightarrow> 0)
      in (at + own,
          if kinds ! i = None then out
          else if own > 0 then
            leave_generic i (''header names columns '' @ dec (at + 1) @ ''-'' @ dec (at + own + 1) @ '' but this one slot spans them all'') out
          else if at < length (hd_fields h) then
            (let f = hd_fields h ! at; name = sanitize f
             in place i name (''header `'' @ f @ ''` (column '' @ dec (at + 1) @
                  (if name = f then [] else '', written `'' @ name @ ''`'') @ '')'') out)
          else out))"

definition header_columns :: "col list \<Rightarrow> slot_kind option list \<Rightarrow> header option \<Rightarrow> placed \<Rightarrow> placed" where
  "header_columns cols kinds h out =
     (case h of None \<Rightarrow> out | Some h \<Rightarrow> snd (fold (header_step cols kinds h) [0..<length cols] (0, out)))"

text \<open>\<open>str::trim\<close>: the characters of \<open>White_Space\<close> in UTF-8.\<close>

definition white_space :: "bytes list" where
  "white_space =
     [[CHR 0x09], [CHR 0x0A], [CHR 0x0B], [CHR 0x0C], [CHR 0x0D], [CHR 0x20], [CHR 0xC2, CHR 0x85], [CHR 0xC2, CHR 0xA0],
      [CHR 0xE1, CHR 0x9A, CHR 0x80], [CHR 0xE2, CHR 0x80, CHR 0x80], [CHR 0xE2, CHR 0x80, CHR 0x81], [CHR 0xE2, CHR 0x80, CHR 0x82],
      [CHR 0xE2, CHR 0x80, CHR 0x83], [CHR 0xE2, CHR 0x80, CHR 0x84], [CHR 0xE2, CHR 0x80, CHR 0x85], [CHR 0xE2, CHR 0x80, CHR 0x86],
      [CHR 0xE2, CHR 0x80, CHR 0x87], [CHR 0xE2, CHR 0x80, CHR 0x88], [CHR 0xE2, CHR 0x80, CHR 0x89], [CHR 0xE2, CHR 0x80, CHR 0x8A],
      [CHR 0xE2, CHR 0x80, CHR 0xA8], [CHR 0xE2, CHR 0x80, CHR 0xA9], [CHR 0xE2, CHR 0x80, CHR 0xAF], [CHR 0xE2, CHR 0x81, CHR 0x9F],
      [CHR 0xE3, CHR 0x80, CHR 0x80]]"

function strip_front :: "bytes list \<Rightarrow> bytes \<Rightarrow> bytes" where
  "strip_front spaces s =
     (case find (\<lambda>w. w \<noteq> [] \<and> prefix w s) spaces of None \<Rightarrow> s | Some w \<Rightarrow> strip_front spaces (drop (length w) s))"
  by pat_completeness auto
termination
  by (relation "measure (length \<circ> snd)") (auto simp: find_Some_iff dest: prefix_length_le intro: diff_less)

declare strip_front.simps [simp del]

definition str_trim :: "bytes \<Rightarrow> bytes" where
  "str_trim s = rev (strip_front (map rev white_space) (rev (strip_front white_space s)))"

text \<open>The NCSA log format: position names every slot.\<close>

definition ncsa_names :: "bytes list" where
  "ncsa_names = [''src_ip'', ''user'', ''timestamp'', ''request'', ''status_code'', ''bytes'', ''referer'', ''user_agent'']"

definition ncsa_kinds :: "slot_kind list" where
  "ncsa_kinds = [KIp, KWord, KTimestamp, KQuoted, KInt, KInt, KQuoted, KQuoted]"

definition ncsa_fits :: "nat list \<Rightarrow> slot_kind option list \<Rightarrow> nat \<Rightarrow> bool" where
  "ncsa_fits slots kinds i \<longleftrightarrow>
     i < length slots \<and>
     (case kinds ! (slots ! i) of
        None \<Rightarrow> False
      | Some k \<Rightarrow> if ncsa_kinds ! i = KIp then ip_like k else ncsa_kinds ! i = k)"

definition ncsa_combined :: "col list \<Rightarrow> nat list \<Rightarrow> slot_kind option list \<Rightarrow> placed \<Rightarrow> placed" where
  "ncsa_combined cols slots kinds out =
     (if slots = [] \<or> hd slots \<noteq> 0 \<or> \<not> list_all (ncsa_fits slots kinds) [0..<4] \<or>
         str_trim (const_between cols (slots ! 0) (slots ! 1)) \<noteq> ''-'' then out
      else
        (let reason = vocab_reason ''{ip} - {user} [{timestamp}] \"{request}\" {status} {bytes}'' ''the NCSA fields''
                        ''Apache LogFormat combined, nginx log_format combined''
         in fold (\<lambda>i. place (slots ! i) (ncsa_names ! i) reason) (takeWhile (ncsa_fits slots kinds) [0..<8]) out))"

text \<open>An arrow between two addresses points from source to destination.\<close>

fun port_scan :: "col list \<Rightarrow> slot_kind option list \<Rightarrow> nat list \<Rightarrow> bool \<Rightarrow> nat option" where
  "port_scan cols kinds [] sep = None"
| "port_scan cols kinds (i # is) sep =
     (case kinds ! i of
        Some k \<Rightarrow> if sep \<and> fam_of k = FNum then Some i else None
      | None \<Rightarrow>
          if cl_kind (cols ! i) = TPunct \<and> cl_text (cols ! i) \<in> {'':'', ''/''} \<and> \<not> sep then port_scan cols kinds is True
          else None)"

definition attached_port :: "col list \<Rightarrow> slot_kind option list \<Rightarrow> nat \<Rightarrow> nat option" where
  "attached_port cols kinds addr = port_scan cols kinds [addr + 1..<length cols] False"

definition pair_reason :: bytes where
  "pair_reason = vocab_reason ''{ip}:{port}->{ip}:{port}'' ''the pair src/dst'' ''MikroTik RouterOS firewall log, Cisco ASA''"

definition rest_reason :: bytes where
  "rest_reason = ''a second address pair on the line (RouterOS logs the translated addresses); the first pair took src/dst''"

definition leave_rest :: "col list \<Rightarrow> slot_kind option list \<Rightarrow> nat \<Rightarrow> placed \<Rightarrow> placed" where
  "leave_rest cols kinds later out =
     (let out = leave_generic later rest_reason out
      in case attached_port cols kinds later of Some p \<Rightarrow> leave_generic p rest_reason out | None \<Rightarrow> out)"

definition name_pair :: "col list \<Rightarrow> slot_kind option list \<Rightarrow> nat list \<Rightarrow> nat option \<Rightarrow> nat \<Rightarrow> nat \<Rightarrow> placed \<Rightarrow> placed" where
  "name_pair cols kinds addrs src_port a b out =
     (let out = place b ''dst_ip'' pair_reason (place a ''src_ip'' pair_reason out);
          out = (case src_port of Some p \<Rightarrow> place p ''src_port'' pair_reason out | None \<Rightarrow> out);
          out = (case attached_port cols kinds b of Some p \<Rightarrow> place p ''dst_port'' pair_reason out | None \<Rightarrow> out)
      in fold (leave_rest cols kinds) (filter (\<lambda>i. b < i) addrs) out)"

definition pair_port :: "col list \<Rightarrow> slot_kind option list \<Rightarrow> nat \<Rightarrow> nat \<Rightarrow> nat option" where
  "pair_port cols kinds a b = (case attached_port cols kinds a of Some p \<Rightarrow> if p < b then Some p else None | None \<Rightarrow> None)"

definition is_pair :: "col list \<Rightarrow> slot_kind option list \<Rightarrow> nat list \<Rightarrow> nat \<Rightarrow> nat \<Rightarrow> bool" where
  "is_pair cols kinds slots a b \<longleftrightarrow>
     \<not> list_ex (\<lambda>s. a < s \<and> s < b \<and> Some s \<noteq> pair_port cols kinds a b) slots \<and>
     list_ex (\<lambda>arrow. memmem arrow (const_between cols a b) \<noteq> None) [''->'', ''=>'', '' > '']"

fun pair_loop :: "col list \<Rightarrow> nat list \<Rightarrow> slot_kind option list \<Rightarrow> nat list \<Rightarrow> nat list \<Rightarrow> placed \<Rightarrow> placed" where
  "pair_loop cols slots kinds addrs (a # b # rest) out =
     (if is_pair cols kinds slots a b then name_pair cols kinds addrs (pair_port cols kinds a b) a b out
      else pair_loop cols slots kinds addrs (b # rest) out)"
| "pair_loop cols slots kinds addrs _ out = out"

definition is_ip_slot :: "slot_kind option list \<Rightarrow> nat \<Rightarrow> bool" where
  "is_ip_slot kinds i = (case kinds ! i of Some k \<Rightarrow> ip_like k | None \<Rightarrow> False)"

definition address_pair :: "col list \<Rightarrow> nat list \<Rightarrow> slot_kind option list \<Rightarrow> placed \<Rightarrow> placed" where
  "address_pair cols slots kinds out =
     (let addrs = filter (is_ip_slot kinds) slots in pair_loop cols slots kinds addrs addrs out)"

text \<open>The rules that need a column and its neighbours.\<close>

definition is_pid :: "col list \<Rightarrow> nat \<Rightarrow> bool" where
  "is_pid cols i \<longleftrightarrow> 2 \<le> i \<and> punct_at cols (i - 1) ''['' \<and> cl_kind (cols ! (i - 2)) = TWord \<and> \<not> is_slot (cols ! (i - 2)) \<and>
     punct_at cols (i + 1) '']'' \<and> punct_at cols (i + 2) '':''"

definition all_bracketed :: "col \<Rightarrow> bool" where
  "all_bracketed c \<longleftrightarrow> distinct_values c \<noteq> [] \<and>
     list_all (\<lambda>(v, _). length v > 2 \<and> hd v = CHR ''['' \<and> last v = CHR '']'') (distinct_values c)"

definition uppercase :: "bytes \<Rightarrow> bytes" where
  "uppercase s = map (\<lambda>b. if is_ascii_lower b then char_of (bv b - 32) else b) s"

text \<open>The pieces between the bytes that satisfy the predicate, without the empty ones.\<close>

fun runs_by :: "(byte \<Rightarrow> bool) \<Rightarrow> bytes \<Rightarrow> bytes \<Rightarrow> bytes list" where
  "runs_by p [] piece = (if piece = [] then [] else [piece])"
| "runs_by p (b # s) piece =
     (if p b then (if piece = [] then [] else [piece]) @ runs_by p s [] else runs_by p s (piece @ [b]))"

definition all_tcp_flags :: "col \<Rightarrow> bool" where
  "all_tcp_flags c \<longleftrightarrow> distinct_values c \<noteq> [] \<and>
     list_all (\<lambda>(v, _). let parts = runs_by (\<lambda>b. \<not> is_ascii_alphabetic b) (utf8_lossy v) []
                         in parts \<noteq> [] \<and> list_all (\<lambda>p. uppercase p \<in> set tcp_flags) parts) (distinct_values c)"

definition column_rule :: "col list \<Rightarrow> bool \<Rightarrow> slot_kind \<Rightarrow> nat \<Rightarrow> (bytes \<times> bytes) option" where
  "column_rule cols icmp k i =
     (let c = cols ! i; key = key_before cols i in
      if fam_of k = FNum \<and> is_pid cols i
      then Some (''pid'', vocab_reason ''{word}[{int}]:'' ''pid'' ''RFC 3164 syslog TAG, RFC 5424 PROCID'')
      else if icmp \<and> fam_of k = FNum \<and> key = Some ''type''
      then Some (''icmp_type'', vocab_reason ''type={int} in an ICMP line'' ''icmp_type'' ''RFC 792, netfilter LOG TYPE='')
      else if icmp \<and> fam_of k = FNum \<and> key = Some ''code''
      then Some (''icmp_code'', vocab_reason ''code={int} in an ICMP line'' ''icmp_code'' ''RFC 792, netfilter LOG CODE='')
      else if fam_of k = FWord \<and> all_bracketed c
      then Some (''rule'', vocab_reason ''[{word}] bracketed label'' ''rule'' ''iptables --log-prefix, EdgeRouter/ufw rule names'')
      else if fam_of k = FWord \<and> all_tcp_flags c
      then Some (''tcp_flags'', vocab_reason ''a run of TCP flag mnemonics'' ''tcp_flags''
                   ''netfilter LOG target, MikroTik `proto TCP (SYN,ACK)`'')
      else if fam_of k = FWord \<and> key = Some ''for'' \<and> word_after cols i = Some ''from''
      then Some (''user'', vocab_reason ''for {word} from'' ''user'' ''OpenSSH sshd auth log'')
      else None)"

definition column_step :: "col list \<Rightarrow> slot_kind option list \<Rightarrow> bool \<Rightarrow> nat \<Rightarrow> placed \<Rightarrow> placed" where
  "column_step cols kinds icmp i out =
     (case kinds ! i of
        None \<Rightarrow> out
      | Some k \<Rightarrow> (case column_rule cols icmp k i of None \<Rightarrow> out | Some (name, reason) \<Rightarrow> place i name reason out))"

definition by_column :: "col list \<Rightarrow> slot_kind option list \<Rightarrow> placed \<Rightarrow> placed" where
  "by_column cols kinds out =
     (let icmp = list_ex (\<lambda>c. \<not> is_slot c \<and> cl_kind c = TWord \<and> prefix ''ICMP'' (uppercase (utf8_lossy (cl_text c)))) cols
      in fold (column_step cols kinds icmp) [0..<length cols] out)"

definition placed_name :: "col list \<Rightarrow> slot_kind option list \<Rightarrow> nat \<Rightarrow> placed \<Rightarrow> bytes option" where
  "placed_name cols kinds addr out =
     (case (case out addr of Some (n, _) \<Rightarrow> n | None \<Rightarrow> None) of
        Some n \<Rightarrow> Some n
      | None \<Rightarrow>
          (case (key_before cols addr, kinds ! addr) of
             (Some key, Some k) \<Rightarrow> map_option cv_name (vocab key k)
           | _ \<Rightarrow> None))"

definition port_step :: "col list \<Rightarrow> slot_kind option list \<Rightarrow> nat \<Rightarrow> placed \<Rightarrow> placed" where
  "port_step cols kinds i out =
     (case kinds ! i of
        None \<Rightarrow> out
      | Some k \<Rightarrow>
          if fam_of k \<noteq> FNum \<or> key_before cols i \<noteq> Some ''port'' then out
          else (case find (is_ip_slot kinds) (rev [0..<i]) of
                  None \<Rightarrow> out
                | Some addr \<Rightarrow>
                    (let reason = (\<lambda>name. vocab_reason ''from {ip} port {port}'' name ''OpenSSH sshd auth log'')
                     in if placed_name cols kinds addr out = Some ''src_ip'' then place i ''src_port'' (reason ''src_port'') out
                        else if placed_name cols kinds addr out = Some ''dst_ip'' then place i ''dst_port'' (reason ''dst_port'') out
                        else out)))"

definition port_after_address :: "col list \<Rightarrow> slot_kind option list \<Rightarrow> placed \<Rightarrow> placed" where
  "port_after_address cols kinds out = fold (port_step cols kinds) [0..<length cols] out"

definition positional :: "col list \<Rightarrow> slot_kind option list \<Rightarrow> header option \<Rightarrow> placed" where
  "positional cols kinds h =
     (let slots = filter (\<lambda>i. kinds ! i \<noteq> None) [0..<length cols];
          out = json_keys cols kinds Map.empty;
          out = header_columns cols kinds h out;
          out = ncsa_combined cols slots kinds out;
          out = address_pair cols slots kinds out;
          out = by_column cols kinds out
      in port_after_address cols kinds out)"

definition name_slot :: "col list \<Rightarrow> nat \<Rightarrow> slot_kind \<Rightarrow> placed \<Rightarrow> bytes option \<times> bytes" where
  "name_slot cols i k out =
     (case out i of
        Some r \<Rightarrow> r
      | None \<Rightarrow>
          if k = KTimestamp then (Some ''timestamp'', ''the slot's own type is a timestamp'')
          else (case key_before cols i of
                  None \<Rightarrow> (None, ''no key or known constant before '' @ a_kind k @ '' slot'')
                | Some key \<Rightarrow>
                    if 2 \<le> i \<and> cl_kind (cols ! (i - 1)) = TSpace \<and> cl_kind (cols ! (i - 2)) = TPunct \<and> cl_text (cols ! (i - 2)) = '':''
                    then (None, ''`'' @ key @ '':` is a syslog tag, not a key'')
                    else (case vocab key k of
                            Some c \<Rightarrow> (Some (cv_name c), vocab_reason (cv_ctx c) (cv_name c) (cv_source c))
                          | None \<Rightarrow>
                              if is_keyed cols i \<or> CHR ''-'' \<in> set key \<or> CHR ''_'' \<in> set key
                              then (Some (sanitize key), ''key `'' @ key @ ''` before the value'')
                              else if key \<in> set stopwords
                              then (None, ''`'' @ key @ ''` before the slot is a connective, not a field name'')
                              else if list_ex is_ascii_alphabetic key \<and> list_all is_ascii_alphanumeric key
                              then (Some (sanitize key), ''constant `'' @ key @ ''` before '' @ a_kind k @ '' slot'')
                              else (None, ''no key or known constant before '' @ a_kind k @ '' slot''))))"

fun preceding_loop :: "col list \<Rightarrow> bytes \<Rightarrow> bytes" where
  "preceding_loop [] s = s"
| "preceding_loop (c # cs) s = (if length s < 24 \<and> \<not> is_slot c then preceding_loop cs (shown c @ s) else s)"

definition preceding_text :: "col list \<Rightarrow> nat \<Rightarrow> bytes" where
  "preceding_text cols i = str_trim (preceding_loop (rev (take i cols)) [])"

subsection \<open>The template\<close>

fun push_const :: "bytes \<Rightarrow> token list \<Rightarrow> token list" where
  "push_const t [] = [Const t]"
| "push_const t [u] = (case u of Const s \<Rightarrow> [Const (s @ t)] | _ \<Rightarrow> [u, Const t])"
| "push_const t (u # v # ts) = u # push_const t (v # ts)"

record slot_row =
  sl_col :: nat
  sl_name :: bytes
  sl_kind :: slot_kind
  sl_suggested :: bool
  sl_preceded :: bytes
  sl_reason :: bytes

record shaping =
  sh_tokens :: "token list"
  sh_group :: "token list"
  sh_presence :: "bool list option"
  sh_used :: "bytes \<Rightarrow> nat"
  sh_generic :: "bytes \<Rightarrow> nat"
  sh_slots :: "slot_row list"

definition slot_kinds :: "col list \<Rightarrow> nat \<Rightarrow> slot_kind option list" where
  "slot_kinds cols rare =
     map (\<lambda>i. let c = cols ! i; k = slot_kind_of c cols i rare in
            if \<not> is_slot c then None
            else if k = KText \<and> \<not> list_ex is_slot (drop (i + 1) cols) \<and> i + 1 = length cols \<and> cl_region c then Some KRest
            else Some k) [0..<length cols]"

definition flush_group :: "shaping \<Rightarrow> shaping" where
  "flush_group s = (if sh_group s = [] then s else s\<lparr>sh_tokens := sh_tokens s @ [Optional (sh_group s)], sh_group := []\<rparr>)"

definition enter_col :: "col \<Rightarrow> shaping \<Rightarrow> shaping" where
  "enter_col c s =
     (if cl_optional c then
        (if sh_presence s \<noteq> None \<and> sh_presence s \<noteq> Some (cl_present c) then flush_group s else s)\<lparr>sh_presence := Some (cl_present c)\<rparr>
      else if sh_presence s \<noteq> None then (flush_group s)\<lparr>sh_presence := None\<rparr>
      else s)"

definition put_token :: "col \<Rightarrow> (token list \<Rightarrow> token list) \<Rightarrow> shaping \<Rightarrow> shaping" where
  "put_token c f s = (if cl_optional c then s\<lparr>sh_group := f (sh_group s)\<rparr> else s\<lparr>sh_tokens := f (sh_tokens s)\<rparr>)"

definition generic_base :: "slot_kind \<Rightarrow> bytes" where
  "generic_base k = (case k of KIpv4 \<Rightarrow> ''ip'' | KIp \<Rightarrow> ''ip'' | KIpv6 \<Rightarrow> ''ip6'' | KFloat \<Rightarrow> ''num'' | _ \<Rightarrow> kind_name k)"

text \<open>The name proposed, or the next number of the kind.\<close>

definition base_name :: "bytes option \<Rightarrow> slot_kind \<Rightarrow> shaping \<Rightarrow> bytes \<times> shaping" where
  "base_name found k s =
     (case found of
        Some n \<Rightarrow> (n, s)
      | None \<Rightarrow>
          (let base = generic_base k; n = sh_generic s base + 1
           in (base @ dec n, s\<lparr>sh_generic := (sh_generic s)(base := n)\<rparr>)))"

definition count_name :: "bytes \<Rightarrow> shaping \<Rightarrow> bytes \<times> shaping" where
  "count_name name s =
     (let n = sh_used s name + 1
      in (if n > 1 then name @ ''_'' @ dec n else name, s\<lparr>sh_used := (sh_used s)(name := n)\<rparr>))"

definition shape_col :: "col list \<Rightarrow> slot_kind option list \<Rightarrow> placed \<Rightarrow> nat \<Rightarrow> shaping \<Rightarrow> shaping" where
  "shape_col cols kinds out i s =
     (let c = cols ! i; s = enter_col c s in
      case kinds ! i of
        None \<Rightarrow> put_token c (push_const (shown c)) s
      | Some k \<Rightarrow>
          (let (found, reason) = name_slot cols i k out;
               (base, s) = base_name found k s;
               (name, s) = count_name base s
           in put_token c (\<lambda>ts. ts @ [Slot name k]) s
                \<lparr>sh_slots := sh_slots s @ [\<lparr>sl_col = i, sl_name = name, sl_kind = k, sl_suggested = (found \<noteq> None),
                                           sl_preceded = preceding_text cols i, sl_reason = reason\<rparr>]\<rparr>))"

definition shaping_start :: shaping where
  "shaping_start = \<lparr>sh_tokens = [], sh_group = [], sh_presence = None, sh_used = (\<lambda>_. 0), sh_generic = (\<lambda>_. 0), sh_slots = []\<rparr>"

definition shape :: "col list \<Rightarrow> nat \<Rightarrow> header option \<Rightarrow> token list \<times> slot_row list" where
  "shape cols rare h =
     (let kinds = slot_kinds cols rare; out = positional cols kinds h;
          s = flush_group (fold (shape_col cols kinds out) [0..<length cols] shaping_start)
      in (sh_tokens s, sh_slots s))"

text \<open>A delimited column on its own.\<close>

definition column_of :: "finder \<Rightarrow> bytes list \<Rightarrow> col" where
  "column_of rx vs =
     \<lparr>cl_kind = TWord, cl_text = [], cl_present = map (\<lambda>_. True) vs, cl_variable = True, cl_region = False,
      cl_values = map (\<lambda>(m, v). (m, case tokenize rx v of Some [t] \<Rightarrow> tk_kind t | _ \<Rightarrow> TWord, v)) (enumerate 0 vs),
      cl_optional = False\<rparr>"

definition column_kind :: "col \<Rightarrow> nat \<Rightarrow> slot_kind" where
  "column_kind c rare =
     (let k = slot_kind_of c [c] 0 rare
      in if k = KWord \<and> list_all (\<lambda>(_, _, v). v = ''-'') (cl_values c) then KText else k)"

subsection \<open>Every name is a name\<close>

lemma name_ok_append: "slot_name_ok (s @ t) \<longleftrightarrow> (s \<noteq> [] \<or> t \<noteq> []) \<and> (s = [] \<or> slot_name_ok s) \<and> (t = [] \<or> slot_name_ok t)"
  by (auto simp: slot_name_ok_def)

lemma name_ok_dec [simp]: "slot_name_ok (dec n)"
  using dec_digits [of _ n] by (auto simp: slot_name_ok_def list_all_iff is_ascii_alphanumeric_def)

lemma alphanumeric_f: "is_ascii_alphanumeric (CHR ''f'')"
  by code_simp

lemma name_ok_sanitize [simp]: "slot_name_ok (sanitize key)"
  by (auto simp: sanitize_def slot_name_ok_def list_all_iff Let_def alphanumeric_f)

lemma name_ok_known: "list_all slot_name_ok (map cv_name vocabulary)" "list_all slot_name_ok ncsa_names"
  by code_simp+

lemma name_ok_base: "slot_name_ok (generic_base k @ dec n)"
proof -
  have "list_all (\<lambda>k. slot_name_ok (generic_base k)) all_kinds" by code_simp
  moreover have "k \<in> set all_kinds" by (cases k) (simp_all add: all_kinds_def)
  ultimately show ?thesis by (simp add: name_ok_append list_all_iff slot_name_ok_def [of "[]"])
qed

lemma vocab_name_ok: "vocab key k = Some c \<Longrightarrow> slot_name_ok (cv_name c)"
  using name_ok_known(1) by (auto simp: vocab_def find_Some_iff list_all_iff)

definition placed_ok :: "placed \<Rightarrow> bool" where
  "placed_ok out \<longleftrightarrow> (\<forall>i n r. out i = Some (Some n, r) \<longrightarrow> slot_name_ok n)"

lemma placed_name_ok: "placed_ok out \<Longrightarrow> out i = Some (Some n, r) \<Longrightarrow> slot_name_ok n"
  by (auto simp: placed_ok_def)

lemma placed_ok_place: "placed_ok out \<Longrightarrow> slot_name_ok n \<Longrightarrow> placed_ok (place i n r out)"
  by (simp add: placed_ok_def place_def)

lemma placed_ok_generic: "placed_ok out \<Longrightarrow> placed_ok (leave_generic i r out)"
  by (simp add: placed_ok_def leave_generic_def)

lemma fold_keeps: "(\<And>x s. x \<in> set xs \<Longrightarrow> P s \<Longrightarrow> P (f x s)) \<Longrightarrow> P s \<Longrightarrow> P (fold f xs s)"
  by (induction xs arbitrary: s) simp_all

lemma if_keeps: "(c \<Longrightarrow> P a) \<Longrightarrow> (\<not> c \<Longrightarrow> P b) \<Longrightarrow> P (if c then a else b)"
  by simp

lemma option_keeps: "(x = None \<Longrightarrow> P a) \<Longrightarrow> (\<And>y. x = Some y \<Longrightarrow> P (f y)) \<Longrightarrow> P (case x of None \<Rightarrow> a | Some y \<Rightarrow> f y)"
  by (cases x) simp_all

lemmas placed_keeps = if_keeps [where P = placed_ok] option_keeps [where P = placed_ok]

lemmas fold_placed = fold_keeps [where P = placed_ok]

lemma json_step_ok: "placed_ok (snd s) \<Longrightarrow> placed_ok (snd (json_step cols kinds i s))"
  unfolding json_step_def Let_def
  by (intro if_keeps [where P = "\<lambda>x. placed_ok (snd x)"]; simp only: snd_conv placed_ok_place name_ok_sanitize)

lemma placed_ok_json: "placed_ok out \<Longrightarrow> placed_ok (json_keys cols kinds out)"
  unfolding json_keys_def
  by (rule fold_keeps [where P = "\<lambda>s. placed_ok (snd s)"]) (rule json_step_ok, assumption, simp)

lemma header_step_ok: "placed_ok (snd s) \<Longrightarrow> placed_ok (snd (header_step cols kinds h i s))"
  unfolding header_step_def Let_def snd_conv
  by (intro placed_keeps; simp only: placed_ok_place placed_ok_generic name_ok_sanitize)

lemma placed_ok_header: "placed_ok out \<Longrightarrow> placed_ok (header_columns cols kinds h out)"
  unfolding header_columns_def
  by (cases h) (simp_all add: fold_keeps [where P = "\<lambda>s. placed_ok (snd s)"] header_step_ok)

lemma placed_ok_ncsa: "placed_ok out \<Longrightarrow> placed_ok (ncsa_combined cols slots kinds out)"
proof -
  assume ok: "placed_ok out"
  have "slot_name_ok (ncsa_names ! i)" if "i < 8" for i
    using name_ok_known(2) that by (simp add: list_all_length ncsa_names_def)
  then have "placed_ok (fold (\<lambda>i. place (slots ! i) (ncsa_names ! i) r) (takeWhile P [0..<8]) out)" for P r
    using ok by (intro fold_placed) (auto intro!: placed_ok_place dest: set_takeWhileD)
  then show ?thesis using ok unfolding ncsa_combined_def Let_def by (simp only: if_split) simp
qed

lemma leave_rest_ok: "placed_ok out \<Longrightarrow> placed_ok (leave_rest cols kinds i out)"
  unfolding leave_rest_def Let_def by (intro placed_keeps placed_ok_generic)

lemma known_names:
  "slot_name_ok ''src_ip''" "slot_name_ok ''dst_ip''" "slot_name_ok ''src_port''" "slot_name_ok ''dst_port''"
  "slot_name_ok ''pid''" "slot_name_ok ''icmp_type''" "slot_name_ok ''icmp_code''" "slot_name_ok ''rule''"
  "slot_name_ok ''tcp_flags''" "slot_name_ok ''user''" "slot_name_ok ''timestamp''"
  by code_simp+

lemma name_pair_ok: "placed_ok out \<Longrightarrow> placed_ok (name_pair cols kinds addrs p a b out)"
  unfolding name_pair_def Let_def
  by (rule fold_placed, rule leave_rest_ok, assumption) (intro placed_keeps placed_ok_place known_names; assumption)

lemma placed_ok_pairs: "placed_ok out \<Longrightarrow> placed_ok (address_pair cols slots kinds out)"
proof -
  have "placed_ok (pair_loop cols slots kinds addrs is out)" if "placed_ok out" for addrs "is"
    using that by (induction cols slots kinds addrs "is" out rule: pair_loop.induct) (auto intro: name_pair_ok)
  then show "placed_ok out \<Longrightarrow> ?thesis" by (simp add: address_pair_def Let_def)
qed

lemma column_rule_ok: "case column_rule cols icmp k i of None \<Rightarrow> True | Some (n, r) \<Rightarrow> slot_name_ok n"
  unfolding column_rule_def Let_def
  by (intro if_keeps [where P = "\<lambda>x. case x of None \<Rightarrow> True | Some (n, r) \<Rightarrow> slot_name_ok n"]; unfold option.case prod.case;
      intro known_names TrueI)

lemma placed_ok_columns: "placed_ok out \<Longrightarrow> placed_ok (by_column cols kinds out)"
proof -
  have "placed_ok (column_step cols kinds icmp i out)" if "placed_ok out" for icmp i out
  proof (cases "kinds ! i")
    case (Some k)
    then show ?thesis using that column_rule_ok [of cols icmp k i]
      by (auto simp: column_step_def intro: placed_ok_place split: option.splits)
  qed (simp add: column_step_def that)
  then show "placed_ok out \<Longrightarrow> ?thesis" unfolding by_column_def Let_def by (rule fold_placed)
qed

lemma placed_ok_ports: "placed_ok out \<Longrightarrow> placed_ok (port_after_address cols kinds out)"
proof -
  have "placed_ok (port_step cols kinds i out)" if "placed_ok out" for i out
    using that unfolding port_step_def Let_def
    by (cases "kinds ! i"; cases "find (is_ip_slot kinds) (rev [0..<i])")
      (simp_all only: option.case if_split placed_ok_place known_names simp_thms)
  then show "placed_ok out \<Longrightarrow> ?thesis" unfolding port_after_address_def by (rule fold_placed)
qed

lemma placed_ok_positional: "placed_ok (positional cols kinds h)"
  unfolding positional_def Let_def
  by (intro placed_ok_ports placed_ok_columns placed_ok_pairs placed_ok_ncsa placed_ok_header placed_ok_json)
    (simp add: placed_ok_def)

lemma name_slot_ok: "placed_ok out \<Longrightarrow> fst (name_slot cols i k out) = Some n \<Longrightarrow> slot_name_ok n"
proof -
  assume ok: "placed_ok out" and f: "fst (name_slot cols i k out) = Some n"
  let ?P = "\<lambda>x. \<forall>n. fst x = Some n \<longrightarrow> slot_name_ok n"
  have "?P (name_slot cols i k out)"
    unfolding name_slot_def
    by (intro if_keeps [where P = ?P] option_keeps [where P = ?P];
        use ok known_names in \<open>auto dest: vocab_name_ok placed_name_ok\<close>)
  then show ?thesis using f by blast
qed

subsection \<open>What a template says of its columns\<close>

text \<open>The characters and slots of a template in order, each with whether it is in a group.\<close>

fun reads_token :: "bool \<Rightarrow> token \<Rightarrow> (bool \<times> (byte + slot_kind)) list" where
  "reads_token g (Const t) = map (\<lambda>b. (g, Inl b)) t"
| "reads_token g (Slot n k) = [(g, Inr k)]"
| "reads_token g (Optional ts) = concat (map (reads_token True) ts)"

definition reads :: "token list \<Rightarrow> (bool \<times> (byte + slot_kind)) list" where
  "reads ts = concat (map (reads_token False) ts)"

definition reads_col :: "col list \<Rightarrow> slot_kind option list \<Rightarrow> nat \<Rightarrow> (bool \<times> (byte + slot_kind)) list" where
  "reads_col cols kinds i =
     (case kinds ! i of
        Some k \<Rightarrow> [(cl_optional (cols ! i), Inr k)]
      | None \<Rightarrow> map (\<lambda>b. (cl_optional (cols ! i), Inl b)) (shown (cols ! i)))"

definition group_reads :: "token list \<Rightarrow> (bool \<times> (byte + slot_kind)) list" where
  "group_reads ts = concat (map (reads_token True) ts)"

definition flat_slots :: "token list \<Rightarrow> (bytes \<times> slot_kind) list" where
  "flat_slots ts = List.map_filter (\<lambda>u. case u of Slot n k \<Rightarrow> Some (n, k) | _ \<Rightarrow> None) ts"

lemma reads_simps [simp]:
  "reads [] = []" "reads (xs @ ys) = reads xs @ reads ys" "reads [Slot n k] = [(False, Inr k)]"
  "reads [Const t] = map (\<lambda>b. (False, Inl b)) t" "reads [Optional ts] = group_reads ts"
  "group_reads [] = []" "group_reads (xs @ ys) = group_reads xs @ group_reads ys" "group_reads [Slot n k] = [(True, Inr k)]"
  "group_reads [Const t] = map (\<lambda>b. (True, Inl b)) t"
  by (simp_all add: reads_def group_reads_def)

lemma slots_simps [simp]:
  "template_slots [] = []" "template_slots (xs @ ys) = template_slots xs @ template_slots ys"
  "template_slots [Slot n k] = [(n, k)]" "template_slots [Const t] = []" "template_slots [Optional ts] = flat_slots ts"
  "flat_slots [] = []" "flat_slots (xs @ ys) = flat_slots xs @ flat_slots ys"
  "flat_slots [Slot n k] = [(n, k)]" "flat_slots [Const t] = []"
  by (simp_all add: template_slots_def flat_slots_def map_filter_def)

text \<open>Constants are merged, so none follows another.\<close>

fun merged :: "token list \<Rightarrow> bool" where
  "merged (Const s # Const t # ts) = False"
| "merged (t # ts) = merged ts"
| "merged [] = True"

lemma push_const_snoc: "push_const t (ts @ [u]) = (case u of Const s \<Rightarrow> ts @ [Const (s @ t)] | _ \<Rightarrow> ts @ [u, Const t])"
proof (induction ts)
  case (Cons v ts)
  then show ?case by (cases ts) (auto split: token.split)
qed (cases u; simp)

lemma merged_snoc: "merged (ts @ [t]) \<longleftrightarrow> merged ts \<and> (ts = [] \<or> (\<forall>s. last ts \<noteq> Const s) \<or> (\<forall>s. t \<noteq> Const s))"
proof (induction ts)
  case (Cons u ts)
  then show ?case by (cases ts; cases u; cases t) (auto, (metis token.exhaust merged.simps)+)
qed (cases t; simp)

lemma push_const_reads [simp]:
  "reads (push_const t ts) = reads ts @ map (\<lambda>b. (False, Inl b)) t"
  "group_reads (push_const t ts) = group_reads ts @ map (\<lambda>b. (True, Inl b)) t"
  "template_slots (push_const t ts) = template_slots ts" "flat_slots (push_const t ts) = flat_slots ts"
proof -
  have "reads (push_const t ts) = reads ts @ map (\<lambda>b. (False, Inl b)) t \<and>
    group_reads (push_const t ts) = group_reads ts @ map (\<lambda>b. (True, Inl b)) t \<and>
    template_slots (push_const t ts) = template_slots ts \<and> flat_slots (push_const t ts) = flat_slots ts"
    by (cases ts rule: rev_cases)
      (auto simp: push_const_snoc reads_def group_reads_def template_slots_def flat_slots_def map_filter_def split: token.split)
  then show "reads (push_const t ts) = reads ts @ map (\<lambda>b. (False, Inl b)) t"
    "group_reads (push_const t ts) = group_reads ts @ map (\<lambda>b. (True, Inl b)) t"
    "template_slots (push_const t ts) = template_slots ts" "flat_slots (push_const t ts) = flat_slots ts" by simp_all
qed

lemma merged_two: "merged (ts @ [u, v]) \<longleftrightarrow> merged (ts @ [u]) \<and> ((\<forall>s. u \<noteq> Const s) \<or> (\<forall>s. v \<noteq> Const s))"
  using merged_snoc [of "ts @ [u]" v] by simp

lemma push_const_merged: "merged ts \<Longrightarrow> merged (push_const t ts)"
  by (cases ts rule: rev_cases) (auto simp: push_const_snoc merged_snoc merged_two split: token.split)

lemma push_const_ok: "t \<noteq> [] \<Longrightarrow> list_all token_ok ts \<Longrightarrow> list_all token_ok (push_const t ts)"
  by (cases ts rule: rev_cases) (auto simp: push_const_snoc split: token.split)

lemma push_const_flat: "t \<noteq> [] \<Longrightarrow> list_all flat_ok ts \<Longrightarrow> list_all flat_ok (push_const t ts)"
  by (cases ts rule: rev_cases) (auto simp: push_const_snoc split: token.split)

lemma push_const_not_Nil [simp]: "push_const t ts \<noteq> []"
  by (cases ts rule: rev_cases) (auto simp: push_const_snoc split: token.split)

text \<open>A constant that starts with a closing brace after a group.\<close>

fun brace_after_group :: "token list \<Rightarrow> bool" where
  "brace_after_group (t # u # ts) \<longleftrightarrow> \<not> pair_ok t u \<and> (\<forall>s. t \<noteq> Const s) \<or> brace_after_group (u # ts)"
| "brace_after_group _ \<longleftrightarrow> False"

lemma seq_ok_iff: "merged ts \<Longrightarrow> seq_ok ts \<longleftrightarrow> \<not> brace_after_group ts"
proof (induction ts rule: seq_ok.induct)
  case (1 t u ts)
  then show ?case by (cases t; cases u) auto
qed simp_all

lemma no_groups: "list_all flat_ok ts \<Longrightarrow> \<not> brace_after_group ts"
proof (induction ts rule: brace_after_group.induct)
  case (1 t u ts)
  then show ?case by (cases t; cases u) auto
qed simp_all

lemma template_wf_iff: "merged ts \<Longrightarrow> list_all token_ok ts \<Longrightarrow> template_wf ts \<longleftrightarrow> \<not> brace_after_group ts"
  by (simp add: template_wf_def seq_ok_iff)

definition shaping_ok :: "col list \<Rightarrow> slot_kind option list \<Rightarrow> nat \<Rightarrow> shaping \<Rightarrow> bool" where
  "shaping_ok cols kinds i s \<longleftrightarrow>
     reads (sh_tokens s) @ group_reads (sh_group s) = concat (map (reads_col cols kinds) [0..<i]) \<and>
     template_slots (sh_tokens s) @ flat_slots (sh_group s) = map (\<lambda>r. (sl_name r, sl_kind r)) (sh_slots s) \<and>
     map sl_col (sh_slots s) = filter (\<lambda>j. kinds ! j \<noteq> None) [0..<i] \<and>
     merged (sh_tokens s) \<and> list_all token_ok (sh_tokens s) \<and> merged (sh_group s) \<and> list_all flat_ok (sh_group s) \<and>
     (sh_presence s = None \<longrightarrow> sh_group s = []) \<and> list_all (\<lambda>r. slot_name_ok (sl_name r)) (sh_slots s)"

lemma flush_ok: "shaping_ok cols kinds i s \<Longrightarrow> shaping_ok cols kinds i (flush_group s) \<and> sh_group (flush_group s) = []"
  by (auto simp: shaping_ok_def flush_group_def merged_snoc seq_ok_iff no_groups)

lemma enter_ok:
  assumes "shaping_ok cols kinds i s"
  shows "shaping_ok cols kinds i (enter_col c s)"
    "if cl_optional c then sh_presence (enter_col c s) \<noteq> None else sh_presence (enter_col c s) = None \<and> sh_group (enter_col c s) = []"
proof -
  have p: "shaping_ok cols kinds i (s\<lparr>sh_presence := Some q\<rparr>)" if "shaping_ok cols kinds i s" for s q
    using that by (simp add: shaping_ok_def)
  have n: "shaping_ok cols kinds i (s\<lparr>sh_presence := None\<rparr>)" if "shaping_ok cols kinds i s" "sh_group s = []" for s
    using that by (simp add: shaping_ok_def)
  show "shaping_ok cols kinds i (enter_col c s)"
    using assms flush_ok [OF assms] by (auto simp: enter_col_def intro: p n)
  show "if cl_optional c then sh_presence (enter_col c s) \<noteq> None else sh_presence (enter_col c s) = None \<and> sh_group (enter_col c s) = []"
    using assms flush_ok [OF assms] by (auto simp: enter_col_def shaping_ok_def)
qed

lemma put_const_ok:
  assumes "shaping_ok cols kinds i s" "kinds ! i = None" "shown (cols ! i) \<noteq> []"
    and e: "if cl_optional (cols ! i) then sh_presence s \<noteq> None else sh_presence s = None \<and> sh_group s = []"
  shows "shaping_ok cols kinds (Suc i) (put_token (cols ! i) (push_const (shown (cols ! i))) s)"
  using assms
  by (auto simp: shaping_ok_def put_token_def reads_col_def push_const_merged push_const_ok push_const_flat split: if_splits)

lemma put_slot_ok:
  assumes "shaping_ok cols kinds i s" "kinds ! i = Some k" "slot_name_ok n"
    and e: "if cl_optional (cols ! i) then sh_presence s \<noteq> None else sh_presence s = None \<and> sh_group s = []"
    and r: "sl_col r = i" "sl_name r = n" "sl_kind r = k"
  shows "shaping_ok cols kinds (Suc i) (put_token (cols ! i) (\<lambda>ts. ts @ [Slot n k]) (s\<lparr>sh_slots := sh_slots s @ [r]\<rparr>))"
  using assms by (auto simp: shaping_ok_def put_token_def reads_col_def merged_snoc split: if_splits)

lemma put_token_slots: "(put_token c f s)\<lparr>sh_slots := rs\<rparr> = put_token c f (s\<lparr>sh_slots := rs\<rparr>)"
  by (simp add: put_token_def)

lemma base_name_ok:
  "base_name found k s = (b, t) \<Longrightarrow> (\<And>n. found = Some n \<Longrightarrow> slot_name_ok n) \<Longrightarrow> slot_name_ok b \<and> (\<exists>g. t = s\<lparr>sh_generic := g\<rparr>)"
  by (auto simp: base_name_def Let_def name_ok_base split: option.splits) (metis shaping.surjective shaping.update_convs(5))

lemma name_ok_under: "slot_name_ok (CHR ''_'' # s) \<longleftrightarrow> s = [] \<or> slot_name_ok s"
  by (auto simp: slot_name_ok_def)

lemma count_name_ok: "count_name b s = (n, t) \<Longrightarrow> slot_name_ok b \<Longrightarrow> slot_name_ok n \<and> (\<exists>u. t = s\<lparr>sh_used := u\<rparr>)"
  by (auto simp: count_name_def Let_def name_ok_append name_ok_under split: if_splits)

lemma shape_col_ok:
  assumes "shaping_ok cols kinds i s" "placed_ok out" "kinds ! i = None \<Longrightarrow> shown (cols ! i) \<noteq> []"
  shows "shaping_ok cols kinds (Suc i) (shape_col cols kinds out i s)"
proof (cases "kinds ! i")
  case None
  then show ?thesis using put_const_ok [OF enter_ok(1) [OF assms(1)] None assms(3) [OF None] enter_ok(2) [OF assms(1)]]
    by (simp add: shape_col_def Let_def)
next
  case (Some k)
  let ?s = "enter_col (cols ! i) s"
  obtain found reason where f: "name_slot cols i k out = (found, reason)" by fastforce
  obtain base s1 where b: "base_name found k ?s = (base, s1)" by fastforce
  obtain name s2 where c: "count_name base s1 = (name, s2)" by fastforce
  have "\<And>n. found = Some n \<Longrightarrow> slot_name_ok n" using name_slot_ok [OF assms(2), of cols i k] f by simp
  with base_name_ok [OF b] obtain g where g: "slot_name_ok base" "s1 = ?s\<lparr>sh_generic := g\<rparr>" by blast
  with count_name_ok [OF c] obtain u where u: "slot_name_ok name" "s2 = s1\<lparr>sh_used := u\<rparr>" by blast
  have ok: "shaping_ok cols kinds i s2" using enter_ok(1) [OF assms(1), of "cols ! i"] by (simp add: u g shaping_ok_def)
  have e: "if cl_optional (cols ! i) then sh_presence s2 \<noteq> None else sh_presence s2 = None \<and> sh_group s2 = []"
    using enter_ok(2) [OF assms(1), of "cols ! i"] by (simp add: u g)
  show ?thesis using put_slot_ok [OF ok Some u(1) e] by (simp add: shape_col_def Let_def Some f b c put_token_slots)
qed

text \<open>Columns with text where they are constant.\<close>

definition constants_ok :: "col list \<Rightarrow> bool" where
  "constants_ok cols \<longleftrightarrow> list_all (\<lambda>c. is_slot c \<or> cl_text c \<noteq> []) cols"

lemma utf8_lossy_ne: "s \<noteq> [] \<Longrightarrow> utf8_lossy s \<noteq> []"
  using utf8_head_pos [of "hd s" "tl s"] by (cases s) (auto split: prod.split)

lemma slot_kinds_iff: "i < length cols \<Longrightarrow> slot_kinds cols rare ! i = None \<longleftrightarrow> \<not> is_slot (cols ! i)"
  by (simp add: slot_kinds_def Let_def)

lemma shape_loop_ok:
  assumes "constants_ok cols" "placed_ok out" "i \<le> length cols"
  shows "shaping_ok cols (slot_kinds cols rare) i (fold (shape_col cols (slot_kinds cols rare) out) [0..<i] shaping_start)"
  using assms(3)
proof (induction i)
  case 0
  then show ?case by (simp add: shaping_ok_def shaping_start_def)
next
  case (Suc i)
  have "shown (cols ! i) \<noteq> []" if "slot_kinds cols rare ! i = None"
  proof -
    have "cl_text (cols ! i) \<noteq> []" using that assms(1) Suc.prems by (auto simp: slot_kinds_iff constants_ok_def list_all_length dest: spec [of _ i])
    then show ?thesis using utf8_lossy_ne by (simp add: shown_def)
  qed
  with Suc show ?case using shape_col_ok [OF _ assms(2)] by simp
qed

lemma shape_ok:
  assumes "constants_ok cols" "shape cols rare h = (ts, rows)"
  shows "reads ts = concat (map (reads_col cols (slot_kinds cols rare)) [0..<length cols])"
    "template_slots ts = map (\<lambda>r. (sl_name r, sl_kind r)) rows" "map sl_col rows = filter (\<lambda>i. is_slot (cols ! i)) [0..<length cols]"
    "list_all (\<lambda>r. slot_name_ok (sl_name r)) rows" "template_wf ts \<longleftrightarrow> \<not> brace_after_group ts"
proof -
  let ?k = "slot_kinds cols rare" and ?s = "fold (shape_col cols (slot_kinds cols rare) (positional cols (slot_kinds cols rare) h)) [0..<length cols] shaping_start"
  have f: "shaping_ok cols ?k (length cols) (flush_group ?s)" "sh_group (flush_group ?s) = []"
    using flush_ok [OF shape_loop_ok [OF assms(1) placed_ok_positional order_refl]] by simp_all
  have t: "ts = sh_tokens (flush_group ?s)" "rows = sh_slots (flush_group ?s)" using assms(2) by (auto simp: shape_def Let_def)
  show "reads ts = concat (map (reads_col cols ?k) [0..<length cols])" "template_slots ts = map (\<lambda>r. (sl_name r, sl_kind r)) rows"
    "list_all (\<lambda>r. slot_name_ok (sl_name r)) rows" "template_wf ts \<longleftrightarrow> \<not> brace_after_group ts"
    using f unfolding t by (simp_all add: shaping_ok_def template_wf_iff)
  show "map sl_col rows = filter (\<lambda>i. is_slot (cols ! i)) [0..<length cols]"
  proof -
    have "filter (\<lambda>j. ?k ! j \<noteq> None) [0..<length cols] = filter (\<lambda>i. is_slot (cols ! i)) [0..<length cols]"
      by (intro filter_cong refl) (simp add: slot_kinds_iff del: not_None_eq)
    then show ?thesis using f unfolding t shaping_ok_def by simp
  qed
qed

subsection \<open>The columns of a cluster have text\<close>

definition filled :: "col \<Rightarrow> bool" where
  "filled c \<longleftrightarrow> cl_text c \<noteq> []"

lemma filled_put [simp]: "filled (put_value m k t c) = filled c" "filled (c\<lparr>cl_variable := b\<rparr>) = filled c"
    "filled (c\<lparr>cl_present := p\<rparr>) = filled c" "filled (c\<lparr>cl_optional := b\<rparr>) = filled c"
  by (simp_all add: filled_def put_value_def)

lemma filled_token [simp]: "filled (from_tok t m n) \<longleftrightarrow> tk_text t \<noteq> []"
  by (simp add: filled_def from_tok_def)

lemma filled_map [simp]: "list_all filled (map (\<lambda>t. from_tok t m n) ts) \<longleftrightarrow> list_all (\<lambda>t. tk_text t \<noteq> []) ts"
  by (simp add: list_all_iff)

lemma all_take_drop: "list_all P xs \<Longrightarrow> list_all P (take k (drop j xs))"
  by (auto simp: list_all_iff dest: in_set_takeD in_set_dropD)

lemma all_take: "list_all P xs \<Longrightarrow> list_all P (take k xs)"
  by (auto simp: list_all_iff dest: in_set_takeD)

lemma all_drop: "list_all P xs \<Longrightarrow> list_all P (drop k xs)"
  by (auto simp: list_all_iff dest: in_set_dropD)

lemma filled_collapse:
  assumes "list_all filled pc" "list_all (\<lambda>t. tk_text t \<noteq> []) mt" "pc \<noteq> []"
  shows "list_all filled (collapse pc mt m n)"
proof -
  have h: "filled (hd pc)" using assms(1,3) by (cases pc) auto
  have u: "list_all filled (pc[i := put_value m k t ((pc ! i)\<lparr>cl_variable := True\<rparr>)])" for i k t
    using assms(1) by (cases "i < length pc") (auto simp: list_all_length nth_list_update)
  show ?thesis using h u all_take [OF assms(2)] all_drop [OF assms(2)]
    by (simp add: collapse_def Let_def) (simp add: filled_def)
qed

lemma filled_gap:
  assumes "list_all filled pc" "list_all (\<lambda>t. tk_text t \<noteq> []) mt"
  shows "list_all filled (gap pc mt m n)"
proof -
  have "list_all filled (map2 (\<lambda>c t. put_value m (tk_kind t) (tk_text t) (c\<lparr>cl_variable := True\<rparr>)) pc mt)"
    using assms(1) by (auto simp: list_all_iff dest: set_zip_leftD)
  moreover have "pc \<noteq> [] \<Longrightarrow> filled (hd pc)" using assms(1) by (cases pc) auto
  ultimately show ?thesis using assms filled_collapse [OF assms] by (simp add: gap_def)
qed

lemma filled_weave:
  assumes "list_all filled cols" "list_all (\<lambda>t. tk_text t \<noteq> []) ts"
  shows "list_all filled (weave cols ts m n ps p q)"
  using assms
proof (induction cols ts m n ps p q rule: weave.induct)
  case (2 cols ts m n i j ps p q)
  have "list_all filled (gap (take (i - p) (drop p cols)) (take (j - q) (drop q ts)) m n)"
    using "2.prems" by (intro filled_gap all_take_drop)
  moreover have "i < length cols \<Longrightarrow> filled (cols ! i)" using "2.prems"(1) by (simp add: list_all_length)
  ultimately show ?case using 2 by (auto simp: take_token_def)
qed simp

lemma filled_members: "list_all (list_all (\<lambda>t. tk_text t \<noteq> [])) tss \<Longrightarrow> list_all filled cols \<Longrightarrow> list_all filled (align_members n m tss cols)"
  by (induction n m tss cols rule: align_members.induct) (auto simp: align_member_def Let_def filled_weave)

lemma filled_consensus:
  assumes "list_all (list_all (\<lambda>t. tk_text t \<noteq> [])) tss" "tss \<noteq> []"
  shows "list_all filled (consensus tss)"
proof (cases tss)
  case (Cons ts rest)
  then show ?thesis using assms by (simp add: consensus_def filled_members)
qed (simp add: assms)

lemma filled_presence: "list_all filled cols \<Longrightarrow> list_all filled (fst (presence_rules cols n rare))"
  by (induction cols) (auto simp: Let_def split: prod.split)

lemma filled_run: "run \<noteq> [] \<Longrightarrow> list_all filled run \<Longrightarrow> filled (collapsed_run run n)"
  by (cases run) (auto simp: filled_def collapsed_run_def Let_def)

text \<open>What holds of every column and of a collapsed run holds after collapsing.\<close>

lemma word_runs_all:
  assumes run: "\<And>run. run \<noteq> [] \<Longrightarrow> list_all P run \<Longrightarrow> P (collapsed_run run n)"
  shows "list_all P cols \<Longrightarrow> list_all P (fst (collapse_word_runs_where cols n b))"
  using run
proof (induction cols n b rule: collapse_word_runs_where.induct)
  case (1 cols n b)
  note all = "1.prems"(1) and run = "1.prems"(2)
  show ?case
  proof (cases cols)
    case Nil
    then show ?thesis by (simp add: collapse_word_runs_where.simps)
  next
    case (Cons c cs)
    let ?k = "word_run cs"
    note un = collapse_word_runs_where.simps [of cols, unfolded Let_def]
    have f: "P c" "list_all P cs" "P (collapsed_run (c # take ?k cs) n)"
      using all Cons run [of "c # take ?k cs"] by (auto intro: all_take)
    show ?thesis
    proof (cases "is_wordish_slot c \<and> ?k \<ge> 2 \<and> (\<not> b \<or> list_ex cl_optional (c # take ?k cs))")
      case True
      have "list_all P (fst (collapse_word_runs_where (drop ?k cs) n b))"
        using "1.IH"(1) [OF Cons refl refl True all_drop [OF f(2)] run] .
      then show ?thesis using f True Cons by (subst un) (auto split: prod.splits)
    next
      case False
      have "list_all P (fst (collapse_word_runs_where cs n b))" using "1.IH"(2) [OF Cons refl refl False f(2) run] .
      then show ?thesis using f False Cons by (subst un) (auto split: prod.splits)
    qed
  qed
qed

lemma messy_runs_all:
  assumes run: "\<And>run. run \<noteq> [] \<Longrightarrow> list_all P run \<Longrightarrow> P (collapsed_run run n)"
  shows "list_all P cols \<Longrightarrow> list_all P (fst (collapse_messy_runs cols n))"
  using run
proof (induction cols n rule: collapse_messy_runs.induct)
  case (1 cols n)
  note all = "1.prems"(1) and run = "1.prems"(2)
  show ?case
  proof (cases cols)
    case Nil
    then show ?thesis by (simp add: collapse_messy_runs.simps)
  next
    case (Cons c cs)
    show ?thesis
    proof (cases "is_anchor c")
      case True
      then show ?thesis using "1.IH"(1) [OF Cons True _ run] all Cons
        by (auto simp: collapse_messy_runs.simps [of "c # cs"] split: prod.split)
    next
      case False
      define run rest where "run = takeWhile (\<lambda>c. \<not> is_anchor c) cols" and "rest = dropWhile (\<lambda>c. \<not> is_anchor c) cols"
      obtain lead body trail where p: "stretch_parts run = (lead, body, trail)" by (cases "stretch_parts run")
      have "cols = run @ rest" by (simp add: run_def rest_def)
      then have f: "list_all P run" "list_all P rest" using all by simp_all
      then have g: "list_all P lead" "list_all P body" "list_all P (trail @ rest)" using stretch_parts_join [OF p] by simp_all
      note un = collapse_messy_runs.simps [of cols, unfolded Let_def, folded run_def rest_def]
      show ?thesis
      proof (cases "messy body")
        case True
        have "list_all P (fst (collapse_messy_runs (trail @ rest) n))"
          using "1.IH"(2) [OF Cons False run_def rest_def refl p [symmetric] refl True g(3) run] .
        then show ?thesis unfolding un using Cons False g(1) run [OF messy_not_empty [OF True] g(2)]
          by (auto simp: p True split: prod.split)
      next
        case no: False
        have "list_all P (fst (collapse_messy_runs rest n))"
          using "1.IH"(3) [OF Cons False run_def rest_def refl p [symmetric] refl no f(2) run] .
        then show ?thesis unfolding un using Cons False f(1) by (auto simp: p no split: prod.split)
      qed
    qed
  qed
qed

lemma filled_merged: "list_all filled cols \<Longrightarrow> list_all filled (merged_columns cols n)"
  by (simp add: merged_columns_def collapse_word_runs_def collapse_variable_word_runs_def word_runs_all messy_runs_all filled_run)

lemma filled_constants: "list_all filled cols \<Longrightarrow> constants_ok cols"
  by (auto simp: constants_ok_def filled_def list_all_iff)

lemma toks_ok_nonempty: "finder_ok rx \<Longrightarrow> toks_ok rx json ts \<Longrightarrow> list_all (\<lambda>t. tk_text t \<noteq> []) ts"
  by (induction ts)
    (auto simp: finder_ok_def tok_ok_def word_text_def group_text_def quoted_text_def chain_text_def split: tok_kind.splits)

lemma tokenize_filled:
  assumes "finder_ok rx"
  obtains tss where "map (tokenize rx) ls = map Some tss" "list_all (list_all (\<lambda>t. tk_text t \<noteq> [])) tss"
proof -
  have "\<exists>ts. tokenize rx l = Some ts \<and> list_all (\<lambda>t. tk_text t \<noteq> []) ts" for l
    using tok_loop_returns [OF assms, of 0 l "[]"] toks_ok_nonempty [OF assms] by (auto simp: tokenize_def)
  then obtain f where f: "\<And>l. tokenize rx l = Some (f l) \<and> list_all (\<lambda>t. tk_text t \<noteq> []) (f l)" by metis
  show ?thesis by (rule that [of "map f ls"]) (use f in \<open>simp_all add: comp_def list.pred_map list.pred_True\<close>)
qed

text \<open>The columns a leaf of the clustering writes its template from.\<close>

definition leaf_columns :: "tok list list \<Rightarrow> nat \<Rightarrow> col list" where
  "leaf_columns tss rare = merged_columns (fst (presence_rules (consensus tss) (length tss) rare)) (length tss)"

text \<open>
  The template of a cluster says what its columns say: read in order it has their constants and their
  slots with the inferred types, a part in a group exactly where the column is optional; the slots it
  lists are those columns, under names the pattern syntax accepts; and the pattern text it is stored as is
  read back as that template, unless a group is followed by a constant that starts with a closing brace.
\<close>

theorem template_says_columns:
  assumes "finder_ok rx" "ls \<noteq> []"
  shows "\<exists>tss. map (tokenize rx) ls = map Some tss \<and>
    (let cols = leaf_columns tss rare; kinds = slot_kinds cols rare; ts = fst (shape cols rare h); rows = snd (shape cols rare h)
     in reads ts = concat (map (reads_col cols kinds) [0..<length cols]) \<and>
        map sl_col rows = filter (\<lambda>i. is_slot (cols ! i)) [0..<length cols] \<and>
        template_slots ts = map (\<lambda>r. (sl_name r, sl_kind r)) rows \<and>
        list_all (\<lambda>r. slot_name_ok (sl_name r)) rows \<and>
        (from_pattern (to_pattern ts) = Inr ts \<longleftrightarrow> \<not> brace_after_group ts))"
proof -
  obtain tss where t: "map (tokenize rx) ls = map Some tss" "list_all (list_all (\<lambda>t. tk_text t \<noteq> [])) tss"
    by (rule tokenize_filled [OF assms(1)])
  have "tss \<noteq> []" using t(1) assms(2) by auto
  then have ok: "constants_ok (leaf_columns tss rare)"
    unfolding leaf_columns_def by (intro filled_constants filled_merged filled_presence filled_consensus t(2))
  obtain ts rows where s: "shape (leaf_columns tss rare) rare h = (ts, rows)" by fastforce
  note k = shape_ok [OF ok s]
  have "from_pattern (to_pattern ts) = Inr ts \<longleftrightarrow> \<not> brace_after_group ts"
    using k(5) wf_roundtrip [of ts] from_pattern_wf [of "to_pattern ts" ts] by blast
  then show ?thesis using t(1) k(1-4) by (intro exI [of _ tss]) (simp add: Let_def s)
qed

theorem template_says_columns_witness:
  "\<exists>tss. map (tokenize int_finder) [''port 80'', ''port 443''] = map Some tss \<and>
    (let cols = leaf_columns tss 2; kinds = slot_kinds cols 2; ts = fst (shape cols 2 None); rows = snd (shape cols 2 None)
     in reads ts = concat (map (reads_col cols kinds) [0..<length cols]) \<and>
        map sl_col rows = filter (\<lambda>i. is_slot (cols ! i)) [0..<length cols] \<and>
        template_slots ts = map (\<lambda>r. (sl_name r, sl_kind r)) rows \<and>
        list_all (\<lambda>r. slot_name_ok (sl_name r)) rows \<and>
        (from_pattern (to_pattern ts) = Inr ts \<longleftrightarrow> \<not> brace_after_group ts))"
proof -
  have "finder_ok int_finder" by (auto simp: finder_ok_def int_finder_def Let_def length_takeWhile_le split: if_splits)
  from template_says_columns [OF this, of "[''port 80'', ''port 443'']" 2 None] show ?thesis by simp
qed

text \<open>
  The exception happens: an optional part before a constant closing brace, as at the end of a JSON object,
  becomes a group followed by that brace, and the pattern text then means another template.
\<close>

definition brace_cols :: "col list" where
  "brace_cols =
     (let c = (\<lambda>t opt. \<lparr>cl_kind = TPunct, cl_text = t, cl_present = [True, \<not> opt], cl_variable = False, cl_region = False,
                         cl_values = [], cl_optional = opt\<rparr>)
      in [c ''x'' False, c '','' True, c [CHR 0x7D] False])"

lemma brace_template: "fst (shape brace_cols 2 None) = [Const ''x'', Optional [Const '',''], Const [CHR 0x7D]]"
  by code_simp

lemma brace_moves_into_group:
  "from_pattern (to_pattern (fst (shape brace_cols 2 None))) = Inr [Const ''x'', Optional [Const ('','' @ [CHR 0x7D])]]"
  unfolding brace_template by code_simp

text \<open>
  Numbered names are not kept apart from keys that look like them: two slots named \<open>user\<close> and one
  whose key is \<open>user_2\<close> give two slots named \<open>user_2\<close>.
\<close>

lemma numbered_name_collides:
  "(let (a, s) = count_name ''user'' shaping_start; (b, s) = count_name ''user'' s; (c, s) = count_name ''user_2'' s in (a, b, c)) =
   (''user'', ''user_2'', ''user_2'')"
  by code_simp

end
