(* ===== verification/Ulpf_Drift.thy ===== *)
theory Ulpf_Drift
  imports Ulpf_Float Ulpf_Shape Ulpf_Mapping_Load
begin

text \<open>
  The drift of a source, \<open>SourceStats\<close> of \<open>src/crates/ulpf/src/engine.rs\<close>: every batch adds to a window of
  events and misses, a full window (or the partial one of a quiet source) is judged against the long-run
  rate of misses, and the source trips, is watched, or clears. The rates are doubles (\<open>Ulpf_Float\<close>); the
  clock's reading is an argument.
\<close>

datatype drift_state = Undrifted | Watching | Tripped | Proposed | Cleared

definition drift_window :: nat where "drift_window = 512"
definition drift_established :: nat where "drift_established = 1024"
definition drift_min_misses :: nat where "drift_min_misses = 32"
definition drift_delta :: rat where "drift_delta = 1/4"
definition drift_baseline_max :: rat where "drift_baseline_max = fl (1/5)"
definition drift_quiet :: int where "drift_quiet = 5000000000"

record source_stats =
  st_events :: nat
  st_detected :: nat
  st_no_parser :: nat
  st_parse_failed :: nat
  st_last_seen :: int
  st_by_parser :: "(bytes \<times> nat) list"
  st_window_events :: nat
  st_window_misses :: nat
  st_baseline_events :: nat
  st_baseline_misses :: nat
  st_window_rate :: rat
  st_drift :: drift_state
  st_since :: int
  st_lines_routed :: nat
  st_clean_windows :: nat

definition stats_default :: source_stats where
  "stats_default =
     \<lparr>st_events = 0, st_detected = 0, st_no_parser = 0, st_parse_failed = 0, st_last_seen = 0, st_by_parser = [],
      st_window_events = 0, st_window_misses = 0, st_baseline_events = 0, st_baseline_misses = 0, st_window_rate = 0,
      st_drift = Undrifted, st_since = 0, st_lines_routed = 0, st_clean_windows = 0\<rparr>"

text \<open>The parser with most events, the last of equals in name order.\<close>

definition established_parser :: "source_stats \<Rightarrow> bytes option" where
  "established_parser s = map_option fst (last_max snd (st_by_parser s))"

definition baseline_rate :: "source_stats \<Rightarrow> rat" where
  "baseline_rate s =
     (if st_baseline_events s = 0 then 0 else f64_div (f64_of (st_baseline_misses s)) (f64_of (st_baseline_events s)))"

definition window_rate :: "source_stats \<Rightarrow> rat" where
  "window_rate s = f64_div (f64_of (st_window_misses s)) (f64_of (st_window_events s))"

definition over_baseline :: "source_stats \<Rightarrow> bool" where
  "over_baseline s \<longleftrightarrow> f64_add (baseline_rate s) drift_delta \<le> window_rate s"

definition is_established :: "source_stats \<Rightarrow> bool" where
  "is_established s \<longleftrightarrow>
     drift_established \<le> st_baseline_events s \<and> baseline_rate s < drift_baseline_max \<and> established_parser s \<noteq> None"

definition routing :: "source_stats \<Rightarrow> bool" where
  "routing s \<longleftrightarrow> st_drift s = Tripped \<or> st_drift s = Proposed"

text \<open>A verdict on the window of a source that is not routed: it trips, or the window joins the baseline.\<close>

definition judge_calm :: "int \<Rightarrow> source_stats \<Rightarrow> bytes option \<times> source_stats" where
  "judge_calm now s =
     (if is_established s \<and> drift_min_misses \<le> st_window_misses s \<and> over_baseline s
      then (established_parser s, s\<lparr>st_drift := Tripped, st_since := now, st_clean_windows := 0\<rparr>)
      else (None, s\<lparr>st_drift := (if is_established s then Watching else st_drift s),
                    st_baseline_events := st_baseline_events s + st_window_events s,
                    st_baseline_misses := st_baseline_misses s + st_window_misses s\<rparr>))"

text \<open>A verdict while it is routed: clean windows in a row clear it.\<close>

definition judge_routed :: "int \<Rightarrow> source_stats \<Rightarrow> source_stats" where
  "judge_routed now s =
     (if \<not> over_baseline s then
        (let s = s\<lparr>st_clean_windows := st_clean_windows s + 1\<rparr> in
         if 4 \<le> st_clean_windows s
         then s\<lparr>st_drift := Cleared, st_baseline_events := 0, st_baseline_misses := 0, st_since := now\<rparr>
         else s)
      else s\<lparr>st_clean_windows := 0\<rparr>)"

definition judge :: "int \<Rightarrow> source_stats \<Rightarrow> bytes option \<times> source_stats" where
  "judge now s =
     (if st_window_events s = 0 then (None, s)
      else (let s = s\<lparr>st_window_rate := window_rate s\<rparr>;
                (tripped, s) = (if routing s then (None, judge_routed now s) else judge_calm now s)
            in (tripped, s\<lparr>st_window_events := 0, st_window_misses := 0\<rparr>)))"

definition observe :: "int \<Rightarrow> nat \<Rightarrow> nat \<Rightarrow> source_stats \<Rightarrow> bytes option \<times> source_stats" where
  "observe now events misses s =
     (let s = s\<lparr>st_window_events := st_window_events s + events, st_window_misses := st_window_misses s + misses\<rparr>
      in if st_window_events s < drift_window then (None, s) else judge now s)"

text \<open>What the poller does for one source: judge the partial window of a quiet source that misses enough.\<close>

definition judge_quiet :: "int \<Rightarrow> source_stats \<Rightarrow> bytes option \<times> source_stats" where
  "judge_quiet now s =
     (if drift_quiet \<le> now - st_last_seen s \<and> drift_min_misses \<le> st_window_misses s \<and> 0 < st_window_events s
      then judge now s else (None, s))"

text \<open>A tripped source whose update was approved or rejected starts afresh.\<close>

definition reset_drift :: "int \<Rightarrow> source_stats \<Rightarrow> source_stats" where
  "reset_drift now s =
     s\<lparr>st_drift := Cleared, st_baseline_events := 0, st_baseline_misses := 0, st_window_events := 0,
       st_window_misses := 0, st_since := now\<rparr>"

text \<open>One batch in the numbers of its source, and what the batch means for its misses.\<close>

definition count_batch :: "int \<Rightarrow> nat \<Rightarrow> nat \<Rightarrow> nat \<Rightarrow> nat \<Rightarrow> (bytes \<times> nat) list \<Rightarrow> source_stats \<Rightarrow> source_stats" where
  "count_batch now events detected no_parser parse_failed hits s =
     s\<lparr>st_events := st_events s + events, st_detected := st_detected s + detected,
       st_no_parser := st_no_parser s + no_parser, st_parse_failed := st_parse_failed s + parse_failed,
       st_last_seen := now,
       st_by_parser := foldl (\<lambda>m (name, h). if 0 < h then bt_entry name (\<lambda>n. case n of None \<Rightarrow> h | Some n \<Rightarrow> n + h) m else m)
                         (st_by_parser s) hits\<rparr>"

definition record_batch ::
  "int \<Rightarrow> nat \<Rightarrow> nat \<Rightarrow> nat \<Rightarrow> nat \<Rightarrow> (bytes \<times> nat) list \<Rightarrow> nat \<Rightarrow> source_stats \<Rightarrow> (bytes option \<times> bool) \<times> source_stats"
where
  "record_batch now events detected no_parser parse_failed hits routable s =
     (case observe now events (no_parser + parse_failed) (count_batch now events detected no_parser parse_failed hits s) of
        (tripped, s) \<Rightarrow>
          (let routed = routing s \<and> tripped = None
           in ((tripped, routed), if routed then s\<lparr>st_lines_routed := st_lines_routed s + routable\<rparr> else s)))"

subsection \<open>A source over time\<close>

text \<open>What can happen to a source, and when it trips.\<close>

datatype drift_op = Observed int nat nat | Idled int | Reset int

fun drift_step :: "drift_op \<Rightarrow> source_stats \<Rightarrow> bytes option \<times> source_stats" where
  "drift_step (Observed now events misses) s = observe now events misses s"
| "drift_step (Idled now) s = judge_quiet now s"
| "drift_step (Reset now) s = (None, if routing s then reset_drift now s else s)"

fun drift_run :: "drift_op list \<Rightarrow> source_stats \<Rightarrow> source_stats" where
  "drift_run [] s = s"
| "drift_run (x # xs) s = drift_run xs (snd (drift_step x s))"

fun op_events :: "drift_op \<Rightarrow> nat" where
  "op_events (Observed now events misses) = events"
| "op_events _ = 0"

fun op_ok :: "drift_op \<Rightarrow> bool" where
  "op_ok (Observed now events misses) \<longleftrightarrow> misses \<le> events"
| "op_ok _ \<longleftrightarrow> True"

fun is_observed :: "drift_op \<Rightarrow> bool" where
  "is_observed (Observed now events misses) = True"
| "is_observed _ = False"

text \<open>
  What holds \<open>n\<close> events after a trip, when a verdict on a routed source takes at least \<open>k\<close> events: it is routed
  and has seen fewer than four clean windows, or its baseline and its window hold only events that came since.
\<close>

definition after_trip :: "nat \<Rightarrow> nat \<Rightarrow> source_stats \<Rightarrow> bool" where
  "after_trip k n s \<longleftrightarrow>
     st_window_misses s \<le> st_window_events s \<and>
     (if routing s then st_clean_windows s < 4 \<and> k * st_clean_windows s + st_window_events s \<le> n
      else 4 * k + st_baseline_events s + st_window_events s \<le> n)"

definition tripped_now :: "source_stats \<Rightarrow> bool" where
  "tripped_now s \<longleftrightarrow> st_drift s = Tripped \<and> st_window_events s = 0 \<and> st_window_misses s = 0 \<and> st_clean_windows s = 0"

lemmas drift_defs = judge_def judge_calm_def judge_routed_def routing_def Let_def

lemma judge_window: "0 < st_window_events s \<Longrightarrow> st_window_events (snd (judge now s)) = 0 \<and> st_window_misses (snd (judge now s)) = 0"
  by (simp add: drift_defs split: prod.split)

lemma judge_trips:
  assumes "judge now s = (Some p, t)"
  shows "\<not> routing s \<and> is_established s \<and> over_baseline s \<and> drift_min_misses \<le> st_window_misses s \<and>
    established_parser s = Some p \<and> tripped_now t \<and> st_baseline_events t = st_baseline_events s"
proof -
  have cong: "is_established (s\<lparr>st_window_rate := r\<rparr>) = is_established s" "over_baseline (s\<lparr>st_window_rate := r\<rparr>) = over_baseline s"
    "established_parser (s\<lparr>st_window_rate := r\<rparr>) = established_parser s" for r
    by (simp_all add: is_established_def over_baseline_def baseline_rate_def established_parser_def window_rate_def)
  show ?thesis using assms
    by (auto simp: drift_defs cong tripped_now_def split: if_splits)
qed


lemma judge_after_trip:
  assumes "after_trip k n s" "0 < st_window_events s" "k \<le> st_window_events s"
  shows "after_trip k n (snd (judge now s))"
proof (cases "routing s")
  case True
  have "4 * k \<le> n" if "3 \<le> st_clean_windows s"
  proof -
    have "st_clean_windows s = 3" using that assms(1) True by (simp add: after_trip_def)
    then show ?thesis using assms(1,3) True by (simp add: after_trip_def)
  qed
  then show ?thesis using True assms
    by (auto simp: after_trip_def drift_defs algebra_simps split: if_splits)
next
  case False
  then show ?thesis using assms
    by (auto simp: after_trip_def judge_def judge_calm_def routing_def Let_def split: if_splits)
qed

lemma after_trip_step:
  assumes "after_trip k n s" "op_ok x" "k = 0 \<or> k = drift_window \<and> is_observed x"
  shows "after_trip k (n + op_events x) (snd (drift_step x s))"
proof (cases x)
  case (Observed now events misses)
  define u where "u = s\<lparr>st_window_events := st_window_events s + events, st_window_misses := st_window_misses s + misses\<rparr>"
  have u: "after_trip k (n + events) u" using assms(1,2) Observed
    by (auto simp: after_trip_def u_def routing_def split: if_splits)
  have "snd (drift_step x s) = (if st_window_events u < drift_window then u else snd (judge now u))"
    by (simp add: Observed observe_def u_def Let_def)
  moreover have "after_trip k (n + events) (snd (judge now u))" if "\<not> st_window_events u < drift_window"
    using u that assms(3) by (intro judge_after_trip) (auto simp: drift_window_def)
  ultimately show ?thesis using u Observed by simp
next
  case (Idled now)
  then show ?thesis using assms judge_after_trip [of 0 n s now] by (auto simp: judge_quiet_def)
next
  case (Reset now)
  then show ?thesis using assms by (auto simp: reset_drift_def after_trip_def routing_def)
qed

lemma after_trip_run:
  assumes "after_trip k n s" "list_all op_ok xs" "k = 0 \<or> k = drift_window \<and> list_all is_observed xs"
  shows "after_trip k (n + sum_list (map op_events xs)) (drift_run xs s)"
  using assms
proof (induction xs arbitrary: n s)
  case (Cons x xs)
  have "after_trip k (n + op_events x) (snd (drift_step x s))" using Cons.prems by (intro after_trip_step) auto
  then show ?case using Cons.IH [of "n + op_events x" "snd (drift_step x s)"] Cons.prems by (auto simp: add.assoc)
qed simp

lemma step_trips:
  assumes "drift_step x s = (Some p, t)" "after_trip k n s" "op_ok x"
  shows "4 * k + drift_established + drift_min_misses \<le> n + op_events x"
    "is_observed x \<Longrightarrow> 4 * k + drift_established + drift_window \<le> n + op_events x"
proof -
  obtain now u where u: "judge now u = (Some p, t)" "routing u = routing s" "st_window_misses u \<le> st_window_events u"
      "\<not> routing s \<Longrightarrow> 4 * k + st_baseline_events u + st_window_events u \<le> n + op_events x"
      "is_observed x \<Longrightarrow> drift_window \<le> st_window_events u"
  proof (cases x)
    case (Observed now events misses)
    then show ?thesis using assms that [of now "s\<lparr>st_window_events := st_window_events s + events, st_window_misses := st_window_misses s + misses\<rparr>"]
      by (auto simp: observe_def Let_def after_trip_def routing_def split: if_splits)
  next
    case (Idled now)
    then show ?thesis using assms that [of now s] by (auto simp: judge_quiet_def after_trip_def split: if_splits)
  qed (use assms in auto)
  show "4 * k + drift_established + drift_min_misses \<le> n + op_events x"
    "is_observed x \<Longrightarrow> 4 * k + drift_established + drift_window \<le> n + op_events x"
    using judge_trips [OF u(1)] u(2-5) by (auto simp: is_established_def)
qed

text \<open>
  C31. A source that has tripped does not trip again at once. Whatever batches, quiet periods and decisions
  of a reviewer follow, the events since the trip number at least 1056 when it trips again: its baseline
  starts afresh and is established only by 1024 events. Without a decision and without a quiet period they
  number at least 3584, because four clean windows must clear it first.
\<close>

theorem trips_far_apart:
  assumes "tripped_now s" "list_all op_ok (xs @ [x])" "drift_step x (drift_run xs s) = (Some p, t)"
  shows "1056 \<le> sum_list (map op_events (xs @ [x])) \<and>
    (list_all is_observed (xs @ [x]) \<longrightarrow> 3584 \<le> sum_list (map op_events (xs @ [x])))"
proof (intro conjI impI)
  have s: "after_trip k 0 s" for k using assms(1) by (simp add: tripped_now_def after_trip_def routing_def)
  have "after_trip 0 (sum_list (map op_events xs)) (drift_run xs s)"
    using after_trip_run [OF s [of 0], of xs] assms(2) by simp
  from step_trips(1) [OF assms(3) this] show "1056 \<le> sum_list (map op_events (xs @ [x]))"
    using assms(2) by (simp add: drift_established_def drift_min_misses_def)
  assume o: "list_all is_observed (xs @ [x])"
  then have "after_trip drift_window (sum_list (map op_events xs)) (drift_run xs s)"
    using after_trip_run [OF s [of drift_window], of xs] assms(2) by simp
  from step_trips(2) [OF assms(3) this] show "3584 \<le> sum_list (map op_events (xs @ [x]))"
    using assms(2) o by (simp add: drift_established_def drift_window_def)
qed

lemma f64_quotient: "m < 2 ^ 53 \<Longrightarrow> n < 2 ^ 53 \<Longrightarrow> f64_div (f64_of m) (f64_of n) = fl (of_nat m / of_nat n)"
  by (simp add: f64_div_def)

text \<open>Half of a window missed is above every established baseline by the margin, less than a quarter above none.\<close>

lemma half_is_over:
  assumes "is_established s" "st_window_events s \<le> 2 * st_window_misses s" "st_window_misses s \<le> st_window_events s"
    "0 < st_window_events s" "st_window_events s \<le> 2 ^ 20"
  shows "over_baseline s"
proof -
  have "fl (1/5) \<le> fl (1/4)" by (intro fl_mono) simp
  moreover have "fl (1/4) = 1/4" using fl_exact [of 1 "- 2"] by (simp add: power_int_minus)
  ultimately have "baseline_rate s + drift_delta \<le> 1/2"
    using assms(1) by (simp add: is_established_def drift_baseline_max_def drift_delta_def)
  then have "f64_add (baseline_rate s) drift_delta \<le> fl (1/2)" unfolding f64_add_def by (intro fl_mono)
  moreover have "(1/2 :: rat) \<le> of_nat (st_window_misses s) / of_nat (st_window_events s)"
    using assms(2,4) by (simp add: field_simps)
  then have "fl (1/2) \<le> fl (of_nat (st_window_misses s) / of_nat (st_window_events s))" by (rule fl_mono)
  moreover have "window_rate s = fl (of_nat (st_window_misses s) / of_nat (st_window_events s))"
    using assms(3,5) unfolding window_rate_def by (intro f64_quotient) auto
  moreover have "fl (1/2) = 1/2" using fl_exact [of 1 "- 1"] by simp
  ultimately show ?thesis by (simp add: over_baseline_def)
qed

lemma quarter_is_not_over:
  assumes "4 * st_window_misses s < st_window_events s" "st_window_events s \<le> 2 ^ 20"
  shows "\<not> over_baseline s"
proof -
  let ?m = "of_nat (st_window_misses s) :: rat" and ?e = "of_nat (st_window_events s) :: rat"
  have e: "0 < ?e" "?e \<le> 2 ^ 20" using assms by (auto simp: of_nat_le_iff [of _ "2 ^ 20", simplified])
  have "4 * ?m + 1 \<le> ?e" using assms(1) by (metis Suc_leI add.commute of_nat_Suc of_nat_le_iff of_nat_mult of_nat_numeral)
  then have "?m / ?e \<le> 1/4 - 1 / (4 * ?e)" using e by (simp add: field_simps)
  also have "\<dots> \<le> 1/4 - 1 / (4 * 2 ^ 20)" using e by (simp add: frac_le)
  also have "\<dots> = of_nat (2 ^ 20 - 1) * 2 powi (- 22)" by (simp add: power_int_minus field_simps)
  finally have "fl (?m / ?e) \<le> fl (of_nat (2 ^ 20 - 1) * 2 powi (- 22))" by (rule fl_mono)
  also have "\<dots> = of_nat (2 ^ 20 - 1) * 2 powi (- 22)" by (rule fl_exact) simp
  also have "\<dots> < 1/4" by (simp add: power_int_minus)
  also have "(1/4 :: rat) = fl (1/4)" using fl_exact [of 1 "- 2"] by (simp add: power_int_minus)
  also have "\<dots> \<le> f64_add (baseline_rate s) drift_delta"
    unfolding f64_add_def drift_delta_def by (intro fl_mono) (simp add: baseline_rate_def f64_div_def)
  finally have "fl (?m / ?e) < f64_add (baseline_rate s) drift_delta" .
  moreover have "window_rate s = fl (?m / ?e)" using assms unfolding window_rate_def by (intro f64_quotient) auto
  ultimately show ?thesis by (simp add: over_baseline_def)
qed

lemma over_after_rate [simp]: "over_baseline (s\<lparr>st_window_rate := r\<rparr>) = over_baseline s"
    "is_established (s\<lparr>st_window_rate := r\<rparr>) = is_established s" "established_parser (s\<lparr>st_window_rate := r\<rparr>) = established_parser s"
  by (simp_all add: is_established_def over_baseline_def baseline_rate_def established_parser_def window_rate_def)

lemma half_trips:
  assumes "is_established s" "\<not> routing s" "st_window_misses s \<le> st_window_events s"
    "drift_window \<le> st_window_events s" "st_window_events s \<le> 2 ^ 20" "st_window_events s \<le> 2 * st_window_misses s"
  shows "fst (judge now s) = established_parser s \<and> established_parser s \<noteq> None \<and> routing (snd (judge now s))"
proof -
  have "drift_min_misses \<le> st_window_misses s" using assms(4,6) by (simp add: drift_min_misses_def drift_window_def)
  moreover have "over_baseline s" using assms by (intro half_is_over) (auto simp: drift_window_def)
  moreover have "0 < st_window_events s" using assms(4) by (simp add: drift_window_def)
  moreover have "established_parser s \<noteq> None" using assms(1) by (simp add: is_established_def)
  ultimately show ?thesis using assms(1,2) by (auto simp: judge_def judge_calm_def routing_def Let_def)
qed

text \<open>
  C32. The verdict on a full window of an established source, with the rounding of doubles written out: when
  half of its events or more are misses the source trips and is routed from then on, and when fewer than a
  quarter are it does not, whatever the baseline is.
\<close>

theorem verdict_sound:
  assumes "is_established s" "\<not> routing s" "st_window_misses s \<le> st_window_events s"
    "drift_window \<le> st_window_events s" "st_window_events s \<le> 2 ^ 20"
  shows "if st_window_events s \<le> 2 * st_window_misses s
         then fst (judge now s) = established_parser s \<and> established_parser s \<noteq> None \<and> routing (snd (judge now s))
         else 4 * st_window_misses s < st_window_events s \<longrightarrow>
           fst (judge now s) = None \<and> \<not> routing (snd (judge now s)) \<and>
           st_baseline_events (snd (judge now s)) = st_baseline_events s + st_window_events s"
proof (cases "st_window_events s \<le> 2 * st_window_misses s")
  case True
  then show ?thesis using half_trips assms by simp
next
  case False
  then show ?thesis using assms quarter_is_not_over [of s]
    by (auto simp: judge_def judge_calm_def routing_def Let_def drift_window_def)
qed

subsection \<open>An example\<close>

text \<open>A source whose parser has claimed 1024 events without a miss, and the same source when it has just tripped.\<close>

definition calm_stats :: source_stats where
  "calm_stats = stats_default\<lparr>st_by_parser := [(''asa'', 1024)], st_baseline_events := 1024,
     st_window_events := 512, st_window_misses := 512\<rparr>"

definition tripped_stats :: source_stats where
  "tripped_stats = calm_stats\<lparr>st_drift := Tripped, st_window_events := 0, st_window_misses := 0\<rparr>"

lemmas drift_eval = observe_def judge_def judge_calm_def judge_routed_def routing_def over_baseline_def is_established_def
  baseline_rate_def window_rate_def established_parser_def f64_div_def f64_add_def drift_delta_def drift_window_def
  drift_min_misses_def drift_established_def drift_baseline_max_def Let_def

lemma verdict_sound_witness: "fst (judge 0 calm_stats) = Some ''asa'' \<and> routing (snd (judge 0 calm_stats))"
proof -
  have "is_established calm_stats" "\<not> routing calm_stats"
    by (simp_all add: drift_eval calm_stats_def stats_default_def fl_positive)
  from verdict_sound [OF this, of 0] show ?thesis
    by (simp add: calm_stats_def stats_default_def drift_window_def established_parser_def)
qed

lemma trips_far_apart_witness:
  "let xs = replicate 4 (Observed 0 512 0) @ [Observed 0 1024 0]; x = Observed 0 512 512
   in fst (drift_step x (drift_run xs tripped_stats)) = Some ''asa'' \<and> 3584 \<le> sum_list (map op_events (xs @ [x]))"
proof -
  define xs where "xs = replicate 4 (Observed 0 512 0) @ [Observed 0 1024 0]"
  have xs: "xs = [Observed 0 512 0, Observed 0 512 0, Observed 0 512 0, Observed 0 512 0, Observed 0 1024 0]"
    by (simp add: xs_def eval_nat_numeral)
  have "fst (drift_step (Observed 0 512 512) (drift_run xs tripped_stats)) = Some ''asa''"
    by (simp add: xs drift_eval tripped_stats_def calm_stats_def stats_default_def fl_positive)
  then obtain t where t: "drift_step (Observed 0 512 512) (drift_run xs tripped_stats) = (Some ''asa'', t)"
    by (metis prod.collapse)
  have "tripped_now tripped_stats" by (simp add: tripped_now_def tripped_stats_def calm_stats_def stats_default_def)
  from trips_far_apart [OF this _ t] show ?thesis using t by (simp add: xs flip: xs_def)
qed

end
