(* ===== verification/Ulpf_Diff.thy ===== *)
theory Ulpf_Diff
  imports Ulpf_Align Ulpf_Time
begin

text \<open>
  The unified diff of the review screen, \<open>unified_diff\<close> in \<open>src/crates/ulpf/src/pending.rs\<close>: the table of
  the longest common subsequence of the lines, the edit script read off it, and the hunks with three lines
  of context. A hunk is a record here and its text is rendered from it.
\<close>

subsection \<open>The edit script\<close>

text \<open>\<open>str::lines\<close>: a line ends at a line feed, with the carriage return before it, or at the end.\<close>

definition strip_cr :: "bytes \<Rightarrow> bytes" where
  "strip_cr l = (if l \<noteq> [] \<and> last l = CHR 0x0D then butlast l else l)"

definition str_lines :: "bytes \<Rightarrow> bytes list" where
  "str_lines s =
     (let ps = split_on (CHR 0x0A) s
      in map strip_cr (butlast ps) @ (if last ps = [] then [] else [last ps]))"

text \<open>The index of \<open>a\<close> never passes its end, so the test for the end is written \<open>n \<le> i\<close>. The table is a vector of rows of 32 bit numbers; they are at most 4000, the limit on the lines.\<close>

definition diff_cell :: "bytes list \<Rightarrow> bytes list \<Rightarrow> nat \<Rightarrow> nat \<Rightarrow> nat \<Rightarrow> nat \<Rightarrow> nat \<Rightarrow> nat \<Rightarrow> nat" where
  "diff_cell al bl i j old diag down right = (if al ! i = bl ! j then diag + 1 else max down right)"

definition diff_table :: "bytes list \<Rightarrow> bytes list \<Rightarrow> nat list" where
  "diff_table al bl =
     fill_table (length bl + 1) (diff_cell al bl) (length al) (length bl)
       (replicate ((length al + 1) * (length bl + 1)) 0)"

type_synonym diff_op = "byte \<times> bytes"

function diff_ops :: "bytes list \<Rightarrow> bytes list \<Rightarrow> nat list \<Rightarrow> nat \<Rightarrow> nat \<Rightarrow> diff_op list" where
  "diff_ops al bl t i j =
     (let n = length al; m = length bl
      in if i < n \<or> j < m then
           if i < n \<and> j < m \<and> al ! i = bl ! j then (CHR '' '', al ! i) # diff_ops al bl t (i + 1) (j + 1)
           else if j < m \<and> (n \<le> i \<or> t ! (i * (m + 1) + j + 1) \<ge> t ! ((i + 1) * (m + 1) + j))
           then (CHR ''+'', bl ! j) # diff_ops al bl t i (j + 1)
           else (CHR ''-'', al ! i) # diff_ops al bl t (i + 1) j
         else [])"
  by pat_completeness auto
termination
  by (relation "measure (\<lambda>(al, bl, t, i, j). (length al - i) + (length bl - j))") (auto simp: Let_def)

declare diff_ops.simps [simp del]

lemma diff_ops_out: "\<not> (i < length al \<or> j < length bl) \<Longrightarrow> diff_ops al bl t i j = []"
  unfolding diff_ops.simps [of al bl t i j] Let_def by (rule if_not_P)

definition edit_script :: "bytes list \<Rightarrow> bytes list \<Rightarrow> diff_op list" where
  "edit_script al bl = diff_ops al bl (diff_table al bl) 0 0"

subsection \<open>Hunks\<close>

record hunk =
  hk_a_start :: nat
  hk_a_len :: nat
  hk_b_start :: nat
  hk_b_len :: nat
  hk_body :: "diff_op list"

definition old_side :: "diff_op list \<Rightarrow> bytes list" where
  "old_side ops = map snd (filter (\<lambda>(c, _). c \<noteq> CHR ''+'') ops)"

definition new_side :: "diff_op list \<Rightarrow> bytes list" where
  "new_side ops = map snd (filter (\<lambda>(c, _). c \<noteq> CHR ''-'') ops)"

definition changed_at :: "diff_op list \<Rightarrow> nat list" where
  "changed_at ops = filter (\<lambda>k. fst (ops ! k) \<noteq> CHR '' '') [0..<length ops]"

text \<open>The inner loop: the end moves on while the next change is near, and what is left of the changes.\<close>

fun hunk_end :: "nat \<Rightarrow> nat list \<Rightarrow> nat \<times> nat list" where
  "hunk_end e [] = (e, [])"
| "hunk_end e (c # cs) = (if c \<le> e + 3 then hunk_end (c + 3) cs else (e, c # cs))"

lemma hunk_end_shorter: "hunk_end e cs = (e1, rest) \<Longrightarrow> length rest \<le> length cs"
  by (induction e cs rule: hunk_end.induct) (force split: if_splits)+

text \<open>The counts are those of the loop over all operations, before the hunk and within it.\<close>

definition hunk_at :: "diff_op list \<Rightarrow> nat \<Rightarrow> nat \<Rightarrow> hunk" where
  "hunk_at ops start stop =
     \<lparr>hk_a_start = length (filter (\<lambda>(c, _). c \<noteq> CHR ''+'') (take start ops)),
      hk_a_len = length (filter (\<lambda>(c, _). c \<noteq> CHR ''+'') (drop start (take (stop + 1) ops))),
      hk_b_start = length (filter (\<lambda>(c, _). c \<noteq> CHR ''-'') (take start ops)),
      hk_b_len = length (filter (\<lambda>(c, _). c \<noteq> CHR ''-'') (drop start (take (stop + 1) ops))),
      hk_body = drop start (take (stop + 1) ops)\<rparr>"

function hunks :: "diff_op list \<Rightarrow> nat list \<Rightarrow> hunk list" where
  "hunks ops [] = []"
| "hunks ops (c # cs) =
     (case hunk_end (c + 3) cs of
        (e, rest) \<Rightarrow> hunk_at ops (c - 3) (min e (length ops - 1)) # hunks ops rest)"
  by pat_completeness auto
termination
  by (relation "measure (\<lambda>(ops, cs). length cs)") (auto dest: hunk_end_shorter [OF sym])

definition render_hunk :: "hunk \<Rightarrow> bytes" where
  "render_hunk h =
     ''@@ -'' @ dec (hk_a_start h + 1) @ '','' @ dec (hk_a_len h) @ '' +'' @ dec (hk_b_start h + 1) @ '','' @
     dec (hk_b_len h) @ '' @@'' @ [CHR 0x0A] @ concat (map (\<lambda>(c, l). c # l @ [CHR 0x0A]) (hk_body h))"

definition unified_diff :: "bytes \<Rightarrow> bytes \<Rightarrow> bytes \<Rightarrow> bytes \<Rightarrow> bytes" where
  "unified_diff a_name b_name a b =
     (let al = str_lines a; bl = str_lines b; n = length al; m = length bl;
          head = ''--- '' @ a_name @ [CHR 0x0A] @ ''+++ '' @ b_name @ [CHR 0x0A]
      in if n > 4000 \<or> m > 4000 then
           head @ ''(diff suppressed: '' @ dec n @ '' against '' @ dec m @ '' lines; open both texts)'' @ [CHR 0x0A]
         else
           (let ops = edit_script al bl; changed = changed_at ops
            in if changed = [] then head else head @ concat (map render_hunk (hunks ops changed))))"

subsection \<open>The script turns one text into the other and keeps the most it can\<close>

lemma diff_cells:
  assumes "i \<le> length al" "j \<le> length bl"
  shows "diff_table al bl ! (i * (length bl + 1) + j) = lcs_len (\<lambda>i j. al ! i = bl ! j) (length al) (length bl) i j"
proof -
  have "cell_of (diff_cell al bl) n m (\<lambda>_ _. 0) i j = lcs_len (\<lambda>i j. al ! i = bl ! j) n m i j" for n m i j
  proof (induction "\<lambda>i j. al ! i = bl ! j" n m i j rule: lcs_len.induct)
    case (1 n m i j)
    show ?case
    proof (cases "i < n \<and> j < m")
      case True
      then show ?thesis using 1
        by (cases "al ! i = bl ! j") (simp_all add: cell_of_in lcs_len_match lcs_len_skip, simp_all add: diff_cell_def)
    next
      case False
      show ?thesis unfolding cell_of_out [OF False] lcs_len_out [OF False] by simp
    qed
  qed
  moreover have "diff_table al bl ! (i * (length bl + 1) + j) = cell_of (diff_cell al bl) (length al) (length bl) (\<lambda>_ _. 0) i j"
    unfolding diff_table_def
  proof (rule fill_table_cells [OF _ _ assms])
    show "replicate ((length al + 1) * (length bl + 1)) (0 :: nat) ! (k * (length bl + 1) + l) = 0"
      if "k \<le> length al" "l \<le> length bl" for k l
      using that by (intro nth_replicate cell_index_less) simp_all
  qed simp
  ultimately show ?thesis by simp
qed

definition kept :: "diff_op list \<Rightarrow> nat" where
  "kept ops = length (filter (\<lambda>(c, _). c = CHR '' '') ops)"

lemma diff_ops_sides:
  "t = diff_table al bl \<Longrightarrow> i \<le> length al \<Longrightarrow> j \<le> length bl \<Longrightarrow>
   old_side (diff_ops al bl t i j) = drop i al \<and> new_side (diff_ops al bl t i j) = drop j bl \<and>
   kept (diff_ops al bl t i j) = lcs_len (\<lambda>i j. al ! i = bl ! j) (length al) (length bl) i j"
proof (induction al bl t i j rule: diff_ops.induct)
  case (1 al bl t i j)
  let ?n = "length al" and ?m = "length bl" and ?eq = "\<lambda>i j. al ! i = bl ! j"
  note un = diff_ops.simps [of al bl t i j, unfolded Let_def]
  show ?case
  proof (cases "i < ?n \<or> j < ?m")
    case in_range: True
    show ?thesis
    proof (cases "i < ?n \<and> j < ?m \<and> al ! i = bl ! j")
      case True
      then have "drop i al = al ! i # drop (i + 1) al" "drop j bl = al ! i # drop (j + 1) bl"
        by (simp_all add: Cons_nth_drop_Suc [symmetric])
      moreover have "lcs_len ?eq ?n ?m i j = Suc (lcs_len ?eq ?n ?m (i + 1) (j + 1))" using True by (intro lcs_len_match) auto
      ultimately show ?thesis using "1.IH"(1) [OF refl refl in_range True "1.prems"(1)] True
        by (simp add: un old_side_def new_side_def kept_def)
    next
      case differ: False
      show ?thesis
      proof (cases "j < ?m \<and> (?n \<le> i \<or> t ! (i * (?m + 1) + j + 1) \<ge> t ! ((i + 1) * (?m + 1) + j))")
        case True
        then have d: "drop j bl = bl ! j # drop (j + 1) bl" by (simp add: Cons_nth_drop_Suc [symmetric])
        have "lcs_len ?eq ?n ?m i j = lcs_len ?eq ?n ?m i (j + 1)"
        proof (cases "i = ?n")
          case True
          then show ?thesis by (simp add: lcs_len_out)
        next
          case False
          with True "1.prems" have i: "i < ?n" and j: "j < ?m" by auto
          have "lcs_len ?eq ?n ?m (i + 1) j \<le> lcs_len ?eq ?n ?m i (j + 1)"
            using True False diff_cells [of i al "j + 1" bl] diff_cells [of "i + 1" al j bl] i j "1.prems"(1) by simp
          then show ?thesis using lcs_len_skip [of i ?n j ?m ?eq] i j differ by simp
        qed
        moreover have "diff_ops al bl t i j = (CHR ''+'', bl ! j) # diff_ops al bl t i (j + 1)"
          unfolding un if_P [OF in_range] if_not_P [OF differ] if_P [OF True] ..
        ultimately show ?thesis using "1.IH"(2) [OF refl refl in_range differ True "1.prems"(1)] True "1.prems"(2) d
          by (simp add: old_side_def new_side_def kept_def)
      next
        case False
        with in_range "1.prems" have i: "i < ?n" by auto
        then have d: "drop i al = al ! i # drop (i + 1) al" by (simp add: Cons_nth_drop_Suc [symmetric])
        have "lcs_len ?eq ?n ?m i j = lcs_len ?eq ?n ?m (i + 1) j"
        proof (cases "j < ?m")
          case True
          have "lcs_len ?eq ?n ?m i (j + 1) \<le> lcs_len ?eq ?n ?m (i + 1) j"
            using True False diff_cells [of i al "j + 1" bl] diff_cells [of "i + 1" al j bl] i "1.prems"(1) by simp
          then show ?thesis using lcs_len_skip [of i ?n j ?m ?eq] i True differ by simp
        next
          case False
          then show ?thesis by (simp add: lcs_len_out)
        qed
        moreover have "diff_ops al bl t i j = (CHR ''-'', al ! i) # diff_ops al bl t (i + 1) j"
          unfolding un if_P [OF in_range] if_not_P [OF differ] if_not_P [OF False] ..
        ultimately show ?thesis using "1.IH"(3) [OF refl refl in_range differ False "1.prems"(1)] i "1.prems"(3) d
          by (simp add: old_side_def new_side_def kept_def)
      qed
    qed
  next
    case False
    have "lcs_len ?eq ?n ?m i j = 0" using False by (intro lcs_len_out) simp
    then show ?thesis using False "1.prems" unfolding diff_ops_out [OF False] by (simp add: old_side_def new_side_def kept_def)
  qed
qed


subsection \<open>Applying the hunks\<close>

text \<open>What a reader of the diff does: copy up to a hunk, take its new side, skip its old side.\<close>

fun apply_hunks :: "nat \<Rightarrow> bytes list \<Rightarrow> hunk list \<Rightarrow> bytes list" where
  "apply_hunks pos al [] = drop pos al"
| "apply_hunks pos al (h # hs) =
     take (hk_a_start h - pos) (drop pos al) @ new_side (hk_body h) @ apply_hunks (hk_a_start h + hk_a_len h) al hs"

lemma side_append [simp]: "old_side (xs @ ys) = old_side xs @ old_side ys" "new_side (xs @ ys) = new_side xs @ new_side ys"
  by (simp_all add: old_side_def new_side_def)

lemma side_unchanged: "\<forall>op \<in> set ops. fst op = CHR '' '' \<Longrightarrow> old_side ops = new_side ops"
  by (induction ops) (auto simp: old_side_def new_side_def)

lemma old_length: "length (filter (\<lambda>(c, _). c \<noteq> CHR ''+'') ops) = length (old_side ops)"
  and new_length: "length (filter (\<lambda>(c, _). c \<noteq> CHR ''-'') ops) = length (new_side ops)"
  by (simp_all add: old_side_def new_side_def)

lemma hunk_end_splits:
  "hunk_end e cs = (e1, rest) \<Longrightarrow> sorted_wrt (<) cs \<Longrightarrow> \<exists>c. e = c + 3 \<and> (\<forall>k \<in> set cs. c < k) \<Longrightarrow>
   \<exists>near. cs = near @ rest \<and> e \<le> e1 \<and> (\<forall>k \<in> set near. k \<le> e1) \<and> (\<forall>k \<in> set rest. e1 + 3 < k)"
proof (induction e cs rule: hunk_end.induct)
  case (2 e c cs)
  show ?case
  proof (cases "c \<le> e + 3")
    case True
    with 2 obtain near where "cs = near @ rest" "c + 3 \<le> e1" "\<forall>k \<in> set near. k \<le> e1" "\<forall>k \<in> set rest. e1 + 3 < k" by auto
    then show ?thesis using 2 by (intro exI [of _ "c # near"]) auto
  next
    case False
    with "2.prems" have "\<forall>k \<in> set (c # cs). e + 3 < k" by fastforce
    with False "2.prems"(1) show ?thesis by (intro exI [of _ "[]"]) simp
  qed
qed simp

lemma filter_from:
  assumes "filter P [p..<n] = xs @ ys" "\<forall>k \<in> set xs. k < q" "\<forall>k \<in> set ys. q \<le> k" "p \<le> q"
  shows "filter P [q..<n] = ys"
proof -
  have "filter P [q..<n] = filter (\<lambda>k. q \<le> k) (filter P [p..<n])"
  proof (cases "q \<le> n")
    case True
    then have "[p..<n] = [p..<q] @ [q..<n]" using assms(4) by (metis le_Suc_ex upt_add_eq_append)
    then show ?thesis by (simp add: filter_empty_conv) (auto intro!: filter_cong)
  next
    case False
    then show ?thesis by (auto simp: filter_empty_conv)
  qed
  also have "\<dots> = ys" using assms(2,3) by (simp add: assms(1) filter_empty_conv filter_id_conv not_le)
  finally show ?thesis .
qed

lemma drop_split: "p \<le> q \<Longrightarrow> q \<le> length xs \<Longrightarrow> drop p xs = drop p (take q xs) @ drop q xs"
proof -
  assume "p \<le> q" "q \<le> length xs"
  then have "drop p (take q xs @ drop q xs) = drop p (take q xs) @ drop q xs" by (simp del: append_take_drop_id)
  then show ?thesis by (simp only: append_take_drop_id)
qed

text \<open>From an operation on, the hunks of the changes from there rebuild the new side from the old one.\<close>

lemma hunks_apply:
  "cs = filter (\<lambda>k. fst (ops ! k) \<noteq> CHR '' '') [p..<length ops] \<Longrightarrow> p \<le> length ops \<Longrightarrow> (cs \<noteq> [] \<Longrightarrow> p \<le> hd cs - 3) \<Longrightarrow>
   apply_hunks (length (old_side (take p ops))) (old_side ops) (hunks ops cs) = new_side (drop p ops)"
proof (induction ops cs arbitrary: p rule: hunks.induct)
  case (1 ops)
  have "fst op = CHR '' ''" if "op \<in> set (drop p ops)" for op
  proof -
    from that obtain k where "k < length ops - p" "op = ops ! (p + k)" by (auto simp: in_set_conv_nth)
    with "1.prems"(1) show ?thesis by (auto simp: filter_empty_conv eq_commute [of "[]"] dest: spec [of _ "p + k"])
  qed
  then have "old_side (drop p ops) = new_side (drop p ops)" by (intro side_unchanged) simp
  moreover have "old_side ops = old_side (take p ops) @ old_side (drop p ops)" by (metis append_take_drop_id side_append(1))
  ultimately show ?case by simp
next
  case (2 ops c cs)
  obtain e rest where he: "hunk_end (c + 3) cs = (e, rest)" by (cases "hunk_end (c + 3) cs")
  have sorted: "sorted_wrt (<) (c # cs)" unfolding "2.prems"(1) by (rule sorted_wrt_filter) simp
  then obtain near where near: "cs = near @ rest" "c + 3 \<le> e" "\<forall>k \<in> set near. k \<le> e" "\<forall>k \<in> set rest. e + 3 < k"
    using hunk_end_splits [OF he] by auto
  have mem: "set (c # cs) \<subseteq> {p..<length ops}" unfolding "2.prems"(1) by auto
  define start where "start = c - 3"
  define stop where "stop = min e (length ops - 1)"
  have b: "p \<le> start" "start \<le> c" "c \<le> stop" "stop < length ops" using "2.prems"(3) mem near(2) by (auto simp: start_def stop_def)
  have rest: "filter (\<lambda>k. fst (ops ! k) \<noteq> CHR '' '') [stop + 1..<length ops] = rest"
  proof (rule filter_from)
    show "filter (\<lambda>k. fst (ops ! k) \<noteq> CHR '' '') [p..<length ops] = (c # near) @ rest" using "2.prems"(1) near(1) by simp
    show "\<forall>k \<in> set (c # near). k < stop + 1" using mem near(1-3) by (fastforce simp: stop_def)
    show "\<forall>k \<in> set rest. stop + 1 \<le> k" using near(4) by (fastforce simp: stop_def)
    show "p \<le> stop + 1" using b by simp
  qed
  have quiet: "old_side (drop p (take start ops)) = new_side (drop p (take start ops))"
  proof (intro side_unchanged ballI)
    fix op assume "op \<in> set (drop p (take start ops))"
    then obtain k where k: "k < start - p" "op = ops ! (p + k)" using b by (auto simp: in_set_conv_nth)
    have "p + k \<notin> set (c # cs)" using sorted k b(2) by auto
    then show "fst op = CHR '' ''" unfolding "2.prems"(1) using k b by auto
  qed
  have cut: "take start ops = take p ops @ drop p (take start ops)"
    using b(1) by (metis append_take_drop_id min.absorb1 take_take)
  have cut2: "take (stop + 1) ops = take start ops @ drop start (take (stop + 1) ops)"
    using b by (metis append_take_drop_id le_SucI le_trans min.absorb1 Suc_eq_plus1 take_take)
  have ih: "apply_hunks (length (old_side (take (stop + 1) ops))) (old_side ops) (hunks ops rest) = new_side (drop (stop + 1) ops)"
    using "2.IH" [OF he [symmetric], of "stop + 1"] rest near(4) b by (cases rest) (auto simp: stop_def)
  have tail: "drop p ops = drop p (take start ops) @ drop start (take (stop + 1) ops) @ drop (stop + 1) ops"
    using drop_split [of p start ops] drop_split [of start "stop + 1" ops] b by simp
  have a1: "old_side (take start ops) = old_side (take p ops) @ old_side (drop p (take start ops))" by (subst cut) simp
  have a2: "old_side (take (stop + 1) ops) = old_side (take start ops) @ old_side (drop start (take (stop + 1) ops))" by (subst cut2) simp
  have "old_side ops = old_side (take p ops) @ old_side (drop p ops)" by (metis append_take_drop_id side_append(1))
  then have d: "drop (length (old_side (take p ops))) (old_side ops) =
      old_side (drop p (take start ops)) @ old_side (drop start (take (stop + 1) ops) @ drop (stop + 1) ops)" by (simp add: tail)
  have step: "hunks ops (c # cs) = hunk_at ops start stop # hunks ops rest" by (simp add: he start_def stop_def)
  have at: "hk_a_start (hunk_at ops start stop) = length (old_side (take p ops)) + length (old_side (drop p (take start ops)))"
      "hk_a_start (hunk_at ops start stop) + hk_a_len (hunk_at ops start stop) = length (old_side (take (stop + 1) ops))"
      "hk_body (hunk_at ops start stop) = drop start (take (stop + 1) ops)"
    using arg_cong [OF a1, of length] arg_cong [OF a2, of length] by (simp_all add: hunk_at_def old_length)
  show ?case unfolding step apply_hunks.simps at(2) ih unfolding at(1,3) d by (simp add: tail quiet)
qed

text \<open>
  C34. Applied to the lines of the old text, the hunks give the lines of the new one; the diff is the two
  header lines and the rendered hunks, unless a text has more than 4000 lines; and no common subsequence of
  the lines is longer than what the script keeps.
\<close>

theorem unified_diff_applies:
  "apply_hunks 0 (str_lines a) (hunks (edit_script (str_lines a) (str_lines b)) (changed_at (edit_script (str_lines a) (str_lines b)))) =
     str_lines b \<and>
   unified_diff a_name b_name a b =
     ''--- '' @ a_name @ [CHR 0x0A] @ ''+++ '' @ b_name @ [CHR 0x0A] @
     (if length (str_lines a) > 4000 \<or> length (str_lines b) > 4000
      then ''(diff suppressed: '' @ dec (length (str_lines a)) @ '' against '' @ dec (length (str_lines b)) @
        '' lines; open both texts)'' @ [CHR 0x0A]
      else concat (map render_hunk
        (hunks (edit_script (str_lines a) (str_lines b)) (changed_at (edit_script (str_lines a) (str_lines b)))))) \<and>
   \<not> (\<exists>ps. common (\<lambda>i j. str_lines a ! i = str_lines b ! j) (length (str_lines a)) (length (str_lines b)) 0 0 ps \<and>
        kept (edit_script (str_lines a) (str_lines b)) < length ps)"
proof -
  define al bl where "al = str_lines a" and "bl = str_lines b"
  define ops where "ops = edit_script al bl"
  have sides: "old_side ops = al" "new_side ops = bl" "kept ops = lcs_len (\<lambda>i j. al ! i = bl ! j) (length al) (length bl) 0 0"
    using diff_ops_sides [OF refl, of 0 al 0 bl] by (simp_all add: ops_def edit_script_def)
  have "apply_hunks 0 al (hunks ops (changed_at ops)) = bl"
    using hunks_apply [of "changed_at ops" ops 0] sides by (simp add: changed_at_def old_side_def)
  moreover have "unified_diff a_name b_name a b = ''--- '' @ a_name @ [CHR 0x0A] @ ''+++ '' @ b_name @ [CHR 0x0A] @
     (if length al > 4000 \<or> length bl > 4000
      then ''(diff suppressed: '' @ dec (length al) @ '' against '' @ dec (length bl) @ '' lines; open both texts)'' @ [CHR 0x0A]
      else concat (map render_hunk (hunks ops (changed_at ops))))"
    by (simp add: unified_diff_def Let_def al_def [symmetric] bl_def [symmetric] ops_def [symmetric])
  moreover have "\<not> (\<exists>ps. common (\<lambda>i j. al ! i = bl ! j) (length al) (length bl) 0 0 ps \<and> kept ops < length ps)"
    using common_le [of "\<lambda>i j. al ! i = bl ! j" "length al" "length bl" 0 0] unfolding sides(3) by (auto simp: not_less)
  ultimately show ?thesis unfolding ops_def al_def bl_def by blast
qed

end
