(* ===== verification/Ulpf_Pending.thy ===== *)
theory Ulpf_Pending
  imports Ulpf_Pipeline Ulpf_Frame Ulpf_Diff "HOL-Library.AList" "HOL-Library.Char_ord" "HOL-Library.List_Lexorder"
begin

text \<open>
  The pending directory of \<open>src/crates/ulpf/src/pending.rs\<close>: one proposal per source as three files, the
  review operations on them, and the rejected fingerprints. A directory is an association list from file
  names to contents; every operation on a file takes the next of a list of faults, so every place where the
  file system can fail is a branch. The clock's reading is an argument. JSON and TOML are parameters, and so
  is the merge of templates, which belongs to the inference. The lock makes each operation one step.
\<close>

subsection \<open>Data\<close>

record template_evidence =
  te_id :: nat
  te_pattern :: bytes
  te_members :: "nat list"
  te_history :: "bytes list"

record evidence =
  ev_fingerprint :: bytes
  ev_syslog :: bool
  ev_templates :: "template_evidence list"
  ev_decisions :: "bytes list"
  ev_lines_seen :: nat
  ev_unmatched :: nat

record update =
  up_name :: bytes
  up_version :: nat

record proposal =
  pp_source :: bytes
  pp_definition :: parser_def
  pp_evidence :: evidence
  pp_updates :: "update option"

record pending_record =
  rc_id :: bytes
  rc_source :: bytes
  rc_created :: nat
  rc_edited :: bool
  rc_evidence :: evidence
  rc_updates :: "update option"

datatype part = Toml | Json | Lines

fun extension :: "part \<Rightarrow> bytes" where
  "extension Toml = ''.toml''"
| "extension Json = ''.json''"
| "extension Lines = ''.lines''"

text \<open>The names under \<open>approved\<close> and \<open>rejected\<close>: \<open>id-stamp.ext\<close> and \<open>name.vN.toml\<close>.\<close>

datatype kept_name = Stamped bytes nat part | Version bytes nat

record review =
  rv_dir :: bytes
  rv_files :: "((bytes \<times> part) \<times> bytes) list"
  rv_approved :: "(kept_name \<times> bytes) list"
  rv_rejected :: "(kept_name \<times> bytes) list"
  rv_parsers :: "(bytes \<times> bytes) list"
  rv_keys :: "bytes set"
  rv_faults :: "bool list"

record codecs =
  co_engines :: engines
  co_toml :: toml_reader
  co_to_toml :: "parser_def \<Rightarrow> bytes option"
  co_json :: "bytes \<Rightarrow> pending_record option"
  co_to_json :: "pending_record \<Rightarrow> bytes option"

datatype review_error = NotFound bytes | Invalid "bytes list" | Conflict bytes | IoErr "bytes option"

datatype write_outcome = Written | Replaced | SkippedEdited | SkippedDuplicate | SkippedRejected | SkippedEmpty

definition skip_reason :: "write_outcome \<Rightarrow> bytes option" where
  "skip_reason w = (case w of
     SkippedEdited \<Rightarrow> Some ''edited'' | SkippedDuplicate \<Rightarrow> Some ''duplicate'' | SkippedRejected \<Rightarrow> Some ''rejected''
   | SkippedEmpty \<Rightarrow> Some ''no_templates'' | Written \<Rightarrow> None | Replaced \<Rightarrow> None)"

definition rejected_key :: "bytes \<Rightarrow> bytes \<Rightarrow> bytes" where
  "rejected_key source fingerprint = source @ nul # fingerprint"

subsection \<open>The file operations\<close>

text \<open>The next operation fails, or not.\<close>

definition fault :: "review \<Rightarrow> bool \<times> review" where
  "fault s = (case rv_faults s of [] \<Rightarrow> (False, s) | f # fs \<Rightarrow> (f, s\<lparr>rv_faults := fs\<rparr>))"

definition pending_path :: "review \<Rightarrow> bytes \<Rightarrow> part \<Rightarrow> bytes" where
  "pending_path s pid p = rv_dir s @ ''/'' @ pid @ extension p"

definition read_file :: "bytes \<Rightarrow> part \<Rightarrow> review \<Rightarrow> bytes option \<times> review" where
  "read_file pid p s = (case fault s of (f, s) \<Rightarrow> (if f then None else map_of (rv_files s) (pid, p), s))"

text \<open>A write to a sibling and a rename: the file is replaced as a whole or not at all.\<close>

definition atomic_write :: "bytes \<Rightarrow> part \<Rightarrow> bytes \<Rightarrow> review \<Rightarrow> bool \<times> review" where
  "atomic_write pid p content s =
     (case fault s of (f, s) \<Rightarrow> if f then (False, s) else (True, s\<lparr>rv_files := AList.update (pid, p) content (rv_files s)\<rparr>))"

definition atomic_write_approved :: "kept_name \<Rightarrow> bytes \<Rightarrow> review \<Rightarrow> bool \<times> review" where
  "atomic_write_approved k content s =
     (case fault s of (f, s) \<Rightarrow> if f then (False, s) else (True, s\<lparr>rv_approved := AList.update k content (rv_approved s)\<rparr>))"

definition atomic_write_parser :: "bytes \<Rightarrow> bytes \<Rightarrow> review \<Rightarrow> bool \<times> review" where
  "atomic_write_parser name content s =
     (case fault s of (f, s) \<Rightarrow> if f then (False, s) else (True, s\<lparr>rv_parsers := AList.update name content (rv_parsers s)\<rparr>))"

text \<open>A rename fails as well when there is nothing to rename.\<close>

definition rename_approved :: "bytes \<Rightarrow> part \<Rightarrow> kept_name \<Rightarrow> review \<Rightarrow> bool \<times> review" where
  "rename_approved pid p k s =
     (case fault s of
        (f, s) \<Rightarrow>
          (case map_of (rv_files s) (pid, p) of
             Some content \<Rightarrow>
               if f then (False, s)
               else (True, s\<lparr>rv_approved := AList.update k content (rv_approved s), rv_files := AList.delete (pid, p) (rv_files s)\<rparr>)
           | None \<Rightarrow> (False, s)))"

definition rename_rejected :: "bytes \<Rightarrow> part \<Rightarrow> kept_name \<Rightarrow> review \<Rightarrow> bool \<times> review" where
  "rename_rejected pid p k s =
     (case fault s of
        (f, s) \<Rightarrow>
          (case map_of (rv_files s) (pid, p) of
             Some content \<Rightarrow>
               if f then (False, s)
               else (True, s\<lparr>rv_rejected := AList.update k content (rv_rejected s), rv_files := AList.delete (pid, p) (rv_files s)\<rparr>)
           | None \<Rightarrow> (False, s)))"

definition remove_pending :: "bytes \<Rightarrow> part \<Rightarrow> review \<Rightarrow> review" where
  "remove_pending pid p s =
     (case fault s of (f, s) \<Rightarrow> if f then s else s\<lparr>rv_files := AList.delete (pid, p) (rv_files s)\<rparr>)"

definition remove_parser :: "bytes \<Rightarrow> review \<Rightarrow> review" where
  "remove_parser name s =
     (case fault s of (f, s) \<Rightarrow> if f then s else s\<lparr>rv_parsers := AList.delete name (rv_parsers s)\<rparr>)"

subsection \<open>Reading proposals\<close>

definition is_slug :: "bytes \<Rightarrow> bool" where
  "is_slug pid \<longleftrightarrow> pid \<noteq> [] \<and> list_all (\<lambda>b. is_ascii_alphanumeric b \<or> b = CHR ''_'') pid"

text \<open>\<open>slug\<close> of the inference; a run of other bytes is one underscore, as a run of other characters is.\<close>

fun squeeze :: "bytes \<Rightarrow> bytes" where
  "squeeze (a # b # s) = (if a = CHR ''_'' \<and> b = CHR ''_'' then squeeze (b # s) else a # squeeze (b # s))"
| "squeeze s = s"

definition slug :: "bytes \<Rightarrow> bytes" where
  "slug source =
     (let stem = last (split_on (CHR ''/'') source);
          stem = (if suffix ''.log'' stem then take (length stem - 4) stem
                  else if suffix ''.txt'' stem then take (length stem - 4) stem else stem);
          s = squeeze (map (\<lambda>c. if is_ascii_alphanumeric c then to_ascii_lowercase c else CHR ''_'') stem);
          s = dropWhile (\<lambda>c. c = CHR ''_'') s;
          s = rev (dropWhile (\<lambda>c. c = CHR ''_'') (rev s))
      in if s = [] then ''source'' else s)"

definition id_for :: "bytes \<Rightarrow> bytes" where
  "id_for source = slug source"

definition ids :: "review \<Rightarrow> bytes list" where
  "ids s = sort (map (\<lambda>((pid, p), _). pid) (filter (\<lambda>((pid, p), _). p = Json) (rv_files s)))"

definition read_record :: "codecs \<Rightarrow> bytes \<Rightarrow> review \<Rightarrow> (review_error + pending_record) \<times> review" where
  "read_record C pid s =
     (if \<not> is_slug pid then (Inl (NotFound pid), s)
      else case read_file pid Json s of
        (None, s) \<Rightarrow> (Inl (NotFound pid), s)
      | (Some t, s) \<Rightarrow>
          (case co_json C t of Some r \<Rightarrow> (Inr r, s) | None \<Rightarrow> (Inl (IoErr (Some (pending_path s pid Json))), s)))"

definition save_record :: "codecs \<Rightarrow> pending_record \<Rightarrow> review \<Rightarrow> review_error option \<times> review" where
  "save_record C r s =
     (case co_to_json C r of
        None \<Rightarrow> (Some (IoErr None), s)
      | Some t \<Rightarrow>
          (case atomic_write (rc_id r) Json t s of
             (ok, s) \<Rightarrow> (if ok then None else Some (IoErr (Some (pending_path s (rc_id r) Json))), s)))"

text \<open>The load report of a definition's text, empty when it loads.\<close>

definition problems_of :: "codecs \<Rightarrow> bytes \<Rightarrow> bytes \<Rightarrow> bytes list" where
  "problems_of C path t =
     (case load_str (co_engines C) (co_toml C) path t of Inr _ \<Rightarrow> [] | Inl e \<Rightarrow> [show_error e])"

record pending_detail =
  dt_id :: bytes
  dt_source :: bytes
  dt_definition :: bytes
  dt_problems :: "bytes list"
  dt_record :: pending_record

definition get_detail :: "codecs \<Rightarrow> bytes \<Rightarrow> review \<Rightarrow> (review_error + pending_detail) \<times> review" where
  "get_detail C pid s =
     (case read_record C pid s of
        (Inl e, s) \<Rightarrow> (Inl e, s)
      | (Inr r, s) \<Rightarrow>
          (case read_file pid Toml s of
             (None, s) \<Rightarrow> (Inl (IoErr (Some (pending_path s pid Toml))), s)
           | (Some t, s) \<Rightarrow>
               (Inr \<lparr>dt_id = pid, dt_source = rc_source r, dt_definition = t,
                     dt_problems = problems_of C (pending_path s pid Toml) t, dt_record = r\<rparr>, s)))"

record pending_summary =
  sm_id :: bytes
  sm_source :: bytes
  sm_name :: "bytes option"
  sm_created :: nat
  sm_lines :: nat
  sm_templates :: nat
  sm_unmatched :: nat
  sm_edited :: bool
  sm_problems :: nat
  sm_updates :: "bytes option"
  sm_version :: nat
  sm_current_version :: "nat option"

definition summary_of :: "codecs \<Rightarrow> pending_detail \<Rightarrow> pending_summary" where
  "summary_of C d =
     (let def = (case co_toml C (dt_definition d) of Inr p \<Rightarrow> Some p | Inl _ \<Rightarrow> None); r = dt_record d; ev = rc_evidence r
      in \<lparr>sm_id = dt_id d, sm_source = dt_source d, sm_name = map_option pd_name def, sm_created = rc_created r,
          sm_lines = ev_lines_seen ev, sm_templates = length (ev_templates ev), sm_unmatched = ev_unmatched ev,
          sm_edited = rc_edited r, sm_problems = length (dt_problems d), sm_updates = map_option up_name (rc_updates r),
          sm_version = (case def of Some p \<Rightarrow> pd_version p | None \<Rightarrow> 1),
          sm_current_version = map_option up_version (rc_updates r)\<rparr>)"

fun list_from :: "codecs \<Rightarrow> bytes list \<Rightarrow> review \<Rightarrow> pending_summary list \<times> review" where
  "list_from C [] s = ([], s)"
| "list_from C (pid # rest) s =
     (case get_detail C pid s of
        (Inl _, s) \<Rightarrow> list_from C rest s
      | (Inr d, s) \<Rightarrow> (case list_from C rest s of (out, s) \<Rightarrow> (summary_of C d # out, s)))"

definition list_pending :: "codecs \<Rightarrow> review \<Rightarrow> pending_summary list \<times> review" where
  "list_pending C s = list_from C (ids s) s"

definition pending_lines :: "bytes \<Rightarrow> review \<Rightarrow> bytes list \<times> review" where
  "pending_lines pid s =
     (case read_file pid Lines s of (None, s) \<Rightarrow> ([], s) | (Some t, s) \<Rightarrow> (fst (frame True t), s))"

subsection \<open>The operations of a review\<close>

text \<open>The rejected records that can be read are remembered.\<close>

fun rejected_keys :: "codecs \<Rightarrow> (kept_name \<times> bytes) list \<Rightarrow> bool list \<Rightarrow> bytes set \<times> bool list" where
  "rejected_keys C [] fs = ({}, fs)"
| "rejected_keys C ((k, t) # es) fs =
     (case k of
        Stamped pid stamp Json \<Rightarrow>
          (case rejected_keys C es (tl fs) of
             (keys, fs2) \<Rightarrow>
               ((case (if fs \<noteq> [] \<and> hd fs then None else co_json C t) of
                   Some r \<Rightarrow> insert (rejected_key (rc_source r) (ev_fingerprint (rc_evidence r))) keys
                 | None \<Rightarrow> keys), fs2))
      | _ \<Rightarrow> rejected_keys C es fs)"

definition open_pending :: "codecs \<Rightarrow> review \<Rightarrow> review" where
  "open_pending C s =
     (case rejected_keys C (rv_rejected s) (rv_faults s) of (keys, fs) \<Rightarrow> s\<lparr>rv_keys := keys, rv_faults := fs\<rparr>)"

definition put_text :: "codecs \<Rightarrow> bytes \<Rightarrow> bytes \<Rightarrow> review \<Rightarrow> (review_error + bytes list) \<times> review" where
  "put_text C pid t s =
     (case read_record C pid s of
        (Inl e, s) \<Rightarrow> (Inl e, s)
      | (Inr r, s) \<Rightarrow>
          (case atomic_write pid Toml t s of
             (False, s) \<Rightarrow> (Inl (IoErr (Some (pending_path s pid Toml))), s)
           | (True, s) \<Rightarrow>
               (case (if \<not> rc_edited r then save_record C (r\<lparr>rc_edited := True\<rparr>) s else (None, s)) of
                  (Some e, s) \<Rightarrow> (Inl e, s)
                | (None, s) \<Rightarrow> (Inr (problems_of C (pending_path s pid Toml) t), s))))"

definition join_lines :: "bytes list \<Rightarrow> bytes" where
  "join_lines ls = concat (map (\<lambda>l. if suffix [LF] l then l else l @ [LF]) ls)"

definition write_proposal :: "codecs \<Rightarrow> nat \<Rightarrow> proposal \<Rightarrow> bytes list \<Rightarrow> review \<Rightarrow> (review_error + write_outcome) \<times> review" where
  "write_proposal C now p lines s =
     (let st = pd_strategy (pp_definition p); pid = id_for (pp_source p); ev = pp_evidence p in
      if ev_templates ev = [] \<or> (sd_kind st = SPattern \<and> sd_patterns st = [] \<and> pp_updates p = None) then (Inr SkippedEmpty, s)
      else if rejected_key (pp_source p) (ev_fingerprint ev) \<in> rv_keys s then (Inr SkippedRejected, s)
      else case read_record C pid s of
        (existing, s) \<Rightarrow>
          (let outcome = (case existing of
                 Inr r \<Rightarrow> if rc_edited r then SkippedEdited
                          else if ev_fingerprint (rc_evidence r) = ev_fingerprint ev then SkippedDuplicate else Replaced
               | Inl _ \<Rightarrow> Written)
           in if outcome = SkippedEdited \<or> outcome = SkippedDuplicate then (Inr outcome, s)
              else case co_to_toml C (pp_definition p) of
                None \<Rightarrow> (Inl (IoErr None), s)
              | Some t \<Rightarrow>
                  (case atomic_write pid Lines (join_lines lines) s of
                     (False, s) \<Rightarrow> (Inl (IoErr None), s)
                   | (True, s) \<Rightarrow>
                       (case atomic_write pid Toml t s of
                          (False, s) \<Rightarrow> (Inl (IoErr None), s)
                        | (True, s) \<Rightarrow>
                            (case save_record C \<lparr>rc_id = pid, rc_source = pp_source p, rc_created = now, rc_edited = False,
                                                 rc_evidence = ev, rc_updates = pp_updates p\<rparr> s of
                               (Some e, s) \<Rightarrow> (Inl e, s)
                             | (None, s) \<Rightarrow> (Inr outcome, s))))))"

type_synonym merger = "bytes list \<Rightarrow> bool \<Rightarrow> template_evidence option"

fun comma :: "bytes list \<Rightarrow> bytes" where
  "comma [] = []"
| "comma [x] = x"
| "comma (x # xs) = x @ '', '' @ comma xs"

text \<open>One group of templates is merged: it gets the next id and the members of the whole group.\<close>

definition merge_group :: "merger \<Rightarrow> bytes list \<Rightarrow> bool \<Rightarrow> nat list \<Rightarrow> nat list \<times> evidence \<Rightarrow> nat list \<times> evidence" where
  "merge_group mrg lines syslog g st =
     (case st of
        (keep, ev) \<Rightarrow>
          (let ts = filter (\<lambda>t. te_id t \<in> set g) (ev_templates ev);
               members = concat (map (\<lambda>t. List.map_filter (\<lambda>m. if m < length lines then Some (lines ! m) else None) (te_members t)) ts)
           in if members = [] then (keep, ev)
              else case mrg members syslog of
                None \<Rightarrow> (keep, ev)
              | Some merged \<Rightarrow>
                  (let i = foldr max (map te_id (ev_templates ev)) 0 + 1;
                       names = comma (map dec g);
                       merged = merged\<lparr>te_id := i, te_members := concat (map te_members ts),
                                       te_history := (''merged in review from templates '' @ names) # te_history merged\<rparr>
                   in (filter (\<lambda>k. k \<notin> set g) keep @ [i],
                       ev\<lparr>ev_templates := ev_templates ev @ [merged],
                          ev_decisions := ev_decisions ev @ [''review: templates '' @ names @ '' merged'']\<rparr>))))"

definition regenerate :: "codecs \<Rightarrow> merger \<Rightarrow> bytes \<Rightarrow> nat list \<Rightarrow> nat list list \<Rightarrow> review \<Rightarrow>
    (review_error + bytes \<times> bytes list) \<times> review" where
  "regenerate C mrg pid keep groups s =
     (case read_record C pid s of
        (Inl e, s) \<Rightarrow> (Inl e, s)
      | (Inr r, s) \<Rightarrow>
          (case read_file pid Toml s of
             (None, s) \<Rightarrow> (Inl (NotFound pid), s)
           | (Some t, s) \<Rightarrow>
               (case co_toml C t of
                  Inl (_, msg) \<Rightarrow> (Inl (Invalid [pending_path s pid Toml @ '': '' @ msg]), s)
                | Inr d \<Rightarrow>
                    (case pending_lines pid s of
                       (lines, s) \<Rightarrow>
                         (case fold (merge_group mrg lines (ev_syslog (rc_evidence r))) groups (keep, rc_evidence r) of
                            (keep, ev) \<Rightarrow>
                              (let kept = filter (\<lambda>t. te_id t \<in> set keep) (ev_templates ev);
                                   st = pd_strategy d;
                                   d = (if sd_kind st = SPattern
                                        then d\<lparr>pd_strategy := st\<lparr>sd_patterns := map te_pattern kept, sd_pattern := None\<rparr>\<rparr> else d)
                               in case co_to_toml C d of
                                    None \<Rightarrow> (Inl (IoErr None), s)
                                  | Some t \<Rightarrow>
                                      (case atomic_write pid Toml t s of
                                         (False, s) \<Rightarrow> (Inl (IoErr None), s)
                                       | (True, s) \<Rightarrow>
                                           (case save_record C (r\<lparr>rc_edited := True,
                                                rc_evidence := ev\<lparr>ev_decisions := ev_decisions ev @
                                                  [''review: definition regenerated from templates '' @ comma (map dec keep)]\<rparr>\<rparr>) s of
                                              (Some e, s) \<Rightarrow> (Inl e, s)
                                            | (None, s) \<Rightarrow> (Inr (t, problems_of C (pending_path s pid Toml) t), s)))))))))"

record approved =
  ap_name :: bytes
  ap_source :: bytes
  ap_replaced_version :: "nat option"

definition is_parser_name :: "bytes \<Rightarrow> bool" where
  "is_parser_name name \<longleftrightarrow>
     name \<noteq> [] \<and> list_all (\<lambda>b. is_ascii_alphanumeric b \<or> b = CHR ''_'' \<or> b = CHR ''-'') name"

text \<open>The end of an approval: the parser's file, then the record, then what may be left behind.\<close>

definition install_parser :: "bytes \<Rightarrow> nat \<Rightarrow> bytes \<Rightarrow> bytes \<Rightarrow> pending_record \<Rightarrow> nat option \<Rightarrow> review \<Rightarrow>
    (review_error + approved) \<times> review" where
  "install_parser pid stamp name t r replaced s =
     (case atomic_write_parser name t s of
        (False, s) \<Rightarrow> (Inl (IoErr None), s)
      | (True, s) \<Rightarrow>
          (case rename_approved pid Json (Stamped pid stamp Json) s of
             (False, s) \<Rightarrow> (Inl (IoErr None), remove_parser name s)
           | (True, s) \<Rightarrow>
               (let s = remove_pending pid Toml s;
                    s = snd (rename_approved pid Lines (Stamped pid stamp Lines) s)
                in (Inr \<lparr>ap_name = name, ap_source = rc_source r, ap_replaced_version = replaced\<rparr>, s))))"

definition read_parser :: "bytes \<Rightarrow> review \<Rightarrow> bytes option \<times> review" where
  "read_parser name s = (case fault s of (f, s) \<Rightarrow> (if f then None else map_of (rv_parsers s) name, s))"

definition is_update :: "pending_record \<Rightarrow> bytes \<Rightarrow> bool" where
  "is_update r name = (case rc_updates r of Some u \<Rightarrow> up_name u = name | None \<Rightarrow> False)"

definition toml_version :: "codecs \<Rightarrow> bytes \<Rightarrow> nat" where
  "toml_version C t = (case co_toml C t of Inr d \<Rightarrow> pd_version d | Inl _ \<Rightarrow> 1)"

definition approve :: "codecs \<Rightarrow> bytes \<Rightarrow> nat \<Rightarrow> bytes list \<Rightarrow> review \<Rightarrow> (review_error + approved) \<times> review" where
  "approve C pid stamp active_names s =
     (case read_record C pid s of
        (Inl e, s) \<Rightarrow> (Inl e, s)
      | (Inr r, s) \<Rightarrow>
          (case read_file pid Toml s of
             (None, s) \<Rightarrow> (Inl (NotFound pid), s)
           | (Some t, s) \<Rightarrow>
               (case load_str (co_engines C) (co_toml C) (pending_path s pid Toml) t of
                  Inl e \<Rightarrow> (Inl (Invalid [show_error e]), s)
                | Inr q \<Rightarrow>
                    (let name = parser_name q
                     in if \<not> is_parser_name name
                        then (Inl (Invalid [''[parser] name `'' @ name @ ''` must be [A-Za-z0-9_-]+ (it names the file under parsers/)'']), s)
                        else if is_update r name then
                          (case read_parser name s of
                             (None, s) \<Rightarrow> install_parser pid stamp name t r None s
                           | (Some current, s) \<Rightarrow>
                               (case atomic_write_approved (Version name (toml_version C current)) current s of
                                  (False, s) \<Rightarrow> (Inl (IoErr None), s)
                                | (True, s) \<Rightarrow> install_parser pid stamp name t r (Some (toml_version C current)) s))
                        else if name \<in> set active_names \<or> map_of (rv_parsers s) name \<noteq> None
                        then (Inl (Conflict name), s)
                        else install_parser pid stamp name t r None s))))"

definition reject_proposal :: "codecs \<Rightarrow> bytes \<Rightarrow> nat \<Rightarrow> review \<Rightarrow> (review_error + kept_name) \<times> review" where
  "reject_proposal C pid stamp s =
     (case read_record C pid s of
        (Inl e, s) \<Rightarrow> (Inl e, s)
      | (Inr r, s) \<Rightarrow>
          (case rename_rejected pid Json (Stamped pid stamp Json) s of
             (False, s) \<Rightarrow> (Inl (IoErr None), s)
           | (True, s) \<Rightarrow>
               (let s = snd (rename_rejected pid Toml (Stamped pid stamp Toml) s);
                    s = remove_pending pid Lines s
                in (Inr (Stamped pid stamp Toml),
                    s\<lparr>rv_keys := insert (rejected_key (rc_source r) (ev_fingerprint (rc_evidence r))) (rv_keys s)\<rparr>))))"

text \<open>For an update: the current text and the diff against the proposal.\<close>

definition current_and_diff :: "codecs \<Rightarrow> bytes \<Rightarrow> review \<Rightarrow> (bytes \<times> bytes) option \<times> review" where
  "current_and_diff C pid s =
     (case get_detail C pid s of
        (Inl _, s) \<Rightarrow> (None, s)
      | (Inr d, s) \<Rightarrow>
          (case rc_updates (dt_record d) of
             None \<Rightarrow> (None, s)
           | Some u \<Rightarrow>
               (case read_parser (up_name u) s of
                  (None, s) \<Rightarrow> (None, s)
                | (Some current, s) \<Rightarrow>
                    (Some (current, unified_diff (''parsers/'' @ up_name u @ ''.toml (v'' @ dec (up_version u) @ '')'')
                      (''pending/'' @ pid @ ''.toml (proposed)'') current (dt_definition d)), s))))"

subsection \<open>Calls in any order\<close>

datatype review_call =
    CWrite nat proposal "bytes list"
  | CPut bytes bytes
  | CRegenerate bytes "nat list" "nat list list"
  | CApprove bytes nat "bytes list"
  | CReject bytes nat
  | COpen

fun run_call :: "codecs \<Rightarrow> merger \<Rightarrow> review_call \<Rightarrow> review \<Rightarrow> review" where
  "run_call C mrg (CWrite now p ls) s = snd (write_proposal C now p ls s)"
| "run_call C mrg (CPut pid t) s = snd (put_text C pid t s)"
| "run_call C mrg (CRegenerate pid keep groups) s = snd (regenerate C mrg pid keep groups s)"
| "run_call C mrg (CApprove pid stamp names) s = snd (approve C pid stamp names s)"
| "run_call C mrg (CReject pid stamp) s = snd (reject_proposal C pid stamp s)"
| "run_call C mrg COpen s = open_pending C s"

text \<open>
  A run of calls, each with the faults it meets; opening is a restart. The clock moves between rejections of an id, so
  the name a rejection moves its record to is free.
\<close>

fun run_calls :: "codecs \<Rightarrow> merger \<Rightarrow> (review_call \<times> bool list) list \<Rightarrow> review \<Rightarrow> review" where
  "run_calls C mrg [] s = s"
| "run_calls C mrg ((c, fs) # cs) s = run_calls C mrg cs (run_call C mrg c (s\<lparr>rv_faults := fs\<rparr>))"

definition fresh_stamp :: "review_call \<Rightarrow> review \<Rightarrow> bool" where
  "fresh_stamp c s = (case c of CReject pid stamp \<Rightarrow> map_of (rv_rejected s) (Stamped pid stamp Json) = None | _ \<Rightarrow> True)"

fun clock_moves :: "codecs \<Rightarrow> merger \<Rightarrow> (review_call \<times> bool list) list \<Rightarrow> review \<Rightarrow> bool" where
  "clock_moves C mrg [] s \<longleftrightarrow> True"
| "clock_moves C mrg ((c, fs) # cs) s \<longleftrightarrow> fresh_stamp c s \<and> clock_moves C mrg cs (run_call C mrg c (s\<lparr>rv_faults := fs\<rparr>))"

text \<open>The last restart of a run, if there was one, could read the directory of the rejected.\<close>

fun last_restart_reads :: "bool \<Rightarrow> (review_call \<times> bool list) list \<Rightarrow> bool" where
  "last_restart_reads ok [] = ok"
| "last_restart_reads ok ((c, fs) # cs) = last_restart_reads (if c = COpen then fs = [] else ok) cs"

subsection \<open>What an operation leaves alone\<close>

text \<open>Equal but for the faults still to come.\<close>

definition core :: "review \<Rightarrow> review" where
  "core s = s\<lparr>rv_faults := []\<rparr>"

text \<open>Neither the parsers nor what is remembered of rejections has changed.\<close>

definition undisturbed :: "review \<Rightarrow> review \<Rightarrow> bool" where
  "undisturbed s s1 \<longleftrightarrow> rv_parsers s1 = rv_parsers s \<and> rv_rejected s1 = rv_rejected s \<and> rv_keys s1 = rv_keys s"

lemma leaves_refl [simp]: "undisturbed s s"
  by (simp add: undisturbed_def)

lemma leaves_trans: "undisturbed s s1 \<Longrightarrow> undisturbed s1 s2 \<Longrightarrow> undisturbed s s2"
  by (simp add: undisturbed_def)

lemma core_leaves: "core s1 = core s \<Longrightarrow> undisturbed s s1"
  by (cases s, cases s1) (simp add: core_def undisturbed_def)

lemma core_fields:
  assumes "core s1 = core s"
  shows "rv_files s1 = rv_files s" "rv_parsers s1 = rv_parsers s" "rv_keys s1 = rv_keys s" "rv_rejected s1 = rv_rejected s"
    "rv_approved s1 = rv_approved s" "rv_dir s1 = rv_dir s"
  using assms by (cases s, cases s1, simp add: core_def)+

lemma fault_core: "fault s = (f, s1) \<Longrightarrow> core s1 = core s"
  by (auto simp: fault_def core_def split: list.splits)

lemma read_file_core: "read_file pid p s = (x, s1) \<Longrightarrow> core s1 = core s"
  by (auto simp: read_file_def split: prod.splits if_splits dest: fault_core)

lemma read_parser_core: "read_parser name s = (x, s1) \<Longrightarrow> core s1 = core s"
  by (auto simp: read_parser_def split: prod.splits if_splits dest: fault_core)

lemma record_of_core: "read_record C pid s = (x, s1) \<Longrightarrow> core s1 = core s"
  by (auto simp: read_record_def split: prod.splits option.splits if_splits dest: read_file_core)

lemma pending_lines_core: "pending_lines pid s = (x, s1) \<Longrightarrow> core s1 = core s"
  by (auto simp: pending_lines_def split: prod.splits option.splits dest: read_file_core)

lemma atomic_write_leaves: "atomic_write pid p t s = (ok, s1) \<Longrightarrow> undisturbed s s1"
  by (auto simp: atomic_write_def fault_def undisturbed_def split: list.splits if_splits)

lemma save_record_leaves: "save_record C r s = (x, s1) \<Longrightarrow> undisturbed s s1"
  by (auto simp: save_record_def split: prod.splits option.splits if_splits dest: atomic_write_leaves)

lemmas leaves_ops = read_file_core [THEN core_leaves] record_of_core [THEN core_leaves] pending_lines_core [THEN core_leaves]
  atomic_write_leaves save_record_leaves

lemma put_text_leaves: "undisturbed s (snd (put_text C pid t s))"
  by (auto simp: put_text_def split: prod.splits sum.splits option.splits bool.splits dest!: leaves_ops simp: undisturbed_def)

lemma write_proposal_leaves: "undisturbed s (snd (write_proposal C now p ls s))"
  by (auto simp: write_proposal_def Let_def split: prod.splits option.splits bool.splits dest!: leaves_ops simp: undisturbed_def)

lemma regenerate_leaves: "undisturbed s (snd (regenerate C mrg pid keep groups s))"
  by (auto simp: regenerate_def Let_def split: prod.splits sum.splits option.splits bool.splits dest!: leaves_ops simp: undisturbed_def)

text \<open>A rejection undisturbed the parsers; an approval undisturbed what is remembered.\<close>

lemma rename_rejected_parsers: "rename_rejected pid p k s = (ok, s1) \<Longrightarrow> rv_parsers s1 = rv_parsers s"
  by (auto simp: rename_rejected_def fault_def split: list.splits option.splits if_splits)

lemma rename_rejected_parsers_snd: "rv_parsers (snd (rename_rejected pid p k s)) = rv_parsers s"
  using rename_rejected_parsers by (metis prod.collapse)

lemma remove_pending_leaves: "undisturbed s (remove_pending pid p s)"
  by (auto simp: remove_pending_def fault_def undisturbed_def split: list.splits)

lemma reject_parsers: "rv_parsers (snd (reject_proposal C pid stamp s)) = rv_parsers s"
  by (auto simp: reject_proposal_def Let_def split: prod.splits sum.splits bool.splits)
    (auto dest!: rename_rejected_parsers record_of_core [THEN core_fields(2)] simp: remove_pending_leaves [unfolded undisturbed_def] rename_rejected_parsers_snd split: prod.splits)

definition recalls :: "review \<Rightarrow> review \<Rightarrow> bool" where
  "recalls s s1 \<longleftrightarrow> rv_rejected s1 = rv_rejected s \<and> rv_keys s1 = rv_keys s"

lemma leaves_recalls: "undisturbed s s1 \<Longrightarrow> recalls s s1"
  by (simp add: undisturbed_def recalls_def)

lemma rename_approved_recalls: "rename_approved pid p k s = (ok, s1) \<Longrightarrow> recalls s s1"
  by (auto simp: rename_approved_def fault_def recalls_def split: list.splits option.splits if_splits)

lemma parser_ops_recall:
  "atomic_write_parser name t s = (ok, s1) \<Longrightarrow> recalls s s1"
  "atomic_write_approved k t s = (ok, s1) \<Longrightarrow> recalls s s1"
  "recalls s (remove_parser name s)"
  by (auto simp: atomic_write_parser_def atomic_write_approved_def remove_parser_def fault_def recalls_def
      split: list.splits if_splits)

lemma install_recalls: "recalls s (snd (install_parser pid stamp name t r replaced s))"
proof (cases "atomic_write_parser name t s")
  case (Pair ok s1)
  obtain ok2 s2 where m: "rename_approved pid Json (Stamped pid stamp Json) s1 = (ok2, s2)" by fastforce
  obtain ok3 s3 where l: "rename_approved pid Lines (Stamped pid stamp Lines) (remove_pending pid Toml s2) = (ok3, s3)" by fastforce
  note steps = parser_ops_recall(1) [OF Pair] rename_approved_recalls [OF m] rename_approved_recalls [OF l]
    leaves_recalls [OF remove_pending_leaves, of s2 pid Toml] parser_ops_recall(3) [of s2 name]
  show ?thesis using steps by (cases ok; cases ok2) (simp_all add: install_parser_def Pair m l Let_def recalls_def)
qed

lemma approve_recalls: "recalls s (snd (approve C pid stamp names s))"
  unfolding approve_def Let_def
  by (auto split: prod.splits sum.splits option.splits bool.splits
      dest!: record_of_core [THEN core_leaves] read_file_core [THEN core_leaves] read_parser_core [THEN core_leaves] parser_ops_recall(2))
    (use install_recalls in \<open>auto simp: undisturbed_def recalls_def\<close>)

subsection \<open>A rejected fingerprint stays rejected\<close>

definition keys_of :: "codecs \<Rightarrow> (kept_name \<times> bytes) list \<Rightarrow> bytes set" where
  "keys_of C es = {rejected_key (rc_source r) (ev_fingerprint (rc_evidence r)) | r i st t.
     (Stamped i st Json, t) \<in> set es \<and> co_json C t = Some r}"

lemma rejected_keys_of: "rejected_keys C es [] = (keys_of C es, [])"
proof (induction es)
  case Nil
  show ?case by (simp add: keys_of_def)
next
  case (Cons e es)
  obtain k t where e: "e = (k, t)" by (cases e)
  have skip: "keys_of C ((k, t) # es) = keys_of C es" if "\<And>i st. k \<noteq> Stamped i st Json"
  proof -
    have "(Stamped i st Json, u) \<in> set ((k, t) # es) \<longleftrightarrow> (Stamped i st Json, u) \<in> set es" for i st u
      using that [of i st] by auto
    then show ?thesis unfolding keys_of_def by simp
  qed
  show ?case
  proof (cases "\<exists>i st. k = Stamped i st Json")
    case True
    then obtain i st where k: "k = Stamped i st Json" by blast
    show ?thesis by (cases "co_json C t") (auto simp: e k Cons.IH keys_of_def)
  next
    case False
    then show ?thesis using skip by (cases k; cases "case k of Stamped i st p \<Rightarrow> p | Version _ _ \<Rightarrow> Toml")
        (auto simp: e Cons.IH split: kept_name.splits part.splits)
  qed
qed

lemma set_update_other: "k \<noteq> k2 \<Longrightarrow> (k, v) \<in> set (AList.update k2 v2 es) \<longleftrightarrow> (k, v) \<in> set es"
  by (induction es) auto

lemma set_update_fresh: "map_of es k = None \<Longrightarrow> set (AList.update k v es) = insert (k, v) (set es)"
  by (induction es) (auto split: if_splits)

lemma keys_of_toml: "keys_of C (AList.update (Stamped i st Toml) t es) = keys_of C es"
  by (simp add: keys_of_def set_update_other)

lemma keys_of_json:
  "map_of es (Stamped i st Json) = None \<Longrightarrow> co_json C t = Some r \<Longrightarrow>
   keys_of C (AList.update (Stamped i st Json) t es) = insert (rejected_key (rc_source r) (ev_fingerprint (rc_evidence r))) (keys_of C es)"
  by (auto simp: keys_of_def set_update_fresh)

lemma record_of_json:
  "read_record C pid s = (Inr r, s1) \<Longrightarrow> \<exists>t. map_of (rv_files s) (pid, Json) = Some t \<and> co_json C t = Some r"
  by (auto simp: read_record_def read_file_def split: if_splits prod.splits option.splits dest: core_fields(1) [OF fault_core])

lemma rename_rejected_result:
  "rename_rejected pid p k s = (ok, s1) \<Longrightarrow>
   rv_keys s1 = rv_keys s \<and>
   (if ok then (\<exists>t. map_of (rv_files s) (pid, p) = Some t \<and> rv_rejected s1 = AList.update k t (rv_rejected s)) else rv_rejected s1 = rv_rejected s)"
  by (auto simp: rename_rejected_def fault_def split: list.splits option.splits if_splits)

lemma reject_result:
  assumes "map_of (rv_rejected s) (Stamped pid stamp Json) = None"
  shows "keys_of C (rv_rejected s) \<subseteq> keys_of C (rv_rejected (snd (reject_proposal C pid stamp s))) \<and>
      rv_keys s \<subseteq> rv_keys (snd (reject_proposal C pid stamp s))"
    and "reject_proposal C pid stamp s = (Inr path, s1) \<Longrightarrow> read_record C pid s = (Inr r, s2) \<Longrightarrow>
      rejected_key (rc_source r) (ev_fingerprint (rc_evidence r)) \<in> rv_keys s1 \<inter> keys_of C (rv_rejected s1)"
proof -
  have "keys_of C (rv_rejected s) \<subseteq> keys_of C (rv_rejected (snd (reject_proposal C pid stamp s))) \<and>
      rv_keys s \<subseteq> rv_keys (snd (reject_proposal C pid stamp s)) \<and>
      (\<forall>path s1 r s2. reject_proposal C pid stamp s = (Inr path, s1) \<longrightarrow> read_record C pid s = (Inr r, s2) \<longrightarrow>
        rejected_key (rc_source r) (ev_fingerprint (rc_evidence r)) \<in> rv_keys s1 \<inter> keys_of C (rv_rejected s1))"
  proof (cases "read_record C pid s")
    case (Pair res s2)
    note c = core_fields [OF record_of_core [OF Pair]]
    show ?thesis
    proof (cases res)
      case (Inl e)
      then show ?thesis using c by (simp add: reject_proposal_def Pair)
    next
      case (Inr r)
      obtain t where t: "map_of (rv_files s) (pid, Json) = Some t" "co_json C t = Some r" using record_of_json Pair Inr by blast
      obtain ok s3 where m: "rename_rejected pid Json (Stamped pid stamp Json) s2 = (ok, s3)" by fastforce
      obtain ok2 s4 where m2: "rename_rejected pid Toml (Stamped pid stamp Toml) s3 = (ok2, s4)" by fastforce
      note r1 = rename_rejected_result [OF m] and r2 = rename_rejected_result [OF m2]
      have l: "rv_rejected (remove_pending pid Lines s4) = rv_rejected s4" "rv_keys (remove_pending pid Lines s4) = rv_keys s4"
        using remove_pending_leaves [of s4 pid Lines] by (simp_all add: undisturbed_def)
      show ?thesis
      proof (cases ok)
        case True
        have "rv_rejected s3 = AList.update (Stamped pid stamp Json) t (rv_rejected s)" using r1 True t c by simp
        moreover have "keys_of C (rv_rejected s4) = keys_of C (rv_rejected s3)" using r2 by (cases ok2) (auto simp: keys_of_toml)
        ultimately have "keys_of C (rv_rejected s4) =
            insert (rejected_key (rc_source r) (ev_fingerprint (rc_evidence r))) (keys_of C (rv_rejected s))"
          using keys_of_json [OF assms t(2)] by simp
        moreover have "rv_keys s4 = rv_keys s" using r1 r2 c by simp
        ultimately show ?thesis using l by (auto simp: reject_proposal_def Pair Inr m m2 True Let_def)
      next
        case False
        then show ?thesis using r1 c by (simp add: reject_proposal_def Pair Inr m)
      qed
    qed
  qed
  then show "keys_of C (rv_rejected s) \<subseteq> keys_of C (rv_rejected (snd (reject_proposal C pid stamp s))) \<and>
      rv_keys s \<subseteq> rv_keys (snd (reject_proposal C pid stamp s))"
    and "reject_proposal C pid stamp s = (Inr path, s1) \<Longrightarrow> read_record C pid s = (Inr r, s2) \<Longrightarrow>
      rejected_key (rc_source r) (ev_fingerprint (rc_evidence r)) \<in> rv_keys s1 \<inter> keys_of C (rv_rejected s1)" by blast+
qed

text \<open>No call takes a rejected record away, and only a restart forgets what was remembered.\<close>

lemma call_remembers:
  assumes "fresh_stamp c s"
  shows "keys_of C (rv_rejected s) \<subseteq> keys_of C (rv_rejected (run_call C mrg c (s\<lparr>rv_faults := fs\<rparr>)))"
    and "c \<noteq> COpen \<Longrightarrow> rv_keys s \<subseteq> rv_keys (run_call C mrg c (s\<lparr>rv_faults := fs\<rparr>))"
    and "rv_keys (run_call C mrg COpen (s\<lparr>rv_faults := []\<rparr>)) = keys_of C (rv_rejected s)"
proof -
  let ?s = "s\<lparr>rv_faults := fs\<rparr>" and ?s1 = "run_call C mrg c (s\<lparr>rv_faults := fs\<rparr>)"
  have "rv_rejected ?s1 = rv_rejected s" "c \<noteq> COpen \<Longrightarrow> rv_keys ?s1 = rv_keys s" if "\<And>pid stamp. c \<noteq> CReject pid stamp"
    using that leaves_recalls [OF write_proposal_leaves [of ?s]] leaves_recalls [OF put_text_leaves [of ?s]]
      leaves_recalls [OF regenerate_leaves [of ?s]] approve_recalls [of ?s]
    by (cases c; simp add: recalls_def open_pending_def split: prod.split)+
  moreover have "keys_of C (rv_rejected s) \<subseteq> keys_of C (rv_rejected ?s1) \<and> rv_keys s \<subseteq> rv_keys ?s1" if "c = CReject pid stamp" for pid stamp
    using reject_result(1) [of ?s pid stamp C] assms that by (simp add: fresh_stamp_def)
  ultimately show "keys_of C (rv_rejected s) \<subseteq> keys_of C (rv_rejected ?s1)" "c \<noteq> COpen \<Longrightarrow> rv_keys s \<subseteq> rv_keys ?s1"
    by (metis subset_refl)+
qed (simp add: open_pending_def rejected_keys_of)

lemma run_remembers:
  "clock_moves C mrg cs s \<Longrightarrow> key \<in> keys_of C (rv_rejected s) \<Longrightarrow> (ok \<Longrightarrow> key \<in> rv_keys s) \<Longrightarrow>
    key \<in> keys_of C (rv_rejected (run_calls C mrg cs s)) \<and> (last_restart_reads ok cs \<longrightarrow> key \<in> rv_keys (run_calls C mrg cs s))"
proof (induction cs arbitrary: s ok)
  case (Cons x cs)
  obtain c fs where x: "x = (c, fs)" by fastforce
  let ?s1 = "run_call C mrg c (s\<lparr>rv_faults := fs\<rparr>)" and ?ok = "if c = COpen then fs = [] else ok"
  have f: "fresh_stamp c s" "clock_moves C mrg cs ?s1" using Cons.prems(1) by (simp_all add: x)
  have "key \<in> keys_of C (rv_rejected ?s1)" using call_remembers(1) [OF f(1)] Cons.prems(2) by blast
  moreover have "key \<in> rv_keys ?s1" if ?ok
  proof (cases "c = COpen")
    case True
    then show ?thesis using that call_remembers(3) [OF f(1), of C mrg] Cons.prems(2) by simp
  next
    case False
    then show ?thesis using that call_remembers(2) [OF f(1) False, of C mrg fs] Cons.prems(3) by auto
  qed
  ultimately show ?case unfolding x run_calls.simps last_restart_reads.simps by (rule Cons.IH [OF f(2)])
qed simp

text \<open>
  C33. A rejected proposal does not come back. Once a rejection has succeeded, then whatever calls follow, with whatever
  failures, its record stays among the rejected; and as long as the last restart, if there was one, could read the
  directory of the rejected, a proposal of that source with that fingerprint is refused and nothing is written.
  (A restart that cannot read the record forgets it until the next one that can, \<open>unread_rejection_forgotten\<close>; the name
  of a rejected record holds its id and the second, so no id is rejected twice in one second, \<open>clock_moves\<close>.)
\<close>

theorem rejected_stays_rejected:
  assumes "reject_proposal C pid stamp s = (Inr path, s1)" "map_of (rv_rejected s) (Stamped pid stamp Json) = None"
    and "read_record C pid s = (Inr r, s')" "clock_moves C mrg cs s1"
    and "pp_source p = rc_source r" "ev_fingerprint (pp_evidence p) = ev_fingerprint (rc_evidence r)"
  shows "let s2 = run_calls C mrg cs s1 in
    rejected_key (pp_source p) (ev_fingerprint (pp_evidence p)) \<in> keys_of C (rv_rejected s2) \<and>
    (last_restart_reads True cs \<longrightarrow>
       write_proposal C now p ls s2 = (Inr SkippedRejected, s2) \<or> write_proposal C now p ls s2 = (Inr SkippedEmpty, s2))"
proof -
  let ?key = "rejected_key (pp_source p) (ev_fingerprint (pp_evidence p))"
  have k: "?key \<in> rv_keys s1" "?key \<in> keys_of C (rv_rejected s1)" using reject_result(2) [OF assms(2,1,3)] assms(5,6) by simp_all
  from run_remembers [OF assms(4) k(2), of True] k(1) show ?thesis
    by (simp add: write_proposal_def Let_def)
qed

lemma unread_rejection_forgotten:
  "rv_keys (run_call C mrg COpen (s\<lparr>rv_rejected := [(Stamped pid stamp Json, t)], rv_faults := [True]\<rparr>)) = {}"
  by (simp add: open_pending_def)

subsection \<open>An approval\<close>

lemma no_fault: "rv_faults s = [] \<Longrightarrow> fault s = (False, s)"
  by (simp add: fault_def)

lemma record_of_quiet:
  "rv_faults s = [] \<Longrightarrow> read_record C pid s = (x, s1) \<Longrightarrow>
   s1 = s \<and> (\<forall>r. x = Inr r \<longrightarrow> is_slug pid \<and> (\<exists>t. map_of (rv_files s) (pid, Json) = Some t \<and> co_json C t = Some r))"
  by (auto simp: read_record_def read_file_def no_fault split: if_splits option.splits)

definition gone :: "bytes \<Rightarrow> review \<Rightarrow> review \<Rightarrow> bool" where
  "gone pid s s1 \<longleftrightarrow>
     (\<forall>k. map_of (rv_files s1) k = (if fst k = pid then None else map_of (rv_files s) k)) \<and>
     rv_rejected s1 = rv_rejected s \<and> rv_keys s1 = rv_keys s"

lemma map_of_delete: "map_of (AList.delete k es) = (map_of es)(k := None)"
  by (simp add: AList.delete_conv')

lemma map_of_update: "map_of (AList.update k v es) = (map_of es)(k \<mapsto> v)"
  by (simp add: AList.update_conv')

lemma install_quiet:
  assumes "rv_faults s = []" "map_of (rv_files s) (pid, Json) = Some jt"
  shows "\<exists>s1. install_parser pid stamp name t r replaced s =
      (Inr \<lparr>ap_name = name, ap_source = rc_source r, ap_replaced_version = replaced\<rparr>, s1) \<and>
    rv_parsers s1 = AList.update name t (rv_parsers s) \<and> gone pid s s1 \<and>
    map_of (rv_approved s1) (Stamped pid stamp Json) = Some jt \<and>
    (\<forall>n v. map_of (rv_approved s1) (Version n v) = map_of (rv_approved s) (Version n v))"
proof -
  define s2 where "s2 = s\<lparr>rv_parsers := AList.update name t (rv_parsers s),
    rv_approved := AList.update (Stamped pid stamp Json) jt (rv_approved s), rv_files := AList.delete (pid, Json) (rv_files s)\<rparr>"
  define s3 where "s3 = s2\<lparr>rv_files := AList.delete (pid, Toml) (rv_files s2)\<rparr>"
  obtain ok s4 where m: "rename_approved pid Lines (Stamped pid stamp Lines) s3 = (ok, s4)" by fastforce
  have a: "atomic_write_parser name t s = (True, s\<lparr>rv_parsers := AList.update name t (rv_parsers s)\<rparr>)"
    using assms by (simp add: atomic_write_parser_def no_fault)
  have b: "rename_approved pid Json (Stamped pid stamp Json) (s\<lparr>rv_parsers := AList.update name t (rv_parsers s)\<rparr>) = (True, s2)"
    using assms by (simp add: rename_approved_def no_fault s2_def)
  have c: "remove_pending pid Toml s2 = s3" using assms by (simp add: remove_pending_def fault_def s2_def s3_def)
  have run: "install_parser pid stamp name t r replaced s =
      (Inr \<lparr>ap_name = name, ap_source = rc_source r, ap_replaced_version = replaced\<rparr>, s4)"
    by (simp add: install_parser_def a b c m Let_def)
  have s4f: "map_of (rv_files s4) = (map_of (rv_files s3))((pid, Lines) := None)"
    using m assms by (auto simp: rename_approved_def fault_def s3_def s2_def map_of_delete split: option.splits)
  have s4: "rv_parsers s4 = rv_parsers s3 \<and> rv_rejected s4 = rv_rejected s3 \<and> rv_keys s4 = rv_keys s3 \<and>
      (\<forall>k. k \<noteq> Stamped pid stamp Lines \<longrightarrow> map_of (rv_approved s4) k = map_of (rv_approved s3) k)"
    using m assms by (auto simp: rename_approved_def fault_def s3_def s2_def map_of_delete map_of_update split: option.splits)
  have "map_of (rv_files s4) = ((map_of (rv_files s))((pid, Json) := None, (pid, Toml) := None))((pid, Lines) := None)"
    using s4f by (simp add: s3_def s2_def map_of_delete)
  then have "map_of (rv_files s4) k = (if fst k = pid then None else map_of (rv_files s) k)" for k
    by (cases k; cases "snd k") auto
  then show ?thesis using s4 unfolding run by (auto simp: gone_def s3_def s2_def map_of_update)
qed

text \<open>What an approval may do: the text that loads is installed, and what it replaces is kept.\<close>

definition approved_as :: "codecs \<Rightarrow> bytes \<Rightarrow> nat \<Rightarrow> bytes list \<Rightarrow> review \<Rightarrow> approved \<Rightarrow> review \<Rightarrow> bool" where
  "approved_as C pid stamp active s a s1 \<longleftrightarrow>
     (\<exists>r jt t q. map_of (rv_files s) (pid, Json) = Some jt \<and> co_json C jt = Some r \<and>
        map_of (rv_files s) (pid, Toml) = Some t \<and>
        load_str (co_engines C) (co_toml C) (pending_path s pid Toml) t = Inr q \<and>
        ap_name a = parser_name q \<and> is_parser_name (ap_name a) \<and>
        rv_parsers s1 = AList.update (ap_name a) t (rv_parsers s) \<and> gone pid s s1 \<and>
        map_of (rv_approved s1) (Stamped pid stamp Json) = Some jt \<and>
        (if is_update r (ap_name a)
         then (\<forall>cur. map_of (rv_parsers s) (ap_name a) = Some cur \<longrightarrow>
                 map_of (rv_approved s1) (Version (ap_name a) (toml_version C cur)) = Some cur)
         else ap_name a \<notin> set active \<and> map_of (rv_parsers s) (ap_name a) = None))"

lemma install_approved:
  assumes quiet: "rv_faults s = []"
    and found: "map_of (rv_files s) (pid, Json) = Some jt" "co_json C jt = Some r" "map_of (rv_files s) (pid, Toml) = Some t"
      "load_str (co_engines C) (co_toml C) (pending_path s pid Toml) t = Inr q" "is_parser_name (parser_name q)"
    and free: "\<not> is_update r (parser_name q) \<Longrightarrow> parser_name q \<notin> set active \<and> map_of (rv_parsers s) (parser_name q) = None"
    and kept: "\<And>cur. map_of (rv_parsers s) (parser_name q) = Some cur \<Longrightarrow>
      ap (Version (parser_name q) (toml_version C cur)) = Some cur" "map_of al = ap"
  shows "\<exists>a s1. install_parser pid stamp (parser_name q) t r replaced (s\<lparr>rv_approved := al\<rparr>) = (Inr a, s1) \<and>
    approved_as C pid stamp active s a s1"
proof -
  from install_quiet [of "s\<lparr>rv_approved := al\<rparr>" pid jt stamp "parser_name q" t r replaced] quiet found(1) obtain s1 where
    "install_parser pid stamp (parser_name q) t r replaced (s\<lparr>rv_approved := al\<rparr>) =
      (Inr \<lparr>ap_name = parser_name q, ap_source = rc_source r, ap_replaced_version = replaced\<rparr>, s1)"
    "rv_parsers s1 = AList.update (parser_name q) t (rv_parsers s)" "gone pid s s1"
    "map_of (rv_approved s1) (Stamped pid stamp Json) = Some jt" "\<And>n v. map_of (rv_approved s1) (Version n v) = ap (Version n v)"
    using kept(2) by (auto simp: gone_def)
  then show ?thesis using found free kept(1) by (auto simp: approved_as_def)
qed

lemma approve_quiet:
  assumes quiet: "rv_faults s = []"
  shows "(\<exists>e. approve C pid stamp active s = (Inl e, s)) \<or>
    (\<exists>a s1. approve C pid stamp active s = (Inr a, s1) \<and> approved_as C pid stamp active s a s1)"
proof -
  obtain x where rec: "read_record C pid s = (x, s)" and
    rj: "\<And>r. x = Inr r \<Longrightarrow> \<exists>jt. map_of (rv_files s) (pid, Json) = Some jt \<and> co_json C jt = Some r"
    using record_of_quiet [OF quiet] by (metis surj_pair)
  have rd: "read_file pid Toml s = (map_of (rv_files s) (pid, Toml), s)" using quiet by (simp add: read_file_def no_fault)
  note def = approve_def rec rd Let_def
  show ?thesis
  proof (cases "(\<exists>e. x = Inl e) \<or> map_of (rv_files s) (pid, Toml) = None")
    case True
    then show ?thesis by (cases x) (auto simp: def)
  next
    case False
    then obtain r t where r: "x = Inr r" and t: "map_of (rv_files s) (pid, Toml) = Some t" by (cases x) auto
    from rj [OF r] obtain jt where j: "map_of (rv_files s) (pid, Json) = Some jt" "co_json C jt = Some r" by blast
    show ?thesis
    proof (cases "load_str (co_engines C) (co_toml C) (pending_path s pid Toml) t")
      case (Inl e)
      then show ?thesis by (simp add: def r t)
    next
      case (Inr q)
      let ?n = "parser_name q"
      have rp: "read_parser ?n s = (map_of (rv_parsers s) ?n, s)" using quiet by (simp add: read_parser_def no_fault)
      note ins = install_approved [OF quiet j t Inr]
      show ?thesis
      proof (cases "is_parser_name ?n \<and> (is_update r ?n \<or> ?n \<notin> set active \<and> map_of (rv_parsers s) ?n = None)")
        case False
        then show ?thesis by (auto simp: def r t Inr)
      next
        case ok: True
        show ?thesis
        proof (cases "map_of (rv_parsers s) ?n")
          case None
          from ins [where ap = "map_of (rv_approved s)" and al = "rv_approved s" and replaced = None and active = active and stamp = stamp] ok None show ?thesis by (auto simp: def r t Inr rp)
        next
          case (Some cur)
          let ?al = "AList.update (Version ?n (toml_version C cur)) cur (rv_approved s)"
          have "atomic_write_approved (Version ?n (toml_version C cur)) cur s = (True, s\<lparr>rv_approved := ?al\<rparr>)"
            using quiet by (simp add: atomic_write_approved_def no_fault)
          with ins [where ap = "map_of ?al" and al = ?al and replaced = "Some (toml_version C cur)" and active = active and stamp = stamp] ok Some show ?thesis
            by (auto simp: def r t Inr rp map_of_update)
        qed
      qed
    qed
  qed
qed

fun is_approval :: "review_call \<Rightarrow> bool" where
  "is_approval (CApprove pid stamp names) = True"
| "is_approval _ = False"

text \<open>
  C35. With no fault an approval either reports an error and changes nothing, or installs exactly the pending
  text, which loads, under its parser's name, which is safe as a file name; the name was free, or the
  proposal is an update of it, whose replaced text is kept under \<open>approved\<close>; the record moves there too and
  nothing of the proposal stays pending. No other call changes a parser, whatever fails.
\<close>

theorem approve_installs:
  assumes "rv_faults s = []" "\<not> is_approval c"
  shows "((\<exists>e. approve C pid stamp active s = (Inl e, s)) \<or>
      (\<exists>a s1. approve C pid stamp active s = (Inr a, s1) \<and> approved_as C pid stamp active s a s1)) \<and>
    rv_parsers (run_call C mrg c s2) = rv_parsers s2"
proof (rule conjI [OF approve_quiet [OF assms(1)]])
  show "rv_parsers (run_call C mrg c s2) = rv_parsers s2"
    using assms(2) put_text_leaves [of s2] write_proposal_leaves [of s2] regenerate_leaves [of s2]
    by (cases c) (simp_all add: undisturbed_def reject_parsers open_pending_def split: prod.split)
qed

text \<open>
  When the record cannot be moved the parser's file is removed; for an update that is the active parser
  itself, which the approval has just replaced, so the parsers lose it.
\<close>

lemma failed_approval_drops_parser:
  assumes "rv_faults s = [False, True]"
  shows "map_of (rv_parsers (snd (install_parser pid stamp name t r replaced s))) name = None \<and>
    (\<exists>e. fst (install_parser pid stamp name t r replaced s) = Inl e)"
  using assms by (auto simp: install_parser_def atomic_write_parser_def rename_approved_def remove_parser_def fault_def
      map_of_delete split: option.splits)

subsection \<open>What a human wrote stays\<close>

text \<open>The proposal is marked edited and its definition is the text.\<close>

definition human_text :: "codecs \<Rightarrow> bytes \<Rightarrow> bytes \<Rightarrow> review \<Rightarrow> bool" where
  "human_text C pid t s \<longleftrightarrow>
     is_slug pid \<and> map_of (rv_files s) (pid, Toml) = Some t \<and>
     (\<exists>jt r. map_of (rv_files s) (pid, Json) = Some jt \<and> co_json C jt = Some r \<and> rc_edited r)"

text \<open>Every record names its own file.\<close>

definition own_ids :: "codecs \<Rightarrow> review \<Rightarrow> bool" where
  "own_ids C s \<longleftrightarrow> (\<forall>pid jt r. map_of (rv_files s) (pid, Json) = Some jt \<longrightarrow> co_json C jt = Some r \<longrightarrow> rc_id r = pid)"

lemma record_of_slug: "read_record C pid s = (Inr r, s1) \<Longrightarrow> is_slug pid"
  by (simp add: read_record_def split: if_splits)

lemma put_text_marks:
  assumes put: "put_text C pid t s = (Inr problems, s1)" and ids: "own_ids C s"
    and codec: "\<And>r x. co_to_json C r = Some x \<Longrightarrow> co_json C x = Some r"
  shows "human_text C pid t s1"
proof -
  obtain x s2 where rec: "read_record C pid s = (x, s2)" by fastforce
  with put obtain r where r: "x = Inr r" by (cases x) (auto simp: put_text_def)
  obtain ok s3 where w: "atomic_write pid Toml t s2 = (ok, s3)" by fastforce
  with put rec r have ok: "ok" by (cases ok) (auto simp: put_text_def)
  obtain jt where j: "map_of (rv_files s) (pid, Json) = Some jt" "co_json C jt = Some r" using record_of_json rec r by blast
  have own: "rc_id r = pid" using ids j by (simp add: own_ids_def)
  have f3: "rv_files s3 = AList.update (pid, Toml) t (rv_files s)"
    using w ok core_fields(1) [OF record_of_core [OF rec]] by (auto simp: atomic_write_def fault_def split: list.splits if_splits)
  show ?thesis
  proof (cases "rc_edited r")
    case True
    then have "s1 = s3" using put by (simp add: put_text_def rec r w ok)
    then show ?thesis using f3 j True record_of_slug rec r by (auto simp: human_text_def map_of_update)
  next
    case False
    obtain e s4 where sv: "save_record C (r\<lparr>rc_edited := True\<rparr>) s3 = (e, s4)" by fastforce
    with put False have e: "e = None" "s1 = s4" by (auto simp: put_text_def rec r w ok split: option.splits)
    then obtain y where y: "co_to_json C (r\<lparr>rc_edited := True\<rparr>) = Some y" "rv_files s4 = AList.update (pid, Json) y (rv_files s3)"
      using sv own by (auto simp: save_record_def atomic_write_def fault_def split: option.splits list.splits if_splits prod.splits)
    then show ?thesis using codec [OF y(1)] f3 e record_of_slug rec r by (auto simp: human_text_def map_of_update)
  qed
qed

lemma atomic_write_quiet:
  "rv_faults s = [] \<Longrightarrow> atomic_write pid p t s = (True, s\<lparr>rv_files := AList.update (pid, p) t (rv_files s)\<rparr>)"
  by (simp add: atomic_write_def no_fault)

lemma save_record_quiet:
  "rv_faults s = [] \<Longrightarrow> save_record C r s =
     (case co_to_json C r of
        None \<Rightarrow> (Some (IoErr None), s)
      | Some t \<Rightarrow> (None, s\<lparr>rv_files := AList.update (rc_id r, Json) t (rv_files s)\<rparr>))"
  by (simp add: save_record_def atomic_write_quiet split: option.split)

text \<open>A write touches only the files of its own id, and none of them when they are a human's and can be read.\<close>

lemma atomic_write_other: "atomic_write pid p t s = (ok, s1) \<Longrightarrow> fst k \<noteq> pid \<Longrightarrow> map_of (rv_files s1) k = map_of (rv_files s) k"
  by (auto simp: atomic_write_def fault_def map_of_update split: list.splits if_splits)

lemma save_record_other: "save_record C r s = (e, s1) \<Longrightarrow> fst k \<noteq> rc_id r \<Longrightarrow> map_of (rv_files s1) k = map_of (rv_files s) k"
  by (auto simp: save_record_def split: option.splits prod.splits dest: atomic_write_other)

lemma write_own_files:
  assumes "write_proposal C now p ls s = (x, s1)" "fst k \<noteq> id_for (pp_source p)"
  shows "map_of (rv_files s1) k = map_of (rv_files s) k"
proof (cases "read_record C (id_for (pp_source p)) s")
  case (Pair y s2)
  have same: "map_of (rv_files s2) k = map_of (rv_files s) k" using core_fields(1) [OF record_of_core [OF Pair]] by simp
  have save: "map_of (rv_files u2) k = map_of (rv_files u) k" if "save_record C r u = (e, u2)" "rc_id r = id_for (pp_source p)" for r u e u2
    using save_record_other [OF that(1)] that(2) assms(2) by simp
  show ?thesis using assms(1) same
    by (auto simp: write_proposal_def Let_def Pair split: if_splits option.splits prod.splits bool.splits
        dest!: atomic_write_other [OF _ assms(2)] dest: save)
qed

text \<open>The first file operation of a write reads the record.\<close>

definition record_reads :: "bool list \<Rightarrow> bool" where
  "record_reads fs \<longleftrightarrow> fs = [] \<or> \<not> hd fs"

lemma write_spares_human:
  assumes "human_text C pid t s" "write_proposal C now p ls s = (x, s1)" "id_for (pp_source p) = pid \<Longrightarrow> record_reads (rv_faults s)"
  shows "human_text C pid t s1 \<and>
    (id_for (pp_source p) = pid \<longrightarrow> rv_files s1 = rv_files s \<and> x \<in> {Inr SkippedEdited, Inr SkippedRejected, Inr SkippedEmpty})"
proof (cases "id_for (pp_source p) = pid")
  case True
  from assms(1) obtain jt r where j: "is_slug pid" "map_of (rv_files s) (pid, Json) = Some jt" "co_json C jt = Some r" "rc_edited r"
    by (auto simp: human_text_def)
  obtain s2 where f: "fault s = (False, s2)" "rv_files s2 = rv_files s"
    using assms(3) [OF True] by (cases "rv_faults s") (auto simp: fault_def record_reads_def)
  then have "read_record C pid s = (Inr r, s2)" using j by (simp add: read_record_def read_file_def)
  then have "rv_files s1 = rv_files s \<and> x \<in> {Inr SkippedEdited, Inr SkippedRejected, Inr SkippedEmpty}"
    using assms(2) j f True by (auto simp: write_proposal_def Let_def split: if_splits)
  then show ?thesis using assms(1) by (simp add: human_text_def)
next
  case False
  then have "map_of (rv_files s1) (pid, p) = map_of (rv_files s) (pid, p)" for p using write_own_files [OF assms(2)] by auto
  then show ?thesis using assms(1) False by (simp add: human_text_def)
qed

text \<open>Proposals written one after the other, each with the faults it meets.\<close>

definition write_all :: "codecs \<Rightarrow> (nat \<times> proposal \<times> bytes list \<times> bool list) list \<Rightarrow> review \<Rightarrow> review" where
  "write_all C todo s = fold (\<lambda>(now, p, ls, fs) s. snd (write_proposal C now p ls (s\<lparr>rv_faults := fs\<rparr>))) todo s"

text \<open>Every operation keeps the records in their own files, so a directory that was empty once has them there.\<close>

lemma own_ids_files: "own_ids C s \<Longrightarrow> (\<And>pid. map_of (rv_files s1) (pid, Json) \<in> {None, map_of (rv_files s) (pid, Json)}) \<Longrightarrow> own_ids C s1"
  unfolding own_ids_def by (metis empty_iff insert_iff option.distinct(1))

lemma own_ids_write: "atomic_write pid p t s = (ok, s1) \<Longrightarrow> p \<noteq> Json \<Longrightarrow> own_ids C s \<Longrightarrow> own_ids C s1"
  by (rule own_ids_files [of C s]) (auto simp: atomic_write_def fault_def map_of_update split: list.splits if_splits)

lemma own_ids_save:
  assumes codec: "\<And>r x. co_to_json C r = Some x \<Longrightarrow> co_json C x = Some r"
    and "save_record C r s = (e, s1)" "own_ids C s"
  shows "own_ids C s1"
  using assms(2,3) codec
  by (auto simp: save_record_def atomic_write_def fault_def own_ids_def map_of_update split: option.splits prod.splits list.splits if_splits)

lemma own_ids_core: "core s1 = core s \<Longrightarrow> own_ids C s \<Longrightarrow> own_ids C s1"
  by (drule core_fields(1)) (simp add: own_ids_def)

lemma own_ids_kept:
  assumes codec: "\<And>r x. co_to_json C r = Some x \<Longrightarrow> co_json C x = Some r" and own: "own_ids C s"
  shows "own_ids C (snd (put_text C pid t s))" "own_ids C (snd (write_proposal C now p ls s))"
proof -
  have rec: "own_ids C s1" if "read_record C k s = (x, s1)" for k x s1 using own_ids_core [OF record_of_core [OF that] own] .
  show "own_ids C (snd (put_text C pid t s))"
    by (auto simp: put_text_def split: prod.splits sum.splits bool.splits option.splits
        dest!: rec own_ids_write [of _ Toml] intro: own_ids_save [OF codec])
  show "own_ids C (snd (write_proposal C now p ls s))"
    by (auto simp: write_proposal_def Let_def own split: prod.splits sum.splits bool.splits option.splits
        dest!: rec own_ids_write [of _ Toml] own_ids_write [of _ Lines] intro: own_ids_save [OF codec])
qed

text \<open>
  C36. A text a human has saved survives the engine. In a directory whose records stand in the files their ids name
  (\<open>own_ids\<close>; \<open>own_ids_kept\<close>), with a codec that reads back the records it writes:
  once the text is saved, then however many proposals are written for this source or others, and whatever operations
  of these writes fail, the definition stays the saved text and the proposal stays marked as edited, as long as no
  write for this source fails to read its record. (One that does replaces the text: \<open>unreadable_record_is_replaced\<close>.)
\<close>

theorem human_edits_survive:
  assumes "put_text C pid t s = (Inr problems, s1)" "own_ids C s"
    and "\<And>r x. co_to_json C r = Some x \<Longrightarrow> co_json C x = Some r"
    and "\<forall>(now, p, ls, fs) \<in> set todo. id_for (pp_source p) = pid \<longrightarrow> record_reads fs"
  shows "human_text C pid t (write_all C todo s1)"
proof -
  have "human_text C pid t (write_all C todo s2)" if "human_text C pid t s2" for s2
    using that assms(4)
  proof (induction todo arbitrary: s2)
    case Nil
    then show ?case by (simp add: write_all_def)
  next
    case (Cons w todo)
    obtain now p ls fs where w: "w = (now, p, ls, fs)" by (cases w)
    obtain x s3 where x: "write_proposal C now p ls (s2\<lparr>rv_faults := fs\<rparr>) = (x, s3)" by fastforce
    have "human_text C pid t (s2\<lparr>rv_faults := fs\<rparr>)" using Cons.prems(1) by (simp add: human_text_def)
    from write_spares_human [OF this x] Cons.prems(2) have "human_text C pid t s3" by (simp add: w)
    from Cons.IH [OF this] Cons.prems(2) show ?case by (simp add: write_all_def w x)
  qed
  then show ?thesis using put_text_marks [OF assms(1-3)] by blast
qed

text \<open>A record that cannot be read is taken for none, and then a human's text is replaced.\<close>

lemma unreadable_record_is_replaced:
  assumes "rv_faults s = [True]" "ev_templates (pp_evidence p) \<noteq> []" "sd_kind (pd_strategy (pp_definition p)) \<noteq> SPattern"
    "rejected_key (pp_source p) (ev_fingerprint (pp_evidence p)) \<notin> rv_keys s" "is_slug (id_for (pp_source p))"
    "co_to_toml C (pp_definition p) = Some t" "\<And>r. co_to_json C r \<noteq> None"
  shows "fst (write_proposal C now p ls s) = Inr Written \<and>
    map_of (rv_files (snd (write_proposal C now p ls s))) (id_for (pp_source p), Toml) = Some t"
proof -
  let ?s = "s\<lparr>rv_faults := []\<rparr>"
  have rec: "read_record C (id_for (pp_source p)) s = (Inl (NotFound (id_for (pp_source p))), ?s)"
    using assms(1,5) by (simp add: read_record_def read_file_def fault_def)
  obtain x where x: "co_to_json C \<lparr>rc_id = id_for (pp_source p), rc_source = pp_source p, rc_created = now, rc_edited = False,
      rc_evidence = pp_evidence p, rc_updates = pp_updates p\<rparr> = Some x" using assms(7) by blast
  show ?thesis using assms(2-4,6) by (simp add: write_proposal_def Let_def rec atomic_write_quiet save_record_quiet x map_of_update)
qed

subsection \<open>A small directory\<close>

text \<open>One proposal for \<open>asa.log\<close>, whose record is written as one letter, and a definition that loads.\<close>

definition asa_record :: pending_record where
  "asa_record = \<lparr>rc_id = ''asa'', rc_source = ''asa.log'', rc_created = 0, rc_edited = False,
     rc_evidence = \<lparr>ev_fingerprint = ''f'', ev_syslog = False,
       ev_templates = [\<lparr>te_id = 0, te_pattern = ''p'', te_members = [], te_history = []\<rparr>],
       ev_decisions = [], ev_lines_seen = 1, ev_unmatched = 0\<rparr>, rc_updates = None\<rparr>"

definition asa_codecs :: codecs where
  "asa_codecs = \<lparr>co_engines = no_engines, co_toml = (\<lambda>_. Inr sample_def), co_to_toml = (\<lambda>_. Some ''new''),
     co_json = (\<lambda>t. if t = ''r'' then Some asa_record else if t = ''e'' then Some (asa_record\<lparr>rc_edited := True\<rparr>) else None),
     co_to_json = (\<lambda>r. if r = asa_record then Some ''r'' else if r = asa_record\<lparr>rc_edited := True\<rparr> then Some ''e'' else None)\<rparr>"

definition asa_review :: review where
  "asa_review = \<lparr>rv_dir = ''pending'', rv_files = [((''asa'', Json), ''r''), ((''asa'', Toml), ''old'')], rv_approved = [],
     rv_rejected = [], rv_parsers = [], rv_keys = {}, rv_faults = []\<rparr>"

definition asa_proposal :: proposal where
  "asa_proposal = \<lparr>pp_source = ''asa.log'', pp_definition = sample_def, pp_evidence = rc_evidence asa_record, pp_updates = None\<rparr>"

lemma asa_found: "read_record asa_codecs ''asa'' asa_review = (Inr asa_record, asa_review)"
  by (simp add: read_record_def read_file_def fault_def is_slug_def is_ascii_alphanumeric_def is_ascii_alphabetic_def
      is_ascii_lower_def asa_review_def asa_codecs_def)

text \<open>A restart that cannot read the rejected record, one that can, and the proposal is refused.\<close>

lemma rejected_stays_rejected_witness:
  "\<exists>path s1. reject_proposal asa_codecs ''asa'' 7 asa_review = (Inr path, s1) \<and>
     (let s2 = run_calls asa_codecs (\<lambda>_ _. None) [(COpen, [True]), (COpen, [])] s1
      in write_proposal asa_codecs 9 asa_proposal [] s2 = (Inr SkippedRejected, s2))"
proof -
  have m: "map_of (rv_rejected asa_review) (Stamped ''asa'' 7 Json) = None" by (simp add: asa_review_def)
  obtain path s1 where r: "reject_proposal asa_codecs ''asa'' 7 asa_review = (Inr path, s1)"
  proof -
    have "\<not> isl (fst (reject_proposal asa_codecs ''asa'' 7 asa_review))"
      by (simp add: reject_proposal_def asa_found rename_rejected_def fault_def Let_def) (simp add: asa_review_def Let_def)
    then show thesis using that by (cases "reject_proposal asa_codecs ''asa'' 7 asa_review"; cases "fst (reject_proposal asa_codecs ''asa'' 7 asa_review)") auto
  qed
  let ?cs = "[(COpen, [True]), (COpen, [])]"
  have k: "clock_moves asa_codecs (\<lambda>_ _. None) ?cs s1" "last_restart_reads True ?cs" by (simp_all add: fresh_stamp_def)
  define s2 where "s2 = run_calls asa_codecs (\<lambda>_ _. None) ?cs s1"
  have p: "pp_source asa_proposal = rc_source asa_record" "ev_fingerprint (pp_evidence asa_proposal) = ev_fingerprint (rc_evidence asa_record)"
    by (simp_all add: asa_proposal_def asa_record_def)
  from rejected_stays_rejected [OF r m asa_found k(1) p, of 9 "[]"] k(2)
  have "write_proposal asa_codecs 9 asa_proposal [] s2 = (Inr SkippedRejected, s2) \<or>
      write_proposal asa_codecs 9 asa_proposal [] s2 = (Inr SkippedEmpty, s2)"
    unfolding Let_def s2_def by blast
  moreover have "fst (write_proposal asa_codecs 9 asa_proposal [] s2) \<noteq> Inr SkippedEmpty"
    by (auto simp: write_proposal_def Let_def asa_proposal_def asa_record_def sample_def_def plain_strategy_def
        split: prod.split option.split sum.split bool.split)
  ultimately show ?thesis using r unfolding s2_def by (auto simp: Let_def)
qed

lemma approve_installs_witness:
  "\<exists>a s1. approve asa_codecs ''asa'' 7 [] asa_review = (Inr a, s1) \<and> approved_as asa_codecs ''asa'' 7 [] asa_review a s1 \<and>
     rv_parsers (run_call asa_codecs (\<lambda>_ _. None) COpen asa_review) = []"
proof -
  have q: "rv_faults asa_review = []" by (simp add: asa_review_def)
  note t = approve_installs [OF q, of COpen asa_codecs "''asa''" 7 "[]" "\<lambda>_ _. None" asa_review]
  have n: "parser_name sample_parser = ''sample''" by code_simp
  have "\<not> isl (fst (approve asa_codecs ''asa'' 7 [] asa_review))"
    by (simp add: approve_def asa_found read_file_def fault_def q)
      (simp add: asa_review_def asa_codecs_def load_str_def sample_compiles n Let_def is_parser_name_def is_update_def
        is_ascii_alphanumeric_def is_ascii_alphabetic_def is_ascii_lower_def asa_record_def
        install_parser_def atomic_write_parser_def rename_approved_def fault_def)
  then show ?thesis using t by (auto simp: asa_review_def)
qed

text \<open>A write for another source whose own record cannot be read, and one for this source that cannot write.\<close>

lemma human_edits_survive_witness:
  "human_text asa_codecs ''asa'' ''mine''
     (write_all asa_codecs [(9, asa_proposal\<lparr>pp_source := ''b''\<rparr>, [], [True]), (9, asa_proposal, [], [False, True])]
       (snd (put_text asa_codecs ''asa'' ''mine'' asa_review)))"
proof -
  have q: "rv_faults asa_review = []" by (simp add: asa_review_def)
  have p: "put_text asa_codecs ''asa'' ''mine'' asa_review =
      (Inr (problems_of asa_codecs (pending_path asa_review ''asa'' Toml) ''mine''), snd (put_text asa_codecs ''asa'' ''mine'' asa_review))"
    by (simp add: put_text_def asa_found atomic_write_quiet q save_record_quiet pending_path_def)
      (simp add: asa_codecs_def asa_record_def asa_review_def problems_of_def pending_path_def)
  have b: "id_for ''b'' \<noteq> ''asa''" by code_simp
  show ?thesis
    by (rule human_edits_survive [OF p])
      (auto simp: own_ids_def asa_review_def asa_codecs_def asa_record_def record_reads_def b split: if_splits)
qed

end
