(* ===== verification/Ulpf_Infer.thy ===== *)
theory Ulpf_Infer
  imports Ulpf_Shape Ulpf_Pending
begin

text \<open>
  Parser inference, \<open>src/crates/ulpf-infer/src/lib.rs\<close>: the unknown lines of a source are stripped of their
  envelope, clustered, split on keywords, merged and shaped into templates, which are compiled and run over
  the lines again. Arithmetic on floating point numbers is a record of parameters. The log of decisions is
  text for a reviewer and left out; the history of a template is kept.
\<close>

subsection \<open>Lines\<close>

record 'f arith =
  ar_ratio :: "nat \<Rightarrow> nat \<Rightarrow> 'f"
  ar_one :: 'f
  ar_need :: "nat \<Rightarrow> nat"
  ar_parses :: "nat \<Rightarrow> nat \<Rightarrow> bool"

text \<open>
  \<open>ar_ratio k n\<close> is \<open>2.0 * k / n\<close>, \<open>ar_one\<close> is \<open>1.0\<close>, \<open>ar_need n\<close> is \<open>(n * 0.98).ceil()\<close> and
  \<open>ar_parses k n\<close> is \<open>k / n >= 0.9\<close>.
\<close>

record slot_evidence =
  se_name :: bytes
  se_kind :: bytes
  se_suggested :: bool
  se_reason :: bytes
  se_preceded :: bytes
  se_distinct :: nat
  se_examples :: "bytes list"

record candidate =
  ca_template :: "token list"
  ca_members :: "nat list"
  ca_history :: "bytes list"
  ca_slots :: "slot_evidence list"

definition max_tokens :: nat where
  "max_tokens = 2048"

definition stripped :: "engines \<Rightarrow> bytes \<Rightarrow> bool \<times> bytes \<times> bytes" where
  "stripped E line =
     (let b = trim_line_end line in
      case strip_syslog (bsd_timestamp (en_regex E)) b parsed_default of
        (msg, q) \<Rightarrow> (pa_get ''syslog_timestamp'' q \<noteq> None \<or> pa_get ''syslog_pri'' q \<noteq> None, msg, b))"

definition header_example :: "bool \<times> bytes \<times> bytes \<Rightarrow> bytes option" where
  "header_example x =
     (case x of (headed, msg, b) \<Rightarrow>
        if headed \<and> length msg < length b then Some (str_trim (utf8_lossy (take (length b - length msg) b))) else None)"

text \<open>Whether a fifth of the lines carries a header, an example of one, and what is clustered.\<close>

definition bodies :: "engines \<Rightarrow> bytes list \<Rightarrow> bool \<times> bytes option \<times> bytes list" where
  "bodies E ls =
     (let parts = map (stripped E) ls;
          headed = length (filter fst parts);
          syslog = (headed * 5 \<ge> max 1 (length (filter (\<lambda>l. trim_line_end l \<noteq> []) ls)));
          examples = List.map_filter header_example parts
      in (syslog, if syslog \<and> examples \<noteq> [] then Some (hd examples) else None,
          map (\<lambda>(_, msg, b). if syslog then msg else b) parts))"

definition token_words :: "tok list \<Rightarrow> bytes list" where
  "token_words ts = map tk_text (filter (\<lambda>t. tk_kind t = TWord) ts)"

definition similarity :: "'f arith \<Rightarrow> bytes list \<Rightarrow> bytes list \<Rightarrow> 'f" where
  "similarity A a b =
     (if a = [] \<and> b = [] then ar_one A
      else ar_ratio A (length (lcs (length a) (length b) (\<lambda>i j. a ! i = b ! j))) (length a + length b))"

definition line_similarity :: "('f::linorder) arith \<Rightarrow> tok list \<Rightarrow> tok list \<Rightarrow> 'f" where
  "line_similarity A a b =
     (let wa = token_words a; wb = token_words b in
      if length wa \<ge> 2 \<and> length wb \<ge> 2 then max (similarity A wa wb) (similarity A (take 6 wa) (take 6 wb))
      else
        (let na = filter (\<lambda>t. tk_kind t \<noteq> TSpace) a; nb = filter (\<lambda>t. tk_kind t \<noteq> TSpace) b in
         if na = [] \<and> nb = [] then ar_one A
         else ar_ratio A
                (length (lcs (length na) (length nb)
                   (\<lambda>i j. same_shape (tk_kind (na ! i)) (tk_text (na ! i)) (tk_kind (nb ! j)) (tk_text (nb ! j)))))
                (length na + length nb)))"

subsection \<open>Clusters\<close>

record line_cluster =
  lc_seed :: nat
  lc_members :: "nat list"

definition best_cluster :: "('f::linorder) arith \<Rightarrow> 'f params \<Rightarrow> tok list list \<Rightarrow> tok list \<Rightarrow> line_cluster list \<Rightarrow> nat option" where
  "best_cluster A p toks t cs =
     map_option fst
       (fold (\<lambda>ci best.
           let sim = line_similarity A t (toks ! lc_seed (cs ! ci)) in
           if pm_similarity p \<le> sim \<and> (case best of None \<Rightarrow> True | Some (_, b) \<Rightarrow> b < sim) then Some (ci, sim) else best)
         [0..<length cs] None)"

definition assign_line :: "('f::linorder) arith \<Rightarrow> 'f params \<Rightarrow> tok list list \<Rightarrow> nat \<Rightarrow> line_cluster list \<Rightarrow> line_cluster list" where
  "assign_line A p toks i cs =
     (if toks ! i = [] then cs
      else case best_cluster A p toks (toks ! i) cs of
        Some ci \<Rightarrow> cs[ci := (cs ! ci)\<lparr>lc_members := lc_members (cs ! ci) @ [i]\<rparr>]
      | None \<Rightarrow> cs @ [\<lparr>lc_seed = i, lc_members = [i]\<rparr>])"

definition assign :: "('f::linorder) arith \<Rightarrow> 'f params \<Rightarrow> tok list list \<Rightarrow> line_cluster list" where
  "assign A p toks = fold (assign_line A p toks) [0..<length toks] []"

subsection \<open>Candidates\<close>

definition slot_evidence_of :: "col list \<Rightarrow> slot_row \<Rightarrow> slot_evidence" where
  "slot_evidence_of cols s =
     (let d = distinct_values (cols ! sl_col s)
      in \<lparr>se_name = sl_name s, se_kind = kind_name (sl_kind s), se_suggested = sl_suggested s, se_reason = sl_reason s,
          se_preceded = sl_preceded s, se_distinct = length d, se_examples = map (\<lambda>(v, _). utf8_lossy v) (take 3 d)\<rparr>)"

text \<open>The columns before a split, and a leaf.\<close>

definition split_columns :: "'f params \<Rightarrow> tok list list \<Rightarrow> col list" where
  "split_columns p tss =
     fst (collapse_variable_word_runs (fst (presence_rules (consensus tss) (length tss) (rare_count (length tss) p))) (length tss))"

definition leaf :: "'f params \<Rightarrow> tok list list \<Rightarrow> header list \<Rightarrow> nat list \<Rightarrow> bytes list \<Rightarrow> candidate" where
  "leaf p toks hs members history =
     (let tss = map ((!) toks) members; rare = rare_count (length members) p; cols = leaf_columns tss rare
      in case shape cols rare (header_for tss hs) of
           (ts, rows) \<Rightarrow> \<lparr>ca_template = ts, ca_members = members, ca_history = history, ca_slots = map (slot_evidence_of cols) rows\<rparr>)"

text \<open>The first argument is the number of splits left, four less the depth.\<close>

fun candidates_for :: "nat \<Rightarrow> 'f params \<Rightarrow> tok list list \<Rightarrow> header list \<Rightarrow> nat list \<Rightarrow> bytes list \<Rightarrow> candidate list" where
  "candidates_for 0 p toks hs members history = [leaf p toks hs members history]"
| "candidates_for (Suc k) p toks hs members history =
     (case enum_split (split_columns p (map ((!) toks) members)) (pm_enum_max p) of
        None \<Rightarrow> [leaf p toks hs members history]
      | Some (_, groups) \<Rightarrow>
          concat (map (\<lambda>(v, g).
            candidates_for k p toks hs (map ((!) members) g)
              (history @ [''split on `'' @ utf8_lossy v @ ''` ('' @ dec (length g) @ '' lines)''])) groups))"

text \<open>The text of a template with every slot as a pair of braces, split on spaces.\<close>

fun shape_text :: "token list \<Rightarrow> bytes" where
  "shape_text [] = []"
| "shape_text (Const s # ts) = s @ shape_text ts"
| "shape_text (Slot _ _ # ts) = [CHR 0x7B, CHR 0x7D] @ shape_text ts"
| "shape_text (Optional inner # ts) = shape_text inner @ shape_text ts"

definition shape_words :: "token list \<Rightarrow> bytes list" where
  "shape_words ts = split_on (CHR '' '') (shape_text ts)"

fun without_slots :: "bytes \<Rightarrow> bytes" where
  "without_slots (a # b # s) =
     (if a = CHR 0x7B \<and> b = CHR 0x7D then without_slots s else a # without_slots (b # s))"
| "without_slots s = s"

fun count_slots :: "bytes \<Rightarrow> nat" where
  "count_slots (a # b # s) = (if a = CHR 0x7B \<and> b = CHR 0x7D then 1 + count_slots s else count_slots (b # s))"
| "count_slots s = 0"

definition mergeable :: "token list \<Rightarrow> token list \<Rightarrow> bytes option" where
  "mergeable s t =
     (let a = shape_words s; b = shape_words t; d = filter (\<lambda>k. a ! k \<noteq> b ! k) [0..<length a];
          consts = (\<lambda>w. filter is_ascii_alphanumeric (without_slots w))
      in if length a \<noteq> length b then None
         else case d of
           [] \<Rightarrow> Some ''identical pattern from another cluster''
         | [k] \<Rightarrow>
             if count_slots (a ! k) = count_slots (b ! k) \<and> \<not> keyword_like (consts (a ! k)) \<and> \<not> keyword_like (consts (b ! k))
             then Some ''pattern differing in one constant word from another cluster'' else None
         | _ \<Rightarrow> None)"

definition last_or_empty :: "bytes list \<Rightarrow> bytes" where
  "last_or_empty h = (if h = [] then [] else last h)"

definition merge_candidates :: "'f params \<Rightarrow> tok list list \<Rightarrow> header list \<Rightarrow> bytes \<Rightarrow> candidate \<Rightarrow> candidate \<Rightarrow> candidate" where
  "merge_candidates p toks hs note mine other =
     leaf p toks hs (sort (remdups (ca_members mine @ ca_members other)))
       (ca_history mine @ [''merged with a template built from `'' @ last_or_empty (ca_history other) @ ''`: '' @ note])"

function dedupe :: "'f params \<Rightarrow> tok list list \<Rightarrow> header list \<Rightarrow> nat \<Rightarrow> nat \<Rightarrow> candidate list \<Rightarrow> candidate list" where
  "dedupe p toks hs i j cs =
     (if i < length cs then
        if j < length cs then
          (case mergeable (ca_template (cs ! i)) (ca_template (cs ! j)) of
             None \<Rightarrow> dedupe p toks hs i (j + 1) cs
           | Some note \<Rightarrow>
               dedupe p toks hs i (i + 1) ((take j cs @ drop (j + 1) cs)[i := merge_candidates p toks hs note (cs ! i) (cs ! j)]))
        else dedupe p toks hs (i + 1) (i + 2) cs
      else cs)"
  by pat_completeness auto
termination
  by (relation "measures [\<lambda>(p, toks, hs, i, j, cs). length cs, \<lambda>(p, toks, hs, i, j, cs). length cs - i,
        \<lambda>(p, toks, hs, i, j, cs). length cs - j]") auto

declare dedupe.simps [simp del]

definition constant_chars :: "token list \<Rightarrow> nat" where
  "constant_chars ts = sum_list (map (\<lambda>t. case t of Const s \<Rightarrow> length (str_trim s) | _ \<Rightarrow> 0) ts)"

text \<open>More constant text first, then more members, else in the order found.\<close>

definition descending :: "('a \<Rightarrow> nat) \<Rightarrow> 'a list \<Rightarrow> 'a list" where
  "descending f xs = rev (sort_key f (rev xs))"

definition by_specificity :: "candidate list \<Rightarrow> candidate list" where
  "by_specificity cs = descending (\<lambda>c. constant_chars (ca_template c)) (descending (\<lambda>c. length (ca_members c)) cs)"

subsection \<open>The definition\<close>

definition candidate_def :: "bytes \<Rightarrow> parser_def" where
  "candidate_def pattern =
     \<lparr>pd_name = ''candidate'', pd_vendor = ''x'', pd_product = ''x'', pd_version = 1,
      pd_matcher = \<lparr>md_contains = [], md_starts_with = None, md_regex = Some ''.'', md_priority = 0\<rparr>, pd_syslog = False,
      pd_strategy = (plain_strategy SPattern)\<lparr>sd_pattern := Some pattern\<rparr>, pd_timestamp = [], pd_sub = []\<rparr>"

definition compile_candidate :: "engines \<Rightarrow> bytes \<Rightarrow> bytes + parser" where
  "compile_candidate E pattern = from_definition E (candidate_def pattern)"

definition epoch_start :: context_time where
  "epoch_start = \<lparr>ctx_receipt = 0, ctx_offset = 0\<rparr>"

definition parses :: "engines \<Rightarrow> parser \<Rightarrow> bytes \<Rightarrow> bool" where
  "parses E q event \<longleftrightarrow> fst (parse_event E q event epoch_start parsed_default) = None"

definition fnv :: "bytes list \<Rightarrow> 64 word" where
  "fnv parts =
     fold (\<lambda>b h. (Bit_Operations.xor h (of_nat (bv b))) * 0x100000001b3) (concat (map (\<lambda>p. p @ [nul]) parts)) 0xcbf29ce484222325"

definition fnv_text :: "bytes list \<Rightarrow> bytes" where
  "fnv_text parts = hex (rev (le_bytes 8 (unat (fnv parts))))"

definition signature_words :: "tok list \<Rightarrow> bytes list" where
  "signature_words ts =
     remdups (filter (\<lambda>w. length w \<ge> 3 \<and> list_ex is_ascii_alphabetic w)
       (concat (map (\<lambda>t. case tk_kind t of
            TWord \<Rightarrow> [tk_text t]
          | TQuoted \<Rightarrow> runs_by (\<lambda>b. \<not> (is_ascii_alphanumeric b \<or> b = CHR ''_'')) (tk_text t) []
          | _ \<Rightarrow> []) ts)))"

definition escape_text :: "engines \<Rightarrow> bytes \<Rightarrow> bytes" where
  "escape_text E s = concat (map (rx_escape (en_regex E)) s)"

text \<open>\<open>split_whitespace\<close>, without the empty pieces.\<close>

function space_words :: "bytes \<Rightarrow> bytes \<Rightarrow> bytes list" where
  "space_words s piece =
     (case find (\<lambda>w. w \<noteq> [] \<and> prefix w s) white_space of
        Some w \<Rightarrow> (if piece = [] then [] else [piece]) @ space_words (drop (length w) s) []
      | None \<Rightarrow> (case s of [] \<Rightarrow> (if piece = [] then [] else [piece]) | b # r \<Rightarrow> space_words r (piece @ [b])))"
  by pat_completeness auto
termination
  by (relation "measure (length \<circ> fst)") (auto simp: find_Some_iff dest: prefix_length_le intro: diff_less)

declare space_words.simps [simp del]

definition long_word :: "token \<Rightarrow> bytes option" where
  "long_word t = (case t of Const s \<Rightarrow> find (\<lambda>w. length w \<ge> 3) (space_words s []) | _ \<Rightarrow> None)"

definition signature_lead :: "token list \<Rightarrow> bytes" where
  "signature_lead ts =
     (let lead = (case ts of Const s # _ \<Rightarrow> str_trim s | _ \<Rightarrow> [])
      in if length lead \<ge> 3 then lead else (case List.map_filter long_word ts of w # _ \<Rightarrow> w | [] \<Rightarrow> []))"

definition first_occurrences :: "'a list \<Rightarrow> 'a list" where
  "first_occurrences xs = rev (remdups (rev xs))"

definition signature :: "engines \<Rightarrow> 'f arith \<Rightarrow> tok list list \<Rightarrow> token list list \<Rightarrow> matcher_def" where
  "signature E A toks templates =
     (let used = filter (\<lambda>ts. ts \<noteq> []) toks; seen = map signature_words used;
          freq = (\<lambda>w. length (filter (\<lambda>ws. w \<in> set ws) seen));
          common = filter (\<lambda>w. ar_need A (length used) \<le> freq w) (sort (remdups (concat seen)))
      in case last_max length common of
           Some w \<Rightarrow> \<lparr>md_contains = [utf8_lossy w], md_starts_with = None, md_regex = None, md_priority = - 1\<rparr>
         | None \<Rightarrow>
             (let alts = first_occurrences (filter (\<lambda>a. a \<noteq> []) (map signature_lead templates))
              in \<lparr>md_contains = [], md_starts_with = None,
                  md_regex = Some (if alts = [] then ''.'' else ''(?:'' @ join_with ''|'' (map (escape_text E) alts) @ '')''),
                  md_priority = - 1\<rparr>))"

text \<open>The description and the origin of a definition are text and not part of the record.\<close>

definition inferred_def :: "bytes \<Rightarrow> matcher_def \<Rightarrow> bool \<Rightarrow> strategy_def \<Rightarrow> bytes list \<Rightarrow> parser_def" where
  "inferred_def source m syslog st ts_fields =
     \<lparr>pd_name = slug source @ ''_inferred'', pd_vendor = ''unknown'', pd_product = source, pd_version = 1, pd_matcher = m,
      pd_syslog = syslog, pd_strategy = st,
      pd_timestamp = (if syslog then [] else map (\<lambda>f. \<lparr>tp_field = Some f, tp_fields = [], tp_format = ''auto''\<rparr>) ts_fields),
      pd_sub = []\<rparr>"

text \<open>What an inference returns. A line it could not use is noted with the reason, in order.\<close>

type_synonym line_notes = "(nat \<times> bytes) list"

record found = template_evidence +
  fo_support :: nat
  fo_verified :: nat
  fo_examples :: "bytes list"
  fo_slots :: "slot_evidence list"

record inferred =
  nf_source :: bytes
  nf_definition :: parser_def
  nf_seen :: nat
  nf_used :: nat
  nf_syslog :: bool
  nf_example :: "bytes option"
  nf_templates :: "found list"
  nf_unmatched :: nat
  nf_examples :: "bytes list"
  nf_by_reason :: "bytes \<Rightarrow> nat"
  nf_fingerprint :: bytes
  nf_updates :: "(update \<times> bytes) option"

definition by_reason :: "line_notes \<Rightarrow> bytes \<Rightarrow> nat" where
  "by_reason ns r = length (filter (\<lambda>(_, q). q = r) ns)"

definition report :: "bytes \<Rightarrow> parser_def \<Rightarrow> nat \<Rightarrow> bool \<Rightarrow> bytes option \<Rightarrow> bytes list \<Rightarrow> found list \<Rightarrow> line_notes \<Rightarrow> bytes \<Rightarrow> inferred" where
  "report source def seen syslog example bds templates ns fp =
     \<lparr>nf_source = source, nf_definition = def, nf_seen = seen, nf_used = seen - length ns, nf_syslog = syslog,
      nf_example = example, nf_templates = templates, nf_unmatched = length ns,
      nf_examples = map (\<lambda>(i, _). utf8_lossy (bds ! i)) (take 20 ns), nf_by_reason = by_reason ns,
      nf_fingerprint = fp, nf_updates = None\<rparr>"

subsection \<open>Delimited files\<close>

definition is_data :: "bytes \<Rightarrow> bool" where
  "is_data b \<longleftrightarrow> b \<noteq> [] \<and> hd b \<noteq> CHR ''#''"

definition header_fitting :: "bytes list \<Rightarrow> header list \<Rightarrow> 'f params \<Rightarrow> header option" where
  "header_fitting bds hs p =
     (case hs of
        [h] \<Rightarrow>
          (let data = filter is_data bds
           in if bv (hd_sep h) < 128 \<and> length data \<ge> pm_min_support p \<and>
                 list_all (\<lambda>b. seps b (hd_sep h) + 1 = length (hd_fields h)) data then Some h else None)
      | _ \<Rightarrow> None)"

definition ts_forms :: "bytes list" where
  "ts_forms =
     [''[0-9]{9,19}(?:'' @ bs @ ''.[0-9]+)?'',
      ''[0-9]{4}[-/][0-9]{2}[-/][0-9]{2}[T ][0-9]{2}:[0-9]{2}:[0-9]{2}(?:'' @ bs @ ''.[0-9]+)?(?:Z|[+-][0-9]{2}:?[0-9]{2})?'']"

definition rx_matches :: "engines \<Rightarrow> bytes \<Rightarrow> bytes \<Rightarrow> bool" where
  "rx_matches E re v \<longleftrightarrow> rx_captures (en_regex E) re v \<noteq> None"

definition ts_form :: "engines \<Rightarrow> bytes list \<Rightarrow> bytes" where
  "ts_form E vs =
     (case find (\<lambda>f. \<not> isl (rx_names (en_regex E) (''^(?:'' @ f @ '')$'')) \<and> list_all (rx_matches E (''^(?:'' @ f @ '')$'')) vs) ts_forms of
        Some f \<Rightarrow> f
      | None \<Rightarrow> kind_regex KTimestamp False)"

text \<open>The names of the columns; the unnamed column is never numbered.\<close>

fun column_names :: "bytes list \<Rightarrow> bytes list \<Rightarrow> bytes list" where
  "column_names used [] = []"
| "column_names used (f # fs) =
     (let name = (if f = [] then ''_'' else sanitize f); n = count_of name used + 1
      in (if name \<noteq> ''_'' \<and> n > 1 then name @ ''_'' @ dec n else name) # column_names (used @ [name]) fs)"

definition cell :: "bytes list \<Rightarrow> nat \<Rightarrow> bytes" where
  "cell r k = (if k < length r then r ! k else [])"

definition column_evidence :: "finder \<Rightarrow> bytes list list \<Rightarrow> nat \<Rightarrow> nat \<Rightarrow> bytes \<Rightarrow> bytes \<Rightarrow> slot_evidence" where
  "column_evidence rx rows rare k f name =
     (let c = column_of rx (map (\<lambda>r. cell r k) rows); d = distinct_values c
      in \<lparr>se_name = name, se_kind = kind_name (column_kind c rare), se_suggested = True,
          se_reason = ''header `'' @ f @ ''` (column '' @ dec (k + 1) @ (if name = f then [] else '', written `'' @ name @ ''`'') @ '')'',
          se_preceded = [], se_distinct = length d, se_examples = map (\<lambda>(v, _). utf8_lossy v) (take 3 d)\<rparr>)"

definition all_times :: "finder \<Rightarrow> bytes list list \<Rightarrow> nat \<Rightarrow> bool" where
  "all_times rx rows k \<longleftrightarrow> list_all (\<lambda>(_, t, _). t = TAtom KTimestamp) (cl_values (column_of rx (map (\<lambda>r. cell r k) rows)))"

definition row_regex :: "engines \<Rightarrow> finder \<Rightarrow> header \<Rightarrow> bytes list list \<Rightarrow> bytes" where
  "row_regex E rx h rows =
     (let n = length (hd_fields h); ts = find (all_times rx rows) [0..<n];
          sep = (if hd_sep h = CHR 0x09 then bs @ ''t'' else escape_text E [hd_sep h]);
          cells = map (\<lambda>k. if Some k = ts then ''(?:'' @ ts_form E (map (\<lambda>r. cell r k) rows) @ '')'' else ''[^'' @ sep @ '']*'') [0..<n]
      in ''^'' @ join_with sep cells @ ''['' @ bs @ ''r'' @ bs @ ''n]*$'')"

definition infer_delimited ::
  "engines \<Rightarrow> finder \<Rightarrow> 'f params \<Rightarrow> bytes \<Rightarrow> bytes list \<Rightarrow> bytes list \<Rightarrow> bool \<Rightarrow> bytes option \<Rightarrow> header \<Rightarrow> inferred" where
  "infer_delimited E rx p source ls bds syslog example h =
     (let n = length (hd_fields h);
          data = filter (\<lambda>i. is_data (bds ! i)) [0..<length bds];
          notes = map (\<lambda>i. (i, if bds ! i = [] then ''empty'' else ''header'')) (filter (\<lambda>i. \<not> is_data (bds ! i)) [0..<length bds]);
          rows = map (\<lambda>i. split_on (hd_sep h) (bds ! i)) data; rare = rare_count (length data) p;
          names = column_names [] (hd_fields h);
          slots = map (\<lambda>k. column_evidence rx rows rare k (hd_fields h ! k) (names ! k)) [0..<n];
          def = inferred_def source
                  \<lparr>md_contains = [], md_starts_with = None, md_regex = Some (row_regex E rx h rows), md_priority = - 1\<rparr> syslog
                  ((plain_strategy SDelimiter)\<lparr>sd_delimiter := Some (if hd_sep h = CHR 0x09 then ''tab'' else [hd_sep h]), sd_fields := names\<rparr>)
                  (map se_name (filter (\<lambda>s. se_kind s = ''timestamp'') slots));
          verified = (case from_definition E def of
                        Inl _ \<Rightarrow> 0
                      | Inr q \<Rightarrow> length (filter (\<lambda>i. parser_matches (en_regex E) q (ls ! i) \<and> parses E q (ls ! i)) data));
          header_line = (case find (\<lambda>b. prefix ''#fields'' b) bds of Some b \<Rightarrow> utf8_lossy b | None \<Rightarrow> [])
      in report source def (length ls) syslog example bds
           [\<lparr>te_id = 1, te_pattern = header_line, te_members = data,
             te_history = [''delimited: the `#fields` header names the '' @ dec n @ '' columns every data line has''],
             fo_support = length data, fo_verified = verified, fo_examples = map (\<lambda>i. utf8_lossy (bds ! i)) (take 3 data),
             fo_slots = slots\<rparr>]
           notes (fnv_text names))"

subsection \<open>Templates of a source\<close>

text \<open>The tokenizer always returns (\<open>tokenize_typed\<close>).\<close>

definition raw_tokens :: "finder \<Rightarrow> bytes \<Rightarrow> tok list" where
  "raw_tokens rx b = (case tokenize rx b of Some ts \<Rightarrow> ts | None \<Rightarrow> [])"

definition kept_tokens :: "finder \<Rightarrow> bytes \<Rightarrow> tok list" where
  "kept_tokens rx b = (let ts = raw_tokens rx b in if length ts > max_tokens then [] else ts)"

definition unread_notes :: "finder \<Rightarrow> bytes list \<Rightarrow> line_notes" where
  "unread_notes rx bds =
     map (\<lambda>i. (i, if length (raw_tokens rx (bds ! i)) > max_tokens then ''too_long'' else ''empty''))
       (filter (\<lambda>i. kept_tokens rx (bds ! i) = []) [0..<length bds])"

fun take_chars :: "nat \<Rightarrow> bytes \<Rightarrow> bytes" where
  "take_chars n [] = []"
| "take_chars n (b # s) =
     (if is_cont b then b # take_chars n s else case n of 0 \<Rightarrow> [] | Suc k \<Rightarrow> b # take_chars k s)"

definition cluster_label :: "bytes list \<Rightarrow> nat \<Rightarrow> line_cluster \<Rightarrow> bytes" where
  "cluster_label bds ci c =
     ''cluster '' @ dec (ci + 1) @ '' ('' @ dec (length (lc_members c)) @ '' lines, seed `'' @
     take_chars 40 (utf8_lossy (bds ! lc_seed c)) @ ''`)''"

definition cluster_notes :: "'f params \<Rightarrow> line_cluster list \<Rightarrow> line_notes" where
  "cluster_notes p cs =
     concat (map (\<lambda>c. map (\<lambda>m. (m, ''below_support'')) (lc_members c)) (filter (\<lambda>c. length (lc_members c) < pm_min_support p) cs))"

definition cluster_candidates :: "'f params \<Rightarrow> tok list list \<Rightarrow> header list \<Rightarrow> bytes list \<Rightarrow> line_cluster list \<Rightarrow> candidate list" where
  "cluster_candidates p toks hs bds cs =
     concat (map (\<lambda>(ci, c). candidates_for 4 p toks hs (lc_members c) [cluster_label bds ci c])
       (filter (\<lambda>(_, c). pm_min_support p \<le> length (lc_members c)) (enumerate 0 cs)))"

definition ordered_candidates :: "'f params \<Rightarrow> tok list list \<Rightarrow> header list \<Rightarrow> bytes list \<Rightarrow> line_cluster list \<Rightarrow> candidate list" where
  "ordered_candidates p toks hs bds cs = by_specificity (dedupe p toks hs 0 1 (cluster_candidates p toks hs bds cs))"

definition cap_notes :: "candidate list \<Rightarrow> line_notes" where
  "cap_notes cs = concat (map (\<lambda>c. map (\<lambda>m. (m, ''template_cap'')) (ca_members c)) cs)"

text \<open>The first template that parses a line takes it, as at run time.\<close>

definition takes :: "engines \<Rightarrow> 'f params \<Rightarrow> candidate \<Rightarrow> bytes \<Rightarrow> bool" where
  "takes E p c b \<longleftrightarrow>
     pm_min_support p \<le> length (ca_members c) \<and>
     (case compile_candidate E (to_pattern (ca_template c)) of Inr q \<Rightarrow> parses E q b | Inl _ \<Rightarrow> False)"

definition first_taker :: "engines \<Rightarrow> 'f params \<Rightarrow> candidate list \<Rightarrow> bytes \<Rightarrow> nat option" where
  "first_taker E p cs b = position (\<lambda>c. takes E p c b) cs"

definition is_compiled :: "engines \<Rightarrow> candidate \<Rightarrow> bool" where
  "is_compiled E c \<longleftrightarrow> \<not> isl (compile_candidate E (to_pattern (ca_template c)))"

definition found_of :: "engines \<Rightarrow> 'f params \<Rightarrow> bytes list \<Rightarrow> nat \<times> candidate \<Rightarrow> nat \<Rightarrow> found" where
  "found_of E p bds kc verified =
     (case kc of (k, c) \<Rightarrow>
        \<lparr>te_id = k + 1, te_pattern = to_pattern (ca_template c), te_members = ca_members c,
         te_history = ca_history c @
           (if \<not> is_compiled E c then [''not in the definition: the pattern does not compile (see decisions)'']
            else if verified = 0 \<and> pm_min_support p \<le> length (ca_members c)
            then [''not in the definition: every line it covers matched an earlier template'']
            else if length (ca_members c) < pm_min_support p
            then [''not in the definition: '' @ dec (length (ca_members c)) @ '' lines after a split is below min_support '' @
                  dec (pm_min_support p) @ '' (keep it in the review screen if it is a real message type)'']
            else []),
         fo_support = length (ca_members c), fo_verified = verified,
         fo_examples = map (\<lambda>m. utf8_lossy (bds ! m)) (take 3 (ca_members c)), fo_slots = ca_slots c\<rparr>)"

definition in_definition :: "engines \<Rightarrow> 'f params \<Rightarrow> found \<Rightarrow> bool" where
  "in_definition E p t \<longleftrightarrow>
     fo_verified t > 0 \<and> pm_min_support p \<le> fo_support t \<and> \<not> isl (compile_candidate E (te_pattern t))"

text \<open>The stages of an inference over the bodies of a source.\<close>

definition all_tokens :: "finder \<Rightarrow> bytes list \<Rightarrow> tok list list" where
  "all_tokens rx bds = map (kept_tokens rx) bds"

definition all_candidates :: "('f::linorder) arith \<Rightarrow> finder \<Rightarrow> 'f params \<Rightarrow> bytes list \<Rightarrow> header list \<Rightarrow> candidate list" where
  "all_candidates A rx p bds hs =
     ordered_candidates p (all_tokens rx bds) hs bds (assign A p (all_tokens rx bds))"

definition held_candidates :: "('f::linorder) arith \<Rightarrow> finder \<Rightarrow> 'f params \<Rightarrow> bytes list \<Rightarrow> header list \<Rightarrow> candidate list" where
  "held_candidates A rx p bds hs = take (pm_max_templates p) (all_candidates A rx p bds hs)"

definition early_notes :: "('f::linorder) arith \<Rightarrow> finder \<Rightarrow> 'f params \<Rightarrow> bytes list \<Rightarrow> header list \<Rightarrow> line_notes" where
  "early_notes A rx p bds hs =
     unread_notes rx bds @ cluster_notes p (assign A p (all_tokens rx bds)) @
     cap_notes (drop (pm_max_templates p) (all_candidates A rx p bds hs))"

definition tested_lines :: "('f::linorder) arith \<Rightarrow> finder \<Rightarrow> 'f params \<Rightarrow> bytes list \<Rightarrow> header list \<Rightarrow> nat list" where
  "tested_lines A rx p bds hs =
     filter (\<lambda>i. all_tokens rx bds ! i \<noteq> [] \<and> i \<notin> set (map fst (early_notes A rx p bds hs))) [0..<length bds]"

definition line_hits ::
  "engines \<Rightarrow> ('f::linorder) arith \<Rightarrow> finder \<Rightarrow> 'f params \<Rightarrow> bytes list \<Rightarrow> header list \<Rightarrow> (nat \<times> nat option) list" where
  "line_hits E A rx p bds hs =
     map (\<lambda>i. (i, first_taker E p (held_candidates A rx p bds hs) (bds ! i))) (tested_lines A rx p bds hs)"

definition pattern_notes ::
  "engines \<Rightarrow> ('f::linorder) arith \<Rightarrow> finder \<Rightarrow> 'f params \<Rightarrow> bytes list \<Rightarrow> header list \<Rightarrow> line_notes" where
  "pattern_notes E A rx p bds hs =
     early_notes A rx p bds hs @
     map (\<lambda>(i, _). (i, ''no_template'')) (filter (\<lambda>(_, k). k = None) (line_hits E A rx p bds hs))"

definition pattern_templates ::
  "engines \<Rightarrow> ('f::linorder) arith \<Rightarrow> finder \<Rightarrow> 'f params \<Rightarrow> bytes list \<Rightarrow> header list \<Rightarrow> found list" where
  "pattern_templates E A rx p bds hs =
     map (\<lambda>kc. found_of E p bds kc (length (filter (\<lambda>(_, k). k = Some (fst kc)) (line_hits E A rx p bds hs))))
       (enumerate 0 (held_candidates A rx p bds hs))"

definition pattern_def ::
  "engines \<Rightarrow> ('f::linorder) arith \<Rightarrow> finder \<Rightarrow> bytes \<Rightarrow> bytes list \<Rightarrow> bool \<Rightarrow> candidate list \<Rightarrow> found list \<Rightarrow> parser_def" where
  "pattern_def E A rx source bds syslog held inside =
     inferred_def source (signature E A (all_tokens rx bds) (map ca_template held)) syslog
       ((plain_strategy SPattern)\<lparr>sd_patterns := map te_pattern inside\<rparr>)
       (first_occurrences (map se_name (filter (\<lambda>s. se_kind s = ''timestamp'') (concat (map fo_slots inside)))))"

definition infer_patterns ::
  "engines \<Rightarrow> ('f::linorder) arith \<Rightarrow> finder \<Rightarrow> 'f params \<Rightarrow> bytes \<Rightarrow> nat \<Rightarrow> bytes list \<Rightarrow> bool \<Rightarrow> bytes option \<Rightarrow> header list \<Rightarrow> inferred"
where
  "infer_patterns E A rx p source seen bds syslog example hs =
     (let templates = pattern_templates E A rx p bds hs; inside = filter (in_definition E p) templates
      in report source (pattern_def E A rx source bds syslog (held_candidates A rx p bds hs) inside) seen syslog example bds
           templates (pattern_notes E A rx p bds hs) (fnv_text (map te_pattern inside)))"

definition infer :: "engines \<Rightarrow> ('f::linorder) arith \<Rightarrow> finder \<Rightarrow> 'f params \<Rightarrow> bytes \<Rightarrow> bytes list \<Rightarrow> inferred" where
  "infer E A rx p source ls =
     (case bodies E ls of (syslog, example, bds) \<Rightarrow>
        let hs = headers bds in
        case (if syslog then None else header_fitting bds hs p) of
          Some h \<Rightarrow> infer_delimited E rx p source ls bds syslog example h
        | None \<Rightarrow> infer_patterns E A rx p source (length ls) bds syslog example hs)"

subsection \<open>Drift\<close>

definition matcher_side :: "engines \<Rightarrow> matcher_def \<Rightarrow> bytes" where
  "matcher_side E m =
     (case md_regex m of
        Some r \<Rightarrow> ''(?:'' @ r @ '')''
      | None \<Rightarrow>
          (case md_contains m of
             w # _ \<Rightarrow> escape_text E w
           | [] \<Rightarrow> (case md_starts_with m of Some s \<Rightarrow> ''^'' @ escape_text E s | None \<Rightarrow> ''.'')))"

definition union_matcher :: "engines \<Rightarrow> matcher_def \<Rightarrow> matcher_def \<Rightarrow> matcher_def" where
  "union_matcher E a b =
     \<lparr>md_contains = [], md_starts_with = None, md_regex = Some (matcher_side E a @ ''|'' @ matcher_side E b), md_priority = md_priority a\<rparr>"

text \<open>Per line, whether the prior's signature and its strategy take it.\<close>

definition prior_covers :: "engines \<Rightarrow> parser_def \<Rightarrow> bytes list \<Rightarrow> (bool \<times> bool) list" where
  "prior_covers E prior ls =
     (case from_definition E prior of
        Inl _ \<Rightarrow> map (\<lambda>_. (False, False)) ls
      | Inr q \<Rightarrow> map (\<lambda>l. (detect (en_regex E) (registry_new [q]) l None \<noteq> None, parses E q l)) ls)"

definition with_positions :: "nat list \<Rightarrow> found \<Rightarrow> found" where
  "with_positions at t = t\<lparr>te_members := map (\<lambda>m. if m < length at then at ! m else m) (te_members t)\<rparr>"

definition all_patterns :: "strategy_def \<Rightarrow> bytes list" where
  "all_patterns st = (case sd_pattern st of Some q \<Rightarrow> [q] | None \<Rightarrow> []) @ sd_patterns st"

definition added_strategy :: "strategy_def \<Rightarrow> bytes list \<Rightarrow> strategy_def" where
  "added_strategy st added = st\<lparr>sd_patterns := all_patterns st @ added, sd_pattern := None\<rparr>"

definition widened :: "engines \<Rightarrow> parser_def \<Rightarrow> inferred \<Rightarrow> bool \<Rightarrow> parser_def \<Rightarrow> parser_def" where
  "widened E prior r all_detected def =
     (let m = pd_matcher (nf_definition r);
          catch_all = (md_contains m = [] \<and> md_regex m = Some ''.'');
          def = (if \<not> all_detected \<and> \<not> catch_all then def\<lparr>pd_matcher := union_matcher E (pd_matcher prior) m\<rparr> else def)
      in if nf_syslog r \<and> \<not> pd_syslog prior then def\<lparr>pd_syslog := True\<rparr> else def)"

text \<open>What was inferred from the lines the prior does not cover, composed onto the prior or left alone.\<close>

definition on_prior :: "engines \<Rightarrow> 'f arith \<Rightarrow> bytes list \<Rightarrow> parser_def \<Rightarrow> (bool \<times> bool) list \<Rightarrow> inferred \<Rightarrow> inferred" where
  "on_prior E A ls prior cov r =
     (let st = pd_strategy prior; new = pd_strategy (nf_definition r);
          upd = (\<lambda>st kind.
            let def = widened E prior r (list_all fst cov) (prior\<lparr>pd_version := pd_version prior + 1, pd_strategy := st\<rparr>)
            in r\<lparr>nf_definition := def, nf_fingerprint := fnv_text (sd_patterns (pd_strategy def)),
                 nf_updates := Some (\<lparr>up_name = pd_name prior, up_version = pd_version prior\<rparr>, kind)\<rparr>)
      in if sd_kind st = SPattern then
           (if sd_kind new \<noteq> SPattern \<or> sd_patterns new = [] then r
            else upd (added_strategy st (sd_patterns new)) ''patterns_added'')
         else if ls \<noteq> [] \<and> ar_parses A (length (filter snd cov)) (length ls) then upd st ''matcher_widened''
         else r)"

definition infer_with_prior ::
  "engines \<Rightarrow> ('f::linorder) arith \<Rightarrow> finder \<Rightarrow> 'f params \<Rightarrow> bytes \<Rightarrow> bytes list \<Rightarrow> parser_def \<Rightarrow> inferred"
where
  "infer_with_prior E A rx p source ls prior =
     (let cov = prior_covers E prior ls;
          at = filter (\<lambda>i. \<not> (fst (cov ! i) \<and> snd (cov ! i))) [0..<length ls];
          r = infer E A rx p source (map ((!) ls) at)
      in on_prior E A ls prior cov (r\<lparr>nf_templates := map (with_positions at) (nf_templates r), nf_seen := length ls\<rparr>))"

subsection \<open>Merging in review\<close>

definition merge_lines :: "engines \<Rightarrow> finder \<Rightarrow> 'f params \<Rightarrow> bytes list \<Rightarrow> bool \<Rightarrow> found option" where
  "merge_lines E rx p ls syslog =
     (let bds = map (\<lambda>l. let b = trim_line_end l in
                      if syslog then fst (strip_syslog (bsd_timestamp (en_regex E)) b parsed_default) else b) ls;
          toks = filter (\<lambda>ts. ts \<noteq> [] \<and> length ts \<le> max_tokens) (map (raw_tokens rx) bds); n = length toks; rare = rare_count n p
      in if toks = [] then None
         else
           (case presence_rules (consensus toks) n rare of (cols, notes1) \<Rightarrow>
            case collapse_word_runs cols n of (cols, notes2) \<Rightarrow>
            case collapse_messy_runs cols n of (cols, notes3) \<Rightarrow>
            case shape cols rare (header_for toks (headers bds)) of (ts, rows) \<Rightarrow>
              Some \<lparr>te_id = 0, te_pattern = to_pattern ts, te_members = [],
                    te_history = (''merged from '' @ dec n @ '' lines'') # notes1 @ notes2 @ notes3,
                    fo_support = n,
                    fo_verified = (case compile_candidate E (to_pattern ts) of
                                     Inr q \<Rightarrow> length (filter (parses E q) bds) | Inl _ \<Rightarrow> 0),
                    fo_examples = map utf8_lossy (take 3 bds), fo_slots = map (slot_evidence_of cols) rows\<rparr>))"

text \<open>What a review merges with.\<close>

definition merger_of :: "engines \<Rightarrow> finder \<Rightarrow> 'f params \<Rightarrow> merger" where
  "merger_of E rx p ls syslog = map_option template_evidence.truncate (merge_lines E rx p ls syslog)"

text \<open>What is written to the pending directory; the decisions are the log the model leaves out.\<close>

definition proposal_of :: "bytes list \<Rightarrow> inferred \<Rightarrow> proposal" where
  "proposal_of decisions r =
     \<lparr>pp_source = nf_source r, pp_definition = nf_definition r,
      pp_evidence = \<lparr>ev_fingerprint = nf_fingerprint r, ev_syslog = nf_syslog r,
        ev_templates = map template_evidence.truncate (nf_templates r), ev_decisions = decisions,
        ev_lines_seen = nf_seen r, ev_unmatched = nf_unmatched r\<rparr>,
      pp_updates = map_option fst (nf_updates r)\<rparr>"

subsection \<open>The lines of a cluster are parted\<close>

definition sized :: "nat \<Rightarrow> col \<Rightarrow> bool" where
  "sized n c \<longleftrightarrow> length (cl_present c) = n"

lemma sized_presence: "list_all (sized k) cols \<Longrightarrow> list_all (sized k) (fst (presence_rules cols n rare))"
  by (induction cols) (auto simp: Let_def sized_def split: prod.split)

lemma split_columns_sized:
  assumes "tss \<noteq> []" "list_all (list_all blank_ok) tss"
  shows "list_all (sized (length tss)) (split_columns p tss)"
proof -
  have "list_all (sized (length tss)) (consensus tss)"
    using consensus_ok [OF assms] by (auto simp: list_all_iff col_ok_def sized_def)
  then show ?thesis
    unfolding split_columns_def collapse_variable_word_runs_def
    by (intro word_runs_all sized_presence) (simp add: sized_def collapsed_run_def Let_def)
qed

lemma split_parts:
  assumes "enum_split (split_columns p tss) mx = Some (i, groups)" "tss \<noteq> []" "list_all (list_all blank_ok) tss"
  shows "mset (concat (map snd groups)) = mset [0..<length tss]" "\<forall>g \<in> set groups. snd g \<noteq> []"
proof -
  have "length (cl_present (split_columns p tss ! i)) = length tss"
    using split_columns_sized [OF assms(2,3), of p] enum_split_parts(1) [OF assms(1)] by (simp add: list_all_length sized_def)
  then show "mset (concat (map snd groups)) = mset [0..<length tss]"
    using enum_split_parts(2) [OF assms(1)] by (simp add: members_of_def)
  show "\<forall>g \<in> set groups. snd g \<noteq> []" using enum_split_parts(3) [OF assms(1)] by fastforce
qed

definition members_in :: "candidate list \<Rightarrow> nat list" where
  "members_in cs = concat (map ca_members cs)"

lemma leaf_members [simp]: "ca_members (leaf p toks hs members h) = members"
  by (simp add: leaf_def Let_def split: prod.split)

lemma mset_group: "mset (concat (map (\<lambda>(v, g). map f g) groups)) = image_mset f (mset (concat (map snd groups)))"
  by (induction groups) auto

lemma candidates_parts:
  assumes "list_all (list_all blank_ok) toks" "members \<noteq> []" "\<forall>m \<in> set members. m < length toks"
  shows "mset (members_in (candidates_for k p toks hs members h)) = mset members"
  using assms(2,3)
proof (induction k arbitrary: members h)
  case (Suc k)
  let ?tss = "map ((!) toks) members"
  have ok: "?tss \<noteq> []" "list_all (list_all blank_ok) ?tss" using Suc.prems assms(1) by (auto simp: list_all_length)
  show ?case
  proof (cases "enum_split (split_columns p ?tss) (pm_enum_max p)")
    case (Some ig)
    obtain i groups where e: "ig = (i, groups)" by (cases ig)
    note g = split_parts [OF Some [unfolded e] ok]
    have range: "set (concat (map snd groups)) = {0..<length members}" using mset_eq_setD [OF g(1)] by simp
    have each: "mset (members_in (candidates_for k p toks hs (map ((!) members) is) h')) = mset (map ((!) members) is)"
      if "(v, is) \<in> set groups" for v "is" h'
    proof (rule Suc.IH)
      show "map ((!) members) is \<noteq> []" using g(2) that by force
      have "set is \<subseteq> {0..<length members}" using range that by force
      then show "\<forall>m \<in> set (map ((!) members) is). m < length toks" using Suc.prems(2) by auto
    qed
    have "mset (members_in (concat (map (\<lambda>(v, g). candidates_for k p toks hs (map ((!) members) g) (hh v g)) gs))) =
        mset (concat (map (\<lambda>(v, g). map ((!) members) g) gs))" if "set gs \<subseteq> set groups" for gs hh
      using that by (induction gs) (auto simp: members_in_def dest!: each [unfolded members_in_def])
    from this [of groups "\<lambda>v g. h @ [''split on `'' @ utf8_lossy v @ ''` ('' @ dec (length g) @ '' lines)'']"]
    have "mset (members_in (candidates_for (Suc k) p toks hs members h)) = image_mset ((!) members) (mset [0..<length members])"
      using g(1) by (simp add: Some e mset_group)
    also have "\<dots> = mset members" by (metis map_nth mset_map)
    finally show ?thesis .
  qed (simp add: members_in_def)
qed (simp add: members_in_def)

lemma members_in_mset: "mset (members_in cs) = sum_mset (image_mset (\<lambda>c. mset (ca_members c)) (mset cs))"
  by (induction cs) (simp_all add: members_in_def)

lemma without_one:
  assumes "i < j" "j < length cs"
  shows "mset ((take j cs @ drop (j + 1) cs)[i := x]) + {#cs ! i, cs ! j#} = add_mset x (mset cs)"
proof -
  let ?xs = "take j cs @ drop (j + 1) cs"
  have i: "i < length ?xs" "?xs ! i = cs ! i" using assms by (simp_all add: nth_append)
  have "cs = take j cs @ cs ! j # drop (j + 1) cs" using assms(2) by (simp add: id_take_nth_drop)
  then have "mset cs = add_mset (cs ! j) (mset ?xs)" by (metis mset.simps(2) mset_append union_mset_add_mset_right)
  moreover have "mset (?xs[i := x]) = add_mset x (mset ?xs - {#cs ! i#})" using i by (simp add: mset_update)
  moreover have "cs ! i \<in># mset ?xs" using i by (metis nth_mem_mset)
  ultimately show ?thesis by simp
qed

lemma merge_members:
  assumes "distinct (ca_members a @ ca_members b)"
  shows "mset (ca_members (merge_candidates p toks hs note a b)) = mset (ca_members a) + mset (ca_members b)"
  by (simp only: merge_candidates_def leaf_members mset_sort distinct_remdups_id [OF assms] mset_append)

lemma distinct_two: "distinct (concat (map f cs)) \<Longrightarrow> i < j \<Longrightarrow> j < length cs \<Longrightarrow> distinct (f (cs ! i) @ f (cs ! j))"
proof (induction cs arbitrary: i j)
  case (Cons c cs)
  obtain k where k: "j = Suc k" "k < length cs" using Cons.prems by (cases j) auto
  show ?case
  proof (cases i)
    case 0
    have "set (f (cs ! k)) \<subseteq> set (concat (map f cs))" using nth_mem [OF k(2)] by auto
    moreover have "distinct (f (cs ! k))" using Cons.prems(1) k(2) by (simp add: distinct_concat_iff) 
    ultimately show ?thesis using Cons.prems(1) k 0 by auto
  next
    case (Suc l)
    then show ?thesis using Cons.IH [of l k] Cons.prems k by simp
  qed
qed simp

lemma dedupe_parts:
  "distinct (members_in cs) \<Longrightarrow> i < j \<Longrightarrow> mset (members_in (dedupe p toks hs i j cs)) = mset (members_in cs)"
proof (induction p toks hs i j cs rule: dedupe.induct)
  case (1 p toks hs i j cs)
  show ?case
  proof (cases "i < length cs \<and> j < length cs")
    case True
    show ?thesis
    proof (cases "mergeable (ca_template (cs ! i)) (ca_template (cs ! j))")
      case None
      have "dedupe p toks hs i j cs = dedupe p toks hs i (j + 1) cs"
        by (subst dedupe.simps) (simp only: True None if_True option.case)
      then show ?thesis using "1.IH"(1) [OF conjunct1 [OF True] conjunct2 [OF True] None] "1.prems" by simp
    next
      case (Some why)
      let ?x = "merge_candidates p toks hs why (cs ! i) (cs ! j)"
      let ?cs = "(take j cs @ drop (j + 1) cs)[i := ?x]"
      have d: "distinct (ca_members (cs ! i) @ ca_members (cs ! j))"
        using distinct_two [of ca_members cs i j] "1.prems" True by (simp add: members_in_def)
      have m: "mset ?cs + {#cs ! i, cs ! j#} = add_mset ?x (mset cs)" by (rule without_one [OF "1.prems"(2) conjunct2 [OF True]])
      have "mset (members_in ?cs) = mset (members_in cs)"
        using arg_cong [OF m, of "\<lambda>M. sum_mset (image_mset (\<lambda>c. mset (ca_members c)) M)"]
        by (simp add: members_in_mset merge_members [OF d] add.assoc)
      moreover from this have "distinct (members_in ?cs)" using "1.prems"(1) by (metis mset_eq_imp_distinct_iff)
      moreover have "dedupe p toks hs i j cs = dedupe p toks hs i (i + 1) ?cs"
        by (subst dedupe.simps) (simp only: True Some if_True option.case)
      ultimately show ?thesis using "1.IH"(2) [OF conjunct1 [OF True] conjunct2 [OF True] Some] by simp
    qed
  next
    case False
    then show ?thesis using 1 by (subst dedupe.simps) auto
  qed
qed

lemma descending_mset [simp]: "mset (descending f xs) = mset xs"
  by (simp add: descending_def)

lemma by_specificity_parts: "mset (members_in (by_specificity cs)) = mset (members_in cs)"
  by (simp add: members_in_mset by_specificity_def)

lemma best_cluster_in: "best_cluster A p toks t cs = Some ci \<Longrightarrow> ci < length cs"
proof -
  let ?f = "\<lambda>ci best. let sim = line_similarity A t (toks ! lc_seed (cs ! ci)) in
     if pm_similarity p \<le> sim \<and> (case best of None \<Rightarrow> True | Some (_, b) \<Rightarrow> b < sim) then Some (ci, sim) else best"
  have "case fold ?f [0..<length cs] None of None \<Rightarrow> True | Some (i, _) \<Rightarrow> i < length cs"
    by (rule fold_keeps [where P = "\<lambda>x. case x of None \<Rightarrow> True | Some (i, _) \<Rightarrow> i < length cs"])
      (auto simp: Let_def split: option.splits)
  then show "best_cluster A p toks t cs = Some ci \<Longrightarrow> ?thesis" by (auto simp: best_cluster_def split: option.splits)
qed

lemma assign_parts:
  assumes "k \<le> length toks"
  shows "mset (concat (map lc_members (fold (assign_line A p toks) [0..<k] []))) = mset (filter (\<lambda>i. toks ! i \<noteq> []) [0..<k])"
  using assms
proof (induction k)
  case (Suc k)
  let ?cs = "fold (assign_line A p toks) [0..<k] []"
  have step: "mset (concat (map lc_members (assign_line A p toks k cs))) =
      mset (concat (map lc_members cs)) + (if toks ! k = [] then {#} else {#k#})" for cs
  proof (cases "toks ! k = []")
    case False
    show ?thesis
    proof (cases "best_cluster A p toks (toks ! k) cs")
      case (Some ci)
      let ?c = "(cs ! ci)\<lparr>lc_members := lc_members (cs ! ci) @ [k]\<rparr>"
      have ci: "ci < length cs"
        using Some best_cluster_in by blast
      have "mset (map lc_members (cs[ci := ?c])) + {#lc_members (cs ! ci)#} = add_mset (lc_members ?c) (mset (map lc_members cs))"
        using ci by (simp add: map_update mset_update)
      from arg_cong [OF this, of "\<lambda>M. sum_mset (image_mset mset M)"] show ?thesis
        using False Some by (simp add: assign_line_def mset_concat sum_mset_sum_list [symmetric] multiset.map_comp)
    next
      case None
      then show ?thesis using False by (simp add: assign_line_def)
    qed
  qed (simp add: assign_line_def)
  then show ?case using Suc by simp
qed simp

subsection \<open>Every line is accounted for\<close>

definition reasons :: "bytes list" where
  "reasons = [''empty'', ''header'', ''too_long'', ''below_support'', ''template_cap'', ''no_template'']"

lemma reasons_count:
  assumes "distinct rs" "\<forall>x \<in> set ns. snd x \<in> set rs"
  shows "sum_list (map (by_reason ns) rs) = length ns"
  using assms(2)
proof (induction ns)
  case (Cons x ns)
  have e: "by_reason (x # ns) = (\<lambda>r. by_reason ns r + (if snd x = r then 1 else 0))"
    by (rule ext) (cases x, simp add: by_reason_def)
  have "sum_list (map (by_reason (x # ns)) rs) = sum_list (map (by_reason ns) rs) + sum_list (map (\<lambda>r. if snd x = r then 1 else 0) rs)"
    by (simp add: e sum_list_addf)
  moreover have "sum_list (map (\<lambda>r. if snd x = r then 1 else 0) rs) = (1::nat)"
    using assms(1) Cons.prems by (simp add: sum_list_distinct_conv_sum_set)
  ultimately show ?case using Cons by simp
qed (simp add: by_reason_def)

lemma hits_count:
  assumes "\<forall>h \<in> set hits. \<forall>k. snd h = Some k \<longrightarrow> k < n"
  shows "sum_list (map (\<lambda>k. length (filter (\<lambda>(_, j). j = Some k) hits)) [0..<n]) + length (filter (\<lambda>(_, j). j = None) hits) = length hits"
  using assms
proof (induction hits)
  case (Cons h hits)
  let ?c = "\<lambda>hs k. length (filter (\<lambda>(_, j). j = Some k) hs)"
  have "?c (h # hits) k = ?c hits k + (if snd h = Some k then 1 else 0)" for k by (cases h) simp
  then have "sum_list (map (?c (h # hits)) [0..<n]) = sum_list (map (?c hits) [0..<n]) + sum_list (map (\<lambda>k. if snd h = Some k then 1 else 0) [0..<n])"
    by (simp add: sum_list_addf)
  moreover have "sum_list (map (\<lambda>k. if snd h = Some k then 1 else 0) [0..<n]) = (if snd h = None then 0 else 1 :: nat)"
    using Cons.prems by (cases "snd h") (simp_all add: sum_list_distinct_conv_sum_set)
  ultimately show ?case using Cons by (cases h) auto
qed simp

lemma kept_blank_ok: "finder_ok rx \<Longrightarrow> list_all blank_ok (kept_tokens rx b)"
  using tok_loop_returns [of rx 0 b "[]"] toks_ok_blank
  by (auto simp: kept_tokens_def raw_tokens_def tokenize_def Let_def)

lemma part_filter: "mset (concat (map f (filter P xs))) + mset (concat (map f (filter (\<lambda>x. \<not> P x) xs))) = mset (concat (map f xs))"
  by (induction xs) auto

lemma indexed_filter: "map snd (filter (\<lambda>(_, c). P c) (enumerate k cs)) = filter P cs"
  by (induction cs arbitrary: k) auto

lemma cluster_members:
  assumes "list_all (list_all blank_ok) toks" "\<forall>c \<in> set cs. lc_members c \<noteq> [] \<and> (\<forall>m \<in> set (lc_members c). m < length toks)"
  shows "mset (members_in (cluster_candidates p toks hs bds cs)) =
    mset (concat (map lc_members (filter (\<lambda>c. pm_min_support p \<le> length (lc_members c)) cs)))"
proof -
  let ?f = "\<lambda>(ci, c). candidates_for 4 p toks hs (lc_members c) [cluster_label bds ci c]"
  have "mset (members_in (concat (map ?f ics))) = mset (concat (map lc_members (map snd ics)))" if "snd ` set ics \<subseteq> set cs" for ics
    using that
  proof (induction ics)
    case (Cons ic ics)
    have "snd ic \<in> set cs" using Cons.prems by simp
    then have "mset (members_in (candidates_for 4 p toks hs (lc_members (snd ic)) h)) = mset (lc_members (snd ic))" for h
      using assms(2) by (intro candidates_parts [OF assms(1)]) auto
    then show ?case using Cons by (cases ic) (simp add: members_in_def)
  qed (simp add: members_in_def)
  moreover have "snd ` set (filter (\<lambda>(_, c). P c) (enumerate 0 cs)) \<subseteq> set cs" for P by (auto simp: in_set_enumerate_eq)
  ultimately show ?thesis unfolding cluster_candidates_def by (simp only: indexed_filter)
qed

lemma length_mset_filter: "mset xs + M = mset ys \<Longrightarrow> distinct ys \<Longrightarrow> mset (filter (\<lambda>y. y \<notin> set xs) ys) = M"
proof -
  assume m: "mset xs + M = mset ys" and d: "distinct ys"
  obtain zs where z: "mset zs = M" using ex_mset by blast
  have "mset (xs @ zs) = mset ys" using m z by simp
  then have "distinct (xs @ zs)" "set ys = set xs \<union> set zs" using d by (metis mset_eq_imp_distinct_iff, metis mset_eq_setD set_append)
  then have "set (filter (\<lambda>y. y \<notin> set xs) ys) = set zs" by auto
  then have "mset (filter (\<lambda>y. y \<notin> set xs) ys) = mset zs"
    using d \<open>distinct (xs @ zs)\<close> by (metis distinct_append distinct_filter set_eq_iff_mset_eq_distinct)
  then show ?thesis by (simp add: z)
qed

lemma assign_ok:
  assumes "c \<in> set (assign A p toks)"
  shows "lc_members c \<noteq> []" "\<forall>m \<in> set (lc_members c). m < length toks"
proof -
  have "\<forall>c \<in> set (fold (assign_line A p toks) is []). lc_members c \<noteq> []" for "is"
    by (rule fold_keeps [where P = "\<lambda>cs. \<forall>c \<in> set cs. lc_members c \<noteq> []"])
      (auto simp: assign_line_def split: option.splits dest!: subsetD [OF set_update_subset_insert])
  then show "lc_members c \<noteq> []" using assms unfolding assign_def by blast
  have "set (concat (map lc_members (assign A p toks))) = set (filter (\<lambda>i. toks ! i \<noteq> []) [0..<length toks])"
    using mset_eq_setD [OF assign_parts [OF order_refl, of A p toks]] by (simp add: assign_def)
  then show "\<forall>m \<in> set (lc_members c). m < length toks" using assms by auto
qed

lemma hits_below: "position q cs = Some k \<Longrightarrow> k < length cs"
  by (auto dest: position_SomeD)

lemma infer_patterns_accounts:
  fixes A :: "('f::linorder) arith"
  assumes "finder_ok rx" and r_def: "r = infer_patterns E A rx p source seen bds syslog example hs"
  shows "nf_unmatched r + sum_list (map fo_verified (nf_templates r)) = length bds"
    "sum_list (map (nf_by_reason r) reasons) = nf_unmatched r"
    "distinct (concat (map te_members (nf_templates r)))" "set (concat (map te_members (nf_templates r))) \<subseteq> {..<length bds}"
proof -
  define toks where "toks = all_tokens rx bds"
  define cs where "cs = assign A p toks"
  define ordered where "ordered = all_candidates A rx p bds hs"
  define held where "held = held_candidates A rx p bds hs"
  define early where "early = early_notes A rx p bds hs"
  define tested where "tested = tested_lines A rx p bds hs"
  define hits where "hits = line_hits E A rx p bds hs"
  define ns where "ns = pattern_notes E A rx p bds hs"
  define templates where "templates = pattern_templates E A rx p bds hs"
  note held_def' = held_candidates_def [of A rx p bds hs, folded held_def ordered_def]
  note early_def' = early_notes_def [of A rx p bds hs, folded early_def ordered_def toks_def, folded cs_def]
  note tested_def' = tested_lines_def [of A rx p bds hs, folded tested_def early_def toks_def]
  note hits_def' = line_hits_def [of E A rx p bds hs, folded hits_def held_def tested_def]
  note ns_def' = pattern_notes_def [of E A rx p bds hs, folded ns_def early_def hits_def]
  note templates_def' = pattern_templates_def [of E A rx p bds hs, folded templates_def hits_def held_def]
  note ordered_def' = all_candidates_def [of A rx p bds hs, folded ordered_def toks_def, folded cs_def]
  have r: "nf_templates r = templates" "nf_unmatched r = length ns" "nf_by_reason r = by_reason ns"
    by (simp_all add: r_def infer_patterns_def Let_def report_def templates_def ns_def)
  have len: "length toks = length bds" by (simp add: toks_def all_tokens_def)
  have blank: "list_all (list_all blank_ok) toks" using kept_blank_ok [OF assms(1)] by (simp add: toks_def all_tokens_def list_all_iff)
  have cl: "mset (concat (map lc_members cs)) = mset (filter (\<lambda>i. toks ! i \<noteq> []) [0..<length bds])"
    using assign_parts [OF order_refl, of A p toks] by (simp add: cs_def assign_def len)
  have small: "map fst (cluster_notes p cs) = concat (map lc_members (filter (\<lambda>c. \<not> pm_min_support p \<le> length (lc_members c)) cs))"
    by (simp add: cluster_notes_def map_concat comp_def not_le)
  have cand: "mset (members_in (cluster_candidates p toks hs bds cs)) =
      mset (concat (map lc_members (filter (\<lambda>c. pm_min_support p \<le> length (lc_members c)) cs)))"
    by (intro cluster_members blank) (auto simp: cs_def assign_ok(1) dest: bspec [OF assign_ok(2)])
  have both: "mset (members_in (cluster_candidates p toks hs bds cs)) + mset (map fst (cluster_notes p cs)) =
      mset (filter (\<lambda>i. toks ! i \<noteq> []) [0..<length bds])"
    unfolding cand small part_filter cl ..
  then have "distinct (members_in (cluster_candidates p toks hs bds cs) @ map fst (cluster_notes p cs))"
    by (metis distinct_filter distinct_upt mset_append mset_eq_imp_distinct_iff)
  then have ord: "mset (members_in ordered) = mset (members_in (cluster_candidates p toks hs bds cs))"
    unfolding ordered_def' ordered_candidates_def by_specificity_parts by (intro dedupe_parts) auto
  have cut: "members_in ordered = members_in held @ map fst (cap_notes (drop (pm_max_templates p) ordered))"
  proof -
    have "members_in ordered = members_in held @ members_in (drop (pm_max_templates p) ordered)"
      unfolding held_def' members_in_def by (metis append_take_drop_id concat_append map_append)
    then show ?thesis by (simp add: cap_notes_def members_in_def map_concat comp_def)
  qed
  have unread: "map fst (unread_notes rx bds) = filter (\<lambda>i. toks ! i = []) [0..<length bds]"
  proof -
    have "map fst (unread_notes rx bds) = filter (\<lambda>i. kept_tokens rx (bds ! i) = []) [0..<length bds]"
      by (simp add: unread_notes_def comp_def)
    also have "\<dots> = filter (\<lambda>i. toks ! i = []) [0..<length bds]" by (intro filter_cong) (simp_all add: toks_def all_tokens_def)
    finally show ?thesis .
  qed
  have total: "mset (map fst early) + mset (members_in held) = mset [0..<length bds]"
  proof -
    have "mset (map fst early) + mset (members_in held) =
        mset (filter (\<lambda>i. toks ! i = []) [0..<length bds]) + (mset (members_in ordered) + mset (map fst (cluster_notes p cs)))"
      unfolding early_def' map_append mset_append unread cut by (simp add: ac_simps)
    also have "\<dots> = mset (filter (\<lambda>i. toks ! i = []) [0..<length bds]) + mset (filter (\<lambda>i. toks ! i \<noteq> []) [0..<length bds])"
      unfolding ord both ..
    also have "\<dots> = mset [0..<length bds]" by (metis mset_filter multiset_partition)
    finally show ?thesis .
  qed
  have tested: "mset tested = mset (members_in held)"
  proof -
    have "tested = filter (\<lambda>i. i \<notin> set (map fst early)) [0..<length bds]"
      unfolding tested_def' using unread by (intro filter_cong) (auto simp: early_def')
    then show ?thesis using length_mset_filter [OF total distinct_upt] by simp
  qed
  have below: "\<forall>h \<in> set hits. \<forall>k. snd h = Some k \<longrightarrow> k < length held"
    by (auto simp: hits_def' first_taker_def dest: hits_below)
  have ver: "map fo_verified templates = map (\<lambda>k. length (filter (\<lambda>(_, j). j = Some k) hits)) [0..<length held]"
    by (rule nth_equalityI) (simp_all add: templates_def' found_of_def nth_enumerate_eq split: prod.split)
  have "length ns + sum_list (map fo_verified templates) = length early + length hits"
    using hits_count [OF below] by (simp add: ver ns_def')
  also have "\<dots> = length bds" using arg_cong [OF total, of size] arg_cong [OF tested, of size] by (simp add: hits_def')
  finally show "nf_unmatched r + sum_list (map fo_verified (nf_templates r)) = length bds" by (simp add: r)
  have "\<forall>x \<in> set ns. snd x \<in> set reasons"
    by (auto simp: ns_def' early_def' unread_notes_def cluster_notes_def cap_notes_def reasons_def split: if_splits)
  moreover have "distinct reasons" by code_simp
  ultimately show "sum_list (map (nf_by_reason r) reasons) = nf_unmatched r" by (simp add: r reasons_count)
  have mem: "concat (map te_members templates) = members_in held"
  proof -
    have "map te_members templates = map ca_members held"
      by (rule nth_equalityI) (simp_all add: templates_def' found_of_def nth_enumerate_eq split: prod.split)
    then show ?thesis by (simp add: members_in_def)
  qed
  have "mset (map fst early @ members_in held) = mset [0..<length bds]" using total by simp
  then have "distinct (map fst early @ members_in held)" "set (map fst early @ members_in held) = {0..<length bds}"
    using distinct_upt by (metis mset_eq_imp_distinct_iff, metis mset_eq_setD set_upt)
  then show "distinct (concat (map te_members (nf_templates r)))" "set (concat (map te_members (nf_templates r))) \<subseteq> {..<length bds}"
    by (auto simp: r mem)
qed

lemma bodies_length: "bodies E ls = (syslog, example, bds) \<Longrightarrow> length bds = length ls"
  by (auto simp: bodies_def Let_def)

lemma infer_delimited_accounts:
  assumes "length bds = length ls" and r_def: "r = infer_delimited E rx p source ls bds syslog example h"
  shows "nf_unmatched r + sum_list (map fo_support (nf_templates r)) = length ls"
    "sum_list (map (nf_by_reason r) reasons) = nf_unmatched r"
    "distinct (concat (map te_members (nf_templates r)))" "set (concat (map te_members (nf_templates r))) \<subseteq> {..<length ls}"
    "sd_kind (pd_strategy (nf_definition r)) = SDelimiter"
proof -
  define data where "data = filter (\<lambda>i. is_data (bds ! i)) [0..<length bds]"
  define ns where "ns = map (\<lambda>i. (i, if bds ! i = [] then ''empty'' else ''header'')) (filter (\<lambda>i. \<not> is_data (bds ! i)) [0..<length bds])"
  have r: "nf_unmatched r = length ns" "nf_by_reason r = by_reason ns" "map fo_support (nf_templates r) = [length data]"
      "map te_members (nf_templates r) = [data]" "sd_kind (pd_strategy (nf_definition r)) = SDelimiter"
    by (simp_all add: r_def infer_delimited_def Let_def report_def data_def ns_def inferred_def_def plain_strategy_def)
  have "length ns + length data = length ls"
    using sum_length_filter_compl [of "\<lambda>i. is_data (bds ! i)" "[0..<length bds]"] by (simp add: ns_def data_def assms(1))
  then show "nf_unmatched r + sum_list (map fo_support (nf_templates r)) = length ls" by (simp add: r)
  have "\<forall>x \<in> set ns. snd x \<in> set reasons" by (auto simp: ns_def reasons_def)
  moreover have "distinct reasons" by code_simp
  ultimately show "sum_list (map (nf_by_reason r) reasons) = nf_unmatched r" by (simp add: r reasons_count)
  show "distinct (concat (map te_members (nf_templates r)))" "set (concat (map te_members (nf_templates r))) \<subseteq> {..<length ls}"
    "sd_kind (pd_strategy (nf_definition r)) = SDelimiter"
    by (auto simp: r data_def assms(1))
qed

lemma infer_patterns_rest:
  "nf_seen (infer_patterns E A rx p source seen bds syslog example hs) = seen"
  "nf_used (infer_patterns E A rx p source seen bds syslog example hs) =
     seen - nf_unmatched (infer_patterns E A rx p source seen bds syslog example hs)"
  "sd_kind (pd_strategy (nf_definition (infer_patterns E A rx p source seen bds syslog example hs))) = SPattern"
  by (simp_all add: infer_patterns_def Let_def report_def pattern_def_def inferred_def_def plain_strategy_def)

lemma infer_delimited_rest:
  "nf_seen (infer_delimited E rx p source ls bds syslog example h) = length ls"
  "nf_used (infer_delimited E rx p source ls bds syslog example h) =
     length ls - nf_unmatched (infer_delimited E rx p source ls bds syslog example h)"
  by (simp_all add: infer_delimited_def Let_def report_def)

definition taken :: "inferred \<Rightarrow> found \<Rightarrow> nat" where
  "taken r t = (if sd_kind (pd_strategy (nf_definition r)) = SPattern then fo_verified t else fo_support t)"

text \<open>
  C19. An inference accounts for every line it was given exactly once: the lines used and the unmatched ones
  add up to the lines seen, the lines used are those the templates take at run time (or, in a delimited
  file, its data rows), the unmatched ones add up over the reasons, and no line is a member of two templates.
\<close>

theorem infer_accounts:
  assumes "finder_ok rx"
  shows "let r = infer E A rx p source ls in
    nf_seen r = length ls \<and> nf_used r + nf_unmatched r = length ls \<and>
    nf_used r = sum_list (map (taken r) (nf_templates r)) \<and>
    sum_list (map (nf_by_reason r) reasons) = nf_unmatched r \<and>
    distinct (concat (map te_members (nf_templates r))) \<and> set (concat (map te_members (nf_templates r))) \<subseteq> {..<length ls}"
proof -
  obtain syslog example bds where b: "bodies E ls = (syslog, example, bds)" using prod_cases3 by blast
  note len = bodies_length [OF b]
  show ?thesis
  proof (cases "if syslog then None else header_fitting bds (headers bds) p")
    case None
    then have i: "infer E A rx p source ls = infer_patterns E A rx p source (length ls) bds syslog example (headers bds)"
      by (simp add: infer_def b Let_def)
    have "taken (infer_patterns E A rx p source (length ls) bds syslog example (headers bds)) = fo_verified"
      by (rule ext) (simp add: taken_def infer_patterns_rest)
    then show ?thesis
      using infer_patterns_accounts [OF assms refl, of E A p source "length ls" bds syslog example "headers bds"]
      by (simp add: i Let_def infer_patterns_rest len)
  next
    case (Some h)
    then have i: "infer E A rx p source ls = infer_delimited E rx p source ls bds syslog example h"
      by (simp add: infer_def b Let_def)
    note a = infer_delimited_accounts [OF len refl, of E rx p source syslog example h]
    have "taken (infer_delimited E rx p source ls bds syslog example h) = fo_support"
      by (rule ext) (simp add: taken_def a(5))
    then show ?thesis using a(1-4) by (simp add: i Let_def infer_delimited_rest)
  qed
qed

definition sample_arith :: "nat arith" where
  "sample_arith = \<lparr>ar_ratio = (\<lambda>k n. 200 * k div n), ar_one = 100, ar_need = (\<lambda>n. n), ar_parses = (\<lambda>k n. 9 * n \<le> 10 * k)\<rparr>"

definition sample_params :: "nat params" where
  "sample_params = \<lparr>pm_similarity = 60, pm_min_support = 3, pm_enum_max = 3, pm_rare_share = (\<lambda>n. n div 20 + 1), pm_max_templates = 40\<rparr>"

theorem infer_accounts_witness:
  "let r = infer no_engines sample_arith int_finder sample_params ''gw.log'' [''port 80'', ''port 443'', ''port 22''] in
    nf_seen r = 3 \<and> nf_used r + nf_unmatched r = 3 \<and>
    nf_used r = sum_list (map (taken r) (nf_templates r)) \<and>
    sum_list (map (nf_by_reason r) reasons) = nf_unmatched r \<and>
    distinct (concat (map te_members (nf_templates r))) \<and> set (concat (map te_members (nf_templates r))) \<subseteq> {..<3}"
proof -
  have "finder_ok int_finder" by (auto simp: finder_ok_def int_finder_def Let_def length_takeWhile_le split: if_splits)
  from infer_accounts [OF this, of no_engines sample_arith sample_params "''gw.log''" "[''port 80'', ''port 443'', ''port 22'']"]
  show ?thesis by (simp add: Let_def eval_nat_numeral)
qed

subsection \<open>An update keeps what the parser did\<close>

lemma collect_append:
  "collect_results f (xs @ ys) = Inr rs \<Longrightarrow> collect_results f xs = Inr qs \<Longrightarrow> \<exists>us. rs = qs @ us"
  by (induction xs arbitrary: rs qs) (auto split: sum.splits)

lemma patterns_first: "patterns_strategy E ps s out = (None, q) \<Longrightarrow> patterns_strategy E (ps @ us) s out = (None, q)"
  by (induction E ps s out rule: patterns_strategy.induct) (auto split: prod.splits bool.splits)

lemma compile_added:
  assumes "sd_regex st = None" "compile_patterns E st = Inr cs" "compile_patterns E (added_strategy st added) = Inr ds"
  shows "\<exists>us. ds = cs @ us"
proof -
  let ?f = "compile_pattern_text E (or_else (sd_anchor st) AStart)"
  have "collect_results ?f (all_patterns st) = Inr cs"
    using assms(1,2) by (auto simp: compile_patterns_def all_patterns_def Let_def split: sum.splits if_splits)
  moreover have "collect_results ?f (all_patterns st @ added) = Inr ds"
    using assms(1,3) by (auto simp: compile_patterns_def added_strategy_def Let_def split: sum.splits if_splits)
  ultimately show ?thesis using collect_append by blast
qed

lemma widened_rest:
  "pd_strategy (widened E prior r d def) = pd_strategy def" "pd_timestamp (widened E prior r d def) = pd_timestamp def"
  "pd_sub (widened E prior r d def) = pd_sub def"
  by (simp_all add: widened_def Let_def)

lemma compiled_parts:
  assumes "from_definition E d = Inr q"
  shows "pr_def q = d" "compile_strategy (en_regex E) (pd_strategy d) False = Inr (pr_strategy q)"
    "collect_results compile_timestamp (List.enumerate 0 (pd_timestamp d)) = Inr (pr_timestamps q)"
    "collect_results (\<lambda>(i, s). map_err (\<lambda>e. ''[[sub]] #'' @ dec (i + 1) @ '': '' @ e)
       (compile_sub (en_regex E) s (sub_group (pd_sub d) i))) (List.enumerate 0 (pd_sub d)) = Inr (pr_subs q)"
  using assms by (auto simp: from_definition_def split: sum.splits)

text \<open>
  An event without a syslog header: neither a priority nor a version nor a time stamp in front, and no byte order mark.
  It is left as it is whether the envelope is stripped or not.
\<close>

definition headless :: "engines \<Rightarrow> bytes \<Rightarrow> bool" where
  "headless E event \<longleftrightarrow>
     (let s = trim_line_end event
      in syslog_pri s = None \<and> \<not> prefix ''1 '' s \<and> bsd_timestamp (en_regex E) s = None \<and> \<not> prefix bom s)"

lemma headless_start: "headless E event \<Longrightarrow> parse_start E p event out = (trim_line_end event, pa_clear out)"
  by (auto simp: headless_def Let_def parse_start_def strip_syslog_def strip_bom_def syslog_head_def rfc3164_def)

text \<open>When the strategy of the update succeeds wherever that of the prior does, so does the whole parse.\<close>

lemma same_outcome:
  assumes "parse_start E new event out = parse_start E old event out" "pr_timestamps new = pr_timestamps old" "pr_subs new = pr_subs old"
    and "\<And>body q q2. apply_strategy E (pr_strategy old) body q = (None, q2) \<Longrightarrow> apply_strategy E (pr_strategy new) body q = (None, q2)"
    and "fst (parse_event E old event ctx out) = None"
  shows "parse_event E new event ctx out = parse_event E old event ctx out"
proof -
  obtain body q where s: "parse_start E old event out = (body, q)" by fastforce
  obtain res q2 where a: "apply_strategy E (pr_strategy old) body q = (res, q2)" by fastforce
  have "res = None" using assms(5) by (simp add: parse_event_def s a Let_def)
  with a assms(4) have "apply_strategy E (pr_strategy new) body q = (None, q2)" by blast
  then show ?thesis using a \<open>res = None\<close> by (simp add: parse_event_def s assms(1-3))
qed

text \<open>
  C20. An update composed onto a prior without a raw regular expression keeps its behaviour. Whatever was inferred, the
  new definition has the next version, and an event the prior parses is parsed by it with the same fields, sub status
  and event time, provided the update does not turn the stripping of a syslog envelope on or the event has no header
  to strip. (With a raw expression it is \<open>added_before_regex\<close>; a header that the prior parsed as text is gone under
  an update that strips it, \<open>flip_changes_header\<close>.)
\<close>

theorem update_keeps_behaviour:
  assumes "sd_kind (pd_strategy prior) = SPattern \<Longrightarrow> sd_regex (pd_strategy prior) = None"
    and "r1 = on_prior E A ls prior cov r" "nf_updates r = None" "nf_updates r1 \<noteq> None"
    and "pd_syslog (nf_definition r1) = pd_syslog prior \<or> headless E event"
    and "from_definition E prior = Inr old" "from_definition E (nf_definition r1) = Inr new"
    and "fst (parse_event E old event ctx out) = None"
  shows "pd_version (nf_definition r1) = pd_version prior + 1 \<and> parse_event E new event ctx out = parse_event E old event ctx out"
proof -
  let ?added = "sd_patterns (pd_strategy (nf_definition r))" and ?st = "pd_strategy prior"
  obtain st where d: "nf_definition r1 = widened E prior r (list_all fst cov)
      (prior\<lparr>pd_version := pd_version prior + 1, pd_strategy := st\<rparr>)" "st = (if sd_kind ?st = SPattern then added_strategy ?st ?added else ?st)"
    using assms(2-4) by (auto simp: on_prior_def Let_def split: if_splits)
  note o = compiled_parts [OF assms(6)] and n = compiled_parts [OF assms(7)]
  have same: "pr_timestamps new = pr_timestamps old" "pr_subs new = pr_subs old"
    using o(3,4) n(3,4) by (simp_all add: d widened_rest)
  have start: "parse_start E new event out = parse_start E old event out"
    using assms(5)
  proof
    assume "pd_syslog (nf_definition r1) = pd_syslog prior"
    then show ?thesis by (simp add: parse_start_def o(1) n(1))
  qed (simp add: headless_start)
  have "apply_strategy E (pr_strategy new) body q = (None, q2)" if a: "apply_strategy E (pr_strategy old) body q = (None, q2)" for body q q2
  proof (cases "sd_kind ?st = SPattern")
    case False
    then show ?thesis using o(2) n(2) a by (simp add: d widened_rest)
  next
    case True
    obtain cs where cs: "pr_strategy old = CPattern cs" "compile_patterns (en_regex E) ?st = Inr cs"
      using o(2) True by (cases "compile_patterns (en_regex E) ?st") (auto simp: compile_strategy_def dest!: sym [of "CPattern _"] split: option.splits)
    obtain ds where ds: "pr_strategy new = CPattern ds" "compile_patterns (en_regex E) (added_strategy ?st ?added) = Inr ds"
      using n(2) True
      by (cases "compile_patterns (en_regex E) (added_strategy ?st ?added)")
        (auto simp: d widened_rest compile_strategy_def added_strategy_def dest!: sym [of "CPattern _"] split: option.splits)
    obtain us where us: "ds = cs @ us" using compile_added [OF assms(1) [OF True] cs(2) ds(2)] by blast
    show ?thesis using a patterns_first by (simp add: apply_strategy_def cs(1) ds(1) us)
  qed
  from same_outcome [OF start same this assms(8)] have "parse_event E new event ctx out = parse_event E old event ctx out" .
  moreover have "pd_version (nf_definition r1) = pd_version prior + 1" by (simp add: d widened_def Let_def)
  ultimately show ?thesis by simp
qed

text \<open>A prior whose pattern takes any text, and an inference that found one pattern.\<close>

definition any_engines :: engines where
  "any_engines = no_engines\<lparr>en_regex := \<lparr>rx_names = (\<lambda>_. Inr [None]), rx_captures = (\<lambda>_ s. Some [Some (0, length s)]), rx_escape = (\<lambda>b. [b])\<rparr>\<rparr>"

definition prior_def :: parser_def where
  "prior_def = (candidate_def ''a'')\<lparr>pd_name := ''gw'', pd_version := 4\<rparr>"

definition drifted :: inferred where
  "drifted = report ''gw.log'' (inferred_def ''gw.log'' \<lparr>md_contains = [''b''], md_starts_with = None, md_regex = None, md_priority = - 1\<rparr>
     False ((plain_strategy SPattern)\<lparr>sd_patterns := [''b'']\<rparr>) []) 3 False None [] [] [] []"

definition updated :: inferred where
  "updated = on_prior any_engines sample_arith [''b''] prior_def [(False, False)] drifted"

definition update_def :: parser_def where
  "update_def = prior_def\<lparr>pd_version := 5, pd_strategy := (plain_strategy SPattern)\<lparr>sd_patterns := [''a'', ''b'']\<rparr>,
     pd_matcher := \<lparr>md_contains = [], md_starts_with = None, md_regex = Some ''(?:.)|b'', md_priority = 0\<rparr>\<rparr>"

lemma updated_definition: "nf_definition updated = update_def" "nf_updates updated \<noteq> None"
  by (simp_all add: updated_def on_prior_def Let_def drifted_def report_def inferred_def_def plain_strategy_def prior_def_def
      candidate_def_def widened_def union_matcher_def matcher_side_def added_strategy_def all_patterns_def update_def_def
      escape_text_def any_engines_def)

theorem update_keeps_behaviour_witness:
  "\<exists>old new. from_definition any_engines prior_def = Inr old \<and> from_definition any_engines (nf_definition updated) = Inr new \<and>
     pd_version (nf_definition updated) = 4 + 1 \<and>
     parse_event any_engines new ''a'' epoch_start parsed_default = parse_event any_engines old ''a'' epoch_start parsed_default"
proof -
  have "\<not> isl (from_definition any_engines prior_def)" by code_simp
  then obtain old where old: "from_definition any_engines prior_def = Inr old" by (cases "from_definition any_engines prior_def") auto
  have "\<not> isl (from_definition any_engines update_def)" by code_simp
  then obtain new where new: "from_definition any_engines update_def = Inr new" by (cases "from_definition any_engines update_def") auto
  have "fst (parse_event any_engines (projr (from_definition any_engines prior_def)) ''a'' epoch_start parsed_default) = None" by code_simp
  then have ok: "fst (parse_event any_engines old ''a'' epoch_start parsed_default) = None" by (simp add: old)
  have p: "sd_kind (pd_strategy prior_def) = SPattern" "sd_regex (pd_strategy prior_def) = None" "pd_version prior_def = 4"
      "pd_syslog update_def = pd_syslog prior_def"
    by code_simp+
  have u: "nf_updates drifted = None" by (simp add: drifted_def report_def)
  show ?thesis
    using update_keeps_behaviour [OF p(2) updated_def u updated_definition(2) _ old _ ok, of new] p(3,4) old new
    by (simp add: updated_definition(1))
qed

text \<open>Where an update turns the stripping on, a line with a header loses it before the patterns of the prior see it.\<close>

lemma flip_changes_header:
  assumes "bsd_timestamp (en_regex E) ''login'' = None" "\<not> pd_syslog (pr_def old)" "pd_syslog (pr_def new)"
  shows "fst (parse_start E old ''<13>login'' out) = ''<13>login'' \<and> fst (parse_start E new ''<13>login'' out) = ''login''"
proof -
  have t: "trim_line_end ''<13>login'' = ''<13>login''" "strip_bom ''<13>login'' = ''<13>login''" "\<not> prefix ''1 '' ''login''"
      "syslog_pri ''<13>login'' = Some (''13'', 13, ''login'')"
    by code_simp+
  then show ?thesis using assms by (simp add: parse_start_def strip_syslog_def syslog_head_def rfc3164_def)
qed

text \<open>With a raw regular expression the added patterns come before it.\<close>

lemma added_before_regex:
  assumes "compile_patterns E (added_strategy st added) = Inr ds" "sd_regex st = Some r"
  shows "\<exists>xs d. ds = xs @ [d] \<and> collect_results (compile_pattern_text E (or_else (sd_anchor st) AStart)) (all_patterns st @ added) = Inr xs"
  using assms
  by (cases "from_raw_regex E r (or_else (sd_anchor st) AStart)")
    (auto simp: compile_patterns_def added_strategy_def Let_def split: sum.splits if_splits)

text \<open>A word that is not UTF-8 becomes a signature the lines it was taken from do not have.\<close>

lemma signature_of_latin_word:
  "(let w = ''caf'' @ [CHR 0xE9]; m = signature no_engines sample_arith [[\<lparr>tk_kind = TWord, tk_text = w\<rparr>]] []
    in md_contains m = [''caf'' @ [CHR 0xEF, CHR 0xBF, CHR 0xBD]] \<and> memmem (hd (md_contains m)) w = None)"
  by code_simp

end
