(* ===== verification/Ulpf_Buffers.thy ===== *)
theory Ulpf_Buffers
  imports Ulpf_Infer Ulpf_Mapping_Load
begin

text \<open>
  The buffers of unknown events, \<open>src/crates/ulpf/src/inference.rs\<close>: workers offer the events of a batch that
  no parser claimed, a bounded buffer per source keeps them, and the inference thread takes the sources
  that are due, infers from their lines in the order of the raw ids and writes the proposals. The lock makes
  each operation one step; the condition variable only decides when the thread looks and is left out.
\<close>

record buffer =
  bf_lines :: "(nat \<times> bytes) list"
  bf_added :: int
  bf_next_run :: nat
  bf_ran_at :: nat
  bf_prior :: "parser_def option"

record 'f inference =
  in_params :: "'f params"
  in_threshold :: nat
  in_max :: nat
  in_idle :: int
  in_live :: bool
  in_sources :: "(bytes \<times> buffer) list"
  in_stop :: bool

text \<open>The counters of \<open>Metrics\<close> the inference moves, and the two generations the server shows.\<close>

record tally =
  ta_buffered :: nat
  ta_full :: nat
  ta_runs :: nat
  ta_templated :: nat
  ta_unmatched :: nat
  ta_drift_proposals :: nat
  ta_written :: nat
  ta_replaced :: nat
  ta_skipped :: "bytes list"
  ta_pending_generation :: nat
  ta_drift_generation :: nat

definition tally_zero :: tally where
  "tally_zero = \<lparr>ta_buffered = 0, ta_full = 0, ta_runs = 0, ta_templated = 0, ta_unmatched = 0, ta_drift_proposals = 0,
     ta_written = 0, ta_replaced = 0, ta_skipped = [], ta_pending_generation = 0, ta_drift_generation = 0\<rparr>"

definition ordered :: "(nat \<times> bytes) list \<Rightarrow> bytes list" where
  "ordered ls = map snd (sort_key fst ls)"

definition inference_new :: "'f params \<Rightarrow> nat \<Rightarrow> nat \<Rightarrow> int \<Rightarrow> bool \<Rightarrow> 'f inference" where
  "inference_new p threshold max_buffer idle live =
     \<lparr>in_params = p, in_threshold = threshold, in_max = max max_buffer (max threshold 8), in_idle = idle, in_live = live,
      in_sources = [], in_stop = False\<rparr>"

definition enabled :: "'f inference \<Rightarrow> bool" where
  "enabled q \<longleftrightarrow> 0 < in_threshold q"

definition empty_buffer :: "int \<Rightarrow> nat \<Rightarrow> buffer" where
  "empty_buffer now threshold =
     \<lparr>bf_lines = [], bf_added = now, bf_next_run = threshold, bf_ran_at = 0, bf_prior = None\<rparr>"

definition buffer_or_new :: "int \<Rightarrow> 'f inference \<Rightarrow> buffer option \<Rightarrow> buffer" where
  "buffer_or_new now q b = (case b of Some b \<Rightarrow> b | None \<Rightarrow> empty_buffer now (in_threshold q))"

text \<open>The loop over the events of a batch: what fits is kept, what does not is counted.\<close>

fun take_in :: "nat \<Rightarrow> (nat \<times> bytes) list \<Rightarrow> (nat \<times> bytes) list \<Rightarrow> (nat \<times> bytes) list \<times> nat \<times> nat" where
  "take_in mx [] ls = (ls, 0, 0)"
| "take_in mx (e # es) ls =
     (if mx \<le> length ls then (let (r, added, full) = take_in mx es ls in (r, added, full + 1))
      else (let (r, added, full) = take_in mx es (ls @ [e]) in (r, added + 1, full)))"

definition offer_batch :: "int \<Rightarrow> bytes \<Rightarrow> (nat \<times> bytes) list \<Rightarrow> 'f inference \<times> tally \<Rightarrow> 'f inference \<times> tally" where
  "offer_batch now source events = (\<lambda>(q, t).
     if \<not> enabled q \<or> events = [] then (q, t)
     else (let buf = buffer_or_new now q (map_of (in_sources q) source);
               (ls, added, full) = take_in (in_max q) events (bf_lines buf);
               buf = buf\<lparr>bf_lines := ls, bf_added := (if 0 < added then now else bf_added buf)\<rparr>
           in (q\<lparr>in_sources := bt_entry source (\<lambda>_. buf) (in_sources q)\<rparr>,
               t\<lparr>ta_buffered := ta_buffered t + added, ta_full := ta_full t + full\<rparr>)))"

definition set_prior :: "int \<Rightarrow> bytes \<Rightarrow> parser_def \<Rightarrow> 'f inference \<Rightarrow> 'f inference" where
  "set_prior now source prior q =
     q\<lparr>in_sources := bt_entry source
        (\<lambda>b. (buffer_or_new now q b)\<lparr>bf_ran_at := 0, bf_next_run := in_threshold q, bf_added := now, bf_prior := Some prior\<rparr>)
        (in_sources q)\<rparr>"

definition prior_of :: "bytes \<Rightarrow> 'f inference \<Rightarrow> bytes option" where
  "prior_of source q = (case map_of (in_sources q) source of None \<Rightarrow> None | Some b \<Rightarrow> map_option pd_name (bf_prior b))"

definition buffered :: "'f inference \<Rightarrow> (bytes \<times> nat) list" where
  "buffered q = map (\<lambda>(k, b). (k, length (bf_lines b))) (in_sources q)"

definition buffered_lines :: "bytes \<Rightarrow> 'f inference \<Rightarrow> bytes list" where
  "buffered_lines source q = (case map_of (in_sources q) source of None \<Rightarrow> [] | Some b \<Rightarrow> ordered (bf_lines b))"

definition clear_buffer :: "bytes \<Rightarrow> 'f inference \<Rightarrow> 'f inference" where
  "clear_buffer source q = q\<lparr>in_sources := AList.delete source (in_sources q)\<rparr>"

definition stop_inference :: "'f inference \<Rightarrow> 'f inference" where
  "stop_inference q = q\<lparr>in_stop := True\<rparr>"

text \<open>The sources due for a run.\<close>

definition new_lines :: "'f inference \<Rightarrow> buffer \<Rightarrow> bool" where
  "new_lines q b \<longleftrightarrow> bf_ran_at b + pm_min_support (in_params q) \<le> length (bf_lines b)"

definition is_due :: "int \<Rightarrow> bool \<Rightarrow> 'f inference \<Rightarrow> buffer \<Rightarrow> bool" where
  "is_due now final_flush q b \<longleftrightarrow>
     (in_live q \<and> bf_next_run b \<le> length (bf_lines b)) \<or>
     (in_live q \<and> new_lines q b \<and> in_idle q \<le> now - bf_added b) \<or> (final_flush \<and> new_lines q b)"

definition mark_run :: "nat \<Rightarrow> buffer \<Rightarrow> buffer" where
  "mark_run threshold b =
     (let n = length (bf_lines b) in b\<lparr>bf_ran_at := n, bf_next_run := max (n * 2) (n + threshold)\<rparr>)"

type_synonym due_run = "bytes \<times> bytes list \<times> parser_def option"

definition take_due :: "int \<Rightarrow> bool \<Rightarrow> 'f inference \<Rightarrow> due_run list \<times> 'f inference" where
  "take_due now final_flush q =
     (map (\<lambda>(k, b). (k, ordered (bf_lines b), bf_prior b)) (filter (\<lambda>(_, b). is_due now final_flush q b) (in_sources q)),
      q\<lparr>in_sources := map (\<lambda>(k, b). (k, if is_due now final_flush q b then mark_run (in_threshold q) b else b)) (in_sources q)\<rparr>)"

text \<open>What a run needs besides the lines: the codecs of the pending directory, doubles and the value finder.\<close>

record 'f infer_env =
  ie_codecs :: codecs
  ie_arith :: "'f arith"
  ie_finder :: finder
  ie_params :: "'f params"
  ie_decisions :: "inferred \<Rightarrow> bytes list"

definition proposal_for :: "('f::linorder) infer_env \<Rightarrow> due_run \<Rightarrow> inferred" where
  "proposal_for V = (\<lambda>(source, lines, prior).
     let E = co_engines (ie_codecs V) in
     case prior of
       Some p \<Rightarrow> infer_with_prior E (ie_arith V) (ie_finder V) (ie_params V) source lines p
     | None \<Rightarrow> infer E (ie_arith V) (ie_finder V) (ie_params V) source lines)"

definition count_proposal :: "inferred \<Rightarrow> tally \<Rightarrow> tally" where
  "count_proposal r t =
     (let t = (if nf_updates r \<noteq> None
               then t\<lparr>ta_drift_proposals := ta_drift_proposals t + 1, ta_drift_generation := ta_drift_generation t + 1\<rparr> else t)
      in t\<lparr>ta_runs := ta_runs t + 1, ta_templated := ta_templated t + nf_used r, ta_unmatched := ta_unmatched t + nf_unmatched r\<rparr>)"

definition count_written :: "review_error + write_outcome \<Rightarrow> tally \<Rightarrow> tally" where
  "count_written w t =
     (case w of
        Inr Written \<Rightarrow> t\<lparr>ta_written := ta_written t + 1, ta_pending_generation := ta_pending_generation t + 1\<rparr>
      | Inr Replaced \<Rightarrow> t\<lparr>ta_replaced := ta_replaced t + 1, ta_pending_generation := ta_pending_generation t + 1\<rparr>
      | Inr other \<Rightarrow> (case skip_reason other of Some reason \<Rightarrow> t\<lparr>ta_skipped := ta_skipped t @ [reason]\<rparr> | None \<Rightarrow> t)
      | Inl _ \<Rightarrow> t)"

definition run_one :: "('f::linorder) infer_env \<Rightarrow> nat \<Rightarrow> due_run \<Rightarrow> review \<times> tally \<Rightarrow> review \<times> tally" where
  "run_one V now due = (\<lambda>(rv, t).
     let r = proposal_for V due;
         (w, rv) = write_proposal (ie_codecs V) now (proposal_of (ie_decisions V r) r) (fst (snd due)) rv
     in (rv, count_written w (count_proposal r t)))"

definition run_all :: "('f::linorder) infer_env \<Rightarrow> nat \<Rightarrow> due_run list \<Rightarrow> review \<times> tally \<Rightarrow> review \<times> tally" where
  "run_all V now dues s = fold (run_one V now) dues s"

text \<open>One round of the thread, and its end: \<open>stop\<close> is seen, every source with enough new lines runs, it returns.\<close>

definition thread_round ::
  "('f::linorder) infer_env \<Rightarrow> nat \<Rightarrow> 'f inference \<times> review \<times> tally \<Rightarrow> bool \<times> 'f inference \<times> review \<times> tally"
where
  "thread_round V now = (\<lambda>(q, s).
     if \<not> enabled q then (True, q, s)
     else (let (dues, q') = take_due (int now) (in_stop q) q in (in_stop q, q', run_all V now dues s)))"

subsection \<open>Buffers hold the first lines offered\<close>

datatype inference_op =
    Offered int bytes "(nat \<times> bytes) list"
  | Prior int bytes parser_def
  | Forget bytes
  | Round nat
  | Stop

type_synonym 'f inference_state = "'f inference \<times> review \<times> tally"

fun apply_op :: "('f::linorder) infer_env \<Rightarrow> inference_op \<Rightarrow> 'f inference_state \<Rightarrow> 'f inference_state" where
  "apply_op V (Offered now source events) (q, rv, t) =
     (let (q, t) = offer_batch now source events (q, t) in (q, rv, t))"
| "apply_op V (Prior now source def) (q, s) = (set_prior now source def q, s)"
| "apply_op V (Forget source) (q, s) = (clear_buffer source q, s)"
| "apply_op V (Round now) (q, s) = snd (thread_round V now (q, s))"
| "apply_op V Stop (q, s) = (stop_inference q, s)"

definition inference_ops :: "('f::linorder) infer_env \<Rightarrow> inference_op list \<Rightarrow> 'f inference_state \<Rightarrow> 'f inference_state" where
  "inference_ops V xs s = fold (apply_op V) xs s"

text \<open>The lines offered for a source since its buffer was last forgotten, and how many lines were offered in all.\<close>

fun since_cleared :: "bytes \<Rightarrow> inference_op \<Rightarrow> (nat \<times> bytes) list \<Rightarrow> (nat \<times> bytes) list" where
  "since_cleared k (Offered now source events) ls = (if source = k then ls @ events else ls)"
| "since_cleared k (Forget source) ls = (if source = k then [] else ls)"
| "since_cleared k _ ls = ls"

definition offered_for :: "bytes \<Rightarrow> inference_op list \<Rightarrow> (nat \<times> bytes) list" where
  "offered_for k xs = fold (since_cleared k) xs []"

fun op_lines :: "inference_op \<Rightarrow> nat" where
  "op_lines (Offered now source events) = length events"
| "op_lines _ = 0"

definition held_lines :: "'f inference \<Rightarrow> bytes \<Rightarrow> (nat \<times> bytes) list" where
  "held_lines q k = (case map_of (in_sources q) k of None \<Rightarrow> [] | Some b \<Rightarrow> bf_lines b)"

lemma take_in_eq:
  "take_in mx es ls = (ls @ take (mx - length ls) es, length (take (mx - length ls) es), length (drop (mx - length ls) es))"
proof (induction es arbitrary: ls)
  case (Cons e es)
  then show ?case
  proof (cases "mx - length ls")
    case (Suc n)
    then have "mx - Suc (length ls) = n" by simp
    then show ?thesis using Cons Suc by simp
  qed simp
qed simp

lemma map_of_map_value: "map_of (map (\<lambda>(k, b). (k, f b)) m) k = map_option f (map_of m k)"
  by (induction m) auto

lemma run_one_tally:
  "ta_buffered (snd (run_one V now d (rv, t))) = ta_buffered t \<and> ta_full (snd (run_one V now d (rv, t))) = ta_full t"
  by (auto simp: run_one_def count_written_def count_proposal_def Let_def
      split: prod.split sum.split write_outcome.split option.split)

lemma run_all_tally:
  "ta_buffered (snd (run_all V now ds (rv, t))) = ta_buffered t \<and> ta_full (snd (run_all V now ds (rv, t))) = ta_full t"
proof (induction ds arbitrary: rv t)
  case (Cons d ds)
  obtain rv' t' where "run_one V now d (rv, t) = (rv', t')" by fastforce
  then show ?case using Cons [of rv' t'] run_one_tally [of V now d rv t] by (simp add: run_all_def)
qed (simp add: run_all_def)

lemma held_offer:
  assumes "enabled q" "length (held_lines q source) \<le> in_max q"
  shows "held_lines (fst (offer_batch now source es (q, t))) k =
    (if source = k then take (in_max q) (held_lines q k @ es) else held_lines q k)"
    "ta_buffered (snd (offer_batch now source es (q, t))) + ta_full (snd (offer_batch now source es (q, t))) =
       ta_buffered t + ta_full t + length es"
    "in_max (fst (offer_batch now source es (q, t))) = in_max q"
    "enabled (fst (offer_batch now source es (q, t)))"
  using assms
  by (auto simp: offer_batch_def held_lines_def take_in_eq map_of_bt_entry buffer_or_new_def empty_buffer_def Let_def enabled_def
      split: option.split prod.split)

lemma held_other:
  "held_lines (set_prior now source d q) k = held_lines q k"
  "held_lines (clear_buffer source q) k = (if source = k then [] else held_lines q k)"
  "held_lines (snd (take_due at fl q)) k = held_lines q k"
  "held_lines (stop_inference q) k = held_lines q k"
  by (auto simp: held_lines_def set_prior_def clear_buffer_def take_due_def stop_inference_def map_of_bt_entry map_of_delete
      map_of_map_value mark_run_def buffer_or_new_def empty_buffer_def Let_def split: option.split)

lemma other_kept:
  "in_max (set_prior now source d q) = in_max q" "enabled (set_prior now source d q) = enabled q"
  "in_max (clear_buffer source q) = in_max q" "enabled (clear_buffer source q) = enabled q"
  "in_max (stop_inference q) = in_max q" "enabled (stop_inference q) = enabled q"
  by (simp_all add: enabled_def set_prior_def clear_buffer_def stop_inference_def)

definition buffers_exact :: "inference_op list \<Rightarrow> 'f inference_state \<Rightarrow> bool" where
  "buffers_exact xs = (\<lambda>(q, rv, t).
     enabled q \<and> (\<forall>k. held_lines q k = take (in_max q) (offered_for k xs)) \<and>
     ta_buffered t + ta_full t = sum_list (map op_lines xs))"

lemma buffers_exact_step:
  assumes "buffers_exact xs s"
  shows "buffers_exact (xs @ [x]) (apply_op V x s) \<and> in_max (fst (apply_op V x s)) = in_max (fst s)"
proof -
  obtain q rv t where s: "s = (q, rv, t)" by (metis prod_cases3)
  have e: "enabled q" and h: "held_lines q k = take (in_max q) (offered_for k xs)"
    and n: "ta_buffered t + ta_full t = sum_list (map op_lines xs)" for k
    using assms by (auto simp: s buffers_exact_def)
  show ?thesis
  proof (cases x)
    case (Offered now source es)
    have l: "length (held_lines q source) \<le> in_max q" by (simp add: h)
    show ?thesis
      using held_offer [OF e l, where now=now and es=es and t=t] n
      by (auto simp: s Offered buffers_exact_def offered_for_def h [unfolded offered_for_def] min_def split: prod.split)
  next
    case (Round now)
    obtain dues q' where d: "take_due (int now) (in_stop q) q = (dues, q')" by fastforce
    have q': "enabled q'" "in_max q' = in_max q" "held_lines q' k = held_lines q k" for k
      using e d held_other(3) [of "int now" "in_stop q" q k] by (auto simp: take_due_def enabled_def)
    show ?thesis using e q' n run_all_tally [of V now dues rv t]
      by (auto simp: s Round thread_round_def d buffers_exact_def offered_for_def h [unfolded offered_for_def] split: prod.split)
  next
    case (Prior now source d)
    then show ?thesis using e n h by (auto simp: s buffers_exact_def held_other other_kept offered_for_def)
  next
    case (Forget source)
    then show ?thesis using e n h by (auto simp: s buffers_exact_def held_other other_kept offered_for_def)
  next
    case Stop
    then show ?thesis using e n h by (auto simp: s buffers_exact_def held_other other_kept offered_for_def)
  qed
qed

text \<open>
  C24. Whatever the workers offer and the inference thread, drift and the reviewer do in between, the buffer
  of a source holds exactly the first lines offered for it since it was last cleared, as many as the bound
  allows, and every line offered is counted as buffered or as turned away.
\<close>

theorem buffers_hold_first_lines:
  assumes "0 < threshold"
  shows "let (q, rv', t) = inference_ops V xs (inference_new p threshold mb idle live, rv, tally_zero) in
     (\<forall>k. held_lines q k = take (max mb (max threshold 8)) (offered_for k xs)) \<and>
     ta_buffered t + ta_full t = sum_list (map op_lines xs)"
proof -
  let ?s = "(inference_new p threshold mb idle live, rv, tally_zero)"
  have "buffers_exact xs (inference_ops V xs ?s) \<and> in_max (fst (inference_ops V xs ?s)) = max mb (max threshold 8)"
  proof (induction xs rule: rev_induct)
    case Nil
    then show ?case using assms
      by (simp add: inference_ops_def buffers_exact_def inference_new_def enabled_def held_lines_def offered_for_def tally_zero_def)
  next
    case (snoc x xs)
    then show ?case using buffers_exact_step [of xs "inference_ops V xs ?s" x V] by (simp add: inference_ops_def)
  qed
  then show ?thesis by (auto simp: buffers_exact_def split: prod.splits)
qed

subsection \<open>The order of arrival does not matter\<close>

definition offer_all :: "(int \<times> bytes \<times> (nat \<times> bytes) list) list \<Rightarrow> 'f inference \<times> tally \<Rightarrow> 'f inference \<times> tally" where
  "offer_all xs s = fold (\<lambda>(now, source, events). offer_batch now source events) xs s"

definition tagged :: "(int \<times> bytes \<times> (nat \<times> bytes) list) list \<Rightarrow> (bytes \<times> nat \<times> bytes) list" where
  "tagged xs = concat (map (\<lambda>(now, source, events). map (Pair source) events) xs)"

definition source_lines :: "bytes \<Rightarrow> (bytes \<times> nat \<times> bytes) list \<Rightarrow> (nat \<times> bytes) list" where
  "source_lines k ls = map snd (filter (\<lambda>(s, _). s = k) ls)"

definition fresh_buffer :: "nat \<Rightarrow> (nat \<times> bytes) list \<Rightarrow> buffer \<Rightarrow> bool" where
  "fresh_buffer threshold ls b \<longleftrightarrow> bf_lines b = ls \<and> bf_ran_at b = 0 \<and> bf_prior b = None \<and> bf_next_run b = threshold"

definition offered_exactly :: "'f inference \<Rightarrow> tally \<Rightarrow> (bytes \<times> nat \<times> bytes) list \<Rightarrow> 'f inference \<times> tally \<Rightarrow> bool" where
  "offered_exactly q0 t0 ls = (\<lambda>(q, t).
     \<lparr>in_params = in_params q, in_threshold = in_threshold q, in_max = in_max q, in_idle = in_idle q, in_live = in_live q,
       in_sources = [], in_stop = in_stop q\<rparr> = q0 \<and>
     t = t0\<lparr>ta_buffered := ta_buffered t0 + length ls\<rparr> \<and>
     sorted (map fst (in_sources q)) \<and> distinct (map fst (in_sources q)) \<and>
     set (map fst (in_sources q)) = fst ` set ls \<and>
     (\<forall>(k, b) \<in> set (in_sources q). fresh_buffer (in_threshold q) (source_lines k ls) b))"

lemma offered_settings:
  "offered_exactly q0 t0 ls (q, t) \<Longrightarrow> in_threshold q = in_threshold q0 \<and> in_live q = in_live q0 \<and> in_params q = in_params q0"
  by (auto simp: offered_exactly_def)

lemma source_lines_append: "source_lines k (xs @ map (Pair s) es) = source_lines k xs @ (if s = k then es else [])"
  by (auto simp: source_lines_def filter_map comp_def)

lemma offered_exactly_step:
  assumes "offered_exactly q0 t0 ls (q, t)" "enabled q0" "length (source_lines source ls @ es) \<le> in_max q0"
  shows "offered_exactly q0 t0 (ls @ map (Pair source) es) (offer_batch now source es (q, t))"
proof (cases "es = []")
  case False
  have c: "in_threshold q = in_threshold q0" "in_max q = in_max q0" and s: "sorted (map fst (in_sources q))" "distinct (map fst (in_sources q))"
      "fst ` set (in_sources q) = fst ` set ls"
    and f: "\<And>k b. (k, b) \<in> set (in_sources q) \<Longrightarrow> fresh_buffer (in_threshold q) (source_lines k ls) b"
    using assms(1) by (auto simp: offered_exactly_def)
  define buf where "buf = buffer_or_new now q (map_of (in_sources q) source)"
  have "fresh_buffer (in_threshold q) (source_lines source ls) buf"
  proof (cases "map_of (in_sources q) source")
    case None
    then have "source_lines source ls = []" using s(3)
      by (force simp: map_of_eq_None_iff source_lines_def filter_empty_conv)
    then show ?thesis by (simp add: buf_def None buffer_or_new_def empty_buffer_def fresh_buffer_def)
  next
    case (Some b)
    then show ?thesis using f [of source b] by (auto simp: buf_def buffer_or_new_def dest: map_of_SomeD)
  qed
  then have b: "bf_lines buf = source_lines source ls" "bf_ran_at buf = 0" "bf_prior buf = None" "bf_next_run buf = in_threshold q"
    by (auto simp: fresh_buffer_def)
  have fit: "take_in (in_max q) es (bf_lines buf) = (source_lines source ls @ es, length es, 0)"
    using assms(3) by (simp add: take_in_eq b c)
  define new where "new = buf\<lparr>bf_lines := source_lines source ls @ es, bf_added := now\<rparr>"
  have off: "offer_batch now source es (q, t) =
      (q\<lparr>in_sources := bt_entry source (\<lambda>_. new) (in_sources q)\<rparr>, t\<lparr>ta_buffered := ta_buffered t + length es\<rparr>)"
    using assms(2) False by (simp add: offer_batch_def enabled_def c fit [unfolded c] flip: buf_def) (simp add: new_def)
  show ?thesis
    unfolding off offered_exactly_def case_prod_conv
  proof (intro conjI ballI)
    fix x assume xin: "x \<in> set (in_sources (q\<lparr>in_sources := bt_entry source (\<lambda>_. new) (in_sources q)\<rparr>))"
    obtain k nb where x: "x = (k, nb)" by fastforce
    have "(k, nb) \<in> set (bt_entry source (\<lambda>_. new) (in_sources q))" using xin by (simp add: x)
    from bt_entry_in [OF s(2) this s(1)] have "k = source \<and> nb = new \<or> k \<noteq> source \<and> (k, nb) \<in> set (in_sources q)" .
    then show "case x of (k, b) \<Rightarrow> fresh_buffer (in_threshold (q\<lparr>in_sources := bt_entry source (\<lambda>_. new) (in_sources q)\<rparr>))
        (source_lines k (ls @ map (Pair source) es)) b"
      using f [of k nb] b by (auto simp: x source_lines_append fresh_buffer_def new_def)
  qed (use assms(1) bt_entry_keys [OF s(1,2), of source "\<lambda>_. new"] False in \<open>auto simp: offered_exactly_def image_Un image_image image_constant_conv\<close>)
qed (use assms in \<open>simp add: offer_batch_def\<close>)

lemma tagged_snoc: "tagged (xs @ [(now, source, es)]) = tagged xs @ map (Pair source) es"
  by (simp add: tagged_def)

lemma source_lines_mono: "length (source_lines k xs) \<le> length (source_lines k (xs @ ys))"
  by (simp add: source_lines_def)

lemma offered_exactly_all:
  assumes "in_sources q0 = []" "enabled q0" "\<And>k. length (source_lines k (tagged xs)) \<le> in_max q0"
  shows "offered_exactly q0 t0 (tagged xs) (offer_all xs (q0, t0))"
  using assms(3)
proof (induction xs rule: rev_induct)
  case Nil
  then show ?case using assms(1) by (simp add: offer_all_def offered_exactly_def tagged_def)
next
  case (snoc x xs)
  obtain now source es where x: "x = (now, source, es)" by (metis prod_cases3)
  obtain q t where q: "offer_all xs (q0, t0) = (q, t)" by fastforce
  have "length (source_lines k (tagged xs)) \<le> in_max q0" for k
    using snoc.prems [of k] source_lines_mono [of k "tagged xs" "map (Pair source) es"] unfolding x tagged_snoc by linarith
  from snoc.IH [OF this] have "offered_exactly q0 t0 (tagged xs) (q, t)" by (simp add: q)
  from offered_exactly_step [OF this assms(2), of source es now] snoc.prems [of source] show ?case
    by (simp add: x tagged_snoc source_lines_append offer_all_def) (simp add: q [unfolded offer_all_def])
qed

text \<open>What the last round takes: every source with enough lines, in the order of the names.\<close>

definition last_due :: "nat \<Rightarrow> (bytes \<times> nat \<times> bytes) list \<Rightarrow> due_run list" where
  "last_due support ls =
     map (\<lambda>k. (k, ordered (source_lines k ls), None))
       (filter (\<lambda>k. support \<le> length (source_lines k ls)) (sorted_list_of_set (fst ` set ls)))"

lemma due_of_offered:
  assumes "offered_exactly q0 t0 ls (q, t)" "\<not> in_live q0"
  shows "fst (take_due now True (stop_inference q)) = last_due (pm_min_support (in_params q0)) ls"
proof -
  have c: "in_params q = in_params q0" "in_live q = in_live q0" and s: "sorted (map fst (in_sources q))" "distinct (map fst (in_sources q))"
      "set (map fst (in_sources q)) = fst ` set ls"
    and f: "\<And>k b. (k, b) \<in> set (in_sources q) \<Longrightarrow> fresh_buffer (in_threshold q) (source_lines k ls) b"
    using assms(1) by (auto simp: offered_exactly_def)
  have keys: "sorted_list_of_set (fst ` set ls) = map fst (in_sources q)"
    using s by (metis sorted_list_of_set.idem_if_sorted_distinct)
  have "map (\<lambda>(k, b). (k, ordered (bf_lines b), bf_prior b)) (filter (\<lambda>(_, b). is_due now True (stop_inference q) b) m) =
      map (\<lambda>k. (k, ordered (source_lines k ls), None)) (filter (\<lambda>k. pm_min_support (in_params q0) \<le> length (source_lines k ls)) (map fst m))"
    if "set m \<subseteq> set (in_sources q)" for m
    using that
  proof (induction m)
    case (Cons x m)
    then have "fresh_buffer (in_threshold q) (source_lines (fst x) ls) (snd x)" using f [of "fst x" "snd x"] by auto
    then show ?case using Cons assms(2)
      by (auto simp: fresh_buffer_def is_due_def new_lines_def stop_inference_def c split: prod.split)
  qed simp
  from this [of "in_sources q"] show ?thesis by (simp add: take_due_def last_due_def keys stop_inference_def)
qed

lemma ordered_mset:
  assumes "mset a = mset b" "distinct (map fst a)" shows "ordered a = ordered b"
proof -
  have "sort_key fst a = sort_key fst b"
    using assms by (intro sort_key_inj_key_eq) (auto simp: distinct_map)
  then show ?thesis by (simp add: ordered_def)
qed

lemma last_due_mset:
  assumes "mset a = mset b" "distinct (map (fst \<circ> snd) a)" shows "last_due n a = last_due n b"
proof -
  have m: "mset (source_lines k a) = mset (source_lines k b)" for k
    using assms(1) by (simp add: source_lines_def)
  have "distinct (map fst (source_lines k a))" for k
    using distinct_filter [of "map (fst \<circ> snd) a"] assms(2) by (simp add: source_lines_def) (metis distinct_map_filter)
  then have "ordered (source_lines k a) = ordered (source_lines k b)" "length (source_lines k a) = length (source_lines k b)" for k
    using ordered_mset m mset_eq_length by blast+
  moreover have "set a = set b" using assms(1) by (metis set_mset_mset)
  ultimately show ?thesis by (simp add: last_due_def)
qed

text \<open>
  C23. The order in which the workers' batches arrive does not change what is inferred: when inference runs at
  the end and the same unclaimed events are offered, cut into batches in any way and in any order, and no
  buffer overflows, then the last round of the thread leaves the same pending directory and the same counters.
\<close>

theorem arrival_order_irrelevant:
  assumes "0 < threshold" "mset (tagged xs) = mset (tagged ys)" "distinct (map (fst \<circ> snd) (tagged xs))"
    "\<And>k. length (source_lines k (tagged xs)) \<le> max mb (max threshold 8)"
  shows "let q0 = inference_new p threshold mb idle False;
      final = (\<lambda>zs. let (q, t) = offer_all zs (q0, t0) in snd (snd (thread_round V now (stop_inference q, rv, t))))
    in final xs = final ys"
proof -
  let ?q = "inference_new p threshold mb idle False"
  have q: "in_sources ?q = []" "enabled ?q" "in_max ?q = max mb (max threshold 8)" "\<not> in_live ?q"
    using assms(1) by (simp_all add: inference_new_def enabled_def)
  have len: "length (source_lines k (tagged ys)) = length (source_lines k (tagged xs))" for k
    using assms(2) by (simp add: source_lines_def) (metis mset_filter size_mset)
  have final: "snd (snd (thread_round V now (stop_inference (fst (offer_all zs (?q, t0))), rv, snd (offer_all zs (?q, t0))))) =
      run_all V now (last_due (pm_min_support p) (tagged zs)) (rv, t0\<lparr>ta_buffered := ta_buffered t0 + length (tagged zs)\<rparr>)"
    if "zs = xs \<or> zs = ys" for zs
  proof -
    obtain q' t where o: "offer_all zs (?q, t0) = (q', t)" by fastforce
    have e: "offered_exactly ?q t0 (tagged zs) (q', t)"
      using offered_exactly_all [OF q(1,2), of zs t0] that assms(4) by (auto simp: q o len)
    moreover have "in_threshold q' = in_threshold ?q" using offered_settings [OF e] by simp
    then have "enabled (stop_inference q')" "in_stop (stop_inference q')"
      using q(2) by (auto simp: enabled_def stop_inference_def)
    moreover obtain q2 where "take_due (int now) True (stop_inference q') = (last_due (pm_min_support p) (tagged zs), q2)"
      using due_of_offered [OF e q(4), of "int now"] by (metis inference_new_def inference.select_convs(1) prod.collapse)
    moreover have "t = t0\<lparr>ta_buffered := ta_buffered t0 + length (tagged zs)\<rparr>" using e by (simp add: offered_exactly_def)
    ultimately show ?thesis by (simp add: o thread_round_def)
  qed
  have "last_due (pm_min_support p) (tagged xs) = last_due (pm_min_support p) (tagged ys)" "length (tagged xs) = length (tagged ys)"
    using last_due_mset [OF assms(2,3)] assms(2) by (auto dest: mset_eq_length)
  then show ?thesis using final [of xs] final [of ys] by (simp add: Let_def split_beta)
qed

lemma buffers_hold_first_lines_witness:
  "\<forall>V rv. let xs = [Offered 0 ''a'' [(1, ''x'')], Offered 0 ''b'' [(2, ''y'')], Forget ''b'', Offered 1 ''a'' [(0, ''z'')]];
     (q, rv', t) = inference_ops V xs (inference_new sample_params 2 0 5 False, rv, tally_zero)
   in held_lines q ''a'' = [(1, ''x''), (0, ''z'')] \<and> held_lines q ''b'' = [] \<and> ta_buffered t + ta_full t = 3"
proof (intro allI)
  fix V :: "nat infer_env" and rv :: review
  let ?xs = "[Offered 0 ''a'' [(1, ''x'')], Offered 0 ''b'' [(2, ''y'')], Forget ''b'', Offered 1 ''a'' [(0, ''z'')]]"
  show "let xs = ?xs; (q, rv', t) = inference_ops V xs (inference_new sample_params 2 0 5 False, rv, tally_zero)
   in held_lines q ''a'' = [(1, ''x''), (0, ''z'')] \<and> held_lines q ''b'' = [] \<and> ta_buffered t + ta_full t = 3"
    using buffers_hold_first_lines [of 2 V ?xs sample_params 0 5 False rv] by (auto simp: offered_for_def)
qed

lemma arrival_order_irrelevant_witness:
  "\<forall>V rv t0. let q0 = inference_new sample_params 2 0 5 False;
      final = (\<lambda>zs. let (q, t) = offer_all zs (q0, t0) in snd (snd (thread_round V 9 (stop_inference q, rv, t))))
    in final [(0, ''a'', [(1, ''x''), (2, ''y'')]), (0, ''b'', [(3, ''z'')])] =
       final [(4, ''b'', [(3, ''z'')]), (5, ''a'', [(2, ''y'')]), (6, ''a'', [(1, ''x'')])]"
proof (intro allI)
  fix V :: "nat infer_env" and rv t0
  let ?xs = "[(0, ''a'', [(1, ''x''), (2, ''y'')]), (0, ''b'', [(3, ''z'')])]"
  let ?ys = "[(4, ''b'', [(3, ''z'')]), (5, ''a'', [(2, ''y'')]), (6, ''a'', [(1, ''x'')])]"
  have "mset (tagged ?xs) = mset (tagged ?ys)" "distinct (map (fst \<circ> snd) (tagged ?xs))"
    "length (source_lines k (tagged ?xs)) \<le> max 0 (max 2 8)" for k
    by (simp_all add: tagged_def source_lines_def)
  from arrival_order_irrelevant [where threshold=2 and p=sample_params and idle=5 and ?t0.0=t0 and V=V and now=9 and rv=rv, OF _ this]
  show "let q0 = inference_new sample_params 2 0 5 False;
      final = (\<lambda>zs. let (q, t) = offer_all zs (q0, t0) in snd (snd (thread_round V 9 (stop_inference q, rv, t))))
    in final ?xs = final ?ys" by simp
qed

end
