(* ===== verification/Ulpf_Live.thy ===== *)
theory Ulpf_Live
  imports Ulpf_Drift Ulpf_Buffers
begin

text \<open>
  What the engine of \<open>src/crates/ulpf/src/engine.rs\<close> does around the pipeline: the statistics of a worker's
  batch and where its misses go, drift (\<open>on_trip\<close>, \<open>judge_quiet_sources\<close>, \<open>clear_drift\<close>,
  \<open>drift_alerts\<close>), the reload of the parsers, and the review calls that change them. Each is one step here;
  in the code it is a sequence of short critical sections. The version meta written at a reload, the
  threads and the server's feed are outside the model.
\<close>

record 'f live =
  lv_pipeline :: pipeline
  lv_sources :: "(bytes \<times> source_stats) list"
  lv_inference :: "'f inference"
  lv_review :: review
  lv_pending :: bool
  lv_tally :: tally
  lv_hits :: "(bytes \<times> nat) list"
  lv_drift_tripped :: nat
  lv_drift_cleared :: nat
  lv_drift_routed :: nat
  lv_approved :: nat
  lv_rejected :: nat
  lv_reloads :: nat
  lv_generation :: nat
  lv_problems :: "bytes list"
  lv_excluded :: "bytes set"
  lv_files_excluded :: nat

text \<open>
  What a step needs besides the state: the inference's parameters, the two directories, what loading the
  mappings returns now, SHA-256, the schema asked for and the offset of times without a zone.
\<close>

record 'f live_env =
  le_infer :: "'f infer_env"
  le_parsers_dir :: bytes
  le_mappings_dir :: bytes
  le_maps :: "mapping_report option"
  le_map_digests :: "(bytes \<times> bytes) list"
  le_hash :: "bytes \<Rightarrow> bytes"
  le_schema :: "bytes option"
  le_offset :: int

definition index_of :: "registry \<Rightarrow> bytes \<Rightarrow> nat option" where
  "index_of reg name = position (\<lambda>p. parser_name p = name) (rg_parsers reg)"

definition parser_names :: "'f live \<Rightarrow> bytes list" where
  "parser_names lv = map parser_name (rg_parsers (pl_registry (lv_pipeline lv)))"

subsection \<open>Drift\<close>

definition drift_changed :: "tally \<Rightarrow> tally" where
  "drift_changed t = t\<lparr>ta_drift_generation := ta_drift_generation t + 1\<rparr>"

definition pending_changed :: "tally \<Rightarrow> tally" where
  "pending_changed t = t\<lparr>ta_pending_generation := ta_pending_generation t + 1\<rparr>"

text \<open>The misses of a source that trips go to inference with its parser as prior, when it is still loaded.\<close>

definition on_trip :: "int \<Rightarrow> bytes \<Rightarrow> bytes \<Rightarrow> 'f live \<Rightarrow> 'f live" where
  "on_trip now source parser lv =
     (let reg = pl_registry (lv_pipeline lv);
          lv = (case index_of reg parser of
                  Some i \<Rightarrow> lv\<lparr>lv_inference := set_prior now source (pr_def (rg_parsers reg ! i)) (lv_inference lv)\<rparr>
                | None \<Rightarrow> lv)
      in lv\<lparr>lv_drift_tripped := lv_drift_tripped lv + 1, lv_tally := drift_changed (lv_tally lv)\<rparr>)"

definition judge_quiet_sources :: "int \<Rightarrow> 'f live \<Rightarrow> 'f live" where
  "judge_quiet_sources now lv =
     (let judged = map (\<lambda>(k, s). (k, judge_quiet now s)) (lv_sources lv);
          lv = lv\<lparr>lv_sources := map (\<lambda>(k, _, s). (k, s)) judged\<rparr>;
          tripped = List.map_filter (\<lambda>(k, t, _). map_option (Pair k) t) judged
      in fold (\<lambda>(k, parser). on_trip now k parser) tripped lv)"

definition clear_drift :: "int \<Rightarrow> bytes \<Rightarrow> 'f live \<Rightarrow> 'f live" where
  "clear_drift now source lv =
     (case map_of (lv_sources lv) source of
        Some s \<Rightarrow>
          if routing s
          then lv\<lparr>lv_sources := AList.update source (reset_drift now s) (lv_sources lv),
                  lv_drift_cleared := lv_drift_cleared lv + 1, lv_tally := drift_changed (lv_tally lv)\<rparr>
          else lv
      | None \<Rightarrow> lv)"

record drift_alert =
  da_source :: bytes
  da_parser :: bytes
  da_state :: drift_state
  da_since :: bytes
  da_events :: nat
  da_misses :: nat
  da_rate :: rat
  da_baseline_rate :: rat
  da_lines_routed :: nat
  da_pending :: "bytes option"
  da_version :: "nat option"

text \<open>The alert of one source; a routed source with an update waiting in review is shown as proposed.\<close>

definition alert_of :: "codecs \<Rightarrow> bool \<Rightarrow> bytes \<times> source_stats \<Rightarrow> review \<Rightarrow> drift_alert \<times> review" where
  "alert_of C pending = (\<lambda>(name, s) rv.
     let ((pid, version, state), rv) =
       (if pending \<and> routing s then
          (case get_detail C (id_for name) rv of
             (Inr d, rv) \<Rightarrow>
               if rc_updates (dt_record d) \<noteq> None
               then ((Some (id_for name), (case co_toml C (dt_definition d) of Inr p \<Rightarrow> Some (pd_version p) | Inl _ \<Rightarrow> None), Proposed), rv)
               else ((None, None, Tripped), rv)
           | (Inl _, rv) \<Rightarrow> ((None, None, Tripped), rv))
        else ((None, None, st_drift s), rv))
     in (\<lparr>da_source = name, da_parser = (case established_parser s of Some p \<Rightarrow> p | None \<Rightarrow> []), da_state = state,
          da_since = (if 0 < st_since s then format_rfc3339 (st_since s) else []), da_events = st_window_events s,
          da_misses = st_window_misses s, da_rate = st_window_rate s, da_baseline_rate = baseline_rate s,
          da_lines_routed = st_lines_routed s, da_pending = pid, da_version = version\<rparr>, rv))"

definition alert_rank :: "drift_state \<Rightarrow> nat" where
  "alert_rank d = (case d of Tripped \<Rightarrow> 0 | Proposed \<Rightarrow> 1 | Cleared \<Rightarrow> 2 | _ \<Rightarrow> 3)"

definition drift_alerts :: "codecs \<Rightarrow> 'f live \<Rightarrow> drift_alert list \<times> 'f live" where
  "drift_alerts C lv =
     (let (out, rv) = foldl (\<lambda>(out, rv) x. let (a, rv) = alert_of C (lv_pending lv) x rv in (out @ [a], rv)) ([], lv_review lv)
                        (filter (\<lambda>(_, s). st_drift s \<noteq> Undrifted) (lv_sources lv))
      in (sort_key (\<lambda>a. alert_rank (da_state a)) out, lv\<lparr>lv_review := rv\<rparr>))"

subsection \<open>A batch after the pipeline\<close>

definition named_hits :: "pipeline \<Rightarrow> worker_state \<Rightarrow> (bytes \<times> nat) list" where
  "named_hits pl w = zip (map parser_name (rg_parsers (pl_registry pl))) (ws_hits w)"

definition add_hits :: "(bytes \<times> nat) list \<Rightarrow> (bytes \<times> nat) list \<Rightarrow> (bytes \<times> nat) list" where
  "add_hits hits m =
     foldl (\<lambda>m (name, h). if 0 < h then bt_entry name (\<lambda>n. case n of None \<Rightarrow> h | Some n \<Rightarrow> n + h) m else m) m hits"

definition offer :: "int \<Rightarrow> bytes \<Rightarrow> (nat \<times> bytes) list \<Rightarrow> 'f live \<Rightarrow> 'f live" where
  "offer now source es lv =
     (let (q, t) = offer_batch now source es (lv_inference lv, lv_tally lv) in lv\<lparr>lv_inference := q, lv_tally := t\<rparr>)"

text \<open>The numbers of the source are those of its first event's; what is offered goes under the batch's name.\<close>

definition stats_of :: "bytes \<Rightarrow> 'f live \<Rightarrow> source_stats" where
  "stats_of k lv = (case map_of (lv_sources lv) k of Some s \<Rightarrow> s | None \<Rightarrow> stats_default)"

definition batch_stats :: "int \<Rightarrow> pipeline \<Rightarrow> batch \<Rightarrow> worker_state \<Rightarrow> source_stats \<Rightarrow> (bytes option \<times> bool) \<times> source_stats" where
  "batch_stats now pl b w s =
     record_batch now (length (bt_ranges b)) (lc_detected (ws_counts w)) (lc_no_parser (ws_counts w))
       (sum_list (lc_parse_failed (ws_counts w))) (named_hits pl w) (length (ws_unknown w) + length (ws_failed w)) s"

definition after_batch :: "int \<Rightarrow> pipeline \<Rightarrow> batch \<Rightarrow> worker_state \<Rightarrow> 'f live \<Rightarrow> 'f live" where
  "after_batch now pl b w lv =
     (let lv = offer now (bt_name b) (ws_unknown w) lv;
          k = batch_source b 0;
          ((tripped, routed), s) = batch_stats now pl b w (stats_of k lv);
          lv = lv\<lparr>lv_sources := bt_entry k (\<lambda>_. s) (lv_sources lv)\<rparr>;
          lv = (case tripped of Some parser \<Rightarrow> on_trip now (bt_name b) parser lv | None \<Rightarrow> lv);
          lv = (if routed
                then (let lv = offer now (bt_name b) (ws_failed w) lv
                      in lv\<lparr>lv_drift_routed := lv_drift_routed lv + (length (ws_unknown w) + length (ws_failed w))\<rparr>)
                else lv)
      in lv\<lparr>lv_hits := add_hits (named_hits pl w) (lv_hits lv)\<rparr>)"

subsection \<open>Review\<close>

definition parser_file :: "'f live_env \<Rightarrow> bytes \<Rightarrow> bytes" where
  "parser_file L name = le_parsers_dir L @ ''/'' @ name @ ''.toml''"

definition live_codecs :: "'f live_env \<Rightarrow> codecs" where
  "live_codecs L = ie_codecs (le_infer L)"

text \<open>Reading a definition file; \<open>bad\<close> are the files that cannot be read now.\<close>

definition read_definition :: "'f live_env \<Rightarrow> (bytes \<Rightarrow> bool) \<Rightarrow> review \<Rightarrow> bytes \<Rightarrow> bytes + bytes" where
  "read_definition L bad rv f =
     (case find (\<lambda>(n, _). parser_file L n = f) (rv_parsers rv) of
        Some (_, t) \<Rightarrow> if bad f then Inl ''unreadable'' else Inr t
      | None \<Rightarrow> Inl ''no such file'')"

definition parsers_report :: "'f live_env \<Rightarrow> (bytes \<Rightarrow> bool) \<Rightarrow> review \<Rightarrow> load_report" where
  "parsers_report L bad rv =
     load_dir (co_engines (live_codecs L)) (co_toml (live_codecs L)) (read_definition L bad rv)
       (map (\<lambda>(n, _). parser_file L n) (rv_parsers rv))"

record reload_report =
  rr_parsers :: nat
  rr_problems :: "bytes list"
  rr_generation :: nat

definition reload_parsers :: "'f live_env \<Rightarrow> (bytes \<Rightarrow> bool) \<Rightarrow> 'f live \<Rightarrow> reload_report \<times> 'f live" where
  "reload_parsers L bad lv =
     (case pipeline_load (le_parsers_dir L) (le_mappings_dir L) (Some (parsers_report L bad (lv_review lv))) (le_maps L)
             (digest_dir (le_hash L) (\<lambda>p. case read_definition L bad (lv_review lv) p of Inr t \<Rightarrow> Some t | Inl _ \<Rightarrow> None)
                (map (\<lambda>(n, _). parser_file L n) (rv_parsers (lv_review lv))))
             (le_map_digests L) (le_schema L) (le_offset L) of
        Inr (pl, problems) \<Rightarrow>
          (\<lparr>rr_parsers = length (rg_parsers (pl_registry pl)), rr_problems = problems, rr_generation = lv_generation lv + 1\<rparr>,
           lv\<lparr>lv_pipeline := pl, lv_problems := problems, lv_reloads := lv_reloads lv + 1, lv_generation := lv_generation lv + 1\<rparr>)
      | Inl e \<Rightarrow>
          (\<lparr>rr_parsers = length (rg_parsers (pl_registry (lv_pipeline lv))),
            rr_problems = [''reload failed, previous registry kept: '' @ e], rr_generation = lv_generation lv\<rparr>, lv))"

record approve_report =
  ar_name :: bytes
  ar_loaded :: nat
  ar_problems :: "bytes list"
  ar_tested :: nat
  ar_detected :: nat
  ar_replaced :: "nat option"

definition no_pending :: review_error where
  "no_pending = NotFound ''inference is disabled: no pending directory''"

definition now_detected :: "engines \<Rightarrow> registry \<Rightarrow> bytes \<Rightarrow> bytes list \<Rightarrow> nat" where
  "now_detected E reg name lines =
     (let idx = index_of reg name in length (filter (\<lambda>l. idx \<noteq> None \<and> detect (en_regex E) reg l idx = idx) lines))"

definition live_approve ::
  "'f live_env \<Rightarrow> (bytes \<Rightarrow> bool) \<Rightarrow> int \<Rightarrow> bytes \<Rightarrow> nat \<Rightarrow> 'f live \<Rightarrow> (review_error + approve_report) \<times> 'f live"
where
  "live_approve L bad now pid stamp lv =
     (if \<not> lv_pending lv then (Inl no_pending, lv)
      else (let (lines, rv) = pending_lines pid (lv_review lv) in
            case approve (live_codecs L) pid stamp (parser_names lv) rv of
              (Inl e, rv) \<Rightarrow> (Inl e, lv\<lparr>lv_review := rv\<rparr>)
            | (Inr a, rv) \<Rightarrow>
                (let lv = lv\<lparr>lv_review := rv\<rparr>;
                     lines = (if lines = [] then buffered_lines (ap_source a) (lv_inference lv) else lines);
                     (reload, lv) = reload_parsers L bad lv;
                     n = now_detected (co_engines (live_codecs L)) (pl_registry (lv_pipeline lv)) (ap_name a) lines;
                     lv = clear_drift now (ap_source a) (lv\<lparr>lv_inference := clear_buffer (ap_source a) (lv_inference lv)\<rparr>)
                 in (Inr \<lparr>ar_name = ap_name a, ar_loaded = rr_parsers reload, ar_problems = rr_problems reload,
                          ar_tested = length lines, ar_detected = n, ar_replaced = ap_replaced_version a\<rparr>,
                     lv\<lparr>lv_approved := lv_approved lv + 1, lv_tally := pending_changed (lv_tally lv)\<rparr>))))"

definition live_reject :: "'f live_env \<Rightarrow> int \<Rightarrow> bytes \<Rightarrow> nat \<Rightarrow> 'f live \<Rightarrow> (review_error + kept_name) \<times> 'f live" where
  "live_reject L now pid stamp lv =
     (if \<not> lv_pending lv then (Inl no_pending, lv)
      else (let (d, rv) = get_detail (live_codecs L) pid (lv_review lv);
                source = (case d of Inr d \<Rightarrow> Some (rc_source (dt_record d)) | Inl _ \<Rightarrow> None) in
            case reject_proposal (live_codecs L) pid stamp rv of
              (Inl e, rv) \<Rightarrow> (Inl e, lv\<lparr>lv_review := rv\<rparr>)
            | (Inr moved, rv) \<Rightarrow>
                (let lv = lv\<lparr>lv_review := rv\<rparr>;
                     lv = (case source of
                             Some k \<Rightarrow> clear_drift now k (lv\<lparr>lv_inference := clear_buffer k (lv_inference lv)\<rparr>)
                           | None \<Rightarrow> lv)
                 in (Inr moved, lv\<lparr>lv_rejected := lv_rejected lv + 1, lv_tally := pending_changed (lv_tally lv)\<rparr>))))"

definition live_regenerate ::
  "('f::linorder) live_env \<Rightarrow> bytes \<Rightarrow> nat list \<Rightarrow> nat list list \<Rightarrow> 'f live \<Rightarrow> (review_error + bytes \<times> bytes list) \<times> 'f live"
where
  "live_regenerate L pid keep groups lv =
     (if \<not> lv_pending lv then (Inl no_pending, lv)
      else let E = co_engines (live_codecs L) in
           case regenerate (live_codecs L) (merger_of E (ie_finder (le_infer L)) (in_params (lv_inference lv))) pid keep groups (lv_review lv) of
             (Inl e, rv) \<Rightarrow> (Inl e, lv\<lparr>lv_review := rv\<rparr>)
           | (Inr r, rv) \<Rightarrow> (Inr r, lv\<lparr>lv_review := rv, lv_tally := pending_changed (lv_tally lv)\<rparr>))"

definition live_put_text :: "'f live_env \<Rightarrow> bytes \<Rightarrow> bytes \<Rightarrow> 'f live \<Rightarrow> (review_error + bytes list) \<times> 'f live" where
  "live_put_text L pid t lv =
     (if \<not> lv_pending lv then (Inl no_pending, lv)
      else case put_text (live_codecs L) pid t (lv_review lv) of
             (Inl e, rv) \<Rightarrow> (Inl e, lv\<lparr>lv_review := rv\<rparr>)
           | (Inr r, rv) \<Rightarrow> (Inr r, lv\<lparr>lv_review := rv, lv_tally := pending_changed (lv_tally lv)\<rparr>))"

subsection \<open>Files the filter kept out\<close>

definition excluded_cap :: nat where "excluded_cap = 10000"

fun note_excluded :: "(bytes \<times> bytes) list \<Rightarrow> 'f live \<Rightarrow> 'f live" where
  "note_excluded [] lv = lv"
| "note_excluded ((f, pattern) # xs) lv =
     (if excluded_cap \<le> card (lv_excluded lv) then lv
      else (let x = f @ '' ('' @ pattern @ '')'' in
            if x \<in> lv_excluded lv then note_excluded xs lv
            else note_excluded xs (lv\<lparr>lv_excluded := insert x (lv_excluded lv), lv_files_excluded := lv_files_excluded lv + 1\<rparr>)))"

subsection \<open>Where the misses of a batch go\<close>

lemma held_offer_any:
  assumes "0 < in_threshold q" "\<And>k. length (held_lines q k) \<le> in_max q"
  shows "held_lines (fst (offer_batch now source es (q, t))) k =
      (if source = k then take (in_max q) (held_lines q k @ es) else held_lines q k) \<and>
    in_max (fst (offer_batch now source es (q, t))) = in_max q \<and>
    in_threshold (fst (offer_batch now source es (q, t))) = in_threshold q"
  using held_offer [of q source, where now=now and es=es and t=t] assms
  by (auto simp: enabled_def offer_batch_def Let_def split: prod.split)

lemma prior_offer: "prior_of k (fst (offer_batch now source es (q, t))) = prior_of k q"
  by (auto simp: offer_batch_def prior_of_def map_of_bt_entry buffer_or_new_def empty_buffer_def Let_def
      split: option.split prod.split)

lemma threshold_set: "in_threshold (set_prior now source d q) = in_threshold q"
  by (simp add: set_prior_def)

lemma prior_set: "prior_of k (set_prior now source d q) = (if k = source then Some (pd_name d) else prior_of k q)"
  by (auto simp: set_prior_def prior_of_def map_of_bt_entry)

lemma offer_parts:
  "lv_inference (offer now k es lv) = fst (offer_batch now k es (lv_inference lv, lv_tally lv))"
  "lv_sources (offer now k es lv) = lv_sources lv" "lv_pipeline (offer now k es lv) = lv_pipeline lv"
  by (simp_all add: offer_def split: prod.split)

lemma on_trip_parts:
  "lv_sources (on_trip now k p lv) = lv_sources lv" "lv_pipeline (on_trip now k p lv) = lv_pipeline lv"
  "held_lines (lv_inference (on_trip now k p lv)) j = held_lines (lv_inference lv) j"
  "in_max (lv_inference (on_trip now k p lv)) = in_max (lv_inference lv)"
  "in_threshold (lv_inference (on_trip now k p lv)) = in_threshold (lv_inference lv)"
  "prior_of j (lv_inference (on_trip now k p lv)) =
     (if j = k \<and> index_of (pl_registry (lv_pipeline lv)) p \<noteq> None then Some p else prior_of j (lv_inference lv))"
proof -
  have "parser_name (ps ! i) = p" if "position (\<lambda>q. parser_name q = p) ps = Some i" for i and ps :: "parser list"
    using that by (induction ps arbitrary: i) (auto split: if_splits)
  then show "prior_of j (lv_inference (on_trip now k p lv)) =
     (if j = k \<and> index_of (pl_registry (lv_pipeline lv)) p \<noteq> None then Some p else prior_of j (lv_inference lv))"
    by (auto simp: on_trip_def prior_set index_of_def parser_name_def Let_def split: option.split)
qed (auto simp: on_trip_def held_other other_kept threshold_set Let_def split: option.split)

lemma judge_fst: "fst (judge now s) = Some p \<Longrightarrow> \<not> routing s \<and> routing (snd (judge now s))"
  using judge_trips [of now s p "snd (judge now s)"] by (auto simp: tripped_now_def routing_def) (metis prod.collapse)+

lemma observe_trips:
  assumes "fst (observe now e mi s) = Some p" shows "routing (snd (observe now e mi s))"
  using assms judge_fst unfolding observe_def Let_def by (auto split: if_splits)

lemma batch_stats_trip:
  assumes "batch_stats now pl b w s = ((Some p, routed), t)" shows "\<not> routed \<and> routing t"
proof -
  define u where "u = count_batch now (length (bt_ranges b)) (lc_detected (ws_counts w)) (lc_no_parser (ws_counts w))
    (sum_list (lc_parse_failed (ws_counts w))) (named_hits pl w) s"
  define o1 where "o1 = observe now (length (bt_ranges b)) (lc_no_parser (ws_counts w) + sum_list (lc_parse_failed (ws_counts w))) u"
  have "fst o1 = Some p" "\<not> routed" "t = snd o1"
    using assms by (auto simp: batch_stats_def record_batch_def Let_def o1_def u_def split: prod.splits)
  then show ?thesis using observe_trips unfolding o1_def by blast
qed

text \<open>The failed ones are routed exactly when the source was tripped before the batch and still is.\<close>

lemma judge_routing: "routing (snd (judge now s)) \<and> fst (judge now s) = None \<Longrightarrow> routing s"
proof -
  have "is_established s \<Longrightarrow> established_parser s \<noteq> None" by (simp add: is_established_def)
  then show "routing (snd (judge now s)) \<and> fst (judge now s) = None \<Longrightarrow> routing s"
    by (auto simp: judge_def judge_calm_def judge_routed_def routing_def is_established_def established_parser_def Let_def split: if_splits)
qed

lemma judge_none: "routing s \<Longrightarrow> fst (judge now s) = None"
  by (simp add: judge_def Let_def routing_def split: prod.split)

lemma observe_routing: "routing (snd (observe now e mi s)) \<and> fst (observe now e mi s) = None \<Longrightarrow> routing s"
  and observe_none: "routing s \<Longrightarrow> fst (observe now e mi s) = None"
  using judge_routing judge_none unfolding observe_def Let_def by (fastforce simp: routing_def split: if_splits)+

lemma batch_stats_routed:
  assumes "batch_stats now pl b w s = ((tripped, routed), t)" shows "routed \<longleftrightarrow> routing s \<and> routing t"
proof -
  define u where "u = count_batch now (length (bt_ranges b)) (lc_detected (ws_counts w)) (lc_no_parser (ws_counts w))
    (sum_list (lc_parse_failed (ws_counts w))) (named_hits pl w) s"
  define o1 where "o1 = observe now (length (bt_ranges b)) (lc_no_parser (ws_counts w) + sum_list (lc_parse_failed (ws_counts w))) u"
  have r: "routed \<longleftrightarrow> routing (snd o1) \<and> fst o1 = None" "routing t = routing (snd o1)"
    using assms by (auto simp: batch_stats_def record_batch_def routing_def Let_def o1_def u_def split: prod.splits if_splits)
  have "routing u = routing s" by (simp add: u_def count_batch_def routing_def)
  then show ?thesis using r observe_routing observe_none unfolding o1_def by metis
qed

text \<open>
  C21. Where the misses of a batch go. The unclaimed events always reach the buffer of the batch's name, the
  ones whose parser failed only when its source was tripped before this batch and still is; the batch that
  trips the source is judged and not routed, and its parser becomes the prior of that buffer if it is
  loaded. The buffer keeps its bound, which it had before. No other buffer, prior or source is touched. The statistics are those of the first event's source,
  which in a batch recovered from the store has another name than the buffer.
\<close>

theorem misses_routed:
  assumes "0 < in_threshold (lv_inference lv)" "\<And>k. length (held_lines (lv_inference lv) k) \<le> in_max (lv_inference lv)"
  shows "let ((tripped, routed), s) = batch_stats now pl b w (stats_of (batch_source b 0) lv);
      q = lv_inference lv; lv' = after_batch now pl b w lv; q' = lv_inference lv'
    in (tripped \<noteq> None \<longrightarrow> \<not> routed \<and> routing s) \<and>
      (routed \<longleftrightarrow> routing (stats_of (batch_source b 0) lv) \<and> routing s) \<and>
      held_lines q' (bt_name b) =
        take (in_max q) (held_lines q (bt_name b) @ ws_unknown w @ (if routed then ws_failed w else [])) \<and>
      (\<forall>k. k \<noteq> bt_name b \<longrightarrow> held_lines q' k = held_lines q k \<and> prior_of k q' = prior_of k q) \<and>
      prior_of (bt_name b) q' =
        (case tripped of Some p \<Rightarrow> if index_of (pl_registry (lv_pipeline lv)) p \<noteq> None then Some p else prior_of (bt_name b) q
         | None \<Rightarrow> prior_of (bt_name b) q) \<and>
      map_of (lv_sources lv') = (map_of (lv_sources lv))(batch_source b 0 \<mapsto> s)"
proof -
  obtain tripped routed s where st: "batch_stats now pl b w (stats_of (batch_source b 0) lv) = ((tripped, routed), s)"
    by (metis surj_pair)
  define lv1 where "lv1 = offer now (bt_name b) (ws_unknown w) lv"
  define lv2 where "lv2 = lv1\<lparr>lv_sources := bt_entry (batch_source b 0) (\<lambda>_. s) (lv_sources lv1)\<rparr>"
  define lv3 where "lv3 = (case tripped of Some parser \<Rightarrow> on_trip now (bt_name b) parser lv2 | None \<Rightarrow> lv2)"
  have same: "stats_of (batch_source b 0) lv1 = stats_of (batch_source b 0) lv"
    by (simp add: stats_of_def lv1_def offer_parts)
  have lv': "lv_inference (after_batch now pl b w lv) = lv_inference (if routed then offer now (bt_name b) (ws_failed w) lv3 else lv3)"
    "lv_sources (after_batch now pl b w lv) = lv_sources lv3"
    by (simp_all add: after_batch_def st same Let_def flip: lv1_def) (simp_all add: lv3_def lv2_def offer_parts split: option.split)
  have q1: "held_lines (lv_inference lv1) k = (if bt_name b = k then take (in_max (lv_inference lv)) (held_lines (lv_inference lv) k @ ws_unknown w)
      else held_lines (lv_inference lv) k)" "in_max (lv_inference lv1) = in_max (lv_inference lv)"
    "in_threshold (lv_inference lv1) = in_threshold (lv_inference lv)" "prior_of k (lv_inference lv1) = prior_of k (lv_inference lv)" for k
    using held_offer_any [OF assms] by (simp_all add: lv1_def offer_parts prior_offer)
  have q3: "held_lines (lv_inference lv3) k = held_lines (lv_inference lv1) k" "in_max (lv_inference lv3) = in_max (lv_inference lv)"
    "in_threshold (lv_inference lv3) = in_threshold (lv_inference lv)" "lv_sources lv3 = lv_sources lv2"
    "prior_of k (lv_inference lv3) = (case tripped of
       Some p \<Rightarrow> if k = bt_name b \<and> index_of (pl_registry (lv_pipeline lv)) p \<noteq> None then Some p else prior_of k (lv_inference lv)
     | None \<Rightarrow> prior_of k (lv_inference lv))" for k
    using q1 by (auto simp: lv3_def lv2_def lv1_def on_trip_parts offer_parts split: option.split)
  have "length (held_lines (lv_inference lv3) k) \<le> in_max (lv_inference lv3)" for k
    using assms(2) [of k] by (auto simp: q3 q1 min_def)
  note q4 = held_offer_any [OF _ this, of now "bt_name b" "ws_failed w" "lv_tally lv3"]
  have "tripped \<noteq> None \<Longrightarrow> \<not> routed \<and> routing s" using st batch_stats_trip by blast
  moreover have "routed \<longleftrightarrow> routing (stats_of (batch_source b 0) lv) \<and> routing s" using batch_stats_routed [OF st] .
  moreover have "held_lines (lv_inference (after_batch now pl b w lv)) k =
      (if k = bt_name b then take (in_max (lv_inference lv)) (held_lines (lv_inference lv) k @ ws_unknown w @ (if routed then ws_failed w else []))
       else held_lines (lv_inference lv) k)" for k
    using q4 assms(1) by (auto simp: lv' q3 q1 offer_parts min_def)
  moreover have "prior_of k (lv_inference (after_batch now pl b w lv)) = prior_of k (lv_inference lv3)" for k
    by (simp add: lv' offer_parts prior_offer)
  ultimately show ?thesis
    by (auto simp: st lv' q3 lv2_def map_of_bt_entry lv1_def offer_parts split: option.split)
qed

subsection \<open>An approval takes effect\<close>

lemma load_file_keeps: "set (lr_parsers r) \<subseteq> set (lr_parsers (load_file E toml rd r f))"
  by (auto simp: load_file_def split: sum.split)

lemma load_fold_keeps: "set (lr_parsers r) \<subseteq> set (lr_parsers (foldl (load_file E toml rd) r fs))"
proof (induction fs arbitrary: r)
  case (Cons f fs)
  then show ?case using load_file_keeps [of r E toml rd f] by fastforce
qed simp

lemma load_dir_has:
  assumes "f \<in> set entries" "is_toml f" "rd f = Inr t" "load_str E toml f t = Inr p"
  shows "parser_name p \<in> parser_name ` set (lr_parsers (load_dir E toml rd entries))"
proof -
  have "f \<in> set (sort (filter is_toml entries))" using assms(1,2) by simp
  then obtain xs ys where "sort (filter is_toml entries) = xs @ f # ys" by (meson split_list)
  then have d: "load_dir E toml rd entries =
      foldl (load_file E toml rd) (load_file E toml rd (foldl (load_file E toml rd) \<lparr>lr_parsers = [], lr_errors = []\<rparr> xs) f) ys"
    by (simp add: load_dir_def)
  have "parser_name p \<in> parser_name ` set (lr_parsers (load_file E toml rd r f))" for r
    using assms(3,4) by (cases "list_ex (\<lambda>q. parser_name q = parser_name p) (lr_parsers r)")
      (auto simp: load_file_def list_ex_iff image_iff eq_commute [of "parser_name p"])
  then show ?thesis unfolding d using load_fold_keeps by (meson image_mono subsetD)
qed

text \<open>A parser whose name no other file gives is the one of that name that is loaded.\<close>

lemma load_fold_names:
  "q \<in> set (lr_parsers (foldl (load_file E toml rd) r fs)) \<Longrightarrow>
    q \<in> set (lr_parsers r) \<or> (\<exists>g \<in> set fs. \<exists>t. rd g = Inr t \<and> load_str E toml g t = Inr q)"
proof (induction fs arbitrary: r)
  case (Cons f fs)
  then have "q \<in> set (lr_parsers (load_file E toml rd r f)) \<or> (\<exists>g \<in> set fs. \<exists>t. rd g = Inr t \<and> load_str E toml g t = Inr q)" by simp
  moreover have "q \<in> set (lr_parsers (load_file E toml rd r f)) \<Longrightarrow>
      q \<in> set (lr_parsers r) \<or> (\<exists>t. rd f = Inr t \<and> load_str E toml f t = Inr q)"
    by (auto simp: load_file_def split: sum.splits if_splits)
  ultimately show ?case by auto
qed simp

lemma load_dir_loads:
  assumes "f \<in> set entries" "is_toml f" "rd f = Inr t" "load_str E toml f t = Inr p"
    and "\<And>g t' p'. g \<in> set entries \<Longrightarrow> g \<noteq> f \<Longrightarrow> rd g = Inr t' \<Longrightarrow> load_str E toml g t' = Inr p' \<Longrightarrow> parser_name p' \<noteq> parser_name p"
  shows "p \<in> set (lr_parsers (load_dir E toml rd entries))"
proof -
  have "f \<in> set (sort (filter is_toml entries))" using assms(1,2) by simp
  then obtain xs ys where xs: "sort (filter is_toml entries) = xs @ f # ys" "f \<notin> set xs" by (meson split_list_first)
  define r where "r = foldl (load_file E toml rd) \<lparr>lr_parsers = [], lr_errors = []\<rparr> xs"
  have sub: "set xs \<subseteq> set entries" using arg_cong [OF xs(1), of set] by auto
  have "parser_name q \<noteq> parser_name p" if q: "q \<in> set (lr_parsers r)" for q
  proof -
    from load_fold_names [OF q [unfolded r_def]] obtain g t' where "g \<in> set xs" "rd g = Inr t'" "load_str E toml g t' = Inr q" by auto
    then show ?thesis using assms(5) [of g t' q] sub xs(2) by blast
  qed
  then have "p \<in> set (lr_parsers (load_file E toml rd r f))" using assms(3,4) by (auto simp: load_file_def list_ex_iff)
  moreover have "load_dir E toml rd entries = foldl (load_file E toml rd) (load_file E toml rd r f) ys" by (simp add: load_dir_def xs(1) r_def)
  ultimately show ?thesis using load_fold_keeps by fastforce
qed

lemma load_str_anywhere: "load_str E toml f t = Inr p \<Longrightarrow> load_str E toml g t = Inr p"
  by (auto simp: load_str_def split: sum.splits)

lemma parser_file_inj: "parser_file L a = parser_file L b \<longleftrightarrow> a = b"
  by (simp add: parser_file_def)

lemma find_parser: "find (\<lambda>(n, _). parser_file L n = parser_file L k) m = map_option (Pair k) (map_of m k)"
  by (induction m) (auto simp: parser_file_inj)

text \<open>No file of another name defines a parser of this name.\<close>

definition sole_definition :: "'f live_env \<Rightarrow> 'f live \<Rightarrow> bytes \<Rightarrow> bool" where
  "sole_definition L lv name \<longleftrightarrow>
     list_all (\<lambda>(n, t). n = name \<or>
       (case load_str (co_engines (live_codecs L)) (co_toml (live_codecs L)) (parser_file L n) t of
          Inr p \<Rightarrow> parser_name p \<noteq> name | Inl _ \<Rightarrow> True)) (rv_parsers (lv_review lv))"

lemma reload_has:
  assumes "le_maps L = Some mr" "choose_mapping (le_mappings_dir L) (le_schema L) (mr_mappings mr) = Inr i"
    "map_of (rv_parsers (lv_review lv)) name = Some t" "\<not> bad (parser_file L name)"
    "load_str (co_engines (live_codecs L)) (co_toml (live_codecs L)) f t = Inr p"
  shows "parser_name p \<in> set (parser_names (snd (reload_parsers L bad lv)))"
    "parser_name p = name \<Longrightarrow> sole_definition L lv name \<Longrightarrow> p \<in> set (rg_parsers (pl_registry (lv_pipeline (snd (reload_parsers L bad lv)))))"
    "lv_generation (snd (reload_parsers L bad lv)) = lv_generation lv + 1"
    "lv_review (snd (reload_parsers L bad lv)) = lv_review lv" "lv_sources (snd (reload_parsers L bad lv)) = lv_sources lv"
    "lv_inference (snd (reload_parsers L bad lv)) = lv_inference lv"
proof -
  let ?rd = "read_definition L bad (lv_review lv)" and ?load = "load_str (co_engines (live_codecs L)) (co_toml (live_codecs L))"
  have f: "parser_file L name \<in> set (map (\<lambda>(n, _). parser_file L n) (rv_parsers (lv_review lv)))"
      "is_toml (parser_file L name)" "?rd (parser_file L name) = Inr t" "?load (parser_file L name) t = Inr p"
  proof -
    show "parser_file L name \<in> set (map (\<lambda>(n, _). parser_file L n) (rv_parsers (lv_review lv)))"
      using map_of_SomeD [OF assms(3)] by force
    show "?rd (parser_file L name) = Inr t" using assms(3,4) by (simp add: read_definition_def find_parser)
    show "?load (parser_file L name) t = Inr p" using assms(5) by (rule load_str_anywhere)
  qed (simp add: is_toml_def parser_file_def suffix_def)
  show "p \<in> set (rg_parsers (pl_registry (lv_pipeline (snd (reload_parsers L bad lv)))))"
    if n: "parser_name p = name" and sole: "sole_definition L lv name"
  proof -
    have "p \<in> set (lr_parsers (parsers_report L bad (lv_review lv)))"
      unfolding parsers_report_def
    proof (rule load_dir_loads [where f="parser_file L name" and rd="?rd" and t=t and p=p, OF f])
      fix g t' p'
      assume g: "g \<in> set (map (\<lambda>(n, _). parser_file L n) (rv_parsers (lv_review lv)))" "g \<noteq> parser_file L name" "?rd g = Inr t'" "?load g t' = Inr p'"
      then obtain m where m: "g = parser_file L m" "m \<noteq> name" by auto
      with g(3) have "(m, t') \<in> set (rv_parsers (lv_review lv))"
        by (auto simp: read_definition_def find_parser dest: map_of_SomeD split: option.splits if_splits)
      with sole m g(4) show "parser_name p' \<noteq> parser_name p" by (auto simp: sole_definition_def list_all_iff n)
    qed
    then show ?thesis by (simp add: reload_parsers_def pipeline_load_def assms(1,2) registry_new_def)
  qed
  have "parser_name p \<in> parser_name ` set (lr_parsers (parsers_report L bad (lv_review lv)))"
    unfolding parsers_report_def by (rule load_dir_has [where f="parser_file L name" and rd="?rd" and t=t and p=p, OF f])
  then show "parser_name p \<in> set (parser_names (snd (reload_parsers L bad lv)))"
    by (simp add: reload_parsers_def pipeline_load_def assms(1,2) parser_names_def registry_new_def)
  show "lv_generation (snd (reload_parsers L bad lv)) = lv_generation lv + 1"
    "lv_review (snd (reload_parsers L bad lv)) = lv_review lv" "lv_sources (snd (reload_parsers L bad lv)) = lv_sources lv"
    "lv_inference (snd (reload_parsers L bad lv)) = lv_inference lv"
    by (simp_all add: reload_parsers_def pipeline_load_def assms(1,2))
qed

lemma approve_source:
  assumes "approve C pid stamp act s = (Inr a, s1)"
  shows "\<exists>r. fst (read_record C pid s) = Inr r \<and> ap_source a = rc_source r"
  using assms
  by (auto simp: approve_def install_parser_def Let_def split: prod.splits sum.splits option.splits if_splits bool.splits)

lemma clear_drift_parts:
  "lv_inference (clear_drift now k lv) = lv_inference lv" "lv_pipeline (clear_drift now k lv) = lv_pipeline lv"
  "lv_review (clear_drift now k lv) = lv_review lv" "lv_generation (clear_drift now k lv) = lv_generation lv"
  "map_of (lv_sources (clear_drift now k lv)) k = map_option (\<lambda>s. if routing s then reset_drift now s else s) (map_of (lv_sources lv) k)"
  "distinct (map fst (lv_sources lv)) \<Longrightarrow> distinct (map fst (lv_sources (clear_drift now k lv)))"
  by (auto simp: clear_drift_def update_conv' distinct_update split: option.splits if_splits)

lemma reset_calm: "\<not> routing (if routing s then reset_drift now s else s)"
  by (simp add: reset_drift_def routing_def)

text \<open>Every alert is of a source, and one that is not routed is shown as it is.\<close>

lemma alerts_shown:
  assumes "a \<in> set (fst (drift_alerts C lv))"
  shows "\<exists>s. (da_source a, s) \<in> set (lv_sources lv) \<and> (\<not> routing s \<longrightarrow> da_state a = st_drift s)"
proof -
  let ?step = "\<lambda>(out, rv) x. let (a, rv) = alert_of C (lv_pending lv) x rv in (out @ [a], rv)"
  have one: "da_source (fst (alert_of C pend x rv)) = fst x \<and> (\<not> routing (snd x) \<longrightarrow> da_state (fst (alert_of C pend x rv)) = st_drift (snd x))" for pend x rv
    by (simp add: alert_of_def split: prod.split sum.split)
  have "a \<in> set (fst (foldl ?step (out, rv) xs)) \<Longrightarrow>
      a \<in> set out \<or> (\<exists>x \<in> set xs. da_source a = fst x \<and> (\<not> routing (snd x) \<longrightarrow> da_state a = st_drift (snd x)))" for out rv xs
  proof (induction xs arbitrary: out rv)
    case (Cons x xs)
    obtain b rv' where b: "alert_of C (lv_pending lv) x rv = (b, rv')" by fastforce
    from Cons.prems b have "a \<in> set (fst (foldl ?step (out @ [b], rv') xs))" by simp
    from Cons.IH [OF this] one [of "lv_pending lv" x rv] b show ?case by auto
  qed simp
  from this [of "[]" "lv_review lv" "filter (\<lambda>(_, s). st_drift s \<noteq> Undrifted) (lv_sources lv)"] assms
  show ?thesis by (force simp: drift_alerts_def split: prod.splits)
qed

text \<open>
  C22. An approval takes effect at once. When it succeeds, no file operation of it failing, and the parser's file
  can be read again and the mappings still choose one, then the active text of its name is the one that was pending; the reloaded registry holds a parser of
  that name, the one compiled from that text unless another file defines the same name; the buffer and the prior
  of the source are gone; a source that was tripped is cleared, its window and its baseline empty; and no alert of the
  source is tripped or proposed any more.
\<close>

theorem approve_takes_effect:
  assumes "live_approve L bad now pid stamp lv = (Inr r, lv')" "rv_faults (lv_review lv) = []"
    "le_maps L = Some mr" "choose_mapping (le_mappings_dir L) (le_schema L) (mr_mappings mr) = Inr i"
    "\<not> bad (parser_file L (ar_name r))" "distinct (map fst (lv_sources lv))"
  shows "ar_name r \<in> set (parser_names lv') \<and> lv_generation lv' = lv_generation lv + 1 \<and>
    (\<exists>rec t p. fst (read_record (live_codecs L) pid (lv_review lv)) = Inr rec \<and>
       map_of (rv_files (lv_review lv)) (pid, Toml) = Some t \<and> map_of (rv_parsers (lv_review lv')) (ar_name r) = Some t \<and>
       load_str (co_engines (live_codecs L)) (co_toml (live_codecs L)) (parser_file L (ar_name r)) t = Inr p \<and> parser_name p = ar_name r \<and>
       (sole_definition L lv' (ar_name r) \<longrightarrow> p \<in> set (rg_parsers (pl_registry (lv_pipeline lv')))) \<and>
       held_lines (lv_inference lv') (rc_source rec) = [] \<and> prior_of (rc_source rec) (lv_inference lv') = None \<and>
       map_of (lv_sources lv') (rc_source rec) =
         map_option (\<lambda>s. if routing s then reset_drift now s else s) (map_of (lv_sources lv) (rc_source rec)) \<and>
       (\<forall>a \<in> set (fst (drift_alerts (live_codecs L) lv')). da_source a = rc_source rec \<longrightarrow> da_state a \<notin> {Tripped, Proposed}))"
proof -
  have p: "lv_pending lv" using assms(1) by (auto simp: live_approve_def split: if_splits)
  obtain lines rv where l: "pending_lines pid (lv_review lv) = (lines, rv)" by fastforce
  have rv: "rv = lv_review lv" using l assms(2) by (auto simp: pending_lines_def read_file_def fault_def split: option.splits prod.splits if_splits)
  obtain a s1 where a: "approve (live_codecs L) pid stamp (parser_names lv) (lv_review lv) = (Inr a, s1)"
    using assms(1) by (auto simp: live_approve_def p l rv Let_def split: prod.splits sum.splits)
  define lv1 where "lv1 = lv\<lparr>lv_review := s1\<rparr>"
  define lv2 where "lv2 = snd (reload_parsers L bad lv1)"
  define lv3 where "lv3 = clear_drift now (ap_source a) (lv2\<lparr>lv_inference := clear_buffer (ap_source a) (lv_inference lv2)\<rparr>)"
  have r: "ar_name r = ap_name a" "lv' = lv3\<lparr>lv_approved := lv_approved lv3 + 1, lv_tally := pending_changed (lv_tally lv3)\<rparr>"
    using assms(1) by (auto simp: live_approve_def p l rv a Let_def lv3_def lv2_def lv1_def split: prod.splits)
  have "approved_as (live_codecs L) pid stamp (parser_names lv) (lv_review lv) a s1"
    using approve_quiet [OF assms(2), of "live_codecs L" pid stamp "parser_names lv"] a by auto
  then obtain t q where t: "map_of (rv_files (lv_review lv)) (pid, Toml) = Some t" "ap_name a = parser_name q"
      "load_str (co_engines (live_codecs L)) (co_toml (live_codecs L)) (pending_path (lv_review lv) pid Toml) t = Inr q"
      "rv_parsers s1 = AList.update (ap_name a) t (rv_parsers (lv_review lv))"
    unfolding approved_as_def by blast
  have m: "map_of (rv_parsers (lv_review lv1)) (ap_name a) = Some t" by (simp add: lv1_def t update_conv')
  obtain rec where rec: "fst (read_record (live_codecs L) pid (lv_review lv)) = Inr rec" "ap_source a = rc_source rec"
    using approve_source [OF a] by blast
  have b: "\<not> bad (parser_file L (ap_name a))" using assms(5) by (simp add: r)
  note h = reload_has [where bad=bad and L=L, OF assms(3,4) m b t(3), folded lv2_def]
  have s3: "lv_pipeline lv3 = lv_pipeline lv2" "lv_review lv3 = s1" "lv_generation lv3 = lv_generation lv + 1"
    "map_of (lv_sources lv3) (ap_source a) = map_option (\<lambda>s. if routing s then reset_drift now s else s) (map_of (lv_sources lv) (ap_source a))"
    "distinct (map fst (lv_sources lv3))"
    using h assms(6) by (simp_all add: lv3_def lv1_def clear_drift_parts)
  have sole: "sole_definition L lv' (ap_name a) \<longrightarrow> q \<in> set (rg_parsers (pl_registry (lv_pipeline lv3)))"
    using h(2) t(2) by (simp add: r s3 sole_definition_def lv1_def)
  have calm: "da_state x \<notin> {Tripped, Proposed}" if x: "x \<in> set (fst (drift_alerts (live_codecs L) lv'))" "da_source x = rc_source rec" for x
  proof -
    from alerts_shown [OF x(1)] obtain s where s: "(rc_source rec, s) \<in> set (lv_sources lv3)" "\<not> routing s \<longrightarrow> da_state x = st_drift s"
      using x(2) r(2) by auto
    then have "map_of (lv_sources lv3) (rc_source rec) = Some s" using s3(5) by simp
    then have "\<not> routing s" using s3(4) reset_calm unfolding rec(2) by auto
    then show ?thesis using s(2) by (auto simp: routing_def)
  qed
  have "held_lines (lv_inference lv3) (ap_source a) = []" "prior_of (ap_source a) (lv_inference lv3) = None"
    by (simp_all add: lv3_def clear_drift_parts held_other) (simp add: prior_of_def clear_buffer_def map_of_delete)
  moreover have "ap_name a \<in> set (parser_names lv3)" using h(1) t(2) by (simp add: s3 parser_names_def)
  ultimately show ?thesis using m rec t(1,2) load_str_anywhere [OF t(3)] sole calm s3 unfolding r by (auto simp: parser_names_def lv1_def)
qed

subsection \<open>A small engine\<close>

text \<open>One parser; the source \<open>asa.log\<close> is one window of misses from tripping, its buffer holds nothing.\<close>

definition sample_live :: "nat live" where
  "sample_live =
     \<lparr>lv_pipeline = \<lparr>pl_registry = registry_new [sample_parser], pl_mapping = sample_mapping, pl_offset = 0, pl_files = []\<rparr>,
      lv_sources = [(''asa.log'', calm_stats\<lparr>st_by_parser := [(''sample'', 1024)]\<rparr>)],
      lv_inference = inference_new sample_params 2 8 5 True, lv_review = asa_review, lv_pending = True, lv_tally = tally_zero,
      lv_hits = [], lv_drift_tripped = 0, lv_drift_cleared = 0, lv_drift_routed = 0, lv_approved = 0, lv_rejected = 0,
      lv_reloads = 0, lv_generation = 1, lv_problems = [], lv_excluded = {}, lv_files_excluded = 0\<rparr>"

definition sample_env :: "nat live_env" where
  "sample_env =
     \<lparr>le_infer = \<lparr>ie_codecs = asa_codecs, ie_arith = sample_arith, ie_finder = int_finder, ie_params = sample_params, ie_decisions = (\<lambda>_. [])\<rparr>,
      le_parsers_dir = ''parsers'', le_mappings_dir = ''mappings'',
      le_maps = Some \<lparr>mr_mappings = [sample_mapping], mr_errors = []\<rparr>, le_map_digests = [], le_hash = (\<lambda>_. []),
      le_schema = None, le_offset = 0\<rparr>"

text \<open>A batch of one event that no parser claims, read from the file itself or recovered from the store.\<close>

definition miss_work :: worker_state where
  "miss_work =
     \<lparr>ws_hint = None, ws_parsed = parsed_default, ws_out = [],
      ws_counts = counts_zero\<lparr>lc_no_parser := 1\<rparr>, ws_hits = [0], ws_unknown = [(7, ''odd'')], ws_failed = [],
      ws_entities = None\<rparr>"

definition miss_batch :: "bytes \<Rightarrow> batch" where
  "miss_batch name =
     \<lparr>bt_seq = 0, bt_name = name, bt_names = [(3, ''asa.log'')], bt_bytes = ''odd'', bt_receipt = 0, bt_first = 7,
      bt_ranges = [(0, 3)], bt_receipts = [0], bt_sources = [3]\<rparr>"

lemma sample_name: "parser_name sample_parser = ''sample''"
  by code_simp

lemma miss_stats:
  "let r = batch_stats 0 (lv_pipeline sample_live) (miss_batch name) miss_work (stats_of ''asa.log'' sample_live)
   in fst r = (Some ''sample'', False)"
proof -
  have z: "sum_list (lc_parse_failed counts_zero) = 0" by (simp add: counts_zero_def)
  define s where "s = stats_of ''asa.log'' sample_live"
  define u where "u = s\<lparr>st_events := 1, st_no_parser := 1, st_window_events := 513, st_window_misses := 513\<rparr>"
  have "is_established u" "\<not> routing u"
    by (simp_all add: u_def s_def stats_of_def sample_live_def drift_eval calm_stats_def stats_default_def fl_positive)
  from half_trips [OF this, of 0] have v: "fst (judge 0 u) = Some ''sample''"
    by (simp add: u_def s_def stats_of_def sample_live_def calm_stats_def stats_default_def drift_window_def established_parser_def)
  have "batch_stats 0 (lv_pipeline sample_live) (miss_batch name) miss_work s =
      (case judge 0 u of (tripped, t) \<Rightarrow>
         (let routed = routing t \<and> tripped = None in ((tripped, routed), if routed then t\<lparr>st_lines_routed := st_lines_routed t + Suc 0\<rparr> else t)))"
    by (simp add: batch_stats_def record_batch_def observe_def count_batch_def named_hits_def miss_work_def miss_batch_def z
        sample_live_def registry_new_def drift_window_def Let_def)
      (simp add: u_def s_def stats_of_def sample_live_def calm_stats_def stats_default_def counts_zero_def)
  moreover obtain t where "judge 0 u = (Some ''sample'', t)" using v by (metis prod.collapse)
  ultimately show ?thesis by (simp add: s_def)
qed

text \<open>Recovered from the store, the batch trips its source, but the source's own buffer and prior stay as they were.\<close>

lemma misses_routed_witness:
  "let lv' = after_batch 0 (lv_pipeline sample_live) (miss_batch ''asa.log'') miss_work sample_live;
       lv'' = after_batch 0 (lv_pipeline sample_live) (miss_batch ''recovered'') miss_work sample_live in
     held_lines (lv_inference lv') ''asa.log'' = [(7, ''odd'')] \<and> prior_of ''asa.log'' (lv_inference lv') = Some ''sample'' \<and>
     routing (the (map_of (lv_sources lv'') ''asa.log'')) \<and> prior_of ''asa.log'' (lv_inference lv'') = None \<and>
     held_lines (lv_inference lv'') ''asa.log'' = [] \<and> prior_of ''recovered'' (lv_inference lv'') = Some ''sample''"
proof -
  have b: "batch_source (miss_batch name) 0 = ''asa.log''" "bt_name (miss_batch name) = name" for name
    by (simp_all add: batch_source_def miss_batch_def)
  have q: "in_max (lv_inference sample_live) = 8" "held_lines (lv_inference sample_live) k = []"
      "0 < in_threshold (lv_inference sample_live)" "prior_of k (lv_inference sample_live) = None" for k
    by (simp_all add: sample_live_def inference_new_def held_lines_def prior_of_def)
  have i: "index_of (pl_registry (lv_pipeline sample_live)) ''sample'' = Some 0"
    by (simp add: index_of_def sample_live_def registry_new_def sample_name)
  have w: "ws_unknown miss_work = [(7, ''odd'')]" by (simp add: miss_work_def)
  have m: "let q' = lv_inference (after_batch 0 (lv_pipeline sample_live) (miss_batch name) miss_work sample_live) in
      held_lines q' name = [(7, ''odd'')] \<and> prior_of name q' = Some ''sample'' \<and>
      (\<forall>k. k \<noteq> name \<longrightarrow> held_lines q' k = [] \<and> prior_of k q' = None) \<and>
      routing (the (map_of (lv_sources (after_batch 0 (lv_pipeline sample_live) (miss_batch name) miss_work sample_live)) ''asa.log''))" for name
  proof -
    obtain s where "batch_stats 0 (lv_pipeline sample_live) (miss_batch name) miss_work (stats_of ''asa.log'' sample_live) =
        ((Some ''sample'', False), s)"
      using miss_stats [of name] by (metis prod.collapse)
    then show ?thesis
      using misses_routed [of sample_live 0 "lv_pipeline sample_live" "miss_batch name" miss_work]
      by (simp add: b q i w Let_def)
  qed
  from m [of "''asa.log''"] m [of "''recovered''"] show ?thesis by (simp add: Let_def)
qed

definition empty_live :: "nat live" where
  "empty_live = sample_live\<lparr>lv_pipeline := (lv_pipeline sample_live)\<lparr>pl_registry := registry_new []\<rparr>\<rparr>"

lemma approve_takes_effect_witness:
  "\<exists>r lv'. live_approve sample_env (\<lambda>_. False) 5 ''asa'' 7 empty_live = (Inr r, lv') \<and> ar_name r \<in> set (parser_names lv')"
proof -
  have q: "rv_faults asa_review = []" by (simp add: asa_review_def)
  have rv: "lv_review empty_live = asa_review" "lv_pending empty_live" "parser_names empty_live = []"
    by (simp_all add: sample_live_def empty_live_def parser_names_def registry_new_def)
  have c: "live_codecs sample_env = asa_codecs" by (simp add: live_codecs_def sample_env_def)
  have "\<not> isl (fst (approve asa_codecs ''asa'' 7 [] asa_review))"
    by (simp add: approve_def asa_found read_file_def fault_def q)
      (simp add: asa_review_def asa_codecs_def load_str_def sample_compiles sample_name Let_def is_parser_name_def is_update_def
        is_ascii_alphanumeric_def is_ascii_alphabetic_def is_ascii_lower_def asa_record_def
        install_parser_def atomic_write_parser_def rename_approved_def fault_def)
  then obtain a s1 where a: "approve asa_codecs ''asa'' 7 [] asa_review = (Inr a, s1)" by (metis prod.collapse sum.collapse(2))
  obtain lines where l: "pending_lines ''asa'' asa_review = (lines, asa_review)"
    by (simp add: pending_lines_def read_file_def fault_def q) (simp add: asa_review_def)
  have "\<not> isl (fst (live_approve sample_env (\<lambda>_. False) 5 ''asa'' 7 empty_live))"
    by (simp add: live_approve_def rv c l a Let_def split: prod.split)
  then obtain r lv' where r: "live_approve sample_env (\<lambda>_. False) 5 ''asa'' 7 empty_live = (Inr r, lv')"
    by (metis prod.collapse sum.collapse(2))
  have d: "le_maps sample_env = Some \<lparr>mr_mappings = [sample_mapping], mr_errors = []\<rparr>" "distinct (map fst (lv_sources empty_live))"
      "choose_mapping (le_mappings_dir sample_env) (le_schema sample_env) (mr_mappings \<lparr>mr_mappings = [sample_mapping], mr_errors = []\<rparr>) = Inr 0"
    by (simp_all add: sample_env_def sample_live_def empty_live_def choose_mapping_def)
  have "ar_name r \<in> set (parser_names lv')"
    using approve_takes_effect [OF r _ d(1,3) _ d(2)] q rv(1) by simp
  then show ?thesis using r by blast
qed

end
