(* ===== verification/Ulpf_Rerun.thy ===== *)
theory Ulpf_Rerun
  imports Ulpf_Engine Ulpf_Verify
begin

text \<open>
  Sending stored records through the pipeline again: the batches \<open>replay::run\<close> of
  \<open>src/crates/ulpf/src/replay.rs\<close> and \<open>recover_output\<close> of \<open>src/crates/ulpf/src/engine.rs\<close> cut from a reader
  of the store, what a worker of a replay makes of one, and the loop that writes what arrives in
  any order. A batch holds the bytes of the whole segment and the range of each record in it. When a
  replay is cancelled and when a channel is closed are functions of the number of batches sent so far.
\<close>

datatype rerun_error = Unreadable nat | Cancelled | ProcessingStopped

definition record_start :: "raw_reader \<Rightarrow> nat \<Rightarrow> nat" where
  "record_start r i = (case reader_offset r i of Some off \<Rightarrow> off + header_len | None \<Rightarrow> 0)"

fun read_records :: "raw_reader \<Rightarrow> nat list \<Rightarrow> rerun_error + (nat \<times> owned_record) list" where
  "read_records r [] = Inr []"
| "read_records r (i # js) =
     (case reader_get r i of
        None \<Rightarrow> Inl (Unreadable i)
      | Some rec \<Rightarrow>
          (case read_records r js of Inl e \<Rightarrow> Inl e | Inr l \<Rightarrow> Inr ((record_start r i, rec) # l)))"

definition stored_batch ::
  "raw_reader \<Rightarrow> bytes \<Rightarrow> (nat \<times> bytes) list \<Rightarrow> nat \<Rightarrow> nat \<Rightarrow> nat \<Rightarrow> rerun_error + batch"
where
  "stored_batch r name names q first n =
     (case read_records r [first..<first + n] of
        Inl e \<Rightarrow> Inl e
      | Inr l \<Rightarrow> Inr \<lparr>bt_seq = q, bt_name = name, bt_names = names, bt_bytes = rd_seg r, bt_receipt = 0, bt_first = first,
          bt_ranges = map (\<lambda>(a, x). (a, a + length (or_bytes x))) l, bt_receipts = map (\<lambda>(a, x). or_receipt x) l,
          bt_sources = map (\<lambda>(a, x). or_source x) l\<rparr>)"

subsection \<open>The reader of a replay\<close>

text \<open>
  The batches sent, and how the reader ended. It looks at the cancel flag before each batch, and a closed
  channel ends it without an error of its own.
\<close>

function replay_batches ::
  "raw_reader \<Rightarrow> (nat \<times> bytes) list \<Rightarrow> nat \<Rightarrow> nat \<Rightarrow> (nat \<Rightarrow> bool) \<Rightarrow> (nat \<Rightarrow> bool) \<Rightarrow> nat \<Rightarrow> nat \<Rightarrow> batch list \<times> rerun_error option"
where
  "replay_batches r names sz upto_id cancelled alive q i =
     (if upto_id \<le> i then ([], None)
      else if cancelled q then ([], Some Cancelled)
      else
        let n = min (upto_id - i) (max 1 sz) in
        (case stored_batch r ''replay'' names q i n of
           Inl e \<Rightarrow> ([], Some e)
         | Inr b \<Rightarrow>
             if alive q then map_prod ((#) b) (\<lambda>e. e) (replay_batches r names sz upto_id cancelled alive (q + 1) (i + n))
             else ([], None)))"
  by pat_completeness auto
termination
  by (relation "measure (\<lambda>(r, names, size, upto_id, cancelled, alive, q, i). upto_id - i)") auto

declare replay_batches.simps [simp del]

text \<open>One turn of a worker of a replay: no statistics, no entities, one pipeline throughout.\<close>

definition replay_turn :: "engines \<Rightarrow> (jvalue \<Rightarrow> bytes) \<Rightarrow> pipeline \<Rightarrow> nat option \<Rightarrow> batch \<Rightarrow> nat option \<times> emitted \<times> counts" where
  "replay_turn E to_json pl hint b =
     (let r = process_batch E to_json pl b ((fresh_worker hint pl)\<lparr>ws_entities := None\<rparr>) in
      (ws_hint r,
       \<lparr>em_seq = bt_seq b, em_buf = ws_out r, em_count = length (bt_ranges b), em_first = bt_first b,
         em_entities = \<lparr>eb_arena = [], eb_events = []\<rparr>\<rparr>,
       ws_counts r))"

text \<open>The batches are taken in the order they were sent; \<open>sched\<close> says which worker takes which.\<close>

fun replay_work ::
  "engines \<Rightarrow> (jvalue \<Rightarrow> bytes) \<Rightarrow> pipeline \<Rightarrow> (nat \<Rightarrow> nat) \<Rightarrow> (nat \<Rightarrow> nat option) \<Rightarrow> counts \<Rightarrow> batch list \<Rightarrow> emitted list \<times> counts"
where
  "replay_work E to_json pl sched hints c [] = ([], c)"
| "replay_work E to_json pl sched hints c (b # bts) =
     (case replay_turn E to_json pl (hints (sched (bt_seq b))) b of
        (hint, e, c') \<Rightarrow>
          map_prod ((#) e) (\<lambda>c. c) (replay_work E to_json pl sched (hints(sched (bt_seq b) := hint)) (add_counts c' c) bts))"

subsection \<open>The writer of a replay\<close>

record replay_out =
  ro_pending :: "(nat \<times> bytes \<times> nat) list"
  ro_next :: nat
  ro_file :: bytes
  ro_emitted :: nat

definition replay_out_new :: replay_out where
  "replay_out_new = \<lparr>ro_pending = [], ro_next = 0, ro_file = [], ro_emitted = 0\<rparr>"

function replay_drain :: "replay_out \<Rightarrow> replay_out" where
  "replay_drain s =
     (case map_of (ro_pending s) (ro_next s) of
        None \<Rightarrow> s
      | Some (buf, n) \<Rightarrow>
          replay_drain (s\<lparr>ro_pending := AList.delete (ro_next s) (ro_pending s), ro_file := ro_file s @ buf,
            ro_emitted := ro_emitted s + n, ro_next := ro_next s + 1\<rparr>))"
  by pat_completeness auto
termination
proof (relation "measure (\<lambda>s. length (ro_pending s))")
  fix s :: replay_out and p buf n
  assume "map_of (ro_pending s) (ro_next s) = Some p" "(buf, n) = p"
  then have "(ro_next s, p) \<in> set (ro_pending s)" by (auto dest: map_of_SomeD)
  then have "length (AList.delete (ro_next s) (ro_pending s)) < length (ro_pending s)"
    unfolding AList.delete_eq by (intro length_filter_less) auto
  then show "(s\<lparr>ro_pending := AList.delete (ro_next s) (ro_pending s), ro_file := ro_file s @ buf,
            ro_emitted := ro_emitted s + n, ro_next := ro_next s + 1\<rparr>, s) \<in> measure (\<lambda>s. length (ro_pending s))"
    by simp
qed simp

declare replay_drain.simps [simp del]

definition replay_receive :: "emitted \<Rightarrow> replay_out \<Rightarrow> replay_out" where
  "replay_receive e s = replay_drain (s\<lparr>ro_pending := AList.update (em_seq e) (em_buf e, em_count e) (ro_pending s)\<rparr>)"

text \<open>\<open>arrivals\<close> says in which order the batches come in.\<close>

definition replay_written :: "(emitted list \<Rightarrow> emitted list) \<Rightarrow> emitted list \<Rightarrow> replay_out" where
  "replay_written arrivals es = fold replay_receive (arrivals es) replay_out_new"

subsection \<open>The batches hold the records\<close>

lemma read_records_repr:
  assumes "reader_repr H r es" "\<forall>i \<in> set js. i < length es"
  shows "read_records r js = Inr (map (\<lambda>i. (rec_off es i + header_len, record_of H i (es ! i))) js)"
  using assms by (induction js) (auto simp: reader_get_repr record_start_def reader_offset_repr)

lemma stored_body:
  assumes "reader_repr H r es" "i < length es"
  shows "slice (rec_off es i + header_len) (rec_off es i + header_len + length (ev_bytes (es ! i))) (rd_seg r) = ev_bytes (es ! i)"
proof -
  from assms obtain rest where h: "hash_ok H" and seg: "rd_seg r = seg_stream H es @ rest" by (auto simp: reader_repr_def)
  from seg_read_header(2) [OF h assms(2) seg] show ?thesis
    by (auto simp: read_exact_at_def slice_def split: if_splits)
qed

definition batch_of :: "batch \<Rightarrow> bytes \<Rightarrow> (nat \<times> bytes) list \<Rightarrow> nat \<Rightarrow> nat \<Rightarrow> event list \<Rightarrow> bool" where
  "batch_of b name names q first evs \<longleftrightarrow>
     bt_seq b = q \<and> bt_first b = first \<and> length (bt_ranges b) = length evs \<and> batch_events b = map ev_bytes evs \<and>
     (\<forall>i < length evs. batch_receipt b i = ev_receipt (evs ! i) \<and>
        batch_source b i = (case map_of names (ev_source (evs ! i)) of Some n \<Rightarrow> n | None \<Rightarrow> name))"

lemma stored_batch_repr:
  assumes "reader_repr H r es" "first + n \<le> length es"
  shows "\<exists>b. stored_batch r name names q first n = Inr b \<and> batch_of b name names q first (take n (drop first es))"
proof -
  have js: "\<forall>i \<in> set [first..<first + n]. i < length es" using assms(2) by simp
  let ?l = "map (\<lambda>i. (rec_off es i + header_len, record_of H i (es ! i))) [first..<first + n]"
  have "map (\<lambda>i. ev_bytes (es ! i)) [first..<first + n] = map ev_bytes (take n (drop first es))"
    using assms(2) by (intro nth_equalityI) (simp_all del: upt_Suc)
  moreover have "map (\<lambda>i. slice (rec_off es i + header_len) (rec_off es i + header_len + length (ev_bytes (es ! i))) (rd_seg r))
      [first..<first + n] = map (\<lambda>i. ev_bytes (es ! i)) [first..<first + n]"
    using assms(2) stored_body [OF assms(1)] by (intro map_cong) auto
  ultimately show ?thesis using assms(2)
    unfolding stored_batch_def read_records_repr [OF assms(1) js]
    by (auto simp: batch_of_def batch_events_def batch_receipt_def batch_source_def record_of_def comp_def split: option.split)
qed

text \<open>Batches with consecutive sequence numbers and ids that hold these events.\<close>

fun batches_of :: "bytes \<Rightarrow> (nat \<times> bytes) list \<Rightarrow> nat \<Rightarrow> nat \<Rightarrow> batch list \<Rightarrow> event list \<Rightarrow> bool" where
  "batches_of name names q first [] evs \<longleftrightarrow> evs = []"
| "batches_of name names q first (b # bts) evs \<longleftrightarrow>
     (\<exists>n \<le> length evs. batch_of b name names q first (take n evs) \<and> batches_of name names (q + 1) (first + n) bts (drop n evs))"

lemma replay_batches_all:
  assumes "reader_repr H r es" "upto_id \<le> length es" "i \<le> upto_id" "\<And>k. \<not> cancelled k" "\<And>k. alive k"
  shows "\<exists>bts. replay_batches r names sz upto_id cancelled alive q i = (bts, None) \<and>
    batches_of ''replay'' names q i bts (drop i (take upto_id es))"
  using assms(3)
proof (induction "upto_id - i" arbitrary: q i rule: less_induct)
  case less
  show ?case
  proof (cases "upto_id \<le> i")
    case True
    then show ?thesis by (subst replay_batches.simps) simp
  next
    case False
    define n where "n = min (upto_id - i) (max 1 sz)"
    have n: "0 < n" "i + n \<le> upto_id" using False by (auto simp: n_def)
    then obtain b where b: "stored_batch r ''replay'' names q i n = Inr b" "batch_of b ''replay'' names q i (take n (drop i es))"
      using stored_batch_repr [OF assms(1)] assms(2) by (meson order_trans)
    have "upto_id - (i + n) < upto_id - i" using n False by simp
    from less.hyps [OF this n(2), of "q + 1"] obtain bts where
      r: "replay_batches r names sz upto_id cancelled alive (q + 1) (i + n) = (bts, None)"
        "batches_of ''replay'' names (q + 1) (i + n) bts (drop (i + n) (take upto_id es))" by blast
    have "take n (drop i (take upto_id es)) = take n (drop i es)" using n(2) by (simp add: drop_take min_def)
    with b(2) r(2) n assms(2) have "batches_of ''replay'' names q i (b # bts) (drop i (take upto_id es))"
      by (simp add: exI [of _ n] add.commute)
    then show ?thesis using b(1) r(1) False assms(4,5) by (subst replay_batches.simps) (simp add: n_def Let_def)
  qed
qed

subsection \<open>What a batch becomes\<close>

text \<open>The line the pipeline writes for a stored event under its id, its source's name and its receipt time.\<close>

definition event_line ::
  "engines \<Rightarrow> (jvalue \<Rightarrow> bytes) \<Rightarrow> pipeline \<Rightarrow> bytes \<Rightarrow> (nat \<times> bytes) list \<Rightarrow> nat \<Rightarrow> event \<Rightarrow> bytes \<Rightarrow> bool"
where
  "event_line E to_json pl name names i ev l \<longleftrightarrow> CHR 0x0A \<notin> set l \<and>
     (\<exists>hint parsed. snd (snd (snd (process E to_json pl (ev_bytes ev) i
        (case map_of names (ev_source ev) of Some n \<Rightarrow> n | None \<Rightarrow> name) (ev_receipt ev) hint parsed []))) = l @ [CHR 0x0A])"

definition event_lines ::
  "engines \<Rightarrow> (jvalue \<Rightarrow> bytes) \<Rightarrow> pipeline set \<Rightarrow> bytes \<Rightarrow> (nat \<times> bytes) list \<Rightarrow> nat \<Rightarrow> event list \<Rightarrow> bytes list \<Rightarrow> bool"
where
  "event_lines E to_json pls name names first evs ls \<longleftrightarrow>
     length ls = length evs \<and> (\<forall>i < length evs. \<exists>pl \<in> pls. event_line E to_json pl name names (first + i) (evs ! i) (ls ! i))"

lemma event_lines_Nil [simp]: "event_lines E to_json pls name names first [] ls \<longleftrightarrow> ls = []"
  by (auto simp: event_lines_def)

lemma event_lines_append:
  assumes "event_lines E to_json pls name names first as la" "event_lines E to_json pls name names (first + length as) cs lb"
  shows "event_lines E to_json pls name names first (as @ cs) (la @ lb)"
proof -
  have "\<exists>pl \<in> pls. event_line E to_json pl name names (first + i) ((as @ cs) ! i) ((la @ lb) ! i)" if "i < length as + length cs" for i
  proof (cases "i < length as")
    case True
    then show ?thesis using assms(1) by (simp add: event_lines_def nth_append)
  next
    case False
    then have "i - length as < length cs" "first + length as + (i - length as) = first + i" using that by simp_all
    moreover have "length la = length as" using assms(1) by (simp add: event_lines_def)
    moreover have "\<forall>j < length cs. \<exists>pl \<in> pls. event_line E to_json pl name names (first + length as + j) (cs ! j) (lb ! j)"
      using assms(2) by (simp add: event_lines_def)
    ultimately have "\<exists>pl \<in> pls. event_line E to_json pl name names (first + i) (cs ! (i - length as)) (lb ! (i - length as))"
      by fastforce
    then show ?thesis using False \<open>length la = length as\<close> by (simp add: nth_append)
  qed
  then show ?thesis using assms by (simp add: event_lines_def)
qed

lemma event_line_for: "event_line E to_json pl name names i ev l \<Longrightarrow> pl \<in> pls \<Longrightarrow> line_for E to_json pls i (ev_bytes ev) l"
  unfolding event_line_def line_for_def by blast

lemma event_lines_for: "event_lines E to_json pls name names first evs ls \<Longrightarrow> lines_for E to_json pls first (map ev_bytes evs) ls"
  using event_line_for by (fastforce simp: event_lines_def lines_for_def)

lemma batch_lines:
  assumes "one_line to_json" "batch_of b name names q first evs" "ws_out w = []" "pl \<in> pls"
  shows "\<exists>ls. ws_out (process_batch E to_json pl b w) = joined ls \<and> event_lines E to_json pls name names first evs ls"
proof -
  from process_batch_each [OF assms(1,3), of E pl b] obtain ls where
    ls: "ws_out (process_batch E to_json pl b w) = joined ls" "length ls = length (bt_ranges b)"
      "\<forall>i < length ls. CHR 0x0A \<notin> set (ls ! i) \<and> (\<exists>hint parsed. snd (snd (snd (process E to_json pl (batch_events b ! i)
         (bt_first b + i) (batch_source b i) (batch_receipt b i) hint parsed []))) = ls ! i @ [CHR 0x0A])" by blast
  have "event_line E to_json pl name names (first + i) (evs ! i) (ls ! i)" if "i < length evs" for i
  proof -
    from assms(2) that have b: "batch_events b ! i = ev_bytes (evs ! i)" "bt_first b = first" "batch_receipt b i = ev_receipt (evs ! i)"
      "batch_source b i = (case map_of names (ev_source (evs ! i)) of Some n \<Rightarrow> n | None \<Rightarrow> name)" "i < length ls"
      using ls(2) by (auto simp: batch_of_def)
    show ?thesis using ls(3) [rule_format, OF b(5)] unfolding event_line_def b(1-4) by blast
  qed
  then have "event_lines E to_json pls name names first evs ls"
    using ls(2) assms(2,4) unfolding event_lines_def batch_of_def by auto
  with ls(1) show ?thesis by blast
qed

subsection \<open>In whatever order the batches arrive\<close>

text \<open>What the output thread holds when the batches \<open>arrived\<close> have come in: \<open>buf\<close> and \<open>cnt\<close> say what each brings.\<close>

definition holds ::
  "bytes \<Rightarrow> nat \<Rightarrow> (nat \<Rightarrow> bytes) \<Rightarrow> (nat \<Rightarrow> nat) \<Rightarrow> nat set \<Rightarrow> out_state \<Rightarrow> bool"
where
  "holds file0 n0 buf cnt arrived ot \<longleftrightarrow>
     ot_file ot = file0 @ concat (map buf [0..<ot_next ot]) \<and> ot_emitted ot = n0 + sum_list (map cnt [0..<ot_next ot]) \<and>
     (\<forall>(q, e) \<in> set (ot_pending ot). em_buf e = buf q \<and> em_count e = cnt q) \<and>
     {0..<ot_next ot} \<union> fst ` set (ot_pending ot) = arrived"

lemma drain_holds:
  "holds file0 n0 buf cnt arrived ot \<Longrightarrow>
    holds file0 n0 buf cnt arrived (drain ot) \<and> ot_next (drain ot) \<notin> fst ` set (ot_pending (drain ot))"
proof (induction ot rule: drain.induct)
  case (1 ot)
  show ?case
  proof (cases "map_of (ot_pending ot) (ot_next ot)")
    case None
    then have "drain ot = ot" by (subst drain.simps) simp
    then show ?thesis using 1(2) None by (simp add: map_of_eq_None_iff)
  next
    case (Some e)
    let ?ot = "emit e (ot\<lparr>ot_pending := AList.delete (ot_next ot) (ot_pending ot)\<rparr>)"
    from Some have mem: "(ot_next ot, e) \<in> set (ot_pending ot)" by (rule map_of_SomeD)
    have "{0..<Suc (ot_next ot)} \<union> fst ` set (AList.delete (ot_next ot) (ot_pending ot)) =
        {0..<ot_next ot} \<union> fst ` set (ot_pending ot)"
      using mem by (force simp: AList.delete_eq)
    then have "holds file0 n0 buf cnt arrived ?ot"
      using 1(2) mem unfolding holds_def by (auto simp: AList.delete_eq)
    from 1(1) [OF Some this] show ?thesis by (simp add: drain.simps [of ot] Some)
  qed
qed

lemma receive_holds:
  assumes "holds file0 n0 buf cnt arrived ot" "em_buf e = buf (em_seq e)" "em_count e = cnt (em_seq e)"
  shows "holds file0 n0 buf cnt (insert (em_seq e) arrived) (receive e ot) \<and>
    ot_next (receive e ot) \<notin> fst ` set (ot_pending (receive e ot))"
proof -
  let ?p = "AList.update (em_seq e) e (ot_pending ot)"
  have "fst ` set (AList.update k v xs) = insert k (fst ` set xs)" "set (AList.update k v xs) \<subseteq> insert (k, v) (set xs)"
    for k v and xs :: "(nat \<times> emitted) list"
    by (induction xs) auto
  note up = this [of "em_seq e" e "ot_pending ot"]
  have "\<forall>(q, e) \<in> set ?p. em_buf e = buf q \<and> em_count e = cnt q"
    using assms up(2) unfolding holds_def by blast
  moreover have "{0..<ot_next ot} \<union> fst ` set ?p = insert (em_seq e) arrived"
    using assms(1) unfolding holds_def up(1) by blast
  ultimately have "holds file0 n0 buf cnt (insert (em_seq e) arrived) (ot\<lparr>ot_pending := ?p\<rparr>)"
    using assms(1) unfolding holds_def by simp
  from drain_holds [OF this] show ?thesis by (simp add: receive_def)
qed

lemma all_received:
  assumes "ot_pending ot = []" "ot_next ot = 0" "em_seq ` set es = {0..<n}"
    and "\<forall>e \<in> set es. em_buf e = buf (em_seq e) \<and> em_count e = cnt (em_seq e)"
  shows "ot_file (fold receive es ot) = ot_file ot @ concat (map buf [0..<n]) \<and>
    ot_emitted (fold receive es ot) = ot_emitted ot + sum_list (map cnt [0..<n]) \<and>
    ot_next (fold receive es ot) = n"
proof -
  let ?ok = "\<lambda>a s. holds (ot_file ot) (ot_emitted ot) buf cnt a s \<and> ot_next s \<notin> fst ` set (ot_pending s)"
  have "?ok (em_seq ` set es \<union> a) (fold receive es s)" if "?ok a s" for a s
    using that assms(4)
  proof (induction es arbitrary: a s)
    case (Cons e es)
    then have "?ok (insert (em_seq e) a) (receive e s)" using receive_holds [of _ _ buf cnt a s e] by (simp only: list.set_intros) blast
    from Cons.IH [OF this] Cons.prems(2) show ?case by simp
  qed simp
  moreover have "?ok {} ot" using assms(1,2) by (simp add: holds_def)
  ultimately have "?ok (em_seq ` set es \<union> {}) (fold receive es ot)" by blast
  then have h: "holds (ot_file ot) (ot_emitted ot) buf cnt {0..<n} (fold receive es ot)"
    and fresh: "ot_next (fold receive es ot) \<notin> fst ` set (ot_pending (fold receive es ot))" by (simp_all add: assms(3))
  let ?m = "ot_next (fold receive es ot)"
  have u: "{0..<?m} \<union> fst ` set (ot_pending (fold receive es ot)) = {0..<n}" using h by (simp add: holds_def)
  have "\<not> ?m < n"
  proof
    assume "?m < n"
    then have "?m \<in> {0..<?m} \<union> fst ` set (ot_pending (fold receive es ot))" unfolding u by simp
    then show False using fresh by simp
  qed
  moreover have "{0..<?m} \<subseteq> {0..<n}" using u by blast
  then have "?m \<le> n" by (cases "?m = 0") (auto simp: subset_eq dest: bspec [of _ _ "?m - 1"])
  ultimately have "?m = n" by simp
  then show ?thesis using h by (simp add: holds_def)
qed

text \<open>What a worker may send for a batch, whatever it kept from the batches before it.\<close>

definition emits :: "engines \<Rightarrow> (jvalue \<Rightarrow> bytes) \<Rightarrow> pipeline set \<Rightarrow> batch \<Rightarrow> emitted \<Rightarrow> bool" where
  "emits E to_json pls b e \<longleftrightarrow>
     em_seq e = bt_seq b \<and> em_count e = length (bt_ranges b) \<and>
     (\<exists>pl \<in> pls. \<exists>w. ws_out w = [] \<and> em_buf e = ws_out (process_batch E to_json pl b w))"

lemma batches_lines:
  assumes "batches_of name names q first bts evs" "list_all2 (emits E to_json pls) bts es" "one_line to_json"
  shows "map em_seq es = [q..<q + length bts] \<and> sum_list (map em_count es) = length evs \<and>
    (\<exists>ls. concat (map em_buf es) = joined ls \<and> event_lines E to_json pls name names first evs ls)"
  using assms(2,1)
proof (induction bts es arbitrary: q first evs rule: list_all2_induct)
  case Nil
  then show ?case by (intro conjI exI [of _ "[]"]) simp_all
next
  case (Cons b bts e es)
  then obtain n where n: "n \<le> length evs" "batch_of b name names q first (take n evs)"
    "batches_of name names (q + 1) (first + n) bts (drop n evs)" by auto
  from Cons(1) obtain pl w where e: "em_seq e = q" "em_count e = n" "pl \<in> pls" "ws_out w = []"
    "em_buf e = ws_out (process_batch E to_json pl b w)"
    using n(1,2) unfolding emits_def batch_of_def by auto
  from batch_lines [OF assms(3) n(2) e(4,3)] obtain la where
    la: "em_buf e = joined la" "event_lines E to_json pls name names first (take n evs) la" unfolding e(5) by blast
  from Cons.IH [OF n(3)] obtain lb where
    lb: "map em_seq es = [q + 1..<q + 1 + length bts]" "sum_list (map em_count es) = length evs - n"
      "concat (map em_buf es) = joined lb" "event_lines E to_json pls name names (first + n) (drop n evs) lb" by auto
  have l: "length (take n evs) = n" using n(1) by simp
  have "event_lines E to_json pls name names first (take n evs @ drop n evs) (la @ lb)"
    by (rule event_lines_append [OF la(2), unfolded l, OF lb(4)])
  then show ?case using la(1) lb(1-3) e(1,2) n(1)
    by (intro conjI exI [of _ "la @ lb"]) (simp_all add: upt_conv_Cons del: upt_Suc)
qed

lemma all_emitted:
  assumes "batches_of name names 0 first bts evs" "list_all2 (emits E to_json pls) bts es" "one_line to_json"
    and "set arrived = set es" "ot_pending ot = []" "ot_next ot = 0"
  shows "\<exists>ls. ot_file (fold receive arrived ot) = ot_file ot @ joined ls \<and> event_lines E to_json pls name names first evs ls \<and>
    ot_emitted (fold receive arrived ot) = ot_emitted ot + length evs"
proof -
  note b = batches_lines [OF assms(1-3)]
  let ?n = "length bts"
  have len: "length es = ?n" using assms(2) by (simp add: list_all2_lengthD)
  have seq: "em_seq (es ! i) = i" if "i < ?n" for i using arg_cong [OF b [THEN conjunct1], of "\<lambda>l. l ! i"] that len by simp
  have all: "\<forall>e \<in> set arrived. em_buf e = em_buf (es ! em_seq e) \<and> em_count e = em_count (es ! em_seq e)"
    using seq len by (auto simp: assms(4) in_set_conv_nth)
  have "em_seq ` set arrived = set (map em_seq es)" by (simp add: assms(4))
  also have "\<dots> = {0..<?n}" unfolding b [THEN conjunct1] by simp
  finally have seqs: "em_seq ` set arrived = {0..<?n}" .
  have "map (\<lambda>i. em_buf (es ! i)) [0..<?n] = map em_buf es" "map (\<lambda>i. em_count (es ! i)) [0..<?n] = map em_count es"
    using len by (intro nth_equalityI; simp)+
  from all_received [OF assms(5,6) seqs all, unfolded this]
  have r: "ot_file (fold receive arrived ot) = ot_file ot @ concat (map em_buf es)"
    "ot_emitted (fold receive arrived ot) = ot_emitted ot + sum_list (map em_count es)" by blast+
  from b obtain ls where "concat (map em_buf es) = joined ls" "event_lines E to_json pls name names first evs ls" by blast
  then show ?thesis using r b by (intro exI [of _ ls]) simp
qed

subsection \<open>The writer of a replay does what the output thread does\<close>

definition replay_view :: "out_state \<Rightarrow> replay_out" where
  "replay_view ot = \<lparr>ro_pending = map (\<lambda>(q, e). (q, em_buf e, em_count e)) (ot_pending ot), ro_next = ot_next ot,
     ro_file = ot_file ot, ro_emitted = ot_emitted ot\<rparr>"

lemma replay_view_drain: "replay_view (drain ot) = replay_drain (replay_view ot)"
proof (induction ot rule: drain.induct)
  case (1 ot)
  have m: "map_of (ro_pending (replay_view ot)) (ro_next (replay_view ot)) =
      map_option (\<lambda>e. (em_buf e, em_count e)) (map_of (ot_pending ot) (ot_next ot))"
    by (simp add: replay_view_def map_of_map [of "\<lambda>e. (em_buf e, em_count e)", simplified])
  show ?case
  proof (cases "map_of (ot_pending ot) (ot_next ot)")
    case None
    then show ?thesis using m by (subst drain.simps, subst replay_drain.simps) simp
  next
    case (Some e)
    have "AList.delete k (map (\<lambda>(q, e). (q, em_buf e, em_count e)) xs) =
        map (\<lambda>(q, e). (q, em_buf e, em_count e)) (AList.delete k xs)" for k and xs :: "(nat \<times> emitted) list"
      by (induction xs) auto
    then have "replay_view (emit e (ot\<lparr>ot_pending := AList.delete (ot_next ot) (ot_pending ot)\<rparr>)) =
        (replay_view ot)\<lparr>ro_pending := AList.delete (ro_next (replay_view ot)) (ro_pending (replay_view ot)),
          ro_file := ro_file (replay_view ot) @ em_buf e, ro_emitted := ro_emitted (replay_view ot) + em_count e,
          ro_next := ro_next (replay_view ot) + 1\<rparr>"
      by (simp add: replay_view_def emit_def Let_def)
    with 1 [OF Some] Some m show ?thesis by (subst drain.simps, subst replay_drain.simps) simp
  qed
qed

lemma replay_view_receive: "replay_view (receive e ot) = replay_receive e (replay_view ot)"
proof -
  have "AList.update (em_seq e) (em_buf e, em_count e) (map (\<lambda>(q, e). (q, em_buf e, em_count e)) xs) =
      map (\<lambda>(q, e). (q, em_buf e, em_count e)) (AList.update (em_seq e) e xs)" for xs :: "(nat \<times> emitted) list"
    by (induction xs) auto
  then show ?thesis by (simp add: receive_def replay_receive_def replay_view_drain) (simp add: replay_view_def)
qed

lemma replay_view_fold: "replay_view (fold receive es ot) = fold replay_receive es (replay_view ot)"
  by (induction es arbitrary: ot) (simp_all add: replay_view_receive)

lemma replay_emits: "list_all2 (emits E to_json {pl}) bts (fst (replay_work E to_json pl sched hints c bts))"
proof (induction bts arbitrary: hints c)
  case (Cons b bts)
  obtain hint e c' where t: "replay_turn E to_json pl (hints (sched (bt_seq b))) b = (hint, e, c')"
    by (cases "replay_turn E to_json pl (hints (sched (bt_seq b))) b") auto
  then have "emits E to_json {pl} b e"
    by (auto simp: replay_turn_def Let_def emits_def fresh_worker_def intro!: exI)
  with Cons show ?case by (simp add: t)
qed simp

lemma replay_written_all:
  assumes "batches_of name names 0 first bts evs" "one_line to_json"
    and "set (arrivals es) = set es" "es = fst (replay_work E to_json pl sched hints c bts)"
  shows "\<exists>ls. ro_file (replay_written arrivals es) = joined ls \<and> event_lines E to_json {pl} name names first evs ls \<and>
    ro_emitted (replay_written arrivals es) = length evs"
proof -
  have "replay_view (output_start [] False False 0) = replay_out_new"
    by (simp add: replay_view_def output_start_def replay_out_new_def)
  then have v: "replay_written arrivals es = replay_view (fold receive (arrivals es) (output_start [] False False 0))"
    by (simp add: replay_written_def replay_view_fold)
  have "list_all2 (emits E to_json {pl}) bts es" unfolding assms(4) by (rule replay_emits)
  from all_emitted [OF assms(1) this assms(2,3), of "output_start [] False False 0"] show ?thesis
    by (simp add: v replay_view_def output_start_def)
qed

subsection \<open>A store with two records\<close>

definition two_events :: "event list" where
  "two_events = [\<lparr>ev_source = 1, ev_receipt = 5, ev_bytes = ''a''\<rparr>, \<lparr>ev_source = 1, ev_receipt = 6, ev_bytes = ''b''\<rparr>]"

lemma two_events_reader: "reader_repr tail_hash (sample_reader two_events) two_events"
  by (rule sample_reader_repr) (simp add: two_events_def log_ok_def event_ok_def i64_ok_def rec_off_def header_len_def)

end
