(* ===== verification/Ulpf_Replay.thy ===== *)
theory Ulpf_Replay
  imports Ulpf_Pipeline Ulpf_Outfile Ulpf_Trees "HOL-Library.Option_ord" "HOL-Library.Product_Lexorder"
begin

text \<open>
  The diff of a replay, \<open>src/crates/ulpf/src/replay.rs\<close>: two outputs are read side by side in raw id order, every
  event that differs becomes an entry with the fields gained, lost and changed, and a sparse index of the
  entries serves pages of them. A file is its bytes. \<open>serde_json\<close> is a parameter: reading a value, and writing
  and reading an entry. A \<open>BTreeMap\<close> is the list of its entries in key order.
\<close>

subsection \<open>Lines\<close>

definition raw_id_of :: "bytes \<Rightarrow> nat option" where
  "raw_id_of line =
     (case memmem (''\"ulpf\":{'') line of
        None \<Rightarrow> None
      | Some at \<Rightarrow>
          let rest = drop at line in
          (case memmem (''\"raw_id\":'') rest of
             None \<Rightarrow> None
           | Some k \<Rightarrow> parse_u64 (takeWhile is_ascii_digit (drop (k + length (''\"raw_id\":'')) rest))))"

definition raw_id_of_entry :: "bytes \<Rightarrow> nat option" where
  "raw_id_of_entry line =
     (case memmem (''\"raw_id\":'') line of
        None \<Rightarrow> None
      | Some k \<Rightarrow> parse_u64 (takeWhile is_ascii_digit (drop (k + length (''\"raw_id\":'')) line)))"

text \<open>The pieces \<open>read_until\<close> returns one after the other, and the lines \<open>read_line\<close> makes of them.\<close>

function pieces :: "bytes \<Rightarrow> bytes list" where
  "pieces s = (if s = [] then [] else let l = read_until LF s in l # pieces (drop (length l) s))"
  by auto
termination
  by (relation "measure length") (auto simp: read_until_def split: option.splits)

declare pieces.simps [simp del]

definition read_lines :: "bytes \<Rightarrow> bytes list" where
  "read_lines s = map trim_line_end (pieces s)"

subsection \<open>Fields\<close>

fun flatten_value :: "jvalue \<Rightarrow> bytes \<Rightarrow> obj \<Rightarrow> obj"
  and flatten_fields :: "obj \<Rightarrow> bytes \<Rightarrow> obj \<Rightarrow> obj" where
  "flatten_value (VObj ms) pre out = flatten_fields ms pre out"
| "flatten_value v pre out = bt_entry pre (\<lambda>_. v) out"
| "flatten_fields [] pre out = out"
| "flatten_fields ((k, v) # ms) pre out = flatten_fields ms pre (flatten_value v (dotted pre k) out)"

fun value_get :: "bytes \<Rightarrow> jvalue \<Rightarrow> jvalue option" where
  "value_get k (VObj ms) = map_of ms k"
| "value_get k v = None"

definition parser_of :: "jvalue \<Rightarrow> bytes option" where
  "parser_of v =
     (case value_get ''ulpf'' v of
        None \<Rightarrow> None
      | Some u \<Rightarrow> (case value_get ''parser'' u of Some (VStr s) \<Rightarrow> Some s | _ \<Rightarrow> None))"

subsection \<open>The diff\<close>

datatype diff_kind = Changed | OnlyInNew | OnlyInOld

record diff_entry =
  de_id :: nat
  de_kind :: diff_kind
  de_before :: "bytes option"
  de_after :: "bytes option"
  de_added :: obj
  de_lost :: obj
  de_changed :: obj

record diff_summary =
  ds_unchanged :: nat
  ds_changed :: nat
  ds_only_new :: nat
  ds_only_old :: nat
  ds_added :: nat
  ds_lost :: nat
  ds_fields_changed :: nat

record diff_acc =
  da_summary :: diff_summary
  da_parsers :: "((bytes option \<times> bytes option) \<times> nat) list"
  da_fields :: "(bytes \<times> nat \<times> nat \<times> nat) list"

definition acc_empty :: diff_acc where
  "acc_empty = \<lparr>da_summary = \<lparr>ds_unchanged = 0, ds_changed = 0, ds_only_new = 0, ds_only_old = 0, ds_added = 0, ds_lost = 0,
     ds_fields_changed = 0\<rparr>, da_parsers = [], da_fields = []\<rparr>"

datatype field_change = Added | Lost | FieldChanged

definition count_field :: "field_change \<Rightarrow> bytes \<Rightarrow> diff_acc \<Rightarrow> diff_acc" where
  "count_field c k acc =
     acc\<lparr>da_fields := bt_entry k (\<lambda>e. let (a, l, x) = (case e of None \<Rightarrow> (0, 0, 0) | Some e \<Rightarrow> e) in
        case c of Added \<Rightarrow> (a + 1, l, x) | Lost \<Rightarrow> (a, l + 1, x) | FieldChanged \<Rightarrow> (a, l, x + 1)) (da_fields acc)\<rparr>"

definition count_parsers :: "bytes option \<times> bytes option \<Rightarrow> diff_acc \<Rightarrow> diff_acc" where
  "count_parsers k acc =
     acc\<lparr>da_parsers := (case map_of (da_parsers acc) k of
        Some n \<Rightarrow> AList.update k (n + 1) (da_parsers acc)
      | None \<Rightarrow> insort_key fst (k, 1) (da_parsers acc))\<rparr>"

text \<open>The two loops of \<open>compare\<close>: the new fields against the old ones, then the old ones that are gone.\<close>

fun compare_new :: "obj \<Rightarrow> obj \<Rightarrow> diff_entry \<times> diff_acc \<Rightarrow> diff_entry \<times> diff_acc" where
  "compare_new olds [] s = s"
| "compare_new olds ((k, v) # nf) (e, acc) =
     (case map_of olds k of
        None \<Rightarrow> compare_new olds nf (e\<lparr>de_added := de_added e @ [(k, v)]\<rparr>, count_field Added k acc)
      | Some ov \<Rightarrow>
          if ov \<noteq> v then compare_new olds nf (e\<lparr>de_changed := de_changed e @ [(k, VArr [ov, v])]\<rparr>, count_field FieldChanged k acc)
          else compare_new olds nf (e, acc))"

fun compare_old :: "obj \<Rightarrow> obj \<Rightarrow> diff_entry \<times> diff_acc \<Rightarrow> diff_entry \<times> diff_acc" where
  "compare_old news [] s = s"
| "compare_old news ((k, v) # olds) (e, acc) =
     (if map_of news k = None then compare_old news olds (e\<lparr>de_lost := de_lost e @ [(k, v)]\<rparr>, count_field Lost k acc)
      else compare_old news olds (e, acc))"

type_synonym json_reader = "bytes \<Rightarrow> jvalue option"

definition value_of :: "json_reader \<Rightarrow> bytes \<Rightarrow> jvalue" where
  "value_of J line = (case J line of Some v \<Rightarrow> v | None \<Rightarrow> VNull)"

definition compare_lines :: "json_reader \<Rightarrow> nat \<Rightarrow> bytes \<Rightarrow> bytes \<Rightarrow> diff_acc \<Rightarrow> diff_entry \<times> diff_acc" where
  "compare_lines J i old new acc =
     (let ov = value_of J old; nv = value_of J new;
          olds = flatten_value ov [] []; nf = flatten_value nv [] [];
          (e, acc) = compare_old nf olds (compare_new olds nf
            (\<lparr>de_id = i, de_kind = Changed, de_before = parser_of ov, de_after = parser_of nv, de_added = [], de_lost = [],
              de_changed = []\<rparr>, acc));
          sm = da_summary acc;
          acc = acc\<lparr>da_summary := sm\<lparr>ds_changed := ds_changed sm + 1, ds_added := ds_added sm + length (de_added e),
            ds_lost := ds_lost sm + length (de_lost e), ds_fields_changed := ds_fields_changed sm + length (de_changed e)\<rparr>\<rparr>
      in (e, if de_before e \<noteq> de_after e then count_parsers (de_before e, de_after e) acc else acc))"

definition only_entry :: "json_reader \<Rightarrow> nat \<Rightarrow> bytes \<Rightarrow> diff_kind \<Rightarrow> diff_entry" where
  "only_entry J i line kind =
     (let p = parser_of (value_of J line)
      in \<lparr>de_id = i, de_kind = kind, de_before = (if kind = OnlyInOld then p else None),
          de_after = (if kind = OnlyInOld then None else p), de_added = [], de_lost = [], de_changed = []\<rparr>)"

definition count_unchanged :: "diff_acc \<Rightarrow> diff_acc" where
  "count_unchanged acc = acc\<lparr>da_summary := (da_summary acc)\<lparr>ds_unchanged := ds_unchanged (da_summary acc) + 1\<rparr>\<rparr>"

definition count_only_old :: "diff_acc \<Rightarrow> diff_acc" where
  "count_only_old acc = acc\<lparr>da_summary := (da_summary acc)\<lparr>ds_only_old := ds_only_old (da_summary acc) + 1\<rparr>\<rparr>"

definition count_only_new :: "diff_acc \<Rightarrow> diff_acc" where
  "count_only_new acc = acc\<lparr>da_summary := (da_summary acc)\<lparr>ds_only_new := ds_only_new (da_summary acc) + 1\<rparr>\<rparr>"

text \<open>The loop over the two files: the heads of the lists are the lines at hand.\<close>

definition head_id :: "bytes list \<Rightarrow> nat option" where
  "head_id ls = (if ls = [] then None else raw_id_of (hd ls))"

function diff_loop :: "json_reader \<Rightarrow> bytes list \<Rightarrow> bytes list \<Rightarrow> diff_acc \<Rightarrow> diff_entry list \<Rightarrow> diff_entry list \<times> diff_acc" where
  "diff_loop J olds news acc out =
     (if olds = [] \<and> news = [] then (out, acc)
      else case (head_id olds, head_id news) of
        (Some i, Some n) \<Rightarrow>
          if i = n then
            (if hd olds = hd news then diff_loop J (tl olds) (tl news) (count_unchanged acc) out
             else let (e, acc) = compare_lines J i (hd olds) (hd news) acc in diff_loop J (tl olds) (tl news) acc (out @ [e]))
          else if i < n then diff_loop J (tl olds) news (count_only_old acc) (out @ [only_entry J i (hd olds) OnlyInOld])
          else diff_loop J olds (tl news) (count_only_new acc) (out @ [only_entry J n (hd news) OnlyInNew])
      | (Some i, None) \<Rightarrow>
          if news \<noteq> [] then diff_loop J olds (tl news) acc out
          else diff_loop J (tl olds) news (count_only_old acc) (out @ [only_entry J i (hd olds) OnlyInOld])
      | (None, Some n) \<Rightarrow>
          if olds \<noteq> [] then diff_loop J (tl olds) news acc out
          else diff_loop J olds (tl news) (count_only_new acc) (out @ [only_entry J n (hd news) OnlyInNew])
      | (None, None) \<Rightarrow> diff_loop J (tl olds) (tl news) acc out)"
  by pat_completeness auto
termination
  by (relation "measure (\<lambda>(J, olds, news, acc, out). length olds + length news)")
    (auto simp: head_id_def neq_Nil_conv split: if_splits)

declare diff_loop.simps [simp del]

text \<open>The files are read to their ends; what is written, in the order it is written, and the sorted counts.\<close>

definition descending_by :: "('a \<Rightarrow> nat) \<Rightarrow> 'a list \<Rightarrow> 'a list" where
  "descending_by f xs = sort_key (\<lambda>x. - int (f x)) xs"

record diff_result =
  dr_summary :: diff_summary
  dr_parsers :: "((bytes option \<times> bytes option) \<times> nat) list"
  dr_fields :: "(bytes \<times> nat \<times> nat \<times> nat) list"
  dr_index :: "(nat \<times> nat) list"
  dr_file :: bytes

definition diff_stride :: nat where "diff_stride = 1024"

type_synonym entry_writer = "diff_entry \<Rightarrow> bytes"

text \<open>\<open>emit\<close>: every \<open>DIFF_INDEX_STRIDE\<close>-th entry is indexed with its offset before its line is written.\<close>

fun emit_entries :: "entry_writer \<Rightarrow> diff_entry list \<Rightarrow> nat \<Rightarrow> (nat \<times> nat) list \<times> bytes \<Rightarrow> (nat \<times> nat) list \<times> bytes" where
  "emit_entries w [] n s = s"
| "emit_entries w (e # es) n (index, written) =
     emit_entries w es (n + 1)
       (if n mod diff_stride = 0 then index @ [(de_id e, length written)] else index, written @ w e @ [LF])"

definition diff_files :: "json_reader \<Rightarrow> entry_writer \<Rightarrow> bytes \<Rightarrow> bytes \<Rightarrow> diff_result" where
  "diff_files J w old new =
     (let (es, acc) = diff_loop J (read_lines old) (read_lines new) acc_empty [];
          (index, written) = emit_entries w es 0 ([], [])
      in \<lparr>dr_summary = da_summary acc, dr_parsers = descending_by snd (da_parsers acc),
          dr_fields = take 200 (descending_by (\<lambda>(_, a, l, c). a + l + c) (da_fields acc)), dr_index = index, dr_file = written\<rparr>)"

subsection \<open>The diff is exact\<close>

definition with_ids :: "bytes list \<Rightarrow> (nat \<times> bytes) list" where
  "with_ids ls = List.map_filter (\<lambda>l. map_option (\<lambda>i. (i, l)) (raw_id_of l)) ls"

definition changed_entry :: "json_reader \<Rightarrow> nat \<Rightarrow> bytes \<Rightarrow> bytes \<Rightarrow> diff_entry" where
  "changed_entry J i a b = fst (compare_lines J i a b acc_empty)"

text \<open>What is to be said of one id.\<close>

definition verdict_on :: "json_reader \<Rightarrow> (nat \<times> bytes) list \<Rightarrow> (nat \<times> bytes) list \<Rightarrow> nat \<Rightarrow> diff_entry option" where
  "verdict_on J os ns i =
     (case (map_of os i, map_of ns i) of
        (Some a, Some b) \<Rightarrow> if a = b then None else Some (changed_entry J i a b)
      | (Some a, None) \<Rightarrow> Some (only_entry J i a OnlyInOld)
      | (None, Some b) \<Rightarrow> Some (only_entry J i b OnlyInNew)
      | (None, None) \<Rightarrow> None)"

definition diff_spec :: "json_reader \<Rightarrow> (nat \<times> bytes) list \<Rightarrow> (nat \<times> bytes) list \<Rightarrow> diff_entry list" where
  "diff_spec J os ns = List.map_filter (verdict_on J os ns) (sorted_list_of_set (fst ` set os \<union> fst ` set ns))"

lemma with_ids_simps [simp]:
  "with_ids [] = []"
  "with_ids (l # ls) = (case raw_id_of l of Some i \<Rightarrow> (i, l) # with_ids ls | None \<Rightarrow> with_ids ls)"
  by (simp_all add: with_ids_def split: option.split)

lemma compare_new_fst: "fst (compare_new olds nf (e, acc)) = fst (compare_new olds nf (e, acc'))"
  by (induction nf arbitrary: e acc acc') (auto split: option.split)

lemma compare_old_fst: "fst (compare_old news os (e, acc)) = fst (compare_old news os (e, acc'))"
  by (induction os arbitrary: e acc acc') auto

lemma compare_entry: "fst (compare_lines J i a b acc) = changed_entry J i a b"
proof -
  let ?e = "\<lparr>de_id = i, de_kind = Changed, de_before = parser_of (value_of J a), de_after = parser_of (value_of J b),
    de_added = [], de_lost = [], de_changed = []\<rparr>"
  let ?o = "flatten_value (value_of J a) [] []" and ?n = "flatten_value (value_of J b) [] []"
  have f: "fst (compare_lines J i a b acc) = fst (compare_old ?n ?o (compare_new ?o ?n (?e, acc)))" for acc
    by (simp add: compare_lines_def Let_def split: prod.split)
  have "fst (compare_old ?n ?o (compare_new ?o ?n (?e, acc))) = fst (compare_old ?n ?o (compare_new ?o ?n (?e, acc_empty)))"
    using compare_new_fst [of ?o ?n ?e acc acc_empty] compare_old_fst
    by (cases "compare_new ?o ?n (?e, acc)"; cases "compare_new ?o ?n (?e, acc_empty)") simp
  then show ?thesis by (simp add: f changed_entry_def)
qed

lemma sorted_insert_least:
  "finite A \<Longrightarrow> \<forall>x\<in>A. (i::nat) < x \<Longrightarrow> sorted_list_of_set (insert i A) = i # sorted_list_of_set A"
  by (subst sorted_list_of_set.fold_insort_key.insert) (auto intro!: insort_is_Cons simp: less_imp_le)

lemma verdict_above:
  assumes "i < j" shows "verdict_on J ((i, a) # os) ns j = verdict_on J os ns j" "verdict_on J os ((i, b) # ns) j = verdict_on J os ns j"
  using assms by (simp_all add: verdict_on_def)

lemma map_filter_cong: "(\<And>x. x \<in> set xs \<Longrightarrow> f x = g x) \<Longrightarrow> List.map_filter f xs = List.map_filter g xs"
  by (induction xs) (auto simp: map_filter_simps split: option.split)

lemma diff_spec_least:
  assumes "\<forall>j \<in> fst ` set os \<union> fst ` set ns. i < j"
  shows "diff_spec J ((i, a) # os) ns = only_entry J i a OnlyInOld # diff_spec J os ns"
    "diff_spec J os ((i, b) # ns) = only_entry J i b OnlyInNew # diff_spec J os ns"
    "diff_spec J ((i, a) # os) ((i, b) # ns) = (if a = b then [] else [changed_entry J i a b]) @ diff_spec J os ns"
proof -
  have k: "sorted_list_of_set (insert i (fst ` set os \<union> fst ` set ns)) = i # sorted_list_of_set (fst ` set os \<union> fst ` set ns)"
    using assms by (intro sorted_insert_least) auto
  have n: "map_of os i = None" "map_of ns i = None" using assms by (auto simp: map_of_eq_None_iff)
  have r: "List.map_filter (verdict_on J os' ns') (sorted_list_of_set (fst ` set os \<union> fst ` set ns)) = diff_spec J os ns"
    if "\<And>j. i < j \<Longrightarrow> verdict_on J os' ns' j = verdict_on J os ns j" for os' ns'
    unfolding diff_spec_def using assms that by (intro map_filter_cong) auto
  show "diff_spec J ((i, a) # os) ns = only_entry J i a OnlyInOld # diff_spec J os ns"
    using r [of "(i, a) # os" ns] n by (simp add: diff_spec_def k verdict_above map_filter_simps) (simp add: verdict_on_def)
  show "diff_spec J os ((i, b) # ns) = only_entry J i b OnlyInNew # diff_spec J os ns"
    using r [of os "(i, b) # ns"] n by (simp add: diff_spec_def k verdict_above map_filter_simps) (simp add: verdict_on_def)
  show "diff_spec J ((i, a) # os) ((i, b) # ns) = (if a = b then [] else [changed_entry J i a b]) @ diff_spec J os ns"
    using r [of "(i, a) # os" "(i, b) # ns"] n
    by (cases "a = b") (simp_all add: diff_spec_def k verdict_above map_filter_simps, simp_all add: verdict_on_def)
qed

lemma diff_spec_nil [simp]: "diff_spec J [] [] = []"
  by (simp add: diff_spec_def map_filter_simps)

definition ids_rise :: "bytes list \<Rightarrow> bool" where
  "ids_rise ls \<longleftrightarrow> sorted_wrt (<) (map fst (with_ids ls))"

lemma head_cases:
  assumes "ids_rise ls" "head_id ls = Some i"
  shows "ls \<noteq> [] \<and> with_ids ls = (i, hd ls) # with_ids (tl ls) \<and> (\<forall>j \<in> fst ` set (with_ids (tl ls)). i < j) \<and> ids_rise (tl ls)"
  using assms by (cases ls) (auto simp: head_id_def ids_rise_def)

lemma no_head:
  assumes "ids_rise ls" "head_id ls = None"
  shows "with_ids (tl ls) = with_ids ls \<and> ids_rise (tl ls)"
  using assms by (cases ls) (auto simp: head_id_def ids_rise_def)

text \<open>The invariants of the loop: whatever each of its six moves keeps holds at the end, when both files are read.\<close>

lemma diff_loop_invariant:
  assumes "P olds news acc out"
    "\<And>os ns acc out. os \<noteq> [] \<Longrightarrow> head_id os = None \<Longrightarrow> P os ns acc out \<Longrightarrow> P (tl os) ns acc out"
    "\<And>os ns acc out. ns \<noteq> [] \<Longrightarrow> head_id ns = None \<Longrightarrow> P os ns acc out \<Longrightarrow> P os (tl ns) acc out"
    "\<And>os ns acc out i. head_id os = Some i \<Longrightarrow> head_id ns = Some i \<Longrightarrow> hd os = hd ns \<Longrightarrow> P os ns acc out \<Longrightarrow>
       P (tl os) (tl ns) (count_unchanged acc) out"
    "\<And>os ns acc out i. head_id os = Some i \<Longrightarrow> head_id ns = Some i \<Longrightarrow> hd os \<noteq> hd ns \<Longrightarrow> P os ns acc out \<Longrightarrow>
       P (tl os) (tl ns) (snd (compare_lines J i (hd os) (hd ns) acc)) (out @ [changed_entry J i (hd os) (hd ns)])"
    "\<And>os ns acc out i. head_id os = Some i \<Longrightarrow> (ns \<noteq> [] \<Longrightarrow> \<exists>n. head_id ns = Some n \<and> i < n) \<Longrightarrow> P os ns acc out \<Longrightarrow>
       P (tl os) ns (count_only_old acc) (out @ [only_entry J i (hd os) OnlyInOld])"
    "\<And>os ns acc out n. head_id ns = Some n \<Longrightarrow> (os \<noteq> [] \<Longrightarrow> \<exists>i. head_id os = Some i \<and> n < i) \<Longrightarrow> P os ns acc out \<Longrightarrow>
       P os (tl ns) (count_only_new acc) (out @ [only_entry J n (hd ns) OnlyInNew])"
  shows "P [] [] (snd (diff_loop J olds news acc out)) (fst (diff_loop J olds news acc out))"
  using assms(1)
proof (induction "length olds + length news" arbitrary: olds news acc out rule: less_induct)
  case less
  note IH = less.hyps and p = less.prems
  have sz: "length (tl xs) < length xs" if "xs \<noteq> []" for xs :: "bytes list" using that by (cases xs) auto
  have ne: "xs \<noteq> []" if "head_id xs = Some k" for xs k using that by (auto simp: head_id_def)
  show ?case
  proof (cases "olds = [] \<and> news = []")
    case True
    then show ?thesis using p by (simp add: diff_loop.simps)
  next
    case False
    consider "head_id olds = None" "head_id news = None"
      | m where "head_id olds = None" "head_id news = Some m"
      | i where "head_id olds = Some i" "head_id news = None"
      | i m where "head_id olds = Some i" "head_id news = Some m" by fastforce
    then show ?thesis
    proof cases
      case 1
      have "P (tl olds) news acc out" by (cases "olds = []") (use p 1 assms(2) in auto)
      then have q: "P (tl olds) (tl news) acc out" by (cases "news = []") (use 1 assms(3) in auto)
      have "length (tl olds) + length (tl news) < length olds + length news"
        using False sz by (cases "olds = []"; cases "news = []") (auto simp: add_less_mono)
      from IH [OF this q] show ?thesis using 1 False by (subst (1 2) diff_loop.simps) auto
    next
      case 2
      show ?thesis
      proof (cases "olds = []")
        case True
        then show ?thesis using IH [OF _ assms(7) [OF 2(2) _ p]] 2 sz [OF ne [OF 2(2)]] False by (subst (1 2) diff_loop.simps) simp
      next
        case False
        then show ?thesis using IH [OF _ assms(2) [OF False 2(1) p]] 2 sz [OF False] by (subst (1 2) diff_loop.simps) simp
      qed
    next
      case 3
      show ?thesis
      proof (cases "news = []")
        case True
        then show ?thesis using IH [OF _ assms(6) [OF 3(1) _ p]] 3 sz [OF ne [OF 3(1)]] False by (subst (1 2) diff_loop.simps) simp
      next
        case False
        then show ?thesis using IH [OF _ assms(3) [OF False 3(2) p]] 3 sz [OF False] by (subst (1 2) diff_loop.simps) simp
      qed
    next
      case 4
      note z = sz [OF ne [OF 4(1)]] sz [OF ne [OF 4(2)]] ne [OF 4(1)] ne [OF 4(2)]
      consider "i = m" "hd olds = hd news" | "i = m" "hd olds \<noteq> hd news" | "i < m" | "m < i" by linarith
      then show ?thesis
      proof cases
        case 1
        then show ?thesis using IH [OF _ assms(4) [OF 4(1) _ 1(2) p]] 4 z by (subst (1 2) diff_loop.simps) simp
      next
        case 2
        obtain e acc' where "compare_lines J i (hd olds) (hd news) acc = (e, acc')" by fastforce
        then show ?thesis using IH [OF _ assms(5) [OF 4(1) _ 2(2) p]] 4 2 z compare_entry [of J i "hd olds" "hd news" acc]
          by (subst (1 2) diff_loop.simps) simp
      next
        case 3
        then show ?thesis using IH [OF _ assms(6) [OF 4(1) _ p]] 4 z by (subst (1 2) diff_loop.simps) simp
      next
        case 4
        then show ?thesis using IH [OF _ assms(7) [OF \<open>head_id news = Some m\<close> _ p]] \<open>head_id olds = Some i\<close> z
          \<open>head_id news = Some m\<close> by (subst (1 2) diff_loop.simps) simp
      qed
    qed
  qed
qed

definition of_kind :: "diff_kind \<Rightarrow> diff_entry list \<Rightarrow> nat" where
  "of_kind k es = length (filter (\<lambda>e. de_kind e = k) es)"

lemma head_with_id: "head_id ls = Some i \<Longrightarrow> with_ids ls = (i, hd ls) # with_ids (tl ls)"
  by (cases ls) (auto simp: head_id_def)

lemma head_without_id: "head_id ls = None \<Longrightarrow> with_ids (tl ls) = with_ids ls"
  by (cases ls) (auto simp: head_id_def)

lemma compare_new_summary: "da_summary (snd (compare_new os nf (e, acc))) = da_summary acc \<and> de_kind (fst (compare_new os nf (e, acc))) = de_kind e"
  by (induction nf arbitrary: e acc) (auto simp: count_field_def split: option.split)

lemma compare_old_summary: "da_summary (snd (compare_old ns os (e, acc))) = da_summary acc \<and> de_kind (fst (compare_old ns os (e, acc))) = de_kind e"
  by (induction os arbitrary: e acc) (auto simp: count_field_def)

lemma compare_summary:
  "da_summary (snd (compare_lines J i a b acc)) =
     (let sm = da_summary acc; e = changed_entry J i a b in
      sm\<lparr>ds_changed := ds_changed sm + 1, ds_added := ds_added sm + length (de_added e), ds_lost := ds_lost sm + length (de_lost e),
         ds_fields_changed := ds_fields_changed sm + length (de_changed e)\<rparr>) \<and>
   de_kind (changed_entry J i a b) = Changed"
proof -
  let ?e = "\<lparr>de_id = i, de_kind = Changed, de_before = parser_of (value_of J a), de_after = parser_of (value_of J b),
    de_added = [], de_lost = [], de_changed = []\<rparr>"
  let ?o = "flatten_value (value_of J a) [] []" and ?n = "flatten_value (value_of J b) [] []"
  obtain e1 acc1 where c1: "compare_new ?o ?n (?e, acc) = (e1, acc1)" by fastforce
  obtain e2 acc2 where c2: "compare_old ?n ?o (e1, acc1) = (e2, acc2)" by fastforce
  have k: "da_summary acc2 = da_summary acc" "de_kind e2 = Changed"
    using compare_new_summary [of ?o ?n ?e acc] compare_old_summary [of ?n ?o e1 acc1] by (simp_all add: c1 c2)
  have "fst (compare_lines J i a b acc) = e2" by (simp add: compare_lines_def Let_def c1 c2)
  then have e: "changed_entry J i a b = e2" by (simp add: compare_entry)
  show ?thesis unfolding e by (simp add: compare_lines_def Let_def c1 c2 k count_parsers_def)
qed

text \<open>Every line with an id is counted once for its file, and the counts are those of the entries.\<close>

definition counts_agree :: "nat \<Rightarrow> nat \<Rightarrow> bytes list \<Rightarrow> bytes list \<Rightarrow> diff_acc \<Rightarrow> diff_entry list \<Rightarrow> bool" where
  "counts_agree o1 n1 os ns acc out \<longleftrightarrow>
     (let sm = da_summary acc in
      ds_unchanged sm + ds_changed sm + ds_only_old sm + length (with_ids os) = o1 \<and>
      ds_unchanged sm + ds_changed sm + ds_only_new sm + length (with_ids ns) = n1 \<and>
      ds_changed sm = of_kind Changed out \<and> ds_only_old sm = of_kind OnlyInOld out \<and> ds_only_new sm = of_kind OnlyInNew out \<and>
      ds_added sm = sum_list (map (length \<circ> de_added) out) \<and> ds_lost sm = sum_list (map (length \<circ> de_lost) out) \<and>
      ds_fields_changed sm = sum_list (map (length \<circ> de_changed) out))"

lemma only_entry_parts:
  "de_kind (only_entry J i l k) = k" "de_added (only_entry J i l k) = []" "de_lost (only_entry J i l k) = []"
  "de_changed (only_entry J i l k) = []"
  by (simp_all add: only_entry_def Let_def)

lemma diff_counts:
  "counts_agree (length (with_ids olds)) (length (with_ids news)) [] []
     (snd (diff_loop J olds news acc_empty [])) (fst (diff_loop J olds news acc_empty []))"
proof (rule diff_loop_invariant [where P = "counts_agree (length (with_ids olds)) (length (with_ids news))"])
  show "counts_agree (length (with_ids olds)) (length (with_ids news)) olds news acc_empty []"
    by (simp add: counts_agree_def acc_empty_def of_kind_def)
qed (auto simp: counts_agree_def head_with_id head_without_id of_kind_def count_unchanged_def count_only_old_def
    count_only_new_def only_entry_parts compare_summary Let_def)

lemma diff_entries:
  assumes "ids_rise olds" "ids_rise news"
  shows "fst (diff_loop J olds news acc out) = out @ diff_spec J (with_ids olds) (with_ids news)"
proof -
  let ?P = "\<lambda>os ns acc' out'. ids_rise os \<and> ids_rise ns \<and>
    out' @ diff_spec J (with_ids os) (with_ids ns) = out @ diff_spec J (with_ids olds) (with_ids news)"
  have "?P [] [] (snd (diff_loop J olds news acc out)) (fst (diff_loop J olds news acc out))"
  proof (rule diff_loop_invariant [where P = ?P])
    show "?P olds news acc out" using assms by simp
  next
    fix os ns acc out' assume "os \<noteq> []" "head_id os = None" "?P os ns acc out'"
    then show "?P (tl os) ns acc out'" using no_head by metis
  next
    fix os ns acc out' assume "ns \<noteq> []" "head_id ns = None" "?P os ns acc out'"
    then show "?P os (tl ns) acc out'" using no_head by metis
  next
    fix os ns acc out' i assume h: "head_id os = Some i" "head_id ns = Some i" "hd os = hd ns" "?P os ns acc out'"
    note H = head_cases [OF _ h(1)] head_cases [OF _ h(2)]
    have "\<forall>j \<in> fst ` set (with_ids (tl os)) \<union> fst ` set (with_ids (tl ns)). i < j" using H h(4) by blast
    from diff_spec_least(3) [OF this, of J "hd os" "hd ns"] show "?P (tl os) (tl ns) (count_unchanged acc) out'"
      using H h(3,4) by simp
  next
    fix os ns acc out' i assume h: "head_id os = Some i" "head_id ns = Some i" "hd os \<noteq> hd ns" "?P os ns acc out'"
    note H = head_cases [OF _ h(1)] head_cases [OF _ h(2)]
    have "\<forall>j \<in> fst ` set (with_ids (tl os)) \<union> fst ` set (with_ids (tl ns)). i < j" using H h(4) by blast
    from diff_spec_least(3) [OF this, of J "hd os" "hd ns"] show "?P (tl os) (tl ns) (snd (compare_lines J i (hd os) (hd ns) acc)) (out' @ [changed_entry J i (hd os) (hd ns)])"
      using H h(3,4) by simp
  next
    fix os ns acc out' i assume h: "head_id os = Some i" "ns \<noteq> [] \<Longrightarrow> \<exists>n. head_id ns = Some n \<and> i < n" "?P os ns acc out'"
    have "\<forall>j \<in> fst ` set (with_ids ns). i < j"
      using h(2,3) head_cases [of ns] by (cases "ns = []") fastforce+
    then show "?P (tl os) ns (count_only_old acc) (out' @ [only_entry J i (hd os) OnlyInOld])"
      using h(3) head_cases [OF _ h(1)] diff_spec_least(1) [of "with_ids (tl os)" "with_ids ns" i J "hd os"] by (simp add: ball_Un)
  next
    fix os ns acc out' n assume h: "head_id ns = Some n" "os \<noteq> [] \<Longrightarrow> \<exists>i. head_id os = Some i \<and> n < i" "?P os ns acc out'"
    have "\<forall>j \<in> fst ` set (with_ids os). n < j"
      using h(2,3) head_cases [of os] by (cases "os = []") fastforce+
    then show "?P os (tl ns) (count_only_new acc) (out' @ [only_entry J n (hd ns) OnlyInNew])"
      using h(3) head_cases [OF _ h(1)] diff_spec_least(2) [of "with_ids os" "with_ids (tl ns)" n J "hd ns"] by (simp add: ball_Un)
  qed
  then show ?thesis by simp
qed

text \<open>
  C26. The diff of two outputs is exact. When the ids rise in both files, the entries are, in the order of the
  ids, one for each id that is in one file only or whose lines differ, with the lines' parsers and the fields
  compared; lines without an id are passed over. The summary counts every line of either file exactly once
  and its other counts are those of the entries written.
\<close>

theorem diff_exact:
  assumes "ids_rise (read_lines old)" "ids_rise (read_lines new)"
  shows "let os = with_ids (read_lines old); ns = with_ids (read_lines new); es = diff_spec J os ns; r = diff_files J w old new;
      sm = dr_summary r
    in fst (diff_loop J (read_lines old) (read_lines new) acc_empty []) = es \<and>
      (dr_index r, dr_file r) = emit_entries w es 0 ([], []) \<and>
      ds_unchanged sm + ds_changed sm + ds_only_old sm = length os \<and> ds_unchanged sm + ds_changed sm + ds_only_new sm = length ns \<and>
      ds_changed sm = of_kind Changed es \<and> ds_only_old sm = of_kind OnlyInOld es \<and> ds_only_new sm = of_kind OnlyInNew es \<and>
      ds_added sm = sum_list (map (length \<circ> de_added) es)"
proof -
  obtain es acc where d: "diff_loop J (read_lines old) (read_lines new) acc_empty [] = (es, acc)" by fastforce
  have "es = diff_spec J (with_ids (read_lines old)) (with_ids (read_lines new))"
    using diff_entries [OF assms, of J acc_empty "[]"] by (simp add: d)
  moreover have "counts_agree (length (with_ids (read_lines old))) (length (with_ids (read_lines new))) [] [] acc es"
    using diff_counts [of "read_lines old" "read_lines new" J] by (simp add: d)
  ultimately show ?thesis by (auto simp: diff_files_def d counts_agree_def Let_def split: prod.split)
qed

subsection \<open>An entry turns the old fields into the new ones\<close>

definition fields_ok :: "obj \<Rightarrow> bool" where
  "fields_ok m \<longleftrightarrow> sorted (map fst m) \<and> distinct (map fst m)"

lemma flatten_ok:
  "fields_ok out \<Longrightarrow> fields_ok (flatten_value v pre out)"
  "fields_ok out \<Longrightarrow> fields_ok (flatten_fields ms pre out)"
  by (induction v pre out and ms pre out rule: flatten_value_flatten_fields.induct)
    (auto simp: fields_ok_def dest: bt_entry_keys)

lemma compare_new_eq:
  "fst (compare_new os nf (e, acc)) =
     e\<lparr>de_added := de_added e @ filter (\<lambda>(k, v). map_of os k = None) nf,
       de_changed := de_changed e @ List.map_filter (\<lambda>(k, v). case map_of os k of
         Some ov \<Rightarrow> if ov \<noteq> v then Some (k, VArr [ov, v]) else None | None \<Rightarrow> None) nf\<rparr>"
  by (induction nf arbitrary: e acc) (auto simp: map_filter_simps split: option.split)

lemma compare_old_eq:
  "fst (compare_old ns os (e, acc)) = e\<lparr>de_lost := de_lost e @ filter (\<lambda>(k, v). map_of ns k = None) os\<rparr>"
  by (induction os arbitrary: e acc) auto

lemma changed_entry_eq:
  fixes J a b
  defines "os \<equiv> flatten_value (value_of J a) [] []" and "ns \<equiv> flatten_value (value_of J b) [] []"
  shows "de_added (changed_entry J i a b) = filter (\<lambda>(k, v). map_of os k = None) ns"
    "de_lost (changed_entry J i a b) = filter (\<lambda>(k, v). map_of ns k = None) os"
    "de_changed (changed_entry J i a b) = List.map_filter (\<lambda>(k, v). case map_of os k of
         Some ov \<Rightarrow> if ov \<noteq> v then Some (k, VArr [ov, v]) else None | None \<Rightarrow> None) ns"
proof -
  let ?e = "\<lparr>de_id = i, de_kind = Changed, de_before = parser_of (value_of J a), de_after = parser_of (value_of J b),
    de_added = [], de_lost = [], de_changed = []\<rparr>"
  obtain e1 acc1 where c1: "compare_new os ns (?e, acc_empty) = (e1, acc1)" by fastforce
  have "changed_entry J i a b = fst (compare_old ns os (e1, acc1))"
    by (simp add: changed_entry_def compare_lines_def Let_def c1 flip: os_def ns_def split: prod.split)
  then have "changed_entry J i a b = (fst (compare_new os ns (?e, acc_empty)))\<lparr>de_lost := de_lost e1 @ filter (\<lambda>(k, v). map_of ns k = None) os\<rparr>"
    by (simp add: compare_old_eq c1)
  moreover have "de_lost e1 = []" using compare_new_eq [of os ns ?e acc_empty] by (simp add: c1)
  ultimately show "de_added (changed_entry J i a b) = filter (\<lambda>(k, v). map_of os k = None) ns"
    "de_lost (changed_entry J i a b) = filter (\<lambda>(k, v). map_of ns k = None) os"
    "de_changed (changed_entry J i a b) = List.map_filter (\<lambda>(k, v). case map_of os k of
         Some ov \<Rightarrow> if ov \<noteq> v then Some (k, VArr [ov, v]) else None | None \<Rightarrow> None) ns"
    by (simp_all add: compare_new_eq)
qed

lemma map_of_filter_key:
  "distinct (map fst m) \<Longrightarrow> map_of (filter (\<lambda>(k, v). P k) m) k = (if P k then map_of m k else None)"
  by (induction m) (auto simp: map_of_eq_None_iff)

lemma map_of_map_filter:
  assumes "distinct (map fst m)"
  shows "map_of (List.map_filter (\<lambda>(k, v). map_option (Pair k) (f k v)) m) k = (case map_of m k of Some v \<Rightarrow> f k v | None \<Rightarrow> None)"
proof -
  have "map_of (List.map_filter (\<lambda>(k, v). map_option (Pair k) (f k v)) m) k = None" if "k \<notin> fst ` set m" for m
    using that by (induction m) (auto simp: map_filter_simps split: option.split)
  then show ?thesis using assms
    by (induction m) (auto simp: map_filter_simps split: option.split)
qed

text \<open>What an entry says the fields are now: lost ones gone, changed ones replaced, added ones there.\<close>

definition apply_entry :: "diff_entry \<Rightarrow> (bytes \<Rightarrow> jvalue option) \<Rightarrow> bytes \<Rightarrow> jvalue option" where
  "apply_entry e m k =
     (if map_of (de_lost e) k \<noteq> None then None
      else case map_of (de_changed e) k of
             Some (VArr [ov, v]) \<Rightarrow> if m k = Some ov then Some v else None
           | _ \<Rightarrow> (case map_of (de_added e) k of Some v \<Rightarrow> if m k = None then Some v else None | None \<Rightarrow> m k))"

text \<open>
  C27. The entry of a changed event is a patch: applied to the fields of the old line it gives exactly the fields
  of the new line, where a field it adds was not there and one it changes had the old value it names.
\<close>

theorem diff_entry_patches:
  "apply_entry (changed_entry J i a b) (map_of (flatten_value (value_of J a) [] [])) =
     map_of (flatten_value (value_of J b) [] [])"
proof
  fix k
  let ?o = "flatten_value (value_of J a) [] []" and ?n = "flatten_value (value_of J b) [] []"
  have d: "distinct (map fst ?o)" "distinct (map fst ?n)"
    using flatten_ok(1) [of "[]"] by (simp_all add: fields_ok_def)
  let ?f = "\<lambda>k v. case map_of ?o k of Some ov \<Rightarrow> if ov \<noteq> v then Some (VArr [ov, v]) else None | None \<Rightarrow> None"
  have "(\<lambda>(k, v). case map_of ?o k of Some ov \<Rightarrow> if ov \<noteq> v then Some (k, VArr [ov, v]) else None | None \<Rightarrow> None) =
      (\<lambda>(k, v). map_option (Pair k) (?f k v))"
    by (auto split: option.split)
  then have c: "map_of (de_changed (changed_entry J i a b)) k = (case map_of ?n k of Some v \<Rightarrow> ?f k v | None \<Rightarrow> None)"
    using map_of_map_filter [OF d(2), of ?f k] by (simp only: changed_entry_eq)
  have l: "map_of (de_lost (changed_entry J i a b)) k = (if map_of ?n k = None then map_of ?o k else None)"
    "map_of (de_added (changed_entry J i a b)) k = (if map_of ?o k = None then map_of ?n k else None)"
    by (simp_all add: changed_entry_eq map_of_filter_key d)
  show "apply_entry (changed_entry J i a b) (map_of ?o) k = map_of ?n k"
    by (cases "map_of ?o k"; cases "map_of ?n k") (auto simp: apply_entry_def c l)
qed

subsection \<open>Pages of a diff file\<close>

fun index_pieces :: "bytes list \<Rightarrow> nat \<Rightarrow> nat \<Rightarrow> (nat \<times> nat) list" where
  "index_pieces [] n offset = []"
| "index_pieces (l # ls) n offset =
     (if n mod diff_stride = 0 then (case raw_id_of_entry l of Some i \<Rightarrow> [(i, offset)] | None \<Rightarrow> []) else []) @
     index_pieces ls (n + 1) (offset + length l)"

definition index_diff :: "bytes \<Rightarrow> (nat \<times> nat) list" where
  "index_diff content = index_pieces (pieces content) 0 0"

definition diff_kind_name :: "diff_kind \<Rightarrow> bytes" where
  "diff_kind_name k = (case k of Changed \<Rightarrow> ''changed'' | OnlyInNew \<Rightarrow> ''only_in_new'' | OnlyInOld \<Rightarrow> ''only_in_old'')"

type_synonym entry_reader = "bytes \<Rightarrow> diff_entry option"

definition before :: "nat option \<Rightarrow> nat \<Rightarrow> bool" where
  "before after i \<longleftrightarrow> (case after of Some a \<Rightarrow> i \<le> a | None \<Rightarrow> False)"

definition other_kind :: "bytes option \<Rightarrow> diff_kind \<Rightarrow> bool" where
  "other_kind kind k \<longleftrightarrow> (case kind of Some n \<Rightarrow> n \<noteq> diff_kind_name k | None \<Rightarrow> False)"

fun page_loop ::
  "entry_reader \<Rightarrow> nat option \<Rightarrow> nat \<Rightarrow> bytes option \<Rightarrow> bytes list \<Rightarrow> diff_entry list \<Rightarrow> diff_entry list \<times> nat option"
where
  "page_loop rd after limit kind [] out = (out, None)"
| "page_loop rd after limit kind (l # ls) out =
     (case raw_id_of_entry l of
        None \<Rightarrow> page_loop rd after limit kind ls out
      | Some i \<Rightarrow>
          if before after i then page_loop rd after limit kind ls out
          else (case rd l of
                  None \<Rightarrow> page_loop rd after limit kind ls out
                | Some e \<Rightarrow>
                    if other_kind kind (de_kind e) then page_loop rd after limit kind ls out
                    else if limit \<le> length out then (out, Some (de_id e))
                    else page_loop rd after limit kind ls (out @ [e])))"

definition page_start :: "(nat \<times> nat) list \<Rightarrow> nat option \<Rightarrow> nat" where
  "page_start index after =
     (case after of
        Some a \<Rightarrow> (case find (\<lambda>(i, _). i \<le> a) (rev index) of Some (_, offset) \<Rightarrow> offset | None \<Rightarrow> 0)
      | None \<Rightarrow> 0)"

definition page :: "entry_reader \<Rightarrow> bytes \<Rightarrow> (nat \<times> nat) list \<Rightarrow> nat option \<Rightarrow> nat \<Rightarrow> bytes option \<Rightarrow> diff_entry list \<times> nat option" where
  "page rd content index after limit kind =
     (let (out, rest) = page_loop rd after (max 1 (min 500 limit)) kind (pieces (drop (page_start index after) content)) []
      in (out, if rest = None \<or> out = [] then None else Some (de_id (last out))))"

text \<open>The codec of entries writes one line that carries the id and reads back.\<close>

definition entry_codec :: "entry_writer \<Rightarrow> entry_reader \<Rightarrow> diff_entry \<Rightarrow> bool" where
  "entry_codec w rd e \<longleftrightarrow> LF \<notin> set (w e) \<and> rd (w e @ [LF]) = Some e \<and> raw_id_of_entry (w e @ [LF]) = Some (de_id e)"

definition entry_lines :: "entry_writer \<Rightarrow> diff_entry list \<Rightarrow> bytes" where
  "entry_lines w es = concat (map (\<lambda>e. w e @ [LF]) es)"

fun entry_index :: "entry_writer \<Rightarrow> diff_entry list \<Rightarrow> nat \<Rightarrow> nat \<Rightarrow> (nat \<times> nat) list" where
  "entry_index w [] n offset = []"
| "entry_index w (e # es) n offset =
     (if n mod diff_stride = 0 then [(de_id e, offset)] else []) @ entry_index w es (n + 1) (offset + length (w e) + 1)"

lemma emit_entries_eq:
  "emit_entries w es n (index, written) = (index @ entry_index w es n (length written), written @ entry_lines w es)"
  by (induction es arbitrary: n index written) (auto simp: entry_lines_def)

lemma pieces_lines:
  "list_all (\<lambda>l. LF \<notin> set l) ls \<Longrightarrow> pieces (concat (map (\<lambda>l. l @ [LF]) ls)) = map (\<lambda>l. l @ [LF]) ls"
proof (induction ls)
  case (Cons l ls)
  then have "memchr LF (l @ LF # concat (map (\<lambda>l. l @ [LF]) ls)) = Some (length l)" by (intro memchr_hit) simp
  then have "read_until LF (l @ LF # concat (map (\<lambda>l. l @ [LF]) ls)) = l @ [LF]" by (simp add: read_until_def)
  then show ?case using Cons by (subst pieces.simps) simp
qed (simp add: pieces.simps)

lemma pieces_entries:
  assumes "list_all (entry_codec w rd) es" shows "pieces (entry_lines w es) = map (\<lambda>e. w e @ [LF]) es"
proof -
  have "list_all (\<lambda>l. LF \<notin> set l) (map w es)" using assms by (simp add: list_all_iff entry_codec_def)
  from pieces_lines [OF this] show ?thesis by (simp add: entry_lines_def comp_def)
qed

lemma index_again:
  assumes "list_all (entry_codec w rd) es" shows "index_diff (entry_lines w es) = entry_index w es 0 0"
proof -
  have "index_pieces (map (\<lambda>e. w e @ [LF]) es) n offset = entry_index w es n offset" for n offset
    using assms by (induction es arbitrary: n offset) (auto simp: entry_codec_def)
  then show ?thesis using pieces_entries [OF assms] by (simp add: index_diff_def)
qed

lemma entry_index_mem:
  "(i, x) \<in> set (entry_index w es n offset) \<Longrightarrow> \<exists>k < length es. i = de_id (es ! k) \<and> x = offset + length (entry_lines w (take k es))"
proof (induction es arbitrary: n offset)
  case (Cons e es)
  from Cons.prems consider "i = de_id e" "x = offset" | "(i, x) \<in> set (entry_index w es (n + 1) (offset + length (w e) + 1))"
    by (auto split: if_splits)
  then show ?case
  proof cases
    case 1
    then show ?thesis by (intro exI [of _ 0]) (simp add: entry_lines_def)
  next
    case 2
    from Cons.IH [OF this] obtain k where "k < length es" "i = de_id (es ! k)"
      "x = offset + length (w e) + 1 + length (entry_lines w (take k es))" by blast
    then show ?thesis by (intro exI [of _ "Suc k"]) (simp add: entry_lines_def)
  qed
qed simp

lemma find_hit: "find P xs = Some y \<Longrightarrow> y \<in> set xs \<and> P y"
  by (induction xs) (auto split: if_splits)

lemma page_start_cut:
  assumes "sorted_wrt (<) (map de_id es)"
  shows "\<exists>k \<le> length es. page_start (entry_index w es 0 0) after = length (entry_lines w (take k es)) \<and>
    (\<forall>e \<in> set (take k es). before after (de_id e))"
proof (cases "\<exists>a x. after = Some a \<and> find (\<lambda>(i, _). i \<le> a) (rev (entry_index w es 0 0)) = Some x")
  case False
  then have "page_start (entry_index w es 0 0) after = 0" by (auto simp: page_start_def split: option.split)
  then show ?thesis by (intro exI [of _ 0]) (simp add: entry_lines_def)
next
  case True
  then obtain a i x where a: "after = Some a" and f: "find (\<lambda>(i, _). i \<le> a) (rev (entry_index w es 0 0)) = Some (i, x)" by auto
  from find_hit [OF f] have "(i, x) \<in> set (entry_index w es 0 0)" "i \<le> a" by simp_all
  then obtain k where k: "k < length es" "i = de_id (es ! k)" "x = length (entry_lines w (take k es))"
    using entry_index_mem by fastforce
  have "de_id e \<le> a" if e: "e \<in> set (take k es)" for e
  proof -
    from e obtain j where "j < k" "e = es ! j" using k(1) by (auto simp: in_set_conv_nth)
    then have "de_id e < de_id (es ! k)" using assms k(1) by (simp add: sorted_wrt_iff_nth_less)
    then show ?thesis using \<open>i \<le> a\<close> k(2) by simp
  qed
  then show ?thesis using k a f by (intro exI [of _ k]) (auto simp: page_start_def before_def)
qed

definition selected :: "nat option \<Rightarrow> bytes option \<Rightarrow> diff_entry list \<Rightarrow> diff_entry list" where
  "selected after kind es = filter (\<lambda>e. \<not> before after (de_id e) \<and> \<not> other_kind kind (de_kind e)) es"

lemma page_loop_selects:
  assumes "list_all (entry_codec w rd) es" "length out \<le> limit"
  shows "page_loop rd after limit kind (map (\<lambda>e. w e @ [LF]) es) out =
    (take limit (out @ selected after kind es),
     if length out + length (selected after kind es) \<le> limit then None
     else Some (de_id ((out @ selected after kind es) ! limit)))"
  using assms
proof (induction es arbitrary: out)
  case (Cons e es)
  have c: "raw_id_of_entry (w e @ [LF]) = Some (de_id e)" "rd (w e @ [LF]) = Some e" using Cons.prems(1) by (auto simp: entry_codec_def)
  show ?case
  proof (cases "before after (de_id e) \<or> other_kind kind (de_kind e)")
    case True
    then show ?thesis using Cons c by (auto simp: selected_def)
  next
    case False
    show ?thesis
    proof (cases "limit \<le> length out")
      case True
      then have "length out = limit" using Cons.prems(2) by simp
      then show ?thesis using False c by (auto simp: selected_def nth_append)
    next
      case l: False
      then show ?thesis using Cons.IH [of "out @ [e]"] Cons.prems False c by (simp add: selected_def)
    qed
  qed
qed (simp add: selected_def)

text \<open>
  C28. A page of a diff is exact, whether its index was kept from the diff or built again from the file: it holds
  the first entries of the kind asked for with an id above \<open>after\<close>, at most 500 and at least one if there is
  one, and names the last of them exactly when more follow, so going on from it misses none and repeats none.
\<close>

theorem page_exact:
  assumes "list_all (entry_codec w rd) es" "sorted_wrt (<) (map de_id es)" "emit_entries w es 0 ([], []) = (index, content)"
  shows "let n = max 1 (min 500 limit); sel = selected after kind es in
    page rd content index after limit kind = (take n sel, if length sel \<le> n then None else Some (de_id (sel ! (n - 1)))) \<and>
    index_diff content = index \<and>
    (n < length sel \<longrightarrow> selected (Some (de_id (sel ! (n - 1)))) kind es = drop n sel)"
proof -
  define n where "n = max 1 (min 500 limit)"
  define sel where "sel = selected after kind es"
  have ic: "index = entry_index w es 0 0" "content = entry_lines w es" using assms(3) by (simp_all add: emit_entries_eq)
  obtain k where k: "k \<le> length es" "page_start index after = length (entry_lines w (take k es))"
      "\<forall>e \<in> set (take k es). before after (de_id e)"
    using page_start_cut [OF assms(2), of w after] unfolding ic by blast
  have "content = entry_lines w (take k es) @ entry_lines w (drop k es)"
    unfolding ic entry_lines_def by (metis append_take_drop_id concat_append map_append)
  then have "drop (page_start index after) content = entry_lines w (drop k es)" by (simp add: k(2))
  moreover have cd: "list_all (entry_codec w rd) (drop k es)" using assms(1) by (auto simp: list_all_iff dest: in_set_dropD)
  ultimately have p: "pieces (drop (page_start index after) content) = map (\<lambda>e. w e @ [LF]) (drop k es)" using pieces_entries by simp
  have "selected after kind es = selected after kind (take k es) @ selected after kind (drop k es)"
    unfolding selected_def by (metis append_take_drop_id filter_append)
  then have s: "selected after kind (drop k es) = sel" using k(3) by (simp add: selected_def sel_def)
  have "page_loop rd after n kind (pieces (drop (page_start index after) content)) [] =
      (take n sel, if length sel \<le> n then None else Some (de_id (sel ! n)))"
    using page_loop_selects [OF cd, of "[]" n after kind] by (simp add: p s)
  moreover have "last (take n sel) = sel ! (n - 1) \<and> take n sel \<noteq> []" if "n < length sel"
  proof -
    have n: "0 < n" by (simp add: n_def)
    then have "take n sel \<noteq> []" using that by auto
    then show ?thesis using that n by (simp add: last_conv_nth)
  qed
  moreover have "page rd content index after limit kind =
      (let (out, rest) = page_loop rd after n kind (pieces (drop (page_start index after) content)) []
       in (out, if rest = None \<or> out = [] then None else Some (de_id (last out))))"
    by (simp only: page_def n_def)
  ultimately have "page rd content index after limit kind = (take n sel, if length sel \<le> n then None else Some (de_id (sel ! (n - 1))))"
    by (auto simp: Let_def not_le)
  moreover have "selected (Some (de_id (sel ! (n - 1)))) kind es = drop n sel" if "n < length sel"
  proof -
    have r: "sorted_wrt (<) (map de_id sel)" using assms(2) unfolding sel_def selected_def by (simp add: sorted_wrt_map sorted_wrt_filter)
    have n: "0 < n" by (simp add: n_def)
    define m where "m = de_id (sel ! (n - 1))"
    have "sel ! (n - 1) \<in> set sel" using that n by simp
    then have "\<not> before after m" by (simp add: sel_def selected_def m_def)
    then have "(\<not> before (Some m) i \<and> Q) = (\<not> before after i \<and> m < i \<and> Q)" for i Q
      by (auto simp: before_def split: option.splits)
    then have "selected (Some m) kind es = filter (\<lambda>e. m < de_id e) sel"
      by (auto simp: selected_def sel_def intro!: filter_cong)
    moreover have "de_id e \<le> m" if e: "e \<in> set (take n sel)" for e
    proof -
      from e obtain j where j: "j < n" "j < length sel" "e = sel ! j" by (auto simp: in_set_conv_nth)
      have "de_id (sel ! j) < de_id (sel ! (n - 1))" if "j \<noteq> n - 1"
        using r that j(1) \<open>n < length sel\<close> by (simp add: sorted_wrt_iff_nth_less)
      then show ?thesis by (cases "j = n - 1") (auto simp: m_def j(3))
    qed
    then have "filter (\<lambda>e. m < de_id e) (take n sel) = []" by (fastforce simp: filter_empty_conv not_less)
    moreover have "filter (\<lambda>e. m < de_id e) (drop n sel) = drop n sel"
      using r that n unfolding m_def by (intro filter_True) (auto simp: in_set_conv_nth sorted_wrt_iff_nth_less)
    moreover have "filter (\<lambda>e. m < de_id e) sel = filter (\<lambda>e. m < de_id e) (take n sel) @ filter (\<lambda>e. m < de_id e) (drop n sel)"
      by (metis append_take_drop_id filter_append)
    ultimately show ?thesis unfolding m_def by simp
  qed
  ultimately show ?thesis unfolding n_def [symmetric] sel_def [symmetric] Let_def using index_again [OF assms(1)] by (simp add: ic)
qed

subsection \<open>Two small outputs\<close>

definition id_line :: "bytes \<Rightarrow> bytes" where
  "id_line d = ''\"ulpf\":{\"raw_id\":'' @ d"

definition old_output :: bytes where
  "old_output = concat (map (\<lambda>l. l @ [LF]) [id_line ''1'', ''junk'', id_line ''2''])"

definition new_output :: bytes where
  "new_output = concat (map (\<lambda>l. l @ [LF]) [id_line ''2,'', id_line ''3''])"

lemma LF_char: "LF = CHR 0x0A"
  by (simp add: LF_def char_of_def bit_0)

lemma id_line_ids:
  "raw_id_of (id_line ''1'') = Some 1" "raw_id_of (id_line ''2'') = Some 2" "raw_id_of (id_line ''2,'') = Some 2"
  "raw_id_of (id_line ''3'') = Some 3" "raw_id_of ''junk'' = None"
  by (simp_all add: raw_id_of_def id_line_def parse_u64_def digits_val_def digit_val_def is_ascii_digit_def Let_def)

lemma output_ids:
  "with_ids (read_lines old_output) = [(1, id_line ''1''), (2, id_line ''2'')]"
  "with_ids (read_lines new_output) = [(2, id_line ''2,''), (3, id_line ''3'')]"
proof -
  have t: "trim_line_end (id_line d @ [LF]) = id_line d" if "d \<in> {''1'', ''2'', ''2,'', ''3''}" for d
    using that by (auto simp: id_line_def trim_line_end_def LF_char)
  have j: "trim_line_end (''junk'' @ [LF]) = ''junk''" by (simp add: trim_line_end_def LF_char)
  have "list_all (\<lambda>l. LF \<notin> set l) [id_line ''1'', ''junk'', id_line ''2'']" "list_all (\<lambda>l. LF \<notin> set l) [id_line ''2,'', id_line ''3'']"
    by (simp_all add: id_line_def LF_char)
  note p = this [THEN pieces_lines]
  have "read_lines old_output = [id_line ''1'', ''junk'', id_line ''2'']" "read_lines new_output = [id_line ''2,'', id_line ''3'']"
    unfolding read_lines_def old_output_def new_output_def p using t j by simp_all
  then show "with_ids (read_lines old_output) = [(1, id_line ''1''), (2, id_line ''2'')]"
    "with_ids (read_lines new_output) = [(2, id_line ''2,''), (3, id_line ''3'')]" by (simp_all add: id_line_ids)
qed

lemma diff_exact_witness:
  "\<forall>w. let sm = dr_summary (diff_files (\<lambda>_. None) w old_output new_output)
     in (ds_unchanged sm, ds_changed sm, ds_only_old sm, ds_only_new sm) = (0, 1, 1, 1)"
proof
  fix w
  have "ids_rise (read_lines old_output)" "ids_rise (read_lines new_output)" by (simp_all add: ids_rise_def output_ids)
  moreover have "sorted_list_of_set {1, 2, 3 :: nat} = [1, 2, 3]"
    using sorted_list_of_set.idem_if_sorted_distinct [of "[1, 2, 3 :: nat]"] by simp
  moreover have "{1, 2 :: nat} \<union> {2, 3} = {1, 2, 3}" by auto
  moreover have "id_line ''2'' \<noteq> id_line ''2,''" by (simp add: id_line_def)
  ultimately have "diff_spec (\<lambda>_. None) (with_ids (read_lines old_output)) (with_ids (read_lines new_output)) =
      [only_entry (\<lambda>_. None) 1 (id_line ''1'') OnlyInOld, changed_entry (\<lambda>_. None) 2 (id_line ''2'') (id_line ''2,''),
       only_entry (\<lambda>_. None) 3 (id_line ''3'') OnlyInNew]"
    by (simp add: diff_spec_def output_ids map_filter_simps verdict_on_def del: One_nat_def)
  with diff_exact [of old_output new_output "\<lambda>_. None" w] \<open>ids_rise (read_lines old_output)\<close> \<open>ids_rise (read_lines new_output)\<close>
  show "let sm = dr_summary (diff_files (\<lambda>_. None) w old_output new_output)
     in (ds_unchanged sm, ds_changed sm, ds_only_old sm, ds_only_new sm) = (0, 1, 1, 1)"
    by (simp add: Let_def output_ids of_kind_def only_entry_parts compare_summary [THEN conjunct2])
qed

definition sample_entries :: "diff_entry list" where
  "sample_entries = map (\<lambda>(i, k). \<lparr>de_id = i, de_kind = k, de_before = None, de_after = None, de_added = [], de_lost = [], de_changed = []\<rparr>)
     [(1, OnlyInOld), (2, Changed), (4, OnlyInNew), (7, Changed)]"

definition sample_write :: entry_writer where
  "sample_write e = ''\"raw_id\":'' @ [''0123456789'' ! de_id e]"

definition sample_read :: entry_reader where
  "sample_read l = find (\<lambda>e. sample_write e @ [LF] = l) sample_entries"

lemma sample_codec: "list_all (entry_codec sample_write sample_read) sample_entries"
  by (simp add: entry_codec_def sample_entries_def sample_read_def sample_write_def raw_id_of_entry_def parse_u64_def digits_val_def
      digit_val_def is_ascii_digit_def LF_char)

lemma page_exact_witness:
  "let (index, content) = emit_entries sample_write sample_entries 0 ([], []) in
     map_prod (map de_id) (\<lambda>x. x) (page sample_read content index (Some 1) 1 (Some ''changed'')) = ([2], Some 2)"
proof -
  obtain index content where e: "emit_entries sample_write sample_entries 0 ([], []) = (index, content)" by fastforce
  have s: "sorted_wrt (<) (map de_id sample_entries)" by (simp add: sample_entries_def)
  have "map de_id (selected (Some 1) (Some ''changed'') sample_entries) = [2, 7]"
    by (simp add: selected_def sample_entries_def before_def other_kind_def diff_kind_name_def)
  then obtain a b where "selected (Some 1) (Some ''changed'') sample_entries = [a, b]" "de_id a = 2" "de_id b = 7" by auto
  then show ?thesis using page_exact [OF sample_codec s e, of 1 "Some 1" "Some ''changed''"] by (simp add: e)
qed

end
