(* ===== verification/Ulpf_Restart.thy ===== *)
theory Ulpf_Restart
  imports Ulpf_Rerun Ulpf_Replay
begin

text \<open>
  What a start after a kill does before any new input, \<open>recover_output\<close> and \<open>drop_stale_pivot\<close> of
  \<open>src/crates/ulpf/src/engine.rs\<close>: the torn last line of the output is cut, the id on the last
  line found, and every later record of the store sent through the pipeline. The output is its bytes, the entity index
  the set of the suffixes of its files; sequence numbers and whether the queue is open are functions of
  the number of batches recovered so far.
\<close>

datatype restart_problem = OtherStore | TornFirst | TornLast nat | IndexDropped | RecoveredIds nat nat

record output_disk =
  od_output :: "bytes option"
  od_index :: "bytes set"

definition drop_stale_pivot :: "output_disk \<Rightarrow> output_disk \<times> restart_problem list" where
  "drop_stale_pivot d =
     (d\<lparr>od_index := od_index d - {[], ''-wal'', ''-shm''}\<rparr>,
      if od_index d \<inter> {[], ''-wal'', ''-shm''} = {} then [] else [IndexDropped])"

text \<open>The last emitted id: none before the first line, or no answer when the file does not tell it.\<close>

datatype last_id = NoLine | LastId nat | NoAnswer

definition tail_window :: nat where "tail_window = 2 ^ 20"

definition read_last :: "bytes \<Rightarrow> bytes \<times> restart_problem list \<times> last_id" where
  "read_last content =
     (if content = [] then (content, [], NoLine)
      else
        let n = min (length content) tail_window; tail = drop (length content - n) content in
        (case memrchr LF tail of
           None \<Rightarrow> if n = length content then ([], [TornFirst], NoLine) else (content, [], NoAnswer)
         | Some nl \<Rightarrow>
             let torn = nl + 1 \<noteq> length tail;
                 start = (case memrchr LF (take nl tail) of Some p \<Rightarrow> p + 1 | None \<Rightarrow> 0)
             in (if torn then take (length content - n + nl + 1) content else content,
                 if torn then [TornLast (length tail - nl - 1)] else [],
                 case raw_id_of (slice start nl tail) of Some i \<Rightarrow> LastId i | None \<Rightarrow> NoAnswer)))"

function recover_batches ::
  "raw_reader \<Rightarrow> (nat \<times> bytes) list \<Rightarrow> nat \<Rightarrow> nat \<Rightarrow> (nat \<Rightarrow> nat) \<Rightarrow> (nat \<Rightarrow> bool) \<Rightarrow> nat \<Rightarrow> nat \<Rightarrow> batch list \<times> rerun_error option"
where
  "recover_batches r names sz upto_id sq alive k i =
     (if upto_id \<le> i then ([], None)
      else
        let n = min (upto_id - i) (max 1 sz) in
        (case stored_batch r ''recovered'' names (sq k) i n of
           Inl e \<Rightarrow> ([], Some e)
         | Inr b \<Rightarrow>
             if alive k then map_prod ((#) b) (\<lambda>e. e) (recover_batches r names sz upto_id sq alive (k + 1) (i + n))
             else ([], Some ProcessingStopped)))"
  by pat_completeness auto
termination
  by (relation "measure (\<lambda>(r, names, sz, upto_id, sq, alive, k, i). upto_id - i)") auto

declare recover_batches.simps [simp del]

text \<open>What the engine brings: the store as it is now, with its names, and the batch size.\<close>

record restart =
  rt_sink :: bool
  rt_prior :: "bytes option"
  rt_store_id :: bytes
  rt_reader :: raw_reader
  rt_names :: "(nat \<times> bytes) list"
  rt_batch :: nat
  rt_seq :: "nat \<Rightarrow> nat"
  rt_alive :: "nat \<Rightarrow> bool"

record recovery =
  rv_disk :: output_disk
  rv_problems :: "restart_problem list"
  rv_batches :: "batch list"
  rv_result :: "rerun_error + nat"

definition recover_from :: "restart \<Rightarrow> nat \<Rightarrow> output_disk \<Rightarrow> restart_problem list \<Rightarrow> recovery" where
  "recover_from t first d ps =
     (let upto_id = rd_count (rt_reader t) in
      if upto_id \<le> first then \<lparr>rv_disk = d, rv_problems = ps, rv_batches = [], rv_result = Inr 0\<rparr>
      else (case recover_batches (rt_reader t) (rt_names t) (rt_batch t) upto_id (rt_seq t) (rt_alive t) 0 first of
              (bts, Some e) \<Rightarrow> \<lparr>rv_disk = d, rv_problems = ps, rv_batches = bts, rv_result = Inl e\<rparr>
            | (bts, None) \<Rightarrow>
                (case drop_stale_pivot d of
                   (d', qs) \<Rightarrow> \<lparr>rv_disk = d', rv_problems = ps @ [RecoveredIds first (upto_id - 1)] @ qs, rv_batches = bts,
                     rv_result = Inr (upto_id - first)\<rparr>)))"

definition recover_output :: "restart \<Rightarrow> output_disk \<Rightarrow> recovery" where
  "recover_output t d =
     (let nothing = \<lparr>rv_disk = d, rv_problems = [], rv_batches = [], rv_result = Inr 0\<rparr> in
      if rt_sink t then nothing
      else (case rt_prior t of
              None \<Rightarrow> nothing
            | Some prior \<Rightarrow>
                if prior = [] then nothing
                else if prior \<noteq> hex (rt_store_id t) then nothing\<lparr>rv_problems := [OtherStore]\<rparr>
                else (case od_output d of
                        None \<Rightarrow> recover_from t 0 d []
                      | Some content \<Rightarrow>
                          (case read_last content of
                             (content', ps, lid) \<Rightarrow>
                               (case (if ps = [] then (d, []) else drop_stale_pivot (d\<lparr>od_output := Some content'\<rparr>)) of
                                  (d', qs) \<Rightarrow>
                                    (case lid of
                                       NoLine \<Rightarrow> recover_from t 0 d' (ps @ qs)
                                     | LastId i \<Rightarrow> recover_from t (i + 1) d' (ps @ qs)
                                     | NoAnswer \<Rightarrow> \<lparr>rv_disk = d', rv_problems = ps @ qs, rv_batches = [], rv_result = Inr 0\<rparr>))))))"

subsection \<open>Where the output ends\<close>

lemma recover_batches_all:
  assumes "reader_repr H r es" "i \<le> length es" "\<And>k. alive k" "\<And>k. sq k = q + k"
  shows "\<exists>bts. recover_batches r names sz (length es) sq alive k i = (bts, None) \<and>
    batches_of ''recovered'' names (q + k) i bts (drop i es)"
  using assms(2)
proof (induction "length es - i" arbitrary: k i rule: less_induct)
  case less
  show ?case
  proof (cases "length es \<le> i")
    case True
    then show ?thesis by (subst recover_batches.simps) simp
  next
    case False
    define n where "n = min (length es - i) (max 1 sz)"
    have n: "0 < n" "i + n \<le> length es" using False by (auto simp: n_def)
    then obtain b where b: "stored_batch r ''recovered'' names (q + k) i n = Inr b"
        "batch_of b ''recovered'' names (q + k) i (take n (drop i es))"
      using stored_batch_repr [OF assms(1)] by blast
    have "length es - (i + n) < length es - i" using n False by simp
    from less.hyps [OF this n(2), of "k + 1"] obtain bts where
      r: "recover_batches r names sz (length es) sq alive (k + 1) (i + n) = (bts, None)"
        "batches_of ''recovered'' names (q + (k + 1)) (i + n) bts (drop (i + n) es)" by blast
    have "batches_of ''recovered'' names (q + k) i (b # bts) (drop i es)"
      using b(2) r(2) n by (simp add: exI [of _ n] add.commute)
    then show ?thesis using b(1) r(1) False assms(3,4) by (subst recover_batches.simps) (simp add: n_def Let_def)
  qed
qed

lemma memrchr_split: "LF \<notin> set c \<Longrightarrow> memrchr LF (a @ LF # c) = Some (length a)"
  by (rule memrchr_last)

lemma joined_last: "ls \<noteq> [] \<Longrightarrow> joined ls = joined (butlast ls) @ last ls @ [LF]"
  by (induction ls rule: rev_induct) (simp_all add: joined_def LF_char)

text \<open>The last line and what is torn after it fit into the window that is read.\<close>

definition in_window :: "bytes list \<Rightarrow> bytes \<Rightarrow> bool" where
  "in_window ls torn \<longleftrightarrow> length torn + (if ls = [] then 0 else length (last ls) + 2) \<le> tail_window"

lemma read_last_cut:
  assumes "list_all (\<lambda>l. LF \<notin> set l) ls" "LF \<notin> set torn" "in_window ls torn"
    and "ls \<noteq> [] \<Longrightarrow> raw_id_of (last ls) = Some i"
  shows "\<exists>ps. read_last (joined ls @ torn) = (joined ls, ps, if ls = [] then NoLine else LastId i) \<and> (ps = [] \<longleftrightarrow> torn = [])"
proof (cases "ls = []")
  case True
  then show ?thesis
  proof (cases "torn = []")
    case False
    have "length torn \<le> tail_window" using assms(3) True by (simp add: in_window_def)
    moreover have "memrchr LF torn = None" using assms(2) by (simp add: memrchr_None)
    ultimately show ?thesis using True False by (simp add: read_last_def joined_def Let_def)
  qed (simp add: read_last_def joined_def)
next
  case False
  define l where "l = last ls"
  define c where "c = joined ls @ torn"
  define n where "n = min (length c) tail_window"
  define pre where "pre = joined (butlast ls)"
  have c: "c = pre @ l @ LF # torn" using joined_last [OF False] by (simp add: c_def l_def pre_def)
  have l: "LF \<notin> set l" using assms(1) False by (simp add: l_def list_all_iff)
  have pre: "pre = [] \<or> (\<exists>p. pre = p @ [LF])"
  proof (cases "butlast ls = []")
    case True
    then show ?thesis by (simp add: pre_def joined_def)
  next
    case False
    from joined_last [OF this] show ?thesis unfolding pre_def by (metis append_assoc)
  qed
  have w: "length l + 2 + length torn \<le> tail_window" using assms(3) False by (simp add: in_window_def l_def)
  obtain x where x: "drop (length c - n) c = x @ l @ LF # torn" "x = [] \<or> (\<exists>p. x = p @ [LF])"
    "length c - n + length x = length pre"
  proof (cases "length c \<le> tail_window")
    case True
    then show ?thesis using pre that [of pre] by (simp add: n_def c)
  next
    case big: False
    then have "pre \<noteq> []" "length c - n \<le> length pre - 1" using w by (auto simp: n_def c)
    then obtain p where p: "pre = p @ [LF]" "length c - n \<le> length p" using pre by auto
    then show ?thesis using that [of "drop (length c - n) p @ [LF]"] by (simp add: c)
  qed
  have m: "memrchr LF (x @ l @ LF # torn) = Some (length (x @ l))" using memrchr_split [OF assms(2), of "x @ l"] by simp
  have s: "(case memrchr LF (x @ l) of Some p \<Rightarrow> p + 1 | None \<Rightarrow> 0) = length x"
    using x(2)
  proof
    assume "x = []"
    then show ?thesis using l by (simp add: memrchr_None [THEN iffD2])
  next
    assume "\<exists>p. x = p @ [LF]"
    then obtain p where "x = p @ [LF]" by blast
    then show ?thesis using memrchr_split [OF l, of p] by simp
  qed
  have t: "take (length c - n + (length x + length l) + 1) c = joined ls"
    using x(3) joined_last [OF False] by (simp add: c l_def pre_def)
  have id: "raw_id_of (slice (length x) (length x + length l) (x @ l @ LF # torn)) = Some i"
    using assms(4) [OF False] by (simp add: slice_def l_def)
  have "c \<noteq> []" by (simp add: c)
  then have "read_last c = (if torn \<noteq> [] then joined ls else c, if torn \<noteq> [] then [TornLast (length torn)] else [], LastId i)"
    unfolding read_last_def n_def [symmetric] Let_def x(1) m using s id t by simp
  then show ?thesis using False by (auto simp: c_def)
qed

lemma recover_from_all:
  assumes "reader_repr H (rt_reader t) es" "first \<le> length es" "\<And>k. rt_alive t k" "\<And>k. rt_seq t k = q + k"
  shows "\<exists>bts ps' d'. recover_from t first d ps =
      \<lparr>rv_disk = d', rv_problems = ps', rv_batches = bts, rv_result = Inr (length es - first)\<rparr> \<and>
    batches_of ''recovered'' (rt_names t) q first bts (drop first es) \<and> od_output d' = od_output d"
proof -
  have n: "rd_count (rt_reader t) = length es" using assms(1) by (simp add: reader_repr_def)
  show ?thesis
  proof (cases "length es \<le> first")
    case True
    then show ?thesis using n assms(2) by (auto simp: recover_from_def)
  next
    case False
    from recover_batches_all [OF assms(1,2), of "rt_alive t" "rt_seq t" q "rt_names t" "rt_batch t" 0] assms(3,4) obtain bts where
      "recover_batches (rt_reader t) (rt_names t) (rt_batch t) (length es) (rt_seq t) (rt_alive t) 0 first = (bts, None)"
      "batches_of ''recovered'' (rt_names t) q first bts (drop first es)" by auto
    then show ?thesis using False n by (auto simp: recover_from_def drop_stale_pivot_def Let_def)
  qed
qed

lemma recover_output_all:
  assumes "reader_repr H (rt_reader t) es" "\<And>k. rt_alive t k" "\<And>k. rt_seq t k = q + k"
    and "\<not> rt_sink t" "rt_prior t = Some (hex (rt_store_id t))" "rt_store_id t \<noteq> []"
    and "od_output d = Some (joined ls @ torn)" "length ls \<le> length es" "list_all (\<lambda>l. LF \<notin> set l) ls" "LF \<notin> set torn"
    and "in_window ls torn" "ls \<noteq> [] \<Longrightarrow> raw_id_of (last ls) = Some (length ls - 1)"
  shows "\<exists>bts ps d'. recover_output t d = \<lparr>rv_disk = d', rv_problems = ps, rv_batches = bts, rv_result = Inr (length es - length ls)\<rparr> \<and>
    od_output d' = Some (joined ls) \<and> batches_of ''recovered'' (rt_names t) q (length ls) bts (drop (length ls) es)"
proof -
  have id: "hex (rt_store_id t) \<noteq> []" using assms(6) by (cases "rt_store_id t") (simp_all add: hex_def)
  from read_last_cut [OF assms(9-12)] obtain ps where
    rl: "read_last (joined ls @ torn) = (joined ls, ps, if ls = [] then NoLine else LastId (length ls - 1))" "ps = [] \<longleftrightarrow> torn = []"
    by blast
  obtain d' qs where d': "(if ps = [] then (d, []) else drop_stale_pivot (d\<lparr>od_output := Some (joined ls)\<rparr>)) = (d', qs)" by fastforce
  have o: "od_output d' = Some (joined ls)" using d' rl(2) assms(7) by (auto simp: drop_stale_pivot_def split: if_splits)
  have "recover_output t d = recover_from t (length ls) d' (ps @ qs)"
    using assms(4,5,7) id rl(1) d' by (auto simp: recover_output_def Let_def)
  with recover_from_all [OF assms(1,8,2,3), of d' "ps @ qs"] o show ?thesis by auto
qed

text \<open>
  C4. After a kill, output and store agree again. Let the output hold one line for each of the first \<open>k\<close>
  records and a torn rest, as a killed engine leaves it: then recovery cuts the rest, and whatever workers
  and reloads do and in whatever order their batches come in, what is written after it makes the output one
  line for every record of the store, in the order of the ids, with no gap and none twice. The new lines carry the
  stored source and receipt time of their records.
\<close>

theorem restart_completes_output:
  assumes "reader_repr H (rt_reader t) es" "\<forall>k. rt_alive t k \<and> rt_seq t k = k"
    and "\<not> rt_sink t" "rt_prior t = Some (hex (rt_store_id t))" "rt_store_id t \<noteq> []"
    and "od_output d = Some (joined ls @ torn)" "LF \<notin> set torn" "in_window ls torn"
    and "lines_for E to_json pls 0 (map ev_bytes (take k es)) ls" "k \<le> length es" "ls \<noteq> [] \<Longrightarrow> raw_id_of (last ls) = Some (k - 1)"
    and "one_line to_json"
  shows "rv_result (recover_output t d) = Inr (length es - k) \<and>
    od_output (rv_disk (recover_output t d)) = Some (joined ls) \<and>
    (\<forall>done arrived sink indexed capacity.
       list_all2 (emits E to_json pls) (rv_batches (recover_output t d)) done \<and> set arrived = set done \<longrightarrow>
       (\<exists>new. ot_file (fold receive arrived (output_start (joined ls) sink indexed capacity)) = joined (ls @ new) \<and>
          lines_for E to_json pls 0 (map ev_bytes es) (ls @ new) \<and>
          event_lines E to_json pls ''recovered'' (rt_names t) k (drop k es) new))"
proof -
  have len: "length ls = k" using assms(9,10) by (simp add: lines_for_def)
  have clean: "list_all (\<lambda>l. LF \<notin> set l) ls" using lines_for_clean [OF assms(9)] by (simp add: LF_char)
  have a: "\<And>k. rt_alive t k" "\<And>k. rt_seq t k = 0 + k" using assms(2) by simp_all
  obtain bts ps d' where r: "recover_output t d = \<lparr>rv_disk = d', rv_problems = ps, rv_batches = bts, rv_result = Inr (length es - k)\<rparr>"
    "od_output d' = Some (joined ls)" "batches_of ''recovered'' (rt_names t) 0 k bts (drop k es)"
    using recover_output_all [OF assms(1) a assms(3-6) _ clean assms(7,8)] assms(10,11) unfolding len by blast
  have "\<exists>new. ot_file (fold receive arrived (output_start (joined ls) sink indexed capacity)) = joined (ls @ new) \<and>
      lines_for E to_json pls 0 (map ev_bytes es) (ls @ new) \<and>
      event_lines E to_json pls ''recovered'' (rt_names t) k (drop k es) new"
    if "list_all2 (emits E to_json pls) bts es'" "set arrived = set es'" for es' arrived sink indexed capacity
  proof -
    let ?ot = "output_start (joined ls) sink indexed capacity"
    have "ot_pending ?ot = []" "ot_next ?ot = 0" "ot_file ?ot = joined ls" by (simp_all add: output_start_def)
    with all_emitted [OF r(3) that(1) assms(12) that(2), of ?ot] obtain new where
      n: "ot_file (fold receive arrived ?ot) = joined ls @ joined new"
        "event_lines E to_json pls ''recovered'' (rt_names t) k (drop k es) new" by auto
    have "lines_for E to_json pls 0 (map ev_bytes (take k es) @ map ev_bytes (drop k es)) (ls @ new)"
      using lines_for_append [OF assms(9)] event_lines_for [OF n(2)] assms(10) by simp
    then have "lines_for E to_json pls 0 (map ev_bytes es) (ls @ new)" by (simp flip: map_append)
    with n show ?thesis by (intro exI [of _ new]) simp
  qed
  with r show ?thesis by auto
qed

text \<open>What batches send, each event with its id.\<close>

definition sent_ids :: "batch list \<Rightarrow> (nat \<times> bytes) list" where
  "sent_ids bts = concat (map (\<lambda>b. List.enumerate (bt_first b) (batch_events b)) bts)"

lemma sent_ids_match: "batches_match q n bts xs \<Longrightarrow> sent_ids bts = List.enumerate n xs \<and> map bt_seq bts = [q..<q + length bts]"
proof (induction bts arbitrary: xs rule: rev_induct)
  case (snoc b bts)
  have tk: "map (\<lambda>i. n + length (concat (map batch_events (take i (bts @ [b]))))) [0..<length bts] =
      map (\<lambda>i. n + length (concat (map batch_events (take i bts)))) [0..<length bts]" by simp
  from snoc.prems have m: "batches_match q n bts (concat (map batch_events bts))" "bt_first b = n + length (concat (map batch_events bts))"
      "xs = concat (map batch_events bts) @ batch_events b"
    using tk by (auto simp: batches_match_def)
  from snoc.IH [OF m(1)] m(2,3) snoc.prems show ?case by (simp add: sent_ids_def batches_match_def enumerate_append_eq)
qed (simp add: batches_match_def sent_ids_def)

lemma sent_ids_of:
  "batches_of name names q first bts xs \<Longrightarrow>
    sent_ids bts = List.enumerate first (map ev_bytes xs) \<and> map bt_seq bts = [q..<q + length bts]"
proof (induction bts arbitrary: q first xs)
  case (Cons b bts)
  then obtain n where n: "n \<le> length xs" "batch_of b name names q first (take n xs)"
    "batches_of name names (q + 1) (first + n) bts (drop n xs)" by auto
  have "List.enumerate first (map ev_bytes (take n xs @ drop n xs)) =
      List.enumerate first (map ev_bytes (take n xs)) @ List.enumerate (first + n) (map ev_bytes (drop n xs))"
    using n(1) by (simp only: map_append enumerate_append_eq) (simp add: min_absorb2)
  then show ?case using Cons.IH [OF n(3)] n(2) by (simp add: sent_ids_def batch_of_def upt_conv_Cons del: upt_Suc)
qed (simp add: sent_ids_def)

text \<open>
  C30. Recovery repeats what was stored before it ran. Let another producer (a listener is started first) have
  stored the events \<open>evs\<close> behind \<open>es\<close> and sent them in the batches \<open>sent\<close> before recovery looks at the store. Then the
  recovered batches, which have the later sequence numbers, send every record the output has no line for under its id,
  and the events \<open>evs\<close> are among them: each of them is sent a second time, with the same id and the same bytes.
\<close>

theorem recovery_repeats_early_events:
  assumes "reader_repr H (rt_reader t) (es @ evs)" "batches_match q (length es) sent (map ev_bytes evs)"
    and "\<forall>k. rt_alive t k \<and> rt_seq t k = q + length sent + k"
    and "\<not> rt_sink t" "rt_prior t = Some (hex (rt_store_id t))" "rt_store_id t \<noteq> []"
    and "od_output d = Some (joined ls @ torn)" "LF \<notin> set torn" "in_window ls torn"
    and "length ls \<le> length es" "list_all (\<lambda>l. LF \<notin> set l) ls" "ls \<noteq> [] \<Longrightarrow> raw_id_of (last ls) = Some (length ls - 1)"
  shows "let again = rv_batches (recover_output t d) in
    sent_ids sent = List.enumerate (length es) (map ev_bytes evs) \<and>
    sent_ids again = List.enumerate (length ls) (map ev_bytes (drop (length ls) es)) @ sent_ids sent \<and>
    map bt_seq (sent @ again) = [q..<q + length (sent @ again)]"
proof -
  let ?q = "q + length sent"
  have a: "\<And>k. rt_alive t k" "\<And>k. rt_seq t k = ?q + k" using assms(3) by simp_all
  have le: "length ls \<le> length (es @ evs)" using assms(10) by simp
  obtain bts ps d' n where r: "recover_output t d = \<lparr>rv_disk = d', rv_problems = ps, rv_batches = bts, rv_result = Inr n\<rparr>"
    "batches_of ''recovered'' (rt_names t) ?q (length ls) bts (drop (length ls) (es @ evs))"
    using recover_output_all [OF assms(1) a assms(4-7) le assms(11,8,9,12)] by blast
  have "List.enumerate (length ls) (map ev_bytes (drop (length ls) (es @ evs))) =
      List.enumerate (length ls) (map ev_bytes (drop (length ls) es)) @ List.enumerate (length es) (map ev_bytes evs)"
    using assms(10) by (simp add: enumerate_append_eq)
  moreover have "[q..<?q] @ [?q..<?q + length bts] = [q..<q + length (sent @ bts)]"
    by (metis add.assoc le_add1 length_append upt_add_eq_append)
  ultimately show ?thesis using sent_ids_of [OF r(2)] sent_ids_match [OF assms(2)] r(1) by (simp add: Let_def)
qed

subsection \<open>A killed engine with two records\<close>

definition sample_restart :: "nat \<Rightarrow> restart" where
  "sample_restart q = \<lparr>rt_sink = False, rt_prior = Some (hex sample_id), rt_store_id = sample_id,
     rt_reader = sample_reader two_events, rt_names = [(1, ''fw.log'')], rt_batch = 1, rt_seq = (\<lambda>k. q + k), rt_alive = (\<lambda>_. True)\<rparr>"

definition killed_output :: "bytes \<Rightarrow> output_disk" where
  "killed_output torn = \<lparr>od_output = Some (joined [id_line ''0''] @ torn), od_index = {}\<rparr>"

lemma sample_restart_ok:
  "reader_repr tail_hash (rt_reader (sample_restart q)) two_events" "\<not> rt_sink (sample_restart q)"
  "rt_prior (sample_restart q) = Some (hex (rt_store_id (sample_restart q)))" "rt_store_id (sample_restart q) \<noteq> []"
  "\<forall>k. rt_alive (sample_restart q) k \<and> rt_seq (sample_restart q) k = q + k"
  using two_events_reader by (simp_all add: sample_restart_def) (simp add: sample_id_def)

lemma killed_output_ok:
  "od_output (killed_output torn) = Some (joined [id_line ''0''] @ torn)" "raw_id_of (id_line ''0'') = Some 0"
  "LF \<notin> set (id_line ''0'')" "in_window [id_line ''0''] ''torn''" "in_window [id_line ''0''] []"
  by (simp_all add: killed_output_def raw_id_of_def id_line_def parse_u64_def digits_val_def digit_val_def is_ascii_digit_def LF_char
      in_window_def tail_window_def)

theorem restart_completes_output_witness:
  "\<forall>E pl. rv_result (recover_output (sample_restart 0) (killed_output ''torn'')) = Inr 1 \<and>
     od_output (rv_disk (recover_output (sample_restart 0) (killed_output ''torn''))) = Some (joined [id_line ''0'']) \<and>
     (\<forall>done arrived. list_all2 (emits E (\<lambda>_. id_line ''0'') {pl}) (rv_batches (recover_output (sample_restart 0) (killed_output ''torn''))) done \<and>
        set arrived = set done \<longrightarrow>
        (\<exists>new. ot_file (fold receive arrived (output_start (joined [id_line ''0'']) False False 8)) = joined [id_line ''0'', new]))"
proof (intro allI)
  fix E pl
  let ?j = "\<lambda>_ :: jvalue. id_line ''0''"
  have j: "one_line ?j" using killed_output_ok(3) by (simp add: one_line_def LF_char)
  obtain v where v: "snd (snd (snd (process E ?j pl ''a'' 0 [] 0 None parsed_default []))) = [] @ ?j v @ [CHR 0x0A]"
    using process_appends by blast
  then have "line_for E ?j {pl} 0 ''a'' (id_line ''0'')" using killed_output_ok(3) unfolding line_for_def LF_char by fastforce
  then have l: "lines_for E ?j {pl} 0 (map ev_bytes (take 1 two_events)) [id_line ''0'']" by (simp add: lines_for_def two_events_def)
  have t: "LF \<notin> set ''torn''" by (simp add: LF_char)
  have one: "1 \<le> length two_events" and len: "length two_events - 1 = 1" by (simp_all add: two_events_def)
  have id: "raw_id_of (last [id_line ''0'']) = Some (1 - 1)" by (simp add: killed_output_ok(2))
  note s = sample_restart_ok [of 0]
  have s5: "\<forall>k. rt_alive (sample_restart 0) k \<and> rt_seq (sample_restart 0) k = k" using s(5) by simp
  note r = restart_completes_output [OF s(1) s5 s(2-4) killed_output_ok(1) t killed_output_ok(4) l one id j, unfolded len]
  have "\<exists>new. ot_file (fold receive arrived (output_start (joined [id_line ''0'']) False False 8)) = joined [id_line ''0'', new]"
    if "list_all2 (emits E ?j {pl}) (rv_batches (recover_output (sample_restart 0) (killed_output ''torn''))) es'"
      "set arrived = set es'" for es' arrived
  proof -
    from r [THEN conjunct2, THEN conjunct2, rule_format, OF conjI, OF that, of False False 8] obtain new where
      n: "ot_file (fold receive arrived (output_start (joined [id_line ''0'']) False False 8)) = joined ([id_line ''0''] @ new)"
        "lines_for E ?j {pl} 0 (map ev_bytes two_events) ([id_line ''0''] @ new)" by blast
    from n(2) have "length new = 1" by (simp add: lines_for_def two_events_def)
    then obtain l where "new = [l]" by (auto simp: length_Suc_conv)
    with n(1) show ?thesis by auto
  qed
  with r [THEN conjunct1] r [THEN conjunct2, THEN conjunct1]
  show "rv_result (recover_output (sample_restart 0) (killed_output ''torn'')) = Inr 1 \<and>
     od_output (rv_disk (recover_output (sample_restart 0) (killed_output ''torn''))) = Some (joined [id_line ''0'']) \<and>
     (\<forall>done arrived. list_all2 (emits E ?j {pl}) (rv_batches (recover_output (sample_restart 0) (killed_output ''torn''))) done \<and>
        set arrived = set done \<longrightarrow>
        (\<exists>new. ot_file (fold receive arrived (output_start (joined [id_line ''0'']) False False 8)) = joined [id_line ''0'', new]))"
    by blast
qed

text \<open>The second record was sent by a listener before recovery; it is sent again.\<close>

definition early_batch :: batch where
  "early_batch = \<lparr>bt_seq = 0, bt_name = ''udp/10.0.0.9'', bt_names = [], bt_bytes = ''b'', bt_receipt = 6, bt_first = 1,
     bt_ranges = [(0, 1)], bt_receipts = [], bt_sources = []\<rparr>"

theorem recovery_repeats_early_events_witness:
  "let again = rv_batches (recover_output (sample_restart 1) (killed_output []))
   in sent_ids [early_batch] = [(1, ''b'')] \<and> sent_ids again = [(1, ''b'')] \<and> map bt_seq (early_batch # again) = [0..<1 + length again]"
proof -
  let ?es = "[\<lparr>ev_source = 1, ev_receipt = 5, ev_bytes = ''a''\<rparr>]" and ?evs = "[\<lparr>ev_source = 1, ev_receipt = 6, ev_bytes = ''b''\<rparr>]"
  note s = sample_restart_ok [of 1]
  have e: "two_events = ?es @ ?evs" by (simp add: two_events_def)
  have h: "LF \<notin> set []" "length [id_line ''0''] \<le> length ?es" "list_all (\<lambda>l. LF \<notin> set l) [id_line ''0'']"
    "raw_id_of (last [id_line ''0'']) = Some (length [id_line ''0''] - 1)"
    using killed_output_ok(2,3) by simp_all
  have b: "batches_match 0 (length ?es) [early_batch] (map ev_bytes ?evs)"
    by (simp add: batches_match_def early_batch_def batch_events_def slice_def)
  have q: "\<forall>k. rt_alive (sample_restart 1) k \<and> rt_seq (sample_restart 1) k = 0 + length [early_batch] + k" using s(5) by simp
  from recovery_repeats_early_events [OF s(1) [unfolded e] b q s(2-4) killed_output_ok(1) h(1) killed_output_ok(5) h(2-4)]
  show ?thesis by (simp add: Let_def)
qed

subsection \<open>What recovery does not repair\<close>

text \<open>A torn line that fills the window stays, and nothing is recovered: the next line is written behind it.\<close>

lemma long_torn_line_stays:
  assumes "ls \<noteq> []" "LF \<notin> set torn" "tail_window \<le> length torn"
  shows "read_last (joined ls @ torn) = (joined ls @ torn, [], NoAnswer)"
proof -
  have pos: "0 < length (joined ls)" using joined_last [OF assms(1)] by simp
  have "LF \<notin> set (drop (length torn - tail_window) torn)" using assms(2) by (meson in_set_dropD)
  then have m: "memrchr LF (drop (length torn - tail_window) torn) = None" by (simp add: memrchr_None)
  define c where "c = joined ls @ torn"
  have len: "length c = length (joined ls) + length torn" by (simp add: c_def)
  with assms(3) pos have "tail_window < length c" by linarith
  then have c: "c \<noteq> []" "min (length c) tail_window = tail_window" "tail_window \<noteq> length c" by auto
  have "drop (length c - tail_window) c = drop (length torn - tail_window) torn" using assms(3) by (simp add: c_def)
  with c m show ?thesis unfolding c_def [symmetric] read_last_def Let_def by simp
qed

text \<open>
  An output that was begun beside a store with records and is still empty gets all of them at the next
  start, though it began at the next id of the store.
\<close>

lemma empty_output_refilled:
  assumes "reader_repr H (rt_reader t) es" "\<forall>k. rt_alive t k \<and> rt_seq t k = k"
    and "\<not> rt_sink t" "rt_prior t = Some (hex (rt_store_id t))" "rt_store_id t \<noteq> []" "od_output d = Some []"
  shows "rv_result (recover_output t d) = Inr (length es)"
proof -
  have a: "\<And>k. rt_alive t k" "\<And>k. rt_seq t k = 0 + k" using assms(2) by simp_all
  have "od_output d = Some (joined [] @ [])" "in_window [] []" using assms(6) by (simp_all add: in_window_def)
  from recover_output_all [OF assms(1) a assms(3-5) this(1) _ _ _ this(2)] show ?thesis by auto
qed

end
