(* ===== verification/Ulpf_Versions.thy ===== *)
theory Ulpf_Versions
  imports Ulpf_Rerun Ulpf_Replay
begin

text \<open>
  The versions of an output and a whole replay, \<open>Versions\<close>, \<open>explain\<close> and \<open>run\<close> of
  \<open>src/crates/ulpf/src/replay.rs\<close>. A path is its directory and its file name, the disk a map from paths to
  bytes; a write that fails is outside the model. Reading and writing a meta file (\<open>serde_json\<close>) are parameters,
  as is the clock; the elapsed time of a report is left out.
\<close>

type_synonym vpath = "bytes \<times> bytes"
type_synonym disk = "vpath \<Rightarrow> bytes option"

subsection \<open>Names\<close>

record versions =
  vs_dir :: bytes
  vs_stem :: bytes
  vs_ext :: bytes

definition versions_new :: "bytes \<Rightarrow> bytes option \<Rightarrow> versions" where
  "versions_new dir fname =
     (let name = (case fname of Some n \<Rightarrow> n | None \<Rightarrow> ''out.jsonl'') in
      case memrchr (CHR ''.'') name of
        Some i \<Rightarrow>
          if i \<noteq> 0 then \<lparr>vs_dir = dir, vs_stem = take i name, vs_ext = drop (i + 1) name\<rparr>
          else \<lparr>vs_dir = dir, vs_stem = name, vs_ext = []\<rparr>
      | None \<Rightarrow> \<lparr>vs_dir = dir, vs_stem = name, vs_ext = []\<rparr>)"

definition with_ext :: "versions \<Rightarrow> bytes \<Rightarrow> bytes \<Rightarrow> vpath" where
  "with_ext vs middle ext = (vs_dir vs, vs_stem vs @ middle @ (if ext = [] then [] else CHR ''.'' # ext))"

definition version_path :: "versions \<Rightarrow> nat \<Rightarrow> vpath" where
  "version_path vs n = (if n \<le> 1 then with_ext vs [] (vs_ext vs) else with_ext vs (''.v'' @ dec n) (vs_ext vs))"

definition meta_path :: "versions \<Rightarrow> nat \<Rightarrow> vpath" where
  "meta_path vs n = with_ext vs (''.v'' @ dec n @ ''.meta'') ''json''"

definition diff_path :: "versions \<Rightarrow> nat \<Rightarrow> vpath" where
  "diff_path vs n = with_ext vs (''.v'' @ dec n @ ''.diff'') (vs_ext vs)"

definition tmp_path :: "vpath \<Rightarrow> vpath" where
  "tmp_path p = (fst p, snd p @ ''.tmp'')"

subsection \<open>Metas\<close>

record replay_counts =
  rc_detected :: nat
  rc_no_parser :: nat
  rc_parsed :: nat
  rc_parse_failed :: nat
  rc_class_unknown :: nat

record replay_report =
  rr_version :: nat
  rr_previous :: "nat option"
  rr_output :: vpath
  rr_diff :: "vpath option"
  rr_events :: nat
  rr_generation :: nat
  rr_schema :: bytes
  rr_summary :: diff_summary
  rr_parsers :: "((bytes option \<times> bytes option) \<times> nat) list"
  rr_fields :: "(bytes \<times> nat \<times> nat \<times> nat) list"
  rr_why :: "bytes list"
  rr_counts :: replay_counts

type_synonym digests = "(bytes \<times> bytes) list"

record meta =
  mt_version :: nat
  mt_created :: bytes
  mt_store_id :: bytes
  mt_schema :: bytes
  mt_generation :: nat
  mt_files :: digests
  mt_history :: "digests list"
  mt_complete :: bool
  mt_events :: nat
  mt_report :: "replay_report option"

definition meta_default :: meta where
  "meta_default = \<lparr>mt_version = 0, mt_created = [], mt_store_id = [], mt_schema = [], mt_generation = 0, mt_files = [],
     mt_history = [], mt_complete = False, mt_events = 0, mt_report = None\<rparr>"

record meta_codec =
  mc_read :: "bytes \<Rightarrow> meta option"
  mc_write :: "meta \<Rightarrow> bytes"

definition read_meta :: "meta_codec \<Rightarrow> versions \<Rightarrow> disk \<Rightarrow> nat \<Rightarrow> meta option" where
  "read_meta C vs d n = (case d (meta_path vs n) of Some s \<Rightarrow> mc_read C s | None \<Rightarrow> None)"

text \<open>A write beside the file and a rename.\<close>

definition write_meta :: "meta_codec \<Rightarrow> versions \<Rightarrow> meta \<Rightarrow> disk \<Rightarrow> disk" where
  "write_meta C vs m d =
     (let p = meta_path vs (mt_version m); d1 = d(tmp_path p \<mapsto> mc_write C m)
      in d1(p := d1 (tmp_path p), tmp_path p := None))"

definition write_live_meta :: "meta_codec \<Rightarrow> versions \<Rightarrow> int \<Rightarrow> bytes \<Rightarrow> bytes \<Rightarrow> nat \<Rightarrow> digests \<Rightarrow> disk \<Rightarrow> disk" where
  "write_live_meta C vs now store_id schema generation files d =
     (let m = (case read_meta C vs d 1 of Some m \<Rightarrow> m | None \<Rightarrow> meta_default);
          m = m\<lparr>mt_store_id := store_id\<rparr>;
          m = (if mt_version m = 0 then m\<lparr>mt_version := 1, mt_created := format_rfc3339 now\<rparr> else m);
          m = (if mt_files m \<noteq> [] \<and> mt_files m \<noteq> files then m\<lparr>mt_files := [], mt_history := mt_history m @ [mt_files m]\<rparr> else m)
      in write_meta C vs (m\<lparr>mt_schema := schema, mt_generation := generation, mt_files := files, mt_complete := True\<rparr>) d)"

subsection \<open>Which versions there are\<close>

definition on_disk :: "disk \<Rightarrow> vpath \<Rightarrow> bool" where
  "on_disk d p \<longleftrightarrow> d p \<noteq> None"

record version_info =
  vi_version :: nat
  vi_path :: vpath
  vi_created :: bytes
  vi_events :: nat
  vi_schema :: bytes
  vi_generation :: nat

definition count_lines :: "disk \<Rightarrow> vpath \<Rightarrow> nat" where
  "count_lines d p = (case d p of Some s \<Rightarrow> length (filter (\<lambda>b. b = LF) s) | None \<Rightarrow> 0)"

definition info_of :: "meta_codec \<Rightarrow> versions \<Rightarrow> disk \<Rightarrow> nat \<Rightarrow> version_info" where
  "info_of C vs d n =
     (let p = version_path vs n; m = read_meta C vs d n in
      \<lparr>vi_version = n, vi_path = p, vi_created = (case m of Some m \<Rightarrow> mt_created m | None \<Rightarrow> []),
       vi_events = (case m of Some m \<Rightarrow> if 1 < n \<and> 0 < mt_events m then mt_events m else count_lines d p | None \<Rightarrow> count_lines d p),
       vi_schema = (case m of Some m \<Rightarrow> mt_schema m | None \<Rightarrow> []),
       vi_generation = (case m of Some m \<Rightarrow> mt_generation m | None \<Rightarrow> 0)\<rparr>)"

partial_function (option) versions_from :: "meta_codec \<Rightarrow> versions \<Rightarrow> disk \<Rightarrow> nat \<Rightarrow> version_info list \<Rightarrow> version_info list option" where
  "versions_from C vs d n out =
     (if \<not> on_disk d (version_path vs n) \<and> read_meta C vs d n = None then Some out
      else versions_from C vs d (n + 1) (out @ [info_of C vs d n]))"

definition list_versions :: "meta_codec \<Rightarrow> versions \<Rightarrow> disk \<Rightarrow> version_info list option" where
  "list_versions C vs d = versions_from C vs d 1 []"

partial_function (option) next_from :: "versions \<Rightarrow> disk \<Rightarrow> nat \<Rightarrow> nat option" where
  "next_from vs d n = (if on_disk d (version_path vs n) \<or> on_disk d (meta_path vs n) then next_from vs d (n + 1) else Some n)"

definition next_version :: "versions \<Rightarrow> disk \<Rightarrow> nat option" where
  "next_version vs d = next_from vs d 2"

definition previous_of :: "meta_codec \<Rightarrow> versions \<Rightarrow> disk \<Rightarrow> nat \<Rightarrow> nat option" where
  "previous_of C vs d n =
     find (\<lambda>v. on_disk d (version_path vs v) \<and> (v = 1 \<or> (case read_meta C vs d v of Some m \<Rightarrow> mt_complete m | None \<Rightarrow> False)))
       (rev [1..<n])"

subsection \<open>What changed, in words\<close>

definition bt_of :: "digests \<Rightarrow> digests" where
  "bt_of xs = fold (\<lambda>(k, v). bt_entry k (\<lambda>_. v)) xs []"

definition new_file_notes :: "nat \<Rightarrow> digests \<Rightarrow> digests \<Rightarrow> bytes list" where
  "new_file_notes prev old new = List.map_filter (\<lambda>(p, sha). case map_of old p of
       Some o' \<Rightarrow>
         if o' = sha then None
         else Some (p @ '' changed since v'' @ dec prev @ '' (sha256 '' @ take 8 o' @ ''.. -> '' @ take 8 sha @ ''..)'')
     | None \<Rightarrow> Some (p @ '' is new since v'' @ dec prev)) new"

definition gone_file_notes :: "nat \<Rightarrow> digests \<Rightarrow> digests \<Rightarrow> bytes list" where
  "gone_file_notes prev old new =
     map (\<lambda>(p, _). p @ '' was removed since v'' @ dec prev) (filter (\<lambda>(p, _). map_of new p = None) old)"

definition explain :: "nat \<Rightarrow> meta option \<Rightarrow> digests \<Rightarrow> diff_summary \<Rightarrow> bytes list" where
  "explain prev m files sm =
     (case m of
        Some m \<Rightarrow>
          let old = bt_of (case mt_history m of h # _ \<Rightarrow> h | [] \<Rightarrow> mt_files m); new = bt_of files;
              notes = new_file_notes prev old new @ gone_file_notes prev old new
          in notes @
            (if mt_history m = [] then []
             else [''v'' @ dec prev @ '' changed its parser files '' @ dec (length (mt_history m)) @
               '' time(s) while it was written (reloads or reopens); the comparison is against the set its first events were written with'']) @
            (if notes \<noteq> [] then []
             else if 0 < ds_changed sm then
               [''no parser or mapping file changed; the difference comes from receipt time, engine version or a reload during the previous run'']
             else if list_ex (\<lambda>(p, _). memmem ''mappings'' p \<noteq> None) new then [''parsers and mappings unchanged'']
             else [''parsers unchanged''])
      | None \<Rightarrow> [''v'' @ dec prev @ '' has no meta file, so the parser files it used are unknown; only the event diff is available'']) @
     (if 0 < ds_only_new sm then
        [dec (ds_only_new sm) @ '' events only in the new version: stored after v'' @ dec prev @ '' was written'']
      else []) @
     (if 0 < ds_only_old sm then
        [dec (ds_only_old sm) @ '' events only in v'' @ dec prev @ '': the store snapshot ended before them, or v'' @ dec prev @
          '' was written from a different store'']
      else [])"

subsection \<open>A replay\<close>

record replay_job =
  rj_versions :: versions
  rj_version :: nat
  rj_pipeline :: pipeline
  rj_batch :: nat
  rj_generation :: nat
  rj_names :: "(nat \<times> bytes) list"
  rj_reader :: raw_reader
  rj_upto :: nat

text \<open>What decides the interleaving: cancellation, which worker takes which batch, the order in which they arrive; and the clock.\<close>

record replay_run =
  ru_cancelled :: "nat \<Rightarrow> bool"
  ru_sched :: "nat \<Rightarrow> nat"
  ru_arrivals :: "emitted list \<Rightarrow> emitted list"
  ru_now :: int

datatype replay_error = NotOverLive | ReplayFailed rerun_error

definition counts_of :: "counts \<Rightarrow> replay_counts" where
  "counts_of c = \<lparr>rc_detected = lc_detected c, rc_no_parser = lc_no_parser c, rc_parsed = lc_parsed c,
     rc_parse_failed = sum_list (lc_parse_failed c), rc_class_unknown = lc_class_unknown c\<rparr>"

definition content_of :: "disk \<Rightarrow> vpath \<Rightarrow> bytes" where
  "content_of d p = (case d p of Some s \<Rightarrow> s | None \<Rightarrow> [])"

definition replay ::
  "engines \<Rightarrow> (jvalue \<Rightarrow> bytes) \<Rightarrow> json_reader \<Rightarrow> entry_writer \<Rightarrow> meta_codec \<Rightarrow> replay_run \<Rightarrow> replay_job \<Rightarrow> disk \<Rightarrow>
    (replay_error + replay_report) \<times> disk"
where
  "replay E to_json J w C ru job d =
     (let vs = rj_versions job; n = rj_version job; p = version_path vs n; pl = rj_pipeline job in
      if n \<le> 1 then (Inl NotOverLive, d)
      else
        (case replay_batches (rj_reader job) (rj_names job) (rj_batch job) (rj_upto job) (ru_cancelled ru) (\<lambda>_. True) 0 0 of
           (bts, err) \<Rightarrow>
         case replay_work E to_json pl (ru_sched ru) (\<lambda>_. None) counts_zero bts of
           (es, c) \<Rightarrow>
         let out = replay_written (ru_arrivals ru) es; d2 = d(p \<mapsto> ro_file out) in
         (case err of
            Some e \<Rightarrow> (Inl (ReplayFailed e), d2)
          | None \<Rightarrow>
              let prev = previous_of C vs d2 n;
                  dr = (case prev of
                          Some v \<Rightarrow> Some (diff_files J w (content_of d2 (version_path vs v)) (content_of d2 p))
                        | None \<Rightarrow> None);
                  d3 = (case dr of Some r \<Rightarrow> d2(diff_path vs n \<mapsto> dr_file r) | None \<Rightarrow> d2);
                  sm = (case dr of Some r \<Rightarrow> dr_summary r | None \<Rightarrow> da_summary acc_empty);
                  schema = mf_name (mp_file (pl_mapping pl));
                  report = \<lparr>rr_version = n, rr_previous = prev, rr_output = p, rr_diff = (if dr = None then None else Some (diff_path vs n)),
                    rr_events = ro_emitted out, rr_generation = rj_generation job, rr_schema = schema, rr_summary = sm,
                    rr_parsers = (case dr of Some r \<Rightarrow> dr_parsers r | None \<Rightarrow> []), rr_fields = (case dr of Some r \<Rightarrow> dr_fields r | None \<Rightarrow> []),
                    rr_why = (case prev of
                        Some v \<Rightarrow> explain v (read_meta C vs d3 v) (pl_files pl) sm
                      | None \<Rightarrow> [''no previous version to compare against'']),
                    rr_counts = counts_of c\<rparr>
              in (Inr report,
                  write_meta C vs \<lparr>mt_version = n, mt_created = format_rfc3339 (ru_now ru), mt_store_id = [], mt_schema = schema,
                    mt_generation = rj_generation job, mt_files = pl_files pl, mt_history = [], mt_complete = True,
                    mt_events = ro_emitted out, mt_report = Some report\<rparr> d3))))"

subsection \<open>Names do not meet\<close>

definition no_dot :: "versions \<Rightarrow> bool" where
  "no_dot vs \<longleftrightarrow> CHR ''.'' \<notin> set (vs_ext vs)"

lemma versions_new_no_dot: "no_dot (versions_new dir fname)"
proof -
  have "CHR ''.'' \<notin> set (drop (i + 1) name)" if h: "memrchr (CHR ''.'') name = Some i" for name i
  proof -
    from h have "CHR ''.'' \<in> set name" by (metis memrchr_None option.distinct(1))
    then obtain a c where n: "name = a @ CHR ''.'' # c" "CHR ''.'' \<notin> set c" by (metis split_list_last)
    then show ?thesis using h memrchr_last [OF n(2), of a] by simp
  qed
  then show ?thesis by (auto simp: no_dot_def versions_new_def Let_def split: option.split)
qed

text \<open>How many dots a name has after the stem tells outputs, metas and the files beside them apart.\<close>

definition dots :: "bytes \<Rightarrow> nat" where
  "dots s = length (filter (\<lambda>b. b = CHR ''.'') s)"

lemma dots_simps [simp]:
  "dots (a @ b) = dots a + dots b" "dots (x # s) = (if x = CHR ''.'' then 1 else 0) + dots s" "dots [] = 0"
  by (simp_all add: dots_def)

lemma dots_dec [simp]: "dots (dec n) = 0"
  using dec_digits [of "CHR ''.''" n] by (auto simp: dots_def filter_empty_conv is_ascii_digit_def)

lemma dots_ext: "no_dot vs \<Longrightarrow> dots (vs_ext vs) = 0"
  by (auto simp: no_dot_def dots_def filter_empty_conv)

lemma dec_eq_iff [simp]: "dec m = dec n \<longleftrightarrow> m = n"
  using dec_val by metis

lemma dec_nonempty [simp]: "dec n \<noteq> []"
  by (subst dec.simps) simp

lemmas name_defs = version_path_def meta_path_def diff_path_def tmp_path_def with_ext_def

lemma version_path_inj:
  assumes "0 < m" "0 < n" shows "version_path vs m = version_path vs n \<longleftrightarrow> m = n"
  using assms by (auto simp: name_defs)

lemma meta_path_inj [simp]: "meta_path vs m = meta_path vs n \<longleftrightarrow> m = n"
  by (auto simp: name_defs)

lemma other_names:
  assumes "no_dot vs"
  shows "version_path vs m \<noteq> meta_path vs n" "version_path vs m \<noteq> tmp_path (meta_path vs n)" "meta_path vs m \<noteq> tmp_path (meta_path vs n)"
  using dots_ext [OF assms] by (auto simp: name_defs dest!: arg_cong [of _ _ dots])

lemma dec_split: "dec m @ CHR ''.'' # x = dec n @ CHR ''.'' # y \<longleftrightarrow> m = n \<and> x = y"
proof -
  have t: "takeWhile is_ascii_digit (dec k @ CHR ''.'' # z) = dec k" for k z
    using dec_digits by (subst takeWhile_append2) (auto simp: is_ascii_digit_def)
  show ?thesis using t by (metis append_same_eq dec_eq_iff same_append_eq list.inject)
qed

lemma diff_names:
  "version_path vs m \<noteq> diff_path vs n" "meta_path vs m \<noteq> diff_path vs n" "tmp_path (meta_path vs m) \<noteq> diff_path vs n"
proof -
  show "version_path vs m \<noteq> diff_path vs n"
    by (cases "vs_ext vs = []") (auto simp: name_defs dec_split dest: arg_cong [of _ _ length] arg_cong [of _ _ dots])
  show "meta_path vs m \<noteq> diff_path vs n" "tmp_path (meta_path vs m) \<noteq> diff_path vs n"
    by (auto simp: name_defs dec_split)
qed

subsection \<open>The next version is free\<close>

definition taken_at :: "versions \<Rightarrow> disk \<Rightarrow> nat \<Rightarrow> bool" where
  "taken_at vs d n \<longleftrightarrow> on_disk d (version_path vs n) \<or> on_disk d (meta_path vs n)"

lemma finite_taken:
  assumes "finite (dom d)" shows "finite {n. 0 < n \<and> taken_at vs d n}"
proof -
  have "finite {n. 0 < n \<and> version_path vs n \<in> dom d}"
    by (rule finite_imageD [of "version_path vs"], rule finite_subset [OF _ assms]) (auto simp: inj_on_def version_path_inj)
  moreover have "finite {n. meta_path vs n \<in> dom d}"
    by (rule finite_imageD [of "meta_path vs"], rule finite_subset [OF _ assms]) (auto simp: inj_on_def)
  moreover have "{n. 0 < n \<and> taken_at vs d n} \<subseteq> {n. 0 < n \<and> version_path vs n \<in> dom d} \<union> {n. meta_path vs n \<in> dom d}"
    by (auto simp: taken_at_def on_disk_def)
  ultimately show ?thesis by (meson finite_Un finite_subset)
qed

lemma first_free:
  assumes "finite {n. 0 < n \<and> P n}" "0 < (k :: nat)"
  obtains n where "k \<le> n" "\<not> P n" "\<forall>m \<in> {k..<n}. P m"
proof -
  obtain b where b: "\<forall>n \<in> {n. 0 < n \<and> P n}. n \<le> b" using assms(1) finite_nat_set_iff_bounded_le by blast
  then have "\<not> P (k + b + 1)" by fastforce
  then have "\<exists>n. k \<le> n \<and> \<not> P n" by (intro exI [of _ "k + b + 1"]) simp
  then show ?thesis using that [of "LEAST n. k \<le> n \<and> \<not> P n"] LeastI_ex [of "\<lambda>n. k \<le> n \<and> \<not> P n"] not_less_Least
    by (smt (verit) atLeastLessThan_iff)
qed

lemma next_from_least: "k \<le> n \<Longrightarrow> \<not> taken_at vs d n \<Longrightarrow> \<forall>m \<in> {k..<n}. taken_at vs d m \<Longrightarrow> next_from vs d k = Some n"
proof (induction "n - k" arbitrary: k)
  case 0
  then show ?case by (subst next_from.simps) (simp add: taken_at_def)
next
  case (Suc x)
  then have "k < n" "taken_at vs d k" by simp_all
  moreover have "next_from vs d (k + 1) = Some n" using Suc by simp
  ultimately show ?case by (subst next_from.simps) (simp add: taken_at_def)
qed

lemma list_from_least:
  assumes "k \<le> n" "\<not> on_disk d (version_path vs n) \<and> read_meta C vs d n = None"
    "\<forall>m \<in> {k..<n}. on_disk d (version_path vs m) \<or> read_meta C vs d m \<noteq> None"
  shows "versions_from C vs d k out = Some (out @ map (info_of C vs d) [k..<n])"
  using assms
proof (induction "n - k" arbitrary: k out)
  case 0
  then show ?case by (subst versions_from.simps) simp
next
  case (Suc x)
  then have "k < n" "on_disk d (version_path vs k) \<or> read_meta C vs d k \<noteq> None" by simp_all
  moreover have "versions_from C vs d (k + 1) (out @ [info_of C vs d k]) = Some (out @ map (info_of C vs d) [k..<n])"
    using Suc.hyps(1) [of "k + 1" "out @ [info_of C vs d k]"] Suc.hyps(2) Suc.prems \<open>k < n\<close> by (simp add: upt_conv_Cons del: upt_Suc)
  ultimately show ?case by (subst versions_from.simps) auto
qed

lemma find_rev: "find P (rev xs) = Some x \<Longrightarrow> x \<in> set xs \<and> P x"
  using find_hit [of P "rev xs"] by simp

lemma previous_of_Some:
  assumes "previous_of C vs d n = Some v"
  shows "1 \<le> v \<and> v < n \<and> on_disk d (version_path vs v)"
  using find_rev [OF assms [unfolded previous_of_def]] by auto

lemma write_meta_keeps:
  "p \<noteq> meta_path vs (mt_version m) \<Longrightarrow> p \<noteq> tmp_path (meta_path vs (mt_version m)) \<Longrightarrow> write_meta C vs m d p = d p"
  by (simp add: write_meta_def Let_def)

lemma replay_keeps:
  assumes "p \<notin> {version_path (rj_versions job) (rj_version job), diff_path (rj_versions job) (rj_version job),
      meta_path (rj_versions job) (rj_version job), tmp_path (meta_path (rj_versions job) (rj_version job))}"
  shows "snd (replay E to_json J w C ru job d) p = d p"
  using assms by (auto simp: replay_def Let_def write_meta_keeps split: prod.split option.split)

lemma replay_failed_meta:
  assumes "fst (replay E to_json J w C ru job d) = Inl e" "no_dot (rj_versions job)"
  shows "snd (replay E to_json J w C ru job d) (meta_path (rj_versions job) k) = d (meta_path (rj_versions job) k)"
  using assms(1) other_names(1) [OF assms(2), THEN not_sym]
  by (auto simp: replay_def Let_def split: prod.splits option.splits if_splits)

lemma previous_of_cong:
  assumes "\<And>v. 1 \<le> v \<Longrightarrow> v < n \<Longrightarrow> d' (version_path vs v) = d (version_path vs v) \<and> d' (meta_path vs v) = d (meta_path vs v)"
  shows "previous_of C vs d' n = previous_of C vs d n"
  unfolding previous_of_def by (intro find_cong) (auto simp: on_disk_def read_meta_def assms)

text \<open>
  C29. A replay never touches what is there. On any finite disk the search for the next version ends with a
  number of at least two for which there is neither an output nor a meta, the first such; and whatever
  becomes of the replay that writes it, the live output and the output and meta of every other version stay
  as they were. When it is cancelled or fails, its version is never compared against.
\<close>

theorem replay_writes_beside:
  assumes "finite (dom d)" "rj_versions job = versions_new dir fname"
  shows "\<exists>n. next_version (rj_versions job) d = Some n \<and> 2 \<le> n \<and> \<not> taken_at (rj_versions job) d n \<and>
    (\<forall>k \<in> {2..<n}. taken_at (rj_versions job) d k) \<and>
    (rj_version job = n \<longrightarrow>
      (\<forall>k. 0 < k \<and> k \<noteq> n \<longrightarrow>
         snd (replay E to_json J w C ru job d) (version_path (rj_versions job) k) = d (version_path (rj_versions job) k) \<and>
         snd (replay E to_json J w C ru job d) (meta_path (rj_versions job) k) = d (meta_path (rj_versions job) k)) \<and>
      (\<forall>e k. fst (replay E to_json J w C ru job d) = Inl e \<longrightarrow>
         previous_of C (rj_versions job) (snd (replay E to_json J w C ru job d)) k \<noteq> Some n))"
proof -
  let ?vs = "rj_versions job" and ?d = "snd (replay E to_json J w C ru job d)"
  obtain n where n: "2 \<le> n" "\<not> taken_at ?vs d n" "\<forall>k \<in> {2..<n}. taken_at ?vs d k"
    by (rule first_free [OF finite_taken [OF assms(1), of ?vs], of 2]) auto
  have nd: "no_dot ?vs" using versions_new_no_dot by (simp add: assms(2))
  note k = replay_keeps [of _ job E to_json J w C ru d]
  have "?d (version_path ?vs k) = d (version_path ?vs k) \<and> ?d (meta_path ?vs k) = d (meta_path ?vs k)"
    if "rj_version job = n" "0 < k" "k \<noteq> n" for k
    using other_names [OF nd] other_names(1) [OF nd, THEN not_sym] diff_names that n(1)
    by (intro conjI k) (auto simp: version_path_inj)
  moreover have "previous_of C ?vs ?d k \<noteq> Some n" if "fst (replay E to_json J w C ru job d) = Inl e" for e k
  proof
    assume "previous_of C ?vs ?d k = Some n"
    from find_rev [OF this [unfolded previous_of_def]] n(1) have "read_meta C ?vs ?d n \<noteq> None" by (auto split: option.splits)
    then show False using n(2) replay_failed_meta [OF that nd, of n] by (auto simp: read_meta_def taken_at_def on_disk_def split: option.splits)
  qed
  ultimately show ?thesis using n next_from_least [OF n] by (auto simp: next_version_def)
qed

subsection \<open>What a replay writes\<close>

lemma list_versions_ends:
  assumes "finite (dom d)"
  shows "\<exists>n \<ge> 1. list_versions C vs d = Some (map (info_of C vs d) [1..<n]) \<and>
    \<not> on_disk d (version_path vs n) \<and> read_meta C vs d n = None"
proof -
  let ?P = "\<lambda>n. on_disk d (version_path vs n) \<or> read_meta C vs d n \<noteq> None"
  have "{n. 0 < n \<and> ?P n} \<subseteq> {n. 0 < n \<and> taken_at vs d n}"
    by (auto simp: taken_at_def read_meta_def on_disk_def split: option.splits)
  then have "finite {n. 0 < n \<and> ?P n}" using finite_taken [OF assms] finite_subset by blast
  from first_free [OF this, of 1] obtain n where "1 \<le> n" "\<not> ?P n" "\<forall>m \<in> {1..<n}. ?P m" by auto
  with list_from_least [of 1 n d vs C "[]"] show ?thesis by (auto simp: list_versions_def)
qed

text \<open>
  C25. A replay that is not cancelled writes one line for each of the records below the snapshot's length, in
  the order of their ids, by the pipeline it was given and with their stored source and receipt time, whichever worker
  takes which batch and in whatever order they arrive. It is compared with the newest complete version below it, and
  from then on it is that version for the next.
\<close>

theorem replay_exact:
  assumes "reader_repr H (rj_reader job) es" "rj_upto job \<le> length es" "one_line to_json"
    and "2 \<le> rj_version job" "rj_versions job = versions_new dir fname"
    and "\<forall>k. \<not> ru_cancelled ru k" "\<forall>xs. set (ru_arrivals ru xs) = set xs" "\<forall>m. map_option mt_complete (mc_read C (mc_write C m)) = Some (mt_complete m)"
  shows "\<exists>ls report d'. replay E to_json J w C ru job d = (Inr report, d') \<and>
    d' (version_path (rj_versions job) (rj_version job)) = Some (joined ls) \<and>
    event_lines E to_json {rj_pipeline job} ''replay'' (rj_names job) 0 (take (rj_upto job) es) ls \<and>
    rr_events report = rj_upto job \<and> rr_previous report = previous_of C (rj_versions job) d (rj_version job) \<and>
    (case rr_previous report of
       None \<Rightarrow> d' (diff_path (rj_versions job) (rj_version job)) = d (diff_path (rj_versions job) (rj_version job))
     | Some v \<Rightarrow>
         let r = diff_files J w (content_of d (version_path (rj_versions job) v)) (joined ls)
         in rr_summary report = dr_summary r \<and> d' (diff_path (rj_versions job) (rj_version job)) = Some (dr_file r)) \<and>
    previous_of C (rj_versions job) d' (rj_version job + 1) = Some (rj_version job)"
proof -
  let ?vs = "rj_versions job" and ?n = "rj_version job" and ?pl = "rj_pipeline job"
  let ?p = "version_path ?vs ?n"
  have nd: "no_dot ?vs" using versions_new_no_dot by (simp add: assms(5))
  have nc: "\<And>k. \<not> ru_cancelled ru k" using assms(6) by blast
  obtain bts where b: "replay_batches (rj_reader job) (rj_names job) (rj_batch job) (rj_upto job) (ru_cancelled ru) (\<lambda>_. True) 0 0 = (bts, None)"
    "batches_of ''replay'' (rj_names job) 0 0 bts (drop 0 (take (rj_upto job) es))"
    using replay_batches_all [OF assms(1,2), of 0 "ru_cancelled ru" "\<lambda>_. True"] nc by blast
  obtain xs c where wk: "replay_work E to_json ?pl (ru_sched ru) (\<lambda>_. None) counts_zero bts = (xs, c)" by fastforce
  have arr: "set (ru_arrivals ru xs) = set xs" using assms(7) by blast
  have xs: "xs = fst (replay_work E to_json ?pl (ru_sched ru) (\<lambda>_. None) counts_zero bts)" by (simp add: wk)
  from replay_written_all [where arrivals = "ru_arrivals ru" and es = xs, OF b(2) assms(3) arr xs] obtain ls where
    l: "ro_file (replay_written (ru_arrivals ru) xs) = joined ls"
      "event_lines E to_json {?pl} ''replay'' (rj_names job) 0 (take (rj_upto job) es) ls"
      "ro_emitted (replay_written (ru_arrivals ru) xs) = rj_upto job"
    using assms(2) by auto
  define d2 where "d2 = d(?p \<mapsto> joined ls)"
  have prev: "previous_of C ?vs d2 ?n = previous_of C ?vs d ?n"
    using assms(4) other_names(1) [OF nd, THEN not_sym]
    by (intro previous_of_cong) (auto simp: d2_def version_path_inj)
  define dr where "dr = map_option (\<lambda>v. diff_files J w (content_of d2 (version_path ?vs v)) (joined ls)) (previous_of C ?vs d ?n)"
  define d3 where "d3 = (case dr of Some r \<Rightarrow> d2(diff_path ?vs ?n \<mapsto> dr_file r) | None \<Rightarrow> d2)"
  have c2: "content_of d2 ?p = joined ls" by (simp add: d2_def content_of_def)
  have fd: "d(?p \<mapsto> joined ls) = d2" by (simp add: d2_def)
  obtain report M where r: "replay E to_json J w C ru job d = (Inr report, write_meta C ?vs M d3)"
    "mt_version M = ?n" "mt_complete M" "rr_events report = rj_upto job" "rr_previous report = previous_of C ?vs d ?n"
    "dr \<noteq> None \<longrightarrow> rr_summary report = dr_summary (the dr)"
    using assms(4)
    by (cases "previous_of C ?vs d ?n")
      (simp_all add: replay_def Let_def b(1) wk l fd prev c2 dr_def d3_def)
  note keep = write_meta_keeps [of _ ?vs M C d3, unfolded r(2)]
  have p3: "d3 ?p = Some (joined ls)" using diff_names(1) by (auto simp: d3_def d2_def split: option.split)
  have "write_meta C ?vs M d3 ?p = Some (joined ls)" using other_names [OF nd] p3 by (simp add: keep)
  moreover have "write_meta C ?vs M d3 (meta_path ?vs ?n) = Some (mc_write C M)"
    using other_names(3) [OF nd] by (simp add: write_meta_def r(2) Let_def)
  then have "map_option mt_complete (read_meta C ?vs (write_meta C ?vs M d3) ?n) = Some True"
    using spec [OF assms(8), of M] r(3) by (simp add: read_meta_def)
  ultimately have top: "previous_of C ?vs (write_meta C ?vs M d3) (?n + 1) = Some ?n"
    using assms(4) by (auto simp: previous_of_def on_disk_def)
  have diff: "write_meta C ?vs M d3 (diff_path ?vs ?n) = d3 (diff_path ?vs ?n)"
    using diff_names [THEN not_sym] by (intro keep) auto
  have old: "content_of d2 (version_path ?vs v) = content_of d (version_path ?vs v)" if "previous_of C ?vs d ?n = Some v" for v
    using previous_of_Some [OF that] assms(4) by (simp add: content_of_def d2_def version_path_inj)
  have "case rr_previous report of
       None \<Rightarrow> write_meta C ?vs M d3 (diff_path ?vs ?n) = d (diff_path ?vs ?n)
     | Some v \<Rightarrow>
         let r = diff_files J w (content_of d (version_path ?vs v)) (joined ls)
         in rr_summary report = dr_summary r \<and> write_meta C ?vs M d3 (diff_path ?vs ?n) = Some (dr_file r)"
    unfolding diff r(5) using r(6) old diff_names(1) [of ?vs ?n ?n, THEN not_sym]
    by (auto simp: dr_def d3_def d2_def Let_def split: option.split)
  with r(1,4,5) l(2) top \<open>write_meta C ?vs M d3 ?p = Some (joined ls)\<close> show ?thesis by blast
qed

subsection \<open>A replay beside two outputs\<close>

definition sample_versions :: versions where
  "sample_versions = versions_new [] (Some ''out.jsonl'')"

definition sample_disk :: disk where
  "sample_disk = [version_path sample_versions 1 \<mapsto> ''live'', version_path sample_versions 2 \<mapsto> ''torn'']"

definition sample_replay :: "pipeline \<Rightarrow> replay_job" where
  "sample_replay pl = \<lparr>rj_versions = sample_versions, rj_version = 3, rj_pipeline = pl, rj_batch = 1, rj_generation = 0,
     rj_names = [(1, ''fw.log'')], rj_reader = sample_reader two_events, rj_upto = 2\<rparr>"

definition backwards :: replay_run where
  "backwards = \<lparr>ru_cancelled = (\<lambda>_. False), ru_sched = (\<lambda>_. 0), ru_arrivals = rev, ru_now = 0\<rparr>"

definition flag_codec :: meta_codec where
  "flag_codec = \<lparr>mc_read = (\<lambda>s. Some (meta_default\<lparr>mt_complete := (s = ''1'')\<rparr>)),
     mc_write = (\<lambda>m. if mt_complete m then ''1'' else ''0'')\<rparr>"

theorem replay_writes_beside_witness:
  "\<forall>E j J w C ru pl. next_version sample_versions sample_disk = Some 3 \<and>
     snd (replay E j J w C ru (sample_replay pl) sample_disk) (version_path sample_versions 1) = Some ''live''"
proof (intro allI)
  fix E j J w C ru pl
  have "finite (dom sample_disk)" by (simp add: sample_disk_def)
  moreover have "rj_versions (sample_replay pl) = versions_new [] (Some ''out.jsonl'')"
    by (simp add: sample_replay_def sample_versions_def)
  ultimately obtain n where n: "next_version (rj_versions (sample_replay pl)) sample_disk = Some n" "2 \<le> n"
    "\<not> taken_at (rj_versions (sample_replay pl)) sample_disk n" "\<forall>k \<in> {2..<n}. taken_at (rj_versions (sample_replay pl)) sample_disk k"
    "rj_version (sample_replay pl) = n \<longrightarrow> (\<forall>k. 0 < k \<and> k \<noteq> n \<longrightarrow>
       snd (replay E j J w C ru (sample_replay pl) sample_disk) (version_path (rj_versions (sample_replay pl)) k) =
         sample_disk (version_path (rj_versions (sample_replay pl)) k))"
    using replay_writes_beside [of sample_disk "sample_replay pl" "[]" "Some ''out.jsonl''" E j J w C ru] by blast
  have v: "rj_versions (sample_replay pl) = sample_versions" "rj_version (sample_replay pl) = 3" by (simp_all add: sample_replay_def)
  have nd: "no_dot sample_versions" unfolding sample_versions_def by (rule versions_new_no_dot)
  have "taken_at sample_versions sample_disk 2" by (simp add: taken_at_def on_disk_def sample_disk_def)
  then have "n \<noteq> 2" using n(3) unfolding v by blast
  have "\<not> taken_at sample_versions sample_disk 3"
    using other_names(1) [OF nd, THEN not_sym] by (simp add: taken_at_def on_disk_def sample_disk_def version_path_inj)
  then have "n = 3" using n(2,4) \<open>n \<noteq> 2\<close> unfolding v by fastforce
  moreover have "sample_disk (version_path sample_versions 1) = Some ''live''" by (simp add: sample_disk_def version_path_inj)
  ultimately show "next_version sample_versions sample_disk = Some 3 \<and>
     snd (replay E j J w C ru (sample_replay pl) sample_disk) (version_path sample_versions 1) = Some ''live''"
    using n(1,5) unfolding v by simp
qed

theorem replay_exact_witness:
  "\<forall>E pl. \<exists>ls. length ls = 2 \<and>
     snd (replay E (\<lambda>_. id_line ''0'') (\<lambda>_. None) (\<lambda>_. []) flag_codec backwards (sample_replay pl) sample_disk)
       (version_path sample_versions 3) = Some (joined ls)"
proof (intro allI)
  fix E pl
  have h: "reader_repr tail_hash (rj_reader (sample_replay pl)) two_events" "rj_upto (sample_replay pl) \<le> length two_events"
    "one_line (\<lambda>_. id_line ''0'')" "2 \<le> rj_version (sample_replay pl)" "rj_versions (sample_replay pl) = versions_new [] (Some ''out.jsonl'')"
    "\<forall>k. \<not> ru_cancelled backwards k" "\<forall>xs. set (ru_arrivals backwards xs) = set xs"
    "\<forall>m. map_option mt_complete (mc_read flag_codec (mc_write flag_codec m)) = Some (mt_complete m)"
    using two_events_reader
    by (simp_all add: sample_replay_def backwards_def flag_codec_def one_line_def id_line_def two_events_def sample_versions_def)
  from replay_exact [OF h, of E "\<lambda>_. None" "\<lambda>_. []" sample_disk] obtain ls report d' where
    r: "replay E (\<lambda>_. id_line ''0'') (\<lambda>_. None) (\<lambda>_. []) flag_codec backwards (sample_replay pl) sample_disk = (Inr report, d')"
      "d' (version_path (rj_versions (sample_replay pl)) (rj_version (sample_replay pl))) = Some (joined ls)"
      "event_lines E (\<lambda>_. id_line ''0'') {rj_pipeline (sample_replay pl)} ''replay'' (rj_names (sample_replay pl)) 0
         (take (rj_upto (sample_replay pl)) two_events) ls" by blast
  have "length ls = 2" using r(3) by (simp add: event_lines_def sample_replay_def two_events_def)
  with r(1,2) show "\<exists>ls. length ls = 2 \<and>
     snd (replay E (\<lambda>_. id_line ''0'') (\<lambda>_. None) (\<lambda>_. []) flag_codec backwards (sample_replay pl) sample_disk)
       (version_path sample_versions 3) = Some (joined ls)"
    by (intro exI [of _ ls]) (simp add: sample_replay_def)
qed

end
