(* ===== verification/Ulpf_Poll.thy ===== *)
theory Ulpf_Poll
  imports Ulpf_Resume Ulpf_Filter
begin

text \<open>
  The watched directories, \<open>poll_loop\<close> and \<open>source_name\<close> of \<open>src/crates/ulpf/src/engine.rs\<close>, and the files of a
  batch run. What a poll sees of a file is an observation: the size its metadata gives and the content found
  when it is opened, which may be longer by then. A file that is quiet for two polls is ingested to its end,
  one that keeps growing up to its last complete line. Reloads and verdicts between polls are modelled elsewhere.
\<close>

subsection \<open>Names of sources\<close>

fun join_slash :: "bytes list \<Rightarrow> bytes" where
  "join_slash [] = []"
| "join_slash [x] = x"
| "join_slash (x # xs) = x @ slash # join_slash xs"

definition source_name :: "bytes list \<Rightarrow> bytes list \<Rightarrow> bytes" where
  "source_name root p =
     (if take (length root) p = root \<and> drop (length root) p \<noteq> [] then join_slash (drop (length root) p)
      else if p = [] then [] else last p)"

text \<open>The files of a batch run, each once, with the name under the root it was first found below.\<close>

fun run_files :: "(bytes list \<times> entry) list \<Rightarrow> filter_rules \<Rightarrow> bytes list list \<Rightarrow> (bytes list \<times> bytes) list" where
  "run_files [] fl seen = []"
| "run_files (i # ins) fl seen =
     (let paths = filter (\<lambda>p. p \<notin> set seen) (fst (collect_inputs [i] fl))
      in map (\<lambda>p. (p, source_name (fst i) p)) paths @ run_files ins fl (seen @ paths))"

text \<open>Each of them is ingested to its end, from where the store says.\<close>

fun ingest_inputs ::
  "(bytes \<Rightarrow> bytes) \<Rightarrow> (bytes \<Rightarrow> job) \<Rightarrow> (bytes list \<Rightarrow> bytes option) \<Rightarrow> (bytes \<times> nat) list \<Rightarrow> (bytes list \<times> bytes) list \<Rightarrow> ingest \<Rightarrow>
    ingest_error + ingest"
where
  "ingest_inputs H job read resume [] s = Inr s"
| "ingest_inputs H job read resume ((p, name) # fs) s =
     (case ingest_file H (job name) (read p) (resume_offset resume name) True s of
        Inl e \<Rightarrow> Inl e
      | Inr (_, s') \<Rightarrow> ingest_inputs H job read resume fs s')"

subsection \<open>One poll of one file\<close>

record tailed =
  tf_consumed :: nat
  tf_last_size :: nat
  tf_stable :: nat
  tf_growing :: nat

record observation =
  ob_path :: "bytes list"
  ob_job :: job
  ob_size :: "nat option"
  ob_content :: "bytes option"

definition poll_ticks :: "nat \<Rightarrow> tailed \<Rightarrow> tailed" where
  "poll_ticks sz t =
     (if sz = tf_last_size t then t\<lparr>tf_stable := tf_stable t + 1\<rparr>
      else t\<lparr>tf_stable := 0, tf_growing := tf_growing t + 1, tf_last_size := sz\<rparr>)"

definition poll_read :: "(bytes \<Rightarrow> bytes) \<Rightarrow> observation \<Rightarrow> nat \<Rightarrow> tailed \<Rightarrow> ingest \<Rightarrow> ingest_error + tailed \<times> ingest" where
  "poll_read H ob sz t s =
     (let finalize = 2 \<le> tf_stable t; stream = 4 \<le> tf_growing t in
      if finalize \<or> stream then
        (case ingest_file H (ob_job ob) (ob_content ob) (tf_consumed t) finalize s of
           Inl e \<Rightarrow> Inl e
         | Inr (Some c, s') \<Rightarrow>
             Inr (if finalize then t\<lparr>tf_consumed := c, tf_growing := 0, tf_stable := 0\<rparr> else t\<lparr>tf_consumed := c\<rparr>, s')
         | Inr (None, s') \<Rightarrow> Inr (t\<lparr>tf_consumed := sz\<rparr>, s'))
      else Inr (t, s))"

definition poll_file :: "(bytes \<Rightarrow> bytes) \<Rightarrow> observation \<Rightarrow> nat \<Rightarrow> tailed \<Rightarrow> ingest \<Rightarrow> ingest_error + tailed \<times> ingest" where
  "poll_file H ob sz t s =
     (let t = (if sz < tf_consumed t then t\<lparr>tf_consumed := 0\<rparr> else t) in
      if sz = tf_consumed t then Inr (t\<lparr>tf_stable := 0, tf_growing := 0, tf_last_size := sz\<rparr>, s)
      else poll_read H ob sz (poll_ticks sz t) s)"

text \<open>A file whose metadata cannot be read is passed over; one seen for the first time starts where the store says.\<close>

definition tailed_new :: "(bytes \<times> nat) list \<Rightarrow> observation \<Rightarrow> nat \<Rightarrow> tailed" where
  "tailed_new resume ob sz =
     \<lparr>tf_consumed = resume_offset resume (ij_name (ob_job ob)), tf_last_size = sz, tf_stable = 0, tf_growing = 0\<rparr>"

type_synonym tails = "bytes list \<Rightarrow> tailed option"

definition poll_one ::
  "(bytes \<Rightarrow> bytes) \<Rightarrow> (bytes \<times> nat) list \<Rightarrow> observation \<Rightarrow> tails \<times> ingest \<Rightarrow> ingest_error + tails \<times> ingest"
where
  "poll_one H resume ob st =
     (case st of (fs, s) \<Rightarrow>
        case ob_size ob of
          None \<Rightarrow> Inr (fs, s)
        | Some sz \<Rightarrow>
            (case poll_file H ob sz (case fs (ob_path ob) of Some t \<Rightarrow> t | None \<Rightarrow> tailed_new resume ob sz) s of
               Inl e \<Rightarrow> Inl e
             | Inr (t, s') \<Rightarrow> Inr (fs(ob_path ob \<mapsto> t), s')))"

text \<open>The rounds one after the other; before each the loop looks whether it is to stop.\<close>

fun poll_all ::
  "(bytes \<Rightarrow> bytes) \<Rightarrow> (bytes \<times> nat) list \<Rightarrow> observation list \<Rightarrow> tails \<times> ingest \<Rightarrow> ingest_error + tails \<times> ingest"
where
  "poll_all H resume [] st = Inr st"
| "poll_all H resume (ob # obs) st =
     (case poll_one H resume ob st of Inl e \<Rightarrow> Inl e | Inr st' \<Rightarrow> poll_all H resume obs st')"

fun poll_rounds ::
  "(bytes \<Rightarrow> bytes) \<Rightarrow> (bytes \<times> nat) list \<Rightarrow> (bool \<times> observation list) list \<Rightarrow> tails \<times> ingest \<Rightarrow> ingest_error + tails \<times> ingest"
where
  "poll_rounds H resume [] st = Inr st"
| "poll_rounds H resume ((stopped, obs) # rounds) st =
     (if stopped then Inr st
      else (case poll_all H resume obs st of Inl e \<Rightarrow> Inl e | Inr st' \<Rightarrow> poll_rounds H resume rounds st'))"

subsection \<open>One poll\<close>

definition ob_bytes :: "observation \<Rightarrow> nat" where
  "ob_bytes ob = (case ob_content ob of Some c \<Rightarrow> length c | None \<Rightarrow> 0)"

definition ob_ok :: "observation \<Rightarrow> bool" where
  "ob_ok ob \<longleftrightarrow> job_ok (ob_job ob) \<and> (case ob_content ob of Some c \<Rightarrow> short_events c | None \<Rightarrow> True)"

text \<open>The new events continue the file where it was left, and all of it when it is read to its end.\<close>

definition continues :: "bytes option \<Rightarrow> nat \<Rightarrow> nat \<Rightarrow> event list \<Rightarrow> bool" where
  "continues content k k' new \<longleftrightarrow>
     (\<forall>c. content = Some c \<and> k \<le> length c \<longrightarrow> k' \<le> length c \<and> take k' c = take k c @ concat (map ev_bytes new))"

lemma poll_read_takes:
  assumes "ob_ok ob" "store_repr H (ig_store s) es" "room es (n + ob_bytes ob)"
  shows "\<exists>t' s' new. poll_read H ob sz t s = Inr (t', s') \<and> store_repr H (ig_store s') (es @ new) \<and>
    events_of (ob_job ob) new \<and> room (es @ new) n \<and> continues (ob_content ob) (tf_consumed t) (tf_consumed t') new \<and>
    (ob_content ob = None \<longrightarrow> new = [] \<and> (tf_consumed t' = tf_consumed t \<or> tf_consumed t' = sz)) \<and>
    tf_last_size t' = tf_last_size t \<and> (tf_stable t < 2 \<longrightarrow> tf_stable t' = tf_stable t) \<and>
    (\<forall>c. ob_content ob = Some c \<and> 2 \<le> tf_stable t \<and> tf_consumed t \<le> length c \<and> (\<forall>k. \<not> ij_stopped (ob_job ob) k) \<longrightarrow>
      tf_consumed t' = length c)"
proof (cases "2 \<le> tf_stable t \<or> 4 \<le> tf_growing t")
  case False
  have "room es n" using assms(3) by (simp add: room_def algebra_simps)
  then show ?thesis using False assms(2)
    by (intro exI [of _ t] exI [of _ s] exI [of _ "[]"]) (auto simp: poll_read_def continues_def events_of_def stamped_def)
next
  case True
  show ?thesis
  proof (cases "ob_content ob")
    case None
    have "room es n" using assms(3) by (simp add: room_def algebra_simps)
    then show ?thesis using True None assms(2)
      by (intro exI [of _ "t\<lparr>tf_consumed := sz\<rparr>"] exI [of _ s] exI [of _ "[]"])
        (auto simp: poll_read_def ingest_file_def continues_def events_of_def stamped_def)
  next
    case (Some c)
    let ?eof = "2 \<le> tf_stable t" and ?k = "tf_consumed t"
    let ?E = "events_in ?eof (drop ?k c)"
    have ok: "job_ok (ob_job ob)" "short_events c" "ob_bytes ob = length c" using assms(1) Some by (simp_all add: ob_ok_def ob_bytes_def)
    have short: "\<forall>b \<in> set ?E. b \<noteq> [] \<and> length b < 2 ^ 32" by (rule events_in_short [OF ok(2)])
    have pre: "\<exists>rest. concat (take m ?E) @ rest = drop ?k c" for m by (rule events_in_prefix)
    have le: "length (concat (take m ?E)) \<le> length c - ?k" for m
    proof -
      from pre [of m] obtain rest where "concat (take m ?E) @ rest = drop ?k c" by blast
      from arg_cong [OF this, of length] show ?thesis by simp
    qed
    have "length (concat ?E) \<le> n + length c" using le [of "length ?E"] by simp
    then have "fits es ?E" using room_fits [OF assms(3)] short ok(3) by simp
    from ingest_takes [OF ok(1) assms(2) this] obtain m new bts s' where
      y: "ingest_file H (ob_job ob) (Some c) ?k ?eof s = Inr (Some (min ?k (length c) + length (concat (take m ?E))), s')"
        "store_repr H (ig_store s') (es @ new)" "events_of (ob_job ob) new" "map ev_bytes new = take m ?E"
        "(\<exists>k. ij_stopped (ob_job ob) k) \<or> m = length ?E" by blast
    define k' where "k' = min ?k (length c) + length (concat (take m ?E))"
    define t' where "t' = (if ?eof then t\<lparr>tf_consumed := k', tf_growing := 0, tf_stable := 0\<rparr> else t\<lparr>tf_consumed := k'\<rparr>)"
    have r: "poll_read H ob sz t s = Inr (t', s')" using True y(1) Some by (simp add: poll_read_def t'_def k'_def Let_def)
    have t': "tf_consumed t' = k'" "tf_last_size t' = tf_last_size t" "tf_stable t < 2 \<longrightarrow> tf_stable t' = tf_stable t"
      by (auto simp: t'_def)
    have "continues (ob_content ob) ?k k' new"
    proof -
      obtain rest where "concat (take m ?E) @ rest = drop ?k c" using pre by blast
      then have "take (length (concat (take m ?E))) (drop ?k c) = concat (take m ?E)" by (metis append_eq_conv_conj)
      then have "take k' c = take ?k c @ concat (take m ?E)" if "?k \<le> length c"
        using that by (simp add: k'_def take_add)
      then show ?thesis using le [of m] y(4) Some by (auto simp: continues_def k'_def)
    qed
    moreover have "room (es @ new) n"
    proof (rule room_after [OF assms(3)])
      show "stamped new" using y(3) by (simp add: events_of_def)
      show "\<forall>b \<in> set (map ev_bytes new). b \<noteq> [] \<and> length b < 2 ^ 32" using short unfolding y(4) by (meson in_set_takeD)
      show "length (concat (map ev_bytes new)) \<le> ob_bytes ob" using le [of m] unfolding y(4) ok(3) by simp
    qed
    moreover have "k' = length c" if "?eof" "?k \<le> length c" "\<forall>k. \<not> ij_stopped (ob_job ob) k"
      using y(5) that by (simp add: k'_def events_in_def concat_split_events)
    ultimately show ?thesis using r y(2,3) t' Some by (intro exI [of _ t'] exI [of _ s'] exI [of _ new]) auto
  qed
qed

text \<open>How far a file that stays as it is has come: after three polls it is read to its end.\<close>

definition level_ok :: "bytes \<Rightarrow> nat \<Rightarrow> tailed \<Rightarrow> bool" where
  "level_ok c k t \<longleftrightarrow> tf_consumed t = length c \<or> k = 0 \<or> k \<le> 2 \<and> tf_last_size t = length c \<and> k - 1 \<le> tf_stable t"

lemma poll_file_takes:
  assumes "ob_ok ob" "store_repr H (ig_store s) es" "room es (n + ob_bytes ob)"
  shows "\<exists>t' s' new. poll_file H ob sz t s = Inr (t', s') \<and> store_repr H (ig_store s') (es @ new) \<and>
    events_of (ob_job ob) new \<and> room (es @ new) n \<and>
    (tf_consumed t \<le> sz \<longrightarrow> continues (ob_content ob) (tf_consumed t) (tf_consumed t') new) \<and>
    (tf_consumed t \<le> sz \<and> ob_content ob = None \<longrightarrow> new = [] \<and> (tf_consumed t' = tf_consumed t \<or> tf_consumed t' = sz)) \<and>
    (\<forall>c k. ob_content ob = Some c \<and> sz = length c \<and> tf_consumed t \<le> length c \<and> (\<forall>k. \<not> ij_stopped (ob_job ob) k) \<and> level_ok c k t
       \<longrightarrow> level_ok c (min 3 (k + 1)) t')"
proof -
  define u where "u = (if sz < tf_consumed t then t\<lparr>tf_consumed := 0\<rparr> else t)"
  have u: "tf_consumed t \<le> sz \<Longrightarrow> u = t" by (simp add: u_def)
  show ?thesis
  proof (cases "sz = tf_consumed u")
    case True
    have "room es n" using assms(3) by (simp add: room_def algebra_simps)
    moreover have "poll_file H ob sz t s = Inr (u\<lparr>tf_stable := 0, tf_growing := 0, tf_last_size := sz\<rparr>, s)"
      unfolding poll_file_def Let_def u_def [symmetric] using True by simp
    ultimately show ?thesis using assms(2) True u
      by (intro exI [of _ "u\<lparr>tf_stable := 0, tf_growing := 0, tf_last_size := sz\<rparr>"] exI [of _ s] exI [of _ "[]"])
        (auto simp: continues_def level_ok_def events_of_def stamped_def)
  next
    case False
    define v where "v = poll_ticks sz u"
    have v: "tf_consumed v = tf_consumed u" "tf_last_size v = sz" by (simp_all add: v_def poll_ticks_def)
    have p: "poll_file H ob sz t s = poll_read H ob sz v s"
      unfolding poll_file_def Let_def u_def [symmetric] using False by (simp add: v_def)
    from poll_read_takes [OF assms, of sz v] obtain t' s' new where
      r: "poll_read H ob sz v s = Inr (t', s')" "store_repr H (ig_store s') (es @ new)" "events_of (ob_job ob) new" "room (es @ new) n"
        "continues (ob_content ob) (tf_consumed v) (tf_consumed t') new"
        "ob_content ob = None \<longrightarrow> new = [] \<and> (tf_consumed t' = tf_consumed v \<or> tf_consumed t' = sz)" "tf_last_size t' = tf_last_size v"
        "tf_stable v < 2 \<longrightarrow> tf_stable t' = tf_stable v"
        "\<forall>c. ob_content ob = Some c \<and> 2 \<le> tf_stable v \<and> tf_consumed v \<le> length c \<and> (\<forall>k. \<not> ij_stopped (ob_job ob) k) \<longrightarrow>
          tf_consumed t' = length c" by (elim exE conjE) (rule that)
    have "level_ok c (min 3 (k + 1)) t'"
      if q: "ob_content ob = Some c" "sz = length c" "tf_consumed t \<le> length c" "\<forall>k. \<not> ij_stopped (ob_job ob) k" "level_ok c k t" for c k
    proof (cases "2 \<le> tf_stable v")
      case True
      then have "tf_consumed t' = length c" using r(9) q(1-4) v(1) u by auto
      then show ?thesis by (simp add: level_ok_def)
    next
      case calm: False
      have "u = t" using u q(2,3) by simp
      then have "tf_consumed t \<noteq> length c" using False q(2) by simp
      then have k: "k = 0 \<or> k \<le> 2 \<and> tf_last_size t = length c \<and> k - 1 \<le> tf_stable t" using q(5) by (simp add: level_ok_def)
      have "k \<le> tf_stable v" if "k \<noteq> 0"
        using k that q(2) \<open>u = t\<close> by (simp add: v_def poll_ticks_def) linarith
      then have "k \<le> tf_stable v" by (cases "k = 0") simp_all
      then show ?thesis using calm r(7,8) v(2) q(2) by (simp add: level_ok_def)
    qed
    then show ?thesis using p r(1-6) v(1) u by (intro exI [of _ t'] exI [of _ s'] exI [of _ new]) auto
  qed
qed

subsection \<open>A file that only grows\<close>

text \<open>
  What the polls see, each with the content of the file \<open>p\<close> at that moment: it goes on from \<open>cur\<close>, what was there
  before, and its size was taken in between. A poll may fail to read the size or to open the file; a poll of another
  file is of another source.
\<close>

type_synonym sighting = "observation \<times> bytes"

fun follows :: "bytes list \<Rightarrow> nat \<Rightarrow> bytes \<Rightarrow> bytes \<Rightarrow> sighting list \<Rightarrow> bool" where
  "follows p src name cur [] \<longleftrightarrow> True"
| "follows p src name cur ((ob, c) # obs) \<longleftrightarrow>
     (if ob_path ob = p then
        ij_source (ob_job ob) = src \<and> ij_name (ob_job ob) = name \<and> prefix cur c \<and>
        (case ob_content ob of Some c' \<Rightarrow> c' = c | None \<Rightarrow> True) \<and>
        (case ob_size ob of Some sz \<Rightarrow> length cur \<le> sz \<and> sz \<le> length c | None \<Rightarrow> True) \<and> follows p src name c obs
      else ij_source (ob_job ob) \<noteq> src \<and> follows p src name cur obs)"

fun latest :: "bytes list \<Rightarrow> bytes \<Rightarrow> sighting list \<Rightarrow> bytes" where
  "latest p cur [] = cur"
| "latest p cur ((ob, c) # obs) = latest p (if ob_path ob = p then c else cur) obs"

definition opened :: "bytes list \<Rightarrow> observation list \<Rightarrow> bool" where
  "opened p obs \<longleftrightarrow> (\<forall>ob \<in> set obs. ob_path ob = p \<longrightarrow> ob_content ob \<noteq> None)"

text \<open>How many of the last polls of the file, up to three, opened it and saw it whole and unchanged.\<close>

fun quiet_polls :: "bytes list \<Rightarrow> bytes \<Rightarrow> nat \<Rightarrow> observation list \<Rightarrow> nat" where
  "quiet_polls p c k [] = k"
| "quiet_polls p c k (ob # obs) =
     (if ob_path ob = p then
        quiet_polls p c (if ob_content ob = Some c \<and> ob_size ob = Some (length c) then min 3 (k + 1) else 0) obs
      else quiet_polls p c k obs)"

definition read_to :: "tails \<Rightarrow> bytes list \<Rightarrow> nat \<Rightarrow> nat" where
  "read_to fs p start = (case fs p of Some t \<Rightarrow> tf_consumed t | None \<Rightarrow> start)"

text \<open>
  The place in the file lies in what is there; the bytes of the source are bytes before it, in order, and all of them if
  no poll failed to open the file.
\<close>

definition tracked ::
  "bool \<Rightarrow> bool \<Rightarrow> bytes list \<Rightarrow> nat \<Rightarrow> nat \<Rightarrow> bytes \<Rightarrow> bytes \<Rightarrow> nat \<Rightarrow> tails \<Rightarrow> event list \<Rightarrow> bool"
where
  "tracked whole calm p src start cur c k fs es \<longleftrightarrow>
     read_to fs p start \<le> length cur \<and> subseq (concat (source_bytes src es)) (take (read_to fs p start) cur) \<and>
     (whole \<longrightarrow> concat (source_bytes src es) = take (read_to fs p start) cur) \<and>
     (calm \<longrightarrow> k = 0 \<or> (\<exists>t. fs p = Some t \<and> level_ok c k t))"

lemma subseq_take_prefix: "subseq xs (take k cur) \<Longrightarrow> k \<le> k' \<Longrightarrow> prefix cur c \<Longrightarrow> subseq xs (take k' c)"
proof -
  assume a: "subseq xs (take k cur)" "k \<le> k'" "prefix cur c"
  from a(3) obtain r where c: "c = cur @ r" by (auto simp: prefix_def)
  have "prefix (take k cur) (take k c)" by (simp add: c)
  also have "prefix (take k c) (take k' c)" using a(2) by (metis min.absorb1 take_is_prefix take_take)
  finally show ?thesis using a(1) subseq_order.trans prefix_imp_subseq by blast
qed

lemma poll_one_tracks:
  assumes "ob_ok ob" "store_repr H (ig_store s) es" "room es (n + ob_bytes ob)" "follows p src name cur ((ob, g) # obs)"
    and "tracked whole calm p src (resume_offset resume name) cur c k fs es"
    and "calm \<Longrightarrow> ob_path ob = p \<Longrightarrow> \<forall>k. \<not> ij_stopped (ob_job ob) k" "whole \<Longrightarrow> opened p [ob]"
  shows "\<exists>fs' s' new. poll_one H resume ob (fs, s) = Inr (fs', s') \<and> store_repr H (ig_store s') (es @ new) \<and> room (es @ new) n \<and>
    tracked whole calm p src (resume_offset resume name) (latest p cur [(ob, g)]) c (quiet_polls p c k [ob]) fs' (es @ new)"
proof -
  let ?start = "resume_offset resume name"
  note tr = assms(5) [unfolded tracked_def]
  show ?thesis
  proof (cases "ob_size ob")
    case None
    have r: "room es n" using assms(3) by (simp add: room_def algebra_simps)
    have "tracked whole calm p src ?start (latest p cur [(ob, g)]) c (quiet_polls p c k [ob]) fs es"
    proof (cases "ob_path ob = p")
      case True
      then have g: "prefix cur g" using assms(4) by simp
      then have "take (read_to fs p ?start) g = take (read_to fs p ?start) cur" using tr by (auto simp: prefix_def)
      then show ?thesis using tr True None prefix_length_le [OF g] by (simp add: tracked_def)
    next
      case False
      then show ?thesis using assms(5) by simp
    qed
    then show ?thesis using None assms(2) r by (intro exI [of _ fs] exI [of _ s] exI [of _ "[]"]) (simp add: poll_one_def)
  next
    case (Some sz)
    define t where "t = (case fs (ob_path ob) of Some t \<Rightarrow> t | None \<Rightarrow> tailed_new resume ob sz)"
    from poll_file_takes [OF assms(1-3), of sz t] obtain t' s' new where
      r: "poll_file H ob sz t s = Inr (t', s')" "store_repr H (ig_store s') (es @ new)" "events_of (ob_job ob) new" "room (es @ new) n"
        "tf_consumed t \<le> sz \<longrightarrow> continues (ob_content ob) (tf_consumed t) (tf_consumed t') new"
        "tf_consumed t \<le> sz \<and> ob_content ob = None \<longrightarrow> new = [] \<and> (tf_consumed t' = tf_consumed t \<or> tf_consumed t' = sz)"
        "\<forall>c k. ob_content ob = Some c \<and> sz = length c \<and> tf_consumed t \<le> length c \<and> (\<forall>k. \<not> ij_stopped (ob_job ob) k) \<and> level_ok c k t
           \<longrightarrow> level_ok c (min 3 (k + 1)) t'" by blast
    let ?fs = "fs(ob_path ob \<mapsto> t')"
    have one: "poll_one H resume ob (fs, s) = Inr (?fs, s')" using Some r(1) by (simp add: poll_one_def t_def)
    have src: "source_bytes (ij_source (ob_job ob)) new = map ev_bytes new" "ij_source (ob_job ob) \<noteq> src \<Longrightarrow> source_bytes src new = []"
      using r(3) by (auto simp: source_bytes_def events_of_def list_all_iff filter_empty_conv)
    have "tracked whole calm p src ?start (latest p cur [(ob, g)]) c (quiet_polls p c k [ob]) ?fs (es @ new)"
    proof (cases "ob_path ob = p")
      case False
      then show ?thesis using assms(4,5) src(2) by (simp add: tracked_def read_to_def)
    next
      case True
      then have g: "prefix cur g" "length cur \<le> sz" "sz \<le> length g" "ij_source (ob_job ob) = src" "ij_name (ob_job ob) = name"
          "ob_content ob = None \<or> ob_content ob = Some g"
        using assms(4) Some by (auto split: option.splits)
      have t: "tf_consumed t = read_to fs p ?start"
        using True g(5) by (simp add: t_def read_to_def tailed_new_def split: option.split)
      then have le: "tf_consumed t \<le> sz" "tf_consumed t \<le> length g" using tr g(2,3) by linarith+
      have fs: "read_to ?fs p ?start = tf_consumed t'" using True by (simp add: read_to_def)
      from g(6) show ?thesis
      proof
        assume none: "ob_content ob = None"
        then have new: "new = []" "tf_consumed t \<le> tf_consumed t'" "tf_consumed t' \<le> length g" using r(6) le g(3) by auto
        have "subseq (concat (source_bytes src es)) (take (tf_consumed t') g)"
          using subseq_take_prefix [OF _ new(2) g(1)] tr t by simp
        moreover have "\<not> whole" using assms(7) none True by (auto simp: opened_def)
        ultimately show ?thesis using new(1,3) True none fs by (simp add: tracked_def)
      next
        assume some: "ob_content ob = Some g"
        from g(1) obtain rest where cr: "g = cur @ rest" by (auto simp: prefix_def)
        from r(5) le some have k': "tf_consumed t' \<le> length g" "take (tf_consumed t') g = take (tf_consumed t) g @ concat (map ev_bytes new)"
          by (auto simp: continues_def)
        have tk: "take (tf_consumed t) g = take (tf_consumed t) cur" using tr t by (simp add: cr)
        have "whole \<Longrightarrow> concat (source_bytes src (es @ new)) = take (tf_consumed t') g"
          using tr t tk k'(2) src(1) g(4) by simp
        moreover have "subseq (concat (source_bytes src (es @ new))) (take (tf_consumed t') g)"
          using tr t tk k'(2) src(1) g(4) by (simp add: list_emb_append_mono)
        moreover have "level_ok c (quiet_polls p c k [ob]) t'" if calm
        proof (cases "g = c \<and> sz = length c")
          case q: True
          have "level_ok c k t"
          proof (cases "k = 0")
            case False
            then obtain t0 where "fs p = Some t0" "level_ok c k t0" using tr \<open>calm\<close> by blast
            then show ?thesis using True by (simp add: t_def)
          qed (simp add: level_ok_def)
          then have "level_ok c (min 3 (k + 1)) t'" using r(7) some q le(2) assms(6) [OF \<open>calm\<close> True] by blast
          then show ?thesis using True q some Some by simp
        next
          case False
          then have "quiet_polls p c k [ob] = 0" using True some Some by auto
          then show ?thesis by (simp add: level_ok_def)
        qed
        ultimately show ?thesis using True k'(1) fs by (simp add: tracked_def)
      qed
    qed
    then show ?thesis using one r(2,4) by blast
  qed
qed

lemma poll_all_tracks:
  assumes "store_repr H (ig_store s) es" "\<forall>ob \<in> set (map fst seen). ob_ok ob" "room es (sum_list (map ob_bytes (map fst seen)))"
    and "follows p src name cur seen" "tracked whole calm p src (resume_offset resume name) cur c k fs es"
    and "calm \<Longrightarrow> \<forall>ob \<in> set (map fst seen). ob_path ob = p \<longrightarrow> (\<forall>k. \<not> ij_stopped (ob_job ob) k)"
    and "whole \<Longrightarrow> opened p (map fst seen)"
  shows "\<exists>fs' s' new. poll_all H resume (map fst seen) (fs, s) = Inr (fs', s') \<and> store_repr H (ig_store s') (es @ new) \<and>
    tracked whole calm p src (resume_offset resume name) (latest p cur seen) c (quiet_polls p c k (map fst seen)) fs' (es @ new)"
  using assms
proof (induction seen arbitrary: fs s es cur k)
  case Nil
  then show ?case by (intro exI [of _ fs] exI [of _ s] exI [of _ "[]"]) simp
next
  case (Cons x obs)
  obtain ob g where x: "x = (ob, g)" by fastforce
  note pr = Cons.prems [unfolded x]
  let ?obs = "map fst obs"
  have r: "room es (sum_list (map ob_bytes ?obs) + ob_bytes ob)" using pr(3) by (simp add: add.commute)
  have c: "calm \<Longrightarrow> ob_path ob = p \<Longrightarrow> \<forall>k. \<not> ij_stopped (ob_job ob) k" using pr(6) by simp
  have w: "whole \<Longrightarrow> opened p [ob]" "whole \<Longrightarrow> opened p ?obs" using pr(7) by (simp_all add: opened_def)
  have "ob_ok ob" using pr(2) by simp
  from poll_one_tracks [OF this pr(1) r pr(4,5) c w(1)] obtain fs1 s1 new1 where
    o: "poll_one H resume ob (fs, s) = Inr (fs1, s1)" "store_repr H (ig_store s1) (es @ new1)"
      "room (es @ new1) (sum_list (map ob_bytes ?obs))"
      "tracked whole calm p src (resume_offset resume name) (latest p cur [(ob, g)]) c (quiet_polls p c k [ob]) fs1 (es @ new1)" by blast
  have f: "follows p src name (latest p cur [(ob, g)]) obs" using pr(4) by (auto split: if_splits)
  have ok: "\<forall>ob \<in> set ?obs. ob_ok ob" using pr(2) by simp
  have cc: "calm \<Longrightarrow> \<forall>ob \<in> set ?obs. ob_path ob = p \<longrightarrow> (\<forall>k. \<not> ij_stopped (ob_job ob) k)" using pr(6) by simp
  from Cons.IH [OF o(2) ok o(3) f o(4) cc w(2)] obtain fs' s' new where
    "poll_all H resume ?obs (fs1, s1) = Inr (fs', s')" "store_repr H (ig_store s') ((es @ new1) @ new)"
    "tracked whole calm p src (resume_offset resume name) (latest p (latest p cur [(ob, g)]) obs) c
       (quiet_polls p c (quiet_polls p c k [ob]) ?obs) fs' ((es @ new1) @ new)" by blast
  moreover have "latest p (latest p cur [(ob, g)]) obs = latest p cur (x # obs)"
    "quiet_polls p c (quiet_polls p c k [ob]) ?obs = quiet_polls p c k (map fst (x # obs))" by (simp_all add: x)
  ultimately show ?case using o(1) by (intro exI [of _ fs'] exI [of _ s'] exI [of _ "new1 @ new"]) (simp add: x)
qed

text \<open>The polls made before the loop is told to stop.\<close>

definition heard :: "(bool \<times> observation list) list \<Rightarrow> observation list" where
  "heard rounds = concat (map snd (takeWhile (\<lambda>r. \<not> fst r) rounds))"

lemma poll_all_append:
  "poll_all H resume (xs @ ys) st = (case poll_all H resume xs st of Inl e \<Rightarrow> Inl e | Inr st' \<Rightarrow> poll_all H resume ys st')"
  by (induction xs arbitrary: st) (auto split: sum.split)

lemma poll_rounds_all: "poll_rounds H resume rounds st = poll_all H resume (heard rounds) st"
  by (induction H resume rounds st rule: poll_rounds.induct) (auto simp: heard_def poll_all_append split: sum.split)

text \<open>
  C5. A watched file that only grows is never stored twice or out of order. Let the rounds see it in any states it grows
  through, among polls of other files, with polls that cannot read its size or cannot open it, and let them be stopped
  anywhere. Then there is a place in the file before which all stored bytes of its source come from, in the order of
  the file; if every poll of it could open it, the stored bytes are exactly the file up to that place, with nothing
  lost across the cuts; and once three polls have opened it whole and unchanged, and none was told to stop, the place is
  its end. What is lost to a poll that could not open the file is what \<open>unreadable_file_skipped\<close> shows. The bounds are
  those of the store's format (\<open>ob_ok\<close>, \<open>room\<close>).
\<close>

theorem tailed_exactly_once:
  assumes "store_repr H (ig_store s) es" "\<forall>ob \<in> set (heard rounds). ob_ok ob" "room es (sum_list (map ob_bytes (heard rounds)))"
    and "heard rounds = map fst seen" "follows p src name cur seen"
    and "concat (source_bytes src es) = take (resume_offset resume name) cur" "resume_offset resume name \<le> length cur"
  shows "\<exists>fs s' new. poll_rounds H resume rounds (\<lambda>_. None, s) = Inr (fs, s') \<and> store_repr H (ig_store s') (es @ new) \<and>
    (let now = latest p cur seen; k = read_to fs p (resume_offset resume name); stored = concat (source_bytes src (es @ new))
     in k \<le> length now \<and> subseq stored (take k now) \<and>
       (opened p (heard rounds) \<longrightarrow> stored = take k now) \<and>
       (quiet_polls p now 0 (heard rounds) = 3 \<and> (\<forall>ob \<in> set (heard rounds). \<forall>k. \<not> ij_stopped (ob_job ob) k) \<longrightarrow> k = length now))"
proof -
  define now where "now = latest p cur seen"
  define calm where "calm \<longleftrightarrow> (\<forall>ob \<in> set (heard rounds). \<forall>k. \<not> ij_stopped (ob_job ob) k)"
  define whole where "whole \<longleftrightarrow> opened p (heard rounds)"
  have t: "tracked whole calm p src (resume_offset resume name) cur now 0 (\<lambda>_. None) es"
    using assms(6,7) by (simp add: tracked_def read_to_def)
  have c: "calm \<Longrightarrow> \<forall>ob \<in> set (map fst seen). ob_path ob = p \<longrightarrow> (\<forall>k. \<not> ij_stopped (ob_job ob) k)"
    "whole \<Longrightarrow> opened p (map fst seen)" by (simp_all add: calm_def whole_def flip: assms(4))
  from poll_all_tracks [OF assms(1) assms(2,3) [unfolded assms(4)] assms(5) t c] obtain fs s' new where
    r: "poll_all H resume (heard rounds) (\<lambda>_. None, s) = Inr (fs, s')" "store_repr H (ig_store s') (es @ new)"
      "tracked whole calm p src (resume_offset resume name) now now (quiet_polls p now 0 (heard rounds)) fs (es @ new)"
    unfolding now_def assms(4) by blast
  have "read_to fs p (resume_offset resume name) = length now" if "quiet_polls p now 0 (heard rounds) = 3" calm
  proof -
    from r(3) that obtain t where "fs p = Some t" "level_ok now 3 t" by (auto simp: tracked_def)
    then show ?thesis by (auto simp: read_to_def level_ok_def)
  qed
  then show ?thesis using r unfolding poll_rounds_all now_def [symmetric] calm_def whole_def Let_def
    by (intro exI [of _ fs] exI [of _ s'] exI [of _ new]) (auto simp: tracked_def)
qed

subsection \<open>What polling does not keep apart\<close>

text \<open>A file that cannot be opened counts as read up to its size: what it held is never ingested.\<close>

lemma unreadable_file_skipped:
  assumes "ob_content ob = None" "2 \<le> tf_stable t \<or> 4 \<le> tf_growing t"
  shows "poll_read H ob sz t s = Inr (t\<lparr>tf_consumed := sz\<rparr>, s)"
  using assms by (auto simp: poll_read_def ingest_file_def)

text \<open>Files of the same name under two roots are one source, with one offset to resume at.\<close>

lemma two_roots_one_source:
  "root \<noteq> root' \<Longrightarrow> source_name root (root @ [f]) = source_name root' (root' @ [f])"
  by (simp add: source_name_def)

subsection \<open>A batch run\<close>

text \<open>The store holds the first events of the file under its source, as the offset it is resumed at says.\<close>

definition begun :: "(bytes \<times> nat) list \<Rightarrow> bytes \<Rightarrow> nat \<Rightarrow> bytes \<Rightarrow> event list \<Rightarrow> bool" where
  "begun resume name src c es \<longleftrightarrow>
     resume_offset resume name = held src es \<and> (\<exists>n. source_bytes src es = take n (split_events c))"

lemma other_source: "events_of j new \<Longrightarrow> ij_source j \<noteq> src \<Longrightarrow> source_bytes src new = []"
  by (auto simp: events_of_def source_bytes_def list_all_iff filter_empty_conv)

lemma own_source: "events_of j new \<Longrightarrow> source_bytes (ij_source j) new = map ev_bytes new"
  by (simp add: events_of_def source_bytes_def list_all_iff)

lemma ingest_one:
  assumes "job_ok j" "\<forall>k. \<not> ij_stopped j k" "store_repr H (ig_store s) es" "room es (n + length c)" "short_events c"
    and "begun resume name (ij_source j) c es"
  shows "\<exists>r s' new. ingest_file H j (Some c) (resume_offset resume name) True s = Inr (r, s') \<and> store_repr H (ig_store s') (es @ new) \<and>
    events_of j new \<and> room (es @ new) n \<and> source_bytes (ij_source j) (es @ new) = split_events c"
proof -
  let ?src = "ij_source j" and ?k = "resume_offset resume name"
  let ?E = "events_in True (drop ?k c)"
  from assms(6) obtain m0 where b: "?k = held ?src es" "source_bytes ?src es = take m0 (split_events c)" by (auto simp: begun_def)
  have E: "?E = drop m0 (split_events c)" unfolding b(1) held_def b(2) events_in_def by (simp add: split_events_drop)
  have short: "\<forall>b \<in> set ?E. b \<noteq> [] \<and> length b < 2 ^ 32" by (rule events_in_short [OF assms(5)])
  have le: "length (concat ?E) \<le> length c" by (simp add: events_in_def concat_split_events)
  then have "fits es ?E" using room_fits [OF assms(4) short] by simp
  from ingest_takes [OF assms(1,3) this] assms(2) obtain r s' new where
    y: "ingest_file H j (Some c) ?k True s = Inr (r, s')" "store_repr H (ig_store s') (es @ new)" "events_of j new" "map ev_bytes new = ?E"
    by force
  have "room (es @ new) n"
    using room_after [OF assms(4), of new] y(3,4) short le by (simp add: events_of_def)
  moreover have "source_bytes ?src (es @ new) = split_events c" using b(2) y(4) own_source [OF y(3)] by (simp add: E)
  ultimately show ?thesis using y(1-3) by blast
qed

text \<open>
  C6. A batch run stores every file whole. When its files have different names, and so different sources, and the
  store holds a beginning of each, as after any interruption, then running over them stores of each exactly the events
  that are missing: under every source there are then the events of its file, once each and in order.
\<close>

theorem run_stores_every_file:
  assumes "store_repr H (ig_store s) es" "distinct (map snd files)" "inj_on (\<lambda>n. ij_source (job n)) (snd ` set files)"
    and "\<forall>(p, name) \<in> set files. job_ok (job name) \<and> (\<forall>k. \<not> ij_stopped (job name) k) \<and>
      (\<exists>c. read p = Some c \<and> short_events c \<and> begun resume name (ij_source (job name)) c es)"
    and "room es (sum_list (map (\<lambda>(p, name). length (the (read p))) files))"
  shows "\<exists>s' new. ingest_inputs H job read resume files s = Inr s' \<and> store_repr H (ig_store s') (es @ new) \<and>
    (\<forall>src. src \<notin> (\<lambda>(p, name). ij_source (job name)) ` set files \<longrightarrow> source_bytes src new = []) \<and>
    (\<forall>(p, name) \<in> set files. source_bytes (ij_source (job name)) (es @ new) = split_events (the (read p)))"
  using assms
proof (induction files arbitrary: s es)
  case Nil
  then show ?case by (intro exI [of _ s] exI [of _ "[]"]) (simp add: source_bytes_def)
next
  case (Cons f fs)
  obtain p name where f: "f = (p, name)" by fastforce
  let ?j = "job name"
  from Cons.prems(4) f obtain c where c: "job_ok ?j" "\<forall>k. \<not> ij_stopped ?j k" "read p = Some c" "short_events c"
    "begun resume name (ij_source ?j) c es" by auto
  have "room es (sum_list (map (\<lambda>(p, name). length (the (read p))) fs) + length c)"
    using Cons.prems(5) f c(3) by (simp add: add.commute)
  from ingest_one [OF c(1,2) Cons.prems(1) this c(4,5)] obtain r s1 new1 where
    o: "ingest_file H ?j (Some c) (resume_offset resume name) True s = Inr (r, s1)" "store_repr H (ig_store s1) (es @ new1)"
      "events_of ?j new1" "room (es @ new1) (sum_list (map (\<lambda>(p, name). length (the (read p))) fs))"
      "source_bytes (ij_source ?j) (es @ new1) = split_events c" by blast
  have other: "ij_source (job nm) \<noteq> ij_source ?j" if "(q, nm) \<in> set fs" for q nm
  proof -
    have "nm \<noteq> name" using Cons.prems(2) f that by force
    then show ?thesis using Cons.prems(3) f that by (force simp: inj_on_def)
  qed
  have keep: "begun resume nm (ij_source (job nm)) c' (es @ new1)" if "(q, nm) \<in> set fs" "begun resume nm (ij_source (job nm)) c' es" for q nm c'
    using that(2) other_source [OF o(3), of "ij_source (job nm)"] other [OF that(1)]
    by (auto simp: begun_def held_def)
  have pre: "\<forall>(p, name) \<in> set fs. job_ok (job name) \<and> (\<forall>k. \<not> ij_stopped (job name) k) \<and>
      (\<exists>c. read p = Some c \<and> short_events c \<and> begun resume name (ij_source (job name)) c (es @ new1))"
  proof (intro ballI, clarify)
    fix q nm assume q: "(q, nm) \<in> set fs"
    with Cons.prems(4) obtain c' where "job_ok (job nm)" "\<forall>k. \<not> ij_stopped (job nm) k" "read q = Some c'" "short_events c'"
      "begun resume nm (ij_source (job nm)) c' es" by fastforce
    with keep [OF q] show "job_ok (job nm) \<and> (\<forall>k. \<not> ij_stopped (job nm) k) \<and>
        (\<exists>c. read q = Some c \<and> short_events c \<and> begun resume nm (ij_source (job nm)) c (es @ new1))" by blast
  qed
  have inj: "inj_on (\<lambda>n. ij_source (job n)) (snd ` set fs)" "distinct (map snd fs)"
    using Cons.prems(2,3) by (auto intro: inj_on_subset)
  from Cons.IH [OF o(2) inj(2,1) pre o(4)] obtain s' new where
    n: "ingest_inputs H job read resume fs s1 = Inr s'" "store_repr H (ig_store s') ((es @ new1) @ new)"
      "\<forall>src. src \<notin> (\<lambda>(p, name). ij_source (job name)) ` set fs \<longrightarrow> source_bytes src new = []"
      "\<forall>(p, name) \<in> set fs. source_bytes (ij_source (job name)) ((es @ new1) @ new) = split_events (the (read p))" by blast
  have own: "source_bytes (ij_source ?j) new = []" using n(3) other by force
  then have "source_bytes (ij_source ?j) (es @ new1 @ new) = split_events (the (read p))" using o(5) c(3) by simp
  moreover have "source_bytes src (new1 @ new) = []" if "src \<notin> (\<lambda>(p, name). ij_source (job name)) ` set (f # fs)" for src
    using that n(3) other_source [OF o(3), of src] f by auto
  ultimately show ?case using o(1) c(3) n(1,2,4) f
    by (intro exI [of _ s'] exI [of _ "new1 @ new"]) auto
qed

subsection \<open>Small inputs\<close>

definition seen_whole :: "bytes \<Rightarrow> observation" where
  "seen_whole c = \<lparr>ob_path = [''w'', ''fw.log''], ob_job = sample_job, ob_size = Some (length c), ob_content = Some c\<rparr>"

lemma sample_job_runs: "job_ok sample_job" "\<not> ij_stopped sample_job k"
  by (simp_all add: job_ok_def sample_job_def i64_ok_def)

lemma empty_room: "room [] n \<longleftrightarrow> 8 + (header_len + 1) * n < 2 ^ 64"
  by (auto simp: room_def log_ok_def rec_off_def)

theorem tailed_exactly_once_witness:
  "\<exists>fs s' new. poll_rounds tail_hash [] [(False, [seen_whole ''x'']), (False, [seen_whole ''xy'']), (False, [seen_whole ''xy'']),
      (False, [seen_whole ''xy'']), (True, [seen_whole ''xyz''])] (\<lambda>_. None, \<lparr>ig_store = fresh_store, ig_seq = 0, ig_sent = []\<rparr>) =
    Inr (fs, s') \<and> store_repr tail_hash (ig_store s') new \<and> concat (source_bytes 1 new) = ''xy''"
proof -
  let ?p = "[''w'', ''fw.log'']"
  let ?r = "[(False, [seen_whole ''x'']), (False, [seen_whole ''xy'']), (False, [seen_whole ''xy'']), (False, [seen_whole ''xy'']),
    (True, [seen_whole ''xyz''])]"
  let ?seen = "[(seen_whole ''x'', ''x''), (seen_whole ''xy'', ''xy''), (seen_whole ''xy'', ''xy''), (seen_whole ''xy'', ''xy'')]"
  have h: "heard ?r = [seen_whole ''x'', seen_whole ''xy'', seen_whole ''xy'', seen_whole ''xy'']" by (simp add: heard_def)
  have n: "heard ?r = map fst ?seen" "latest ?p [] ?seen = ''xy''" "quiet_polls ?p ''xy'' 0 (heard ?r) = 3" "follows ?p 1 ''fw.log'' [] ?seen" "opened ?p (heard ?r)"
    unfolding h by (simp_all add: seen_whole_def sample_job_def opened_def)
  have ok: "\<forall>ob \<in> set (heard ?r). ob_ok ob" "\<forall>ob \<in> set (heard ?r). \<forall>k. \<not> ij_stopped (ob_job ob) k"
    unfolding h by (simp_all add: ob_ok_def seen_whole_def sample_job_runs short_events_short)
  have rm: "room [] (sum_list (map ob_bytes (heard ?r)))"
    unfolding h by (simp add: ob_bytes_def seen_whole_def empty_room header_len_def)
  have st: "store_repr tail_hash (ig_store \<lparr>ig_store = fresh_store, ig_seq = 0, ig_sent = []\<rparr>) []" using fresh_store_repr by simp
  have b: "concat (source_bytes 1 []) = take (resume_offset [] ''fw.log'') []" "resume_offset [] ''fw.log'' \<le> length []"
    by (simp_all add: source_bytes_def resume_offset_def)
  from tailed_exactly_once [OF st ok(1) rm n(1,4) b] show ?thesis unfolding n(2) Let_def using n(3,5) ok(2) by auto
qed

definition two_jobs :: "bytes \<Rightarrow> job" where
  "two_jobs name = sample_job\<lparr>ij_source := (if name = ''a'' then 1 else 2), ij_name := name\<rparr>"

theorem run_stores_every_file_witness:
  "\<exists>s' new. ingest_inputs tail_hash two_jobs [[''a''] \<mapsto> ''x'' @ [LF], [''b''] \<mapsto> ''y''] [] [([''a''], ''a''), ([''b''], ''b'')]
      \<lparr>ig_store = fresh_store, ig_seq = 0, ig_sent = []\<rparr> = Inr s' \<and> store_repr tail_hash (ig_store s') new \<and>
    source_bytes 1 new = [''x'' @ [LF]] \<and> source_bytes 2 new = [''y'']"
proof -
  let ?fs = "[([''a''], ''a''), ([''b''], ''b'')]" and ?read = "[[''a''] \<mapsto> ''x'' @ [LF], [''b''] \<mapsto> ''y'']"
  have e: "split_events (''x'' @ [LF]) = [''x'' @ [LF]]" "split_events ''y'' = [''y'']" by code_simp+
  have st: "store_repr tail_hash (ig_store \<lparr>ig_store = fresh_store, ig_seq = 0, ig_sent = []\<rparr>) []" using fresh_store_repr by simp
  have d: "distinct (map snd ?fs)" "inj_on (\<lambda>n. ij_source (two_jobs n)) (snd ` set ?fs)" by (simp_all add: two_jobs_def inj_on_def)
  have b: "begun [] name src c []" for name src c
    by (auto simp: begun_def resume_offset_def held_def source_bytes_def intro: exI [of _ 0])
  have j: "job_ok (two_jobs n) \<and> (\<forall>k. \<not> ij_stopped (two_jobs n) k)" for n
    by (simp add: two_jobs_def job_ok_def sample_job_def i64_ok_def)
  have ok: "\<forall>(p, name) \<in> set ?fs. job_ok (two_jobs name) \<and> (\<forall>k. \<not> ij_stopped (two_jobs name) k) \<and>
      (\<exists>c. ?read p = Some c \<and> short_events c \<and> begun [] name (ij_source (two_jobs name)) c [])"
    using j b by (simp add: short_events_short)
  have rm: "room [] (sum_list (map (\<lambda>(p, name). length (the (?read p))) ?fs))" by (simp add: empty_room header_len_def)
  from run_stores_every_file [OF st d ok rm] obtain s' new where
    r: "ingest_inputs tail_hash two_jobs ?read [] ?fs \<lparr>ig_store = fresh_store, ig_seq = 0, ig_sent = []\<rparr> = Inr s'"
      "store_repr tail_hash (ig_store s') ([] @ new)"
      "\<forall>(p, name) \<in> set ?fs. source_bytes (ij_source (two_jobs name)) ([] @ new) = split_events (the (?read p))" by blast
  have v: "ij_source (two_jobs ''a'') = 1" "ij_source (two_jobs ''b'') = 2" "the (?read [''a'']) = ''x'' @ [LF]" "the (?read [''b'']) = ''y''"
    by (simp_all add: two_jobs_def)
  have "([''a''], ''a'') \<in> set ?fs" "([''b''], ''b'') \<in> set ?fs" by simp_all
  note r(3) [THEN bspec, OF this(1), unfolded prod.case v e append_Nil] r(3) [THEN bspec, OF this(2), unfolded prod.case v e append_Nil]
  with r(1,2) show ?thesis by (metis append_Nil)
qed

end
