(* ===== verification/Ulpf_Pivot.thy ===== *)
theory Ulpf_Pivot
  imports Ulpf_Output
begin

text \<open>
  The writer of the entity index, \<open>src/crates/ulpf/src/pivot.rs\<close>: \<open>BatchBuf\<close>, the packed entries of a posting row, and
  \<open>Writer::write\<close> with its dictionaries, groups and one transaction. A table is the list of its rows in the order they were
  inserted, and the SQL statements of the source are what they say on lists: \<open>INSERT OR IGNORE\<close> keeps a known name,
  \<open>ON CONFLICT DO UPDATE\<close> merges into the row of the key. The id of a name is its place in the dictionary, from 1, as nothing
  is ever deleted. The groups are visited in the order of their first event; the hash map has no order, and no two groups share a key.
\<close>

subsection \<open>A batch on its way to the writer\<close>

record pivot_rec =
  pr_id :: nat
  pr_time :: int
  pr_kind :: nat
  pr_offset :: nat
  pr_len :: nat
  pr_value :: "nat \<times> nat"
  pr_device :: "nat \<times> nat"
  pr_parser :: "nat \<times> nat"

record batch_buf =
  bb_recs :: "pivot_rec list"
  bb_bytes :: bytes

definition kind_code :: "entity_kind \<Rightarrow> nat" where
  "kind_code k = (case k of SrcIp \<Rightarrow> 0 | DstIp \<Rightarrow> 1 | User \<Rightarrow> 2 | DstPort \<Rightarrow> 3 | Device \<Rightarrow> 4)"

definition buf_put :: "bytes \<Rightarrow> batch_buf \<Rightarrow> (nat \<times> nat) \<times> batch_buf" where
  "buf_put b buf = ((u32 (length (bb_bytes buf)), u32 (length b)), buf\<lparr>bb_bytes := bb_bytes buf @ b\<rparr>)"

definition buf_push :: "posting \<Rightarrow> batch_buf \<Rightarrow> batch_buf" where
  "buf_push p buf =
     (case buf_put (po_value p) buf of (v, b1) \<Rightarrow>
      case buf_put (po_device p) b1 of (d, b2) \<Rightarrow>
      case buf_put (case po_parser p of Some n \<Rightarrow> n | None \<Rightarrow> []) b2 of (n, b3) \<Rightarrow>
        b3\<lparr>bb_recs := bb_recs b3 @
          [\<lparr>pr_id = po_id p, pr_time = po_time p, pr_kind = kind_code (po_kind p), pr_offset = po_offset p, pr_len = po_len p,
            pr_value = v, pr_device = d, pr_parser = n\<rparr>]\<rparr>)"

definition buf_slice :: "batch_buf \<Rightarrow> nat \<times> nat \<Rightarrow> bytes" where
  "buf_slice buf r = slice (fst r) (fst r + snd r) (bb_bytes buf)"

definition buf_of :: "posting list \<Rightarrow> batch_buf" where
  "buf_of ps = fold buf_push ps \<lparr>bb_recs = [], bb_bytes = []\<rparr>"

subsection \<open>Packed entries\<close>

record pivot_entry =
  pe_id :: nat
  pe_time :: int
  pe_offset :: nat
  pe_len :: nat
  pe_device :: nat
  pe_parser :: nat

definition entry_len :: nat where "entry_len = 8 + 8 + 8 + 4 + 4 + 2"
definition no_parser :: nat where "no_parser = 65535"

definition entry_bytes :: "pivot_entry \<Rightarrow> bytes" where
  "entry_bytes e = le_bytes 8 (pe_id e) @ le_bytes 8 (i64_bits (pe_time e)) @ le_bytes 8 (pe_offset e) @
     le_bytes 4 (pe_len e) @ le_bytes 4 (pe_device e) @ le_bytes 2 (pe_parser e)"

definition decode_entry :: "bytes \<Rightarrow> pivot_entry" where
  "decode_entry c =
     \<lparr>pe_id = le_val (slice 0 8 c), pe_time = i64_of_bits (le_val (slice 8 16 c)), pe_offset = le_val (slice 16 24 c),
      pe_len = le_val (slice 24 28 c), pe_device = le_val (slice 28 32 c), pe_parser = le_val (slice 32 34 c)\<rparr>"

function decode_entries :: "bytes \<Rightarrow> pivot_entry list" where
  "decode_entries b = (if length b < entry_len then [] else decode_entry (take entry_len b) # decode_entries (drop entry_len b))"
  by pat_completeness auto
termination by (relation "measure length") (auto simp: entry_len_def)

declare decode_entries.simps [simp del]

subsection \<open>The tables\<close>

record posting_row =
  pw_kind :: nat
  pw_value :: bytes
  pw_first :: int
  pw_last :: int
  pw_n :: nat
  pw_blob :: bytes

record entity_row =
  er_events :: nat
  er_first :: int
  er_last :: int

type_synonym entity_key = "nat \<times> bytes"

record pivot_index =
  ix_postings :: "posting_row list"
  ix_devices :: "bytes list"
  ix_parsers :: "bytes list"
  ix_entities :: "(entity_key \<times> entity_row) list"
  ix_pairs :: "((entity_key \<times> nat \<times> int) \<times> nat) list"
  ix_span :: "nat option"

definition index_new :: pivot_index where
  "index_new = \<lparr>ix_postings = [], ix_devices = [], ix_parsers = [], ix_entities = [], ix_pairs = [], ix_span = None\<rparr>"

definition intern :: "bytes \<Rightarrow> bytes list \<Rightarrow> bytes list" where
  "intern name ns = (if name \<in> set ns then ns else ns @ [name])"

definition row_id :: "bytes \<Rightarrow> bytes list \<Rightarrow> nat" where
  "row_id name ns = (case position (\<lambda>n. n = name) ns of Some i \<Rightarrow> i + 1 | None \<Rightarrow> 0)"

subsection \<open>The writer\<close>

record pivot_writer =
  wr_index :: pivot_index
  wr_devices :: "(bytes \<times> nat) list"
  wr_parsers :: "(bytes \<times> nat) list"
  wr_span :: nat

definition writer_on :: "pivot_index \<Rightarrow> pivot_writer" where
  "writer_on ix = \<lparr>wr_index = ix, wr_devices = [], wr_parsers = [], wr_span = 0\<rparr>"

definition device_id :: "bytes \<Rightarrow> pivot_writer \<Rightarrow> nat \<times> pivot_writer" where
  "device_id name w =
     (case map_of (wr_devices w) name of
        Some i \<Rightarrow> (i, w)
      | None \<Rightarrow>
          let ns = intern name (ix_devices (wr_index w)); i = row_id name ns in
          (i, w\<lparr>wr_index := (wr_index w)\<lparr>ix_devices := ns\<rparr>, wr_devices := (name, i) # wr_devices w\<rparr>))"

definition parser_id :: "bytes \<Rightarrow> pivot_writer \<Rightarrow> nat \<times> pivot_writer" where
  "parser_id name w =
     (case map_of (wr_parsers w) name of
        Some i \<Rightarrow> (i, w)
      | None \<Rightarrow>
          let ns = intern name (ix_parsers (wr_index w)); i = row_id name ns in
          (i, w\<lparr>wr_index := (wr_index w)\<lparr>ix_parsers := ns\<rparr>, wr_parsers := (name, i) # wr_parsers w\<rparr>))"

definition rec_ids :: "batch_buf \<times> pivot_rec \<Rightarrow> pivot_writer \<Rightarrow> (nat \<times> int) \<times> pivot_writer" where
  "rec_ids item w =
     (case item of (b, r) \<Rightarrow>
      case device_id (buf_slice b (pr_device r)) w of (d, w1) \<Rightarrow>
      if snd (pr_parser r) = 0 then ((u32 d, - 1), w1)
      else case parser_id (utf8_lossy (buf_slice b (pr_parser r))) w1 of (p, w2) \<Rightarrow> ((u32 d, int p), w2))"

fun all_ids :: "(batch_buf \<times> pivot_rec) list \<Rightarrow> pivot_writer \<Rightarrow> (nat \<times> int) list \<times> pivot_writer" where
  "all_ids [] w = ([], w)"
| "all_ids (x # xs) w = (case rec_ids x w of (d, w1) \<Rightarrow> case all_ids xs w1 of (ds, w2) \<Rightarrow> (d # ds, w2))"

record pivot_group =
  gr_blob :: bytes
  gr_n :: nat
  gr_first_id :: nat
  gr_last_id :: nat
  gr_first_time :: int
  gr_last_time :: int
  gr_devices :: "((nat \<times> int) \<times> nat) list"

definition group_new :: pivot_group where
  "group_new = \<lparr>gr_blob = [], gr_n = 0, gr_first_id = 0, gr_last_id = 0, gr_first_time = 0, gr_last_time = 0, gr_devices = []\<rparr>"

text \<open>\<open>entry(k).or_default()\<close> of a hash map, changed in place.\<close>

definition or_default :: "'k \<Rightarrow> 'v \<Rightarrow> ('v \<Rightarrow> 'v) \<Rightarrow> ('k \<times> 'v) list \<Rightarrow> ('k \<times> 'v) list" where
  "or_default k d f m = AList.update k (f (case map_of m k of Some v \<Rightarrow> v | None \<Rightarrow> d)) m"

definition group_add :: "pivot_rec \<Rightarrow> nat \<times> int \<Rightarrow> pivot_group \<Rightarrow> pivot_group" where
  "group_add r ids g0 =
     (let g = (if gr_n g0 = 0 then g0\<lparr>gr_first_id := pr_id r, gr_first_time := pr_time r, gr_last_time := pr_time r\<rparr> else g0) in
      g\<lparr>gr_n := gr_n g + 1, gr_last_id := max (gr_last_id g) (pr_id r), gr_first_id := min (gr_first_id g) (pr_id r),
        gr_first_time := min (gr_first_time g) (pr_time r), gr_last_time := max (gr_last_time g) (pr_time r),
        gr_blob := gr_blob g @ entry_bytes \<lparr>pe_id = pr_id r, pe_time = pr_time r, pe_offset = pr_offset r, pe_len = pr_len r,
          pe_device = fst ids, pe_parser = (if snd ids < 0 then no_parser else nat (snd ids) mod 2 ^ 16)\<rparr>,
        gr_devices := or_default ids 0 Suc (gr_devices g)\<rparr>)"

definition add_rec ::
  "(batch_buf \<times> pivot_rec) \<times> nat \<times> int \<Rightarrow> (entity_key \<times> pivot_group) list \<times> nat \<Rightarrow> (entity_key \<times> pivot_group) list \<times> nat" where
  "add_rec x s =
     (case x of ((b, r), ids) \<Rightarrow>
      let key = (pr_kind r, buf_slice b (pr_value r)); gs = or_default key group_new (group_add r ids) (fst s) in
      case map_of gs key of Some g \<Rightarrow> (gs, max (snd s) (gr_last_id g - gr_first_id g)) | None \<Rightarrow> (gs, snd s))"

definition upsert :: "'k \<Rightarrow> 'v \<Rightarrow> ('v \<Rightarrow> 'v) \<Rightarrow> ('k \<times> 'v) list \<Rightarrow> ('k \<times> 'v) list" where
  "upsert k v f m = AList.update k (case map_of m k of None \<Rightarrow> v | Some old \<Rightarrow> f old) m"

definition insert_group :: "entity_key \<times> pivot_group \<Rightarrow> pivot_index \<Rightarrow> pivot_index" where
  "insert_group x ix =
     (case x of (key, g) \<Rightarrow>
      ix\<lparr>ix_postings := ix_postings ix @ [\<lparr>pw_kind = fst key, pw_value = snd key, pw_first = i64_of_bits (gr_first_id g),
           pw_last = i64_of_bits (gr_last_id g), pw_n = gr_n g, pw_blob = gr_blob g\<rparr>],
         ix_entities := upsert key \<lparr>er_events = gr_n g, er_first = gr_first_time g, er_last = gr_last_time g\<rparr>
           (\<lambda>e. \<lparr>er_events = er_events e + gr_n g, er_first = min (er_first e) (gr_first_time g), er_last = max (er_last e) (gr_last_time g)\<rparr>)
           (ix_entities ix),
         ix_pairs := fold (\<lambda>(ids, n). upsert (key, ids) n (\<lambda>m. m + n)) (gr_devices g) (ix_pairs ix)\<rparr>)"

definition write_groups :: "(entity_key \<times> pivot_group) list \<Rightarrow> nat \<Rightarrow> pivot_index \<Rightarrow> pivot_index" where
  "write_groups gs span ix =
     (let ix1 = fold insert_group gs ix in ix1\<lparr>ix_span := Some (case ix_span ix1 of None \<Rightarrow> span | Some s \<Rightarrow> max s span)\<rparr>)"

text \<open>A statement of a dictionary fails at some event, or any statement of the transaction does.\<close>

datatype sql_fault = Dict_fault nat | Tx_fault

definition pivot_write :: "sql_fault option \<Rightarrow> batch_buf list \<Rightarrow> pivot_writer \<Rightarrow> nat option \<times> pivot_writer" where
  "pivot_write fault batches w =
     (let items = concat (map (\<lambda>b. map (Pair b) (bb_recs b)) batches) in
      case fault of
        Some (Dict_fault j) \<Rightarrow> (None, snd (all_ids (take j items) w))
      | _ \<Rightarrow>
          case all_ids items w of (ids, w1) \<Rightarrow>
          case fold add_rec (zip items ids) ([], wr_span w1) of (gs, span) \<Rightarrow>
          let w2 = w1\<lparr>wr_span := span\<rparr> in
          if fault = Some Tx_fault then (None, w2)
          else (Some (length items), w2\<lparr>wr_index := write_groups gs span (wr_index w2)\<rparr>))"

record pivot_counters =
  pc_batches :: nat
  pc_postings :: nat
  pc_blocked :: nat
  pc_errors :: nat

text \<open>One turn of the thread: the batches it drained from the queue are one group.\<close>

definition write_round :: "batch_buf list \<times> sql_fault option \<Rightarrow> pivot_writer \<times> pivot_counters \<Rightarrow> pivot_writer \<times> pivot_counters" where
  "write_round x s =
     (case x of (drained, fault) \<Rightarrow>
      case s of (w, c) \<Rightarrow>
      case pivot_write fault drained w of
        (Some n, w1) \<Rightarrow> (w1, c\<lparr>pc_batches := pc_batches c + length drained, pc_postings := pc_postings c + n\<rparr>)
      | (None, w1) \<Rightarrow> (w1, c\<lparr>pc_errors := pc_errors c + 1\<rparr>))"

definition pivot_thread :: "(batch_buf list \<times> sql_fault option) list \<Rightarrow> pivot_index \<Rightarrow> pivot_writer \<times> pivot_counters" where
  "pivot_thread rounds ix =
     fold write_round rounds (writer_on ix, \<lparr>pc_batches = 0, pc_postings = 0, pc_blocked = 0, pc_errors = 0\<rparr>)"

text \<open>
  What \<open>push_batch\<close> puts into the queue and counts. \<open>full\<close> says that the queue had no room, so that the call waits, and \<open>gone\<close>
  that the writer thread is dead when the batch is offered at last.
\<close>

definition pivot_push_batch :: "bool \<Rightarrow> bool \<Rightarrow> posting list \<Rightarrow> batch_buf list \<times> pivot_counters \<Rightarrow> batch_buf list \<times> pivot_counters" where
  "pivot_push_batch full gone ps s =
     (if ps = [] then s
      else case s of (queue, c) \<Rightarrow>
        let c1 = (if full then c\<lparr>pc_blocked := pc_blocked c + 1\<rparr> else c) in
        if gone then (queue, c1\<lparr>pc_errors := pc_errors c1 + 1\<rparr>) else (queue @ [buf_of ps], c1))"

end
