(* ===== verification/Ulpf_Index.thy ===== *)
theory Ulpf_Index
  imports Ulpf_Pivot
begin

text \<open>
  What the entity index holds. \<open>index_holds\<close> relates its tables to the postings written: the rows of a key, decoded and put one
  behind the other, are its postings in order, the counts and times of an entity are theirs, the counts of its devices and
  parsers add up, and no row spans more ids than the span kept in \<open>meta\<close>, from which a scan for related values starts.
\<close>

subsection \<open>Buffers hold the postings\<close>

text \<open>Ids, offsets and lengths within their integers; a parser has a name.\<close>

definition posting_ok :: "posting \<Rightarrow> bool" where
  "posting_ok p \<longleftrightarrow> po_id p < 2 ^ 63 \<and> i64_ok (po_time p) \<and> po_offset p < 2 ^ 64 \<and> po_len p < 2 ^ 32 \<and>
     (case po_parser p of None \<Rightarrow> True | Some n \<Rightarrow> n \<noteq> [] \<and> utf8_lossy n = n)"

definition posting_size :: "posting \<Rightarrow> nat" where
  "posting_size p = length (po_value p) + length (po_device p) + (case po_parser p of None \<Rightarrow> 0 | Some n \<Rightarrow> length n)"

definition batch_ok :: "posting list \<Rightarrow> bool" where
  "batch_ok ps \<longleftrightarrow> list_all posting_ok ps \<and> sum_list (map posting_size ps) < 2 ^ 32"

definition in_buf :: "batch_buf \<Rightarrow> nat \<times> nat \<Rightarrow> bool" where
  "in_buf buf r \<longleftrightarrow> fst r + snd r \<le> length (bb_bytes buf)"

definition rec_in :: "batch_buf \<Rightarrow> pivot_rec \<Rightarrow> bool" where
  "rec_in buf r \<longleftrightarrow> in_buf buf (pr_value r) \<and> in_buf buf (pr_device r) \<and> in_buf buf (pr_parser r) \<and> pr_kind r < 5"

definition rec_view :: "batch_buf \<Rightarrow> pivot_rec \<Rightarrow> posting" where
  "rec_view buf r =
     \<lparr>po_id = pr_id r, po_time = pr_time r, po_kind = all_entities ! pr_kind r, po_value = buf_slice buf (pr_value r),
      po_device = buf_slice buf (pr_device r),
      po_parser = (if snd (pr_parser r) = 0 then None else Some (utf8_lossy (buf_slice buf (pr_parser r)))),
      po_offset = pr_offset r, po_len = pr_len r\<rparr>"

lemma kind_code_less: "kind_code k < 5"
  by (cases k) (simp_all add: kind_code_def)

lemma kind_of_code [simp]: "all_entities ! kind_code k = k"
  by (cases k) (simp_all add: kind_code_def all_entities_def)

lemma code_of_kind: "n < 5 \<Longrightarrow> kind_code (all_entities ! n) = n"
proof -
  assume "n < 5"
  then have "n = 0 \<or> n = 1 \<or> n = 2 \<or> n = 3 \<or> n = 4" by arith
  then show ?thesis by (auto simp: kind_code_def all_entities_def)
qed

lemma kind_code_inj: "kind_code a = kind_code b \<longleftrightarrow> a = b"
  by (metis kind_of_code)

lemma slice_of_appended: "in_buf buf r \<Longrightarrow> buf_slice (buf\<lparr>bb_bytes := bb_bytes buf @ x, bb_recs := y\<rparr>) r = buf_slice buf r"
  by (simp add: buf_slice_def in_buf_def slice_append_left)

lemma rec_view_appended:
  "rec_in buf r \<Longrightarrow> rec_view (buf\<lparr>bb_bytes := bb_bytes buf @ x, bb_recs := y\<rparr>) r = rec_view buf r \<and>
     rec_in (buf\<lparr>bb_bytes := bb_bytes buf @ x, bb_recs := y\<rparr>) r"
  by (simp add: rec_view_def rec_in_def slice_of_appended) (simp add: in_buf_def)

lemma slice_mid: "slice (length a) (length a + length b) (a @ b @ c) = b"
  by (simp add: slice_def)

lemma buf_push_view:
  assumes "posting_ok p" "length (bb_bytes buf) + posting_size p < 2 ^ 32"
  defines "x \<equiv> po_value p @ po_device p @ (case po_parser p of Some n \<Rightarrow> n | None \<Rightarrow> [])"
  obtains r where "buf_push p buf = buf\<lparr>bb_bytes := bb_bytes buf @ x, bb_recs := bb_recs buf @ [r]\<rparr>"
    "rec_view (buf_push p buf) r = p" "rec_in (buf_push p buf) r"
proof -
  define n where "n = (case po_parser p of Some n \<Rightarrow> n | None \<Rightarrow> [])"
  define b where "b = bb_bytes buf"
  have lens: "length b + length (po_value p) + length (po_device p) + length n < 2 ^ 32"
    using assms(2) by (simp add: posting_size_def n_def b_def split: option.splits)
  have u: "u32 m = m" if "m \<le> length b + length (po_value p) + length (po_device p) + length n" for m
    using that lens by (simp add: u32_def)
  define r where "r = \<lparr>pr_id = po_id p, pr_time = po_time p, pr_kind = kind_code (po_kind p), pr_offset = po_offset p, pr_len = po_len p,
    pr_value = (length b, length (po_value p)), pr_device = (length b + length (po_value p), length (po_device p)),
    pr_parser = (length b + length (po_value p) + length (po_device p), length n)\<rparr>"
  have eq: "buf_push p buf = buf\<lparr>bb_bytes := bb_bytes buf @ x, bb_recs := bb_recs buf @ [r]\<rparr>"
    unfolding buf_push_def buf_put_def x_def r_def n_def [symmetric] b_def [symmetric]
    by (simp add: b_def [symmetric] u ac_simps)
  define q where "q = buf_push p buf"
  have bytes: "bb_bytes q = b @ po_value p @ po_device p @ n" unfolding q_def eq by (simp add: x_def n_def b_def)
  have "buf_slice q (pr_value r) = po_value p"
    unfolding buf_slice_def bytes r_def by (simp add: slice_mid)
  moreover have "buf_slice q (pr_device r) = po_device p"
    unfolding buf_slice_def bytes r_def using slice_mid [of "b @ po_value p" "po_device p" n] by simp
  moreover have "buf_slice q (pr_parser r) = n"
    unfolding buf_slice_def bytes r_def using slice_mid [of "b @ po_value p @ po_device p" n "[]"] by (simp add: ac_simps)
  moreover have "(if snd (pr_parser r) = 0 then None else Some (utf8_lossy n)) = po_parser p"
    using assms(1) by (auto simp: r_def n_def posting_ok_def split: option.splits)
  ultimately have "rec_view q r = p"
    by (intro posting.equality) (simp_all add: rec_view_def, simp_all add: r_def split: if_splits)
  moreover have "rec_in q r"
    by (simp add: rec_in_def in_buf_def bytes) (simp add: r_def kind_code_less)
  ultimately show thesis using that [OF eq] by (simp add: q_def)
qed

lemma fold_buf_push:
  assumes "list_all posting_ok ps" "length (bb_bytes buf) + sum_list (map posting_size ps) < 2 ^ 32" "list_all (rec_in buf) (bb_recs buf)"
  shows "map (rec_view (fold buf_push ps buf)) (bb_recs (fold buf_push ps buf)) = map (rec_view buf) (bb_recs buf) @ ps \<and>
    list_all (rec_in (fold buf_push ps buf)) (bb_recs (fold buf_push ps buf))"
  using assms
proof (induction ps arbitrary: buf)
  case Nil
  then show ?case by simp
next
  case (Cons p ps)
  define x where "x = po_value p @ po_device p @ (case po_parser p of Some n \<Rightarrow> n | None \<Rightarrow> [])"
  have len: "length x = posting_size p" by (simp add: x_def posting_size_def split: option.splits)
  obtain r where b: "buf_push p buf = buf\<lparr>bb_bytes := bb_bytes buf @ x, bb_recs := bb_recs buf @ [r]\<rparr>"
    and v: "rec_view (buf_push p buf) r = p" "rec_in (buf_push p buf) r"
    using buf_push_view [of p buf] Cons.prems unfolding x_def by auto
  have old: "rec_view (buf_push p buf) s = rec_view buf s \<and> rec_in (buf_push p buf) s" if "s \<in> set (bb_recs buf)" for s
    using rec_view_appended [where buf = buf and r = s and x = x and y = "bb_recs buf @ [r]"] Cons.prems(3) that by (simp add: b list_all_iff)
  have recs: "bb_recs (buf_push p buf) = bb_recs buf @ [r]" and bytes: "bb_bytes (buf_push p buf) = bb_bytes buf @ x" by (simp_all add: b)
  have "map (rec_view (buf_push p buf)) (bb_recs (buf_push p buf)) = map (rec_view buf) (bb_recs buf) @ [p]"
    using old v by (simp add: recs)
  moreover have "list_all (rec_in (buf_push p buf)) (bb_recs (buf_push p buf))"
    using old v by (simp add: recs list_all_iff)
  ultimately show ?case
    using Cons.IH [of "buf_push p buf"] Cons.prems(1,2) by (simp add: bytes len)
qed

lemma buf_of_view:
  assumes "batch_ok ps"
  shows "map (rec_view (buf_of ps)) (bb_recs (buf_of ps)) = ps" "list_all (rec_in (buf_of ps)) (bb_recs (buf_of ps))"
  using fold_buf_push [of ps "\<lparr>bb_recs = [], bb_bytes = []\<rparr>"] assms by (simp_all add: batch_ok_def buf_of_def)

subsection \<open>Packed entries are read back\<close>

definition entry_ok :: "pivot_entry \<Rightarrow> bool" where
  "entry_ok e \<longleftrightarrow> pe_id e < 2 ^ 64 \<and> i64_ok (pe_time e) \<and> pe_offset e < 2 ^ 64 \<and> pe_len e < 2 ^ 32 \<and> pe_device e < 2 ^ 32 \<and> pe_parser e < 2 ^ 16"

lemma entry_bytes_length [simp]: "length (entry_bytes e) = entry_len"
  by (simp add: entry_bytes_def entry_len_def)

lemma decode_entry_bytes:
  assumes "entry_ok e"
  shows "decode_entry (entry_bytes e) = e"
proof -
  let ?i = "le_bytes 8 (pe_id e)" and ?t = "le_bytes 8 (i64_bits (pe_time e))" and ?o = "le_bytes 8 (pe_offset e)"
    and ?l = "le_bytes 4 (pe_len e)" and ?d = "le_bytes 4 (pe_device e)" and ?p = "le_bytes 2 (pe_parser e)"
  define c where "c = entry_bytes e"
  have s: "slice 0 8 c = ?i" "slice 8 16 c = ?t" "slice 16 24 c = ?o" "slice 24 28 c = ?l" "slice 28 32 c = ?d" "slice 32 34 c = ?p"
    using slice_mid [of "[]" ?i "?t @ ?o @ ?l @ ?d @ ?p"] slice_mid [of ?i ?t "?o @ ?l @ ?d @ ?p"]
      slice_mid [of "?i @ ?t" ?o "?l @ ?d @ ?p"] slice_mid [of "?i @ ?t @ ?o" ?l "?d @ ?p"]
      slice_mid [of "?i @ ?t @ ?o @ ?l" ?d ?p] slice_mid [of "?i @ ?t @ ?o @ ?l @ ?d" ?p "[]"]
    by (simp_all add: c_def entry_bytes_def)
  have "le_val ?i = pe_id e" "le_val ?t = i64_bits (pe_time e)" "le_val ?o = pe_offset e" "le_val ?l = pe_len e"
    "le_val ?d = pe_device e" "le_val ?p = pe_parser e"
    using assms i64_bits_less [of "pe_time e"] by (simp_all add: le_val_le_bytes entry_ok_def)
  then show ?thesis
    using assms i64_of_bits_bits [of "pe_time e"] unfolding c_def [symmetric] decode_entry_def s by (simp add: entry_ok_def)
qed

lemma decode_entries_Nil [simp]: "decode_entries [] = []"
  by (simp add: decode_entries.simps entry_len_def)

lemma decode_entries_append:
  assumes "entry_ok e"
  shows "decode_entries (entry_bytes e @ rest) = e # decode_entries rest"
  by (subst decode_entries.simps) (simp add: decode_entry_bytes [OF assms])

lemma decode_entries_concat: "list_all entry_ok es \<Longrightarrow> decode_entries (concat (map entry_bytes es)) = es"
  by (induction es) (simp_all add: decode_entries_append)


subsection \<open>Dictionaries\<close>

definition cache_ok :: "(bytes \<times> nat) list \<Rightarrow> bytes list \<Rightarrow> bool" where
  "cache_ok c ns \<longleftrightarrow> (\<forall>x\<in>set c. fst x \<in> set ns \<and> snd x = row_id (fst x) ns)"

definition dict_ok :: "pivot_writer \<Rightarrow> bool" where
  "dict_ok w \<longleftrightarrow> cache_ok (wr_devices w) (ix_devices (wr_index w)) \<and> cache_ok (wr_parsers w) (ix_parsers (wr_index w))"

definition dict_grows :: "pivot_writer \<Rightarrow> pivot_writer \<Rightarrow> bool" where
  "dict_grows w w' \<longleftrightarrow> wr_span w' = wr_span w \<and>
     (\<exists>ds ns. wr_index w' = (wr_index w)\<lparr>ix_devices := ix_devices (wr_index w) @ ds, ix_parsers := ix_parsers (wr_index w) @ ns\<rparr>)"

definition named_in :: "pivot_index \<Rightarrow> posting \<Rightarrow> bool" where
  "named_in ix p \<longleftrightarrow> po_device p \<in> set (ix_devices ix) \<and> (case po_parser p of None \<Rightarrow> True | Some n \<Rightarrow> n \<in> set (ix_parsers ix))"

definition ids_in :: "pivot_index \<Rightarrow> posting \<Rightarrow> nat \<times> int" where
  "ids_in ix p = (row_id (po_device p) (ix_devices ix), case po_parser p of None \<Rightarrow> - 1 | Some n \<Rightarrow> int (row_id n (ix_parsers ix)))"

lemma position_append: "x \<in> set ns \<Longrightarrow> position (\<lambda>n. n = x) (ns @ ms) = position (\<lambda>n. n = x) ns"
  by (induction ns) auto

lemma row_id_append: "name \<in> set ns \<Longrightarrow> row_id name (ns @ ms) = row_id name ns"
  by (simp add: row_id_def position_append)

lemma row_id_nth:
  assumes "name \<in> set ns"
  shows "0 < row_id name ns" "row_id name ns \<le> length ns" "ns ! (row_id name ns - 1) = name"
proof -
  obtain i where "position (\<lambda>n. n = name) ns = Some i"
    using assms position_None [of "\<lambda>n. n = name" ns] by (cases "position (\<lambda>n. n = name) ns") auto
  moreover from position_SomeD [OF this] have "i < length ns" "ns ! i = name" by simp_all
  ultimately show "0 < row_id name ns" "row_id name ns \<le> length ns" "ns ! (row_id name ns - 1) = name"
    by (simp_all add: row_id_def)
qed

lemma row_id_inj: "a \<in> set ns \<Longrightarrow> b \<in> set ns \<Longrightarrow> row_id a ns = row_id b ns \<longleftrightarrow> a = b"
  by (metis row_id_nth(3))

lemma cache_ok_append: "cache_ok c ns \<Longrightarrow> cache_ok c (ns @ ms)"
  by (auto simp: cache_ok_def row_id_append)

lemma cache_ok_Cons [simp]: "cache_ok ((n, i) # c) ns \<longleftrightarrow> n \<in> set ns \<and> i = row_id n ns \<and> cache_ok c ns"
  by (auto simp: cache_ok_def)

lemma intern_spec: "\<exists>ms. intern name ns = ns @ ms" "name \<in> set (intern name ns)"
  by (auto simp: intern_def)

lemma dict_grows_refl [simp]: "dict_grows w w"
  by (auto simp: dict_grows_def intro!: exI [of _ "[]"])

lemma dict_grows_trans:
  assumes "dict_grows u v" "dict_grows v w"
  shows "dict_grows u w"
proof -
  from assms(1) obtain d1 n1 where "wr_index v = (wr_index u)\<lparr>ix_devices := ix_devices (wr_index u) @ d1, ix_parsers := ix_parsers (wr_index u) @ n1\<rparr>"
    "wr_span v = wr_span u" by (auto simp: dict_grows_def)
  moreover from assms(2) obtain d2 n2 where "wr_index w = (wr_index v)\<lparr>ix_devices := ix_devices (wr_index v) @ d2, ix_parsers := ix_parsers (wr_index v) @ n2\<rparr>"
    "wr_span w = wr_span v" by (auto simp: dict_grows_def)
  ultimately show ?thesis unfolding dict_grows_def by (intro conjI exI [of _ "d1 @ d2"] exI [of _ "n1 @ n2"]) simp_all
qed

lemma dict_grows_ids: "dict_grows v w \<Longrightarrow> named_in (wr_index v) p \<Longrightarrow> named_in (wr_index w) p \<and> ids_in (wr_index w) p = ids_in (wr_index v) p"
  by (auto simp: dict_grows_def named_in_def ids_in_def row_id_append split: option.splits)

lemma device_id_spec:
  assumes "dict_ok w" "device_id name w = (i, v)"
  shows "dict_ok v" "dict_grows w v" "name \<in> set (ix_devices (wr_index v))" "i = row_id name (ix_devices (wr_index v))"
    "ix_parsers (wr_index v) = ix_parsers (wr_index w)"
proof -
  obtain ms where ms: "intern name (ix_devices (wr_index w)) = ix_devices (wr_index w) @ ms" using intern_spec(1) by blast
  have known: "name \<in> set (intern name (ix_devices (wr_index w)))" by (rule intern_spec)
  have hit: "name \<in> set (ix_devices (wr_index w)) \<and> i = row_id name (ix_devices (wr_index w))"
    if "map_of (wr_devices w) name = Some i" for i
    using assms(1) map_of_SomeD [OF that] by (auto simp: dict_ok_def cache_ok_def)
  have "dict_ok v \<and> dict_grows w v \<and> name \<in> set (ix_devices (wr_index v)) \<and> i = row_id name (ix_devices (wr_index v)) \<and>
    ix_parsers (wr_index v) = ix_parsers (wr_index w)"
  proof (cases "map_of (wr_devices w) name")
    case None
    then have v: "v = w\<lparr>wr_index := (wr_index w)\<lparr>ix_devices := ix_devices (wr_index w) @ ms\<rparr>, wr_devices := (name, i) # wr_devices w\<rparr>"
      and i: "i = row_id name (ix_devices (wr_index w) @ ms)"
      using assms(2) by (auto simp: device_id_def Let_def ms)
    have "dict_ok v" using assms(1) known by (simp add: dict_ok_def v i ms cache_ok_append)
    moreover have "dict_grows w v" unfolding dict_grows_def by (rule conjI, simp add: v, rule exI [of _ ms], rule exI [of _ "[]"]) (simp add: v)
    ultimately show ?thesis using known by (simp add: v i ms)
  next
    case (Some j)
    then show ?thesis using assms hit [OF Some] by (auto simp: device_id_def)
  qed
  then show "dict_ok v" "dict_grows w v" "name \<in> set (ix_devices (wr_index v))" "i = row_id name (ix_devices (wr_index v))"
    "ix_parsers (wr_index v) = ix_parsers (wr_index w)" by simp_all
qed

lemma parser_id_spec:
  assumes "dict_ok w" "parser_id name w = (i, v)"
  shows "dict_ok v" "dict_grows w v" "name \<in> set (ix_parsers (wr_index v))" "i = row_id name (ix_parsers (wr_index v))"
    "ix_devices (wr_index v) = ix_devices (wr_index w)"
proof -
  obtain ms where ms: "intern name (ix_parsers (wr_index w)) = ix_parsers (wr_index w) @ ms" using intern_spec(1) by blast
  have known: "name \<in> set (intern name (ix_parsers (wr_index w)))" by (rule intern_spec)
  have hit: "name \<in> set (ix_parsers (wr_index w)) \<and> i = row_id name (ix_parsers (wr_index w))"
    if "map_of (wr_parsers w) name = Some i" for i
    using assms(1) map_of_SomeD [OF that] by (auto simp: dict_ok_def cache_ok_def)
  have "dict_ok v \<and> dict_grows w v \<and> name \<in> set (ix_parsers (wr_index v)) \<and> i = row_id name (ix_parsers (wr_index v)) \<and>
    ix_devices (wr_index v) = ix_devices (wr_index w)"
  proof (cases "map_of (wr_parsers w) name")
    case None
    then have v: "v = w\<lparr>wr_index := (wr_index w)\<lparr>ix_parsers := ix_parsers (wr_index w) @ ms\<rparr>, wr_parsers := (name, i) # wr_parsers w\<rparr>"
      and i: "i = row_id name (ix_parsers (wr_index w) @ ms)"
      using assms(2) by (auto simp: parser_id_def Let_def ms)
    have "dict_ok v" using assms(1) known by (simp add: dict_ok_def v i ms cache_ok_append)
    moreover have "dict_grows w v" unfolding dict_grows_def by (rule conjI, simp add: v, rule exI [of _ "[]"], rule exI [of _ ms]) (simp add: v)
    ultimately show ?thesis using known by (simp add: v i ms)
  next
    case (Some j)
    then show ?thesis using assms hit [OF Some] by (auto simp: parser_id_def)
  qed
  then show "dict_ok v" "dict_grows w v" "name \<in> set (ix_parsers (wr_index v))" "i = row_id name (ix_parsers (wr_index v))"
    "ix_devices (wr_index v) = ix_devices (wr_index w)" by simp_all
qed

text \<open>The postings of a list of records, each with its buffer; on them the ids are those of the names.\<close>

definition views :: "(batch_buf \<times> pivot_rec) list \<Rightarrow> posting list" where
  "views items = map (\<lambda>(b, r). rec_view b r) items"

definition small_dicts :: "pivot_index \<Rightarrow> bool" where
  "small_dicts ix \<longleftrightarrow> length (ix_devices ix) < 2 ^ 32 \<and> length (ix_parsers ix) < no_parser"

lemma rec_ids_spec:
  assumes "dict_ok w" "rec_ids (b, r) w = (ids, v)"
  shows "dict_ok v" "dict_grows w v" "named_in (wr_index v) (rec_view b r)"
    "small_dicts (wr_index v) \<Longrightarrow> ids = ids_in (wr_index v) (rec_view b r)"
proof -
  obtain d w1 where d: "device_id (buf_slice b (pr_device r)) w = (d, w1)" by (cases "device_id (buf_slice b (pr_device r)) w")
  note d1 = device_id_spec [OF assms(1) d]
  have "dict_ok v \<and> dict_grows w v \<and> named_in (wr_index v) (rec_view b r) \<and>
    (small_dicts (wr_index v) \<longrightarrow> ids = ids_in (wr_index v) (rec_view b r))"
  proof (cases "snd (pr_parser r) = 0")
    case True
    then have "v = w1" "ids = (u32 d, - 1)" using assms(2) d by (auto simp: rec_ids_def)
    then show ?thesis using d1 True row_id_nth(2) [OF d1(3)] by (simp add: named_in_def ids_in_def rec_view_def small_dicts_def u32_def)
  next
    case False
    obtain i w2 where i: "parser_id (utf8_lossy (buf_slice b (pr_parser r))) w1 = (i, w2)"
      by (cases "parser_id (utf8_lossy (buf_slice b (pr_parser r))) w1")
    note p1 = parser_id_spec [OF d1(1) i]
    have v: "v = w2" "ids = (u32 d, int i)" using assms(2) d i False by (auto simp: rec_ids_def)
    have "dict_grows w w2" by (rule dict_grows_trans [OF d1(2) p1(2)])
    then show ?thesis
      using v d1 p1 False row_id_nth(2) [OF d1(3)] by (simp add: named_in_def ids_in_def rec_view_def small_dicts_def u32_def)
  qed
  then show "dict_ok v" "dict_grows w v" "named_in (wr_index v) (rec_view b r)"
    "small_dicts (wr_index v) \<Longrightarrow> ids = ids_in (wr_index v) (rec_view b r)" by simp_all
qed

lemma small_dicts_grows: "dict_grows v w \<Longrightarrow> small_dicts (wr_index w) \<Longrightarrow> small_dicts (wr_index v)"
  by (auto simp: dict_grows_def small_dicts_def)

lemma all_ids_spec:
  assumes "dict_ok w" "all_ids items w = (ids, v)"
  shows "dict_ok v \<and> dict_grows w v \<and> list_all (named_in (wr_index v)) (views items) \<and> length ids = length items \<and>
    (small_dicts (wr_index v) \<longrightarrow> ids = map (ids_in (wr_index v)) (views items))"
  using assms
proof (induction items arbitrary: w ids)
  case Nil
  then show ?case by (simp add: views_def)
next
  case (Cons x xs)
  obtain b r where x: "x = (b, r)" by (cases x)
  obtain d w1 where d: "rec_ids (b, r) w = (d, w1)" by (cases "rec_ids (b, r) w")
  obtain ds where ds: "all_ids xs w1 = (ds, v)" "ids = d # ds" using Cons.prems(2) x d by (auto split: prod.splits)
  note r1 = rec_ids_spec [OF Cons.prems(1) d]
  note ih = Cons.IH [OF r1(1) ds(1)]
  have "dict_grows w v" using dict_grows_trans r1(2) ih by blast
  moreover have "named_in (wr_index v) (rec_view b r) \<and> ids_in (wr_index v) (rec_view b r) = ids_in (wr_index w1) (rec_view b r)"
    using dict_grows_ids ih r1(3) by blast
  moreover have "small_dicts (wr_index v) \<Longrightarrow> small_dicts (wr_index w1)" using small_dicts_grows ih by blast
  ultimately show ?case using ih r1(4) by (simp add: views_def x ds)
qed


subsection \<open>Groups\<close>

lemma map_of_or_default: "map_of (or_default k d f m) = (map_of m)(k \<mapsto> f (case map_of m k of Some v \<Rightarrow> v | None \<Rightarrow> d))"
  by (simp add: or_default_def AList.update_conv')

lemma distinct_or_default: "distinct (map fst m) \<Longrightarrow> distinct (map fst (or_default k d f m))"
  by (simp add: or_default_def AList.distinct_update)

text \<open>What a fold of updates leaves at a key: the fold of those of the key.\<close>

definition grown :: "'v \<Rightarrow> ('x \<Rightarrow> 'v \<Rightarrow> 'v) \<Rightarrow> 'x list \<Rightarrow> 'v option \<Rightarrow> 'v option" where
  "grown d f xs v = (if xs = [] then v else Some (fold f xs (case v of Some a \<Rightarrow> a | None \<Rightarrow> d)))"

lemma fold_or_default:
  "map_of (fold (\<lambda>x. or_default (key x) d (f x)) xs m) k = grown d f (filter (\<lambda>x. key x = k) xs) (map_of m k)"
  by (induction xs arbitrary: m) (simp_all add: map_of_or_default grown_def)

definition entry_for :: "posting \<Rightarrow> nat \<times> int \<Rightarrow> pivot_entry" where
  "entry_for p ids =
     \<lparr>pe_id = po_id p, pe_time = po_time p, pe_offset = po_offset p, pe_len = po_len p,
      pe_device = fst ids, pe_parser = (if snd ids < 0 then no_parser else nat (snd ids) mod 2 ^ 16)\<rparr>"

definition post_add :: "posting \<times> nat \<times> int \<Rightarrow> pivot_group \<Rightarrow> pivot_group" where
  "post_add x g0 =
     (case x of (p, ids) \<Rightarrow>
      let g = (if gr_n g0 = 0 then g0\<lparr>gr_first_id := po_id p, gr_first_time := po_time p, gr_last_time := po_time p\<rparr> else g0) in
      g\<lparr>gr_n := gr_n g + 1, gr_last_id := max (gr_last_id g) (po_id p), gr_first_id := min (gr_first_id g) (po_id p),
        gr_first_time := min (gr_first_time g) (po_time p), gr_last_time := max (gr_last_time g) (po_time p),
        gr_blob := gr_blob g @ entry_bytes (entry_for p ids), gr_devices := or_default ids 0 Suc (gr_devices g)\<rparr>)"

definition key_of :: "posting \<Rightarrow> entity_key" where
  "key_of p = (kind_code (po_kind p), po_value p)"

definition counts_ok :: "('k \<times> nat) list \<Rightarrow> 'k list \<Rightarrow> bool" where
  "counts_ok m ks \<longleftrightarrow> distinct (map fst m) \<and>
     (\<forall>k. map_of m k = (let n = length (filter (\<lambda>j. j = k) ks) in if n = 0 then None else Some n))"

lemma counts_ok_Nil [simp]: "counts_ok [] []"
  by (simp add: counts_ok_def)

lemma counts_okD:
  "counts_ok m ks \<Longrightarrow> map_of m k = (if length (filter (\<lambda>j. j = k) ks) = 0 then None else Some (length (filter (\<lambda>j. j = k) ks)))"
  unfolding counts_ok_def Let_def by blast

lemma counts_ok_Suc: "counts_ok m ks \<Longrightarrow> counts_ok (or_default k 0 Suc m) (ks @ [k])"
  by (auto simp: counts_ok_def distinct_or_default map_of_or_default Let_def)

text \<open>The group of some postings, with the ids of their names.\<close>

definition group_holds :: "pivot_group \<Rightarrow> (posting \<times> nat \<times> int) list \<Rightarrow> bool" where
  "group_holds g xs \<longleftrightarrow> gr_n g = length xs \<and> gr_blob g = concat (map (\<lambda>(p, ids). entry_bytes (entry_for p ids)) xs) \<and>
     counts_ok (gr_devices g) (map snd xs) \<and>
     (xs \<noteq> [] \<longrightarrow> gr_first_id g = Min (po_id ` fst ` set xs) \<and> gr_last_id g = Max (po_id ` fst ` set xs) \<and>
        gr_first_time g = Min (po_time ` fst ` set xs) \<and> gr_last_time g = Max (po_time ` fst ` set xs)) \<and>
     (xs = [] \<longrightarrow> g = group_new)"

lemma Min_snoc: "finite A \<Longrightarrow> A \<noteq> {} \<Longrightarrow> Min (insert x A) = min (Min A) (x :: 'a::linorder)"
  by (simp add: min.commute)

lemma Max_snoc: "finite A \<Longrightarrow> A \<noteq> {} \<Longrightarrow> Max (insert x A) = max (Max A) (x :: 'a::linorder)"
  by (simp add: max.commute)

lemma group_holds_new [simp]: "group_holds group_new []"
  by (simp add: group_holds_def) (simp add: group_new_def)

lemma group_holds_add:
  assumes "group_holds g xs"
  shows "group_holds (post_add (p, ids) g) (xs @ [(p, ids)])"
proof -
  have c: "counts_ok (or_default ids 0 Suc (gr_devices g)) (map snd xs @ [ids])"
    by (rule counts_ok_Suc) (use assms in \<open>simp add: group_holds_def\<close>)
  show ?thesis
  proof (cases "xs = []")
    case True
    then have g: "g = group_new" using assms by (simp add: group_holds_def)
    show ?thesis using c unfolding True g group_holds_def post_add_def Let_def by (simp add: group_new_def)
  next
    case False
    define A where "A = po_id ` fst ` set xs"
    define T where "T = po_time ` fst ` set xs"
    have ne: "finite A" "A \<noteq> {}" "finite T" "T \<noteq> {}" using False by (simp_all add: A_def T_def)
    have n: "gr_n g \<noteq> 0" using assms False by (simp add: group_holds_def)
    have m: "gr_first_id g = Min A" "gr_last_id g = Max A" "gr_first_time g = Min T" "gr_last_time g = Max T"
      using assms False by (simp_all add: group_holds_def A_def T_def)
    have sets: "po_id ` fst ` set (xs @ [(p, ids)]) = insert (po_id p) A" "po_time ` fst ` set (xs @ [(p, ids)]) = insert (po_time p) T"
      by (auto simp: A_def T_def)
    show ?thesis
      unfolding group_holds_def sets
      using c n assms by (simp add: post_add_def m Min_snoc [OF ne(1,2)] Max_snoc [OF ne(1,2)] Min_snoc [OF ne(3,4)] Max_snoc [OF ne(3,4)] group_holds_def)
  qed
qed

lemma group_holds_fold: "group_holds g ys \<Longrightarrow> group_holds (fold post_add xs g) (ys @ xs)"
proof (induction xs arbitrary: g ys)
  case Nil
  then show ?case by simp
next
  case (Cons x xs)
  obtain p ids where x: "x = (p, ids)" by (cases x)
  show ?case using Cons.IH [OF group_holds_add [OF Cons.prems, of p ids]] by (simp add: x)
qed

text \<open>The groups of a write.\<close>

lemma add_rec_view:
  assumes "rec_in b r"
  shows "fst (add_rec ((b, r), ids) s) = or_default (key_of (rec_view b r)) group_new (post_add (rec_view b r, ids)) (fst s)"
    "\<exists>g. map_of (fst (add_rec ((b, r), ids) s)) (key_of (rec_view b r)) = Some g \<and>
       snd (add_rec ((b, r), ids) s) = max (snd s) (gr_last_id g - gr_first_id g)"
proof -
  have k: "(pr_kind r, buf_slice b (pr_value r)) = key_of (rec_view b r)"
    using assms by (simp add: key_of_def rec_view_def rec_in_def code_of_kind)
  have g: "group_add r ids = post_add (rec_view b r, ids)"
    by (intro ext) (simp add: group_add_def post_add_def rec_view_def entry_for_def Let_def)
  define gs where "gs = or_default (key_of (rec_view b r)) group_new (post_add (rec_view b r, ids)) (fst s)"
  obtain a where a: "map_of gs (key_of (rec_view b r)) = Some a" by (simp add: gs_def map_of_or_default)
  have "add_rec ((b, r), ids) s = (gs, max (snd s) (gr_last_id a - gr_first_id a))"
    by (simp add: add_rec_def k g gs_def [symmetric] a)
  then show "fst (add_rec ((b, r), ids) s) = or_default (key_of (rec_view b r)) group_new (post_add (rec_view b r, ids)) (fst s)"
    "\<exists>g. map_of (fst (add_rec ((b, r), ids) s)) (key_of (rec_view b r)) = Some g \<and>
       snd (add_rec ((b, r), ids) s) = max (snd s) (gr_last_id g - gr_first_id g)"
    using a by (simp_all add: gs_def)
qed

definition spans_within :: "(entity_key \<times> pivot_group) list \<Rightarrow> nat \<Rightarrow> bool" where
  "spans_within gs span \<longleftrightarrow> (\<forall>k g. map_of gs k = Some g \<longrightarrow> gr_last_id g - gr_first_id g \<le> span)"

lemma add_rec_spans:
  assumes "rec_in b r" "spans_within (fst s) (snd s)"
  shows "spans_within (fst (add_rec ((b, r), ids) s)) (snd (add_rec ((b, r), ids) s)) \<and> snd s \<le> snd (add_rec ((b, r), ids) s)"
proof -
  define v where "v = rec_view b r"
  obtain g where g: "map_of (fst (add_rec ((b, r), ids) s)) (key_of v) = Some g"
      "snd (add_rec ((b, r), ids) s) = max (snd s) (gr_last_id g - gr_first_id g)"
    using add_rec_view(2) [OF assms(1), of ids s] unfolding v_def by blast
  have o: "map_of (fst (add_rec ((b, r), ids) s)) k = map_of (fst s) k" if "k \<noteq> key_of v" for k
    using that by (simp add: add_rec_view(1) [OF assms(1)] map_of_or_default v_def)
  have "gr_last_id a - gr_first_id a \<le> snd (add_rec ((b, r), ids) s)"
    if "map_of (fst (add_rec ((b, r), ids) s)) k = Some a" for k a
  proof (cases "k = key_of v")
    case True
    then show ?thesis using that g by simp
  next
    case False
    then have "map_of (fst s) k = Some a" using that o by simp
    then have "gr_last_id a - gr_first_id a \<le> snd s" using assms(2) unfolding spans_within_def by blast
    then show ?thesis using g(2) by simp
  qed
  then show ?thesis using g(2) by (simp add: spans_within_def)
qed

lemma fold_add_rec:
  assumes "list_all (\<lambda>((b, r), _). rec_in b r) xs" "spans_within (fst s) (snd s)" "distinct (map fst (fst s))"
  defines "ps \<equiv> map (\<lambda>((b, r), ids). (rec_view b r, ids)) xs"
  shows "spans_within (fst (fold add_rec xs s)) (snd (fold add_rec xs s)) \<and> snd s \<le> snd (fold add_rec xs s) \<and>
    fst (fold add_rec xs s) = fold (\<lambda>x. or_default (key_of (fst x)) group_new (post_add x)) ps (fst s) \<and>
    distinct (map fst (fst (fold add_rec xs s)))"
  using assms(1-3) unfolding ps_def
proof (induction xs arbitrary: s)
  case Nil
  then show ?case by simp
next
  case (Cons x xs)
  obtain b r ids where x: "x = ((b, r), ids)" by (cases x) auto
  have r: "rec_in b r" using Cons.prems by (simp add: x)
  define t where "t = add_rec ((b, r), ids) s"
  have t: "spans_within (fst t) (snd t)" "snd s \<le> snd t" using add_rec_spans [OF r Cons.prems(2), of ids] by (simp_all add: t_def)
  have ft: "fst t = or_default (key_of (rec_view b r)) group_new (post_add (rec_view b r, ids)) (fst s)"
    unfolding t_def by (rule add_rec_view(1) [OF r])
  have dt: "distinct (map fst (fst t))" unfolding ft by (rule distinct_or_default) (rule Cons.prems(3))
  have xs: "list_all (\<lambda>((b, r), _). rec_in b r) xs" using Cons.prems(1) by simp
  have ih: "spans_within (fst (fold add_rec xs t)) (snd (fold add_rec xs t)) \<and> snd t \<le> snd (fold add_rec xs t) \<and>
    fst (fold add_rec xs t) = fold (\<lambda>x. or_default (key_of (fst x)) group_new (post_add x)) (map (\<lambda>((b, r), ids). (rec_view b r, ids)) xs) (fst t) \<and>
    distinct (map fst (fst (fold add_rec xs t)))" by (rule Cons.IH [OF xs t(1) dt])
  have e1: "fold add_rec (x # xs) s = fold add_rec xs t" by (simp add: x t_def)
  have e2: "fold (\<lambda>x. or_default (key_of (fst x)) group_new (post_add x)) (map (\<lambda>((b, r), ids). (rec_view b r, ids)) (x # xs)) (fst s) =
    fold (\<lambda>x. or_default (key_of (fst x)) group_new (post_add x)) (map (\<lambda>((b, r), ids). (rec_view b r, ids)) xs) (fst t)"
    by (simp add: x ft)
  show ?case unfolding e1 e2 using ih t(2) le_trans by blast
qed


subsection \<open>What the tables hold\<close>

definition entry_of :: "pivot_index \<Rightarrow> posting \<Rightarrow> pivot_entry" where
  "entry_of ix p = entry_for p (ids_in ix p)"

definition rows_of :: "pivot_index \<Rightarrow> entity_key \<Rightarrow> posting_row list" where
  "rows_of ix key = filter (\<lambda>r. (pw_kind r, pw_value r) = key) (ix_postings ix)"

definition entries_of :: "pivot_index \<Rightarrow> entity_key \<Rightarrow> pivot_entry list" where
  "entries_of ix key = concat (map (\<lambda>r. decode_entries (pw_blob r)) (rows_of ix key))"

definition postings_at :: "entity_key \<Rightarrow> posting list \<Rightarrow> posting list" where
  "postings_at key ps = filter (\<lambda>p. key_of p = key) ps"

definition entity_for :: "posting list \<Rightarrow> entity_row option" where
  "entity_for ps = (if ps = [] then None
     else Some \<lparr>er_events = length ps, er_first = Min (po_time ` set ps), er_last = Max (po_time ` set ps)\<rparr>)"

definition row_ok :: "nat option \<Rightarrow> posting_row \<Rightarrow> bool" where
  "row_ok span r \<longleftrightarrow>
     (let es = decode_entries (pw_blob r); ids = pe_id ` set es in
      es \<noteq> [] \<and> pw_n r = length es \<and> pw_first r = int (Min ids) \<and> pw_last r = int (Max ids) \<and>
      Max ids - Min ids \<le> (case span of None \<Rightarrow> 0 | Some s \<Rightarrow> s))"

definition index_holds :: "pivot_index \<Rightarrow> posting list \<Rightarrow> bool" where
  "index_holds ix ps \<longleftrightarrow>
     list_all (named_in ix) ps \<and>
     (\<forall>key. entries_of ix key = map (entry_of ix) (postings_at key ps)) \<and>
     list_all (row_ok (ix_span ix)) (ix_postings ix) \<and>
     distinct (map fst (ix_entities ix)) \<and> (\<forall>key. map_of (ix_entities ix) key = entity_for (postings_at key ps)) \<and>
     counts_ok (ix_pairs ix) (map (\<lambda>p. (key_of p, ids_in ix p)) ps)"

lemma index_holds_new [simp]: "index_holds index_new []"
  by (simp add: index_holds_def index_new_def entries_of_def rows_of_def postings_at_def entity_for_def)

lemma postings_at_append [simp]: "postings_at key (ps @ qs) = postings_at key ps @ postings_at key qs"
  by (simp add: postings_at_def)

lemma entity_for_append:
  "entity_for (ps @ qs) =
     (case entity_for qs of None \<Rightarrow> entity_for ps
      | Some b \<Rightarrow> Some (case entity_for ps of None \<Rightarrow> b
          | Some a \<Rightarrow> \<lparr>er_events = er_events a + er_events b, er_first = min (er_first a) (er_first b), er_last = max (er_last a) (er_last b)\<rparr>))"
  by (simp add: entity_for_def image_Un Min_Un Max_Un)

lemma index_holds_grows:
  assumes "index_holds (wr_index v) ps" "dict_grows v w"
  shows "index_holds (wr_index w) ps"
proof -
  have n: "named_in (wr_index w) p \<and> ids_in (wr_index w) p = ids_in (wr_index v) p" if "p \<in> set ps" for p
    using dict_grows_ids [OF assms(2)] assms(1) that by (simp add: index_holds_def list_all_iff)
  obtain ds ns where ix: "wr_index w = (wr_index v)\<lparr>ix_devices := ix_devices (wr_index v) @ ds, ix_parsers := ix_parsers (wr_index v) @ ns\<rparr>"
    using assms(2) by (auto simp: dict_grows_def)
  have e: "entries_of (wr_index w) key = map (entry_of (wr_index w)) (postings_at key ps)" for key
  proof -
    have "entries_of (wr_index w) key = entries_of (wr_index v) key" by (simp add: ix entries_of_def rows_of_def)
    also have "\<dots> = map (entry_of (wr_index v)) (postings_at key ps)"
      using assms(1) unfolding index_holds_def by blast
    also have "\<dots> = map (entry_of (wr_index w)) (postings_at key ps)"
      using n by (auto simp: entry_of_def postings_at_def)
    finally show ?thesis .
  qed
  have pairs: "map (\<lambda>p. (key_of p, ids_in (wr_index w) p)) ps = map (\<lambda>p. (key_of p, ids_in (wr_index v) p)) ps"
    using n by auto
  have tables: "ix_span (wr_index w) = ix_span (wr_index v)" "ix_postings (wr_index w) = ix_postings (wr_index v)"
    "ix_entities (wr_index w) = ix_entities (wr_index v)" "ix_pairs (wr_index w) = ix_pairs (wr_index v)" by (simp_all add: ix)
  show ?thesis unfolding index_holds_def pairs tables using assms(1) n e unfolding index_holds_def list_all_iff by blast
qed

subsection \<open>A transaction\<close>

lemma map_of_upsert: "map_of (upsert k v f m) = (map_of m)(k \<mapsto> (case map_of m k of None \<Rightarrow> v | Some a \<Rightarrow> f a))"
  by (simp add: upsert_def AList.update_conv')

lemma distinct_upsert: "distinct (map fst m) \<Longrightarrow> distinct (map fst (upsert k v f m))"
  by (simp add: upsert_def AList.distinct_update)

lemma fold_upsert:
  assumes "distinct (map fst xs)"
  shows "map_of (fold (\<lambda>x. upsert (fst x) (v x) (f x)) xs m) k =
    (case map_of xs k of None \<Rightarrow> map_of m k | Some a \<Rightarrow> Some (case map_of m k of None \<Rightarrow> v (k, a) | Some b \<Rightarrow> f (k, a) b))"
  using assms
proof (induction xs arbitrary: m)
  case Nil
  then show ?case by simp
next
  case (Cons x xs)
  obtain a b where x: "x = (a, b)" by (cases x)
  have "map_of xs a = None" using Cons.prems by (simp add: x map_of_eq_None_iff)
  moreover have "distinct (map fst xs)" using Cons.prems by simp
  ultimately show ?case using Cons.IH by (cases "k = a") (simp_all add: x map_of_upsert split: option.splits)
qed

lemma distinct_fold_upsert: "distinct (map fst m) \<Longrightarrow> distinct (map fst (fold (\<lambda>x. upsert (fst x) (v x) (f x)) xs m))"
  by (induction xs arbitrary: m) (simp_all add: distinct_upsert)

definition group_row :: "entity_key \<times> pivot_group \<Rightarrow> posting_row" where
  "group_row x = \<lparr>pw_kind = fst (fst x), pw_value = snd (fst x), pw_first = i64_of_bits (gr_first_id (snd x)),
     pw_last = i64_of_bits (gr_last_id (snd x)), pw_n = gr_n (snd x), pw_blob = gr_blob (snd x)\<rparr>"

definition group_pairs :: "(entity_key \<times> pivot_group) list \<Rightarrow> ((entity_key \<times> nat \<times> int) \<times> nat) list" where
  "group_pairs gs = concat (map (\<lambda>(key, g). map (\<lambda>(ids, n). ((key, ids), n)) (gr_devices g)) gs)"

lemma fold_pair_upsert:
  "fold (\<lambda>(ids, n). upsert (key, ids) n (\<lambda>m. m + n)) ds m =
   fold (\<lambda>x. upsert (fst x) (snd x) (\<lambda>m. m + snd x)) (map (\<lambda>(ids, n). ((key, ids), n)) ds) m"
  by (induction ds arbitrary: m) auto

lemma fold_insert_group:
  "ix_postings (fold insert_group gs ix) = ix_postings ix @ map group_row gs"
  "ix_entities (fold insert_group gs ix) = fold (\<lambda>x. upsert (fst x)
     \<lparr>er_events = gr_n (snd x), er_first = gr_first_time (snd x), er_last = gr_last_time (snd x)\<rparr>
     (\<lambda>e. \<lparr>er_events = er_events e + gr_n (snd x), er_first = min (er_first e) (gr_first_time (snd x)),
        er_last = max (er_last e) (gr_last_time (snd x))\<rparr>)) gs (ix_entities ix)"
  "ix_pairs (fold insert_group gs ix) = fold (\<lambda>x. upsert (fst x) (snd x) (\<lambda>m. m + snd x)) (group_pairs gs) (ix_pairs ix)"
  "ix_devices (fold insert_group gs ix) = ix_devices ix" "ix_parsers (fold insert_group gs ix) = ix_parsers ix"
  "ix_span (fold insert_group gs ix) = ix_span ix"
  by (induction gs arbitrary: ix) (auto simp: insert_group_def group_row_def group_pairs_def fold_pair_upsert)

lemma filter_rows:
  assumes "distinct (map fst gs)"
  shows "filter (\<lambda>r. (pw_kind r, pw_value r) = key) (map group_row gs) =
    (case map_of gs key of None \<Rightarrow> [] | Some g \<Rightarrow> [group_row (key, g)])"
  using assms
proof (induction gs)
  case Nil
  then show ?case by simp
next
  case (Cons x gs)
  have k: "(pw_kind (group_row x), pw_value (group_row x)) = fst x" by (simp add: group_row_def)
  from Cons.prems have "map_of gs (fst x) = None" by (simp add: map_of_eq_None_iff)
  with Cons k show ?case by (cases x) auto
qed

lemma map_of_pairs:
  assumes "distinct (map fst gs)"
  shows "map_of (group_pairs gs) (key, ids) = (case map_of gs key of None \<Rightarrow> None | Some g \<Rightarrow> map_of (gr_devices g) ids)"
  using assms
proof (induction gs)
  case Nil
  then show ?case by (simp add: group_pairs_def)
next
  case (Cons x gs)
  obtain k g where x: "x = (k, g)" by (cases x)
  have m: "map_of (map (\<lambda>(ids, n). ((k, ids), n)) ds) (key, ids) = (if k = key then map_of ds ids else None)" for ds :: "((nat \<times> int) \<times> nat) list"
    by (induction ds) auto
  have "map_of gs k = None" using Cons.prems by (simp add: x map_of_eq_None_iff)
  then show ?case using Cons unfolding x by (auto simp: group_pairs_def m map_add_def split: option.splits)
qed

lemma distinct_pairs:
  assumes "distinct (map fst gs)" "\<forall>x\<in>set gs. distinct (map fst (gr_devices (snd x)))"
  shows "distinct (map fst (group_pairs gs))"
  using assms
proof (induction gs)
  case Nil
  then show ?case by (simp add: group_pairs_def)
next
  case (Cons x gs)
  obtain k g where x: "x = (k, g)" by (cases x)
  have m: "map fst (map (\<lambda>(ids, n). ((k, ids), n)) ds) = map (Pair k) (map fst ds)" for ds :: "((nat \<times> int) \<times> nat) list"
    by (induction ds) auto
  have "distinct (map fst (map (\<lambda>(ids, n). ((k, ids), n)) (gr_devices g)))"
    unfolding m using Cons.prems(2) by (simp add: x distinct_map inj_on_def del: map_map)
  moreover have "k \<notin> fst ` set gs" using Cons.prems(1) by (simp add: x)
  then have "set (map fst (map (\<lambda>(ids, n). ((k, ids), n)) (gr_devices g))) \<inter> set (map fst (group_pairs gs)) = {}"
    by (force simp: group_pairs_def)
  moreover have "distinct (map fst (group_pairs gs))" using Cons by simp
  ultimately show ?case by (simp add: group_pairs_def x)
qed


definition groups_hold :: "pivot_index \<Rightarrow> (entity_key \<times> pivot_group) list \<Rightarrow> posting list \<Rightarrow> bool" where
  "groups_hold ix gs qs \<longleftrightarrow> distinct (map fst gs) \<and>
     (\<forall>key. case map_of gs key of
        None \<Rightarrow> postings_at key qs = []
      | Some g \<Rightarrow> postings_at key qs \<noteq> [] \<and> group_holds g (map (\<lambda>q. (q, ids_in ix q)) (postings_at key qs)))"

lemma groups_hold_fold:
  assumes "distinct (map fst gs)" "gs = fold (\<lambda>x. or_default (key_of (fst x)) group_new (post_add x)) (map (\<lambda>q. (q, ids_in ix q)) qs) []"
  shows "groups_hold ix gs qs"
proof -
  have f: "filter (\<lambda>x. key_of (fst x) = key) (map (\<lambda>q. (q, ids_in ix q)) qs) = map (\<lambda>q. (q, ids_in ix q)) (postings_at key qs)" for key
    by (simp add: filter_map comp_def postings_at_def)
  have "map_of gs key = grown group_new post_add (map (\<lambda>q. (q, ids_in ix q)) (postings_at key qs)) None" for key
    unfolding assms(2) fold_or_default f by simp
  then have "map_of gs key = (if postings_at key qs = [] then None else Some (fold post_add (map (\<lambda>q. (q, ids_in ix q)) (postings_at key qs)) group_new))" for key
    by (simp add: grown_def)
  then show ?thesis
    using assms(1) group_holds_fold [OF group_holds_new] by (simp add: groups_hold_def)
qed

lemma entry_of_ok:
  assumes "posting_ok p" "named_in ix p" "small_dicts ix"
  shows "entry_ok (entry_of ix p)"
proof -
  have d: "row_id (po_device p) (ix_devices ix) < 2 ^ 32"
    using assms row_id_nth(2) [of "po_device p" "ix_devices ix"] by (simp add: named_in_def small_dicts_def)
  have "(if snd (ids_in ix p) < 0 then no_parser else nat (snd (ids_in ix p)) mod 2 ^ 16) < 2 ^ 16"
    by (simp add: no_parser_def)
  then show ?thesis using d assms(1) by (simp add: entry_ok_def entry_of_def entry_for_def posting_ok_def) (simp add: ids_in_def)
qed

lemma row_ok_mono:
  assumes "row_ok a r" "(case a of None \<Rightarrow> 0 | Some s \<Rightarrow> s) \<le> (case b of None \<Rightarrow> 0 | Some s \<Rightarrow> s)"
  shows "row_ok b r"
  using assms le_trans unfolding row_ok_def Let_def by blast

lemma group_row_ok:
  assumes "group_holds g (map (\<lambda>q. (q, ids_in ix q)) qs)" "qs \<noteq> []" "list_all posting_ok qs" "list_all (named_in ix) qs" "small_dicts ix"
    "gr_last_id g - gr_first_id g \<le> span"
  shows "decode_entries (gr_blob g) = map (entry_of ix) qs" "row_ok (Some (max s span)) (group_row (key, g))"
    "entity_for qs = Some \<lparr>er_events = gr_n g, er_first = gr_first_time g, er_last = gr_last_time g\<rparr>"
proof -
  define xs where "xs = map (\<lambda>q. (q, ids_in ix q)) qs"
  have blob: "gr_blob g = concat (map entry_bytes (map (entry_of ix) qs))"
    using assms(1) by (simp add: group_holds_def comp_def entry_of_def)
  have "list_all entry_ok (map (entry_of ix) qs)"
    using assms(3-5) entry_of_ok by (auto simp: list_all_iff)
  then show d: "decode_entries (gr_blob g) = map (entry_of ix) qs" unfolding blob by (rule decode_entries_concat)
  have fx: "fst ` set xs = set qs" by (force simp: xs_def)
  have m: "gr_first_id g = Min (po_id ` set qs)" "gr_last_id g = Max (po_id ` set qs)"
    "gr_first_time g = Min (po_time ` set qs)" "gr_last_time g = Max (po_time ` set qs)" "gr_n g = length qs"
    using assms(1,2) fx unfolding group_holds_def xs_def [symmetric] by (simp_all add: xs_def)
  have ids: "pe_id ` set (map (entry_of ix) qs) = po_id ` set qs" by (force simp: entry_of_def entry_for_def)
  have b: "po_id q < 2 ^ 63" if "q \<in> set qs" for q using assms(3) that by (simp add: list_all_iff posting_ok_def)
  have fin: "finite (po_id ` set qs)" "po_id ` set qs \<noteq> {}" using assms(2) by simp_all
  have "Min (po_id ` set qs) < 2 ^ 63" "Max (po_id ` set qs) < 2 ^ 63" using Min_in [OF fin] Max_in [OF fin] b by auto
  then have "i64_of_bits (gr_first_id g) = int (Min (po_id ` set qs))" "i64_of_bits (gr_last_id g) = int (Max (po_id ` set qs))"
    by (simp_all add: m i64_of_bits_def)
  moreover have "Max (po_id ` set qs) - Min (po_id ` set qs) \<le> max s span" using assms(6) by (simp add: m)
  ultimately show "row_ok (Some (max s span)) (group_row (key, g))"
    using assms(2) unfolding row_ok_def Let_def by (simp add: group_row_def d ids m del: set_map)
  show "entity_for qs = Some \<lparr>er_events = gr_n g, er_first = gr_first_time g, er_last = gr_last_time g\<rparr>"
    using assms(2) by (simp add: entity_for_def m)
qed

lemma write_groups_holds:
  assumes holds: "index_holds ix ps" and groups: "groups_hold ix gs qs" and span: "spans_within gs span"
    and ok: "list_all posting_ok qs" "list_all (named_in ix) qs" "small_dicts ix"
  shows "index_holds (write_groups gs span ix) (ps @ qs)"
proof -
  define ix' where "ix' = write_groups gs span ix"
  have fields: "ix_postings ix' = ix_postings ix @ map group_row gs" "ix_devices ix' = ix_devices ix" "ix_parsers ix' = ix_parsers ix"
    "ix_span ix' = Some (case ix_span ix of None \<Rightarrow> span | Some s \<Rightarrow> max s span)"
    by (simp_all add: ix'_def write_groups_def Let_def fold_insert_group)
  have ids: "ids_in ix' = ids_in ix" "named_in ix' = named_in ix"
    by (intro ext, simp add: ids_in_def named_in_def fields split: option.split)+
  have "entry_of ix' = entry_of ix" by (intro ext) (simp add: entry_of_def ids)
  note ids = ids this
  have dist: "distinct (map fst gs)" using groups by (simp add: groups_hold_def)
  have each: "case map_of gs key of None \<Rightarrow> postings_at key qs = []
      | Some g \<Rightarrow> postings_at key qs \<noteq> [] \<and> group_holds g (map (\<lambda>q. (q, ids_in ix q)) (postings_at key qs))" for key
    using groups unfolding groups_hold_def by blast
  have none: "postings_at key qs = []" if "map_of gs key = None" for key
    using each [of key] by (simp add: that)
  have some: "postings_at key qs \<noteq> []" "group_holds g (map (\<lambda>q. (q, ids_in ix q)) (postings_at key qs))"
    "gr_last_id g - gr_first_id g \<le> span" if "map_of gs key = Some g" for key g
  proof -
    show "postings_at key qs \<noteq> []" "group_holds g (map (\<lambda>q. (q, ids_in ix q)) (postings_at key qs))"
      using each [of key] by (simp_all add: that)
    show "gr_last_id g - gr_first_id g \<le> span" using span that unfolding spans_within_def by blast
  qed
  have sub: "list_all posting_ok (postings_at key qs)" "list_all (named_in ix) (postings_at key qs)" for key
    using ok by (simp_all add: postings_at_def list_all_iff)
  have row: "decode_entries (gr_blob g) = map (entry_of ix) (postings_at key qs)" "row_ok (Some (max s span)) (group_row (key, g))"
    "entity_for (postings_at key qs) = Some \<lparr>er_events = gr_n g, er_first = gr_first_time g, er_last = gr_last_time g\<rparr>"
    if "map_of gs key = Some g" for key g s
    by (rule group_row_ok [OF some(2,1) [OF that] sub ok(3) some(3) [OF that]])+
  have "entries_of ix' key = map (entry_of ix') (postings_at key (ps @ qs))" for key
  proof -
    have "entries_of ix' key = entries_of ix key @ (case map_of gs key of None \<Rightarrow> [] | Some g \<Rightarrow> decode_entries (gr_blob g))"
      unfolding entries_of_def rows_of_def fields filter_append filter_rows [OF dist] by (simp add: group_row_def split: option.split)
    moreover have "entries_of ix key = map (entry_of ix) (postings_at key ps)" using holds unfolding index_holds_def by blast
    ultimately show ?thesis using none [of key] row(1) [of key] by (cases "map_of gs key") (simp_all add: ids)
  qed
  moreover have "list_all (row_ok (ix_span ix')) (ix_postings ix')"
  proof -
    have "row_ok (ix_span ix') r" if "r \<in> set (ix_postings ix)" for r
      by (rule row_ok_mono [of "ix_span ix"]) (use holds that in \<open>simp_all add: index_holds_def list_all_iff fields split: option.split\<close>)
    moreover have "row_ok (ix_span ix') (group_row (key, g))" if "(key, g) \<in> set gs" for key g
      using row(2) [of key g "case ix_span ix of None \<Rightarrow> 0 | Some s \<Rightarrow> s"] dist that by (simp add: fields split: option.splits)
    ultimately show ?thesis by (auto simp: list_all_iff fields)
  qed
  moreover have "distinct (map fst (ix_entities ix'))"
    unfolding ix'_def write_groups_def Let_def using holds by (simp add: fold_insert_group distinct_fold_upsert index_holds_def)
  moreover have "map_of (ix_entities ix') key = entity_for (postings_at key (ps @ qs))" for key
  proof -
    have "map_of (ix_entities ix) key = entity_for (postings_at key ps)" using holds unfolding index_holds_def by blast
    then show ?thesis
      using none [of key] row(3) [of key] unfolding ix'_def write_groups_def Let_def postings_at_append entity_for_append
      by (cases "map_of gs key") (simp_all add: fold_insert_group fold_upsert [OF dist] entity_for_def [of "[]"] split: option.split)
  qed
  moreover have "counts_ok (ix_pairs ix') (map (\<lambda>p. (key_of p, ids_in ix' p)) (ps @ qs))"
  proof -
    have c: "counts_ok (ix_pairs ix) (map (\<lambda>p. (key_of p, ids_in ix p)) ps)" using holds by (simp add: index_holds_def)
    have gd: "counts_ok (gr_devices g) (map (ids_in ix) (postings_at key qs))" if "map_of gs key = Some g" for key g
      using some(2) [OF that] by (simp add: group_holds_def comp_def)
    have dp: "distinct (map fst (group_pairs gs))"
      by (rule distinct_pairs [OF dist]) (use gd dist in \<open>auto simp: counts_ok_def\<close>)
    have pairs: "ix_pairs ix' = fold (\<lambda>x. upsert (fst x) (snd x) (\<lambda>m. m + snd x)) (group_pairs gs) (ix_pairs ix)"
      by (simp add: ix'_def write_groups_def Let_def fold_insert_group)
    have cnt: "length (filter (\<lambda>j. j = (key, d)) (map (\<lambda>p. (key_of p, ids_in ix p)) xs)) =
      length (filter (\<lambda>j. j = d) (map (ids_in ix) (postings_at key xs)))" for key d and xs :: "posting list"
      by (induction xs) (auto simp: postings_at_def)
    have "map_of (ix_pairs ix') (key, d) =
      (let n = length (filter (\<lambda>j. j = (key, d)) (map (\<lambda>p. (key_of p, ids_in ix p)) (ps @ qs))) in if n = 0 then None else Some n)" for key d
    proof -
      define a where "a = length (filter (\<lambda>j. j = d) (map (ids_in ix) (postings_at key ps)))"
      define b where "b = length (filter (\<lambda>j. j = d) (map (ids_in ix) (postings_at key qs)))"
      have old: "map_of (ix_pairs ix) (key, d) = (if a = 0 then None else Some a)"
        using counts_okD [OF c, of "(key, d)"] unfolding cnt a_def .
      have new: "map_of (group_pairs gs) (key, d) = (if b = 0 then None else Some b)"
        using none [of key] counts_okD [OF gd [of key], of _ d] unfolding map_of_pairs [OF dist] b_def
        by (cases "map_of gs key") simp_all
      have "length (filter (\<lambda>j. j = (key, d)) (map (\<lambda>p. (key_of p, ids_in ix p)) (ps @ qs))) = a + b"
        unfolding cnt a_def b_def by simp
      then show ?thesis unfolding pairs fold_upsert [OF dp] by (simp add: old new)
    qed
    moreover have "distinct (map fst (ix_pairs ix'))" unfolding pairs using c by (simp add: counts_ok_def distinct_fold_upsert)
    ultimately show ?thesis unfolding counts_ok_def ids by auto
  qed
  moreover have "list_all (named_in ix') (ps @ qs)" using holds ok(2) by (simp add: ids index_holds_def)
  ultimately show ?thesis unfolding ix'_def [symmetric] index_holds_def by blast
qed


subsection \<open>The thread\<close>

text \<open>
  A group of batches with what befalls its write, the postings it leaves in the index, and the writes in turn. A fault loses the
  whole group and nothing else: a dictionary may have new names, and the tables are as before.
\<close>

type_synonym write_turn = "posting list list \<times> sql_fault option"

definition turn_write :: "write_turn \<Rightarrow> pivot_writer \<Rightarrow> pivot_writer" where
  "turn_write t w = snd (pivot_write (snd t) (map buf_of (fst t)) w)"

definition turn_postings :: "write_turn \<Rightarrow> posting list" where
  "turn_postings t = (if snd t = None then concat (fst t) else [])"

locale posting_log =
  fixes put :: "'t \<Rightarrow> 'w \<Rightarrow> 'w" and items :: "'t \<Rightarrow> 'p list" and good :: "'t \<Rightarrow> bool"
    and inv :: "'w \<Rightarrow> bool" and room :: "'w \<Rightarrow> bool" and holds :: "'w \<Rightarrow> 'p list \<Rightarrow> bool"
  assumes put_inv: "inv w \<Longrightarrow> inv (put t w)"
    and put_room: "inv w \<Longrightarrow> room (put t w) \<Longrightarrow> room w"
    and put_holds: "inv w \<Longrightarrow> good t \<Longrightarrow> room (put t w) \<Longrightarrow> holds w ps \<Longrightarrow> holds (put t w) (ps @ items t)"
begin

lemma room_before: "inv w \<Longrightarrow> room (fold put ts w) \<Longrightarrow> room w"
proof (induction ts arbitrary: w)
  case Nil
  then show ?case by simp
next
  case (Cons t ts)
  have "room (put t w)" using Cons.IH [OF put_inv [OF Cons.prems(1)]] Cons.prems(2) by simp
  then show ?case by (rule put_room [OF Cons.prems(1)])
qed

lemma puts_hold:
  "inv w \<Longrightarrow> list_all good ts \<Longrightarrow> room (fold put ts w) \<Longrightarrow> holds w ps \<Longrightarrow> holds (fold put ts w) (ps @ concat (map items ts))"
proof (induction ts arbitrary: w ps)
  case Nil
  then show ?case by simp
next
  case (Cons t ts)
  have i: "inv (put t w)" using put_inv Cons.prems(1) by blast
  have r: "room (fold put ts (put t w))" using Cons.prems(3) by simp
  have "holds (put t w) (ps @ items t)" using put_holds Cons.prems room_before [OF i r] by simp
  from Cons.IH [OF i _ r this] show ?case using Cons.prems(2) by simp
qed

end

lemma views_of:
  assumes "list_all batch_ok pss"
  shows "views (concat (map (\<lambda>b. map (Pair b) (bb_recs b)) (map buf_of pss))) = concat pss"
    "list_all (\<lambda>(b, r). rec_in b r) (concat (map (\<lambda>b. map (Pair b) (bb_recs b)) (map buf_of pss)))"
proof -
  have "map (rec_view (buf_of ps)) (bb_recs (buf_of ps)) = ps" "list_all (rec_in (buf_of ps)) (bb_recs (buf_of ps))" if "ps \<in> set pss" for ps
    using buf_of_view assms that by (simp_all add: list_all_iff)
  then show "views (concat (map (\<lambda>b. map (Pair b) (bb_recs b)) (map buf_of pss))) = concat pss"
    "list_all (\<lambda>(b, r). rec_in b r) (concat (map (\<lambda>b. map (Pair b) (bb_recs b)) (map buf_of pss)))"
    unfolding views_def by (induction pss) (auto simp: comp_def list_all_iff)
qed

lemma dict_ok_span [simp]: "dict_ok (w\<lparr>wr_span := s\<rparr>) = dict_ok w"
  by (simp add: dict_ok_def)

lemma dict_ok_tables: "ix_devices ix = ix_devices (wr_index w) \<Longrightarrow> ix_parsers ix = ix_parsers (wr_index w) \<Longrightarrow> dict_ok (w\<lparr>wr_index := ix\<rparr>) = dict_ok w"
  by (simp add: dict_ok_def)

lemma write_groups_dicts: "ix_devices (write_groups gs span ix) = ix_devices ix" "ix_parsers (write_groups gs span ix) = ix_parsers ix"
  by (simp_all add: write_groups_def Let_def fold_insert_group)

lemma small_dicts_write [simp]: "small_dicts (write_groups gs span ix) = small_dicts ix"
  by (simp add: small_dicts_def write_groups_dicts)

text \<open>Any write keeps the caches right and only adds names; when it succeeds the index holds its postings too.\<close>

lemma turn_write_spec:
  assumes "dict_ok w"
  shows "dict_ok (turn_write t w)" "small_dicts (wr_index (turn_write t w)) \<Longrightarrow> small_dicts (wr_index w)"
    "list_all batch_ok (fst t) \<Longrightarrow> small_dicts (wr_index (turn_write t w)) \<Longrightarrow> index_holds (wr_index w) ps \<Longrightarrow>
       index_holds (wr_index (turn_write t w)) (ps @ turn_postings t)"
proof -
  obtain pss fault where t: "t = (pss, fault)" by (cases t)
  define items where "items = concat (map (\<lambda>b. map (Pair b) (bb_recs b)) (map buf_of pss))"
  obtain ids w1 where a: "all_ids items w = (ids, w1)" by (cases "all_ids items w")
  note s = all_ids_spec [OF assms a]
  define gs where "gs = fst (fold add_rec (zip items ids) ([], wr_span w1))"
  define span where "span = snd (fold add_rec (zip items ids) ([], wr_span w1))"
  have folded: "fold add_rec (zip items ids) ([], wr_span w1) = (gs, span)" by (simp add: gs_def span_def)
  have wr: "turn_write t w = (case fault of Some (Dict_fault j) \<Rightarrow> snd (all_ids (take j items) w)
    | Some Tx_fault \<Rightarrow> w1\<lparr>wr_span := span\<rparr> | None \<Rightarrow> w1\<lparr>wr_span := span, wr_index := write_groups gs span (wr_index w1)\<rparr>)"
    unfolding turn_write_def pivot_write_def t fst_conv snd_conv items_def [symmetric] Let_def a
    by (simp add: folded split: option.split sql_fault.split)
  have tp: "turn_postings t = (if fault = None then concat pss else [])" by (simp add: turn_postings_def t)
  have part: "dict_ok (snd (all_ids (take j items) w)) \<and> dict_grows w (snd (all_ids (take j items) w))" for j
    using all_ids_spec [OF assms, of "take j items" "fst (all_ids (take j items) w)"] by simp
  consider (dict) j where "fault = Some (Dict_fault j)" | (tx) "fault = Some Tx_fault" | (fine) "fault = None"
    by (cases fault) (auto intro: sql_fault.exhaust)
  note cases = this
  show "dict_ok (turn_write t w)"
    using cases by cases (use part s in \<open>simp_all add: wr dict_ok_tables write_groups_dicts\<close>)
  show "small_dicts (wr_index w)" if "small_dicts (wr_index (turn_write t w))"
  proof -
    have "\<exists>v. dict_grows w v \<and> small_dicts (wr_index v)" using cases by cases (use that part s in \<open>auto simp: wr\<close>)
    then show ?thesis using small_dicts_grows by blast
  qed
  assume ok: "list_all batch_ok (fst t)" and small: "small_dicts (wr_index (turn_write t w))" and holds: "index_holds (wr_index w) ps"
  have w1: "index_holds (wr_index w1) ps" using index_holds_grows [OF holds] s by blast
  show "index_holds (wr_index (turn_write t w)) (ps @ turn_postings t)"
    using cases
  proof cases
    case (dict j)
    then show ?thesis using index_holds_grows [OF holds] part by (simp add: wr tp)
  next
    case tx
    then show ?thesis using w1 by (simp add: wr tp)
  next
    case none: fine
    note v = views_of [of pss, folded items_def]
    have pss: "list_all batch_ok pss" using ok by (simp add: t)
    have sm: "small_dicts (wr_index w1)" using small by (simp add: wr none)
    define ys where "ys = map (\<lambda>((b, r), ids). (rec_view b r, ids)) (zip items ids)"
    have ids: "ids = map (ids_in (wr_index w1)) (views items)" using s sm by blast
    have ys: "ys = map (\<lambda>q. (q, ids_in (wr_index w1) q)) (concat pss)"
      unfolding v(1) [OF pss, symmetric] ys_def ids by (induction items) (auto simp: views_def)
    have rin: "list_all (\<lambda>((b, r), _). rec_in b r) (zip items ids)"
      using v(2) [OF pss] unfolding list_all_iff by (auto dest: set_zip_leftD)
    have nil: "spans_within (fst ([], wr_span w1)) (snd ([], wr_span w1))" "distinct (map fst (fst ([] :: (entity_key \<times> pivot_group) list, wr_span w1)))"
      by (simp_all add: spans_within_def)
    note f = fold_add_rec [OF rin nil, folded gs_def span_def ys_def]
    have g: "groups_hold (wr_index w1) gs (concat pss)"
      using f unfolding ys fst_conv by (intro groups_hold_fold) blast+
    have "list_all posting_ok (concat pss)" using pss by (auto simp: list_all_iff batch_ok_def)
    moreover have "list_all (named_in (wr_index w1)) (concat pss)" using s v(1) [OF pss] by simp
    ultimately have "index_holds (write_groups gs span (wr_index w1)) (ps @ concat pss)"
      using write_groups_holds [OF w1 g] f sm by blast
    then show ?thesis by (simp add: wr tp none)
  qed
qed

interpretation pl: posting_log turn_write turn_postings "\<lambda>t. list_all batch_ok (fst t)" dict_ok "\<lambda>w. small_dicts (wr_index w)" "\<lambda>w. index_holds (wr_index w)"
  by unfold_locales (simp_all add: turn_write_spec(1,3) turn_write_spec(2))


subsection \<open>The index holds what was written\<close>

definition turn_input :: "write_turn \<Rightarrow> batch_buf list \<times> sql_fault option" where
  "turn_input t = (map buf_of (fst t), snd t)"

lemma pivot_write_count:
  "list_all batch_ok pss \<Longrightarrow> fst (pivot_write fault (map buf_of pss) w) = (if fault = None then Some (length (concat pss)) else None)"
proof -
  assume ok: "list_all batch_ok pss"
  define items where "items = concat (map (\<lambda>b. map (Pair b) (bb_recs b)) (map buf_of pss))"
  have "length (views items) = length (concat pss)" unfolding items_def views_of(1) [OF ok] by simp
  then have n: "length items = length (concat pss)" by (simp add: views_def)
  show ?thesis
    unfolding pivot_write_def items_def [symmetric] Let_def n
    by (simp split: option.split sql_fault.split prod.split)
qed

lemma write_rounds:
  assumes "list_all (\<lambda>t. list_all batch_ok (fst t)) ts" "fold write_round (map turn_input ts) (w, c) = (v, d)"
  shows "v = fold turn_write ts w \<and> pc_postings d = pc_postings c + length (concat (map turn_postings ts)) \<and>
    pc_errors d = pc_errors c + length (filter (\<lambda>t. snd t \<noteq> None) ts) \<and> pc_blocked d = pc_blocked c"
  using assms
proof (induction ts arbitrary: w c)
  case Nil
  then show ?case by simp
next
  case (Cons t ts)
  obtain pss fault where t: "t = (pss, fault)" by (cases t)
  obtain r u where p: "pivot_write fault (map buf_of pss) w = (r, u)" by (cases "pivot_write fault (map buf_of pss) w")
  have u: "turn_write t w = u" by (simp add: turn_write_def t p)
  have r: "r = (if fault = None then Some (length (concat pss)) else None)"
    using pivot_write_count [of pss fault w] Cons.prems(1) by (simp add: t p)
  define e where "e = snd (write_round (turn_input t) (w, c))"
  have e: "write_round (turn_input t) (w, c) = (u, e)" "pc_postings e = pc_postings c + length (turn_postings t)"
    "pc_errors e = pc_errors c + (if fault = None then 0 else 1)" "pc_blocked e = pc_blocked c"
    using p by (auto simp: e_def write_round_def turn_input_def turn_postings_def t r)
  have "fold write_round (map turn_input ts) (u, e) = (v, d)" using Cons.prems(2) e(1) by simp
  from Cons.IH [OF _ this] show ?case using Cons.prems(1) e(2-4) u by (simp add: t)
qed

lemma writer_on_ok [simp]: "dict_ok (writer_on ix)" "wr_index (writer_on ix) = ix"
  by (simp_all add: dict_ok_def writer_on_def cache_ok_def)

text \<open>A posting adds at most one name to each dictionary.\<close>

definition names_within :: "nat \<Rightarrow> pivot_writer \<Rightarrow> bool" where
  "names_within n w \<longleftrightarrow> length (ix_devices (wr_index w)) \<le> n \<and> length (ix_parsers (wr_index w)) \<le> n"

lemma rec_ids_names: "names_within n w \<Longrightarrow> names_within (n + 1) (snd (rec_ids x w))"
  by (auto simp: rec_ids_def device_id_def parser_id_def names_within_def intern_def Let_def split: prod.split option.split)

lemma all_ids_names: "names_within n w \<Longrightarrow> names_within (n + length items) (snd (all_ids items w))"
proof (induction items arbitrary: n w)
  case Nil
  then show ?case by simp
next
  case (Cons x xs)
  from Cons.IH [OF rec_ids_names [OF Cons.prems, of x]] show ?case by (auto split: prod.split)
qed

lemma names_within_mono: "names_within m w \<Longrightarrow> m \<le> n \<Longrightarrow> names_within n w"
  by (simp add: names_within_def)

lemma turn_write_names:
  assumes "list_all batch_ok (fst t)" "names_within n w"
  shows "names_within (n + length (concat (fst t))) (turn_write t w)"
proof -
  obtain pss fault where t: "t = (pss, fault)" by (cases t)
  define items where "items = concat (map (\<lambda>b. map (Pair b) (bb_recs b)) (map buf_of pss))"
  have "length (views items) = length (concat pss)" unfolding items_def using assms(1) by (simp add: views_of(1) t del: map_map)
  then have n: "length items = length (concat pss)" by (simp add: views_def)
  have a: "names_within (n + length (concat pss)) (snd (all_ids items w))" using all_ids_names [OF assms(2), of items] by (simp add: n)
  have "names_within (n + length (concat pss)) (snd (all_ids (take j items) w))" for j
    by (rule names_within_mono [OF all_ids_names [OF assms(2), of "take j items"]]) (simp add: n)
  moreover obtain ids v where e: "all_ids items w = (ids, v)" by (cases "all_ids items w")
  ultimately show ?thesis
    using a unfolding turn_write_def pivot_write_def t fst_conv snd_conv items_def [symmetric] Let_def e
    by (simp add: names_within_def write_groups_dicts split: option.split sql_fault.split prod.split)
qed

lemma turns_names:
  "list_all (\<lambda>t. list_all batch_ok (fst t)) ts \<Longrightarrow> names_within n w \<Longrightarrow>
   names_within (n + length (concat (map (\<lambda>t. concat (fst t)) ts))) (fold turn_write ts w)"
proof (induction ts arbitrary: n w)
  case Nil
  then show ?case by simp
next
  case (Cons t ts)
  have "names_within (n + length (concat (fst t))) (turn_write t w)" by (rule turn_write_names) (use Cons.prems in simp_all)
  from Cons.IH [OF _ this] Cons.prems(1) show ?case by (simp add: add.assoc)
qed

text \<open>
  However the writer thread cuts the batches it receives into transactions, the index holds the postings of every transaction
  that committed, in order, on top of what it held when it was opened: the rows of an entity are its postings, its counters, times,
  devices and parsers are theirs. A fault loses its whole group and is counted; names are fewer than 65535 parsers and \<open>2 ^ 32\<close> devices.
\<close>

theorem index_holds_written:
  assumes "list_all (\<lambda>t. list_all batch_ok (fst t)) ts" "index_holds ix ps"
    "pivot_thread (map turn_input ts) ix = (w, c)" "small_dicts (wr_index w)"
  shows "index_holds (wr_index w) (ps @ concat (map turn_postings ts)) \<and>
    pc_postings c = length (concat (map turn_postings ts)) \<and> pc_errors c = length (filter (\<lambda>t. snd t \<noteq> None) ts)"
proof -
  have r: "w = fold turn_write ts (writer_on ix)" "pc_postings c = length (concat (map turn_postings ts))"
    "pc_errors c = length (filter (\<lambda>t. snd t \<noteq> None) ts)"
    using write_rounds [OF assms(1), of "writer_on ix"] assms(3) unfolding pivot_thread_def by fastforce+
  then show ?thesis using pl.puts_hold [of "writer_on ix" ts ps] assms(1,2,4) by simp
qed

definition sample_postings :: "posting list" where
  "sample_postings =
     [\<lparr>po_id = 1, po_time = 70, po_kind = SrcIp, po_value = ''10.0.0.1'', po_device = ''fw'', po_parser = Some ''asa'', po_offset = 0, po_len = 9\<rparr>,
      \<lparr>po_id = 1, po_time = 70, po_kind = User, po_value = ''root'', po_device = ''fw'', po_parser = Some ''asa'', po_offset = 0, po_len = 9\<rparr>,
      \<lparr>po_id = 4, po_time = 60, po_kind = SrcIp, po_value = ''10.0.0.1'', po_device = ''web'', po_parser = None, po_offset = 10, po_len = 7\<rparr>]"

definition sample_turns :: "write_turn list" where
  "sample_turns = [([take 2 sample_postings], None), ([sample_postings], Some Tx_fault), ([drop 2 sample_postings, []], None)]"

lemma sample_turns_ok: "list_all (\<lambda>t. list_all batch_ok (fst t)) sample_turns"
proof -
  have "utf8_lossy ''asa'' = ''asa''" by code_simp
  then show ?thesis by (simp add: sample_turns_def sample_postings_def batch_ok_def posting_ok_def posting_size_def i64_ok_def)
qed

lemma sample_dicts_small: "small_dicts (wr_index (fst (pivot_thread (map turn_input sample_turns) index_new)))"
proof -
  define r where "r = pivot_thread (map turn_input sample_turns) index_new"
  have "names_within 0 (writer_on index_new)" by (simp add: names_within_def index_new_def)
  moreover have "length (concat (map (\<lambda>t. concat (fst t)) sample_turns)) = 6" by (simp add: sample_turns_def sample_postings_def)
  ultimately have "names_within 6 (fold turn_write sample_turns (writer_on index_new))"
    using turns_names [OF sample_turns_ok, of 0 "writer_on index_new"] by simp
  moreover have "fst r = fold turn_write sample_turns (writer_on index_new)"
    using write_rounds [OF sample_turns_ok, of "writer_on index_new" _ "fst r" "snd r"] unfolding r_def pivot_thread_def by simp
  ultimately show ?thesis unfolding r_def [symmetric] by (simp add: names_within_def small_dicts_def no_parser_def)
qed

lemma index_holds_written_witness:
  "index_holds (wr_index (fst (pivot_thread (map turn_input sample_turns) index_new))) sample_postings \<and>
   map pe_time (entries_of (wr_index (fst (pivot_thread (map turn_input sample_turns) index_new))) (0, ''10.0.0.1'')) = [70, 60]"
proof -
  define r where "r = pivot_thread (map turn_input sample_turns) index_new"
  have "concat (map turn_postings sample_turns) = sample_postings" by (simp add: sample_turns_def turn_postings_def sample_postings_def)
  then have h: "index_holds (wr_index (fst r)) sample_postings"
    using index_holds_written [OF sample_turns_ok index_holds_new, of "fst r" "snd r"] sample_dicts_small by (simp add: r_def)
  then have "entries_of (wr_index (fst r)) (0, ''10.0.0.1'') = map (entry_of (wr_index (fst r))) (postings_at (0, ''10.0.0.1'') sample_postings)"
    unfolding index_holds_def by blast
  then have "map pe_time (entries_of (wr_index (fst r)) (0, ''10.0.0.1'')) = [70, 60]"
    by (simp add: postings_at_def sample_postings_def key_of_def kind_code_def entry_of_def entry_for_def)
  with h show ?thesis unfolding r_def by simp
qed

end
