(* ===== verification/Ulpf_Timeline.thy ===== *)
theory Ulpf_Timeline
  imports Ulpf_Index "HOL-Library.Product_Lexorder"
begin

text \<open>
  The reader of the entity index, \<open>src/crates/ulpf/src/pivot.rs\<close>: \<open>query\<close> with the walk over the posting rows, the devices and
  the related values, and \<open>entities\<close> with its prefix search. One query reads one snapshot of the tables; the connections that scan
  for related values may see a later one each. \<open>ORDER BY first_id\<close> leaves rows with the same first id in the order they were
  inserted, backwards when it descends, as the scan of the table's index does, and rows that tie in another order stay as they
  were inserted; the theorems are about ids that differ. Reading JSON
  is the parameter \<open>read_json\<close>, and the contents of the output file \<open>None\<close> where it does not open.
\<close>

subsection \<open>The timeline\<close>

datatype pivot_order = Desc | Asc

record pivot_query =
  pq_kind :: entity_kind
  pq_value :: bytes
  pq_limit :: nat
  pq_before :: "int option"
  pq_before_id :: "nat option"
  pq_after :: "int option"
  pq_after_id :: "nat option"
  pq_order :: pivot_order

definition related_window :: nat where "related_window = 10000"
definition related_row_budget :: nat where "related_row_budget = 50000"
definition page_row_budget :: nat where "page_row_budget = 20000"

definition query_key :: "pivot_query \<Rightarrow> entity_key" where
  "query_key q = (kind_code (pq_kind q), pq_value q)"

definition page_limit :: "pivot_query \<Rightarrow> nat" where
  "page_limit q = max 1 (min 500 (pq_limit q))"

definition wanted :: "pivot_query \<Rightarrow> pivot_entry \<Rightarrow> bool" where
  "wanted q e =
     (if pq_order q = Desc
      then (case pq_before q of None \<Rightarrow> True
            | Some b \<Rightarrow> (case pq_before_id q of Some bid \<Rightarrow> (pe_time e, pe_id e) < (b, bid) | None \<Rightarrow> pe_time e < b))
      else (case pq_after q of None \<Rightarrow> True
            | Some a \<Rightarrow> (case pq_after_id q of Some aid \<Rightarrow> (a, aid) < (pe_time e, pe_id e) | None \<Rightarrow> a < pe_time e)))"

definition row_batch :: "pivot_query \<Rightarrow> posting_row \<Rightarrow> pivot_entry list" where
  "row_batch q r = (if pq_order q = Desc then rev (decode_entries (pw_blob r)) else decode_entries (pw_blob r))"

fun walk_rows :: "pivot_query \<Rightarrow> nat \<Rightarrow> posting_row list \<Rightarrow> nat \<Rightarrow> pivot_entry list \<Rightarrow> pivot_entry list \<Rightarrow> pivot_entry list \<times> pivot_entry list" where
  "walk_rows q cand [] seen window page = (window, page)"
| "walk_rows q cand (r # rs) seen window page =
     (let batch = row_batch q r;
          window1 = window @ take (related_window - length window) batch;
          page1 = page @ filter (wanted q) batch;
          seen1 = seen + 1 in
      if (cand \<le> length page1 \<and> related_window \<le> length window1) \<or> page_row_budget \<le> seen1 then (window1, page1)
      else walk_rows q cand rs seen1 window1 page1)"

definition select_rows :: "pivot_query \<Rightarrow> pivot_index \<Rightarrow> posting_row list" where
  "select_rows q ix =
     (let rows = sort_key pw_first (rows_of ix (query_key q)) in if pq_order q = Desc then rev rows else rows)"

definition page_key :: "pivot_query \<Rightarrow> pivot_entry \<Rightarrow> int \<times> int" where
  "page_key q e = (if pq_order q = Desc then (- pe_time e, - int (pe_id e)) else (pe_time e, int (pe_id e)))"

definition walk_page :: "pivot_query \<Rightarrow> pivot_index \<Rightarrow> pivot_entry list \<times> pivot_entry list" where
  "walk_page q ix =
     (let limit = page_limit q; cand = max limit (min 2000 (limit * 4)) in
      case walk_rows q cand (select_rows q ix) 0 [] [] of
        (window, page) \<Rightarrow> (window, take limit (sort_key (page_key q) page)))"

subsection \<open>Devices\<close>

record device_count =
  dc_device :: bytes
  dc_events :: nat
  dc_parsers :: "bytes list"

definition name_at :: "bytes list \<Rightarrow> nat \<Rightarrow> bytes option" where
  "name_at ns i = (if 1 \<le> i \<and> i \<le> length ns then Some (ns ! (i - 1)) else None)"

text \<open>The rows of the entity, most events first, each joined with its device and, where it has one, its parser.\<close>

definition device_rows :: "pivot_index \<Rightarrow> entity_key \<Rightarrow> (bytes \<times> bytes option \<times> nat) list" where
  "device_rows ix key =
     List.map_filter (\<lambda>((k, d, p), n). map_option (\<lambda>name. (utf8_lossy name, if p < 0 then None else name_at (ix_parsers ix) (nat p), n)) (name_at (ix_devices ix) d))
       (sort_key (\<lambda>x. - int (snd x)) (filter (\<lambda>((k, d, p), n). k = key) (ix_pairs ix)))"

fun add_device :: "bytes \<times> bytes option \<times> nat \<Rightarrow> device_count list \<Rightarrow> device_count list" where
  "add_device (device, prs, events) [] =
     [\<lparr>dc_device = device, dc_events = events, dc_parsers = (case prs of Some p \<Rightarrow> [p] | None \<Rightarrow> [])\<rparr>]"
| "add_device (device, prs, events) (d # ds) =
     (if dc_device d = device
      then d\<lparr>dc_events := dc_events d + events,
             dc_parsers := (case prs of Some p \<Rightarrow> if p \<in> set (dc_parsers d) then dc_parsers d else dc_parsers d @ [p] | None \<Rightarrow> dc_parsers d)\<rparr> # ds
      else d # add_device (device, prs, events) ds)"

definition devices_of :: "pivot_index \<Rightarrow> entity_key \<Rightarrow> device_count list" where
  "devices_of ix key = sort_key (\<lambda>d. (- int (dc_events d), dc_device d)) (fold add_device (device_rows ix key) [])"

subsection \<open>Related values\<close>

text \<open>One bit per id over the span of the window.\<close>

definition window_bits :: "nat \<Rightarrow> nat \<Rightarrow> pivot_entry list \<Rightarrow> bool list" where
  "window_bits lo hi window = fold (\<lambda>e bits. bits[pe_id e - lo := True]) window (replicate (64 * ((hi - lo) div 64 + 1)) False)"

definition row_hits :: "nat \<Rightarrow> nat \<Rightarrow> bool list \<Rightarrow> posting_row \<Rightarrow> nat" where
  "row_hits lo hi bits r = length (filter (\<lambda>e. lo \<le> pe_id e \<and> pe_id e \<le> hi \<and> bits ! (pe_id e - lo)) (decode_entries (pw_blob r)))"

definition related_rows :: "pivot_index \<Rightarrow> entity_kind \<Rightarrow> nat \<Rightarrow> nat \<Rightarrow> posting_row list" where
  "related_rows ix other from hi =
     take related_row_budget (rev (sort_key pw_first
       (filter (\<lambda>r. pw_kind r = kind_code other \<and> int from \<le> pw_first r \<and> pw_first r \<le> int hi) (ix_postings ix))))"

definition count_hits :: "nat \<Rightarrow> nat \<Rightarrow> bool list \<Rightarrow> posting_row \<Rightarrow> (bytes \<times> nat) list \<Rightarrow> (bytes \<times> nat) list" where
  "count_hits lo hi bits r counts =
     (let hits = row_hits lo hi bits r in if 0 < hits then or_default (pw_value r) 0 (\<lambda>n. n + hits) counts else counts)"

definition scan_related ::
  "pivot_index \<Rightarrow> entity_kind \<Rightarrow> nat \<Rightarrow> nat \<Rightarrow> nat \<Rightarrow> bool list \<Rightarrow> (bytes \<times> nat) list \<times> nat \<times> nat" where
  "scan_related ix other from lo hi bits =
     (let rows = related_rows ix other from hi;
          counts = fold (count_hits lo hi bits) rows [];
          top = sort_key (\<lambda>(v, n). (- int n, v)) (map (\<lambda>(v, n). (utf8_lossy v, n)) counts) in
      (take 10 top, length rows, if rows = [] then lo else nat (max (pw_first (last rows)) 0)))"

definition related :: "(entity_kind \<Rightarrow> pivot_index) \<Rightarrow> pivot_index \<Rightarrow> entity_kind \<Rightarrow> pivot_entry list \<Rightarrow> (bytes \<times> (bytes \<times> nat) list) list \<times> nat" where
  "related scanner ix kind window =
     (let names = sort_key entity_name all_entities in
      if window = [] then (map (\<lambda>k. (entity_name k, [])) names, 0)
      else
        let lo = Min (set (map pe_id window)); hi = Max (set (map pe_id window));
            bits = window_bits lo hi window;
            span = (case ix_span ix of Some s \<Rightarrow> s | None \<Rightarrow> 0);
            scan = (\<lambda>k. scan_related (scanner k) k (lo - span) lo hi bits);
            covered = fold (\<lambda>k c. case scan k of (_, n, lowest) \<Rightarrow> if related_row_budget \<le> n then max c lowest else c)
              (filter (\<lambda>k. k \<noteq> kind) all_entities) lo in
        (map (\<lambda>k. (entity_name k, if k = kind then [] else fst (scan k))) names,
         length (filter (\<lambda>e. covered \<le> pe_id e) window)))"

subsection \<open>A query\<close>

record pivot_event =
  pv_id :: nat
  pv_time :: int
  pv_device :: bytes
  pv_parser :: "bytes option"
  pv_line :: jvalue

record pivot_page =
  pg_kind :: bytes
  pg_value :: bytes
  pg_total :: nat
  pg_first_time :: "int option"
  pg_last_time :: "int option"
  pg_devices :: "device_count list"
  pg_related :: "(bytes \<times> (bytes \<times> nat) list) list"
  pg_related_over :: nat
  pg_events :: "pivot_event list"
  pg_next_before :: "int option"
  pg_next_before_id :: "nat option"

definition line_json :: "(bytes \<Rightarrow> jvalue option) \<Rightarrow> bytes option \<Rightarrow> nat \<Rightarrow> nat \<Rightarrow> jvalue" where
  "line_json read_json out off len =
     (case out of
        None \<Rightarrow> VNull
      | Some b \<Rightarrow> if off + len \<le> length b then (case read_json (slice off (off + len) b) of Some v \<Rightarrow> v | None \<Rightarrow> VNull) else VNull)"

definition event_view :: "(bytes \<Rightarrow> jvalue option) \<Rightarrow> bytes option \<Rightarrow> pivot_index \<Rightarrow> pivot_entry \<Rightarrow> pivot_event" where
  "event_view read_json out ix e =
     \<lparr>pv_id = pe_id e, pv_time = pe_time e,
      pv_device = (case name_at (ix_devices ix) (pe_device e) of Some n \<Rightarrow> utf8_lossy n | None \<Rightarrow> []),
      pv_parser = (if pe_parser e = no_parser then None else Some (case name_at (ix_parsers ix) (pe_parser e) of Some n \<Rightarrow> n | None \<Rightarrow> [])),
      pv_line = line_json read_json out (pe_offset e) (pe_len e)\<rparr>"

definition pivot_query_page ::
  "(bytes \<Rightarrow> jvalue option) \<Rightarrow> bytes option \<Rightarrow> (entity_kind \<Rightarrow> pivot_index) \<Rightarrow> pivot_index \<Rightarrow> pivot_query \<Rightarrow> pivot_page" where
  "pivot_query_page read_json out scanner ix q =
     (let entity = map_of (ix_entities ix) (query_key q) in
      case walk_page q ix of (window, page) \<Rightarrow>
      case related scanner ix (pq_kind q) window of (rel, over) \<Rightarrow>
      let full = page_limit q \<le> length page in
      \<lparr>pg_kind = entity_name (pq_kind q), pg_value = utf8_lossy (pq_value q),
       pg_total = (case entity of Some e \<Rightarrow> er_events e | None \<Rightarrow> 0),
       pg_first_time = map_option er_first entity, pg_last_time = map_option er_last entity,
       pg_devices = devices_of ix (query_key q), pg_related = rel, pg_related_over = over,
       pg_events = map (event_view read_json out ix) page,
       pg_next_before = (if full then Some (pe_time (last page)) else None),
       pg_next_before_id = (if full then Some (pe_id (last page)) else None)\<rparr>)"

subsection \<open>Entities by prefix\<close>

record entity_summary =
  sm_kind :: bytes
  sm_value :: bytes
  sm_events :: nat
  sm_devices :: nat
  sm_first :: int
  sm_last :: int

text \<open>The bytes after which no value begins with the prefix: the last byte below 255 is raised and what follows it dropped.\<close>

definition prefix_end :: "bytes \<Rightarrow> bytes" where
  "prefix_end p =
     (case dropWhile (\<lambda>b. bv b = 255) (rev p) of [] \<Rightarrow> [] | b # rest \<Rightarrow> rev rest @ [char_of (bv b + 1)])"

definition entities_of :: "pivot_index \<Rightarrow> entity_kind option \<Rightarrow> bytes \<Rightarrow> nat \<Rightarrow> entity_summary list" where
  "entities_of ix kind pre limit =
     (let rows = filter (\<lambda>((k, v), _). (case kind of None \<Rightarrow> True | Some e \<Rightarrow> k = kind_code e) \<and> (pre = [] \<or> (pre \<le> v \<and> v < prefix_end pre))) (ix_entities ix) in
      map (\<lambda>((k, v), e).
          \<lparr>sm_kind = (case entity_from_index k of Some e \<Rightarrow> entity_name e | None \<Rightarrow> ''?''), sm_value = utf8_lossy v, sm_events = er_events e,
           sm_devices = length (remdups (map (\<lambda>((_, d, _), _). d) (filter (\<lambda>((key, _), _). key = (k, v)) (ix_pairs ix)))),
           sm_first = er_first e, sm_last = er_last e\<rparr>)
        (take (max 1 (min 1000 limit)) (sort_key (\<lambda>((k, v), e). (- int (er_events e), v)) rows)))"


subsection \<open>A page is the next events in order\<close>

lemma walk_rows_spec:
  assumes "seen + length rows \<le> page_row_budget" "length window \<le> related_window"
  shows "\<exists>k\<le>length rows. let read = concat (map (row_batch q) (take k rows)) in
    walk_rows q cand rows seen window page = (take related_window (window @ read), page @ filter (wanted q) read) \<and>
    (k = length rows \<or> (cand \<le> length (page @ filter (wanted q) read) \<and> related_window \<le> length window + length read))"
  using assms
proof (induction rows arbitrary: seen window page)
  case Nil
  then show ?case by simp
next
  case (Cons r rs)
  define batch where "batch = row_batch q r"
  define w1 where "w1 = window @ take (related_window - length window) batch"
  define p1 where "p1 = page @ filter (wanted q) batch"
  have w1: "w1 = take related_window (window @ batch)" "length w1 \<le> related_window"
    using Cons.prems(2) by (simp_all add: w1_def)
  have step: "walk_rows q cand (r # rs) seen window page =
    (if (cand \<le> length p1 \<and> related_window \<le> length w1) \<or> page_row_budget \<le> seen + 1 then (w1, p1) else walk_rows q cand rs (seen + 1) w1 p1)"
    by (simp add: Let_def batch_def w1_def p1_def)
  show ?case
  proof (cases "(cand \<le> length p1 \<and> related_window \<le> length w1) \<or> page_row_budget \<le> seen + 1")
    case True
    have "rs = []" if "page_row_budget \<le> seen + 1" using Cons.prems(1) that by (cases rs) simp_all
    moreover have "related_window \<le> length window + length batch" if "related_window \<le> length w1" using that by (simp add: w1)
    ultimately have "cand \<le> length p1 \<and> related_window \<le> length window + length batch \<or> rs = []" using True by blast
    then show ?thesis
      unfolding step Let_def using True by (intro exI [of _ 1]) (auto simp: w1 p1_def batch_def)
  next
    case False
    obtain k where k: "k \<le> length rs" and s: "walk_rows q cand rs (seen + 1) w1 p1 =
        (take related_window (w1 @ concat (map (row_batch q) (take k rs))), p1 @ filter (wanted q) (concat (map (row_batch q) (take k rs))))"
      and e: "k = length rs \<or> (cand \<le> length (p1 @ filter (wanted q) (concat (map (row_batch q) (take k rs)))) \<and>
        related_window \<le> length w1 + length (concat (map (row_batch q) (take k rs))))"
      using Cons.IH [of "seen + 1" w1 p1] Cons.prems(1) w1(2) unfolding Let_def by auto
    define more where "more = concat (map (row_batch q) (take k rs))"
    have t: "take related_window (w1 @ more) = take related_window (window @ batch @ more)"
      by (simp add: w1(1) append_assoc [symmetric] del: append_assoc) (simp add: min_def)
    have l: "length w1 \<le> length window + length batch" by (simp add: w1(1))
    have r: "concat (map (row_batch q) (take (Suc k) (r # rs))) = batch @ more" by (simp add: batch_def more_def)
    have p: "p1 @ filter (wanted q) more = page @ filter (wanted q) (batch @ more)" by (simp add: p1_def)
    have w: "walk_rows q cand (r # rs) seen window page = (take related_window (window @ batch @ more), page @ filter (wanted q) (batch @ more))"
      unfolding step if_not_P [OF False] s more_def [symmetric] t p by (rule refl)
    have "Suc k = length (r # rs) \<or> (cand \<le> length (page @ filter (wanted q) (batch @ more)) \<and>
      related_window \<le> length window + length (batch @ more))"
      using e l unfolding more_def [symmetric] p by auto
    then show ?thesis unfolding Let_def using w k by (intro exI [of _ "Suc k"]) (simp only: r length_Cons Suc_le_mono simp_thms)
  qed
qed

definition read_all :: "pivot_query \<Rightarrow> pivot_index \<Rightarrow> pivot_entry list" where
  "read_all q ix = concat (map (row_batch q) (select_rows q ix))"

lemma select_rows_mset: "mset (select_rows q ix) = mset (rows_of ix (query_key q))"
  by (simp add: select_rows_def Let_def)

lemma read_all_mset: "mset (read_all q ix) = mset (entries_of ix (query_key q))"
proof -
  have b: "mset (row_batch q r) = mset (decode_entries (pw_blob r))" for r by (simp add: row_batch_def)
  have "mset (concat (map (row_batch q) rs)) = \<Sum>\<^sub># (image_mset (\<lambda>r. mset (decode_entries (pw_blob r))) (mset rs))" for rs :: "posting_row list"
    by (induction rs) (simp_all add: b)
  moreover have "mset (concat (map (\<lambda>r. decode_entries (pw_blob r)) rs)) = \<Sum>\<^sub># (image_mset (\<lambda>r. mset (decode_entries (pw_blob r))) (mset rs))" for rs :: "posting_row list"
    by (induction rs) simp_all
  ultimately show ?thesis by (simp add: read_all_def entries_of_def select_rows_mset)
qed

lemma sort_key_mset: "mset xs = mset ys \<Longrightarrow> inj_on f (set xs) \<Longrightarrow> sort_key f xs = sort_key f ys"
  by (rule sort_key_inj_key_eq) auto

lemma walk_page_exact:
  assumes "length (select_rows q ix) \<le> page_row_budget"
    "length (read_all q ix) < related_window \<or> sorted (map (page_key q) (read_all q ix))"
  shows "snd (walk_page q ix) = take (page_limit q) (sort_key (page_key q) (filter (wanted q) (read_all q ix)))"
    "length (read_all q ix) < related_window \<Longrightarrow> fst (walk_page q ix) = read_all q ix"
proof -
  define limit where "limit = page_limit q"
  define cand where "cand = max limit (min 2000 (limit * 4))"
  define rows where "rows = select_rows q ix"
  have "seen + length rows \<le> page_row_budget" if "seen = 0" for seen using assms(1) that by (simp add: rows_def)
  from walk_rows_spec [OF this, of 0 "[]" q cand "[]"] obtain k where k: "k \<le> length rows"
    and w: "walk_rows q cand rows 0 [] [] =
      (take related_window (concat (map (row_batch q) (take k rows))), filter (wanted q) (concat (map (row_batch q) (take k rows))))"
    and e: "k = length rows \<or> (cand \<le> length (filter (wanted q) (concat (map (row_batch q) (take k rows)))) \<and>
      related_window \<le> length (concat (map (row_batch q) (take k rows))))"
    unfolding Let_def by auto
  define front where "front = concat (map (row_batch q) (take k rows))"
  define rest where "rest = concat (map (row_batch q) (drop k rows))"
  have all: "read_all q ix = front @ rest"
    unfolding read_all_def front_def rest_def rows_def [symmetric] by (simp add: concat_append [symmetric] map_append [symmetric] del: concat_append map_append)
  have page: "walk_page q ix = (take related_window front, take limit (sort_key (page_key q) (filter (wanted q) front)))"
    unfolding walk_page_def Let_def limit_def [symmetric] cand_def [symmetric] rows_def [symmetric] by (simp add: w front_def)
  have small: "rest = []" if "length (read_all q ix) < related_window"
    using e that unfolding all front_def [symmetric] by (auto simp: rest_def)
  show "fst (walk_page q ix) = read_all q ix" if "length (read_all q ix) < related_window"
    using small [OF that] that unfolding page all by simp
  show "snd (walk_page q ix) = take (page_limit q) (sort_key (page_key q) (filter (wanted q) (read_all q ix)))"
  proof (cases "rest = []")
    case True
    then show ?thesis by (simp add: page all limit_def)
  next
    case False
    then have "limit \<le> length (filter (wanted q) front)" using e by (auto simp: rest_def front_def cand_def)
    moreover have "sorted (map (page_key q) (front @ rest))" using assms(2) small False unfolding all by blast
    then have "sort_key (page_key q) (filter (wanted q) front) = filter (wanted q) front"
      "sort_key (page_key q) (filter (wanted q) (front @ rest)) = filter (wanted q) (front @ rest)"
      by (auto intro!: sorted_sort_id sort_key_id_if_sorted sorted_filter simp: sorted_append)
    ultimately show ?thesis by (simp add: page all limit_def)
  qed
qed

end
