(* ===== verification/Ulpf_Rebuild.thy ===== *)
theory Ulpf_Rebuild
  imports Ulpf_Timeline Ulpf_Replay
begin

text \<open>
  \<open>rebuild\<close> of \<open>src/crates/ulpf/src/pivot.rs\<close>: the entity index derived again from the lines of the output. Reading and writing
  JSON text are the parameters \<open>read_json\<close> and \<open>show_json\<close>; \<open>value_get\<close> is \<open>Value::get\<close> with a name, and \<open>Value::pointer\<close> takes
  the same steps, as no part of the two pointers is a number. The old file of the index is removed and the writer starts on an empty one.
\<close>

subsection \<open>The entities of a line\<close>

definition text_of :: "(jvalue \<Rightarrow> bytes) \<Rightarrow> jvalue \<Rightarrow> bytes" where
  "text_of show_json v = (case v of VStr s \<Rightarrow> s | _ \<Rightarrow> show_json v)"

fun walk_value :: "bytes list \<Rightarrow> jvalue \<Rightarrow> jvalue option" where
  "walk_value [] v = Some v"
| "walk_value (k # ks) v = (case value_get k v of None \<Rightarrow> None | Some w \<Rightarrow> walk_value ks w)"

definition at_path :: "(jvalue \<Rightarrow> bytes) \<Rightarrow> jvalue \<Rightarrow> bytes \<Rightarrow> bytes option" where
  "at_path show_json v path =
     (case walk_value (path_parts path) v of
        None \<Rightarrow> None | Some VNull \<Rightarrow> None | Some w \<Rightarrow> Some (text_of show_json w))"

definition line_raw_id :: "jvalue \<Rightarrow> nat" where
  "line_raw_id v = (case walk_value [''ulpf'', ''raw_id''] v of Some (VInt i) \<Rightarrow> if 0 \<le> i \<and> i < 2 ^ 64 then nat i else 0 | _ \<Rightarrow> 0)"

definition line_time :: "jvalue \<Rightarrow> int" where
  "line_time v = (case value_get ''time'' v of Some (VInt i) \<Rightarrow> if i64_ok i then i else 0 | _ \<Rightarrow> 0)"

definition line_device :: "(jvalue \<Rightarrow> bytes) \<Rightarrow> entities \<Rightarrow> jvalue \<Rightarrow> bytes" where
  "line_device show_json ents v =
     (case (case entity_path ents Device of None \<Rightarrow> None | Some p \<Rightarrow> at_path show_json v p) of
        Some d \<Rightarrow> d
      | None \<Rightarrow> (case walk_value [''metadata'', ''log_name''] v of Some w \<Rightarrow> text_of show_json w | None \<Rightarrow> []))"

definition line_postings :: "(jvalue \<Rightarrow> bytes) \<Rightarrow> entities \<Rightarrow> nat \<Rightarrow> bytes \<Rightarrow> jvalue \<Rightarrow> posting list" where
  "line_postings show_json ents at line v =
     List.map_filter (\<lambda>k. case entity_path ents k of
          None \<Rightarrow> None
        | Some p \<Rightarrow>
            (case at_path show_json v p of
               None \<Rightarrow> None
             | Some x \<Rightarrow>
                 if x = [] then None
                 else Some \<lparr>po_id = line_raw_id v, po_time = line_time v, po_kind = k, po_value = x,
                        po_device = line_device show_json ents v, po_parser = parser_of v, po_offset = at, po_len = u32 (length line)\<rparr>))
       all_entities"

subsection \<open>The loop over the lines\<close>

record rebuild_report =
  rb_events :: nat
  rb_postings :: nat
  rb_unreadable :: nat

text \<open>The batches pushed so far, the postings gathered for the next one, and the report.\<close>

record rebuilding =
  rg_pushed :: "posting list list"
  rg_pending :: "posting list"
  rg_report :: rebuild_report

definition flush_pending :: "rebuilding \<Rightarrow> rebuilding" where
  "flush_pending g =
     (if rg_pending g = [] then g
      else g\<lparr>rg_pushed := rg_pushed g @ [rg_pending g], rg_pending := [],
             rg_report := (rg_report g)\<lparr>rb_postings := rb_postings (rg_report g) + length (rg_pending g)\<rparr>\<rparr>)"

definition rebuild_line ::
  "(bytes \<Rightarrow> jvalue option) \<Rightarrow> (jvalue \<Rightarrow> bytes) \<Rightarrow> entities \<Rightarrow> nat \<Rightarrow> nat \<times> bytes \<Rightarrow> rebuilding \<Rightarrow> rebuilding"
where
  "rebuild_line read_json show_json ents per_batch x g =
     (case x of (at, line) \<Rightarrow>
      let trimmed = (if line \<noteq> [] \<and> last line = LF then butlast line else line) in
      if trimmed = [] then g
      else
        (case read_json trimmed of
           None \<Rightarrow> g\<lparr>rg_report := (rg_report g)\<lparr>rb_unreadable := rb_unreadable (rg_report g) + 1\<rparr>\<rparr>
         | Some v \<Rightarrow>
             let g1 = g\<lparr>rg_pending := rg_pending g @ line_postings show_json ents at trimmed v,
                        rg_report := (rg_report g)\<lparr>rb_events := rb_events (rg_report g) + 1\<rparr>\<rparr> in
             if per_batch \<le> length (rg_pending g1) then flush_pending g1 else g1))"

text \<open>\<open>split_inclusive\<close> with the offset of each piece.\<close>

fun piece_offsets :: "nat \<Rightarrow> bytes list \<Rightarrow> (nat \<times> bytes) list" where
  "piece_offsets at [] = []"
| "piece_offsets at (l # ls) = (at, l) # piece_offsets (at + length l) ls"

definition rebuild ::
  "(bytes \<Rightarrow> jvalue option) \<Rightarrow> (jvalue \<Rightarrow> bytes) \<Rightarrow> entities \<Rightarrow> nat \<Rightarrow> bytes \<Rightarrow> posting list list \<times> rebuild_report"
where
  "rebuild read_json show_json ents per_batch output =
     (let g = flush_pending (fold (rebuild_line read_json show_json ents per_batch) (piece_offsets 0 (pieces output))
                \<lparr>rg_pushed = [], rg_pending = [], rg_report = \<lparr>rb_events = 0, rb_postings = 0, rb_unreadable = 0\<rparr>\<rparr>) in
      (rg_pushed g, rg_report g))"

subsection \<open>What the rebuilt index holds\<close>

text \<open>The line without its line feed, and the postings it states.\<close>

definition stated ::
  "(bytes \<Rightarrow> jvalue option) \<Rightarrow> (jvalue \<Rightarrow> bytes) \<Rightarrow> entities \<Rightarrow> nat \<times> bytes \<Rightarrow> posting list"
where
  "stated read_json show_json ents x =
     (let line = (if snd x \<noteq> [] \<and> last (snd x) = LF then butlast (snd x) else snd x) in
      if line = [] then [] else (case read_json line of None \<Rightarrow> [] | Some v \<Rightarrow> line_postings show_json ents (fst x) line v))"

definition gathered :: "rebuilding \<Rightarrow> posting list" where
  "gathered g = concat (rg_pushed g) @ rg_pending g"

definition counted :: "rebuilding \<Rightarrow> bool" where
  "counted g \<longleftrightarrow> rb_postings (rg_report g) = length (concat (rg_pushed g)) \<and> [] \<notin> set (rg_pushed g)"

lemma flush_pending_keeps: "gathered (flush_pending g) = gathered g" "counted g \<Longrightarrow> counted (flush_pending g)" "rg_pending (flush_pending g) = []"
  by (auto simp: flush_pending_def gathered_def counted_def)

lemma rebuild_line_gathers:
  "gathered (rebuild_line read_json show_json ents per_batch x g) = gathered g @ stated read_json show_json ents x"
  "counted g \<Longrightarrow> counted (rebuild_line read_json show_json ents per_batch x g)"
proof -
  obtain at line where x: "x = (at, line)" by (cases x)
  define t where "t = (if line \<noteq> [] \<and> last line = LF then butlast line else line)"
  define step where "step = (\<lambda>v. g\<lparr>rg_pending := rg_pending g @ line_postings show_json ents at t v,
    rg_report := (rg_report g)\<lparr>rb_events := rb_events (rg_report g) + 1\<rparr>\<rparr>)"
  have step: "gathered (step v) = gathered g @ line_postings show_json ents at t v" "counted g \<Longrightarrow> counted (step v)" for v
    by (simp_all add: step_def gathered_def counted_def)
  have line: "rebuild_line read_json show_json ents per_batch x g =
    (if t = [] then g else case read_json t of
       None \<Rightarrow> g\<lparr>rg_report := (rg_report g)\<lparr>rb_unreadable := rb_unreadable (rg_report g) + 1\<rparr>\<rparr>
     | Some v \<Rightarrow> if per_batch \<le> length (rg_pending (step v)) then flush_pending (step v) else step v)"
    unfolding rebuild_line_def x prod.case t_def step_def Let_def by (rule refl)
  show "gathered (rebuild_line read_json show_json ents per_batch x g) = gathered g @ stated read_json show_json ents x"
    unfolding line unfolding stated_def Let_def x fst_conv snd_conv t_def [symmetric]
    by (simp add: flush_pending_keeps(1) step split: option.split) (simp add: gathered_def)
  show "counted (rebuild_line read_json show_json ents per_batch x g)" if "counted g"
    unfolding line using that by (simp add: flush_pending_keeps(2) step split: option.split) (simp add: counted_def)
qed

lemma rebuild_lines_gather:
  "gathered (fold (rebuild_line read_json show_json ents per_batch) xs g) = gathered g @ concat (map (stated read_json show_json ents) xs)"
  "counted g \<Longrightarrow> counted (fold (rebuild_line read_json show_json ents per_batch) xs g)"
  by (induction xs arbitrary: g) (simp_all add: rebuild_line_gathers)

definition output_states ::
  "(bytes \<Rightarrow> jvalue option) \<Rightarrow> (jvalue \<Rightarrow> bytes) \<Rightarrow> entities \<Rightarrow> bytes \<Rightarrow> posting list"
where
  "output_states read_json show_json ents output = concat (map (stated read_json show_json ents) (piece_offsets 0 (pieces output)))"

lemma rebuild_pushes:
  assumes "rebuild read_json show_json ents per_batch output = (pushed, rep)"
  shows "concat pushed = output_states read_json show_json ents output" "rb_postings rep = length (concat pushed)" "[] \<notin> set pushed"
proof -
  define g where "g = fold (rebuild_line read_json show_json ents per_batch) (piece_offsets 0 (pieces output))
    \<lparr>rg_pushed = [], rg_pending = [], rg_report = \<lparr>rb_events = 0, rb_postings = 0, rb_unreadable = 0\<rparr>\<rparr>"
  have g: "gathered g = output_states read_json show_json ents output" "counted g"
    unfolding g_def rebuild_lines_gather(1) by (simp_all add: output_states_def gathered_def, intro rebuild_lines_gather(2))
      (simp add: counted_def)
  have r: "pushed = rg_pushed (flush_pending g)" "rep = rg_report (flush_pending g)"
    using assms unfolding rebuild_def g_def [symmetric] by (simp_all add: Let_def)
  have "concat pushed = gathered (flush_pending g)" unfolding r gathered_def flush_pending_keeps(3) by simp
  then show "concat pushed = output_states read_json show_json ents output" by (simp add: flush_pending_keeps(1) g(1))
  show "rb_postings rep = length (concat pushed)" "[] \<notin> set pushed"
    using flush_pending_keeps(2) [OF g(2)] unfolding r counted_def by simp_all
qed

text \<open>However the writer groups the batches a rebuild pushes, its index holds what the lines of the output state, and no more.\<close>

theorem rebuilt_index_holds:
  assumes "rebuild read_json show_json ents per_batch output = (pushed, rep)"
    "concat (map fst ts) = pushed" "list_all (\<lambda>t. snd t = None) ts" "list_all batch_ok pushed"
    "pivot_thread (map turn_input ts) index_new = (w, c)" "small_dicts (wr_index w)"
  shows "index_holds (wr_index w) (output_states read_json show_json ents output) \<and> pc_postings c = rb_postings rep \<and> pc_errors c = 0"
proof -
  note r = rebuild_pushes [OF assms(1)]
  have ok: "list_all (\<lambda>t. list_all batch_ok (fst t)) ts" using assms(4) unfolding assms(2) [symmetric] by (auto simp: list_all_iff)
  have "concat (map turn_postings ts) = concat (concat (map fst ts))"
    using assms(3) by (induction ts) (simp_all add: turn_postings_def)
  then have p: "concat (map turn_postings ts) = concat pushed" by (simp add: assms(2))
  have "filter (\<lambda>t. snd t \<noteq> None) ts = []" using assms(3) by (simp add: filter_empty_conv list_all_iff)
  with index_holds_written [OF ok index_holds_new assms(5,6)] show ?thesis by (simp add: p r)
qed

subsection \<open>What a page lists\<close>

text \<open>
  On an index that holds some postings, the page of an entity is its postings past the cursor in the order of the device
  time, cut to the limit, and its total is their number: also where device clocks disagree with the order of the ids.
\<close>

theorem page_lists_postings:
  assumes "index_holds ix ps" "length (select_rows q ix) \<le> page_row_budget"
    and "length (postings_at (query_key q) ps) < related_window"
    and "inj_on (page_key q) (entry_of ix ` set (postings_at (query_key q) ps))"
  shows "let listed = map (entry_of ix) (postings_at (query_key q) ps); page = pivot_query_page read_json out scanner ix q in
    pg_events page = map (event_view read_json out ix) (take (page_limit q) (sort_key (page_key q) (filter (wanted q) listed))) \<and>
    pg_total page = length listed"
proof -
  define listed where "listed = map (entry_of ix) (postings_at (query_key q) ps)"
  have e: "entries_of ix (query_key q) = listed" using assms(1) unfolding index_holds_def listed_def by blast
  then have m: "mset (read_all q ix) = mset listed" by (simp add: read_all_mset)
  then have "length (read_all q ix) = length listed" by (rule mset_eq_length)
  then have n: "length (read_all q ix) < related_window" using assms(3) by (simp add: listed_def)
  have "mset (filter (wanted q) (read_all q ix)) = mset (filter (wanted q) listed)" using m by (simp add: mset_filter)
  moreover have "set (read_all q ix) = set listed" using m by (rule mset_eq_setD)
  then have "inj_on (page_key q) (set (filter (wanted q) (read_all q ix)))"
    using assms(4) by (auto simp: listed_def intro: inj_on_subset)
  ultimately have "sort_key (page_key q) (filter (wanted q) (read_all q ix)) = sort_key (page_key q) (filter (wanted q) listed)"
    by (rule sort_key_mset)
  moreover have "snd (walk_page q ix) = take (page_limit q) (sort_key (page_key q) (filter (wanted q) (read_all q ix)))"
    by (rule walk_page_exact(1)) (use assms(2) n in simp_all)
  moreover have "map_of (ix_entities ix) (query_key q) = entity_for (postings_at (query_key q) ps)"
    using assms(1) unfolding index_holds_def by blast
  ultimately show ?thesis
    by (simp add: listed_def [symmetric] pivot_query_page_def Let_def split_beta) (simp add: entity_for_def listed_def)
qed

end
